(* ===== verification/NM_Prelude.thy ===== *)
theory NM_Prelude
  imports Main "HOL-Library.Word"
begin

text \<open>
  Shared vocabulary of the development: the machine types of the kernel sources, the error
  convention of \<^verbatim>\<open>include/nm/errno.h\<close>, the array scan that every table of the kernel uses to find
  a slot, ring-buffer segments, and the two interfaces that several components implement: a table
  of slots with a used flag (\<open>slot_table\<close>) and a bounded first-in-first-out queue
  (\<open>bounded_fifo\<close>).
\<close>

unbundle bit_operations_syntax

section \<open>Machine types and the error convention\<close>

type_synonym u8 = "8 word"
type_synonym u16 = "16 word"
type_synonym u32 = "32 word"
type_synonym u64 = "64 word"

text \<open>
  Pointers are 64-bit addresses and the null pointer is 0. Signed C integers are HOL integers; a
  conversion to \<^verbatim>\<open>int32_t\<close> that may not fit is written with \<open>s32\<close>, the two's-complement reduction.
\<close>

definition s32 :: "int \<Rightarrow> int" where
  "s32 x = signed_take_bit 31 x"

definition s64 :: "int \<Rightarrow> int" where
  "s64 x = signed_take_bit 63 x"

text \<open>The null character that ends a C string.\<close>

definition NUL :: char where
  "NUL = char_of (0 :: nat)"

definition NM_ERR :: "int \<Rightarrow> int" where
  "NM_ERR code = - code"

abbreviation (input) NM_OK :: int where "NM_OK \<equiv> 0"
abbreviation (input) NM_EFAIL :: int where "NM_EFAIL \<equiv> 1"
abbreviation (input) NM_ENOENT :: int where "NM_ENOENT \<equiv> 2"
abbreviation (input) NM_ENOMEM :: int where "NM_ENOMEM \<equiv> 12"
abbreviation (input) NM_EBUSY :: int where "NM_EBUSY \<equiv> 16"
abbreviation (input) NM_EINVAL :: int where "NM_EINVAL \<equiv> 22"
abbreviation (input) NM_ENOSYS :: int where "NM_ENOSYS \<equiv> 38"

declare NM_ERR_def [simp]

named_theorems nm_inv \<open>preservation of the components' invariants\<close>
named_theorems nm_frame \<open>what an operation leaves unchanged\<close>

lemma s32_id: "- (2 ^ 31) \<le> x \<Longrightarrow> x < 2 ^ 31 \<Longrightarrow> s32 x = x"
  unfolding s32_def by (rule signed_take_bit_int_eq_self) simp_all

lemma s64_id: "- (2 ^ 63) \<le> x \<Longrightarrow> x < 2 ^ 63 \<Longrightarrow> s64 x = x"
  unfolding s64_def by (rule signed_take_bit_int_eq_self) simp_all

lemma s64_uint:
  assumes "unat (k :: u64) < 2 ^ 63"
  shows "s64 (uint k) = int (unat k)"
proof -
  define m where "m = unat k"
  have "s64 (int m) = int m" using assms by (intro s64_id) (simp_all add: m_def [symmetric])
  moreover have "uint k = int (unat k)" by simp
  ultimately show ?thesis by (simp only: m_def)
qed

lemma s32_bounds: "- (2 ^ 31) \<le> s32 x" "s32 x < 2 ^ 31"
  unfolding s32_def
  using signed_take_bit_int_greater_eq_minus_exp [of 31 x] signed_take_bit_int_less_exp [of 31 x]
  by simp_all

lemma unat_of_nat64: "n < 2 ^ 64 \<Longrightarrow> unat (of_nat n :: u64) = n"
  by (simp add: take_bit_nat_eq_self_iff unsigned_of_nat)

lemma unat_of_nat32: "n < 2 ^ 32 \<Longrightarrow> unat (of_nat n :: u32) = n"
  by (simp add: take_bit_nat_eq_self_iff unsigned_of_nat)

lemma unat_of_nat16: "n < 2 ^ 16 \<Longrightarrow> unat (of_nat n :: u16) = n"
  by (simp add: take_bit_nat_eq_self_iff unsigned_of_nat)

lemma unat_add64: "unat a + unat b < 2 ^ 64 \<Longrightarrow> unat (a + b :: u64) = unat a + unat b"
  by (simp add: unat_word_ariths)

lemma unat_mult64: "unat a * unat b < 2 ^ 64 \<Longrightarrow> unat (a * b :: u64) = unat a * unat b"
  by (simp add: unat_word_ariths)

lemma unat_dec64: "0 < unat a \<Longrightarrow> unat (a - 1 :: u64) = unat a - 1"
  by (simp add: unat_minus_one unat_gt_0)

lemma unat_inc64: "unat a < 2 ^ 64 - 1 \<Longrightarrow> unat (a + 1 :: u64) = unat a + 1"
  by (simp add: unat_word_ariths)

lemma unat_sub64: "b \<le> a \<Longrightarrow> unat (a - b :: u64) = unat a - unat b"
  by (rule unat_sub)

lemma unat_bound32: "unat (x :: u32) < 2 ^ 32"
  using unsigned_less [of x] by simp

lemma unat_bound64: "unat (x :: u64) < 2 ^ 64"
  using unsigned_less [of x] by simp

lemma unat_ucast_32_64: "unat (ucast (x :: u32) :: u64) = unat x"
proof -
  have "unat x < 2 ^ 64" using unat_bound32 [of x] by simp
  then show ?thesis by (simp add: unsigned_ucast_eq take_bit_nat_eq_self_iff)
qed

section \<open>Loops that leave at the first hit\<close>

text \<open>
  A \<^verbatim>\<open>for\<close> loop whose body either continues (\<open>None\<close>) or leaves the loop with a value.
\<close>

primrec scan_first :: "('a \<Rightarrow> 'b option) \<Rightarrow> 'a list \<Rightarrow> 'b option" where
  "scan_first f [] = None"
| "scan_first f (x # xs) = (case f x of None \<Rightarrow> scan_first f xs | Some y \<Rightarrow> Some y)"

lemma scan_first_None_iff: "scan_first f xs = None \<longleftrightarrow> (\<forall>x\<in>set xs. f x = None)"
  by (induction xs) (auto split: option.splits)

lemma scan_first_SomeD: "scan_first f xs = Some y \<Longrightarrow> \<exists>x\<in>set xs. f x = Some y"
  by (induction xs) (auto split: option.splits)

lemma scan_first_ex: "x \<in> set xs \<Longrightarrow> f x = Some y \<Longrightarrow> \<exists>z. scan_first f xs = Some z"
  by (cases "scan_first f xs") (auto simp: scan_first_None_iff)

section \<open>Scanning a table for the first slot with a property\<close>

lemma nth_update_idx: "j < length xs \<Longrightarrow> xs[i := v] ! j = (if i = j then v else xs ! j)"
  by (cases "i < length xs") (simp_all add: nth_list_update list_update_beyond)

text \<open>
  The loop \<^verbatim>\<open>for (i = 0; i < N; i++) if (P(table[i])) return i;\<close> that allocates or looks up an entry
  of a static table.
\<close>

primrec first_idx :: "('a \<Rightarrow> bool) \<Rightarrow> 'a list \<Rightarrow> nat option" where
  "first_idx P [] = None"
| "first_idx P (x # xs) = (if P x then Some 0 else map_option Suc (first_idx P xs))"

lemma first_idx_None_iff: "first_idx P xs = None \<longleftrightarrow> (\<forall>x\<in>set xs. \<not> P x)"
  by (induction xs) auto

lemma first_idx_None_nth: "first_idx P xs = None \<longleftrightarrow> (\<forall>i<length xs. \<not> P (xs ! i))"
  by (simp add: first_idx_None_iff all_set_conv_all_nth)

lemma first_idx_Some_iff:
  "first_idx P xs = Some i \<longleftrightarrow> i < length xs \<and> P (xs ! i) \<and> (\<forall>j<i. \<not> P (xs ! j))"
proof (induction xs arbitrary: i)
  case Nil
  then show ?case by simp
next
  case (Cons x xs)
  show ?case
    by (cases i) (auto simp: Cons.IH less_Suc_eq_0_disj)
qed

lemma first_idx_SomeD:
  assumes "first_idx P xs = Some i"
  shows "i < length xs" "P (xs ! i)" "\<And>j. j < i \<Longrightarrow> \<not> P (xs ! j)"
  using assms by (simp_all add: first_idx_Some_iff)

lemma first_idx_ex: "i < length xs \<Longrightarrow> P (xs ! i) \<Longrightarrow> \<exists>j. first_idx P xs = Some j \<and> j \<le> i"
proof -
  assume "i < length xs" "P (xs ! i)"
  then obtain j where j: "first_idx P xs = Some j"
    by (cases "first_idx P xs") (auto simp: first_idx_None_nth)
  then have "j \<le> i"
    using \<open>P (xs ! i)\<close> by (meson first_idx_SomeD(3) not_le)
  with j show ?thesis by blast
qed

lemma first_idx_replicate: "first_idx P (replicate n x) = (if 0 < n \<and> P x then Some 0 else None)"
  by (cases n) (auto simp: first_idx_None_iff)

lemma first_idx_append:
  "first_idx P (xs @ ys) = (case first_idx P xs of Some i \<Rightarrow> Some i | None \<Rightarrow> map_option (\<lambda>j. length xs + j) (first_idx P ys))"
proof (induction xs)
  case Nil
  then show ?case by (cases "first_idx P ys") simp_all
next
  case (Cons x xs)
  then show ?case by (cases "first_idx P xs"; cases "first_idx P ys") simp_all
qed

lemma first_idx_cong:
  "length xs = length ys \<Longrightarrow> (\<And>i. i < length xs \<Longrightarrow> P (xs ! i) = Q (ys ! i)) \<Longrightarrow>
   first_idx P xs = first_idx Q ys"
  by (induction xs ys rule: list_induct2) (auto simp: nth_Cons' split: if_splits, force+)

section \<open>Counting the entries of a table\<close>

definition count_if :: "('a \<Rightarrow> bool) \<Rightarrow> 'a list \<Rightarrow> nat" where
  "count_if P xs = length (filter P xs)"

lemma count_if_Nil [simp]: "count_if P [] = 0"
  by (simp add: count_if_def)

lemma count_if_Cons [simp]: "count_if P (x # xs) = (if P x then Suc (count_if P xs) else count_if P xs)"
  by (simp add: count_if_def)

lemma count_if_append [simp]: "count_if P (xs @ ys) = count_if P xs + count_if P ys"
  by (simp add: count_if_def)

lemma count_if_le: "count_if P xs \<le> length xs"
  by (simp add: count_if_def)

lemma count_if_replicate: "count_if P (replicate n x) = (if P x then n else 0)"
  by (induction n) auto

lemma count_if_update:
  "i < length xs \<Longrightarrow>
   count_if P (xs[i := v]) + (if P (xs ! i) then 1 else 0) = count_if P xs + (if P v then 1 else 0)"
proof (induction xs arbitrary: i)
  case Nil
  then show ?case by simp
next
  case (Cons x xs)
  show ?case
  proof (cases i)
    case 0
    then show ?thesis by simp
  next
    case (Suc j)
    with Cons.prems Cons.IH [of j] show ?thesis by (auto split: if_splits)
  qed
qed

lemma count_if_update_same:
  "(i < length xs \<Longrightarrow> P v = P (xs ! i)) \<Longrightarrow> count_if P (xs[i := v]) = count_if P xs"
  using count_if_update [of i xs P v] by (cases "i < length xs") (auto split: if_splits simp: list_update_beyond)

lemma count_if_claim:
  "i < length xs \<Longrightarrow> \<not> P (xs ! i) \<Longrightarrow> P v \<Longrightarrow> count_if P (xs[i := v]) = Suc (count_if P xs)"
  using count_if_update [of i xs P v] by simp

lemma count_if_drop:
  "i < length xs \<Longrightarrow> P (xs ! i) \<Longrightarrow> \<not> P v \<Longrightarrow> Suc (count_if P (xs[i := v])) = count_if P xs"
  using count_if_update [of i xs P v] by simp

lemma count_if_pos: "0 < count_if P xs \<longleftrightarrow> (\<exists>i<length xs. P (xs ! i))"
  by (auto simp: count_if_def filter_empty_conv in_set_conv_nth intro: nth_mem)

lemma count_if_full: "count_if P xs = length xs \<longleftrightarrow> (\<forall>i<length xs. P (xs ! i))"
  by (metis all_set_conv_all_nth count_if_def filter_True length_filter_less less_irrefl)

lemma sum_list_map_update:
  "i < length xs \<Longrightarrow> sum_list (map f (xs[i := v])) + f (xs ! i) = sum_list (map f xs) + (f v :: nat)"
proof (induction xs arbitrary: i)
  case Nil
  then show ?case by simp
next
  case (Cons x xs)
  then show ?case by (cases i) auto
qed

lemma sum_list_map_member: "i < length xs \<Longrightarrow> f (xs ! i) \<le> sum_list (map f xs :: nat list)"
  using elem_le_sum_list [of i "map f xs"] by simp

section \<open>Tables of slots with a used flag\<close>

text \<open>
  The contract of every allocator of a static table in the kernel (\<^verbatim>\<open>alloc_fdobj\<close>, \<^verbatim>\<open>alloc_fd\<close>,
  \<^verbatim>\<open>alloc_node\<close>, \<^verbatim>\<open>alloc_conn\<close>, \<^verbatim>\<open>alloc_socket_unlocked\<close>): the first unused slot is claimed and
  reset, and nothing else of the table changes.
\<close>

locale slot_table =
  fixes used :: "'e \<Rightarrow> bool"
    and claim :: "'e \<Rightarrow> 'e"
    and alloc :: "'e list \<Rightarrow> (nat \<times> 'e list) option"
  assumes claim_used: "used (claim e)"
    and alloc_eq: "alloc t = map_option (\<lambda>i. (i, t[i := claim (t ! i)])) (first_idx (\<lambda>e. \<not> used e) t)"
begin

lemma alloc_None_iff: "alloc t = None \<longleftrightarrow> count_if used t = length t"
  by (simp add: alloc_eq first_idx_None_nth count_if_full)

lemma alloc_SomeD:
  assumes "alloc t = Some (i, t')"
  shows "i < length t" "\<not> used (t ! i)" "t' = t[i := claim (t ! i)]"
    "\<And>j. j < i \<Longrightarrow> used (t ! j)"
  using assms by (auto simp: alloc_eq dest: first_idx_SomeD)

lemma alloc_length: "alloc t = Some (i, t') \<Longrightarrow> length t' = length t"
  by (auto dest: alloc_SomeD(3))

lemma alloc_used: "alloc t = Some (i, t') \<Longrightarrow> used (t' ! i)"
  using alloc_SomeD [of t i t'] by (simp add: claim_used)

lemma alloc_other: "alloc t = Some (i, t') \<Longrightarrow> j \<noteq> i \<Longrightarrow> t' ! j = t ! j"
  using alloc_SomeD [of t i t'] by simp

lemma alloc_count: "alloc t = Some (i, t') \<Longrightarrow> count_if used t' = Suc (count_if used t)"
  using alloc_SomeD [of t i t'] by (simp add: count_if_claim claim_used)

lemma alloc_possible: "i < length t \<Longrightarrow> \<not> used (t ! i) \<Longrightarrow> \<exists>j t'. alloc t = Some (j, t') \<and> j \<le> i"
  using first_idx_ex [of i t "\<lambda>e. \<not> used e"] by (auto simp: alloc_eq)

end

section \<open>Segments of a ring buffer\<close>

lemma mod_less_twice: "x < 2 * N \<Longrightarrow> x mod N = (if x < N then x else x - (N :: nat))"
  by (auto simp: le_mod_geq)

text \<open>
  \<open>ring_seg buf start n\<close> is what a reader finds in the \<open>n\<close> cells of the ring from index \<open>start\<close> on.
\<close>

definition ring_seg :: "'a list \<Rightarrow> nat \<Rightarrow> nat \<Rightarrow> 'a list" where
  "ring_seg buf start n = map (\<lambda>k. buf ! ((start + k) mod length buf)) [0..<n]"

lemma length_ring_seg [simp]: "length (ring_seg buf start n) = n"
  by (simp add: ring_seg_def)

lemma ring_seg_0 [simp]: "ring_seg buf start 0 = []"
  by (simp add: ring_seg_def)

lemma ring_seg_nth: "k < n \<Longrightarrow> ring_seg buf start n ! k = buf ! ((start + k) mod length buf)"
  by (simp add: ring_seg_def)

lemma ring_seg_mod: "ring_seg buf (start mod length buf) n = ring_seg buf start n"
  by (simp add: ring_seg_def mod_add_left_eq)

lemma ring_seg_snoc: "ring_seg buf start (Suc n) = ring_seg buf start n @ [buf ! ((start + n) mod length buf)]"
  by (simp add: ring_seg_def)

lemma ring_seg_Cons: "ring_seg buf start (Suc n) = buf ! (start mod length buf) # ring_seg buf (Suc start) n"
  unfolding ring_seg_def by (simp add: upt_conv_Cons map_Suc_upt [symmetric] del: upt_Suc)

lemma ring_seg_tl: "0 < n \<Longrightarrow> tl (ring_seg buf start n) = ring_seg buf (Suc start) (n - 1)"
  by (cases n) (simp_all add: ring_seg_Cons)

lemma ring_index_neq: "k < n \<Longrightarrow> n < N \<Longrightarrow> (start + k) mod N \<noteq> (start + n) mod (N :: nat)"
proof
  assume "k < n" "n < N" and eq: "(start + k) mod N = (start + n) mod N"
  then have "N dvd (start + n) - (start + k)"
    using mod_eq_dvd_iff_nat [of "start + k" "start + n" N] by simp
  then have "N dvd n - k" by simp
  with \<open>k < n\<close> \<open>n < N\<close> show False by (auto dest: dvd_imp_le)
qed

lemma ring_seg_update:
  "n < length buf \<Longrightarrow> ring_seg (buf[(start + n) mod length buf := x]) start n = ring_seg buf start n"
  by (rule nth_equalityI) (simp_all add: ring_seg_nth, metis nth_list_update_neq ring_index_neq)

lemma ring_seg_push:
  "n < length buf \<Longrightarrow>
   ring_seg (buf[(start + n) mod length buf := x]) start (Suc n) = ring_seg buf start n @ [x]"
  by (cases "length buf = 0") (simp_all add: ring_seg_snoc ring_seg_update)

text \<open>
  Rings with a head (next cell to write) and a tail (next cell to read) below the capacity \<open>N\<close>
  hold \<open>(h + N - t) mod N\<close> elements: how that number moves with the two indices.
\<close>

lemma ring_dist_cases:
  assumes "h < N" "t < N" "k = (h + N - t) mod (N :: nat)"
  shows "(h + 1) mod N = t \<longleftrightarrow> k = N - 1"
    and "k \<noteq> N - 1 \<Longrightarrow> ((h + 1) mod N + N - t) mod N = Suc k"
    and "k = N - 1 \<Longrightarrow> ((h + 1) mod N + N - (t + 1) mod N) mod N = k"
proof -
  have k: "k = (if t \<le> h then h - t else h + N - t)"
    using assms by (subst assms(3), subst mod_less_twice) auto
  have h1: "(h + 1) mod N = (if Suc h = N then 0 else Suc h)"
    using assms(1) by (subst mod_less_twice) auto
  have t1: "(t + 1) mod N = (if Suc t = N then 0 else Suc t)"
    using assms(2) by (subst mod_less_twice) auto
  show "(h + 1) mod N = t \<longleftrightarrow> k = N - 1"
    unfolding h1 k using assms(1,2) by auto
  show "k \<noteq> N - 1 \<Longrightarrow> ((h + 1) mod N + N - t) mod N = Suc k"
    unfolding h1 k using assms(1,2) by (subst mod_less_twice) (auto split: if_splits)
  show "k = N - 1 \<Longrightarrow> ((h + 1) mod N + N - (t + 1) mod N) mod N = k"
    unfolding h1 t1 k using assms(1,2) by (subst mod_less_twice) (auto split: if_splits)
qed

lemma ring_dist_step:
  assumes "h < N" "p < N" "Suc k = (h + N - p) mod (N :: nat)"
  shows "k = (h + N - (p + 1) mod N) mod N"
proof -
  have k: "Suc k = (if p \<le> h then h - p else h + N - p)"
    using assms by (subst assms(3), subst mod_less_twice) auto
  have p1: "(p + 1) mod N = (if Suc p = N then 0 else Suc p)"
    using assms(2) by (subst mod_less_twice) auto
  show ?thesis
    unfolding p1 using assms(1,2) k by (subst mod_less_twice) (auto split: if_splits)
qed

section \<open>Bounded first-in-first-out queues\<close>

text \<open>Pushing or popping several elements, stopping where the queue refuses.\<close>

fun enq_all :: "('a \<Rightarrow> 'q \<Rightarrow> 'q option) \<Rightarrow> 'a list \<Rightarrow> 'q \<Rightarrow> 'q option" where
  "enq_all enq [] q = Some q"
| "enq_all enq (x # xs) q = (case enq x q of None \<Rightarrow> None | Some q' \<Rightarrow> enq_all enq xs q')"

fun deq_all :: "('q \<Rightarrow> ('a \<times> 'q) option) \<Rightarrow> nat \<Rightarrow> 'q \<Rightarrow> 'a list \<times> 'q" where
  "deq_all deq 0 q = ([], q)"
| "deq_all deq (Suc n) q =
     (case deq q of None \<Rightarrow> ([], q)
      | Some (x, q') \<Rightarrow> (let (xs, q'') = deq_all deq n q' in (x # xs, q'')))"

text \<open>The number of elements taken before the queue refuses, and the queue after them.\<close>

fun enq_some :: "('a \<Rightarrow> 'q \<Rightarrow> 'q option) \<Rightarrow> 'a list \<Rightarrow> 'q \<Rightarrow> nat \<times> 'q" where
  "enq_some enq [] q = (0, q)"
| "enq_some enq (x # xs) q =
     (case enq x q of None \<Rightarrow> (0, q) | Some q' \<Rightarrow> (let (n, q'') = enq_some enq xs q' in (Suc n, q'')))"

text \<open>
  The contract of a queue of at most \<open>cap\<close> elements. \<open>ready n q\<close> says that \<open>n\<close> more elements can be
  pushed before a position counter of the implementation would wrap; a ring whose indices are kept
  below the capacity is always ready.
\<close>

locale bounded_fifo =
  fixes enq :: "'a \<Rightarrow> 'q \<Rightarrow> 'q option"
    and deq :: "'q \<Rightarrow> ('a \<times> 'q) option"
    and contents :: "'q \<Rightarrow> 'a list"
    and invar :: "'q \<Rightarrow> bool"
    and ready :: "nat \<Rightarrow> 'q \<Rightarrow> bool"
    and cap :: nat
  assumes enq_room: "invar q \<Longrightarrow> ready (Suc n) q \<Longrightarrow> length (contents q) < cap \<Longrightarrow>
      \<exists>q'. enq x q = Some q' \<and> invar q' \<and> ready n q' \<and> contents q' = contents q @ [x]"
    and enq_full: "invar q \<Longrightarrow> length (contents q) = cap \<Longrightarrow> enq x q = None"
    and bounded: "invar q \<Longrightarrow> length (contents q) \<le> cap"
    and deq_empty: "invar q \<Longrightarrow> contents q = [] \<Longrightarrow> deq q = None"
    and deq_front: "invar q \<Longrightarrow> contents q \<noteq> [] \<Longrightarrow>
      \<exists>q'. deq q = Some (hd (contents q), q') \<and> invar q' \<and> (\<forall>n. ready n q \<longrightarrow> ready n q') \<and> contents q' = tl (contents q)"
begin

lemma enq_all_room:
  "invar q \<Longrightarrow> ready (length xs) q \<Longrightarrow> length (contents q) + length xs \<le> cap \<Longrightarrow>
   \<exists>q'. enq_all enq xs q = Some q' \<and> invar q' \<and> contents q' = contents q @ xs"
proof (induction xs arbitrary: q)
  case Nil
  then show ?case by simp
next
  case (Cons x xs)
  then obtain q1 where q1: "enq x q = Some q1" "invar q1" "ready (length xs) q1" "contents q1 = contents q @ [x]"
    using enq_room [of q "length xs" x] by auto
  then obtain q2 where "enq_all enq xs q1 = Some q2" "invar q2" "contents q2 = contents q1 @ xs"
    using Cons.IH [of q1] Cons.prems by auto
  with q1 show ?case by simp
qed

lemma enq_some_spec:
  "invar q \<Longrightarrow> ready (length xs) q \<Longrightarrow>
   \<exists>q'. enq_some enq xs q = (min (length xs) (cap - length (contents q)), q') \<and> invar q' \<and>
     contents q' = contents q @ take (cap - length (contents q)) xs"
proof (induction xs arbitrary: q)
  case Nil
  then show ?case by simp
next
  case (Cons x xs)
  show ?case
  proof (cases "length (contents q) = cap")
    case True
    then show ?thesis using Cons.prems by (simp add: enq_full)
  next
    case False
    then have lt: "length (contents q) < cap" using bounded [OF Cons.prems(1)] by simp
    then obtain q1 where q1: "enq x q = Some q1" "invar q1" "ready (length xs) q1" "contents q1 = contents q @ [x]"
      using enq_room [of q "length xs" x] Cons.prems by auto
    obtain q2 where q2: "enq_some enq xs q1 = (min (length xs) (cap - length (contents q1)), q2)" "invar q2"
      "contents q2 = contents q1 @ take (cap - length (contents q1)) xs"
      using Cons.IH [OF q1(2,3)] by blast
    obtain k where "cap - length (contents q) = Suc k" "cap - length (contents q1) = k"
      using lt q1(4) by (cases "cap - length (contents q)") auto
    then show ?thesis using q1 q2 by simp
  qed
qed

lemma deq_all_spec:
  "invar q \<Longrightarrow>
   \<exists>q'. deq_all deq n q = (take n (contents q), q') \<and> invar q' \<and> contents q' = drop n (contents q)"
proof (induction n arbitrary: q)
  case 0
  then show ?case by simp
next
  case (Suc n)
  show ?case
  proof (cases "contents q = []")
    case True
    with Suc.prems show ?thesis by (simp add: deq_empty)
  next
    case False
    then obtain q1 where q1: "deq q = Some (hd (contents q), q1)" "invar q1" "contents q1 = tl (contents q)"
      using deq_front [of q] Suc.prems by auto
    obtain q2 where "deq_all deq n q1 = (take n (contents q1), q2)" "invar q2"
      "contents q2 = drop n (contents q1)"
      using Suc.IH [of q1] q1 by auto
    with q1 False show ?thesis by (cases "contents q") auto
  qed
qed

lemma fifo_roundtrip:
  assumes "invar q" "ready (length xs) q" "contents q = []" "length xs \<le> cap"
  shows "\<exists>q1 q2. enq_all enq xs q = Some q1 \<and> deq_all deq (length xs) q1 = (xs, q2) \<and>
    invar q2 \<and> contents q2 = []"
proof -
  obtain q1 where q1: "enq_all enq xs q = Some q1" "invar q1" "contents q1 = xs"
    using enq_all_room [of q xs] assms by auto
  then show ?thesis using deq_all_spec [of q1 "length xs"] by auto
qed

end

end
