(* ===== verification/Pmm.thy ===== *)
theory Pmm
  imports NM_Prelude
begin

text \<open>
  The physical page allocator of \<^verbatim>\<open>kernel/mm/pmm.c\<close> (the kernel build; the host build of the
  same file is in the theory \<open>Host_Pmm\<close>): a bitmap with one bit per 4 KiB frame, a bit being set for a frame in
  use, four counters and a cursor. Addresses, counters and lengths are 64-bit words; the bitmap is a
  list of 64-bit words, which in the kernel lies at physical address \<open>bitmap_phys_base\<close>. The two
  linker symbols that delimit the kernel image are a parameter. The spin lock brackets each
  operation; the operations are modelled as atomic.
\<close>

section \<open>State\<close>

definition PAGE_SIZE :: u64 where
  "PAGE_SIZE = 4096"

definition KERNEL_VIRT_BASE :: u64 where
  "KERNEL_VIRT_BASE = 0xFFFFFFFF80000000"

definition MAX_FRAMES :: u64 where
  "MAX_FRAMES = (128 * 1024 * 1024 * 1024) div PAGE_SIZE"

definition BITMAP_WORD_BITS :: u64 where
  "BITMAP_WORD_BITS = 64"

definition NM_MEM_AVAILABLE :: u32 where
  "NM_MEM_AVAILABLE = 1"

record nm_mem_range =
  mr_base :: u64
  mr_length :: u64
  mr_type :: u32

record nm_mm_stats =
  total_frames :: u64
  free_frames :: u64
  used_frames :: u64
  reserved_frames :: u64

record pmm_state =
  mm_stats :: nm_mm_stats
  frame_bitmap :: "u64 list"
  frame_limit :: u64
  bitmap_words :: u64
  bitmap_phys_base :: u64
  bitmap_bytes :: u64
  alloc_word_cursor :: u64

text \<open>The linker symbols \<^verbatim>\<open>__kernel_phys_start\<close> and \<^verbatim>\<open>__kernel_phys_end\<close>.\<close>

record kernel_image =
  kernel_phys_start :: u64
  kernel_phys_end :: u64

section \<open>Operations\<close>

definition align_up_u64 :: "u64 \<Rightarrow> u64 \<Rightarrow> u64" where
  "align_up_u64 value align = (value + align - 1) AND NOT (align - 1)"

definition kernel_symbol_to_phys :: "u64 \<Rightarrow> u64" where
  "kernel_symbol_to_phys addr = (if addr \<ge> KERNEL_VIRT_BASE then addr - KERNEL_VIRT_BASE else addr)"

definition init_runtime_bitmap :: "kernel_image \<Rightarrow> u64 \<Rightarrow> u64 \<Rightarrow> pmm_state \<Rightarrow> pmm_state" where
  "init_runtime_bitmap img frames min_phys_base s =
     (let frames = (if frames = 0 then 1 else frames);
          frames = (if frames > MAX_FRAMES then MAX_FRAMES else frames);
          words = (frames + BITMAP_WORD_BITS - 1) div BITMAP_WORD_BITS;
          kernel_end_phys = kernel_symbol_to_phys (kernel_phys_end img);
          base = (if min_phys_base < kernel_end_phys then kernel_end_phys else min_phys_base)
      in s\<lparr>frame_limit := frames, bitmap_words := words, bitmap_bytes := words * 8,
           bitmap_phys_base := align_up_u64 base PAGE_SIZE\<rparr>)"

definition frame_valid :: "pmm_state \<Rightarrow> u64 \<Rightarrow> bool" where
  "frame_valid s frame \<longleftrightarrow> frame < frame_limit s"

definition frame_word :: "u64 \<Rightarrow> nat" where
  "frame_word frame = unat (frame div BITMAP_WORD_BITS)"

definition frame_mask :: "u64 \<Rightarrow> u64" where
  "frame_mask frame = push_bit (unat (frame mod BITMAP_WORD_BITS)) 1"

definition set_frame :: "u64 \<Rightarrow> pmm_state \<Rightarrow> pmm_state" where
  "set_frame frame s =
     (if \<not> frame_valid s frame then s
      else s\<lparr>frame_bitmap := (frame_bitmap s)
               [frame_word frame := (frame_bitmap s ! frame_word frame) OR frame_mask frame]\<rparr>)"

definition clear_frame :: "u64 \<Rightarrow> pmm_state \<Rightarrow> pmm_state" where
  "clear_frame frame s =
     (if \<not> frame_valid s frame then s
      else s\<lparr>frame_bitmap := (frame_bitmap s)
               [frame_word frame := (frame_bitmap s ! frame_word frame) AND NOT (frame_mask frame)]\<rparr>)"

definition test_frame :: "pmm_state \<Rightarrow> u64 \<Rightarrow> bool" where
  "test_frame s frame =
     (if \<not> frame_valid s frame then True
      else (frame_bitmap s ! frame_word frame) AND frame_mask frame \<noteq> 0)"

definition mark_all_used :: "pmm_state \<Rightarrow> pmm_state" where
  "mark_all_used s =
     s\<lparr>frame_bitmap := replicate (unat (bitmap_words s)) (- 1),
       mm_stats := \<lparr>total_frames = frame_limit s, free_frames = 0, used_frames = frame_limit s,
                    reserved_frames = 0\<rparr>,
       alloc_word_cursor := 0\<rparr>"

text \<open>The compiler builtin \<^verbatim>\<open>__builtin_ctzll\<close>: the index of the lowest set bit.\<close>

definition ctzll :: "u64 \<Rightarrow> nat" where
  "ctzll w = (case first_idx (bit w) [0..<64] of Some i \<Rightarrow> i | None \<Rightarrow> 64)"

definition stats_take :: "u64 \<Rightarrow> nm_mm_stats \<Rightarrow> nm_mm_stats" where
  "stats_take n st = st\<lparr>free_frames := free_frames st - n, used_frames := used_frames st + n\<rparr>"

definition stats_give :: "nm_mm_stats \<Rightarrow> nm_mm_stats" where
  "stats_give st = st\<lparr>free_frames := free_frames st + 1, used_frames := used_frames st - 1\<rparr>"

text \<open>One pass of the single-page loop: the first valid free frame of a bitmap word, if any.\<close>

definition single_pass :: "pmm_state \<Rightarrow> nat \<Rightarrow> (u64 \<times> u64) option" where
  "single_pass s pass =
     (let word_idx = (alloc_word_cursor s + of_nat pass) mod bitmap_words s;
          word = frame_bitmap s ! unat word_idx
      in if word = - 1 then None
         else let free_mask = NOT word in
           if free_mask = 0 then None
           else let frame = word_idx * BITMAP_WORD_BITS + of_nat (ctzll free_mask) in
             if \<not> frame_valid s frame then None else Some (word_idx, frame))"

definition alloc_single_page_unlocked :: "pmm_state \<Rightarrow> u64 \<times> pmm_state" where
  "alloc_single_page_unlocked s =
     (case scan_first (single_pass s) [0..<unat (bitmap_words s)] of
        None \<Rightarrow> (0, s)
      | Some (word_idx, frame) \<Rightarrow>
          (frame * PAGE_SIZE,
           (set_frame frame s)\<lparr>mm_stats := stats_take 1 (mm_stats s), alloc_word_cursor := word_idx\<rparr>))"

definition mark_frame_available :: "nat \<Rightarrow> pmm_state \<Rightarrow> pmm_state" where
  "mark_frame_available frame s =
     (if test_frame s (of_nat frame)
      then (clear_frame (of_nat frame) s)\<lparr>mm_stats := stats_give (mm_stats s)\<rparr> else s)"

definition mark_range_available :: "u64 \<Rightarrow> u64 \<Rightarrow> pmm_state \<Rightarrow> pmm_state" where
  "mark_range_available base len s =
     (let start = (base + PAGE_SIZE - 1) div PAGE_SIZE;
          end1 = (base + len) div PAGE_SIZE;
          end1 = (if end1 > frame_limit s then frame_limit s else end1)
      in fold mark_frame_available [unat start..<unat end1] s)"

definition reserve_frame :: "nat \<Rightarrow> pmm_state \<Rightarrow> pmm_state" where
  "reserve_frame frame s =
     (if \<not> test_frame s (of_nat frame)
      then let st = stats_take 1 (mm_stats s)
           in (set_frame (of_nat frame) s)\<lparr>mm_stats := st\<lparr>reserved_frames := reserved_frames st + 1\<rparr>\<rparr>
      else s)"

definition reserve_range :: "u64 \<Rightarrow> u64 \<Rightarrow> pmm_state \<Rightarrow> pmm_state" where
  "reserve_range base len s =
     (let start = base div PAGE_SIZE;
          end1 = (base + len + PAGE_SIZE - 1) div PAGE_SIZE;
          end1 = (if end1 > frame_limit s then frame_limit s else end1)
      in fold reserve_frame [unat start..<unat end1] s)"

text \<open>The three reservations that close every initialisation path.\<close>

definition reserve_kernel :: "kernel_image \<Rightarrow> pmm_state \<Rightarrow> pmm_state" where
  "reserve_kernel img s =
     (let kstart = kernel_symbol_to_phys (kernel_phys_start img);
          kend = kernel_symbol_to_phys (kernel_phys_end img);
          s = reserve_range 0 0x100000 s;
          s = reserve_range kstart (kend - kstart) s
      in reserve_range (bitmap_phys_base s) (bitmap_bytes s) s)"

definition highest_available_end :: "nm_mem_range list \<Rightarrow> u64" where
  "highest_available_end ranges =
     fold (\<lambda>r highest_end.
        if mr_type r \<noteq> NM_MEM_AVAILABLE then highest_end
        else let end1 = mr_base r + mr_length r in if end1 > highest_end then end1 else highest_end)
       ranges 0"

definition mark_available_ranges :: "nm_mem_range list \<Rightarrow> pmm_state \<Rightarrow> pmm_state" where
  "mark_available_ranges ranges s =
     fold (\<lambda>r s. if mr_type r = NM_MEM_AVAILABLE then mark_range_available (mr_base r) (mr_length r) s
                 else s) ranges s"

definition pmm_init_from_ranges :: "kernel_image \<Rightarrow> nm_mem_range list \<Rightarrow> pmm_state \<Rightarrow> pmm_state" where
  "pmm_init_from_ranges img ranges s =
     (let detected_frames = highest_available_end ranges div PAGE_SIZE;
          s = init_runtime_bitmap img detected_frames (kernel_symbol_to_phys (kernel_phys_end img)) s;
          s = mark_all_used s;
          s = mark_available_ranges ranges s
      in reserve_kernel img s)"

text \<open>One pass of the multi-page loop: the frame the run would start at, if it fits and is free.\<close>

definition run_pass :: "pmm_state \<Rightarrow> u64 \<Rightarrow> u64 \<Rightarrow> nat \<Rightarrow> u64 option" where
  "run_pass s start_frame count pass =
     (let frame = (start_frame + of_nat pass) mod frame_limit s in
      if frame + count > frame_limit s then None
      else if list_all (\<lambda>i. \<not> test_frame s (frame + of_nat i)) [0..<unat count] then Some frame
      else None)"

definition pmm_alloc_pages :: "u64 \<Rightarrow> pmm_state \<Rightarrow> u64 \<times> pmm_state" where
  "pmm_alloc_pages count s =
     (if count = 0 \<or> count > frame_limit s then (0, s)
      else if free_frames (mm_stats s) < count then (0, s)
      else if count = 1 then alloc_single_page_unlocked s
      else let start_frame = (alloc_word_cursor s * BITMAP_WORD_BITS) mod frame_limit s in
        (case scan_first (run_pass s start_frame count) [0..<unat (frame_limit s)] of
           None \<Rightarrow> (0, s)
         | Some frame \<Rightarrow>
             (frame * PAGE_SIZE,
              (fold (\<lambda>i. set_frame (frame + of_nat i)) [0..<unat count] s)
                \<lparr>mm_stats := stats_take count (mm_stats s),
                 alloc_word_cursor := (frame + count) div BITMAP_WORD_BITS\<rparr>)))"

definition pmm_alloc_page :: "pmm_state \<Rightarrow> u64 \<times> pmm_state" where
  "pmm_alloc_page s = pmm_alloc_pages 1 s"

definition pmm_free_page :: "u64 \<Rightarrow> pmm_state \<Rightarrow> pmm_state" where
  "pmm_free_page phys_addr s =
     (if phys_addr = 0 \<or> phys_addr mod PAGE_SIZE \<noteq> 0 then s
      else let frame = phys_addr div PAGE_SIZE in
        if \<not> frame_valid s frame \<or> \<not> test_frame s frame then s
        else (clear_frame frame s)\<lparr>mm_stats := stats_give (mm_stats s),
               alloc_word_cursor := frame div BITMAP_WORD_BITS\<rparr>)"

definition pmm_get_stats :: "pmm_state \<Rightarrow> nm_mm_stats" where
  "pmm_get_stats s = mm_stats s"


section \<open>Frames in use\<close>

text \<open>The bit of frame number \<open>n\<close>, and the set of free frames below the limit.\<close>

definition frame_used :: "pmm_state \<Rightarrow> nat \<Rightarrow> bool" where
  "frame_used s n = bit (frame_bitmap s ! (n div 64)) (n mod 64)"

definition free_set :: "pmm_state \<Rightarrow> nat set" where
  "free_set s = {n. n < unat (frame_limit s) \<and> \<not> frame_used s n}"

text \<open>
  The allocator's invariant: the limit is between 1 and 2^25 (128 GiB), the bitmap covers it, the
  bits above it in the last word are set, and the counters agree with the bitmap.
\<close>

definition pmm_wf :: "pmm_state \<Rightarrow> bool" where
  "pmm_wf s \<longleftrightarrow>
     0 < unat (frame_limit s) \<and> unat (frame_limit s) \<le> 2 ^ 25 \<and>
     unat (bitmap_words s) = (unat (frame_limit s) + 63) div 64 \<and>
     length (frame_bitmap s) = unat (bitmap_words s) \<and>
     (\<forall>n. unat (frame_limit s) \<le> n \<longrightarrow> n < 64 * length (frame_bitmap s) \<longrightarrow> frame_used s n) \<and>
     total_frames (mm_stats s) = frame_limit s \<and>
     unat (free_frames (mm_stats s)) = card (free_set s) \<and>
     unat (used_frames (mm_stats s)) + card (free_set s) = unat (frame_limit s) \<and>
     unat (alloc_word_cursor s) \<le> unat (bitmap_words s)"

text \<open>With frame 0 in use a returned address is 0 only on failure.\<close>

definition pmm_inv :: "pmm_state \<Rightarrow> bool" where
  "pmm_inv s \<longleftrightarrow> pmm_wf s \<and> 0 \<notin> free_set s"

lemma MAX_FRAMES_eq: "MAX_FRAMES = 33554432"
  by (simp add: MAX_FRAMES_def PAGE_SIZE_def)

lemma frame_word_unat: "frame_word f = unat f div 64"
  by (simp add: frame_word_def BITMAP_WORD_BITS_def unat_div)

lemma frame_mod_unat: "unat (f mod BITMAP_WORD_BITS) = unat f mod 64"
  by (simp add: BITMAP_WORD_BITS_def unat_mod)

lemma bit_frame_mask: "bit (frame_mask f) i \<longleftrightarrow> i = unat f mod 64"
  unfolding frame_mask_def frame_mod_unat push_bit_of_1
  by (auto simp: bit_exp_iff)

lemma and_mask_eq_0: "w AND frame_mask f = 0 \<longleftrightarrow> \<not> bit w (unat f mod 64)"
proof -
  have "w AND frame_mask f = 0 \<longleftrightarrow> (\<forall>n. \<not> (bit w n \<and> bit (frame_mask f) n))"
    by (simp add: bit_eq_iff bit_and_iff) (use bit_imp_le_length [of w] in fastforce)
  then show ?thesis by (auto simp: bit_frame_mask)
qed

lemma frame_div_mod_eq: "(n :: nat) div 64 = m div 64 \<and> n mod 64 = m mod 64 \<longleftrightarrow> n = m"
  by (metis div_mult_mod_eq)

lemma test_frame_used: "frame_valid s f \<Longrightarrow> test_frame s f = frame_used s (unat f)"
  by (simp add: test_frame_def frame_used_def and_mask_eq_0 frame_word_unat)

lemma frame_used_set:
  assumes "frame_valid s f" "unat f div 64 < length (frame_bitmap s)"
  shows "frame_used (set_frame f s) n \<longleftrightarrow> frame_used s n \<or> n = unat f"
  using assms frame_div_mod_eq [of n "unat f"]
  by (auto simp: set_frame_def frame_used_def frame_word_unat nth_list_update bit_or_iff bit_frame_mask)

lemma frame_used_clear:
  assumes "frame_valid s f" "unat f div 64 < length (frame_bitmap s)"
  shows "frame_used (clear_frame f s) n \<longleftrightarrow> frame_used s n \<and> n \<noteq> unat f"
  using assms frame_div_mod_eq [of n "unat f"]
  by (auto simp: clear_frame_def frame_used_def frame_word_unat nth_list_update bit_and_iff bit_not_iff
      bit_frame_mask)

lemma set_frame_frame [simp]:
  "frame_limit (set_frame f s) = frame_limit s" "bitmap_words (set_frame f s) = bitmap_words s"
  "length (frame_bitmap (set_frame f s)) = length (frame_bitmap s)" "mm_stats (set_frame f s) = mm_stats s"
  "alloc_word_cursor (set_frame f s) = alloc_word_cursor s"
  "bitmap_phys_base (set_frame f s) = bitmap_phys_base s" "bitmap_bytes (set_frame f s) = bitmap_bytes s"
  by (simp_all add: set_frame_def)

lemma clear_frame_frame [simp]:
  "frame_limit (clear_frame f s) = frame_limit s" "bitmap_words (clear_frame f s) = bitmap_words s"
  "length (frame_bitmap (clear_frame f s)) = length (frame_bitmap s)" "mm_stats (clear_frame f s) = mm_stats s"
  "alloc_word_cursor (clear_frame f s) = alloc_word_cursor s"
  "bitmap_phys_base (clear_frame f s) = bitmap_phys_base s" "bitmap_bytes (clear_frame f s) = bitmap_bytes s"
  by (simp_all add: clear_frame_def)

lemma free_set_finite [simp]: "finite (free_set s)"
  by (rule finite_subset [of _ "{..<unat (frame_limit s)}"]) (auto simp: free_set_def)

lemma free_set_mem: "n \<in> free_set s \<longleftrightarrow> n < unat (frame_limit s) \<and> \<not> frame_used s n"
  by (simp add: free_set_def)

lemma free_set_cong:
  "frame_bitmap s = frame_bitmap t \<Longrightarrow> frame_limit s = frame_limit t \<Longrightarrow> free_set s = free_set t"
  by (simp add: free_set_def frame_used_def)

lemma frame_used_cong: "frame_bitmap s = frame_bitmap t \<Longrightarrow> frame_used s = frame_used t"
  by (simp add: frame_used_def fun_eq_iff)

lemma wf_word_range: "pmm_wf s \<Longrightarrow> n < unat (frame_limit s) \<Longrightarrow> n div 64 < length (frame_bitmap s)"
  by (simp add: pmm_wf_def div_less_iff_less_mult)

lemma frame_valid_unat: "frame_valid s f \<longleftrightarrow> unat f < unat (frame_limit s)"
  by (simp add: frame_valid_def word_less_nat_alt)

lemma frame_valid_of_nat: "n < unat (frame_limit s) \<Longrightarrow> frame_valid s (of_nat n) \<and> unat (of_nat n :: u64) = n"
  using unsigned_less [of "frame_limit s", where 'a = nat] by (simp add: frame_valid_unat unat_of_nat64)

lemma set_frame_free:
  "pmm_wf s \<Longrightarrow> frame_valid s f \<Longrightarrow> free_set (set_frame f s) = free_set s - {unat f}"
  using wf_word_range [of s "unat f"]
  by (auto simp: free_set_def frame_used_set frame_valid_unat [of s f])

lemma clear_frame_free:
  "pmm_wf s \<Longrightarrow> frame_valid s f \<Longrightarrow> free_set (clear_frame f s) = insert (unat f) (free_set s)"
  using wf_word_range [of s "unat f"]
  by (auto simp: free_set_def frame_used_clear frame_valid_unat [of s f])

section \<open>Taking and giving back frames\<close>

text \<open>What an operation that marks the frames \<open>F\<close> used has to do to keep the invariant.\<close>

lemma wf_take:
  assumes wf: "pmm_wf s" and F: "F \<subseteq> free_set s"
    and t: "frame_limit t = frame_limit s" "bitmap_words t = bitmap_words s"
      "length (frame_bitmap t) = length (frame_bitmap s)" "\<And>n. frame_used t n \<longleftrightarrow> frame_used s n \<or> n \<in> F"
      "free_frames (mm_stats t) = free_frames (mm_stats s) - of_nat (card F)"
      "used_frames (mm_stats t) = used_frames (mm_stats s) + of_nat (card F)"
      "total_frames (mm_stats t) = total_frames (mm_stats s)"
      "unat (alloc_word_cursor t) \<le> unat (bitmap_words s)"
  shows "pmm_wf t" "free_set t = free_set s - F"
proof -
  have fin: "finite F" using F by (rule finite_subset) simp
  have free: "free_set t = free_set s - F" using t(1,4) by (auto simp: free_set_def)
  have cF: "card F \<le> card (free_set s)" using F by (simp add: card_mono)
  have ct: "card (free_set t) = card (free_set s) - card F"
    using free F fin by (simp add: card_Diff_subset)
  have lim: "card (free_set s) \<le> unat (frame_limit s)" "unat (frame_limit s) \<le> 2 ^ 25"
    using wf by (simp_all add: pmm_wf_def)
  have k: "unat (of_nat (card F) :: u64) = card F" using cF lim by (intro unat_of_nat64) simp
  have "unat (free_frames (mm_stats t)) = card (free_set s) - card F"
    using wf cF k t(5) by (simp add: pmm_wf_def unat_sub64 word_le_nat_alt)
  moreover have "unat (used_frames (mm_stats t)) = unat (used_frames (mm_stats s)) + card F"
  proof -
    have "unat (used_frames (mm_stats s)) + card F < 2 ^ 64" using wf cF lim by (simp add: pmm_wf_def)
    then show ?thesis using t(6) k by (simp add: unat_add64)
  qed
  ultimately show "pmm_wf t" using wf t ct cF by (simp add: pmm_wf_def)
  show "free_set t = free_set s - F" by (rule free)
qed

lemma wf_give:
  assumes wf: "pmm_wf s" and f: "f < unat (frame_limit s)" "frame_used s f"
    and t: "frame_limit t = frame_limit s" "bitmap_words t = bitmap_words s"
      "length (frame_bitmap t) = length (frame_bitmap s)" "\<And>n. frame_used t n \<longleftrightarrow> frame_used s n \<and> n \<noteq> f"
      "mm_stats t = stats_give (mm_stats s)" "unat (alloc_word_cursor t) \<le> unat (bitmap_words s)"
  shows "pmm_wf t" "free_set t = insert f (free_set s)"
proof -
  have free: "free_set t = insert f (free_set s)" using t(1,4) f by (auto simp: free_set_def)
  have ct: "card (free_set t) = Suc (card (free_set s))"
    using free f by (simp add: free_set_mem)
  have "card (free_set t) \<le> unat (frame_limit s)"
    using card_mono [of "{..<unat (frame_limit s)}" "free_set t"] t(1) by (auto simp: free_set_def)
  then have lt: "card (free_set s) < unat (frame_limit s)" using ct by simp
  have "unat (free_frames (mm_stats t)) = Suc (card (free_set s))"
    using wf lt t(5) by (simp add: pmm_wf_def stats_give_def unat_inc64)
  moreover have "unat (used_frames (mm_stats t)) = unat (used_frames (mm_stats s)) - 1"
    using wf lt t(5) by (simp add: pmm_wf_def stats_give_def unat_dec64)
  ultimately show "pmm_wf t" using wf f(1) t ct lt by (auto simp: pmm_wf_def stats_give_def)
  show "free_set t = insert f (free_set s)" by (rule free)
qed

lemma mark_frame_available_wf:
  assumes "pmm_wf s" "f < unat (frame_limit s)"
  shows "pmm_wf (mark_frame_available f s)"
    and "free_set (mark_frame_available f s) = insert f (free_set s)"
proof -
  have v: "frame_valid s (of_nat f)" "unat (of_nat f :: u64) = f"
    using frame_valid_of_nat [OF assms(2)] by simp_all
  have tst: "test_frame s (of_nat f) = frame_used s f" using test_frame_used [OF v(1)] v(2) by simp
  let ?t = "(clear_frame (of_nat f) s)\<lparr>mm_stats := stats_give (mm_stats s)\<rparr>"
  have u: "frame_used ?t n \<longleftrightarrow> frame_used s n \<and> n \<noteq> f" for n
    using frame_used_clear [OF v(1), of n] wf_word_range [OF assms] v(2)
    by (simp add: frame_used_def)
  have "pmm_wf (mark_frame_available f s) \<and> free_set (mark_frame_available f s) = insert f (free_set s)"
  proof (cases "frame_used s f")
    case True
    have "unat (alloc_word_cursor ?t) \<le> unat (bitmap_words s)"
      using assms(1) by (simp add: pmm_wf_def)
    from wf_give [OF assms True, of ?t, OF _ _ _ u _ this] show ?thesis
      using True tst by (simp add: mark_frame_available_def)
  next
    case False
    then show ?thesis using tst assms by (simp add: mark_frame_available_def free_set_mem insert_absorb)
  qed
  then show "pmm_wf (mark_frame_available f s)" "free_set (mark_frame_available f s) = insert f (free_set s)"
    by auto
qed

lemma reserve_frame_wf:
  assumes "pmm_wf s" "f < unat (frame_limit s)"
  shows "pmm_wf (reserve_frame f s)" and "free_set (reserve_frame f s) = free_set s - {f}"
proof -
  have v: "frame_valid s (of_nat f)" "unat (of_nat f :: u64) = f"
    using frame_valid_of_nat [OF assms(2)] by simp_all
  have tst: "test_frame s (of_nat f) = frame_used s f" using test_frame_used [OF v(1)] v(2) by simp
  let ?st = "stats_take 1 (mm_stats s)"
  let ?t = "(set_frame (of_nat f) s)\<lparr>mm_stats := ?st\<lparr>reserved_frames := reserved_frames ?st + 1\<rparr>\<rparr>"
  have u: "frame_used ?t n \<longleftrightarrow> frame_used s n \<or> n \<in> {f}" for n
    using frame_used_set [OF v(1), of n] wf_word_range [OF assms] v(2) by (simp add: frame_used_def)
  have "pmm_wf (reserve_frame f s) \<and> free_set (reserve_frame f s) = free_set s - {f}"
  proof (cases "frame_used s f")
    case False
    then have sub: "{f} \<subseteq> free_set s" using assms(2) by (simp add: free_set_mem)
    have c: "unat (alloc_word_cursor ?t) \<le> unat (bitmap_words s)"
      using assms(1) by (simp add: pmm_wf_def)
    from wf_take [OF assms(1) sub, of ?t, OF _ _ _ u _ _ _ c] show ?thesis
      using False tst by (simp add: reserve_frame_def Let_def stats_take_def)
  next
    case True
    then show ?thesis using tst assms by (auto simp: reserve_frame_def free_set_mem)
  qed
  then show "pmm_wf (reserve_frame f s)" "free_set (reserve_frame f s) = free_set s - {f}" by auto
qed

lemma mark_frame_available_frame [simp]:
  "frame_limit (mark_frame_available f s) = frame_limit s"
  "bitmap_phys_base (mark_frame_available f s) = bitmap_phys_base s"
  "bitmap_bytes (mark_frame_available f s) = bitmap_bytes s"
  by (simp_all add: mark_frame_available_def)

lemma reserve_frame_frame [simp]:
  "frame_limit (reserve_frame f s) = frame_limit s"
  "bitmap_phys_base (reserve_frame f s) = bitmap_phys_base s"
  "bitmap_bytes (reserve_frame f s) = bitmap_bytes s"
  by (simp_all add: reserve_frame_def Let_def)

lemma fold_mark_frames:
  "pmm_wf s \<Longrightarrow> \<forall>f\<in>set fs. f < unat (frame_limit s) \<Longrightarrow>
   pmm_wf (fold mark_frame_available fs s) \<and>
   free_set (fold mark_frame_available fs s) = free_set s \<union> set fs"
  by (induction fs arbitrary: s) (auto simp: mark_frame_available_wf)

lemma fold_reserve_frames:
  "pmm_wf s \<Longrightarrow> \<forall>f\<in>set fs. f < unat (frame_limit s) \<Longrightarrow>
   pmm_wf (fold reserve_frame fs s) \<and> free_set (fold reserve_frame fs s) = free_set s - set fs"
  by (induction fs arbitrary: s) (auto simp: reserve_frame_wf)

lemma fold_frames_frame [simp]:
  "frame_limit (fold mark_frame_available fs s) = frame_limit s"
  "bitmap_phys_base (fold mark_frame_available fs s) = bitmap_phys_base s"
  "bitmap_bytes (fold mark_frame_available fs s) = bitmap_bytes s"
  "frame_limit (fold reserve_frame fs s) = frame_limit s"
  "bitmap_phys_base (fold reserve_frame fs s) = bitmap_phys_base s"
  "bitmap_bytes (fold reserve_frame fs s) = bitmap_bytes s"
  by (induction fs arbitrary: s; simp)+

section \<open>Initialisation\<close>

text \<open>
  The frames that lie entirely inside a byte range, and the frames that a byte range touches, with
  the 64-bit arithmetic of the code.
\<close>

definition frames_inside :: "u64 \<Rightarrow> u64 \<Rightarrow> nat set" where
  "frames_inside base len = {unat ((base + 4095) div 4096)..<unat ((base + len) div 4096)}"

definition frames_touched :: "u64 \<Rightarrow> u64 \<Rightarrow> nat set" where
  "frames_touched base len = {unat (base div 4096)..<unat ((base + len + 4095) div 4096)}"

lemma clamp_interval:
  "set [a..<unat (if e > l then l else e)] = {a..<unat e} \<inter> {..<unat (l :: u64)}"
  by (auto simp: word_less_nat_alt)

lemma mark_range_available_wf:
  assumes "pmm_wf s"
  shows "pmm_wf (mark_range_available base len s)"
    and "free_set (mark_range_available base len s) =
      free_set s \<union> (frames_inside base len \<inter> {..<unat (frame_limit s)})"
proof -
  let ?fs = "[unat ((base + PAGE_SIZE - 1) div PAGE_SIZE)..<
    unat (if (base + len) div PAGE_SIZE > frame_limit s then frame_limit s else (base + len) div PAGE_SIZE)]"
  have set: "set ?fs = frames_inside base len \<inter> {..<unat (frame_limit s)}"
    unfolding clamp_interval by (simp add: frames_inside_def PAGE_SIZE_def add.commute)
  have lt: "\<forall>f\<in>set ?fs. f < unat (frame_limit s)" unfolding set by simp
  show "pmm_wf (mark_range_available base len s)"
    "free_set (mark_range_available base len s) =
      free_set s \<union> (frames_inside base len \<inter> {..<unat (frame_limit s)})"
    using fold_mark_frames [OF assms lt] unfolding set mark_range_available_def Let_def by simp_all
qed

lemma reserve_range_wf:
  assumes "pmm_wf s"
  shows "pmm_wf (reserve_range base len s)"
    and "free_set (reserve_range base len s) = free_set s - frames_touched base len"
proof -
  let ?fs = "[unat (base div PAGE_SIZE)..<
    unat (if (base + len + PAGE_SIZE - 1) div PAGE_SIZE > frame_limit s then frame_limit s
          else (base + len + PAGE_SIZE - 1) div PAGE_SIZE)]"
  have set: "set ?fs = frames_touched base len \<inter> {..<unat (frame_limit s)}"
    unfolding clamp_interval by (simp add: frames_touched_def PAGE_SIZE_def add.commute add.left_commute)
  have lt: "\<forall>f\<in>set ?fs. f < unat (frame_limit s)" unfolding set by simp
  have "free_set s - (frames_touched base len \<inter> {..<unat (frame_limit s)}) = free_set s - frames_touched base len"
    by (auto simp: free_set_def)
  then show "pmm_wf (reserve_range base len s)"
    "free_set (reserve_range base len s) = free_set s - frames_touched base len"
    using fold_reserve_frames [OF assms lt] unfolding set reserve_range_def Let_def by simp_all
qed

lemma range_frame [simp]:
  "frame_limit (mark_range_available base len s) = frame_limit s"
  "bitmap_phys_base (mark_range_available base len s) = bitmap_phys_base s"
  "bitmap_bytes (mark_range_available base len s) = bitmap_bytes s"
  "frame_limit (reserve_range base len s) = frame_limit s"
  "bitmap_phys_base (reserve_range base len s) = bitmap_phys_base s"
  "bitmap_bytes (reserve_range base len s) = bitmap_bytes s"
  by (simp_all add: mark_range_available_def reserve_range_def Let_def)

lemma mark_all_used_wf:
  assumes "0 < unat (frame_limit s)" "unat (frame_limit s) \<le> 2 ^ 25"
    "unat (bitmap_words s) = (unat (frame_limit s) + 63) div 64"
  shows "pmm_wf (mark_all_used s)" "free_set (mark_all_used s) = {}"
proof -
  have used: "frame_used (mark_all_used s) n" if "n < 64 * unat (bitmap_words s)" for n
    using that by (simp add: frame_used_def mark_all_used_def div_less_iff_less_mult mult.commute)
  then show free: "free_set (mark_all_used s) = {}"
    using assms by (auto simp: free_set_def mark_all_used_def [of s] intro!: used)
  show "pmm_wf (mark_all_used s)"
    using assms free used unfolding pmm_wf_def by (simp add: mark_all_used_def)
qed

lemma init_runtime_bitmap_limits:
  assumes t_def: "t = init_runtime_bitmap img frames base s"
  shows "0 < unat (frame_limit t)" "unat (frame_limit t) \<le> 2 ^ 25"
    "unat (bitmap_words t) = (unat (frame_limit t) + 63) div 64"
    "unat (frame_limit t) = max 1 (min (unat frames) (2 ^ 25))"
    "unat (bitmap_bytes t) = 8 * unat (bitmap_words t)"
proof -
  show lim: "unat (frame_limit t) = max 1 (min (unat frames) (2 ^ 25))"
    using unat_gt_0 [of frames]
    by (auto simp: t_def init_runtime_bitmap_def Let_def MAX_FRAMES_eq word_less_nat_alt unat_eq_zero
        max_def min_def)
  then show pos: "0 < unat (frame_limit t)" and le: "unat (frame_limit t) \<le> 2 ^ 25" by auto
  have w: "bitmap_words t = (frame_limit t + 63) div 64"
    by (simp add: t_def init_runtime_bitmap_def Let_def BITMAP_WORD_BITS_def add.commute)
  have "unat (frame_limit t + 63) = unat (frame_limit t) + 63"
    using le by (subst unat_add64) auto
  then show wds: "unat (bitmap_words t) = (unat (frame_limit t) + 63) div 64"
    by (simp add: w unat_div)
  have "bitmap_bytes t = bitmap_words t * 8"
    by (simp add: t_def init_runtime_bitmap_def Let_def)
  then show "unat (bitmap_bytes t) = 8 * unat (bitmap_words t)"
    using wds le by (simp add: unat_mult64)
qed

lemma mark_available_ranges_frame [simp]:
  "bitmap_phys_base (mark_available_ranges ranges s) = bitmap_phys_base s"
  "bitmap_bytes (mark_available_ranges ranges s) = bitmap_bytes s"
  unfolding mark_available_ranges_def by (induction ranges arbitrary: s; simp)+

lemma mark_available_ranges_wf:
  "pmm_wf s \<Longrightarrow>
   pmm_wf (mark_available_ranges ranges s) \<and>
   frame_limit (mark_available_ranges ranges s) = frame_limit s \<and>
   bitmap_phys_base (mark_available_ranges ranges s) = bitmap_phys_base s \<and>
   bitmap_bytes (mark_available_ranges ranges s) = bitmap_bytes s \<and>
   free_set (mark_available_ranges ranges s) = free_set s \<union>
     ((\<Union>r\<in>{r\<in>set ranges. mr_type r = NM_MEM_AVAILABLE}. frames_inside (mr_base r) (mr_length r))
      \<inter> {..<unat (frame_limit s)})"
  unfolding mark_available_ranges_def
proof (induction ranges arbitrary: s)
  case Nil
  then show ?case by simp
next
  case (Cons r ranges)
  let ?s = "if mr_type r = NM_MEM_AVAILABLE then mark_range_available (mr_base r) (mr_length r) s else s"
  have "pmm_wf ?s" using Cons.prems by (simp add: mark_range_available_wf)
  from Cons.IH [OF this] show ?case
    using mark_range_available_wf(2) [OF Cons.prems, of "mr_base r" "mr_length r"]
    by (auto split: if_splits)
qed

definition kernel_frames :: "kernel_image \<Rightarrow> nat set" where
  "kernel_frames img = frames_touched (kernel_symbol_to_phys (kernel_phys_start img))
     (kernel_symbol_to_phys (kernel_phys_end img) - kernel_symbol_to_phys (kernel_phys_start img))"

definition bitmap_frames :: "pmm_state \<Rightarrow> nat set" where
  "bitmap_frames s = frames_touched (bitmap_phys_base s) (bitmap_bytes s)"

lemma low_frames: "frames_touched 0 0x100000 = {..<256}"
  by (auto simp: frames_touched_def)

lemma reserve_kernel_wf:
  assumes "pmm_wf s"
  shows "pmm_wf (reserve_kernel img s)"
    "free_set (reserve_kernel img s) = free_set s - {..<256} - kernel_frames img - bitmap_frames s"
    "frame_limit (reserve_kernel img s) = frame_limit s"
    "bitmap_frames (reserve_kernel img s) = bitmap_frames s"
  using assms
  by (simp_all add: reserve_kernel_def Let_def reserve_range_wf low_frames kernel_frames_def bitmap_frames_def)

lemma reserve_kernel_inv: "pmm_wf s \<Longrightarrow> pmm_inv (reserve_kernel img s)"
  by (simp add: pmm_inv_def reserve_kernel_wf)

lemma pmm_init_from_ranges_state:
  assumes t_def: "t = pmm_init_from_ranges img ranges s"
  shows "pmm_inv t"
    "free_set t = ((\<Union>r\<in>{r\<in>set ranges. mr_type r = NM_MEM_AVAILABLE}. frames_inside (mr_base r) (mr_length r))
      \<inter> {..<unat (frame_limit t)}) - {..<256} - kernel_frames img - bitmap_frames t"
    "unat (frame_limit t) = max 1 (min (unat (highest_available_end ranges div PAGE_SIZE)) (2 ^ 25))"
proof -
  define s1 where "s1 = init_runtime_bitmap img (highest_available_end ranges div PAGE_SIZE)
    (kernel_symbol_to_phys (kernel_phys_end img)) s"
  define s2 where "s2 = mark_all_used s1"
  define s3 where "s3 = mark_available_ranges ranges s2"
  have t: "t = reserve_kernel img s3"
    by (simp add: t_def pmm_init_from_ranges_def Let_def s1_def s2_def s3_def)
  note lim = init_runtime_bitmap_limits [OF s1_def]
  have wf2: "pmm_wf s2" "free_set s2 = {}" "frame_limit s2 = frame_limit s1"
    using mark_all_used_wf [OF lim(1-3)] by (simp_all add: s2_def mark_all_used_def)
  note s3 = mark_available_ranges_wf [OF wf2(1), of ranges, folded s3_def]
  show "pmm_inv t" using s3 by (simp add: t reserve_kernel_inv)
  have fl: "frame_limit t = frame_limit s1" "bitmap_frames t = bitmap_frames s3"
    using s3 wf2(3) by (simp_all add: t reserve_kernel_wf)
  show "unat (frame_limit t) = max 1 (min (unat (highest_available_end ranges div PAGE_SIZE)) (2 ^ 25))"
    using lim(4) fl by simp
  show "free_set t = ((\<Union>r\<in>{r\<in>set ranges. mr_type r = NM_MEM_AVAILABLE}. frames_inside (mr_base r) (mr_length r))
      \<inter> {..<unat (frame_limit t)}) - {..<256} - kernel_frames img - bitmap_frames t"
    using s3 wf2 fl by (simp add: t reserve_kernel_wf)
qed

section \<open>Allocation\<close>

lemma ctzll_least:
  assumes "w \<noteq> 0"
  shows "ctzll w < 64" "bit w (ctzll w)" "\<And>j. j < ctzll w \<Longrightarrow> \<not> bit w j"
proof -
  obtain n where n: "n < 64" "bit w n"
    using assms bit_imp_le_length [of w] by (auto simp: bit_eq_iff [of w 0])
  then obtain i where i: "first_idx (bit w) [0..<64] = Some i"
    using first_idx_ex [of n "[0..<64]" "bit w"] by auto
  then have c: "ctzll w = i" by (simp add: ctzll_def)
  show "ctzll w < 64" using first_idx_SomeD(1) [OF i] c by simp
  show "bit w (ctzll w)" using first_idx_SomeD(1,2) [OF i] c by simp
  show "\<And>j. j < ctzll w \<Longrightarrow> \<not> bit w j"
    using first_idx_SomeD(1,3) [OF i] c by (metis add_0 diff_zero length_upt less_trans nth_upt)
qed

lemma wf_words: "pmm_wf s \<Longrightarrow> 0 < unat (bitmap_words s) \<and> unat (bitmap_words s) \<le> 2 ^ 19"
  by (auto simp: pmm_wf_def) 

lemma cursor_pass:
  assumes "pmm_wf s" "pass < unat (bitmap_words s)"
  shows "unat ((alloc_word_cursor s + of_nat pass) mod bitmap_words s) =
    (unat (alloc_word_cursor s) + pass) mod unat (bitmap_words s)"
proof -
  have b: "unat (alloc_word_cursor s) \<le> 2 ^ 19" "pass < 2 ^ 19"
    using assms wf_words [OF assms(1)] by (simp_all add: pmm_wf_def)
  then have p: "unat (of_nat pass :: u64) = pass" by (intro unat_of_nat64) simp
  then have "unat (alloc_word_cursor s + of_nat pass) = unat (alloc_word_cursor s) + pass"
    using b by (simp add: unat_add64)
  then show ?thesis by (simp add: unat_mod)
qed

lemma word_frame_unat:
  assumes "pmm_wf s" "unat w < unat (bitmap_words s)" "i < 64"
  shows "unat (w * BITMAP_WORD_BITS + of_nat i) = unat w * 64 + i"
proof -
  have b: "unat w < 2 ^ 19" using assms(2) wf_words [OF assms(1)] by simp
  then have m: "unat (w * BITMAP_WORD_BITS) = unat w * 64"
    by (simp add: BITMAP_WORD_BITS_def unat_mult64)
  have i: "unat (of_nat i :: u64) = i" using assms(3) by (intro unat_of_nat64) simp
  have "unat (w * BITMAP_WORD_BITS) + unat (of_nat i :: u64) < 2 ^ 64" using b m i assms(3) by simp
  then show ?thesis using m i by (simp only: unat_add64)
qed

lemma single_pass_sound:
  assumes wf: "pmm_wf s" and pass: "pass < unat (bitmap_words s)" and some: "single_pass s pass = Some (w, f)"
  shows "unat f \<in> free_set s" "frame_valid s f" "unat w < unat (bitmap_words s)"
proof -
  define idx where "idx = (alloc_word_cursor s + of_nat pass) mod bitmap_words s"
  define word where "word = frame_bitmap s ! unat idx"
  have u: "unat idx < unat (bitmap_words s)"
    using cursor_pass [OF wf pass] wf_words [OF wf] by (simp add: idx_def)
  have nz: "NOT word \<noteq> 0" and f: "f = idx * BITMAP_WORD_BITS + of_nat (ctzll (NOT word))"
    and v: "frame_valid s f" and w: "w = idx"
    using some by (auto simp: single_pass_def Let_def idx_def [symmetric] word_def [symmetric] split: if_splits)
  note ctz = ctzll_least [OF nz]
  have fu: "unat f = unat idx * 64 + ctzll (NOT word)"
    using word_frame_unat [OF wf u ctz(1)] f by simp
  then have "unat f div 64 = unat idx" "unat f mod 64 = ctzll (NOT word)" using ctz(1) by simp_all
  then have "\<not> frame_used s (unat f)" using ctz(1,2) by (simp add: frame_used_def word_def [symmetric] bit_not_iff)
  then show "unat f \<in> free_set s" using v by (simp add: free_set_mem frame_valid_unat)
  show "frame_valid s f" by (rule v)
  show "unat w < unat (bitmap_words s)" using u w by simp
qed

lemma ring_reach:
  assumes "c \<le> N" "w < (N :: nat)"
  shows "\<exists>p<N. (c + p) mod N = w"
proof (cases "c \<le> w")
  case True
  then show ?thesis using assms by (intro exI [of _ "w - c"]) auto
next
  case False
  then have "(c + (N + w - c)) mod N = w" using assms by simp
  then show ?thesis using assms False by (intro exI [of _ "N + w - c"]) auto
qed

lemma single_pass_complete:
  assumes wf: "pmm_wf s" and n: "n \<in> free_set s"
  shows "\<exists>pass<unat (bitmap_words s). single_pass s pass \<noteq> None"
proof -
  have nl: "n < unat (frame_limit s)" and nu: "\<not> frame_used s n" using n by (simp_all add: free_set_mem)
  have wl: "n div 64 < unat (bitmap_words s)"
    using wf_word_range [OF wf nl] wf by (simp add: pmm_wf_def)
  obtain pass where p: "pass < unat (bitmap_words s)"
    "(unat (alloc_word_cursor s) + pass) mod unat (bitmap_words s) = n div 64"
    using ring_reach [OF _ wl, of "unat (alloc_word_cursor s)"] wf by (auto simp: pmm_wf_def)
  define idx where "idx = (alloc_word_cursor s + of_nat pass) mod bitmap_words s"
  have idx: "unat idx = n div 64" using cursor_pass [OF wf p(1)] p(2) by (simp add: idx_def)
  define word where "word = frame_bitmap s ! unat idx"
  have nb: "\<not> bit word (n mod 64)" using nu idx by (simp add: frame_used_def word_def)
  then have b: "bit (NOT word) (n mod 64)" by (simp add: bit_not_iff)
  have ne: "word \<noteq> - 1" "NOT word \<noteq> 0" using b nb by auto
  have le: "ctzll (NOT word) \<le> n mod 64"
    using ctzll_least(3) [OF ne(2), of "n mod 64"] nb by (force simp: bit_not_iff not_le)
  have "unat (idx * BITMAP_WORD_BITS + of_nat (ctzll (NOT word))) = n div 64 * 64 + ctzll (NOT word)"
    using word_frame_unat [OF wf _ ctzll_least(1) [OF ne(2)], of idx] idx wl by simp
  also have "\<dots> \<le> n" using le div_mult_mod_eq [of n 64] by linarith
  finally have "frame_valid s (idx * BITMAP_WORD_BITS + of_nat (ctzll (NOT word)))"
    using nl by (simp add: frame_valid_unat)
  then have "single_pass s pass \<noteq> None"
    using ne by (simp add: single_pass_def Let_def idx_def [symmetric] word_def [symmetric])
  with p(1) show ?thesis by blast
qed

text \<open>The start frames of runs of \<open>k\<close> free frames below the limit.\<close>

definition free_runs :: "pmm_state \<Rightarrow> nat \<Rightarrow> nat set" where
  "free_runs s k = {f. f + k \<le> unat (frame_limit s) \<and> {f..<f + k} \<subseteq> free_set s}"

lemma free_runs_1: "free_runs s 1 = free_set s"
  by (auto simp: free_runs_def free_set_mem)

lemma page_addr_unat: "pmm_wf s \<Longrightarrow> frame_valid s f \<Longrightarrow> unat (f * PAGE_SIZE) = unat f * 4096"
  by (simp add: pmm_wf_def frame_valid_unat PAGE_SIZE_def unat_mult64)

lemma alloc_single_empty: "pmm_wf s \<Longrightarrow> free_set s = {} \<Longrightarrow> alloc_single_page_unlocked s = (0, s)"
proof -
  assume "pmm_wf s" "free_set s = {}"
  then have "scan_first (single_pass s) [0..<unat (bitmap_words s)] = None"
    by (auto simp: scan_first_None_iff) (metis empty_iff not_None_eq prod.exhaust single_pass_sound(1))
  then show ?thesis by (simp add: alloc_single_page_unlocked_def)
qed

lemma alloc_single_some:
  assumes "pmm_wf s" "free_set s \<noteq> {}"
  shows "\<exists>a f t. alloc_single_page_unlocked s = (a, t) \<and> unat a = f * 4096 \<and> f \<in> free_set s \<and>
    pmm_wf t \<and> free_set t = free_set s - {f} \<and> frame_limit t = frame_limit s"
proof -
  obtain pass where p: "pass < unat (bitmap_words s)" "single_pass s pass \<noteq> None"
    using single_pass_complete [OF assms(1)] assms(2) by blast
  then obtain w f where wf: "scan_first (single_pass s) [0..<unat (bitmap_words s)] = Some (w, f)"
    using scan_first_ex [of pass "[0..<unat (bitmap_words s)]" "single_pass s"] by auto
  then obtain q where "q < unat (bitmap_words s)" "single_pass s q = Some (w, f)"
    using scan_first_SomeD [OF wf] by auto
  note sp = single_pass_sound [OF assms(1) this]
  let ?t = "(set_frame f s)\<lparr>mm_stats := stats_take 1 (mm_stats s), alloc_word_cursor := w\<rparr>"
  have u: "frame_used ?t n \<longleftrightarrow> frame_used s n \<or> n \<in> {unat f}" for n
    using frame_used_set [OF sp(2), of n] wf_word_range [OF assms(1)] sp(2)
    by (simp add: frame_used_def frame_valid_unat)
  have c: "unat (alloc_word_cursor ?t) \<le> unat (bitmap_words s)" using sp(3) by simp
  have t: "pmm_wf ?t" "free_set ?t = free_set s - {unat f}"
    using wf_take [OF assms(1), of "{unat f}" ?t, OF _ _ _ _ u _ _ _ c] sp(1)
    by (simp_all add: stats_take_def)
  have "alloc_single_page_unlocked s = (f * PAGE_SIZE, ?t)"
    using wf by (simp add: alloc_single_page_unlocked_def)
  then show ?thesis using t sp page_addr_unat [OF assms(1) sp(2)] by auto
qed

lemma fold_set_frames:
  "pmm_wf s \<Longrightarrow> \<forall>f\<in>set fs. f < unat (frame_limit s) \<Longrightarrow>
   (\<forall>n. frame_used (fold (\<lambda>f. set_frame (of_nat f)) fs s) n \<longleftrightarrow> frame_used s n \<or> n \<in> set fs) \<and>
   frame_limit (fold (\<lambda>f. set_frame (of_nat f)) fs s) = frame_limit s \<and>
   bitmap_words (fold (\<lambda>f. set_frame (of_nat f)) fs s) = bitmap_words s \<and>
   length (frame_bitmap (fold (\<lambda>f. set_frame (of_nat f)) fs s)) = length (frame_bitmap s)"
proof (induction fs rule: rev_induct)
  case Nil
  then show ?case by simp
next
  case (snoc f fs)
  let ?t = "fold (\<lambda>f. set_frame (of_nat f)) fs s"
  have IH: "\<forall>n. frame_used ?t n \<longleftrightarrow> frame_used s n \<or> n \<in> set fs" "frame_limit ?t = frame_limit s"
    "bitmap_words ?t = bitmap_words s" "length (frame_bitmap ?t) = length (frame_bitmap s)"
    using snoc by simp_all
  have v: "frame_valid ?t (of_nat f)" "unat (of_nat f :: u64) = f"
    using frame_valid_of_nat [of f ?t] snoc.prems(2) IH(2) by simp_all
  have "f div 64 < length (frame_bitmap ?t)"
    using wf_word_range [OF snoc.prems(1), of f] snoc.prems(2) IH(4) by simp
  then have "frame_used (set_frame (of_nat f) ?t) n \<longleftrightarrow> frame_used ?t n \<or> n = f" for n
    using frame_used_set [OF v(1)] v(2) by simp
  then show ?case using IH by auto
qed

lemma run_pass_frame:
  assumes "pmm_wf s" "unat start < unat (frame_limit s)" "pass < unat (frame_limit s)"
  shows "unat ((start + of_nat pass) mod frame_limit s) = (unat start + pass) mod unat (frame_limit s)"
proof -
  have b: "unat start < 2 ^ 25" "pass < 2 ^ 25" using assms by (simp_all add: pmm_wf_def)
  then have p: "unat (of_nat pass :: u64) = pass" by (intro unat_of_nat64) simp
  then have "unat (start + of_nat pass) = unat start + pass" using b by (simp add: unat_add64)
  then show ?thesis by (simp add: unat_mod)
qed

lemma run_frame_unat:
  fixes f count :: u64
  assumes "pmm_wf s" "unat f \<le> unat (frame_limit s)" "unat count \<le> unat (frame_limit s)" "i \<le> unat count"
  shows "unat (f + of_nat i) = unat f + i" "unat (f + count) = unat f + unat count"
proof -
  have b: "unat f \<le> 2 ^ 25" "unat count \<le> 2 ^ 25" using assms by (simp_all add: pmm_wf_def)
  then have i: "unat (of_nat i :: u64) = i" using assms(4) by (intro unat_of_nat64) simp
  then have "unat f + unat (of_nat i :: u64) < 2 ^ 64" using b assms(4) by simp
  then show "unat (f + of_nat i) = unat f + i" by (subst unat_add64) (simp_all only: i)
  show "unat (f + count) = unat f + unat count" using b by (simp add: unat_add64)
qed

text \<open>A pass succeeds exactly at the start of a run of free frames.\<close>

lemma run_pass_iff:
  assumes wf: "pmm_wf s" and start: "unat start < unat (frame_limit s)" and pass: "pass < unat (frame_limit s)"
    and count: "unat count \<le> unat (frame_limit s)"
    and f: "f = (start + of_nat pass) mod frame_limit s"
  shows "run_pass s start count pass = (if unat f \<in> free_runs s (unat count) then Some f else None)"
proof -
  have fl: "unat f < unat (frame_limit s)"
    using run_pass_frame [OF wf start pass] f pass by simp
  have fc: "unat (f + count) = unat f + unat count"
    using run_frame_unat(2) [OF wf _ count, of f 0] fl by simp
  have "list_all (\<lambda>i. \<not> test_frame s (f + of_nat i)) [0..<unat count] \<longleftrightarrow>
    {unat f..<unat f + unat count} \<subseteq> free_set s" if fit: "unat f + unat count \<le> unat (frame_limit s)"
  proof -
    have "test_frame s (f + of_nat i) \<longleftrightarrow> unat f + i \<notin> free_set s" if "i < unat count" for i
    proof -
      have u: "unat (f + of_nat i) = unat f + i"
        using run_frame_unat(1) [OF wf _ count, of f i] fl that by simp
      then have "frame_valid s (f + of_nat i)" using that fit by (simp add: frame_valid_unat)
      then show ?thesis using test_frame_used [of s "f + of_nat i"] u that fit by (simp add: free_set_mem)
    qed
    then have "list_all (\<lambda>i. \<not> test_frame s (f + of_nat i)) [0..<unat count] \<longleftrightarrow>
      (\<forall>i<unat count. unat f + i \<in> free_set s)"
      by (auto simp: list_all_iff)
    also have "\<dots> \<longleftrightarrow> {unat f..<unat f + unat count} \<subseteq> free_set s"
      by (auto simp: subset_iff) (metis le_add_diff_inverse nat_add_left_cancel_less)
    finally show ?thesis .
  qed
  then show ?thesis
    using fc by (auto simp: run_pass_def Let_def f [symmetric] free_runs_def word_less_nat_alt)
qed

lemma start_frame_less:
  "pmm_wf s \<Longrightarrow> unat ((alloc_word_cursor s * BITMAP_WORD_BITS) mod frame_limit s) < unat (frame_limit s)"
  by (simp add: pmm_wf_def unat_mod)

lemma run_scan_cases:
  assumes wf: "pmm_wf s" and count: "unat count \<le> unat (frame_limit s)"
    and start: "unat start < unat (frame_limit s)"
  shows "free_runs s (unat count) = {} \<Longrightarrow>
      scan_first (run_pass s start count) [0..<unat (frame_limit s)] = None"
    and "0 < unat count \<Longrightarrow> free_runs s (unat count) \<noteq> {} \<Longrightarrow>
      \<exists>f. scan_first (run_pass s start count) [0..<unat (frame_limit s)] = Some f \<and>
        unat f \<in> free_runs s (unat count)"
proof -
  let ?scan = "scan_first (run_pass s start count) [0..<unat (frame_limit s)]"
  note iff = run_pass_iff [OF wf start _ count refl]
  show "?scan = None" if "free_runs s (unat count) = {}"
    using that iff by (auto simp: scan_first_None_iff)
  assume pos: "0 < unat count" and "free_runs s (unat count) \<noteq> {}"
  then obtain g where g: "g \<in> free_runs s (unat count)" by blast
  have gl: "g < unat (frame_limit s)" using g pos by (auto simp: free_runs_def)
  obtain pass where pass: "pass < unat (frame_limit s)" "(unat start + pass) mod unat (frame_limit s) = g"
    using ring_reach [OF _ gl, of "unat start"] start by auto
  have "run_pass s start count pass \<noteq> None"
    using iff [OF pass(1)] run_pass_frame [OF wf start pass(1)] pass(2) g by simp
  then obtain f where f: "?scan = Some f"
    using scan_first_ex [of pass "[0..<unat (frame_limit s)]" "run_pass s start count"] pass(1) by auto
  then obtain q where "q < unat (frame_limit s)" "run_pass s start count q = Some f"
    using scan_first_SomeD [OF f] by auto
  then have "unat f \<in> free_runs s (unat count)" using iff [of q] by (auto split: if_splits)
  with f show "\<exists>f. ?scan = Some f \<and> unat f \<in> free_runs s (unat count)" by blast
qed

lemma alloc_run_state:
  assumes inv: "pmm_wf s" and run: "unat f \<in> free_runs s (unat count)" and count: "0 < unat count"
    and t: "t = (fold (\<lambda>i. set_frame (f + of_nat i)) [0..<unat count] s)
      \<lparr>mm_stats := stats_take count (mm_stats s), alloc_word_cursor := (f + count) div BITMAP_WORD_BITS\<rparr>"
  shows "pmm_wf t" "free_set t = free_set s - {unat f..<unat f + unat count}"
    "frame_limit t = frame_limit s" "frame_valid s f"
proof -
  let ?F = "{unat f..<unat f + unat count}"
  let ?fs = "map (\<lambda>i. unat f + i) [0..<unat count]"
  have sub: "?F \<subseteq> free_set s" and fit: "unat f + unat count \<le> unat (frame_limit s)"
    using run by (simp_all add: free_runs_def)
  have lim: "unat f \<le> unat (frame_limit s)" "unat count \<le> unat (frame_limit s)" using fit by simp_all
  show v: "frame_valid s f" using fit count by (simp add: frame_valid_unat)
  have conv: "f + of_nat i = of_nat (unat f + i)" for i by simp
  have "fold (\<lambda>i. set_frame (f + of_nat i)) [0..<unat count] s = fold (\<lambda>n. set_frame (of_nat n)) ?fs s"
    by (simp add: fold_map comp_def conv del: of_nat_add)
  then have t': "t = (fold (\<lambda>n. set_frame (of_nat n)) ?fs s)
      \<lparr>mm_stats := stats_take count (mm_stats s), alloc_word_cursor := (f + count) div BITMAP_WORD_BITS\<rparr>"
    using t by simp
  have set: "set ?fs = ?F" by (auto simp: image_iff)
  have "\<forall>n\<in>set ?fs. n < unat (frame_limit s)" using fit unfolding set by auto
  note fs = fold_set_frames [OF inv this]
  have u: "frame_used t n \<longleftrightarrow> frame_used s n \<or> n \<in> ?F" for n
    using fs unfolding set by (simp add: t' frame_used_def)
  have card: "of_nat (card ?F) = count" by simp
  have cur: "unat (alloc_word_cursor t) \<le> unat (bitmap_words s)"
  proof -
    have "unat (alloc_word_cursor t) = (unat f + unat count) div 64"
      using run_frame_unat(2) [OF inv lim, of 0] by (simp add: t BITMAP_WORD_BITS_def unat_div)
    also have "\<dots> \<le> (unat (frame_limit s) + 63) div 64" using fit by (intro div_le_mono) simp
    finally show ?thesis using inv by (simp add: pmm_wf_def)
  qed
  show "pmm_wf t" "free_set t = free_set s - ?F"
    using wf_take [OF inv sub, of t, OF _ _ _ u _ _ _ cur] fs card by (simp_all add: t' stats_take_def)
  show "frame_limit t = frame_limit s" using fs by (simp add: t')
qed

text \<open>
  The behaviour of \<^verbatim>\<open>pmm_alloc_pages\<close> in one statement: it fails, leaving the state alone, when there is
  no run of that many free frames (or none was asked for), and otherwise takes one such run.
\<close>

lemma pmm_alloc_pages_fail:
  assumes "pmm_wf s" "count = 0 \<or> free_runs s (unat count) = {}"
  shows "pmm_alloc_pages count s = (0, s)"
proof (cases "count = 0 \<or> count > frame_limit s \<or> free_frames (mm_stats s) < count")
  case True
  then show ?thesis by (auto simp: pmm_alloc_pages_def)
next
  case False
  then have le: "unat count \<le> unat (frame_limit s)" and runs: "free_runs s (unat count) = {}"
    using assms by (auto simp: word_less_nat_alt)
  show ?thesis
  proof (cases "count = 1")
    case True
    then have "free_set s = {}" using runs free_runs_1 [of s] by simp
    then show ?thesis using True False alloc_single_empty [OF assms(1)] by (simp add: pmm_alloc_pages_def)
  next
    case ne: False
    show ?thesis
      using False ne run_scan_cases(1) [OF assms(1) le start_frame_less [OF assms(1)] runs]
      by (simp add: pmm_alloc_pages_def Let_def)
  qed
qed

lemma pmm_alloc_pages_ok:
  assumes wf: "pmm_wf s" and count: "count \<noteq> 0" and runs: "free_runs s (unat count) \<noteq> {}"
  shows "\<exists>a f t. pmm_alloc_pages count s = (a, t) \<and> unat a = f * 4096 \<and> f \<in> free_runs s (unat count) \<and>
    pmm_wf t \<and> free_set t = free_set s - {f..<f + unat count} \<and> frame_limit t = frame_limit s"
proof -
  obtain g where g: "g + unat count \<le> unat (frame_limit s)" "{g..<g + unat count} \<subseteq> free_set s"
    using runs by (auto simp: free_runs_def)
  have le: "unat count \<le> unat (frame_limit s)" using g(1) by simp
  have pos: "0 < unat count" using count by (simp add: unat_gt_0)
  have "unat count \<le> card (free_set s)"
    using card_mono [OF free_set_finite g(2)] by simp
  then have enough: "\<not> free_frames (mm_stats s) < count" "\<not> count > frame_limit s"
    using wf le by (simp_all add: pmm_wf_def word_less_nat_alt)
  show ?thesis
  proof (cases "count = 1")
    case True
    then have one: "free_set s \<noteq> {}" using runs free_runs_1 [of s] by simp
    have "pmm_alloc_pages count s = alloc_single_page_unlocked s"
      using True enough by (simp add: pmm_alloc_pages_def)
    moreover have "{f..<f + unat count} = {f}" for f using True by auto
    ultimately show ?thesis
      using alloc_single_some [OF wf one] True free_runs_1 [of s] by auto
  next
    case False
    let ?start = "(alloc_word_cursor s * BITMAP_WORD_BITS) mod frame_limit s"
    obtain f where f: "scan_first (run_pass s ?start count) [0..<unat (frame_limit s)] = Some f"
      "unat f \<in> free_runs s (unat count)"
      using run_scan_cases(2) [OF wf le start_frame_less [OF wf] pos runs] by blast
    define t where "t = (fold (\<lambda>i. set_frame (f + of_nat i)) [0..<unat count] s)
      \<lparr>mm_stats := stats_take count (mm_stats s), alloc_word_cursor := (f + count) div BITMAP_WORD_BITS\<rparr>"
    have "pmm_alloc_pages count s = (f * PAGE_SIZE, t)"
      using f(1) count False enough by (simp add: pmm_alloc_pages_def Let_def t_def)
    then show ?thesis
      using alloc_run_state [OF wf f(2) pos t_def] f(2) page_addr_unat [OF wf] by blast
  qed
qed

section \<open>Freeing\<close>

lemma pmm_free_page_noop:
  assumes "pmm_wf s" "a = 0 \<or> unat a mod 4096 \<noteq> 0 \<or> unat (frame_limit s) \<le> unat a div 4096 \<or>
    unat a div 4096 \<in> free_set s"
  shows "pmm_free_page a s = s"
proof (cases "a = 0 \<or> a mod PAGE_SIZE \<noteq> 0 \<or> \<not> frame_valid s (a div PAGE_SIZE)")
  case True
  then show ?thesis by (auto simp: pmm_free_page_def)
next
  case False
  have m: "unat (a mod PAGE_SIZE) = unat a mod 4096" by (simp add: PAGE_SIZE_def unat_mod)
  have d: "unat (a div PAGE_SIZE) = unat a div 4096" by (simp add: PAGE_SIZE_def unat_div)
  have "unat a div 4096 \<in> free_set s"
    using False assms(2) m d by (auto simp: frame_valid_unat)
  then have "\<not> test_frame s (a div PAGE_SIZE)"
    using False d by (simp add: test_frame_used free_set_mem)
  then show ?thesis by (simp add: pmm_free_page_def)
qed

lemma pmm_free_page_ok:
  assumes wf: "pmm_wf s" and a: "unat a = f * 4096" "0 < f" "f < unat (frame_limit s)" "f \<notin> free_set s"
  shows "pmm_wf (pmm_free_page a s)" "free_set (pmm_free_page a s) = insert f (free_set s)"
    "frame_limit (pmm_free_page a s) = frame_limit s"
proof -
  have d: "unat (a div PAGE_SIZE) = f" using a(1) by (simp add: PAGE_SIZE_def unat_div)
  have m: "a mod PAGE_SIZE = 0" using a(1) by (simp add: PAGE_SIZE_def unat_mod word_unat_eq_iff)
  have v: "frame_valid s (a div PAGE_SIZE)" using a(3) d by (simp add: frame_valid_unat)
  have used: "frame_used s f" using a(3,4) by (simp add: free_set_mem)
  let ?t = "(clear_frame (a div PAGE_SIZE) s)\<lparr>mm_stats := stats_give (mm_stats s),
      alloc_word_cursor := (a div PAGE_SIZE) div BITMAP_WORD_BITS\<rparr>"
  have eq: "pmm_free_page a s = ?t"
    using a(1,2) m v used d by (auto simp: pmm_free_page_def Let_def test_frame_used)
  have u: "frame_used ?t n \<longleftrightarrow> frame_used s n \<and> n \<noteq> f" for n
    using frame_used_clear [OF v, of n] wf_word_range [OF wf a(3)] d by (simp add: frame_used_def)
  have "unat (alloc_word_cursor ?t) = f div 64" using d by (simp add: BITMAP_WORD_BITS_def unat_div)
  also have "\<dots> \<le> unat (bitmap_words s)"
    using wf_word_range [OF wf a(3)] wf by (simp add: pmm_wf_def)
  finally have c: "unat (alloc_word_cursor ?t) \<le> unat (bitmap_words s)" .
  show "pmm_wf (pmm_free_page a s)" "free_set (pmm_free_page a s) = insert f (free_set s)"
    using wf_give [OF wf a(3) used, of ?t, OF _ _ _ u _ c] by (simp_all add: eq)
  show "frame_limit (pmm_free_page a s) = frame_limit s" by (simp add: eq)
qed

section \<open>Clients and ownership\<close>

text \<open>
  Any number of clients that allocate runs of pages and free pages they hold: a state of the
  allocator with the set of frames handed out and not yet given back.
\<close>

inductive pmm_step :: "pmm_state \<times> nat set \<Rightarrow> pmm_state \<times> nat set \<Rightarrow> bool" where
  alloc: "pmm_alloc_pages count s = (a, t) \<Longrightarrow> a \<noteq> 0 \<Longrightarrow>
     pmm_step (s, H) (t, H \<union> {unat a div 4096..<unat a div 4096 + unat count})"
| alloc_fail: "pmm_alloc_pages count s = (0, t) \<Longrightarrow> pmm_step (s, H) (t, H)"
| free: "f \<in> H \<Longrightarrow> unat a = f * 4096 \<Longrightarrow> pmm_step (s, H) (pmm_free_page a s, H - {f})"

inductive pmm_reachable :: "pmm_state \<Rightarrow> pmm_state \<times> nat set \<Rightarrow> bool" for s0 where
  start: "pmm_reachable s0 (s0, {})"
| step: "pmm_reachable s0 x \<Longrightarrow> pmm_step x y \<Longrightarrow> pmm_reachable s0 y"

inductive_cases pmm_stepE: "pmm_step (s, H) (t, H')"

definition pmm_owned :: "pmm_state \<Rightarrow> pmm_state \<times> nat set \<Rightarrow> bool" where
  "pmm_owned s0 x \<longleftrightarrow> (case x of (s, H) \<Rightarrow> pmm_inv s0 \<and> pmm_inv s \<and> frame_limit s = frame_limit s0 \<and>
     H \<inter> free_set s = {} \<and> H \<union> free_set s = free_set s0)"

lemma alloc_nonzero:
  assumes "pmm_inv s" "pmm_alloc_pages count s = (a, t)" "a \<noteq> 0"
  shows "count \<noteq> 0" "unat a div 4096 \<in> free_runs s (unat count)" "unat a = unat a div 4096 * 4096" "pmm_inv t"
    "free_set t = free_set s - {unat a div 4096..<unat a div 4096 + unat count}" "frame_limit t = frame_limit s"
proof -
  have wf: "pmm_wf s" using assms(1) by (simp add: pmm_inv_def)
  have c: "count \<noteq> 0" and r: "free_runs s (unat count) \<noteq> {}"
    using pmm_alloc_pages_fail [OF wf, of count] assms(2,3) by auto
  obtain f where f: "unat a = f * 4096" "f \<in> free_runs s (unat count)" "pmm_wf t"
    "free_set t = free_set s - {f..<f + unat count}" "frame_limit t = frame_limit s"
    using pmm_alloc_pages_ok [OF wf c r] assms(2) by auto
  then show "count \<noteq> 0" "unat a div 4096 \<in> free_runs s (unat count)" "unat a = unat a div 4096 * 4096" "pmm_inv t"
    "free_set t = free_set s - {unat a div 4096..<unat a div 4096 + unat count}" "frame_limit t = frame_limit s"
    using c assms(1) by (auto simp: pmm_inv_def)
qed

lemma pmm_step_owned:
  assumes "pmm_step x y" "pmm_owned s0 x"
  shows "pmm_owned s0 y"
  using assms
proof (induction rule: pmm_step.induct)
  case (alloc count s a t H)
  then have inv: "pmm_inv s" by (simp add: pmm_owned_def)
  note al = alloc_nonzero [OF inv alloc.hyps]
  have "{unat a div 4096..<unat a div 4096 + unat count} \<subseteq> free_set s"
    using al(2) by (simp add: free_runs_def)
  then show ?case using alloc.prems al by (auto simp: pmm_owned_def)
next
  case (alloc_fail count s t H)
  then have inv: "pmm_inv s" and wf: "pmm_wf s" by (simp_all add: pmm_owned_def pmm_inv_def)
  have "t = s"
  proof (cases "count = 0 \<or> free_runs s (unat count) = {}")
    case True
    then show ?thesis using pmm_alloc_pages_fail [OF wf] alloc_fail.hyps by auto
  next
    case False
    then obtain f where "unat (0 :: u64) = f * 4096" "f \<in> free_runs s (unat count)" "0 < unat count"
      using pmm_alloc_pages_ok [OF wf, of count] alloc_fail.hyps by (auto simp: unat_gt_0)
    then have "0 \<in> free_set s" by (auto simp: free_runs_def)
    with inv show ?thesis by (simp add: pmm_inv_def)
  qed
  then show ?case using alloc_fail.prems by simp
next
  case (free f H a s)
  then have wf: "pmm_wf s" and nf: "f \<notin> free_set s" and f0: "f \<in> free_set s0" and
    z: "0 \<notin> free_set s" and z0: "frame_limit s = frame_limit s0"
    and split: "H \<inter> free_set s = {}" "H \<union> free_set s = free_set s0"
    by (auto simp: pmm_owned_def pmm_inv_def)
  have lim: "f < unat (frame_limit s)" using f0 z0 by (simp add: free_set_mem)
  have "0 \<notin> free_set s0" using free.prems by (simp add: pmm_owned_def pmm_inv_def)
  then have "0 < f" using f0 by (metis gr0I)
  then show ?case
    using pmm_free_page_ok [OF wf free.hyps(2) _ lim nf] split z z0 free.hyps(1) free.prems
    by (auto simp: pmm_owned_def pmm_inv_def)
qed

lemma pmm_reachable_owned: "pmm_reachable s0 x \<Longrightarrow> pmm_inv s0 \<Longrightarrow> pmm_owned s0 x"
  by (induction rule: pmm_reachable.induct) (auto simp: pmm_owned_def [of s0 "(s0, {})"] intro: pmm_step_owned)

section \<open>Properties\<close>

text \<open>
  \<^verbatim>\<open>pmm_init_from_ranges\<close> establishes the allocator's invariant from any earlier state, and the
  free frames are exactly those that lie inside an available range and below the frame limit,
  without the first megabyte, the kernel image and the bitmap's own pages.
\<close>
theorem pmm_init_from_ranges_correct:
  "pmm_inv (pmm_init_from_ranges img ranges s) \<and>
   unat (frame_limit (pmm_init_from_ranges img ranges s)) =
     max 1 (min (unat (highest_available_end ranges div PAGE_SIZE)) (2 ^ 25)) \<and>
   free_set (pmm_init_from_ranges img ranges s) =
     ((\<Union>r\<in>Set.filter (\<lambda>r. mr_type r = NM_MEM_AVAILABLE) (set ranges). frames_inside (mr_base r) (mr_length r))
      \<inter> {..<unat (frame_limit (pmm_init_from_ranges img ranges s))})
     - {..<256} - kernel_frames img - bitmap_frames (pmm_init_from_ranges img ranges s)"
  using pmm_init_from_ranges_state [OF refl, of img ranges s] by simp

text \<open>
  C10: \<^verbatim>\<open>pmm_alloc_pages\<close> is sound and complete. It succeeds exactly when some run of \<open>count\<close> free
  frames exists; then it returns the (non-null) address of such a run, marks exactly those frames
  used and keeps bitmap and counters consistent. Otherwise it returns 0 and changes nothing.
\<close>
theorem pmm_alloc_pages_correct:
  assumes "pmm_inv s"
  shows "if count \<noteq> 0 \<and> free_runs s (unat count) \<noteq> {}
    then \<exists>a f t. pmm_alloc_pages count s = (a, t) \<and> a \<noteq> 0 \<and> unat a = f * 4096 \<and>
      f \<in> free_runs s (unat count) \<and> pmm_inv t \<and> free_set t = free_set s - {f..<f + unat count}
    else pmm_alloc_pages count s = (0, s)"
proof (cases "count \<noteq> 0 \<and> free_runs s (unat count) \<noteq> {}")
  case True
  have wf: "pmm_wf s" and z: "0 \<notin> free_set s" using assms by (simp_all add: pmm_inv_def)
  obtain a f t where r: "pmm_alloc_pages count s = (a, t)" "unat a = f * 4096" "f \<in> free_runs s (unat count)"
    "pmm_wf t" "free_set t = free_set s - {f..<f + unat count}"
    using pmm_alloc_pages_ok [OF wf, of count] True by blast
  have "f \<in> free_set s" using r(3) True by (auto simp: free_runs_def unat_gt_0)
  then have "a \<noteq> 0" using r(2) z by (cases "f = 0") auto
  with r z True show ?thesis by (auto simp: pmm_inv_def)
next
  case False
  then have "pmm_alloc_pages count s = (0, s)"
    using assms by (intro pmm_alloc_pages_fail) (auto simp: pmm_inv_def)
  then show ?thesis using False by simp
qed

definition demo_img :: kernel_image where
  "demo_img = \<lparr>kernel_phys_start = 0x100000, kernel_phys_end = 0x200000\<rparr>"

definition demo_pmm :: pmm_state where
  "demo_pmm = pmm_init_from_ranges demo_img [\<lparr>mr_base = 0x100000, mr_length = 0x700000, mr_type = 1\<rparr>]
     \<lparr>mm_stats = \<lparr>total_frames = 0, free_frames = 0, used_frames = 0, reserved_frames = 0\<rparr>,
      frame_bitmap = [], frame_limit = 0, bitmap_words = 0, bitmap_phys_base = 0, bitmap_bytes = 0,
      alloc_word_cursor = 0\<rparr>"

lemma demo_pmm_inv: "pmm_inv demo_pmm"
  unfolding demo_pmm_def by (rule pmm_init_from_ranges_state(1) [OF refl])

lemma demo_pmm_limit: "unat (frame_limit demo_pmm) = 2048"
  unfolding demo_pmm_def
  by (subst pmm_init_from_ranges_state(3) [OF refl])
    (simp add: highest_available_end_def NM_MEM_AVAILABLE_def PAGE_SIZE_def)

lemma demo_pmm_bitmap: "bitmap_frames demo_pmm = {512}"
proof -
  have "bitmap_phys_base demo_pmm = 0x200000" "bitmap_bytes demo_pmm = 256"
    by (simp_all add: demo_pmm_def pmm_init_from_ranges_def Let_def reserve_kernel_def mark_all_used_def
        init_runtime_bitmap_def highest_available_end_def NM_MEM_AVAILABLE_def PAGE_SIZE_def MAX_FRAMES_eq
        BITMAP_WORD_BITS_def kernel_symbol_to_phys_def KERNEL_VIRT_BASE_def demo_img_def align_up_u64_def)
  then show ?thesis by (auto simp: bitmap_frames_def frames_touched_def)
qed

lemma demo_pmm_free: "free_set demo_pmm = {513..<2048}"
proof -
  have k: "kernel_frames demo_img = {256..<512}"
    by (auto simp: kernel_frames_def frames_touched_def kernel_symbol_to_phys_def KERNEL_VIRT_BASE_def demo_img_def)
  have "free_set demo_pmm = frames_inside 0x100000 0x700000 \<inter> {..<2048} - {..<256} - {256..<512} - {512}"
  proof -
    have one: "{r \<in> set [R]. mr_type r = NM_MEM_AVAILABLE} = (if mr_type R = NM_MEM_AVAILABLE then {R} else {})" for R
      by auto
    show ?thesis
      using pmm_init_from_ranges_state(2) [OF demo_pmm_def]
      unfolding one demo_pmm_limit demo_pmm_bitmap k by (simp add: NM_MEM_AVAILABLE_def)
  qed
  moreover have "frames_inside 0x100000 0x700000 = {256..<2048}" by (simp add: frames_inside_def)
  moreover have "{256..<2048} \<inter> {..<2048} - {..<256} - {256..<512} - {512} = {513..<2048 :: nat}"
  proof (rule set_eqI)
    fix n :: nat
    have "256 \<le> n \<and> n < 2048 \<and> \<not> n < 256 \<and> \<not> (256 \<le> n \<and> n < 512) \<and> n \<noteq> 512 \<longleftrightarrow> 513 \<le> n \<and> n < 2048"
      by arith
    then show "n \<in> {256..<2048} \<inter> {..<2048} - {..<256} - {256..<512} - {512} \<longleftrightarrow> n \<in> {513..<2048}"
      by (simp only: Diff_iff Int_iff atLeastLessThan_iff lessThan_iff singleton_iff) blast
  qed
  ultimately show ?thesis by simp
qed

theorem pmm_alloc_pages_correct_witness:
  "\<exists>a f t. pmm_alloc_pages 4 demo_pmm = (a, t) \<and> a \<noteq> 0 \<and> unat a = f * 4096 \<and>
     513 \<le> f \<and> f + 4 \<le> 2048 \<and> pmm_inv t \<and> free_set t = {513..<2048} - {f..<f + 4}"
proof -
  have "513 \<in> free_runs demo_pmm 4"
    by (auto simp: free_runs_def demo_pmm_limit demo_pmm_free)
  then have "free_runs demo_pmm (unat (4 :: u64)) \<noteq> {}" by auto
  then obtain a f t where r: "pmm_alloc_pages 4 demo_pmm = (a, t)" "a \<noteq> 0" "unat a = f * 4096"
    "f \<in> free_runs demo_pmm 4" "pmm_inv t" "free_set t = free_set demo_pmm - {f..<f + 4}"
    using pmm_alloc_pages_correct [OF demo_pmm_inv, of 4] by auto
  then show ?thesis
    by (auto simp: free_runs_def demo_pmm_limit demo_pmm_free subset_iff)
qed

text \<open>
  \<^verbatim>\<open>pmm_free_page\<close> makes exactly the frame of a page in use free again; freeing address 0, an
  unaligned address, an address above the managed memory or a page that is already free (a double
  free) changes nothing at all.
\<close>
theorem pmm_free_page_correct:
  assumes "pmm_inv s"
  shows "if a = 0 \<or> unat a mod 4096 \<noteq> 0 \<or> unat (frame_limit s) \<le> unat a div 4096 \<or> unat a div 4096 \<in> free_set s
    then pmm_free_page a s = s
    else pmm_inv (pmm_free_page a s) \<and> free_set (pmm_free_page a s) = insert (unat a div 4096) (free_set s)"
proof (cases "a = 0 \<or> unat a mod 4096 \<noteq> 0 \<or> unat (frame_limit s) \<le> unat a div 4096 \<or> unat a div 4096 \<in> free_set s")
  case True
  then show ?thesis using assms pmm_free_page_noop [of s a] by (auto simp: pmm_inv_def)
next
  case False
  have a: "unat a = unat a div 4096 * 4096" using False by auto
  have pos: "0 < unat a div 4096" using False a by (metis gr0I mult_0 unat_eq_zero)
  show ?thesis
    using pmm_free_page_ok [of s a, OF _ a pos] False assms pos by (auto simp: pmm_inv_def)
qed

theorem pmm_free_page_correct_witness:
  "free_set (pmm_free_page 0x200000 demo_pmm) = insert 512 {513..<2048} \<and> pmm_free_page 0x201000 demo_pmm = demo_pmm"
  using pmm_free_page_correct [OF demo_pmm_inv, of "0x200000"] pmm_free_page_correct [OF demo_pmm_inv, of "0x201000"]
  by (auto simp: demo_pmm_free demo_pmm_limit)

text \<open>
  C2: no page is ever handed out twice and no reserved page is ever handed out. Whatever sequence
  of allocations and frees clients perform, as long as they free only pages they hold, the frames
  they hold are disjoint from the free frames and together with them make up exactly the frames
  that were free at the start; the counters stay right.
\<close>
theorem pmm_ownership:
  assumes "pmm_inv s0" "pmm_reachable s0 (s, H)"
  shows "pmm_inv s \<and> H \<inter> free_set s = {} \<and> H \<union> free_set s = free_set s0 \<and>
    unat (free_frames (pmm_get_stats s)) = card (free_set s0 - H)"
proof -
  have o: "pmm_owned s0 (s, H)" by (rule pmm_reachable_owned [OF assms(2,1)])
  then have "free_set s = free_set s0 - H" by (auto simp: pmm_owned_def)
  then show ?thesis using o by (auto simp: pmm_owned_def pmm_inv_def pmm_wf_def pmm_get_stats_def)
qed

theorem pmm_ownership_witness:
  "\<exists>s H. pmm_reachable demo_pmm (s, H) \<and> card H = 2 \<and> H \<inter> free_set s = {} \<and> H \<union> free_set s = {513..<2048}"
proof -
  have "513 \<in> free_runs demo_pmm 2"
    by (auto simp: free_runs_def demo_pmm_limit demo_pmm_free)
  then have r: "free_runs demo_pmm (unat (2 :: u64)) \<noteq> {}" by auto
  obtain a f t where al: "pmm_alloc_pages 2 demo_pmm = (a, t)" "unat a = f * 4096" "f \<in> free_runs demo_pmm (unat (2 :: u64))"
    using pmm_alloc_pages_ok [OF _ _ r] demo_pmm_inv by (auto simp: pmm_inv_def)
  have "a \<noteq> 0" using al(2,3) by (auto simp: free_runs_def demo_pmm_free)
  then have step: "pmm_reachable demo_pmm (t, {} \<union> {unat a div 4096..<unat a div 4096 + unat (2 :: u64)})"
    by (intro pmm_reachable.step [OF pmm_reachable.start] pmm_step.alloc [OF al(1)])
  show ?thesis
    using step pmm_ownership [OF demo_pmm_inv step] demo_pmm_free by (intro exI conjI) auto
qed

end
