(* ===== verification/Multiboot2.thy ===== *)
theory Multiboot2
  imports Pmm
begin

text \<open>
  Initialisation of the page allocator from the boot loader's information structure
  (\<^verbatim>\<open>pmm_init_from_multiboot2\<close> of \<^verbatim>\<open>kernel/mm/pmm.c\<close> and the layouts of
  \<^verbatim>\<open>include/nm/multiboot2.h\<close>). The boot memory is a byte function; the structure lies below 4 GiB
  (GRUB passes a 32-bit pointer and a 32-bit size), so cursor arithmetic does not wrap and cursors
  are natural numbers. Both passes of the code walk the same tags in the same way: the walk is
  \<open>mb2_tags\<close>, the entry loop inside a memory-map tag is \<open>mb2_entries\<close>.
\<close>

section \<open>Reading the structure\<close>

definition MB2_TAG_END :: u32 where "MB2_TAG_END = 0"
definition MB2_TAG_MODULE :: u32 where "MB2_TAG_MODULE = 3"
definition MB2_TAG_MMAP :: u32 where "MB2_TAG_MMAP = 6"

type_synonym boot_mem = "nat \<Rightarrow> u8"

text \<open>Little-endian loads of the x86.\<close>

definition rd32 :: "boot_mem \<Rightarrow> nat \<Rightarrow> u32" where
  "rd32 mem a = ucast (mem a) OR push_bit 8 (ucast (mem (a + 1))) OR
     push_bit 16 (ucast (mem (a + 2))) OR push_bit 24 (ucast (mem (a + 3)))"

definition rd64 :: "boot_mem \<Rightarrow> nat \<Rightarrow> u64" where
  "rd64 mem a = ucast (rd32 mem a) OR push_bit 32 (ucast (rd32 mem (a + 4)))"

definition tag_type :: "boot_mem \<Rightarrow> nat \<Rightarrow> u32" where
  "tag_type mem cursor = rd32 mem cursor"

definition tag_size :: "boot_mem \<Rightarrow> nat \<Rightarrow> nat" where
  "tag_size mem cursor = unat (rd32 mem (cursor + 4))"

text \<open>
  The loop over the tags: the cursors for which the body runs, in order. \<open>(size + 7) div 8 * 8\<close> is
  the code's \<^verbatim>\<open>(size + 7) & ~7\<close>.
\<close>

function mb2_tags :: "boot_mem \<Rightarrow> nat \<Rightarrow> nat \<Rightarrow> nat list" where
  "mb2_tags mem cursor end1 =
     (if cursor + 8 \<le> end1 then
        if tag_type mem cursor = MB2_TAG_END then []
        else if tag_size mem cursor < 8 then []
        else let next = cursor + (tag_size mem cursor + 7) div 8 * 8 in
          if next \<le> cursor \<or> next > end1 then [] else cursor # mb2_tags mem next end1
      else [])"
  by pat_completeness auto
termination
  by (relation "measure (\<lambda>(mem, cursor, end1). end1 - cursor)") auto

declare mb2_tags.simps [simp del]

text \<open>The loop over the entries of a memory-map tag, entered only for entries of at least 24 bytes.\<close>

function mb2_entries :: "nat \<Rightarrow> nat \<Rightarrow> nat \<Rightarrow> nat list" where
  "mb2_entries entry_size entry_ptr entry_end =
     (if 24 \<le> entry_size \<and> entry_ptr + 24 \<le> entry_end
      then entry_ptr # mb2_entries entry_size (entry_ptr + entry_size) entry_end else [])"
  by pat_completeness auto
termination
  by (relation "measure (\<lambda>(es, p, e). e - p)") auto

declare mb2_entries.simps [simp del]

definition mmap_entries :: "boot_mem \<Rightarrow> nat \<Rightarrow> nat list" where
  "mmap_entries mem tag =
     (if tag_type mem tag = MB2_TAG_MMAP \<and> tag_size mem tag \<ge> 16
      then mb2_entries (unat (rd32 mem (tag + 8))) (tag + 16) (tag + tag_size mem tag) else [])"

definition entry_range :: "boot_mem \<Rightarrow> nat \<Rightarrow> nm_mem_range" where
  "entry_range mem e = \<lparr>mr_base = rd64 mem e, mr_length = rd64 mem (e + 8), mr_type = rd32 mem (e + 16)\<rparr>"

definition module_range :: "boot_mem \<Rightarrow> nat \<Rightarrow> (u32 \<times> u32) option" where
  "module_range mem tag =
     (if tag_type mem tag = MB2_TAG_MODULE \<and> tag_size mem tag \<ge> 16 \<and>
         rd32 mem (tag + 12) > rd32 mem (tag + 8)
      then Some (rd32 mem (tag + 8), rd32 mem (tag + 12)) else None)"

section \<open>The two passes\<close>

definition mb2_highest_tag :: "boot_mem \<Rightarrow> nat \<Rightarrow> u64 \<Rightarrow> u64" where
  "mb2_highest_tag mem tag highest_end =
     (let h = fold (\<lambda>e h. let r = entry_range mem e in
                if mr_type r = NM_MEM_AVAILABLE
                then let e_end = mr_base r + mr_length r in if e_end > h then e_end else h
                else h) (mmap_entries mem tag) highest_end
      in case module_range mem tag of
           None \<Rightarrow> h
         | Some (mod_start, mod_end) \<Rightarrow> if ucast mod_end > h then ucast mod_end else h)"

definition mb2_mark_tag :: "boot_mem \<Rightarrow> nat \<Rightarrow> pmm_state \<Rightarrow> pmm_state" where
  "mb2_mark_tag mem tag s =
     (let s = mark_available_ranges (map (entry_range mem) (mmap_entries mem tag)) s
      in case module_range mem tag of
           None \<Rightarrow> s
         | Some (mod_start, mod_end) \<Rightarrow> reserve_range (ucast mod_start) (ucast (mod_end - mod_start)) s)"

definition pmm_init_fallback :: "kernel_image \<Rightarrow> pmm_state \<Rightarrow> pmm_state" where
  "pmm_init_fallback img s =
     reserve_kernel img (mark_all_used
       (init_runtime_bitmap img MAX_FRAMES (kernel_symbol_to_phys (kernel_phys_end img)) s))"

definition pmm_init_from_multiboot2 :: "kernel_image \<Rightarrow> boot_mem \<Rightarrow> u64 \<Rightarrow> pmm_state \<Rightarrow> pmm_state" where
  "pmm_init_from_multiboot2 img mem mb2_info_ptr s =
     (if mb2_info_ptr = 0 then pmm_init_fallback img s
      else let total_size = rd32 mem (unat mb2_info_ptr) in
        if total_size < 8 then pmm_init_fallback img s
        else let tags = mb2_tags mem (unat mb2_info_ptr + 8) (unat mb2_info_ptr + unat total_size);
                 highest_end = fold (mb2_highest_tag mem) tags 0;
                 s = init_runtime_bitmap img (highest_end div PAGE_SIZE) (mb2_info_ptr + ucast total_size) s;
                 s = mark_all_used s;
                 s = fold (mb2_mark_tag mem) tags s;
                 s = reserve_kernel img s
             in reserve_range mb2_info_ptr (ucast total_size) s)"

section \<open>What is free afterwards\<close>

definition tag_available :: "boot_mem \<Rightarrow> nat \<Rightarrow> nat set" where
  "tag_available mem tag =
     (\<Union>r\<in>{r \<in> set (map (entry_range mem) (mmap_entries mem tag)). mr_type r = NM_MEM_AVAILABLE}.
        frames_inside (mr_base r) (mr_length r))"

definition tag_reserved :: "boot_mem \<Rightarrow> nat \<Rightarrow> nat set" where
  "tag_reserved mem tag =
     (case module_range mem tag of None \<Rightarrow> {}
      | Some (mod_start, mod_end) \<Rightarrow> frames_touched (ucast mod_start) (ucast (mod_end - mod_start)))"

lemma mb2_mark_tag_wf:
  assumes "pmm_wf s"
  shows "pmm_wf (mb2_mark_tag mem tag s)"
    "free_set (mb2_mark_tag mem tag s) =
      free_set s \<union> (tag_available mem tag \<inter> {..<unat (frame_limit s)}) - tag_reserved mem tag"
    "frame_limit (mb2_mark_tag mem tag s) = frame_limit s"
  using mark_available_ranges_wf [OF assms, of "map (entry_range mem) (mmap_entries mem tag)"]
  by (auto simp: mb2_mark_tag_def Let_def tag_available_def tag_reserved_def reserve_range_wf
      split: option.splits)

text \<open>The free frames after a sequence of tags: the last tag that speaks about a frame decides.\<close>

fun tags_free :: "boot_mem \<Rightarrow> nat list \<Rightarrow> nat set \<Rightarrow> nat set" where
  "tags_free mem [] F = F"
| "tags_free mem (t # ts) F = tags_free mem ts (F \<union> tag_available mem t - tag_reserved mem t)"

lemma tags_free_Int: "tags_free mem ts (F \<inter> L) \<inter> L = tags_free mem ts F \<inter> L"
proof (induction ts arbitrary: F)
  case Nil
  then show ?case by auto
next
  case (Cons t ts)
  have "tags_free mem ts ((F \<inter> L) \<union> tag_available mem t - tag_reserved mem t) \<inter> L =
    tags_free mem ts (((F \<inter> L) \<union> tag_available mem t - tag_reserved mem t) \<inter> L) \<inter> L"
    by (simp add: Cons.IH)
  also have "((F \<inter> L) \<union> tag_available mem t - tag_reserved mem t) \<inter> L =
    (F \<union> tag_available mem t - tag_reserved mem t) \<inter> L" by auto
  finally show ?case by (simp add: Cons.IH)
qed

lemma fold_mark_tags_wf:
  "pmm_wf s \<Longrightarrow> pmm_wf (fold (mb2_mark_tag mem) tags s) \<and>
   frame_limit (fold (mb2_mark_tag mem) tags s) = frame_limit s \<and>
   free_set (fold (mb2_mark_tag mem) tags s) = tags_free mem tags (free_set s) \<inter> {..<unat (frame_limit s)}"
proof (induction tags arbitrary: s)
  case Nil
  then show ?case by (auto simp: free_set_def)
next
  case (Cons t ts)
  let ?L = "{..<unat (frame_limit s)}"
  let ?s = "mb2_mark_tag mem t s"
  have fs: "free_set s \<subseteq> ?L" by (auto simp: free_set_def)
  have "free_set ?s = (free_set s \<union> tag_available mem t - tag_reserved mem t) \<inter> ?L"
    using mb2_mark_tag_wf(2) [OF Cons.prems, of mem t] fs by auto
  then show ?case
    using Cons.IH [OF mb2_mark_tag_wf(1) [OF Cons.prems, of mem t]] mb2_mark_tag_wf(3) [OF Cons.prems, of mem t]
    by (simp add: tags_free_Int)
qed

lemma pmm_init_fallback_state:
  "pmm_inv (pmm_init_fallback img s)" "free_set (pmm_init_fallback img s) = {}"
proof -
  note lim = init_runtime_bitmap_limits [OF refl]
  show "pmm_inv (pmm_init_fallback img s)" "free_set (pmm_init_fallback img s) = {}"
    by (simp_all add: pmm_init_fallback_def reserve_kernel_inv mark_all_used_wf [OF lim(1-3)] reserve_kernel_wf)
qed

text \<open>The parts of the main path: the tags, the state after marking them, the final state.\<close>

lemma pmm_init_from_multiboot2_state:
  assumes "ptr \<noteq> 0" "tsize = rd32 mem (unat ptr)" "8 \<le> tsize"
    "tags = mb2_tags mem (unat ptr + 8) (unat ptr + unat tsize)"
    "t = pmm_init_from_multiboot2 img mem ptr s"
  shows "pmm_inv t"
    "free_set t = tags_free mem tags {} \<inter> {..<unat (frame_limit t)} - {..<256} - kernel_frames img
      - bitmap_frames t - frames_touched ptr (ucast tsize)"
    "unat (frame_limit t) = max 1 (min (unat (fold (mb2_highest_tag mem) tags 0 div PAGE_SIZE)) (2 ^ 25))"
proof -
  define s1 where "s1 = init_runtime_bitmap img (fold (mb2_highest_tag mem) tags 0 div PAGE_SIZE)
    (ptr + ucast tsize) s"
  define s2 where "s2 = fold (mb2_mark_tag mem) tags (mark_all_used s1)"
  have t: "t = reserve_range ptr (ucast tsize) (reserve_kernel img s2)"
    using assms by (simp add: pmm_init_from_multiboot2_def Let_def s1_def s2_def not_less)
  note lim = init_runtime_bitmap_limits [OF s1_def]
  have wf1: "pmm_wf (mark_all_used s1)" "free_set (mark_all_used s1) = {}"
    "frame_limit (mark_all_used s1) = frame_limit s1"
    using mark_all_used_wf [OF lim(1-3)] by (simp_all add: mark_all_used_def)
  note s2 = fold_mark_tags_wf [OF wf1(1), of mem tags, folded s2_def]
  have wf3: "pmm_wf (reserve_kernel img s2)" "0 \<notin> free_set (reserve_kernel img s2)"
    using s2 reserve_kernel_inv [of s2 img] by (simp_all add: pmm_inv_def)
  show "pmm_inv t" using wf3 by (simp add: t pmm_inv_def reserve_range_wf)
  have fl: "frame_limit t = frame_limit s1" "bitmap_frames t = bitmap_frames s2"
    using s2 wf1 reserve_kernel_wf(3,4) [of s2 img] by (simp_all add: t bitmap_frames_def)
  show "unat (frame_limit t) = max 1 (min (unat (fold (mb2_highest_tag mem) tags 0 div PAGE_SIZE)) (2 ^ 25))"
    using lim(4) fl by simp
  show "free_set t = tags_free mem tags {} \<inter> {..<unat (frame_limit t)} - {..<256} - kernel_frames img
      - bitmap_frames t - frames_touched ptr (ucast tsize)"
    using s2 wf1 wf3 fl by (simp add: t reserve_range_wf reserve_kernel_wf)
qed

section \<open>Properties\<close>

text \<open>
  C34: whatever the boot loader passes (a null pointer, a structure too small to be one, or any byte
  contents), \<^verbatim>\<open>pmm_init_from_multiboot2\<close> terminates with the allocator's invariant established, and
  no frame of the first megabyte, of the kernel image, of the bitmap or of the boot information is
  free.
\<close>
theorem pmm_init_from_multiboot2_safe:
  fixes s :: pmm_state
  shows "pmm_inv (pmm_init_from_multiboot2 img mem ptr s) \<and>
    free_set (pmm_init_from_multiboot2 img mem ptr s) \<inter>
      ({..<256} \<union> kernel_frames img \<union> bitmap_frames (pmm_init_from_multiboot2 img mem ptr s) \<union>
       (if ptr = 0 then {} else frames_touched ptr (ucast (rd32 mem (unat ptr))))) = {}"
proof (cases "ptr = 0 \<or> rd32 mem (unat ptr) < 8")
  case True
  then have "pmm_init_from_multiboot2 img mem ptr s = pmm_init_fallback img s"
    by (auto simp: pmm_init_from_multiboot2_def)
  then show ?thesis using pmm_init_fallback_state [of img s] by simp
next
  case False
  note st = pmm_init_from_multiboot2_state [OF _ refl _ refl refl, of ptr mem img s]
  show ?thesis using st(1,2) False by (auto simp: not_less)
qed

text \<open>A boot memory with a module tag in front of the memory map, as GRUB lays them out.\<close>

definition demo_boot_bytes :: "u8 list" where
  "demo_boot_bytes =
     [72, 0, 0, 0, 0, 0, 0, 0,
      3, 0, 0, 0, 16, 0, 0, 0, 0, 0, 0x40, 0, 0, 0, 0x50, 0,
      6, 0, 0, 0, 40, 0, 0, 0, 24, 0, 0, 0, 0, 0, 0, 0,
      0, 0, 0x10, 0, 0, 0, 0, 0, 0, 0, 0x70, 0, 0, 0, 0, 0, 1, 0, 0, 0, 0, 0, 0, 0,
      0, 0, 0, 0, 8, 0, 0, 0]"

definition demo_boot_mem :: boot_mem where
  "demo_boot_mem a = (if 0x20000 \<le> a \<and> a < 0x20000 + 72 then demo_boot_bytes ! (a - 0x20000) else 0)"

lemma demo_tags: "mb2_tags demo_boot_mem 0x20008 0x20048 = [0x20008, 0x20018]"
  by (simp add: mb2_tags.simps tag_type_def tag_size_def rd32_def demo_boot_mem_def demo_boot_bytes_def
      MB2_TAG_END_def Let_def)

lemma demo_entries:
  "module_range demo_boot_mem 0x20008 = Some (0x400000, 0x500000)" "module_range demo_boot_mem 0x20018 = None"
  "mmap_entries demo_boot_mem 0x20008 = []" "mmap_entries demo_boot_mem 0x20018 = [0x20028]"
  "entry_range demo_boot_mem 0x20028 = \<lparr>mr_base = 0x100000, mr_length = 0x700000, mr_type = 1\<rparr>"
  by (simp_all add: module_range_def mmap_entries_def mb2_entries.simps entry_range_def rd64_def tag_type_def
      tag_size_def rd32_def demo_boot_mem_def demo_boot_bytes_def MB2_TAG_MODULE_def MB2_TAG_MMAP_def)

lemma demo_tag_sets:
  "tag_available demo_boot_mem 0x20008 = {}" "tag_reserved demo_boot_mem 0x20008 = {0x400..<0x500}"
  "tag_available demo_boot_mem 0x20018 = {0x100..<0x800}" "tag_reserved demo_boot_mem 0x20018 = {}"
  by (simp_all add: tag_available_def tag_reserved_def demo_entries NM_MEM_AVAILABLE_def frames_inside_def
      frames_touched_def cong: conj_cong)

lemma demo_boot_size: "rd32 demo_boot_mem (unat (0x20000 :: u64)) = 72"
  by (simp add: rd32_def demo_boot_mem_def demo_boot_bytes_def)

lemma demo_boot_highest: "fold (mb2_highest_tag demo_boot_mem) [0x20008, 0x20018] 0 = 0x800000"
  by (simp add: mb2_highest_tag_def demo_entries NM_MEM_AVAILABLE_def Let_def)

lemma mb2_mark_tag_bitmap [simp]:
  "bitmap_phys_base (mb2_mark_tag mem tag s) = bitmap_phys_base s"
  "bitmap_bytes (mb2_mark_tag mem tag s) = bitmap_bytes s"
  by (simp_all add: mb2_mark_tag_def Let_def split: option.splits)

lemma fold_mark_tags_bitmap [simp]:
  "bitmap_phys_base (fold (mb2_mark_tag mem) tags s) = bitmap_phys_base s"
  "bitmap_bytes (fold (mb2_mark_tag mem) tags s) = bitmap_bytes s"
  by (induction tags arbitrary: s) simp_all

lemma demo_boot_bitmap:
  "bitmap_frames (pmm_init_from_multiboot2 demo_img demo_boot_mem 0x20000 s) = {512}"
proof -
  have "bitmap_phys_base (pmm_init_from_multiboot2 demo_img demo_boot_mem 0x20000 s) = 0x200000"
    "bitmap_bytes (pmm_init_from_multiboot2 demo_img demo_boot_mem 0x20000 s) = 256"
    using demo_boot_size demo_boot_highest
    by (simp_all add: pmm_init_from_multiboot2_def Let_def demo_tags reserve_kernel_def mark_all_used_def
        init_runtime_bitmap_def PAGE_SIZE_def MAX_FRAMES_eq
        BITMAP_WORD_BITS_def kernel_symbol_to_phys_def KERNEL_VIRT_BASE_def demo_img_def align_up_u64_def)
  then show ?thesis by (auto simp: bitmap_frames_def frames_touched_def)
qed

lemma tags_free_append: "tags_free mem (ts1 @ ts2) F = tags_free mem ts2 (tags_free mem ts1 F)"
  by (induction ts1 arbitrary: F) auto

lemma tags_free_not_available:
  "n \<notin> F \<Longrightarrow> \<forall>t\<in>set ts. n \<notin> tag_available mem t \<Longrightarrow> n \<notin> tags_free mem ts F"
  by (induction ts arbitrary: F) auto

text \<open>
  a boot module stays out of the allocator's hands when no later tag of the structure lists its
  frames as available: such a frame is not free after \<^verbatim>\<open>pmm_init_from_multiboot2\<close>.
\<close>
theorem module_after_mmap_reserved:
  assumes "ptr \<noteq> 0" "8 \<le> rd32 mem (unat ptr)"
    and "mb2_tags mem (unat ptr + 8) (unat ptr + unat (rd32 mem (unat ptr))) = earlier @ tag # later"
    and "module_range mem tag = Some (mod_start, mod_end)"
    and "n \<in> frames_touched (ucast mod_start) (ucast (mod_end - mod_start))"
    and "\<forall>t\<in>set later. n \<notin> tag_available mem t"
  shows "n \<notin> free_set (pmm_init_from_multiboot2 img mem ptr s)"
proof -
  have "n \<notin> tags_free mem (earlier @ tag # later) {}"
    using assms(4-6) by (simp add: tags_free_append tags_free_not_available tag_reserved_def)
  then show ?thesis
    using pmm_init_from_multiboot2_state(2) [OF assms(1) refl assms(2) refl refl, of img s] assms(3) by simp
qed

text \<open>The same structure with the two tags swapped.\<close>

definition demo_boot_bytes2 :: "u8 list" where
  "demo_boot_bytes2 =
     [72, 0, 0, 0, 0, 0, 0, 0,
      6, 0, 0, 0, 40, 0, 0, 0, 24, 0, 0, 0, 0, 0, 0, 0,
      0, 0, 0x10, 0, 0, 0, 0, 0, 0, 0, 0x70, 0, 0, 0, 0, 0, 1, 0, 0, 0, 0, 0, 0, 0,
      3, 0, 0, 0, 16, 0, 0, 0, 0, 0, 0x40, 0, 0, 0, 0x50, 0,
      0, 0, 0, 0, 8, 0, 0, 0]"

definition demo_boot_mem2 :: boot_mem where
  "demo_boot_mem2 a = (if 0x20000 \<le> a \<and> a < 0x20000 + 72 then demo_boot_bytes2 ! (a - 0x20000) else 0)"

lemma demo_boot_mem2_tags:
  "rd32 demo_boot_mem2 (unat (0x20000 :: u64)) = 72"
  "mb2_tags demo_boot_mem2 0x20008 0x20048 = [0x20008, 0x20030]"
  "module_range demo_boot_mem2 0x20030 = Some (0x400000, 0x500000)"
  by (simp_all add: mb2_tags.simps tag_type_def tag_size_def rd32_def demo_boot_mem2_def demo_boot_bytes2_def
      MB2_TAG_END_def MB2_TAG_MODULE_def module_range_def Let_def)

theorem module_after_mmap_reserved_witness:
  "0x4FF \<notin> free_set (pmm_init_from_multiboot2 demo_img demo_boot_mem2 0x20000 demo_pmm)"
  by (rule module_after_mmap_reserved [where earlier = "[0x20008]" and tag = "0x20030" and later = "[]" and
        mod_start = "0x400000" and mod_end = "0x500000"])
    (simp_all add: demo_boot_mem2_tags [simplified] frames_touched_def)

text \<open>
  but with the module tag in front of the memory map the second pass of
  \<^verbatim>\<open>pmm_init_from_multiboot2\<close> undoes its own reservation: the later memory-map tag marks the
  module's frames available again, and all 256 pages of a module at 4 MiB are handed out as free
  memory.
\<close>
theorem module_before_mmap_is_free:
  "module_range demo_boot_mem 0x20008 = Some (0x400000, 0x500000) \<and>
   {0x400..<0x500} \<subseteq> free_set (pmm_init_from_multiboot2 demo_img demo_boot_mem 0x20000 s)"
proof -
  let ?t = "pmm_init_from_multiboot2 demo_img demo_boot_mem 0x20000 s"
  have sz: "rd32 demo_boot_mem (unat (0x20000 :: u64)) = 72" by (rule demo_boot_size)
  have tags: "mb2_tags demo_boot_mem (unat (0x20000 :: u64) + 8) (unat (0x20000 :: u64) + unat (72 :: u32)) =
    [0x20008, 0x20018]" using demo_tags by simp
  note st = pmm_init_from_multiboot2_state [of "0x20000" 72 demo_boot_mem "[0x20008, 0x20018]" ?t demo_img s,
      OF _ sz [symmetric] _ tags [symmetric] refl]
  have lim: "unat (frame_limit ?t) = 2048"
    using st(3) demo_boot_highest by (simp add: PAGE_SIZE_def)
  have k: "kernel_frames demo_img = {256..<512}"
    by (auto simp: kernel_frames_def frames_touched_def kernel_symbol_to_phys_def KERNEL_VIRT_BASE_def demo_img_def)
  have i: "frames_touched 0x20000 (ucast (72 :: u32)) = {32}"
    by (auto simp: frames_touched_def)
  have f: "tags_free demo_boot_mem [0x20008, 0x20018] {} = {0x100..<0x800}"
    by (simp add: demo_tag_sets)
  have eq: "free_set ?t = {0x100..<0x800} \<inter> {..<2048} - {..<256} - {256..<512} - {512} - {32}"
    using st(2) unfolding lim k i f demo_boot_bitmap by simp
  have "n \<in> free_set ?t" if "n \<in> {0x400..<0x500}" for n :: nat
    using that unfolding eq
    by (simp only: Diff_iff Int_iff atLeastLessThan_iff lessThan_iff singleton_iff) arith
  then show ?thesis using demo_entries(1) by blast
qed

end
