(* ===== verification/Physmem.thy ===== *)
theory Physmem
  imports NM_Prelude
begin

text \<open>
  Physical memory, which the kernel reaches through pointers equal to physical addresses: a byte for
  every 64-bit address. Loads and stores of 32-bit and 64-bit values are little-endian; address
  arithmetic wraps. The lemmas give what a load sees after a store: the value stored, or the old
  value where the two ranges do not meet.
\<close>

section \<open>Loads and stores\<close>

type_synonym phys_mem = "u64 \<Rightarrow> u8"

definition ld32 :: "phys_mem \<Rightarrow> u64 \<Rightarrow> u32" where
  "ld32 m a = ucast (m a) OR push_bit 8 (ucast (m (a + 1))) OR push_bit 16 (ucast (m (a + 2))) OR push_bit 24 (ucast (m (a + 3)))"

definition ld64 :: "phys_mem \<Rightarrow> u64 \<Rightarrow> u64" where
  "ld64 m a = ucast (ld32 m a) OR push_bit 32 (ucast (ld32 m (a + 4)))"

definition wr32 :: "phys_mem \<Rightarrow> u64 \<Rightarrow> u32 \<Rightarrow> phys_mem" where
  "wr32 m a v = m(a := ucast v, a + 1 := ucast (drop_bit 8 v), a + 2 := ucast (drop_bit 16 v), a + 3 := ucast (drop_bit 24 v))"

definition wr64 :: "phys_mem \<Rightarrow> u64 \<Rightarrow> u64 \<Rightarrow> phys_mem" where
  "wr64 m a v = wr32 (wr32 m a (ucast v)) (a + 4) (ucast (drop_bit 32 v))"

section \<open>A load after a store\<close>

lemma byte_not_bit: "8 \<le> n \<Longrightarrow> \<not> bit (b :: u8) n"
  by (auto dest: bit_imp_le_length)

lemma dword_not_bit: "32 \<le> n \<Longrightarrow> \<not> bit (b :: u32) n"
  by (auto dest: bit_imp_le_length)

lemma dword_of_bytes:
  "ucast (ucast v :: u8) OR push_bit 8 (ucast (ucast (drop_bit 8 v) :: u8)) OR push_bit 16 (ucast (ucast (drop_bit 16 v) :: u8)) OR
   push_bit 24 (ucast (ucast (drop_bit 24 v) :: u8)) = (v :: u32)"
proof (rule bit_word_eqI)
  fix n assume "n < LENGTH(32)"
  then consider "n < 8" | "8 \<le> n" "n < 16" | "16 \<le> n" "n < 24" | "24 \<le> n" "n < 32" by fastforce
  then show "bit (ucast (ucast v :: u8) OR push_bit 8 (ucast (ucast (drop_bit 8 v) :: u8)) OR push_bit 16 (ucast (ucast (drop_bit 16 v) :: u8)) OR
     push_bit 24 (ucast (ucast (drop_bit 24 v) :: u8)) :: u32) n = bit v n"
    by cases (auto simp: bit_or_iff bit_push_bit_iff bit_ucast_iff bit_drop_bit_eq byte_not_bit)
qed

lemma qword_of_dwords: "ucast (ucast v :: u32) OR push_bit 32 (ucast (ucast (drop_bit 32 v) :: u32)) = (v :: u64)"
proof (rule bit_word_eqI)
  fix n assume "n < LENGTH(64)"
  then consider "n < 32" | "32 \<le> n" "n < 64" by fastforce
  then show "bit (ucast (ucast v :: u32) OR push_bit 32 (ucast (ucast (drop_bit 32 v) :: u32)) :: u64) n = bit v n"
    by cases (auto simp: bit_or_iff bit_push_bit_iff bit_ucast_iff bit_drop_bit_eq dword_not_bit)
qed

lemma ld32_wr32 [simp]: "ld32 (wr32 m a v) a = v"
  using dword_of_bytes [of v] by (simp add: ld32_def wr32_def)

text \<open>Where a byte lies with respect to a range that does not wrap.\<close>

lemma ld32_cong: "(\<And>i. i < 4 \<Longrightarrow> m (a + of_nat i) = m' (a + of_nat i)) \<Longrightarrow> ld32 m a = ld32 m' a"
proof -
  assume h: "\<And>i. i < 4 \<Longrightarrow> m (a + of_nat i) = m' (a + of_nat i)"
  show ?thesis using h [of 0] h [of 1] h [of 2] h [of 3] by (simp add: ld32_def)
qed

lemma wr32_other: "(\<And>i. i < 4 \<Longrightarrow> x \<noteq> a + of_nat i) \<Longrightarrow> wr32 m a v x = m x"
proof -
  assume h: "\<And>i. i < 4 \<Longrightarrow> x \<noteq> a + of_nat i"
  show ?thesis using h [of 0] h [of 1] h [of 2] h [of 3] by (simp add: wr32_def)
qed

lemma addr_unat: "unat a + n < 2 ^ 64 \<Longrightarrow> unat (a + of_nat n :: u64) = unat a + n"
  by (simp add: unat_add64 unat_of_nat64)

lemma wr32_outside: "unat a + 4 \<le> 2 ^ 64 \<Longrightarrow> unat x < unat a \<or> unat a + 4 \<le> unat x \<Longrightarrow> wr32 m a v x = m x"
proof (rule wr32_other)
  fix i :: nat assume "unat a + 4 \<le> 2 ^ 64" "unat x < unat a \<or> unat a + 4 \<le> unat x" "i < 4"
  then show "x \<noteq> a + of_nat i" using addr_unat [of a i] by auto
qed

lemma wr64_outside:
  assumes "unat a + 8 \<le> 2 ^ 64" "unat x < unat a \<or> unat a + 8 \<le> unat x"
  shows "wr64 m a v x = m x"
proof -
  have a4: "unat (a + 4) = unat a + 4" using addr_unat [of a 4] assms(1) by simp
  have "wr32 m1 (a + 4) v1 x = m1 x" for m1 v1 by (rule wr32_outside) (use assms a4 in auto)
  moreover have "wr32 m a v1 x = m x" for v1 by (rule wr32_outside) (use assms in auto)
  ultimately show ?thesis by (simp add: wr64_def)
qed

lemma ld32_frame:
  assumes "unat a + 4 \<le> 2 ^ 64" "\<And>x. unat a \<le> unat x \<Longrightarrow> unat x < unat a + 4 \<Longrightarrow> m' x = m x"
  shows "ld32 m' a = ld32 m a"
proof (rule ld32_cong)
  fix i :: nat assume "i < 4"
  then show "m' (a + of_nat i) = m (a + of_nat i)" using assms addr_unat [of a i] by simp
qed

lemma ld64_frame:
  assumes "unat a + 8 \<le> 2 ^ 64" "\<And>x. unat a \<le> unat x \<Longrightarrow> unat x < unat a + 8 \<Longrightarrow> m' x = m x"
  shows "ld64 m' a = ld64 m a"
proof -
  have a4: "unat (a + 4) = unat a + 4" using addr_unat [of a 4] assms(1) by simp
  have "ld32 m' a = ld32 m a" "ld32 m' (a + 4) = ld32 m (a + 4)"
    using assms a4 by (auto intro!: ld32_frame)
  then show ?thesis by (simp add: ld64_def)
qed

lemma ld32_wr32_apart:
  assumes "unat a + 4 \<le> 2 ^ 64" "unat b + 4 \<le> 2 ^ 64" "unat a + 4 \<le> unat b \<or> unat b + 4 \<le> unat a"
  shows "ld32 (wr32 m b v) a = ld32 m a"
  using assms by (intro ld32_frame wr32_outside) auto

lemma ld64_wr64 [simp]:
  assumes "unat a + 8 \<le> 2 ^ 64"
  shows "ld64 (wr64 m a v) a = v"
proof -
  have a4: "unat (a + 4) = unat a + 4" using addr_unat [of a 4] assms by simp
  have "ld32 (wr32 (wr32 m a (ucast v)) (a + 4) (ucast (drop_bit 32 v))) a = ucast v"
    using a4 assms by (subst ld32_wr32_apart) simp_all
  then show ?thesis using qword_of_dwords [of v] by (simp add: ld64_def wr64_def)
qed

lemma ld64_wr64_apart:
  assumes "unat a + 8 \<le> 2 ^ 64" "unat b + 8 \<le> 2 ^ 64" "unat a + 8 \<le> unat b \<or> unat b + 8 \<le> unat a"
  shows "ld64 (wr64 m b v) a = ld64 m a"
  using assms by (intro ld64_frame wr64_outside) auto

lemma ld64_wr32_apart:
  assumes "unat a + 8 \<le> 2 ^ 64" "unat b + 4 \<le> 2 ^ 64" "unat a + 8 \<le> unat b \<or> unat b + 4 \<le> unat a"
  shows "ld64 (wr32 m b v) a = ld64 m a"
  using assms by (intro ld64_frame wr32_outside) auto

lemma ld32_wr64_apart:
  assumes "unat a + 4 \<le> 2 ^ 64" "unat b + 8 \<le> 2 ^ 64" "unat a + 4 \<le> unat b \<or> unat b + 8 \<le> unat a"
  shows "ld32 (wr64 m b v) a = ld32 m a"
  using assms by (intro ld32_frame wr64_outside) auto

end
