(* ===== verification/Vmm.thy ===== *)
theory Vmm
  imports Multiboot2 Physmem
begin

text \<open>
  The page tables of \<^verbatim>\<open>kernel/mm/vmm.c\<close>: mapping, unmapping and large mappings over four levels of tables
  in physical memory, with new tables from the page allocator. The state is the root of the kernel, the
  memory, the page allocator and the addresses invalidated in the translation cache, latest first. The
  reference is the walk of the processor (\<open>lookup\<close>): which entry translates an address.
\<close>

section \<open>State and operations\<close>

definition PAGE_FLAG_PRESENT :: u64 where "PAGE_FLAG_PRESENT = 0x1"
definition PAGE_FLAG_RW :: u64 where "PAGE_FLAG_RW = 0x2"
definition PAGE_FLAG_US :: u64 where "PAGE_FLAG_US = 0x4"
definition PAGE_FLAG_PS :: u64 where "PAGE_FLAG_PS = 0x80"

record vmm_state =
  kernel_pml4 :: u64
  vm_mem :: phys_mem
  vm_pmm :: pmm_state
  vm_flushed :: "u64 list"

definition ptr_to_phys :: "u64 \<Rightarrow> u64" where
  "ptr_to_phys ptr = (if ptr \<ge> KERNEL_VIRT_BASE then ptr - KERNEL_VIRT_BASE else ptr)"

definition phys_to_ptr :: "u64 \<Rightarrow> u64" where
  "phys_to_ptr phys = phys"

definition table_flags_from_leaf :: "u64 \<Rightarrow> u64" where
  "table_flags_from_leaf flags =
     (let out = 0;
          out = (if flags AND PAGE_FLAG_RW \<noteq> 0 then out OR PAGE_FLAG_RW else out)
      in if flags AND PAGE_FLAG_US \<noteq> 0 then out OR PAGE_FLAG_US else out)"

text \<open>The entries of a table, an array of 64-bit values.\<close>

definition ent :: "phys_mem \<Rightarrow> u64 \<Rightarrow> u64 \<Rightarrow> u64" where
  "ent m table i = ld64 m (table + 8 * i)"

definition set_ent :: "u64 \<Rightarrow> u64 \<Rightarrow> u64 \<Rightarrow> phys_mem \<Rightarrow> phys_mem" where
  "set_ent table i v m = wr64 m (table + 8 * i) v"

abbreviation present :: "u64 \<Rightarrow> bool" where
  "present e \<equiv> e AND PAGE_FLAG_PRESENT \<noteq> 0"

abbreviation large :: "u64 \<Rightarrow> bool" where
  "large e \<equiv> e AND PAGE_FLAG_PS \<noteq> 0"

definition entry_addr :: "u64 \<Rightarrow> u64" where
  "entry_addr e = e AND NOT 0xFFF"

abbreviation upd_mem :: "(phys_mem \<Rightarrow> phys_mem) \<Rightarrow> vmm_state \<Rightarrow> vmm_state" where
  "upd_mem f s \<equiv> s\<lparr>vm_mem := f (vm_mem s)\<rparr>"

abbreviation upd_pmm :: "(pmm_state \<Rightarrow> pmm_state) \<Rightarrow> vmm_state \<Rightarrow> vmm_state" where
  "upd_pmm f s \<equiv> s\<lparr>vm_pmm := f (vm_pmm s)\<rparr>"

definition table_empty :: "phys_mem \<Rightarrow> u64 \<Rightarrow> bool" where
  "table_empty m table = list_all (\<lambda>i. \<not> present (ent m table (of_nat i))) [0..<512]"

definition zero_table :: "u64 \<Rightarrow> phys_mem \<Rightarrow> phys_mem" where
  "zero_table table m = fold (\<lambda>i. set_ent table (of_nat i) 0) [0..<512] m"

definition alloc_table :: "vmm_state \<Rightarrow> u64 \<times> vmm_state" where
  "alloc_table s =
     (let (phys, p) = pmm_alloc_page (vm_pmm s); s = s\<lparr>vm_pmm := p\<rparr> in
      if phys = 0 then (0, s)
      else let table = phys_to_ptr phys in (table, upd_mem (zero_table table) s))"

text \<open>The pool is filled from its front; when a table cannot be had the ones before it are given back.\<close>

definition free_tables :: "u64 list \<Rightarrow> vmm_state \<Rightarrow> vmm_state" where
  "free_tables pool s = fold (\<lambda>t. if t \<noteq> 0 then upd_pmm (pmm_free_page (ptr_to_phys t)) else (\<lambda>s. s)) pool s"

fun fill_pool :: "nat \<Rightarrow> u64 list \<Rightarrow> vmm_state \<Rightarrow> u64 list option \<times> vmm_state" where
  "fill_pool 0 pool s = (Some pool, s)"
| "fill_pool (Suc n) pool s =
     (let (table, s) = alloc_table s in
      if table = 0 then (None, free_tables pool s) else fill_pool n (pool @ [table]) s)"

definition alloc_table_pool :: "nat \<Rightarrow> vmm_state \<Rightarrow> u64 list option \<times> vmm_state" where
  "alloc_table_pool count s = fill_pool count [] s"

definition free_table_pool :: "u64 list \<Rightarrow> vmm_state \<Rightarrow> vmm_state" where
  "free_table_pool pool s = free_tables pool s"

definition take_prealloc :: "u64 list \<Rightarrow> u64 \<times> u64 list" where
  "take_prealloc pool =
     (case first_idx (\<lambda>t. t \<noteq> 0) pool of
        Some i \<Rightarrow> (pool ! i, pool[i := 0])
      | None \<Rightarrow> (0, pool))"

definition get_or_create_next :: "u64 \<Rightarrow> u64 \<Rightarrow> u64 \<Rightarrow> u64 list \<Rightarrow> vmm_state \<Rightarrow> u64 \<times> u64 list \<times> vmm_state" where
  "get_or_create_next table index flags pool s =
     (let entry = ent (vm_mem s) table index in
      if present entry
      then let want = flags AND (PAGE_FLAG_RW OR PAGE_FLAG_US);
               s = (if entry AND want \<noteq> want then upd_mem (set_ent table index (entry OR want)) s else s)
           in (phys_to_ptr (entry_addr entry), pool, s)
      else let (next, pool) = take_prealloc pool in
        if next = 0 then (0, pool, s)
        else (next, pool, upd_mem (set_ent table index (ptr_to_phys next OR flags OR PAGE_FLAG_PRESENT)) s))"

definition vmm_init :: "u64 \<Rightarrow> vmm_state \<Rightarrow> vmm_state" where
  "vmm_init cr3 s = s\<lparr>kernel_pml4 := phys_to_ptr (entry_addr cr3)\<rparr>"

definition vmm_kernel_root :: "vmm_state \<Rightarrow> u64" where
  "vmm_kernel_root s = kernel_pml4 s"

definition pml4_i :: "u64 \<Rightarrow> u64" where "pml4_i va = drop_bit 39 va AND 0x1FF"
definition pdpt_i :: "u64 \<Rightarrow> u64" where "pdpt_i va = drop_bit 30 va AND 0x1FF"
definition pd_i :: "u64 \<Rightarrow> u64" where "pd_i va = drop_bit 21 va AND 0x1FF"
definition pt_i :: "u64 \<Rightarrow> u64" where "pt_i va = drop_bit 12 va AND 0x1FF"

definition invlpg :: "u64 \<Rightarrow> vmm_state \<Rightarrow> vmm_state" where
  "invlpg va s = s\<lparr>vm_flushed := va # vm_flushed s\<rparr>"

definition vmm_map_page_in :: "u64 \<Rightarrow> u64 \<Rightarrow> u64 \<Rightarrow> u64 \<Rightarrow> vmm_state \<Rightarrow> bool \<times> vmm_state" where
  "vmm_map_page_in pml4 va pa flags s =
     (if pml4 = 0 then (False, s)
      else case alloc_table_pool 3 s of
        (None, s) \<Rightarrow> (False, s)
      | (Some pool, s) \<Rightarrow>
          let table_flags = table_flags_from_leaf flags;
              (pdpt, pool, s) = get_or_create_next pml4 (pml4_i va) table_flags pool s
          in if pdpt = 0 then (False, free_table_pool pool s)
             else let (pd, pool, s) = get_or_create_next pdpt (pdpt_i va) table_flags pool s in
               if pd = 0 then (False, free_table_pool pool s)
               else let (pt, pool, s) = get_or_create_next pd (pd_i va) table_flags pool s in
                 if pt = 0 then (False, free_table_pool pool s)
                 else let s = upd_mem (set_ent pt (pt_i va) ((pa AND NOT 0xFFF) OR (flags AND 0xFFF) OR PAGE_FLAG_PRESENT)) s;
                          s = invlpg va s
                      in (True, free_table_pool pool s))"

definition vmm_map_2m_in :: "u64 \<Rightarrow> u64 \<Rightarrow> u64 \<Rightarrow> u64 \<Rightarrow> vmm_state \<Rightarrow> bool \<times> vmm_state" where
  "vmm_map_2m_in pml4 va pa flags s =
     (if pml4 = 0 then (False, s)
      else case alloc_table_pool 2 s of
        (None, s) \<Rightarrow> (False, s)
      | (Some pool, s) \<Rightarrow>
          let table_flags = table_flags_from_leaf flags;
              (pdpt, pool, s) = get_or_create_next pml4 (pml4_i va) table_flags pool s
          in if pdpt = 0 then (False, free_table_pool pool s)
             else let (pd, pool, s) = get_or_create_next pdpt (pdpt_i va) table_flags pool s in
               if pd = 0 then (False, free_table_pool pool s)
               else let s = upd_mem (set_ent pd (pd_i va)
                              ((pa AND NOT 0x1FFFFF) OR (flags AND 0xFFF) OR PAGE_FLAG_PRESENT OR PAGE_FLAG_PS)) s;
                        s = invlpg va s
                    in (True, free_table_pool pool s))"

text \<open>The tables that become empty are unlinked from the bottom up; the pages to free are collected first.\<close>

definition unlink_empty :: "u64 \<Rightarrow> u64 \<Rightarrow> phys_mem \<Rightarrow> u64 list \<times> phys_mem" where
  "unlink_empty pml4 va m =
     (let pml4e = ent m pml4 (pml4_i va);
          pdpt = phys_to_ptr (entry_addr pml4e);
          pdpte = ent m pdpt (pdpt_i va);
          pd = phys_to_ptr (entry_addr pdpte);
          pde = ent m pd (pd_i va);
          pt = phys_to_ptr (entry_addr pde);
          m = set_ent pt (pt_i va) 0 m
      in if \<not> table_empty m pt then ([], m)
         else let m = set_ent pd (pd_i va) 0 m in
           if \<not> table_empty m pd then ([entry_addr pde], m)
           else let m = set_ent pdpt (pdpt_i va) 0 m in
             if \<not> table_empty m pdpt then ([entry_addr pde, entry_addr pdpte], m)
             else ([entry_addr pde, entry_addr pdpte, entry_addr pml4e], set_ent pml4 (pml4_i va) 0 m))"

definition vmm_unmap_page_in :: "u64 \<Rightarrow> u64 \<Rightarrow> vmm_state \<Rightarrow> bool \<times> vmm_state" where
  "vmm_unmap_page_in pml4 va s =
     (if pml4 = 0 then (False, s)
      else let m = vm_mem s; pml4e = ent m pml4 (pml4_i va) in
        if \<not> present pml4e then (False, s)
        else let pdpt = phys_to_ptr (entry_addr pml4e); pdpte = ent m pdpt (pdpt_i va) in
          if \<not> present pdpte then (False, s)
          else let pd = phys_to_ptr (entry_addr pdpte); pde = ent m pd (pd_i va) in
            if \<not> present pde \<or> large pde then (False, s)
            else let (to_free, m) = unlink_empty pml4 va m;
                     s = invlpg va (s\<lparr>vm_mem := m\<rparr>)
                 in (True, fold (\<lambda>a. upd_pmm (pmm_free_page a)) to_free s))"

definition vmm_map_page :: "u64 \<Rightarrow> u64 \<Rightarrow> u64 \<Rightarrow> vmm_state \<Rightarrow> bool \<times> vmm_state" where
  "vmm_map_page va pa flags s = vmm_map_page_in (kernel_pml4 s) va pa flags s"

definition vmm_map_2m :: "u64 \<Rightarrow> u64 \<Rightarrow> u64 \<Rightarrow> vmm_state \<Rightarrow> bool \<times> vmm_state" where
  "vmm_map_2m va pa flags s = vmm_map_2m_in (kernel_pml4 s) va pa flags s"

definition vmm_unmap_page :: "u64 \<Rightarrow> vmm_state \<Rightarrow> bool \<times> vmm_state" where
  "vmm_unmap_page va s = vmm_unmap_page_in (kernel_pml4 s) va s"

section \<open>Entries and tables\<close>

definition tab_ok :: "u64 \<Rightarrow> bool" where
  "tab_ok a \<longleftrightarrow> a \<noteq> 0 \<and> unat a mod 4096 = 0"

lemma tab_room: "tab_ok a \<Longrightarrow> unat a + 4096 \<le> 2 ^ 64"
proof -
  assume "tab_ok a"
  then obtain k where k: "unat a = 4096 * k" by (auto simp: tab_ok_def)
  then have "4096 * k < 4096 * 2 ^ 52" using unat_bound64 [of a] by simp
  then have "k + 1 \<le> 2 ^ 52" by simp
  then have "4096 * (k + 1) \<le> 4096 * 2 ^ 52" by (rule mult_le_mono2)
  then show ?thesis using k by simp
qed

lemma ent_addr:
  assumes "tab_ok a" "unat i < 512"
  shows "unat (a + 8 * i) = unat a + 8 * unat i"
proof -
  have "unat (8 * i) = 8 * unat i" using assms(2) by (subst unat_mult64) simp_all
  then show ?thesis using tab_room [OF assms(1)] assms(2) by (subst unat_add64) simp_all
qed

lemma tables_apart:
  assumes "tab_ok a" "tab_ok b" "a \<noteq> b"
  shows "unat a + 4096 \<le> unat b \<or> unat b + 4096 \<le> unat a"
proof -
  obtain j where j: "unat a = 4096 * j" using assms(1) by (auto simp: tab_ok_def)
  obtain k where k: "unat b = 4096 * k" using assms(2) by (auto simp: tab_ok_def)
  have "j \<noteq> k" using j k assms(3) by (auto simp: word_unat_eq_iff)
  then consider "j + 1 \<le> k" | "k + 1 \<le> j" by linarith
  then show ?thesis using j k by cases (auto dest: mult_le_mono2 [of _ _ 4096])
qed

lemma ent_set_ent:
  assumes "tab_ok a" "tab_ok b" "unat i < 512" "unat j < 512"
  shows "ent (set_ent a i v m) b j = (if a = b \<and> i = j then v else ent m b j)"
proof (cases "a = b \<and> i = j")
  case True
  then show ?thesis using ent_addr [OF assms(1,3)] tab_room [OF assms(1)] assms(3) by (simp add: ent_def set_ent_def)
next
  case False
  have "unat (b + 8 * j) + 8 \<le> unat (a + 8 * i) \<or> unat (a + 8 * i) + 8 \<le> unat (b + 8 * j)"
  proof (cases "a = b")
    case True
    then have "unat i \<noteq> unat j" using False by (auto simp: word_unat_eq_iff)
    moreover have "unat (a + 8 * i) = unat b + 8 * unat i" using ent_addr [OF assms(1,3)] True by simp
    ultimately show ?thesis unfolding ent_addr [OF assms(2,4)] by linarith
  next
    case False
    then show ?thesis using tables_apart [OF assms(1,2)] ent_addr [OF assms(1,3)] ent_addr [OF assms(2,4)] assms(3,4) by linarith
  qed
  then show ?thesis
    using False ent_addr [OF assms(1,3)] ent_addr [OF assms(2,4)] tab_room [OF assms(1)] tab_room [OF assms(2)] assms(3,4)
    by (auto simp: ent_def set_ent_def intro!: ld64_wr64_apart)
qed

lemma ent_frame:
  assumes "tab_ok a" "unat i < 512" "\<And>x. unat a \<le> unat x \<Longrightarrow> unat x < unat a + 4096 \<Longrightarrow> m' x = m x"
  shows "ent m' a i = ent m a i"
  unfolding ent_def using ent_addr [OF assms(1,2)] tab_room [OF assms(1)] assms(2,3) by (intro ld64_frame) auto

lemma index_less: "unat (pml4_i va) < 512" "unat (pdpt_i va) < 512" "unat (pd_i va) < 512" "unat (pt_i va) < 512"
proof -
  have "unat (w AND 0x1FF) < 512" for w :: u64
  proof -
    have "w AND 0x1FF = take_bit 9 w" by (simp add: take_bit_eq_mask mask_eq_exp_minus_1)
    then have "unat (w AND 0x1FF) = unat w mod 512" by (simp add: unat_mod take_bit_eq_mod)
    then show ?thesis by simp
  qed
  then show "unat (pml4_i va) < 512" "unat (pdpt_i va) < 512" "unat (pd_i va) < 512" "unat (pt_i va) < 512"
    by (simp_all add: pml4_i_def pdpt_i_def pd_i_def pt_i_def)
qed

section \<open>The walk of the processor\<close>

text \<open>The table that a path of indices leads to from the table at \<open>t\<close>, and the entry that translates a full path.\<close>

fun walk :: "phys_mem \<Rightarrow> u64 \<Rightarrow> u64 list \<Rightarrow> u64 option" where
  "walk m t [] = Some t"
| "walk m t (i # p) = (let e = ent m t i in if present e \<and> \<not> large e then walk m (entry_addr e) p else None)"

text \<open>
  The number of levels below the entry found (0 for a page, 1 for a large page of 2 MiB) and the entry.
\<close>

fun lookup :: "phys_mem \<Rightarrow> u64 \<Rightarrow> u64 list \<Rightarrow> (nat \<times> u64) option" where
  "lookup m t [] = None"
| "lookup m t (i # p) =
     (let e = ent m t i in
      if \<not> present e then None else if p = [] \<or> large e then Some (length p, e) else lookup m (entry_addr e) p)"

definition path :: "u64 \<Rightarrow> u64 list" where
  "path va = [pml4_i va, pdpt_i va, pd_i va, pt_i va]"

definition vpath :: "u64 list \<Rightarrow> bool" where
  "vpath p \<longleftrightarrow> (\<forall>i\<in>set p. unat i < 512)"

lemma vpath_simps [simp]: "vpath []" "vpath (i # p) \<longleftrightarrow> unat i < 512 \<and> vpath p" "vpath (p @ q) \<longleftrightarrow> vpath p \<and> vpath q"
  by (auto simp: vpath_def)

lemma vpath_path [simp]: "vpath (path va)" "length (path va) = 4"
  by (simp_all add: path_def index_less)

lemma table_walk_append: "walk m t (p @ q) = (case walk m t p of None \<Rightarrow> None | Some a \<Rightarrow> walk m a q)"
  by (induction p arbitrary: t) (simp_all add: Let_def)

lemma table_lookup_append: "walk m t p = Some a \<Longrightarrow> q \<noteq> [] \<Longrightarrow> lookup m t (p @ q) = lookup m a q"
  by (induction p arbitrary: t) (auto simp: Let_def split: if_splits)

lemma lookup_iff:
  "lookup m t q = Some (k, e) \<longleftrightarrow>
     (\<exists>p j r a. q = p @ j # r \<and> walk m t p = Some a \<and> e = ent m a j \<and> present e \<and> (r = [] \<or> large e) \<and> k = length r)"
proof (induction q arbitrary: t)
  case Nil
  then show ?case by simp
next
  case (Cons i q)
  let ?e = "ent m t i"
  have ex: "(\<exists>p j r a. i # q = p @ j # r \<and> walk m t p = Some a \<and> e = ent m a j \<and> present e \<and> (r = [] \<or> large e) \<and> k = length r) \<longleftrightarrow>
      (e = ?e \<and> present e \<and> (q = [] \<or> large e) \<and> k = length q) \<or>
      (present ?e \<and> \<not> large ?e \<and> (\<exists>p j r a. q = p @ j # r \<and> walk m (entry_addr ?e) p = Some a \<and> e = ent m a j \<and> present e \<and> (r = [] \<or> large e) \<and> k = length r))"
    (is "?L \<longleftrightarrow> ?A \<or> ?B")
  proof
    assume ?L
    then obtain p j r a where h: "i # q = p @ j # r" "walk m t p = Some a" "e = ent m a j" "present e" "r = [] \<or> large e" "k = length r" by blast
    show "?A \<or> ?B"
    proof (cases p)
      case Nil
      then show ?thesis using h by auto
    next
      case (Cons x p')
      then have "present ?e" "\<not> large ?e" "walk m (entry_addr ?e) p' = Some a" "q = p' @ j # r"
        using h(1,2) by (auto simp: Let_def split: if_splits)
      then show ?thesis using h by blast
    qed
  next
    assume "?A \<or> ?B"
    then show ?L
    proof
      assume ?A
      then show ?L by (intro exI [of _ "[]"]) auto
    next
      assume ?B
      then obtain p j r a where "present ?e" "\<not> large ?e" "q = p @ j # r" "walk m (entry_addr ?e) p = Some a" "e = ent m a j" "present e"
        "r = [] \<or> large e" "k = length r" by blast
      then show ?L by (intro exI [of _ "i # p"] exI [of _ j] exI [of _ r] exI [of _ a]) auto
    qed
  qed
  show ?case unfolding ex Cons.IH [of "entry_addr ?e", symmetric] lookup.simps Let_def by (cases "q = []") auto
qed

section \<open>The tree of tables\<close>

text \<open>
  The tables reached from the root are page aligned, lie outside the free pages and are reached along one
  path only: a tree.
\<close>

definition vm_tree :: "phys_mem \<Rightarrow> u64 \<Rightarrow> nat set \<Rightarrow> bool" where
  "vm_tree m root free \<longleftrightarrow>
     (\<forall>p a. vpath p \<longrightarrow> length p \<le> 3 \<longrightarrow> walk m root p = Some a \<longrightarrow> tab_ok a \<and> unat a div 4096 \<notin> free) \<and>
     (\<forall>p q a. vpath p \<longrightarrow> vpath q \<longrightarrow> length p \<le> 3 \<longrightarrow> length q \<le> 3 \<longrightarrow> walk m root p = Some a \<longrightarrow> walk m root q = Some a \<longrightarrow> p = q)"

lemma vm_treeD:
  assumes "vm_tree m root free" "vpath p" "length p \<le> 3" "walk m root p = Some a"
  shows "tab_ok a" "unat a div 4096 \<notin> free" "vpath q \<Longrightarrow> length q \<le> 3 \<Longrightarrow> walk m root q = Some a \<Longrightarrow> q = p"
  using assms unfolding vm_tree_def by blast+

text \<open>The effect of writing entry \<open>i\<close> of the table reached along \<open>P\<close>, on walks and translations.\<close>

lemma walk_write_other:
  assumes tree: "vm_tree m root free" and T: "vpath P" "length P \<le> 3" "walk m root P = Some T" and i: "unat i < 512"
    and q: "vpath q" "length q \<le> 4" "\<not> (\<exists>r. q = P @ i # r)"
  shows "walk (set_ent T i v m) root q = walk m root q"
  using q
proof (induction q rule: rev_induct)
  case Nil
  then show ?case by simp
next
  case (snoc j q)
  have "\<not> (\<exists>r. q = P @ i # r)" using snoc.prems(3) by auto
  then have IH: "walk (set_ent T i v m) root q = walk m root q" using snoc.IH snoc.prems(1,2) by simp
  show ?case
  proof (cases "walk m root q")
    case None
    then show ?thesis using IH by (simp add: table_walk_append)
  next
    case (Some a)
    have qv: "vpath q" "length q \<le> 3" "unat j < 512" using snoc.prems by simp_all
    have "a = T \<Longrightarrow> q = P" using vm_treeD(3) [OF tree T qv(1,2)] Some by simp
    then have ne: "\<not> (T = a \<and> i = j)" using snoc.prems(3) by auto
    have "ent (set_ent T i v m) a j = ent m a j"
      using ent_set_ent [OF vm_treeD(1) [OF tree T] vm_treeD(1) [OF tree qv(1,2) Some] i qv(3)] ne by auto
    then show ?thesis using IH Some by (simp add: table_walk_append Let_def)
  qed
qed

lemma walk_write_self:
  assumes "vm_tree m root free" "vpath P" "length P \<le> 3" "walk m root P = Some T" "unat i < 512"
  shows "walk (set_ent T i v m) root P = Some T" "ent (set_ent T i v m) T i = v"
    "walk (set_ent T i v m) root (P @ i # r) = (if present v \<and> \<not> large v then walk (set_ent T i v m) (entry_addr v) r else None)"
    "lookup (set_ent T i v m) root (P @ i # r) =
       (if \<not> present v then None else if r = [] \<or> large v then Some (length r, v) else lookup (set_ent T i v m) (entry_addr v) r)"
proof -
  show w: "walk (set_ent T i v m) root P = Some T"
    using walk_write_other [OF assms assms(2)] assms(3,4) by simp
  show e: "ent (set_ent T i v m) T i = v"
    using ent_set_ent [OF vm_treeD(1) [OF assms(1-4)] vm_treeD(1) [OF assms(1-4)] assms(5,5)] by simp
  show "walk (set_ent T i v m) root (P @ i # r) = (if present v \<and> \<not> large v then walk (set_ent T i v m) (entry_addr v) r else None)"
    using w e by (simp add: table_walk_append)
  show "lookup (set_ent T i v m) root (P @ i # r) =
       (if \<not> present v then None else if r = [] \<or> large v then Some (length r, v) else lookup (set_ent T i v m) (entry_addr v) r)"
    using table_lookup_append [OF w, of "i # r"] e by (simp add: Let_def)
qed

lemma lookup_write_other:
  assumes tree: "vm_tree m root free" and T: "vpath P" "length P \<le> 3" "walk m root P = Some T" "unat i < 512"
    and q: "vpath q" "length q \<le> 4" "\<not> (\<exists>r. q = P @ i # r)"
  shows "lookup (set_ent T i v m) root q = lookup m root q"
proof -
  let ?m = "set_ent T i v m"
  have same: "walk ?m root p = walk m root p \<and> (\<forall>a. walk m root p = Some a \<longrightarrow> ent ?m a j = ent m a j)" if pq: "q = p @ j # r" for p j r
  proof -
    have v: "vpath p" "length p \<le> 3" "unat j < 512" using q(1,2) pq by simp_all
    have "\<not> (\<exists>r. p = P @ i # r)" using q(3) pq by auto
    then have "walk ?m root p = walk m root p" using walk_write_other [OF tree T v(1)] v(2) by simp
    moreover have "ent ?m a j = ent m a j" if a: "walk m root p = Some a" for a
    proof -
      have "\<not> (T = a \<and> i = j)" using vm_treeD(3) [OF tree T(1-3) v(1,2)] a q(3) pq by auto
      then show ?thesis using ent_set_ent [OF vm_treeD(1) [OF tree T(1-3)] vm_treeD(1) [OF tree v(1,2) a] T(4) v(3)] by auto
    qed
    ultimately show ?thesis by blast
  qed
  have "lookup ?m root q = Some (k, e) \<longleftrightarrow> lookup m root q = Some (k, e)" for k e
    unfolding lookup_iff using same by metis
  then show ?thesis by (metis option.exhaust surj_pair)
qed

definition tabs :: "phys_mem \<Rightarrow> u64 \<Rightarrow> u64 set" where
  "tabs m root = {a. \<exists>p. vpath p \<and> length p \<le> 3 \<and> walk m root p = Some a}"

lemma tabsI: "vpath p \<Longrightarrow> length p \<le> 3 \<Longrightarrow> walk m root p = Some a \<Longrightarrow> a \<in> tabs m root"
  by (auto simp: tabs_def)

lemma tabs_ok: "vm_tree m root free \<Longrightarrow> a \<in> tabs m root \<Longrightarrow> tab_ok a \<and> unat a div 4096 \<notin> free"
  by (auto simp: tabs_def dest: vm_treeD)

lemma vm_tree_free: "vm_tree m root free \<Longrightarrow> (\<And>a. a \<in> tabs m root \<Longrightarrow> unat a div 4096 \<notin> free') \<Longrightarrow> vm_tree m root free'"
  unfolding vm_tree_def tabs_def by blast

text \<open>Two memories with the same entries in the tables of the tree, up to flags of the links between tables.\<close>

lemma walk_cong:
  assumes "vm_tree m root free"
    and "\<And>p a j. vpath p \<Longrightarrow> length p \<le> 2 \<Longrightarrow> walk m root p = Some a \<Longrightarrow> unat j < 512 \<Longrightarrow>
      (present (ent m' a j) \<and> \<not> large (ent m' a j)) = (present (ent m a j) \<and> \<not> large (ent m a j)) \<and>
      (present (ent m a j) \<and> \<not> large (ent m a j) \<longrightarrow> entry_addr (ent m' a j) = entry_addr (ent m a j))"
    and "vpath q" "length q \<le> 3"
  shows "walk m' root q = walk m root q"
  using assms(3,4)
proof (induction q rule: rev_induct)
  case Nil
  then show ?case by simp
next
  case (snoc j q)
  then have IH: "walk m' root q = walk m root q" by simp
  show ?case
  proof (cases "walk m root q")
    case None
    then show ?thesis using IH by (simp add: table_walk_append)
  next
    case (Some a)
    then show ?thesis using IH assms(2) [of q a j] snoc.prems by (auto simp: table_walk_append Let_def)
  qed
qed

lemma lookup_cong:
  assumes "\<And>p. vpath p \<Longrightarrow> length p \<le> 3 \<Longrightarrow> walk m' root p = walk m root p"
    and "\<And>p j r a. q = p @ j # r \<Longrightarrow> walk m root p = Some a \<Longrightarrow>
      (\<forall>e. e = ent m' a j \<and> present e \<and> (r = [] \<or> large e) \<longleftrightarrow> e = ent m a j \<and> present e \<and> (r = [] \<or> large e))"
    and "vpath q" "length q \<le> 4"
  shows "lookup m' root q = lookup m root q"
proof -
  have "walk m' root p = walk m root p" if "q = p @ j # r" for p j r using assms(1,3,4) that by auto
  then have "lookup m' root q = Some (k, e) \<longleftrightarrow> lookup m root q = Some (k, e)" for k e
    unfolding lookup_iff using assms(2) by metis
  then show ?thesis by (metis option.exhaust surj_pair)
qed

lemma tree_cong:
  assumes "vm_tree m root free" "\<And>p. vpath p \<Longrightarrow> length p \<le> 3 \<Longrightarrow> walk m' root p = walk m root p"
  shows "vm_tree m' root free" "tabs m' root = tabs m root"
  using assms unfolding vm_tree_def tabs_def by metis+

text \<open>Memory that changes outside the tables.\<close>

lemma tree_frame:
  assumes tree: "vm_tree m root free" and same: "\<And>a x. a \<in> tabs m root \<Longrightarrow> unat a \<le> unat x \<Longrightarrow> unat x < unat a + 4096 \<Longrightarrow> m' x = m x"
  shows "vm_tree m' root free" "tabs m' root = tabs m root" "vpath q \<Longrightarrow> length q \<le> 3 \<Longrightarrow> walk m' root q = walk m root q"
    "vpath q \<Longrightarrow> length q \<le> 4 \<Longrightarrow> lookup m' root q = lookup m root q"
proof -
  have e: "ent m' a j = ent m a j" if "vpath p" "length p \<le> 3" "walk m root p = Some a" "unat j < 512" for p a j
    using ent_frame [OF vm_treeD(1) [OF tree that(1-3)] that(4), of m' m] same [OF tabsI [OF that(1-3)]] by blast
  have w: "walk m' root q = walk m root q" if "vpath q" "length q \<le> 3" for q
    by (rule walk_cong [OF tree _ that]) (use e in auto)
  then show "vpath q \<Longrightarrow> length q \<le> 3 \<Longrightarrow> walk m' root q = walk m root q" by blast
  show "vm_tree m' root free" "tabs m' root = tabs m root" using tree_cong [OF tree w] by blast+
  show "lookup m' root q = lookup m root q" if q: "vpath q" "length q \<le> 4"
    by (rule lookup_cong [OF w _ q]) (use e q in auto)
qed

text \<open>Flags added to a link.\<close>

lemma write_same:
  assumes tree: "vm_tree m root free" and T: "vpath P" "length P \<le> 2" "walk m root P = Some T" "unat i < 512"
    and e: "present (ent m T i)" "\<not> large (ent m T i)" and v: "present v" "\<not> large v" "entry_addr v = entry_addr (ent m T i)"
  shows "vm_tree (set_ent T i v m) root free" "tabs (set_ent T i v m) root = tabs m root"
    "vpath q \<Longrightarrow> length q \<le> 3 \<Longrightarrow> walk (set_ent T i v m) root q = walk m root q"
    "vpath q \<Longrightarrow> length q = 4 \<Longrightarrow> lookup (set_ent T i v m) root q = lookup m root q"
proof -
  let ?m = "set_ent T i v m"
  have T3: "length P \<le> 3" using T(2) by simp
  have en: "ent ?m a j = (if p = P \<and> j = i then v else ent m a j)" if "vpath p" "length p \<le> 3" "walk m root p = Some a" "unat j < 512" for p a j
  proof -
    have "T = a \<longleftrightarrow> p = P" using vm_treeD(3) [OF tree T(1) T3 T(3) that(1,2)] that(3) T(3) by auto
    then show ?thesis using ent_set_ent [OF vm_treeD(1) [OF tree T(1) T3 T(3)] vm_treeD(1) [OF tree that(1-3)] T(4) that(4)] by auto
  qed
  have w: "walk ?m root q = walk m root q" if "vpath q" "length q \<le> 3" for q
    by (rule walk_cong [OF tree _ that]) (use en e v T(3) in auto)
  then show "vpath q \<Longrightarrow> length q \<le> 3 \<Longrightarrow> walk ?m root q = walk m root q" by blast
  show "vm_tree ?m root free" "tabs ?m root = tabs m root" using tree_cong [OF tree w] by blast+
  show "lookup ?m root q = lookup m root q" if q: "vpath q" "length q = 4"
  proof (rule lookup_cong [OF w])
    fix p j r a assume pq: "q = p @ j # r" "walk m root p = Some a"
    have "p = P \<Longrightarrow> r \<noteq> []" using pq(1) q(2) T(2) by auto
    then show "\<forall>e. e = ent ?m a j \<and> present e \<and> (r = [] \<or> large e) \<longleftrightarrow> e = ent m a j \<and> present e \<and> (r = [] \<or> large e)"
      using en [of p a j] pq q e v T(3) by auto
  qed (use q in simp_all)
qed

text \<open>An empty table linked where there was no entry.\<close>

definition blank :: "phys_mem \<Rightarrow> u64 \<Rightarrow> bool" where
  "blank m a \<longleftrightarrow> (\<forall>j. unat j < 512 \<longrightarrow> \<not> present (ent m a j))"

lemma blank_walk: "blank m a \<Longrightarrow> vpath r \<Longrightarrow> walk m a r = (if r = [] then Some a else None)"
  by (cases r) (simp_all add: blank_def Let_def)

lemma blank_lookup: "blank m a \<Longrightarrow> vpath r \<Longrightarrow> lookup m a r = None"
  by (cases r) (simp_all add: blank_def Let_def)

lemma blank_set_ent:
  assumes "blank m N" "tab_ok N" "tab_ok T" "N \<noteq> T" "unat i < 512"
  shows "blank (set_ent T i v m) N"
  using assms ent_set_ent [OF assms(3,2) assms(5)] by (auto simp: blank_def)

lemma write_fresh:
  assumes tree: "vm_tree m root free" and T: "vpath P" "length P \<le> 2" "walk m root P = Some T" "unat i < 512"
    and e: "\<not> present (ent m T i)" and v: "present v" "\<not> large v" "entry_addr v = N"
    and N: "tab_ok N" "N \<notin> tabs m root" "unat N div 4096 \<notin> free" "blank m N"
  shows "vm_tree (set_ent T i v m) root free" "tabs (set_ent T i v m) root = insert N (tabs m root)"
    "walk (set_ent T i v m) root (P @ [i]) = Some N"
    "vpath q \<Longrightarrow> length q = 4 \<Longrightarrow> lookup (set_ent T i v m) root q = lookup m root q"
proof -
  let ?m = "set_ent T i v m"
  have T3: "length P \<le> 3" using T(2) by simp
  note ws = walk_write_self [OF tree T(1) T3 T(3,4), of v]
  have NT: "N \<noteq> T" using N(2) tabsI [OF T(1) T3 T(3)] by blast
  have bl: "blank ?m N" by (rule blank_set_ent [OF N(4,1) vm_treeD(1) [OF tree T(1) T3 T(3)] NT T(4)])
  have old: "walk m root (P @ i # r) = None" for r using T(3) e by (simp add: table_walk_append)
  have ext: "walk ?m root (P @ i # r) = (if r = [] then Some N else None)" if "vpath r" for r
    using ws(3) v blank_walk [OF bl that] by simp
  then show "walk ?m root (P @ [i]) = Some N" by simp
  have other: "walk ?m root q = walk m root q" if "vpath q" "length q \<le> 3" "\<not> (\<exists>r. q = P @ i # r)" for q
    using walk_write_other [OF tree T(1) T3 T(3,4) that(1)] that by simp
  have w: "walk ?m root q = Some a \<longleftrightarrow> (q = P @ [i] \<and> a = N) \<or> walk m root q = Some a" if q: "vpath q" "length q \<le> 3" for q a
  proof (cases "\<exists>r. q = P @ i # r")
    case True
    then obtain r where r: "q = P @ i # r" by blast
    then show ?thesis using ext [of r] old [of r] q by auto
  next
    case False
    then show ?thesis using other [OF q] by auto
  qed
  have Pi: "vpath (P @ [i])" "length (P @ [i]) \<le> 3" using T by simp_all
  have notN: "walk m root q \<noteq> Some N" if "vpath q" "length q \<le> 3" for q using N(2) tabsI [OF that] by blast
  show "vm_tree ?m root free" unfolding vm_tree_def
  proof (intro conjI allI impI)
    fix p a assume p: "vpath p" "length p \<le> 3" "walk ?m root p = Some a"
    then show "tab_ok a" "unat a div 4096 \<notin> free" using w [OF p(1,2)] N(1,3) vm_treeD(1,2) [OF tree p(1,2)] by auto
  next
    fix p q a assume p: "vpath p" "vpath q" "length p \<le> 3" "length q \<le> 3" "walk ?m root p = Some a" "walk ?m root q = Some a"
    show "p = q"
      using w [OF p(1,3)] w [OF p(2,4)] p(5,6) notN [OF p(1,3)] notN [OF p(2,4)] vm_treeD(3) [OF tree p(2,4) _ p(1,3)] by auto
  qed
  show "tabs ?m root = insert N (tabs m root)"
    using w Pi unfolding tabs_def by blast
  show "lookup ?m root q = lookup m root q" if q: "vpath q" "length q = 4"
  proof (cases "\<exists>r. q = P @ i # r")
    case True
    then obtain r where r: "q = P @ i # r" by blast
    have "r \<noteq> []" using r q(2) T(2) by auto
    then have "lookup ?m root q = None" using ws(4) [of r] v blank_lookup [OF bl] r q(1) by auto
    moreover have "lookup m root q = None" using table_lookup_append [OF T(3), of "i # r"] e r by (simp add: Let_def)
    ultimately show ?thesis by simp
  next
    case False
    then show ?thesis using lookup_write_other [OF tree T(1) T3 T(3,4) q(1)] q(2) by simp
  qed
qed

text \<open>An entry that ends the walk: a page, a large page or no entry at all.\<close>

lemma write_end:
  assumes tree: "vm_tree m root free" and T: "vpath P" "length P \<le> 3" "walk m root P = Some T" "unat i < 512"
    and v: "length P = 3 \<or> \<not> present v \<or> large v"
  shows "vm_tree (set_ent T i v m) root free"
    "tabs (set_ent T i v m) root = tabs m root - {a. \<exists>r. vpath r \<and> length P + length r \<le> 2 \<and> walk m root (P @ i # r) = Some a}"
    "vpath q \<Longrightarrow> length q \<le> 3 \<Longrightarrow> walk (set_ent T i v m) root q = (if \<exists>r. q = P @ i # r then None else walk m root q)"
    "vpath q \<Longrightarrow> length q = 4 \<Longrightarrow> lookup (set_ent T i v m) root q =
       (if \<exists>r. q = P @ i # r then if present v then Some (3 - length P, v) else None else lookup m root q)"
proof -
  let ?m = "set_ent T i v m"
  note ws = walk_write_self [OF tree T, of v]
  have w: "walk ?m root q = (if \<exists>r. q = P @ i # r then None else walk m root q)" if q: "vpath q" "length q \<le> 3" for q
  proof (cases "\<exists>r. q = P @ i # r")
    case True
    then have "length P \<noteq> 3" using q(2) by auto
    then have "\<not> (present v \<and> \<not> large v)" using v by blast
    then show ?thesis using ws(3) True by auto
  next
    case False
    then show ?thesis using walk_write_other [OF tree T q(1)] q(2) by simp
  qed
  then show "vpath q \<Longrightarrow> length q \<le> 3 \<Longrightarrow> walk ?m root q = (if \<exists>r. q = P @ i # r then None else walk m root q)" by blast
  show "vm_tree ?m root free"
    using tree w unfolding vm_tree_def by (metis option.distinct(1))
  have sub: "a \<in> tabs ?m root \<longleftrightarrow> (\<exists>q. vpath q \<and> length q \<le> 3 \<and> walk m root q = Some a \<and> \<not> (\<exists>r. q = P @ i # r))" for a
    unfolding tabs_def using w by (auto split: if_splits)
  show "tabs ?m root = tabs m root - {a. \<exists>r. vpath r \<and> length P + length r \<le> 2 \<and> walk m root (P @ i # r) = Some a}" (is "_ = _ - ?D")
  proof (intro set_eqI iffI)
    fix a assume "a \<in> tabs ?m root"
    then obtain q where q: "vpath q" "length q \<le> 3" "walk m root q = Some a" "\<not> (\<exists>r. q = P @ i # r)" using sub by blast
    have "a \<notin> ?D"
    proof
      assume "a \<in> ?D"
      then obtain r where r: "vpath r" "length P + length r \<le> 2" "walk m root (P @ i # r) = Some a" by blast
      have "P @ i # r = q" using vm_treeD(3) [OF tree q(1-3) _ _ r(3)] r(1,2) T(1,4) by simp
      then show False using q(4) by blast
    qed
    then show "a \<in> tabs m root - ?D" using tabsI [OF q(1-3)] by blast
  next
    fix a assume a: "a \<in> tabs m root - ?D"
    then obtain q where q: "vpath q" "length q \<le> 3" "walk m root q = Some a" by (auto simp: tabs_def)
    have "\<not> (\<exists>r. q = P @ i # r)" using a q by auto
    then show "a \<in> tabs ?m root" using sub q by blast
  qed
  show "lookup ?m root q = (if \<exists>r. q = P @ i # r then if present v then Some (3 - length P, v) else None else lookup m root q)"
    if q: "vpath q" "length q = 4"
  proof (cases "\<exists>r. q = P @ i # r")
    case True
    then obtain r where r: "q = P @ i # r" by blast
    have len: "length r = 3 - length P" using r q(2) by simp
    show ?thesis using ws(4) [of r] r len v by auto
  next
    case False
    then show ?thesis using lookup_write_other [OF tree T q(1)] q(2) by simp
  qed
qed

section \<open>New tables\<close>

lemma zero_table_upto:
  assumes "tab_ok t" "n \<le> 512"
  defines "m' \<equiv> \<lambda>m. fold (\<lambda>i. set_ent t (of_nat i) 0) [0..<n] m"
  shows "unat j < n \<Longrightarrow> ent (m' m) t j = 0" "unat x < unat t \<or> unat t + 4096 \<le> unat x \<Longrightarrow> m' m x = m x"
proof -
  have "(\<forall>j. unat j < n \<longrightarrow> ent (m' m) t j = 0) \<and> (\<forall>x. unat x < unat t \<or> unat t + 4096 \<le> unat x \<longrightarrow> m' m x = m x)"
    using assms(2) unfolding m'_def
  proof (induction n)
    case 0
    then show ?case by simp
  next
    case (Suc n)
    let ?f = "fold (\<lambda>i. set_ent t (of_nat i) 0) [0..<n] m"
    have u: "unat (of_nat n :: u64) = n" using Suc.prems by (intro unat_of_nat64) simp
    have "ent (set_ent t (of_nat n) 0 ?f) t j = 0" if "unat j < Suc n" for j
    proof -
      have "of_nat n = j \<or> unat j < n" using that u by (metis less_antisym word_unat_eq_iff)
      moreover have "ent (set_ent t (of_nat n) 0 ?f) t j = (if of_nat n = j then 0 else ent ?f t j)"
        using ent_set_ent [OF assms(1,1), of "of_nat n" j 0 ?f] u Suc.prems that by auto
      ultimately show ?thesis using Suc.IH Suc.prems by auto
    qed
    moreover have "set_ent t (of_nat n) 0 ?f x = m x" if x: "unat x < unat t \<or> unat t + 4096 \<le> unat x" for x
    proof -
      have a: "unat (t + 8 * of_nat n) = unat t + 8 * n" using ent_addr [OF assms(1), of "of_nat n"] u Suc.prems by simp
      have "wr64 ?f (t + 8 * of_nat n) 0 x = ?f x"
        by (rule wr64_outside) (use a x tab_room [OF assms(1)] Suc.prems in auto)
      then show ?thesis using Suc.IH Suc.prems x by (simp add: set_ent_def)
    qed
    ultimately show ?case by simp
  qed
  then show "unat j < n \<Longrightarrow> ent (m' m) t j = 0" "unat x < unat t \<or> unat t + 4096 \<le> unat x \<Longrightarrow> m' m x = m x" by blast+
qed

lemma zero_table_ok:
  assumes "tab_ok t"
  shows "blank (zero_table t m) t" "unat x < unat t \<or> unat t + 4096 \<le> unat x \<Longrightarrow> zero_table t m x = m x"
  using zero_table_upto [OF assms, of 512] by (simp_all add: zero_table_def blank_def)

definition vm_ok :: "vmm_state \<Rightarrow> u64 \<Rightarrow> bool" where
  "vm_ok s root \<longleftrightarrow> pmm_inv (vm_pmm s) \<and> vm_tree (vm_mem s) root (free_set (vm_pmm s))"

text \<open>What the tables translate, as a map from full paths of indices.\<close>

definition view :: "vmm_state \<Rightarrow> u64 \<Rightarrow> u64 list \<Rightarrow> (nat \<times> u64) option" where
  "view s root q = (if vpath q \<and> length q = 4 then lookup (vm_mem s) root q else None)"

definition frames_of :: "u64 list \<Rightarrow> nat set" where
  "frames_of ps = (\<lambda>t. unat t div 4096) ` (set ps - {0})"

definition pool_pages :: "pmm_state \<Rightarrow> u64 list \<Rightarrow> bool" where
  "pool_pages p ps \<longleftrightarrow> (\<forall>t\<in>set ps. t \<noteq> 0 \<longrightarrow> unat t mod 4096 = 0 \<and> unat t div 4096 < unat (frame_limit p) \<and> unat t div 4096 \<notin> free_set p) \<and>
     distinct (filter (\<lambda>t. t \<noteq> 0) ps)"

definition pool_ok :: "vmm_state \<Rightarrow> u64 \<Rightarrow> u64 list \<Rightarrow> bool" where
  "pool_ok s root ps \<longleftrightarrow> pool_pages (vm_pmm s) ps \<and> (\<forall>t\<in>set ps. t \<noteq> 0 \<longrightarrow> t \<notin> tabs (vm_mem s) root \<and> blank (vm_mem s) t)"

lemma frame_inj: "unat a mod 4096 = 0 \<Longrightarrow> unat b mod 4096 = 0 \<Longrightarrow> unat a div 4096 = unat b div 4096 \<Longrightarrow> a = (b :: u64)"
  by (metis div_mult_mod_eq word_unat_eq_iff)

lemma page_apart:
  assumes "unat a mod 4096 = 0" "unat b mod 4096 = 0" "a \<noteq> (b :: u64)" "unat b \<le> unat x" "unat x < unat b + 4096"
  shows "unat x < unat a \<or> unat a + 4096 \<le> unat x"
proof -
  have "unat a div 4096 \<noteq> unat b div 4096" using frame_inj [OF assms(1,2)] assms(3) by blast
  moreover have "unat a = unat a div 4096 * 4096" "unat b = unat b div 4096 * 4096" using assms(1,2) by auto
  ultimately show ?thesis using assms(4,5) by linarith
qed

lemma alloc_table_cases:
  assumes "vm_ok s root"
  obtains (none) "free_set (vm_pmm s) = {}" "alloc_table s = (0, s)"
    | (some) t p where "alloc_table s = (t, s\<lparr>vm_pmm := p, vm_mem := zero_table t (vm_mem s)\<rparr>)" "tab_ok t" "unat t div 4096 \<in> free_set (vm_pmm s)"
      "pmm_inv p" "free_set p = free_set (vm_pmm s) - {unat t div 4096}" "frame_limit p = frame_limit (vm_pmm s)"
proof (cases "free_set (vm_pmm s) = {}")
  case True
  have inv: "pmm_inv (vm_pmm s)" using assms by (simp add: vm_ok_def)
  then have "pmm_alloc_page (vm_pmm s) = (0, vm_pmm s)"
    using True free_runs_1 [of "vm_pmm s"] pmm_alloc_pages_fail [of "vm_pmm s" 1] by (simp add: pmm_alloc_page_def pmm_inv_def)
  then show thesis using none True by (simp add: alloc_table_def)
next
  case False
  have inv: "pmm_inv (vm_pmm s)" "pmm_wf (vm_pmm s)" using assms by (simp_all add: vm_ok_def pmm_inv_def)
  obtain a p where al: "pmm_alloc_pages 1 (vm_pmm s) = (a, p)" by (metis prod.exhaust)
  have "free_runs (vm_pmm s) (unat (1 :: u64)) \<noteq> {}" using False free_runs_1 [of "vm_pmm s"] by simp
  then obtain f where f: "unat a = f * 4096" "f \<in> free_set (vm_pmm s)"
    using pmm_alloc_pages_ok [OF inv(2), of 1] al free_runs_1 [of "vm_pmm s"] by auto
  have a0: "a \<noteq> 0" using f inv(1) by (cases "f = 0") (auto simp: pmm_inv_def)
  note n = alloc_nonzero [OF inv(1) al a0]
  have "tab_ok a" using a0 f(1) by (simp add: tab_ok_def)
  moreover have "alloc_table s = (a, s\<lparr>vm_pmm := p, vm_mem := zero_table a (vm_mem s)\<rparr>)"
    using al a0 by (simp add: alloc_table_def pmm_alloc_page_def phys_to_ptr_def)
  moreover have "{unat a div 4096..<unat a div 4096 + unat (1 :: u64)} = {unat a div 4096}" by auto
  ultimately show thesis using some n(4-6) f by simp
qed

lemma free_tables_ok:
  assumes "pmm_inv (vm_pmm s)" "pool_pages (vm_pmm s) ps"
  shows "pmm_inv (vm_pmm (free_tables ps s))" "free_set (vm_pmm (free_tables ps s)) = free_set (vm_pmm s) \<union> frames_of ps"
    "vm_mem (free_tables ps s) = vm_mem s" "kernel_pml4 (free_tables ps s) = kernel_pml4 s" "vm_flushed (free_tables ps s) = vm_flushed s"
    "frame_limit (vm_pmm (free_tables ps s)) = frame_limit (vm_pmm s)"
proof -
  have "pmm_inv (vm_pmm (free_tables ps s)) \<and> free_set (vm_pmm (free_tables ps s)) = free_set (vm_pmm s) \<union> frames_of ps \<and>
    vm_mem (free_tables ps s) = vm_mem s \<and> kernel_pml4 (free_tables ps s) = kernel_pml4 s \<and> vm_flushed (free_tables ps s) = vm_flushed s \<and>
    frame_limit (vm_pmm (free_tables ps s)) = frame_limit (vm_pmm s)"
    using assms
  proof (induction ps arbitrary: s)
    case Nil
    then show ?case by (simp add: free_tables_def frames_of_def)
  next
    case (Cons t ps)
    show ?case
    proof (cases "t = 0")
      case True
      then show ?thesis using Cons.IH [of s] Cons.prems by (simp add: free_tables_def frames_of_def pool_pages_def)
    next
      case False
      let ?p = "vm_pmm s" and ?f = "unat t div 4096"
      let ?s = "s\<lparr>vm_pmm := pmm_free_page (ptr_to_phys t) ?p\<rparr>"
      have t: "unat t = ?f * 4096" "?f < unat (frame_limit ?p)" "?f \<notin> free_set ?p" using Cons.prems(2) False by (auto simp: pool_pages_def)
      have wf: "pmm_wf ?p" "0 \<notin> free_set ?p" using Cons.prems(1) by (simp_all add: pmm_inv_def)
      have f0: "0 < ?f" using t(1) False by (metis gr0I mult_0 unat_eq_zero)
      have "?f < 2 ^ 25" using t(2) wf(1) by (simp add: pmm_wf_def)
      then have "unat t < 2 ^ 37" by (simp add: div_less_iff_less_mult)
      then have ph: "ptr_to_phys t = t" by (simp add: ptr_to_phys_def KERNEL_VIRT_BASE_def word_le_nat_alt)
      note fr = pmm_free_page_ok [OF wf(1) t(1) f0 t(2,3)]
      have inv: "pmm_inv (vm_pmm ?s)" using fr(1,2) wf(2) f0 ph by (simp add: pmm_inv_def)
      have "unat u div 4096 \<noteq> ?f" if u: "u \<in> set ps" "u \<noteq> 0" for u
        using frame_inj [of u t] t(1) Cons.prems(2) u False by (auto simp: pool_pages_def)
      then have pp: "pool_pages (vm_pmm ?s) ps" using Cons.prems(2) fr(2,3) ph False by (auto simp: pool_pages_def)
      have "free_tables (t # ps) s = free_tables ps ?s" using False by (simp add: free_tables_def)
      moreover have "frames_of (t # ps) = insert ?f (frames_of ps)" using False by (auto simp: frames_of_def)
      ultimately show ?thesis using Cons.IH [OF inv pp] fr(2,3) ph by auto
    qed
  qed
  then show "pmm_inv (vm_pmm (free_tables ps s))" "free_set (vm_pmm (free_tables ps s)) = free_set (vm_pmm s) \<union> frames_of ps"
    "vm_mem (free_tables ps s) = vm_mem s" "kernel_pml4 (free_tables ps s) = kernel_pml4 s" "vm_flushed (free_tables ps s) = vm_flushed s"
    "frame_limit (vm_pmm (free_tables ps s)) = frame_limit (vm_pmm s)" by blast+
qed

text \<open>A new table joins the pool.\<close>

lemma pool_add:
  assumes ok: "vm_ok s root" "pool_ok s root ps" and t: "tab_ok t" "unat t div 4096 \<in> free_set (vm_pmm s)"
    and p: "pmm_inv p" "free_set p = free_set (vm_pmm s) - {unat t div 4096}" "frame_limit p = frame_limit (vm_pmm s)"
  defines "s' \<equiv> s\<lparr>vm_pmm := p, vm_mem := zero_table t (vm_mem s)\<rparr>"
  shows "vm_ok s' root" "pool_ok s' root (ps @ [t])" "view s' root = view s root" "tabs (vm_mem s') root = tabs (vm_mem s) root"
    "free_set p \<union> frames_of (ps @ [t]) = free_set (vm_pmm s) \<union> frames_of ps"
proof -
  let ?m = "zero_table t (vm_mem s)"
  note z = zero_table_ok [OF t(1)]
  have al: "unat t mod 4096 = 0" "t \<noteq> 0" using t(1) by (simp_all add: tab_ok_def)
  have tree: "vm_tree (vm_mem s) root (free_set (vm_pmm s))" using ok(1) by (simp add: vm_ok_def)
  have same: "?m x = vm_mem s x" if a: "a \<in> tabs (vm_mem s) root" "unat a \<le> unat x" "unat x < unat a + 4096" for a x
  proof -
    have "tab_ok a" "a \<noteq> t" using tabs_ok [OF tree a(1)] t(2) by auto
    then show ?thesis using page_apart [OF al(1) _ _ a(2,3)] z(2) by (auto simp: tab_ok_def)
  qed
  note fr = tree_frame [OF tree same]
  show tb: "tabs (vm_mem s') root = tabs (vm_mem s) root" using fr(2) by (simp add: s'_def)
  show "view s' root = view s root" using fr(4) by (auto simp: view_def s'_def)
  show "vm_ok s' root"
    using fr(1,2) vm_tree_free [of ?m root "free_set (vm_pmm s)" "free_set p"] tabs_ok [OF tree] p by (auto simp: vm_ok_def s'_def)
  show "free_set p \<union> frames_of (ps @ [t]) = free_set (vm_pmm s) \<union> frames_of ps" using p(2) t(2) al(2) by (auto simp: frames_of_def)
  have old: "unat u mod 4096 = 0" "unat u div 4096 \<notin> free_set (vm_pmm s)" "blank (vm_mem s) u" "u \<notin> tabs (vm_mem s) root" if "u \<in> set ps" "u \<noteq> 0" for u
    using ok(2) that by (auto simp: pool_ok_def pool_pages_def)
  have nt: "t \<notin> set ps" using old(2) t(2) al(2) by blast
  have "blank ?m u" if u: "u \<in> set ps" "u \<noteq> 0" for u
  proof -
    have uo: "tab_ok u" "u \<noteq> t" using old(1) [OF u] u nt by (auto simp: tab_ok_def)
    have "ent ?m u j = ent (vm_mem s) u j" if "unat j < 512" for j
      using ent_frame [OF uo(1) that, of ?m "vm_mem s"] page_apart [OF al(1) old(1) [OF u] uo(2) [symmetric]] z(2) by blast
    then show ?thesis using old(3) [OF u] by (simp add: blank_def)
  qed
  moreover have "t \<notin> tabs (vm_mem s) root" using tabs_ok [OF tree] t(2) by blast
  moreover have "unat t div 4096 < unat (frame_limit p)" using t(2) p(3) by (simp add: free_set_mem)
  ultimately show "pool_ok s' root (ps @ [t])"
    using ok(2) p(2,3) z(1) al nt old(2,4) tb by (auto simp: pool_ok_def pool_pages_def s'_def)
qed

lemma vm_ok_free_tables:
  assumes "vm_ok s root" "pool_ok s root ps"
  shows "vm_ok (free_tables ps s) root" "view (free_tables ps s) root = view s root" "tabs (vm_mem (free_tables ps s)) root = tabs (vm_mem s) root"
    "free_set (vm_pmm (free_tables ps s)) = free_set (vm_pmm s) \<union> frames_of ps"
proof -
  have inv: "pmm_inv (vm_pmm s)" and tree: "vm_tree (vm_mem s) root (free_set (vm_pmm s))" using assms(1) by (simp_all add: vm_ok_def)
  have pp: "pool_pages (vm_pmm s) ps" using assms(2) by (simp add: pool_ok_def)
  note f = free_tables_ok [OF inv pp]
  have "unat a div 4096 \<notin> free_set (vm_pmm s) \<union> frames_of ps" if a: "a \<in> tabs (vm_mem s) root" for a
  proof -
    have ta: "tab_ok a" "unat a div 4096 \<notin> free_set (vm_pmm s)" using tabs_ok [OF tree a] by simp_all
    have "unat t div 4096 \<noteq> unat a div 4096" if "t \<in> set ps" "t \<noteq> 0" for t
      using frame_inj [of t a] that a ta(1) assms(2) by (auto simp: pool_ok_def pool_pages_def tab_ok_def)
    then have "unat a div 4096 \<notin> frames_of ps" unfolding frames_of_def by fastforce
    then show ?thesis using ta(2) by blast
  qed
  then show "vm_ok (free_tables ps s) root" using vm_tree_free [OF tree] f by (simp add: vm_ok_def)
  show "view (free_tables ps s) root = view s root" "tabs (vm_mem (free_tables ps s)) root = tabs (vm_mem s) root"
    "free_set (vm_pmm (free_tables ps s)) = free_set (vm_pmm s) \<union> frames_of ps" using f(2,3) by (auto simp: view_def)
qed

lemma fill_pool_ok:
  assumes "vm_ok s root" "pool_ok s root ps" "0 \<notin> set ps" "fill_pool n ps s = (res, s')"
  shows "vm_ok s' root \<and> view s' root = view s root \<and> tabs (vm_mem s') root = tabs (vm_mem s) root \<and>
    kernel_pml4 s' = kernel_pml4 s \<and> vm_flushed s' = vm_flushed s \<and>
    (case res of
       None \<Rightarrow> free_set (vm_pmm s') = free_set (vm_pmm s) \<union> frames_of ps \<and> card (free_set (vm_pmm s)) < n
     | Some ps' \<Rightarrow> pool_ok s' root ps' \<and> 0 \<notin> set ps' \<and> length ps' = length ps + n \<and> n \<le> card (free_set (vm_pmm s)) \<and>
         free_set (vm_pmm s') \<union> frames_of ps' = free_set (vm_pmm s) \<union> frames_of ps)"
  using assms
proof (induction n arbitrary: s ps)
  case 0
  then show ?case by auto
next
  case (Suc n)
  from Suc.prems(1) show ?case
  proof (cases rule: alloc_table_cases)
    case none
    have "res = None" "s' = free_tables ps s" using Suc.prems(4) none(2) by simp_all
    then show ?thesis
      using vm_ok_free_tables [OF Suc.prems(1,2)] none(1) Suc.prems(1,2) free_tables_ok(4,5) [of s ps] by (simp add: vm_ok_def pool_ok_def)
  next
    case (some t p)
    let ?s = "s\<lparr>vm_pmm := p, vm_mem := zero_table t (vm_mem s)\<rparr>"
    have t0: "t \<noteq> 0" using some(2) by (simp add: tab_ok_def)
    note pa = pool_add [OF Suc.prems(1,2) some(2-6)]
    have fp: "fill_pool n (ps @ [t]) ?s = (res, s')" using Suc.prems(4) some(1) t0 by simp
    have z: "0 \<notin> set (ps @ [t])" using Suc.prems(3) t0 by auto
    have c: "card (free_set (vm_pmm s)) = Suc (card (free_set p))"
      using some(3,5) card_Suc_Diff1 [OF free_set_finite, of "unat t div 4096" "vm_pmm s"] by simp
    note IH = Suc.IH [OF pa(1,2) z fp]
    show ?thesis
    proof (cases res)
      case None
      then show ?thesis using IH pa(3-5) c by simp
    next
      case (Some ps')
      then show ?thesis using IH pa(3-5) c by simp
    qed
  qed
qed

section \<open>Going down one level\<close>

lemma present_bit: "present e \<longleftrightarrow> bit e 0"
  using and_exp_eq_0_iff_not_bit [of e 0] by (simp add: PAGE_FLAG_PRESENT_def)

lemma large_bit: "large e \<longleftrightarrow> bit e 7"
  using and_exp_eq_0_iff_not_bit [of e 7] by (simp add: PAGE_FLAG_PS_def)

lemma low_mask: "(0xFFF :: u64) = mask 12"
  by (simp add: mask_eq_exp_minus_1)

lemma entry_addr_bit: "bit (entry_addr e) n \<longleftrightarrow> bit e n \<and> 12 \<le> n"
  unfolding entry_addr_def low_mask by (auto simp: bit_and_iff bit_not_iff bit_mask_iff dest: bit_imp_le_length)

lemma aligned_bit: "unat (a :: u64) mod 4096 = 0 \<Longrightarrow> n < 12 \<Longrightarrow> \<not> bit a n"
proof -
  assume a: "unat a mod 4096 = 0" and n: "n < 12"
  have "unat (take_bit 12 a) = 0" using a by (simp add: unat_mod take_bit_eq_mod)
  then have "take_bit 12 a = 0" by (simp add: unat_eq_zero)
  then have "\<not> bit (take_bit 12 a) n" by simp
  then show ?thesis using n by (simp add: bit_take_bit_iff)
qed

definition link_flags :: "u64 \<Rightarrow> bool" where
  "link_flags flags \<longleftrightarrow> (\<forall>n. bit flags n \<longrightarrow> n = 1 \<or> n = 2)"

lemma flag_bits: "bit PAGE_FLAG_RW n \<longleftrightarrow> n = 1" "bit PAGE_FLAG_US n \<longleftrightarrow> n = 2" "bit PAGE_FLAG_PRESENT n \<longleftrightarrow> n = 0" "bit PAGE_FLAG_PS n \<longleftrightarrow> n = 7"
proof -
  have f: "PAGE_FLAG_RW = 2 ^ 1" "PAGE_FLAG_US = 2 ^ 2" "PAGE_FLAG_PRESENT = 2 ^ 0" "PAGE_FLAG_PS = 2 ^ 7"
    by (simp_all add: PAGE_FLAG_RW_def PAGE_FLAG_US_def PAGE_FLAG_PRESENT_def PAGE_FLAG_PS_def)
  show "bit PAGE_FLAG_RW n \<longleftrightarrow> n = 1" "bit PAGE_FLAG_US n \<longleftrightarrow> n = 2" "bit PAGE_FLAG_PRESENT n \<longleftrightarrow> n = 0" "bit PAGE_FLAG_PS n \<longleftrightarrow> n = 7"
    unfolding f bit_exp_iff possible_bit_word by auto
qed

lemma table_flags_link: "link_flags (table_flags_from_leaf flags)"
  by (auto simp: link_flags_def table_flags_from_leaf_def Let_def bit_or_iff flag_bits)

lemma new_link:
  assumes "unat N mod 4096 = 0" "link_flags flags"
  shows "present (N OR flags OR PAGE_FLAG_PRESENT)" "\<not> large (N OR flags OR PAGE_FLAG_PRESENT)" "entry_addr (N OR flags OR PAGE_FLAG_PRESENT) = N"
proof -
  show "present (N OR flags OR PAGE_FLAG_PRESENT)" by (simp only: present_bit bit_or_iff flag_bits) simp
  show "\<not> large (N OR flags OR PAGE_FLAG_PRESENT)"
    using aligned_bit [OF assms(1), of 7] assms(2) by (auto simp only: large_bit bit_or_iff flag_bits link_flags_def)
  show "entry_addr (N OR flags OR PAGE_FLAG_PRESENT) = N"
  proof (rule bit_word_eqI)
    fix n assume "n < LENGTH(64)"
    show "bit (entry_addr (N OR flags OR PAGE_FLAG_PRESENT)) n = bit N n"
      using aligned_bit [OF assms(1), of n] assms(2) by (auto simp: entry_addr_bit bit_or_iff flag_bits link_flags_def not_less [symmetric])
  qed
qed

lemma more_flags:
  assumes "present e" "\<not> large e"
  defines "v \<equiv> \<lambda>flags. e OR (flags AND (PAGE_FLAG_RW OR PAGE_FLAG_US))"
  shows "present (v flags)" "\<not> large (v flags)" "entry_addr (v flags) = entry_addr e"
proof -
  show "present (v flags)" using assms(1) by (simp add: v_def present_bit bit_or_iff)
  show "\<not> large (v flags)" using assms(2) by (auto simp only: v_def large_bit bit_or_iff bit_and_iff flag_bits)
  show "entry_addr (v flags) = entry_addr e"
  proof (rule bit_word_eqI)
    fix n assume "n < LENGTH(64)"
    show "bit (entry_addr (v flags)) n = bit (entry_addr e) n"
      by (auto simp: v_def entry_addr_bit bit_or_iff bit_and_iff flag_bits)
  qed
qed

lemma take_prealloc_ok:
  "0 < count_if (\<lambda>t. t \<noteq> 0) ps \<Longrightarrow> \<exists>xs N ys. ps = xs @ N # ys \<and> N \<noteq> 0 \<and> set xs \<subseteq> {0} \<and> take_prealloc ps = (N, xs @ 0 # ys)"
proof (induction ps)
  case Nil
  then show ?case by simp
next
  case (Cons t ps)
  show ?case
  proof (cases "t = 0")
    case True
    then obtain xs N ys where h: "ps = xs @ N # ys" "N \<noteq> 0" "set xs \<subseteq> {0}" "take_prealloc ps = (N, xs @ 0 # ys)" using Cons by auto
    then have "take_prealloc (t # ps) = (N, (t # xs) @ 0 # ys)"
      using True by (cases "first_idx (\<lambda>t. t \<noteq> 0) ps") (auto simp: take_prealloc_def)
    then show ?thesis using h True by (intro exI [of _ "t # xs"] exI [of _ N] exI [of _ ys]) auto
  next
    case False
    then show ?thesis by (intro exI [of _ "[]"] exI [of _ t] exI [of _ ps]) (simp add: take_prealloc_def)
  qed
qed

definition tframes :: "phys_mem \<Rightarrow> u64 \<Rightarrow> nat set" where
  "tframes m root = (\<lambda>a. unat a div 4096) ` tabs m root"

text \<open>
  One level down to the table \<open>N\<close> along \<open>q\<close>: the walk goes on to it, what is translated is as before, and
  every page is still free, in the pool or a table.
\<close>

definition descends :: "vmm_state \<Rightarrow> u64 list \<Rightarrow> u64 \<Rightarrow> u64 list \<Rightarrow> u64 \<Rightarrow> u64 list \<Rightarrow> vmm_state \<Rightarrow> bool" where
  "descends s ps root q N ps' s' \<longleftrightarrow>
     vm_ok s' root \<and> pool_ok s' root ps' \<and> walk (vm_mem s') root q = Some N \<and> N \<noteq> 0 \<and> view s' root = view s root \<and>
     vm_pmm s' = vm_pmm s \<and> frames_of ps' \<union> tframes (vm_mem s') root = frames_of ps \<union> tframes (vm_mem s) root \<and>
     count_if (\<lambda>t. t \<noteq> 0) ps \<le> Suc (count_if (\<lambda>t. t \<noteq> 0) ps') \<and> tabs (vm_mem s) root \<subseteq> tabs (vm_mem s') root \<and>
     frames_of ps' \<subseteq> frames_of ps \<and> kernel_pml4 s' = kernel_pml4 s \<and> vm_flushed s' = vm_flushed s"

lemma next_present:
  assumes ok: "vm_ok s root" "pool_ok s root ps" and T: "vpath P" "length P \<le> 2" "walk (vm_mem s) root P = Some T" "unat i < 512"
    and True: "present (ent (vm_mem s) T i)" and nl: "\<not> large (ent (vm_mem s) T i)" and g: "get_or_create_next T i flags ps s = (N, ps', s')"
  shows "descends s ps root (P @ [i]) N ps' s'"
proof -
  let ?m = "vm_mem s" and ?e = "ent (vm_mem s) T i"
  have tree: "vm_tree ?m root (free_set (vm_pmm s))" and inv: "pmm_inv (vm_pmm s)" using ok(1) by (simp_all add: vm_ok_def)
  have T3: "length P \<le> 3" using T(2) by simp
  have Tok: "tab_ok T" and Tin: "T \<in> tabs ?m root" using vm_treeD(1) [OF tree T(1) T3 T(3)] tabsI [OF T(1) T3 T(3)] by simp_all
  let ?w = "flags AND (PAGE_FLAG_RW OR PAGE_FLAG_US)"
  let ?v = "if ?e AND ?w \<noteq> ?w then ?e OR ?w else ?e"
  have v: "present ?v" "\<not> large ?v" "entry_addr ?v = entry_addr ?e" using more_flags [OF True nl, of flags] True nl by auto
  let ?m' = "if ?e AND ?w \<noteq> ?w then set_ent T i (?e OR ?w) ?m else ?m"
  have r: "N = entry_addr ?e" "ps' = ps" "s' = s\<lparr>vm_mem := ?m'\<rparr>"
    using g True by (auto simp: get_or_create_next_def Let_def phys_to_ptr_def)
  note ws = write_same [OF tree T True nl v]
  have m': "vm_tree ?m' root (free_set (vm_pmm s))" "tabs ?m' root = tabs ?m root" "\<And>q. vpath q \<Longrightarrow> length q \<le> 3 \<Longrightarrow> walk ?m' root q = walk ?m root q"
    "\<And>q. vpath q \<Longrightarrow> length q = 4 \<Longrightarrow> lookup ?m' root q = lookup ?m root q"
    using ws tree by (auto split: if_splits)
  have wN: "walk ?m root (P @ [i]) = Some N" using T(3) True nl r(1) by (simp add: table_walk_append)
  have Pi: "vpath (P @ [i])" "length (P @ [i]) \<le> 3" using T by simp_all
  have "N \<noteq> 0" using vm_treeD(1) [OF tree Pi wN] by (simp add: tab_ok_def)
  moreover have "blank ?m' t" if "t \<in> set ps" "t \<noteq> 0" for t
  proof -
    have t: "tab_ok t" "t \<noteq> T" "blank ?m t" using ok(2) that Tin by (auto simp: pool_ok_def pool_pages_def tab_ok_def)
    then show ?thesis using blank_set_ent [OF t(3,1) Tok t(2) T(4)] by simp
  qed
  then have "pool_ok s' root ps'" using ok(2) r m'(2) by (simp add: pool_ok_def)
  ultimately show ?thesis using r m' wN Pi inv by (auto simp: descends_def vm_ok_def view_def tframes_def)
qed

lemma next_absent:
  assumes ok: "vm_ok s root" "pool_ok s root ps" and T: "vpath P" "length P \<le> 2" "walk (vm_mem s) root P = Some T" "unat i < 512"
    and False: "\<not> present (ent (vm_mem s) T i)" and fl: "link_flags flags"
    and cnt: "0 < count_if (\<lambda>t. t \<noteq> 0) ps" and g: "get_or_create_next T i flags ps s = (N, ps', s')"
  shows "descends s ps root (P @ [i]) N ps' s'"
proof -
  let ?m = "vm_mem s" and ?e = "ent (vm_mem s) T i"
  have tree: "vm_tree ?m root (free_set (vm_pmm s))" and inv: "pmm_inv (vm_pmm s)" using ok(1) by (simp_all add: vm_ok_def)
  have T3: "length P \<le> 3" using T(2) by simp
  have Tok: "tab_ok T" and Tin: "T \<in> tabs ?m root" using vm_treeD(1) [OF tree T(1) T3 T(3)] tabsI [OF T(1) T3 T(3)] by simp_all
  obtain xs ys where h: "ps = xs @ N # ys" "N \<noteq> 0" "set xs \<subseteq> {0}" "take_prealloc ps = (N, xs @ 0 # ys)"
    using take_prealloc_ok [OF cnt] g False by (auto simp: get_or_create_next_def Let_def split: if_splits)
  let ?v = "ptr_to_phys N OR flags OR PAGE_FLAG_PRESENT"
  let ?m' = "set_ent T i ?v ?m"
  have r: "ps' = xs @ 0 # ys" "s' = s\<lparr>vm_mem := ?m'\<rparr>"
    using g False h(2,4) by (auto simp: get_or_create_next_def Let_def)
  have N: "unat N mod 4096 = 0" "unat N div 4096 < unat (frame_limit (vm_pmm s))" "unat N div 4096 \<notin> free_set (vm_pmm s)" "N \<notin> tabs ?m root" "blank ?m N"
    using ok(2) h(1,2) by (auto simp: pool_ok_def pool_pages_def)
  have "unat N div 4096 < 2 ^ 25" using N(2) inv by (simp add: pmm_inv_def pmm_wf_def)
  then have "unat N < 2 ^ 37" by (simp add: div_less_iff_less_mult)
  then have ph: "ptr_to_phys N = N" by (simp add: ptr_to_phys_def KERNEL_VIRT_BASE_def word_le_nat_alt)
  have Nok: "tab_ok N" using N(1) h(2) by (simp add: tab_ok_def)
  have m': "vm_tree ?m' root (free_set (vm_pmm s))" "tabs ?m' root = insert N (tabs ?m root)" "walk ?m' root (P @ [i]) = Some N"
    "\<And>q. vpath q \<Longrightarrow> length q = 4 \<Longrightarrow> lookup ?m' root q = lookup ?m root q"
    using write_fresh [OF tree T False new_link [OF N(1) fl] Nok N(4,3,5)] by (simp_all add: ph)
  have dist: "N \<notin> set ys" "distinct (filter (\<lambda>t. t \<noteq> 0) ys)" using ok(2) h by (auto simp: pool_ok_def pool_pages_def)
  have fx: "filter (\<lambda>t. t \<noteq> 0) xs = []" using h(3) by (auto simp: filter_empty_conv)
  have in': "t \<in> set ys \<and> t \<noteq> N" if "t \<in> set ps'" "t \<noteq> 0" for t using that r(1) h(3) dist(1) by auto
  have "blank ?m' t \<and> t \<notin> tabs ?m' root" if t: "t \<in> set ps'" "t \<noteq> 0" for t
  proof -
    have "t \<in> set ps" "t \<noteq> N" using in' [OF t] h(1) by auto
    then have u: "tab_ok t" "t \<noteq> T" "blank ?m t" "t \<notin> tabs ?m' root" using ok(2) t(2) Tin m'(2) by (auto simp: pool_ok_def pool_pages_def tab_ok_def)
    then show ?thesis using blank_set_ent [OF u(3,1) Tok u(2) T(4)] by simp
  qed
  then have "pool_ok s' root ps'"
    using ok(2) h(1) in' r fx dist(2) by (auto simp: pool_ok_def pool_pages_def)
  moreover have "frames_of ps = insert (unat N div 4096) (frames_of ps')" using h(1-3) r(1) by (auto simp: frames_of_def)
  moreover have "count_if (\<lambda>t. t \<noteq> 0) ps \<le> Suc (count_if (\<lambda>t. t \<noteq> 0) ps')" using h(1) r(1) by simp
  ultimately show ?thesis using r m' inv h(2) by (auto simp: descends_def vm_ok_def view_def tframes_def)
qed

lemma next_ok:
  assumes "vm_ok s root" "pool_ok s root ps" "vpath P" "length P \<le> 2" "walk (vm_mem s) root P = Some T" "unat i < 512"
    and "present (ent (vm_mem s) T i) \<Longrightarrow> \<not> large (ent (vm_mem s) T i)" "link_flags flags"
    and "0 < count_if (\<lambda>t. t \<noteq> 0) ps" "get_or_create_next T i flags ps s = (N, ps', s')"
  shows "descends s ps root (P @ [i]) N ps' s'"
proof (cases "present (ent (vm_mem s) T i)")
  case True
  then show ?thesis using next_present [OF assms(1-6) True _ assms(10)] assms(7) by blast
next
  case False
  then show ?thesis by (rule next_absent [OF assms(1-6) _ assms(8-10)])
qed

section \<open>Mapping\<close>

lemma no_large_above:
  assumes "walk m root P = Some T" "n < length r" "\<And>k e. lookup m root (P @ i # r) = Some (k, e) \<Longrightarrow> k \<le> n" "present (ent m T i)"
  shows "\<not> large (ent m T i)"
proof
  assume "large (ent m T i)"
  then have "lookup m root (P @ i # r) = Some (length r, ent m T i)" using table_lookup_append [OF assms(1), of "i # r"] assms(4) by (simp add: Let_def)
  then show False using assms(2,3) by fastforce
qed

text \<open>The last write of a mapping, in the table along \<open>P\<close>.\<close>

lemma end_write:
  fixes va :: u64
  assumes ok: "vm_ok s root" "pool_ok s root ps" and T: "vpath P" "length P \<le> 3" "walk (vm_mem s) root P = Some T" "unat i < 512"
    and v: "length P = 3 \<or> \<not> present v \<or> large v"
  defines "s' \<equiv> invlpg va (upd_mem (set_ent T i v) s)"
  shows "vm_ok s' root" "pool_ok s' root ps" "view s' root =
      (\<lambda>q. if vpath q \<and> length q = 4 \<and> (\<exists>r. q = P @ i # r) then if present v then Some (3 - length P, v) else None else view s root q)"
    "tabs (vm_mem s') root = tabs (vm_mem s) root - {a. \<exists>r. vpath r \<and> length P + length r \<le> 2 \<and> walk (vm_mem s) root (P @ i # r) = Some a}"
    "vm_pmm s' = vm_pmm s" "vm_flushed s' = va # vm_flushed s" "kernel_pml4 s' = kernel_pml4 s"
proof -
  have tree: "vm_tree (vm_mem s) root (free_set (vm_pmm s))" and inv: "pmm_inv (vm_pmm s)" using ok(1) by (simp_all add: vm_ok_def)
  note w = write_end [OF tree T v]
  have s': "vm_mem s' = set_ent T i v (vm_mem s)" "vm_pmm s' = vm_pmm s" by (simp_all add: s'_def invlpg_def)
  show "vm_ok s' root" using w(1) inv s' by (simp add: vm_ok_def)
  show tb: "tabs (vm_mem s') root = tabs (vm_mem s) root - {a. \<exists>r. vpath r \<and> length P + length r \<le> 2 \<and> walk (vm_mem s) root (P @ i # r) = Some a}"
    using w(2) s'(1) by simp
  show "view s' root =
      (\<lambda>q. if vpath q \<and> length q = 4 \<and> (\<exists>r. q = P @ i # r) then if present v then Some (3 - length P, v) else None else view s root q)"
    using w(4) s'(1) by (auto simp: view_def)
  have Tok: "tab_ok T" and Tin: "T \<in> tabs (vm_mem s) root" using vm_treeD(1) [OF tree T(1-3)] tabsI [OF T(1-3)] by simp_all
  have "blank (set_ent T i v (vm_mem s)) t" if "t \<in> set ps" "t \<noteq> 0" for t
  proof -
    have t: "tab_ok t" "t \<noteq> T" "blank (vm_mem s) t" using ok(2) that Tin by (auto simp: pool_ok_def pool_pages_def tab_ok_def)
    then show ?thesis using blank_set_ent [OF t(3,1) Tok t(2) T(4)] by simp
  qed
  then show "pool_ok s' root ps" using ok(2) s' tb by (auto simp: pool_ok_def)
  show "vm_pmm s' = vm_pmm s" "vm_flushed s' = va # vm_flushed s" "kernel_pml4 s' = kernel_pml4 s" by (simp_all add: s'_def invlpg_def)
qed

definition page_entry :: "u64 \<Rightarrow> u64 \<Rightarrow> u64" where
  "page_entry pa flags = (pa AND NOT 0xFFF) OR (flags AND 0xFFF) OR PAGE_FLAG_PRESENT"

definition large_entry :: "u64 \<Rightarrow> u64 \<Rightarrow> u64" where
  "large_entry pa flags = (pa AND NOT 0x1FFFFF) OR (flags AND 0xFFF) OR PAGE_FLAG_PRESENT OR PAGE_FLAG_PS"

lemma page_entry_present: "present (page_entry pa flags)"
  by (simp only: present_bit page_entry_def bit_or_iff flag_bits) simp

lemma large_entry_bits: "present (large_entry pa flags)" "large (large_entry pa flags)"
  by (simp_all only: present_bit large_bit large_entry_def bit_or_iff flag_bits) simp_all

lemma count_nonzero: "0 \<notin> set ps \<Longrightarrow> count_if (\<lambda>t. t \<noteq> 0) ps = length ps"
  by (induction ps) auto

lemma pool_Nil [simp]: "pool_ok s root []" "frames_of [] = {}"
  by (simp_all add: pool_ok_def pool_pages_def frames_of_def)

text \<open>When the pool cannot be filled the call fails and nothing has changed.\<close>

lemma pool_fails:
  assumes "vm_ok s root" "alloc_table_pool n s = (None, s')"
  shows "vm_ok s' root" "view s' root = view s root" "tabs (vm_mem s') root = tabs (vm_mem s) root" "free_set (vm_pmm s') = free_set (vm_pmm s)"
    "card (free_set (vm_pmm s)) < n" "vm_flushed s' = vm_flushed s" "kernel_pml4 s' = kernel_pml4 s"
  using fill_pool_ok [OF assms(1) pool_Nil(1), of n None s'] assms(2) by (simp_all add: alloc_table_pool_def)

lemma pool_filled:
  assumes "vm_ok s root" "alloc_table_pool n s = (Some ps, s')"
  shows "vm_ok s' root" "pool_ok s' root ps" "count_if (\<lambda>t. t \<noteq> 0) ps = n" "view s' root = view s root" "tabs (vm_mem s') root = tabs (vm_mem s) root"
    "free_set (vm_pmm s') \<union> frames_of ps = free_set (vm_pmm s)" "n \<le> card (free_set (vm_pmm s))" "vm_flushed s' = vm_flushed s" "kernel_pml4 s' = kernel_pml4 s"
    "card (free_set (vm_pmm s)) \<le> card (free_set (vm_pmm s')) + n"
proof -
  note f = fill_pool_ok [OF assms(1) pool_Nil(1), of n "Some ps" s']
  show "vm_ok s' root" "pool_ok s' root ps" "count_if (\<lambda>t. t \<noteq> 0) ps = n" "view s' root = view s root" "tabs (vm_mem s') root = tabs (vm_mem s) root"
    "n \<le> card (free_set (vm_pmm s))" "vm_flushed s' = vm_flushed s" "kernel_pml4 s' = kernel_pml4 s"
    using f assms(2) count_nonzero [of ps] by (simp_all add: alloc_table_pool_def)
  have l: "length ps = n" using f assms(2) by (simp add: alloc_table_pool_def)
  show u: "free_set (vm_pmm s') \<union> frames_of ps = free_set (vm_pmm s)" using f assms(2) by (simp add: alloc_table_pool_def)
  have "card (frames_of ps) \<le> n" unfolding frames_of_def l [symmetric]
    by (rule order_trans [OF card_image_le order_trans [OF card_mono [OF _ Diff_subset] card_length]]) simp_all
  then show "card (free_set (vm_pmm s)) \<le> card (free_set (vm_pmm s')) + n"
    unfolding u [symmetric] using card_Un_le [of "free_set (vm_pmm s')" "frames_of ps"] by linarith
qed

text \<open>Two levels down, shared by both kinds of mapping.\<close>

lemma two_levels:
  assumes ok: "vm_ok s root" "pool_ok s root ps" and cnt: "2 \<le> count_if (\<lambda>t. t \<noteq> 0) ps"
    and small: "\<forall>k e. view s root (path va) = Some (k, e) \<longrightarrow> k \<le> 1" and fl: "link_flags fl"
    and g1: "get_or_create_next root (pml4_i va) fl ps s = (N1, ps1, s1)"
    and g2: "get_or_create_next N1 (pdpt_i va) fl ps1 s1 = (N2, ps2, s2)"
  shows "N1 \<noteq> 0" "descends s1 ps1 root [pml4_i va, pdpt_i va] N2 ps2 s2" "descends s ps root [pml4_i va] N1 ps1 s1"
    "count_if (\<lambda>t. t \<noteq> 0) ps \<le> count_if (\<lambda>t. t \<noteq> 0) ps2 + 2" "view s2 root = view s root" "vm_pmm s2 = vm_pmm s"
    "frames_of ps2 \<union> tframes (vm_mem s2) root = frames_of ps \<union> tframes (vm_mem s) root" "tabs (vm_mem s) root \<subseteq> tabs (vm_mem s2) root"
    "kernel_pml4 s2 = kernel_pml4 s \<and> vm_flushed s2 = vm_flushed s" "frames_of ps2 \<subseteq> frames_of ps"
proof -
  have look: "view u root (path va) = lookup (vm_mem u) root (path va)" for u by (simp add: view_def)
  have e1: "present (ent (vm_mem s) root (pml4_i va)) \<Longrightarrow> \<not> large (ent (vm_mem s) root (pml4_i va))"
    by (rule no_large_above [where P = "[]" and n = 1 and r = "[pdpt_i va, pd_i va, pt_i va]"])
      (use small look [of s] in \<open>auto simp: path_def\<close>)
  show d1: "descends s ps root [pml4_i va] N1 ps1 s1"
    using next_ok [OF ok _ _ _ _ e1 fl _ g1, of "[]"] cnt index_less(1) [of va] by simp
  then show "N1 \<noteq> 0" by (simp add: descends_def)
  have D1: "vm_ok s1 root" "pool_ok s1 root ps1" "walk (vm_mem s1) root [pml4_i va] = Some N1" "view s1 root = view s root"
    "count_if (\<lambda>t. t \<noteq> 0) ps \<le> Suc (count_if (\<lambda>t. t \<noteq> 0) ps1)" using d1 unfolding descends_def by blast+
  have e2: "present (ent (vm_mem s1) N1 (pdpt_i va)) \<Longrightarrow> \<not> large (ent (vm_mem s1) N1 (pdpt_i va))"
    by (rule no_large_above [OF D1(3), where n = 1 and r = "[pd_i va, pt_i va]"])
      (use small look [of s1] D1(4) in \<open>auto simp: path_def\<close>)
  show d2: "descends s1 ps1 root [pml4_i va, pdpt_i va] N2 ps2 s2"
    using next_ok [OF D1(1,2) _ _ D1(3) _ e2 fl _ g2] D1(5) cnt index_less(1,2) [of va] by simp
  show "count_if (\<lambda>t. t \<noteq> 0) ps \<le> count_if (\<lambda>t. t \<noteq> 0) ps2 + 2" "view s2 root = view s root" "vm_pmm s2 = vm_pmm s"
    "frames_of ps2 \<union> tframes (vm_mem s2) root = frames_of ps \<union> tframes (vm_mem s) root" "tabs (vm_mem s) root \<subseteq> tabs (vm_mem s2) root"
    "kernel_pml4 s2 = kernel_pml4 s \<and> vm_flushed s2 = vm_flushed s" "frames_of ps2 \<subseteq> frames_of ps" using d1 d2 by (auto simp: descends_def)
qed

lemma path_snoc: "vpath q \<and> length q = 4 \<and> (\<exists>r. q = [pml4_i va, pdpt_i va, pd_i va] @ pt_i va # r) \<longleftrightarrow> q = path va"
  using vpath_path [of va] by (auto simp: path_def index_less)

lemma map_page_ok:
  assumes ok: "vm_ok s root" and small: "\<And>k e. view s root (path va) = Some (k, e) \<Longrightarrow> k = 0"
    and pool: "alloc_table_pool 3 s = (Some ps, s0)" and map: "vmm_map_page_in root va pa flags s = (b, s')"
  shows "b" "vm_ok s' root" "view s' root = (view s root)(path va \<mapsto> (0, page_entry pa flags))"
    "free_set (vm_pmm s') \<union> tframes (vm_mem s') root = free_set (vm_pmm s) \<union> tframes (vm_mem s) root"
    "tabs (vm_mem s) root \<subseteq> tabs (vm_mem s') root" "vm_flushed s' = va # vm_flushed s" "kernel_pml4 s' = kernel_pml4 s"
    "card (free_set (vm_pmm s)) \<le> card (free_set (vm_pmm s')) + 3"
proof -
  let ?fl = "table_flags_from_leaf flags"
  note p = pool_filled [OF ok pool]
  have root: "root \<noteq> 0" using ok vm_treeD(1) [of "vm_mem s" root _ "[]"] by (auto simp: vm_ok_def tab_ok_def)
  obtain N1 ps1 s1 where g1: "get_or_create_next root (pml4_i va) ?fl ps s0 = (N1, ps1, s1)" by (metis prod_cases3)
  obtain N2 ps2 s2 where g2: "get_or_create_next N1 (pdpt_i va) ?fl ps1 s1 = (N2, ps2, s2)" by (metis prod_cases3)
  obtain N3 ps3 s3 where g3: "get_or_create_next N2 (pd_i va) ?fl ps2 s2 = (N3, ps3, s3)" by (metis prod_cases3)
  have sm: "\<forall>k e. view s0 root (path va) = Some (k, e) \<longrightarrow> k \<le> 1" using small p(4) by fastforce
  have c2: "2 \<le> count_if (\<lambda>t. t \<noteq> 0) ps" using p(3) by simp
  note two = two_levels [OF p(1,2) c2 sm table_flags_link g1 g2]
  have D2: "vm_ok s2 root" "pool_ok s2 root ps2" "walk (vm_mem s2) root [pml4_i va, pdpt_i va] = Some N2" "N2 \<noteq> 0"
    using two(2) unfolding descends_def by blast+
  have look: "view s2 root (path va) = lookup (vm_mem s2) root ([pml4_i va, pdpt_i va] @ pd_i va # [pt_i va])"
    using vpath_path [of va] by (simp add: view_def path_def)
  have e3: "present (ent (vm_mem s2) N2 (pd_i va)) \<Longrightarrow> \<not> large (ent (vm_mem s2) N2 (pd_i va))"
    by (rule no_large_above [OF D2(3), where n = 0 and r = "[pt_i va]"]) (use small look two(5) p(4) in auto)
  have d3: "descends s2 ps2 root ([pml4_i va, pdpt_i va] @ [pd_i va]) N3 ps3 s3"
    by (rule next_ok [OF D2(1,2) _ _ D2(3) _ e3 table_flags_link _ g3]) (use two(4) p(3) index_less in auto)
  have D3: "vm_ok s3 root" "pool_ok s3 root ps3" "walk (vm_mem s3) root [pml4_i va, pdpt_i va, pd_i va] = Some N3" "N3 \<noteq> 0" "view s3 root = view s2 root"
    "vm_pmm s3 = vm_pmm s2" "frames_of ps3 \<union> tframes (vm_mem s3) root = frames_of ps2 \<union> tframes (vm_mem s2) root" "tabs (vm_mem s2) root \<subseteq> tabs (vm_mem s3) root"
    "kernel_pml4 s3 = kernel_pml4 s2 \<and> vm_flushed s3 = vm_flushed s2"
    using d3 unfolding descends_def by auto
  note w = end_write [OF D3(1,2) _ _ D3(3) index_less(4) [of va], of "page_entry pa flags" va]
  let ?s4 = "invlpg va (upd_mem (set_ent N3 (pt_i va) (page_entry pa flags)) s3)"
  have W: "vm_ok ?s4 root" "pool_ok ?s4 root ps3" "view ?s4 root = (view s3 root)(path va \<mapsto> (0, page_entry pa flags))" "tabs (vm_mem ?s4) root = tabs (vm_mem s3) root"
    "vm_pmm ?s4 = vm_pmm s3" "vm_flushed ?s4 = va # vm_flushed s3" "kernel_pml4 ?s4 = kernel_pml4 s3"
    using w index_less page_entry_present by (auto simp only: path_snoc fun_upd_def) (auto simp: page_entry_present)
  note fr = vm_ok_free_tables [OF W(1,2)] and fo = free_tables_ok [of ?s4 ps3]
  have m: "vmm_map_page_in root va pa flags s = (True, free_tables ps3 ?s4)"
    using root pool g1 g2 g3 two(1) D2(4) D3(4) by (simp add: vmm_map_page_in_def page_entry_def free_table_pool_def)
  then have r: "b" "s' = free_tables ps3 ?s4" using map by simp_all
  have fp: "vm_flushed s' = vm_flushed ?s4" "kernel_pml4 s' = kernel_pml4 ?s4" using fo(4,5) W(1,2) r(2) by (simp_all add: vm_ok_def pool_ok_def)
  show "b" "vm_ok s' root" using r fr by simp_all
  show "view s' root = (view s root)(path va \<mapsto> (0, page_entry pa flags))" using r(2) fr(2) W(3) D3(5) two(5) p(4) by simp
  show "free_set (vm_pmm s') \<union> tframes (vm_mem s') root = free_set (vm_pmm s) \<union> tframes (vm_mem s) root"
    using r(2) fr(3,4) W(4,5) D3(6,7) two(6,7) p(5,6) by (auto simp: tframes_def)
  show "tabs (vm_mem s) root \<subseteq> tabs (vm_mem s') root" using r(2) fr(3) W(4) D3(8) two(8) p(5) by auto
  show "vm_flushed s' = va # vm_flushed s" "kernel_pml4 s' = kernel_pml4 s" using fp W(6,7) D3(9) two(9) p(8,9) by simp_all
  have "free_set (vm_pmm s0) \<subseteq> free_set (vm_pmm s')" using r(2) fr(4) W(5) D3(6) two(6) by simp
  then show "card (free_set (vm_pmm s)) \<le> card (free_set (vm_pmm s')) + 3" using p(10) card_mono [OF free_set_finite] by (meson add_le_mono1 order_trans)
qed

lemma map_2m_ok:
  assumes ok: "vm_ok s root" and small: "\<forall>k e. view s root (path va) = Some (k, e) \<longrightarrow> k \<le> 1"
    and pool: "alloc_table_pool 2 s = (Some ps, s0)" and map: "vmm_map_2m_in root va pa flags s = (b, s')"
  shows "b" "vm_ok s' root"
    "view s' root = (\<lambda>q. if vpath q \<and> length q = 4 \<and> take 3 q = take 3 (path va) then Some (1, large_entry pa flags) else view s root q)"
    "free_set (vm_pmm s') \<subseteq> free_set (vm_pmm s)" "card (free_set (vm_pmm s)) \<le> card (free_set (vm_pmm s')) + 2"
    "vm_flushed s' = va # vm_flushed s" "kernel_pml4 s' = kernel_pml4 s"
proof -
  let ?fl = "table_flags_from_leaf flags"
  note p = pool_filled [OF ok pool]
  have root: "root \<noteq> 0" using ok vm_treeD(1) [of "vm_mem s" root _ "[]"] by (auto simp: vm_ok_def tab_ok_def)
  obtain N1 ps1 s1 where g1: "get_or_create_next root (pml4_i va) ?fl ps s0 = (N1, ps1, s1)" by (metis prod_cases3)
  obtain N2 ps2 s2 where g2: "get_or_create_next N1 (pdpt_i va) ?fl ps1 s1 = (N2, ps2, s2)" by (metis prod_cases3)
  have sm: "\<forall>k e. view s0 root (path va) = Some (k, e) \<longrightarrow> k \<le> 1" using small p(4) by simp
  have c2: "2 \<le> count_if (\<lambda>t. t \<noteq> 0) ps" using p(3) by simp
  note two = two_levels [OF p(1,2) c2 sm table_flags_link g1 g2]
  have D2: "vm_ok s2 root" "pool_ok s2 root ps2" "walk (vm_mem s2) root [pml4_i va, pdpt_i va] = Some N2" "N2 \<noteq> 0"
    using two(2) unfolding descends_def by blast+
  let ?v = "large_entry pa flags"
  note w = end_write [OF D2(1,2) _ _ D2(3) index_less(3) [of va], of ?v va]
  let ?s4 = "invlpg va (upd_mem (set_ent N2 (pd_i va) ?v) s2)"
  have ex: "vpath q \<and> length q = 4 \<and> (\<exists>r. q = [pml4_i va, pdpt_i va] @ pd_i va # r) \<longleftrightarrow> vpath q \<and> length q = 4 \<and> take 3 q = take 3 (path va)" for q
    by (auto simp: path_def numeral_3_eq_3 length_Suc_conv eval_nat_numeral)
  have W: "vm_ok ?s4 root" "pool_ok ?s4 root ps2" "vm_pmm ?s4 = vm_pmm s2" "vm_flushed ?s4 = va # vm_flushed s2" "kernel_pml4 ?s4 = kernel_pml4 s2"
    using w index_less large_entry_bits [of pa flags] by auto
  have V: "view ?s4 root = (\<lambda>q. if vpath q \<and> length q = 4 \<and> take 3 q = take 3 (path va) then Some (1, ?v) else view s2 root q)"
    using w(3) [unfolded ex] index_less large_entry_bits [of pa flags] by auto
  note fr = vm_ok_free_tables [OF W(1,2)] and fo = free_tables_ok [of ?s4 ps2]
  have m: "vmm_map_2m_in root va pa flags s = (True, free_tables ps2 ?s4)"
    using root pool g1 g2 two(1) D2(4) by (simp add: vmm_map_2m_in_def large_entry_def free_table_pool_def)
  then have r: "b" "s' = free_tables ps2 ?s4" using map by simp_all
  have fp: "vm_flushed s' = vm_flushed ?s4" "kernel_pml4 s' = kernel_pml4 ?s4" using fo(4,5) W(1,2) r(2) by (simp_all add: vm_ok_def pool_ok_def)
  show "b" "vm_ok s' root" using r fr by simp_all
  show "view s' root = (\<lambda>q. if vpath q \<and> length q = 4 \<and> take 3 q = take 3 (path va) then Some (1, ?v) else view s root q)"
    unfolding r(2) fr(2) V two(5) p(4) ..
  show "free_set (vm_pmm s') \<subseteq> free_set (vm_pmm s)" using r(2) fr(4) W(3) two(6,10) p(6) by auto
  have "free_set (vm_pmm s0) \<subseteq> free_set (vm_pmm s')" using r(2) fr(4) W(3) two(6) by simp
  then show "card (free_set (vm_pmm s)) \<le> card (free_set (vm_pmm s')) + 2" using p(10) card_mono [OF free_set_finite] by (meson add_le_mono1 order_trans)
  show "vm_flushed s' = va # vm_flushed s" "kernel_pml4 s' = kernel_pml4 s" using fp W(4,5) two(9) p(8,9) by simp_all
qed

section \<open>Unmapping\<close>

lemma table_empty_blank: "table_empty m a \<longleftrightarrow> blank m a"
proof -
  have "blank m a" if h: "\<forall>i<512. \<not> present (ent m a (of_nat i))"
    unfolding blank_def
  proof (intro allI impI)
    fix j :: u64 assume "unat j < 512"
    moreover have "of_nat (unat j) = j" by simp
    ultimately show "\<not> present (ent m a j)" using h by metis
  qed
  moreover have "unat (of_nat i :: u64) < 512" if "i < 512" for i using that by (simp add: unat_of_nat64)
  ultimately show ?thesis by (auto simp: table_empty_def list_all_iff blank_def)
qed

text \<open>A table without entries is taken out of the tree.\<close>

lemma drop_blank:
  assumes tree: "vm_tree m root free" and T: "vpath P" "length P \<le> 2" "walk m root P = Some T" "unat i < 512"
    and N: "walk m root (P @ [i]) = Some N" "blank m N"
  shows "vm_tree (set_ent T i 0 m) root free" "tabs (set_ent T i 0 m) root = tabs m root - {N}"
    "vpath q \<Longrightarrow> length q = 4 \<Longrightarrow> lookup (set_ent T i 0 m) root q = lookup m root q"
    "vpath q \<Longrightarrow> length q \<le> length P \<Longrightarrow> walk (set_ent T i 0 m) root q = walk m root q"
proof -
  have T3: "length P \<le> 3" and v: "length P = 3 \<or> \<not> present (0 :: u64) \<or> large (0 :: u64)" using T(2) by simp_all
  note w = write_end [OF tree T(1) T3 T(3,4) v]
  show "vm_tree (set_ent T i 0 m) root free" by (rule w(1))
  have wx: "walk m root (P @ i # r) = (if r = [] then Some N else None)" if "vpath r" for r
    using blank_walk [OF N(2) that] table_walk_append [of m root "P @ [i]" r] N(1) by simp
  have D: "{a. \<exists>r. vpath r \<and> length P + length r \<le> 2 \<and> walk m root (P @ i # r) = Some a} = {N}"
    using wx T(2) by (auto intro: exI [of _ "[]"] split: if_splits)
  show "tabs (set_ent T i 0 m) root = tabs m root - {N}" using w(2) D by simp
  show "lookup (set_ent T i 0 m) root q = lookup m root q" if q: "vpath q" "length q = 4"
  proof (cases "\<exists>r. q = P @ i # r")
    case True
    then obtain r where r: "q = (P @ [i]) @ r" by auto
    then have "r \<noteq> []" using q(2) T(2) by auto
    then have "lookup m root q = None" using table_lookup_append [OF N(1)] blank_lookup [OF N(2)] q(1) r by simp
    then show ?thesis using w(4) [OF q] True by simp
  next
    case False
    then show ?thesis using w(4) [OF q] by simp
  qed
  show "walk (set_ent T i 0 m) root q = walk m root q" if q: "vpath q" "length q \<le> length P"
    using w(3) [OF q(1)] q(2) T(2) by auto
qed

lemma free_page_any:
  assumes "pmm_inv p" "tab_ok a" "unat a div 4096 \<notin> free_set p"
  shows "pmm_inv (pmm_free_page a p)" "free_set (pmm_free_page a p) = free_set p \<union> ({unat a div 4096} \<inter> {..<unat (frame_limit p)})"
    "frame_limit (pmm_free_page a p) = frame_limit p"
proof -
  have wf: "pmm_wf p" "0 \<notin> free_set p" using assms(1) by (simp_all add: pmm_inv_def)
  have u: "unat a = unat a div 4096 * 4096" "0 < unat a div 4096"
    using assms(2) unat_eq_zero [of a] by (auto simp: tab_ok_def div_greater_zero_iff dvd_imp_le)
  have "pmm_inv (pmm_free_page a p) \<and> free_set (pmm_free_page a p) = free_set p \<union> ({unat a div 4096} \<inter> {..<unat (frame_limit p)}) \<and>
    frame_limit (pmm_free_page a p) = frame_limit p"
  proof (cases "unat a div 4096 < unat (frame_limit p)")
    case True
    then show ?thesis using pmm_free_page_ok [OF wf(1) u True assms(3)] wf(2) u(2) by (auto simp: pmm_inv_def)
  next
    case False
    then show ?thesis using pmm_free_page_noop [OF wf(1)] assms(1) by auto
  qed
  then show "pmm_inv (pmm_free_page a p)" "free_set (pmm_free_page a p) = free_set p \<union> ({unat a div 4096} \<inter> {..<unat (frame_limit p)})"
    "frame_limit (pmm_free_page a p) = frame_limit p" by blast+
qed

lemma free_pages_any:
  assumes "pmm_inv (vm_pmm s)" "\<forall>a\<in>set as. tab_ok a \<and> unat a div 4096 \<notin> free_set (vm_pmm s)" "distinct as"
  shows "pmm_inv (vm_pmm (fold (\<lambda>a. upd_pmm (pmm_free_page a)) as s)) \<and>
    free_set (vm_pmm (fold (\<lambda>a. upd_pmm (pmm_free_page a)) as s)) = free_set (vm_pmm s) \<union> ((\<lambda>a. unat a div 4096) ` set as \<inter> {..<unat (frame_limit (vm_pmm s))}) \<and>
    vm_mem (fold (\<lambda>a. upd_pmm (pmm_free_page a)) as s) = vm_mem s \<and> vm_flushed (fold (\<lambda>a. upd_pmm (pmm_free_page a)) as s) = vm_flushed s \<and>
    kernel_pml4 (fold (\<lambda>a. upd_pmm (pmm_free_page a)) as s) = kernel_pml4 s"
  using assms
proof (induction as arbitrary: s)
  case Nil
  then show ?case by simp
next
  case (Cons a as)
  let ?s = "s\<lparr>vm_pmm := pmm_free_page a (vm_pmm s)\<rparr>"
  note f = free_page_any [OF Cons.prems(1), of a]
  have a: "tab_ok a" "unat a div 4096 \<notin> free_set (vm_pmm s)" using Cons.prems(2) by simp_all
  have "unat b div 4096 \<noteq> unat a div 4096" if "b \<in> set as" for b
    using frame_inj [of b a] Cons.prems(2,3) that by (auto simp: tab_ok_def)
  then have "\<forall>b\<in>set as. tab_ok b \<and> unat b div 4096 \<notin> free_set (vm_pmm ?s)" using Cons.prems(2) f(2) [OF a] by auto
  then show ?case using Cons.IH [of ?s] f [OF a] Cons.prems(3) by auto
qed

text \<open>
  The memory after unmapping and the tables taken out: the page is no longer translated, everything else
  is as before, and exactly the tables to free have left the tree.
\<close>

definition unmapped :: "phys_mem \<Rightarrow> u64 \<Rightarrow> nat set \<Rightarrow> u64 \<Rightarrow> u64 list \<Rightarrow> phys_mem \<Rightarrow> bool" where
  "unmapped m root free va as m' \<longleftrightarrow> vm_tree m' root free \<and> distinct as \<and> set as \<subseteq> tabs m root \<and> tabs m' root = tabs m root - set as \<and>
     (\<forall>q. vpath q \<longrightarrow> length q = 4 \<longrightarrow> lookup m' root q = (if q = path va then None else lookup m root q))"

lemma unmapped_drop:
  assumes "unmapped m root free va as m1" "vpath P" "length P \<le> 2" "walk m1 root P = Some T" "unat i < 512"
    "walk m1 root (P @ [i]) = Some N" "blank m1 N"
  shows "unmapped m root free va (as @ [N]) (set_ent T i 0 m1)"
proof -
  have tree: "vm_tree m1 root free" using assms(1) by (simp add: unmapped_def)
  note d = drop_blank [OF tree assms(2-7)]
  have "N \<in> tabs m1 root" using tabsI [OF _ _ assms(6)] assms(2,3,5) by simp
  then show ?thesis using assms(1) d(1-3) by (auto simp: unmapped_def)
qed

lemma walk_tables:
  assumes "walk m root [pml4_i va, pdpt_i va, pd_i va] = Some pt"
  obtains pdpt pd where "walk m root [pml4_i va] = Some pdpt" "walk m root [pml4_i va, pdpt_i va] = Some pd"
    "present (ent m root (pml4_i va))" "pdpt = entry_addr (ent m root (pml4_i va))"
    "present (ent m pdpt (pdpt_i va))" "pd = entry_addr (ent m pdpt (pdpt_i va))"
    "present (ent m pd (pd_i va))" "\<not> large (ent m pd (pd_i va))" "pt = entry_addr (ent m pd (pd_i va))"
  using assms by (auto simp: Let_def split: if_splits)

lemma unlink_empty_ok:
  assumes tree: "vm_tree m root free" and pt: "walk m root [pml4_i va, pdpt_i va, pd_i va] = Some pt"
    and u: "unlink_empty root va m = (as, m')"
  shows "unmapped m root free va as m'"
proof -
  obtain pdpt pd where w: "walk m root [pml4_i va] = Some pdpt" "walk m root [pml4_i va, pdpt_i va] = Some pd"
    and e: "pdpt = entry_addr (ent m root (pml4_i va))" "pd = entry_addr (ent m pdpt (pdpt_i va))" "pt = entry_addr (ent m pd (pd_i va))"
    using walk_tables [OF pt] by blast
  note il = index_less [of va]
  have v: "vpath [pml4_i va, pdpt_i va, pd_i va]" "vpath [pml4_i va, pdpt_i va]" "vpath [pml4_i va]" using il by simp_all
  define m0 where "m0 = set_ent pt (pt_i va) 0 m"
  define m1 where "m1 = set_ent pd (pd_i va) 0 m0"
  define m2 where "m2 = set_ent pdpt (pdpt_i va) 0 m1"
  have res: "(as, m') = (if \<not> blank m0 pt then ([], m0) else if \<not> blank m1 pd then ([pt], m1) else if \<not> blank m2 pdpt then ([pt, pd], m2)
      else ([pt, pd, pdpt], set_ent root (pml4_i va) 0 m2))"
    using u [symmetric] e by (simp add: unlink_empty_def Let_def phys_to_ptr_def table_empty_blank m0_def m1_def m2_def)
  note w0 = write_end [OF tree v(1) _ pt il(4), of 0, folded m0_def]
  have U0: "unmapped m root free va [] m0"
    using w0(1,2,4) by (auto simp: unmapped_def path_def)
  have k0: "walk m0 root q = walk m root q" if "vpath q" "length q \<le> 3" for q using w0(3) [OF _ _ that] that by auto
  have t0: "vm_tree m0 root free" using U0 by (simp add: unmapped_def)
  have p0: "walk m0 root [pml4_i va, pdpt_i va] = Some pd" "walk m0 root ([pml4_i va, pdpt_i va] @ [pd_i va]) = Some pt"
    using k0 [OF v(2)] k0 [OF v(1)] w pt by simp_all
  show ?thesis
  proof (cases "blank m0 pt")
    case False
    then show ?thesis using res U0 by simp
  next
    case True
    have U1: "unmapped m root free va [pt] m1"
      using unmapped_drop [OF U0 v(2) _ p0(1) il(3) p0(2) True] by (simp add: m1_def)
    have k1: "walk m1 root q = walk m root q" if "vpath q" "length q \<le> 2" for q
      using drop_blank(4) [OF t0 v(2) _ p0(1) il(3) p0(2) True that(1)] k0 [OF that(1)] that(2) by (simp add: m1_def)
    have t1: "vm_tree m1 root free" using U1 by (simp add: unmapped_def)
    have p1: "walk m1 root [pml4_i va] = Some pdpt" "walk m1 root ([pml4_i va] @ [pdpt_i va]) = Some pd"
      using k1 [OF v(3)] k1 [OF v(2)] w by simp_all
    show ?thesis
    proof (cases "blank m1 pd")
      case False
      then show ?thesis using res True U1 by simp
    next
      case b1: True
      have U2: "unmapped m root free va [pt, pd] m2"
        using unmapped_drop [OF U1 v(3) _ p1(1) il(2) p1(2) b1] by (simp add: m2_def)
      have k2: "walk m2 root q = walk m root q" if "vpath q" "length q \<le> 1" for q
        using drop_blank(4) [OF t1 v(3) _ p1(1) il(2) p1(2) b1 that(1)] k1 [OF that(1)] that(2) by (simp add: m2_def)
      have p2: "walk m2 root [] = Some root" "walk m2 root ([] @ [pml4_i va]) = Some pdpt" using k2 [OF v(3)] w(1) by simp_all
      show ?thesis
      proof (cases "blank m2 pdpt")
        case False
        then show ?thesis using res True b1 U2 by simp
      next
        case b2: True
        have "unmapped m root free va [pt, pd, pdpt] (set_ent root (pml4_i va) 0 m2)"
          using unmapped_drop [OF U2 _ _ p2(1) il(1) p2(2) b2] by simp
        then show ?thesis using res True b1 b2 by simp
      qed
    qed
  qed
qed

lemma unmap_page_ok:
  assumes ok: "vm_ok s root" and pt: "walk (vm_mem s) root [pml4_i va, pdpt_i va, pd_i va] = Some pt"
    and un: "vmm_unmap_page_in root va s = (b, s')"
  shows "b" "vm_ok s' root" "view s' root = (view s root)(path va := None)"
    "free_set (vm_pmm s') = free_set (vm_pmm s) \<union> ((tframes (vm_mem s) root - tframes (vm_mem s') root) \<inter> {..<unat (frame_limit (vm_pmm s))})"
    "tabs (vm_mem s') root \<subseteq> tabs (vm_mem s) root" "vm_flushed s' = va # vm_flushed s"
proof -
  let ?m = "vm_mem s" and ?F = "free_set (vm_pmm s)"
  have tree: "vm_tree ?m root ?F" and inv: "pmm_inv (vm_pmm s)" using ok by (simp_all add: vm_ok_def)
  have root: "root \<noteq> 0" using vm_treeD(1) [OF tree, of "[]"] by (simp add: tab_ok_def)
  obtain as m' where u: "unlink_empty root va ?m = (as, m')" by (metis prod.exhaust)
  note U = unlink_empty_ok [OF tree pt u, unfolded unmapped_def]
  let ?s = "invlpg va (s\<lparr>vm_mem := m'\<rparr>)"
  have r: "b" "s' = fold (\<lambda>a. upd_pmm (pmm_free_page a)) as ?s"
  proof -
    obtain pdpt pd where e: "present (ent ?m root (pml4_i va))" "entry_addr (ent ?m root (pml4_i va)) = pdpt" "present (ent ?m pdpt (pdpt_i va))"
      "entry_addr (ent ?m pdpt (pdpt_i va)) = pd" "present (ent ?m pd (pd_i va))" "\<not> large (ent ?m pd (pd_i va))"
      using walk_tables [OF pt] by metis
    have "vmm_unmap_page_in root va s = (True, fold (\<lambda>a. upd_pmm (pmm_free_page a)) as ?s)"
      using root e by (simp add: vmm_unmap_page_in_def phys_to_ptr_def u)
    then show "b" "s' = fold (\<lambda>a. upd_pmm (pmm_free_page a)) as ?s" using un by simp_all
  qed
  have tabs: "tab_ok a \<and> unat a div 4096 \<notin> ?F" if "a \<in> tabs ?m root" for a using tabs_ok [OF tree that] .
  have "\<forall>a\<in>set as. tab_ok a \<and> unat a div 4096 \<notin> free_set (vm_pmm ?s)" using U tabs by (auto simp: invlpg_def)
  note fp = free_pages_any [of ?s as, OF _ this, folded r(2)]
  have P: "pmm_inv (vm_pmm s')" "free_set (vm_pmm s') = ?F \<union> ((\<lambda>a. unat a div 4096) ` set as \<inter> {..<unat (frame_limit (vm_pmm s))})" "vm_mem s' = m'"
    "vm_flushed s' = va # vm_flushed s" using fp U inv by (simp_all add: invlpg_def)
  have inj: "unat a div 4096 \<noteq> unat c div 4096" if "a \<in> tabs ?m root" "c \<in> tabs ?m root" "a \<noteq> c" for a c
    using frame_inj [of a c] tabs [OF that(1)] tabs [OF that(2)] that(3) by (auto simp: tab_ok_def)
  have tf: "tframes ?m root - tframes m' root = (\<lambda>a. unat a div 4096) ` set as"
  proof -
    have "inj_on (\<lambda>a. unat a div 4096) (tabs ?m root)" using inj by (auto simp: inj_on_def)
    then have "tframes m' root = tframes ?m root - (\<lambda>a. unat a div 4096) ` set as"
      unfolding tframes_def using U inj_on_image_set_diff [of "\<lambda>a. unat a div 4096" "tabs ?m root" "tabs ?m root" "set as"] by auto
    moreover have "(\<lambda>a. unat a div 4096) ` set as \<subseteq> tframes ?m root" using U by (auto simp: tframes_def)
    ultimately show ?thesis by blast
  qed
  have "vm_tree m' root (free_set (vm_pmm s'))"
  proof (rule vm_tree_free [of m' root ?F])
    show "vm_tree m' root ?F" using U by simp
    fix a assume a: "a \<in> tabs m' root"
    then have "unat a div 4096 \<in> tframes m' root" by (simp add: tframes_def)
    then have "unat a div 4096 \<notin> (\<lambda>a. unat a div 4096) ` set as" unfolding tf [symmetric] by blast
    moreover have "a \<in> tabs ?m root" using a U by auto
    ultimately show "unat a div 4096 \<notin> free_set (vm_pmm s')" unfolding P(2) using tabs by blast
  qed
  then show "vm_ok s' root" using P by (simp add: vm_ok_def)
  show "b" by (rule r(1))
  show "view s' root = (view s root)(path va := None)" using U P(3) by (intro ext) (simp add: view_def)
  show "free_set (vm_pmm s') = ?F \<union> ((tframes ?m root - tframes (vm_mem s') root) \<inter> {..<unat (frame_limit (vm_pmm s))})" using P(2,3) tf by simp
  show "tabs (vm_mem s') root \<subseteq> tabs ?m root" "vm_flushed s' = va # vm_flushed s" using U P(3,4) by auto
qed

section \<open>Properties\<close>

text \<open>The address that an address is translated to, by a page or a large page.\<close>

definition translate :: "vmm_state \<Rightarrow> u64 \<Rightarrow> u64 \<Rightarrow> u64 option" where
  "translate s root va =
     (case view s root (path va) of
        None \<Rightarrow> None
      | Some (k, e) \<Rightarrow>
          if k = 0 then Some (entry_addr e OR (va AND 0xFFF))
          else if k = 1 then Some ((e AND NOT 0x1FFFFF) OR (va AND 0x1FFFFF))
          else Some ((e AND NOT 0x3FFFFFFF) OR (va AND 0x3FFFFFFF)))"

lemma page_entry_addr: "entry_addr (page_entry pa flags) = entry_addr pa"
proof (rule bit_word_eqI)
  fix n assume "n < LENGTH(64)"
  have "bit (0xFFF :: u64) n \<longleftrightarrow> n < 12" unfolding low_mask by (auto simp: bit_mask_iff dest: bit_imp_le_length)
  moreover have "bit (pa AND NOT 0xFFF) n = (bit pa n \<and> 12 \<le> n)" using entry_addr_bit [of pa n] by (simp add: entry_addr_def)
  ultimately show "bit (entry_addr (page_entry pa flags)) n = bit (entry_addr pa) n"
    unfolding entry_addr_bit page_entry_def bit_or_iff bit_and_iff [of flags] flag_bits by auto
qed

text \<open>
  C7: mapping a page updates the address space at that page. On a well-formed tree of tables in which no
  large page covers the address, \<^verbatim>\<open>vmm_map_page_in\<close> succeeds exactly when three pages are free. Then the page
  is translated by the new entry, every other address is translated as before, the new tables come from
  the free pages and no page is lost: each is still free or a table. On failure nothing has changed. The
  tree is well formed again in either case.
\<close>
theorem vmm_map_page_correct:
  assumes "vm_ok s root" "\<forall>k e. view s root (path va) = Some (k, e) \<longrightarrow> k = 0" "vmm_map_page_in root va pa flags s = (b, s')"
  shows "vm_ok s' root \<and> free_set (vm_pmm s') \<union> tframes (vm_mem s') root = free_set (vm_pmm s) \<union> tframes (vm_mem s) root \<and>
    (if 3 \<le> card (free_set (vm_pmm s))
     then b \<and> view s' root = (view s root)(path va \<mapsto> (0, page_entry pa flags)) \<and> translate s' root va = Some (entry_addr pa OR (va AND 0xFFF)) \<and>
       tabs (vm_mem s) root \<subseteq> tabs (vm_mem s') root \<and> vm_flushed s' = va # vm_flushed s
     else \<not> b \<and> view s' root = view s root \<and> free_set (vm_pmm s') = free_set (vm_pmm s) \<and> vm_flushed s' = vm_flushed s)"
proof -
  have root: "root \<noteq> 0" using assms(1) vm_treeD(1) [of "vm_mem s" root _ "[]"] by (auto simp: vm_ok_def tab_ok_def)
  obtain res s0 where pool: "alloc_table_pool 3 s = (res, s0)" by (metis prod.exhaust)
  show ?thesis
  proof (cases res)
    case None
    then have "b = False" "s' = s0" using assms(3) root pool by (simp_all add: vmm_map_page_in_def)
    then show ?thesis using pool_fails [OF assms(1) pool [unfolded None]] by (simp add: tframes_def)
  next
    case (Some ps)
    note m = map_page_ok [OF assms(1) _ pool [unfolded Some] assms(3)]
    have "translate s' root va = Some (entry_addr pa OR (va AND 0xFFF))" using m(3) assms(2) page_entry_addr by (simp add: translate_def)
    moreover have "3 \<le> card (free_set (vm_pmm s))" using pool_filled(7) [OF assms(1)] pool Some by simp
    ultimately show ?thesis using m assms(2) by simp
  qed
qed


text \<open>
  mapping a large page. On a well-formed tree in which no page of 1 GiB covers the address and with two free
  pages, \<^verbatim>\<open>vmm_map_2m_in\<close> translates the whole 2 MiB around the address by the new entry and nothing else
  differently. A page table that was linked there leaves the tree but does not become free.
\<close>
theorem vmm_map_2m_correct:
  assumes "vm_ok s root" "\<forall>k e. view s root (path va) = Some (k, e) \<longrightarrow> k \<le> 1" "2 \<le> card (free_set (vm_pmm s))"
    "vmm_map_2m_in root va pa flags s = (b, s')"
  shows "b \<and> vm_ok s' root \<and>
    view s' root = (\<lambda>q. if vpath q \<and> length q = 4 \<and> take 3 q = take 3 (path va) then Some (1, large_entry pa flags) else view s root q) \<and>
    (\<forall>pt. walk (vm_mem s) root (take 3 (path va)) = Some pt \<longrightarrow>
       walk (vm_mem s') root (take 3 (path va)) = None \<and> unat pt div 4096 \<notin> free_set (vm_pmm s'))"
proof -
  obtain res s0 where pool: "alloc_table_pool 2 s = (res, s0)" by (metis prod.exhaust)
  obtain ps where ps: "res = Some ps" using pool_fails(5) [OF assms(1), of 2 s0] pool assms(3) by (cases res) auto
  note m = map_2m_ok [OF assms(1,2) pool [unfolded ps] assms(4)]
  have "walk (vm_mem s') root (take 3 (path va)) = None"
  proof (rule ccontr)
    assume "walk (vm_mem s') root (take 3 (path va)) \<noteq> None"
    then obtain a where a: "walk (vm_mem s') root (take 3 (path va)) = Some a" by auto
    have pv: "path va = take 3 (path va) @ [pt_i va]" by (simp add: path_def)
    have "lookup (vm_mem s') root (path va) = Some (1, large_entry pa flags)"
      using fun_cong [OF m(3), of "path va"] by (simp add: view_def)
    moreover have "lookup (vm_mem s') root (path va) = lookup (vm_mem s') a [pt_i va]" using table_lookup_append [OF a, of "[pt_i va]"] pv by simp
    ultimately show False by (simp add: Let_def split: if_splits)
  qed
  moreover have "unat pt div 4096 \<notin> free_set (vm_pmm s')" if "walk (vm_mem s) root (take 3 (path va)) = Some pt" for pt
  proof -
    have "vpath (take 3 (path va))" "length (take 3 (path va)) \<le> 3" by (simp_all add: path_def index_less)
    then have "unat pt div 4096 \<notin> free_set (vm_pmm s)" using vm_treeD(2) that assms(1) by (metis vm_ok_def)
    then show ?thesis using m(4) by blast
  qed
  ultimately show ?thesis using m(1-3) by blast
qed

lemma entry_addr_aligned: "unat (entry_addr e) mod 4096 = 0"
proof -
  have "take_bit 12 (entry_addr e) = 0" by (rule bit_word_eqI) (simp add: bit_take_bit_iff entry_addr_bit)
  then have "unat (entry_addr e mod 4096) = 0" by (simp add: take_bit_eq_mod)
  then show ?thesis by (simp add: unat_mod)
qed

text \<open>
  mapping a page inside a large page overwrites the large page. When a large page of 2 MiB covers the address,
  \<^verbatim>\<open>vmm_map_page_in\<close> follows its entry as if it led to a page table: it reports success and stores the new
  entry into the memory that the large page maps.
\<close>
theorem map_page_into_large_page:
  assumes "vm_ok s root" "view s root (path va) = Some (1, e)" "entry_addr e \<noteq> 0" "3 \<le> card (free_set (vm_pmm s))"
    "vmm_map_page_in root va pa flags s = (b, s')"
  shows "b \<and> ld64 (vm_mem s') (entry_addr e + 8 * pt_i va) = page_entry pa flags"
proof -
  let ?fl = "table_flags_from_leaf flags"
  obtain res s0 where pool0: "alloc_table_pool 3 s = (res, s0)" by (metis prod.exhaust)
  then obtain ps where pool: "alloc_table_pool 3 s = (Some ps, s0)" using pool_fails(5) [OF assms(1), of 3 s0] assms(4) by (cases res) auto
  note p = pool_filled [OF assms(1) pool]
  have root: "root \<noteq> 0" using assms(1) vm_treeD(1) [of "vm_mem s" root _ "[]"] by (auto simp: vm_ok_def tab_ok_def)
  obtain N1 ps1 s1 where g1: "get_or_create_next root (pml4_i va) ?fl ps s0 = (N1, ps1, s1)" by (metis prod_cases3)
  obtain N2 ps2 s2 where g2: "get_or_create_next N1 (pdpt_i va) ?fl ps1 s1 = (N2, ps2, s2)" by (metis prod_cases3)
  obtain N3 ps3 s3 where g3: "get_or_create_next N2 (pd_i va) ?fl ps2 s2 = (N3, ps3, s3)" by (metis prod_cases3)
  have sm: "\<forall>k e. view s0 root (path va) = Some (k, e) \<longrightarrow> k \<le> 1" "2 \<le> count_if (\<lambda>t. t \<noteq> 0) ps" using assms(2) p(3,4) by simp_all
  note two = two_levels [OF p(1,2) sm(2,1) table_flags_link g1 g2]
  have D2: "walk (vm_mem s2) root [pml4_i va, pdpt_i va] = Some N2" "N2 \<noteq> 0" "vm_ok s2 root" "pool_ok s2 root ps2"
    using two(2) unfolding descends_def by blast+
  have "view s2 root (path va) = Some (1, e)" using assms(2) two(5) p(4) by simp
  then have "lookup (vm_mem s2) root ([pml4_i va, pdpt_i va] @ [pd_i va, pt_i va]) = Some (1, e)" by (simp add: view_def path_def index_less)
  then have "lookup (vm_mem s2) N2 [pd_i va, pt_i va] = Some (1, e)" using table_lookup_append [OF D2(1), of "[pd_i va, pt_i va]"] by (simp del: lookup.simps)
  then have "ent (vm_mem s2) N2 (pd_i va) = e" "present e" by (auto simp: Let_def split: if_splits)
  then have n3: "N3 = entry_addr e" "ps3 = ps2" "vm_pmm s3 = vm_pmm s2" using g3 by (auto simp: get_or_create_next_def Let_def phys_to_ptr_def split: if_splits)
  let ?s4 = "invlpg va (upd_mem (set_ent N3 (pt_i va) (page_entry pa flags)) s3)"
  have m: "vmm_map_page_in root va pa flags s = (True, free_tables ps3 ?s4)"
    using root pool g1 g2 g3 two(1) D2(2) n3(1) assms(3) by (simp add: vmm_map_page_in_def page_entry_def free_table_pool_def)
  have "vm_mem (free_tables ps3 ?s4) = vm_mem ?s4"
    by (rule free_tables_ok(3)) (use D2(3,4) n3(2,3) in \<open>simp_all add: vm_ok_def pool_ok_def invlpg_def\<close>)
  moreover have "tab_ok N3" using n3(1) entry_addr_aligned assms(3) by (simp add: tab_ok_def)
  then have "ent (set_ent N3 (pt_i va) (page_entry pa flags) (vm_mem s3)) N3 (pt_i va) = page_entry pa flags"
    using ent_set_ent [of N3 N3 "pt_i va" "pt_i va"] index_less(4) [of va] by simp
  ultimately show ?thesis using m assms(5) n3(1) by (simp add: ent_def invlpg_def)
qed

section \<open>Start of the memory managers\<close>

definition mm_init :: "kernel_image \<Rightarrow> boot_mem \<Rightarrow> u64 \<Rightarrow> u64 \<Rightarrow> vmm_state \<Rightarrow> vmm_state" where
  "mm_init img mem cr3 mb2_info_ptr s = vmm_init cr3 (s\<lparr>vm_pmm := pmm_init_from_multiboot2 img mem mb2_info_ptr (vm_pmm s)\<rparr>)"

section \<open>A run\<close>

definition demo_vm :: vmm_state where
  "demo_vm = \<lparr>kernel_pml4 = 0x1000, vm_mem = (\<lambda>a. 0), vm_pmm = demo_pmm, vm_flushed = []\<rparr>"

lemma demo_vm_ent: "ent (\<lambda>a. 0) t i = 0"
  by (simp add: ent_def ld64_def ld32_def)

lemma demo_vm_ok: "vm_ok demo_vm 0x1000" "view demo_vm 0x1000 q = None" "card (free_set (vm_pmm demo_vm)) = 1535"
proof -
  have b: "blank (\<lambda>a. 0) 0x1000" by (simp add: blank_def demo_vm_ent)
  show "view demo_vm 0x1000 q = None" using blank_lookup [OF b] by (simp add: view_def demo_vm_def)
  show "card (free_set (vm_pmm demo_vm)) = 1535" by (simp add: demo_vm_def demo_pmm_free)
  have "1 \<notin> free_set demo_pmm" by (simp add: demo_pmm_free)
  then have "vm_tree (\<lambda>a. 0) 0x1000 (free_set demo_pmm)"
    using blank_walk [OF b] by (auto simp: vm_tree_def tab_ok_def split: if_splits)
  then show "vm_ok demo_vm 0x1000" by (simp add: vm_ok_def demo_vm_def demo_pmm_inv)
qed

theorem vmm_map_page_correct_witness:
  "\<exists>s. vmm_map_page_in 0x1000 0x40201000 0xABCDE000 3 demo_vm = (True, s) \<and> vm_ok s 0x1000 \<and> translate s 0x1000 0x40201000 = Some 0xABCDE000"
proof -
  obtain b s where m: "vmm_map_page_in 0x1000 0x40201000 0xABCDE000 3 demo_vm = (b, s)" by (metis prod.exhaust)
  have "entry_addr 0xABCDE000 OR (0x40201000 AND 0xFFF) = 0xABCDE000" by (simp add: entry_addr_def)
  then show ?thesis using vmm_map_page_correct [OF demo_vm_ok(1) _ m] demo_vm_ok(2,3) m by simp
qed

definition demo_mapped :: vmm_state where
  "demo_mapped = snd (vmm_map_page_in 0x1000 0x40201000 0xABCDE000 3 demo_vm)"

definition demo_large :: vmm_state where
  "demo_large = snd (vmm_map_2m_in 0x1000 0x40201000 0x80000000 3 demo_vm)"

lemma demo_pool: "n \<le> 3 \<Longrightarrow> \<exists>ps s. alloc_table_pool n demo_vm = (Some ps, s)"
  using pool_fails(5) [OF demo_vm_ok(1), of n] demo_vm_ok(3) by (cases "fst (alloc_table_pool n demo_vm)") (auto simp: prod_eq_iff intro: prod.collapse)

lemma demo_mapped: "vm_ok demo_mapped 0x1000" "view demo_mapped 0x1000 = (view demo_vm 0x1000)(path 0x40201000 \<mapsto> (0, page_entry 0xABCDE000 3))"
  "2 \<le> card (free_set (vm_pmm demo_mapped))"
proof -
  obtain ps s where p: "alloc_table_pool 3 demo_vm = (Some ps, s)" using demo_pool [of 3] by auto
  have m: "vmm_map_page_in 0x1000 0x40201000 0xABCDE000 3 demo_vm = (fst (vmm_map_page_in 0x1000 0x40201000 0xABCDE000 3 demo_vm), demo_mapped)"
    by (simp add: demo_mapped_def)
  note k = map_page_ok [OF demo_vm_ok(1) _ p m]
  show "vm_ok demo_mapped 0x1000" "view demo_mapped 0x1000 = (view demo_vm 0x1000)(path 0x40201000 \<mapsto> (0, page_entry 0xABCDE000 3))"
    "2 \<le> card (free_set (vm_pmm demo_mapped))" using k(2,3,8) demo_vm_ok(2,3) by simp_all
qed

lemma demo_large: "vm_ok demo_large 0x1000" "view demo_large 0x1000 (path 0x40201000) = Some (1, large_entry 0x80000000 3)"
  "3 \<le> card (free_set (vm_pmm demo_large))"
proof -
  obtain ps s where p: "alloc_table_pool 2 demo_vm = (Some ps, s)" using demo_pool [of 2] by auto
  have m: "vmm_map_2m_in 0x1000 0x40201000 0x80000000 3 demo_vm = (fst (vmm_map_2m_in 0x1000 0x40201000 0x80000000 3 demo_vm), demo_large)"
    by (simp add: demo_large_def)
  note k = map_2m_ok [OF demo_vm_ok(1) _ p m]
  show "vm_ok demo_large 0x1000" "view demo_large 0x1000 (path 0x40201000) = Some (1, large_entry 0x80000000 3)"
    "3 \<le> card (free_set (vm_pmm demo_large))" using k(2,3,5) demo_vm_ok(2,3) by simp_all
qed


theorem vmm_map_2m_correct_witness:
  "\<exists>s. vmm_map_2m_in 0x1000 0x40201000 0x80000000 3 demo_mapped = (True, s) \<and> vm_ok s 0x1000 \<and>
     view s 0x1000 (path 0x40201000) = Some (1, large_entry 0x80000000 3)"
proof -
  obtain b s where m: "vmm_map_2m_in 0x1000 0x40201000 0x80000000 3 demo_mapped = (b, s)" by (metis prod.exhaust)
  then show ?thesis using vmm_map_2m_correct [OF demo_mapped(1) _ demo_mapped(3) m] demo_mapped(2) by simp
qed

theorem map_page_into_large_page_witness:
  "\<exists>s. vmm_map_page_in 0x1000 0x40201000 0xABCDE000 3 demo_large = (True, s) \<and> ld64 (vm_mem s) 0x80000008 = page_entry 0xABCDE000 3"
proof -
  obtain b s where m: "vmm_map_page_in 0x1000 0x40201000 0xABCDE000 3 demo_large = (b, s)" by (metis prod.exhaust)
  have a: "entry_addr (large_entry 0x80000000 3) = 0x80000000"
    by (simp add: large_entry_def entry_addr_def PAGE_FLAG_PRESENT_def PAGE_FLAG_PS_def)
  have i: "pt_i 0x40201000 = 1" by (simp add: pt_i_def)
  show ?thesis using map_page_into_large_page [OF demo_large(1,2) _ demo_large(3) m] m a i by simp
qed

end
