(* ===== verification/Klog.thy ===== *)
theory Klog
  imports NM_Prelude
begin

text \<open>
  The kernel log of \<^verbatim>\<open>kernel/klog.c\<close>: a ring of 8192 characters in which one cell is always kept
  free, so that equal indices mean an empty log. Writing into a full ring drops the oldest
  character. The lemmas show that the ring always holds exactly the last 8191 characters written
  since \<^verbatim>\<open>klog_init\<close>, and that \<^verbatim>\<open>klog_read\<close> copies them out, oldest first.
\<close>

section \<open>State and operations\<close>

definition KLOG_CAP :: nat where
  "KLOG_CAP = 8192"

record klog_state =
  kl_ring :: "char list"
  kl_head :: nat
  kl_tail :: nat
  kl_ready :: bool

definition klog_boot :: klog_state where
  "klog_boot = \<lparr>kl_ring = replicate KLOG_CAP (CHR 0x00), kl_head = 0, kl_tail = 0, kl_ready = False\<rparr>"

definition klog_init :: "klog_state \<Rightarrow> klog_state" where
  "klog_init s = s\<lparr>kl_head := 0, kl_tail := 0, kl_ready := True\<rparr>"

definition klog_putc :: "char \<Rightarrow> klog_state \<Rightarrow> klog_state" where
  "klog_putc c s =
     (if \<not> kl_ready s then s
      else let ring' = (kl_ring s)[kl_head s := c];
               head' = (kl_head s + 1) mod KLOG_CAP;
               tail' = (if head' = kl_tail s then (kl_tail s + 1) mod KLOG_CAP else kl_tail s)
           in s\<lparr>kl_ring := ring', kl_head := head', kl_tail := tail'\<rparr>)"

text \<open>A message is the characters before its terminating zero; \<open>None\<close> is the null pointer.\<close>

definition klog_write :: "string option \<Rightarrow> klog_state \<Rightarrow> klog_state" where
  "klog_write msg s = (case msg of None \<Rightarrow> s | Some cs \<Rightarrow> fold klog_putc cs s)"

text \<open>
  The copy loop of \<^verbatim>\<open>klog_read\<close>: \<open>p\<close> runs from the tail to the head. The index \<open>p\<close> is always
  below the capacity, so at most \<open>(head + KLOG_CAP - p) mod KLOG_CAP\<close> steps are left.
\<close>

function klog_copy :: "klog_state \<Rightarrow> nat \<Rightarrow> nat \<Rightarrow> nat \<Rightarrow> string" where
  "klog_copy s cap p n =
     (if p \<noteq> kl_head s \<and> n + 1 < cap
      then kl_ring s ! p # klog_copy s cap ((p + 1) mod KLOG_CAP) (n + 1)
      else [])"
  by pat_completeness auto
termination
  by (relation "measure (\<lambda>(s, cap, p, n). cap - n)") auto

declare klog_copy.simps [simp del]

text \<open>
  The result is the number of characters and the bytes stored through \<^verbatim>\<open>out\<close> (the terminating
  zero included); \<open>out = False\<close> stands for a null buffer.
\<close>

definition klog_read :: "bool \<Rightarrow> nat \<Rightarrow> klog_state \<Rightarrow> nat \<times> string" where
  "klog_read out cap s =
     (if \<not> kl_ready s \<or> \<not> out \<or> cap = 0 then (0, [])
      else let cs = klog_copy s cap (kl_tail s) 0 in (length cs, cs @ [CHR 0x00]))"

section \<open>Invariant and contents\<close>

definition klog_inv :: "klog_state \<Rightarrow> bool" where
  "klog_inv s \<longleftrightarrow> length (kl_ring s) = KLOG_CAP \<and> kl_head s < KLOG_CAP \<and> kl_tail s < KLOG_CAP"

definition klog_len :: "klog_state \<Rightarrow> nat" where
  "klog_len s = (kl_head s + KLOG_CAP - kl_tail s) mod KLOG_CAP"

definition klog_contents :: "klog_state \<Rightarrow> string" where
  "klog_contents s = ring_seg (kl_ring s) (kl_tail s) (klog_len s)"

text \<open>The last \<open>n\<close> elements of a list.\<close>

definition last_n :: "nat \<Rightarrow> 'a list \<Rightarrow> 'a list" where
  "last_n n xs = drop (length xs - n) xs"

lemma klog_boot_inv [nm_inv]: "klog_inv klog_boot"
  by (simp add: klog_inv_def klog_boot_def KLOG_CAP_def)

lemma klog_init_inv [nm_inv]: "klog_inv s \<Longrightarrow> klog_inv (klog_init s)"
  by (simp add: klog_inv_def klog_init_def KLOG_CAP_def)

lemma klog_init_contents: "klog_contents (klog_init s) = []"
  by (simp add: klog_contents_def klog_len_def klog_init_def)

lemma klog_putc_inv [nm_inv]: "klog_inv s \<Longrightarrow> klog_inv (klog_putc c s)"
  by (simp add: klog_inv_def klog_putc_def Let_def KLOG_CAP_def)

lemma klog_putc_ready [nm_frame]: "kl_ready (klog_putc c s) = kl_ready s"
  by (simp add: klog_putc_def Let_def)

lemma klog_head_tail:
  assumes "klog_inv s"
  shows "kl_head s = (kl_tail s + klog_len s) mod KLOG_CAP" and "klog_len s < KLOG_CAP"
proof -
  have "(kl_tail s + (kl_head s + KLOG_CAP - kl_tail s)) mod KLOG_CAP = kl_head s"
    using assms by (simp add: klog_inv_def)
  then show "kl_head s = (kl_tail s + klog_len s) mod KLOG_CAP"
    unfolding klog_len_def by (simp add: mod_add_right_eq)
  show "klog_len s < KLOG_CAP" by (simp add: klog_len_def KLOG_CAP_def)
qed

lemma klog_putc_contents:
  assumes inv: "klog_inv s" and "kl_ready s"
  shows "klog_contents (klog_putc c s) = last_n (KLOG_CAP - 1) (klog_contents s @ [c])"
proof -
  let ?N = KLOG_CAP and ?n = "klog_len s" and ?t = "kl_tail s"
  let ?ring = "(kl_ring s)[kl_head s := c]"
  have len: "length (kl_ring s) = ?N" and h: "kl_head s < ?N" and t: "?t < ?N"
    using inv by (simp_all add: klog_inv_def)
  note cases = ring_dist_cases [OF h t klog_len_def]
  have push: "ring_seg ?ring ?t (Suc ?n) = klog_contents s @ [c]"
    using ring_seg_push [of ?n "kl_ring s" ?t c] klog_head_tail [OF inv] len
    by (simp add: klog_contents_def)
  show ?thesis
  proof (cases "?n = ?N - 1")
    case True
    have "klog_contents (klog_putc c s) = ring_seg ?ring (?t + 1) ?n"
      using True assms cases(1,3) ring_seg_mod [of ?ring "?t + 1" ?n] len
      by (simp add: klog_contents_def klog_len_def klog_putc_def Let_def)
    also have "\<dots> = tl (ring_seg ?ring ?t (Suc ?n))" by (simp add: ring_seg_Cons)
    also have "\<dots> = last_n (?N - 1) (klog_contents s @ [c])"
    proof -
      have "length (klog_contents s) = ?N - 1" using True by (simp add: klog_contents_def)
      then have "length (klog_contents s @ [c]) - (?N - 1) = 1" by simp
      then show ?thesis unfolding last_n_def push by (metis One_nat_def drop0 drop_Suc)
    qed
    finally show ?thesis .
  next
    case False
    have "klog_contents (klog_putc c s) = ring_seg ?ring ?t (Suc ?n)"
      using False assms cases(1,2)
      by (simp add: klog_contents_def klog_len_def klog_putc_def Let_def)
    also have "\<dots> = last_n (?N - 1) (klog_contents s @ [c])"
      using push False klog_head_tail(2) [OF inv] by (simp add: last_n_def klog_contents_def)
    finally show ?thesis .
  qed
qed

lemma last_n_append: "last_n n (last_n n xs @ ys) = last_n n (xs @ ys)"
  by (cases "length xs \<le> n") (auto simp: last_n_def add.commute)

lemma klog_fold_contents:
  "klog_inv s \<Longrightarrow> kl_ready s \<Longrightarrow> klog_contents s = last_n (KLOG_CAP - 1) xs \<Longrightarrow>
   klog_contents (fold klog_putc cs s) = last_n (KLOG_CAP - 1) (xs @ cs) \<and> klog_inv (fold klog_putc cs s)"
proof (induction cs arbitrary: s xs)
  case Nil
  then show ?case by simp
next
  case (Cons c cs)
  have "klog_contents (klog_putc c s) = last_n (KLOG_CAP - 1) (xs @ [c])"
    using klog_putc_contents [of s c] Cons.prems by (simp add: last_n_append)
  then show ?case
    using Cons.IH [of "klog_putc c s" "xs @ [c]"] Cons.prems
    by (simp add: klog_putc_inv klog_putc_ready)
qed

lemma klog_fold_ready [nm_frame]: "kl_ready (fold klog_putc cs s) = kl_ready s"
  by (induction cs arbitrary: s) (simp_all add: klog_putc_ready)

lemma klog_write_concat: "fold (\<lambda>m. klog_write (Some m)) msgs s = fold klog_putc (concat msgs) s"
  by (induction msgs arbitrary: s) (simp_all add: klog_write_def)

lemma klog_copy_seg:
  assumes "klog_inv s"
  shows "p < KLOG_CAP \<Longrightarrow> k = (kl_head s + KLOG_CAP - p) mod KLOG_CAP \<Longrightarrow>
    klog_copy s cap p n = take (cap - 1 - n) (ring_seg (kl_ring s) p k)"
proof (induction k arbitrary: p n)
  case 0
  then have "p = kl_head s" using assms
    by (subst (asm) mod_less_twice) (auto simp: klog_inv_def split: if_splits)
  then show ?case by (simp add: klog_copy.simps)
next
  case (Suc k)
  have ne: "p \<noteq> kl_head s" using Suc.prems(2) by auto
  have p': "(p + 1) mod KLOG_CAP < KLOG_CAP" by (simp add: KLOG_CAP_def)
  have k': "k = (kl_head s + KLOG_CAP - (p + 1) mod KLOG_CAP) mod KLOG_CAP"
    by (rule ring_dist_step) (use Suc.prems assms in \<open>auto simp: klog_inv_def\<close>)
  have rest: "klog_copy s cap ((p + 1) mod KLOG_CAP) (n + 1) =
    take (cap - 1 - (n + 1)) (ring_seg (kl_ring s) ((p + 1) mod KLOG_CAP) k)"
    by (rule Suc.IH [OF p' k'])
  have seg: "ring_seg (kl_ring s) ((p + 1) mod KLOG_CAP) k = ring_seg (kl_ring s) (Suc p) k"
    using ring_seg_mod [of "kl_ring s" "Suc p" k] assms by (simp add: klog_inv_def)
  have hd: "kl_ring s ! (p mod length (kl_ring s)) = kl_ring s ! p"
    using assms Suc.prems(1) by (simp add: klog_inv_def)
  show ?case
  proof (cases "n + 1 < cap")
    case True
    then have "cap - 1 - n = Suc (cap - 1 - (n + 1))" by simp
    with True ne rest seg hd show ?thesis
      by (simp add: klog_copy.simps [of s cap p n] ring_seg_Cons)
  next
    case False
    with ne show ?thesis by (simp add: klog_copy.simps [of s cap p n])
  qed
qed

lemma klog_read_contents:
  assumes "klog_inv s" "kl_ready s" "0 < cap"
  shows "klog_read True cap s =
    (min (cap - 1) (length (klog_contents s)), take (cap - 1) (klog_contents s) @ [CHR 0x00])"
proof -
  have "klog_copy s cap (kl_tail s) 0 = take (cap - 1) (klog_contents s)"
    using klog_copy_seg [OF assms(1), of "kl_tail s" "klog_len s" cap 0] assms(1)
    by (simp add: klog_contents_def klog_len_def klog_inv_def)
  with assms show ?thesis by (simp add: klog_read_def Let_def)
qed

section \<open>Properties\<close>

text \<open>
  the log keeps exactly the most recent 8191 characters written since \<^verbatim>\<open>klog_init\<close>, in order,
  whatever the number and the lengths of the messages, and \<^verbatim>\<open>klog_read\<close> copies them out oldest
  first, cut to the caller's buffer and closed with a zero.
\<close>
theorem klog_read_after_writes:
  assumes "klog_inv s" "0 < cap" "kept = last_n (KLOG_CAP - 1) (concat msgs)"
  shows "klog_read True cap (fold (\<lambda>m. klog_write (Some m)) msgs (klog_init s)) =
    (min (cap - 1) (length kept), take (cap - 1) kept @ [CHR 0x00])"
proof -
  let ?s = "fold (\<lambda>m. klog_write (Some m)) msgs (klog_init s)"
  have eq: "?s = fold klog_putc (concat msgs) (klog_init s)"
    by (rule klog_write_concat)
  have inv: "klog_inv (klog_init s)" and ready: "kl_ready (klog_init s)"
    using assms(1) by (simp_all add: klog_init_inv) (simp add: klog_init_def)
  have "klog_contents ?s = kept" "klog_inv ?s"
    using klog_fold_contents [OF inv ready, of "[]" "concat msgs"] klog_init_contents [of s] assms(3) eq
    by (simp_all add: last_n_def)
  moreover have "kl_ready ?s" using ready eq by (simp add: klog_fold_ready)
  ultimately show ?thesis using klog_read_contents [of ?s cap] assms(2) by simp
qed

theorem klog_read_after_writes_witness:
  "klog_read True 4 (fold (\<lambda>m. klog_write (Some m)) [''ab'', ''cd''] (klog_init klog_boot)) =
     (3, ''abc'' @ [CHR 0x00])"
  using klog_read_after_writes [OF klog_boot_inv, of 4 "''abcd''" "[''ab'', ''cd'']"]
  by (simp add: last_n_def KLOG_CAP_def)

end
