(* ===== verification/Ports.thy ===== *)
theory Ports
  imports NM_Prelude
begin

text \<open>
  Port input and output of \<^verbatim>\<open>include/nm/io.h\<close>. The hardware is a parameter: what a read of a port returns
  and how reads and writes change the state \<open>'d\<close> of the devices. Every byte written is also recorded,
  in order, so that what a driver tells its device can be stated whatever the device does with it.
\<close>

record 'd hw =
  hw_in :: "u16 \<Rightarrow> 'd \<Rightarrow> u8 \<times> 'd"
  hw_out :: "u16 \<Rightarrow> u8 \<Rightarrow> 'd \<Rightarrow> 'd"

record 'd io =
  io_dev :: 'd
  io_log :: "(u16 \<times> u8) list"

definition outb :: "'d hw \<Rightarrow> u16 \<Rightarrow> u8 \<Rightarrow> 'd io \<Rightarrow> 'd io" where
  "outb h port val io = io\<lparr>io_dev := hw_out h port val (io_dev io), io_log := io_log io @ [(port, val)]\<rparr>"

definition inb :: "'d hw \<Rightarrow> u16 \<Rightarrow> 'd io \<Rightarrow> u8 \<times> 'd io" where
  "inb h port io = (let (v, d) = hw_in h port (io_dev io) in (v, io\<lparr>io_dev := d\<rparr>))"

definition io_wait :: "'d hw \<Rightarrow> 'd io \<Rightarrow> 'd io" where
  "io_wait h io = outb h 0x80 0 io"

text \<open>A sequence of writes.\<close>

definition outbs :: "'d hw \<Rightarrow> (u16 \<times> u8) list \<Rightarrow> 'd io \<Rightarrow> 'd io" where
  "outbs h ws io = fold (\<lambda>(port, val). outb h port val) ws io"

text \<open>
  A run of reads and writes, with the bytes written in order. What an operation does to the ports is stated as
  such a run, so that the state of every device can be followed through a sequence of operations.
\<close>

inductive io_run :: "'d hw \<Rightarrow> 'd io \<Rightarrow> (u16 \<times> u8) list \<Rightarrow> 'd io \<Rightarrow> bool" for h where
  io_done: "io_run h io [] io"
| io_out: "io_run h io ws io' \<Longrightarrow> io_run h io (ws @ [(port, v)]) (outb h port v io')"
| io_in: "io_run h io ws io' \<Longrightarrow> inb h port io' = (v, io'') \<Longrightarrow> io_run h io ws io''"

text \<open>The writes to a set of ports.\<close>

definition writes_to :: "u16 set \<Rightarrow> (u16 \<times> u8) list \<Rightarrow> (u16 \<times> u8) list" where
  "writes_to P ws = filter (\<lambda>w. fst w \<in> P) ws"

lemma outb_log [simp]: "io_log (outb h port v io) = io_log io @ [(port, v)]"
  by (simp add: outb_def)

lemma outb_dev [simp]: "io_dev (outb h port v io) = hw_out h port v (io_dev io)"
  by (simp add: outb_def)

lemma inb_log: "inb h port io = (v, io') \<Longrightarrow> io_log io' = io_log io"
  by (auto simp: inb_def split: prod.splits)

lemma outbs_log [simp]: "io_log (outbs h ws io) = io_log io @ ws"
  by (induction ws arbitrary: io) (auto simp: outbs_def)

lemma outbs_simps [simp]: "outbs h [] io = io" "outbs h (w # ws) io = outbs h ws (outb h (fst w) (snd w) io)"
  by (auto simp: outbs_def split: prod.splits)

lemma io_run_trans: "io_run h io1 vs io2 \<Longrightarrow> io_run h io0 us io1 \<Longrightarrow> io_run h io0 (us @ vs) io2"
proof (induction rule: io_run.induct)
  case (io_out io ws io' port v)
  then show ?case using io_run.io_out [of h io0 "us @ ws" io'] by simp
qed (auto intro: io_run.intros)

lemma io_run_log: "io_run h io ws io' \<Longrightarrow> io_log io' = io_log io @ ws"
  by (induction rule: io_run.induct) (auto dest: inb_log)

lemma io_run_outbs: "io_run h io ws io' \<Longrightarrow> io_run h io (ws @ vs) (outbs h vs io')"
proof (induction vs arbitrary: ws io')
  case (Cons v vs)
  then show ?case using io_out [OF Cons.prems, of "fst v" "snd v"] Cons.IH by fastforce
qed simp

text \<open>A part of the devices that reads leave alone follows the writes.\<close>

lemma io_run_part:
  assumes "\<And>d port v. p (hw_out h port v d) = step (port, v) (p d)" "\<And>d port. p (snd (hw_in h port d)) = p d"
  shows "io_run h io ws io' \<Longrightarrow> p (io_dev io') = fold step ws (p (io_dev io))"
proof (induction rule: io_run.induct)
  case (io_in io ws io' port v io'')
  then have "io_dev io'' = snd (hw_in h port (io_dev io'))" by (auto simp: inb_def split: prod.splits)
  then show ?case using io_in assms(2) by simp
qed (simp_all add: assms(1))

lemma writes_to_simps [simp]:
  "writes_to P [] = []" "writes_to P (us @ vs) = writes_to P us @ writes_to P vs"
  "writes_to P (w # ws) = (if fst w \<in> P then w # writes_to P ws else writes_to P ws)"
  by (simp_all add: writes_to_def)

lemma writes_to_other: "fst ` set ws \<inter> P = {} \<Longrightarrow> writes_to P ws = []"
  by (auto simp: writes_to_def filter_empty_conv)

end
