(* ===== verification/Console.thy ===== *)
theory Console
  imports Klog Ports "HOL-Library.Monad_Syntax"
begin

text \<open>
  The console of \<^verbatim>\<open>kernel/console.c\<close>: every character goes to the kernel log, to the serial line
  and to the 80 by 25 text screen; and the number writers of \<^verbatim>\<open>kernel/exceptions.c\<close> and \<^verbatim>\<open>kernel/kmain.c\<close>
  on top of it. The text memory is a list of 2000 cells and a store outside it has no result. The wait
  for the serial transmitter polls the status port and may not end (\<open>None\<close>). The lemmas show that
  the screen implements an endless sheet of wrapped lines of which it shows the last ones.
\<close>

section \<open>State and operations\<close>

definition COM1 :: u16 where "COM1 = 0x3F8"
definition VGA_COLS :: nat where "VGA_COLS = 80"
definition VGA_ROWS :: nat where "VGA_ROWS = 25"

record 'd console =
  con_klog :: klog_state
  vga_mem :: "u16 list"
  vga_row :: nat
  vga_col :: nat
  vga_attr :: u8
  con_io :: "'d io"

definition serial_init :: "'d hw \<Rightarrow> 'd io \<Rightarrow> 'd io" where
  "serial_init h io =
     outb h (COM1 + 4) 0x0B (outb h (COM1 + 2) 0xC7 (outb h (COM1 + 3) 0x03 (outb h (COM1 + 1) 0x00
       (outb h (COM1 + 0) 0x03 (outb h (COM1 + 3) 0x80 (outb h (COM1 + 1) 0x00 io))))))"

partial_function (option) serial_wait :: "'d hw \<Rightarrow> 'd io \<Rightarrow> 'd io option" where
  "serial_wait h io = (let (v, io) = inb h (COM1 + 5) io in if v AND 0x20 = 0 then serial_wait h io else Some io)"

definition serial_putc :: "'d hw \<Rightarrow> char \<Rightarrow> 'd io \<Rightarrow> 'd io option" where
  "serial_putc h c io = do { io \<leftarrow> serial_wait h io; Some (outb h COM1 (of_char c) io) }"

definition cell :: "u8 \<Rightarrow> char \<Rightarrow> u16" where
  "cell attr c = (push_bit 8 (ucast attr)) OR of_char c"

definition vga_store :: "nat \<Rightarrow> u16 \<Rightarrow> 'd console \<Rightarrow> 'd console option" where
  "vga_store i v s = (if i < length (vga_mem s) then Some (s\<lparr>vga_mem := (vga_mem s)[i := v]\<rparr>) else None)"

fun copy_cells :: "(nat \<times> nat) list \<Rightarrow> 'd console \<Rightarrow> 'd console option" where
  "copy_cells [] s = Some s"
| "copy_cells ((dst, src) # is) s =
     (if src < length (vga_mem s) then do { s \<leftarrow> vga_store dst (vga_mem s ! src) s; copy_cells is s } else None)"

fun fill_cells :: "nat list \<Rightarrow> u16 \<Rightarrow> 'd console \<Rightarrow> 'd console option" where
  "fill_cells [] v s = Some s"
| "fill_cells (i # is) v s = do { s \<leftarrow> vga_store i v s; fill_cells is v s }"

definition vga_scroll :: "'d console \<Rightarrow> 'd console option" where
  "vga_scroll s =
     (if vga_row s < VGA_ROWS then Some s
      else do { s \<leftarrow> copy_cells (concat (map (\<lambda>r. map (\<lambda>c. ((r - 1) * VGA_COLS + c, r * VGA_COLS + c)) [0..<VGA_COLS]) [1..<VGA_ROWS])) s;
                s \<leftarrow> fill_cells (map (\<lambda>c. (VGA_ROWS - 1) * VGA_COLS + c) [0..<VGA_COLS]) (cell (vga_attr s) CHR '' '') s;
                Some (s\<lparr>vga_row := VGA_ROWS - 1\<rparr>) })"

definition vga_putc :: "char \<Rightarrow> 'd console \<Rightarrow> 'd console option" where
  "vga_putc c s =
     (if c = CHR 0x0A then vga_scroll (s\<lparr>vga_row := vga_row s + 1, vga_col := 0\<rparr>)
      else do { s \<leftarrow> vga_store (vga_row s * VGA_COLS + vga_col s) (cell (vga_attr s) c) s;
                let s = s\<lparr>vga_col := vga_col s + 1\<rparr> in
                if vga_col s \<ge> VGA_COLS then vga_scroll (s\<lparr>vga_row := vga_row s + 1, vga_col := 0\<rparr>) else Some s })"

definition console_init :: "'d hw \<Rightarrow> 'd console \<Rightarrow> 'd console" where
  "console_init h s = s\<lparr>vga_row := 0, vga_col := 0, con_io := serial_init h (con_io s)\<rparr>"

definition console_putc :: "'d hw \<Rightarrow> char \<Rightarrow> 'd console \<Rightarrow> 'd console option" where
  "console_putc h c s =
     do { let s = s\<lparr>con_klog := klog_putc c (con_klog s)\<rparr>;
          io \<leftarrow> serial_putc h c (con_io s);
          vga_putc c (s\<lparr>con_io := io\<rparr>) }"

fun console_write :: "'d hw \<Rightarrow> string \<Rightarrow> 'd console \<Rightarrow> 'd console option" where
  "console_write h [] s = Some s"
| "console_write h (c # str) s = do { s \<leftarrow> console_putc h c s; console_write h str s }"

section \<open>Numbers\<close>

definition hex_digits :: string where "hex_digits = ''0123456789abcdef''"

fun hex_loop :: "'d hw \<Rightarrow> u64 \<Rightarrow> nat \<Rightarrow> 'd console \<Rightarrow> 'd console option" where
  "hex_loop h val 0 s = Some s"
| "hex_loop h val (Suc i) s =
     do { s \<leftarrow> console_putc h (hex_digits ! unat ((drop_bit (i * 4) val) AND 0xF)) s; hex_loop h val i s }"

definition console_write_hex_u64 :: "'d hw \<Rightarrow> u64 \<Rightarrow> 'd console \<Rightarrow> 'd console option" where
  "console_write_hex_u64 h val s = do { s \<leftarrow> console_write h ''0x'' s; hex_loop h val 16 s }"

text \<open>The digits of the decimal writer, least significant first, at most 32 of them.\<close>

function dec_digits :: "u64 \<Rightarrow> string \<Rightarrow> string" where
  "dec_digits val buf =
     (if val > 0 \<and> length buf < 32 then dec_digits (val div 10) (buf @ [char_of (48 + unat (val mod 10))]) else buf)"
  by pat_completeness auto
termination
  by (relation "measure (\<lambda>(val, buf). 32 - length buf)") auto

declare dec_digits.simps [simp del]

definition console_write_u64 :: "'d hw \<Rightarrow> u64 \<Rightarrow> 'd console \<Rightarrow> 'd console option" where
  "console_write_u64 h val s =
     (if val = 0 then console_putc h CHR ''0'' s else console_write h (rev (dec_digits val [])) s)"

text \<open>
  The report of an exception, up to the halt. The arguments are the five words that the entry stub left
  on the stack, the faulting address register and the address of the stack.
\<close>

definition nm_exception_dispatch :: "'d hw \<Rightarrow> u64 \<Rightarrow> u64 \<Rightarrow> u64 \<Rightarrow> u64 \<Rightarrow> u64 \<Rightarrow> u64 \<Rightarrow> u64 \<Rightarrow> 'd console \<Rightarrow> 'd console option" where
  "nm_exception_dispatch h vec err rip cs rflags cr2 stack s =
     do { s \<leftarrow> console_write h ''[EXC] vec='' s; s \<leftarrow> console_write_hex_u64 h vec s;
          s \<leftarrow> console_write h '' err='' s; s \<leftarrow> console_write_hex_u64 h err s;
          s \<leftarrow> console_write h '' rip='' s; s \<leftarrow> console_write_hex_u64 h rip s;
          s \<leftarrow> console_write h '' cs='' s; s \<leftarrow> console_write_hex_u64 h cs s;
          s \<leftarrow> console_write h '' rflags='' s; s \<leftarrow> console_write_hex_u64 h rflags s;
          s \<leftarrow> (if vec = 14 then do { s \<leftarrow> console_write h '' cr2='' s; console_write_hex_u64 h cr2 s } else Some s);
          s \<leftarrow> console_write h '' rsp='' s; s \<leftarrow> console_write_hex_u64 h stack s;
          console_write h [CHR 0x0A] s }"

section \<open>The sheet of lines\<close>

text \<open>
  What the screen stands for: the finished lines and the line being written, as on an endless sheet. A
  line ends at a newline or when it is 80 characters long.
\<close>

type_synonym sheet = "string list \<times> string"

fun sheet_putc :: "char \<Rightarrow> sheet \<Rightarrow> sheet" where
  "sheet_putc c (ls, cur) =
     (if c = CHR 0x0A then (ls @ [cur], [])
      else if length cur + 1 < VGA_COLS then (ls, cur @ [c]) else (ls @ [cur @ [c]], []))"

text \<open>
  The screen shows 25 lines from \<open>sheet_top\<close> on. Starting the console does not clear the screen, so where
  a line has no text a cell still holds what the text memory held at the start, \<open>bg\<close>, in the 25 lines that
  the screen had then, and a blank in the lines that scrolling brought in. Every cell is determined.
\<close>

definition sheet_line :: "sheet \<Rightarrow> nat \<Rightarrow> string" where
  "sheet_line sh j = (if j \<le> length (fst sh) then (fst sh @ [snd sh]) ! j else [])"

definition sheet_cell :: "u16 list \<Rightarrow> u8 \<Rightarrow> sheet \<Rightarrow> nat \<Rightarrow> nat \<Rightarrow> u16" where
  "sheet_cell bg attr sh j c =
     (if c < length (sheet_line sh j) then cell attr (sheet_line sh j ! c)
      else if j < VGA_ROWS then bg ! (j * VGA_COLS + c) else cell attr CHR '' '')"

definition sheet_top :: "sheet \<Rightarrow> nat" where
  "sheet_top sh = length (fst sh) - (VGA_ROWS - 1)"

definition shows_sheet :: "u16 list \<Rightarrow> 'd console \<Rightarrow> sheet \<Rightarrow> bool" where
  "shows_sheet bg s sh \<longleftrightarrow> length (vga_mem s) = VGA_ROWS * VGA_COLS \<and> vga_row s = length (fst sh) - sheet_top sh \<and>
     vga_col s = length (snd sh) \<and> length (snd sh) < VGA_COLS \<and> (\<forall>l \<in> set (fst sh). length l \<le> VGA_COLS) \<and>
     (\<forall>r < VGA_ROWS. \<forall>c < VGA_COLS. vga_mem s ! (r * VGA_COLS + c) = sheet_cell bg (vga_attr s) sh (sheet_top sh + r) c)"

lemma copy_cells_shift:
  assumes "0 < w" "b + w \<le> length (vga_mem s)" "a \<le> b"
  shows "\<exists>m. copy_cells (map (\<lambda>k. (k, k + w)) [a..<b]) s = Some (s\<lparr>vga_mem := m\<rparr>) \<and> length m = length (vga_mem s) \<and>
    (\<forall>i < length m. m ! i = (if a \<le> i \<and> i < b then vga_mem s ! (i + w) else vga_mem s ! i))"
  using assms(2,3)
proof (induction "b - a" arbitrary: a s)
  case 0
  then have "[a..<b] = []" by simp
  then show ?case using 0 by (intro exI [of _ "vga_mem s"]) auto
next
  case (Suc n)
  let ?s = "s\<lparr>vga_mem := (vga_mem s)[a := vga_mem s ! (a + w)]\<rparr>"
  have ab: "a < b" using Suc.hyps(2) by simp
  have "copy_cells (map (\<lambda>k. (k, k + w)) [a..<b]) s = copy_cells (map (\<lambda>k. (k, k + w)) [Suc a..<b]) ?s"
    using ab Suc.prems assms(1) by (simp add: upt_conv_Cons vga_store_def)
  moreover have "n = b - Suc a" "b + w \<le> length (vga_mem ?s)" "Suc a \<le> b" using Suc.hyps(2) Suc.prems(1) ab by simp_all
  from Suc.hyps(1) [OF this] obtain m where "copy_cells (map (\<lambda>k. (k, k + w)) [Suc a..<b]) ?s = Some (?s\<lparr>vga_mem := m\<rparr>)"
    "length m = length (vga_mem ?s)" "\<forall>i < length m. m ! i = (if Suc a \<le> i \<and> i < b then vga_mem ?s ! (i + w) else vga_mem ?s ! i)"
    by blast
  moreover have "(\<not> Suc a \<le> i \<and> a \<le> i) = (i = a)" for i by auto
  ultimately show ?case using ab Suc.prems assms(1) by (intro exI [of _ m]) (auto simp: nth_list_update Suc_le_eq)
qed

lemma fill_cells_nth:
  "\<forall>i \<in> set is. i < length (vga_mem s) \<Longrightarrow>
    \<exists>m. fill_cells is v s = Some (s\<lparr>vga_mem := m\<rparr>) \<and> length m = length (vga_mem s) \<and>
      (\<forall>i < length m. m ! i = (if i \<in> set is then v else vga_mem s ! i))"
proof (induction "is" arbitrary: s)
  case Nil
  then show ?case by (intro exI [of _ "vga_mem s"]) simp
next
  case (Cons j js)
  let ?s = "s\<lparr>vga_mem := (vga_mem s)[j := v]\<rparr>"
  obtain m where "fill_cells js v ?s = Some (?s\<lparr>vga_mem := m\<rparr>)" "length m = length (vga_mem ?s)"
    "\<forall>i < length m. m ! i = (if i \<in> set js then v else vga_mem ?s ! i)"
    using Cons.IH [of ?s] Cons.prems by auto
  then show ?case using Cons.prems by (intro exI [of _ m]) (auto simp: vga_store_def nth_list_update)
qed

lemma scroll_pairs:
  "concat (map (\<lambda>r. map (\<lambda>c. ((r - 1) * w + c, r * w + c)) [0..<w]) [1..<Suc n]) = map (\<lambda>k. (k, k + w)) [0..<n * w]"
proof (induction n)
  case 0
  then show ?case by simp
next
  case (Suc n)
  have "map (\<lambda>c. (n * w + c, Suc n * w + c)) [0..<w] = map (\<lambda>k. (k, k + w)) [n * w..<Suc n * w]"
    by (rule nth_equalityI) auto
  moreover have "[0..<Suc n * w] = [0..<n * w] @ [n * w..<Suc n * w]" by (metis add.commute le_add1 mult_Suc upt_add_eq_append zero_le)
  ultimately show ?case using Suc by simp
qed

text \<open>Scrolling moves every row up by one and blanks the last one.\<close>

lemma vga_scroll_full:
  assumes "length (vga_mem s) = VGA_ROWS * VGA_COLS" "vga_row s = VGA_ROWS"
  shows "\<exists>m. vga_scroll s = Some (s\<lparr>vga_mem := m, vga_row := VGA_ROWS - 1\<rparr>) \<and> length m = VGA_ROWS * VGA_COLS \<and>
    (\<forall>r c. r < VGA_ROWS - 1 \<longrightarrow> c < VGA_COLS \<longrightarrow> m ! (r * VGA_COLS + c) = vga_mem s ! (Suc r * VGA_COLS + c)) \<and>
    (\<forall>c < VGA_COLS. m ! ((VGA_ROWS - 1) * VGA_COLS + c) = cell (vga_attr s) CHR '' '')"
proof -
  let ?w = VGA_COLS
  have n: "VGA_ROWS = Suc 24" "0 < ?w" by (simp_all add: VGA_ROWS_def VGA_COLS_def)
  obtain m1 where m1: "copy_cells (map (\<lambda>k. (k, k + ?w)) [0..<24 * ?w]) s = Some (s\<lparr>vga_mem := m1\<rparr>)" "length m1 = VGA_ROWS * ?w"
    "\<forall>i < length m1. m1 ! i = (if i < 24 * ?w then vga_mem s ! (i + ?w) else vga_mem s ! i)"
    using copy_cells_shift [of ?w "24 * ?w" s 0] assms(1) n by auto
  have "\<forall>i \<in> set (map (\<lambda>c. (VGA_ROWS - 1) * ?w + c) [0..<?w]). i < length (vga_mem (s\<lparr>vga_mem := m1\<rparr>))"
    using m1(2) by (auto simp: VGA_ROWS_def VGA_COLS_def)
  from fill_cells_nth [OF this, of "cell (vga_attr s) CHR '' ''"] obtain m2 where
    m2: "fill_cells (map (\<lambda>c. (VGA_ROWS - 1) * ?w + c) [0..<?w]) (cell (vga_attr s) CHR '' '') (s\<lparr>vga_mem := m1\<rparr>) = Some (s\<lparr>vga_mem := m2\<rparr>)"
    "length m2 = length m1"
    "\<forall>i < length m2. m2 ! i = (if i \<in> set (map (\<lambda>c. (VGA_ROWS - 1) * ?w + c) [0..<?w]) then cell (vga_attr s) CHR '' '' else m1 ! i)"
    by auto
  have "vga_scroll s = Some (s\<lparr>vga_mem := m2, vga_row := VGA_ROWS - 1\<rparr>)"
    using scroll_pairs [of ?w 24] assms(2) m1(1) m2(1) n by (simp add: vga_scroll_def)
  moreover have "m2 ! (r * ?w + c) = vga_mem s ! (Suc r * ?w + c)" if "r < VGA_ROWS - 1" "c < ?w" for r c
  proof -
    have i: "r * ?w + c < 24 * ?w" using that by (simp add: VGA_ROWS_def VGA_COLS_def)
    then have "r * ?w + c \<notin> set (map (\<lambda>c. (VGA_ROWS - 1) * ?w + c) [0..<?w])" "r * ?w + c < length m1"
      using m1(2) by (auto simp: VGA_ROWS_def VGA_COLS_def)
    then have "m2 ! (r * ?w + c) = m1 ! (r * ?w + c)" using m2(2,3) by presburger
    also have "\<dots> = vga_mem s ! (r * ?w + c + ?w)" using m1(2,3) i \<open>r * ?w + c < length m1\<close> by presburger
    finally show ?thesis by (simp add: add.commute add.left_commute)
  qed
  moreover have "m2 ! ((VGA_ROWS - 1) * ?w + c) = cell (vga_attr s) CHR '' ''" if "c < ?w" for c
    using m1(2) m2(2,3) that by (auto simp: VGA_ROWS_def VGA_COLS_def)
  ultimately show ?thesis using m1(2) m2(2) by auto
qed

definition same_rest :: "'d console \<Rightarrow> 'd console \<Rightarrow> bool" where
  "same_rest s s' \<longleftrightarrow> vga_attr s' = vga_attr s \<and> con_klog s' = con_klog s \<and> con_io s' = con_io s"

definition cells_ok :: "u16 list \<Rightarrow> 'd console \<Rightarrow> sheet \<Rightarrow> bool" where
  "cells_ok bg s sh \<longleftrightarrow>
     (\<forall>r < VGA_ROWS. \<forall>c < VGA_COLS. vga_mem s ! (r * VGA_COLS + c) = sheet_cell bg (vga_attr s) sh (sheet_top sh + r) c)"

lemma shows_sheet_alt:
  "shows_sheet bg s sh \<longleftrightarrow> length (vga_mem s) = VGA_ROWS * VGA_COLS \<and> vga_row s = min (length (fst sh)) (VGA_ROWS - 1) \<and>
     vga_col s = length (snd sh) \<and> length (snd sh) < VGA_COLS \<and> (\<forall>l \<in> set (fst sh). length l \<le> VGA_COLS) \<and> cells_ok bg s sh"
  by (auto simp: shows_sheet_def cells_ok_def sheet_top_def)

lemma sheet_line_feed: "sheet_line (ls @ [cur], []) = sheet_line (ls, cur)"
  by (rule ext) (auto simp: sheet_line_def nth_append)

lemma sheet_line_add: "sheet_line (ls, cur @ [c]) j = (if j = length ls then cur @ [c] else sheet_line (ls, cur) j)"
  by (auto simp: sheet_line_def nth_append)

lemma sheet_line_cur: "sheet_line (ls, cur) (length ls) = cur"
  by (simp add: sheet_line_def)

lemma vga_feed:
  assumes "length (vga_mem s) = VGA_ROWS * VGA_COLS" "cells_ok bg s (ls, cur)" "vga_row s = min (length ls) (VGA_ROWS - 1)"
    "\<forall>l \<in> set ls. length l \<le> VGA_COLS" "length cur \<le> VGA_COLS"
  shows "\<exists>s'. vga_scroll (s\<lparr>vga_row := vga_row s + 1, vga_col := 0\<rparr>) = Some s' \<and> shows_sheet bg s' (ls @ [cur], []) \<and> same_rest s s'"
proof (cases "length ls < VGA_ROWS - 1")
  case True
  let ?s = "s\<lparr>vga_row := vga_row s + 1, vga_col := 0\<rparr>"
  have "vga_scroll ?s = Some ?s" using True assms(3) by (simp add: vga_scroll_def)
  moreover have "cells_ok bg ?s (ls @ [cur], [])"
    using assms(2) True by (simp add: cells_ok_def sheet_cell_def sheet_line_feed sheet_top_def)
  moreover have "0 < VGA_COLS" by (simp add: VGA_COLS_def)
  ultimately show ?thesis using True assms by (auto simp: shows_sheet_alt same_rest_def)
next
  case False
  let ?s = "s\<lparr>vga_row := vga_row s + 1, vga_col := 0\<rparr>"
  have full: "VGA_ROWS - 1 \<le> length ls" using False by simp
  have "vga_row ?s = VGA_ROWS" using full assms(3) by (simp add: VGA_ROWS_def)
  from vga_scroll_full [OF _ this] assms(1) obtain m where
    m: "vga_scroll ?s = Some (?s\<lparr>vga_mem := m, vga_row := VGA_ROWS - 1\<rparr>)" "length m = VGA_ROWS * VGA_COLS"
    "\<forall>r c. r < VGA_ROWS - 1 \<longrightarrow> c < VGA_COLS \<longrightarrow> m ! (r * VGA_COLS + c) = vga_mem s ! (Suc r * VGA_COLS + c)"
    "\<forall>c < VGA_COLS. m ! ((VGA_ROWS - 1) * VGA_COLS + c) = cell (vga_attr s) CHR '' ''" by auto
  let ?t = "?s\<lparr>vga_mem := m, vga_row := VGA_ROWS - 1\<rparr>"
  have top: "sheet_top (ls @ [cur], []) = Suc (sheet_top (ls, cur))" using full by (simp add: sheet_top_def)
  have "cells_ok bg ?t (ls @ [cur], [])"
    unfolding cells_ok_def
  proof (intro allI impI)
    fix r c assume r: "r < VGA_ROWS" and c: "c < VGA_COLS"
    show "vga_mem ?t ! (r * VGA_COLS + c) = sheet_cell bg (vga_attr ?t) (ls @ [cur], []) (sheet_top (ls @ [cur], []) + r) c"
    proof (cases "r = VGA_ROWS - 1")
      case True
      have "sheet_line (ls, cur) (Suc (sheet_top (ls, cur)) + r) = []" "VGA_ROWS \<le> Suc (sheet_top (ls, cur)) + r"
        using True full by (auto simp: sheet_line_def sheet_top_def)
      then show ?thesis using m(4) c True by (simp add: sheet_cell_def sheet_line_feed top)
    next
      case False
      then have r': "r < VGA_ROWS - 1" "Suc r < VGA_ROWS" using r by auto
      then have "m ! (r * VGA_COLS + c) = vga_mem s ! (Suc r * VGA_COLS + c)" using m(3) c by blast
      moreover have "vga_mem s ! (Suc r * VGA_COLS + c) = sheet_cell bg (vga_attr s) (ls, cur) (sheet_top (ls, cur) + Suc r) c"
        using assms(2) r' c unfolding cells_ok_def by blast
      ultimately show ?thesis by (simp add: sheet_cell_def sheet_line_feed top)
    qed
  qed
  moreover have "0 < VGA_COLS" by (simp add: VGA_COLS_def)
  ultimately show ?thesis using m(1,2) full assms(4,5) by (auto simp: shows_sheet_alt same_rest_def)
qed

lemma cell_index:
  assumes "c < VGA_COLS" "c' < VGA_COLS"
  shows "r * VGA_COLS + c = r' * VGA_COLS + c' \<longleftrightarrow> r = r' \<and> c = c'"
proof
  assume e: "r * VGA_COLS + c = r' * VGA_COLS + c'"
  have "(r * VGA_COLS + c) div VGA_COLS = r" "(r' * VGA_COLS + c') div VGA_COLS = r'" using assms by simp_all
  then show "r = r' \<and> c = c'" using e by simp
qed simp

text \<open>A store at the cursor changes one cell of the sheet.\<close>

lemma cells_ok_store:
  assumes "length (vga_mem s) = VGA_ROWS * VGA_COLS" "vga_row s = min (length ls) (VGA_ROWS - 1)" "vga_col s = length cur"
    "length cur < VGA_COLS" "cells_ok bg s (ls, cur)"
  shows "cells_ok bg (s\<lparr>vga_mem := (vga_mem s)[vga_row s * VGA_COLS + vga_col s := cell (vga_attr s) c]\<rparr>) (ls, cur @ [c])"
  unfolding cells_ok_def
proof (intro allI impI)
  let ?i = "vga_row s * VGA_COLS + vga_col s"
  let ?s = "s\<lparr>vga_mem := (vga_mem s)[?i := cell (vga_attr s) c]\<rparr>"
  fix r k assume r: "r < VGA_ROWS" and k: "k < VGA_COLS"
  have i: "?i < length (vga_mem s)" using assms(1-4) by (auto simp: VGA_ROWS_def VGA_COLS_def)
  have top: "sheet_top (ls, cur @ [c]) = sheet_top (ls, cur)" by (simp add: sheet_top_def)
  have row: "sheet_top (ls, cur) + r = length ls \<longleftrightarrow> r = vga_row s" using assms(2) by (auto simp: sheet_top_def)
  have ix: "r * VGA_COLS + k = ?i \<longleftrightarrow> r = vga_row s \<and> k = vga_col s" using assms(3,4) k by (intro cell_index) auto
  show "vga_mem ?s ! (r * VGA_COLS + k) = sheet_cell bg (vga_attr ?s) (ls, cur @ [c]) (sheet_top (ls, cur @ [c]) + r) k"
  proof (cases "r = vga_row s \<and> k = vga_col s")
    case True
    then show ?thesis using i row assms(3) by (auto simp: sheet_cell_def sheet_line_add top)
  next
    case False
    then have "vga_mem ?s ! (r * VGA_COLS + k) = vga_mem s ! (r * VGA_COLS + k)" using ix by (metis nth_list_update_neq console.select_convs(2) console.surjective console.update_convs(2))
    then show ?thesis
      using False assms(3,5) r k row sheet_line_cur [of ls cur]
      by (auto simp: cells_ok_def sheet_cell_def sheet_line_add top nth_append less_Suc_eq)
  qed
qed

lemma vga_putc_sheet:
  assumes "shows_sheet bg s sh"
  shows "\<exists>s'. vga_putc c s = Some s' \<and> shows_sheet bg s' (sheet_putc c sh) \<and> same_rest s s'"
proof -
  obtain ls cur where sh: "sh = (ls, cur)" by (cases sh)
  note a = assms [unfolded shows_sheet_alt sh, simplified]
  show ?thesis
  proof (cases "c = CHR 0x0A")
    case True
    then show ?thesis using vga_feed [of s bg ls cur] a sh by (auto simp: vga_putc_def)
  next
    case False
    let ?i = "vga_row s * VGA_COLS + vga_col s"
    let ?s = "s\<lparr>vga_mem := (vga_mem s)[?i := cell (vga_attr s) c]\<rparr>"
    have i: "?i < length (vga_mem s)" using a by (auto simp: VGA_ROWS_def VGA_COLS_def)
    have cl: "cells_ok bg ?s (ls, cur @ [c])" using cells_ok_store [of s ls cur bg c] a by simp
    have st: "vga_store ?i (cell (vga_attr s) c) s = Some ?s" using i by (simp add: vga_store_def)
    show ?thesis
    proof (cases "length cur + 1 < VGA_COLS")
      case True
      have "vga_putc c s = Some (?s\<lparr>vga_col := vga_col s + 1\<rparr>)" using False st True a by (simp add: vga_putc_def)
      moreover have "cells_ok bg (?s\<lparr>vga_col := vga_col s + 1\<rparr>) (ls, cur @ [c])" using cl by (simp add: cells_ok_def)
      ultimately show ?thesis using False True a sh by (auto simp: shows_sheet_alt same_rest_def)
    next
      case full: False
      have "vga_putc c s = vga_scroll (?s\<lparr>vga_row := vga_row ?s + 1, vga_col := 0\<rparr>)" using False st full a by (simp add: vga_putc_def)
      moreover have "length (vga_mem ?s) = VGA_ROWS * VGA_COLS" "vga_row ?s = min (length ls) (VGA_ROWS - 1)"
        "\<forall>l \<in> set ls. length l \<le> VGA_COLS" "length (cur @ [c]) \<le> VGA_COLS" using a by auto
      note vga_feed [OF this(1) cl this(2-4)]
      ultimately show ?thesis using False full sh by (auto simp: same_rest_def)
    qed
  qed
qed

text \<open>A started console shows the empty sheet over whatever the text memory held.\<close>

lemma console_init_shows:
  assumes "length (vga_mem s) = VGA_ROWS * VGA_COLS"
  shows "shows_sheet (vga_mem s) (console_init h s) ([], [])"
  using assms by (auto simp: shows_sheet_def console_init_def sheet_top_def sheet_cell_def sheet_line_def VGA_COLS_def)

section \<open>Output\<close>

text \<open>The serial line accepts another character after finitely many polls.\<close>

definition serial_accepts :: "'d hw \<Rightarrow> bool" where
  "serial_accepts h \<longleftrightarrow> (\<forall>io. serial_wait h io \<noteq> None)"

lemma serial_wait_run:
  assumes "serial_wait h io = Some io'"
  shows "io_run h io [] io'"
proof (rule serial_wait.raw_induct [of "\<lambda>h io io'. io_run h io [] io'", OF _ assms], goal_cases)
  case (1 rec h io io')
  obtain v io1 where v: "inb h (COM1 + 5) io = (v, io1)" by (meson surj_pair)
  have "io_run h io [] io1" by (rule io_in [OF io_done v])
  then show ?case using 1 v io_run_trans [of h io1 "[]" io' io "[]"] by (auto split: if_splits)
qed

definition sent :: "string \<Rightarrow> (u16 \<times> u8) list" where
  "sent str = map (\<lambda>c. (COM1, of_char c)) str"

lemma console_putc_step:
  assumes "serial_accepts h" "shows_sheet bg s sh"
  shows "\<exists>s'. console_putc h c s = Some s' \<and> shows_sheet bg s' (sheet_putc c sh) \<and> con_klog s' = klog_putc c (con_klog s) \<and>
    io_run h (con_io s) (sent [c]) (con_io s') \<and> vga_attr s' = vga_attr s"
proof -
  obtain io where io: "serial_wait h (con_io s) = Some io" using assms(1) by (auto simp: serial_accepts_def)
  let ?s = "s\<lparr>con_klog := klog_putc c (con_klog s), con_io := outb h COM1 (of_char c) io\<rparr>"
  have "console_putc h c s = vga_putc c ?s" using io by (simp add: console_putc_def serial_putc_def)
  moreover have "shows_sheet bg ?s sh" using assms(2) by (simp add: shows_sheet_def)
  moreover have "io_run h (con_io s) ([] @ [(COM1, of_char c)]) (outb h COM1 (of_char c) io)" by (rule io_out [OF serial_wait_run [OF io]])
  ultimately show ?thesis using vga_putc_sheet [of bg ?s sh c] by (auto simp: same_rest_def sent_def)
qed

lemma console_write_step:
  assumes "serial_accepts h"
  shows "shows_sheet bg s sh \<Longrightarrow> \<exists>s'. console_write h str s = Some s' \<and> shows_sheet bg s' (fold sheet_putc str sh) \<and>
    con_klog s' = fold klog_putc str (con_klog s) \<and> io_run h (con_io s) (sent str) (con_io s') \<and> vga_attr s' = vga_attr s"
proof (induction str arbitrary: s sh)
  case Nil
  then show ?case by (simp add: sent_def io_done)
next
  case (Cons c str)
  obtain s1 where s1: "console_putc h c s = Some s1" "shows_sheet bg s1 (sheet_putc c sh)" "con_klog s1 = klog_putc c (con_klog s)"
    "io_run h (con_io s) (sent [c]) (con_io s1)" "vga_attr s1 = vga_attr s"
    using console_putc_step [OF assms Cons.prems] by blast
  have "sent (c # str) = sent [c] @ sent str" by (simp add: sent_def)
  then show ?case using s1 Cons.IH [OF s1(2)] io_run_trans [OF _ s1(4)] by fastforce
qed

lemma console_write_append: "console_write h (xs @ ys) s = do { s \<leftarrow> console_write h xs s; console_write h ys s }"
proof (induction xs arbitrary: s)
  case (Cons x xs)
  then show ?case by (cases "console_putc h x s") auto
qed simp

section \<open>Printed numbers\<close>

definition hex_text :: "nat \<Rightarrow> u64 \<Rightarrow> string" where
  "hex_text n val = map (\<lambda>i. hex_digits ! unat ((drop_bit (i * 4) val) AND 0xF)) (rev [0..<n])"

lemma hex_loop_write: "hex_loop h val n = console_write h (hex_text n val)"
proof (induction n)
  case 0
  show ?case by (rule ext) (simp add: hex_text_def)
next
  case (Suc n)
  show ?case by (rule ext) (simp only: hex_loop.simps Suc, simp add: hex_text_def)
qed

lemma write_hex: "console_write_hex_u64 h val s = console_write h (''0x'' @ hex_text 16 val) s"
  unfolding console_write_hex_u64_def hex_loop_write console_write_append ..

text \<open>Reading a number back, digit by digit.\<close>

definition digit_value :: "string \<Rightarrow> char \<Rightarrow> nat" where
  "digit_value digits c = length (takeWhile (\<lambda>d. d \<noteq> c) digits)"

definition number_value :: "nat \<Rightarrow> string \<Rightarrow> string \<Rightarrow> nat" where
  "number_value base digits str = foldl (\<lambda>n c. n * base + digit_value digits c) 0 str"

lemma hex_digit_value: "k < 16 \<Longrightarrow> digit_value hex_digits (hex_digits ! k) = k"
proof -
  have "\<forall>k \<in> set [0..<16]. digit_value hex_digits (hex_digits ! k) = k" by code_simp
  then show "k < 16 \<Longrightarrow> digit_value hex_digits (hex_digits ! k) = k" by simp
qed

lemma hex_text_value: "foldl (\<lambda>n c. n * 16 + digit_value hex_digits c) a (hex_text n val) = a * 16 ^ n + unat val mod 16 ^ n"
proof (induction n arbitrary: a)
  case 0
  then show ?case by (simp add: hex_text_def)
next
  case (Suc n)
  let ?k = "unat ((drop_bit (n * 4) val) AND 0xF)"
  have "x AND 0xF = take_bit 4 x" for x :: u64 by (simp add: take_bit_eq_mask mask_eq_exp_minus_1)
  then have "?k = unat (drop_bit (n * 4) val) mod 16" by (simp add: take_bit_eq_mod unat_mod)
  also have "unat (drop_bit (n * 4) val) = drop_bit (n * 4) (unat val)" 
    using unat_bound64 [of "val"] by (simp add: unsigned_drop_bit_eq take_bit_nat_eq_self)
  also have "\<dots> = unat val div 16 ^ n" using power_mult [of "2 :: nat" 4 n] by (simp add: drop_bit_eq_div mult.commute)
  finally have k: "?k = unat val div 16 ^ n mod 16" .
  have "unat val mod 16 ^ Suc n = 16 ^ n * ?k + unat val mod 16 ^ n"
    unfolding k power_Suc2 mod_mult2_eq ..
  moreover have "digit_value hex_digits (hex_digits ! ?k) = ?k" using k by (intro hex_digit_value) simp
  ultimately show ?case using Suc [of "a * 16 + ?k"] by (simp add: hex_text_def algebra_simps)
qed

definition dec_chars :: string where "dec_chars = ''0123456789''"

lemma dec_digit_value: "k < 10 \<Longrightarrow> digit_value dec_chars (char_of (48 + k)) = k"
proof -
  have "\<forall>k \<in> set [0..<10]. digit_value dec_chars (char_of (48 + k)) = k" by code_simp
  then show "k < 10 \<Longrightarrow> digit_value dec_chars (char_of (48 + k)) = k" by simp
qed

lemma dec_digits_value:
  "unat v < 10 ^ k \<Longrightarrow> length buf + k \<le> 32 \<Longrightarrow>
    \<exists>ds. dec_digits v buf = buf @ ds \<and> foldr (\<lambda>c n. n * 10 + digit_value dec_chars c) ds 0 = unat v"
proof (induction k arbitrary: v buf)
  case 0
  then have "v = 0" by (simp add: unat_eq_0)
  then show ?case by (subst dec_digits.simps) simp
next
  case (Suc k)
  show ?case
  proof (cases "v = 0")
    case True
    then show ?thesis by (subst dec_digits.simps) simp
  next
    case False
    let ?c = "char_of (48 + unat (v mod 10)) :: char"
    have q: "unat (v div 10) = unat v div 10" "unat (v mod 10) = unat v mod 10" by (simp_all add: unat_div unat_mod)
    have "unat (v div 10) < 10 ^ k" using Suc.prems(1) q by (simp add: less_mult_imp_div_less mult.commute)
    moreover have "length (buf @ [?c]) + k \<le> 32" using Suc.prems(2) by simp
    ultimately obtain ds where ds: "dec_digits (v div 10) (buf @ [?c]) = (buf @ [?c]) @ ds"
      "foldr (\<lambda>c n. n * 10 + digit_value dec_chars c) ds 0 = unat (v div 10)"
      using Suc.IH by blast
    have "0 < v" using False by (simp add: word_gt_0)
    then have "dec_digits v buf = buf @ ?c # ds" using ds(1) Suc.prems(2) by (subst dec_digits.simps) simp
    moreover have "digit_value dec_chars ?c = unat v mod 10" using q(2) dec_digit_value [of "unat v mod 10"] by simp
    ultimately show ?thesis using ds(2) q(1) by (intro exI [of _ "?c # ds"]) simp
  qed
qed

definition dec_text :: "u64 \<Rightarrow> string" where
  "dec_text val = (if val = 0 then ''0'' else rev (dec_digits val []))"

lemma write_u64: "console_write_u64 h val s = console_write h (dec_text val) s"
  by (cases "console_putc h CHR ''0'' s") (simp_all add: console_write_u64_def dec_text_def)

text \<open>
  C28: The console as its users see it. Writing a string puts its characters, in order, on the serial line
  and into the kernel log (which keeps the last 8191), and onto the screen as on an endless sheet of
  lines of 80 characters of which 25 are shown: the row and column of the cursor are those of the
  end of the sheet, and every one of the 2000 cells is determined. A cell under text shows the character of
  its line; a cell without text holds what the text memory held before the first output, as long as the line is
  one of the first 25, and a blank when scrolling brought the line in. The text memory is never left. The
  only condition on the hardware is that the serial line accepts characters at all.
\<close>

theorem console_write_correct:
  assumes "serial_accepts h" "shows_sheet bg s sh" "klog_inv (con_klog s)" "kl_ready (con_klog s)"
  shows "\<exists>s'. console_write h str s = Some s' \<and> shows_sheet bg s' (fold sheet_putc str sh) \<and> vga_attr s' = vga_attr s \<and>
    io_log (con_io s') = io_log (con_io s) @ map (\<lambda>c. (COM1, of_char c)) str \<and>
    klog_contents (con_klog s') = last_n (KLOG_CAP - 1) (klog_contents (con_klog s) @ str) \<and> klog_inv (con_klog s') \<and> kl_ready (con_klog s')"
proof -
  let ?k = "con_klog s"
  have "length (klog_contents ?k) \<le> KLOG_CAP - 1" using klog_head_tail(2) [OF assms(3)] by (simp add: klog_contents_def)
  then have "klog_contents ?k = last_n (KLOG_CAP - 1) (klog_contents ?k)" by (simp add: last_n_def)
  from klog_fold_contents [OF assms(3,4) this, of str] klog_fold_ready [of str ?k] console_write_step [OF assms(1,2), of str] assms(4)
  show ?thesis by (auto simp: sent_def dest: io_run_log)
qed

text \<open>
  Numbers survive printing: the sixteen hexadecimal digits and the decimal digits that the kernel prints for a
  64-bit number denote that number again; the 32-character buffer of the decimal writer is long
  enough for every number.
\<close>

theorem printed_numbers_read_back:
  "console_write_hex_u64 h v s = console_write h (''0x'' @ hex_text 16 v) s \<and> number_value 16 hex_digits (hex_text 16 v) = unat v \<and>
   console_write_u64 h v s = console_write h (dec_text v) s \<and> number_value 10 dec_chars (dec_text v) = unat v"
proof -
  have lt: "unat v < 2 ^ 64" by (rule unat_bound64)
  then have "number_value 16 hex_digits (hex_text 16 v) = unat v"
    using hex_text_value [of 0 16 v] by (simp add: number_value_def)
  moreover have "number_value 10 dec_chars (dec_text v) = unat v"
  proof (cases "v = 0")
    case True
    have "number_value 10 dec_chars ''0'' = 0" by code_simp
    then show ?thesis using True by (simp add: dec_text_def)
  next
    case False
    have "unat v < 10 ^ 20" using lt by simp
    from dec_digits_value [OF this, of "[]"] show ?thesis
      using False by (auto simp: dec_text_def number_value_def foldl_conv_foldr)
  qed
  ultimately show ?thesis using write_hex write_u64 by blast
qed

text \<open>An exception report is one line with the saved words in hexadecimal; a page fault shows the address as well.\<close>

lemma exception_report:
  "nm_exception_dispatch h vec err rip cs rflags cr2 stack s =
     console_write h (''[EXC] vec=0x'' @ hex_text 16 vec @ '' err=0x'' @ hex_text 16 err @ '' rip=0x'' @ hex_text 16 rip @
       '' cs=0x'' @ hex_text 16 cs @ '' rflags=0x'' @ hex_text 16 rflags @
       (if vec = 14 then '' cr2=0x'' @ hex_text 16 cr2 else []) @ '' rsp=0x'' @ hex_text 16 stack @ [CHR 0x0A]) s"
proof -
  have seq: "do { s \<leftarrow> console_write h xs s; console_write h ys s } = console_write h (xs @ ys) s" for xs ys s
    by (simp only: console_write_append)
  have join: "do { s \<leftarrow> console_write h xs s; t \<leftarrow> console_write h ys s; f t } = do { t \<leftarrow> console_write h (xs @ ys) s; f t }" for xs ys s f
    by (simp only: console_write_append bind_assoc)
  show ?thesis
    by (cases "vec = 14") (simp_all only: nm_exception_dispatch_def write_hex simp_thms if_True if_False bind.bind_lunit join seq append_assoc append_Cons append_Nil)
qed

section \<open>Witnesses\<close>

text \<open>A machine whose serial line is always ready.\<close>

definition ready_hw :: "unit hw" where
  "ready_hw = \<lparr>hw_in = (\<lambda>port d. (0x20, d)), hw_out = (\<lambda>port v d. d)\<rparr>"

definition demo_console :: "unit console" where
  "demo_console = console_init ready_hw \<lparr>con_klog = klog_init klog_boot, vga_mem = replicate 2000 0x0741, vga_row = 7, vga_col = 7, vga_attr = 0x07,
     con_io = \<lparr>io_dev = (), io_log = []\<rparr>\<rparr>"

lemma ready_hw_accepts: "serial_accepts ready_hw"
  unfolding serial_accepts_def by (subst serial_wait.simps) (simp add: inb_def ready_hw_def)

lemma demo_console_shows: "shows_sheet (replicate 2000 0x0741) demo_console ([], [])"
  unfolding demo_console_def
  by (rule console_init_shows [of "\<lparr>con_klog = klog_init klog_boot, vga_mem = replicate 2000 0x0741, vga_row = 7, vga_col = 7, vga_attr = 0x07,
     con_io = \<lparr>io_dev = (), io_log = []\<rparr>\<rparr>", simplified]) (simp add: VGA_ROWS_def VGA_COLS_def)

definition demo_output :: string where
  "demo_output = ''hi'' @ replicate 25 CHR 0x0A"

text \<open>
  Two characters and 25 new lines on a screen full of old text: the screen scrolls once, its first row shows the old
  text of the second line and its last row is blank.
\<close>

theorem console_write_correct_witness:
  "\<exists>s'. console_write ready_hw demo_output demo_console = Some s' \<and> klog_contents (con_klog s') = demo_output \<and>
    take 2 (drop 7 (io_log (con_io s'))) = [(COM1, 0x68), (COM1, 0x69)] \<and> vga_row s' = 24 \<and> vga_col s' = 0 \<and>
    vga_mem s' ! 0 = 0x0741 \<and> vga_mem s' ! 1920 = 0x0720 \<and> vga_mem s' ! 1999 = 0x0720"
proof -
  have k: "con_klog demo_console = klog_init klog_boot" "length (io_log (con_io demo_console)) = 7" "vga_attr demo_console = 7"
    by (simp_all add: demo_console_def console_init_def serial_init_def)
  have ch: "(of_char CHR ''h'' :: u8) = 0x68" "(of_char CHR ''i'' :: u8) = 0x69" "cell 7 CHR '' '' = 0x0720" by code_simp+
  have sh: "fold sheet_putc demo_output ([], []) = (''hi'' # replicate 24 [], [])" by code_simp
  have dec: "demo_output = CHR ''h'' # CHR ''i'' # replicate 25 CHR 0x0A" by (simp add: demo_output_def)
  from console_write_correct [OF ready_hw_accepts demo_console_shows, of demo_output] obtain s' where
    s': "console_write ready_hw demo_output demo_console = Some s'"
      "shows_sheet (replicate 2000 0x0741) s' (''hi'' # replicate 24 [], [])" "vga_attr s' = 7"
      "io_log (con_io s') = io_log (con_io demo_console) @ map (\<lambda>c. (COM1, of_char c)) demo_output"
      "klog_contents (con_klog s') = last_n (KLOG_CAP - 1) demo_output"
    using klog_init_inv [OF klog_boot_inv] klog_init_contents k sh by (auto simp: klog_init_def)
  have cells: "vga_mem s' ! (r * 80 + c) = sheet_cell (replicate 2000 0x0741) 7 (''hi'' # replicate 24 [], []) (1 + r) c"
    if "r < 25" "c < 80" for r c
    using s'(2,3) that by (simp add: shows_sheet_def sheet_top_def VGA_ROWS_def VGA_COLS_def)
  have "vga_mem s' ! 0 = 0x0741" using cells [of 0 0] by (simp add: sheet_cell_def sheet_line_def VGA_ROWS_def VGA_COLS_def nth_append)
  moreover have "vga_mem s' ! 1920 = 0x0720" "vga_mem s' ! 1999 = 0x0720"
    using cells [of 24 0] cells [of 24 79] ch(3) by (simp_all add: sheet_cell_def sheet_line_def VGA_ROWS_def VGA_COLS_def nth_append)
  moreover have "vga_row s' = 24" "vga_col s' = 0" using s'(2) by (simp_all add: shows_sheet_def sheet_top_def VGA_ROWS_def)
  moreover have "klog_contents (con_klog s') = demo_output" using s'(5) by (simp add: last_n_def KLOG_CAP_def demo_output_def)
  moreover have "take 2 (drop 7 (io_log (con_io s'))) = [(COM1, 0x68), (COM1, 0x69)]" using s'(4) k(2) ch(1,2) by (simp add: dec)
  ultimately show ?thesis using s'(1) by blast
qed

end
