(* ===== verification/Irq.thy ===== *)
theory Irq
  imports NM_Prelude
begin

text \<open>
  The interrupt framework of \<^verbatim>\<open>kernel/drivers/irq.c\<close>: a table of 256 descriptors and a ring of
  deferred bottom halves (one of its 256 cells stays free). Handlers are code pointers; what calling
  one does is a parameter of the model (\<open>call_top\<close>, \<open>call_bh\<close>), which may change both the state of
  this module and the rest of the kernel, of type \<open>'w\<close>. The lemmas show that the ring is a bounded
  first-in-first-out queue and that draining it runs every deferred handler once, in order.
\<close>

section \<open>State and operations\<close>

definition NM_MAX_IRQ :: int where
  "NM_MAX_IRQ = 256"

definition NM_BH_QUEUE_CAP :: nat where
  "NM_BH_QUEUE_CAP = 256"

record nm_irq_desc =
  id_used :: bool
  id_irq :: int
  id_top_half :: u64
  id_bottom_half :: u64
  id_ctx :: u64
  id_name :: u64
  id_hit_count :: u64

record bh_item =
  bh_fn :: u64
  bh_ctx :: u64

record irq_state =
  irq_table :: "nm_irq_desc list"
  bh_queue :: "bh_item list"
  bh_head :: nat
  bh_tail :: nat

definition bh_enqueue :: "u64 \<Rightarrow> u64 \<Rightarrow> irq_state \<Rightarrow> int \<times> irq_state" where
  "bh_enqueue fn ctx s =
     (let next = (bh_tail s + 1) mod NM_BH_QUEUE_CAP in
      if next = bh_head s then (NM_ERR NM_EBUSY, s)
      else (0, s\<lparr>bh_queue := (bh_queue s)[bh_tail s := \<lparr>bh_fn = fn, bh_ctx = ctx\<rparr>], bh_tail := next\<rparr>))"

definition irq_unused_desc :: "nat \<Rightarrow> nm_irq_desc" where
  "irq_unused_desc i = \<lparr>id_used = False, id_irq = int i, id_top_half = 0, id_bottom_half = 0,
     id_ctx = 0, id_name = 0, id_hit_count = 0\<rparr>"

definition irq_init :: "irq_state \<Rightarrow> irq_state" where
  "irq_init s = s\<lparr>irq_table := map irq_unused_desc [0..<nat NM_MAX_IRQ], bh_head := 0, bh_tail := 0\<rparr>"

definition irq_register :: "int \<Rightarrow> u64 \<Rightarrow> u64 \<Rightarrow> u64 \<Rightarrow> u64 \<Rightarrow> irq_state \<Rightarrow> int \<times> irq_state" where
  "irq_register irq top_half bottom_half ctx name s =
     (if irq < 0 \<or> irq \<ge> NM_MAX_IRQ \<or> top_half = 0 then (NM_ERR NM_EFAIL, s)
      else (0, s\<lparr>irq_table := (irq_table s)[nat irq := (irq_table s ! nat irq)
                \<lparr>id_used := True, id_top_half := top_half, id_bottom_half := bottom_half,
                 id_ctx := ctx, id_name := name, id_hit_count := 0\<rparr>]\<rparr>))"

definition irq_unregister :: "int \<Rightarrow> irq_state \<Rightarrow> int \<times> irq_state" where
  "irq_unregister irq s =
     (if irq < 0 \<or> irq \<ge> NM_MAX_IRQ then (NM_ERR NM_EFAIL, s)
      else (0, s\<lparr>irq_table := (irq_table s)[nat irq := (irq_table s ! nat irq)
                \<lparr>id_used := False, id_top_half := 0, id_bottom_half := 0,
                 id_ctx := 0, id_name := 0, id_hit_count := 0\<rparr>]\<rparr>))"

type_synonym 'w top_half_code = "u64 \<Rightarrow> int \<Rightarrow> u64 \<Rightarrow> irq_state \<times> 'w \<Rightarrow> irq_state \<times> 'w"
type_synonym 'w bottom_half_code = "u64 \<Rightarrow> u64 \<Rightarrow> irq_state \<times> 'w \<Rightarrow> irq_state \<times> 'w"

definition irq_handle :: "'w top_half_code \<Rightarrow> int \<Rightarrow> irq_state \<Rightarrow> 'w \<Rightarrow> int \<times> irq_state \<times> 'w" where
  "irq_handle call_top irq s w =
     (if irq < 0 \<or> irq \<ge> NM_MAX_IRQ then (NM_ERR NM_EFAIL, s, w)
      else let d = irq_table s ! nat irq in
        if \<not> id_used d \<or> id_top_half d = 0 then (NM_ERR NM_EFAIL, s, w)
        else let s1 = s\<lparr>irq_table := (irq_table s)[nat irq := d\<lparr>id_hit_count := id_hit_count d + 1\<rparr>]\<rparr>;
                 (s2, w2) = call_top (id_top_half d) irq (id_ctx d) (s1, w)
             in if id_bottom_half d \<noteq> 0
                then (0, snd (bh_enqueue (id_bottom_half d) (id_ctx d) s2), w2)
                else (0, s2, w2))"

text \<open>One locked section of the drain loop: take the item at the head, if there is one.\<close>

definition bh_dequeue :: "irq_state \<Rightarrow> (bh_item \<times> irq_state) option" where
  "bh_dequeue s =
     (if bh_head s = bh_tail s then None
      else Some (bh_queue s ! bh_head s, s\<lparr>bh_head := (bh_head s + 1) mod NM_BH_QUEUE_CAP\<rparr>))"

text \<open>
  The drain loop ends only when the queue is empty, and a bottom half may queue further work, so
  nothing bounds it in general: \<open>None\<close> is a drain that never returns.
\<close>

partial_function (option) irq_run_bottom_halves ::
  "'w bottom_half_code \<Rightarrow> irq_state \<Rightarrow> 'w \<Rightarrow> (irq_state \<times> 'w) option" where
  "irq_run_bottom_halves call_bh s w =
     (case bh_dequeue s of
        None \<Rightarrow> Some (s, w)
      | Some (item, s1) \<Rightarrow>
          (let sw = (if bh_fn item \<noteq> 0 then call_bh (bh_fn item) (bh_ctx item) (s1, w) else (s1, w))
           in irq_run_bottom_halves call_bh (fst sw) (snd sw)))"

definition irq_get_desc :: "int \<Rightarrow> irq_state \<Rightarrow> nm_irq_desc option" where
  "irq_get_desc irq s =
     (if irq < 0 \<or> irq \<ge> NM_MAX_IRQ then None
      else if id_used (irq_table s ! nat irq) then Some (irq_table s ! nat irq) else None)"

section \<open>Invariant and the queue of pending bottom halves\<close>

definition irq_inv :: "irq_state \<Rightarrow> bool" where
  "irq_inv s \<longleftrightarrow> length (irq_table s) = nat NM_MAX_IRQ \<and> length (bh_queue s) = NM_BH_QUEUE_CAP \<and>
     bh_head s < NM_BH_QUEUE_CAP \<and> bh_tail s < NM_BH_QUEUE_CAP"

definition bh_len :: "irq_state \<Rightarrow> nat" where
  "bh_len s = (bh_tail s + NM_BH_QUEUE_CAP - bh_head s) mod NM_BH_QUEUE_CAP"

definition bh_pending :: "irq_state \<Rightarrow> bh_item list" where
  "bh_pending s = ring_seg (bh_queue s) (bh_head s) (bh_len s)"

definition bh_enq :: "bh_item \<Rightarrow> irq_state \<Rightarrow> irq_state option" where
  "bh_enq it s = (case bh_enqueue (bh_fn it) (bh_ctx it) s of (r, s') \<Rightarrow> if r = 0 then Some s' else None)"

lemma irq_init_inv [nm_inv]: "length (bh_queue s) = NM_BH_QUEUE_CAP \<Longrightarrow> irq_inv (irq_init s)"
  by (simp add: irq_inv_def irq_init_def NM_BH_QUEUE_CAP_def)

lemma irq_register_inv [nm_inv]: "irq_inv s \<Longrightarrow> irq_inv (snd (irq_register irq th bh ctx name s))"
  by (simp add: irq_inv_def irq_register_def)

lemma irq_unregister_inv [nm_inv]: "irq_inv s \<Longrightarrow> irq_inv (snd (irq_unregister irq s))"
  by (simp add: irq_inv_def irq_unregister_def)

lemma bh_enqueue_inv [nm_inv]: "irq_inv s \<Longrightarrow> irq_inv (snd (bh_enqueue fn ctx s))"
  by (simp add: irq_inv_def bh_enqueue_def Let_def NM_BH_QUEUE_CAP_def)

lemma bh_tail_eq:
  assumes "irq_inv s"
  shows "bh_tail s = (bh_head s + bh_len s) mod NM_BH_QUEUE_CAP" and "bh_len s < NM_BH_QUEUE_CAP"
proof -
  have "(bh_head s + (bh_tail s + NM_BH_QUEUE_CAP - bh_head s)) mod NM_BH_QUEUE_CAP = bh_tail s"
    using assms by (simp add: irq_inv_def)
  then show "bh_tail s = (bh_head s + bh_len s) mod NM_BH_QUEUE_CAP"
    unfolding bh_len_def by (simp add: mod_add_right_eq)
  show "bh_len s < NM_BH_QUEUE_CAP" by (simp add: bh_len_def NM_BH_QUEUE_CAP_def)
qed

lemma bh_enqueue_cases:
  assumes "irq_inv s"
  shows "bh_len s = NM_BH_QUEUE_CAP - 1 \<Longrightarrow> bh_enqueue fn ctx s = (NM_ERR NM_EBUSY, s)"
    and "bh_len s \<noteq> NM_BH_QUEUE_CAP - 1 \<Longrightarrow> fst (bh_enqueue fn ctx s) = 0 \<and>
      bh_pending (snd (bh_enqueue fn ctx s)) = bh_pending s @ [\<lparr>bh_fn = fn, bh_ctx = ctx\<rparr>]"
proof -
  have t: "bh_tail s < NM_BH_QUEUE_CAP" and h: "bh_head s < NM_BH_QUEUE_CAP"
    and l: "length (bh_queue s) = NM_BH_QUEUE_CAP"
    using assms by (simp_all add: irq_inv_def)
  note cases = ring_dist_cases [OF t h bh_len_def]
  show "bh_len s = NM_BH_QUEUE_CAP - 1 \<Longrightarrow> bh_enqueue fn ctx s = (NM_ERR NM_EBUSY, s)"
    using cases(1) by (simp add: bh_enqueue_def)
  assume room: "bh_len s \<noteq> NM_BH_QUEUE_CAP - 1"
  have "ring_seg ((bh_queue s)[bh_tail s := \<lparr>bh_fn = fn, bh_ctx = ctx\<rparr>]) (bh_head s) (Suc (bh_len s))
    = bh_pending s @ [\<lparr>bh_fn = fn, bh_ctx = ctx\<rparr>]"
    using ring_seg_push [of "bh_len s" "bh_queue s" "bh_head s"] bh_tail_eq [OF assms] l
    by (simp add: bh_pending_def)
  then show "fst (bh_enqueue fn ctx s) = 0 \<and>
      bh_pending (snd (bh_enqueue fn ctx s)) = bh_pending s @ [\<lparr>bh_fn = fn, bh_ctx = ctx\<rparr>]"
    using room cases(1,2) by (simp add: bh_enqueue_def bh_pending_def bh_len_def)
qed

lemma bh_pending_length: "length (bh_pending s) = bh_len s"
  by (simp add: bh_pending_def)

lemma bh_len_0_iff: "irq_inv s \<Longrightarrow> bh_len s = 0 \<longleftrightarrow> bh_head s = bh_tail s"
  unfolding bh_len_def by (subst mod_less_twice) (auto simp: irq_inv_def)

lemma bh_dequeue_front:
  assumes "irq_inv s" "bh_pending s \<noteq> []"
  shows "\<exists>s'. bh_dequeue s = Some (hd (bh_pending s), s') \<and> irq_inv s' \<and> bh_pending s' = tl (bh_pending s)"
proof -
  let ?s' = "s\<lparr>bh_head := (bh_head s + 1) mod NM_BH_QUEUE_CAP\<rparr>"
  have ne: "bh_head s \<noteq> bh_tail s"
    using assms bh_len_0_iff [OF assms(1)] by (auto simp: bh_pending_def)
  obtain k where k: "bh_len s = Suc k"
    using assms(2) by (cases "bh_len s") (auto simp: bh_pending_def)
  have k': "bh_len ?s' = k"
    using ring_dist_step [of "bh_tail s" NM_BH_QUEUE_CAP "bh_head s" k] assms(1) k
    by (simp add: irq_inv_def bh_len_def)
  have len: "length (bh_queue s) = NM_BH_QUEUE_CAP" and h: "bh_head s < NM_BH_QUEUE_CAP"
    using assms(1) by (simp_all add: irq_inv_def)
  have "bh_pending ?s' = tl (bh_pending s)"
    using k k' ring_seg_mod [of "bh_queue s" "Suc (bh_head s)" k] len
    by (simp add: bh_pending_def ring_seg_Cons)
  moreover have "hd (bh_pending s) = bh_queue s ! bh_head s"
    using k len h by (simp add: bh_pending_def ring_seg_Cons)
  moreover have "irq_inv ?s'" using assms(1) by (simp add: irq_inv_def NM_BH_QUEUE_CAP_def)
  ultimately show ?thesis using ne by (simp add: bh_dequeue_def)
qed

interpretation bhq: bounded_fifo bh_enq bh_dequeue bh_pending irq_inv "\<lambda>_ _. True" "NM_BH_QUEUE_CAP - 1"
proof unfold_locales
  fix q x
  assume inv: "irq_inv q"
  show "\<exists>q'. bh_enq x q = Some q' \<and> irq_inv q' \<and> True \<and> bh_pending q' = bh_pending q @ [x]"
    if "length (bh_pending q) < NM_BH_QUEUE_CAP - 1"
    using that bh_enqueue_cases(2) [OF inv, of "bh_fn x" "bh_ctx x"]
      bh_enqueue_inv [OF inv, of "bh_fn x" "bh_ctx x"]
    by (auto simp: bh_enq_def bh_pending_length split: prod.splits)
  show "bh_enq x q = None" if "length (bh_pending q) = NM_BH_QUEUE_CAP - 1"
    using that bh_enqueue_cases(1) [OF inv] by (simp add: bh_enq_def bh_pending_length)
  show "length (bh_pending q) \<le> NM_BH_QUEUE_CAP - 1"
    using bh_tail_eq(2) [OF inv] by (simp add: bh_pending_length)
  show "bh_dequeue q = None" if "bh_pending q = []"
    using that bh_len_0_iff [OF inv] bh_pending_length [of q] by (simp add: bh_dequeue_def)
  show "\<exists>q'. bh_dequeue q = Some (hd (bh_pending q), q') \<and> irq_inv q' \<and> (\<forall>n. True \<longrightarrow> True) \<and> bh_pending q' = tl (bh_pending q)"
    if "bh_pending q \<noteq> []"
    using that bh_dequeue_front [OF inv] by blast
qed

section \<open>Draining the queue\<close>

definition run_item :: "(u64 \<Rightarrow> u64 \<Rightarrow> 'w \<Rightarrow> 'w) \<Rightarrow> bh_item \<Rightarrow> 'w \<Rightarrow> 'w" where
  "run_item f it w = (if bh_fn it \<noteq> 0 then f (bh_fn it) (bh_ctx it) w else w)"

lemma bh_dequeue_state: "bh_dequeue s = Some (it, s') \<Longrightarrow> s' = s\<lparr>bh_head := bh_head s'\<rparr>"
  by (auto simp: bh_dequeue_def split: if_splits)

lemma irq_run_step:
  assumes "bh_dequeue s = Some (it, s1)" "\<And>fn ctx s w. call_bh fn ctx (s, w) = (s, f fn ctx w)"
  shows "irq_run_bottom_halves call_bh s w = irq_run_bottom_halves call_bh s1 (run_item f it w)"
  using assms by (simp add: irq_run_bottom_halves.simps [of call_bh s] run_item_def)

lemma irq_drain:
  assumes call: "\<And>fn ctx s w. call_bh fn ctx (s, w) = (s, f fn ctx w)"
  shows "irq_inv s \<Longrightarrow> bh_pending s = its \<Longrightarrow>
    \<exists>s'. irq_run_bottom_halves call_bh s w = Some (s', fold (run_item f) its w) \<and>
      irq_inv s' \<and> bh_pending s' = [] \<and> irq_table s' = irq_table s"
proof (induction its arbitrary: s w)
  case Nil
  then show ?case by (simp add: irq_run_bottom_halves.simps bhq.deq_empty)
next
  case (Cons it its)
  then obtain s1 where s1: "bh_dequeue s = Some (it, s1)" "irq_inv s1" "bh_pending s1 = its"
    using bhq.deq_front [of s] by auto
  have "irq_table s1 = irq_table s"
    using s1(1) by (auto simp: bh_dequeue_def split: if_splits)
  then show ?case
    using Cons.IH [OF s1(2,3), of "run_item f it w"] irq_run_step [where f = f and w = w, OF s1(1) call] by simp
qed

lemma enq_all_table: "enq_all bh_enq its s = Some q \<Longrightarrow> irq_table q = irq_table s"
  by (induction its arbitrary: s) (auto simp: bh_enq_def bh_enqueue_def Let_def split: option.splits if_splits)

lemma irq_handle_used:
  assumes "0 \<le> irq" "irq < NM_MAX_IRQ" "irq_table s ! nat irq = d" "id_used d" "id_top_half d \<noteq> 0"
    and "s1 = s\<lparr>irq_table := (irq_table s)[nat irq := d\<lparr>id_hit_count := id_hit_count d + 1\<rparr>]\<rparr>"
    and "call_top (id_top_half d) irq (id_ctx d) (s1, w) = (s2, w2)"
  shows "irq_handle call_top irq s w =
    (0, if id_bottom_half d \<noteq> 0 then snd (bh_enqueue (id_bottom_half d) (id_ctx d) s2) else s2, w2)"
  using assms by (simp add: irq_handle_def Let_def)

section \<open>Properties\<close>

text \<open>
  \<^verbatim>\<open>irq_run_bottom_halves\<close> returns whenever the bottom halves only touch state outside the
  interrupt module, and then it has run every pending bottom half exactly once, in the order in
  which they were queued, and left the queue empty.
\<close>
theorem irq_run_bottom_halves_drains:
  assumes "irq_inv s"
    and "\<And>fn ctx s w. call_bh fn ctx (s, w) = (s, f fn ctx w)"
  shows "\<exists>s'. irq_run_bottom_halves call_bh s w = Some (s', fold (run_item f) (bh_pending s) w) \<and>
    irq_inv s' \<and> bh_pending s' = [] \<and> irq_table s' = irq_table s"
  using irq_drain [of call_bh f s "bh_pending s" w] assms by blast

definition demo_irq :: irq_state where
  "demo_irq = irq_init \<lparr>irq_table = [], bh_queue = replicate NM_BH_QUEUE_CAP \<lparr>bh_fn = 0, bh_ctx = 0\<rparr>,
     bh_head = 0, bh_tail = 0\<rparr>"

lemma demo_irq_inv: "irq_inv demo_irq"
  by (simp add: demo_irq_def irq_init_inv)

lemma demo_irq_pending: "bh_pending demo_irq = []"
  by (simp add: demo_irq_def irq_init_def bh_pending_def bh_len_def)

theorem irq_run_bottom_halves_drains_witness:
  "\<exists>s'. irq_run_bottom_halves (\<lambda>fn ctx (s, w). (s, w @ [ctx])) (snd (bh_enqueue 5 9 demo_irq)) [7] =
     Some (s', [7, 9]) \<and> bh_pending s' = []"
proof -
  have "bh_pending (snd (bh_enqueue 5 9 demo_irq)) = [\<lparr>bh_fn = 5, bh_ctx = 9\<rparr>]"
    using bh_enqueue_cases(2) [OF demo_irq_inv, of 5 9] demo_irq_pending bh_pending_length [of demo_irq]
    by (simp add: NM_BH_QUEUE_CAP_def)
  then show ?thesis
    using irq_run_bottom_halves_drains [of "snd (bh_enqueue 5 9 demo_irq)"
        "\<lambda>fn ctx (s, w). (s, w @ [ctx])" "\<lambda>fn ctx w. w @ [ctx]" "[7]"]
      bh_enqueue_inv [OF demo_irq_inv, of 5 9]
    by (auto simp: run_item_def)
qed

text \<open>
  a handler registered with \<^verbatim>\<open>irq_register\<close> is the one \<^verbatim>\<open>irq_handle\<close> runs: the interrupt
  calls the top half once with the registered context, counts the hit, and defers the registered
  bottom half with that context (when there is one).
\<close>
theorem irq_register_then_handle:
  assumes "irq_inv s" "irq_register irq th bh ctx name s = (0, s1)"
    and "d = (irq_table s ! nat irq)\<lparr>id_used := True, id_top_half := th, id_bottom_half := bh,
           id_ctx := ctx, id_name := name, id_hit_count := 0\<rparr>"
    and "s2 = s1\<lparr>irq_table := (irq_table s1)[nat irq := d\<lparr>id_hit_count := 1\<rparr>]\<rparr>"
    and "call_top th irq ctx (s2, w) = (s3, w3)"
  shows "irq_get_desc irq s1 = Some d \<and>
    irq_handle call_top irq s1 w = (0, if bh \<noteq> 0 then snd (bh_enqueue bh ctx s3) else s3, w3)"
proof (intro conjI)
  have r: "0 \<le> irq" "irq < NM_MAX_IRQ" "th \<noteq> 0" and s1: "s1 = s\<lparr>irq_table := (irq_table s)[nat irq := d]\<rparr>"
    using assms(2,3) by (auto simp: irq_register_def split: if_splits)
  have d: "irq_table s1 ! nat irq = d"
    using r s1 assms(1) by (simp add: irq_inv_def)
  show "irq_get_desc irq s1 = Some d"
    using r d assms(3) by (simp add: irq_get_desc_def)
  show "irq_handle call_top irq s1 w = (0, if bh \<noteq> 0 then snd (bh_enqueue bh ctx s3) else s3, w3)"
    using irq_handle_used [OF r(1,2) d, of s2 call_top w s3 w3] assms(3-5) r by simp
qed

theorem irq_register_then_handle_witness:
  "\<exists>d s1. irq_register 32 100 0 7 0 demo_irq = (0, s1) \<and> irq_get_desc 32 s1 = Some d \<and>
     id_top_half d = 100 \<and> fst (irq_handle (\<lambda>th irq ctx (s, w). (s, w + 1)) 32 s1 (0 :: nat)) = 0"
proof -
  obtain s1 where s1: "irq_register 32 100 0 7 0 demo_irq = (0, s1)"
    by (auto simp: irq_register_def NM_MAX_IRQ_def)
  show ?thesis
    using irq_register_then_handle [OF demo_irq_inv s1 refl refl, of "\<lambda>th irq ctx (s, w). (s, w + 1)" "0 :: nat"] s1
    by auto
qed

text \<open>
  the deferred-work ring is a first-in-first-out queue of 255 items: whatever is queued from
  empty comes out in the same order, and nothing is left.
\<close>
theorem bh_queue_fifo:
  assumes "irq_inv s" "bh_pending s = []" "length its \<le> NM_BH_QUEUE_CAP - 1"
  shows "\<exists>s1 s2. enq_all bh_enq its s = Some s1 \<and> deq_all bh_dequeue (length its) s1 = (its, s2) \<and>
    bh_pending s2 = []"
  using bhq.fifo_roundtrip [OF assms(1) _ assms(2,3)] by blast

theorem bh_queue_fifo_witness:
  "\<exists>s1 s2. enq_all bh_enq [\<lparr>bh_fn = 1, bh_ctx = 2\<rparr>, \<lparr>bh_fn = 3, bh_ctx = 4\<rparr>] demo_irq = Some s1 \<and>
     deq_all bh_dequeue 2 s1 = ([\<lparr>bh_fn = 1, bh_ctx = 2\<rparr>, \<lparr>bh_fn = 3, bh_ctx = 4\<rparr>], s2) \<and> bh_pending s2 = []"
  using bh_queue_fifo [OF demo_irq_inv demo_irq_pending,
      of "[\<lparr>bh_fn = 1, bh_ctx = 2\<rparr>, \<lparr>bh_fn = 3, bh_ctx = 4\<rparr>]"]
  by (simp add: NM_BH_QUEUE_CAP_def numeral_2_eq_2 del: enq_all.simps deq_all.simps)

text \<open>
  a full ring loses work silently. With 255 bottom halves pending, \<^verbatim>\<open>bh_enqueue\<close> reports
  \<^verbatim>\<open>NM_EBUSY\<close>, but \<^verbatim>\<open>irq_handle\<close> drops that result: it runs the top half, returns 0 and the
  bottom half is never queued.
\<close>
theorem irq_handle_full_drops:
  assumes "irq_inv s" "length (bh_pending s) = NM_BH_QUEUE_CAP - 1"
    and "0 \<le> irq" "irq < NM_MAX_IRQ" "irq_table s ! nat irq = d"
    and "id_used d" "id_top_half d \<noteq> 0" "id_bottom_half d \<noteq> 0"
    and "\<And>s w. call_top (id_top_half d) irq (id_ctx d) (s, w) = (s, g w)"
  shows "\<exists>s'. irq_handle call_top irq s w = (0, s', g w) \<and> bh_pending s' = bh_pending s"
proof -
  let ?s1 = "s\<lparr>irq_table := (irq_table s)[nat irq := d\<lparr>id_hit_count := id_hit_count d + 1\<rparr>]\<rparr>"
  have same: "bh_pending ?s1 = bh_pending s" by (simp add: bh_pending_def bh_len_def)
  have "irq_inv ?s1" using assms(1) by (simp add: irq_inv_def)
  moreover have "bh_len ?s1 = NM_BH_QUEUE_CAP - 1"
    using assms(2) same by (metis bh_pending_length)
  ultimately have "bh_enqueue (id_bottom_half d) (id_ctx d) ?s1 = (NM_ERR NM_EBUSY, ?s1)"
    by (rule bh_enqueue_cases(1))
  then show ?thesis
    using irq_handle_used [OF assms(3-7) refl, of call_top w ?s1 "g w"] assms(8,9) same
    by auto
qed

theorem irq_handle_full_drops_witness:
  "\<exists>s s'. length (bh_pending s) = 255 \<and> irq_handle (\<lambda>th irq ctx (s, w). (s, w + 1)) 32 s (0 :: nat) = (0, s', 1) \<and>
     bh_pending s' = bh_pending s"
proof -
  let ?its = "replicate 255 \<lparr>bh_fn = 3, bh_ctx = 4\<rparr>"
  let ?s1 = "snd (irq_register 32 100 200 7 0 demo_irq)"
  have inv: "irq_inv ?s1" by (rule irq_register_inv [OF demo_irq_inv])
  have "bh_pending ?s1 = []"
    using demo_irq_pending by (simp add: irq_register_def NM_MAX_IRQ_def bh_pending_def bh_len_def)
  then obtain q where q: "enq_all bh_enq ?its ?s1 = Some q" "irq_inv q" "bh_pending q = ?its"
    using bhq.enq_all_room [OF inv, of ?its] by (auto simp: NM_BH_QUEUE_CAP_def)
  let ?d = "(irq_table demo_irq ! 32)\<lparr>id_used := True, id_top_half := 100,
      id_bottom_half := 200, id_ctx := 7, id_name := 0, id_hit_count := 0\<rparr>"
  have d: "irq_table q ! nat 32 = ?d"
    using enq_all_table [OF q(1)] demo_irq_inv by (simp add: irq_register_def irq_inv_def NM_MAX_IRQ_def)
  have len: "length (bh_pending q) = NM_BH_QUEUE_CAP - 1" "length (bh_pending q) = 255"
    using q(3) by (simp_all add: NM_BH_QUEUE_CAP_def)
  have "\<exists>s'. irq_handle (\<lambda>th irq ctx (s, w). (s, w + 1)) 32 q (0 :: nat) = (0, s', 0 + 1) \<and>
      bh_pending s' = bh_pending q"
    by (rule irq_handle_full_drops [OF q(2) len(1) _ _ d]) (simp_all add: NM_MAX_IRQ_def)
  then show ?thesis using len(2) by auto
qed

end
