(* ===== verification/Drivers.thy ===== *)
theory Drivers
  imports Irq Ports "HOL-Library.Monad_Syntax"
begin

text \<open>
  The device drivers of \<^verbatim>\<open>kernel/drivers\<close>: the interrupt controllers (\<^verbatim>\<open>pic.c\<close>), the timer (\<^verbatim>\<open>pit.c\<close>), the
  keyboard (\<^verbatim>\<open>keyboard.c\<close>), the PCI scan (\<^verbatim>\<open>pci.c\<close>) and the network card (\<^verbatim>\<open>rtl8139.c\<close>), with the C side of an
  interrupt (\<^verbatim>\<open>kernel/irq_isr.c\<close>). Devices are reached through ports only, see \<open>Ports\<close>. The addresses of the
  two top halves are parameters. A shift by 32 or more, undefined in C, has no result.
\<close>

section \<open>Interrupt controllers\<close>

definition PIC1_COMMAND :: u16 where "PIC1_COMMAND = 0x20"
definition PIC1_DATA :: u16 where "PIC1_DATA = 0x21"
definition PIC2_COMMAND :: u16 where "PIC2_COMMAND = 0xA0"
definition PIC2_DATA :: u16 where "PIC2_DATA = 0xA1"
definition PIC_EOI :: u8 where "PIC_EOI = 0x20"

lemmas pic_ports = PIC1_COMMAND_def PIC1_DATA_def PIC2_COMMAND_def PIC2_DATA_def PIC_EOI_def

definition pic_remap :: "'d hw \<Rightarrow> u8 \<Rightarrow> u8 \<Rightarrow> 'd io \<Rightarrow> 'd io" where
  "pic_remap h offset1 offset2 io =
     (let (a1, io) = inb h PIC1_DATA io; (a2, io) = inb h PIC2_DATA io;
          io = io_wait h (outb h PIC1_COMMAND 0x11 io);
          io = io_wait h (outb h PIC2_COMMAND 0x11 io);
          io = io_wait h (outb h PIC1_DATA offset1 io);
          io = io_wait h (outb h PIC2_DATA offset2 io);
          io = io_wait h (outb h PIC1_DATA 0x04 io);
          io = io_wait h (outb h PIC2_DATA 0x02 io);
          io = io_wait h (outb h PIC1_DATA 0x01 io);
          io = io_wait h (outb h PIC2_DATA 0x01 io)
      in outb h PIC2_DATA a2 (outb h PIC1_DATA a1 io))"

definition pic_set_mask :: "'d hw \<Rightarrow> u8 \<Rightarrow> bool \<Rightarrow> 'd io \<Rightarrow> 'd io option" where
  "pic_set_mask h irq_line masked io =
     (let (port, line) = (if irq_line < 8 then (PIC1_DATA, irq_line) else (PIC2_DATA, irq_line - 8));
          (val, io) = inb h port io
      in if unat line \<ge> 32 then None
         else let b = push_bit (unat line) (1 :: u32);
                  val = (if masked then val OR ucast b else val AND ucast (NOT b))
              in Some (outb h port val io))"

definition pic_send_eoi :: "'d hw \<Rightarrow> u8 \<Rightarrow> 'd io \<Rightarrow> 'd io" where
  "pic_send_eoi h irq_line io =
     outb h PIC1_COMMAND PIC_EOI (if irq_line \<ge> 8 then outb h PIC2_COMMAND PIC_EOI io else io)"

definition pic_init :: "'d hw \<Rightarrow> 'd io \<Rightarrow> 'd io option" where
  "pic_init h io =
     do { let io = outb h PIC2_DATA 0xFF (outb h PIC1_DATA 0xFF (pic_remap h 0x20 0x28 io));
          io \<leftarrow> pic_set_mask h 0 False io;
          pic_set_mask h 1 False io }"

section \<open>Timer and keyboard\<close>

definition PIT_BASE_HZ :: u32 where "PIT_BASE_HZ = 1193182"

text \<open>The state of the two drivers, and the ports below them.\<close>

record 'd devices =
  dv_io :: "'d io"
  g_pit_ticks :: u64
  g_last_char :: int

definition pit_irq_top :: "'d devices \<Rightarrow> 'd devices" where
  "pit_irq_top w = w\<lparr>g_pit_ticks := g_pit_ticks w + 1\<rparr>"

definition pit_divisor :: "u32 \<Rightarrow> u16" where
  "pit_divisor hz = ucast (PIT_BASE_HZ div (if hz = 0 then 100 else hz))"

definition pit_init :: "'d hw \<Rightarrow> u64 \<Rightarrow> u64 \<Rightarrow> u32 \<Rightarrow> irq_state \<Rightarrow> 'd devices \<Rightarrow> irq_state \<times> 'd devices" where
  "pit_init h pit_fn name hz irq w =
     (let divisor = pit_divisor hz;
          io = outb h 0x43 0x36 (dv_io w);
          io = outb h 0x40 (ucast (divisor AND 0xFF)) io;
          io = outb h 0x40 (ucast ((drop_bit 8 divisor) AND 0xFF)) io
      in (snd (irq_register 32 pit_fn 0 0 name irq), w\<lparr>dv_io := io\<rparr>))"

definition pit_ticks :: "'d devices \<Rightarrow> u64" where
  "pit_ticks w = g_pit_ticks w"

definition KBD_DATA_PORT :: u16 where "KBD_DATA_PORT = 0x60"
definition KBD_STATUS_PORT :: u16 where "KBD_STATUS_PORT = 0x64"

text \<open>The characters of the table as their codes; the entries from 58 on are zero.\<close>

definition kbd_map :: "int list" where
  "kbd_map = map (\<lambda>c. of_char c)
     ([CHR 0x00, CHR 0x1B] @ ''1234567890-='' @ [CHR 0x08, CHR 0x09] @ ''qwertyuiop[]'' @ [CHR 0x0A, CHR 0x00] @
      ''asdfghjkl;'' @ [CHR 0x27, CHR 0x60, CHR 0x00, CHR 0x5C] @ ''zxcvbnm,./'' @ [CHR 0x00] @ ''*'' @ [CHR 0x00] @ '' '')
     @ replicate 70 0"

definition scancode_to_ascii :: "u8 \<Rightarrow> int" where
  "scancode_to_ascii sc = (if sc \<ge> 128 then 0 else kbd_map ! unat sc)"

definition keyboard_irq_top :: "'d hw \<Rightarrow> 'd devices \<Rightarrow> 'd devices" where
  "keyboard_irq_top h w =
     (let (status, io) = inb h KBD_STATUS_PORT (dv_io w) in
      if status AND 0x01 = 0 then w\<lparr>dv_io := io\<rparr>
      else let (sc, io) = inb h KBD_DATA_PORT io in
        if sc AND 0x80 \<noteq> 0 then w\<lparr>dv_io := io\<rparr>
        else let c = scancode_to_ascii sc in
          if c \<noteq> 0 then w\<lparr>dv_io := io, g_last_char := c\<rparr> else w\<lparr>dv_io := io\<rparr>)"

definition keyboard_init :: "u64 \<Rightarrow> u64 \<Rightarrow> irq_state \<Rightarrow> irq_state" where
  "keyboard_init kbd_fn name irq = snd (irq_register 33 kbd_fn 0 0 name irq)"

definition keyboard_poll_char :: "'d devices \<Rightarrow> int \<times> 'd devices" where
  "keyboard_poll_char w = (g_last_char w, w\<lparr>g_last_char := - 1\<rparr>)"

section \<open>Interrupts\<close>

text \<open>What calling a top half through its pointer does.\<close>

definition call_top :: "'d hw \<Rightarrow> u64 \<Rightarrow> u64 \<Rightarrow> 'd devices top_half_code" where
  "call_top h pit_fn kbd_fn fn irq ctx sw =
     (fst sw, if fn = pit_fn then pit_irq_top (snd sw) else if fn = kbd_fn then keyboard_irq_top h (snd sw) else snd sw)"

definition nm_irq_isr :: "'d hw \<Rightarrow> u64 \<Rightarrow> u64 \<Rightarrow> u64 \<Rightarrow> irq_state \<times> 'd devices \<Rightarrow> irq_state \<times> 'd devices" where
  "nm_irq_isr h pit_fn kbd_fn vector sw =
     (let (r, irq, w) = irq_handle (call_top h pit_fn kbd_fn) (s32 (uint vector)) (fst sw) (snd sw) in
      if vector \<ge> 32 \<and> vector < 48 then (irq, w\<lparr>dv_io := pic_send_eoi h (ucast (vector - 32)) (dv_io w)\<rparr>)
      else (irq, w))"

section \<open>PCI and the network card\<close>

definition NM_PCI_MAX_DEVICES :: nat where "NM_PCI_MAX_DEVICES = 64"

record nm_device =
  nd_name :: string
  vendor_id :: u16
  device_id :: u16
  class_code :: u8
  nd_subclass :: u8
  prog_if :: u8
  nd_bus :: u8
  nd_slot :: u8
  nd_func :: u8
  bar0 :: u32

definition pci_cfg_addr :: "u8 \<Rightarrow> u8 \<Rightarrow> u8 \<Rightarrow> u8 \<Rightarrow> u32" where
  "pci_cfg_addr bus slot func off =
     push_bit 31 1 OR push_bit 16 (ucast bus) OR push_bit 11 (ucast slot) OR push_bit 8 (ucast func) OR (ucast off AND 0xFC)"

definition pci_cfg_read32 :: "'d hw \<Rightarrow> u8 \<Rightarrow> u8 \<Rightarrow> u8 \<Rightarrow> u8 \<Rightarrow> 'd io \<Rightarrow> u32 \<times> 'd io" where
  "pci_cfg_read32 h bus slot func off io =
     (let a = pci_cfg_addr bus slot func off;
          io = outb h 0xCF8 (ucast (a AND 0xFF)) io;
          io = outb h (0xCF8 + 1) (ucast ((drop_bit 8 a) AND 0xFF)) io;
          io = outb h (0xCF8 + 2) (ucast ((drop_bit 16 a) AND 0xFF)) io;
          io = outb h (0xCF8 + 3) (ucast ((drop_bit 24 a) AND 0xFF)) io;
          (b0, io) = inb h 0xCFC io; (b1, io) = inb h (0xCFC + 1) io;
          (b2, io) = inb h (0xCFC + 2) io; (b3, io) = inb h (0xCFC + 3) io
      in (ucast b0 OR push_bit 8 (ucast b1) OR push_bit 16 (ucast b2) OR push_bit 24 (ucast b3), io))"

definition pci_slots :: "(u8 \<times> u8) list" where
  "pci_slots = concat (map (\<lambda>bus. map (\<lambda>slot. (of_nat bus, of_nat slot)) [0..<32]) [0..<256])"

text \<open>
  The device built from the three configuration registers; the devices found so far are the list, its
  length is \<^verbatim>\<open>pci_count\<close>.
\<close>

definition pci_device :: "u8 \<Rightarrow> u8 \<Rightarrow> u32 \<Rightarrow> u32 \<Rightarrow> u32 \<Rightarrow> nm_device" where
  "pci_device bus slot vdid class_reg bar =
     \<lparr>nd_name = ''pci-dev'', vendor_id = ucast (vdid AND 0xFFFF), device_id = ucast ((drop_bit 16 vdid) AND 0xFFFF),
      class_code = ucast ((drop_bit 24 class_reg) AND 0xFF), nd_subclass = ucast ((drop_bit 16 class_reg) AND 0xFF),
      prog_if = ucast ((drop_bit 8 class_reg) AND 0xFF), nd_bus = bus, nd_slot = slot, nd_func = 0, bar0 = bar\<rparr>"

fun pci_scan :: "'d hw \<Rightarrow> (u8 \<times> u8) list \<Rightarrow> nm_device list \<Rightarrow> 'd io \<Rightarrow> nm_device list \<times> 'd io" where
  "pci_scan h [] devs io = (devs, io)"
| "pci_scan h ((bus, slot) # rest) devs io =
     (let (vdid, io) = pci_cfg_read32 h bus slot 0 0x00 io in
      if (ucast (vdid AND 0xFFFF) :: u16) = 0xFFFF then pci_scan h rest devs io
      else if length devs \<ge> NM_PCI_MAX_DEVICES then (devs, io)
      else let (class_reg, io) = pci_cfg_read32 h bus slot 0 0x08 io;
               (bar, io) = pci_cfg_read32 h bus slot 0 0x10 io
           in pci_scan h rest (devs @ [pci_device bus slot vdid class_reg bar]) io)"

definition pci_init :: "'d hw \<Rightarrow> 'd io \<Rightarrow> nm_device list \<times> 'd io" where
  "pci_init h io = pci_scan h pci_slots [] io"

definition pci_device_count :: "nm_device list \<Rightarrow> nat" where
  "pci_device_count devs = length devs"

definition pci_get_device :: "nat \<Rightarrow> nm_device list \<Rightarrow> nm_device option" where
  "pci_get_device i devs = (if i \<ge> pci_device_count devs then None else Some (devs ! i))"

definition pci_find_device :: "u16 \<Rightarrow> u16 \<Rightarrow> nm_device list \<Rightarrow> nm_device option" where
  "pci_find_device vendor device devs =
     (case first_idx (\<lambda>d. vendor_id d = vendor \<and> device_id d = device) devs of None \<Rightarrow> None | Some i \<Rightarrow> Some (devs ! i))"

text \<open>The card driver keeps the device it found; sending and receiving do not reach the hardware.\<close>

definition rtl8139_init :: "nm_device list \<Rightarrow> int \<times> nm_device option" where
  "rtl8139_init devs =
     (let rtl_dev = pci_find_device 0x10EC 0x8139 devs in (if rtl_dev = None then NM_ERR NM_EFAIL else 0, rtl_dev))"

definition rtl8139_send :: "u8 list option \<Rightarrow> u64 \<Rightarrow> nm_device option \<Rightarrow> int" where
  "rtl8139_send frame len rtl_dev =
     (if rtl_dev = None \<or> frame = None \<or> len = 0 \<or> len > 1518 then NM_ERR NM_EFAIL else sint len)"

definition rtl8139_recv :: "nm_device option \<Rightarrow> int" where
  "rtl8139_recv rtl_dev = (if rtl_dev = None then NM_ERR NM_EFAIL else 0)"

section \<open>The interrupt controllers after initialisation\<close>

text \<open>
  The documented behaviour of an 8259A: a command byte with bit 4 set starts an initialisation of three
  further bytes on the data port and clears the mask; the first of them is the vector base; outside an
  initialisation a byte on the data port is the interrupt mask, which reads back.
\<close>

record pic8259 =
  icw_left :: nat
  pic_imr :: u8
  pic_base :: u8

definition pic_cmd :: "u8 \<Rightarrow> pic8259 \<Rightarrow> pic8259" where
  "pic_cmd v p = (if v AND 0x10 \<noteq> 0 then p\<lparr>icw_left := 3, pic_imr := 0\<rparr> else p)"

definition pic_data :: "u8 \<Rightarrow> pic8259 \<Rightarrow> pic8259" where
  "pic_data v p =
     (if icw_left p = 3 then p\<lparr>icw_left := 2, pic_base := v\<rparr>
      else if icw_left p > 0 then p\<lparr>icw_left := icw_left p - 1\<rparr> else p\<lparr>pic_imr := v\<rparr>)"

text \<open>One controller behind its two ports, as part of the state of the hardware.\<close>

definition pic_at :: "'d hw \<Rightarrow> u16 \<Rightarrow> u16 \<Rightarrow> ('d \<Rightarrow> pic8259) \<Rightarrow> bool" where
  "pic_at h cmd data p \<longleftrightarrow>
     (\<forall>d port v. p (hw_out h port v d) = (if port = cmd then pic_cmd v (p d) else if port = data then pic_data v (p d) else p d)) \<and>
     (\<forall>d port. p (snd (hw_in h port d)) = p d) \<and> (\<forall>d. icw_left (p d) = 0 \<longrightarrow> fst (hw_in h data d) = pic_imr (p d))"

definition pic_step :: "u16 \<Rightarrow> u16 \<Rightarrow> u16 \<times> u8 \<Rightarrow> pic8259 \<Rightarrow> pic8259" where
  "pic_step cmd data w p = (if fst w = cmd then pic_cmd (snd w) p else if fst w = data then pic_data (snd w) p else p)"

lemma pic_writes: "pic_at h cmd data p \<Longrightarrow> p (io_dev (outbs h ws io)) = fold (pic_step cmd data) ws (p (io_dev io))"
  by (induction ws arbitrary: io) (simp_all add: pic_at_def pic_step_def)

lemma pic_read:
  assumes "pic_at h cmd data p" "inb h port io = (v, io')"
  shows "p (io_dev io') = p (io_dev io)" "port = data \<Longrightarrow> icw_left (p (io_dev io)) = 0 \<Longrightarrow> v = pic_imr (p (io_dev io))"
proof -
  have "v = fst (hw_in h port (io_dev io))" "io_dev io' = snd (hw_in h port (io_dev io))" using assms(2) by (auto simp: inb_def split: prod.splits)
  then show "p (io_dev io') = p (io_dev io)" "port = data \<Longrightarrow> icw_left (p (io_dev io)) = 0 \<Longrightarrow> v = pic_imr (p (io_dev io))"
    using assms(1) by (simp_all add: pic_at_def)
qed

text \<open>The initialisation as one sequence of writes, up to the two final mask changes.\<close>

definition remap_writes :: "u8 \<Rightarrow> u8 \<Rightarrow> u8 \<Rightarrow> u8 \<Rightarrow> (u16 \<times> u8) list" where
  "remap_writes o1 o2 a1 a2 =
     [(PIC1_COMMAND, 0x11), (0x80, 0), (PIC2_COMMAND, 0x11), (0x80, 0), (PIC1_DATA, o1), (0x80, 0), (PIC2_DATA, o2), (0x80, 0),
      (PIC1_DATA, 0x04), (0x80, 0), (PIC2_DATA, 0x02), (0x80, 0), (PIC1_DATA, 0x01), (0x80, 0), (PIC2_DATA, 0x01), (0x80, 0),
      (PIC1_DATA, a1), (PIC2_DATA, a2)]"

lemma pic_remap_writes: "\<exists>a1 a2 io2. pic_remap h o1 o2 io = outbs h (remap_writes o1 o2 a1 a2) io2"
proof -
  obtain a1 io1 where r1: "inb h PIC1_DATA io = (a1, io1)" by (meson surj_pair)
  obtain a2 io2 where r2: "inb h PIC2_DATA io1 = (a2, io2)" by (meson surj_pair)
  have "pic_remap h o1 o2 io = outbs h (remap_writes o1 o2 a1 a2) io2"
    by (simp add: pic_remap_def r1 r2 remap_writes_def io_wait_def Let_def)
  then show ?thesis by blast
qed

lemma pic_step_simps:
  "pic_step PIC1_COMMAND PIC1_DATA (PIC1_COMMAND, v) p = pic_cmd v p" "pic_step PIC1_COMMAND PIC1_DATA (PIC1_DATA, v) p = pic_data v p"
  "pic_step PIC1_COMMAND PIC1_DATA (PIC2_COMMAND, v) p = p" "pic_step PIC1_COMMAND PIC1_DATA (PIC2_DATA, v) p = p"
  "pic_step PIC2_COMMAND PIC2_DATA (PIC2_COMMAND, v) p = pic_cmd v p" "pic_step PIC2_COMMAND PIC2_DATA (PIC2_DATA, v) p = pic_data v p"
  "pic_step PIC2_COMMAND PIC2_DATA (PIC1_COMMAND, v) p = p" "pic_step PIC2_COMMAND PIC2_DATA (PIC1_DATA, v) p = p"
  "pic_step PIC1_COMMAND PIC1_DATA (0x80, v) p = p" "pic_step PIC2_COMMAND PIC2_DATA (0x80, v) p = p"
  by (simp_all add: pic_step_def pic_ports)

lemma remap_fold:
  "fold (pic_step PIC1_COMMAND PIC1_DATA) (remap_writes o1 o2 a1 a2) p = \<lparr>icw_left = 0, pic_imr = a1, pic_base = o1\<rparr>"
  "fold (pic_step PIC2_COMMAND PIC2_DATA) (remap_writes o1 o2 a1 a2) p = \<lparr>icw_left = 0, pic_imr = a2, pic_base = o2\<rparr>"
  by (cases p, simp add: remap_writes_def pic_step_simps pic_cmd_def pic_data_def)+

lemma unmask_state:
  assumes "pic_at h PIC1_COMMAND PIC1_DATA p1" "pic_at h PIC2_COMMAND PIC2_DATA p2" "line < 8" "icw_left (p1 (io_dev io)) = 0"
  shows "\<exists>io'. pic_set_mask h line False io = Some io' \<and>
    p1 (io_dev io') = (p1 (io_dev io))\<lparr>pic_imr := pic_imr (p1 (io_dev io)) AND ucast (NOT (push_bit (unat line) (1 :: u32)))\<rparr> \<and>
    p2 (io_dev io') = p2 (io_dev io)"
proof -
  obtain a io1 where r: "inb h PIC1_DATA io = (a, io1)" by (meson surj_pair)
  note a = pic_read [OF assms(1) r] pic_read(1) [OF assms(2) r]
  have "unat line < 32" using assms(3) by (simp add: word_less_nat_alt)
  then have "pic_set_mask h line False io = Some (outbs h [(PIC1_DATA, a AND ucast (NOT (push_bit (unat line) (1 :: u32))))] io1)"
    using assms(3) r by (simp add: pic_set_mask_def Let_def)
  moreover have "p1 (io_dev (outbs h [(PIC1_DATA, v)] io1)) = (p1 (io_dev io))\<lparr>pic_imr := v\<rparr>"
    "p2 (io_dev (outbs h [(PIC1_DATA, v)] io1)) = p2 (io_dev io)" for v
    unfolding pic_writes [OF assms(1)] pic_writes [OF assms(2)] using a(1,3) assms(4) by (simp_all add: pic_step_simps pic_data_def)
  ultimately show ?thesis using a(2) assms(4) by simp
qed

text \<open>
  After \<^verbatim>\<open>pic_init\<close>, whatever the firmware left behind, the two controllers deliver their interrupts at
  vectors 32 to 39 and 40 to 47 and only the timer and the keyboard line are enabled. The
  controllers are any hardware with the documented behaviour of the 8259A behind their ports.
\<close>

theorem pic_init_correct:
  assumes "pic_at h PIC1_COMMAND PIC1_DATA p1" "pic_at h PIC2_COMMAND PIC2_DATA p2"
  shows "\<exists>io'. pic_init h io = Some io' \<and> p1 (io_dev io') = \<lparr>icw_left = 0, pic_imr = 0xFC, pic_base = 32\<rparr> \<and>
    p2 (io_dev io') = \<lparr>icw_left = 0, pic_imr = 0xFF, pic_base = 40\<rparr>"
proof -
  obtain a1 a2 io2 where r: "pic_remap h 0x20 0x28 io = outbs h (remap_writes 0x20 0x28 a1 a2) io2" using pic_remap_writes by blast
  let ?io2 = "outbs h [(PIC1_DATA, 0xFF), (PIC2_DATA, 0xFF)] (outbs h (remap_writes 0x20 0x28 a1 a2) io2)"
  have m: "p1 (io_dev ?io2) = \<lparr>icw_left = 0, pic_imr = 0xFF, pic_base = 32\<rparr>" "p2 (io_dev ?io2) = \<lparr>icw_left = 0, pic_imr = 0xFF, pic_base = 40\<rparr>"
    unfolding pic_writes [OF assms(1)] pic_writes [OF assms(2)] remap_fold by (simp_all add: pic_step_simps pic_data_def)
  obtain io3 where io3: "pic_set_mask h 0 False ?io2 = Some io3" "p1 (io_dev io3) = \<lparr>icw_left = 0, pic_imr = 0xFE, pic_base = 32\<rparr>"
    "p2 (io_dev io3) = \<lparr>icw_left = 0, pic_imr = 0xFF, pic_base = 40\<rparr>"
    using unmask_state [OF assms, of 0 ?io2] m by auto
  obtain io4 where io4: "pic_set_mask h 1 False io3 = Some io4" "p1 (io_dev io4) = \<lparr>icw_left = 0, pic_imr = 0xFC, pic_base = 32\<rparr>"
    "p2 (io_dev io4) = \<lparr>icw_left = 0, pic_imr = 0xFF, pic_base = 40\<rparr>"
    using unmask_state [OF assms, of 1 io3] io3(2,3) by auto
  show ?thesis using io3(1) io4 r by (simp add: pic_init_def)
qed

text \<open>The ports that the initialisation writes to; a controller keeps its state while nobody writes to its ports.\<close>

lemma pic_set_mask_run:
  assumes "pic_set_mask h l b io = Some io'"
  shows "\<exists>ws. io_run h io ws io' \<and> fst ` set ws \<subseteq> {PIC1_DATA, PIC2_DATA}"
proof -
  define port where "port = (if l < 8 then PIC1_DATA else PIC2_DATA)"
  obtain a io1 where r: "inb h port io = (a, io1)" by (meson surj_pair)
  then obtain v where "io' = outb h port v io1" using assms by (auto simp: pic_set_mask_def port_def Let_def split: if_splits)
  then have "io_run h io ([] @ [(port, v)]) io'" using io_out [OF io_in [OF io_done r]] by simp
  then show ?thesis by (intro exI [of _ "[(port, v)]"]) (simp add: port_def)
qed

lemma pic_init_run:
  assumes "pic_init h io = Some io'"
  shows "\<exists>ws. io_run h io ws io' \<and> fst ` set ws \<subseteq> {PIC1_COMMAND, PIC1_DATA, PIC2_COMMAND, PIC2_DATA, 0x80}"
proof -
  obtain a1 io1 where r1: "inb h PIC1_DATA io = (a1, io1)" by (meson surj_pair)
  obtain a2 io2 where r2: "inb h PIC2_DATA io1 = (a2, io2)" by (meson surj_pair)
  let ?ws = "remap_writes 0x20 0x28 a1 a2 @ [(PIC1_DATA, 0xFF), (PIC2_DATA, 0xFF)]"
  let ?io3 = "outb h PIC2_DATA 0xFF (outb h PIC1_DATA 0xFF (pic_remap h 0x20 0x28 io))"
  have "?io3 = outbs h ?ws io2" by (simp add: pic_remap_def r1 r2 remap_writes_def io_wait_def Let_def)
  then have run3: "io_run h io ([] @ ?ws) ?io3" using io_run_outbs [OF io_in [OF io_in [OF io_done r1] r2], of ?ws] by simp
  obtain io4 where io4: "pic_set_mask h 0 False ?io3 = Some io4" "pic_set_mask h 1 False io4 = Some io'"
    using assms by (auto simp: pic_init_def Let_def split: bind_splits)
  obtain us vs where u: "io_run h ?io3 us io4" "fst ` set us \<subseteq> {PIC1_DATA, PIC2_DATA}" "io_run h io4 vs io'" "fst ` set vs \<subseteq> {PIC1_DATA, PIC2_DATA}"
    using pic_set_mask_run [OF io4(1)] pic_set_mask_run [OF io4(2)] by blast
  have "io_run h io ((([] @ ?ws) @ us) @ vs) io'" by (rule io_run_trans [OF u(3) io_run_trans [OF u(1) run3]])
  moreover have "fst ` set ((([] @ ?ws) @ us) @ vs) \<subseteq> {PIC1_COMMAND, PIC1_DATA, PIC2_COMMAND, PIC2_DATA, 0x80}"
    using u(2,4) by (auto simp: remap_writes_def)
  ultimately show ?thesis by blast
qed

lemma pic_keeps:
  assumes "pic_at h cmd data p" "io_run h io ws io'" "fst ` set ws \<inter> {cmd, data} = {}"
  shows "p (io_dev io') = p (io_dev io)"
proof -
  have "fold (pic_step cmd data) ws q = q" for q using assms(3) by (induction ws arbitrary: q) (auto simp: pic_step_def)
  then show ?thesis
    using io_run_part [of p h "pic_step cmd data", OF _ _ assms(2)] assms(1) by (simp add: pic_at_def pic_step_def)
qed

text \<open>The divisor for 100 interrupts in a second is 11931.\<close>

lemma pit_init_io:
  "dv_io (snd (pit_init h fn name 100 irq w)) = outbs h [(0x43, 0x36), (0x40, 0x9B), (0x40, 0x2E)] (dv_io w)"
proof -
  have "pit_divisor 100 = 0x2E9B" by (simp add: pit_divisor_def PIT_BASE_HZ_def)
  moreover have "(ucast ((0x2E9B :: u16) AND 0xFF) :: u8) = 0x9B" "(ucast (drop_bit 8 (0x2E9B :: u16) AND 0xFF) :: u8) = 0x2E"
    by code_simp+
  ultimately show ?thesis by (simp add: pit_init_def Let_def)
qed

section \<open>Interrupts of the timer and the keyboard\<close>

definition armed :: "u64 \<Rightarrow> u64 \<Rightarrow> irq_state \<Rightarrow> bool" where
  "armed pit_fn kbd_fn irq \<longleftrightarrow> length (irq_table irq) = 256 \<and>
     (\<forall>i fn. (i, fn) \<in> {(32, pit_fn), (33, kbd_fn)} \<longrightarrow>
       id_used (irq_table irq ! i) \<and> id_top_half (irq_table irq ! i) = fn \<and> id_bottom_half (irq_table irq ! i) = 0)"

lemma keyboard_top_log: "io_log (dv_io (keyboard_irq_top h w)) = io_log (dv_io w)" "g_pit_ticks (keyboard_irq_top h w) = g_pit_ticks w"
proof -
  obtain st io1 where r1: "inb h KBD_STATUS_PORT (dv_io w) = (st, io1)" by (meson surj_pair)
  obtain sc io2 where r2: "inb h KBD_DATA_PORT io1 = (sc, io2)" by (meson surj_pair)
  show "io_log (dv_io (keyboard_irq_top h w)) = io_log (dv_io w)" "g_pit_ticks (keyboard_irq_top h w) = g_pit_ticks w"
    using inb_log [OF r1] inb_log [OF r2] by (simp_all add: keyboard_irq_top_def r1 r2 Let_def)
qed

lemma isr_step:
  assumes "armed pit_fn kbd_fn irq" "pit_fn \<noteq> 0" "kbd_fn \<noteq> 0" "pit_fn \<noteq> kbd_fn" "v = 32 \<or> v = 33"
    "nm_irq_isr h pit_fn kbd_fn v (irq, w) = (irq', w')"
  shows "armed pit_fn kbd_fn irq'" "bh_pending irq' = bh_pending irq"
    "\<forall>i \<in> {32, 33}. id_hit_count (irq_table irq' ! i) = id_hit_count (irq_table irq ! i) + (if unat v = i then 1 else 0)"
    "g_pit_ticks w' = g_pit_ticks w + (if v = 32 then 1 else 0)" "io_log (dv_io w') = io_log (dv_io w) @ [(PIC1_COMMAND, PIC_EOI)]"
proof -
  let ?d = "irq_table irq ! unat v"
  let ?irq = "irq\<lparr>irq_table := (irq_table irq)[unat v := ?d\<lparr>id_hit_count := id_hit_count ?d + 1\<rparr>]\<rparr>"
  have sv: "s32 (uint v) = int (unat v)" using assms(5) by (auto intro: s32_id)
  have d: "id_used ?d" "id_bottom_half ?d = 0" "id_top_half ?d = (if v = 32 then pit_fn else kbd_fn)"
    using assms(1,5) by (auto simp: armed_def)
  have "irq_handle (call_top h pit_fn kbd_fn) (s32 (uint v)) irq w =
      (0, ?irq, if v = 32 then pit_irq_top w else keyboard_irq_top h w)"
    using d assms(2-5) unfolding sv by (auto simp: irq_handle_def Let_def call_top_def NM_MAX_IRQ_def)
  then have r: "irq' = ?irq"
    "w' = (if v = 32 then pit_irq_top w else keyboard_irq_top h w)\<lparr>dv_io := pic_send_eoi h (ucast (v - 32)) (dv_io (if v = 32 then pit_irq_top w else keyboard_irq_top h w))\<rparr>"
    using assms(5,6) by (auto simp: nm_irq_isr_def)
  have l: "unat v < length (irq_table irq)" "unat v = 32 \<or> unat v = 33" using assms(1,5) by (auto simp: armed_def)
  show "armed pit_fn kbd_fn irq'" using assms(1) r(1) l by (auto simp: armed_def nth_list_update)
  show "bh_pending irq' = bh_pending irq" using r(1) by (simp add: bh_pending_def bh_len_def)
  show "\<forall>i \<in> {32, 33}. id_hit_count (irq_table irq' ! i) = id_hit_count (irq_table irq ! i) + (if unat v = i then 1 else 0)"
    using r(1) l by (auto simp: nth_list_update)
  show "g_pit_ticks w' = g_pit_ticks w + (if v = 32 then 1 else 0)"
    using r(2) keyboard_top_log(2) [of h w] by (auto simp: pit_irq_top_def)
  have "\<not> 8 \<le> (ucast (v - 32) :: u8)" using assms(5) by (auto simp: word_le_nat_alt)
  then show "io_log (dv_io w') = io_log (dv_io w) @ [(PIC1_COMMAND, PIC_EOI)]"
    using r(2) keyboard_top_log(1) [of h w] by (auto simp: pit_irq_top_def pic_send_eoi_def)
qed

definition hits :: "u64 list \<Rightarrow> u64 \<Rightarrow> u64" where
  "hits vs v = of_nat (count_list vs v)"

lemma isr_run:
  assumes "pit_fn \<noteq> 0" "kbd_fn \<noteq> 0" "pit_fn \<noteq> kbd_fn"
  shows "armed pit_fn kbd_fn irq \<Longrightarrow> set vs \<subseteq> {32, 33} \<Longrightarrow> fold (nm_irq_isr h pit_fn kbd_fn) vs (irq, w) = (irq', w') \<Longrightarrow>
    bh_pending irq' = bh_pending irq \<and> g_pit_ticks w' = g_pit_ticks w + hits vs 32 \<and>
    io_log (dv_io w') = io_log (dv_io w) @ replicate (length vs) (PIC1_COMMAND, PIC_EOI) \<and>
    id_hit_count (irq_table irq' ! 32) = id_hit_count (irq_table irq ! 32) + hits vs 32 \<and>
    id_hit_count (irq_table irq' ! 33) = id_hit_count (irq_table irq ! 33) + hits vs 33"
proof (induction vs arbitrary: irq w)
  case Nil
  then show ?case by (simp add: hits_def)
next
  case (Cons v vs)
  obtain irq1 w1 where st: "nm_irq_isr h pit_fn kbd_fn v (irq, w) = (irq1, w1)" by (meson surj_pair)
  have v: "v = 32 \<or> v = 33" "set vs \<subseteq> {32, 33}" using Cons.prems(2) by auto
  note s = isr_step [OF Cons.prems(1) assms v(1) st]
  have "fold (nm_irq_isr h pit_fn kbd_fn) vs (irq1, w1) = (irq', w')" using Cons.prems(3) st by simp
  note ih = Cons.IH [OF s(1) v(2) this]
  show ?case using ih s(2-5) v(1) by (auto simp: hits_def)
qed

text \<open>
  C29: After the drivers are set up (\<^verbatim>\<open>irq_init\<close>, \<^verbatim>\<open>pit_init\<close>, \<^verbatim>\<open>keyboard_init\<close>), over every sequence of timer and
  keyboard interrupts: the tick counter grows by the number of timer interrupts, each descriptor
  counts its own interrupts, every interrupt is acknowledged at the first controller exactly once
  and nothing else is sent to any port, and no bottom half is queued.
\<close>

theorem interrupts_counted_and_acknowledged:
  assumes "pit_fn \<noteq> 0" "kbd_fn \<noteq> 0" "pit_fn \<noteq> kbd_fn"
    "pit_init h pit_fn pit_name hz (irq_init irq0) w0 = (irq1, w1)" "set vs \<subseteq> {32, 33}"
    "fold (nm_irq_isr h pit_fn kbd_fn) vs (keyboard_init kbd_fn kbd_name irq1, w1) = (irq2, w2)"
  shows "pit_ticks w2 = pit_ticks w0 + hits vs 32 \<and>
    id_hit_count (irq_table irq2 ! 32) = hits vs 32 \<and> id_hit_count (irq_table irq2 ! 33) = hits vs 33 \<and>
    io_log (dv_io w2) = io_log (dv_io w1) @ replicate (length vs) (PIC1_COMMAND, PIC_EOI) \<and> bh_pending irq2 = []"
proof -
  let ?k = "keyboard_init kbd_fn kbd_name irq1"
  have i1: "irq1 = snd (irq_register 32 pit_fn 0 0 pit_name (irq_init irq0))" and w1: "g_pit_ticks w1 = g_pit_ticks w0"
    using assms(4) by (auto simp: pit_init_def Let_def)
  have "length (irq_table ?k) = 256" by (simp add: keyboard_init_def i1 irq_register_def irq_init_def NM_MAX_IRQ_def)
  moreover have "irq_table ?k ! 32 = (irq_unused_desc 32)\<lparr>id_used := True, id_top_half := pit_fn, id_bottom_half := 0, id_ctx := 0, id_name := pit_name, id_hit_count := 0\<rparr>"
    "irq_table ?k ! 33 = (irq_unused_desc 33)\<lparr>id_used := True, id_top_half := kbd_fn, id_bottom_half := 0, id_ctx := 0, id_name := kbd_name, id_hit_count := 0\<rparr>"
    using assms(1,2) by (simp_all add: keyboard_init_def i1 irq_register_def irq_init_def NM_MAX_IRQ_def)
  moreover have "bh_pending ?k = []" by (simp add: keyboard_init_def i1 irq_register_def irq_init_def bh_pending_def bh_len_def)
  moreover have "armed pit_fn kbd_fn ?k" using calculation by (auto simp: armed_def)
  note isr_run [OF assms(1-3) this assms(5,6)]
  ultimately show ?thesis using w1 by (simp add: pit_ticks_def)
qed

text \<open>
  The divisor that is programmed is the quotient of the base frequency for every rate from 19 Hz on; for a lower
  rate the quotient does not fit into 16 bits and the timer runs much faster than asked for.
\<close>

lemma pit_divisor_exact:
  assumes "19 \<le> unat hz"
  shows "unat (pit_divisor hz) = 1193182 div unat hz"
proof -
  have "hz \<noteq> 0" using assms by auto
  moreover have "1193182 div unat hz \<le> 1193182 div 19" using assms by (intro div_le_mono2) simp_all
  then have "1193182 div unat hz < 2 ^ 16" by simp
  ultimately show ?thesis by (simp add: pit_divisor_def PIT_BASE_HZ_def unsigned_ucast_eq unat_div take_bit_nat_eq_self)
qed

lemma pit_divisor_wraps: "unat (pit_divisor 18) = 751" "1193182 div 18 = (66287 :: nat)"
  by (simp_all add: pit_divisor_def PIT_BASE_HZ_def)

text \<open>A key press is kept until it is polled or overwritten by the next one; a poll takes it.\<close>

lemma key_pressed:
  assumes "inb h KBD_STATUS_PORT (dv_io w) = (st, io1)" "st AND 1 \<noteq> 0" "inb h KBD_DATA_PORT io1 = (sc, io2)" "sc AND 0x80 = 0"
    "scancode_to_ascii sc \<noteq> 0"
  shows "\<exists>w'. keyboard_poll_char (keyboard_irq_top h w) = (scancode_to_ascii sc, w') \<and> fst (keyboard_poll_char w') = - 1"
  using assms by (simp add: keyboard_irq_top_def keyboard_poll_char_def Let_def)

section \<open>The PCI scan\<close>

text \<open>
  The documented interface of a PCI host bridge. The configuration space has a byte for every bus, device, function
  and offset. The bridge has an address register at port 0xCF8: bit 31 enables it, bits 23 to 16 are the
  bus, 15 to 11 the device, 10 to 8 the function and 7 to 2 the number of a four-byte register. A
  read of port 0xCFC + \<open>i\<close> gives byte \<open>i\<close> of the selected register, or ones when bit 31 is clear. The address
  register is the part \<open>addr\<close> of the state of the hardware.
\<close>

type_synonym config_space = "nat \<Rightarrow> nat \<Rightarrow> nat \<Rightarrow> nat \<Rightarrow> u8"

definition selected_byte :: "config_space \<Rightarrow> u32 \<Rightarrow> nat \<Rightarrow> u8" where
  "selected_byte cfg a i =
     (if bit a 31
      then cfg (unat (take_bit 8 (drop_bit 16 a))) (unat (take_bit 5 (drop_bit 11 a))) (unat (take_bit 3 (drop_bit 8 a)))
             (4 * unat (take_bit 6 (drop_bit 2 a)) + i)
      else 0xFF)"

definition pci_bridge :: "'d hw \<Rightarrow> ('d \<Rightarrow> u32) \<Rightarrow> config_space \<Rightarrow> bool" where
  "pci_bridge h addr cfg \<longleftrightarrow>
     (\<forall>d. \<forall>i < 4. fst (hw_in h (0xCFC + of_nat i) d) = selected_byte cfg (addr d) i) \<and> (\<forall>d port. addr (snd (hw_in h port d)) = addr d)"

text \<open>
  How the address register is written. The PCI Local Bus Specification (3.2.2.3.2) lets the bridge latch four-byte
  writes only: a byte written to one of the four ports does not change the register. The
  driver writes it byte by byte, so what it needs is a bridge that latches every byte.
\<close>

definition set_byte :: "nat \<Rightarrow> u8 \<Rightarrow> u32 \<Rightarrow> u32" where
  "set_byte i v a = (a AND NOT (push_bit (8 * i) 0xFF)) OR push_bit (8 * i) (ucast v)"

definition latches_bytes :: "'d hw \<Rightarrow> ('d \<Rightarrow> u32) \<Rightarrow> bool" where
  "latches_bytes h addr \<longleftrightarrow> (\<forall>d v. \<forall>i < 4. addr (hw_out h (0xCF8 + of_nat i) v d) = set_byte i v (addr d))"

definition latches_dwords_only :: "'d hw \<Rightarrow> ('d \<Rightarrow> u32) \<Rightarrow> bool" where
  "latches_dwords_only h addr \<longleftrightarrow> (\<forall>d port v. addr (hw_out h port v d) = addr d)"

text \<open>
  The header of a configuration space, least significant bytes first: vendor at 0, device at 2, programming interface,
  subclass and class at 9, 10 and 11, the first base address at 16.
\<close>

definition le16 :: "(nat \<Rightarrow> u8) \<Rightarrow> u16" where
  "le16 f = ucast (f 0) + 2 ^ 8 * ucast (f 1)"

definition le32 :: "(nat \<Rightarrow> u8) \<Rightarrow> u32" where
  "le32 f = ucast (f 0) + 2 ^ 8 * ucast (f 1) + 2 ^ 16 * ucast (f 2) + 2 ^ 24 * ucast (f 3)"

definition header :: "config_space \<Rightarrow> u8 \<times> u8 \<Rightarrow> nat \<Rightarrow> nat \<Rightarrow> u8" where
  "header cfg p off i = cfg (unat (fst p)) (unat (snd p)) 0 (off + i)"

definition pci_present :: "config_space \<Rightarrow> u8 \<times> u8 \<Rightarrow> bool" where
  "pci_present cfg p \<longleftrightarrow> le16 (header cfg p 0) \<noteq> 0xFFFF"

definition pci_described :: "config_space \<Rightarrow> u8 \<times> u8 \<Rightarrow> nm_device" where
  "pci_described cfg p =
     \<lparr>nd_name = ''pci-dev'', vendor_id = le16 (header cfg p 0), device_id = le16 (header cfg p 2), class_code = header cfg p 8 3,
      nd_subclass = header cfg p 8 2, prog_if = header cfg p 8 1, nd_bus = fst p, nd_slot = snd p, nd_func = 0, bar0 = le32 (header cfg p 16)\<rparr>"

definition pci_devices_of :: "config_space \<Rightarrow> nm_device list" where
  "pci_devices_of cfg = take NM_PCI_MAX_DEVICES (map (pci_described cfg) (filter (pci_present cfg) pci_slots))"

text \<open>What a scan sees when the address register never changes: the same register everywhere.\<close>

definition stuck_at :: "config_space \<Rightarrow> u32 \<Rightarrow> config_space" where
  "stuck_at cfg a bus dev func off = selected_byte cfg a (off mod 4)"

subsection \<open>Bytes of words\<close>

lemma low_bits: "x AND 0xFF = take_bit 8 x" "x AND 0xFFFF = take_bit 16 x" for x :: "'a::len word"
  by (simp_all add: take_bit_eq_mask mask_eq_exp_minus_1)

lemma bit_byte: "bit (ucast x :: 'a::len word) n \<longleftrightarrow> n < 8 \<and> n < LENGTH('a) \<and> bit x n" for x :: u8 
  using bit_imp_le_length [of x n] by (auto simp: bit_simps)

lemma bit_set_byte:
  assumes "n < 32"
  shows "bit (set_byte i v a) n = (if 8 * i \<le> n \<and> n < 8 * i + 8 then bit v (n - 8 * i) else bit a n)"
proof -
  have "(0xFF :: u32) = mask 8" by (simp add: mask_eq_exp_minus_1)
  then have "set_byte i v a = a AND NOT (push_bit (8 * i) (mask 8)) OR push_bit (8 * i) (ucast v)" by (simp only: set_byte_def)
  then show ?thesis using assms bit_imp_le_length [of v "n - 8 * i"] by (auto simp: bit_simps)
qed

lemma bit_low_byte: "bit (ucast (drop_bit k x AND 0xFF) :: u8) n = (n < 8 \<and> bit x (k + n))" for x :: u32
  using bit_imp_le_length [of x "k + n"] unfolding low_bits by (auto simp: bit_simps)

lemma set_bytes:
  "set_byte 3 (ucast (drop_bit 24 x AND 0xFF)) (set_byte 2 (ucast (drop_bit 16 x AND 0xFF)) (set_byte 1 (ucast (drop_bit 8 x AND 0xFF))
     (set_byte 0 (ucast (drop_bit 0 x AND 0xFF)) a))) = x"
proof (rule bit_word_eqI)
  fix n assume "n < LENGTH(32)"
  moreover have "n - 24 < 8 \<longleftrightarrow> n < 32" "n - 16 < 8 \<longleftrightarrow> n < 24" "n - 8 < 8 \<longleftrightarrow> n < 16" by auto
  ultimately show "bit (set_byte 3 (ucast (drop_bit 24 x AND 0xFF)) (set_byte 2 (ucast (drop_bit 16 x AND 0xFF)) (set_byte 1 (ucast (drop_bit 8 x AND 0xFF))
     (set_byte 0 (ucast (drop_bit 0 x AND 0xFF)) a)))) n = bit x n"
    by (simp add: bit_set_byte bit_low_byte del: drop_bit_0 One_nat_def)
qed

lemma shift_times: "2 ^ n * x = push_bit n x" for x :: "'a::len word"
  by (simp add: push_bit_eq_mult mult.commute)

lemma le32_or: "le32 f = ((ucast (f 0) OR push_bit 8 (ucast (f 1))) OR push_bit 16 (ucast (f 2))) OR push_bit 24 (ucast (f 3))"
proof -
  let ?a = "ucast (f 0) :: u32" and ?b = "push_bit 8 (ucast (f 1)) :: u32" and ?c = "push_bit 16 (ucast (f 2)) :: u32" and ?d = "push_bit 24 (ucast (f 3)) :: u32"
  have "?a + ?b = ?a OR ?b" by (rule disjunctive_add) (auto simp: bit_push_bit_iff bit_byte)
  moreover have "(?a OR ?b) + ?c = (?a OR ?b) OR ?c" by (rule disjunctive_add) (auto simp: bit_push_bit_iff bit_byte bit_or_iff)
  moreover have "((?a OR ?b) OR ?c) + ?d = ((?a OR ?b) OR ?c) OR ?d" by (rule disjunctive_add) (auto simp: bit_push_bit_iff bit_byte bit_or_iff)
  ultimately show ?thesis unfolding le32_def shift_times by simp
qed

lemma bit_le32: "bit (le32 f) n \<longleftrightarrow> n < 32 \<and> bit (f (n div 8)) (n mod 8)"
proof -
  consider "n < 8" | "8 \<le> n" "n < 16" | "16 \<le> n" "n < 24" | "24 \<le> n" "n < 32" | "32 \<le> n" by linarith
  then show ?thesis
  proof cases
    case 2 then have "n div 8 = 1" "n mod 8 = n - 8" by presburger+
    then show ?thesis using 2 by (auto simp: le32_or bit_or_iff bit_push_bit_iff bit_byte)
  next
    case 3 then have "n div 8 = 2" "n mod 8 = n - 16" by presburger+
    then show ?thesis using 3 by (auto simp: le32_or bit_or_iff bit_push_bit_iff bit_byte)
  next
    case 4 then have "n div 8 = 3" "n mod 8 = n - 24" by presburger+
    then show ?thesis using 4 by (auto simp: le32_or bit_or_iff bit_push_bit_iff bit_byte)
  qed (auto simp: le32_or bit_or_iff bit_push_bit_iff bit_byte)
qed

lemma bit_le16: "bit (le16 f) n \<longleftrightarrow> n < 16 \<and> bit (f (n div 8)) (n mod 8)"
proof -
  have or: "le16 f = ucast (f 0) OR push_bit 8 (ucast (f 1))"
    unfolding le16_def shift_times by (rule disjunctive_add) (auto simp: bit_push_bit_iff bit_byte)
  consider "n < 8" | "8 \<le> n" "n < 16" | "16 \<le> n" by linarith
  then show ?thesis
  proof cases
    case 2 then have "n div 8 = 1" "n mod 8 = n - 8" by presburger+
    then show ?thesis using 2 by (auto simp: or bit_or_iff bit_push_bit_iff bit_byte)
  qed (auto simp: or bit_or_iff bit_push_bit_iff bit_byte)
qed

lemma le32_byte: "ucast (drop_bit (8 * i) (le32 f) AND 0xFF) = f i" if "i < 4"
proof (rule bit_word_eqI)
  fix n assume n: "n < LENGTH(8)"
  then have "(8 * i + n) div 8 = i" "(8 * i + n) mod 8 = n" by auto
  then show "bit (ucast (drop_bit (8 * i) (le32 f) AND 0xFF) :: u8) n = bit (f i) n"
    using that n by (simp add: bit_low_byte bit_le32)
qed

lemma le32_halves: "ucast (le32 f AND 0xFFFF) = le16 f" "ucast (drop_bit 16 (le32 f) AND 0xFFFF) = le16 (\<lambda>i. f (2 + i))"
proof -
  have "(16 + n) div 8 = Suc (Suc (n div 8))" "(16 + n) mod 8 = n mod 8" for n :: nat by presburger+
  then show "ucast (le32 f AND 0xFFFF) = le16 f" "ucast (drop_bit 16 (le32 f) AND 0xFFFF) = le16 (\<lambda>i. f (2 + i))"
    unfolding low_bits by (intro bit_word_eqI, simp add: bit_simps bit_le32 bit_le16)+
qed

lemma device_of_bytes:
  "pci_device (fst p) (snd p) (le32 (header cfg p 0)) (le32 (header cfg p 8)) (le32 (header cfg p 16)) = pci_described cfg p"
proof -
  have "(\<lambda>i. header cfg p 0 (2 + i)) = header cfg p 2" by (rule ext) (simp add: header_def)
  then show ?thesis
    using le32_byte [of 3 "header cfg p 8"] le32_byte [of 2 "header cfg p 8"] le32_byte [of 1 "header cfg p 8"] le32_halves [of "header cfg p 0"]
    by (simp add: pci_device_def pci_described_def)
qed

lemma cfg_addr_fields:
  assumes "slot < 32" "off = 0 \<or> off = 8 \<or> off = 16"
  shows "bit (pci_cfg_addr bus slot 0 off) 31" "take_bit 8 (drop_bit 16 (pci_cfg_addr bus slot 0 off)) = ucast bus"
    "take_bit 5 (drop_bit 11 (pci_cfg_addr bus slot 0 off)) = ucast slot" "take_bit 3 (drop_bit 8 (pci_cfg_addr bus slot 0 off)) = 0"
    "take_bit 6 (drop_bit 2 (pci_cfg_addr bus slot 0 off)) = drop_bit 2 (ucast off)"
proof -
  let ?a = "pci_cfg_addr bus slot 0 off"
  have o: "(ucast off AND 0xFC :: u32) = ucast off" using assms(2) by auto
  have "(8 :: u32) = 2 ^ 3" "(16 :: u32) = 2 ^ 4" by simp_all
  then have p: "bit (8 :: u32) n \<Longrightarrow> n = 3" "bit (16 :: u32) n \<Longrightarrow> n = 4" for n by (simp_all only: bit_exp_iff)
  have ob: "2 < n \<and> n < 5" if "bit (ucast off :: u32) n" for n
  proof -
    consider "ucast off = (0 :: u32)" | "ucast off = (8 :: u32)" | "ucast off = (16 :: u32)" using assms(2) by auto
    then show ?thesis
    proof cases
      case 2 then have "n = 3" using that by (metis p(1)) then show ?thesis by simp
    next
      case 3 then have "n = 4" using that by (metis p(2)) then show ?thesis by simp
    qed (use that in simp)
  qed
  have "slot = take_bit 5 slot" using assms(1) by (simp add: take_bit_eq_mod mod_word_less)
  then have sb: "bit slot n \<Longrightarrow> n < 5" for n by (metis bit_take_bit_iff)
  have a: "bit ?a n \<longleftrightarrow> n < 32 \<and> (n = 31 \<or> 16 \<le> n \<and> bit bus (n - 16) \<or> 11 \<le> n \<and> bit slot (n - 11) \<or> bit (ucast off :: u32) n)" for n
  proof -
    have e: "bit (push_bit 31 1 :: u32) n \<longleftrightarrow> n = 31" by (simp only: bit_push_bit_iff bit_1_iff) auto
    show ?thesis
      unfolding pci_cfg_addr_def o bit_or_iff e using sb [of "n - 11"] ob [of n] bit_imp_le_length [of bus "n - 16"]
      by (auto simp: bit_push_bit_iff bit_byte)
  qed
  show "bit ?a 31" by (simp add: a)
  show "take_bit 8 (drop_bit 16 ?a) = ucast bus"
    by (rule bit_word_eqI) (use sb [of "16 + n - 11" for n] ob [of "16 + n" for n] bit_imp_le_length [of slot] in \<open>auto simp: bit_take_bit_iff bit_drop_bit_eq a bit_byte\<close>)
  show "take_bit 5 (drop_bit 11 ?a) = ucast slot"
    by (rule bit_word_eqI) (use order.strict_trans [OF sb, of _ 21] order.strict_trans [OF sb, of _ 8] sb ob [of "11 + n" for n] in \<open>auto simp: bit_take_bit_iff bit_drop_bit_eq a bit_byte\<close>)
  show "take_bit 3 (drop_bit 8 ?a) = 0"
    by (rule bit_word_eqI) (use sb [of "8 + n - 11" for n] ob [of "8 + n" for n] bit_imp_le_length [of slot] in \<open>auto simp: bit_take_bit_iff bit_drop_bit_eq a bit_byte\<close>)
  show "take_bit 6 (drop_bit 2 ?a) = drop_bit 2 (ucast off)"
    by (rule bit_word_eqI) (use sb [of "2 + n - 11" for n] ob [of "2 + n" for n] bit_imp_le_length [of slot] in \<open>auto simp: bit_take_bit_iff bit_drop_bit_eq a bit_byte\<close>)
qed

subsection \<open>Reads of the configuration space\<close>

definition cfg_writes :: "u32 \<Rightarrow> (u16 \<times> u8) list" where
  "cfg_writes a = [(0xCF8, ucast (drop_bit 0 a AND 0xFF)), (0xCF9, ucast (drop_bit 8 a AND 0xFF)), (0xCFA, ucast (drop_bit 16 a AND 0xFF)),
     (0xCFB, ucast (drop_bit 24 a AND 0xFF))]"

lemma read32_run:
  assumes "pci_cfg_read32 h bus slot func off io = (v, io')"
  shows "io_run h io (cfg_writes (pci_cfg_addr bus slot func off)) io'"
    "pci_bridge h addr cfg \<Longrightarrow> addr (io_dev io') = addr (io_dev (outbs h (cfg_writes (pci_cfg_addr bus slot func off)) io)) \<and>
       v = le32 (selected_byte cfg (addr (io_dev io')))"
proof -
  let ?io = "outbs h (cfg_writes (pci_cfg_addr bus slot func off)) io"
  obtain b0 io0 where r0: "inb h 0xCFC ?io = (b0, io0)" by (meson surj_pair)
  obtain b1 io1 where r1: "inb h 0xCFD io0 = (b1, io1)" by (meson surj_pair)
  obtain b2 io2 where r2: "inb h 0xCFE io1 = (b2, io2)" by (meson surj_pair)
  obtain b3 io3 where r3: "inb h 0xCFF io2 = (b3, io3)" by (meson surj_pair)
  have e: "v = ucast b0 OR push_bit 8 (ucast b1) OR push_bit 16 (ucast b2) OR push_bit 24 (ucast b3)" "io' = io3"
    using assms r0 r1 r2 r3 by (simp_all add: pci_cfg_read32_def cfg_writes_def Let_def)
  have "io_run h io ([] @ cfg_writes (pci_cfg_addr bus slot func off)) ?io" by (rule io_run_outbs [OF io_done])
  then show "io_run h io (cfg_writes (pci_cfg_addr bus slot func off)) io'"
    using io_in [OF io_in [OF io_in [OF io_in [OF _ r0] r1] r2] r3] by (simp add: e(2))
  assume br: "pci_bridge h addr cfg"
  have keep: "addr (io_dev io'') = addr (io_dev io')" if "inb h port io' = (x, io'')" for port x io' io''
    using br that by (auto simp: pci_bridge_def inb_def split: prod.splits) (metis snd_conv)
  have byte: "x = selected_byte cfg (addr (io_dev io')) i" if "inb h (0xCFC + of_nat i) io' = (x, io'')" "i < 4" for x io' io'' i
    using br that by (auto simp: pci_bridge_def inb_def split: prod.splits) (metis fst_conv)
  have k: "addr (io_dev io0) = addr (io_dev ?io)" "addr (io_dev io1) = addr (io_dev ?io)" "addr (io_dev io2) = addr (io_dev ?io)"
    "addr (io_dev io3) = addr (io_dev ?io)"
    using keep [OF r0] keep [OF r1] keep [OF r2] keep [OF r3] by simp_all
  have "b0 = selected_byte cfg (addr (io_dev ?io)) 0" using byte [of 0 ?io b0 io0] r0 by simp
  moreover have "b1 = selected_byte cfg (addr (io_dev ?io)) 1" using byte [of 1 io0 b1 io1] r1 k(1) by simp
  moreover have "b2 = selected_byte cfg (addr (io_dev ?io)) 2" using byte [of 2 io1 b2 io2] r2 k(2) by simp
  moreover have "b3 = selected_byte cfg (addr (io_dev ?io)) 3" using byte [of 3 io2 b3 io3] r3 k(3) by simp
  ultimately show "addr (io_dev io') = addr (io_dev ?io) \<and> v = le32 (selected_byte cfg (addr (io_dev io')))"
    using e k(4) by (simp add: le32_or or.assoc)
qed

text \<open>The slots that are scanned read as the configuration space \<open>cfg\<close>, as long as \<open>I\<close> holds.\<close>

definition answers :: "'d hw \<Rightarrow> ('d io \<Rightarrow> bool) \<Rightarrow> config_space \<Rightarrow> bool" where
  "answers h I cfg \<longleftrightarrow> (\<forall>p \<in> set pci_slots. \<forall>off \<in> {0, 8, 16}. \<forall>io v io'. I io \<longrightarrow>
     pci_cfg_read32 h (fst p) (snd p) 0 off io = (v, io') \<longrightarrow> v = le32 (header cfg p (unat off)) \<and> I io')"

lemma pci_slots_less: "p \<in> set pci_slots \<Longrightarrow> snd p < 32"
  by (auto simp: pci_slots_def word_less_nat_alt unat_of_nat)

lemma answers_latched:
  assumes "pci_bridge h addr cfg" "latches_bytes h addr"
  shows "answers h (\<lambda>_. True) cfg"
  unfolding answers_def
proof (intro ballI allI impI conjI)
  fix p off io v io' assume p: "p \<in> set pci_slots" and off: "off \<in> {0, 8, 16 :: u8}" and r: "pci_cfg_read32 h (fst p) (snd p) 0 off io = (v, io')"
  let ?a = "pci_cfg_addr (fst p) (snd p) 0 off"
  have w: "addr (hw_out h 0xCF8 v d) = set_byte 0 v (addr d)" "addr (hw_out h 0xCF9 v d) = set_byte 1 v (addr d)"
    "addr (hw_out h 0xCFA v d) = set_byte 2 v (addr d)" "addr (hw_out h 0xCFB v d) = set_byte 3 v (addr d)" for v d
    using assms(2) [unfolded latches_bytes_def, rule_format, of 0 v d] assms(2) [unfolded latches_bytes_def, rule_format, of 1 v d]
      assms(2) [unfolded latches_bytes_def, rule_format, of 2 v d] assms(2) [unfolded latches_bytes_def, rule_format, of 3 v d] by simp_all
  have "addr (io_dev (outbs h (cfg_writes ?a) io)) = ?a"
    using set_bytes [of ?a "addr (io_dev io)"] by (simp add: cfg_writes_def w)
  then have "v = le32 (selected_byte cfg ?a)" using read32_run(2) [OF r assms(1)] by simp
  moreover have "selected_byte cfg ?a = header cfg p (unat off)"
  proof
    fix i
    have "off = 0 \<or> off = 8 \<or> off = 16" using off by blast
    note f = cfg_addr_fields [OF pci_slots_less [OF p] this, of "fst p"]
    have "4 * unat (drop_bit 2 (ucast off :: u32)) = unat off" using off by auto
    moreover have "unat (ucast x :: u32) = unat x" for x :: u8 by (simp add: unsigned_ucast_eq take_bit_nat_eq_self unsigned_less [THEN order.strict_trans])
    ultimately show "selected_byte cfg ?a i = header cfg p (unat off) i" using f by (simp add: selected_byte_def header_def)
  qed
  ultimately show "v = le32 (header cfg p (unat off))" by simp
qed simp

lemma answers_stuck:
  assumes "pci_bridge h addr cfg" "latches_dwords_only h addr"
  shows "answers h (\<lambda>io. addr (io_dev io) = a) (stuck_at cfg a)"
  unfolding answers_def
proof (intro ballI allI impI)
  fix p off io v io' assume off: "off \<in> {0, 8, 16 :: u8}" and a: "addr (io_dev io) = a"
    and r: "pci_cfg_read32 h (fst p) (snd p) 0 off io = (v, io')"
  have "addr (io_dev (outbs h ws io)) = addr (io_dev io)" for ws io
    using assms(2) by (induction ws arbitrary: io) (simp_all add: latches_dwords_only_def)
  then have "addr (io_dev io') = a" "v = le32 (selected_byte cfg a)" using read32_run(2) [OF r assms(1)] a by simp_all
  moreover have "unat off mod 4 = 0" using off by auto
  then have "(unat off + i) mod 4 = i mod 4" for i by (metis add_0 mod_add_left_eq)
  then have "header (stuck_at cfg a) p (unat off) i = selected_byte cfg a (i mod 4)" for i by (simp only: header_def stuck_at_def)
  then have "le32 (header (stuck_at cfg a) p (unat off)) = le32 (selected_byte cfg a)" by (simp add: le32_def)
  ultimately show "v = le32 (header (stuck_at cfg a) p (unat off)) \<and> addr (io_dev io') = a" by simp
qed

lemma pci_scan_answers:
  assumes "answers h I cfg"
  shows "set slots \<subseteq> set pci_slots \<Longrightarrow> I io \<Longrightarrow> length devs \<le> NM_PCI_MAX_DEVICES \<Longrightarrow>
    fst (pci_scan h slots devs io) = take NM_PCI_MAX_DEVICES (devs @ map (pci_described cfg) (filter (pci_present cfg) slots))"
proof (induction slots arbitrary: devs io)
  case (Cons p slots)
  have p: "p = (fst p, snd p)" "p \<in> set pci_slots" "set slots \<subseteq> set pci_slots" using Cons.prems(1) by auto
  have rd: "\<exists>io'. pci_cfg_read32 h (fst p) (snd p) 0 off io = (le32 (header cfg p (unat off)), io') \<and> I io'"
    if "off \<in> {0, 8, 16}" "I io" for off io
  proof -
    obtain v io' where r: "pci_cfg_read32 h (fst p) (snd p) 0 off io = (v, io')" by (meson surj_pair)
    then show ?thesis using assms [unfolded answers_def, rule_format, OF p(2) that r] by simp
  qed
  obtain io1 where r1: "pci_cfg_read32 h (fst p) (snd p) 0 0 io = (le32 (header cfg p 0), io1)" "I io1" using rd [of 0 io] Cons.prems(2) by auto
  obtain io2 where r2: "pci_cfg_read32 h (fst p) (snd p) 0 8 io1 = (le32 (header cfg p 8), io2)" "I io2" using rd [of 8 io1] r1(2) by auto
  obtain io3 where r3: "pci_cfg_read32 h (fst p) (snd p) 0 16 io2 = (le32 (header cfg p 16), io3)" "I io3" using rd [of 16 io2] r2(2) by auto
  have v: "(ucast (le32 (header cfg p 0) AND 0xFFFF) = (0xFFFF :: u16)) = (\<not> pci_present cfg p)" by (simp only: le32_halves pci_present_def not_not)
  note step = pci_scan.simps(2) [of h "fst p" "snd p" slots devs io, folded p(1), unfolded r1(1) Let_def prod.case r2(1) r3(1) v device_of_bytes]
  consider "\<not> pci_present cfg p" | "pci_present cfg p" "NM_PCI_MAX_DEVICES \<le> length devs" | "pci_present cfg p" "length devs < NM_PCI_MAX_DEVICES"
    by linarith
  then show ?case
  proof cases
    case 1
    then show ?thesis using Cons.IH [OF p(3) r1(2) Cons.prems(3)] step by simp
  next
    case 2
    then show ?thesis using Cons.prems(3) step by simp
  next
    case 3
    then show ?thesis using Cons.IH [OF p(3) r3(2), of "devs @ [pci_described cfg p]"] step by simp
  qed
qed simp

lemma pci_scan_run: "\<exists>ws. io_run h io ws (snd (pci_scan h slots devs io)) \<and> fst ` set ws \<subseteq> {0xCF8, 0xCF9, 0xCFA, 0xCFB}"
proof (induction h slots devs io rule: pci_scan.induct)
  case (2 h bus slot rest devs io)
  obtain v1 io1 where r1: "pci_cfg_read32 h bus slot 0 0 io = (v1, io1)" by (meson surj_pair)
  obtain v2 io2 where r2: "pci_cfg_read32 h bus slot 0 8 io1 = (v2, io2)" by (meson surj_pair)
  obtain v3 io3 where r3: "pci_cfg_read32 h bus slot 0 16 io2 = (v3, io3)" by (meson surj_pair)
  have w: "fst ` set (cfg_writes a) = {0xCF8, 0xCF9, 0xCFA, 0xCFB}" for a by (simp add: cfg_writes_def insert_commute)
  note run1 = read32_run(1) [OF r1]
  note run3 = io_run_trans [OF read32_run(1) [OF r3] io_run_trans [OF read32_run(1) [OF r2] run1]]
  consider "(ucast (v1 AND 0xFFFF) :: u16) = 0xFFFF" | "(ucast (v1 AND 0xFFFF) :: u16) \<noteq> 0xFFFF" "length devs \<ge> NM_PCI_MAX_DEVICES"
    | "(ucast (v1 AND 0xFFFF) :: u16) \<noteq> 0xFFFF" "\<not> length devs \<ge> NM_PCI_MAX_DEVICES" by blast
  then show ?case
  proof cases
    case 1
    then obtain ws where "io_run h io1 ws (snd (pci_scan h rest devs io1))" "fst ` set ws \<subseteq> {0xCF8, 0xCF9, 0xCFA, 0xCFB}"
      using "2.IH"(1) [OF r1 [symmetric]] by auto
    then have "io_run h io (cfg_writes (pci_cfg_addr bus slot 0 0) @ ws) (snd (pci_scan h ((bus, slot) # rest) devs io))"
      using 1 r1 io_run_trans [OF _ run1] by simp
    then show ?thesis using \<open>fst ` set ws \<subseteq> _\<close> w by (intro exI [of _ "cfg_writes (pci_cfg_addr bus slot 0 0) @ ws"]) (simp add: image_Un del: pci_scan.simps)
  next
    case 2
    then have "snd (pci_scan h ((bus, slot) # rest) devs io) = io1" using r1 by simp
    then show ?thesis using run1 w by (intro exI conjI) (assumption | simp)+
  next
    case 3
    obtain ws where "io_run h io3 ws (snd (pci_scan h rest (devs @ [pci_device bus slot v1 v2 v3]) io3))" "fst ` set ws \<subseteq> {0xCF8, 0xCF9, 0xCFA, 0xCFB}"
      using "2.IH"(2) [OF r1 [symmetric] HOL.refl 3 r2 [symmetric] HOL.refl r3 [symmetric] HOL.refl] by auto
    then have "io_run h io (((cfg_writes (pci_cfg_addr bus slot 0 0) @ cfg_writes (pci_cfg_addr bus slot 0 8)) @ cfg_writes (pci_cfg_addr bus slot 0 16)) @ ws)
        (snd (pci_scan h ((bus, slot) # rest) devs io))"
      using 3 r1 r2 r3 io_run_trans [OF _ run3] by simp
    then show ?thesis using \<open>fst ` set ws \<subseteq> _\<close> w by (intro exI [of _ "((cfg_writes (pci_cfg_addr bus slot 0 0) @ cfg_writes (pci_cfg_addr bus slot 0 8)) @
        cfg_writes (pci_cfg_addr bus slot 0 16)) @ ws"]) (simp add: image_Un del: pci_scan.simps)
  qed
qed (auto intro: io_done)

text \<open>What the scan finds behind either kind of bridge.\<close>

lemma pci_init_latched:
  "pci_bridge h addr cfg \<Longrightarrow> latches_bytes h addr \<Longrightarrow> fst (pci_init h io) = pci_devices_of cfg"
  using pci_scan_answers [OF answers_latched, of h addr cfg pci_slots "[]" io] by (simp add: pci_init_def pci_devices_of_def)

lemma pci_init_stuck:
  "pci_bridge h addr cfg \<Longrightarrow> latches_dwords_only h addr \<Longrightarrow> fst (pci_init h io) = pci_devices_of (stuck_at cfg (addr (io_dev io)))"
  using pci_scan_answers [OF answers_stuck, of h addr cfg pci_slots io "addr (io_dev io)" "[]"] by (simp add: pci_init_def pci_devices_of_def)

lemma disabled_finds_none:
  assumes "\<not> bit a 31"
  shows "pci_devices_of (stuck_at cfg a) = []"
proof -
  have "le16 (header (stuck_at cfg a) p 0) = 0xFFFF" for p using assms by (simp add: le16_def header_def stuck_at_def selected_byte_def)
  then show ?thesis by (simp add: pci_devices_of_def pci_present_def)
qed

lemma rtl8139_init_finds:
  "(fst (rtl8139_init devs) = 0 \<longleftrightarrow> (\<exists>d \<in> set devs. vendor_id d = 0x10EC \<and> device_id d = 0x8139)) \<and>
   (\<forall>d. snd (rtl8139_init devs) = Some d \<longrightarrow> (\<exists>i < length devs. d = devs ! i \<and> vendor_id d = 0x10EC \<and> device_id d = 0x8139 \<and>
     (\<forall>j < i. \<not> (vendor_id (devs ! j) = 0x10EC \<and> device_id (devs ! j) = 0x8139))))"
proof -
  let ?P = "\<lambda>d. vendor_id d = 0x10EC \<and> device_id d = 0x8139"
  show ?thesis
  proof (cases "first_idx ?P devs")
    case None
    then have "rtl8139_init devs = (NM_ERR NM_EFAIL, None)" "\<forall>d \<in> set devs. \<not> ?P d"
      using first_idx_None_iff [of ?P devs] by (simp_all add: rtl8139_init_def pci_find_device_def)
    then show ?thesis by (simp add: NM_ERR_def)
  next
    case (Some i)
    then have "rtl8139_init devs = (0, Some (devs ! i))" "i < length devs" "?P (devs ! i)" "\<forall>j < i. \<not> ?P (devs ! j)"
      using first_idx_Some_iff [of ?P devs i] by (simp_all add: rtl8139_init_def pci_find_device_def)
    then show ?thesis using nth_mem by fastforce
  qed
qed

text \<open>
  C31: The PCI scan. Behind a bridge that latches the address register byte by byte it lists exactly the first 64 devices
  that answer at function 0, in the order of bus and slot, each with the identification, class and first base
  address that its configuration header holds. Behind a bridge of the PCI specification, which latches only four-byte
  writes, the scan does not see the devices: every read gives the register that was selected before, and when none was
  selected the list is empty. In both cases the network card driver starts exactly when the list has an
  RTL8139, and it takes the first one.
\<close>

theorem pci_init_correct:
  assumes "pci_bridge h addr cfg" "pci_init h io = (devs, io')"
  shows "(latches_bytes h addr \<longrightarrow> devs = take 64 (map (pci_described cfg) (filter (pci_present cfg) pci_slots))) \<and>
    (latches_dwords_only h addr \<longrightarrow> devs = pci_devices_of (stuck_at cfg (addr (io_dev io))) \<and> (\<not> bit (addr (io_dev io)) 31 \<longrightarrow> devs = [])) \<and>
    (fst (rtl8139_init devs) = 0 \<longleftrightarrow> (\<exists>d \<in> set devs. vendor_id d = 0x10EC \<and> device_id d = 0x8139)) \<and>
    (\<forall>d. snd (rtl8139_init devs) = Some d \<longrightarrow> (\<exists>i < length devs. d = devs ! i \<and> vendor_id d = 0x10EC \<and> device_id d = 0x8139 \<and>
      (\<forall>j < i. \<not> (vendor_id (devs ! j) = 0x10EC \<and> device_id (devs ! j) = 0x8139))))"
  using pci_init_latched [OF assms(1), of io] pci_init_stuck [OF assms(1), of io] disabled_finds_none rtl8139_init_finds [of devs] assms(2)
  by (auto simp: pci_devices_of_def NM_PCI_MAX_DEVICES_def)

section \<open>Witnesses\<close>

text \<open>Two controllers that just follow their specification, and nothing else.\<close>

definition pic_hw :: "(pic8259 \<times> pic8259) hw" where
  "pic_hw = \<lparr>hw_in = (\<lambda>port d. (if port = PIC1_DATA then pic_imr (fst d) else pic_imr (snd d), d)),
     hw_out = (\<lambda>port v d. (pic_step PIC1_COMMAND PIC1_DATA (port, v) (fst d), pic_step PIC2_COMMAND PIC2_DATA (port, v) (snd d)))\<rparr>"

lemma pic_hw_ok: "pic_at pic_hw PIC1_COMMAND PIC1_DATA fst" "pic_at pic_hw PIC2_COMMAND PIC2_DATA snd"
  by (simp_all add: pic_at_def pic_hw_def pic_step_def pic_ports)

theorem pic_init_correct_witness:
  "\<exists>io'. pic_init pic_hw \<lparr>io_dev = (\<lparr>icw_left = 2, pic_imr = 0xB8, pic_base = 8\<rparr>, \<lparr>icw_left = 0, pic_imr = 0x8E, pic_base = 0x70\<rparr>), io_log = []\<rparr> = Some io' \<and>
    pic_imr (fst (io_dev io')) = 0xFC \<and> pic_base (snd (io_dev io')) = 40"
  using pic_init_correct [OF pic_hw_ok] by fastforce

text \<open>A machine whose every port reads as a byte of the same configuration word.\<close>

definition card_hw :: "unit hw" where
  "card_hw = \<lparr>hw_in = (\<lambda>port d. (if port = 0xCFC then 0xEC else if port = 0xCFD then 0x10 else if port = 0xCFE then 0x39 else 0x81, d)),
     hw_out = (\<lambda>port v d. d)\<rparr>"

theorem interrupts_counted_and_acknowledged_witness:
  "\<exists>irq1 w1 irq2 w2. pit_init card_hw 0x1000 0x2000 100 (irq_init \<lparr>irq_table = [], bh_queue = [], bh_head = 0, bh_tail = 0\<rparr>)
      \<lparr>dv_io = \<lparr>io_dev = (), io_log = []\<rparr>, g_pit_ticks = 0, g_last_char = - 1\<rparr> = (irq1, w1) \<and>
    fold (nm_irq_isr card_hw 0x1000 0x1100) [32, 33, 32] (keyboard_init 0x1100 0x2008 irq1, w1) = (irq2, w2) \<and> pit_ticks w2 = 2"
proof -
  let ?w = "\<lparr>dv_io = \<lparr>io_dev = (), io_log = []\<rparr>, g_pit_ticks = 0, g_last_char = - 1\<rparr> :: unit devices"
    and ?i = "irq_init \<lparr>irq_table = [], bh_queue = [], bh_head = 0, bh_tail = 0\<rparr>"
  obtain irq1 w1 where p: "pit_init card_hw 0x1000 0x2000 100 ?i ?w = (irq1, w1)" by (meson surj_pair)
  obtain irq2 w2 where f: "fold (nm_irq_isr card_hw 0x1000 0x1100) [32, 33, 32] (keyboard_init 0x1100 0x2008 irq1, w1) = (irq2, w2)" by (meson surj_pair)
  have "pit_ticks w2 = 2" using interrupts_counted_and_acknowledged [OF _ _ _ p _ f] by (simp add: hits_def pit_ticks_def)
  then show ?thesis using p f by blast
qed

text \<open>
  A machine with a host bridge in slot 0 and an RTL8139 in slot 3, whose state is the address register. The bytes of the
  two headers are given up to offset 19.
\<close>

definition demo_config :: config_space where
  "demo_config bus dev func off =
     (if bus = 0 \<and> dev = 0 then (replicate 20 0)[0 := 0x86, 1 := 0x80, 2 := 0x37, 3 := 0x12, 11 := 6] ! off
      else if bus = 0 \<and> dev = 3 then (replicate 20 0)[0 := 0xEC, 1 := 0x10, 2 := 0x39, 3 := 0x81, 11 := 2, 16 := 1, 17 := 0xC0] ! off
      else 0xFF)"

definition bridge_hw :: "bool \<Rightarrow> u32 hw" where
  "bridge_hw bytes = \<lparr>hw_in = (\<lambda>port a. (selected_byte demo_config a (unat (port - 0xCFC)), a)),
     hw_out = (\<lambda>port v a. if bytes \<and> port - 0xCF8 < 4 then set_byte (unat (port - 0xCF8)) v a else a)\<rparr>"

lemma bridge_hw_ok: "pci_bridge (bridge_hw b) id demo_config" "latches_bytes (bridge_hw True) id" "latches_dwords_only (bridge_hw False) id"
proof -
  have "unat (of_nat i :: u16) = i \<and> (of_nat i :: u16) < 4" if "i < 4" for i using that by (simp add: unat_of_nat word_less_nat_alt)
  then show "pci_bridge (bridge_hw b) id demo_config" "latches_bytes (bridge_hw True) id" "latches_dwords_only (bridge_hw False) id"
    by (auto simp: pci_bridge_def bridge_hw_def latches_bytes_def latches_dwords_only_def)
qed

definition demo_card :: nm_device where
  "demo_card = \<lparr>nd_name = ''pci-dev'', vendor_id = 0x10EC, device_id = 0x8139, class_code = 2, nd_subclass = 0, prog_if = 0,
     nd_bus = 0, nd_slot = 3, nd_func = 0, bar0 = 0xC001\<rparr>"

lemma pci_slots_start: "\<exists>rest. pci_slots = (0, 0) # (0, 1) # (0, 2) # (0, 3) # rest"
proof -
  have "[0..<256] = 0 # [Suc 0..<256]" "[0..<32] = 0 # 1 # 2 # 3 # [4..<32]" by (simp_all add: upt_rec)
  then show ?thesis unfolding pci_slots_def by (simp only: list.map concat.simps append_Cons) simp
qed

theorem pci_init_correct_witness:
  "\<exists>devs io'. pci_init (bridge_hw True) \<lparr>io_dev = 0, io_log = []\<rparr> = (devs, io') \<and> devs ! 1 = demo_card \<and> fst (rtl8139_init devs) = 0 \<and>
     (\<exists>io''. pci_init (bridge_hw False) \<lparr>io_dev = 0, io_log = []\<rparr> = ([], io''))"
proof -
  let ?io = "\<lparr>io_dev = 0, io_log = []\<rparr> :: u32 io"
  obtain devs io' where p: "pci_init (bridge_hw True) ?io = (devs, io')" by (meson surj_pair)
  obtain devs2 io'' where p2: "pci_init (bridge_hw False) ?io = (devs2, io'')" by (meson surj_pair)
  note c = pci_init_correct [OF bridge_hw_ok(1) p] and c2 = pci_init_correct [OF bridge_hw_ok(1) p2]
  obtain rest where ps: "pci_slots = (0, 0) # (0, 1) # (0, 2) # (0, 3) # rest" using pci_slots_start by blast
  have "devs2 = []" using c2 [THEN conjunct2, THEN conjunct1] bridge_hw_ok(3) by auto
  moreover have "pci_present demo_config (0, 0)" "\<not> pci_present demo_config (0, 1)" "\<not> pci_present demo_config (0, 2)"
    "pci_present demo_config (0, 3)" "pci_described demo_config (0, 3) = demo_card"
    by (simp_all add: pci_present_def pci_described_def header_def demo_config_def le16_def le32_def demo_card_def)
  then have d: "devs = take 64 (pci_described demo_config (0, 0) # demo_card # map (pci_described demo_config) (filter (pci_present demo_config) rest))"
    using c bridge_hw_ok(2) by (simp add: ps)
  moreover have "demo_card \<in> set devs" "vendor_id demo_card = 0x10EC" "device_id demo_card = 0x8139" using d by (simp_all add: demo_card_def)
  then have "fst (rtl8139_init devs) = 0" using c by blast
  ultimately show ?thesis using p p2 by auto
qed

end
