(* ===== verification/Task.thy ===== *)
theory Task
  imports NM_Prelude
begin

text \<open>
  The task table of \<^verbatim>\<open>kernel/proc/task.c\<close> (kernel build) with the structures of
  \<^verbatim>\<open>include/nm/proc.h\<close>, the context switch of \<^verbatim>\<open>kernel/proc/switch.S\<close> and the thread trampoline of
  \<^verbatim>\<open>kernel/proc/kthread_trampoline.S\<close>. A pointer to a task is the index of its slot (\<open>None\<close> is the
  null pointer). The heap (\<^verbatim>\<open>kmalloc\<close>, \<^verbatim>\<open>kfree\<close>) is an argument of the operations that allocate a
  stack; kernel memory is a map from addresses to 64-bit words, in which stack frames are built.
  A C string is the list of its characters before the terminating null character. The process lock
  brackets each operation; \<^verbatim>\<open>proc_fork_current\<close>, which gives it up while it allocates the stack, is
  split into its two critical sections.
\<close>

section \<open>Data\<close>

definition NM_MAX_TASKS :: nat where "NM_MAX_TASKS = 128"
definition KSTACK_SIZE :: u64 where "KSTACK_SIZE = 8192"
definition NM_MAX_FDS :: nat where "NM_MAX_FDS = 32"
definition NM_TASK_NAME_MAX :: nat where "NM_TASK_NAME_MAX = 24"

datatype nm_task_state = NM_TASK_UNUSED | NM_TASK_RUNNABLE | NM_TASK_RUNNING | NM_TASK_SLEEPING | NM_TASK_ZOMBIE

record nm_regs =
  reg_r15 :: u64
  reg_r14 :: u64
  reg_r13 :: u64
  reg_r12 :: u64
  reg_r11 :: u64
  reg_r10 :: u64
  reg_r9 :: u64
  reg_r8 :: u64
  reg_rsi :: u64
  reg_rdi :: u64
  reg_rbp :: u64
  reg_rdx :: u64
  reg_rcx :: u64
  reg_rbx :: u64
  reg_rax :: u64
  reg_rip :: u64
  reg_rflags :: u64
  reg_rsp :: u64

record nm_sched_param =
  sp_priority :: u32
  sp_timeslice_ticks :: u32
  sp_vruntime :: u64
  sp_rr_budget :: u64

record nm_task =
  t_pid :: int
  t_ppid :: int
  t_is_kernel_thread :: bool
  t_state :: nm_task_state
  t_regs :: nm_regs
  t_cr3 :: u64
  t_fd_table :: "int list"
  t_fd_cloexec_mask :: u32
  t_signal_mask :: u64
  t_exit_code :: int
  t_argc :: u32
  t_envc :: u32
  t_sched :: nm_sched_param
  t_kernel_stack_top :: u64
  t_saved_rsp :: u64
  t_entry_name :: "string option"
  t_name :: string

record proc_state =
  task_table :: "nm_task list"
  task_used :: nat
  next_pid :: int
  current_task :: "nat option"

section \<open>Operations\<close>

definition copy_name :: "string \<Rightarrow> string option \<Rightarrow> nat \<Rightarrow> string" where
  "copy_name dst src max_len =
     (case src of
        None \<Rightarrow> dst[0 := NUL]
      | Some str \<Rightarrow> let n = min (max_len - 1) (length str) in take n str @ [NUL] @ drop (n + 1) dst)"

definition alloc_task_slot :: "proc_state \<Rightarrow> nat option" where
  "alloc_task_slot s = first_idx (\<lambda>t. t_state t = NM_TASK_UNUSED) (task_table s)"

text \<open>The count stops at 64 entries; \<open>mem\<close> is the memory the vector lies in.\<close>

definition count_ptr_vector :: "(u64 \<Rightarrow> u64) \<Rightarrow> u64 \<Rightarrow> u32" where
  "count_ptr_vector mem vec =
     (if vec = 0 then 0
      else case first_idx (\<lambda>i. mem (vec + 8 * of_nat i) = 0) [0..<64] of
             Some n \<Rightarrow> of_nat n | None \<Rightarrow> 64)"

definition alloc_task_stack :: "(u64 \<Rightarrow> 'h \<Rightarrow> u64 \<times> 'h) \<Rightarrow> 'h \<Rightarrow> u64 \<times> 'h" where
  "alloc_task_stack kmalloc h = kmalloc KSTACK_SIZE h"

definition upd_task :: "nat \<Rightarrow> (nm_task \<Rightarrow> nm_task) \<Rightarrow> proc_state \<Rightarrow> proc_state" where
  "upd_task i f s = s\<lparr>task_table := (task_table s)[i := f (task_table s ! i)]\<rparr>"

definition clear_task :: "nm_task \<Rightarrow> nm_task" where
  "clear_task t = t\<lparr>t_state := NM_TASK_UNUSED, t_pid := 0, t_fd_cloexec_mask := 0, t_exit_code := 0,
     t_argc := 0, t_envc := 0, t_sched := (t_sched t)\<lparr>sp_rr_budget := 0\<rparr>, t_saved_rsp := 0\<rparr>"

text \<open>The scheduling parameters that bootstrap and kernel threads start with.\<close>

definition init_sched :: nm_sched_param where
  "init_sched = \<lparr>sp_priority = 20, sp_timeslice_ticks = 4, sp_vruntime = 0, sp_rr_budget = 0\<rparr>"

definition proc_init :: "proc_state \<Rightarrow> proc_state" where
  "proc_init s =
     (let s = s\<lparr>task_table := map clear_task (task_table s), task_used := 0, next_pid := 1, current_task := None\<rparr>
      in case alloc_task_slot s of
           None \<Rightarrow> s
         | Some bootstrap \<Rightarrow>
             (upd_task bootstrap (\<lambda>t. t\<lparr>
                t_pid := next_pid s, t_ppid := 0, t_is_kernel_thread := True, t_state := NM_TASK_RUNNING,
                t_sched := init_sched, t_fd_cloexec_mask := 0, t_exit_code := 0, t_argc := 0, t_envc := 0,
                t_saved_rsp := 0, t_name := copy_name (t_name t) (Some ''bootstrap'') NM_TASK_NAME_MAX,
                t_fd_table := replicate NM_MAX_FDS (- 1)\<rparr>) s)
             \<lparr>next_pid := s32 (next_pid s + 1), task_used := 1, current_task := Some bootstrap\<rparr>)"

text \<open>\<open>push_word\<close> is \<^verbatim>\<open>*(--sp) = value\<close>.\<close>

type_synonym kmem = "u64 \<Rightarrow> u64"

definition push_word :: "u64 \<Rightarrow> u64 \<times> kmem \<Rightarrow> u64 \<times> kmem" where
  "push_word v x = (fst x - 8, (snd x)(fst x - 8 := v))"

definition kthread_frame :: "u64 \<Rightarrow> u64 \<Rightarrow> u64 \<Rightarrow> u64 \<Rightarrow> kmem \<Rightarrow> u64 \<times> kmem" where
  "kthread_frame trampoline entry arg stack_top m =
     fold push_word [arg, entry, trampoline, 0, 0, 0, 0, 0, 0] (stack_top AND NOT 0xF, m)"

text \<open>
  The task that a new kernel thread's slot holds (\<open>t\<close> is the slot's earlier content, of which the
  fields that are not assigned stay), and the bookkeeping that goes with filling a slot.
\<close>

definition kthread_task :: "proc_state \<Rightarrow> string option \<Rightarrow> u64 \<Rightarrow> u64 \<Rightarrow> u64 \<Rightarrow> nm_task \<Rightarrow> nm_task" where
  "kthread_task s name entry stack_top sp t = t\<lparr>
     t_pid := next_pid s,
     t_ppid := (case current_task s of Some c \<Rightarrow> t_pid (task_table s ! c) | None \<Rightarrow> 0),
     t_is_kernel_thread := True, t_state := NM_TASK_RUNNABLE, t_sched := init_sched,
     t_fd_cloexec_mask := 0, t_exit_code := 0, t_argc := 0, t_envc := 0,
     t_kernel_stack_top := stack_top, t_saved_rsp := sp,
     t_regs := (t_regs t)\<lparr>reg_rsp := stack_top, reg_rip := entry\<rparr>,
     t_entry_name := name, t_name := copy_name (t_name t) name NM_TASK_NAME_MAX,
     t_fd_table := replicate NM_MAX_FDS (- 1)\<rparr>"

definition fill_slot :: "nat \<Rightarrow> nm_task \<Rightarrow> proc_state \<Rightarrow> proc_state" where
  "fill_slot i t s = s\<lparr>task_table := (task_table s)[i := t], next_pid := s32 (next_pid s + 1),
     task_used := task_used s + 1\<rparr>"

definition task_create_kernel_thread ::
  "(u64 \<Rightarrow> 'h \<Rightarrow> u64 \<times> 'h) \<Rightarrow> (u64 \<Rightarrow> 'h \<Rightarrow> 'h) \<Rightarrow> u64 \<Rightarrow> string option \<Rightarrow> u64 \<Rightarrow> u64 \<Rightarrow>
   proc_state \<Rightarrow> 'h \<Rightarrow> kmem \<Rightarrow> nat option \<times> proc_state \<times> 'h \<times> kmem" where
  "task_create_kernel_thread kmalloc kfree trampoline name entry arg s h m =
     (let (kstack, h) = alloc_task_stack kmalloc h in
      if kstack = 0 then (None, s, h, m)
      else case alloc_task_slot s of
        None \<Rightarrow> (None, s, kfree kstack h, m)
      | Some i \<Rightarrow>
          let stack_top = kstack + KSTACK_SIZE;
              (sp, m) = kthread_frame trampoline entry arg stack_top m
          in (Some i, fill_slot i (kthread_task s name entry stack_top sp (task_table s ! i)) s, h, m))"

definition task_current :: "proc_state \<Rightarrow> nat option" where
  "task_current s = current_task s"

definition task_by_pid :: "int \<Rightarrow> proc_state \<Rightarrow> nat option" where
  "task_by_pid pid s = first_idx (\<lambda>t. t_state t \<noteq> NM_TASK_UNUSED \<and> t_pid t = pid) (task_table s)"

definition task_by_index :: "nat \<Rightarrow> proc_state \<Rightarrow> nat option" where
  "task_by_index index s =
     (if index \<ge> NM_MAX_TASKS then None
      else if t_state (task_table s ! index) = NM_TASK_UNUSED then None else Some index)"

definition task_count :: "proc_state \<Rightarrow> nat" where
  "task_count s = task_used s"

definition proc_set_current :: "nat option \<Rightarrow> proc_state \<Rightarrow> proc_state" where
  "proc_set_current task s = s\<lparr>current_task := task\<rparr>"

text \<open>\<^verbatim>\<open>proc_fork_current\<close>: the first critical section finds a slot, the second checks it again and fills it.\<close>

definition fork_probe :: "proc_state \<Rightarrow> nat option" where
  "fork_probe s = (if current_task s = None then None else alloc_task_slot s)"

definition fork_task :: "proc_state \<Rightarrow> u64 \<Rightarrow> nm_task \<Rightarrow> nm_task" where
  "fork_task s stack_top cur = cur\<lparr>
     t_pid := next_pid s, t_ppid := t_pid cur, t_state := NM_TASK_RUNNABLE, t_exit_code := 0,
     t_sched := (t_sched cur)\<lparr>sp_rr_budget := 0\<rparr>, t_kernel_stack_top := stack_top,
     t_regs := (t_regs cur)\<lparr>reg_rsp := stack_top, reg_rax := 0\<rparr>, t_saved_rsp := stack_top\<rparr>"

definition fork_commit :: "nat \<Rightarrow> u64 \<Rightarrow> proc_state \<Rightarrow> (nat \<times> proc_state) option" where
  "fork_commit child kstack s =
     (case current_task s of
        None \<Rightarrow> None
      | Some c \<Rightarrow>
          if t_state (task_table s ! child) \<noteq> NM_TASK_UNUSED then None
          else Some (child, fill_slot child (fork_task s (kstack + KSTACK_SIZE) (task_table s ! c)) s))"

definition proc_fork_current ::
  "(u64 \<Rightarrow> 'h \<Rightarrow> u64 \<times> 'h) \<Rightarrow> (u64 \<Rightarrow> 'h \<Rightarrow> 'h) \<Rightarrow> proc_state \<Rightarrow> 'h \<Rightarrow> nat option \<times> proc_state \<times> 'h" where
  "proc_fork_current kmalloc kfree s h =
     (case fork_probe s of
        None \<Rightarrow> (None, s, h)
      | Some child \<Rightarrow>
          let (kstack, h) = alloc_task_stack kmalloc h in
          if kstack = 0 then (None, s, h)
          else case fork_commit child kstack s of
            None \<Rightarrow> (None, s, kfree kstack h)
          | Some (child, s) \<Rightarrow> (Some child, s, h))"

definition proc_exec_current ::
  "(u64 \<Rightarrow> u64) \<Rightarrow> string option \<Rightarrow> u64 \<Rightarrow> u64 \<Rightarrow> u64 \<Rightarrow> proc_state \<Rightarrow> int \<times> proc_state" where
  "proc_exec_current mem name entry argv envp s =
     (case current_task s of
        None \<Rightarrow> (NM_ERR NM_EFAIL, s)
      | Some c \<Rightarrow>
          if name = None then (NM_ERR NM_EFAIL, s)
          else (0, upd_task c (\<lambda>t. t\<lparr>
                 t_entry_name := name, t_name := copy_name (t_name t) name NM_TASK_NAME_MAX,
                 t_argc := count_ptr_vector mem argv, t_envc := count_ptr_vector mem envp,
                 t_regs := (t_regs t)\<lparr>reg_rdi := ucast (count_ptr_vector mem argv), reg_rsi := argv,
                   reg_rdx := envp, reg_rip := (if entry \<noteq> 0 then entry else reg_rip (t_regs t))\<rparr>\<rparr>) s))"

definition proc_exit_current :: "int \<Rightarrow> proc_state \<Rightarrow> proc_state" where
  "proc_exit_current code s =
     (case current_task s of
        None \<Rightarrow> s
      | Some c \<Rightarrow> upd_task c (\<lambda>t. t\<lparr>t_exit_code := code, t_state := NM_TASK_ZOMBIE\<rparr>) s)"

definition wait_match :: "int \<Rightarrow> int \<Rightarrow> nm_task \<Rightarrow> bool" where
  "wait_match cur_pid pid t \<longleftrightarrow> t_state t = NM_TASK_ZOMBIE \<and> t_ppid t = cur_pid \<and> \<not> (pid > 0 \<and> t_pid t \<noteq> pid)"

text \<open>The value stored through \<^verbatim>\<open>status\<close> is the second component; the caller drops it for a null pointer.\<close>

definition proc_waitpid :: "int \<Rightarrow> proc_state \<Rightarrow> int \<times> int option \<times> proc_state" where
  "proc_waitpid pid s =
     (case current_task s of
        None \<Rightarrow> (NM_ERR NM_EFAIL, None, s)
      | Some c \<Rightarrow>
          (case first_idx (wait_match (t_pid (task_table s ! c)) pid) (task_table s) of
             None \<Rightarrow> (NM_ERR NM_EFAIL, None, s)
           | Some m \<Rightarrow>
               let t = task_table s ! m in
               (t_pid t, Some (t_exit_code t),
                (upd_task m (\<lambda>t. t\<lparr>t_state := NM_TASK_UNUSED, t_pid := 0, t_ppid := 0,
                   t_fd_cloexec_mask := 0, t_exit_code := 0\<rparr>) s)
                \<lparr>task_used := (if task_used s > 0 then task_used s - 1 else task_used s)\<rparr>)))"

section \<open>The context switch\<close>

text \<open>The registers the switch saves, as the processor holds them on entry (\<^verbatim>\<open>[rsp]\<close> is the return address).\<close>

record cpu =
  cpu_rsp :: u64
  cpu_rip :: u64
  cpu_rbp :: u64
  cpu_rbx :: u64
  cpu_r12 :: u64
  cpu_r13 :: u64
  cpu_r14 :: u64
  cpu_r15 :: u64
  cpu_rdi :: u64
  cpu_rax :: u64

definition cpu_save :: "cpu \<Rightarrow> kmem \<Rightarrow> u64 \<times> kmem" where
  "cpu_save c m = fold push_word [cpu_rbp c, cpu_rbx c, cpu_r12 c, cpu_r13 c, cpu_r14 c, cpu_r15 c] (cpu_rsp c, m)"

definition cpu_restore :: "u64 \<Rightarrow> kmem \<Rightarrow> cpu \<Rightarrow> cpu" where
  "cpu_restore sp m c = c\<lparr>cpu_r15 := m sp, cpu_r14 := m (sp + 8), cpu_r13 := m (sp + 16), cpu_r12 := m (sp + 24),
     cpu_rbx := m (sp + 32), cpu_rbp := m (sp + 40), cpu_rip := m (sp + 48), cpu_rsp := sp + 56\<rparr>"

text \<open>Returns the stack pointer stored through \<^verbatim>\<open>old_rsp\<close>, the processor after \<^verbatim>\<open>ret\<close> and memory.\<close>

definition nm_context_switch :: "u64 \<Rightarrow> cpu \<Rightarrow> kmem \<Rightarrow> u64 \<times> cpu \<times> kmem" where
  "nm_context_switch new_rsp c m = (let (old, m) = cpu_save c m in (old, cpu_restore new_rsp m c, m))"

definition nm_kthread_trampoline :: "u64 \<Rightarrow> cpu \<Rightarrow> kmem \<Rightarrow> cpu \<times> kmem" where
  "nm_kthread_trampoline ret_addr c m =
     (let sp = cpu_rsp c; (sp', m') = push_word ret_addr (sp + 16, m)
      in (c\<lparr>cpu_rax := m sp, cpu_rdi := m (sp + 8), cpu_rsp := sp', cpu_rip := m sp\<rparr>, m'))"

section \<open>The table's invariant\<close>

definition task_used_slot :: "nm_task \<Rightarrow> bool" where
  "task_used_slot t \<longleftrightarrow> t_state t \<noteq> NM_TASK_UNUSED"

text \<open>What holds of a slot in use when the next pid is \<open>np\<close>: a task is younger than its parent.\<close>

definition task_ok :: "int \<Rightarrow> nm_task \<Rightarrow> bool" where
  "task_ok np t \<longleftrightarrow> 0 \<le> t_ppid t \<and> t_ppid t < t_pid t \<and> t_pid t < np \<and> length (t_fd_table t) = NM_MAX_FDS"

definition proc_inv :: "proc_state \<Rightarrow> bool" where
  "proc_inv s \<longleftrightarrow>
     length (task_table s) = NM_MAX_TASKS \<and> task_used s = count_if task_used_slot (task_table s) \<and>
     (\<forall>i<NM_MAX_TASKS. task_used_slot (task_table s ! i) \<longrightarrow> task_ok (next_pid s) (task_table s ! i)) \<and>
     (\<forall>i<NM_MAX_TASKS. \<forall>j<NM_MAX_TASKS. task_used_slot (task_table s ! i) \<longrightarrow> task_used_slot (task_table s ! j) \<longrightarrow>
        t_pid (task_table s ! i) = t_pid (task_table s ! j) \<longrightarrow> i = j) \<and>
     (\<forall>c. current_task s = Some c \<longrightarrow> c < NM_MAX_TASKS \<and> task_used_slot (task_table s ! c)) \<and>
     1 \<le> next_pid s \<and> next_pid s < 2 ^ 31"

lemma proc_invD:
  assumes "proc_inv s"
  shows "length (task_table s) = NM_MAX_TASKS" "task_used s = count_if task_used_slot (task_table s)"
    "\<And>i. i < NM_MAX_TASKS \<Longrightarrow> task_used_slot (task_table s ! i) \<Longrightarrow> task_ok (next_pid s) (task_table s ! i)"
    "\<And>i j. i < NM_MAX_TASKS \<Longrightarrow> j < NM_MAX_TASKS \<Longrightarrow> task_used_slot (task_table s ! i) \<Longrightarrow>
       task_used_slot (task_table s ! j) \<Longrightarrow> t_pid (task_table s ! i) = t_pid (task_table s ! j) \<Longrightarrow> i = j"
    "\<And>c. current_task s = Some c \<Longrightarrow> c < NM_MAX_TASKS" "\<And>c. current_task s = Some c \<Longrightarrow> task_used_slot (task_table s ! c)"
    "1 \<le> next_pid s" "next_pid s < 2 ^ 31"
  using assms by (simp_all add: proc_inv_def)

lemma upd_task_simps [simp]:
  "task_used (upd_task i f s) = task_used s" "next_pid (upd_task i f s) = next_pid s"
  "current_task (upd_task i f s) = current_task s"
  "task_table (upd_task i f s) = (task_table s)[i := f (task_table s ! i)]"
  by (simp_all add: upd_task_def)

text \<open>The three ways the operations change a slot: rewriting a task in place, claiming a slot, freeing one.\<close>

lemma proc_inv_rewrite:
  assumes "proc_inv s" "i < NM_MAX_TASKS" "task_used_slot (task_table s ! i)"
    and f: "\<And>t. t_pid (f t) = t_pid t" "\<And>t. t_ppid (f t) = t_ppid t" "\<And>t. length (t_fd_table (f t)) = length (t_fd_table t)"
    and u: "task_used_slot (f (task_table s ! i))"
  shows "proc_inv (upd_task i f s)"
proof -
  note inv = proc_invD [OF assms(1)]
  have c: "count_if task_used_slot ((task_table s)[i := f (task_table s ! i)]) = count_if task_used_slot (task_table s)"
    using assms(3) u by (intro count_if_update_same) simp
  have ok: "task_ok (next_pid s) (f t) = task_ok (next_pid s) t" for t
    by (simp add: task_ok_def f)
  show ?thesis
    unfolding proc_inv_def using inv assms(2,3) u c by (auto simp: nth_list_update ok f)
qed

lemma fill_slot_simps [simp]:
  "task_used (fill_slot i t s) = task_used s + 1" "next_pid (fill_slot i t s) = s32 (next_pid s + 1)"
  "current_task (fill_slot i t s) = current_task s" "task_table (fill_slot i t s) = (task_table s)[i := t]"
  by (simp_all add: fill_slot_def)

lemma proc_inv_claim:
  assumes "proc_inv s" "i < NM_MAX_TASKS" "\<not> task_used_slot (task_table s ! i)" "next_pid s < 2 ^ 31 - 1"
    and t: "t_pid t = next_pid s" "0 \<le> t_ppid t" "t_ppid t < next_pid s" "length (t_fd_table t) = NM_MAX_FDS"
      "task_used_slot t"
  shows "proc_inv (fill_slot i t s)"
proof -
  note inv = proc_invD [OF assms(1)]
  have np: "s32 (next_pid s + 1) = next_pid s + 1" using inv(7) assms(4) by (intro s32_id) auto
  have c: "count_if task_used_slot ((task_table s)[i := t]) = Suc (count_if task_used_slot (task_table s))"
    using assms(2,3) inv(1) t by (intro count_if_claim) auto
  have ok: "task_ok (next_pid s + 1) (task_table s ! j)" "t_pid (task_table s ! j) \<noteq> next_pid s"
    if "j < NM_MAX_TASKS" "task_used_slot (task_table s ! j)" for j
    using inv(3) [OF that] by (auto simp: task_ok_def)
  have okt: "task_ok (next_pid s + 1) t" using t by (simp add: task_ok_def)
  have cur: "c \<noteq> i" if "current_task s = Some c" for c using inv(6) [OF that] assms(3) by auto
  show ?thesis
    unfolding proc_inv_def using inv assms(2-4) c ok okt t np cur
    by (auto simp: nth_list_update) (metis ok(2) t(1))+
qed

lemma proc_inv_free:
  assumes "proc_inv s" "i < NM_MAX_TASKS" "task_used_slot (task_table s ! i)" "current_task s \<noteq> Some i"
    and f: "\<not> task_used_slot (f (task_table s ! i))"
  shows "proc_inv ((upd_task i f s)\<lparr>task_used := task_used s - 1\<rparr>)"
proof -
  note inv = proc_invD [OF assms(1)]
  have c: "Suc (count_if task_used_slot ((task_table s)[i := f (task_table s ! i)])) = count_if task_used_slot (task_table s)"
    using assms(2,3) inv(1) f by (intro count_if_drop) auto
  show ?thesis
    unfolding proc_inv_def using inv assms(2-4) f c
    by (auto simp: nth_list_update)
qed

lemma proc_set_current_inv [nm_inv]:
  "proc_inv s \<Longrightarrow> n < NM_MAX_TASKS \<Longrightarrow> task_used_slot (task_table s ! n) \<Longrightarrow> proc_inv (proc_set_current (Some n) s)"
  by (simp add: proc_inv_def proc_set_current_def)

lemma alloc_task_slot_SomeD:
  assumes "proc_inv s" "alloc_task_slot s = Some i"
  shows "i < NM_MAX_TASKS" "\<not> task_used_slot (task_table s ! i)"
  using assms by (auto simp: alloc_task_slot_def proc_inv_def task_used_slot_def dest: first_idx_SomeD)

lemma alloc_task_slot_None_iff:
  "proc_inv s \<Longrightarrow> alloc_task_slot s = None \<longleftrightarrow> task_used s = NM_MAX_TASKS"
  by (metis (mono_tags, lifting) alloc_task_slot_def count_if_full first_idx_None_nth proc_invD(1,2) task_used_slot_def)

lemma task_used_pos: "proc_inv s \<Longrightarrow> i < NM_MAX_TASKS \<Longrightarrow> task_used_slot (task_table s ! i) \<Longrightarrow> 0 < task_used s"
  using proc_invD(1,2) [of s] count_if_pos [of task_used_slot "task_table s"] by auto

lemma current_pid:
  "proc_inv s \<Longrightarrow> current_task s = Some c \<Longrightarrow> 0 < t_pid (task_table s ! c) \<and> t_pid (task_table s ! c) < next_pid s"
  using proc_invD(3) [of s c] proc_invD(5,6) [of s c] by (auto simp: task_ok_def)

section \<open>What each operation does\<close>

lemma task_create_failed:
  assumes "task_create_kernel_thread kmalloc kfree tr name entry arg s h m = (None, s', h', m')"
  shows "s' = s" "m' = m"
  using assms by (auto simp: task_create_kernel_thread_def Let_def split: prod.splits if_splits option.splits)

lemma task_create_inv [nm_inv]:
  assumes "proc_inv s" "next_pid s < 2 ^ 31 - 1"
    and "task_create_kernel_thread kmalloc kfree tr name entry arg s h m = (r, s', h', m')"
  shows "proc_inv s'"
proof (cases r)
  case None
  then show ?thesis using assms task_create_failed by metis
next
  case (Some i)
  have i: "alloc_task_slot s = Some i"
    using assms(3) Some by (auto simp: task_create_kernel_thread_def Let_def split: prod.splits if_splits option.splits)
  note slot = alloc_task_slot_SomeD [OF assms(1) i]
  have pp: "0 \<le> t_pid (task_table s ! c) \<and> t_pid (task_table s ! c) < next_pid s" if "current_task s = Some c" for c
    using current_pid [OF assms(1) that] by simp
  have "\<exists>stack_top sp. s' = fill_slot i (kthread_task s name entry stack_top sp (task_table s ! i)) s"
    using assms(3) Some i
    by (auto simp: task_create_kernel_thread_def Let_def split: prod.splits if_splits)
  then show ?thesis
    using pp proc_invD(7) [OF assms(1)]
    by (auto simp: kthread_task_def task_used_slot_def split: option.splits
        intro!: proc_inv_claim [OF assms(1) slot assms(2)])
qed

lemma fork_commit_inv:
  assumes "proc_inv s" "next_pid s < 2 ^ 31 - 1" "child < NM_MAX_TASKS" "fork_commit child kstack s = Some (i, s')"
  shows "proc_inv s'"
proof -
  obtain c where c: "current_task s = Some c" and i: "i = child" and u: "\<not> task_used_slot (task_table s ! child)"
    and s': "s' = fill_slot child (fork_task s (kstack + KSTACK_SIZE) (task_table s ! c)) s"
    using assms(4) by (auto simp: fork_commit_def task_used_slot_def split: option.splits if_splits)
  have "length (t_fd_table (task_table s ! c)) = NM_MAX_FDS"
    using proc_invD(3) [OF assms(1) proc_invD(5,6) [OF assms(1) c]] by (simp add: task_ok_def)
  then show ?thesis
    unfolding s' using current_pid [OF assms(1) c]
    by (intro proc_inv_claim [OF assms(1) assms(3) u assms(2)]) (simp_all add: fork_task_def task_used_slot_def)
qed

lemma proc_fork_inv [nm_inv]:
  assumes "proc_inv s" "next_pid s < 2 ^ 31 - 1" "proc_fork_current kmalloc kfree s h = (r, s', h')"
  shows "proc_inv s'"
proof -
  consider "s' = s" | child kstack i where "fork_probe s = Some child" "fork_commit child kstack s = Some (i, s')"
    using assms(3) by (auto simp: proc_fork_current_def Let_def split: prod.splits option.splits if_splits)
  then show ?thesis
  proof cases
    case 1
    then show ?thesis using assms(1) by simp
  next
    case 2
    then show ?thesis
      using fork_commit_inv [OF assms(1,2)] alloc_task_slot_SomeD(1) [OF assms(1)]
      by (auto simp: fork_probe_def split: if_splits)
  qed
qed

lemma proc_exec_inv [nm_inv]:
  "proc_inv s \<Longrightarrow> proc_inv (snd (proc_exec_current mem name entry argv envp s))"
  using proc_invD(5,6) [of s]
  by (auto simp: proc_exec_current_def task_used_slot_def split: option.splits intro!: proc_inv_rewrite)

lemma proc_exit_inv [nm_inv]: "proc_inv s \<Longrightarrow> proc_inv (proc_exit_current code s)"
  using proc_invD(5,6) [of s]
  by (auto simp: proc_exit_current_def task_used_slot_def split: option.splits intro!: proc_inv_rewrite)

text \<open>The zombie that \<^verbatim>\<open>proc_waitpid\<close> reaps is never the caller itself.\<close>

lemma wait_match_other:
  assumes "proc_inv s" "current_task s = Some c" "i < NM_MAX_TASKS"
    "wait_match (t_pid (task_table s ! c)) pid (task_table s ! i)"
  shows "task_used_slot (task_table s ! i)" "i \<noteq> c"
proof -
  show u: "task_used_slot (task_table s ! i)" using assms(4) by (auto simp: wait_match_def task_used_slot_def)
  show "i \<noteq> c"
    using proc_invD(3) [OF assms(1,3) u] assms(4) by (auto simp: wait_match_def task_ok_def)
qed

lemma proc_waitpid_inv [nm_inv]:
  assumes "proc_inv s" "proc_waitpid pid s = (r, st, s')"
  shows "proc_inv s'"
proof (cases "st = None")
  case True
  then have "s' = s" using assms(2) by (auto simp: proc_waitpid_def Let_def split: option.splits)
  then show ?thesis using assms(1) by simp
next
  case False
  then obtain c i where c: "current_task s = Some c"
    and i: "first_idx (wait_match (t_pid (task_table s ! c)) pid) (task_table s) = Some i"
    using assms(2) by (auto simp: proc_waitpid_def Let_def split: option.splits)
  have b: "i < NM_MAX_TASKS" "wait_match (t_pid (task_table s ! c)) pid (task_table s ! i)"
    using first_idx_SomeD [OF i] proc_invD(1) [OF assms(1)] by simp_all
  note u = wait_match_other [OF assms(1) c b]
  have s': "s' = (upd_task i (\<lambda>t. t\<lparr>t_state := NM_TASK_UNUSED, t_pid := 0, t_ppid := 0, t_fd_cloexec_mask := 0,
      t_exit_code := 0\<rparr>) s)\<lparr>task_used := task_used s - 1\<rparr>"
    using assms(2) c i task_used_pos [OF assms(1) b(1) u(1)] by (auto simp: proc_waitpid_def Let_def)
  show ?thesis
    unfolding s' by (rule proc_inv_free [OF assms(1) b(1) u(1)]) (use c u in \<open>auto simp: task_used_slot_def\<close>)
qed

lemma proc_init_inv [nm_inv]:
  assumes "length (task_table s) = NM_MAX_TASKS"
  shows "proc_inv (proc_init s)" "current_task (proc_init s) = Some 0" "task_used (proc_init s) = 1"
    "t_pid (task_table (proc_init s) ! 0) = 1" "t_state (task_table (proc_init s) ! 0) = NM_TASK_RUNNING"
    "\<And>i. 0 < i \<Longrightarrow> i < NM_MAX_TASKS \<Longrightarrow> \<not> task_used_slot (task_table (proc_init s) ! i)"
proof -
  obtain t ts where ts: "task_table s = t # ts" "length ts = 127"
    using assms by (cases "task_table s") (auto simp: NM_MAX_TASKS_def)
  have none: "count_if task_used_slot (map clear_task ts) = 0"
    by (induction ts) (auto simp: task_used_slot_def clear_task_def)
  have slot: "\<not> task_used_slot (map clear_task ts ! i)" if "i < 127" for i
    using that ts by (simp add: task_used_slot_def clear_task_def)
  have one: "s32 2 = 2" by (intro s32_id) auto
  show "proc_inv (proc_init s)" "current_task (proc_init s) = Some 0" "task_used (proc_init s) = 1"
    "t_pid (task_table (proc_init s) ! 0) = 1" "t_state (task_table (proc_init s) ! 0) = NM_TASK_RUNNING"
    "\<And>i. 0 < i \<Longrightarrow> i < NM_MAX_TASKS \<Longrightarrow> \<not> task_used_slot (task_table (proc_init s) ! i)"
    using ts none slot one
    by (auto simp: proc_init_def alloc_task_slot_def clear_task_def [of t] proc_inv_def task_ok_def
        task_used_slot_def [of "t\<lparr>t_state := S\<rparr>" for S] NM_MAX_TASKS_def nth_Cons' task_used_slot_def Let_def)
qed

section \<open>Stack frames\<close>

lemma push_word_simps [simp]: "fst (push_word v x) = fst x - 8" "snd (push_word v x) = (snd x)(fst x - 8 := v)"
  by (simp_all add: push_word_def)

lemma kthread_frame_words:
  fixes sp :: u64
  assumes "kthread_frame tr entry arg stack_top m = (sp, m')"
  shows "sp + 72 = stack_top AND NOT 0xF" "m' (sp + 48) = tr" "m' (sp + 56) = entry" "m' (sp + 64) = arg"
    "m' sp = 0" "m' (sp + 8) = 0" "m' (sp + 16) = 0" "m' (sp + 24) = 0" "m' (sp + 32) = 0" "m' (sp + 40) = 0"
  using assms by (auto simp: kthread_frame_def push_word_def)

text \<open>The six words that the switch writes below the stack pointer.\<close>

definition saved_area :: "cpu \<Rightarrow> u64 set" where
  "saved_area c = {cpu_rsp c - 8, cpu_rsp c - 16, cpu_rsp c - 24, cpu_rsp c - 32, cpu_rsp c - 40, cpu_rsp c - 48}"

lemma cpu_save_words:
  assumes "cpu_save c m = (old, m')"
  shows "cpu_rsp c = old + 48"
    "m' old = cpu_r15 c" "m' (old + 8) = cpu_r14 c" "m' (old + 16) = cpu_r13 c" "m' (old + 24) = cpu_r12 c"
    "m' (old + 32) = cpu_rbx c" "m' (old + 40) = cpu_rbp c" "m' (old + 48) = m (cpu_rsp c)"
    "\<And>a. a \<notin> saved_area c \<Longrightarrow> m' a = m a"
  using assms by (auto simp: cpu_save_def push_word_def saved_area_def)

lemma unat_and_not_15: "unat ((w :: u64) AND NOT 0xF) = unat w div 16 * 16"
proof -
  have "w AND NOT (mask 4) = push_bit 4 (drop_bit 4 w)"
    by (rule bit_word_eqI) (auto simp: bit_and_iff bit_not_iff bit_mask_iff bit_push_bit_iff bit_drop_bit_eq)
  then have "w AND NOT 0xF = push_bit 4 (drop_bit 4 w)" by (simp add: mask_eq_exp_minus_1)
  moreover have "unat (push_bit 4 (drop_bit 4 w)) = unat w div 16 * 16"
  proof -
    have "unat (w div 16) * unat (16 :: u64) \<le> unat w" by (simp add: unat_div)
    also have "unat w < 2 ^ 64" using unsigned_less [of w] by simp
    finally show ?thesis
      by (simp add: push_bit_eq_mult drop_bit_eq_div unat_mult64 unat_div)
  qed
  ultimately show ?thesis by simp
qed

text \<open>The frame of a new thread lies inside its stack.\<close>

lemma kthread_frame_inside:
  assumes "kthread_frame tr entry arg (kstack + KSTACK_SIZE) m = (sp, m')" "unat kstack + 8192 < 2 ^ 64" "k \<le> 64"
  shows "unat kstack \<le> unat (sp + of_nat k)" "unat (sp + of_nat k) < unat kstack + 8192"
proof -
  have t: "unat (kstack + KSTACK_SIZE) = unat kstack + 8192"
    using assms(2) by (simp add: unat_add64 KSTACK_SIZE_def)
  have sp: "sp = ((kstack + KSTACK_SIZE) AND NOT 0xF) - 72"
    using kthread_frame_words(1) [OF assms(1)] by (metis add_diff_cancel)
  define w where "w = (kstack + KSTACK_SIZE) AND NOT 0xF"
  have w: "unat w = (unat kstack + 8192) div 16 * 16"
    by (simp only: w_def unat_and_not_15 t)
  have u: "unat sp = (unat kstack + 8192) div 16 * 16 - 72"
    unfolding sp w_def [symmetric] by (subst unat_sub64) (auto simp: word_le_nat_alt w)
  have "unat (sp + of_nat k) = unat sp + k"
    using u assms(2,3) by (subst unat_add64) (auto simp: unat_of_nat64)
  then show "unat kstack \<le> unat (sp + of_nat k)" "unat (sp + of_nat k) < unat kstack + 8192"
    using u assms(3) by auto
qed

section \<open>Properties\<close>

definition blank_task :: nm_task where
  "blank_task = \<lparr>t_pid = 0, t_ppid = 0, t_is_kernel_thread = False, t_state = NM_TASK_UNUSED,
     t_regs = \<lparr>reg_r15 = 0, reg_r14 = 0, reg_r13 = 0, reg_r12 = 0, reg_r11 = 0, reg_r10 = 0, reg_r9 = 0,
       reg_r8 = 0, reg_rsi = 0, reg_rdi = 0, reg_rbp = 0, reg_rdx = 0, reg_rcx = 0, reg_rbx = 0, reg_rax = 0,
       reg_rip = 0, reg_rflags = 0, reg_rsp = 0\<rparr>,
     t_cr3 = 0, t_fd_table = replicate NM_MAX_FDS 0, t_fd_cloexec_mask = 0, t_signal_mask = 0, t_exit_code = 0,
     t_argc = 0, t_envc = 0,
     t_sched = \<lparr>sp_priority = 0, sp_timeslice_ticks = 0, sp_vruntime = 0, sp_rr_budget = 0\<rparr>,
     t_kernel_stack_top = 0, t_saved_rsp = 0, t_entry_name = None, t_name = replicate NM_TASK_NAME_MAX NUL\<rparr>"

text \<open>The zero-initialised static data of \<^verbatim>\<open>task.c\<close> and the state after \<^verbatim>\<open>proc_init\<close>.\<close>

definition boot_proc :: proc_state where
  "boot_proc = \<lparr>task_table = replicate NM_MAX_TASKS blank_task, task_used = 0, next_pid = 1, current_task = None\<rparr>"

definition demo_proc :: proc_state where
  "demo_proc = proc_init boot_proc"

lemma demo_proc:
  "proc_inv demo_proc" "current_task demo_proc = Some 0" "task_used demo_proc = 1" "next_pid demo_proc = 2"
  "t_pid (task_table demo_proc ! 0) = 1" "alloc_task_slot demo_proc = Some 1"
proof -
  have len: "length (task_table boot_proc) = NM_MAX_TASKS" by (simp add: boot_proc_def)
  note st = proc_init_inv [OF len]
  show "proc_inv demo_proc" "current_task demo_proc = Some 0" "task_used demo_proc = 1" "t_pid (task_table demo_proc ! 0) = 1"
    using st by (simp_all add: demo_proc_def)
  have "alloc_task_slot (boot_proc\<lparr>task_table := map clear_task (task_table boot_proc), task_used := 0,
      next_pid := 1, current_task := None\<rparr>) = Some 0"
    by (simp add: alloc_task_slot_def boot_proc_def NM_MAX_TASKS_def first_idx_replicate clear_task_def)
  then show "next_pid demo_proc = 2"
    by (simp add: demo_proc_def proc_init_def Let_def s32_id)
  have "\<not> task_used_slot (task_table demo_proc ! 1)" "task_used_slot (task_table demo_proc ! 0)"
    "length (task_table demo_proc) = NM_MAX_TASKS"
    using st(5,6) proc_invD(1) [OF st(1)] by (auto simp: demo_proc_def task_used_slot_def NM_MAX_TASKS_def)
  then show "alloc_task_slot demo_proc = Some 1"
    by (auto simp: alloc_task_slot_def first_idx_Some_iff task_used_slot_def NM_MAX_TASKS_def less_Suc_eq)
qed

text \<open>
  C14: \<^verbatim>\<open>proc_fork_current\<close> is all or nothing. With a free slot and a stack it creates exactly one
  task, a runnable copy of the caller with a fresh pid, the caller as parent, the same descriptor
  table and a zero return register, and leaves every other slot alone; without a slot, or when
  \<^verbatim>\<open>kmalloc\<close> fails, it returns null and the process table is unchanged.
\<close>
theorem proc_fork_current_correct:
  assumes "proc_inv s" "next_pid s < 2 ^ 31 - 1" "current_task s = Some c" "kmalloc KSTACK_SIZE h = (k, h1)"
  shows "if task_used s < NM_MAX_TASKS \<and> k \<noteq> 0
    then \<exists>i s' t. proc_fork_current kmalloc kfree s h = (Some i, s', h1) \<and> i < NM_MAX_TASKS \<and>
      \<not> task_used_slot (task_table s ! i) \<and> task_table s' = (task_table s)[i := t] \<and>
      t_pid t = next_pid s \<and> t_ppid t = t_pid (task_table s ! c) \<and> t_state t = NM_TASK_RUNNABLE \<and>
      reg_rax (t_regs t) = 0 \<and> reg_rip (t_regs t) = reg_rip (t_regs (task_table s ! c)) \<and>
      t_fd_table t = t_fd_table (task_table s ! c) \<and>
      t_fd_cloexec_mask t = t_fd_cloexec_mask (task_table s ! c) \<and> t_name t = t_name (task_table s ! c) \<and>
      (\<forall>j<NM_MAX_TASKS. task_used_slot (task_table s ! j) \<longrightarrow> t_pid (task_table s ! j) \<noteq> t_pid t) \<and>
      task_count s' = task_count s + 1 \<and> current_task s' = Some c \<and> proc_inv s'
    else proc_fork_current kmalloc kfree s h = (None, s, if task_used s < NM_MAX_TASKS then h1 else h)"
proof (cases "task_used s < NM_MAX_TASKS")
  case True
  then obtain i where i: "alloc_task_slot s = Some i"
    using alloc_task_slot_None_iff [OF assms(1)] by (cases "alloc_task_slot s") auto
  note slot = alloc_task_slot_SomeD [OF assms(1) i]
  let ?t = "fork_task s (k + KSTACK_SIZE) (task_table s ! c)"
  show ?thesis
  proof (cases "k = 0")
    case True
    then show ?thesis
      using assms(3,4) i \<open>task_used s < NM_MAX_TASKS\<close> by (simp add: proc_fork_current_def fork_probe_def alloc_task_stack_def)
  next
    case False
    have r: "proc_fork_current kmalloc kfree s h = (Some i, fill_slot i ?t s, h1)"
      using False assms(3,4) i slot
      by (simp add: proc_fork_current_def fork_probe_def alloc_task_stack_def fork_commit_def task_used_slot_def)
    have "t_pid (task_table s ! j) \<noteq> next_pid s" if "j < NM_MAX_TASKS" "task_used_slot (task_table s ! j)" for j
      using proc_invD(3) [OF assms(1) that] by (simp add: task_ok_def)
    then show ?thesis
      using r slot assms(3) True False proc_fork_inv [OF assms(1,2) r]
      by (auto simp: fork_task_def task_count_def intro!: exI [of _ i] exI [of _ "fill_slot i ?t s"] exI [of _ ?t])
  qed
next
  case False
  then have "alloc_task_slot s = None"
    using alloc_task_slot_None_iff [OF assms(1)] proc_invD(1,2) [OF assms(1)]
      count_if_le [of task_used_slot "task_table s"] by auto
  then show ?thesis using False assms(3) by (simp add: proc_fork_current_def fork_probe_def)
qed

theorem proc_fork_current_correct_witness:
  "\<exists>i s' t. proc_fork_current (\<lambda>n h. (0x300010, True)) (\<lambda>p h. h) demo_proc False = (Some i, s', True) \<and>
     task_table s' = (task_table demo_proc)[i := t] \<and> t_pid t = 2 \<and> t_ppid t = 1 \<and> task_count s' = task_count demo_proc + 1"
proof -
  have "task_used demo_proc < NM_MAX_TASKS" by (simp add: demo_proc NM_MAX_TASKS_def)
  then show ?thesis
    using proc_fork_current_correct [OF demo_proc(1) _ demo_proc(2), of "\<lambda>n h. (0x300010, True)" False "0x300010" True "\<lambda>p h. h"]
    by (auto simp: demo_proc(4,5))
qed

text \<open>
  C17: \<^verbatim>\<open>proc_waitpid\<close> reaps exactly what it should. It fails, changing nothing, if and only if no
  zombie child of the caller matches the requested pid; otherwise it returns the pid and exit code
  of the first matching zombie child in the order of the table, frees that slot and no other, and the
  task count drops by one.
\<close>
theorem proc_waitpid_correct:
  assumes "proc_inv s" "current_task s = Some c"
    and "\<forall>i. M i \<longleftrightarrow> t_state (task_table s ! i) = NM_TASK_ZOMBIE \<and> t_ppid (task_table s ! i) = t_pid (task_table s ! c) \<and>
      (pid \<le> 0 \<or> t_pid (task_table s ! i) = pid)"
  shows "if \<exists>i<NM_MAX_TASKS. M i
    then \<exists>i<NM_MAX_TASKS. \<exists>s' t. M i \<and> (\<forall>j<i. \<not> M j) \<and>
      proc_waitpid pid s = (t_pid (task_table s ! i), Some (t_exit_code (task_table s ! i)), s') \<and>
      task_table s' = (task_table s)[i := t] \<and> t_state t = NM_TASK_UNUSED \<and>
      task_count s = task_count s' + 1 \<and> current_task s' = Some c \<and> i \<noteq> c \<and> proc_inv s'
    else proc_waitpid pid s = (NM_ERR NM_EFAIL, None, s)"
proof -
  have M: "M = (\<lambda>i. wait_match (t_pid (task_table s ! c)) pid (task_table s ! i))" using assms(3) by (auto simp: wait_match_def)
  show ?thesis
  proof (cases "first_idx (wait_match (t_pid (task_table s ! c)) pid) (task_table s)")
    case None
    then have "proc_waitpid pid s = (NM_ERR NM_EFAIL, None, s)"
      using assms(2) by (simp add: proc_waitpid_def)
    then show ?thesis
      using None proc_invD(1) [OF assms(1)] unfolding M by (auto simp: first_idx_None_nth)
  next
    case (Some i)
    have b: "i < NM_MAX_TASKS" "wait_match (t_pid (task_table s ! c)) pid (task_table s ! i)"
      and f: "\<forall>j<i. \<not> wait_match (t_pid (task_table s ! c)) pid (task_table s ! j)"
      using Some proc_invD(1) [OF assms(1)] by (simp_all add: first_idx_Some_iff)
    note u = wait_match_other [OF assms(1,2) b]
    obtain s' where s': "proc_waitpid pid s = (t_pid (task_table s ! i), Some (t_exit_code (task_table s ! i)), s')"
      using assms(2) Some by (auto simp: proc_waitpid_def Let_def)
    have ex: "\<exists>i<NM_MAX_TASKS. wait_match (t_pid (task_table s ! c)) pid (task_table s ! i)" using b by blast
    have "\<exists>t. task_table s' = (task_table s)[i := t] \<and> t_state t = NM_TASK_UNUSED" "task_count s = task_count s' + 1"
      "current_task s' = Some c"
      using s' assms(2) Some task_used_pos [OF assms(1) b(1) u(1)]
      by (auto simp: proc_waitpid_def Let_def task_count_def)
    then show ?thesis
      using b f u s' proc_waitpid_inv [OF assms(1) s'] unfolding M by (subst if_P [OF ex]) blast
  qed
qed

text \<open>
  exit and wait meet. When a child exits with a code, its parent's \<^verbatim>\<open>proc_waitpid\<close> for that pid
  returns the pid and delivers exactly that code; afterwards no task has the pid and the count is
  back to what it was without the child.
\<close>
theorem exit_then_waitpid:
  assumes "proc_inv s" "p < NM_MAX_TASKS" "i < NM_MAX_TASKS" "task_used_slot (task_table s ! p)"
    "task_used_slot (task_table s ! i)" "t_ppid (task_table s ! i) = t_pid (task_table s ! p)"
    and "s1 = proc_exit_current code (proc_set_current (Some i) s)"
  shows "\<exists>s2. proc_waitpid (t_pid (task_table s ! i)) (proc_set_current (Some p) s1) =
      (t_pid (task_table s ! i), Some code, s2) \<and> task_by_pid (t_pid (task_table s ! i)) s2 = None \<and>
      task_count s2 = task_count s - 1 \<and> proc_inv s2"
proof -
  let ?pid = "t_pid (task_table s ! i)" and ?s1 = "proc_set_current (Some p) s1"
  have len: "length (task_table s) = NM_MAX_TASKS" using proc_invD(1) [OF assms(1)] .
  have ok: "task_ok (next_pid s) (task_table s ! i)" using proc_invD(3) [OF assms(1,3,5)] .
  then have ip: "i \<noteq> p" and pos: "0 < ?pid" using assms(6) by (auto simp: task_ok_def)
  have s1: "s1 = upd_task i (\<lambda>t. t\<lparr>t_exit_code := code, t_state := NM_TASK_ZOMBIE\<rparr>) (proc_set_current (Some i) s)"
    using assms(7) by (simp add: proc_exit_current_def proc_set_current_def)
  have tab: "task_table ?s1 = (task_table s)[i := (task_table s ! i)\<lparr>t_exit_code := code, t_state := NM_TASK_ZOMBIE\<rparr>]"
    by (simp add: s1 proc_set_current_def)
  have inv: "proc_inv ?s1"
  proof -
    have "proc_inv (proc_set_current (Some i) s)"
      using assms(1,3,5) by (simp add: proc_inv_def proc_set_current_def)
    then have "proc_inv s1" using proc_exit_inv assms(7) by blast
    then show ?thesis
      using assms(2,4) ip by (simp add: proc_inv_def proc_set_current_def s1)
  qed
  have match: "wait_match (t_pid (task_table ?s1 ! p)) ?pid (task_table ?s1 ! j) \<longleftrightarrow> j = i" if "j < NM_MAX_TASKS" for j
    using that assms(3,5,6) ip pos len proc_invD(4) [OF assms(1) that assms(3)]
    by (auto simp: tab nth_list_update wait_match_def task_used_slot_def)
  have first: "first_idx (wait_match (t_pid (task_table ?s1 ! p)) ?pid) (task_table ?s1) = Some i"
    unfolding first_idx_Some_iff
  proof (intro conjI allI impI)
    show "i < length (task_table ?s1)" using assms(3) len by (simp add: tab)
    show "wait_match (t_pid (task_table ?s1 ! p)) ?pid (task_table ?s1 ! i)" using match [OF assms(3)] by blast
    show "\<not> wait_match (t_pid (task_table ?s1 ! p)) ?pid (task_table ?s1 ! j)" if "j < i" for j
      using match [of j] that assms(3) by auto
  qed
  have cur: "current_task ?s1 = Some p" "task_used ?s1 = task_used s" by (simp_all add: proc_set_current_def s1)
  obtain s2 where s2: "proc_waitpid ?pid ?s1 = (?pid, Some code, s2)"
    using first cur assms(3) len by (auto simp: proc_waitpid_def Let_def tab)
  have "task_count s2 = task_count s - 1" and t2: "\<exists>t. task_table s2 = (task_table s)[i := t] \<and> t_state t = NM_TASK_UNUSED"
    using s2 first cur assms(3) len by (auto simp: proc_waitpid_def Let_def tab task_count_def)
  moreover have "task_by_pid ?pid s2 = None"
    unfolding task_by_pid_def first_idx_None_nth
    using t2 len assms(3) proc_invD(4) [OF assms(1) _ assms(3) _ assms(5)]
    by (fastforce simp: nth_list_update task_used_slot_def split: if_splits)
  ultimately show ?thesis using s2 proc_waitpid_inv [OF inv s2] by auto
qed

definition demo_forked :: proc_state where
  "demo_forked = fill_slot 1 (fork_task demo_proc 0x302010 (task_table demo_proc ! 0)) demo_proc"

lemma demo_forked:
  "proc_inv demo_forked" "task_used_slot (task_table demo_forked ! 0)" "task_used_slot (task_table demo_forked ! 1)"
  "t_pid (task_table demo_forked ! 0) = 1" "t_pid (task_table demo_forked ! 1) = 2" "t_ppid (task_table demo_forked ! 1) = 1"
  "task_used demo_forked = 2"
proof -
  have "\<not> task_used_slot (task_table demo_proc ! 1)" using alloc_task_slot_SomeD(2) [OF demo_proc(1,6)] .
  then have "fork_commit 1 0x300010 demo_proc = Some (1, demo_forked)"
    by (simp add: fork_commit_def demo_proc(2) demo_forked_def task_used_slot_def KSTACK_SIZE_def)
  then show "proc_inv demo_forked"
    by (intro fork_commit_inv [OF demo_proc(1)]) (simp_all add: demo_proc(4) NM_MAX_TASKS_def)
  have len: "length (task_table demo_proc) = NM_MAX_TASKS" using proc_invD(1) [OF demo_proc(1)] .
  show "task_used_slot (task_table demo_forked ! 0)" "t_pid (task_table demo_forked ! 0) = 1"
    using proc_invD(6) [OF demo_proc(1,2)] demo_proc(5) by (simp_all add: demo_forked_def)
  show "task_used_slot (task_table demo_forked ! 1)" "t_pid (task_table demo_forked ! 1) = 2"
    "t_ppid (task_table demo_forked ! 1) = 1" "task_used demo_forked = 2"
    using len demo_proc(3-5) by (simp_all add: demo_forked_def fork_task_def task_used_slot_def NM_MAX_TASKS_def)
qed

text \<open>The child has exited with code 7 and its parent runs.\<close>

definition demo_exited :: proc_state where
  "demo_exited = proc_set_current (Some 0) (proc_exit_current 7 (proc_set_current (Some 1) demo_forked))"

lemma demo_exited:
  "proc_inv demo_exited" "current_task demo_exited = Some 0" "t_pid (task_table demo_exited ! 0) = 1" "t_state (task_table demo_exited ! 0) \<noteq> NM_TASK_ZOMBIE"
  "t_state (task_table demo_exited ! 1) = NM_TASK_ZOMBIE" "t_ppid (task_table demo_exited ! 1) = 1" "t_pid (task_table demo_exited ! 1) = 2"
  "t_exit_code (task_table demo_exited ! 1) = 7" "task_count demo_exited = 2"
proof -
  have len: "length (task_table demo_forked) = NM_MAX_TASKS" using proc_invD(1) [OF demo_forked(1)] .
  have e: "demo_exited = demo_forked\<lparr>current_task := Some 0,
      task_table := (task_table demo_forked)[1 := (task_table demo_forked ! 1)\<lparr>t_exit_code := 7, t_state := NM_TASK_ZOMBIE\<rparr>]\<rparr>"
    by (simp add: demo_exited_def proc_exit_current_def proc_set_current_def upd_task_def)
  have "proc_inv (proc_set_current (Some 1) demo_forked)"
    using demo_forked(1,3) by (simp add: proc_inv_def proc_set_current_def NM_MAX_TASKS_def)
  from proc_exit_inv [OF this, of 7] show "proc_inv demo_exited"
    using demo_forked(2) by (simp add: demo_exited_def proc_inv_def proc_set_current_def proc_exit_current_def NM_MAX_TASKS_def)
  have "t_state (task_table demo_proc ! 0) = NM_TASK_RUNNING"
    by (simp add: demo_proc_def proc_init_inv(5) boot_proc_def)
  then show "t_state (task_table demo_exited ! 0) \<noteq> NM_TASK_ZOMBIE" by (simp add: e demo_forked_def)
  show "current_task demo_exited = Some 0" "t_pid (task_table demo_exited ! 0) = 1"
    "t_state (task_table demo_exited ! 1) = NM_TASK_ZOMBIE" "t_ppid (task_table demo_exited ! 1) = 1" "t_pid (task_table demo_exited ! 1) = 2"
    "t_exit_code (task_table demo_exited ! 1) = 7" "task_count demo_exited = 2"
    using len demo_forked(4-7) by (simp_all add: e NM_MAX_TASKS_def task_count_def)
qed

theorem proc_waitpid_correct_witness:
  "\<exists>s'. proc_waitpid (- 1) demo_exited = (2, Some 7, s') \<and> t_state (task_table s' ! 1) = NM_TASK_UNUSED \<and> task_count s' = 1"
proof -
  define M where "M i \<longleftrightarrow> t_state (task_table demo_exited ! i) = NM_TASK_ZOMBIE \<and> t_ppid (task_table demo_exited ! i) = t_pid (task_table demo_exited ! 0) \<and>
    ((- 1 :: int) \<le> 0 \<or> t_pid (task_table demo_exited ! i) = - 1)" for i
  have m: "M 1" "\<not> M 0" using demo_exited(3-6) by (simp_all add: M_def)
  have "(1 :: nat) < NM_MAX_TASKS" by (simp add: NM_MAX_TASKS_def)
  then have ex: "\<exists>i<NM_MAX_TASKS. M i" using m(1) by blast
  have "\<forall>i. M i \<longleftrightarrow> t_state (task_table demo_exited ! i) = NM_TASK_ZOMBIE \<and> t_ppid (task_table demo_exited ! i) = t_pid (task_table demo_exited ! 0) \<and>
    ((- 1 :: int) \<le> 0 \<or> t_pid (task_table demo_exited ! i) = - 1)" by (simp add: M_def)
  from proc_waitpid_correct [OF demo_exited(1,2) this, unfolded if_P [OF ex]] obtain i s' t where
    i: "i < NM_MAX_TASKS" "M i" "\<forall>j<i. \<not> M j"
      "proc_waitpid (- 1) demo_exited = (t_pid (task_table demo_exited ! i), Some (t_exit_code (task_table demo_exited ! i)), s')"
      "task_table s' = (task_table demo_exited)[i := t]" "t_state t = NM_TASK_UNUSED" "task_count demo_exited = task_count s' + 1"
    by blast
  have "\<not> 1 < i" using i(3) m(1) by blast
  moreover have "i \<noteq> 0" using i(2) m(2) by metis
  ultimately have "i = 1" by simp
  then show ?thesis using i demo_exited(7-9) proc_invD(1) [OF demo_exited(1)] by simp
qed

theorem exit_then_waitpid_witness:
  "\<exists>s2. proc_waitpid 2 (proc_set_current (Some 0) (proc_exit_current 7 (proc_set_current (Some 1) demo_forked))) =
     (2, Some 7, s2) \<and> task_by_pid 2 s2 = None \<and> task_count s2 = task_count demo_forked - 1"
  using exit_then_waitpid [OF demo_forked(1) _ _ demo_forked(2,3) _ refl, of 7] demo_forked(4-6)
  by (auto simp: NM_MAX_TASKS_def)

text \<open>
  a new kernel thread starts where it should. The first \<^verbatim>\<open>nm_context_switch\<close> to it, from a stack
  that does not overlap its own, enters the trampoline with zeroed callee-saved registers, and the
  trampoline calls the thread's entry with its argument, on a stack aligned as the ABI demands at a
  call (the address above the return address is a multiple of 16).
\<close>
theorem kernel_thread_first_run:
  assumes "task_create_kernel_thread kmalloc kfree tr name entry arg s h m = (Some i, s', h', m1)"
    and "proc_inv s" "kmalloc KSTACK_SIZE h = (kstack, h')" "unat kstack + 8192 < 2 ^ 64"
    and "saved_area c \<inter> {kstack..<kstack + KSTACK_SIZE} = {}"
    and "nm_context_switch (t_saved_rsp (task_table s' ! i)) c m1 = (old, c2, m2)"
    and "nm_kthread_trampoline ret_addr c2 m2 = (c3, m3)"
  shows "cpu_rip c2 = tr \<and> cpu_rbp c2 = 0 \<and> cpu_rbx c2 = 0 \<and> cpu_r12 c2 = 0 \<and> cpu_r13 c2 = 0 \<and>
    cpu_r14 c2 = 0 \<and> cpu_r15 c2 = 0 \<and>
    cpu_rip c3 = entry \<and> cpu_rdi c3 = arg \<and> m3 (cpu_rsp c3) = ret_addr \<and> unat (cpu_rsp c3 + 8) mod 16 = 0"
proof -
  have i: "alloc_task_slot s = Some i"
    using assms(1) by (auto simp: task_create_kernel_thread_def Let_def split: prod.splits if_splits option.splits)
  obtain sp where f: "kthread_frame tr entry arg (kstack + KSTACK_SIZE) m = (sp, m1)"
    and s': "s' = fill_slot i (kthread_task s name entry (kstack + KSTACK_SIZE) sp (task_table s ! i)) s"
    using assms(1,3) i
    by (auto simp: task_create_kernel_thread_def alloc_task_stack_def Let_def split: prod.splits if_splits)
  have rsp: "t_saved_rsp (task_table s' ! i) = sp"
    using s' alloc_task_slot_SomeD(1) [OF assms(2) i] proc_invD(1) [OF assms(2)] by (simp add: kthread_task_def)
  have sv: "cpu_save c m1 = (old, m2)" and c2: "c2 = cpu_restore sp m2 c"
    using assms(6) by (auto simp: nm_context_switch_def rsp split: prod.splits)
  have keep: "m2 (sp + of_nat k) = m1 (sp + of_nat k)" if "k \<le> 64" for k
  proof (rule cpu_save_words(9) [OF sv])
    have u: "unat (kstack + KSTACK_SIZE) = unat kstack + 8192"
      using assms(4) by (simp add: unat_add64 KSTACK_SIZE_def)
    have "sp + of_nat k \<in> {kstack..<kstack + KSTACK_SIZE}"
      using kthread_frame_inside [OF f assms(4) that] u by (simp add: word_le_nat_alt word_less_nat_alt)
    then show "sp + of_nat k \<notin> saved_area c" using assms(5) by blast
  qed
  note w = kthread_frame_words [OF f]
  have m2: "m2 sp = 0" "m2 (sp + 8) = 0" "m2 (sp + 16) = 0" "m2 (sp + 24) = 0" "m2 (sp + 32) = 0"
    "m2 (sp + 40) = 0" "m2 (sp + 48) = tr" "m2 (sp + 56) = entry" "m2 (sp + 64) = arg"
    using keep [of 0] keep [of 8] keep [of 16] keep [of 24] keep [of 32] keep [of 40] keep [of 48] keep [of 56]
      keep [of 64] w by simp_all
  have c3: "cpu_rip c3 = m2 (sp + 56)" "cpu_rdi c3 = m2 (sp + 64)" "cpu_rsp c3 = sp + 64" "m3 (cpu_rsp c3) = ret_addr"
    using assms(7) by (auto simp: nm_kthread_trampoline_def c2 cpu_restore_def push_word_def Let_def add.commute)
  have "unat (sp + 72) mod 16 = 0"
    unfolding w(1) unat_and_not_15 by simp
  then show ?thesis using m2 c3 by (simp add: c2 cpu_restore_def add.commute)
qed

definition demo_cpu :: cpu where
  "demo_cpu = \<lparr>cpu_rsp = 0x10000, cpu_rip = 1, cpu_rbp = 2, cpu_rbx = 3, cpu_r12 = 4, cpu_r13 = 5, cpu_r14 = 6,
     cpu_r15 = 7, cpu_rdi = 8, cpu_rax = 9\<rparr>"

theorem kernel_thread_first_run_witness:
  "\<exists>i s' m1 old c2 m2 c3 m3.
     task_create_kernel_thread (\<lambda>n h. (0x300010, h)) (\<lambda>p h. h) 0x5000 None 0x6000 77 demo_proc () (\<lambda>_. 0) = (Some i, s', (), m1) \<and>
     nm_context_switch (t_saved_rsp (task_table s' ! i)) demo_cpu m1 = (old, c2, m2) \<and>
     nm_kthread_trampoline 0x5010 c2 m2 = (c3, m3) \<and> cpu_rip c2 = 0x5000 \<and> cpu_rip c3 = 0x6000 \<and> cpu_rdi c3 = 77"
proof -
  obtain s' m1 where r: "task_create_kernel_thread (\<lambda>n h. (0x300010, h)) (\<lambda>p h. h) 0x5000 None 0x6000 77 demo_proc () (\<lambda>_. 0) =
      (Some 1, s', (), m1)"
    by (cases "kthread_frame 0x5000 0x6000 77 (0x300010 + KSTACK_SIZE) (\<lambda>_. 0)")
      (auto simp: task_create_kernel_thread_def alloc_task_stack_def demo_proc(6) Let_def)
  obtain old c2 m2 where sw: "nm_context_switch (t_saved_rsp (task_table s' ! 1)) demo_cpu m1 = (old, c2, m2)"
    by (metis prod_cases3)
  obtain c3 m3 where tr: "nm_kthread_trampoline 0x5010 c2 m2 = (c3, m3)" by (metis prod.exhaust)
  have "saved_area demo_cpu \<inter> {0x300010..<0x300010 + KSTACK_SIZE} = {}"
    by (simp add: saved_area_def demo_cpu_def KSTACK_SIZE_def)
  then show ?thesis
    using kernel_thread_first_run [OF r demo_proc(1) refl _ _ sw tr] r sw tr by auto
qed

text \<open>
  C35: leaving a task and coming back restores it. If the words saved by \<^verbatim>\<open>nm_context_switch\<close> and the
  return address above them are still in memory when some other context switches back to the saved
  stack pointer, execution resumes at the return address of the original call with the original
  callee-saved registers and the stack pointer a return leaves.
\<close>
theorem context_switch_round_trip:
  assumes "nm_context_switch other c m = (old, c1, m1)"
    and "nm_context_switch old d m2 = (old2, c2, m3)"
    and "\<And>k. k \<le> 48 \<Longrightarrow> m2 (old + of_nat k) = m1 (old + of_nat k)"
    and "\<And>k. k \<le> 48 \<Longrightarrow> old + of_nat k \<notin> saved_area d"
  shows "cpu_rip c2 = m (cpu_rsp c) \<and> cpu_rsp c2 = cpu_rsp c + 8 \<and> cpu_rbp c2 = cpu_rbp c \<and>
    cpu_rbx c2 = cpu_rbx c \<and> cpu_r12 c2 = cpu_r12 c \<and> cpu_r13 c2 = cpu_r13 c \<and> cpu_r14 c2 = cpu_r14 c \<and>
    cpu_r15 c2 = cpu_r15 c"
proof -
  have sv: "cpu_save c m = (old, m1)" and sv2: "cpu_save d m2 = (old2, m3)" and c2: "c2 = cpu_restore old m3 d"
    using assms(1,2) by (auto simp: nm_context_switch_def split: prod.splits)
  have keep: "m3 (old + of_nat k) = m1 (old + of_nat k)" if "k \<le> 48" for k
    using cpu_save_words(9) [OF sv2 assms(4) [OF that]] assms(3) [OF that] by simp
  note w = cpu_save_words [OF sv]
  have "cpu_rsp c2 = cpu_rsp c + 8" unfolding w(1) by (simp add: c2 cpu_restore_def)
  then show ?thesis
    using keep [of 0] keep [of 8] keep [of 16] keep [of 24] keep [of 32] keep [of 40] keep [of 48] w(2-8)
    by (simp add: c2 cpu_restore_def)
qed

theorem context_switch_round_trip_witness:
  "\<exists>old c1 m1 old2 c2 m3. nm_context_switch 0x20000 demo_cpu (\<lambda>a. 99) = (old, c1, m1) \<and>
     nm_context_switch old (demo_cpu\<lparr>cpu_rsp := 0x20000, cpu_rbx := 0\<rparr>) m1 = (old2, c2, m3) \<and>
     cpu_rip c2 = 99 \<and> cpu_rsp c2 = 0x10008 \<and> cpu_rbx c2 = 3"
proof -
  obtain c1 m1 where sw: "nm_context_switch 0x20000 demo_cpu (\<lambda>a. 99) = (0xFFD0, c1, m1)"
    by (simp add: nm_context_switch_def cpu_save_def push_word_def demo_cpu_def)
  let ?d = "demo_cpu\<lparr>cpu_rsp := 0x20000, cpu_rbx := 0\<rparr>"
  obtain old2 c2 m3 where sw2: "nm_context_switch 0xFFD0 ?d m1 = (old2, c2, m3)" by (metis prod_cases3)
  have "0xFFD0 + of_nat k \<notin> saved_area ?d" if "k \<le> 48" for k :: nat
  proof -
    have "unat (0xFFD0 + of_nat k :: u64) = 0xFFD0 + k"
      using that by (subst unat_add64) (auto simp: unat_of_nat64)
    then have "unat (0xFFD0 + of_nat k :: u64) \<le> 0x10000" using that by simp
    then show ?thesis by (auto simp: saved_area_def)
  qed
  then show ?thesis
    using context_switch_round_trip [OF sw sw2] sw sw2 by (auto simp: demo_cpu_def)
qed

text \<open>
  a forked child has no frame to switch to. \<^verbatim>\<open>proc_fork_current\<close> points the child's saved stack
  pointer at the very end of its new stack, so the first \<^verbatim>\<open>nm_context_switch\<close> to the child takes all
  its registers and the address it jumps to from beyond the end of the allocated block.
\<close>
theorem fork_child_frame_outside_stack:
  assumes "proc_inv s" "proc_fork_current kmalloc kfree s h = (Some i, s', h')"
    and "nm_context_switch (t_saved_rsp (task_table s' ! i)) c m = (old, c2, m2)"
  shows "\<exists>kstack. kmalloc KSTACK_SIZE h = (kstack, h') \<and> cpu_r15 c2 = m2 (kstack + KSTACK_SIZE) \<and>
    cpu_rip c2 = m2 (kstack + KSTACK_SIZE + 48) \<and> cpu_rsp c2 = kstack + KSTACK_SIZE + 56"
proof -
  obtain kstack c0 where k: "kmalloc KSTACK_SIZE h = (kstack, h')" "fork_probe s = Some i"
    and s': "s' = fill_slot i (fork_task s (kstack + KSTACK_SIZE) c0) s"
    using assms(2)
    by (auto simp: proc_fork_current_def alloc_task_stack_def fork_commit_def Let_def split: prod.splits if_splits option.splits)
  have "i < length (task_table s)"
    using k(2) alloc_task_slot_SomeD(1) [OF assms(1)] proc_invD(1) [OF assms(1)] by (auto simp: fork_probe_def split: if_splits)
  then have "t_saved_rsp (task_table s' ! i) = kstack + KSTACK_SIZE"
    by (simp add: s' fork_task_def)
  then show ?thesis
    using assms(3) k(1) by (auto simp: nm_context_switch_def cpu_restore_def split: prod.splits)
qed

theorem fork_child_frame_outside_stack_witness:
  "\<exists>i s' old c2 m2. proc_fork_current (\<lambda>n h. (0x300010, h)) (\<lambda>p h. h) demo_proc () = (Some i, s', ()) \<and>
     nm_context_switch (t_saved_rsp (task_table s' ! i)) demo_cpu (\<lambda>a. 0) = (old, c2, m2) \<and> cpu_rsp c2 = 0x302048"
proof -
  have "\<not> task_used_slot (task_table demo_proc ! 1)" using alloc_task_slot_SomeD(2) [OF demo_proc(1,6)] .
  then obtain s' where r: "proc_fork_current (\<lambda>n h. (0x300010, h)) (\<lambda>p h. h) demo_proc () = (Some 1, s', ())"
    by (auto simp: proc_fork_current_def fork_probe_def alloc_task_stack_def fork_commit_def task_used_slot_def demo_proc(2,6))
  obtain old c2 m2 where sw: "nm_context_switch (t_saved_rsp (task_table s' ! 1)) demo_cpu (\<lambda>a. 0) = (old, c2, m2)"
    by (metis prod_cases3)
  show ?thesis
    using fork_child_frame_outside_stack [OF demo_proc(1) r sw] r sw by (auto simp: KSTACK_SIZE_def)
qed

end
