(* ===== verification/Entry.thy ===== *)
theory Entry
  imports Vmm Console Drivers Task
begin

text \<open>
  The assembly at the edges of the kernel: the entry from the boot loader and the first page tables
  (\<^verbatim>\<open>boot/entry.S\<close>), and the entry stubs of interrupts and exceptions (\<^verbatim>\<open>kernel/idt_irqs.S\<close>,
  \<^verbatim>\<open>kernel/idt_exceptions.S\<close>). What the processor itself does at an interrupt and at \<^verbatim>\<open>iretq\<close> is written out; the
  stack is the word memory of the context switch. The stubs do not save the vector registers, and neither are
  these in the model.
\<close>

section \<open>The entry from the boot loader\<close>

text \<open>
  The three tables follow one another from \<open>pml4\<close> on, as the section \<^verbatim>\<open>.boot.bss\<close> lays them out. \<^verbatim>\<open>rep stosl\<close> clears
  them, 32 bits at a time; the entries are written by their lower halves.
\<close>

definition rep_stosl_0 :: "nat \<Rightarrow> u32 \<Rightarrow> phys_mem \<Rightarrow> phys_mem" where
  "rep_stosl_0 ecx edi m = fold (\<lambda>i m. wr32 m (ucast (edi + of_nat (4 * i))) 0) [0..<ecx] m"

fun map_2m_loop :: "nat \<Rightarrow> u32 \<Rightarrow> u32 \<Rightarrow> phys_mem \<Rightarrow> phys_mem" where
  "map_2m_loop 0 edi ebx m = m"
| "map_2m_loop (Suc ecx) edi ebx m = map_2m_loop ecx (edi + 8) (ebx + 0x200000) (wr32 m (ucast edi) (ebx OR 0x83))"

definition setup_page_tables :: "u32 \<Rightarrow> phys_mem \<Rightarrow> phys_mem" where
  "setup_page_tables pml4 m =
     (let pdpt = pml4 + 4096; pd = pml4 + 8192;
          m = rep_stosl_0 3072 pml4 m;
          m = wr32 m (ucast pml4) (pdpt OR 3);
          m = wr32 m (ucast (pml4 + 511 * 8)) (pdpt OR 3);
          m = wr32 m (ucast pdpt) (pd OR 3);
          m = wr32 m (ucast (pdpt + 510 * 8)) (pd OR 3)
      in map_2m_loop 512 pd 0 m)"

record boot_ctl =
  ct_cr0 :: u32
  ct_cr3 :: u32
  ct_cr4 :: u32
  ct_efer :: u32

text \<open>
  \<^verbatim>\<open>_start\<close> up to the call of \<^verbatim>\<open>kmain\<close>; the first result is the argument of that call, whose upper half the
  processor has cleared. A wrong magic number ends in the loop \<^verbatim>\<open>.hang\<close>. The address \<open>ret\<close> is what the call of
  \<^verbatim>\<open>setup_page_tables\<close> pushes.
\<close>

definition start_entry :: "u32 \<Rightarrow> u32 \<Rightarrow> u32 \<Rightarrow> u32 \<Rightarrow> u32 \<Rightarrow> boot_ctl \<Rightarrow> phys_mem \<Rightarrow> (u64 \<times> boot_ctl \<times> phys_mem) option" where
  "start_entry pml4 stack_top ret eax ebx c m =
     (if eax \<noteq> 0x36d76289 then None
      else let m = wr32 m (ucast (stack_top - 4)) ebx;
               m = wr32 m (ucast (stack_top - 8)) ret;
               m = setup_page_tables pml4 m;
               edi = ld32 m (ucast (stack_top - 4));
               c = c\<lparr>ct_cr3 := pml4, ct_cr4 := ct_cr4 c OR 0x20, ct_efer := ct_efer c OR 0x100, ct_cr0 := ct_cr0 c OR 0x80000001\<rparr>
           in Some (ucast edi, c, m))"

section \<open>Memory in units of 32 bits\<close>

definition cell :: "u32 \<Rightarrow> nat \<Rightarrow> u64" where
  "cell b k = ucast (b + of_nat (4 * k))"

definition boot_room :: "u32 \<Rightarrow> bool" where
  "boot_room b \<longleftrightarrow> b \<noteq> 0 \<and> unat b mod 4096 = 0 \<and> unat b + 12288 \<le> 2 ^ 32"

lemma cell_unat:
  assumes "boot_room b" "k < 3072"
  shows "unat (cell b k) = unat b + 4 * k"
proof -
  have k: "unat (of_nat (4 * k) :: u32) = 4 * k" using assms(2) by (simp only: unat_of_nat) simp
  have "unat (b + of_nat (4 * k) :: u32) = (unat b + unat (of_nat (4 * k) :: u32)) mod 2 ^ 32" by (simp add: unat_word_ariths)
  also have "\<dots> = unat b + 4 * k" unfolding k using assms by (simp add: boot_room_def)
  finally show ?thesis by (simp add: cell_def unat_ucast_32_64)
qed

lemma cell_write:
  assumes "boot_room b" "k < 3072" "j < 3072"
  shows "ld32 (wr32 m (cell b k) v) (cell b j) = (if k = j then v else ld32 m (cell b j))"
proof (cases "k = j")
  case False
  have "unat (cell b j) + 4 \<le> unat (cell b k) \<or> unat (cell b k) + 4 \<le> unat (cell b j)"
    unfolding cell_unat [OF assms(1,2)] cell_unat [OF assms(1,3)] using False by arith
  moreover have "unat (cell b j) + 4 \<le> 2 ^ 64" "unat (cell b k) + 4 \<le> 2 ^ 64"
    unfolding cell_unat [OF assms(1,2)] cell_unat [OF assms(1,3)] using assms by (simp_all add: boot_room_def)
  ultimately show ?thesis using False by (simp add: ld32_wr32_apart)
qed simp

lemma cleared:
  assumes "boot_room b" "n \<le> 3072" "k < 3072"
  shows "ld32 (rep_stosl_0 n b m) (cell b k) = (if k < n then 0 else ld32 m (cell b k))"
  using assms(2)
proof (induction n)
  case 0
  then show ?case by (simp add: rep_stosl_0_def)
next
  case (Suc n)
  have "rep_stosl_0 (Suc n) b m = wr32 (rep_stosl_0 n b m) (cell b n) 0" by (simp add: rep_stosl_0_def cell_def)
  then show ?case using Suc assms by (simp add: cell_write)
qed

lemma loop_cells:
  assumes "boot_room b" "k < 3072" "n \<le> 512"
  shows "ld32 (map_2m_loop n (b + 8192 + of_nat (8 * (512 - n))) (of_nat (512 - n) * 0x200000) m) (cell b k) =
    (if 2048 + 2 * (512 - n) \<le> k \<and> even k then of_nat ((k - 2048) div 2) * 0x200000 OR 0x83 else ld32 m (cell b k))"
  using assms(3)
proof (induction n arbitrary: m)
  case 0
  then show ?case using assms(2) by auto
next
  case (Suc n)
  let ?i = "512 - Suc n"
  have i: "512 - n = Suc ?i" using Suc.prems by simp
  have a: "ucast (b + 8192 + of_nat (8 * ?i) :: u32) = cell b (2048 + 2 * ?i)" by (simp add: cell_def algebra_simps)
  have e: "b + 8192 + of_nat (8 * ?i) + 8 = b + 8192 + of_nat (8 * (512 - n) :: nat)" unfolding i by (simp add: algebra_simps)
  have x: "of_nat ?i * 0x200000 + 0x200000 = (of_nat (512 - n) * 0x200000 :: u32)" unfolding i by (simp add: algebra_simps)
  have w: "ld32 (wr32 m (cell b (2048 + 2 * ?i)) v) (cell b k) = (if k = 2048 + 2 * ?i then v else ld32 m (cell b k))" for v
    using cell_write [OF assms(1), of "2048 + 2 * ?i" k] assms(2) Suc.prems by auto
  have "2048 + 2 * (512 - n) \<le> k \<and> even k \<or> k = 2048 + 2 * ?i \<longleftrightarrow> 2048 + 2 * ?i \<le> k \<and> even k" unfolding i by presburger
  moreover have "(2048 + 2 * ?i - 2048) div 2 = ?i" by simp
  ultimately show ?case unfolding map_2m_loop.simps a e x Suc.IH [OF Suc_leD [OF Suc.prems]] w by auto
qed

lemma setup_cells:
  assumes "boot_room b" "k < 3072"
  shows "ld32 (setup_page_tables b m) (cell b k) =
    (if k = 0 \<or> k = 1022 then (b + 4096) OR 3 else if k = 1024 \<or> k = 2044 then (b + 8192) OR 3
     else if 2048 \<le> k \<and> even k then of_nat ((k - 2048) div 2) * 0x200000 OR 0x83 else 0)"
proof -
  have c: "ucast b = cell b 0" "ucast (b + 511 * 8) = cell b 1022" "ucast (b + 4096) = cell b 1024" "ucast (b + 4096 + 510 * 8) = cell b 2044"
    by (simp_all add: cell_def add.assoc)
  note l = loop_cells [OF assms, of 512, simplified]
  show ?thesis unfolding setup_page_tables_def Let_def c l using assms by (simp add: cell_write cleared)
qed

section \<open>The first address space\<close>

lemma room_tables:
  assumes "boot_room b"
  shows "tab_ok (ucast b)" "tab_ok (cell b 1024)" "tab_ok (cell b 2048)"
  using cell_unat [OF assms, of 0] cell_unat [OF assms, of 1024] cell_unat [OF assms, of 2048] assms
  by (auto simp: tab_ok_def boot_room_def cell_def word_unat_eq_iff mod_add_left_eq [symmetric])

lemma boot_ent:
  assumes "boot_room b" "unat i < 512" "K = 0 \<or> K = 1024 \<or> K = 2048"
  shows "ent (setup_page_tables b m) (cell b K) i =
    ucast (ld32 (setup_page_tables b m) (cell b (K + 2 * unat i))) OR push_bit 32 (ucast (ld32 (setup_page_tables b m) (cell b (K + 2 * unat i + 1))))"
proof -
  have K: "K + 2 * unat i + 1 < 3072" using assms(2,3) by auto
  have t: "unat (cell b K) = unat b + 4 * K" using K by (intro cell_unat [OF assms(1)]) simp
  have n: "unat b + 12288 \<le> 2 ^ 32" using assms(1) by (simp add: boot_room_def)
  have "unat (8 * i) = 8 * unat i" using assms(2) by (subst unat_mult64) simp_all
  then have "unat (cell b K + 8 * i) = unat b + 4 * K + 8 * unat i" using t n K by (subst unat_add64) simp_all
  then have a: "cell b K + 8 * i = cell b (K + 2 * unat i)" using cell_unat [OF assms(1), of "K + 2 * unat i"] K by (simp add: word_unat_eq_iff)
  have "unat (cell b (K + 2 * unat i) + 4) = unat (cell b (K + 2 * unat i + 1))"
    using cell_unat [OF assms(1), of "K + 2 * unat i"] cell_unat [OF assms(1), of "K + 2 * unat i + 1"] K n by (subst unat_add64) simp_all
  then have "cell b (K + 2 * unat i) + 4 = cell b (K + 2 * unat i + 1)" by (simp add: word_unat_eq_iff)
  then show ?thesis by (simp add: ent_def ld64_def a)
qed

text \<open>The entries of the three tables: links in the first two, large pages in the third one.\<close>

lemma boot_entries:
  assumes "boot_room b" "unat i < 512"
  shows "ent (setup_page_tables b m) (ucast b) i = (if unat i = 0 \<or> unat i = 511 then ucast ((b + 4096) OR 3 :: u32) else 0)"
    "ent (setup_page_tables b m) (cell b 1024) i = (if unat i = 0 \<or> unat i = 510 then ucast ((b + 8192) OR 3 :: u32) else 0)"
    "ent (setup_page_tables b m) (cell b 2048) i = ucast (of_nat (unat i) * 0x200000 OR 0x83 :: u32)"
proof -
  have b: "ucast b = cell b 0" by (simp add: cell_def)
  show "ent (setup_page_tables b m) (ucast b) i = (if unat i = 0 \<or> unat i = 511 then ucast ((b + 4096) OR 3 :: u32) else 0)"
    unfolding b using boot_ent [OF assms, of 0] assms(2) by (auto simp: setup_cells [OF assms(1)])
  show "ent (setup_page_tables b m) (cell b 1024) i = (if unat i = 0 \<or> unat i = 510 then ucast ((b + 8192) OR 3 :: u32) else 0)"
    using boot_ent [OF assms, of 1024] assms(2) by (auto simp: setup_cells [OF assms(1)])
  show "ent (setup_page_tables b m) (cell b 2048) i = ucast (of_nat (unat i) * 0x200000 OR 0x83 :: u32)"
    using boot_ent [OF assms, of 2048] assms(2) by (auto simp: setup_cells [OF assms(1)])
qed

lemma boot_links:
  assumes "boot_room b" "K = 1024 \<or> K = 2048"
  shows "present (ucast ((b + of_nat (4 * K)) OR 3 :: u32))" "\<not> large (ucast ((b + of_nat (4 * K)) OR 3 :: u32))"
    "entry_addr (ucast ((b + of_nat (4 * K)) OR 3 :: u32)) = cell b K"
proof -
  have a: "unat (cell b K) mod 4096 = 0" using room_tables(2,3) [OF assms(1)] assms(2) by (auto simp: tab_ok_def)
  have u: "ucast ((b + of_nat (4 * K)) OR 3 :: u32) = cell b K OR PAGE_FLAG_RW OR PAGE_FLAG_PRESENT"
    by (simp add: cell_def unsigned_or_eq PAGE_FLAG_RW_def PAGE_FLAG_PRESENT_def or.assoc)
  have l: "link_flags PAGE_FLAG_RW" by (simp add: link_flags_def flag_bits)
  show "present (ucast ((b + of_nat (4 * K)) OR 3 :: u32))" "\<not> large (ucast ((b + of_nat (4 * K)) OR 3 :: u32))"
    "entry_addr (ucast ((b + of_nat (4 * K)) OR 3 :: u32)) = cell b K"
    unfolding u using new_link [OF a l] by simp_all
qed

lemma boot_large_bits:
  assumes "j < 512"
  shows "bit (ucast (of_nat j * 0x200000 OR 0x83 :: u32) :: u64) n \<longleftrightarrow> n = 0 \<or> n = 1 \<or> n = 7 \<or> 21 \<le> n \<and> n < 30 \<and> bit j (n - 21)"
proof -
  have p: "of_nat j * 0x200000 = push_bit 21 (of_nat j :: u32)" by (simp add: push_bit_eq_mult)
  have q: "(0x83 :: u32) = 2 ^ 0 OR 2 ^ 1 OR 2 ^ 7" by simp
  have j: "bit j k \<Longrightarrow> k < 9" for k using bit_take_bit_iff [of 9 j k] take_bit_nat_eq_self [of j 9] assms by auto
  have "bit (ucast (of_nat j * 0x200000 OR 0x83 :: u32) :: u64) n \<longleftrightarrow> n < 32 \<and> (21 \<le> n \<and> bit j (n - 21) \<or> n = 0 \<or> n = 1 \<or> n = 7)"
    unfolding p q bit_ucast_iff bit_or_iff bit_push_bit_iff bit_exp_iff bit_of_nat_iff possible_bit_word by auto
  then show ?thesis using j [of "n - 21"] by auto
qed

lemma boot_lookup:
  assumes "boot_room b"
  shows "lookup (setup_page_tables b m) (ucast b) (path va) =
    (if pml4_i va \<in> {0, 511} \<and> pdpt_i va \<in> {0, 510} then Some (1, ucast (of_nat (unat (pd_i va)) * 0x200000 OR 0x83 :: u32)) else None)"
proof -
  have e: "unat i = n \<longleftrightarrow> i = of_nat n" if "n < 512" for i :: u64 and n using that by (auto simp: word_unat_eq_iff unat_of_nat64)
  note d = boot_entries [OF assms, unfolded e [of 0, simplified] e [of 511, simplified] e [of 510, simplified]]
  note l = boot_links [OF assms, of 1024, simplified] boot_links [OF assms, of 2048, simplified]
  have g: "present (ucast (of_nat (unat (pd_i va)) * 0x200000 OR 0x83 :: u32))" "large (ucast (of_nat (unat (pd_i va)) * 0x200000 OR 0x83 :: u32))"
    unfolding present_bit large_bit using boot_large_bits [OF index_less(3)] by simp_all
  show ?thesis unfolding path_def using l g by (simp add: d index_less Let_def)
qed

lemma boot_translate:
  assumes "boot_room b" "vm_mem s = setup_page_tables b m"
  shows "translate s (ucast b) va = (if pml4_i va \<in> {0, 511} \<and> pdpt_i va \<in> {0, 510} then Some (va AND 0x3FFFFFFF) else None)"
proof -
  let ?e = "ucast (of_nat (unat (pd_i va)) * 0x200000 OR 0x83 :: u32) :: u64"
  have m: "(0x1FFFFF :: u64) = mask 21" "(0x3FFFFFFF :: u64) = mask 30" by (simp_all add: mask_eq_exp_minus_1)
  have "(?e AND NOT 0x1FFFFF) OR (va AND 0x1FFFFF) = va AND 0x3FFFFFFF"
  proof (rule bit_word_eqI)
    fix n assume n: "n < LENGTH(64)"
    have "pd_i va = take_bit 9 (drop_bit 21 va)" by (simp add: pd_i_def take_bit_eq_mask mask_eq_exp_minus_1)
    then have "bit (unat (pd_i va)) (n - 21) \<longleftrightarrow> n - 21 < 9 \<and> bit va (21 + (n - 21))" by (simp add: bit_unsigned_iff bit_take_bit_iff bit_drop_bit_eq)
    then have "bit ?e n \<longleftrightarrow> n = 0 \<or> n = 1 \<or> n = 7 \<or> 21 \<le> n \<and> n < 30 \<and> bit va n"
      unfolding boot_large_bits [OF index_less(3)] by (cases "21 \<le> n") (simp_all, linarith)
    then show "bit ((?e AND NOT 0x1FFFFF) OR (va AND 0x1FFFFF)) n = bit (va AND 0x3FFFFFFF) n"
      unfolding m bit_or_iff bit_and_iff bit_not_iff bit_mask_iff using n by auto
  qed
  then show ?thesis using boot_lookup [OF assms(1), of m va] by (simp add: translate_def view_def assms(2))
qed

lemma index_unat: "unat (pml4_i va) = unat va div 2 ^ 39 mod 512" "unat (pdpt_i va) = unat va div 2 ^ 30 mod 512"
proof -
  have "w AND 0x1FF = take_bit 9 w" for w :: u64 by (simp add: take_bit_eq_mask mask_eq_exp_minus_1)
  then show "unat (pml4_i va) = unat va div 2 ^ 39 mod 512" "unat (pdpt_i va) = unat va div 2 ^ 30 mod 512"
    by (simp_all add: pml4_i_def pdpt_i_def take_bit_eq_mod drop_bit_eq_div unat_mod unat_div)
qed

lemma low_window: "unat pa < 2 ^ 30 \<Longrightarrow> pml4_i pa = 0 \<and> pdpt_i pa = 0 \<and> pa AND 0x3FFFFFFF = pa"
proof -
  assume pa: "unat pa < 2 ^ 30"
  then have "take_bit 30 pa = pa" by (simp add: word_unat_eq_iff take_bit_eq_mod unat_mod)
  then have "pa AND 0x3FFFFFFF = pa" by (simp add: take_bit_eq_mask mask_eq_exp_minus_1)
  then show ?thesis using pa by (simp add: word_unat_eq_iff index_unat)
qed

lemma high_window: "unat pa < 2 ^ 30 \<Longrightarrow> pml4_i (KERNEL_VIRT_BASE + pa) = 511 \<and> pdpt_i (KERNEL_VIRT_BASE + pa) = 510 \<and> (KERNEL_VIRT_BASE + pa) AND 0x3FFFFFFF = pa"
proof -
  assume pa: "unat pa < 2 ^ 30"
  have u: "unat (KERNEL_VIRT_BASE + pa) = 0xFFFFFFFF80000000 + unat pa" using pa by (subst unat_add64) (simp_all add: KERNEL_VIRT_BASE_def)
  have "0xFFFFFFFF80000000 + unat pa = unat pa + 17179869182 * 1073741824" by simp
  then have "(0xFFFFFFFF80000000 + unat pa) mod 1073741824 = unat pa" using pa by (simp only: mod_mult_self1) simp
  then have "take_bit 30 (KERNEL_VIRT_BASE + pa) = pa" by (simp add: word_unat_eq_iff take_bit_eq_mod unat_mod u)
  then have "(KERNEL_VIRT_BASE + pa) AND 0x3FFFFFFF = pa" by (simp add: take_bit_eq_mask mask_eq_exp_minus_1)
  moreover have "(unat pa + 17179869182 * 1073741824) div 1073741824 = 17179869182" using pa by (subst div_mult_self1) simp_all
  then have "(0xFFFFFFFF80000000 + unat pa) div 1073741824 = 17179869182" by (simp add: add.commute)
  moreover have "(unat pa + 547608330240 + 33554431 * 549755813888) div 549755813888 = 33554431" using pa by (subst div_mult_self1) simp_all
  then have "(0xFFFFFFFF80000000 + unat pa) div 549755813888 = 33554431" by (simp add: add.commute)
  ultimately show ?thesis by (simp add: word_unat_eq_iff index_unat u)
qed

text \<open>The first two levels are shared: two paths lead to the same table.\<close>

lemma boot_not_tree: "boot_room b \<Longrightarrow> \<not> vm_tree (setup_page_tables b m) (ucast b) free"
proof
  assume b: "boot_room b" and t: "vm_tree (setup_page_tables b m) (ucast b) free"
  note l = boot_links [OF b, of 1024, simplified]
  have "walk (setup_page_tables b m) (ucast b) [0] = Some (cell b 1024)" "walk (setup_page_tables b m) (ucast b) [511] = Some (cell b 1024)"
    using l by (simp_all add: boot_entries [OF b] Let_def)
  then have "[0] = [511 :: u64]" using vm_treeD(3) [OF t, of "[511]" "cell b 1024" "[0]"] by simp
  then show False by simp
qed

lemma setup_outside:
  assumes "boot_room b" "unat a + 4 \<le> unat b"
  shows "ld32 (setup_page_tables b m) a = ld32 m a"
proof -
  have o: "ld32 (wr32 m (cell b k) v) a = ld32 m a" if "k < 3072" for m k v
    using that assms cell_unat [OF assms(1) that] by (simp add: ld32_wr32_apart boot_room_def)
  have z: "n \<le> 3072 \<Longrightarrow> ld32 (rep_stosl_0 n b m) a = ld32 m a" for n
  proof (induction n)
    case (Suc n)
    have "rep_stosl_0 (Suc n) b m = wr32 (rep_stosl_0 n b m) (cell b n) 0" by (simp add: rep_stosl_0_def cell_def)
    then show ?case using Suc o by simp
  qed (simp add: rep_stosl_0_def)
  have l: "n \<le> 512 \<Longrightarrow> ld32 (map_2m_loop n (b + 8192 + of_nat (8 * (512 - n))) ebx m) a = ld32 m a" for n ebx m
  proof (induction n arbitrary: ebx m)
    case (Suc n)
    let ?i = "512 - Suc n"
    have i: "512 - n = Suc ?i" using Suc.prems by simp
    have c: "ucast (b + 8192 + of_nat (8 * ?i) :: u32) = cell b (2048 + 2 * ?i)" by (simp add: cell_def algebra_simps)
    have e: "b + 8192 + of_nat (8 * ?i) + 8 = b + 8192 + of_nat (8 * (512 - n) :: nat)" unfolding i by (simp add: algebra_simps)
    show ?case unfolding map_2m_loop.simps c e Suc.IH [OF Suc_leD [OF Suc.prems]] using Suc.prems by (intro o) simp
  qed simp
  have c: "ucast b = cell b 0" "ucast (b + 511 * 8) = cell b 1022" "ucast (b + 4096) = cell b 1024" "ucast (b + 4096 + 510 * 8) = cell b 2044"
    by (simp_all add: cell_def add.assoc)
  show ?thesis unfolding setup_page_tables_def Let_def c using l [of 512 0] by (simp add: o z)
qed

lemma boot_windows:
  assumes "boot_room b" "vm_mem s = setup_page_tables b m"
  shows "unat pa < 2 ^ 30 \<Longrightarrow> translate s (ucast b) pa = Some pa" "unat pa < 2 ^ 30 \<Longrightarrow> translate s (ucast b) (KERNEL_VIRT_BASE + pa) = Some pa"
    "translate s (ucast b) 0xFFFF800000000000 = None"
proof -
  note t = boot_translate [OF assms]
  show "translate s (ucast b) pa = Some pa" if "unat pa < 2 ^ 30" using low_window [OF that] t by simp
  show "translate s (ucast b) (KERNEL_VIRT_BASE + pa) = Some pa" if "unat pa < 2 ^ 30" using high_window [OF that] t by simp
  have "pml4_i 0xFFFF800000000000 = 256" by (simp add: pml4_i_def drop_bit_eq_div)
  then show "translate s (ucast b) 0xFFFF800000000000 = None" using t by simp
qed

section \<open>Interrupts and exceptions\<close>

datatype reg = RAX | RBX | RCX | RDX | RBP | RDI | RSI | R8 | R9 | R10 | R11 | R12 | R13 | R14 | R15

record trap_cpu =
  tr_reg :: "reg \<Rightarrow> u64"
  tr_rsp :: u64
  tr_rip :: u64
  tr_cs :: u64
  tr_rflags :: u64
  tr_ss :: u64

text \<open>
  The processor enters an interrupt gate: it aligns the stack, pushes five words and an error code if the
  exception has one, and goes to the stub with interrupts disabled and the selector of the gate.
\<close>

definition trap_deliver :: "u64 \<Rightarrow> u64 list \<Rightarrow> trap_cpu \<Rightarrow> kmem \<Rightarrow> trap_cpu \<times> kmem" where
  "trap_deliver stub err c m =
     (let (sp, m) = fold push_word ([tr_ss c, tr_rsp c, tr_rflags c, tr_cs c, tr_rip c] @ err) (tr_rsp c AND NOT 0xF, m)
      in (c\<lparr>tr_rsp := sp, tr_rip := stub, tr_cs := 8, tr_rflags := tr_rflags c AND NOT 0x200\<rparr>, m))"

definition iretq :: "trap_cpu \<Rightarrow> kmem \<Rightarrow> trap_cpu" where
  "iretq c m = (let sp = tr_rsp c in
     c\<lparr>tr_rip := m sp, tr_cs := m (sp + 8), tr_rflags := m (sp + 16), tr_rsp := m (sp + 24), tr_ss := m (sp + 32)\<rparr>)"

definition pop_reg :: "kmem \<Rightarrow> reg \<Rightarrow> trap_cpu \<Rightarrow> trap_cpu" where
  "pop_reg m r c = c\<lparr>tr_reg := (tr_reg c)(r := m (tr_rsp c)), tr_rsp := tr_rsp c + 8\<rparr>"

text \<open>The stub up to the call of \<^verbatim>\<open>nm_irq_isr\<close>, and from its return on.\<close>

definition irq_stub_enter :: "u64 \<Rightarrow> trap_cpu \<Rightarrow> kmem \<Rightarrow> trap_cpu \<times> kmem" where
  "irq_stub_enter vec c m =
     (let (sp, m) = fold push_word (map (tr_reg c) [R15, R14, R13, R12, R11, R10, R9, R8, RSI, RDI, RBP, RDX, RCX, RBX, RAX]) (tr_rsp c, m)
      in (c\<lparr>tr_rsp := sp, tr_reg := (tr_reg c)(RDI := vec)\<rparr>, m))"

definition irq_stub_leave :: "trap_cpu \<Rightarrow> kmem \<Rightarrow> trap_cpu" where
  "irq_stub_leave c m = iretq (fold (pop_reg m) [RAX, RBX, RCX, RDX, RBP, RDI, RSI, R8, R9, R10, R11, R12, R13, R14, R15] c) m"

definition nm_isr_irq0 :: "trap_cpu \<Rightarrow> kmem \<Rightarrow> trap_cpu \<times> kmem" where
  "nm_isr_irq0 c m = irq_stub_enter 32 c m"

definition nm_isr_irq1 :: "trap_cpu \<Rightarrow> kmem \<Rightarrow> trap_cpu \<times> kmem" where
  "nm_isr_irq1 c m = irq_stub_enter 33 c m"

text \<open>The exception stubs up to the call of \<^verbatim>\<open>nm_exception_dispatch\<close>, which does not return.\<close>

definition exc_stub :: "u64 list \<Rightarrow> trap_cpu \<Rightarrow> kmem \<Rightarrow> trap_cpu \<times> kmem" where
  "exc_stub ws c m =
     (let (sp, m) = fold push_word ws (tr_rsp c, m)
      in (c\<lparr>tr_reg := (tr_reg c)(RDI := sp), tr_rsp := sp AND NOT 0xF\<rparr>, m))"

definition nm_isr_ud :: "trap_cpu \<Rightarrow> kmem \<Rightarrow> trap_cpu \<times> kmem" where "nm_isr_ud = exc_stub [0, 6]"
definition nm_isr_df :: "trap_cpu \<Rightarrow> kmem \<Rightarrow> trap_cpu \<times> kmem" where "nm_isr_df = exc_stub [8]"
definition nm_isr_gp :: "trap_cpu \<Rightarrow> kmem \<Rightarrow> trap_cpu \<times> kmem" where "nm_isr_gp = exc_stub [13]"
definition nm_isr_pf :: "trap_cpu \<Rightarrow> kmem \<Rightarrow> trap_cpu \<times> kmem" where "nm_isr_pf = exc_stub [14]"

text \<open>The call itself: the five words of the report are read through the pointer in \<^verbatim>\<open>rdi\<close>.\<close>

definition exc_call :: "'d hw \<Rightarrow> u64 \<Rightarrow> trap_cpu \<times> kmem \<Rightarrow> 'd console \<Rightarrow> 'd console option" where
  "exc_call h cr2 cm con =
     (let sp = tr_reg (fst cm) RDI; m = snd cm
      in nm_exception_dispatch h (m sp) (m (sp + 8)) (m (sp + 16)) (m (sp + 24)) (m (sp + 32)) cr2 sp con)"

section \<open>What lies on the stack\<close>

lemma aligned_below: "unat ((w AND NOT 0xF) - 16 * k :: u64) mod 16 = 0"
proof -
  have "unat (16 * (w div 16)) = unat w div 16 * 16"
    using unat_bound64 [of w] div_times_less_eq_dividend [of "unat w" 16] by (subst unat_mult64) (simp_all add: unat_div)
  then have "w AND NOT 0xF = 16 * (w div 16)" using unat_and_not_15 [of w] by (simp only: word_unat_eq_iff)
  then have "(w AND NOT 0xF) - 16 * k = 16 * (w div 16 - k)" by (simp only: right_diff_distrib)
  moreover have "unat (16 * x) mod 16 = 0" for x :: u64 by (simp add: unat_word_ariths mod_mod_cancel)
  ultimately show ?thesis by (simp only:)
qed

lemma pushed:
  assumes "fold push_word ws (sp, m) = (sp', m')" "i < 2 ^ 60" "length ws \<le> 2 ^ 60"
  shows "sp' = sp - 8 * of_nat (length ws) \<and> m' (sp' + 8 * of_nat i) = (if i < length ws then rev ws ! i else m (sp' + 8 * of_nat i))"
  using assms
proof (induction ws arbitrary: sp' m' i rule: rev_induct)
  case (snoc w ws)
  obtain sp1 m1 where p: "fold push_word ws (sp, m) = (sp1, m1)" by (metis prod.exhaust)
  have s: "sp' = sp1 - 8" "m' = m1(sp1 - 8 := w)" using snoc.prems(1) by (auto simp: p push_word_def [of w])
  have l: "length ws \<le> 2 ^ 60" using snoc.prems(3) by simp
  then have "sp1 = sp - 8 * of_nat (length ws)" using snoc.IH [OF p, of 0] by simp
  then have sp': "sp' = sp - 8 * of_nat (length (ws @ [w]))" by (simp add: s algebra_simps)
  show ?case
  proof (cases i)
    case 0
    then show ?thesis using sp' s by simp
  next
    case (Suc j)
    have "unat (8 * of_nat i :: u64) = 8 * i" using snoc.prems(2) by (subst unat_mult64) (simp_all add: unat_of_nat64)
    then have "8 * of_nat i \<noteq> (0 :: u64)" using Suc by (metis mult_eq_0_iff nat.distinct(1) unat_0 zero_neq_numeral)
    then have "sp' + 8 * of_nat i \<noteq> sp1 - 8" by (simp add: s)
    then have m': "m' (sp' + 8 * of_nat i) = m1 (sp' + 8 * of_nat i)" by (simp add: s(2))
    have e: "sp' + 8 * of_nat i = sp1 + 8 * of_nat j" by (simp add: s Suc algebra_simps)
    have "m1 (sp1 + 8 * of_nat j) = (if j < length ws then rev ws ! j else m (sp1 + 8 * of_nat j))"
      using conjunct2 [OF snoc.IH [OF p, of j]] l Suc snoc.prems(2) by simp
    then show ?thesis using sp' Suc m' unfolding e by simp
  qed
qed simp

lemma exc_frame:
  assumes "err @ ws = [e, v]" "trap_deliver stub err c m = (c1, m1)" "exc_stub ws c1 m1 = (c2, m2)"
  shows "exc_call h cr2 (c2, m2) con = nm_exception_dispatch h v e (tr_rip c) (tr_cs c) (tr_rflags c) cr2 ((tr_rsp c AND NOT 0xF) - 56) con"
    "unat (tr_rsp c2) mod 16 = 0"
proof -
  have "fold push_word ([tr_ss c, tr_rsp c, tr_rflags c, tr_cs c, tr_rip c] @ err @ ws) (tr_rsp c AND NOT 0xF, m) = (tr_reg c2 RDI, m2)"
    and r: "tr_rsp c2 = tr_reg c2 RDI AND NOT 0xF"
    using assms(2,3) by (auto simp: trap_deliver_def exc_stub_def split: prod.splits simp del: fold_simps)
  note f = this(1) [unfolded assms(1)]
  have sp: "tr_reg c2 RDI = (tr_rsp c AND NOT 0xF) - 56" using pushed [OF f, of 0] by simp
  have w: "m2 (tr_reg c2 RDI + 8 * of_nat i) = rev ([tr_ss c, tr_rsp c, tr_rflags c, tr_cs c, tr_rip c] @ [e, v]) ! i" if "i < 7" for i
    using conjunct2 [OF pushed [OF f, of i]] that by simp
  show "exc_call h cr2 (c2, m2) con = nm_exception_dispatch h v e (tr_rip c) (tr_cs c) (tr_rflags c) cr2 ((tr_rsp c AND NOT 0xF) - 56) con"
    using w [of 0] w [of 1] w [of 2] w [of 3] w [of 4] sp by (simp add: exc_call_def Let_def)
  show "unat (tr_rsp c2) mod 16 = 0" unfolding r using unat_and_not_15 [of "tr_reg c2 RDI"] by simp
qed

section \<open>Properties\<close>

text \<open>
  C30: the interrupted code does not notice an interrupt. When the timer or the keyboard interrupts, the stub calls
  \<^verbatim>\<open>nm_irq_isr\<close> with the number of the vector and a stack aligned to 16 bytes, whatever the alignment
  of the interrupted stack; and when that call returns with the stack pointer it was given and the 20 words of the frame above it
  unchanged, which the calling convention promises, every general register, the stack pointer, the
  instruction pointer and the flags are again what they were.
\<close>

theorem irq_stub_transparent:
  assumes "trap_deliver stub [] c m = (c1, m1)" "irq_stub_enter vec c1 m1 = (c2, m2)"
    "tr_rsp c3 = tr_rsp c2" "\<forall>i < 20. m3 (tr_rsp c2 + 8 * of_nat i) = m2 (tr_rsp c2 + 8 * of_nat i)"
  shows "tr_reg c2 RDI = vec \<and> unat (tr_rsp c2) mod 16 = 0 \<and> tr_rflags c2 AND 0x200 = 0 \<and> irq_stub_leave c3 m3 = c"
proof -
  let ?ws = "[tr_ss c, tr_rsp c, tr_rflags c, tr_cs c, tr_rip c] @ map (tr_reg c) [R15, R14, R13, R12, R11, R10, R9, R8, RSI, RDI, RBP, RDX, RCX, RBX, RAX]"
  define a where "a = tr_rsp c2"
  have f: "fold push_word ?ws (tr_rsp c AND NOT 0xF, m) = (a, m2)" and c2: "tr_reg c2 RDI = vec" "tr_rflags c2 = tr_rflags c AND NOT 0x200"
    using assms(1,2) by (auto simp: trap_deliver_def irq_stub_enter_def a_def split: prod.splits simp del: fold_simps)
  have sp: "a = (tr_rsp c AND NOT 0xF) - 160" using pushed [OF f, of 0] by simp
  have w: "m3 (a + 8 * of_nat i) = rev ?ws ! i" if "i < 20" for i
    using conjunct2 [OF pushed [OF f, of i]] assms(4) that by (simp add: a_def)
  note ws = w [of 0] w [of 1] w [of 2] w [of 3] w [of 4] w [of 5] w [of 6] w [of 7] w [of 8] w [of 9] w [of 10] w [of 11] w [of 12] w [of 13] w [of 14]
    w [of 15] w [of 16] w [of 17] w [of 18] w [of 19]
  have r: "tr_rsp c3 = a" using assms(3) by (simp add: a_def)
  have "(tr_reg c3)(RAX := tr_reg c RAX, RBX := tr_reg c RBX, RCX := tr_reg c RCX, RDX := tr_reg c RDX, RBP := tr_reg c RBP, RDI := tr_reg c RDI,
      RSI := tr_reg c RSI, R8 := tr_reg c R8, R9 := tr_reg c R9, R10 := tr_reg c R10, R11 := tr_reg c R11, R12 := tr_reg c R12, R13 := tr_reg c R13,
      R14 := tr_reg c R14, R15 := tr_reg c R15) = tr_reg c"
  proof
    fix x show "((tr_reg c3)(RAX := tr_reg c RAX, RBX := tr_reg c RBX, RCX := tr_reg c RCX, RDX := tr_reg c RDX, RBP := tr_reg c RBP, RDI := tr_reg c RDI,
      RSI := tr_reg c RSI, R8 := tr_reg c R8, R9 := tr_reg c R9, R10 := tr_reg c R10, R11 := tr_reg c R11, R12 := tr_reg c R12, R13 := tr_reg c R13,
      R14 := tr_reg c R14, R15 := tr_reg c R15)) x = tr_reg c x" by (cases x) simp_all
  qed
  then have "irq_stub_leave c3 m3 = c" using ws by (simp add: irq_stub_leave_def iretq_def pop_reg_def r add.assoc)
  moreover have "unat a mod 16 = 0" using aligned_below [of "tr_rsp c" 10] by (simp add: sp)
  moreover have "tr_rflags c2 AND 0x200 = 0" by (simp add: c2 and.assoc)
  ultimately show ?thesis using c2(1) by (simp add: a_def)
qed

text \<open>
  Each exception reports its own vector, the error code of the processor (zero for an invalid instruction,
  which has none) and the instruction, selector and flags at the fault.
\<close>

theorem exceptions_report_fault:
  assumes "(stub, v, ws) \<in> {(nm_isr_df, 8, [err]), (nm_isr_gp, 13, [err]), (nm_isr_pf, 14, [err])} \<or> stub = nm_isr_ud \<and> v = 6 \<and> ws = [] \<and> err = 0"
    "trap_deliver addr ws c m = (c1, m1)" "stub c1 m1 = (c2, m2)"
  shows "exc_call h cr2 (c2, m2) con = nm_exception_dispatch h v err (tr_rip c) (tr_cs c) (tr_rflags c) cr2 ((tr_rsp c AND NOT 0xF) - 56) con \<and>
    unat (tr_rsp c2) mod 16 = 0"
proof -
  obtain us where "stub = exc_stub us" "ws @ us = [err, v]" using assms(1) by (auto simp: nm_isr_ud_def nm_isr_df_def nm_isr_gp_def nm_isr_pf_def)
  then show ?thesis using exc_frame [OF _ assms(2)] assms(3) by blast
qed

text \<open>
  C9: the first address space. From the boot loader's magic number, with the tables above the stack, the entry
  calls \<^verbatim>\<open>kmain\<close> with the pointer it was given, with paging on the new tables; and an address
  is translated exactly when it lies in one of the four windows of 1 GiB at the indices 0 and 511 of the first and 0 and 510 of the second level,
  by its offset there. So the first GiB of memory is seen at its own addresses and again from
  \<^verbatim>\<open>KERNEL_VIRT_BASE\<close>, nothing is mapped at \<^verbatim>\<open>0xFFFF800000000000\<close>, and the tables are shared between the windows:
  they are not the tree that the mapping functions of \<^verbatim>\<open>kernel/mm/vmm.c\<close> need to change one page alone.
\<close>

theorem boot_address_space:
  assumes "boot_room pml4" "8 \<le> unat stack_top" "unat stack_top \<le> unat pml4" "eax = 0x36d76289"
  shows "\<exists>m'. start_entry pml4 stack_top ret eax ebx c m =
      Some (ucast ebx, c\<lparr>ct_cr3 := pml4, ct_cr4 := ct_cr4 c OR 0x20, ct_efer := ct_efer c OR 0x100, ct_cr0 := ct_cr0 c OR 0x80000001\<rparr>, m') \<and>
    (\<forall>s. vm_mem s = m' \<longrightarrow>
      (\<forall>va. translate s (ucast pml4) va = (if pml4_i va \<in> {0, 511} \<and> pdpt_i va \<in> {0, 510} then Some (va AND 0x3FFFFFFF) else None)) \<and>
      (\<forall>pa. unat pa < 2 ^ 30 \<longrightarrow> translate s (ucast pml4) pa = Some pa \<and> translate s (ucast pml4) (KERNEL_VIRT_BASE + pa) = Some pa) \<and>
      translate s (ucast pml4) 0xFFFF800000000000 = None \<and> \<not> vm_ok s (ucast pml4))"
proof -
  define m1 where "m1 = wr32 (wr32 m (ucast (stack_top - 4)) ebx) (ucast (stack_top - 8)) ret"
  have st: "unat (stack_top - 4) = unat stack_top - 4" "unat (stack_top - 8) = unat stack_top - 8"
    using assms(2) by (simp_all add: unat_sub word_le_nat_alt)
  have "unat stack_top < 2 ^ 32" using unsigned_less [of stack_top] by simp
  then have "ld32 m1 (ucast (stack_top - 4)) = ebx"
    unfolding m1_def using st assms(2) by (subst ld32_wr32_apart) (simp_all add: unat_ucast_32_64)
  then have e: "ld32 (setup_page_tables pml4 m1) (ucast (stack_top - 4)) = ebx"
    using setup_outside [OF assms(1), of "ucast (stack_top - 4)" m1] st assms(2,3) by (simp add: unat_ucast_32_64)
  have "\<not> vm_ok s (ucast pml4)" if "vm_mem s = setup_page_tables pml4 m1" for s
    using boot_not_tree [OF assms(1)] that by (simp add: vm_ok_def)
  then show ?thesis using e assms(4) boot_translate [OF assms(1), of _ m1] boot_windows [OF assms(1), of _ m1]
    by (intro exI [of _ "setup_page_tables pml4 m1"]) (simp add: start_entry_def Let_def m1_def)
qed

section \<open>Witnesses\<close>

definition demo_trap :: trap_cpu where
  "demo_trap = \<lparr>tr_reg = (\<lambda>r. if r = RAX then 7 else 9), tr_rsp = 0x8FF8, tr_rip = 0x101234, tr_cs = 8, tr_rflags = 0x202, tr_ss = 0x10\<rparr>"

theorem irq_stub_transparent_witness:
  "\<exists>c1 m1 c2 m2. trap_deliver 0x102000 [] demo_trap (\<lambda>_. 0) = (c1, m1) \<and> irq_stub_enter 32 c1 m1 = (c2, m2) \<and> tr_reg c2 RDI = 32 \<and>
     irq_stub_leave (c2\<lparr>tr_reg := (\<lambda>_. 1), tr_rflags := 0\<rparr>) m2 = demo_trap"
proof -
  obtain c1 m1 where d: "trap_deliver 0x102000 [] demo_trap (\<lambda>_. 0) = (c1, m1)" by (metis prod.exhaust)
  obtain c2 m2 where e: "irq_stub_enter 32 c1 m1 = (c2, m2)" by (metis prod.exhaust)
  from irq_stub_transparent [OF d e, of "c2\<lparr>tr_reg := (\<lambda>_. 1), tr_rflags := 0\<rparr>" m2] show ?thesis using d e by auto
qed

theorem exceptions_report_fault_witness:
  "\<exists>c1 m1 c2 m2. trap_deliver 0x102100 [5] demo_trap (\<lambda>_. 0) = (c1, m1) \<and> nm_isr_gp c1 m1 = (c2, m2) \<and>
     exc_call ready_hw 0 (c2, m2) demo_console = nm_exception_dispatch ready_hw 13 5 0x101234 8 0x202 0 0x8FB8 demo_console"
proof -
  obtain c1 m1 where d: "trap_deliver 0x102100 [5] demo_trap (\<lambda>_. 0) = (c1, m1)" by (metis prod.exhaust)
  obtain c2 m2 where e: "nm_isr_gp c1 m1 = (c2, m2)" by (metis prod.exhaust)
  from exceptions_report_fault [where stub = nm_isr_gp and v = 13 and err = 5 and h = ready_hw and ?cr2.0 = 0 and con = demo_console, OF _ d e] show ?thesis using d e by (auto simp: demo_trap_def)
qed

theorem boot_address_space_witness:
  "\<exists>m'. start_entry 0x105000 0x105000 0x100080 0x36d76289 0x9000 \<lparr>ct_cr0 = 0x11, ct_cr3 = 0, ct_cr4 = 0, ct_efer = 0\<rparr> (\<lambda>_. 0xCC) =
     Some (0x9000, \<lparr>ct_cr0 = 0x80000011, ct_cr3 = 0x105000, ct_cr4 = 0x20, ct_efer = 0x100\<rparr>, m') \<and>
     (\<forall>s. vm_mem s = m' \<longrightarrow> translate s 0x105000 0xFFFFFFFF80100123 = Some 0x100123)"
  using boot_address_space [where ?pml4.0 = "0x105000" and stack_top = "0x105000" and eax = "0x36d76289" and ret = "0x100080" and ebx = "0x9000" and
      c = "\<lparr>ct_cr0 = 0x11, ct_cr3 = 0, ct_cr4 = 0, ct_efer = 0\<rparr>" and m = "\<lambda>_. 0xCC"]
  by (auto simp: boot_room_def KERNEL_VIRT_BASE_def pml4_i_def pdpt_i_def drop_bit_eq_div)

end
