(* ===== verification/Sched.thy ===== *)
theory Sched
  imports Task
begin

text \<open>
  The scheduler of \<^verbatim>\<open>kernel/proc/sched.c\<close>: round robin over the task table and a fair policy that
  picks the smallest virtual run time. \<open>sched_yield\<close> includes the context switch, so it also takes
  and returns the processor's registers and kernel memory.
\<close>

section \<open>Operations\<close>

datatype nm_sched_policy = NM_SCHED_RR | NM_SCHED_CFS

record sched_state =
  global_policy :: nm_sched_policy
  rr_cursor :: nat

definition priority_weight :: "u32 \<Rightarrow> u32" where
  "priority_weight priority = (let priority = (if priority > 39 then 39 else priority) in 40 - priority)"

definition sched_init :: "nm_sched_policy \<Rightarrow> sched_state \<Rightarrow> sched_state" where
  "sched_init policy sc = sc\<lparr>global_policy := policy, rr_cursor := 0\<rparr>"

definition sched_set_policy :: "nm_sched_policy \<Rightarrow> sched_state \<Rightarrow> sched_state" where
  "sched_set_policy policy sc = sc\<lparr>global_policy := policy\<rparr>"

definition sched_get_policy :: "sched_state \<Rightarrow> nm_sched_policy" where
  "sched_get_policy sc = global_policy sc"

text \<open>A task can be switched to when it is the running one or has a saved stack pointer.\<close>

definition switchable :: "proc_state \<Rightarrow> nat \<Rightarrow> bool" where
  "switchable s i \<longleftrightarrow> task_current s = Some i \<or> t_saved_rsp (task_table s ! i) \<noteq> 0"

definition rr_eligible :: "proc_state \<Rightarrow> nat \<Rightarrow> bool" where
  "rr_eligible s idx =
     (case task_by_index idx s of
        None \<Rightarrow> False
      | Some i \<Rightarrow> (t_state (task_table s ! i) = NM_TASK_RUNNABLE \<or> t_state (task_table s ! i) = NM_TASK_RUNNING) \<and>
          switchable s i)"

definition pick_rr :: "sched_state \<Rightarrow> proc_state \<Rightarrow> nat option \<times> sched_state" where
  "pick_rr sc s =
     (case first_idx (\<lambda>probe. rr_eligible s ((rr_cursor sc + probe) mod 128)) [0..<128] of
        Some probe \<Rightarrow> let idx = (rr_cursor sc + probe) mod 128 in (Some idx, sc\<lparr>rr_cursor := (idx + 1) mod 128\<rparr>)
      | None \<Rightarrow> (task_current s, sc))"

definition cfs_better :: "proc_state \<Rightarrow> nm_task_state \<Rightarrow> nat \<Rightarrow> nat option \<Rightarrow> nat option" where
  "cfs_better s st idx best =
     (case task_by_index idx s of
        None \<Rightarrow> best
      | Some i \<Rightarrow>
          if t_state (task_table s ! i) \<noteq> st then best
          else if \<not> switchable s i then best
          else case best of
            None \<Rightarrow> Some i
          | Some b \<Rightarrow> if sp_vruntime (t_sched (task_table s ! i)) < sp_vruntime (t_sched (task_table s ! b))
                      then Some i else best)"

definition pick_cfs :: "proc_state \<Rightarrow> nat option" where
  "pick_cfs s =
     (case fold (cfs_better s NM_TASK_RUNNABLE) [0..<128] None of
        Some b \<Rightarrow> Some b
      | None \<Rightarrow>
          (case fold (cfs_better s NM_TASK_RUNNING) [0..<128] None of
             Some b \<Rightarrow> Some b
           | None \<Rightarrow> task_current s))"

definition sched_pick_next :: "sched_state \<Rightarrow> proc_state \<Rightarrow> nat option \<times> sched_state" where
  "sched_pick_next sc s = (if global_policy sc = NM_SCHED_CFS then (pick_cfs s, sc) else pick_rr sc s)"

definition charge_cfs :: "u64 \<Rightarrow> nm_task \<Rightarrow> nm_task" where
  "charge_cfs ticks t =
     (let w = priority_weight (sp_priority (t_sched t))
      in t\<lparr>t_sched := (t_sched t)\<lparr>sp_vruntime := sp_vruntime (t_sched t) + (ticks * 1024) div ucast w\<rparr>\<rparr>)"

definition charge_rr :: "u64 \<Rightarrow> nm_task \<Rightarrow> nm_task" where
  "charge_rr ticks t =
     (let budget = sp_rr_budget (t_sched t) + ticks
      in if budget \<ge> ucast (sp_timeslice_ticks (t_sched t))
         then t\<lparr>t_sched := (t_sched t)\<lparr>sp_rr_budget := 0\<rparr>, t_state := NM_TASK_RUNNABLE\<rparr>
         else t\<lparr>t_sched := (t_sched t)\<lparr>sp_rr_budget := budget\<rparr>\<rparr>)"

definition sched_on_run :: "sched_state \<Rightarrow> nat option \<Rightarrow> u64 \<Rightarrow> proc_state \<Rightarrow> proc_state" where
  "sched_on_run sc task ticks s =
     (case task of
        None \<Rightarrow> s
      | Some i \<Rightarrow>
          if ticks = 0 then s
          else upd_task i (if global_policy sc = NM_SCHED_CFS then charge_cfs ticks else charge_rr ticks) s)"

text \<open>The end of \<^verbatim>\<open>sched_tick\<close> and \<^verbatim>\<open>sched_yield\<close>: the states of the two tasks and the current pointer.\<close>

definition hand_over :: "nat \<Rightarrow> nat \<Rightarrow> proc_state \<Rightarrow> proc_state" where
  "hand_over cur next s =
     proc_set_current (Some next)
       (upd_task next (\<lambda>t. t\<lparr>t_state := NM_TASK_RUNNING\<rparr>)
         (upd_task cur (\<lambda>t. t\<lparr>t_state := NM_TASK_RUNNABLE\<rparr>) s))"

definition sched_tick :: "u64 \<Rightarrow> sched_state \<Rightarrow> proc_state \<Rightarrow> sched_state \<times> proc_state" where
  "sched_tick ticks sc s =
     (case task_current s of
        None \<Rightarrow> (sc, s)
      | Some cur \<Rightarrow>
          let s = sched_on_run sc (Some cur) ticks s;
              (next, sc) = sched_pick_next sc s
          in case next of
               None \<Rightarrow> (sc, s)
             | Some n \<Rightarrow> if n = cur then (sc, s) else (sc, hand_over cur n s))"

definition sched_yield :: "sched_state \<Rightarrow> proc_state \<Rightarrow> cpu \<Rightarrow> kmem \<Rightarrow> sched_state \<times> proc_state \<times> cpu \<times> kmem" where
  "sched_yield sc s c m =
     (case task_current s of
        None \<Rightarrow> (sc, s, c, m)
      | Some cur \<Rightarrow>
          let (next, sc) = sched_pick_next sc s
          in case next of
               None \<Rightarrow> (sc, s, c, m)
             | Some n \<Rightarrow>
                 if n = cur then (sc, s, c, m)
                 else let s = hand_over cur n s; new_rsp = t_saved_rsp (task_table s ! n) in
                   if new_rsp \<noteq> 0
                   then let (old, c, m) = nm_context_switch new_rsp c m
                        in (sc, upd_task cur (\<lambda>t. t\<lparr>t_saved_rsp := old\<rparr>) s, c, m)
                   else (sc, s, c, m))"

section \<open>Picking\<close>

lemma rr_eligibleD:
  "rr_eligible s i \<Longrightarrow> i < NM_MAX_TASKS" "rr_eligible s i \<Longrightarrow> task_used_slot (task_table s ! i)"
  "rr_eligible s i \<Longrightarrow> switchable s i"
  "rr_eligible s i \<Longrightarrow> t_state (task_table s ! i) \<in> {NM_TASK_RUNNABLE, NM_TASK_RUNNING}"
  by (auto simp: rr_eligible_def task_by_index_def task_used_slot_def split: option.splits if_splits)

lemma pick_rr_cases:
  assumes "pick_rr sc s = (r, sc')"
  obtains (pick) probe where "probe < 128" "rr_eligible s ((rr_cursor sc + probe) mod 128)"
      "\<And>q. q < probe \<Longrightarrow> \<not> rr_eligible s ((rr_cursor sc + q) mod 128)"
      "r = Some ((rr_cursor sc + probe) mod 128)" "sc' = sc\<lparr>rr_cursor := ((rr_cursor sc + probe) mod 128 + 1) mod 128\<rparr>"
  | (fallback) "\<And>q. q < 128 \<Longrightarrow> \<not> rr_eligible s ((rr_cursor sc + q) mod 128)" "r = current_task s" "sc' = sc"
proof (cases "first_idx (\<lambda>probe. rr_eligible s ((rr_cursor sc + probe) mod 128)) [0..<128]")
  case None
  then have "r = current_task s" "sc' = sc" using assms by (simp_all add: pick_rr_def task_current_def)
  then show ?thesis using fallback None by (auto simp: first_idx_None_nth)
next
  case (Some p)
  then show ?thesis
    using assms pick [of p] first_idx_SomeD [OF Some] by (auto simp: pick_rr_def Let_def)
qed

text \<open>How far ahead of the cursor slot \<open>i\<close> is.\<close>

definition rr_ahead :: "nat \<Rightarrow> sched_state \<Rightarrow> nat" where
  "rr_ahead i sc = (i + 128 - rr_cursor sc) mod 128"

lemma rr_ahead_slot: "rr_cursor sc < 128 \<Longrightarrow> i < 128 \<Longrightarrow> (rr_cursor sc + rr_ahead i sc) mod 128 = i"
  by (simp add: rr_ahead_def mod_add_right_eq)

lemma rr_ahead_advance:
  assumes "rr_cursor sc < 128" "i < 128" "p < rr_ahead i sc"
  shows "rr_ahead i (sc\<lparr>rr_cursor := ((rr_cursor sc + p) mod 128 + 1) mod 128\<rparr>) < rr_ahead i sc"
proof -
  have a: "rr_ahead i sc = (if rr_cursor sc \<le> i then i - rr_cursor sc else i + 128 - rr_cursor sc)"
    unfolding rr_ahead_def using assms by (subst mod_less_twice) auto
  have n: "((rr_cursor sc + p) mod 128 + 1) mod 128 = (rr_cursor sc + p + 1) mod 128" by (simp add: mod_Suc_eq)
  have "rr_ahead i sc < 128" by (simp add: rr_ahead_def)
  then have "p < 128" using assms(3) by simp
  then have c: "(rr_cursor sc + p + 1) mod 128 =
      (if rr_cursor sc + p + 1 < 128 then rr_cursor sc + p + 1 else rr_cursor sc + p + 1 - 128)"
    using assms(1) by (subst mod_less_twice) auto
  show ?thesis
    unfolding rr_ahead_def [of i "sc\<lparr>rr_cursor := x\<rparr>" for x] sched_state.simps n c
    using assms a by (subst mod_less_twice) (auto split: if_splits)
qed

definition rr_next :: "proc_state \<Rightarrow> sched_state \<Rightarrow> sched_state" where
  "rr_next s sc = snd (pick_rr sc s)"

lemma rr_reaches:
  assumes "rr_eligible s i"
  shows "rr_cursor sc < 128 \<Longrightarrow> rr_ahead i sc = n \<Longrightarrow>
    \<exists>k\<le>n. fst (pick_rr ((rr_next s ^^ k) sc) s) = Some i"
proof (induction n arbitrary: sc rule: less_induct)
  case (less n)
  have i: "i < 128" using rr_eligibleD(1) [OF assms] by (simp add: NM_MAX_TASKS_def)
  have at: "rr_eligible s ((rr_cursor sc + n) mod 128)" and n: "n < 128"
    using rr_ahead_slot [OF less.prems(1) i] assms less.prems(2) by (auto simp: rr_ahead_def)
  obtain r sc' where r: "pick_rr sc s = (r, sc')" by (metis prod.exhaust)
  then show ?case
  proof (cases rule: pick_rr_cases)
    case (pick p)
    show ?thesis
    proof (cases "p = n")
      case True
      then have "fst (pick_rr ((rr_next s ^^ 0) sc) s) = Some i"
        using pick(4) r rr_ahead_slot [OF less.prems(1) i] less.prems(2) by simp
      then show ?thesis by blast
    next
      case False
      then have "p < n" using pick(3) at by (meson linorder_neqE_nat)
      then have "rr_ahead i sc' < n"
        using rr_ahead_advance [OF less.prems(1) i, of p] less.prems(2) pick(5) by simp
      then obtain k where k: "k \<le> rr_ahead i sc'" "fst (pick_rr ((rr_next s ^^ k) sc') s) = Some i"
        using less.IH [of "rr_ahead i sc'" sc'] pick(5) by auto
      have "sc' = rr_next s sc" using r by (simp add: rr_next_def)
      then have "fst (pick_rr ((rr_next s ^^ Suc k) sc) s) = Some i"
        using k(2) by (simp add: funpow_swap1)
      then show ?thesis using k(1) \<open>rr_ahead i sc' < n\<close> by (meson Suc_le_eq order.strict_trans1)
    qed
  next
    case fallback
    then show ?thesis using at n by blast
  qed
qed

text \<open>The fold of the fair policy finds a minimum.\<close>

definition cfs_candidate :: "proc_state \<Rightarrow> nm_task_state \<Rightarrow> nat \<Rightarrow> bool" where
  "cfs_candidate s st i \<longleftrightarrow> i < NM_MAX_TASKS \<and> t_state (task_table s ! i) = st \<and> switchable s i"

definition vruntime_of :: "proc_state \<Rightarrow> nat \<Rightarrow> u64" where
  "vruntime_of s i = sp_vruntime (t_sched (task_table s ! i))"

lemma cfs_better_cases:
  assumes "st \<noteq> NM_TASK_UNUSED"
  shows "cfs_better s st idx best =
    (if cfs_candidate s st idx \<and> (case best of None \<Rightarrow> True | Some b \<Rightarrow> vruntime_of s idx < vruntime_of s b)
     then Some idx else best)"
  using assms
  by (auto simp: cfs_better_def cfs_candidate_def vruntime_of_def task_by_index_def split: option.splits)

lemma cfs_scan:
  assumes "st \<noteq> NM_TASK_UNUSED"
  shows "case fold (cfs_better s st) xs None of
      None \<Rightarrow> \<forall>i\<in>set xs. \<not> cfs_candidate s st i
    | Some b \<Rightarrow> b \<in> set xs \<and> cfs_candidate s st b \<and> (\<forall>i\<in>set xs. cfs_candidate s st i \<longrightarrow> vruntime_of s b \<le> vruntime_of s i)"
proof (induction xs rule: rev_induct)
  case Nil
  then show ?case by simp
next
  case (snoc x xs)
  then show ?case
    by (cases "fold (cfs_better s st) xs None")
      (auto simp: cfs_better_cases [OF assms, of s x] intro: less_imp_le dest: less_le_trans)
qed

lemma cfs_scan_None: "st \<noteq> NM_TASK_UNUSED \<Longrightarrow> fold (cfs_better s st) [0..<128] None = None \<longleftrightarrow> (\<forall>i. \<not> cfs_candidate s st i)"
  using cfs_scan [of st "[0..<128]" s]
  by (cases "fold (cfs_better s st) [0..<128] None") (auto simp: cfs_candidate_def NM_MAX_TASKS_def)

lemma cfs_scan_Some:
  "st \<noteq> NM_TASK_UNUSED \<Longrightarrow> fold (cfs_better s st) [0..<128] None = Some b \<Longrightarrow>
   cfs_candidate s st b \<and> (\<forall>i. cfs_candidate s st i \<longrightarrow> vruntime_of s b \<le> vruntime_of s i)"
  using cfs_scan [of st "[0..<128]" s] by (auto simp: cfs_candidate_def NM_MAX_TASKS_def)

lemma pick_cfs_cases:
  obtains (runnable) b where "pick_cfs s = Some b" "cfs_candidate s NM_TASK_RUNNABLE b"
      "\<forall>i. cfs_candidate s NM_TASK_RUNNABLE i \<longrightarrow> vruntime_of s b \<le> vruntime_of s i"
  | (running) b where "pick_cfs s = Some b" "\<forall>i. \<not> cfs_candidate s NM_TASK_RUNNABLE i" "cfs_candidate s NM_TASK_RUNNING b"
      "\<forall>i. cfs_candidate s NM_TASK_RUNNING i \<longrightarrow> vruntime_of s b \<le> vruntime_of s i"
  | (fallback) "pick_cfs s = current_task s" "\<forall>i. \<not> cfs_candidate s NM_TASK_RUNNABLE i" "\<forall>i. \<not> cfs_candidate s NM_TASK_RUNNING i"
proof (cases "fold (cfs_better s NM_TASK_RUNNABLE) [0..<128] None")
  case (Some b)
  then show ?thesis using cfs_scan_Some [OF _ Some] runnable [of b] by (simp add: pick_cfs_def)
next
  case None
  then have nr: "\<forall>i. \<not> cfs_candidate s NM_TASK_RUNNABLE i" by (simp add: cfs_scan_None)
  show ?thesis
  proof (cases "fold (cfs_better s NM_TASK_RUNNING) [0..<128] None")
    case (Some b)
    then show ?thesis using cfs_scan_Some [OF _ Some] running [of b] nr None by (simp add: pick_cfs_def)
  next
    case None
    then have "pick_cfs s = current_task s"
      using \<open>fold (cfs_better s NM_TASK_RUNNABLE) [0..<128] None = None\<close> by (simp add: pick_cfs_def task_current_def)
    then show ?thesis using fallback nr None by (simp add: cfs_scan_None)
  qed
qed

text \<open>Under both policies: the pick is the current task, or another used and switchable one.\<close>

lemma sched_pick_next_ok:
  assumes "sched_pick_next sc s = (Some n, sc')" "current_task s \<noteq> Some n"
  shows "n < NM_MAX_TASKS" "task_used_slot (task_table s ! n)" "t_saved_rsp (task_table s ! n) \<noteq> 0"
    "t_state (task_table s ! n) \<in> {NM_TASK_RUNNABLE, NM_TASK_RUNNING}"
proof -
  have "n < NM_MAX_TASKS \<and> task_used_slot (task_table s ! n) \<and> switchable s n \<and>
      t_state (task_table s ! n) \<in> {NM_TASK_RUNNABLE, NM_TASK_RUNNING}"
  proof (cases "global_policy sc = NM_SCHED_CFS")
    case True
    then have p: "pick_cfs s = Some n" using assms(1) by (simp add: sched_pick_next_def)
    show ?thesis
      by (rule pick_cfs_cases [of s]) (use p assms(2) in \<open>auto simp: cfs_candidate_def task_used_slot_def\<close>)
  next
    case False
    then have "pick_rr sc s = (Some n, sc')" using assms(1) by (simp add: sched_pick_next_def)
    then show ?thesis
      by (cases rule: pick_rr_cases) (use assms(2) in \<open>auto dest: rr_eligibleD\<close>)
  qed
  then show "n < NM_MAX_TASKS" "task_used_slot (task_table s ! n)" "t_saved_rsp (task_table s ! n) \<noteq> 0"
    "t_state (task_table s ! n) \<in> {NM_TASK_RUNNABLE, NM_TASK_RUNNING}"
    using assms(2) by (auto simp: switchable_def task_current_def)
qed

section \<open>Invariants of scheduling\<close>

text \<open>Only the current task is ever marked running.\<close>

definition running_ok :: "proc_state \<Rightarrow> bool" where
  "running_ok s \<longleftrightarrow> (\<forall>i<NM_MAX_TASKS. t_state (task_table s ! i) = NM_TASK_RUNNING \<longrightarrow> current_task s = Some i)"

definition sched_inv :: "proc_state \<Rightarrow> bool" where
  "sched_inv s \<longleftrightarrow> proc_inv s \<and> running_ok s"

lemma charge_state: "t_state (charge_cfs ticks t) = t_state t" "t_state (charge_rr ticks t) \<in> {t_state t, NM_TASK_RUNNABLE}"
  by (simp_all add: charge_cfs_def charge_rr_def Let_def)

lemma sched_on_run_inv [nm_inv]:
  assumes "sched_inv s" "current_task s = Some c"
  shows "sched_inv (sched_on_run sc (Some c) ticks s)" "current_task (sched_on_run sc (Some c) ticks s) = Some c"
proof -
  let ?f = "if global_policy sc = NM_SCHED_CFS then charge_cfs ticks else charge_rr ticks"
  have inv: "proc_inv s" and run: "running_ok s" using assms(1) by (simp_all add: sched_inv_def)
  have c: "c < NM_MAX_TASKS" "task_used_slot (task_table s ! c)" using proc_invD(5,6) [OF inv assms(2)] by simp_all
  have "proc_inv (upd_task c ?f s)"
    using c(2) by (intro proc_inv_rewrite [OF inv c]) (auto simp: charge_cfs_def charge_rr_def Let_def task_used_slot_def)
  moreover have "running_ok (upd_task c ?f s)"
    using run assms(2) c(1) proc_invD(1) [OF inv] by (auto simp: running_ok_def nth_list_update split: if_splits)
  ultimately show "sched_inv (sched_on_run sc (Some c) ticks s)" "current_task (sched_on_run sc (Some c) ticks s) = Some c"
    using assms by (simp_all add: sched_on_run_def sched_inv_def)
qed

lemma hand_over_simps [simp]:
  "current_task (hand_over cur n s) = Some n" "task_used (hand_over cur n s) = task_used s"
  "length (task_table (hand_over cur n s)) = length (task_table s)"
  by (simp_all add: hand_over_def proc_set_current_def)

lemma hand_over_nth:
  assumes "n < length (task_table s)" "cur < length (task_table s)" "n \<noteq> cur"
  shows "task_table (hand_over cur n s) ! i =
    (if i = n then (task_table s ! n)\<lparr>t_state := NM_TASK_RUNNING\<rparr>
     else if i = cur then (task_table s ! cur)\<lparr>t_state := NM_TASK_RUNNABLE\<rparr> else task_table s ! i)"
  using assms by (simp add: hand_over_def proc_set_current_def)

lemma hand_over_inv:
  assumes "sched_inv s" "current_task s = Some cur" "n < NM_MAX_TASKS" "task_used_slot (task_table s ! n)" "n \<noteq> cur"
  shows "sched_inv (hand_over cur n s)"
proof -
  have inv: "proc_inv s" and run: "running_ok s" using assms(1) by (simp_all add: sched_inv_def)
  have c: "cur < NM_MAX_TASKS" "task_used_slot (task_table s ! cur)" using proc_invD(5,6) [OF inv assms(2)] by simp_all
  let ?s1 = "upd_task cur (\<lambda>t. t\<lparr>t_state := NM_TASK_RUNNABLE\<rparr>) s"
  let ?s2 = "upd_task n (\<lambda>t. t\<lparr>t_state := NM_TASK_RUNNING\<rparr>) ?s1"
  have "proc_inv ?s1" by (rule proc_inv_rewrite [OF inv c]) (simp_all add: task_used_slot_def)
  then have i2: "proc_inv ?s2"
    by (rule proc_inv_rewrite [OF _ assms(3)]) (use assms(4,5) in \<open>simp_all add: task_used_slot_def\<close>)
  have "task_used_slot (task_table ?s2 ! n)"
    using assms(3) proc_invD(1) [OF inv] by (simp add: task_used_slot_def)
  then have "proc_inv (hand_over cur n s)"
    unfolding hand_over_def by (rule proc_set_current_inv [OF i2 assms(3)])
  moreover have "running_ok (hand_over cur n s)"
    unfolding running_ok_def
  proof (intro allI impI)
    fix i
    assume i: "i < NM_MAX_TASKS" "t_state (task_table (hand_over cur n s) ! i) = NM_TASK_RUNNING"
    have "current_task s = Some i \<and> i \<noteq> cur" if "i \<noteq> n"
      using i that assms(3,5) c(1) proc_invD(1) [OF inv] run [unfolded running_ok_def, rule_format, OF i(1)]
      by (simp add: hand_over_nth split: if_splits)
    then have "i = n" using assms(2) by auto
    then show "current_task (hand_over cur n s) = Some i" by simp
  qed
  ultimately show ?thesis by (simp add: sched_inv_def)
qed

lemma sched_tick_inv [nm_inv]:
  assumes "sched_inv s" "sched_tick ticks sc s = (sc', s')"
  shows "sched_inv s'"
proof (cases "current_task s")
  case None
  then show ?thesis using assms by (simp add: sched_tick_def task_current_def)
next
  case (Some cur)
  let ?s1 = "sched_on_run sc (Some cur) ticks s"
  note s1 = sched_on_run_inv [OF assms(1) Some, of sc ticks]
  obtain n sc1 where n: "sched_pick_next sc ?s1 = (n, sc1)" by (metis prod.exhaust)
  show ?thesis
  proof (cases "n = None \<or> n = Some cur")
    case True
    then have "s' = ?s1" using assms(2) n Some by (auto simp: sched_tick_def task_current_def Let_def)
    then show ?thesis using s1 by simp
  next
    case False
    then obtain k where k: "n = Some k" "k \<noteq> cur" by auto
    then have ok: "k < NM_MAX_TASKS" "task_used_slot (task_table ?s1 ! k)"
      using sched_pick_next_ok [of sc ?s1 k sc1] n s1(2) by auto
    have "s' = hand_over cur k ?s1" using assms(2) n Some k by (auto simp: sched_tick_def task_current_def Let_def)
    then show ?thesis using hand_over_inv [OF s1 ok k(2)] by simp
  qed
qed

text \<open>The two outcomes of a yield.\<close>

lemma sched_yield_cases:
  assumes "proc_inv s" "current_task s = Some cur" "sched_yield sc s c m = (sc', s', c', m')"
  obtains (stay) "s' = s" "c' = c" "m' = m" "fst (sched_pick_next sc s) = None \<or> fst (sched_pick_next sc s) = Some cur"
  | (switch) n old where "n < NM_MAX_TASKS" "n \<noteq> cur" "task_used_slot (task_table s ! n)"
      "t_saved_rsp (task_table s ! n) \<noteq> 0"
      "nm_context_switch (t_saved_rsp (task_table s ! n)) c m = (old, c', m')"
      "s' = upd_task cur (\<lambda>t. t\<lparr>t_saved_rsp := old\<rparr>) (hand_over cur n s)" "fst (sched_pick_next sc s) = Some n"
proof -
  obtain r sc1 where p: "sched_pick_next sc s = (r, sc1)" by (metis prod.exhaust)
  show thesis
  proof (cases "r = None \<or> r = Some cur")
    case True
    then have "s' = s" "c' = c" "m' = m"
      using assms(2,3) p by (auto simp: sched_yield_def task_current_def)
    then show thesis using stay True p by simp
  next
    case False
    then obtain n where n: "r = Some n" "n \<noteq> cur" by auto
    have ok: "n < NM_MAX_TASKS" "task_used_slot (task_table s ! n)" "t_saved_rsp (task_table s ! n) \<noteq> 0"
      using sched_pick_next_ok [of sc s n sc1] p n assms(2) by auto
    have rsp: "t_saved_rsp (task_table (hand_over cur n s) ! n) = t_saved_rsp (task_table s ! n)"
      using ok(1) n(2) proc_invD(1,5) [OF assms(1)] assms(2) by (simp add: hand_over_nth)
    obtain old c1 m1 where sw: "nm_context_switch (t_saved_rsp (task_table s ! n)) c m = (old, c1, m1)" by (metis prod_cases3)
    have "s' = upd_task cur (\<lambda>t. t\<lparr>t_saved_rsp := old\<rparr>) (hand_over cur n s) \<and> c' = c1 \<and> m' = m1"
      using assms(2,3) p n ok(3) sw rsp by (simp add: sched_yield_def task_current_def Let_def)
    then show thesis using switch [OF ok(1) n(2) ok(2,3)] sw p n by simp
  qed
qed

lemma sched_yield_inv [nm_inv]:
  assumes "sched_inv s" "sched_yield sc s c m = (sc', s', c', m')"
  shows "sched_inv s'"
proof (cases "current_task s")
  case None
  then show ?thesis using assms by (simp add: sched_yield_def task_current_def)
next
  case (Some cur)
  have inv: "proc_inv s" using assms(1) by (simp add: sched_inv_def)
  show ?thesis
    using inv Some assms(2)
  proof (cases rule: sched_yield_cases)
    case stay
    then show ?thesis using assms(1) by simp
  next
    case (switch n old)
    have h: "sched_inv (hand_over cur n s)"
      using hand_over_inv [OF assms(1) Some switch(1,3,2)] .
    have c: "cur < NM_MAX_TASKS" using proc_invD(5) [OF inv Some] .
    have len: "length (task_table s) = NM_MAX_TASKS" using proc_invD(1) [OF inv] .
    have u: "task_used_slot (task_table (hand_over cur n s) ! cur)"
      using c len switch(1,2) by (simp add: hand_over_nth task_used_slot_def)
    have "proc_inv s'"
      unfolding switch(6) using h u
      by (intro proc_inv_rewrite [OF _ c u]) (simp_all add: sched_inv_def task_used_slot_def)
    moreover have "running_ok s'"
      using h c len switch(2) unfolding switch(6) sched_inv_def running_ok_def
      by (auto simp: nth_list_update split: if_splits)
    ultimately show ?thesis by (simp add: sched_inv_def)
  qed
qed

section \<open>The life of the process table\<close>

text \<open>
  Everything the kernel does to the process table and the scheduler after boot, in any order: \<open>k\<close> is
  whatever address the heap returns for a stack. Creating a task needs a pid that fits an \<^verbatim>\<open>int32_t\<close>.
\<close>

inductive proc_step :: "sched_state \<times> proc_state \<Rightarrow> sched_state \<times> proc_state \<Rightarrow> bool" where
  create: "next_pid s < 2 ^ 31 - 1 \<Longrightarrow>
     task_create_kernel_thread (\<lambda>_ _. (k, ())) (\<lambda>_ _. ()) tr name entry arg s () m = (r, s', (), m') \<Longrightarrow>
     proc_step (sc, s) (sc, s')"
| fork: "next_pid s < 2 ^ 31 - 1 \<Longrightarrow>
     proc_fork_current (\<lambda>_ _. (k, ())) (\<lambda>_ _. ()) s () = (r, s', ()) \<Longrightarrow> proc_step (sc, s) (sc, s')"
| exec: "proc_exec_current mem name entry argv envp s = (r, s') \<Longrightarrow> proc_step (sc, s) (sc, s')"
| exit: "proc_step (sc, s) (sc, proc_exit_current code s)"
| wait: "proc_waitpid pid s = (r, st, s') \<Longrightarrow> proc_step (sc, s) (sc, s')"
| tick: "sched_tick ticks sc s = (sc', s') \<Longrightarrow> proc_step (sc, s) (sc', s')"
| yield: "sched_yield sc s c m = (sc', s', c', m') \<Longrightarrow> proc_step (sc, s) (sc', s')"
| policy: "proc_step (sc, s) (sched_set_policy pol sc, s)"

inductive proc_reachable :: "sched_state \<times> proc_state \<Rightarrow> bool" where
  boot: "length (task_table s) = NM_MAX_TASKS \<Longrightarrow> proc_reachable (sched_init pol sc, proc_init s)"
| step: "proc_reachable x \<Longrightarrow> proc_step x y \<Longrightarrow> proc_reachable y"

lemma running_ok_fill:
  "running_ok s \<Longrightarrow> length (task_table s) = NM_MAX_TASKS \<Longrightarrow> t_state t \<noteq> NM_TASK_RUNNING \<Longrightarrow> running_ok (fill_slot i t s)"
  by (auto simp: running_ok_def nth_update_idx split: if_splits)

lemma running_ok_upd:
  "running_ok s \<Longrightarrow> length (task_table s) = NM_MAX_TASKS \<Longrightarrow>
   t_state (f (task_table s ! i)) \<in> {NM_TASK_UNUSED, NM_TASK_ZOMBIE, t_state (task_table s ! i)} \<Longrightarrow>
   running_ok (upd_task i f s)"
  by (auto simp: running_ok_def nth_update_idx split: if_splits)

lemma create_running_ok:
  assumes "running_ok s" "length (task_table s) = NM_MAX_TASKS"
    "task_create_kernel_thread kmalloc kfree tr name entry arg s h m = (r, s', h', m')"
  shows "running_ok s'"
  using assms
  by (auto simp: task_create_kernel_thread_def Let_def kthread_task_def intro!: running_ok_fill
      split: prod.splits if_splits option.splits)

lemma fork_running_ok:
  assumes "running_ok s" "length (task_table s) = NM_MAX_TASKS" "proc_fork_current kmalloc kfree s h = (r, s', h')"
  shows "running_ok s'"
  using assms
  by (auto simp: proc_fork_current_def fork_commit_def Let_def fork_task_def intro!: running_ok_fill
      split: prod.splits if_splits option.splits)

lemma waitpid_running_ok:
  assumes "running_ok s" "length (task_table s) = NM_MAX_TASKS" "proc_waitpid pid s = (r, st, s')"
  shows "running_ok s'"
proof -
  have k: "running_ok (u\<lparr>task_used := n\<rparr>) = running_ok u" for u n by (simp add: running_ok_def)
  show ?thesis
    using assms by (auto simp: proc_waitpid_def Let_def k intro!: running_ok_upd split: option.splits)
qed

lemma proc_step_inv: "proc_step x y \<Longrightarrow> sched_inv (snd x) \<Longrightarrow> sched_inv (snd y)"
proof (induction rule: proc_step.induct)
  case (create s k tr name entry arg m r s' m' sc)
  then show ?case
    using task_create_inv [OF _ create(1,2)] create_running_ok [OF _ _ create(2)] by (simp add: sched_inv_def proc_invD(1))
next
  case (fork s k r s' sc)
  then show ?case
    using proc_fork_inv [OF _ fork(1,2)] fork_running_ok [OF _ _ fork(2)] by (simp add: sched_inv_def proc_invD(1))
next
  case (exec mem name entry argv envp s r s' sc)
  then have "proc_inv s'" using proc_exec_inv [of s mem name entry argv envp] by (simp add: sched_inv_def)
  moreover have "running_ok s'"
    using exec by (auto simp: sched_inv_def proc_invD(1) proc_exec_current_def intro!: running_ok_upd split: option.splits if_splits)
  ultimately show ?case by (simp add: sched_inv_def)
next
  case (exit sc s code)
  then have "running_ok (proc_exit_current code s)"
    by (auto simp: sched_inv_def proc_invD(1) proc_exit_current_def intro!: running_ok_upd split: option.splits)
  then show ?case using exit proc_exit_inv by (simp add: sched_inv_def)
next
  case (wait pid s r st s' sc)
  then show ?case
    using proc_waitpid_inv [OF _ wait(1)] waitpid_running_ok [OF _ _ wait(1)] by (simp add: sched_inv_def proc_invD(1))
next
  case (tick ticks sc s sc' s')
  then show ?case using sched_tick_inv by simp
next
  case (yield sc s c m sc' s' c' m')
  then show ?case using sched_yield_inv by simp
next
  case (policy sc s pol)
  then show ?case by simp
qed

lemma proc_step_current: "proc_step x y \<Longrightarrow> current_task (snd x) \<noteq> None \<Longrightarrow> current_task (snd y) \<noteq> None"
proof (induction rule: proc_step.induct)
  case (tick ticks sc s sc' s')
  then show ?case
    by (auto simp: sched_tick_def Let_def sched_on_run_def split: option.splits prod.splits if_splits)
next
  case (yield sc s c m sc' s' c' m')
  then show ?case
    by (auto simp: sched_yield_def Let_def split: option.splits prod.splits if_splits)
qed (auto simp: task_create_kernel_thread_def proc_fork_current_def fork_commit_def proc_exec_current_def
    proc_exit_current_def proc_waitpid_def Let_def split: option.splits prod.splits if_splits)

lemma proc_reachable_current: "proc_reachable x \<Longrightarrow> current_task (snd x) \<noteq> None"
proof (induction rule: proc_reachable.induct)
  case (boot s pol sc)
  then show ?case by (simp add: proc_init_inv(2))
next
  case (step x y)
  then show ?case using proc_step_current by blast
qed

lemma proc_init_running_ok:
  assumes "length (task_table s) = NM_MAX_TASKS"
  shows "running_ok (proc_init s)"
proof -
  have "i = 0" if "i < NM_MAX_TASKS" "t_state (task_table (proc_init s) ! i) = NM_TASK_RUNNING" for i
    using proc_init_inv(6) [OF assms, of i] that by (cases "i = 0") (auto simp: task_used_slot_def)
  then show ?thesis using proc_init_inv(2) [OF assms] by (auto simp: running_ok_def)
qed

lemma proc_reachable_inv: "proc_reachable x \<Longrightarrow> sched_inv (snd x)"
proof (induction rule: proc_reachable.induct)
  case (boot s pol sc)
  then show ?case using proc_init_inv(1) proc_init_running_ok by (simp add: sched_inv_def)
next
  case (step x y)
  then show ?case using proc_step_inv by blast
qed

lemma count_if_card: "count_if P xs = card {i. i < length xs \<and> P (xs ! i)}"
  by (simp add: count_if_def length_filter_conv_card)

section \<open>Properties\<close>

text \<open>
  C4: after any sequence of thread creations, forks, execs, exits, waits, ticks, yields and policy
  changes from boot, the process table is consistent: the task count is the number of slots in use,
  pids of live tasks are positive, different and younger than their parents', the current task is a
  slot in use, and no task but the current one is marked running.
\<close>
theorem process_table_consistent:
  assumes "proc_reachable (sc, s)"
  shows "task_count s = card {i. i < NM_MAX_TASKS \<and> task_used_slot (task_table s ! i)} \<and>
    inj_on (\<lambda>i. t_pid (task_table s ! i)) {i. i < NM_MAX_TASKS \<and> task_used_slot (task_table s ! i)} \<and>
    (\<forall>i<NM_MAX_TASKS. task_used_slot (task_table s ! i) \<longrightarrow>
       0 \<le> t_ppid (task_table s ! i) \<and> t_ppid (task_table s ! i) < t_pid (task_table s ! i)) \<and>
    (\<exists>c<NM_MAX_TASKS. task_current s = Some c \<and> task_used_slot (task_table s ! c)) \<and>
    (\<forall>i<NM_MAX_TASKS. t_state (task_table s ! i) = NM_TASK_RUNNING \<longrightarrow> task_current s = Some i)"
proof -
  have inv: "proc_inv s" "running_ok s" using proc_reachable_inv [OF assms] by (simp_all add: sched_inv_def)
  note i = proc_invD [OF inv(1)]
  obtain c where c: "current_task s = Some c" using proc_reachable_current [OF assms] by auto
  have "task_count s = card {i. i < NM_MAX_TASKS \<and> task_used_slot (task_table s ! i)}"
    using i(1,2) by (simp add: task_count_def count_if_card)
  moreover have "inj_on (\<lambda>i. t_pid (task_table s ! i)) {i. i < NM_MAX_TASKS \<and> task_used_slot (task_table s ! i)}"
    using i(4) by (auto simp: inj_on_def)
  moreover have "\<forall>i<NM_MAX_TASKS. task_used_slot (task_table s ! i) \<longrightarrow>
      0 \<le> t_ppid (task_table s ! i) \<and> t_ppid (task_table s ! i) < t_pid (task_table s ! i)"
    using i(3) by (auto simp: task_ok_def)
  moreover have "\<exists>c<NM_MAX_TASKS. task_current s = Some c \<and> task_used_slot (task_table s ! c)"
    using i(5,6) [OF c] c by (auto simp: task_current_def)
  ultimately show ?thesis using inv(2) unfolding running_ok_def task_current_def by blast
qed

lemma boot_reachable: "proc_reachable (sched_init NM_SCHED_RR \<lparr>global_policy = NM_SCHED_CFS, rr_cursor = 5\<rparr>, demo_proc)"
  unfolding demo_proc_def by (rule proc_reachable.boot) (simp add: boot_proc_def)

theorem process_table_consistent_witness:
  "task_count (proc_exit_current 3 demo_proc) =
     card {i. i < NM_MAX_TASKS \<and> task_used_slot (task_table (proc_exit_current 3 demo_proc) ! i)}"
  using process_table_consistent [OF proc_reachable.step [OF boot_reachable proc_step.exit [where code = 3]]] by blast

text \<open>
  C18: round robin starves nobody. From any cursor position, a runnable task with a stack to switch
  to is picked within 128 consecutive picks, however many other tasks are eligible.
\<close>
theorem pick_rr_no_starvation:
  assumes "rr_cursor sc < 128" "rr_eligible s i"
  shows "\<exists>k<128. fst (pick_rr ((rr_next s ^^ k) sc) s) = Some i"
proof -
  have "rr_ahead i sc < 128" by (simp add: rr_ahead_def)
  then show ?thesis using rr_reaches [OF assms(2,1) refl] by (meson le_less_trans)
qed

theorem pick_rr_no_starvation_witness:
  "\<exists>k<128. fst (pick_rr ((rr_next demo_proc ^^ k) \<lparr>global_policy = NM_SCHED_RR, rr_cursor = 7\<rparr>) demo_proc) = Some 0"
proof -
  have "t_state (task_table demo_proc ! 0) = NM_TASK_RUNNING"
    unfolding demo_proc_def by (rule proc_init_inv(5)) (simp add: boot_proc_def)
  then have "rr_eligible demo_proc 0"
    by (simp add: rr_eligible_def task_by_index_def NM_MAX_TASKS_def switchable_def task_current_def demo_proc(2))
  then show ?thesis by (intro pick_rr_no_starvation) simp_all
qed

text \<open>
  the fair policy picks a runnable, switchable task of smallest virtual run time; only when
  there is none does it consider tasks marked running, and only when there is none of these either
  it keeps the current task.
\<close>
theorem pick_cfs_minimal:
  "case pick_cfs s of
     Some b \<Rightarrow>
       (if \<exists>i. cfs_candidate s NM_TASK_RUNNABLE i
        then cfs_candidate s NM_TASK_RUNNABLE b \<and> (\<forall>i. cfs_candidate s NM_TASK_RUNNABLE i \<longrightarrow> vruntime_of s b \<le> vruntime_of s i)
        else if \<exists>i. cfs_candidate s NM_TASK_RUNNING i
        then cfs_candidate s NM_TASK_RUNNING b \<and> (\<forall>i. cfs_candidate s NM_TASK_RUNNING i \<longrightarrow> vruntime_of s b \<le> vruntime_of s i)
        else task_current s = Some b)
   | None \<Rightarrow> task_current s = None \<and> (\<forall>i. \<not> cfs_candidate s NM_TASK_RUNNABLE i) \<and> (\<forall>i. \<not> cfs_candidate s NM_TASK_RUNNING i)"
  by (rule pick_cfs_cases [of s]) (auto simp: task_current_def split: option.splits)

lemma demo_proc_candidates: "cfs_candidate demo_proc st i \<and> st \<noteq> NM_TASK_UNUSED \<longleftrightarrow> i = 0 \<and> st = NM_TASK_RUNNING"
proof -
  have len: "length (task_table boot_proc) = NM_MAX_TASKS" by (simp add: boot_proc_def)
  show ?thesis
    using proc_init_inv(5) [OF len] proc_init_inv(6) [OF len, of i]
    by (cases "i = 0") (auto simp: demo_proc_def [symmetric] cfs_candidate_def NM_MAX_TASKS_def task_used_slot_def
        switchable_def task_current_def demo_proc(2))
qed

theorem pick_cfs_minimal_witness: "pick_cfs demo_proc = Some 0"
proof -
  have nr: "\<not> (\<exists>i. cfs_candidate demo_proc NM_TASK_RUNNABLE i)" and r: "\<exists>i. cfs_candidate demo_proc NM_TASK_RUNNING i"
    using demo_proc_candidates [of NM_TASK_RUNNABLE] demo_proc_candidates [of NM_TASK_RUNNING] by auto
  show ?thesis
  proof (cases "pick_cfs demo_proc")
    case None
    then show ?thesis using pick_cfs_minimal [of demo_proc] r by auto
  next
    case (Some b)
    then have "cfs_candidate demo_proc NM_TASK_RUNNING b" using pick_cfs_minimal [of demo_proc] nr r by simp
    then show ?thesis using Some demo_proc_candidates [of NM_TASK_RUNNING b] by simp
  qed
qed

text \<open>
  C13: a yield hands the processor over completely. The scheduler's choice decides: when it picks no task or the
  caller itself, nothing but the scheduler's cursor changes; when it picks another task, that task has a
  saved context, it becomes current and running, the registers are the ones saved on its stack, the
  caller becomes runnable with its six callee-saved registers and its return address in the 56 bytes
  from 48 below its stack pointer on, nothing else in memory changes, and every other task is as before.
\<close>
theorem sched_yield_hands_over:
  assumes "proc_inv s" "current_task s = Some cur" "sched_yield sc s c m = (sc', s', c', m')"
  shows "sc' = snd (sched_pick_next sc s) \<and>
    (if fst (sched_pick_next sc s) \<in> {None, Some cur} then s' = s \<and> c' = c \<and> m' = m
     else \<exists>n<NM_MAX_TASKS. fst (sched_pick_next sc s) = Some n \<and> n \<noteq> cur \<and> t_saved_rsp (task_table s ! n) \<noteq> 0 \<and>
       task_current s' = Some n \<and> c' = cpu_restore (t_saved_rsp (task_table s ! n)) m' c \<and>
       task_table s' ! n = (task_table s ! n)\<lparr>t_state := NM_TASK_RUNNING\<rparr> \<and>
       task_table s' ! cur = (task_table s ! cur)\<lparr>t_state := NM_TASK_RUNNABLE, t_saved_rsp := cpu_rsp c - 48\<rparr> \<and>
       map (\<lambda>k. m' (cpu_rsp c - k)) [48, 40, 32, 24, 16, 8, 0] =
         [cpu_r15 c, cpu_r14 c, cpu_r13 c, cpu_r12 c, cpu_rbx c, cpu_rbp c, m (cpu_rsp c)] \<and>
       (\<forall>a. a \<notin> saved_area c \<longrightarrow> m' a = m a) \<and>
       (\<forall>i<NM_MAX_TASKS. i \<noteq> cur \<longrightarrow> i \<noteq> n \<longrightarrow> task_table s' ! i = task_table s ! i))"
proof -
  have sc: "sc' = snd (sched_pick_next sc s)"
    using assms(2,3) by (auto simp: sched_yield_def task_current_def Let_def split: prod.splits option.splits if_splits)
  show ?thesis
    using assms
  proof (cases rule: sched_yield_cases)
    case stay
    then show ?thesis using sc by auto
  next
    case (switch n old)
    have c: "cur < NM_MAX_TASKS" and len: "length (task_table s) = NM_MAX_TASKS"
      using proc_invD(1,5) [OF assms(1)] assms(2) by simp_all
    have sv: "cpu_save c m = (old, m')" and c': "c' = cpu_restore (t_saved_rsp (task_table s ! n)) m' c"
      using switch(5) by (auto simp: nm_context_switch_def split: prod.splits)
    note w = cpu_save_words [OF sv]
    have old: "old = cpu_rsp c - 48" using w(1) by simp
    have tab: "task_table s' ! i = (if i = cur then (task_table s ! cur)\<lparr>t_state := NM_TASK_RUNNABLE, t_saved_rsp := old\<rparr>
        else if i = n then (task_table s ! n)\<lparr>t_state := NM_TASK_RUNNING\<rparr> else task_table s ! i)" if "i < NM_MAX_TASKS" for i
      using switch(1,2) c len that by (simp add: switch(6) nth_update_idx hand_over_nth)
    have "map (\<lambda>k. m' (cpu_rsp c - k)) [48, 40, 32, 24, 16, 8, 0] =
        [cpu_r15 c, cpu_r14 c, cpu_r13 c, cpu_r12 c, cpu_rbx c, cpu_rbp c, m (cpu_rsp c)]" using w(2-8) by (simp add: w(1) add.commute)
    moreover have "\<forall>a. a \<notin> saved_area c \<longrightarrow> m' a = m a" using w(9) by blast
    moreover have "task_current s' = Some n" by (simp add: switch(6) task_current_def)
    moreover have "\<not> fst (sched_pick_next sc s) \<in> {None, Some cur}" using switch(2,7) by simp
    ultimately show ?thesis
      using sc switch(1,2,4,7) c' old tab [OF c] tab [OF switch(1)] tab by auto
  qed
qed

text \<open>The boot state with one more kernel thread.\<close>

definition demo_two :: proc_state where
  "demo_two = fill_slot 1 (kthread_task demo_proc None 0x6000 0x302010 0x301FC8 (task_table demo_proc ! 1)) demo_proc"

lemma demo_two:
  "proc_inv demo_two" "current_task demo_two = Some 0" "t_saved_rsp (task_table demo_two ! 1) = 0x301FC8"
  "t_state (task_table demo_two ! 1) = NM_TASK_RUNNABLE" "t_ppid (task_table demo_two ! 1) = 1"
  "task_table demo_two ! 0 = task_table demo_proc ! 0"
proof -
  have len: "length (task_table demo_proc) = NM_MAX_TASKS" using proc_invD(1) [OF demo_proc(1)] .
  note slot = alloc_task_slot_SomeD [OF demo_proc(1,6)]
  show "proc_inv demo_two"
    unfolding demo_two_def
    by (rule proc_inv_claim [OF demo_proc(1) slot]) (simp_all add: kthread_task_def demo_proc(2,4,5) task_used_slot_def)
  show "current_task demo_two = Some 0" "t_saved_rsp (task_table demo_two ! 1) = 0x301FC8"
    "t_state (task_table demo_two ! 1) = NM_TASK_RUNNABLE" "t_ppid (task_table demo_two ! 1) = 1"
    "task_table demo_two ! 0 = task_table demo_proc ! 0"
    using len slot(1) by (simp_all add: demo_two_def demo_proc(2,5) kthread_task_def)
qed

lemma demo_two_pick: "sched_pick_next \<lparr>global_policy = NM_SCHED_RR, rr_cursor = 1\<rparr> (demo_two\<lparr>current_task := c\<rparr>) =
  (Some 1, \<lparr>global_policy = NM_SCHED_RR, rr_cursor = 2\<rparr>)"
proof -
  have "rr_eligible (demo_two\<lparr>current_task := c\<rparr>) 1"
    using demo_two(3,4) by (simp add: rr_eligible_def task_by_index_def NM_MAX_TASKS_def switchable_def)
  then have "first_idx (\<lambda>probe. rr_eligible (demo_two\<lparr>current_task := c\<rparr>) ((1 + probe) mod 128)) [0..<128] = Some 0"
    by (auto simp: first_idx_Some_iff)
  then show ?thesis by (simp add: sched_pick_next_def pick_rr_def)
qed

theorem sched_yield_hands_over_witness:
  "\<exists>s' c' m'. sched_yield \<lparr>global_policy = NM_SCHED_RR, rr_cursor = 1\<rparr> demo_two demo_cpu (\<lambda>_. 0) =
       (\<lparr>global_policy = NM_SCHED_RR, rr_cursor = 2\<rparr>, s', c', m') \<and>
     task_current s' = Some 1 \<and> cpu_rsp c' = 0x302000 \<and> t_state (task_table s' ! 0) = NM_TASK_RUNNABLE \<and>
     m' (cpu_rsp demo_cpu - 16) = cpu_rbx demo_cpu"
proof -
  let ?sc = "\<lparr>global_policy = NM_SCHED_RR, rr_cursor = 1\<rparr>"
  have p: "sched_pick_next ?sc demo_two = (Some 1, \<lparr>global_policy = NM_SCHED_RR, rr_cursor = 2\<rparr>)"
    using demo_two_pick [of "Some 0"] demo_two(2) by (metis proc_state.surjective proc_state.update_convs(4) old.unit.exhaust)
  obtain sc' s' c' m' where y: "sched_yield ?sc demo_two demo_cpu (\<lambda>_. 0) = (sc', s', c', m')"
    by (metis prod_cases4)
  have "c' = cpu_restore 0x301FC8 m' demo_cpu" if "c' = cpu_restore (t_saved_rsp (task_table demo_two ! 1)) m' demo_cpu"
    using that demo_two(3) by simp
  then show ?thesis using sched_yield_hands_over [OF demo_two(1,2) y] p y by (auto simp: cpu_restore_def)
qed

text \<open>
  a task that has exited does not stay dead. When a zombie is still the current task and yields
  to another one, \<^verbatim>\<open>sched_yield\<close> overwrites its zombie state with runnable: it will be scheduled
  again, and no \<^verbatim>\<open>proc_waitpid\<close> can reap it.
\<close>
theorem sched_yield_revives_zombie:
  assumes "proc_inv s" "current_task s = Some cur" "t_state (task_table s ! cur) = NM_TASK_ZOMBIE"
    and "fst (sched_pick_next sc s) = Some n" "n \<noteq> cur" "sched_yield sc s c m = (sc', s', c', m')"
  shows "t_state (task_table s' ! cur) = NM_TASK_RUNNABLE \<and> \<not> wait_match ppid pid (task_table s' ! cur)"
proof -
  have "current_task s' = Some n"
    using assms(2,4-6)
    by (cases "sched_pick_next sc s") (auto simp: sched_yield_def task_current_def Let_def split: prod.splits if_splits)
  then have ne: "s' \<noteq> s" using assms(2,5) by auto
  show ?thesis
    using assms(1,2,6)
  proof (cases rule: sched_yield_cases)
    case stay
    then show ?thesis using ne by simp
  next
    case (switch k old)
    have "cur < length (task_table s)" "k < length (task_table s)"
      using proc_invD(1,5) [OF assms(1)] assms(2) switch(1) by simp_all
    then have "t_state (task_table s' ! cur) = NM_TASK_RUNNABLE"
      using switch(2) by (simp add: switch(6) hand_over_nth)
    then show ?thesis by (simp add: wait_match_def)
  qed
qed

theorem sched_yield_revives_zombie_witness:
  "\<exists>sc' s' c' m'. sched_yield \<lparr>global_policy = NM_SCHED_RR, rr_cursor = 1\<rparr> (proc_exit_current 9 demo_two) demo_cpu (\<lambda>_. 0) =
     (sc', s', c', m') \<and> t_state (task_table (proc_exit_current 9 demo_two) ! 0) = NM_TASK_ZOMBIE \<and>
     t_state (task_table s' ! 0) = NM_TASK_RUNNABLE"
proof -
  let ?s = "proc_exit_current 9 demo_two" and ?sc = "\<lparr>global_policy = NM_SCHED_RR, rr_cursor = 1\<rparr>"
  have len: "length (task_table demo_two) = NM_MAX_TASKS" using proc_invD(1) [OF demo_two(1)] .
  have z: "t_state (task_table ?s ! 0) = NM_TASK_ZOMBIE" "current_task ?s = Some 0" "task_table ?s ! 1 = task_table demo_two ! 1"
    using len by (simp_all add: proc_exit_current_def demo_two(2) NM_MAX_TASKS_def)
  have "rr_eligible ?s 1"
    using demo_two(3,4) z(3) by (simp add: rr_eligible_def task_by_index_def NM_MAX_TASKS_def switchable_def)
  then have "first_idx (\<lambda>probe. rr_eligible ?s ((1 + probe) mod 128)) [0..<128] = Some 0"
    by (auto simp: first_idx_Some_iff)
  then have p: "fst (sched_pick_next ?sc ?s) = Some 1" by (simp add: sched_pick_next_def pick_rr_def)
  obtain sc' s' c' m' where y: "sched_yield ?sc ?s demo_cpu (\<lambda>_. 0) = (sc', s', c', m')" by (metis prod_cases4)
  then show ?thesis
    using sched_yield_revives_zombie [OF proc_exit_inv [OF demo_two(1)] z(2,1) p _ y] z(1) by auto
qed

text \<open>
  time is charged fairly. A run of \<open>ticks\<close> ticks adds \<open>1024 * ticks\<close> divided by the task's weight to
  its virtual run time; the weight is between 1 and 40, so the division is always defined, and a
  task of numerically lower priority (more important) is never charged more for the same run.
\<close>
theorem charge_cfs_fair:
  assumes "unat ticks * 1024 < 2 ^ 64"
    and "unat (sp_vruntime (t_sched t)) + unat ticks * 1024 < 2 ^ 64" "unat (sp_vruntime (t_sched t')) + unat ticks * 1024 < 2 ^ 64"
    and "sp_priority (t_sched t) \<le> sp_priority (t_sched t')"
  shows "unat (sp_vruntime (t_sched (charge_cfs ticks t))) =
      unat (sp_vruntime (t_sched t)) + unat ticks * 1024 div (40 - min 39 (unat (sp_priority (t_sched t)))) \<and>
    unat (sp_vruntime (t_sched (charge_cfs ticks t))) - unat (sp_vruntime (t_sched t)) \<le>
      unat (sp_vruntime (t_sched (charge_cfs ticks t'))) - unat (sp_vruntime (t_sched t'))"
proof -
  have w: "unat (priority_weight p) = 40 - min 39 (unat p)" for p
    unfolding priority_weight_def Let_def
    by (simp add: unat_sub word_le_nat_alt word_less_nat_alt min_def)
  have ch: "unat (sp_vruntime (t_sched (charge_cfs ticks u))) =
      unat (sp_vruntime (t_sched u)) + unat ticks * 1024 div (40 - min 39 (unat (sp_priority (t_sched u))))"
    if "unat (sp_vruntime (t_sched u)) + unat ticks * 1024 < 2 ^ 64" for u
  proof -
    have d: "unat ((ticks * 1024) div ucast (priority_weight (sp_priority (t_sched u)))) =
        unat ticks * 1024 div (40 - min 39 (unat (sp_priority (t_sched u))))"
      using assms(1) by (simp add: unat_div unat_mult64 w unat_ucast_32_64)
    have "unat ticks * 1024 div (40 - min 39 (unat (sp_priority (t_sched u)))) \<le> unat ticks * 1024" by (rule div_le_dividend)
    then have "unat (sp_vruntime (t_sched u)) +
        unat ((ticks * 1024) div ucast (priority_weight (sp_priority (t_sched u)))) < 2 ^ 64"
      unfolding d using that by linarith
    then show ?thesis using unat_add64 d by (simp add: charge_cfs_def Let_def)
  qed
  have "unat ticks * 1024 div (40 - min 39 (unat (sp_priority (t_sched t)))) \<le>
      unat ticks * 1024 div (40 - min 39 (unat (sp_priority (t_sched t'))))"
    using assms(4) by (intro div_le_mono2) (auto simp: word_le_nat_alt)
  then show ?thesis using ch [OF assms(2)] ch [OF assms(3)] by simp
qed

theorem charge_cfs_fair_witness:
  "unat (sp_vruntime (t_sched (charge_cfs 10 (blank_task\<lparr>t_sched := init_sched\<rparr>)))) = 512"
  using charge_cfs_fair [of 10 "blank_task\<lparr>t_sched := init_sched\<rparr>" "blank_task\<lparr>t_sched := init_sched\<rparr>"]
  by (simp add: init_sched_def)

end
