(* ===== verification/Fd.thy ===== *)
theory Fd
  imports Task
begin

text \<open>
  Descriptors of \<^verbatim>\<open>kernel/proc/fd.c\<close>: the table of reference-counted descriptor objects, the pipes, and
  the operations on a task's descriptor table. An operation takes the task itself (the code's check
  for a null task pointer is the caller's case distinction) and returns it updated. A buffer handed
  to a write is the list of its bytes, or \<open>None\<close> for a null pointer; a read takes whether the buffer
  is non-null and returns the bytes it stores. The file system below is an argument, the record
  \<open>fs_if\<close> of the three operations that this file calls, over its own state. Storing through the file
  system may have no defined result (\<open>None\<close>): the descriptor layer passes that on. The descriptor lock
  brackets each operation.
\<close>

section \<open>Data\<close>

definition NM_PIPE_MAX :: nat where "NM_PIPE_MAX = 16"
definition NM_PIPE_BUF :: nat where "NM_PIPE_BUF = 512"
definition NM_FDOBJ_MAX :: nat where "NM_FDOBJ_MAX = 128"

datatype nm_fdobj_kind = NM_FDOBJ_NONE | NM_FDOBJ_FS | NM_FDOBJ_PIPE_R | NM_FDOBJ_PIPE_W

record nm_pipe =
  pp_used :: bool
  pp_buf :: "u8 list"
  pp_read_pos :: u64
  pp_write_pos :: u64
  pp_readers :: u32
  pp_writers :: u32

record nm_fdobj =
  fo_used :: bool
  fo_refcnt :: u32
  fo_kind :: nm_fdobj_kind
  fo_fs_fd :: int
  fo_pipe_id :: int

record fd_state =
  pipe_table :: "nm_pipe list"
  fdobj_table :: "nm_fdobj list"

record 'v fs_if =
  if_read :: "int \<Rightarrow> u64 \<Rightarrow> 'v \<Rightarrow> int \<times> u8 list \<times> 'v"
  if_write :: "int \<Rightarrow> u8 list \<Rightarrow> 'v \<Rightarrow> (int \<times> 'v) option"
  if_close :: "int \<Rightarrow> 'v \<Rightarrow> int \<times> 'v"

section \<open>Objects and pipes\<close>

definition alloc_task_fd :: "nm_task \<Rightarrow> int" where
  "alloc_task_fd task =
     (case first_idx (\<lambda>x. x = - 1) (t_fd_table task) of Some i \<Rightarrow> int i | None \<Rightarrow> NM_ERR NM_ENOMEM)"

definition fresh_fdobj :: "nm_fdobj \<Rightarrow> nm_fdobj" where
  "fresh_fdobj obj = obj\<lparr>fo_used := True, fo_refcnt := 0, fo_kind := NM_FDOBJ_NONE, fo_fs_fd := - 1, fo_pipe_id := - 1\<rparr>"

definition alloc_fdobj :: "nm_fdobj list \<Rightarrow> (nat \<times> nm_fdobj list) option" where
  "alloc_fdobj table =
     (case first_idx (\<lambda>obj. \<not> fo_used obj) table of
        Some i \<Rightarrow> Some (i, table[i := fresh_fdobj (table ! i)]) | None \<Rightarrow> None)"

definition fdobj_get :: "int \<Rightarrow> fd_state \<Rightarrow> nat option" where
  "fdobj_get obj_id s =
     (if obj_id < 0 \<or> obj_id \<ge> int NM_FDOBJ_MAX then None
      else if \<not> fo_used (fdobj_table s ! nat obj_id) then None else Some (nat obj_id))"

definition upd_obj :: "nat \<Rightarrow> (nm_fdobj \<Rightarrow> nm_fdobj) \<Rightarrow> fd_state \<Rightarrow> fd_state" where
  "upd_obj i f s = s\<lparr>fdobj_table := (fdobj_table s)[i := f (fdobj_table s ! i)]\<rparr>"

definition upd_pipe :: "nat \<Rightarrow> (nm_pipe \<Rightarrow> nm_pipe) \<Rightarrow> fd_state \<Rightarrow> fd_state" where
  "upd_pipe i f s = s\<lparr>pipe_table := (pipe_table s)[i := f (pipe_table s ! i)]\<rparr>"

definition acquire_endpoint :: "nm_fdobj_kind \<Rightarrow> nm_pipe \<Rightarrow> nm_pipe" where
  "acquire_endpoint kind p =
     (if kind = NM_FDOBJ_PIPE_R then p\<lparr>pp_readers := pp_readers p + 1\<rparr>
      else if kind = NM_FDOBJ_PIPE_W then p\<lparr>pp_writers := pp_writers p + 1\<rparr> else p)"

definition pipe_on_endpoint_acquire :: "nm_fdobj_kind \<Rightarrow> int \<Rightarrow> fd_state \<Rightarrow> fd_state" where
  "pipe_on_endpoint_acquire kind pipe_id s =
     (if pipe_id < 0 \<or> pipe_id \<ge> int NM_PIPE_MAX then s
      else if \<not> pp_used (pipe_table s ! nat pipe_id) then s
      else upd_pipe (nat pipe_id) (acquire_endpoint kind) s)"

definition release_endpoint :: "nm_fdobj_kind \<Rightarrow> nm_pipe \<Rightarrow> nm_pipe" where
  "release_endpoint kind p =
     (let p = (if kind = NM_FDOBJ_PIPE_R
               then (if pp_readers p > 0 then p\<lparr>pp_readers := pp_readers p - 1\<rparr> else p)
               else if kind = NM_FDOBJ_PIPE_W
               then (if pp_writers p > 0 then p\<lparr>pp_writers := pp_writers p - 1\<rparr> else p)
               else p)
      in if pp_readers p = 0 \<and> pp_writers p = 0
         then p\<lparr>pp_used := False, pp_read_pos := 0, pp_write_pos := 0\<rparr> else p)"

definition pipe_on_endpoint_release :: "nm_fdobj_kind \<Rightarrow> int \<Rightarrow> fd_state \<Rightarrow> fd_state" where
  "pipe_on_endpoint_release kind pipe_id s =
     (if pipe_id < 0 \<or> pipe_id \<ge> int NM_PIPE_MAX then s
      else if \<not> pp_used (pipe_table s ! nat pipe_id) then s
      else upd_pipe (nat pipe_id) (release_endpoint kind) s)"

definition fdobj_retain :: "int \<Rightarrow> fd_state \<Rightarrow> int \<times> fd_state" where
  "fdobj_retain obj_id s =
     (case fdobj_get obj_id s of
        None \<Rightarrow> (NM_ERR NM_ENOENT, s)
      | Some i \<Rightarrow>
          let obj = fdobj_table s ! i;
              s = upd_obj i (\<lambda>obj. obj\<lparr>fo_refcnt := fo_refcnt obj + 1\<rparr>) s
          in (0, pipe_on_endpoint_acquire (fo_kind obj) (fo_pipe_id obj) s))"

definition fdobj_release :: "'v fs_if \<Rightarrow> int \<Rightarrow> fd_state \<Rightarrow> 'v \<Rightarrow> int \<times> fd_state \<times> 'v" where
  "fdobj_release fs obj_id s v =
     (case fdobj_get obj_id s of
        None \<Rightarrow> (NM_ERR NM_ENOENT, s, v)
      | Some i \<Rightarrow>
          let obj = fdobj_table s ! i in
          if fo_refcnt obj = 0 then (NM_ERR NM_ENOENT, s, v)
          else let s = pipe_on_endpoint_release (fo_kind obj) (fo_pipe_id obj) s;
                   s = upd_obj i (\<lambda>obj. obj\<lparr>fo_refcnt := fo_refcnt obj - 1\<rparr>) s
               in if fo_refcnt obj - 1 > 0 then (0, s, v)
                  else let v = (if fo_kind obj = NM_FDOBJ_FS \<and> fo_fs_fd obj \<ge> 0
                                then snd (if_close fs (fo_fs_fd obj) v) else v)
                       in (0, upd_obj i (\<lambda>obj. obj\<lparr>fo_used := False, fo_kind := NM_FDOBJ_NONE,
                                fo_fs_fd := - 1, fo_pipe_id := - 1\<rparr>) s, v))"

definition fd_in_range :: "int \<Rightarrow> bool" where
  "fd_in_range fd \<longleftrightarrow> \<not> (fd < 0 \<or> fd \<ge> int NM_MAX_FDS)"

definition task_fdobj_id :: "nm_task \<Rightarrow> int \<Rightarrow> int" where
  "task_fdobj_id task fd = (if \<not> fd_in_range fd then NM_ERR NM_EINVAL else t_fd_table task ! nat fd)"

definition set_fd :: "int \<Rightarrow> int \<Rightarrow> nm_task \<Rightarrow> nm_task" where
  "set_fd fd obj_id task = task\<lparr>t_fd_table := (t_fd_table task)[nat fd := obj_id]\<rparr>"

definition task_install_fdobj :: "nm_task \<Rightarrow> int \<Rightarrow> int \<Rightarrow> int \<times> nm_task" where
  "task_install_fdobj task fd obj_id =
     (if \<not> fd_in_range fd then (NM_ERR NM_EINVAL, task) else (0, set_fd fd obj_id task))"

definition fd_bit :: "int \<Rightarrow> u32" where
  "fd_bit fd = push_bit (nat fd) 1"

definition clear_cloexec :: "int \<Rightarrow> nm_task \<Rightarrow> nm_task" where
  "clear_cloexec fd task = task\<lparr>t_fd_cloexec_mask := t_fd_cloexec_mask task AND NOT (fd_bit fd)\<rparr>"

definition task_close_fd :: "'v fs_if \<Rightarrow> nm_task \<Rightarrow> int \<Rightarrow> fd_state \<Rightarrow> 'v \<Rightarrow> int \<times> nm_task \<times> fd_state \<times> 'v" where
  "task_close_fd fs task fd s v =
     (if \<not> fd_in_range fd then (NM_ERR NM_EINVAL, task, s, v)
      else let obj_id = t_fd_table task ! nat fd in
        if obj_id = - 1 then (NM_ERR NM_ENOENT, task, s, v)
        else let (r, s, v) = fdobj_release fs obj_id s v in
          if r \<noteq> 0 then (NM_ERR NM_ENOENT, task, s, v)
          else (0, clear_cloexec fd (set_fd fd (- 1) task), s, v))"

definition create_pipe_endpoint_obj :: "nm_fdobj_kind \<Rightarrow> int \<Rightarrow> fd_state \<Rightarrow> int \<times> fd_state" where
  "create_pipe_endpoint_obj kind pipe_id s =
     (case alloc_fdobj (fdobj_table s) of
        None \<Rightarrow> (NM_ERR NM_ENOMEM, s)
      | Some (i, table) \<Rightarrow>
          (int i, upd_obj i (\<lambda>obj. obj\<lparr>fo_kind := kind, fo_pipe_id := pipe_id, fo_refcnt := 1\<rparr>) (s\<lparr>fdobj_table := table\<rparr>)))"

definition create_fs_obj :: "int \<Rightarrow> fd_state \<Rightarrow> int \<times> fd_state" where
  "create_fs_obj fs_fd s =
     (case alloc_fdobj (fdobj_table s) of
        None \<Rightarrow> (NM_ERR NM_ENOMEM, s)
      | Some (i, table) \<Rightarrow>
          (int i, upd_obj i (\<lambda>obj. obj\<lparr>fo_kind := NM_FDOBJ_FS, fo_fs_fd := fs_fd, fo_refcnt := 1\<rparr>) (s\<lparr>fdobj_table := table\<rparr>)))"

text \<open>One iteration of the copy loops of a pipe.\<close>

definition pipe_get :: "nm_pipe \<Rightarrow> (u8 \<times> nm_pipe) option" where
  "pipe_get p =
     (if pp_read_pos p < pp_write_pos p
      then Some (pp_buf p ! unat (pp_read_pos p mod of_nat NM_PIPE_BUF), p\<lparr>pp_read_pos := pp_read_pos p + 1\<rparr>)
      else None)"

definition pipe_put :: "u8 \<Rightarrow> nm_pipe \<Rightarrow> nm_pipe option" where
  "pipe_put b p =
     (if pp_write_pos p - pp_read_pos p < of_nat NM_PIPE_BUF
      then Some (p\<lparr>pp_buf := (pp_buf p)[unat (pp_write_pos p mod of_nat NM_PIPE_BUF) := b],
                   pp_write_pos := pp_write_pos p + 1\<rparr>)
      else None)"

definition read_from_pipe :: "nm_pipe \<Rightarrow> u64 \<Rightarrow> int \<times> u8 list \<times> nm_pipe" where
  "read_from_pipe p len =
     (if \<not> pp_used p then (NM_ERR NM_EFAIL, [], p)
      else let (out, p) = deq_all pipe_get (unat len) p in (int (length out), out, p))"

definition write_to_pipe :: "nm_pipe \<Rightarrow> u8 list \<Rightarrow> int \<times> nm_pipe" where
  "write_to_pipe p buf =
     (if \<not> pp_used p then (NM_ERR NM_EFAIL, p)
      else let (written, p) = enq_some pipe_put buf p in (int written, p))"

definition read_from_fdobj :: "'v fs_if \<Rightarrow> nm_fdobj \<Rightarrow> u64 \<Rightarrow> fd_state \<Rightarrow> 'v \<Rightarrow> int \<times> u8 list \<times> fd_state \<times> 'v" where
  "read_from_fdobj fs obj len s v =
     (if fo_kind obj = NM_FDOBJ_PIPE_R
      then if fo_pipe_id obj < 0 \<or> fo_pipe_id obj \<ge> int NM_PIPE_MAX then (NM_ERR NM_EFAIL, [], s, v)
           else let (n, out, p) = read_from_pipe (pipe_table s ! nat (fo_pipe_id obj)) len
                in (n, out, upd_pipe (nat (fo_pipe_id obj)) (\<lambda>_. p) s, v)
      else if fo_kind obj = NM_FDOBJ_FS
      then let (n, out, v) = if_read fs (fo_fs_fd obj) len v in (n, out, s, v)
      else (NM_ERR NM_EFAIL, [], s, v))"

definition write_to_fdobj :: "'v fs_if \<Rightarrow> nm_fdobj \<Rightarrow> u8 list \<Rightarrow> fd_state \<Rightarrow> 'v \<Rightarrow> (int \<times> fd_state \<times> 'v) option" where
  "write_to_fdobj fs obj buf s v =
     (if fo_kind obj = NM_FDOBJ_PIPE_W
      then if fo_pipe_id obj < 0 \<or> fo_pipe_id obj \<ge> int NM_PIPE_MAX then Some (NM_ERR NM_EFAIL, s, v)
           else let (n, p) = write_to_pipe (pipe_table s ! nat (fo_pipe_id obj)) buf
                in Some (n, upd_pipe (nat (fo_pipe_id obj)) (\<lambda>_. p) s, v)
      else if fo_kind obj = NM_FDOBJ_FS
      then (case if_write fs (fo_fs_fd obj) buf v of None \<Rightarrow> None | Some (n, v) \<Rightarrow> Some (n, s, v))
      else Some (NM_ERR NM_EFAIL, s, v))"

definition adopt_legacy_fs_fd :: "nm_task \<Rightarrow> int \<Rightarrow> fd_state \<Rightarrow> int \<times> nm_task \<times> fd_state" where
  "adopt_legacy_fs_fd task fd s =
     (let legacy = task_fdobj_id task fd in
      if legacy < 0 \<or> legacy \<ge> int NM_FDOBJ_MAX then (NM_ERR NM_EINVAL, task, s)
      else if fdobj_get legacy s \<noteq> None then (legacy, task, s)
      else let (obj_id, s) = create_fs_obj legacy s in
        if obj_id < 0 then (NM_ERR NM_ENOMEM, task, s)
        else (obj_id, snd (task_install_fdobj task fd obj_id), s))"

section \<open>The operations on a task's descriptors\<close>

definition nm_fd_init :: "fd_state \<Rightarrow> fd_state" where
  "nm_fd_init s = s\<lparr>
     pipe_table := map (\<lambda>p. p\<lparr>pp_used := False, pp_read_pos := 0, pp_write_pos := 0, pp_readers := 0, pp_writers := 0\<rparr>)
       (pipe_table s),
     fdobj_table := map (\<lambda>obj. obj\<lparr>fo_used := False, fo_refcnt := 0, fo_kind := NM_FDOBJ_NONE, fo_fs_fd := - 1,
       fo_pipe_id := - 1\<rparr>) (fdobj_table s)\<rparr>"

definition nm_fd_read ::
  "'v fs_if \<Rightarrow> nm_task \<Rightarrow> int \<Rightarrow> bool \<Rightarrow> u64 \<Rightarrow> fd_state \<Rightarrow> 'v \<Rightarrow> int \<times> u8 list \<times> nm_task \<times> fd_state \<times> 'v" where
  "nm_fd_read fs task fd buf_nonnull len s v =
     (if \<not> buf_nonnull then (NM_ERR NM_EINVAL, [], task, s, v)
      else let obj_id = task_fdobj_id task fd in
        if obj_id = - 1 then (NM_ERR NM_ENOENT, [], task, s, v)
        else case fdobj_get obj_id s of
          Some i \<Rightarrow> let (n, out, s, v) = read_from_fdobj fs (fdobj_table s ! i) len s v in (n, out, task, s, v)
        | None \<Rightarrow>
            let (adopted, task, s) = adopt_legacy_fs_fd task fd s in
            if adopted \<ge> 0
            then case fdobj_get adopted s of
                Some i \<Rightarrow> let (n, out, s, v) = read_from_fdobj fs (fdobj_table s ! i) len s v in (n, out, task, s, v)
              | None \<Rightarrow> (NM_ERR NM_ENOENT, [], task, s, v)
            else (NM_ERR NM_ENOENT, [], task, s, v))"

definition nm_fd_write ::
  "'v fs_if \<Rightarrow> nm_task \<Rightarrow> int \<Rightarrow> u8 list option \<Rightarrow> fd_state \<Rightarrow> 'v \<Rightarrow> (int \<times> nm_task \<times> fd_state \<times> 'v) option" where
  "nm_fd_write fs task fd buf s v =
     (case buf of
        None \<Rightarrow> Some (NM_ERR NM_EINVAL, task, s, v)
      | Some bytes \<Rightarrow>
          let obj_id = task_fdobj_id task fd in
          if obj_id = - 1 then Some (NM_ERR NM_ENOENT, task, s, v)
          else case fdobj_get obj_id s of
            Some i \<Rightarrow> map_option (\<lambda>(n, s, v). (n, task, s, v)) (write_to_fdobj fs (fdobj_table s ! i) bytes s v)
          | None \<Rightarrow>
              let (adopted, task, s) = adopt_legacy_fs_fd task fd s in
              if adopted \<ge> 0
              then case fdobj_get adopted s of
                  Some i \<Rightarrow> map_option (\<lambda>(n, s, v). (n, task, s, v)) (write_to_fdobj fs (fdobj_table s ! i) bytes s v)
                | None \<Rightarrow> Some (NM_ERR NM_ENOENT, task, s, v)
              else Some (NM_ERR NM_ENOENT, task, s, v))"

definition nm_fd_close :: "'v fs_if \<Rightarrow> nm_task \<Rightarrow> int \<Rightarrow> fd_state \<Rightarrow> 'v \<Rightarrow> int \<times> nm_task \<times> fd_state \<times> 'v" where
  "nm_fd_close fs task fd s v =
     (if \<not> fd_in_range fd then (NM_ERR NM_EINVAL, task, s, v)
      else let obj_id = task_fdobj_id task fd in
        if obj_id = - 1 then (NM_ERR NM_ENOENT, task, s, v)
        else if obj_id \<ge> 0 \<and> obj_id < int NM_FDOBJ_MAX \<and> fdobj_get obj_id s = None
        then let (adopted, task, s) = adopt_legacy_fs_fd task fd s in
          if adopted < 0 then (NM_ERR NM_EFAIL, task, s, v) else task_close_fd fs task fd s v
        else task_close_fd fs task fd s v)"

text \<open>\<open>nm_fd_pipe\<close> returns the two descriptors it stores through its pointers on success.\<close>

definition pipe_slot :: "fd_state \<Rightarrow> nat option" where
  "pipe_slot s = first_idx (\<lambda>p. \<not> pp_used p) (pipe_table s)"

definition fresh_pipe :: "nm_pipe \<Rightarrow> nm_pipe" where
  "fresh_pipe p = p\<lparr>pp_used := True, pp_read_pos := 0, pp_write_pos := 0, pp_readers := 1, pp_writers := 1\<rparr>"

definition drop_pipe :: "nm_pipe \<Rightarrow> nm_pipe" where
  "drop_pipe p = p\<lparr>pp_used := False, pp_readers := 0, pp_writers := 0\<rparr>"

text \<open>The part of \<open>nm_fd_pipe\<close> that runs once a pipe slot and two descriptors are chosen.\<close>

definition pipe_connect ::
  "'v fs_if \<Rightarrow> int \<Rightarrow> int \<Rightarrow> nat \<Rightarrow> nm_task \<Rightarrow> fd_state \<Rightarrow> 'v \<Rightarrow>
   int \<times> (int \<times> int) option \<times> nm_task \<times> fd_state \<times> 'v" where
  "pipe_connect fs rd wr pipe_id task s v =
     (let s = upd_pipe pipe_id fresh_pipe s;
          (rd_obj, s) = create_pipe_endpoint_obj NM_FDOBJ_PIPE_R (int pipe_id) s
      in if rd_obj < 0 then (NM_ERR NM_ENOMEM, None, set_fd rd (- 1) task, upd_pipe pipe_id drop_pipe s, v)
      else let (wr_obj, s) = create_pipe_endpoint_obj NM_FDOBJ_PIPE_W (int pipe_id) s
           in if wr_obj < 0
              then let task = set_fd rd (- 1) task; (r, s, v) = fdobj_release fs rd_obj s v
                   in (NM_ERR NM_ENOMEM, None, task, upd_pipe pipe_id drop_pipe s, v)
              else let task = snd (task_install_fdobj task rd rd_obj);
                       task = snd (task_install_fdobj task wr wr_obj)
                   in (0, Some (rd, wr), task, s, v))"

definition nm_fd_pipe ::
  "'v fs_if \<Rightarrow> nm_task \<Rightarrow> fd_state \<Rightarrow> 'v \<Rightarrow> int \<times> (int \<times> int) option \<times> nm_task \<times> fd_state \<times> 'v" where
  "nm_fd_pipe fs task s v =
     (case pipe_slot s of
        None \<Rightarrow> (NM_ERR NM_ENOMEM, None, task, s, v)
      | Some pipe_id \<Rightarrow>
          let rd = alloc_task_fd task in
          if rd < 0 then (NM_ERR NM_ENOMEM, None, task, s, v)
          else let task = set_fd rd (- 2) task;
                   wr = alloc_task_fd task
               in if wr < 0 then (NM_ERR NM_ENOMEM, None, set_fd rd (- 1) task, s, v)
                  else pipe_connect fs rd wr pipe_id task s v)"

definition nm_fd_dup2 :: "'v fs_if \<Rightarrow> nm_task \<Rightarrow> int \<Rightarrow> int \<Rightarrow> fd_state \<Rightarrow> 'v \<Rightarrow> int \<times> nm_task \<times> fd_state \<times> 'v" where
  "nm_fd_dup2 fs task oldfd newfd s v =
     (if \<not> fd_in_range oldfd \<or> \<not> fd_in_range newfd then (NM_ERR NM_EINVAL, task, s, v)
      else let old_obj = task_fdobj_id task oldfd in
        if old_obj = - 1 then (NM_ERR NM_ENOENT, task, s, v)
        else if oldfd = newfd then (newfd, task, s, v)
        else let new_obj = task_fdobj_id task newfd;
                 (r, task, s, v) = (if new_obj \<noteq> - 1 then task_close_fd fs task newfd s v else (0, task, s, v))
             in if r \<noteq> 0 then (NM_ERR NM_EFAIL, task, s, v)
             else let (r, s) = fdobj_retain old_obj s in
               if r \<noteq> 0 then (NM_ERR NM_EFAIL, task, s, v)
               else (newfd, clear_cloexec newfd (snd (task_install_fdobj task newfd old_obj)), s, v))"

definition fork_inherit :: "nat \<Rightarrow> nm_task \<times> fd_state \<Rightarrow> nm_task \<times> fd_state" where
  "fork_inherit i x =
     (case x of (child, s) \<Rightarrow>
        let obj_id = t_fd_table child ! i in
        if obj_id = - 1 then (child, s)
        else let (r, s) = fdobj_retain obj_id s
             in if r \<noteq> 0 then (set_fd (int i) (- 1) child, s) else (child, s))"

definition nm_fd_on_fork_child :: "nm_task \<Rightarrow> fd_state \<Rightarrow> int \<times> nm_task \<times> fd_state" where
  "nm_fd_on_fork_child child s = (let (child, s) = fold fork_inherit [0..<NM_MAX_FDS] (child, s) in (0, child, s))"

definition nm_fd_set_cloexec :: "nm_task \<Rightarrow> int \<Rightarrow> int \<Rightarrow> int \<times> nm_task" where
  "nm_fd_set_cloexec task fd enabled =
     (if \<not> fd_in_range fd \<or> t_fd_table task ! nat fd = - 1 then (NM_ERR NM_EINVAL, task)
      else if enabled \<noteq> 0 then (0, task\<lparr>t_fd_cloexec_mask := t_fd_cloexec_mask task OR fd_bit fd\<rparr>)
      else (0, clear_cloexec fd task))"

definition nm_fd_get_cloexec :: "nm_task \<Rightarrow> int \<Rightarrow> int" where
  "nm_fd_get_cloexec task fd =
     (if \<not> fd_in_range fd \<or> t_fd_table task ! nat fd = - 1 then NM_ERR NM_EINVAL
      else if t_fd_cloexec_mask task AND fd_bit fd \<noteq> 0 then 1 else 0)"

definition exec_close :: "'v fs_if \<Rightarrow> nat \<Rightarrow> nm_task \<times> fd_state \<times> 'v \<Rightarrow> nm_task \<times> fd_state \<times> 'v" where
  "exec_close fs i x =
     (case x of (task, s, v) \<Rightarrow>
        let fd = int i in
        if t_fd_cloexec_mask task AND fd_bit fd = 0 then (task, s, v)
        else let obj_id = task_fdobj_id task fd in
          if obj_id = - 1 then (clear_cloexec fd task, s, v)
          else if obj_id \<ge> 0 \<and> obj_id < int NM_FDOBJ_MAX \<and> fdobj_get obj_id s = None
          then let (adopted, task, s) = adopt_legacy_fs_fd task fd s in
            if adopted < 0 then (task, s, v) else snd (task_close_fd fs task fd s v)
          else snd (task_close_fd fs task fd s v))"

definition nm_fd_close_on_exec :: "'v fs_if \<Rightarrow> nm_task \<Rightarrow> fd_state \<Rightarrow> 'v \<Rightarrow> nm_task \<times> fd_state \<times> 'v" where
  "nm_fd_close_on_exec fs task s v = fold (exec_close fs) [0..<NM_MAX_FDS] (task, s, v)"

section \<open>Providers of the shared interfaces\<close>

interpretation fdobjs: slot_table fo_used fresh_fdobj alloc_fdobj
  by unfold_locales (auto simp: fresh_fdobj_def alloc_fdobj_def split: option.splits)

text \<open>A pipe is a bounded queue of bytes; its two positions only grow and are reduced on access.\<close>

definition pipe_inv :: "nm_pipe \<Rightarrow> bool" where
  "pipe_inv p \<longleftrightarrow> length (pp_buf p) = NM_PIPE_BUF \<and> unat (pp_read_pos p) \<le> unat (pp_write_pos p) \<and>
     unat (pp_write_pos p) - unat (pp_read_pos p) \<le> NM_PIPE_BUF"

definition pipe_contents :: "nm_pipe \<Rightarrow> u8 list" where
  "pipe_contents p = ring_seg (pp_buf p) (unat (pp_read_pos p)) (unat (pp_write_pos p) - unat (pp_read_pos p))"

definition pipe_ready :: "nat \<Rightarrow> nm_pipe \<Rightarrow> bool" where
  "pipe_ready n p \<longleftrightarrow> unat (pp_write_pos p) + n < 2 ^ 64"

lemma pipe_contents_length [simp]: "length (pipe_contents p) = unat (pp_write_pos p) - unat (pp_read_pos p)"
  by (simp add: pipe_contents_def)

lemma pos_mod: "unat (w mod of_nat NM_PIPE_BUF :: u64) = unat w mod 512"
  by (simp add: NM_PIPE_BUF_def unat_mod)

lemma pipe_used_space:
  "pipe_inv p \<Longrightarrow> pp_write_pos p - pp_read_pos p < of_nat NM_PIPE_BUF \<longleftrightarrow> length (pipe_contents p) < NM_PIPE_BUF"
  unfolding pipe_inv_def
  by (simp add: word_less_nat_alt word_le_nat_alt unat_sub NM_PIPE_BUF_def)

lemma pipe_put_room:
  assumes "pipe_inv p" "pipe_ready (Suc n) p" "length (pipe_contents p) < NM_PIPE_BUF"
  shows "\<exists>p'. pipe_put b p = Some p' \<and> pipe_inv p' \<and> pipe_ready n p' \<and> pipe_contents p' = pipe_contents p @ [b]"
proof -
  let ?p = "p\<lparr>pp_buf := (pp_buf p)[unat (pp_write_pos p mod of_nat NM_PIPE_BUF) := b], pp_write_pos := pp_write_pos p + 1\<rparr>"
  let ?r = "unat (pp_read_pos p)" and ?w = "unat (pp_write_pos p)"
  have len: "length (pp_buf p) = 512" and rw: "?r \<le> ?w" and room: "?w - ?r < 512"
    using assms(1,3) by (simp_all add: pipe_inv_def NM_PIPE_BUF_def)
  have w: "unat (pp_write_pos p + 1) = ?w + 1"
    using assms(2) by (intro unat_inc64) (simp add: pipe_ready_def)
  have put: "pipe_put b p = Some ?p" using pipe_used_space [OF assms(1)] assms(3) by (simp add: pipe_put_def)
  have "(?r + (?w - ?r)) mod 512 = ?w mod 512" using rw by simp
  then have "pipe_contents ?p = pipe_contents p @ [b]"
    using ring_seg_push [of "?w - ?r" "pp_buf p" ?r b] len room rw w
    by (simp add: pipe_contents_def pos_mod Suc_diff_le)
  moreover have "pipe_inv ?p" using len rw room w by (simp add: pipe_inv_def NM_PIPE_BUF_def)
  moreover have "pipe_ready n ?p" using assms(2) w by (simp add: pipe_ready_def)
  ultimately show ?thesis using put by blast
qed

lemma pipe_get_front:
  assumes "pipe_inv p" "pipe_contents p \<noteq> []"
  shows "\<exists>p'. pipe_get p = Some (hd (pipe_contents p), p') \<and> pipe_inv p' \<and> (\<forall>n. pipe_ready n p \<longrightarrow> pipe_ready n p') \<and>
    pipe_contents p' = tl (pipe_contents p)"
proof -
  let ?p = "p\<lparr>pp_read_pos := pp_read_pos p + 1\<rparr>"
  let ?r = "unat (pp_read_pos p)" and ?w = "unat (pp_write_pos p)"
  have ne: "?r < ?w" using assms(2) by (metis length_0_conv pipe_contents_length zero_less_diff neq0_conv)
  have r: "unat (pp_read_pos p + 1) = ?r + 1"
    using ne unat_bound64 [of "pp_write_pos p"] by (intro unat_inc64) simp
  obtain k where k: "?w - ?r = Suc k" "?w - (?r + 1) = k" using ne by (metis Suc_diff_Suc Suc_eq_plus1)
  have len: "length (pp_buf p) = 512" using assms(1) by (simp add: pipe_inv_def NM_PIPE_BUF_def)
  have "hd (pipe_contents p) = pp_buf p ! (?r mod 512)" "tl (pipe_contents p) = pipe_contents ?p"
    using k len r by (simp_all add: pipe_contents_def ring_seg_Cons)
  moreover have "pipe_inv ?p" using assms(1) ne r by (auto simp: pipe_inv_def)
  moreover have "pipe_get p = Some (pp_buf p ! (?r mod 512), ?p)"
    using ne by (simp add: pipe_get_def word_less_nat_alt pos_mod)
  ultimately show ?thesis by (simp add: pipe_ready_def)
qed

interpretation pipeq: bounded_fifo pipe_put pipe_get pipe_contents pipe_inv pipe_ready NM_PIPE_BUF
proof unfold_locales
  fix q x n
  assume inv: "pipe_inv q"
  show "\<exists>q'. pipe_put x q = Some q' \<and> pipe_inv q' \<and> pipe_ready n q' \<and> pipe_contents q' = pipe_contents q @ [x]"
    if "pipe_ready (Suc n) q" "length (pipe_contents q) < NM_PIPE_BUF"
    using pipe_put_room [OF inv that] .
  show "pipe_put x q = None" if "length (pipe_contents q) = NM_PIPE_BUF"
    using that pipe_used_space [OF inv] by (simp add: pipe_put_def)
  show "length (pipe_contents q) \<le> NM_PIPE_BUF" using inv by (simp add: pipe_inv_def)
  show "pipe_get q = None" if "pipe_contents q = []"
  proof -
    have "unat (pp_write_pos q) - unat (pp_read_pos q) = 0" using that pipe_contents_length [of q] by simp
    then show ?thesis by (simp add: pipe_get_def word_less_nat_alt)
  qed
  show "\<exists>q'. pipe_get q = Some (hd (pipe_contents q), q') \<and> pipe_inv q' \<and> (\<forall>n. pipe_ready n q \<longrightarrow> pipe_ready n q') \<and>
      pipe_contents q' = tl (pipe_contents q)" if "pipe_contents q \<noteq> []"
    using pipe_get_front [OF inv that] .
qed

text \<open>The two copy loops, in terms of the queue.\<close>

lemma read_from_pipe_spec:
  assumes "pipe_inv p" "pp_used p"
  shows "\<exists>p'. read_from_pipe p len =
      (int (min (unat len) (length (pipe_contents p))), take (unat len) (pipe_contents p), p') \<and>
    pipe_inv p' \<and> pipe_contents p' = drop (unat len) (pipe_contents p)"
  using pipeq.deq_all_spec [OF assms(1), of "unat len"] assms(2)
  by (auto simp: read_from_pipe_def min.commute simp del: pipe_contents_length)

lemma write_to_pipe_spec:
  assumes "pipe_inv p" "pp_used p" "pipe_ready (length buf) p"
  shows "\<exists>p'. write_to_pipe p buf = (int (min (length buf) (NM_PIPE_BUF - length (pipe_contents p))), p') \<and>
    pipe_inv p' \<and> pipe_contents p' = pipe_contents p @ take (NM_PIPE_BUF - length (pipe_contents p)) buf"
  using pipeq.enq_some_spec [OF assms(1,3)] assms(2) by (auto simp: write_to_pipe_def simp del: pipe_contents_length)

lemma deq_all_pipe_frame:
  "deq_all pipe_get n p = (out, p') \<Longrightarrow>
   pp_used p' = pp_used p \<and> pp_readers p' = pp_readers p \<and> pp_writers p' = pp_writers p \<and> pp_write_pos p' = pp_write_pos p"
  by (induction n arbitrary: p out) (auto simp: pipe_get_def Let_def split: if_splits prod.splits)

lemma enq_some_pipe_frame:
  "enq_some pipe_put xs p = (n, p') \<Longrightarrow>
   pp_used p' = pp_used p \<and> pp_readers p' = pp_readers p \<and> pp_writers p' = pp_writers p"
  by (induction xs arbitrary: p n) (auto simp: pipe_put_def Let_def split: if_splits prod.splits)

section \<open>References\<close>

text \<open>
  \<open>R i\<close> is the number of descriptor table entries, over all tasks, that hold object \<open>i\<close>. The invariant
  ties everything to it: a used object's count is \<open>R i\<close>, and the reader and writer counts of a pipe
  are the numbers of references to its endpoints.
\<close>

definition endpoint :: "nm_fdobj_kind \<Rightarrow> bool" where
  "endpoint k \<longleftrightarrow> k = NM_FDOBJ_PIPE_R \<or> k = NM_FDOBJ_PIPE_W"

definition pcount :: "nm_fdobj_kind \<Rightarrow> nm_pipe \<Rightarrow> u32" where
  "pcount k p = (if k = NM_FDOBJ_PIPE_R then pp_readers p else pp_writers p)"

definition ends :: "nm_fdobj_kind \<Rightarrow> nat \<Rightarrow> nm_fdobj \<Rightarrow> nat" where
  "ends k p obj = (if fo_used obj \<and> fo_kind obj = k \<and> fo_pipe_id obj = int p then unat (fo_refcnt obj) else 0)"

definition endpoint_refs :: "nm_fdobj_kind \<Rightarrow> nat \<Rightarrow> nm_fdobj list \<Rightarrow> nat" where
  "endpoint_refs k p table = sum_list (map (ends k p) table)"

definition obj_counts :: "(nat \<Rightarrow> nat) \<Rightarrow> nm_fdobj list \<Rightarrow> bool" where
  "obj_counts R table \<longleftrightarrow> length table = NM_FDOBJ_MAX \<and>
     (\<forall>i<NM_FDOBJ_MAX. if fo_used (table ! i) then unat (fo_refcnt (table ! i)) = R i \<and> 0 < R i else R i = 0)"

definition obj_pipe_ok :: "nm_pipe list \<Rightarrow> nm_fdobj \<Rightarrow> bool" where
  "obj_pipe_ok pipes obj \<longleftrightarrow> (fo_used obj \<longrightarrow> endpoint (fo_kind obj) \<longrightarrow>
     0 \<le> fo_pipe_id obj \<and> fo_pipe_id obj < int NM_PIPE_MAX \<and> pp_used (pipes ! nat (fo_pipe_id obj)))"

definition pipe_counts :: "nm_fdobj list \<Rightarrow> nat \<Rightarrow> nm_pipe \<Rightarrow> bool" where
  "pipe_counts table p pipe \<longleftrightarrow> pipe_inv pipe \<and>
     (pp_used pipe \<longrightarrow> (\<forall>k. endpoint k \<longrightarrow> unat (pcount k pipe) = endpoint_refs k p table) \<and>
        (pp_readers pipe \<noteq> 0 \<or> pp_writers pipe \<noteq> 0))"

definition fd_inv :: "(nat \<Rightarrow> nat) \<Rightarrow> fd_state \<Rightarrow> bool" where
  "fd_inv R s \<longleftrightarrow> obj_counts R (fdobj_table s) \<and> length (pipe_table s) = NM_PIPE_MAX \<and>
     (\<forall>i<NM_FDOBJ_MAX. obj_pipe_ok (pipe_table s) (fdobj_table s ! i)) \<and>
     (\<forall>p<NM_PIPE_MAX. pipe_counts (fdobj_table s) p (pipe_table s ! p))"

lemma obj_countsD: "obj_counts R table \<Longrightarrow> i < NM_FDOBJ_MAX \<Longrightarrow> fo_used (table ! i) \<Longrightarrow> 0 < unat (fo_refcnt (table ! i))"
  by (auto simp: obj_counts_def)

lemma fd_invD:
  assumes "fd_inv R s"
  shows "length (fdobj_table s) = NM_FDOBJ_MAX" "length (pipe_table s) = NM_PIPE_MAX"
    "\<And>i. i < NM_FDOBJ_MAX \<Longrightarrow> fo_used (fdobj_table s ! i) \<Longrightarrow> unat (fo_refcnt (fdobj_table s ! i)) = R i"
    "\<And>i. i < NM_FDOBJ_MAX \<Longrightarrow> fo_used (fdobj_table s ! i) \<longleftrightarrow> 0 < R i"
    "\<And>i. i < NM_FDOBJ_MAX \<Longrightarrow> obj_pipe_ok (pipe_table s) (fdobj_table s ! i)"
    "\<And>p. p < NM_PIPE_MAX \<Longrightarrow> pipe_counts (fdobj_table s) p (pipe_table s ! p)"
  using assms by (auto simp: fd_inv_def obj_counts_def split: if_splits)

lemma endpoint_refs_update:
  "i < length table \<Longrightarrow>
   endpoint_refs k p (table[i := obj]) + ends k p (table ! i) = endpoint_refs k p table + ends k p obj"
  by (simp add: endpoint_refs_def sum_list_map_update)

lemma endpoint_refs_member: "i < length table \<Longrightarrow> ends k p (table ! i) \<le> endpoint_refs k p table"
  by (simp add: endpoint_refs_def sum_list_map_member)

lemma endpoint_refs_bound:
  assumes "obj_counts R table"
  shows "endpoint_refs k p table \<le> (\<Sum>i<NM_FDOBJ_MAX. R i)"
proof -
  have len: "length table = NM_FDOBJ_MAX" using assms by (simp add: obj_counts_def)
  have "endpoint_refs k p table = (\<Sum>i<NM_FDOBJ_MAX. ends k p (table ! i))"
    using len by (simp add: endpoint_refs_def sum_list_sum_nth atLeast0LessThan)
  also have "\<dots> \<le> (\<Sum>i<NM_FDOBJ_MAX. R i)"
    using assms by (intro sum_mono) (auto simp: ends_def obj_counts_def split: if_splits)
  finally show ?thesis .
qed

lemma acquire_endpoint_simps:
  "endpoint k \<Longrightarrow> endpoint k' \<Longrightarrow> pcount k' (acquire_endpoint k p) = (if k' = k then pcount k' p + 1 else pcount k' p)"
  "pp_used (acquire_endpoint k p) = pp_used p" "pipe_inv (acquire_endpoint k p) = pipe_inv p"
  by (auto simp: acquire_endpoint_def endpoint_def pcount_def pipe_inv_def)

lemma release_endpoint_simps:
  "endpoint k \<Longrightarrow> endpoint k' \<Longrightarrow> pcount k p \<noteq> 0 \<Longrightarrow>
   pcount k' (release_endpoint k p) = (if k' = k then pcount k' p - 1 else pcount k' p)"
  "pp_used (release_endpoint k p) \<longleftrightarrow> pp_used p \<and> (pp_readers (release_endpoint k p) \<noteq> 0 \<or> pp_writers (release_endpoint k p) \<noteq> 0)"
  "pipe_inv p \<Longrightarrow> pipe_inv (release_endpoint k p)"
  by (auto simp: release_endpoint_def endpoint_def pcount_def pipe_inv_def Let_def word_gt_0)

lemma pcount_nonzero: "(\<exists>k. endpoint k \<and> pcount k p \<noteq> 0) \<longleftrightarrow> pp_readers p \<noteq> 0 \<or> pp_writers p \<noteq> 0"
  by (auto simp: endpoint_def pcount_def)

lemma unat_inc32: "unat a < 2 ^ 32 - 1 \<Longrightarrow> unat (a + 1 :: u32) = unat a + 1"
  by (simp add: unat_word_ariths)

lemma unat_dec32: "a \<noteq> 0 \<Longrightarrow> unat (a - 1 :: u32) = unat a - 1"
  by (simp add: unat_minus_one)

lemma upd_obj_simps [simp]:
  "fdobj_table (upd_obj i f s) = (fdobj_table s)[i := f (fdobj_table s ! i)]" "pipe_table (upd_obj i f s) = pipe_table s"
  by (simp_all add: upd_obj_def)

lemma upd_pipe_simps [simp]:
  "pipe_table (upd_pipe i f s) = (pipe_table s)[i := f (pipe_table s ! i)]" "fdobj_table (upd_pipe i f s) = fdobj_table s"
  by (simp_all add: upd_pipe_def)

lemma fdobj_get_int: "i < NM_FDOBJ_MAX \<Longrightarrow> fdobj_get (int i) s = (if fo_used (fdobj_table s ! i) then Some i else None)"
  by (simp add: fdobj_get_def)

lemma fdobj_get_SomeD:
  assumes "fdobj_get obj_id s = Some i"
  shows "i < NM_FDOBJ_MAX" "obj_id = int i" "fo_used (fdobj_table s ! i)"
  using assms by (auto simp: fdobj_get_def split: if_splits)

text \<open>The pipe of an endpoint object, as the two hooks see it.\<close>

lemma endpoint_hooks:
  assumes "obj_pipe_ok (pipe_table s) obj" "fo_used obj" "length (pipe_table s) = NM_PIPE_MAX"
  shows "pipe_table (pipe_on_endpoint_acquire (fo_kind obj) (fo_pipe_id obj) s) =
      (if endpoint (fo_kind obj)
       then (pipe_table s)[nat (fo_pipe_id obj) := acquire_endpoint (fo_kind obj) (pipe_table s ! nat (fo_pipe_id obj))]
       else pipe_table s)"
    "fdobj_table (pipe_on_endpoint_acquire (fo_kind obj) (fo_pipe_id obj) s) = fdobj_table s"
    "fdobj_table (pipe_on_endpoint_release (fo_kind obj) (fo_pipe_id obj) s) = fdobj_table s"
    "endpoint (fo_kind obj) \<Longrightarrow> pipe_table (pipe_on_endpoint_release (fo_kind obj) (fo_pipe_id obj) s) =
       (pipe_table s)[nat (fo_pipe_id obj) := release_endpoint (fo_kind obj) (pipe_table s ! nat (fo_pipe_id obj))]"
  using assms
  by (auto simp: pipe_on_endpoint_acquire_def pipe_on_endpoint_release_def obj_pipe_ok_def acquire_endpoint_def endpoint_def)

text \<open>Releasing an object that is no endpoint leaves the pipes alone: its pipe number is out of range or the pipe lives.\<close>

lemma release_non_endpoint:
  assumes "\<not> endpoint (fo_kind obj)" "\<forall>p<NM_PIPE_MAX. pipe_counts table p (pipe_table s ! p)"
    "length (pipe_table s) = NM_PIPE_MAX"
  shows "pipe_on_endpoint_release (fo_kind obj) (fo_pipe_id obj) s = s"
proof (cases "fo_pipe_id obj < 0 \<or> fo_pipe_id obj \<ge> int NM_PIPE_MAX \<or> \<not> pp_used (pipe_table s ! nat (fo_pipe_id obj))")
  case True
  then show ?thesis by (auto simp: pipe_on_endpoint_release_def)
next
  case False
  let ?p = "nat (fo_pipe_id obj)"
  have "pp_readers (pipe_table s ! ?p) \<noteq> 0 \<or> pp_writers (pipe_table s ! ?p) \<noteq> 0"
    using False assms(2) by (auto simp: pipe_counts_def)
  then have "release_endpoint (fo_kind obj) (pipe_table s ! ?p) = pipe_table s ! ?p"
    using assms(1) by (auto simp: release_endpoint_def endpoint_def Let_def)
  then show ?thesis using False by (simp add: pipe_on_endpoint_release_def upd_pipe_def)
qed

lemma endpoint_refs_inc:
  assumes "i < length table" "fo_used (table ! i)" "unat (fo_refcnt (table ! i)) < 2 ^ 32 - 1"
  shows "endpoint_refs k p (table[i := (table ! i)\<lparr>fo_refcnt := fo_refcnt (table ! i) + 1\<rparr>]) =
    endpoint_refs k p table + (if fo_kind (table ! i) = k \<and> fo_pipe_id (table ! i) = int p then 1 else 0)"
  using endpoint_refs_update [OF assms(1), of k p "(table ! i)\<lparr>fo_refcnt := fo_refcnt (table ! i) + 1\<rparr>"] assms(2,3)
  by (auto simp: ends_def unat_inc32 split: if_splits)

lemma fdobj_retain_inv:
  assumes "fd_inv R s" "i < NM_FDOBJ_MAX" "fo_used (fdobj_table s ! i)" "(\<Sum>j<NM_FDOBJ_MAX. R j) < 2 ^ 32 - 1"
  shows "\<exists>s'. fdobj_retain (int i) s = (0, s') \<and> fd_inv (R(i := R i + 1)) s'"
proof -
  note inv = fd_invD [OF assms(1)]
  define obj where "obj = fdobj_table s ! i"
  define s1 where "s1 = upd_obj i (\<lambda>obj. obj\<lparr>fo_refcnt := fo_refcnt obj + 1\<rparr>) s"
  define s' where "s' = pipe_on_endpoint_acquire (fo_kind obj) (fo_pipe_id obj) s1"
  have r: "fdobj_retain (int i) s = (0, s')"
    using assms(2,3) by (simp add: fdobj_retain_def fdobj_get_int s'_def s1_def obj_def Let_def)
  have used: "fo_used obj" and ok: "obj_pipe_ok (pipe_table s1) obj"
    using assms(3) inv(5) [OF assms(2)] by (simp_all add: obj_def s1_def)
  note hk = endpoint_hooks [OF ok used]
  have tab: "fdobj_table s' = (fdobj_table s)[i := obj\<lparr>fo_refcnt := fo_refcnt obj + 1\<rparr>]"
    using hk(2) inv(2) by (simp add: s'_def s1_def obj_def)
  have pipes: "pipe_table s' ! q = (if endpoint (fo_kind obj) \<and> fo_pipe_id obj = int q
      then acquire_endpoint (fo_kind obj) (pipe_table s ! q) else pipe_table s ! q)" if "q < NM_PIPE_MAX" for q
    using hk(1) inv(2) that ok used by (auto simp: s'_def s1_def nth_update_idx obj_pipe_ok_def)
  have plen: "length (pipe_table s') = NM_PIPE_MAX" using hk(1) inv(2) by (simp add: s'_def s1_def)
  have Ri: "R i \<le> (\<Sum>j<NM_FDOBJ_MAX. R j)" using assms(2) by (intro member_le_sum) auto
  have cnt: "unat (fo_refcnt obj) = R i" "unat (fo_refcnt obj) < 2 ^ 32 - 1"
    using inv(3) [OF assms(2,3)] Ri assms(4) by (simp_all add: obj_def)
  have bound: "endpoint_refs k q (fdobj_table s) < 2 ^ 32 - 1" for k q
    using endpoint_refs_bound [of R "fdobj_table s" k q] assms(1,4) by (simp add: fd_inv_def)
  have used': "pp_used (pipe_table s' ! q) = pp_used (pipe_table s ! q)" if "q < NM_PIPE_MAX" for q
    using pipes [OF that] by (simp add: acquire_endpoint_simps)
  have refs: "endpoint_refs k q (fdobj_table s') =
      endpoint_refs k q (fdobj_table s) + (if fo_kind obj = k \<and> fo_pipe_id obj = int q then 1 else 0)" for k q
    using endpoint_refs_inc [of i "fdobj_table s" k q] cnt(2) assms(2,3) inv(1) by (simp add: tab obj_def)
  have "obj_counts (R(i := R i + 1)) (fdobj_table s')"
    using inv(1,3,4) used cnt by (auto simp: obj_counts_def tab nth_update_idx unat_inc32)
  moreover have "obj_pipe_ok (pipe_table s') (fdobj_table s' ! j)" if "j < NM_FDOBJ_MAX" for j
    using inv(5) [OF that] inv(1) that ok used used' by (auto simp: tab nth_update_idx obj_pipe_ok_def s1_def)
  moreover have "pipe_counts (fdobj_table s') q (pipe_table s' ! q)" if "q < NM_PIPE_MAX" for q
  proof -
    note pc = inv(6) [OF that, unfolded pipe_counts_def]
    have "unat (pcount k (pipe_table s' ! q)) = endpoint_refs k q (fdobj_table s')"
      if k: "endpoint k" and u: "pp_used (pipe_table s ! q)" for k
      using pc k u bound [of k q] pipes [OF \<open>q < NM_PIPE_MAX\<close>]
      by (auto simp: refs acquire_endpoint_simps unat_inc32)
    moreover have "pipe_inv (pipe_table s' ! q)" using pc pipes [OF that] by (simp add: acquire_endpoint_simps)
    moreover have "pp_readers (pipe_table s' ! q) \<noteq> 0 \<or> pp_writers (pipe_table s' ! q) \<noteq> 0" if u: "pp_used (pipe_table s ! q)"
      using calculation(1) [OF _ u] pc u refs
      by (metis (no_types, lifting) add_is_0 pcount_nonzero unat_eq_zero)
    ultimately show ?thesis using used' [OF that] by (simp add: pipe_counts_def)
  qed
  ultimately show ?thesis using r plen by (auto simp: fd_inv_def)
qed

text \<open>What is left of an object after one release.\<close>

definition released_obj :: "nm_fdobj \<Rightarrow> nm_fdobj" where
  "released_obj obj =
     (if fo_refcnt obj = 1
      then obj\<lparr>fo_refcnt := 0, fo_used := False, fo_kind := NM_FDOBJ_NONE, fo_fs_fd := - 1, fo_pipe_id := - 1\<rparr>
      else obj\<lparr>fo_refcnt := fo_refcnt obj - 1\<rparr>)"

lemma endpoint_refs_dec:
  assumes "i < length table" "fo_used (table ! i)" "fo_refcnt (table ! i) \<noteq> 0"
  shows "endpoint_refs k p (table[i := released_obj (table ! i)]) +
    (if fo_kind (table ! i) = k \<and> fo_pipe_id (table ! i) = int p then 1 else 0) = endpoint_refs k p table"
proof -
  have "0 < unat (fo_refcnt (table ! i))" using assms(3) by (simp add: unat_gt_0)
  then show ?thesis
    using endpoint_refs_update [OF assms(1), of k p "released_obj (table ! i)"] assms(2,3)
    by (auto simp: ends_def released_obj_def unat_dec32 split: if_splits)
qed

lemma fdobj_release_state:
  assumes "fd_inv R s" "i < NM_FDOBJ_MAX" "fo_used (fdobj_table s ! i)" "obj = fdobj_table s ! i"
  shows "\<exists>s' v'. fdobj_release fs (int i) s v = (0, s', v') \<and> fdobj_table s' = (fdobj_table s)[i := released_obj obj] \<and>
    pipe_table s' = (if endpoint (fo_kind obj)
      then (pipe_table s)[nat (fo_pipe_id obj) := release_endpoint (fo_kind obj) (pipe_table s ! nat (fo_pipe_id obj))]
      else pipe_table s) \<and>
    v' = (if R i = 1 \<and> fo_kind obj = NM_FDOBJ_FS \<and> fo_fs_fd obj \<ge> 0 then snd (if_close fs (fo_fs_fd obj) v) else v)"
proof -
  note inv = fd_invD [OF assms(1)]
  have used: "fo_used obj" and ok: "obj_pipe_ok (pipe_table s) obj"
    using assms(3,4) inv(5) [OF assms(2)] by simp_all
  have rc: "unat (fo_refcnt obj) = R i" "0 < R i" using inv(3,4) assms(2-4) by auto
  then have ne: "fo_refcnt obj \<noteq> 0" by (metis less_irrefl unat_eq_zero)
  have one: "fo_refcnt obj - 1 > 0 \<longleftrightarrow> fo_refcnt obj \<noteq> 1" by (simp add: word_gt_0)
  have R1: "fo_refcnt obj = 1 \<longleftrightarrow> R i = 1" using rc(1) by (metis unat_1 word_unat_eq_iff)
  have ne': "fo_refcnt (fdobj_table s ! i) \<noteq> 0" using ne assms(4) by simp
  let ?s1 = "pipe_on_endpoint_release (fo_kind obj) (fo_pipe_id obj) s"
  have t1: "fdobj_table ?s1 = fdobj_table s"
    using endpoint_hooks(3) [OF ok used inv(2)] .
  have p1: "pipe_table ?s1 = (if endpoint (fo_kind obj)
      then (pipe_table s)[nat (fo_pipe_id obj) := release_endpoint (fo_kind obj) (pipe_table s ! nat (fo_pipe_id obj))]
      else pipe_table s)"
    using endpoint_hooks(4) [OF ok used inv(2)] release_non_endpoint [of obj "fdobj_table s" s] inv(2,6) by simp
  have idx: "i < length (fdobj_table s)" using assms(2) inv(1) by simp
  show ?thesis
  proof (cases "fo_refcnt obj = 1")
    case True
    then show ?thesis
      using assms(2,3) ne one t1 p1 idx R1
      by (simp add: fdobj_release_def fdobj_get_int assms(4) [symmetric] Let_def released_obj_def)
  next
    case False
    then show ?thesis
      using assms(2,3) ne one t1 p1 idx R1
      by (simp add: fdobj_release_def fdobj_get_int assms(4) [symmetric] Let_def released_obj_def)
  qed
qed

lemma fdobj_release_inv:
  assumes "fd_inv R s" "i < NM_FDOBJ_MAX" "fo_used (fdobj_table s ! i)"
  shows "\<exists>s' v'. fdobj_release fs (int i) s v = (0, s', v') \<and> fd_inv (R(i := R i - 1)) s' \<and>
    (\<forall>j<NM_FDOBJ_MAX. j \<noteq> i \<longrightarrow> fdobj_table s' ! j = fdobj_table s ! j)"
proof -
  note inv = fd_invD [OF assms(1)]
  define obj where "obj = fdobj_table s ! i"
  obtain s' v' where r: "fdobj_release fs (int i) s v = (0, s', v')"
    and tab: "fdobj_table s' = (fdobj_table s)[i := released_obj obj]"
    and pt: "pipe_table s' = (if endpoint (fo_kind obj)
      then (pipe_table s)[nat (fo_pipe_id obj) := release_endpoint (fo_kind obj) (pipe_table s ! nat (fo_pipe_id obj))]
      else pipe_table s)"
    using fdobj_release_state [OF assms obj_def, of fs v] by blast
  have used: "fo_used obj" and ok: "obj_pipe_ok (pipe_table s) obj"
    using assms(3) inv(5) [OF assms(2)] by (simp_all add: obj_def)
  have rc: "unat (fo_refcnt obj) = R i" "0 < R i" using inv(3,4) assms(2,3) by (auto simp: obj_def)
  then have ne: "fo_refcnt obj \<noteq> 0" by (metis less_irrefl unat_eq_zero)
  have refs: "endpoint_refs k q (fdobj_table s') + (if fo_kind obj = k \<and> fo_pipe_id obj = int q then 1 else 0) =
      endpoint_refs k q (fdobj_table s)" for k q
    using endpoint_refs_dec [of i "fdobj_table s" k q] ne assms(2,3) inv(1) by (simp add: tab obj_def)
  have pipes: "pipe_table s' ! q = (if endpoint (fo_kind obj) \<and> fo_pipe_id obj = int q
      then release_endpoint (fo_kind obj) (pipe_table s ! q) else pipe_table s ! q)" if "q < NM_PIPE_MAX" for q
    using pt inv(2) that ok used by (auto simp: nth_update_idx obj_pipe_ok_def)
  have pcnt: "unat (pcount k (pipe_table s' ! q)) = endpoint_refs k q (fdobj_table s')"
    if q: "q < NM_PIPE_MAX" and k: "endpoint k" and u: "pp_used (pipe_table s ! q)" for k q
  proof (cases "endpoint (fo_kind obj) \<and> fo_pipe_id obj = int q")
    case True
    have e: "unat (pcount k' (pipe_table s ! q)) = endpoint_refs k' q (fdobj_table s)" if "endpoint k'" for k'
      using inv(6) [OF q] u that by (simp add: pipe_counts_def)
    have "pcount (fo_kind obj) (pipe_table s ! q) \<noteq> 0"
      using e [of "fo_kind obj"] refs [of "fo_kind obj" q] True by (metis add_is_0 one_neq_zero unat_0)
    then show ?thesis
      using True k refs [of k q] e [OF k] pipes [OF q] by (auto simp: release_endpoint_simps unat_dec32)
  next
    case False
    then show ?thesis
      using inv(6) [OF q] u k refs [of k q] pipes [OF q] by (auto simp: pipe_counts_def split: if_splits)
  qed
  have up: "pp_used (pipe_table s' ! q) \<longleftrightarrow> pp_used (pipe_table s ! q) \<and>
      (pp_readers (pipe_table s' ! q) \<noteq> 0 \<or> pp_writers (pipe_table s' ! q) \<noteq> 0)" if q: "q < NM_PIPE_MAX" for q
    using pipes [OF q] inv(6) [OF q] release_endpoint_simps(2) [of "fo_kind obj" "pipe_table s ! q"]
    by (auto simp: pipe_counts_def)
  have R1: "fo_refcnt obj = 1 \<longleftrightarrow> R i = 1" using rc(1) by (metis unat_1 word_unat_eq_iff)
  then have R1': "fo_refcnt obj \<noteq> 1 \<Longrightarrow> Suc 0 < R i" using rc(2) by auto
  have "obj_counts (R(i := R i - 1)) (fdobj_table s')"
    using inv(1,3,4) rc ne used R1 R1' by (auto simp: obj_counts_def tab nth_update_idx released_obj_def unat_dec32)
  moreover have "obj_pipe_ok (pipe_table s') (fdobj_table s' ! j)" if j: "j < NM_FDOBJ_MAX" for j
  proof -
    let ?o = "fdobj_table s' ! j"
    have old: "fo_used (fdobj_table s ! j)" "fo_kind ?o = fo_kind (fdobj_table s ! j)" "fo_pipe_id ?o = fo_pipe_id (fdobj_table s ! j)"
      if "fo_used ?o"
      using that used j inv(1) by (auto simp: tab nth_update_idx released_obj_def obj_def split: if_splits)
    have "pp_used (pipe_table s' ! nat (fo_pipe_id ?o))"
      if u: "fo_used ?o" and e: "endpoint (fo_kind ?o)"
    proof -
      let ?q = "nat (fo_pipe_id ?o)"
      have q: "?q < NM_PIPE_MAX" "fo_pipe_id ?o = int ?q" "pp_used (pipe_table s ! ?q)"
        using inv(5) [OF j] old [OF u] e by (auto simp: obj_pipe_ok_def)
      have "0 < unat (fo_refcnt ?o)"
        using obj_countsD [OF \<open>obj_counts (R(i := R i - 1)) (fdobj_table s')\<close> j u] .
      then have "0 < ends (fo_kind ?o) ?q ?o" using u q(2) by (simp add: ends_def)
      then have "0 < endpoint_refs (fo_kind ?o) ?q (fdobj_table s')"
        using endpoint_refs_member [of j "fdobj_table s'" "fo_kind ?o" ?q] j inv(1) by (simp add: tab)
      then show ?thesis
        using pcnt [OF q(1) e q(3)] up [OF q(1)] q(3) e by (metis less_irrefl pcount_nonzero unat_0)
    qed
    moreover have "0 \<le> fo_pipe_id ?o \<and> fo_pipe_id ?o < int NM_PIPE_MAX" if "fo_used ?o" "endpoint (fo_kind ?o)"
      using inv(5) [OF j] old that by (auto simp: obj_pipe_ok_def)
    ultimately show ?thesis by (simp add: obj_pipe_ok_def)
  qed
  moreover have "pipe_counts (fdobj_table s') q (pipe_table s' ! q)" if q: "q < NM_PIPE_MAX" for q
    using pcnt [OF q] up [OF q] inv(6) [OF q] pipes [OF q]
    by (auto simp: pipe_counts_def release_endpoint_simps)
  moreover have "length (pipe_table s') = NM_PIPE_MAX" using pt inv(2) by simp
  ultimately show ?thesis
    using r tab inv(1) by (auto simp: fd_inv_def nth_update_idx)
qed

section \<open>A task's descriptor table\<close>

definition tab_refs :: "int list \<Rightarrow> nat \<Rightarrow> nat" where
  "tab_refs tab i = count_if (\<lambda>x. x = int i) tab"

definition tab_ok :: "int list \<Rightarrow> bool" where
  "tab_ok tab \<longleftrightarrow> length tab = NM_MAX_FDS \<and> (\<forall>x\<in>set tab. x = - 1 \<or> 0 \<le> x \<and> x < int NM_FDOBJ_MAX)"

text \<open>
  The view of one task: its table holds only free entries and object numbers, and the object counts
  are those of this table plus \<open>R0\<close>, the references of all other tasks.
\<close>

definition task_fds :: "(nat \<Rightarrow> nat) \<Rightarrow> nm_task \<Rightarrow> fd_state \<Rightarrow> bool" where
  "task_fds R0 task s \<longleftrightarrow> tab_ok (t_fd_table task) \<and> fd_inv (\<lambda>i. R0 i + tab_refs (t_fd_table task) i) s \<and>
     (\<Sum>i<NM_FDOBJ_MAX. R0 i) < 2 ^ 31"

lemma tab_refs_update:
  "fd < length tab \<Longrightarrow> tab_refs (tab[fd := x]) i + (if tab ! fd = int i then 1 else 0) = tab_refs tab i + (if x = int i then 1 else 0)"
  unfolding tab_refs_def by (rule count_if_update)

lemma tab_refs_fun_update:
  assumes "fd < length tab" "tab ! fd = - 1"
  shows "tab_refs (tab[fd := int n]) = (tab_refs tab)(n := tab_refs tab n + 1)"
proof
  fix i
  show "tab_refs (tab[fd := int n]) i = ((tab_refs tab)(n := tab_refs tab n + 1)) i"
    using tab_refs_update [OF assms(1), of "int n" i] assms(2) by simp
qed

lemma tab_refs_neg: "fd < length tab \<Longrightarrow> tab ! fd < 0 \<Longrightarrow> x < 0 \<Longrightarrow> tab_refs (tab[fd := x]) = tab_refs tab"
proof
  fix i
  assume "fd < length tab" "tab ! fd < 0" "x < 0"
  then show "tab_refs (tab[fd := x]) i = tab_refs tab i" using tab_refs_update [of fd tab x i] by simp
qed

lemma tab_refs_free:
  assumes "fd < length tab" "tab ! fd = int n" "x < 0"
  shows "tab_refs (tab[fd := x]) = (tab_refs tab)(n := tab_refs tab n - 1)" "0 < tab_refs tab n"
proof -
  have e: "tab_refs (tab[fd := x]) i + (if n = i then 1 else 0) = tab_refs tab i" for i
    using tab_refs_update [OF assms(1), of x i] assms(2,3) by auto
  show "0 < tab_refs tab n" using e [of n] by simp
  show "tab_refs (tab[fd := x]) = (tab_refs tab)(n := tab_refs tab n - 1)"
  proof
    fix i
    show "tab_refs (tab[fd := x]) i = ((tab_refs tab)(n := tab_refs tab n - 1)) i" using e [of i] by auto
  qed
qed

lemma tab_refs_sum: "(\<Sum>i<n. tab_refs tab i) \<le> length tab"
proof (induction tab)
  case Nil
  then show ?case by (simp add: tab_refs_def)
next
  case (Cons x tab)
  have "(\<Sum>i<n. tab_refs (x # tab) i) = (\<Sum>i<n. tab_refs tab i) + (\<Sum>i<n. if x = int i then 1 else 0)"
    by (simp add: tab_refs_def sum.distrib [symmetric] if_distrib cong: if_cong)
  also have "(\<Sum>i<n. if x = int i then 1 else 0) \<le> (1 :: nat)"
  proof -
    have "(\<Sum>i<n. if x = int i then 1 else 0) = card {i. i < n \<and> x = int i}"
      by (simp add: sum.If_cases lessThan_def Int_def)
    also have "{i. i < n \<and> x = int i} \<subseteq> {nat x}" by auto
    then have "card {i. i < n \<and> x = int i} \<le> card {nat x}" by (intro card_mono) auto
    then have "card {i. i < n \<and> x = int i} \<le> 1" by simp
    finally show ?thesis .
  qed
  finally show ?case using Cons.IH by simp
qed

lemma task_fds_bound:
  "task_fds R0 task s \<Longrightarrow> (\<Sum>i<NM_FDOBJ_MAX. R0 i + tab_refs (t_fd_table task) i) < 2 ^ 32 - 1"
  using tab_refs_sum [of "t_fd_table task" NM_FDOBJ_MAX]
  by (simp add: task_fds_def tab_ok_def NM_MAX_FDS_def sum.distrib)

lemma task_fds_entry:
  assumes "task_fds R0 task s" "fd_in_range fd" "t_fd_table task ! nat fd = x" "x \<noteq> - 1"
  obtains i where "x = int i" "i < NM_FDOBJ_MAX" "fo_used (fdobj_table s ! i)" "nat fd < length (t_fd_table task)"
    "t_fd_table task ! nat fd = int i"
proof -
  have fd: "nat fd < length (t_fd_table task)" using assms(1,2) by (auto simp: task_fds_def tab_ok_def fd_in_range_def)
  then have "x \<in> set (t_fd_table task)" using assms(3) nth_mem by blast
  then have x: "0 \<le> x" "x < int NM_FDOBJ_MAX" using assms(1,4) by (auto simp: task_fds_def tab_ok_def)
  have "0 < tab_refs (t_fd_table task) (nat x)"
    using tab_refs_free(2) [OF fd, of "nat x" "- 1"] assms(3) x by simp
  then have "fo_used (fdobj_table s ! nat x)"
    using fd_invD(4) [of _ s "nat x"] assms(1) x by (auto simp: task_fds_def)
  then show thesis using that [of "nat x"] x fd assms(3) by simp
qed

lemma set_fd_simps [simp]:
  "t_fd_table (set_fd fd x task) = (t_fd_table task)[nat fd := x]" "t_fd_cloexec_mask (set_fd fd x task) = t_fd_cloexec_mask task"
  "t_fd_table (clear_cloexec fd task) = t_fd_table task"
  by (simp_all add: set_fd_def clear_cloexec_def)

lemma tab_ok_update: "tab_ok tab \<Longrightarrow> x = - 1 \<or> 0 \<le> x \<and> x < int NM_FDOBJ_MAX \<Longrightarrow> tab_ok (tab[fd := x])"
  using set_update_subset_insert [of tab fd x] by (auto simp: tab_ok_def)

text \<open>Closing an open descriptor succeeds and gives one reference back.\<close>

lemma task_close_fd_ok:
  assumes "task_fds R0 task s" "fd_in_range fd" "t_fd_table task ! nat fd \<noteq> - 1"
  shows "\<exists>s' v'. task_close_fd fs task fd s v = (0, clear_cloexec fd (set_fd fd (- 1) task), s', v') \<and>
    task_fds R0 (clear_cloexec fd (set_fd fd (- 1) task)) s' \<and>
    (\<forall>j<NM_FDOBJ_MAX. int j \<noteq> t_fd_table task ! nat fd \<longrightarrow> fdobj_table s' ! j = fdobj_table s ! j)"
proof -
  obtain i where i: "t_fd_table task ! nat fd = int i" "i < NM_FDOBJ_MAX" "fo_used (fdobj_table s ! i)" "nat fd < length (t_fd_table task)"
    using task_fds_entry [OF assms(1,2) refl assms(3)] by metis
  have inv: "fd_inv (\<lambda>j. R0 j + tab_refs (t_fd_table task) j) s" using assms(1) by (simp add: task_fds_def)
  obtain s' v' where r: "fdobj_release fs (int i) s v = (0, s', v')"
    and inv': "fd_inv ((\<lambda>j. R0 j + tab_refs (t_fd_table task) j)(i := R0 i + tab_refs (t_fd_table task) i - 1)) s'"
    and fr: "\<forall>j<NM_FDOBJ_MAX. j \<noteq> i \<longrightarrow> fdobj_table s' ! j = fdobj_table s ! j"
    using fdobj_release_inv [OF inv i(2,3), of fs v] by blast
  note f = tab_refs_free [OF i(4) i(1), of "- 1"]
  have "(\<lambda>j. R0 j + tab_refs (t_fd_table task) j)(i := R0 i + tab_refs (t_fd_table task) i - 1) =
      (\<lambda>j. R0 j + tab_refs ((t_fd_table task)[nat fd := - 1]) j)"
    using f by (auto simp: fun_eq_iff)
  then have "task_fds R0 (clear_cloexec fd (set_fd fd (- 1) task)) s'"
    using assms(1) inv' by (simp add: task_fds_def tab_ok_update)
  moreover have "task_close_fd fs task fd s v = (0, clear_cloexec fd (set_fd fd (- 1) task), s', v')"
    using assms(2,3) r i(1) by (simp add: task_close_fd_def)
  ultimately show ?thesis using fr i(1) by auto
qed

lemma nm_fd_close_eq:
  assumes "task_fds R0 task s" "fd_in_range fd" "t_fd_table task ! nat fd \<noteq> - 1"
  shows "nm_fd_close fs task fd s v = task_close_fd fs task fd s v"
proof -
  obtain i where "t_fd_table task ! nat fd = int i" "i < NM_FDOBJ_MAX" "fo_used (fdobj_table s ! i)"
    using task_fds_entry [OF assms(1,2) refl assms(3)] by metis
  then show ?thesis using assms(2,3) by (simp add: nm_fd_close_def task_fdobj_id_def fdobj_get_int)
qed

lemma fdobj_retain_task:
  assumes "task_fds R0 task s" "fd < length (t_fd_table task)" "t_fd_table task ! fd = - 1" "i < NM_FDOBJ_MAX"
    "fo_used (fdobj_table s ! i)"
  shows "\<exists>s'. fdobj_retain (int i) s = (0, s') \<and> task_fds R0 (task\<lparr>t_fd_table := (t_fd_table task)[fd := int i]\<rparr>) s'"
proof -
  have inv: "fd_inv (\<lambda>j. R0 j + tab_refs (t_fd_table task) j) s" using assms(1) by (simp add: task_fds_def)
  obtain s' where r: "fdobj_retain (int i) s = (0, s')"
    and inv': "fd_inv ((\<lambda>j. R0 j + tab_refs (t_fd_table task) j)(i := R0 i + tab_refs (t_fd_table task) i + 1)) s'"
    using fdobj_retain_inv [OF inv assms(4,5) task_fds_bound [OF assms(1)]] by blast
  have "(\<lambda>j. R0 j + tab_refs (t_fd_table task) j)(i := R0 i + tab_refs (t_fd_table task) i + 1) =
      (\<lambda>j. R0 j + tab_refs ((t_fd_table task)[fd := int i]) j)"
    using tab_refs_fun_update [OF assms(2,3), of i] by (auto simp: fun_eq_iff)
  then show ?thesis using r inv' assms(1,4) by (auto simp: task_fds_def tab_ok_update)
qed

lemma nm_fd_dup2_ok:
  assumes "task_fds R0 task s" "fd_in_range oldfd" "fd_in_range newfd" "oldfd \<noteq> newfd" "t_fd_table task ! nat oldfd \<noteq> - 1"
  shows "\<exists>task' s' v'. nm_fd_dup2 fs task oldfd newfd s v = (newfd, task', s', v') \<and> task_fds R0 task' s' \<and>
    t_fd_table task' = (t_fd_table task)[nat newfd := t_fd_table task ! nat oldfd] \<and>
    t_fd_cloexec_mask task' = t_fd_cloexec_mask task AND NOT (fd_bit newfd)"
proof -
  have new: "nat newfd < length (t_fd_table task)" and ne: "nat newfd \<noteq> nat oldfd"
    using assms(1-4) by (auto simp: task_fds_def tab_ok_def fd_in_range_def)
  let ?closed = "t_fd_table task ! nat newfd \<noteq> - 1"
  obtain task1 s1 v1 where c: "(if ?closed then task_close_fd fs task newfd s v else (0, task, s, v)) = (0, task1, s1, v1)"
    and t1: "task_fds R0 task1 s1" "t_fd_table task1 = (t_fd_table task)[nat newfd := - 1]"
      "t_fd_cloexec_mask task1 AND NOT (fd_bit newfd) = t_fd_cloexec_mask task AND NOT (fd_bit newfd)"
  proof (cases ?closed)
    case True
    then show ?thesis using task_close_fd_ok [OF assms(1,3), of fs v] that by (force simp: clear_cloexec_def and.assoc)
  next
    case False
    then have "(t_fd_table task)[nat newfd := - 1] = t_fd_table task" by (metis list_update_id)
    then show ?thesis using that assms(1) False by simp
  qed
  obtain i where i: "t_fd_table task1 ! nat oldfd = int i" "i < NM_FDOBJ_MAX" "fo_used (fdobj_table s1 ! i)"
    using task_fds_entry [OF t1(1) assms(2) refl] t1(2) ne assms(5) by (metis nth_list_update_neq)
  have old: "t_fd_table task ! nat oldfd = int i" using i(1) t1(2) ne by simp
  obtain s2 where r: "fdobj_retain (int i) s1 = (0, s2)"
    "task_fds R0 (task1\<lparr>t_fd_table := (t_fd_table task1)[nat newfd := int i]\<rparr>) s2"
    using fdobj_retain_task [OF t1(1) _ _ i(2,3), of "nat newfd"] t1(2) new by auto
  let ?task2 = "clear_cloexec newfd (set_fd newfd (int i) task1)"
  have "nm_fd_dup2 fs task oldfd newfd s v = (newfd, ?task2, s2, v1)"
    using assms(2-5) c r(1) old by (simp add: nm_fd_dup2_def task_fdobj_id_def task_install_fdobj_def)
  moreover have "task_fds R0 ?task2 s2" using r(2) by (simp add: task_fds_def)
  ultimately show ?thesis using t1 old by (auto simp: clear_cloexec_def)
qed

section \<open>Creating a pipe\<close>

lemma endpoint_refs_cong:
  assumes "length t = length t'" "\<And>i. i < length t \<Longrightarrow> ends k p (t ! i) = ends k p (t' ! i)"
  shows "endpoint_refs k p t = endpoint_refs k p t'"
  unfolding endpoint_refs_def using assms by (intro arg_cong [of _ _ sum_list] nth_equalityI) auto

lemma fd_inv_same_used:
  assumes "fd_inv R s" "length (fdobj_table s') = NM_FDOBJ_MAX" "length (pipe_table s') = NM_PIPE_MAX"
    and o: "\<And>i. i < NM_FDOBJ_MAX \<Longrightarrow> fdobj_table s' ! i = fdobj_table s ! i \<or>
      \<not> fo_used (fdobj_table s ! i) \<and> \<not> fo_used (fdobj_table s' ! i)"
    and p: "\<And>q. q < NM_PIPE_MAX \<Longrightarrow> pipe_table s' ! q = pipe_table s ! q \<or>
      \<not> pp_used (pipe_table s ! q) \<and> \<not> pp_used (pipe_table s' ! q) \<and> pipe_inv (pipe_table s' ! q)"
  shows "fd_inv R s'"
proof -
  note inv = fd_invD [OF assms(1)]
  have refs: "endpoint_refs k q (fdobj_table s') = endpoint_refs k q (fdobj_table s)" for k q
  proof (rule endpoint_refs_cong)
    show "ends k q (fdobj_table s' ! i) = ends k q (fdobj_table s ! i)" if i: "i < length (fdobj_table s')" for i
    proof -
      have "i < NM_FDOBJ_MAX" using i assms(2) by simp
      from o [OF this] show ?thesis by (elim disjE) (simp_all add: ends_def)
    qed
  qed (simp add: assms(2) inv(1))
  have "obj_counts R (fdobj_table s')"
    unfolding obj_counts_def
  proof (intro conjI allI impI)
    fix i
    assume "i < NM_FDOBJ_MAX"
    then show "if fo_used (fdobj_table s' ! i) then unat (fo_refcnt (fdobj_table s' ! i)) = R i \<and> 0 < R i else R i = 0"
      using o [of i] inv(3,4) [of i] by auto
  qed (rule assms(2))
  moreover have "obj_pipe_ok (pipe_table s') (fdobj_table s' ! i)" if i: "i < NM_FDOBJ_MAX" for i
  proof -
    have "pp_used (pipe_table s' ! q) = pp_used (pipe_table s ! q)" if "q < NM_PIPE_MAX" for q
      using p [OF that] by auto
    then show ?thesis using o [OF i] inv(5) [OF i] by (auto simp: obj_pipe_ok_def)
  qed
  moreover have "pipe_counts (fdobj_table s') q (pipe_table s' ! q)" if "q < NM_PIPE_MAX" for q
    using p [OF that] inv(6) [OF that] by (auto simp: pipe_counts_def refs)
  ultimately show ?thesis using assms(3) by (simp add: fd_inv_def)
qed

lemma unused_pipe_refs:
  assumes "fd_inv R s" "p < NM_PIPE_MAX" "\<not> pp_used (pipe_table s ! p)" "endpoint k"
  shows "endpoint_refs k p (fdobj_table s) = 0"
proof -
  note inv = fd_invD [OF assms(1)]
  have "ends k p (fdobj_table s ! i) = 0" if "i < NM_FDOBJ_MAX" for i
    using inv(5) [OF that] assms(3,4) by (auto simp: ends_def obj_pipe_ok_def)
  then have "\<forall>x\<in>set (fdobj_table s). ends k p x = 0" using inv(1) by (metis in_set_conv_nth)
  then show ?thesis by (auto simp: endpoint_refs_def)
qed

lemma fd_inv_new_pipe:
  assumes "fd_inv R s" "i < NM_FDOBJ_MAX" "j < NM_FDOBJ_MAX" "i \<noteq> j" "p < NM_PIPE_MAX"
    and free: "\<not> fo_used (fdobj_table s ! i)" "\<not> fo_used (fdobj_table s ! j)" "\<not> pp_used (pipe_table s ! p)"
    and oi: "fo_used oi" "fo_kind oi = NM_FDOBJ_PIPE_R" "fo_pipe_id oi = int p" "fo_refcnt oi = 1"
    and oj: "fo_used oj" "fo_kind oj = NM_FDOBJ_PIPE_W" "fo_pipe_id oj = int p" "fo_refcnt oj = 1"
    and q: "pp_used q" "pp_readers q = 1" "pp_writers q = 1" "pipe_inv q"
    and s': "fdobj_table s' = (fdobj_table s)[i := oi, j := oj]" "pipe_table s' = (pipe_table s)[p := q]"
  shows "fd_inv (R(i := 1, j := 1)) s'"
proof -
  note inv = fd_invD [OF assms(1)]
  have refs: "endpoint_refs k r (fdobj_table s') = endpoint_refs k r (fdobj_table s) + ends k r oi + ends k r oj" for k r
    using endpoint_refs_update [of i "fdobj_table s" k r oi] endpoint_refs_update [of j "(fdobj_table s)[i := oi]" k r oj]
      assms(2-4) free inv(1) by (simp add: s' ends_def)
  have ek: "ends k r oi = (if k = NM_FDOBJ_PIPE_R \<and> r = p then 1 else 0)"
    "ends k r oj = (if k = NM_FDOBJ_PIPE_W \<and> r = p then 1 else 0)" for k r
    using oi oj by (auto simp: ends_def)
  have "obj_counts (R(i := 1, j := 1)) (fdobj_table s')"
    unfolding obj_counts_def
  proof (intro conjI allI impI)
    fix k
    assume "k < NM_FDOBJ_MAX"
    then show "if fo_used (fdobj_table s' ! k) then unat (fo_refcnt (fdobj_table s' ! k)) = (R(i := 1, j := 1)) k \<and>
        0 < (R(i := 1, j := 1)) k else (R(i := 1, j := 1)) k = 0"
      using inv(1) inv(3,4) [of k] oi oj by (auto simp: s' nth_update_idx)
  qed (simp add: s' inv(1))
  moreover have "obj_pipe_ok (pipe_table s') (fdobj_table s' ! k)" if k: "k < NM_FDOBJ_MAX" for k
    using inv(5) [OF k] oi oj q k inv(1,2) assms(5) free(3)
    by (auto simp: s' nth_update_idx obj_pipe_ok_def)
  moreover have "pipe_counts (fdobj_table s') r (pipe_table s' ! r)" if r: "r < NM_PIPE_MAX" for r
  proof (cases "r = p")
    case True
    then show ?thesis
      using q inv(2) r unused_pipe_refs [OF assms(1,5) free(3)]
      by (auto simp: s'(2) pipe_counts_def pcount_def refs ek endpoint_def)
  next
    case False
    then show ?thesis using inv(6) [OF r] by (auto simp: s'(2) pipe_counts_def refs ek)
  qed
  ultimately show ?thesis using inv(2) by (simp add: fd_inv_def s')
qed

lemma create_pipe_endpoint_cases:
  assumes "create_pipe_endpoint_obj k p s = (r, s1)" "length (fdobj_table s) = NM_FDOBJ_MAX"
  obtains (fail) "r = NM_ERR NM_ENOMEM" "s1 = s"
  | (ok) i where "r = int i" "i < NM_FDOBJ_MAX" "\<not> fo_used (fdobj_table s ! i)"
      "s1 = s\<lparr>fdobj_table := (fdobj_table s)[i := (fdobj_table s ! i)\<lparr>fo_used := True, fo_fs_fd := - 1, fo_kind := k,
         fo_pipe_id := p, fo_refcnt := 1\<rparr>]\<rparr>"
proof (cases "alloc_fdobj (fdobj_table s)")
  case None
  then show ?thesis using assms fail by (simp add: create_pipe_endpoint_obj_def)
next
  case (Some x)
  obtain i table where x: "x = (i, table)" by (metis prod.exhaust)
  note al = fdobjs.alloc_SomeD [OF Some [unfolded x]]
  have "s1 = s\<lparr>fdobj_table := (fdobj_table s)[i := (fdobj_table s ! i)\<lparr>fo_used := True, fo_fs_fd := - 1, fo_kind := k,
      fo_pipe_id := p, fo_refcnt := 1\<rparr>]\<rparr>" "r = int i"
    using assms(1) Some x al(1,3) by (auto simp: create_pipe_endpoint_obj_def upd_obj_def fresh_fdobj_def)
  then show ?thesis using ok [of i] al(1,2) assms(2) by simp
qed

lemma fresh_pipe_inv: "pipe_inv p \<Longrightarrow> pipe_inv (fresh_pipe p)" "pp_used (fresh_pipe p)" "pp_readers (fresh_pipe p) = 1"
  "pp_writers (fresh_pipe p) = 1" "pipe_contents (fresh_pipe p) = []"
  by (simp_all add: pipe_inv_def fresh_pipe_def pipe_contents_def)

lemma drop_pipe_inv: "pipe_inv p \<Longrightarrow> pipe_inv (drop_pipe p)" "\<not> pp_used (drop_pipe p)"
  by (simp_all add: pipe_inv_def drop_pipe_def)

lemma alloc_task_fd_cases:
  obtains (full) "alloc_task_fd task = NM_ERR NM_ENOMEM"
  | (free) a where "alloc_task_fd task = int a" "a < length (t_fd_table task)" "t_fd_table task ! a = - 1"
  by (cases "first_idx (\<lambda>x. x = - 1) (t_fd_table task)") (auto simp: alloc_task_fd_def dest: first_idx_SomeD)

text \<open>The two failure paths after the pipe slot was taken put everything back.\<close>

lemma pipe_undo_first:
  assumes "fd_inv R s" "p < NM_PIPE_MAX" "\<not> pp_used (pipe_table s ! p)"
  shows "fd_inv R (upd_pipe p drop_pipe (upd_pipe p fresh_pipe s))"
proof (rule fd_inv_same_used [OF assms(1)])
  note inv = fd_invD [OF assms(1)]
  show "pipe_table (upd_pipe p drop_pipe (upd_pipe p fresh_pipe s)) ! q = pipe_table s ! q \<or>
      \<not> pp_used (pipe_table s ! q) \<and> \<not> pp_used (pipe_table (upd_pipe p drop_pipe (upd_pipe p fresh_pipe s)) ! q) \<and>
      pipe_inv (pipe_table (upd_pipe p drop_pipe (upd_pipe p fresh_pipe s)) ! q)" if q: "q < NM_PIPE_MAX" for q
    using inv(2) inv(6) [OF q] assms(2,3) q by (cases "q = p") (auto simp: drop_pipe_inv fresh_pipe_inv pipe_counts_def)
qed (use fd_invD(1,2) [OF assms(1)] in simp_all)

lemma pipe_undo_second:
  assumes "fd_inv R s" "p < NM_PIPE_MAX" "\<not> pp_used (pipe_table s ! p)" "i < NM_FDOBJ_MAX" "\<not> fo_used (fdobj_table s ! i)"
    and "s2 = (upd_pipe p fresh_pipe s)\<lparr>fdobj_table := (fdobj_table s)[i := (fdobj_table s ! i)\<lparr>fo_used := True,
       fo_fs_fd := - 1, fo_kind := NM_FDOBJ_PIPE_R, fo_pipe_id := int p, fo_refcnt := 1\<rparr>]\<rparr>"
    and "fdobj_release fs (int i) s2 v = (x, s3, v')"
  shows "fd_inv R (upd_pipe p drop_pipe s3)"
proof -
  note inv = fd_invD [OF assms(1)]
  have tab: "\<exists>obj. fdobj_table s3 = (fdobj_table s)[i := obj] \<and> \<not> fo_used obj"
    and pt: "\<exists>q. pipe_table s3 = (pipe_table s)[p := q] \<and> pipe_inv q"
    using assms(2,4,7) inv(1,2) inv(6) [OF assms(2)] unfolding assms(6)
    by (auto simp: fdobj_release_def fdobj_get_int Let_def pipe_on_endpoint_release_def fresh_pipe_inv
        release_endpoint_simps pipe_counts_def)
  then obtain obj q where o: "fdobj_table s3 = (fdobj_table s)[i := obj]" "\<not> fo_used obj"
    and q: "pipe_table s3 = (pipe_table s)[p := q]" "pipe_inv q" by blast
  show ?thesis
  proof (rule fd_inv_same_used [OF assms(1)])
    show "fdobj_table (upd_pipe p drop_pipe s3) ! k = fdobj_table s ! k \<or>
        \<not> fo_used (fdobj_table s ! k) \<and> \<not> fo_used (fdobj_table (upd_pipe p drop_pipe s3) ! k)" if "k < NM_FDOBJ_MAX" for k
      using o assms(5) inv(1) that by (auto simp: nth_update_idx)
    show "pipe_table (upd_pipe p drop_pipe s3) ! r = pipe_table s ! r \<or>
        \<not> pp_used (pipe_table s ! r) \<and> \<not> pp_used (pipe_table (upd_pipe p drop_pipe s3) ! r) \<and>
        pipe_inv (pipe_table (upd_pipe p drop_pipe s3) ! r)" if "r < NM_PIPE_MAX" for r
      using q assms(2,3) inv(2) that by (cases "r = p") (auto simp: drop_pipe_inv)
  qed (use o q inv(1,2) in simp_all)
qed

lemma pipe_connect_cases:
  assumes inv: "fd_inv R s" and p: "p < NM_PIPE_MAX" "\<not> pp_used (pipe_table s ! p)"
    and r: "pipe_connect fs rd wr p task s v = (r, fds, task', s', v')" and rng: "fd_in_range rd" "fd_in_range wr"
  obtains (fail) "r \<noteq> 0" "fds = None" "task' = set_fd rd (- 1) task" "fd_inv R s'"
  | (ok) i j where "r = 0" "fds = Some (rd, wr)" "task' = set_fd wr (int j) (set_fd rd (int i) task)"
      "i < NM_FDOBJ_MAX" "j < NM_FDOBJ_MAX" "i \<noteq> j" "\<not> fo_used (fdobj_table s ! i)" "\<not> fo_used (fdobj_table s ! j)"
      "fo_used (fdobj_table s' ! i)" "fo_kind (fdobj_table s' ! i) = NM_FDOBJ_PIPE_R" "fo_pipe_id (fdobj_table s' ! i) = int p"
      "fo_used (fdobj_table s' ! j)" "fo_kind (fdobj_table s' ! j) = NM_FDOBJ_PIPE_W" "fo_pipe_id (fdobj_table s' ! j) = int p"
      "pipe_table s' = (pipe_table s)[p := fresh_pipe (pipe_table s ! p)]" "fd_inv (R(i := 1, j := 1)) s'" "v' = v"
proof -
  note iv = fd_invD [OF inv]
  define s1 where "s1 = upd_pipe p fresh_pipe s"
  obtain ro s2 where c1: "create_pipe_endpoint_obj NM_FDOBJ_PIPE_R (int p) s1 = (ro, s2)" by (metis prod.exhaust)
  have l1: "length (fdobj_table s1) = NM_FDOBJ_MAX" "fdobj_table s1 = fdobj_table s" using iv(1) by (simp_all add: s1_def)
  show thesis
    using c1 l1(1)
  proof (cases rule: create_pipe_endpoint_cases)
    case fail
    then have "(r, fds, task', s', v') = (NM_ERR NM_ENOMEM, None, set_fd rd (- 1) task, upd_pipe p drop_pipe s1, v)"
      using r c1 by (simp add: pipe_connect_def s1_def [symmetric])
    then show ?thesis using that(1) pipe_undo_first [OF inv p] by (simp add: s1_def)
  next
    case (ok i)
    obtain wo s3 where c2: "create_pipe_endpoint_obj NM_FDOBJ_PIPE_W (int p) s2 = (wo, s3)" by (metis prod.exhaust)
    let ?oi = "(fdobj_table s ! i)\<lparr>fo_used := True, fo_fs_fd := - 1, fo_kind := NM_FDOBJ_PIPE_R, fo_pipe_id := int p, fo_refcnt := 1\<rparr>"
    have s2: "s2 = (upd_pipe p fresh_pipe s)\<lparr>fdobj_table := (fdobj_table s)[i := ?oi]\<rparr>"
      using ok(4) l1 by (simp add: s1_def)
    have l2: "length (fdobj_table s2) = NM_FDOBJ_MAX" using l1 by (simp add: s2)
    show ?thesis
      using c2 l2
    proof (cases rule: create_pipe_endpoint_cases)
      case fail
      obtain x s4 v4 where rel: "fdobj_release fs (int i) s2 v = (x, s4, v4)" by (metis prod_cases3)
      have "(r, fds, task', s', v') = (NM_ERR NM_ENOMEM, None, set_fd rd (- 1) task, upd_pipe p drop_pipe s4, v4)"
        using r c1 c2 ok(1) fail rel by (simp add: pipe_connect_def s1_def [symmetric])
      then show ?thesis
        using that(1) pipe_undo_second [OF inv p ok(2) _ s2 rel] ok(3) l1 by simp
    next
      case (ok j)
      let ?oj = "(fdobj_table s ! j)\<lparr>fo_used := True, fo_fs_fd := - 1, fo_kind := NM_FDOBJ_PIPE_W, fo_pipe_id := int p, fo_refcnt := 1\<rparr>"
      have ij: "i \<noteq> j" "\<not> fo_used (fdobj_table s ! j)" "\<not> fo_used (fdobj_table s ! i)"
        using ok(2,3) \<open>i < NM_FDOBJ_MAX\<close> iv(1) \<open>\<not> fo_used (fdobj_table s1 ! i)\<close> l1
        by (auto simp: s2 nth_update_idx split: if_splits)
      have s3: "fdobj_table s3 = (fdobj_table s)[i := ?oi, j := ?oj]" "pipe_table s3 = (pipe_table s)[p := fresh_pipe (pipe_table s ! p)]"
        using ok(4) ij by (simp_all add: s2)
      have "(r, fds, task', s', v') = (0, Some (rd, wr), set_fd wr (int j) (set_fd rd (int i) task), s3, v)"
        using r c1 c2 ok(1) \<open>ro = int i\<close> rng by (simp add: pipe_connect_def s1_def [symmetric] task_install_fdobj_def)
      moreover have "fd_inv (R(i := 1, j := 1)) s3"
        using fd_inv_new_pipe [OF inv \<open>i < NM_FDOBJ_MAX\<close> ok(2) ij(1) p(1) ij(3,2) p(2), of ?oi ?oj "fresh_pipe (pipe_table s ! p)"]
          s3 iv(6) [OF p(1)] by (simp add: fresh_pipe_inv pipe_counts_def)
      ultimately show ?thesis
        by (intro that(2) [where i = i and j = j]) (use ij ok(2) \<open>i < NM_FDOBJ_MAX\<close> s3 iv(1) in simp_all)
    qed
  qed
qed

text \<open>
  Creating a pipe: either nothing of the task changes (and the object counts stay), or two different
  free descriptors become the two ends of an empty pipe with one reference each.
\<close>

lemma nm_fd_pipe_cases:
  assumes "task_fds R0 task s" "nm_fd_pipe fs task s v = (r, fds, task', s', v')"
  obtains (fail) "r \<noteq> 0" "fds = None" "t_fd_table task' = t_fd_table task" "t_fd_cloexec_mask task' = t_fd_cloexec_mask task"
      "task_fds R0 task' s'"
  | (ok) rd wr i j p where "r = 0" "fds = Some (int rd, int wr)" "rd < NM_MAX_FDS" "wr < NM_MAX_FDS" "rd \<noteq> wr"
      "t_fd_table task ! rd = - 1" "t_fd_table task ! wr = - 1" "i < NM_FDOBJ_MAX" "j < NM_FDOBJ_MAX" "i \<noteq> j"
      "p < NM_PIPE_MAX" "\<not> fo_used (fdobj_table s ! i)" "\<not> fo_used (fdobj_table s ! j)" "\<not> pp_used (pipe_table s ! p)"
      "t_fd_table task' = (t_fd_table task)[rd := int i, wr := int j]" "t_fd_cloexec_mask task' = t_fd_cloexec_mask task"
      "fo_used (fdobj_table s' ! i)" "fo_kind (fdobj_table s' ! i) = NM_FDOBJ_PIPE_R" "fo_pipe_id (fdobj_table s' ! i) = int p"
      "fo_used (fdobj_table s' ! j)" "fo_kind (fdobj_table s' ! j) = NM_FDOBJ_PIPE_W" "fo_pipe_id (fdobj_table s' ! j) = int p"
      "pipe_table s' = (pipe_table s)[p := fresh_pipe (pipe_table s ! p)]"
      "task_fds R0 task' s'" "v' = v"
proof -
  have inv: "fd_inv (\<lambda>i. R0 i + tab_refs (t_fd_table task) i) s" and tok: "tab_ok (t_fd_table task)"
    and bnd: "(\<Sum>i<NM_FDOBJ_MAX. R0 i) < 2 ^ 31" using assms(1) by (simp_all add: task_fds_def)
  note iv = fd_invD [OF inv]
  have len: "length (t_fd_table task) = NM_MAX_FDS" using tok by (simp add: tab_ok_def)
  consider (early) "r \<noteq> 0" "fds = None" "t_fd_table task' = t_fd_table task" "t_fd_cloexec_mask task' = t_fd_cloexec_mask task" "s' = s"
    | (connect) p a b where "pipe_slot s = Some p" "a < NM_MAX_FDS" "b < NM_MAX_FDS" "a \<noteq> b" "t_fd_table task ! a = - 1"
        "t_fd_table task ! b = - 1" "pipe_connect fs (int a) (int b) p (set_fd (int a) (- 2) task) s v = (r, fds, task', s', v')"
  proof (cases "pipe_slot s")
    case None
    then show ?thesis using assms(2) early by (simp add: nm_fd_pipe_def)
  next
    case (Some p)
    show ?thesis
    proof (cases rule: alloc_task_fd_cases [of task])
      case full
      then show ?thesis using assms(2) Some early by (simp add: nm_fd_pipe_def)
    next
      case (free a)
      then have a: "alloc_task_fd task = int a" "a < NM_MAX_FDS" "t_fd_table task ! a = - 1" using len by simp_all
      have upd: "(t_fd_table task)[a := - 1] = t_fd_table task" using a(3) by (metis list_update_id)
      show ?thesis
      proof (cases rule: alloc_task_fd_cases [of "set_fd (int a) (- 2) task"])
        case full
        then show ?thesis using assms(2) Some early a(1) upd by (auto simp: nm_fd_pipe_def Let_def)
      next
        case (free b)
        then have b: "b < NM_MAX_FDS" "a \<noteq> b" "t_fd_table task ! b = - 1"
          using len by (auto simp: nth_update_idx split: if_splits)
        have "pipe_connect fs (int a) (int b) p (set_fd (int a) (- 2) task) s v = (r, fds, task', s', v')"
          using assms(2) Some a(1) free(1) by (simp add: nm_fd_pipe_def Let_def)
        then show ?thesis using connect Some a b by blast
      qed
    qed
  qed
  then show thesis
  proof cases
    case early
    then show ?thesis using fail assms(1) by (simp add: task_fds_def)
  next
    case (connect p a b)
    have p: "p < NM_PIPE_MAX" "\<not> pp_used (pipe_table s ! p)"
      using first_idx_SomeD [OF connect(1) [unfolded pipe_slot_def]] iv(2) by simp_all
    have rng: "fd_in_range (int a)" "fd_in_range (int b)" using connect(2,3) by (simp_all add: fd_in_range_def)
    show ?thesis
      using inv p connect(7) rng
    proof (cases rule: pipe_connect_cases)
      case fail
      have "(t_fd_table task)[a := - 1] = t_fd_table task" using connect(5) by (metis list_update_id)
      then have "t_fd_table task' = t_fd_table task" "t_fd_cloexec_mask task' = t_fd_cloexec_mask task"
        using fail(3) by simp_all
      then show ?thesis using that(1) fail tok bnd by (simp add: task_fds_def)
    next
      case (ok i j)
      have tab: "t_fd_table task' = (t_fd_table task)[a := int i, b := int j]" "t_fd_cloexec_mask task' = t_fd_cloexec_mask task"
        using ok(3) by simp_all
      have zero: "R0 i + tab_refs (t_fd_table task) i = 0" "R0 j + tab_refs (t_fd_table task) j = 0"
        using iv(4) [OF ok(4)] iv(4) [OF ok(5)] ok(7,8) by auto
      have "tab_refs (t_fd_table task') = (tab_refs (t_fd_table task))(i := 1, j := 1)"
        using tab_refs_fun_update [of a "t_fd_table task" i] tab_refs_fun_update [of b "(t_fd_table task)[a := int i]" j]
          connect(2-6) len zero ok(6) by (auto simp: tab)
      then have "(\<lambda>k. R0 k + tab_refs (t_fd_table task') k) = (\<lambda>k. R0 k + tab_refs (t_fd_table task) k)(i := 1, j := 1)"
        using zero by (auto simp: fun_eq_iff)
      then have "task_fds R0 task' s'"
        using ok(16) bnd tok ok(4,5) by (auto simp: task_fds_def tab intro!: tab_ok_update)
      then show ?thesis
        using that(2) [of a b i j p] ok connect p tab by simp
    qed
  qed
qed

section \<open>Fork and exec\<close>

lemma tab_refs_take: "k < length tab \<Longrightarrow> tab_refs (take (Suc k) tab) i = tab_refs (take k tab) i + (if tab ! k = int i then 1 else 0)"
  by (simp add: tab_refs_def take_Suc_conv_app_nth)

lemma fork_inherit_loop:
  assumes "fd_inv R s" "(\<Sum>i<NM_FDOBJ_MAX. R i) < 2 ^ 31" "tab_ok (t_fd_table child)"
    and "\<And>x. x \<in> set (t_fd_table child) \<Longrightarrow> x \<noteq> - 1 \<Longrightarrow> 0 < R (nat x)"
  shows "k \<le> NM_MAX_FDS \<Longrightarrow> \<exists>s'. fold fork_inherit [0..<k] (child, s) = (child, s') \<and>
    fd_inv (\<lambda>i. R i + tab_refs (take k (t_fd_table child)) i) s'"
proof (induction k)
  case 0
  then show ?case using assms(1) by (simp add: tab_refs_def)
next
  case (Suc k)
  let ?tab = "t_fd_table child"
  obtain s1 where s1: "fold fork_inherit [0..<k] (child, s) = (child, s1)" "fd_inv (\<lambda>i. R i + tab_refs (take k ?tab) i) s1"
    using Suc by auto
  have k: "k < length ?tab" using Suc.prems assms(3) by (simp add: tab_ok_def)
  show ?case
  proof (cases "?tab ! k = - 1")
    case True
    then have "(\<lambda>i. R i + tab_refs (take (Suc k) ?tab) i) = (\<lambda>i. R i + tab_refs (take k ?tab) i)"
      using tab_refs_take [OF k] by (auto simp: fun_eq_iff)
    then show ?thesis using s1 True by (simp add: fork_inherit_def [of k])
  next
    case False
    have mem: "?tab ! k \<in> set ?tab" using k by simp
    then obtain i where i: "?tab ! k = int i" "i < NM_FDOBJ_MAX"
      using assms(3) False by (metis nonneg_int_cases nat_int tab_ok_def of_nat_less_iff)
    have pos: "0 < R i" using assms(4) [OF mem False] i(1) by simp
    have used: "fo_used (fdobj_table s1 ! i)" using fd_invD(4) [OF s1(2) i(2)] pos by simp
    have "(\<Sum>i<NM_FDOBJ_MAX. R i + tab_refs (take k ?tab) i) < 2 ^ 32 - 1"
      using assms(2,3) tab_refs_sum [of "take k ?tab" NM_FDOBJ_MAX] k
      by (simp add: sum.distrib tab_ok_def NM_MAX_FDS_def)
    then obtain s2 where s2: "fdobj_retain (int i) s1 = (0, s2)"
      "fd_inv ((\<lambda>j. R j + tab_refs (take k ?tab) j)(i := R i + tab_refs (take k ?tab) i + 1)) s2"
      using fdobj_retain_inv [OF s1(2) i(2) used] by blast
    have "(\<lambda>j. R j + tab_refs (take (Suc k) ?tab) j) = (\<lambda>j. R j + tab_refs (take k ?tab) j)(i := R i + tab_refs (take k ?tab) i + 1)"
      using tab_refs_take [OF k] i(1) by (auto simp: fun_eq_iff)
    then show ?thesis using s1(1) s2 i(1) by (simp add: fork_inherit_def [of k])
  qed
qed

lemma nm_fd_on_fork_child_ok:
  assumes "fd_inv R s" "(\<Sum>i<NM_FDOBJ_MAX. R i) < 2 ^ 31" "tab_ok (t_fd_table child)"
    and "\<And>x. x \<in> set (t_fd_table child) \<Longrightarrow> x \<noteq> - 1 \<Longrightarrow> 0 < R (nat x)"
  shows "\<exists>s'. nm_fd_on_fork_child child s = (0, child, s') \<and> fd_inv (\<lambda>i. R i + tab_refs (t_fd_table child) i) s'"
  using fork_inherit_loop [OF assms, of NM_MAX_FDS] assms(3) by (auto simp: nm_fd_on_fork_child_def tab_ok_def)

lemma bit_fd_bit: "k < NM_MAX_FDS \<Longrightarrow> bit (fd_bit (int k)) j \<longleftrightarrow> j = k"
  by (auto simp: fd_bit_def push_bit_of_1 bit_exp_iff NM_MAX_FDS_def)

lemma mask_test: "k < NM_MAX_FDS \<Longrightarrow> (m :: u32) AND fd_bit (int k) = 0 \<longleftrightarrow> \<not> bit m k"
proof -
  assume k: "k < NM_MAX_FDS"
  have "m AND fd_bit (int k) = 0 \<longleftrightarrow> (\<forall>n. \<not> (bit m n \<and> bit (fd_bit (int k)) n))"
    by (simp add: bit_eq_iff bit_and_iff) (use bit_imp_le_length [of m] in fastforce)
  then show ?thesis using bit_fd_bit [OF k] by auto
qed

lemma bit_clear_cloexec:
  "k < NM_MAX_FDS \<Longrightarrow> bit (t_fd_cloexec_mask (clear_cloexec (int k) t)) j \<longleftrightarrow> bit (t_fd_cloexec_mask t) j \<and> j \<noteq> k"
  using bit_imp_le_length [of "t_fd_cloexec_mask t" j]
  by (auto simp: clear_cloexec_def bit_and_iff bit_not_iff bit_fd_bit)

definition exec_table :: "nat \<Rightarrow> nm_task \<Rightarrow> int list" where
  "exec_table k task = map (\<lambda>j. if j < k \<and> bit (t_fd_cloexec_mask task) j then - 1 else t_fd_table task ! j) [0..<NM_MAX_FDS]"

lemma exec_table_nth [simp]:
  "length (exec_table k task) = NM_MAX_FDS"
  "j < NM_MAX_FDS \<Longrightarrow> exec_table k task ! j = (if j < k \<and> bit (t_fd_cloexec_mask task) j then - 1 else t_fd_table task ! j)"
  by (simp_all add: exec_table_def)

lemma exec_close_step:
  assumes "task_fds R0 t1 s1" "k < NM_MAX_FDS"
  shows "\<exists>t2 s2 v2. exec_close fs k (t1, s1, v1) = (t2, s2, v2) \<and> task_fds R0 t2 s2 \<and>
    t_fd_table t2 = (if bit (t_fd_cloexec_mask t1) k then (t_fd_table t1)[k := - 1] else t_fd_table t1) \<and>
    (\<forall>j. bit (t_fd_cloexec_mask t2) j \<longleftrightarrow> bit (t_fd_cloexec_mask t1) j \<and> j \<noteq> k)"
proof -
  have rng: "fd_in_range (int k)" using assms(2) by (simp add: fd_in_range_def)
  show ?thesis
  proof (cases "bit (t_fd_cloexec_mask t1) k")
    case False
    then show ?thesis using assms mask_test [OF assms(2)] by (auto simp: exec_close_def)
  next
    case True
    show ?thesis
    proof (cases "t_fd_table t1 ! k = - 1")
      case True
      then have "(t_fd_table t1)[k := - 1] = t_fd_table t1" by (metis list_update_id)
      then show ?thesis
        using \<open>bit (t_fd_cloexec_mask t1) k\<close> True assms mask_test [OF assms(2)] rng bit_clear_cloexec [OF assms(2)]
        by (auto simp: exec_close_def task_fdobj_id_def task_fds_def)
    next
      case False
      obtain i where i: "t_fd_table t1 ! k = int i" "i < NM_FDOBJ_MAX" "fo_used (fdobj_table s1 ! i)"
        using task_fds_entry [OF assms(1) rng refl] False by (metis nat_int)
      obtain s2 v2 where c: "task_close_fd fs t1 (int k) s1 v1 = (0, clear_cloexec (int k) (set_fd (int k) (- 1) t1), s2, v2)"
        "task_fds R0 (clear_cloexec (int k) (set_fd (int k) (- 1) t1)) s2"
        using task_close_fd_ok [OF assms(1) rng, of fs v1] False by auto
      have "exec_close fs k (t1, s1, v1) = (clear_cloexec (int k) (set_fd (int k) (- 1) t1), s2, v2)"
        using True c(1) i rng mask_test [OF assms(2)] by (simp add: exec_close_def task_fdobj_id_def fdobj_get_int)
      then show ?thesis
        using True c(2) bit_clear_cloexec [OF assms(2)] by auto
    qed
  qed
qed

lemma exec_close_loop:
  assumes "task_fds R0 task s"
  shows "k \<le> NM_MAX_FDS \<Longrightarrow> \<exists>t1 s1 v1. fold (exec_close fs) [0..<k] (task, s, v) = (t1, s1, v1) \<and> task_fds R0 t1 s1 \<and>
    t_fd_table t1 = exec_table k task \<and> (\<forall>j. bit (t_fd_cloexec_mask t1) j \<longleftrightarrow> bit (t_fd_cloexec_mask task) j \<and> k \<le> j)"
proof (induction k)
  case 0
  have "exec_table 0 task = t_fd_table task"
    using assms by (auto simp: exec_table_def task_fds_def tab_ok_def intro!: nth_equalityI)
  then show ?case using assms by simp
next
  case (Suc k)
  then obtain t1 s1 v1 where st: "fold (exec_close fs) [0..<k] (task, s, v) = (t1, s1, v1)" "task_fds R0 t1 s1"
    "t_fd_table t1 = exec_table k task" "\<forall>j. bit (t_fd_cloexec_mask t1) j \<longleftrightarrow> bit (t_fd_cloexec_mask task) j \<and> k \<le> j"
    by auto
  have k: "k < NM_MAX_FDS" using Suc.prems by simp
  obtain t2 s2 v2 where st2: "exec_close fs k (t1, s1, v1) = (t2, s2, v2)" "task_fds R0 t2 s2"
    "t_fd_table t2 = (if bit (t_fd_cloexec_mask t1) k then (t_fd_table t1)[k := - 1] else t_fd_table t1)"
    "\<forall>j. bit (t_fd_cloexec_mask t2) j \<longleftrightarrow> bit (t_fd_cloexec_mask t1) j \<and> j \<noteq> k"
    using exec_close_step [OF st(2) k, of fs v1] by (elim exE conjE)
  have "t_fd_table t2 = exec_table (Suc k) task"
  proof (rule nth_equalityI)
    show "length (t_fd_table t2) = length (exec_table (Suc k) task)" by (simp add: st2(3) st(3))
    show "t_fd_table t2 ! j = exec_table (Suc k) task ! j" if j: "j < length (t_fd_table t2)" for j
    proof -
      have "j < NM_MAX_FDS" using j unfolding st2(3) st(3) by (simp split: if_splits)
      moreover have "bit (t_fd_cloexec_mask t1) k = bit (t_fd_cloexec_mask task) k" using st(4) by simp
      ultimately show ?thesis unfolding st2(3) st(3) using k by (simp add: nth_update_idx less_Suc_eq)
    qed
  qed
  moreover have "\<forall>j. bit (t_fd_cloexec_mask t2) j \<longleftrightarrow> bit (t_fd_cloexec_mask task) j \<and> Suc k \<le> j"
  proof
    fix j
    show "bit (t_fd_cloexec_mask t2) j \<longleftrightarrow> bit (t_fd_cloexec_mask task) j \<and> Suc k \<le> j"
      unfolding st2(4) [rule_format, of j] st(4) [rule_format, of j] by auto
  qed
  moreover have "fold (exec_close fs) [0..<Suc k] (task, s, v) = (t2, s2, v2)" using st(1) st2(1) by simp
  ultimately show ?case using st2(2) by blast
qed

lemma nm_fd_close_on_exec_ok:
  assumes "task_fds R0 task s"
  shows "\<exists>task' s' v'. nm_fd_close_on_exec fs task s v = (task', s', v') \<and> task_fds R0 task' s' \<and>
    t_fd_cloexec_mask task' = 0 \<and> t_fd_table task' = exec_table NM_MAX_FDS task"
proof -
  obtain t1 s1 v1 where r: "nm_fd_close_on_exec fs task s v = (t1, s1, v1)" "task_fds R0 t1 s1"
    "t_fd_table t1 = exec_table NM_MAX_FDS task"
    "\<forall>j. bit (t_fd_cloexec_mask t1) j \<longleftrightarrow> bit (t_fd_cloexec_mask task) j \<and> NM_MAX_FDS \<le> j"
    using exec_close_loop [OF assms, of NM_MAX_FDS fs v] by (auto simp: nm_fd_close_on_exec_def)
  have "t_fd_cloexec_mask t1 = 0"
    by (rule bit_word_eqI) (use r(4) in \<open>auto simp: NM_MAX_FDS_def\<close>)
  then show ?thesis using r by blast
qed

section \<open>All tasks together\<close>

definition all_refs :: "nm_task list \<Rightarrow> nat \<Rightarrow> nat" where
  "all_refs tasks i = sum_list (map (\<lambda>t. tab_refs (t_fd_table t) i) tasks)"

definition fds_inv :: "nm_task list \<Rightarrow> fd_state \<Rightarrow> bool" where
  "fds_inv tasks s \<longleftrightarrow> length tasks \<le> NM_MAX_TASKS \<and> (\<forall>t\<in>set tasks. tab_ok (t_fd_table t)) \<and> fd_inv (all_refs tasks) s"

lemma all_refs_sum:
  assumes "\<forall>t\<in>set tasks. tab_ok (t_fd_table t)"
  shows "(\<Sum>i<n. all_refs tasks i) \<le> NM_MAX_FDS * length tasks"
  using assms
proof (induction tasks)
  case Nil
  then show ?case by (simp add: all_refs_def)
next
  case (Cons t tasks)
  have "(\<Sum>i<n. all_refs (t # tasks) i) = (\<Sum>i<n. tab_refs (t_fd_table t) i) + (\<Sum>i<n. all_refs tasks i)"
    by (simp add: all_refs_def sum.distrib)
  then show ?case
    using Cons tab_refs_sum [of "t_fd_table t" n] by (simp add: tab_ok_def)
qed

lemma all_refs_split:
  "k < length tasks \<Longrightarrow> all_refs (tasks[k := t]) i + tab_refs (t_fd_table (tasks ! k)) i = all_refs tasks i + tab_refs (t_fd_table t) i"
  unfolding all_refs_def by (rule sum_list_map_update)

lemma all_refs_member: "k < length tasks \<Longrightarrow> tab_refs (t_fd_table (tasks ! k)) i \<le> all_refs tasks i"
  unfolding all_refs_def by (rule sum_list_map_member)

definition others :: "nm_task list \<Rightarrow> nat \<Rightarrow> nat \<Rightarrow> nat" where
  "others tasks k i = all_refs tasks i - tab_refs (t_fd_table (tasks ! k)) i"

lemma fds_inv_task:
  assumes "fds_inv tasks s" "k < length tasks"
  shows "task_fds (others tasks k) (tasks ! k) s"
proof -
  have sum: "(\<lambda>i. others tasks k i + tab_refs (t_fd_table (tasks ! k)) i) = all_refs tasks"
    using all_refs_member [OF assms(2)] by (auto simp: others_def fun_eq_iff)
  have "(\<Sum>i<NM_FDOBJ_MAX. others tasks k i) \<le> (\<Sum>i<NM_FDOBJ_MAX. all_refs tasks i)"
    by (rule sum_mono) (simp add: others_def)
  also have "\<dots> \<le> NM_MAX_FDS * length tasks" using assms(1) by (intro all_refs_sum) (simp add: fds_inv_def)
  also have "\<dots> \<le> NM_MAX_FDS * NM_MAX_TASKS" using assms(1) by (simp add: fds_inv_def)
  also have "\<dots> < 2 ^ 31" by (simp add: NM_MAX_FDS_def NM_MAX_TASKS_def)
  finally show ?thesis
    unfolding task_fds_def sum using assms by (simp add: fds_inv_def)
qed

lemma task_fds_inv:
  assumes "fds_inv tasks s" "k < length tasks" "task_fds (others tasks k) t s'"
  shows "fds_inv (tasks[k := t]) s'"
proof -
  have "all_refs (tasks[k := t]) i = others tasks k i + tab_refs (t_fd_table t) i" for i
    using all_refs_split [OF assms(2), of t i] all_refs_member [OF assms(2), of i] by (simp add: others_def)
  then have "all_refs (tasks[k := t]) = (\<lambda>i. others tasks k i + tab_refs (t_fd_table t) i)" by auto
  then show ?thesis
    using assms set_update_subset_insert [of tasks k t] by (auto simp: fds_inv_def task_fds_def)
qed

lemma fd_inv_pipe_data:
  assumes "fd_inv R s" "p < NM_PIPE_MAX" "pipe_inv q" "pp_used q = pp_used (pipe_table s ! p)"
    "pp_readers q = pp_readers (pipe_table s ! p)" "pp_writers q = pp_writers (pipe_table s ! p)"
  shows "fd_inv R (upd_pipe p (\<lambda>_. q) s)"
proof -
  note inv = fd_invD [OF assms(1)]
  have "obj_pipe_ok ((pipe_table s)[p := q]) (fdobj_table s ! i)" if "i < NM_FDOBJ_MAX" for i
    using inv(5) [OF that] inv(2) assms(4) by (auto simp: obj_pipe_ok_def nth_update_idx)
  moreover have "pipe_counts (fdobj_table s) r ((pipe_table s)[p := q] ! r)" if "r < NM_PIPE_MAX" for r
    using inv(6) [OF that] inv(2) assms(3-6) that by (auto simp: nth_update_idx pipe_counts_def pcount_def)
  ultimately show ?thesis using assms(1) inv(2) by (simp add: fd_inv_def)
qed

lemma read_from_fdobj_inv:
  assumes "fd_inv R s" "read_from_fdobj fs obj len s v = (n, out, s', v')"
  shows "fd_inv R s'"
proof (cases "fo_kind obj = NM_FDOBJ_PIPE_R \<and> 0 \<le> fo_pipe_id obj \<and> fo_pipe_id obj < int NM_PIPE_MAX")
  case True
  let ?p = "nat (fo_pipe_id obj)"
  have p: "?p < NM_PIPE_MAX" using True by auto
  obtain m o' q where r: "read_from_pipe (pipe_table s ! ?p) len = (m, o', q)" by (metis prod_cases3)
  have inv: "pipe_inv (pipe_table s ! ?p)" using fd_invD(6) [OF assms(1) p] by (simp add: pipe_counts_def)
  have "pipe_inv q \<and> pp_used q = pp_used (pipe_table s ! ?p) \<and> pp_readers q = pp_readers (pipe_table s ! ?p) \<and>
      pp_writers q = pp_writers (pipe_table s ! ?p)"
  proof (cases "pp_used (pipe_table s ! ?p)")
    case True
    then show ?thesis
      using r read_from_pipe_spec [OF inv True, of len] deq_all_pipe_frame [of "unat len" "pipe_table s ! ?p"]
      by (auto simp: read_from_pipe_def split: prod.splits)
  next
    case False
    then show ?thesis using r inv by (simp add: read_from_pipe_def)
  qed
  then have "fd_inv R (upd_pipe ?p (\<lambda>_. q) s)" using fd_inv_pipe_data [OF assms(1) p] by blast
  moreover have "s' = upd_pipe ?p (\<lambda>_. q) s" using assms(2) True r by (auto simp: read_from_fdobj_def)
  ultimately show ?thesis by simp
next
  case False
  then have "s' = s" using assms(2) by (auto simp: read_from_fdobj_def split: if_splits prod.splits)
  then show ?thesis using assms(1) by simp
qed

lemma write_to_fdobj_inv:
  assumes "fd_inv R s" "write_to_fdobj fs obj buf s v = Some (n, s', v')" "\<forall>p\<in>set (pipe_table s). pipe_ready (length buf) p"
  shows "fd_inv R s'"
proof (cases "fo_kind obj = NM_FDOBJ_PIPE_W \<and> 0 \<le> fo_pipe_id obj \<and> fo_pipe_id obj < int NM_PIPE_MAX")
  case True
  let ?p = "nat (fo_pipe_id obj)"
  have p: "?p < NM_PIPE_MAX" using True by auto
  obtain m q where r: "write_to_pipe (pipe_table s ! ?p) buf = (m, q)" by (metis prod.exhaust)
  have inv: "pipe_inv (pipe_table s ! ?p)" using fd_invD(6) [OF assms(1) p] by (simp add: pipe_counts_def)
  have rdy: "pipe_ready (length buf) (pipe_table s ! ?p)" using assms(3) p fd_invD(2) [OF assms(1)] by simp
  have "pipe_inv q \<and> pp_used q = pp_used (pipe_table s ! ?p) \<and> pp_readers q = pp_readers (pipe_table s ! ?p) \<and>
      pp_writers q = pp_writers (pipe_table s ! ?p)"
  proof (cases "pp_used (pipe_table s ! ?p)")
    case True
    then show ?thesis
      using r write_to_pipe_spec [OF inv True rdy] enq_some_pipe_frame [of buf "pipe_table s ! ?p"]
      by (auto simp: write_to_pipe_def split: prod.splits)
  next
    case False
    then show ?thesis using r inv by (simp add: write_to_pipe_def)
  qed
  then have "fd_inv R (upd_pipe ?p (\<lambda>_. q) s)" using fd_inv_pipe_data [OF assms(1) p] by blast
  moreover have "s' = upd_pipe ?p (\<lambda>_. q) s" using assms(2) True r by (auto simp: write_to_fdobj_def)
  ultimately show ?thesis by simp
next
  case False
  then have "s' = s" using assms(2) by (auto simp: write_to_fdobj_def split: if_splits prod.splits option.splits)
  then show ?thesis using assms(1) by simp
qed

text \<open>Reading and writing through a descriptor, for a task whose table holds object numbers.\<close>

lemma task_fds_get:
  assumes "task_fds R0 task s" "fd_in_range fd" "t_fd_table task ! nat fd = int i"
  shows "fdobj_get (int i) s = Some i"
proof -
  have "int i \<noteq> - 1" by simp
  then obtain j where "int i = int j" "j < NM_FDOBJ_MAX" "fo_used (fdobj_table s ! j)"
    using task_fds_entry [OF assms(1,2,3)] by blast
  then show ?thesis by (simp add: fdobj_get_int)
qed

lemma nm_fd_read_eq:
  assumes "task_fds R0 task s" "fd_in_range fd" "t_fd_table task ! nat fd = int i"
  shows "nm_fd_read fs task fd True len s v =
    (let (n, out, s, v) = read_from_fdobj fs (fdobj_table s ! i) len s v in (n, out, task, s, v))"
  using task_fds_get [OF assms] assms(2,3) by (simp add: nm_fd_read_def task_fdobj_id_def)

lemma nm_fd_write_eq:
  assumes "task_fds R0 task s" "fd_in_range fd" "t_fd_table task ! nat fd = int i"
  shows "nm_fd_write fs task fd (Some buf) s v =
    map_option (\<lambda>(n, s, v). (n, task, s, v)) (write_to_fdobj fs (fdobj_table s ! i) buf s v)"
  using task_fds_get [OF assms] assms(2,3) by (simp add: nm_fd_write_def task_fdobj_id_def)

lemma nm_fd_read_inv:
  assumes "task_fds R0 task s" "nm_fd_read fs task fd b len s v = (n, out, task', s', v')"
  shows "task' = task" "task_fds R0 task s'"
proof -
  show "task_fds R0 task s'" "task' = task"
  proof (atomize (full), cases "b \<and> fd_in_range fd \<and> t_fd_table task ! nat fd \<noteq> - 1")
    case True
    then obtain i where i: "t_fd_table task ! nat fd = int i" using task_fds_entry [OF assms(1) _ refl] by metis
    have inv: "fd_inv (\<lambda>i. R0 i + tab_refs (t_fd_table task) i) s" using assms(1) by (simp add: task_fds_def)
    obtain n1 o1 s1 v1 where r: "read_from_fdobj fs (fdobj_table s ! i) len s v = (n1, o1, s1, v1)" by (metis prod_cases4)
    have "s' = s1" "task' = task" using assms(2) nm_fd_read_eq [OF assms(1) _ i, of fs len v] True r by simp_all
    then show "task_fds R0 task s' \<and> task' = task"
      using assms(1) read_from_fdobj_inv [OF inv r] by (simp add: task_fds_def)
  next
    case False
    then have "s' = s \<and> task' = task"
      using assms(2) by (auto simp: nm_fd_read_def task_fdobj_id_def adopt_legacy_fs_fd_def fdobj_get_def split: if_splits)
    then show "task_fds R0 task s' \<and> task' = task" using assms(1) by simp
  qed
qed

lemma nm_fd_write_inv:
  assumes "task_fds R0 task s" "nm_fd_write fs task fd b s v = Some (n, task', s', v')"
    "\<forall>buf. b = Some buf \<longrightarrow> (\<forall>p\<in>set (pipe_table s). pipe_ready (length buf) p)"
  shows "task' = task" "task_fds R0 task s'"
proof -
  show "task_fds R0 task s'" "task' = task"
  proof (atomize (full), cases "b \<noteq> None \<and> fd_in_range fd \<and> t_fd_table task ! nat fd \<noteq> - 1")
    case True
    then obtain i buf where i: "t_fd_table task ! nat fd = int i" and b: "b = Some buf"
      using task_fds_entry [OF assms(1) _ refl] by (metis option.exhaust)
    have inv: "fd_inv (\<lambda>i. R0 i + tab_refs (t_fd_table task) i) s" using assms(1) by (simp add: task_fds_def)
    have "write_to_fdobj fs (fdobj_table s ! i) buf s v = Some (n, s', v')" "task' = task"
      using assms(2) nm_fd_write_eq [OF assms(1) _ i, of fs buf v] True b by auto
    then show "task_fds R0 task s' \<and> task' = task"
      using assms(1,3) write_to_fdobj_inv [OF inv, of fs _ buf v n s' v'] b by (simp add: task_fds_def)
  next
    case False
    then have "s' = s \<and> task' = task"
      using assms(2)
      by (auto simp: nm_fd_write_def task_fdobj_id_def adopt_legacy_fs_fd_def fdobj_get_def split: if_splits option.splits)
    then show "task_fds R0 task s' \<and> task' = task" using assms(1) by simp
  qed
qed

text \<open>
  Everything tasks do to descriptors, in any interleaving. A write comes with the condition that
  no pipe's 64-bit write position wraps; a forked child starts with its parent's table.
\<close>

inductive fd_step :: "'v fs_if \<Rightarrow> nm_task list \<times> fd_state \<times> 'v \<Rightarrow> nm_task list \<times> fd_state \<times> 'v \<Rightarrow> bool" for fs where
  s_read: "k < length tasks \<Longrightarrow> nm_fd_read fs (tasks ! k) fd b len s v = (n, out, t, s', v') \<Longrightarrow>
     fd_step fs (tasks, s, v) (tasks[k := t], s', v')"
| s_write: "k < length tasks \<Longrightarrow> \<forall>buf. b = Some buf \<longrightarrow> (\<forall>p\<in>set (pipe_table s). pipe_ready (length buf) p) \<Longrightarrow>
     nm_fd_write fs (tasks ! k) fd b s v = Some (n, t, s', v') \<Longrightarrow> fd_step fs (tasks, s, v) (tasks[k := t], s', v')"
| s_close: "k < length tasks \<Longrightarrow> nm_fd_close fs (tasks ! k) fd s v = (r, t, s', v') \<Longrightarrow>
     fd_step fs (tasks, s, v) (tasks[k := t], s', v')"
| s_pipe: "k < length tasks \<Longrightarrow> nm_fd_pipe fs (tasks ! k) s v = (r, fds, t, s', v') \<Longrightarrow>
     fd_step fs (tasks, s, v) (tasks[k := t], s', v')"
| s_dup2: "k < length tasks \<Longrightarrow> nm_fd_dup2 fs (tasks ! k) oldfd newfd s v = (r, t, s', v') \<Longrightarrow>
     fd_step fs (tasks, s, v) (tasks[k := t], s', v')"
| s_cloexec: "k < length tasks \<Longrightarrow> nm_fd_set_cloexec (tasks ! k) fd e = (r, t) \<Longrightarrow>
     fd_step fs (tasks, s, v) (tasks[k := t], s, v)"
| s_exec: "k < length tasks \<Longrightarrow> nm_fd_close_on_exec fs (tasks ! k) s v = (t, s', v') \<Longrightarrow>
     fd_step fs (tasks, s, v) (tasks[k := t], s', v')"
| s_fork: "k < length tasks \<Longrightarrow> length tasks < NM_MAX_TASKS \<Longrightarrow> t_fd_table child = t_fd_table (tasks ! k) \<Longrightarrow>
     nm_fd_on_fork_child child s = (r, child', s') \<Longrightarrow> fd_step fs (tasks, s, v) (tasks @ [child'], s', v)"

definition no_fds :: "nm_task \<Rightarrow> bool" where
  "no_fds t \<longleftrightarrow> t_fd_table t = replicate NM_MAX_FDS (- 1)"

definition fd_memory :: "fd_state \<Rightarrow> bool" where
  "fd_memory s \<longleftrightarrow> length (fdobj_table s) = NM_FDOBJ_MAX \<and> length (pipe_table s) = NM_PIPE_MAX \<and>
     (\<forall>p\<in>set (pipe_table s). length (pp_buf p) = NM_PIPE_BUF)"

inductive fd_reachable :: "'v fs_if \<Rightarrow> nm_task list \<times> fd_state \<times> 'v \<Rightarrow> bool" for fs where
  boot: "no_fds t \<Longrightarrow> fd_memory s \<Longrightarrow> fd_reachable fs ([t], nm_fd_init s, v)"
| step: "fd_reachable fs x \<Longrightarrow> fd_step fs x y \<Longrightarrow> fd_reachable fs y"

lemma nm_fd_close_inv:
  assumes "task_fds R0 task s" "nm_fd_close fs task fd s v = (r, t, s', v')"
  shows "task_fds R0 t s'"
proof (cases "fd_in_range fd \<and> t_fd_table task ! nat fd \<noteq> - 1")
  case True
  then show ?thesis
    using task_close_fd_ok [OF assms(1), of fd fs v] nm_fd_close_eq [OF assms(1), of fd fs v] assms(2) by auto
next
  case False
  then have "t = task \<and> s' = s" using assms(2) by (auto simp: nm_fd_close_def task_fdobj_id_def split: if_splits)
  then show ?thesis using assms(1) by simp
qed

lemma nm_fd_pipe_inv:
  assumes "task_fds R0 task s" "nm_fd_pipe fs task s v = (r, fds, t, s', v')"
  shows "task_fds R0 t s'"
  using assms by (cases rule: nm_fd_pipe_cases) auto

lemma nm_fd_dup2_inv:
  assumes "task_fds R0 task s" "nm_fd_dup2 fs task oldfd newfd s v = (r, t, s', v')"
  shows "task_fds R0 t s'"
proof (cases "fd_in_range oldfd \<and> fd_in_range newfd \<and> oldfd \<noteq> newfd \<and> t_fd_table task ! nat oldfd \<noteq> - 1")
  case True
  then show ?thesis using nm_fd_dup2_ok [OF assms(1), of oldfd newfd fs v] assms(2) by auto
next
  case False
  then have "t = task \<and> s' = s" using assms(2) by (auto simp: nm_fd_dup2_def task_fdobj_id_def Let_def split: if_splits)
  then show ?thesis using assms(1) by simp
qed

lemma nm_fd_set_cloexec_inv:
  assumes "task_fds R0 task s" "nm_fd_set_cloexec task fd e = (r, t)"
  shows "task_fds R0 t s"
  using assms by (auto simp: nm_fd_set_cloexec_def task_fds_def split: if_splits)

lemma nm_fd_close_on_exec_inv:
  assumes "task_fds R0 task s" "nm_fd_close_on_exec fs task s v = (t, s', v')"
  shows "task_fds R0 t s'"
  using nm_fd_close_on_exec_ok [OF assms(1), of fs v] assms(2) by auto

lemma fork_fds_inv:
  assumes "fds_inv tasks s" "k < length tasks" "length tasks < NM_MAX_TASKS" "t_fd_table child = t_fd_table (tasks ! k)"
    "nm_fd_on_fork_child child s = (r, child', s')"
  shows "fds_inv (tasks @ [child']) s'" "child' = child"
proof -
  have inv: "fd_inv (all_refs tasks) s" and ok: "\<forall>t\<in>set tasks. tab_ok (t_fd_table t)" using assms(1) by (simp_all add: fds_inv_def)
  have tok: "tab_ok (t_fd_table child)" using ok assms(2,4) by simp
  have "(\<Sum>i<NM_FDOBJ_MAX. all_refs tasks i) \<le> NM_MAX_FDS * length tasks" using ok by (rule all_refs_sum)
  also have "\<dots> \<le> NM_MAX_FDS * NM_MAX_TASKS" using assms(3) by simp
  also have "\<dots> < 2 ^ 31" by (simp add: NM_MAX_FDS_def NM_MAX_TASKS_def)
  finally have bnd: "(\<Sum>i<NM_FDOBJ_MAX. all_refs tasks i) < 2 ^ 31" .
  have pos: "0 < all_refs tasks (nat x)" if x: "x \<in> set (t_fd_table child)" "x \<noteq> - 1" for x
  proof -
    have "0 \<le> x" using x tok by (auto simp: tab_ok_def)
    then have "0 < tab_refs (t_fd_table child) (nat x)"
      using x(1) by (auto simp: tab_refs_def count_if_pos in_set_conv_nth)
    then show ?thesis using all_refs_member [OF assms(2), of "nat x"] assms(4) by simp
  qed
  obtain s1 where s1: "nm_fd_on_fork_child child s = (0, child, s1)"
    "fd_inv (\<lambda>i. all_refs tasks i + tab_refs (t_fd_table child) i) s1"
    using nm_fd_on_fork_child_ok [OF inv bnd tok pos] by blast
  then show "child' = child" using assms(5) by simp
  moreover have "all_refs (tasks @ [child]) = (\<lambda>i. all_refs tasks i + tab_refs (t_fd_table child) i)"
    by (auto simp: all_refs_def)
  ultimately show "fds_inv (tasks @ [child']) s'"
    using s1 assms(3,5) ok tok by (auto simp: fds_inv_def)
qed

lemma fd_step_inv: "fd_step fs x y \<Longrightarrow> fds_inv (fst x) (fst (snd x)) \<Longrightarrow> fds_inv (fst y) (fst (snd y))"
proof (induction rule: fd_step.induct)
  case (s_read k tasks fd b len s v n out t s' v')
  then show ?case
    using nm_fd_read_inv [OF fds_inv_task [of tasks s k] s_read(2)] task_fds_inv [of tasks s k t s'] by auto
next
  case (s_write k tasks b s fd v n t s' v')
  then show ?case
    using nm_fd_write_inv [OF fds_inv_task [of tasks s k] s_write(3,2)] task_fds_inv [of tasks s k t s'] by auto
next
  case (s_close k tasks fd s v r t s' v')
  then show ?case
    using nm_fd_close_inv [OF fds_inv_task [of tasks s k] s_close(2)] task_fds_inv [of tasks s k t s'] by auto
next
  case (s_pipe k tasks s v r fds t s' v')
  then show ?case
    using nm_fd_pipe_inv [OF fds_inv_task [of tasks s k] s_pipe(2)] task_fds_inv [of tasks s k t s'] by auto
next
  case (s_dup2 k tasks oldfd newfd s v r t s' v')
  then show ?case
    using nm_fd_dup2_inv [OF fds_inv_task [of tasks s k] s_dup2(2)] task_fds_inv [of tasks s k t s'] by auto
next
  case (s_cloexec k tasks fd e r t s v)
  then show ?case
    using nm_fd_set_cloexec_inv [OF fds_inv_task [of tasks s k] s_cloexec(2)] task_fds_inv [of tasks s k t s] by auto
next
  case (s_exec k tasks s v t s' v')
  then show ?case
    using nm_fd_close_on_exec_inv [OF fds_inv_task [of tasks s k] s_exec(2)] task_fds_inv [of tasks s k t s'] by auto
next
  case (s_fork k tasks child s r child' s' v)
  then show ?case using fork_fds_inv(1) [of tasks s k child r child' s'] by auto
qed

lemma nm_fd_init_inv:
  assumes "fd_memory s"
  shows "fd_inv (\<lambda>_. 0) (nm_fd_init s)"
  using assms
  by (auto simp: fd_memory_def fd_inv_def obj_counts_def nm_fd_init_def obj_pipe_ok_def pipe_counts_def pipe_inv_def)

lemma fd_reachable_inv: "fd_reachable fs x \<Longrightarrow> fds_inv (fst x) (fst (snd x))"
proof (induction rule: fd_reachable.induct)
  case (boot t s v)
  have "all_refs [t] = (\<lambda>_. 0)"
    using boot(1) by (auto simp: all_refs_def tab_refs_def no_fds_def count_if_replicate)
  then show ?case
    using boot nm_fd_init_inv [OF boot(2)] by (auto simp: fds_inv_def no_fds_def tab_ok_def NM_MAX_TASKS_def)
next
  case (step x y)
  then show ?case using fd_step_inv by blast
qed

section \<open>Properties\<close>

text \<open>
  C3: descriptors never dangle and objects never leak while tasks live. Whatever reads, writes,
  closes, pipes, dup2s, close-on-exec sweeps and forks the tasks perform, in any interleaving, every
  descriptor holds -1 or an object in use, every object in use is referenced and its count is
  exactly the number of descriptors holding it over all tasks, and the reader and writer counts of
  every pipe in use are the references to its two ends.
\<close>
theorem descriptors_consistent:
  assumes "fd_reachable fs (tasks, s, v)"
  shows "(\<forall>t\<in>set tasks. \<forall>x\<in>set (t_fd_table t). x = - 1 \<or> (\<exists>i<NM_FDOBJ_MAX. x = int i \<and> fo_used (fdobj_table s ! i))) \<and>
    (\<forall>i<NM_FDOBJ_MAX. fo_used (fdobj_table s ! i) \<longrightarrow>
       0 < all_refs tasks i \<and> unat (fo_refcnt (fdobj_table s ! i)) = all_refs tasks i) \<and>
    (\<forall>p<NM_PIPE_MAX. pp_used (pipe_table s ! p) \<longrightarrow>
       unat (pp_readers (pipe_table s ! p)) = endpoint_refs NM_FDOBJ_PIPE_R p (fdobj_table s) \<and>
       unat (pp_writers (pipe_table s ! p)) = endpoint_refs NM_FDOBJ_PIPE_W p (fdobj_table s))"
proof -
  have fds: "fds_inv tasks s" using fd_reachable_inv [OF assms] by simp
  then have inv: "fd_inv (all_refs tasks) s" and ok: "\<forall>t\<in>set tasks. tab_ok (t_fd_table t)" by (simp_all add: fds_inv_def)
  note iv = fd_invD [OF inv]
  have "x = - 1 \<or> (\<exists>i<NM_FDOBJ_MAX. x = int i \<and> fo_used (fdobj_table s ! i))"
    if t: "t \<in> set tasks" and x: "x \<in> set (t_fd_table t)" for t x
  proof (cases "x = - 1")
    case False
    then have r: "0 \<le> x" "x < int NM_FDOBJ_MAX" using ok t x by (auto simp: tab_ok_def)
    obtain k where k: "k < length tasks" "t = tasks ! k" using t by (metis in_set_conv_nth)
    have "0 < tab_refs (t_fd_table t) (nat x)" using x r(1) by (auto simp: tab_refs_def count_if_pos in_set_conv_nth)
    then have "0 < all_refs tasks (nat x)" using all_refs_member [OF k(1), of "nat x"] k(2) by simp
    then have "fo_used (fdobj_table s ! nat x)" using iv(4) [of "nat x"] r by auto
    then show ?thesis using r by (auto intro!: exI [of _ "nat x"])
  qed simp
  moreover have "\<forall>i<NM_FDOBJ_MAX. fo_used (fdobj_table s ! i) \<longrightarrow>
      0 < all_refs tasks i \<and> unat (fo_refcnt (fdobj_table s ! i)) = all_refs tasks i"
    using iv(3,4) by blast
  moreover have "unat (pp_readers (pipe_table s ! p)) = endpoint_refs NM_FDOBJ_PIPE_R p (fdobj_table s) \<and>
      unat (pp_writers (pipe_table s ! p)) = endpoint_refs NM_FDOBJ_PIPE_W p (fdobj_table s)"
    if "p < NM_PIPE_MAX" "pp_used (pipe_table s ! p)" for p
    using iv(6) [OF that(1)] that(2) by (auto simp: pipe_counts_def pcount_def endpoint_def)
  ultimately show ?thesis by blast
qed

definition demo_fs :: "nat fs_if" where
  "demo_fs = \<lparr>if_read = (\<lambda>fd len v. (0, [], v)), if_write = (\<lambda>fd buf v. Some (0, v)), if_close = (\<lambda>fd v. (0, Suc v))\<rparr>"

definition demo_fd :: fd_state where
  "demo_fd = nm_fd_init \<lparr>
     pipe_table = replicate NM_PIPE_MAX \<lparr>pp_used = False, pp_buf = replicate NM_PIPE_BUF 0, pp_read_pos = 0,
       pp_write_pos = 0, pp_readers = 0, pp_writers = 0\<rparr>,
     fdobj_table = replicate NM_FDOBJ_MAX \<lparr>fo_used = False, fo_refcnt = 0, fo_kind = NM_FDOBJ_NONE, fo_fs_fd = - 1,
       fo_pipe_id = - 1\<rparr>\<rparr>"

definition demo_task :: nm_task where
  "demo_task = blank_task\<lparr>t_fd_table := replicate NM_MAX_FDS (- 1)\<rparr>"

lemma demo_fd_reachable: "fd_reachable demo_fs ([demo_task], demo_fd, 0)"
  unfolding demo_fd_def by (rule fd_reachable.boot) (simp_all add: no_fds_def demo_task_def fd_memory_def)

lemma demo_task_fds: "task_fds (\<lambda>_. 0) demo_task demo_fd"
proof -
  have "task_fds (others [demo_task] 0) ([demo_task] ! 0) demo_fd"
    using fd_reachable_inv [OF demo_fd_reachable] by (intro fds_inv_task) simp_all
  moreover have "others [demo_task] 0 = (\<lambda>_. 0)" by (auto simp: others_def all_refs_def)
  ultimately show ?thesis by simp
qed

text \<open>What creating a pipe gives on the boot state.\<close>

lemma demo_pipe:
  "\<exists>s1. nm_fd_pipe demo_fs demo_task demo_fd 0 = (0, Some (0, 1), set_fd 1 1 (set_fd 0 0 (set_fd 0 (- 2) demo_task)), s1, 0)"
proof -
  let ?task1 = "set_fd 0 (- 2) demo_task"
  have len: "length (fdobj_table demo_fd) = 128" "\<And>i. i < 128 \<Longrightarrow> \<not> fo_used (fdobj_table demo_fd ! i)"
    by (simp_all add: demo_fd_def nm_fd_init_def NM_FDOBJ_MAX_def)
  have slot: "pipe_slot demo_fd = Some 0"
    by (simp add: pipe_slot_def demo_fd_def nm_fd_init_def first_idx_replicate NM_PIPE_MAX_def)
  have fds: "alloc_task_fd demo_task = 0" "alloc_task_fd ?task1 = 1"
  proof -
    have "first_idx (\<lambda>x. x = - 1) (t_fd_table ?task1) = Some 1"
      by (auto simp: first_idx_Some_iff demo_task_def NM_MAX_FDS_def nth_update_idx)
    then show "alloc_task_fd demo_task = 0" "alloc_task_fd ?task1 = 1"
      by (simp_all add: alloc_task_fd_def) (simp add: demo_task_def first_idx_replicate NM_MAX_FDS_def)
  qed
  define s1 where "s1 = upd_pipe 0 fresh_pipe demo_fd"
  have o1: "first_idx (\<lambda>obj. \<not> fo_used obj) (fdobj_table s1) = Some 0"
    using len by (simp add: first_idx_Some_iff s1_def)
  then obtain s2 where c1: "create_pipe_endpoint_obj NM_FDOBJ_PIPE_R 0 s1 = (0, s2)" "fo_used (fdobj_table s2 ! 0)"
    "\<And>i. 0 < i \<Longrightarrow> fdobj_table s2 ! i = fdobj_table demo_fd ! i" "length (fdobj_table s2) = 128"
    using len by (simp add: create_pipe_endpoint_obj_def alloc_fdobj_def fresh_fdobj_def s1_def)
  have "first_idx (\<lambda>obj. \<not> fo_used obj) (fdobj_table s2) = Some 1"
    using c1 len(2) by (simp add: first_idx_Some_iff)
  then obtain s3 where c2: "create_pipe_endpoint_obj NM_FDOBJ_PIPE_W 0 s2 = (1, s3)"
    by (simp add: create_pipe_endpoint_obj_def alloc_fdobj_def)
  have "pipe_connect demo_fs 0 1 0 ?task1 demo_fd 0 = (0, Some (0, 1), set_fd 1 1 (set_fd 0 0 ?task1), s3, 0)"
    using c1(1) c2 by (simp add: pipe_connect_def s1_def [symmetric] task_install_fdobj_def fd_in_range_def NM_MAX_FDS_def)
  then show ?thesis using slot fds by (simp add: nm_fd_pipe_def Let_def)
qed

theorem descriptors_consistent_witness:
  "\<exists>t s v. fd_reachable demo_fs ([t], s, v) \<and> t_fd_table t ! 0 = 0 \<and> fo_used (fdobj_table s ! 0) \<and>
     unat (fo_refcnt (fdobj_table s ! 0)) = all_refs [t] 0"
proof -
  obtain s1 where p: "nm_fd_pipe demo_fs demo_task demo_fd 0 =
      (0, Some (0, 1), set_fd 1 1 (set_fd 0 0 (set_fd 0 (- 2) demo_task)), s1, 0)" using demo_pipe by blast
  let ?t = "set_fd 1 1 (set_fd 0 0 (set_fd 0 (- 2) demo_task))"
  have "fd_step demo_fs ([demo_task], demo_fd, 0) ([demo_task][0 := ?t], s1, 0)"
    by (rule fd_step.s_pipe) (use p in simp_all)
  then have r: "fd_reachable demo_fs ([?t], s1, 0)" using fd_reachable.step [OF demo_fd_reachable] by simp
  have t0: "t_fd_table ?t ! 0 = 0" by (simp add: demo_task_def NM_MAX_FDS_def)
  have "0 \<in> set (t_fd_table ?t)" using t0 by (auto simp: in_set_conv_nth demo_task_def NM_MAX_FDS_def intro!: exI [of _ 0])
  then have u: "fo_used (fdobj_table s1 ! 0)" using descriptors_consistent [OF r] by force
  have "0 < NM_FDOBJ_MAX" by (simp add: NM_FDOBJ_MAX_def)
  then have "unat (fo_refcnt (fdobj_table s1 ! 0)) = all_refs [?t] 0" using descriptors_consistent [OF r] u by blast
  then show ?thesis using r t0 u by blast
qed

text \<open>
  C11: a pipe delivers. Bytes written to the write end of a new pipe come out of the read end
  unchanged and in order: a write takes as many bytes as fit (512), and a following read returns
  them, up to the length asked for.
\<close>
theorem pipe_end_to_end:
  assumes "task_fds R0 task s" "nm_fd_pipe fs task s v = (0, Some (rd, wr), t1, s1, v1)" "length buf < 2 ^ 63"
  shows "\<exists>s2 s3. nm_fd_write fs t1 wr (Some buf) s1 v1 = Some (int (min (length buf) 512), t1, s2, v1) \<and>
    nm_fd_read fs t1 rd True len s2 v1 =
      (int (min (unat len) (min (length buf) 512)), take (unat len) (take 512 buf), t1, s3, v1)"
  using assms(1,2)
proof (cases rule: nm_fd_pipe_cases)
  case fail
  then show ?thesis by simp
next
  case (ok a b i j p)
  have rng: "fd_in_range rd" "fd_in_range wr" "nat rd = a" "nat wr = b" using ok(2-4) by (simp_all add: fd_in_range_def)
  have len: "length (t_fd_table task) = NM_MAX_FDS" using assms(1) by (simp add: task_fds_def tab_ok_def)
  have ent: "t_fd_table t1 ! nat rd = int i" "t_fd_table t1 ! nat wr = int j"
    using ok(3-5,15) len rng by (simp_all add: nth_update_idx)
  let ?q = "pipe_table s1 ! p"
  have inv: "fd_inv (\<lambda>i. R0 i + tab_refs (t_fd_table t1) i) s1" using ok(24) by (simp add: task_fds_def)
  have q: "?q = fresh_pipe (pipe_table s ! p)" "p < length (pipe_table s1)"
    using ok(11,23) fd_invD(2) [OF inv] by simp_all
  have qi: "pipe_inv ?q" "pp_used ?q" "pipe_contents ?q = []" "pipe_ready (length buf) ?q"
    using q(1) fd_invD(6) [OF inv ok(11)] fresh_pipe_inv assms(3) by (simp_all add: pipe_counts_def pipe_ready_def fresh_pipe_def)
  obtain q2 where w: "write_to_pipe ?q buf = (int (min (length buf) 512), q2)" "pipe_inv q2" "pipe_contents q2 = take 512 buf"
    using write_to_pipe_spec [OF qi(1,2,4)] qi(3) by (auto simp: NM_PIPE_BUF_def)
  let ?s2 = "upd_pipe p (\<lambda>_. q2) s1"
  have wr: "nm_fd_write fs t1 wr (Some buf) s1 v1 = Some (int (min (length buf) 512), t1, ?s2, v1)"
    using nm_fd_write_eq [OF ok(24) rng(2) ent(2), of fs buf v1] ok(11,21,22) w(1) by (simp add: write_to_fdobj_def)
  have "task_fds R0 t1 ?s2"
    using nm_fd_write_inv(2) [OF ok(24) wr] qi(4)
      fd_inv_pipe_data [OF inv ok(11) w(2)] enq_some_pipe_frame [of buf ?q] w(1) qi(2) ok(24)
    by (auto simp: write_to_pipe_def task_fds_def split: prod.splits)
  have "pp_used q2" using w(1) qi(2) enq_some_pipe_frame [of buf ?q] by (auto simp: write_to_pipe_def split: prod.splits)
  then obtain q3 where "read_from_pipe q2 len = (int (min (unat len) (min (length buf) 512)), take (unat len) (take 512 buf), q3)"
    using read_from_pipe_spec [OF w(2), of len] w(3) by (auto simp: min.commute)
  then have "nm_fd_read fs t1 rd True len ?s2 v1 =
      (int (min (unat len) (min (length buf) 512)), take (unat len) (take 512 buf), t1, upd_pipe p (\<lambda>_. q3) ?s2, v1)"
    using nm_fd_read_eq [OF \<open>task_fds R0 t1 ?s2\<close> rng(1) ent(1), of fs len v1] ok(11,18,19) q(2)
    by (simp add: read_from_fdobj_def)
  then show ?thesis using wr by blast
qed

theorem pipe_end_to_end_witness:
  "\<exists>t1 s1 s2 s3. nm_fd_pipe demo_fs demo_task demo_fd 0 = (0, Some (0, 1), t1, s1, 0) \<and>
     nm_fd_write demo_fs t1 1 (Some [7, 8, 9]) s1 0 = Some (3, t1, s2, 0) \<and>
     nm_fd_read demo_fs t1 0 True 2 s2 0 = (2, [7, 8], t1, s3, 0)"
proof -
  obtain t1 s1 where p: "nm_fd_pipe demo_fs demo_task demo_fd 0 = (0, Some (0, 1), t1, s1, 0)" using demo_pipe by blast
  show ?thesis using pipe_end_to_end [OF demo_task_fds p, of "[7, 8, 9]" 2] p by auto
qed

text \<open>
  \<^verbatim>\<open>nm_fd_dup2\<close> makes the new descriptor refer to the old one's object. For two different
  descriptors of which the old one is open it always succeeds, whatever the new one held before
  (even the same object); the new one is not marked close-on-exec, no other entry changes, and all
  counts stay right.
\<close>
theorem dup2_shares_object:
  assumes "task_fds R0 task s" "fd_in_range oldfd" "fd_in_range newfd" "oldfd \<noteq> newfd" "t_fd_table task ! nat oldfd \<noteq> - 1"
  shows "\<exists>task' s' v'. nm_fd_dup2 fs task oldfd newfd s v = (newfd, task', s', v') \<and> task_fds R0 task' s' \<and>
    t_fd_table task' = (t_fd_table task)[nat newfd := t_fd_table task ! nat oldfd] \<and> nm_fd_get_cloexec task' newfd = 0"
proof -
  obtain task' s' v' where r: "nm_fd_dup2 fs task oldfd newfd s v = (newfd, task', s', v')" "task_fds R0 task' s'"
    "t_fd_table task' = (t_fd_table task)[nat newfd := t_fd_table task ! nat oldfd]"
    "t_fd_cloexec_mask task' = t_fd_cloexec_mask task AND NOT (fd_bit newfd)"
    using nm_fd_dup2_ok [OF assms, of fs v] by blast
  have k: "nat newfd < NM_MAX_FDS" "int (nat newfd) = newfd" using assms(3) by (auto simp: fd_in_range_def)
  have "nat newfd < length (t_fd_table task)" using assms(1) k by (simp add: task_fds_def tab_ok_def)
  then have "t_fd_table task' ! nat newfd \<noteq> - 1" using r(3) assms(5) by simp
  moreover have "t_fd_cloexec_mask task' AND fd_bit newfd = 0"
    using mask_test [OF k(1), of "t_fd_cloexec_mask task'"] k(2) bit_fd_bit [OF k(1), of "nat newfd"] r(4)
    by (simp add: bit_and_iff bit_not_iff)
  ultimately have "nm_fd_get_cloexec task' newfd = 0" using assms(3) by (simp add: nm_fd_get_cloexec_def)
  then show ?thesis using r by blast
qed

theorem dup2_shares_object_witness:
  "\<exists>t1 s1 t2 s2 v2. nm_fd_pipe demo_fs demo_task demo_fd 0 = (0, Some (0, 1), t1, s1, 0) \<and>
     nm_fd_dup2 demo_fs t1 0 1 s1 0 = (1, t2, s2, v2) \<and> t_fd_table t2 = (t_fd_table t1)[1 := t_fd_table t1 ! 0]"
proof -
  obtain s1 where p: "nm_fd_pipe demo_fs demo_task demo_fd 0 =
      (0, Some (0, 1), set_fd 1 1 (set_fd 0 0 (set_fd 0 (- 2) demo_task)), s1, 0)" using demo_pipe by blast
  let ?t = "set_fd 1 1 (set_fd 0 0 (set_fd 0 (- 2) demo_task))"
  have t: "task_fds (\<lambda>_. 0) ?t s1" by (rule nm_fd_pipe_inv [OF demo_task_fds p])
  have e: "t_fd_table ?t ! nat 0 \<noteq> - 1" by (simp add: demo_task_def NM_MAX_FDS_def)
  have "\<exists>task' s' v'. nm_fd_dup2 demo_fs ?t 0 1 s1 0 = (1, task', s', v') \<and> task_fds (\<lambda>_. 0) task' s' \<and>
      t_fd_table task' = (t_fd_table ?t)[nat 1 := t_fd_table ?t ! nat 0] \<and> nm_fd_get_cloexec task' 1 = 0"
    by (rule dup2_shares_object [OF t _ _ _ e]) (simp_all add: fd_in_range_def NM_MAX_FDS_def)
  then show ?thesis using p by auto
qed

text \<open>
  \<^verbatim>\<open>nm_fd_close_on_exec\<close> closes exactly the marked descriptors: afterwards every descriptor that
  was marked is free, every other one is as before, no mark is left, and all counts stay right.
\<close>
theorem close_on_exec_exact:
  assumes "task_fds R0 task s"
  shows "\<exists>task' s' v'. nm_fd_close_on_exec fs task s v = (task', s', v') \<and> task_fds R0 task' s' \<and>
    t_fd_cloexec_mask task' = 0 \<and>
    (\<forall>fd<NM_MAX_FDS. t_fd_table task' ! fd = (if bit (t_fd_cloexec_mask task) fd then - 1 else t_fd_table task ! fd))"
  using nm_fd_close_on_exec_ok [OF assms, of fs v] by (auto simp del: upt.simps)

theorem close_on_exec_exact_witness:
  "\<exists>t1 s1 t2 t3 s3 v3. nm_fd_pipe demo_fs demo_task demo_fd 0 = (0, Some (0, 1), t1, s1, 0) \<and>
     nm_fd_set_cloexec t1 1 1 = (0, t2) \<and> nm_fd_close_on_exec demo_fs t2 s1 0 = (t3, s3, v3) \<and>
     t_fd_table t3 ! 0 = 0 \<and> t_fd_table t3 ! 1 = - 1"
proof -
  obtain s1 where p: "nm_fd_pipe demo_fs demo_task demo_fd 0 =
      (0, Some (0, 1), set_fd 1 1 (set_fd 0 0 (set_fd 0 (- 2) demo_task)), s1, 0)" using demo_pipe by blast
  let ?t = "set_fd 1 1 (set_fd 0 0 (set_fd 0 (- 2) demo_task))"
  let ?t2 = "?t\<lparr>t_fd_cloexec_mask := t_fd_cloexec_mask ?t OR fd_bit 1\<rparr>"
  have e: "t_fd_table ?t ! 0 = 0" "t_fd_table ?t ! 1 = 1" "t_fd_cloexec_mask ?t = 0"
    by (simp_all add: demo_task_def NM_MAX_FDS_def blank_task_def)
  have c: "nm_fd_set_cloexec ?t 1 1 = (0, ?t2)"
    using e(2) by (simp add: nm_fd_set_cloexec_def fd_in_range_def NM_MAX_FDS_def)
  have t: "task_fds (\<lambda>_. 0) ?t2 s1" by (rule nm_fd_set_cloexec_inv [OF nm_fd_pipe_inv [OF demo_task_fds p] c])
  have b: "bit (t_fd_cloexec_mask ?t2) 1" "\<not> bit (t_fd_cloexec_mask ?t2) 0"
    using bit_fd_bit [of 1] e(3) by (simp_all add: NM_MAX_FDS_def)
  obtain t3 s3 v3 where x: "nm_fd_close_on_exec demo_fs ?t2 s1 0 = (t3, s3, v3)"
    and tab: "\<forall>fd<NM_MAX_FDS. t_fd_table t3 ! fd = (if bit (t_fd_cloexec_mask ?t2) fd then - 1 else t_fd_table ?t2 ! fd)"
    using close_on_exec_exact [OF t, of demo_fs 0] by blast
  have "t_fd_table t3 ! 0 = 0" "t_fd_table t3 ! 1 = - 1"
    using tab b e by (simp_all add: NM_MAX_FDS_def)
  then show ?thesis using p c x by blast
qed

text \<open>
  the last close releases the object. Closing a descriptor that holds the only reference to an
  object frees the object, and when it stands for an open file the file system's close is called
  for that file; while other references remain the object and the file system are left as they are.
\<close>
theorem last_close_releases:
  assumes "task_fds R0 task s" "fd_in_range fd" "t_fd_table task ! nat fd = int i"
  shows "\<exists>task' s' v'. nm_fd_close fs task fd s v = (0, task', s', v') \<and> t_fd_table task' = (t_fd_table task)[nat fd := - 1] \<and>
    (if R0 i + tab_refs (t_fd_table task) i = 1
     then \<not> fo_used (fdobj_table s' ! i) \<and>
       v' = (if fo_kind (fdobj_table s ! i) = NM_FDOBJ_FS \<and> fo_fs_fd (fdobj_table s ! i) \<ge> 0
             then snd (if_close fs (fo_fs_fd (fdobj_table s ! i)) v) else v)
     else fo_used (fdobj_table s' ! i) \<and> v' = v)"
proof -
  have open1: "t_fd_table task ! nat fd \<noteq> - 1" using assms(3) by simp
  have inv: "fd_inv (\<lambda>i. R0 i + tab_refs (t_fd_table task) i) s" using assms(1) by (simp add: task_fds_def)
  have i: "i < NM_FDOBJ_MAX" "fo_used (fdobj_table s ! i)"
    using fdobj_get_SomeD [OF task_fds_get [OF assms]] by simp_all
  obtain s' v' where r: "fdobj_release fs (int i) s v = (0, s', v')"
    "fdobj_table s' = (fdobj_table s)[i := released_obj (fdobj_table s ! i)]"
    "v' = (if R0 i + tab_refs (t_fd_table task) i = 1 \<and> fo_kind (fdobj_table s ! i) = NM_FDOBJ_FS \<and> fo_fs_fd (fdobj_table s ! i) \<ge> 0
      then snd (if_close fs (fo_fs_fd (fdobj_table s ! i)) v) else v)"
    using fdobj_release_state [OF inv i refl, of fs v] by blast
  have c: "nm_fd_close fs task fd s v = (0, clear_cloexec fd (set_fd fd (- 1) task), s', v')"
    using nm_fd_close_eq [OF assms(1,2) open1, of fs v] r(1) assms(2,3) by (simp add: task_close_fd_def)
  have "fo_refcnt (fdobj_table s ! i) = 1 \<longleftrightarrow> R0 i + tab_refs (t_fd_table task) i = 1"
    using fd_invD(3) [OF inv i] by (metis unat_1 word_unat_eq_iff)
  then have "fo_used (fdobj_table s' ! i) \<longleftrightarrow> R0 i + tab_refs (t_fd_table task) i \<noteq> 1"
    using r(2) i fd_invD(1) [OF inv] by (auto simp: released_obj_def)
  then show ?thesis using c r(3) by auto
qed

theorem last_close_releases_witness:
  "\<exists>t1 s1 t2 s2. nm_fd_pipe demo_fs demo_task demo_fd 0 = (0, Some (0, 1), t1, s1, 0) \<and>
     nm_fd_close demo_fs t1 0 s1 0 = (0, t2, s2, 0) \<and> \<not> fo_used (fdobj_table s2 ! 0)"
proof -
  obtain s1 where p: "nm_fd_pipe demo_fs demo_task demo_fd 0 =
      (0, Some (0, 1), set_fd 1 1 (set_fd 0 0 (set_fd 0 (- 2) demo_task)), s1, 0)" using demo_pipe by blast
  let ?t = "set_fd 1 1 (set_fd 0 0 (set_fd 0 (- 2) demo_task))"
  have t: "task_fds (\<lambda>_. 0) ?t s1" by (rule nm_fd_pipe_inv [OF demo_task_fds p])
  have e: "t_fd_table ?t ! nat 0 = int 0" by (simp add: demo_task_def NM_MAX_FDS_def)
  have tab: "t_fd_table ?t = 0 # 1 # replicate 30 (- 1)"
    by (intro nth_equalityI) (auto simp: demo_task_def NM_MAX_FDS_def nth_Cons' nth_update_idx)
  have one: "0 + tab_refs (t_fd_table ?t) 0 = 1" unfolding tab by (simp add: tab_refs_def count_if_replicate)
  have k: "fo_kind (fdobj_table s1 ! 0) \<noteq> NM_FDOBJ_FS"
    using demo_task_fds p
  proof (cases rule: nm_fd_pipe_cases)
    case (ok rd wr i j q)
    have "t_fd_table ?t ! rd = int i" using ok(3-5,15) by (simp add: demo_task_def NM_MAX_FDS_def nth_update_idx)
    moreover have "rd = 0" using ok(2) by simp
    ultimately have "i = 0" using e by simp
    then show ?thesis using ok(18) by simp
  qed simp
  have "\<exists>task' s' v'. nm_fd_close demo_fs ?t 0 s1 0 = (0, task', s', v') \<and> t_fd_table task' = (t_fd_table ?t)[nat 0 := - 1] \<and>
    (if 0 + tab_refs (t_fd_table ?t) 0 = 1
     then \<not> fo_used (fdobj_table s' ! 0) \<and>
       v' = (if fo_kind (fdobj_table s1 ! 0) = NM_FDOBJ_FS \<and> fo_fs_fd (fdobj_table s1 ! 0) \<ge> 0
             then snd (if_close demo_fs (fo_fs_fd (fdobj_table s1 ! 0)) 0) else 0)
     else fo_used (fdobj_table s' ! 0) \<and> v' = 0)"
    by (rule last_close_releases [OF t _ e]) (simp add: fd_in_range_def NM_MAX_FDS_def)
  then show ?thesis using p one k by auto
qed

end
