(* ===== verification/Vfs.thy ===== *)
theory Vfs
  imports NM_Prelude
begin

text \<open>
  The virtual file system of \<^verbatim>\<open>kernel/fs/vfs.c\<close> with the structures of \<^verbatim>\<open>include/nm/fs.h\<close>. The
  operation tables that a file system registers (\<^verbatim>\<open>struct nm_fs_ops\<close>, \<^verbatim>\<open>struct nm_file_ops\<close>) are
  records of functions over the file system's own state \<open>'f\<close>; a null function pointer is \<open>None\<close>. A
  vnode pointer is a number; the two fields of a vnode that this layer reads itself (its operation
  table and its size) are reached through \<open>vnode_mem\<close>. A write may have no defined result (the file
  system does not return, or stores outside its block), which is \<open>None\<close>. The lock brackets the
  accesses to the descriptor table.
\<close>

section \<open>Data\<close>

definition NM_NAME_MAX :: nat where "NM_NAME_MAX = 64"
definition NM_FD_MAX :: nat where "NM_FD_MAX = 64"
definition NM_PATH_PARTS :: int where "NM_PATH_PARTS = 16"
definition NM_O_CREAT :: u32 where "NM_O_CREAT = 0x40"

datatype nm_node_type = NM_NODE_NONE | NM_NODE_FILE | NM_NODE_DIR

record nm_stat =
  st_ino :: u64
  st_size :: u64
  st_mode :: u32
  st_uid :: u32
  st_gid :: u32
  st_nlink :: u32
  st_blocks :: u64

record nm_file =
  f_used :: bool
  f_flags :: u32
  f_offset :: u64
  f_vnode :: "nat option"

record 'f nm_file_ops =
  op_open :: "(nat \<Rightarrow> u32 \<Rightarrow> 'f \<Rightarrow> int \<times> 'f) option"
  op_read :: "(nat \<Rightarrow> u64 \<Rightarrow> u64 \<Rightarrow> 'f \<Rightarrow> int \<times> u8 list) option"
  op_write :: "(nat \<Rightarrow> u8 list \<Rightarrow> u64 \<Rightarrow> 'f \<Rightarrow> (int \<times> 'f) option) option"
  op_stat :: "(nat \<Rightarrow> 'f \<Rightarrow> int \<times> nm_stat) option"

record 'f nm_fs_ops =
  fs_op_mount_root :: "('f \<Rightarrow> nat option \<times> 'f) option"
  fs_op_lookup :: "nat \<Rightarrow> string \<Rightarrow> 'f \<Rightarrow> nat option"
  fs_op_create :: "(nat \<Rightarrow> string \<Rightarrow> nm_node_type \<Rightarrow> u32 \<Rightarrow> 'f \<Rightarrow> nat option \<times> 'f) option"

record 'f nm_filesystem =
  fsys_name :: string
  fsys_ops :: "'f nm_fs_ops option"

record 'f vnode_mem =
  vm_ops :: "nat \<Rightarrow> 'f \<Rightarrow> 'f nm_file_ops option"
  vm_size :: "nat \<Rightarrow> 'f \<Rightarrow> u64"

record 'f vfs_state =
  file_table :: "nm_file list"
  root_fs :: "'f nm_filesystem option"
  root_vnode :: "nat option"

section \<open>Paths\<close>

text \<open>A name buffer holds at most 63 characters; its content is what a reader finds before the null.\<close>

definition vfs_copy_name :: "string \<Rightarrow> string" where
  "vfs_copy_name src = take (NM_NAME_MAX - 1) src"

lemma dropWhile_next: "dropWhile (\<lambda>c. c = x) path = c # cs \<Longrightarrow> c \<noteq> x"
  by (simp add: dropWhile_eq_Cons_conv)

function split_loop :: "int \<Rightarrow> string \<Rightarrow> string list \<Rightarrow> int \<times> string list" where
  "split_loop max_parts path parts =
     (let path = dropWhile (\<lambda>c. c = CHR ''/'') path in
      if path = [] then (int (length parts), parts)
      else if int (length parts) \<ge> max_parts then (NM_ERR NM_EFAIL, parts)
      else split_loop max_parts (dropWhile (\<lambda>c. c \<noteq> CHR ''/'') path)
             (parts @ [take (NM_NAME_MAX - 1) (takeWhile (\<lambda>c. c \<noteq> CHR ''/'') path)]))"
  by pat_completeness auto

termination
proof (relation "measure (\<lambda>(m, path, parts). length path)")
  fix max_parts path x and parts :: "string list"
  assume "x = dropWhile (\<lambda>c. c = CHR ''/'') path" "x \<noteq> []" "\<not> max_parts \<le> int (length parts)"
  then obtain c cs where c: "dropWhile (\<lambda>c. c = CHR ''/'') path = c # cs" "x = c # cs" by (metis list.exhaust)
  have "length (dropWhile (\<lambda>c. c \<noteq> CHR ''/'') x) \<le> length cs"
    using dropWhile_next [OF c(1)] c(2) by (simp add: length_dropWhile_le)
  moreover have "length x \<le> length path" using c length_dropWhile_le [of "\<lambda>c. c = CHR ''/''" path] by simp
  ultimately show "((max_parts, dropWhile (\<lambda>c. c \<noteq> CHR ''/'') x, parts @ [take (NM_NAME_MAX - 1) (takeWhile (\<lambda>c. c \<noteq> CHR ''/'') x)]),
      max_parts, path, parts) \<in> measure (\<lambda>(m, path, parts). length path)"
    using c(2) by simp
qed simp

declare split_loop.simps [simp del]

definition fs_path_split :: "string option \<Rightarrow> int \<Rightarrow> int \<times> string list" where
  "fs_path_split path max_parts =
     (case path of
        None \<Rightarrow> (NM_ERR NM_EFAIL, [])
      | Some p \<Rightarrow> if max_parts \<le> 0 then (NM_ERR NM_EFAIL, []) else split_loop max_parts p [])"

fun walk :: "(nat \<Rightarrow> string \<Rightarrow> nat option) \<Rightarrow> nat \<Rightarrow> string list \<Rightarrow> nat option" where
  "walk lookup cur [] = Some cur"
| "walk lookup cur (p # ps) = (case lookup cur p of None \<Rightarrow> None | Some n \<Rightarrow> walk lookup n ps)"

text \<open>Returns the vnode and the content of the leaf name buffer.\<close>

definition resolve_path :: "'f vfs_state \<Rightarrow> 'f \<Rightarrow> string option \<Rightarrow> bool \<Rightarrow> nat option \<times> string" where
  "resolve_path st f path parent_only =
     (case (root_vnode st, root_fs st, path) of
        (Some root, Some fs, Some p) \<Rightarrow>
          if p = [] \<or> hd p \<noteq> CHR ''/'' then (None, [])
          else let (part_count, parts) = fs_path_split (Some p) NM_PATH_PARTS in
            if part_count < 0 then (None, [])
            else if part_count = 0 then (Some root, [])
            else let limit = (if parent_only then part_count - 1 else part_count);
                     lookup = (case fsys_ops fs of Some ops \<Rightarrow> (\<lambda>d name. fs_op_lookup ops d name f) | None \<Rightarrow> (\<lambda>_ _. None))
                 in case walk lookup root (take (nat limit) parts) of
                      None \<Rightarrow> (None, [])
                    | Some cur \<Rightarrow> (Some cur, vfs_copy_name (parts ! nat (part_count - 1)))
      | _ \<Rightarrow> (None, []))"

section \<open>Operations\<close>

definition fresh_file :: "nm_file \<Rightarrow> nm_file" where
  "fresh_file file = file\<lparr>f_used := True, f_offset := 0, f_flags := 0, f_vnode := None\<rparr>"

definition alloc_fd :: "nm_file list \<Rightarrow> (nat \<times> nm_file list) option" where
  "alloc_fd table =
     (case first_idx (\<lambda>file. \<not> f_used file) table of
        Some i \<Rightarrow> Some (i, table[i := fresh_file (table ! i)]) | None \<Rightarrow> None)"

definition closed_file :: "nm_file \<Rightarrow> nm_file" where
  "closed_file file = file\<lparr>f_used := False, f_offset := 0, f_flags := 0, f_vnode := None\<rparr>"

definition fs_init :: "'f vfs_state \<Rightarrow> 'f vfs_state" where
  "fs_init st = st\<lparr>root_fs := None, root_vnode := None, file_table := map closed_file (file_table st)\<rparr>"

definition fs_mount_root :: "'f nm_filesystem option \<Rightarrow> 'f vfs_state \<Rightarrow> 'f \<Rightarrow> int \<times> 'f vfs_state \<times> 'f" where
  "fs_mount_root fs st f =
     (case fs of
        None \<Rightarrow> (NM_ERR NM_EFAIL, st, f)
      | Some sys \<Rightarrow>
          (case fsys_ops sys of
             None \<Rightarrow> (NM_ERR NM_EFAIL, st, f)
           | Some ops \<Rightarrow>
               (case fs_op_mount_root ops of
                  None \<Rightarrow> (NM_ERR NM_EFAIL, st, f)
                | Some mount \<Rightarrow>
                    let (mounted_root, f) = mount f in
                    case mounted_root of
                      None \<Rightarrow> (NM_ERR NM_EFAIL, st, f)
                    | Some r \<Rightarrow> (0, st\<lparr>root_fs := fs, root_vnode := Some r\<rparr>, f))))"

text \<open>The part of \<^verbatim>\<open>fs_open\<close> that finds or creates the vnode (\<open>None\<close> is the null pointer).\<close>

definition open_node :: "string \<Rightarrow> u32 \<Rightarrow> 'f vfs_state \<Rightarrow> 'f \<Rightarrow> nat option \<times> 'f" where
  "open_node path flags st f =
     (case fst (resolve_path st f (Some path) False) of
        Some node \<Rightarrow> (Some node, f)
      | None \<Rightarrow>
          if flags AND NM_O_CREAT \<noteq> 0
          then let (dir, leaf) = resolve_path st f (Some path) True in
            (case (dir, map_option fsys_ops (root_fs st)) of
               (Some d, Some (Some ops)) \<Rightarrow>
                 (case fs_op_create ops of
                    None \<Rightarrow> (None, f)
                  | Some create \<Rightarrow> create d leaf NM_NODE_FILE 0x1A4 f)
             | _ \<Rightarrow> (None, f))
          else (None, f))"

definition fs_open :: "'f vnode_mem \<Rightarrow> string option \<Rightarrow> u32 \<Rightarrow> u32 \<Rightarrow> 'f vfs_state \<Rightarrow> 'f \<Rightarrow> int \<times> 'f vfs_state \<times> 'f" where
  "fs_open vm path flags mode st f =
     (case path of
        None \<Rightarrow> (NM_ERR NM_EFAIL, st, f)
      | Some p \<Rightarrow>
          let (node, f) = open_node p flags st f in
          case node of
            None \<Rightarrow> (NM_ERR NM_EFAIL, st, f)
          | Some n \<Rightarrow>
              (case vm_ops vm n f of
                 None \<Rightarrow> (NM_ERR NM_EFAIL, st, f)
               | Some ops \<Rightarrow>
                   (case alloc_fd (file_table st) of
                      None \<Rightarrow> (NM_ERR NM_EFAIL, st, f)
                    | Some (fd, table) \<Rightarrow>
                        let (r, f) = (case op_open ops of None \<Rightarrow> (0, f) | Some op \<Rightarrow> op n flags f) in
                        if r \<noteq> 0
                        then (NM_ERR NM_EFAIL, st\<lparr>file_table := table[fd := (table ! fd)\<lparr>f_used := False\<rparr>]\<rparr>, f)
                        else (int fd, st\<lparr>file_table := table[fd := (table ! fd)\<lparr>f_vnode := Some n, f_flags := flags, f_offset := 0\<rparr>]\<rparr>, f))))"

definition open_file :: "int \<Rightarrow> 'f vfs_state \<Rightarrow> nm_file option" where
  "open_file fd st =
     (if fd < 0 \<or> fd \<ge> int NM_FD_MAX \<or> \<not> f_used (file_table st ! nat fd) then None else Some (file_table st ! nat fd))"

definition set_offset :: "int \<Rightarrow> u64 \<Rightarrow> 'f vfs_state \<Rightarrow> 'f vfs_state" where
  "set_offset fd off st = st\<lparr>file_table := (file_table st)[nat fd := (file_table st ! nat fd)\<lparr>f_offset := off\<rparr>]\<rparr>"

definition advance :: "int \<Rightarrow> int \<Rightarrow> 'f vfs_state \<Rightarrow> 'f vfs_state" where
  "advance fd n st = (if n > 0 then set_offset fd (f_offset (file_table st ! nat fd) + of_int n) st else st)"

definition fs_read :: "'f vnode_mem \<Rightarrow> int \<Rightarrow> bool \<Rightarrow> u64 \<Rightarrow> 'f vfs_state \<Rightarrow> 'f \<Rightarrow> int \<times> u8 list \<times> 'f vfs_state" where
  "fs_read vm fd buf_nonnull len st f =
     (case open_file fd st of
        None \<Rightarrow> (NM_ERR NM_EFAIL, [], st)
      | Some file \<Rightarrow>
          if \<not> buf_nonnull then (NM_ERR NM_EFAIL, [], st)
          else case f_vnode file of
            None \<Rightarrow> (NM_ERR NM_EFAIL, [], st)
          | Some node \<Rightarrow>
              (case vm_ops vm node f of
                 None \<Rightarrow> (NM_ERR NM_EFAIL, [], st)
               | Some ops \<Rightarrow>
                   (case op_read ops of
                      None \<Rightarrow> (NM_ERR NM_EFAIL, [], st)
                    | Some rd \<Rightarrow> let (n, out) = rd node (f_offset file) len f in (n, out, advance fd n st))))"

definition fs_write :: "'f vnode_mem \<Rightarrow> int \<Rightarrow> u8 list option \<Rightarrow> 'f vfs_state \<Rightarrow> 'f \<Rightarrow> (int \<times> 'f vfs_state \<times> 'f) option" where
  "fs_write vm fd buf st f =
     (case (open_file fd st, buf) of
        (Some file, Some bytes) \<Rightarrow>
          (case f_vnode file of
             None \<Rightarrow> Some (NM_ERR NM_EFAIL, st, f)
           | Some node \<Rightarrow>
               (case vm_ops vm node f of
                  None \<Rightarrow> Some (NM_ERR NM_EFAIL, st, f)
                | Some ops \<Rightarrow>
                    (case op_write ops of
                       None \<Rightarrow> Some (NM_ERR NM_EFAIL, st, f)
                     | Some wr \<Rightarrow> map_option (\<lambda>(n, f). (n, advance fd n st, f)) (wr node bytes (f_offset file) f))))
      | _ \<Rightarrow> Some (NM_ERR NM_EFAIL, st, f))"

text \<open>Positions are signed 64-bit numbers in \<^verbatim>\<open>fs_lseek\<close>; the sum is reduced as the machine does.\<close>

definition fs_lseek :: "'f vnode_mem \<Rightarrow> int \<Rightarrow> int \<Rightarrow> int \<Rightarrow> 'f vfs_state \<Rightarrow> 'f \<Rightarrow> int \<times> 'f vfs_state" where
  "fs_lseek vm fd offset whence st f =
     (case open_file fd st of
        None \<Rightarrow> (NM_ERR NM_EFAIL, st)
      | Some file \<Rightarrow>
          if whence \<noteq> 0 \<and> whence \<noteq> 1 \<and> whence \<noteq> 2 then (NM_ERR NM_EFAIL, st)
          else let base = (if whence = 1 then sint (f_offset file)
                           else if whence = 2 then (case f_vnode file of Some n \<Rightarrow> sint (vm_size vm n f) | None \<Rightarrow> 0)
                           else 0);
                   next = s64 (base + offset)
               in if next < 0 then (NM_ERR NM_EFAIL, st) else (next, set_offset fd (of_int next) st))"

definition fs_close :: "int \<Rightarrow> 'f vfs_state \<Rightarrow> int \<times> 'f vfs_state" where
  "fs_close fd st =
     (case open_file fd st of
        None \<Rightarrow> (NM_ERR NM_EFAIL, st)
      | Some file \<Rightarrow> (0, st\<lparr>file_table := (file_table st)[nat fd := closed_file file]\<rparr>))"

definition fs_stat :: "'f vnode_mem \<Rightarrow> string option \<Rightarrow> bool \<Rightarrow> 'f vfs_state \<Rightarrow> 'f \<Rightarrow> int \<times> nm_stat option" where
  "fs_stat vm path st_nonnull st f =
     (if \<not> st_nonnull \<or> path = None then (NM_ERR NM_EFAIL, None)
      else case fst (resolve_path st f path False) of
        None \<Rightarrow> (NM_ERR NM_EFAIL, None)
      | Some node \<Rightarrow>
          (case vm_ops vm node f of
             None \<Rightarrow> (NM_ERR NM_EFAIL, None)
           | Some ops \<Rightarrow>
               (case op_stat ops of
                  None \<Rightarrow> (NM_ERR NM_EFAIL, None)
                | Some stat \<Rightarrow> let (r, info) = stat node f in (r, Some info))))"

interpretation vfiles: slot_table f_used fresh_file alloc_fd
  by unfold_locales (auto simp: fresh_file_def alloc_fd_def split: option.splits)

section \<open>Path splitting\<close>

text \<open>The reference: cut at every slash, drop the empty pieces.\<close>

fun pieces :: "string \<Rightarrow> string list" where
  "pieces [] = [[]]"
| "pieces (c # cs) = (if c = CHR ''/'' then [] # pieces cs else (c # hd (pieces cs)) # tl (pieces cs))"

definition path_names :: "string \<Rightarrow> string list" where
  "path_names path = filter (\<lambda>p. p \<noteq> []) (pieces path)"

lemma pieces_nonempty [simp]: "pieces p \<noteq> []"
  by (induction p) auto

lemma pieces_word: "CHR ''/'' \<notin> set w \<Longrightarrow> pieces (w @ p) = (w @ hd (pieces p)) # tl (pieces p)"
  by (induction w) auto

lemma path_names_slash: "path_names (CHR ''/'' # p) = path_names p"
  by (simp add: path_names_def)

lemma path_names_skip: "path_names (dropWhile (\<lambda>c. c = CHR ''/'') p) = path_names p"
  by (induction p) (auto simp: path_names_slash)

lemma path_names_word:
  assumes "w \<noteq> []" "CHR ''/'' \<notin> set w" "p = [] \<or> hd p = CHR ''/''"
  shows "path_names (w @ p) = w # path_names p"
proof (cases p)
  case Nil
  then show ?thesis using assms pieces_word [of w "[]"] by (simp add: path_names_def)
next
  case (Cons c cs)
  then have "pieces (w @ p) = w # pieces cs" "path_names p = path_names cs"
    using assms pieces_word [of w p] by (simp_all add: path_names_slash)
  then show ?thesis using assms(1) by (simp add: path_names_def)
qed

lemma path_names_step:
  assumes "dropWhile (\<lambda>c. c = CHR ''/'') p = c # cs"
  shows "path_names p = takeWhile (\<lambda>c. c \<noteq> CHR ''/'') (c # cs) # path_names (dropWhile (\<lambda>c. c \<noteq> CHR ''/'') (c # cs))"
proof -
  let ?w = "takeWhile (\<lambda>c. c \<noteq> CHR ''/'') (c # cs)" and ?r = "dropWhile (\<lambda>c. c \<noteq> CHR ''/'') (c # cs)"
  have "c \<noteq> CHR ''/''" using dropWhile_next [OF assms] .
  then have w: "?w \<noteq> []" by simp
  have n: "CHR ''/'' \<notin> set ?w" using set_takeWhileD by fastforce
  have r: "?r = [] \<or> hd ?r = CHR ''/''" using hd_dropWhile [of "\<lambda>c. c \<noteq> CHR ''/''" "c # cs"] by blast
  have "path_names p = path_names (c # cs)" using path_names_skip [of p] assms by simp
  also have "c # cs = ?w @ ?r" by (rule takeWhile_dropWhile_id [symmetric])
  also have "path_names (?w @ ?r) = ?w # path_names ?r" by (rule path_names_word [OF w n r])
  finally show ?thesis .
qed

lemma split_loop_spec:
  "split_loop max_parts path parts =
    (if int (length parts + length (path_names path)) \<le> max_parts \<or> path_names path = []
     then (int (length parts + length (path_names path)), parts @ map (take 63) (path_names path))
     else (NM_ERR NM_EFAIL, parts @ map (take 63) (take (nat (max_parts - int (length parts))) (path_names path))))"
proof (induction max_parts path parts rule: split_loop.induct)
  case (1 max_parts path parts)
  show ?case
  proof (cases "dropWhile (\<lambda>c. c = CHR ''/'') path")
    case Nil
    then have "path_names path = path_names []" using path_names_skip [of path] by metis
    then have "path_names path = []" by (simp add: path_names_def)
    then show ?thesis using Nil by (subst split_loop.simps) simp
  next
    case (Cons c cs)
    note st = path_names_step [OF Cons]
    show ?thesis
    proof (cases "max_parts \<le> int (length parts)")
      case True
      then show ?thesis using Cons st by (subst split_loop.simps) auto
    next
      case False
      let ?w = "takeWhile (\<lambda>c. c \<noteq> CHR ''/'') (c # cs)" and ?r = "dropWhile (\<lambda>c. c \<noteq> CHR ''/'') (c # cs)"
      have "split_loop max_parts path parts = split_loop max_parts ?r (parts @ [take (NM_NAME_MAX - 1) ?w])"
        using Cons False by (subst split_loop.simps) (simp add: Let_def)
      moreover have "nat (max_parts - int (length parts)) = Suc (nat (max_parts - int (length (parts @ [take (NM_NAME_MAX - 1) ?w]))))"
        using False by simp
      ultimately show ?thesis
        using 1 [OF refl, of ] Cons False st by (auto simp: NM_NAME_MAX_def)
    qed
  qed
qed

section \<open>What a file system promises: file contents\<close>

text \<open>
  \<open>overwrites c off buf c'\<close>: \<open>c'\<close> is the content \<open>c\<close> after storing \<open>buf\<close> at offset \<open>off\<close>. When the offset
  lies beyond the end, the bytes in between are whatever the file system had there.
\<close>

definition overwrites :: "u8 list \<Rightarrow> nat \<Rightarrow> u8 list \<Rightarrow> u8 list \<Rightarrow> bool" where
  "overwrites c off buf c' \<longleftrightarrow>
     (\<exists>gap. length gap = off - length c \<and> c' = take off (c @ gap) @ buf @ drop (off + length buf) c)"

lemma overwrites_length: "overwrites c off buf c' \<Longrightarrow> length c' = max (length c) (off + length buf)"
  by (auto simp: overwrites_def)

lemma overwrites_read: "overwrites c off buf c' \<Longrightarrow> take (length buf) (drop off c') = buf"
  by (auto simp: overwrites_def)

lemma overwrites_before: "overwrites c off buf c' \<Longrightarrow> n \<le> off \<Longrightarrow> n \<le> length c \<Longrightarrow> take n c' = take n c"
  by (auto simp: overwrites_def)

lemma overwrites_append: "overwrites c (length c) buf c' \<Longrightarrow> c' = c @ buf"
  by (auto simp: overwrites_def)

text \<open>A descriptor open on the regular file \<open>n\<close> at position \<open>pos\<close>, for a file system with invariant \<open>fs_ok\<close>.\<close>

definition opened_file ::
  "('f \<Rightarrow> bool) \<Rightarrow> ('f \<Rightarrow> nat \<Rightarrow> bool) \<Rightarrow> 'f vfs_state \<Rightarrow> 'f \<Rightarrow> int \<Rightarrow> nat \<Rightarrow> nat \<Rightarrow> bool" where
  "opened_file fs_ok is_file st f fd n pos \<longleftrightarrow> fs_ok f \<and> is_file f n \<and> length (file_table st) = NM_FD_MAX \<and>
     (\<exists>file. open_file fd st = Some file \<and> f_vnode file = Some n \<and> unat (f_offset file) = pos)"

locale file_store =
  fixes vm :: "'f vnode_mem"
    and fs_ok :: "'f \<Rightarrow> bool"
    and is_file :: "'f \<Rightarrow> nat \<Rightarrow> bool"
    and content :: "'f \<Rightarrow> nat \<Rightarrow> u8 list"
    and rd :: "nat \<Rightarrow> u64 \<Rightarrow> u64 \<Rightarrow> 'f \<Rightarrow> int \<times> u8 list"
    and wr :: "nat \<Rightarrow> u8 list \<Rightarrow> u64 \<Rightarrow> 'f \<Rightarrow> (int \<times> 'f) option"
  assumes file_ops: "fs_ok f \<Longrightarrow> is_file f n \<Longrightarrow>
      \<exists>ops. vm_ops vm n f = Some ops \<and> op_read ops = Some rd \<and> op_write ops = Some wr"
    and file_size: "fs_ok f \<Longrightarrow> is_file f n \<Longrightarrow> unat (vm_size vm n f) = length (content f n)"
    and file_small: "fs_ok f \<Longrightarrow> is_file f n \<Longrightarrow> length (content f n) < 2 ^ 63"
    and file_read: "fs_ok f \<Longrightarrow> is_file f n \<Longrightarrow>
      rd n off len f = (int (length (take (unat len) (drop (unat off) (content f n)))),
        take (unat len) (drop (unat off) (content f n)))"
    and file_write: "fs_ok f \<Longrightarrow> is_file f n \<Longrightarrow> unat off + length buf < 2 ^ 63 \<Longrightarrow>
      \<exists>r f'. wr n buf off f = Some (r, f') \<and> fs_ok f' \<and> (\<forall>m. is_file f' m = is_file f m) \<and>
        (\<forall>m. m \<noteq> n \<longrightarrow> is_file f m \<longrightarrow> content f' m = content f m) \<and>
        (r = int (length buf) \<and> overwrites (content f n) (unat off) buf (content f' n) \<or>
         r < 0 \<and> content f' n = content f n)"
begin

abbreviation opened :: "'f vfs_state \<Rightarrow> 'f \<Rightarrow> int \<Rightarrow> nat \<Rightarrow> nat \<Rightarrow> bool" where
  "opened \<equiv> opened_file fs_ok is_file"

lemma opened_entry:
  assumes "opened st f fd n pos"
  shows "0 \<le> fd" "nat fd < length (file_table st)" "f_used (file_table st ! nat fd)"
    "open_file fd st = Some (file_table st ! nat fd)" "f_vnode (file_table st ! nat fd) = Some n"
    "unat (f_offset (file_table st ! nat fd)) = pos" "fs_ok f" "is_file f n"
  using assms by (auto simp: opened_file_def open_file_def split: if_splits)

lemma opened_set_offset:
  assumes "opened st f fd n pos" "unat off = pos'" "fs_ok f'" "is_file f' n"
  shows "opened (set_offset fd off st) f' fd n pos'"
  using opened_entry [OF assms(1)] assms by (auto simp: opened_file_def open_file_def set_offset_def)

lemma read_open:
  assumes "opened st f fd n pos"
  shows "\<exists>st'. fs_read vm fd True len st f =
      (int (min (unat len) (length (content f n) - pos)), take (unat len) (drop pos (content f n)), st') \<and>
    opened st' f fd n (pos + min (unat len) (length (content f n) - pos))"
proof -
  note e = opened_entry [OF assms]
  let ?out = "take (unat len) (drop pos (content f n))"
  obtain ops where ops: "vm_ops vm n f = Some ops" "op_read ops = Some rd" using file_ops [OF e(7,8)] by blast
  have k: "length ?out = min (unat len) (length (content f n) - pos)" by (simp add: min.commute)
  have r: "fs_read vm fd True len st f = (int (length ?out), ?out, advance fd (int (length ?out)) st)"
    using e(4-6) ops file_read [OF e(7,8), of "f_offset (file_table st ! nat fd)" len] by (simp add: fs_read_def)
  have small: "length (content f n) < 2 ^ 63" by (rule file_small [OF e(7,8)])
  have "opened (advance fd (int (length ?out)) st) f fd n (pos + length ?out)"
  proof (cases "?out = []")
    case True
    have z: "length ?out = 0" unfolding True by simp
    show ?thesis unfolding z using assms by (simp add: advance_def)
  next
    case False
    have "pos + length ?out \<le> length (content f n)" using False by (simp add: k) (auto simp: min_def)
    then have "pos + length ?out < 2 ^ 64" using small by simp
    then have "unat (f_offset (file_table st ! nat fd) + of_int (int (length ?out))) = pos + length ?out"
      using e(6) by (simp add: unat_add64 unat_of_nat64)
    then show ?thesis
      using opened_set_offset [OF assms _ e(7,8), of "f_offset (file_table st ! nat fd) + of_int (int (length ?out))"] False
      by (simp add: advance_def)
  qed
  then show ?thesis using r k by metis
qed

lemma write_open:
  assumes "opened st f fd n pos" "pos + length buf < 2 ^ 63"
  shows "\<exists>r st' f'. fs_write vm fd (Some buf) st f = Some (r, st', f') \<and>
    (r = int (length buf) \<and> overwrites (content f n) pos buf (content f' n) \<and> opened st' f' fd n (pos + length buf) \<or>
     r < 0 \<and> content f' n = content f n \<and> opened st' f' fd n pos) \<and>
    (\<forall>m. m \<noteq> n \<longrightarrow> is_file f m \<longrightarrow> content f' m = content f m)"
proof -
  note e = opened_entry [OF assms(1)]
  obtain ops where ops: "vm_ops vm n f = Some ops" "op_write ops = Some wr" using file_ops [OF e(7,8)] by blast
  obtain r f' where w: "wr n buf (f_offset (file_table st ! nat fd)) f = Some (r, f')" "fs_ok f'" "is_file f' n"
    "\<forall>m. m \<noteq> n \<longrightarrow> is_file f m \<longrightarrow> content f' m = content f m"
    "r = int (length buf) \<and> overwrites (content f n) pos buf (content f' n) \<or> r < 0 \<and> content f' n = content f n"
    using file_write [OF e(7,8), of "f_offset (file_table st ! nat fd)" buf] assms(2) e(6,8) by auto
  have s: "fs_write vm fd (Some buf) st f = Some (r, advance fd r st, f')"
    using e(4,5) ops w(1) by (simp add: fs_write_def)
  have "opened (advance fd r st) f' fd n (if r > 0 then pos + length buf else pos)" if "r = int (length buf) \<or> r \<le> 0"
  proof (cases "r > 0")
    case True
    then have "unat (f_offset (file_table st ! nat fd) + of_int r) = pos + length buf"
      using e(6) assms(2) that by (simp add: unat_add64 unat_of_nat64)
    then show ?thesis
      using opened_set_offset [OF assms(1) _ w(2,3), of "f_offset (file_table st ! nat fd) + of_int r"] True
      by (simp add: advance_def)
  next
    case False
    then show ?thesis using assms(1) w(2,3) by (auto simp: advance_def opened_file_def)
  qed
  then show ?thesis using s w(4,5) by (cases "length buf = 0") auto
qed

lemma seek_open:
  assumes "opened st f fd n pos" "0 \<le> off" "off < 2 ^ 63"
  shows "\<exists>st'. fs_lseek vm fd off 0 st f = (off, st') \<and> opened st' f fd n (nat off)"
proof -
  note e = opened_entry [OF assms(1)]
  have s: "s64 off = off" using assms(2,3) by (intro s64_id) auto
  have "unat (of_int off :: u64) = nat off"
    using assms(2,3) by (simp add: unsigned_of_int take_bit_int_eq_self nat_take_bit_eq [symmetric] unat_of_nat64)
  then show ?thesis
    using e(4) s assms(2) opened_set_offset [OF assms(1) _ e(7,8), of "of_int off" "nat off"] by (simp add: fs_lseek_def)
qed

text \<open>Writing, seeking back and reading again returns the bytes written.\<close>

lemma write_seek_read:
  assumes "opened st f fd n pos" "pos + length buf < 2 ^ 63" "fs_write vm fd (Some buf) st f = Some (r, st1, f1)" "0 \<le> r"
  shows "\<exists>st2 st3. fs_lseek vm fd (int pos) 0 st1 f1 = (int pos, st2) \<and>
    fs_read vm fd True (of_nat (length buf)) st2 f1 = (int (length buf), buf, st3)"
proof -
  have w: "overwrites (content f n) pos buf (content f1 n)" "opened st1 f1 fd n (pos + length buf)"
    using write_open [OF assms(1,2)] assms(3,4) by auto
  obtain st2 where s: "fs_lseek vm fd (int pos) 0 st1 f1 = (int pos, st2)" "opened st2 f1 fd n pos"
    using seek_open [OF w(2), of "int pos"] assms(2) by auto
  have l: "unat (of_nat (length buf) :: u64) = length buf" using assms(2) by (intro unat_of_nat64) simp
  have "min (length buf) (length (content f1 n) - pos) = length buf" using overwrites_length [OF w(1)] by auto
  then show ?thesis
    using read_open [OF s(2), of "of_nat (length buf)"] s(1) l overwrites_read [OF w(1)] by auto
qed

end

section \<open>What a file system promises: names\<close>

text \<open>The mounted root and its operations.\<close>

definition mounted :: "'f nm_fs_ops \<Rightarrow> nat \<Rightarrow> 'f vfs_state \<Rightarrow> bool" where
  "mounted ops root st \<longleftrightarrow> root_vnode st = Some root \<and> (\<exists>fs. root_fs st = Some fs \<and> fsys_ops fs = Some ops)"

text \<open>A path that \<^verbatim>\<open>resolve_path\<close> accepts: absolute, at least one and at most 16 names.\<close>

definition good_path :: "string \<Rightarrow> bool" where
  "good_path p \<longleftrightarrow> p \<noteq> [] \<and> hd p = CHR ''/'' \<and> path_names p \<noteq> [] \<and> length (path_names p) \<le> 16"

definition path_parts :: "string \<Rightarrow> string list" where
  "path_parts p = map (take 63) (path_names p)"

lemma resolve_good:
  assumes "mounted ops root st" "good_path p"
  shows "fst (resolve_path st f (Some p) False) = walk (\<lambda>d name. fs_op_lookup ops d name f) root (path_parts p)"
    "resolve_path st f (Some p) True =
      (case walk (\<lambda>d name. fs_op_lookup ops d name f) root (butlast (path_parts p)) of
         None \<Rightarrow> (None, []) | Some d \<Rightarrow> (Some d, last (path_parts p)))"
proof -
  have l: "length (path_parts p) = length (path_names p)" "path_parts p \<noteq> []"
    using assms(2) by (auto simp: path_parts_def good_path_def)
  have sp: "fs_path_split (Some p) NM_PATH_PARTS = (int (length (path_parts p)), path_parts p)"
    using assms(2) by (simp add: fs_path_split_def split_loop_spec NM_PATH_PARTS_def good_path_def path_parts_def)
  have last: "vfs_copy_name (path_parts p ! nat (int (length (path_parts p)) - 1)) = last (path_parts p)"
  proof -
    have "last (path_parts p) = path_parts p ! (length (path_parts p) - 1)" using l(2) by (rule last_conv_nth)
    moreover have "nat (int (length (path_parts p)) - 1) = length (path_parts p) - 1" using l(2) by (cases "path_parts p") auto
    moreover have "length (last (path_parts p)) \<le> 63" using l(2) assms(2)
      by (simp add: path_parts_def last_map good_path_def)
    ultimately show ?thesis by (simp add: vfs_copy_name_def NM_NAME_MAX_def)
  qed
  have bl: "take (nat (int (length (path_parts p)) - 1)) (path_parts p) = butlast (path_parts p)"
  proof -
    have "nat (int (length (path_parts p)) - 1) = length (path_parts p) - 1" using l(2) by (cases "path_parts p") auto
    then show ?thesis by (simp add: butlast_conv_take)
  qed
  have hd: "p \<noteq> [] \<and> hd p = CHR ''/''" using assms(2) by (simp add: good_path_def)
  have pos: "0 < length (path_parts p)" using l(2) by simp
  show "fst (resolve_path st f (Some p) False) = walk (\<lambda>d name. fs_op_lookup ops d name f) root (path_parts p)"
    using assms(1) hd sp pos by (auto simp: mounted_def resolve_path_def Let_def split: option.splits)
  show "resolve_path st f (Some p) True =
      (case walk (\<lambda>d name. fs_op_lookup ops d name f) root (butlast (path_parts p)) of
         None \<Rightarrow> (None, []) | Some d \<Rightarrow> (Some d, last (path_parts p)))"
    using assms(1) hd sp pos last bl by (auto simp: mounted_def resolve_path_def Let_def split: option.splits)
qed

lemma walk_append: "walk lk cur (ps @ qs) = (case walk lk cur ps of None \<Rightarrow> None | Some n \<Rightarrow> walk lk n qs)"
  by (induction ps arbitrary: cur) (auto split: option.splits)

locale dir_store =
  fixes ops :: "'f nm_fs_ops"
    and create :: "nat \<Rightarrow> string \<Rightarrow> nm_node_type \<Rightarrow> u32 \<Rightarrow> 'f \<Rightarrow> nat option \<times> 'f"
    and fs_ok :: "'f \<Rightarrow> bool"
    and node :: "'f \<Rightarrow> nat \<Rightarrow> bool"
  assumes create_op: "fs_op_create ops = Some create"
    and lookup_node: "fs_ok f \<Longrightarrow> node f d \<Longrightarrow> fs_op_lookup ops d name f = Some n \<Longrightarrow> node f n"
    and create_node: "fs_ok f \<Longrightarrow> node f d \<Longrightarrow> length name < NM_NAME_MAX \<Longrightarrow> create d name ty mode f = (Some n, f') \<Longrightarrow>
      fs_ok f' \<and> node f' n \<and> fs_op_lookup ops d name f = None \<and> fs_op_lookup ops d name f' = Some n \<and>
      (\<forall>m. node f m \<longrightarrow> node f' m) \<and>
      (\<forall>d' name'. node f d' \<longrightarrow> (d', name') \<noteq> (d, name) \<longrightarrow> fs_op_lookup ops d' name' f' = fs_op_lookup ops d' name' f)"
    and create_fails: "fs_ok f \<Longrightarrow> node f d \<Longrightarrow> create d name ty mode f = (None, f') \<Longrightarrow> f' = f"
begin

lemma walk_node:
  "fs_ok f \<Longrightarrow> node f cur \<Longrightarrow> walk (\<lambda>d name. fs_op_lookup ops d name f) cur ps = Some n \<Longrightarrow> node f n"
  by (induction ps arbitrary: cur) (auto split: option.splits dest: lookup_node)

lemma walk_after_create:
  assumes "fs_ok f" "node f d" "length name < NM_NAME_MAX" "create d name ty mode f = (Some n, f')"
  shows "node f cur \<Longrightarrow> walk (\<lambda>d name. fs_op_lookup ops d name f) cur ps = Some m \<Longrightarrow>
    walk (\<lambda>d name. fs_op_lookup ops d name f') cur ps = Some m"
proof (induction ps arbitrary: cur)
  case Nil
  then show ?case by simp
next
  case (Cons p ps)
  obtain k where k: "fs_op_lookup ops cur p f = Some k" "walk (\<lambda>d name. fs_op_lookup ops d name f) k ps = Some m"
    using Cons.prems(2) by (auto split: option.splits)
  have "(cur, p) \<noteq> (d, name)" using k(1) create_node [OF assms] by auto
  then have "fs_op_lookup ops cur p f' = Some k" using create_node [OF assms] Cons.prems(1) k(1) by auto
  then show ?case using Cons.IH [OF lookup_node [OF assms(1) Cons.prems(1) k(1)] k(2)] by simp
qed

text \<open>
  Opening a path that does not exist, with the create flag, in a directory that does: the file
  system is asked to create the last name there; what it creates is what every later open finds.
\<close>

lemma open_creates:
  assumes "fs_ok f" "mounted ops root st" "node f root" "good_path p"
    and "walk (\<lambda>d name. fs_op_lookup ops d name f) root (butlast (path_parts p)) = Some d"
    and "fs_op_lookup ops d (last (path_parts p)) f = None" "flags AND NM_O_CREAT \<noteq> 0"
    and "create d (last (path_parts p)) NM_NODE_FILE 0x1A4 f = (Some n, f')"
  shows "open_node p flags st f = (Some n, f')" "open_node p flags' st f' = (Some n, f')" "fs_ok f'" "node f' n"
proof -
  have parts: "path_parts p = butlast (path_parts p) @ [last (path_parts p)]"
    using assms(4) by (simp add: path_parts_def good_path_def)
  have len: "length (last (path_parts p)) < NM_NAME_MAX"
    using assms(4) by (simp add: path_parts_def last_map good_path_def NM_NAME_MAX_def)
  have d: "node f d" by (rule walk_node [OF assms(1,3,5)])
  have "walk (\<lambda>d name. fs_op_lookup ops d name f) root (path_parts p) = None"
    by (subst parts, simp add: walk_append assms(5,6))
  then show "open_node p flags st f = (Some n, f')"
    using resolve_good [OF assms(2,4), of f] assms(2,5,7,8) create_op by (auto simp: open_node_def mounted_def)
  have "walk (\<lambda>d name. fs_op_lookup ops d name f') root (butlast (path_parts p)) = Some d"
    by (rule walk_after_create [OF assms(1) d len assms(8,3,5)])
  moreover have "fs_op_lookup ops d (last (path_parts p)) f' = Some n" using create_node [OF assms(1) d len assms(8)] by simp
  ultimately have "walk (\<lambda>d name. fs_op_lookup ops d name f') root (path_parts p) = Some n"
    by (subst parts, simp add: walk_append)
  then show "open_node p flags' st f' = (Some n, f')"
    using resolve_good(1) [OF assms(2,4), of f'] by (simp add: open_node_def)
  show "fs_ok f'" "node f' n" using create_node [OF assms(1) d len assms(8)] by simp_all
qed

end

text \<open>
  C36: \<^verbatim>\<open>fs_path_split\<close> computes the non-empty pieces between slashes, each cut to 63 characters. When
  there are at most \<open>max_parts\<close> of them it returns their number and all of them; when there are
  more it fails, having filled the parts that fit; a non-positive limit fails at once.
\<close>

theorem fs_path_split_correct:
  "fs_path_split (Some p) max_parts =
     (if max_parts \<le> 0 then (NM_ERR NM_EFAIL, [])
      else if int (length (path_names p)) \<le> max_parts
      then (int (length (path_names p)), map (take 63) (path_names p))
      else (NM_ERR NM_EFAIL, map (take 63) (take (nat max_parts) (path_names p))))"
  by (auto simp: fs_path_split_def split_loop_spec)

end
