(* ===== verification/Syscall.thy ===== *)
theory Syscall
  imports Sched Fd Vfs
begin

text \<open>
  The system-call layer of \<^verbatim>\<open>kernel/syscall/syscall.c\<close> and the table of built-in programs of
  \<^verbatim>\<open>kernel/proc/exec_registry.c\<close>, composed from the process table, the descriptors and the virtual
  file system. The state is the record \<open>kernel\<close>: the states of these components, the memory that user
  pointers refer to (a map from addresses to bytes), the characters handed to \<^verbatim>\<open>console_putc\<close> so far and
  the dispatch table. What lies outside is the record \<open>kenv\<close>: the vnode memory of the mounted file system
  and the heap's \<^verbatim>\<open>kmalloc\<close> and \<^verbatim>\<open>kfree\<close>. A handler returns \<open>None\<close> when the file system has no defined result
  or a string argument has no terminating null character.
\<close>

section \<open>State\<close>

definition NM_SYSCALL_MAX :: nat where "NM_SYSCALL_MAX = 128"

datatype sys_handler =
  Sys_getpid | Sys_write | Sys_read | Sys_close | Sys_exit | Sys_waitpid | Sys_pipe | Sys_dup2 | Sys_fork | Sys_exec
  | Sys_fd_cloexec

type_synonym user_mem = "u64 \<Rightarrow> u8"

record ('f, 'h) kernel =
  k_proc :: proc_state
  k_fd :: fd_state
  k_vfs :: "'f vfs_state \<times> 'f"
  k_mem :: user_mem
  k_console :: "u8 list"
  k_heap :: 'h
  syscall_table :: "sys_handler option list"

record ('f, 'h) kenv =
  ke_vnodes :: "'f vnode_mem"
  ke_kmalloc :: "u64 \<Rightarrow> 'h \<Rightarrow> u64 \<times> 'h"
  ke_kfree :: "u64 \<Rightarrow> 'h \<Rightarrow> 'h"

text \<open>The descriptor layer's file system is the virtual file system.\<close>

definition vfs_if :: "'f vnode_mem \<Rightarrow> ('f vfs_state \<times> 'f) fs_if" where
  "vfs_if vm = \<lparr>
     if_read = (\<lambda>fd len v. case v of (st, f) \<Rightarrow> let (n, out, st) = fs_read vm fd True len st f in (n, out, (st, f))),
     if_write = (\<lambda>fd buf v. case v of (st, f) \<Rightarrow> map_option (\<lambda>(n, st, f). (n, (st, f))) (fs_write vm fd (Some buf) st f)),
     if_close = (\<lambda>fd v. case v of (st, f) \<Rightarrow> let (r, st) = fs_close fd st in (r, (st, f)))\<rparr>"

section \<open>User memory\<close>

definition load_bytes :: "user_mem \<Rightarrow> u64 \<Rightarrow> nat \<Rightarrow> u8 list" where
  "load_bytes mem a n = map (\<lambda>i. mem (a + of_nat i)) [0..<n]"

definition load64 :: "user_mem \<Rightarrow> u64 \<Rightarrow> u64" where
  "load64 mem a = word_of_int (horner_sum uint 256 (load_bytes mem a 8))"

fun store_mem :: "user_mem \<Rightarrow> u64 \<Rightarrow> u8 list \<Rightarrow> user_mem" where
  "store_mem mem a [] = mem"
| "store_mem mem a (b # bs) = store_mem (mem(a := b)) (a + 1) bs"

definition store32 :: "user_mem \<Rightarrow> u64 \<Rightarrow> int \<Rightarrow> user_mem" where
  "store32 mem a v = store_mem mem a (map (\<lambda>i. word_of_int (drop_bit (8 * i) v)) [0..<4])"

partial_function (option) c_string :: "user_mem \<Rightarrow> u64 \<Rightarrow> string option" where
  "c_string mem a =
     (if mem a = 0 then Some []
      else Option.bind (c_string mem (a + 1)) (\<lambda>cs. Some (char_of (unat (mem a)) # cs)))"

declare c_string.simps [code]

lemma c_string_step:
  "mem a = 0 \<Longrightarrow> c_string mem a = Some []"
  "mem a \<noteq> 0 \<Longrightarrow> c_string mem a = Option.bind (c_string mem (a + 1)) (\<lambda>cs. Some (char_of (unat (mem a)) # cs))"
  by (subst c_string.simps, simp)+

section \<open>Built-in programs\<close>

definition builtin_programs :: "(string \<times> u64) list" where
  "builtin_programs = [(''/init'', 0x1000), (''/sh'', 0x1100), (''/ping'', 0x1200)]"

fun str_eq :: "string \<Rightarrow> string \<Rightarrow> bool" where
  "str_eq (a # as) (b # bs) = (if a \<noteq> b then False else str_eq as bs)"
| "str_eq [] [] = True"
| "str_eq _ _ = False"

definition nm_exec_resolve_entry :: "string option \<Rightarrow> int \<times> u64 option" where
  "nm_exec_resolve_entry path =
     (case path of
        None \<Rightarrow> (NM_ERR NM_EINVAL, None)
      | Some p \<Rightarrow>
          (case find (\<lambda>(name, entry). str_eq p name) builtin_programs of
             Some (name, entry) \<Rightarrow> (0, Some entry)
           | None \<Rightarrow> (NM_ERR NM_ENOENT, None)))"

section \<open>Handlers\<close>

text \<open>Putting the task that a descriptor operation returns back into its slot, with the other results.\<close>

definition put_task :: "nat \<Rightarrow> nm_task \<Rightarrow> fd_state \<Rightarrow> 'f vfs_state \<times> 'f \<Rightarrow> ('f, 'h) kernel \<Rightarrow> ('f, 'h) kernel" where
  "put_task c task s v k = k\<lparr>k_proc := upd_task c (\<lambda>_. task) (k_proc k), k_fd := s, k_vfs := v\<rparr>"

definition cur_task :: "nat \<Rightarrow> ('f, 'h) kernel \<Rightarrow> nm_task" where
  "cur_task c k = task_table (k_proc k) ! c"

definition sys_getpid :: "('f, 'h) kernel \<Rightarrow> int \<times> ('f, 'h) kernel" where
  "sys_getpid k = (case task_current (k_proc k) of None \<Rightarrow> (NM_ERR NM_EFAIL, k) | Some c \<Rightarrow> (t_pid (cur_task c k), k))"

definition sys_write :: "('f, 'h) kenv \<Rightarrow> u64 \<Rightarrow> u64 \<Rightarrow> u64 \<Rightarrow> ('f, 'h) kernel \<Rightarrow> (int \<times> ('f, 'h) kernel) option" where
  "sys_write env fd buf len k =
     (if buf = 0 then Some (NM_ERR NM_EINVAL, k)
      else case task_current (k_proc k) of
        None \<Rightarrow> Some (NM_ERR NM_EFAIL, k)
      | Some c \<Rightarrow>
          let bytes = load_bytes (k_mem k) buf (unat len) in
          (case nm_fd_write (vfs_if (ke_vnodes env)) (cur_task c k) (s32 (uint fd)) (Some bytes) (k_fd k) (k_vfs k) of
             None \<Rightarrow> None
           | Some (n, task, s, v) \<Rightarrow>
               let k = put_task c task s v k in
               if n \<ge> 0 then Some (n, k)
               else if fd \<noteq> 1 then Some (NM_ERR NM_EFAIL, k)
               else Some (s64 (uint len), k\<lparr>k_console := k_console k @ bytes\<rparr>)))"

definition sys_read :: "('f, 'h) kenv \<Rightarrow> u64 \<Rightarrow> u64 \<Rightarrow> u64 \<Rightarrow> ('f, 'h) kernel \<Rightarrow> int \<times> ('f, 'h) kernel" where
  "sys_read env fd buf len k =
     (if buf = 0 then (NM_ERR NM_EINVAL, k)
      else case task_current (k_proc k) of
        None \<Rightarrow> (NM_ERR NM_EFAIL, k)
      | Some c \<Rightarrow>
          let (n, out, task, s, v) =
                nm_fd_read (vfs_if (ke_vnodes env)) (cur_task c k) (s32 (uint fd)) True len (k_fd k) (k_vfs k);
              k = put_task c task s v k
          in (n, k\<lparr>k_mem := store_mem (k_mem k) buf out\<rparr>))"

definition sys_close :: "('f, 'h) kenv \<Rightarrow> u64 \<Rightarrow> ('f, 'h) kernel \<Rightarrow> int \<times> ('f, 'h) kernel" where
  "sys_close env fd k =
     (case task_current (k_proc k) of
        None \<Rightarrow> (NM_ERR NM_EFAIL, k)
      | Some c \<Rightarrow>
          if fd \<ge> of_nat NM_MAX_FDS then (NM_ERR NM_EFAIL, k)
          else let (r, task, s, v) = nm_fd_close (vfs_if (ke_vnodes env)) (cur_task c k) (s32 (uint fd)) (k_fd k) (k_vfs k)
               in (r, put_task c task s v k))"

definition sys_exit :: "u64 \<Rightarrow> ('f, 'h) kernel \<Rightarrow> int \<times> ('f, 'h) kernel" where
  "sys_exit code k = (0, k\<lparr>k_proc := proc_exit_current (s32 (uint code)) (k_proc k)\<rparr>)"

definition sys_waitpid :: "u64 \<Rightarrow> u64 \<Rightarrow> ('f, 'h) kernel \<Rightarrow> int \<times> ('f, 'h) kernel" where
  "sys_waitpid pid status_ptr k =
     (let (got, st, p) = proc_waitpid (s32 (uint pid)) (k_proc k);
          status = (case st of Some x \<Rightarrow> x | None \<Rightarrow> 0);
          k = k\<lparr>k_proc := p\<rparr>
      in if got < 0 then (NM_ERR NM_EFAIL, k)
         else if status_ptr \<noteq> 0 then (got, k\<lparr>k_mem := store32 (k_mem k) status_ptr status\<rparr>)
         else (got, k))"

definition sys_pipe :: "('f, 'h) kenv \<Rightarrow> u64 \<Rightarrow> ('f, 'h) kernel \<Rightarrow> int \<times> ('f, 'h) kernel" where
  "sys_pipe env fds_ptr k =
     (case task_current (k_proc k) of
        None \<Rightarrow> (NM_ERR NM_EINVAL, k)
      | Some c \<Rightarrow>
          if fds_ptr = 0 then (NM_ERR NM_EINVAL, k)
          else let (r, fds, task, s, v) = nm_fd_pipe (vfs_if (ke_vnodes env)) (cur_task c k) (k_fd k) (k_vfs k);
                   k = put_task c task s v k;
                   (rd, wr) = (case fds of Some x \<Rightarrow> x | None \<Rightarrow> (- 1, - 1))
               in if r \<noteq> 0 then (NM_ERR NM_EFAIL, k)
                  else (0, k\<lparr>k_mem := store32 (store32 (k_mem k) fds_ptr rd) (fds_ptr + 4) wr\<rparr>))"

definition sys_dup2 :: "('f, 'h) kenv \<Rightarrow> u64 \<Rightarrow> u64 \<Rightarrow> ('f, 'h) kernel \<Rightarrow> int \<times> ('f, 'h) kernel" where
  "sys_dup2 env oldfd newfd k =
     (case task_current (k_proc k) of
        None \<Rightarrow> (NM_ERR NM_EFAIL, k)
      | Some c \<Rightarrow>
          if oldfd \<ge> of_nat NM_MAX_FDS \<or> newfd \<ge> of_nat NM_MAX_FDS then (NM_ERR NM_EFAIL, k)
          else let (r, task, s, v) = nm_fd_dup2 (vfs_if (ke_vnodes env)) (cur_task c k) (s32 (uint oldfd)) (s32 (uint newfd))
                     (k_fd k) (k_vfs k)
               in (r, put_task c task s v k))"

definition sys_fd_cloexec :: "u64 \<Rightarrow> u64 \<Rightarrow> ('f, 'h) kernel \<Rightarrow> int \<times> ('f, 'h) kernel" where
  "sys_fd_cloexec fd enabled k =
     (case task_current (k_proc k) of
        None \<Rightarrow> (NM_ERR NM_EFAIL, k)
      | Some c \<Rightarrow>
          if fd \<ge> of_nat NM_MAX_FDS then (NM_ERR NM_EFAIL, k)
          else if enabled = 0 \<or> enabled = 1
          then let (r, task) = nm_fd_set_cloexec (cur_task c k) (s32 (uint fd)) (uint enabled)
               in (r, put_task c task (k_fd k) (k_vfs k) k)
          else if enabled = 2 then (nm_fd_get_cloexec (cur_task c k) (s32 (uint fd)), k)
          else (NM_ERR NM_EINVAL, k))"

definition sys_fork :: "('f, 'h) kenv \<Rightarrow> ('f, 'h) kernel \<Rightarrow> int \<times> ('f, 'h) kernel" where
  "sys_fork env k =
     (case task_current (k_proc k) of
        None \<Rightarrow> (NM_ERR NM_EFAIL, k)
      | Some parent \<Rightarrow>
          let (child, p, h) = proc_fork_current (ke_kmalloc env) (ke_kfree env) (k_proc k) (k_heap k);
              k = k\<lparr>k_proc := p, k_heap := h\<rparr>
          in case child of
               None \<Rightarrow> (NM_ERR NM_EFAIL, k)
             | Some ch \<Rightarrow>
                 let (r, task, s) = nm_fd_on_fork_child (cur_task ch k) (k_fd k);
                     k = put_task ch task s (k_vfs k) k;
                     pid = t_pid (cur_task ch k)
                 in (pid, k\<lparr>k_proc := upd_task parent (\<lambda>t. t\<lparr>t_regs := (t_regs t)\<lparr>reg_rax := word_of_int pid\<rparr>\<rparr>) (k_proc k)\<rparr>))"

text \<open>The entry address and argument vector that \<^verbatim>\<open>sys_exec\<close> settles on (0 is no entry).\<close>

definition exec_entry :: "string \<Rightarrow> u64 \<Rightarrow> u64 \<Rightarrow> u64 \<Rightarrow> u64 \<times> u64" where
  "exec_entry name argv_ptr envp_ptr a4 =
     (let final_entry = (case nm_exec_resolve_entry (Some name) of (r, e) \<Rightarrow> if r \<noteq> 0 then 0 else the e) in
      if argv_ptr \<noteq> 0 \<and> envp_ptr = 0 \<and> a4 = 0 \<and> argv_ptr < 0x100000 then (argv_ptr, 0)
      else if a4 \<noteq> 0 then (a4, argv_ptr)
      else (final_entry, argv_ptr))"

definition sys_exec :: "('f, 'h) kenv \<Rightarrow> u64 \<Rightarrow> u64 \<Rightarrow> u64 \<Rightarrow> u64 \<Rightarrow> ('f, 'h) kernel \<Rightarrow> (int \<times> ('f, 'h) kernel) option" where
  "sys_exec env name_ptr argv_ptr envp_ptr a4 k =
     (if name_ptr = 0 then Some (NM_ERR NM_EFAIL, k)
      else case c_string (k_mem k) name_ptr of
        None \<Rightarrow> None
      | Some name \<Rightarrow>
          if fst (fs_stat (ke_vnodes env) (Some name) True (fst (k_vfs k)) (snd (k_vfs k))) \<noteq> 0 then Some (NM_ERR NM_EFAIL, k)
          else let (final_entry, argv) = exec_entry name argv_ptr envp_ptr a4 in
            if final_entry = 0 then Some (NM_ERR NM_EFAIL, k)
            else let k = (case task_current (k_proc k) of
                            None \<Rightarrow> k
                          | Some c \<Rightarrow>
                              let (task, s, v) = nm_fd_close_on_exec (vfs_if (ke_vnodes env)) (cur_task c k) (k_fd k) (k_vfs k)
                              in put_task c task s v k);
                     (r, p) = proc_exec_current (load64 (k_mem k)) (Some name) final_entry argv envp_ptr (k_proc k)
                 in Some (r, k\<lparr>k_proc := p\<rparr>))"

section \<open>Dispatch\<close>

definition run_handler ::
  "('f, 'h) kenv \<Rightarrow> sys_handler \<Rightarrow> u64 \<Rightarrow> u64 \<Rightarrow> u64 \<Rightarrow> u64 \<Rightarrow> ('f, 'h) kernel \<Rightarrow> (int \<times> ('f, 'h) kernel) option" where
  "run_handler env fn a1 a2 a3 a4 k =
     (case fn of
        Sys_getpid \<Rightarrow> Some (sys_getpid k)
      | Sys_write \<Rightarrow> sys_write env a1 a2 a3 k
      | Sys_read \<Rightarrow> Some (sys_read env a1 a2 a3 k)
      | Sys_close \<Rightarrow> Some (sys_close env a1 k)
      | Sys_exit \<Rightarrow> Some (sys_exit a1 k)
      | Sys_waitpid \<Rightarrow> Some (sys_waitpid a1 a2 k)
      | Sys_pipe \<Rightarrow> Some (sys_pipe env a1 k)
      | Sys_dup2 \<Rightarrow> Some (sys_dup2 env a1 a2 k)
      | Sys_fork \<Rightarrow> Some (sys_fork env k)
      | Sys_exec \<Rightarrow> sys_exec env a1 a2 a3 a4 k
      | Sys_fd_cloexec \<Rightarrow> Some (sys_fd_cloexec a1 a2 k))"

definition syscall_register :: "u64 \<Rightarrow> sys_handler option \<Rightarrow> ('f, 'h) kernel \<Rightarrow> int \<times> ('f, 'h) kernel" where
  "syscall_register nr fn k =
     (if nr \<ge> of_nat NM_SYSCALL_MAX \<or> fn = None then (NM_ERR NM_EFAIL, k)
      else (0, k\<lparr>syscall_table := (syscall_table k)[unat nr := fn]\<rparr>))"

definition syscall_init :: "('f, 'h) kernel \<Rightarrow> ('f, 'h) kernel" where
  "syscall_init k =
     fold (\<lambda>(nr, fn) k. snd (syscall_register nr (Some fn) k))
       [(0, Sys_getpid), (1, Sys_write), (2, Sys_read), (3, Sys_close), (4, Sys_exit), (5, Sys_waitpid), (6, Sys_pipe),
        (7, Sys_dup2), (8, Sys_fork), (9, Sys_exec), (10, Sys_fd_cloexec)]
       (k\<lparr>syscall_table := map (\<lambda>_. None) (syscall_table k), k_fd := nm_fd_init (k_fd k)\<rparr>)"

definition syscall_dispatch ::
  "('f, 'h) kenv \<Rightarrow> u64 \<Rightarrow> u64 \<Rightarrow> u64 \<Rightarrow> u64 \<Rightarrow> u64 \<Rightarrow> ('f, 'h) kernel \<Rightarrow> (int \<times> ('f, 'h) kernel) option" where
  "syscall_dispatch env nr a1 a2 a3 a4 k =
     (if nr \<ge> of_nat NM_SYSCALL_MAX then Some (NM_ERR NM_ENOSYS, k)
      else case syscall_table k ! unat nr of
        None \<Rightarrow> Some (NM_ERR NM_ENOSYS, k)
      | Some fn \<Rightarrow> run_handler env fn a1 a2 a3 a4 k)"

section \<open>The kernel's invariant\<close>

text \<open>Descriptor operations change nothing of a task but its descriptor table and close-on-exec mask.\<close>

definition same_task :: "nm_task \<Rightarrow> nm_task \<Rightarrow> bool" where
  "same_task t t' \<longleftrightarrow> (\<exists>tab m. t' = t\<lparr>t_fd_table := tab, t_fd_cloexec_mask := m\<rparr>)"

lemma same_taskI: "t' = t\<lparr>t_fd_table := t_fd_table t', t_fd_cloexec_mask := t_fd_cloexec_mask t'\<rparr> \<Longrightarrow> same_task t t'"
  unfolding same_task_def by blast

lemma same_task_refl [simp]: "same_task t t"
  by (rule same_taskI) simp

lemma same_task_trans: "same_task a b \<Longrightarrow> same_task b c \<Longrightarrow> same_task a c"
  by (auto simp: same_task_def) blast

lemma same_task_fields:
  assumes "same_task t t'"
  shows "t_pid t' = t_pid t" "t_ppid t' = t_ppid t" "t_state t' = t_state t" "task_used_slot t' = task_used_slot t"
proof -
  obtain tab m where t': "t' = t\<lparr>t_fd_table := tab, t_fd_cloexec_mask := m\<rparr>" using assms unfolding same_task_def by blast
  show "t_pid t' = t_pid t" "t_ppid t' = t_ppid t" "t_state t' = t_state t" "task_used_slot t' = task_used_slot t"
    by (simp_all add: t' task_used_slot_def)
qed

lemma same_task_basic [simp]:
  "same_task t (set_fd fd x t)" "same_task t (clear_cloexec fd t)" "same_task t (snd (task_install_fdobj t fd i))"
  by (rule same_taskI, simp add: set_fd_def clear_cloexec_def task_install_fdobj_def)+

lemma adopt_same: "adopt_legacy_fs_fd t fd s = (r, t', s') \<Longrightarrow> same_task t t'"
  by (auto simp: adopt_legacy_fs_fd_def Let_def split: if_splits prod.splits)

lemma task_close_same: "task_close_fd fs t fd s v = (r, t', s', v') \<Longrightarrow> same_task t t'"
  using same_task_trans [OF same_task_basic(1,2)]
  by (auto simp: task_close_fd_def Let_def split: if_splits prod.splits)

lemma nm_fd_close_same: "nm_fd_close fs t fd s v = (r, t', s', v') \<Longrightarrow> same_task t t'"
  by (auto simp: nm_fd_close_def Let_def dest: task_close_same adopt_same intro: same_task_trans split: if_splits prod.splits)

lemma pipe_connect_same: "pipe_connect fs rd wr p t s v = (r, fds, t', s', v') \<Longrightarrow> same_task t t'"
  using same_task_trans [OF same_task_basic(3,3)]
  by (auto simp: pipe_connect_def Let_def split: if_splits prod.splits)

lemma nm_fd_pipe_same: "nm_fd_pipe fs t s v = (r, fds, t', s', v') \<Longrightarrow> same_task t t'"
  using same_task_trans [OF same_task_basic(1,1)] same_task_trans [OF same_task_basic(1) pipe_connect_same]
  by (auto simp: nm_fd_pipe_def Let_def split: if_splits prod.splits option.splits)

lemma nm_fd_dup2_same:
  assumes "nm_fd_dup2 fs t oldfd newfd s v = (r, t', s', v')"
  shows "same_task t t'"
proof -
  obtain r1 t1 s1 v1 where c: "(if task_fdobj_id t newfd \<noteq> - 1 then task_close_fd fs t newfd s v else (0, t, s, v)) = (r1, t1, s1, v1)"
    by (metis prod_cases4)
  have "same_task t t1" using c by (auto dest: task_close_same split: if_splits)
  moreover have "same_task t t' \<or> t' = t1 \<or> t' = clear_cloexec newfd (snd (task_install_fdobj t1 newfd (task_fdobj_id t oldfd)))"
    using assms c by (auto simp: nm_fd_dup2_def Let_def split: if_splits prod.splits)
  ultimately show ?thesis using same_task_trans [OF _ same_task_trans [OF same_task_basic(3,2)]] by metis
qed

lemma exec_close_same: "exec_close fs i (t, s, v) = (t', s', v') \<Longrightarrow> same_task t t'"
  using task_close_same [of fs] same_task_trans [OF adopt_same task_close_same [of fs]]
  by (auto simp: exec_close_def Let_def dest: adopt_same split: if_splits prod.splits) (metis prod.collapse)+

lemma nm_fd_close_on_exec_same: "nm_fd_close_on_exec fs t s v = (t', s', v') \<Longrightarrow> same_task t t'"
proof -
  have "fold (exec_close fs) is (t, s, v) = (t', s', v') \<Longrightarrow> same_task t t'" for "is" t s v
  proof (induction "is" arbitrary: t s v)
    case (Cons i "is")
    obtain t1 s1 v1 where "exec_close fs i (t, s, v) = (t1, s1, v1)" by (metis prod_cases3)
    then show ?case using Cons exec_close_same [of fs i t s v t1 s1 v1] by (auto intro: same_task_trans)
  qed simp
  then show "nm_fd_close_on_exec fs t s v = (t', s', v') \<Longrightarrow> same_task t t'" by (simp add: nm_fd_close_on_exec_def)
qed

lemma nm_fd_set_cloexec_same: "nm_fd_set_cloexec t fd e = (r, t') \<Longrightarrow> same_task t t'"
  by (auto simp: nm_fd_set_cloexec_def split: if_splits intro: same_taskI)

text \<open>
  References of the tasks in the table, and the invariant: the process table is well formed, every
  object is counted once per descriptor of a task in the table that names it, and a task that has
  exited is the current one.
\<close>

definition slot_refs :: "nat \<Rightarrow> nm_task \<Rightarrow> nat" where
  "slot_refs i t = (if task_used_slot t then tab_refs (t_fd_table t) i else 0)"

definition live_refs :: "nm_task list \<Rightarrow> nat \<Rightarrow> nat" where
  "live_refs T i = sum_list (map (slot_refs i) T)"

definition kernel_fds :: "proc_state \<Rightarrow> fd_state \<Rightarrow> bool" where
  "kernel_fds p s \<longleftrightarrow> (\<forall>t\<in>set (task_table p). task_used_slot t \<longrightarrow> tab_ok (t_fd_table t)) \<and> fd_inv (live_refs (task_table p)) s"

definition zombie_current :: "proc_state \<Rightarrow> bool" where
  "zombie_current p \<longleftrightarrow> (\<forall>i<length (task_table p). t_state (task_table p ! i) = NM_TASK_ZOMBIE \<longrightarrow> current_task p = Some i)"

definition kernel_ok :: "('f, 'h) kernel \<Rightarrow> bool" where
  "kernel_ok k \<longleftrightarrow> sched_inv (k_proc k) \<and> zombie_current (k_proc k) \<and> kernel_fds (k_proc k) (k_fd k)"

lemma zombie_current_upd:
  "zombie_current p \<Longrightarrow> (t_state (f (task_table p ! c)) = NM_TASK_ZOMBIE \<Longrightarrow> t_state (task_table p ! c) = NM_TASK_ZOMBIE \<or> current_task p = Some c) \<Longrightarrow>
   c < length (task_table p) \<Longrightarrow> zombie_current (upd_task c f p)"
  by (auto simp: zombie_current_def upd_task_def nth_list_update split: if_splits)

lemma zombie_current_fill: "zombie_current p \<Longrightarrow> t_state t \<noteq> NM_TASK_ZOMBIE \<Longrightarrow> zombie_current (fill_slot i t p)"
  by (cases "i < length (task_table p)") (auto simp: zombie_current_def nth_list_update list_update_beyond split: if_splits)

lemma kernel_okD:
  assumes "kernel_ok k"
  shows "sched_inv (k_proc k)" "proc_inv (k_proc k)" "running_ok (k_proc k)" "zombie_current (k_proc k)"
    "kernel_fds (k_proc k) (k_fd k)" "length (task_table (k_proc k)) = NM_MAX_TASKS" "fd_inv (live_refs (task_table (k_proc k))) (k_fd k)"
    "\<And>c. task_current (k_proc k) = Some c \<Longrightarrow> c < NM_MAX_TASKS \<and> c < length (task_table (k_proc k)) \<and> task_used_slot (cur_task c k)"
proof -
  show si: "sched_inv (k_proc k)" "zombie_current (k_proc k)" "kernel_fds (k_proc k) (k_fd k)" using assms by (simp_all add: kernel_ok_def)
  show inv: "proc_inv (k_proc k)" "running_ok (k_proc k)" using si(1) by (simp_all add: sched_inv_def)
  show "length (task_table (k_proc k)) = NM_MAX_TASKS" by (rule proc_invD(1) [OF inv(1)])
  show "fd_inv (live_refs (task_table (k_proc k))) (k_fd k)" using si(3) by (simp add: kernel_fds_def)
  show "c < NM_MAX_TASKS \<and> c < length (task_table (k_proc k)) \<and> task_used_slot (cur_task c k)" if "task_current (k_proc k) = Some c" for c
    using that proc_invD(1,5,6) [OF inv(1)] by (simp add: task_current_def cur_task_def)
qed

lemma live_refs_update:
  "c < length T \<Longrightarrow> live_refs (T[c := t]) i + slot_refs i (T ! c) = live_refs T i + slot_refs i t"
  unfolding live_refs_def by (rule sum_list_map_update)

lemma live_refs_member: "c < length T \<Longrightarrow> slot_refs i (T ! c) \<le> live_refs T i"
  unfolding live_refs_def by (rule sum_list_map_member)

lemma live_refs_sum:
  assumes "\<forall>t\<in>set T. task_used_slot t \<longrightarrow> tab_ok (t_fd_table t)"
  shows "(\<Sum>i<n. live_refs T i) \<le> NM_MAX_FDS * length T"
  using assms
proof (induction T)
  case Nil
  then show ?case by (simp add: live_refs_def)
next
  case (Cons t T)
  have "(\<Sum>i<n. slot_refs i t) \<le> NM_MAX_FDS"
    using Cons.prems tab_refs_sum [of "t_fd_table t" n] by (cases "task_used_slot t") (auto simp: slot_refs_def tab_ok_def)
  moreover have "(\<Sum>i<n. live_refs (t # T) i) = (\<Sum>i<n. slot_refs i t) + (\<Sum>i<n. live_refs T i)"
    by (simp add: live_refs_def sum.distrib)
  ultimately show ?case using Cons by simp
qed

lemma live_refs_small:
  assumes "proc_inv p" "kernel_fds p s"
  shows "(\<Sum>i<NM_FDOBJ_MAX. live_refs (task_table p) i) < 2 ^ 31"
proof -
  have "(\<Sum>i<NM_FDOBJ_MAX. live_refs (task_table p) i) \<le> NM_MAX_FDS * NM_MAX_TASKS"
    using live_refs_sum [of "task_table p" NM_FDOBJ_MAX] proc_invD(1) [OF assms(1)] assms(2) by (simp add: kernel_fds_def)
  then show ?thesis by (simp add: NM_MAX_FDS_def NM_MAX_TASKS_def)
qed

text \<open>The kernel's invariant seen from one task, and back.\<close>

lemma kernel_fds_task:
  assumes "proc_inv p" "kernel_fds p s" "c < NM_MAX_TASKS" "task_used_slot (task_table p ! c)"
  shows "task_fds (\<lambda>i. live_refs (task_table p) i - slot_refs i (task_table p ! c)) (task_table p ! c) s"
proof -
  let ?T = "task_table p"
  have len: "length ?T = NM_MAX_TASKS" by (rule proc_invD(1) [OF assms(1)])
  have ok: "\<forall>t\<in>set ?T. task_used_slot t \<longrightarrow> tab_ok (t_fd_table t)" using assms(2) by (simp add: kernel_fds_def)
  have tok: "tab_ok (t_fd_table (?T ! c))" using ok assms(3,4) len by simp
  have eq: "(\<lambda>i. live_refs ?T i - slot_refs i (?T ! c) + tab_refs (t_fd_table (?T ! c)) i) = live_refs ?T"
  proof
    fix i show "live_refs ?T i - slot_refs i (?T ! c) + tab_refs (t_fd_table (?T ! c)) i = live_refs ?T i"
      using live_refs_member [of c ?T i] assms(3,4) len by (simp add: slot_refs_def)
  qed
  have "(\<Sum>i<NM_FDOBJ_MAX. live_refs ?T i - slot_refs i (?T ! c)) \<le> (\<Sum>i<NM_FDOBJ_MAX. live_refs ?T i)"
    by (rule sum_mono) simp
  also have "\<dots> < 2 ^ 31" using live_refs_small [OF assms(1,2)] .
  finally show ?thesis using assms(2) tok by (simp add: task_fds_def eq kernel_fds_def)
qed

lemma kernel_fds_put:
  assumes "proc_inv p" "kernel_fds p s" "c < NM_MAX_TASKS" "task_used_slot (task_table p ! c)"
    "task_fds (\<lambda>i. live_refs (task_table p) i - slot_refs i (task_table p ! c)) t s'" "task_used_slot t"
  shows "kernel_fds (upd_task c (\<lambda>_. t) p) s'"
proof -
  let ?T = "task_table p"
  have len: "c < length ?T" using proc_invD(1) [OF assms(1)] assms(3) by simp
  have "live_refs (?T[c := t]) = (\<lambda>i. live_refs ?T i - slot_refs i (?T ! c) + tab_refs (t_fd_table t) i)"
  proof
    fix i show "live_refs (?T[c := t]) i = live_refs ?T i - slot_refs i (?T ! c) + tab_refs (t_fd_table t) i"
      using live_refs_update [OF len, of t i] live_refs_member [OF len, of i] assms(6) by (simp add: slot_refs_def)
  qed
  moreover have "fd_inv (\<lambda>i. live_refs ?T i - slot_refs i (?T ! c) + tab_refs (t_fd_table t) i) s'" "tab_ok (t_fd_table t)"
    using assms(5) by (simp_all add: task_fds_def)
  ultimately show ?thesis
    using assms(2) set_update_subset_insert [of ?T c t] by (auto simp: kernel_fds_def)
qed

lemma sched_inv_put:
  assumes "sched_inv p" "c < NM_MAX_TASKS" "task_used_slot (task_table p ! c)" "same_task (task_table p ! c) t"
    "length (t_fd_table t) = NM_MAX_FDS"
  shows "sched_inv (upd_task c (\<lambda>_. t) p)"
proof -
  note f = same_task_fields [OF assms(4)]
  have inv: "proc_inv p" "running_ok p" using assms(1) by (simp_all add: sched_inv_def)
  have l: "length (t_fd_table (task_table p ! c)) = NM_MAX_FDS"
    using proc_invD(3) [OF inv(1) assms(2,3)] by (simp add: task_ok_def)
  obtain tab m where t: "t = (task_table p ! c)\<lparr>t_fd_table := tab, t_fd_cloexec_mask := m\<rparr>" "length tab = NM_MAX_FDS"
    using assms(4,5) unfolding same_task_def by auto
  let ?f = "\<lambda>x. x\<lparr>t_fd_table := (if length (t_fd_table x) = NM_MAX_FDS then tab else t_fd_table x), t_fd_cloexec_mask := m\<rparr>"
  have "upd_task c (\<lambda>_. t) p = upd_task c ?f p" using l t by (simp add: upd_task_def)
  moreover have "proc_inv (upd_task c ?f p)"
    using assms(3) t(2) by (intro proc_inv_rewrite [OF inv(1) assms(2,3)]) (simp_all add: task_used_slot_def)
  moreover have "running_ok (upd_task c (\<lambda>_. t) p)"
    using inv f(3) proc_invD(1) [OF inv(1)] by (intro running_ok_upd) simp_all
  ultimately show ?thesis by (simp add: sched_inv_def)
qed

lemma kernel_ok_view:
  assumes "kernel_ok k" "task_current (k_proc k) = Some c"
  shows "\<exists>R0. task_fds R0 (cur_task c k) (k_fd k)"
  using kernel_fds_task [OF kernel_okD(2,5) [OF assms(1)]] kernel_okD(8) [OF assms] unfolding cur_task_def by blast

text \<open>The rule for every handler that runs one descriptor operation on the current task.\<close>

lemma kernel_ok_put:
  assumes "kernel_ok k" "task_current (k_proc k) = Some c" "same_task (cur_task c k) t"
    and "\<And>R0. task_fds R0 (cur_task c k) (k_fd k) \<Longrightarrow> task_fds R0 t s"
  shows "kernel_ok (put_task c t s v k)"
proof -
  note ok = kernel_okD [OF assms(1)] and c = kernel_okD(8) [OF assms(1,2)]
  have t: "task_fds (\<lambda>i. live_refs (task_table (k_proc k)) i - slot_refs i (cur_task c k)) t s"
    using assms(4) kernel_fds_task [OF ok(2,5)] c by (simp add: cur_task_def)
  have u: "task_used_slot t" using same_task_fields(4) [OF assms(3)] c by simp
  have "kernel_fds (upd_task c (\<lambda>_. t) (k_proc k)) s"
    using kernel_fds_put [OF ok(2,5)] c t u by (simp add: cur_task_def)
  moreover have "sched_inv (upd_task c (\<lambda>_. t) (k_proc k))"
    using sched_inv_put [OF ok(1)] c assms(3) t by (simp add: cur_task_def task_fds_def tab_ok_def)
  moreover have "zombie_current (upd_task c (\<lambda>_. t) (k_proc k))"
    using ok(4) c same_task_fields(3) [OF assms(3)] by (intro zombie_current_upd) (simp_all add: cur_task_def)
  ultimately show ?thesis by (simp add: kernel_ok_def put_task_def)
qed

section \<open>Every handler keeps the invariant\<close>

lemma kernel_ok_frame [simp]:
  "kernel_ok (k\<lparr>k_mem := m\<rparr>) = kernel_ok k" "kernel_ok (k\<lparr>k_console := out\<rparr>) = kernel_ok k"
  "kernel_ok (k\<lparr>k_heap := h\<rparr>) = kernel_ok k"
  by (simp_all add: kernel_ok_def)

text \<open>A rewrite of the process table that keeps which slots are in use and their descriptors.\<close>

lemma kernel_ok_proc:
  assumes "kernel_ok k" "sched_inv p" "zombie_current p" "map (\<lambda>t. (task_used_slot t, t_fd_table t)) (task_table p) =
    map (\<lambda>t. (task_used_slot t, t_fd_table t)) (task_table (k_proc k))"
  shows "kernel_ok (k\<lparr>k_proc := p\<rparr>)"
proof -
  let ?g = "\<lambda>t. (task_used_slot t, t_fd_table t)"
  have img: "?g ` set (task_table p) = ?g ` set (task_table (k_proc k))" using assms(4) by (metis set_map)
  have eq: "map (slot_refs i) T = map (\<lambda>(u, tab). if u then tab_refs tab i else 0) (map ?g T)" for i T
    by (simp add: slot_refs_def)
  have "map (slot_refs i) (task_table p) = map (slot_refs i) (task_table (k_proc k))" for i by (simp only: eq assms(4))
  then have "live_refs (task_table p) = live_refs (task_table (k_proc k))" by (simp add: live_refs_def fun_eq_iff)
  moreover have "(\<forall>t\<in>set (task_table p). task_used_slot t \<longrightarrow> tab_ok (t_fd_table t)) \<longleftrightarrow>
      (\<forall>t\<in>set (task_table (k_proc k)). task_used_slot t \<longrightarrow> tab_ok (t_fd_table t))"
  proof -
    have e: "(\<forall>t\<in>set T. task_used_slot t \<longrightarrow> tab_ok (t_fd_table t)) \<longleftrightarrow> (\<forall>(u, tab)\<in>?g ` set T. u \<longrightarrow> tab_ok tab)" for T
      by auto
    show ?thesis by (simp only: e img)
  qed
  ultimately show ?thesis using assms(1-3) by (simp add: kernel_ok_def kernel_fds_def)
qed

lemma map_upd_same: "c < length T \<Longrightarrow> g t = g (T ! c) \<Longrightarrow> map g (T[c := t]) = map g T"
  by (metis list_update_id map_update)

lemma sys_read_ok:
  assumes "kernel_ok k" "sys_read env fd buf len k = (r, k')"
  shows "kernel_ok k'"
proof (cases "buf = 0 \<or> task_current (k_proc k) = None")
  case True
  then show ?thesis using assms(1,2) by (auto simp: sys_read_def split: option.splits if_splits)
next
  case False
  then obtain c where c: "task_current (k_proc k) = Some c" by auto
  obtain n out t s v where o: "nm_fd_read (vfs_if (ke_vnodes env)) (cur_task c k) (s32 (uint fd)) True len (k_fd k) (k_vfs k) = (n, out, t, s, v)"
    by (metis prod_cases5)
  have "kernel_ok (put_task c t s v k)"
  proof (rule kernel_ok_put [OF assms(1) c])
    have "t = cur_task c k" using kernel_ok_view [OF assms(1) c] nm_fd_read_inv(1) [OF _ o] by blast
    then show "same_task (cur_task c k) t" by simp
    show "task_fds R0 t s" if "task_fds R0 (cur_task c k) (k_fd k)" for R0
      using nm_fd_read_inv [OF that o] by simp
  qed
  then show ?thesis using assms(2) False c o by (auto simp: sys_read_def Let_def)
qed

lemma sys_write_ok:
  assumes "kernel_ok k" "sys_write env fd buf len k = Some (r, k')"
    "\<forall>p\<in>set (pipe_table (k_fd k)). pipe_ready (unat len) p"
  shows "kernel_ok k'"
proof (cases "buf = 0 \<or> task_current (k_proc k) = None")
  case True
  then show ?thesis using assms(1,2) by (auto simp: sys_write_def split: option.splits if_splits)
next
  case False
  then obtain c where c: "task_current (k_proc k) = Some c" by auto
  let ?b = "load_bytes (k_mem k) buf (unat len)"
  obtain n t s v where o: "nm_fd_write (vfs_if (ke_vnodes env)) (cur_task c k) (s32 (uint fd)) (Some ?b) (k_fd k) (k_vfs k) = Some (n, t, s, v)"
    using assms(2) False c by (auto simp: sys_write_def Let_def split: option.splits)
  have rdy: "\<forall>buf. Some ?b = Some buf \<longrightarrow> (\<forall>p\<in>set (pipe_table (k_fd k)). pipe_ready (length buf) p)"
    using assms(3) by (simp add: load_bytes_def)
  have "kernel_ok (put_task c t s v k)"
  proof (rule kernel_ok_put [OF assms(1) c])
    have "t = cur_task c k" using kernel_ok_view [OF assms(1) c] nm_fd_write_inv(1) [OF _ o rdy] by blast
    then show "same_task (cur_task c k) t" by simp
    show "task_fds R0 t s" if "task_fds R0 (cur_task c k) (k_fd k)" for R0
      using nm_fd_write_inv [OF that o rdy] by simp
  qed
  then show ?thesis using assms(2) False c o by (auto simp: sys_write_def Let_def split: if_splits)
qed

lemma sys_close_ok:
  assumes "kernel_ok k" "sys_close env fd k = (r, k')"
  shows "kernel_ok k'"
  using assms(1,2)
  by (auto simp: sys_close_def Let_def dest: nm_fd_close_same intro!: kernel_ok_put [OF assms(1)] intro: nm_fd_close_inv
      split: option.splits if_splits prod.splits)

lemma sys_dup2_ok:
  assumes "kernel_ok k" "sys_dup2 env a b k = (r, k')"
  shows "kernel_ok k'"
  using assms(1,2)
  by (auto simp: sys_dup2_def Let_def dest: nm_fd_dup2_same intro!: kernel_ok_put [OF assms(1)] intro: nm_fd_dup2_inv
      split: option.splits if_splits prod.splits)

lemma sys_pipe_ok:
  assumes "kernel_ok k" "sys_pipe env ptr k = (r, k')"
  shows "kernel_ok k'"
  using assms(1,2)
  by (auto simp: sys_pipe_def Let_def dest: nm_fd_pipe_same intro!: kernel_ok_put [OF assms(1)] intro: nm_fd_pipe_inv
      split: option.splits if_splits prod.splits)

lemma sys_fd_cloexec_ok:
  assumes "kernel_ok k" "sys_fd_cloexec fd e k = (r, k')"
  shows "kernel_ok k'"
  using assms(1,2)
  by (auto simp: sys_fd_cloexec_def Let_def dest: nm_fd_set_cloexec_same intro!: kernel_ok_put [OF assms(1)]
      intro: nm_fd_set_cloexec_inv split: option.splits if_splits prod.splits)

lemma sys_exit_ok:
  assumes "kernel_ok k"
  shows "kernel_ok (snd (sys_exit code k))"
proof -
  note ok = kernel_okD [OF assms]
  have "sched_inv (proc_exit_current (s32 (uint code)) (k_proc k))"
    using proc_step_inv [OF proc_step.exit] ok(1) by fastforce
  moreover have "zombie_current (proc_exit_current (s32 (uint code)) (k_proc k))"
    using ok(4) proc_invD(1,5) [OF ok(2)] by (auto simp: proc_exit_current_def intro!: zombie_current_upd split: option.splits)
  moreover have "map (\<lambda>t. (task_used_slot t, t_fd_table t)) (task_table (proc_exit_current (s32 (uint code)) (k_proc k))) =
      map (\<lambda>t. (task_used_slot t, t_fd_table t)) (task_table (k_proc k))"
    using proc_invD(1,5,6) [OF ok(2)]
    by (auto simp: proc_exit_current_def task_used_slot_def intro!: map_upd_same split: option.splits)
  ultimately show ?thesis using kernel_ok_proc [OF assms] by (simp add: sys_exit_def)
qed

text \<open>A zombie is the current task, so a waiting task has no zombie child.\<close>

lemma sys_waitpid_none:
  assumes "kernel_ok k"
  shows "sys_waitpid pid status_ptr k = (NM_ERR NM_EFAIL, k)"
proof -
  note ok = kernel_okD [OF assms]
  have "proc_waitpid (s32 (uint pid)) (k_proc k) = (NM_ERR NM_EFAIL, None, k_proc k)"
  proof (cases "current_task (k_proc k)")
    case None
    then show ?thesis by (simp add: proc_waitpid_def)
  next
    case (Some c)
    have "first_idx (wait_match (t_pid (task_table (k_proc k) ! c)) (s32 (uint pid))) (task_table (k_proc k)) = None"
    proof (rule ccontr)
      assume "\<not> ?thesis"
      then obtain m where m: "first_idx (wait_match (t_pid (task_table (k_proc k) ! c)) (s32 (uint pid))) (task_table (k_proc k)) = Some m" by auto
      have b: "m < NM_MAX_TASKS" "wait_match (t_pid (task_table (k_proc k) ! c)) (s32 (uint pid)) (task_table (k_proc k) ! m)"
        using first_idx_SomeD [OF m] ok(6) by simp_all
      then have "m = c" using ok(4,6) Some by (auto simp: zombie_current_def wait_match_def)
      then show False using wait_match_other(2) [OF ok(2) Some b] by simp
    qed
    then show ?thesis using Some by (simp add: proc_waitpid_def)
  qed
  then show ?thesis by (simp add: sys_waitpid_def)
qed

text \<open>What a fork that succeeds does: a free slot takes the copy of the parent, and every object gains the copy's references.\<close>

definition fork_kernel :: "nat \<Rightarrow> nat \<Rightarrow> nm_task \<Rightarrow> fd_state \<Rightarrow> 'h \<Rightarrow> ('f, 'h) kernel \<Rightarrow> ('f, 'h) kernel" where
  "fork_kernel c i child s h k = k\<lparr>k_heap := h, k_fd := s, k_proc := upd_task c (\<lambda>t. t\<lparr>t_regs := (t_regs t)
     \<lparr>reg_rax := word_of_int (t_pid child)\<rparr>\<rparr>) (fill_slot i child (k_proc k))\<rparr>"

lemma fork_child_fds:
  assumes "proc_inv p" "kernel_fds p s" "c < NM_MAX_TASKS" "task_used_slot (task_table p ! c)"
    and "t_fd_table child = t_fd_table (task_table p ! c)"
  shows "\<exists>s'. nm_fd_on_fork_child child s = (0, child, s') \<and>
    fd_inv (\<lambda>j. live_refs (task_table p) j + tab_refs (t_fd_table child) j) s'"
proof -
  let ?T = "task_table p"
  have len: "length ?T = NM_MAX_TASKS" by (rule proc_invD(1) [OF assms(1)])
  have ok: "\<forall>t\<in>set ?T. task_used_slot t \<longrightarrow> tab_ok (t_fd_table t)" and fi: "fd_inv (live_refs ?T) s"
    using assms(2) by (simp_all add: kernel_fds_def)
  have tok: "tab_ok (t_fd_table child)" using ok assms(3-5) len by simp
  have pos: "0 < live_refs ?T (nat x)" if x: "x \<in> set (t_fd_table child)" "x \<noteq> - 1" for x
  proof -
    have "0 \<le> x" using x tok by (auto simp: tab_ok_def)
    then have "0 < slot_refs (nat x) (?T ! c)"
      using x(1) assms(4,5) by (auto simp: slot_refs_def tab_refs_def count_if_pos in_set_conv_nth)
    then show ?thesis using live_refs_member [of c ?T "nat x"] assms(3) len by simp
  qed
  show ?thesis by (rule nm_fd_on_fork_child_ok [OF fi live_refs_small [OF assms(1,2)] tok pos])
qed

lemma sys_fork_cases:
  assumes "kernel_ok k" "task_current (k_proc k) = Some c" "sys_fork env k = (r, k')"
  obtains (full) h where "r = NM_ERR NM_EFAIL" "k' = k\<lparr>k_heap := h\<rparr>"
    "fst (proc_fork_current (ke_kmalloc env) (ke_kfree env) (k_proc k) (k_heap k)) = None"
  | (forked) i stk child s h where "proc_fork_current (ke_kmalloc env) (ke_kfree env) (k_proc k) (k_heap k) = (Some i, fill_slot i child (k_proc k), h)"
    "i < NM_MAX_TASKS" "\<not> task_used_slot (task_table (k_proc k) ! i)" "child = fork_task (k_proc k) stk (cur_task c k)"
    "nm_fd_on_fork_child child (k_fd k) = (0, child, s)"
    "fd_inv (\<lambda>j. live_refs (task_table (k_proc k)) j + tab_refs (t_fd_table child) j) s"
    "r = t_pid child" "k' = fork_kernel c i child s h k"
proof -
  let ?T = "task_table (k_proc k)"
  note inv = kernel_okD(2) [OF assms(1)] and fds = kernel_okD(5) [OF assms(1)] and len = kernel_okD(6) [OF assms(1)]
  obtain ch p h where f: "proc_fork_current (ke_kmalloc env) (ke_kfree env) (k_proc k) (k_heap k) = (ch, p, h)" by (metis prod_cases3)
  show thesis
  proof (cases ch)
    case None
    then have "p = k_proc k" using f by (auto simp: proc_fork_current_def Let_def split: option.splits prod.splits if_splits)
    then show ?thesis using assms(2,3) f None full by (auto simp: sys_fork_def)
  next
    case (Some i)
    obtain stk where i: "i < NM_MAX_TASKS" "\<not> task_used_slot (?T ! i)"
      and p: "p = fill_slot i (fork_task (k_proc k) stk (?T ! c)) (k_proc k)"
      using f Some assms(2) alloc_task_slot_SomeD [OF inv]
      by (auto simp: proc_fork_current_def fork_probe_def fork_commit_def task_current_def Let_def split: option.splits prod.splits if_splits)
    let ?child = "fork_task (k_proc k) stk (?T ! c)"
    have c: "c < NM_MAX_TASKS" "task_used_slot (?T ! c)" using proc_invD(5,6) [OF inv] assms(2) by (simp_all add: task_current_def)
    have tab: "t_fd_table ?child = t_fd_table (?T ! c)" by (simp add: fork_task_def)
    obtain s where s: "nm_fd_on_fork_child ?child (k_fd k) = (0, ?child, s)"
      "fd_inv (\<lambda>j. live_refs ?T j + tab_refs (t_fd_table ?child) j) s"
      using fork_child_fds [OF inv fds c tab] by blast
    have lenp: "length (task_table p) = NM_MAX_TASKS" "task_table p ! i = ?child" using p len i by simp_all
    have "upd_task i (\<lambda>_. ?child) p = p" using lenp by (simp add: upd_task_def list_update_same_conv i)
    then have "k' = fork_kernel c i ?child s h k" "r = t_pid ?child"
      using assms(2,3) f Some s(1) lenp i p by (auto simp: sys_fork_def Let_def cur_task_def put_task_def fork_kernel_def)
    with f Some i p s show ?thesis by (intro forked) (simp_all add: cur_task_def)
  qed
qed

lemma kernel_ok_fill:
  assumes "kernel_ok k" "i < NM_MAX_TASKS" "\<not> task_used_slot (task_table (k_proc k) ! i)" "task_used_slot t" "t_state t \<noteq> NM_TASK_ZOMBIE"
    "tab_ok (t_fd_table t)" "sched_inv (fill_slot i t (k_proc k))"
    "fd_inv (\<lambda>j. live_refs (task_table (k_proc k)) j + tab_refs (t_fd_table t) j) s"
  shows "kernel_ok (k\<lparr>k_heap := h, k_fd := s, k_proc := fill_slot i t (k_proc k)\<rparr>)"
proof -
  let ?T = "task_table (k_proc k)"
  note ok = kernel_okD [OF assms(1)]
  have refs: "live_refs (?T[i := t]) = (\<lambda>j. live_refs ?T j + tab_refs (t_fd_table t) j)"
  proof
    fix j show "live_refs (?T[i := t]) j = live_refs ?T j + tab_refs (t_fd_table t) j"
      using live_refs_update [of i ?T t j] assms(2-4) ok(6) by (simp add: slot_refs_def)
  qed
  have "kernel_fds (fill_slot i t (k_proc k)) s"
    using assms(6,8) ok(5) set_update_subset_insert [of ?T i t] unfolding kernel_fds_def fill_slot_simps refs by auto
  then show ?thesis using assms(5,7) zombie_current_fill [OF ok(4)] by (simp add: kernel_ok_def)
qed

lemma sys_fork_ok:
  assumes "kernel_ok k" "next_pid (k_proc k) < 2 ^ 31 - 1" "sys_fork env k = (r, k')"
  shows "kernel_ok k'"
proof (cases "task_current (k_proc k)")
  case None
  then show ?thesis using assms by (simp add: sys_fork_def)
next
  case (Some c)
  note ok = kernel_okD [OF assms(1)] and c = kernel_okD(8) [OF assms(1) Some]
  from assms(1) Some assms(3) show ?thesis
  proof (cases rule: sys_fork_cases)
    case (full h)
    then show ?thesis using assms(1) by simp
  next
    case (forked i stk child s h)
    let ?p = "fill_slot i child (k_proc k)"
    have si': "sched_inv ?p"
      using proc_fork_inv [OF ok(2) assms(2) forked(1)] fork_running_ok [OF ok(3,6) forked(1)] by (simp add: sched_inv_def)
    have tab: "t_fd_table child = t_fd_table (cur_task c k)" "task_used_slot child" "t_state child \<noteq> NM_TASK_ZOMBIE"
      by (simp_all add: forked(4) fork_task_def task_used_slot_def cur_task_def)
    have tok: "tab_ok (t_fd_table child)" using ok(5) tab(1) c by (simp add: kernel_fds_def cur_task_def)
    have k1: "kernel_ok (k\<lparr>k_heap := h, k_fd := s, k_proc := ?p\<rparr>)"
      by (rule kernel_ok_fill [OF assms(1) forked(2,3) tab(2,3) tok si' forked(6)])
    let ?f = "\<lambda>t. t\<lparr>t_regs := (t_regs t)\<lparr>reg_rax := word_of_int (t_pid child)\<rparr>\<rparr>"
    have u: "task_used_slot (task_table ?p ! c)" using c forked(2,3) ok(6) by (auto simp: nth_list_update cur_task_def)
    have cl: "c < NM_MAX_TASKS" using c by simp
    have "proc_inv (upd_task c ?f ?p)"
      using si' u by (intro proc_inv_rewrite [OF _ cl u]) (simp_all add: sched_inv_def task_used_slot_def)
    moreover have "running_ok (upd_task c ?f ?p)" using si' ok(6) by (intro running_ok_upd) (simp_all add: sched_inv_def)
    ultimately have "sched_inv (upd_task c ?f ?p)" by (simp add: sched_inv_def)
    moreover have "zombie_current (upd_task c ?f ?p)" using kernel_okD(4) [OF k1] c by (intro zombie_current_upd) simp_all
    ultimately have "kernel_ok ((k\<lparr>k_heap := h, k_fd := s, k_proc := ?p\<rparr>)\<lparr>k_proc := upd_task c ?f ?p\<rparr>)"
      using c by (intro kernel_ok_proc [OF k1]) (auto simp: task_used_slot_def intro!: map_upd_same)
    then show ?thesis by (simp add: forked(8) fork_kernel_def)
  qed
qed

text \<open>The state in which \<^verbatim>\<open>sys_exec\<close> replaces the image: the marked descriptors are closed.\<close>

definition exec_closed :: "('f, 'h) kenv \<Rightarrow> ('f, 'h) kernel \<Rightarrow> ('f, 'h) kernel" where
  "exec_closed env k = (case task_current (k_proc k) of None \<Rightarrow> k
     | Some c \<Rightarrow> let (task, s, v) = nm_fd_close_on_exec (vfs_if (ke_vnodes env)) (cur_task c k) (k_fd k) (k_vfs k) in put_task c task s v k)"

lemma sys_exec_cases:
  assumes "sys_exec env name_ptr argv_ptr envp_ptr a4 k = Some (r, k')"
  obtains (fails) "r = NM_ERR NM_EFAIL" "k' = k"
  | (runs) name e argv p where "c_string (k_mem k) name_ptr = Some name" "exec_entry name argv_ptr envp_ptr a4 = (e, argv)" "e \<noteq> 0"
    "proc_exec_current (load64 (k_mem (exec_closed env k))) (Some name) e argv envp_ptr (k_proc (exec_closed env k)) = (r, p)"
    "k' = (exec_closed env k)\<lparr>k_proc := p\<rparr>"
proof (cases "c_string (k_mem k) name_ptr")
  case None
  then show thesis using assms fails by (simp add: sys_exec_def split: if_splits)
next
  case (Some name)
  obtain e argv where e: "exec_entry name argv_ptr envp_ptr a4 = (e, argv)" by (metis prod.exhaust)
  obtain r1 p where p: "proc_exec_current (load64 (k_mem (exec_closed env k))) (Some name) e argv envp_ptr (k_proc (exec_closed env k)) = (r1, p)"
    by (metis prod.exhaust)
  show thesis
  proof (cases "name_ptr = 0 \<or> fst (fs_stat (ke_vnodes env) (Some name) True (fst (k_vfs k)) (snd (k_vfs k))) \<noteq> 0 \<or> e = 0")
    case True
    then show ?thesis using assms Some e fails by (simp add: sys_exec_def split: if_splits)
  next
    case False
    then have "Some (r, k') = Some (r1, (exec_closed env k)\<lparr>k_proc := p\<rparr>)"
      using assms Some e p unfolding sys_exec_def exec_closed_def [symmetric] by simp
    then show ?thesis using False Some e p by (intro runs) simp_all
  qed
qed

lemma sys_exec_ok:
  assumes "kernel_ok k" "sys_exec env nm av ep a4 k = Some (r, k')"
  shows "kernel_ok k'"
  using assms(2)
proof (cases rule: sys_exec_cases)
  case fails
  then show ?thesis using assms(1) by simp
next
  case (runs name e argv p)
  let ?k = "exec_closed env k"
  have k1: "kernel_ok ?k"
    using assms(1) unfolding exec_closed_def
    by (auto simp: Let_def dest: nm_fd_close_on_exec_same intro!: kernel_ok_put [OF assms(1)] intro: nm_fd_close_on_exec_inv
        split: option.splits prod.splits)
  note ok = kernel_okD [OF k1]
  have "sched_inv p" using proc_step_inv [OF proc_step.exec [OF runs(4)]] ok(1) by fastforce
  moreover have "zombie_current p"
    using runs(4) ok(4) proc_invD(1,5) [OF ok(2)]
    by (auto simp: proc_exec_current_def intro!: zombie_current_upd split: option.splits if_splits)
  moreover have "map (\<lambda>t. (task_used_slot t, t_fd_table t)) (task_table p) = map (\<lambda>t. (task_used_slot t, t_fd_table t)) (task_table (k_proc ?k))"
    using runs(4) proc_invD(1,5) [OF ok(2)]
    by (auto simp: proc_exec_current_def task_used_slot_def intro!: map_upd_same split: option.splits if_splits)
  ultimately show ?thesis using kernel_ok_proc [OF k1] runs(5) by simp
qed

lemma run_handler_ok:
  assumes "kernel_ok k" "next_pid (k_proc k) < 2 ^ 31 - 1"
    "fn = Sys_write \<longrightarrow> (\<forall>p\<in>set (pipe_table (k_fd k)). pipe_ready (unat a3) p)"
    "run_handler env fn a1 a2 a3 a4 k = Some (r, k')"
  shows "kernel_ok k'"
  using assms sys_read_ok [OF assms(1)] sys_close_ok [OF assms(1)] sys_pipe_ok [OF assms(1)] sys_dup2_ok [OF assms(1)]
    sys_fork_ok [OF assms(1,2)] sys_exec_ok [OF assms(1)] sys_fd_cloexec_ok [OF assms(1)] sys_waitpid_none [OF assms(1)]
    sys_write_ok [OF assms(1)] sys_exit_ok [OF assms(1), of a1]
  by (cases fn) (auto simp: run_handler_def sys_getpid_def split: option.splits)

lemma hand_over_keeps:
  assumes "length (task_table s) = NM_MAX_TASKS" "cur < NM_MAX_TASKS" "n < NM_MAX_TASKS" "n \<noteq> cur"
    "task_used_slot (task_table s ! cur)" "task_used_slot (task_table s ! n)"
  shows "map (\<lambda>t. (task_used_slot t, t_fd_table t)) (task_table (hand_over cur n s)) =
    map (\<lambda>t. (task_used_slot t, t_fd_table t)) (task_table s)"
  using assms by (intro nth_equalityI) (auto simp: hand_over_nth task_used_slot_def)

lemma hand_over_zombie:
  assumes "zombie_current s" "current_task s = Some cur" "cur < length (task_table s)" "n < length (task_table s)" "n \<noteq> cur"
  shows "zombie_current (hand_over cur n s)"
proof -
  have len: "length (task_table (hand_over cur n s)) = length (task_table s)" "current_task (hand_over cur n s) = Some n"
    by (simp_all add: hand_over_def proc_set_current_def)
  then show ?thesis using assms by (auto simp: zombie_current_def hand_over_nth)
qed

text \<open>A rewrite of the process table by the scheduler.\<close>

definition sched_keeps :: "proc_state \<Rightarrow> proc_state \<Rightarrow> bool" where
  "sched_keeps s s' \<longleftrightarrow> (zombie_current s \<longrightarrow> zombie_current s') \<and>
     map (\<lambda>t. (task_used_slot t, t_fd_table t)) (task_table s') = map (\<lambda>t. (task_used_slot t, t_fd_table t)) (task_table s)"

lemma hand_over_sched_keeps:
  assumes "sched_inv s" "current_task s = Some cur" "n < NM_MAX_TASKS" "n \<noteq> cur" "task_used_slot (task_table s ! n)"
  shows "sched_keeps s (hand_over cur n s)"
proof -
  have inv: "proc_inv s" using assms(1) by (simp add: sched_inv_def)
  show ?thesis
    using hand_over_zombie [OF _ assms(2)] hand_over_keeps [OF proc_invD(1) [OF inv] _ assms(3,4) _ assms(5)]
      proc_invD(1,5,6) [OF inv] assms(2-4) by (simp add: sched_keeps_def)
qed

lemma sched_tick_keeps:
  assumes "sched_inv s" "sched_tick ticks sc s = (sc', s')"
  shows "sched_keeps s s'"
proof (cases "current_task s")
  case None
  then show ?thesis using assms(2) by (simp add: sched_tick_def task_current_def sched_keeps_def)
next
  case (Some cur)
  let ?s1 = "sched_on_run sc (Some cur) ticks s"
  have inv: "proc_inv s" using assms(1) by (simp add: sched_inv_def)
  note c = proc_invD(5,6) [OF inv Some] and s1 = sched_on_run_inv [OF assms(1) Some, of sc ticks]
  have m1: "sched_keeps s ?s1"
    using c proc_invD(1) [OF inv]
    by (auto simp: sched_keeps_def sched_on_run_def charge_cfs_def charge_rr_def Let_def task_used_slot_def
        intro!: map_upd_same zombie_current_upd split: if_splits)
  obtain r sc1 where p: "sched_pick_next sc ?s1 = (r, sc1)" by (metis prod.exhaust)
  show ?thesis
  proof (cases "r = None \<or> r = Some cur")
    case True
    then have "s' = ?s1" using assms(2) Some p by (auto simp: sched_tick_def task_current_def Let_def)
    then show ?thesis using m1 by simp
  next
    case False
    then obtain n where n: "r = Some n" "n \<noteq> cur" by auto
    have ok: "n < NM_MAX_TASKS" "task_used_slot (task_table ?s1 ! n)" using sched_pick_next_ok [of sc ?s1 n sc1] p n s1(2) by auto
    have "s' = hand_over cur n ?s1" using assms(2) Some p n by (auto simp: sched_tick_def task_current_def Let_def)
    then show ?thesis using hand_over_sched_keeps [OF s1(1,2) ok(1) n(2) ok(2)] m1 by (simp add: sched_keeps_def)
  qed
qed

lemma sched_yield_keeps:
  assumes "sched_inv s" "sched_yield sc s c m = (sc', s', c', m')"
  shows "sched_keeps s s'"
proof (cases "current_task s")
  case None
  then show ?thesis using assms(2) by (simp add: sched_yield_def task_current_def sched_keeps_def)
next
  case (Some cur)
  have inv: "proc_inv s" using assms(1) by (simp add: sched_inv_def)
  note cu = proc_invD(5,6) [OF inv Some]
  show ?thesis
    using inv Some assms(2)
  proof (cases rule: sched_yield_cases)
    case (switch n old)
    note h = hand_over_sched_keeps [OF assms(1) Some switch(1,2,3)]
    have "sched_keeps (hand_over cur n s) s'"
      unfolding switch(6) sched_keeps_def using cu(1) proc_invD(1) [OF inv]
      by (auto simp: task_used_slot_def hand_over_def proc_set_current_def intro!: map_upd_same zombie_current_upd)
    then show ?thesis using h by (simp add: sched_keeps_def)
  qed (simp add: sched_keeps_def)
qed

lemma kernel_ok_sched: "kernel_ok k \<Longrightarrow> sched_inv p \<Longrightarrow> sched_keeps (k_proc k) p \<Longrightarrow> kernel_ok (k\<lparr>k_proc := p\<rparr>)"
  by (rule kernel_ok_proc) (simp_all add: sched_keeps_def kernel_okD)

lemma spawn_ok:
  assumes "kernel_ok k" "next_pid (k_proc k) < 2 ^ 31 - 1"
    "task_create_kernel_thread (ke_kmalloc env) (ke_kfree env) tr name entry arg (k_proc k) (k_heap k) m = (r, p, h, m')"
  shows "kernel_ok (k\<lparr>k_proc := p, k_heap := h\<rparr>)"
proof (cases r)
  case None
  then have "p = k_proc k" using assms(3) by (auto simp: task_create_kernel_thread_def Let_def split: prod.splits if_splits option.splits)
  then show ?thesis using assms(1) by simp
next
  case (Some i)
  note ok = kernel_okD [OF assms(1)]
  obtain sp st where i: "i < NM_MAX_TASKS" "\<not> task_used_slot (task_table (k_proc k) ! i)"
    and p: "p = fill_slot i (kthread_task (k_proc k) name entry st sp (task_table (k_proc k) ! i)) (k_proc k)"
    using assms(3) Some alloc_task_slot_SomeD [OF ok(2)]
    by (auto simp: task_create_kernel_thread_def Let_def split: prod.splits if_splits option.splits)
  let ?t = "kthread_task (k_proc k) name entry st sp (task_table (k_proc k) ! i)"
  have t: "task_used_slot ?t" "t_state ?t \<noteq> NM_TASK_ZOMBIE" "t_fd_table ?t = replicate NM_MAX_FDS (- 1)"
    by (simp_all add: kthread_task_def task_used_slot_def)
  have si: "sched_inv (fill_slot i ?t (k_proc k))"
    using task_create_inv [OF ok(2) assms(2,3)] create_running_ok [OF ok(3,6) assms(3)] p by (simp add: sched_inv_def)
  have refs: "tab_refs (replicate NM_MAX_FDS (- 1)) j = 0" for j by (simp add: tab_refs_def count_if_replicate)
  have "kernel_ok (k\<lparr>k_heap := h, k_fd := k_fd k, k_proc := fill_slot i ?t (k_proc k)\<rparr>)"
    using ok(7) by (intro kernel_ok_fill [OF assms(1) i t(1,2) _ si]) (simp_all add: t(3) tab_ok_def refs)
  then show ?thesis using p by (simp add: kernel_ok_def)
qed

section \<open>The running kernel\<close>

text \<open>
  A run of the kernel from boot: system calls of whichever task is current, new kernel threads, clock
  ticks and yields, in any order. A call needs a pid that fits an \<^verbatim>\<open>int32_t\<close>, and a write that no pipe's
  64-bit position wraps.
\<close>

inductive kernel_run :: "('f, 'h) kenv \<Rightarrow> ('f, 'h) kernel \<times> sched_state \<Rightarrow> bool" for env where
  boot: "length (task_table (k_proc k)) = NM_MAX_TASKS \<Longrightarrow> length (syscall_table k) = NM_SYSCALL_MAX \<Longrightarrow> fd_memory (k_fd k) \<Longrightarrow>
     kernel_run env (syscall_init (k\<lparr>k_proc := proc_init (k_proc k)\<rparr>), sched_init pol sc)"
| call: "kernel_run env (k, sc) \<Longrightarrow> next_pid (k_proc k) < 2 ^ 31 - 1 \<Longrightarrow>
     (nr = 1 \<Longrightarrow> \<forall>p\<in>set (pipe_table (k_fd k)). pipe_ready (unat a3) p) \<Longrightarrow>
     syscall_dispatch env nr a1 a2 a3 a4 k = Some (r, k') \<Longrightarrow> kernel_run env (k', sc)"
| spawn: "kernel_run env (k, sc) \<Longrightarrow> next_pid (k_proc k) < 2 ^ 31 - 1 \<Longrightarrow>
     task_create_kernel_thread (ke_kmalloc env) (ke_kfree env) tr name entry arg (k_proc k) (k_heap k) m = (r, p, h, m') \<Longrightarrow>
     kernel_run env (k\<lparr>k_proc := p, k_heap := h\<rparr>, sc)"
| tick: "kernel_run env (k, sc) \<Longrightarrow> sched_tick ticks sc (k_proc k) = (sc', p) \<Longrightarrow>
     kernel_run env (k\<lparr>k_proc := p\<rparr>, sc')"
| yield: "kernel_run env (k, sc) \<Longrightarrow> sched_yield sc (k_proc k) c m = (sc', p, c', m') \<Longrightarrow>
     kernel_run env (k\<lparr>k_proc := p\<rparr>, sc')"

definition boot_table :: "sys_handler option list" where
  "boot_table = map Some [Sys_getpid, Sys_write, Sys_read, Sys_close, Sys_exit, Sys_waitpid, Sys_pipe, Sys_dup2, Sys_fork,
     Sys_exec, Sys_fd_cloexec] @ replicate 117 None"

lemma syscall_init_state:
  shows "length (syscall_table k) = NM_SYSCALL_MAX \<Longrightarrow> syscall_init k = k\<lparr>k_fd := nm_fd_init (k_fd k), syscall_table := boot_table\<rparr>"
    and "k_proc (syscall_init k) = k_proc k" "k_fd (syscall_init k) = nm_fd_init (k_fd k)"
proof -
  show "k_proc (syscall_init k) = k_proc k" "k_fd (syscall_init k) = nm_fd_init (k_fd k)"
    by (simp_all add: syscall_init_def syscall_register_def NM_SYSCALL_MAX_def)
  have tab: "(replicate 128 None)[0 := Some Sys_getpid, 1 := Some Sys_write, 2 := Some Sys_read, 3 := Some Sys_close,
      4 := Some Sys_exit, 5 := Some Sys_waitpid, 6 := Some Sys_pipe, 7 := Some Sys_dup2, 8 := Some Sys_fork,
      9 := Some Sys_exec, 10 := Some Sys_fd_cloexec] = boot_table"
    by code_simp
  assume "length (syscall_table k) = NM_SYSCALL_MAX"
  then show "syscall_init k = k\<lparr>k_fd := nm_fd_init (k_fd k), syscall_table := boot_table\<rparr>"
    using tab by (simp add: syscall_init_def syscall_register_def NM_SYSCALL_MAX_def map_replicate_const word_le_nat_alt)
qed

lemma boot_table_nth:
  "n < 11 \<Longrightarrow> boot_table ! n = Some ([Sys_getpid, Sys_write, Sys_read, Sys_close, Sys_exit, Sys_waitpid, Sys_pipe, Sys_dup2,
     Sys_fork, Sys_exec, Sys_fd_cloexec] ! n)"
  "11 \<le> n \<Longrightarrow> n < 128 \<Longrightarrow> boot_table ! n = None"
  by (simp_all add: boot_table_def nth_append nth_map del: list.map)

lemma boot_table_write: "n < 128 \<Longrightarrow> boot_table ! n = Some Sys_write \<Longrightarrow> n = 1"
proof -
  have "list_all (\<lambda>n. boot_table ! n = Some Sys_write \<longrightarrow> n = 1) [0..<128]" by code_simp
  then show "n < 128 \<Longrightarrow> boot_table ! n = Some Sys_write \<Longrightarrow> n = 1" by (simp add: list_all_iff del: upt_conv_Cons)
qed

lemma run_handler_table: "run_handler env fn a1 a2 a3 a4 k = Some (r, k') \<Longrightarrow> syscall_table k' = syscall_table k"
  by (cases fn)
    (auto simp: run_handler_def sys_getpid_def sys_write_def sys_read_def sys_close_def sys_exit_def sys_waitpid_def sys_pipe_def
      sys_dup2_def sys_fork_def sys_exec_def sys_fd_cloexec_def put_task_def Let_def split: option.splits if_splits prod.splits)

lemma boot_no_refs:
  assumes "length (task_table s) = NM_MAX_TASKS"
  shows "live_refs (task_table (proc_init s)) i = 0" "t \<in> set (task_table (proc_init s)) \<Longrightarrow> task_used_slot t \<Longrightarrow> tab_ok (t_fd_table t)"
proof -
  let ?T = "task_table (proc_init s)"
  note pi = proc_init_inv [OF assms]
  have len: "length ?T = NM_MAX_TASKS" by (rule proc_invD(1) [OF pi(1)])
  obtain t0 ts where ts: "task_table s = t0 # ts" using assms by (cases "task_table s") (auto simp: NM_MAX_TASKS_def)
  have t0: "t_fd_table (?T ! 0) = replicate NM_MAX_FDS (- 1)"
    by (simp add: proc_init_def ts alloc_task_slot_def clear_task_def [of t0] Let_def)
  have "slot_refs i (?T ! j) = 0" if "j < NM_MAX_TASKS" for j
    using that pi(6) [of j] t0 by (cases "j = 0") (auto simp: slot_refs_def tab_refs_def count_if_replicate)
  then show "live_refs ?T i = 0" using len by (auto simp: live_refs_def in_set_conv_nth)
  show "tab_ok (t_fd_table t)" if t: "t \<in> set ?T" "task_used_slot t"
  proof -
    obtain j where j: "j < NM_MAX_TASKS" "t = ?T ! j" using t(1) len by (metis in_set_conv_nth)
    then have "j = 0" using t(2) pi(6) [of j] by (cases "j = 0") auto
    then show ?thesis using t0 j(2) by (simp add: tab_ok_def)
  qed
qed

lemma boot_kernel_ok:
  assumes "length (task_table (k_proc k)) = NM_MAX_TASKS" "fd_memory (k_fd k)"
  shows "kernel_ok (syscall_init (k\<lparr>k_proc := proc_init (k_proc k)\<rparr>))"
proof -
  let ?p = "proc_init (k_proc k)"
  note pi = proc_init_inv [OF assms(1)]
  have "live_refs (task_table ?p) = (\<lambda>_. 0)" using boot_no_refs(1) [OF assms(1)] by auto
  then have "kernel_fds ?p (nm_fd_init (k_fd k))"
    using nm_fd_init_inv [OF assms(2)] boot_no_refs(2) [OF assms(1)] by (simp add: kernel_fds_def)
  moreover have "sched_inv ?p" using proc_reachable_inv [OF proc_reachable.boot [OF assms(1)]] by fastforce
  moreover have "zombie_current ?p"
    unfolding zombie_current_def
  proof (intro allI impI)
    fix i assume i: "i < length (task_table ?p)" "t_state (task_table ?p ! i) = NM_TASK_ZOMBIE"
    then show "current_task ?p = Some i"
      using pi(5) pi(6) [of i] proc_invD(1) [OF pi(1)] by (cases "i = 0") (auto simp: task_used_slot_def)
  qed
  ultimately show ?thesis using syscall_init_state(2,3) [of "k\<lparr>k_proc := ?p\<rparr>"] by (simp add: kernel_ok_def)
qed

lemma syscall_dispatch_ok:
  assumes "kernel_ok k" "syscall_table k = boot_table" "next_pid (k_proc k) < 2 ^ 31 - 1"
    "nr = 1 \<Longrightarrow> \<forall>p\<in>set (pipe_table (k_fd k)). pipe_ready (unat a3) p" "syscall_dispatch env nr a1 a2 a3 a4 k = Some (r, k')"
  shows "kernel_ok k' \<and> syscall_table k' = boot_table"
proof (cases "nr \<ge> of_nat NM_SYSCALL_MAX \<or> syscall_table k ! unat nr = None")
  case True
  then have "k' = k" using assms(5) by (auto simp: syscall_dispatch_def split: if_splits)
  then show ?thesis using assms(1,2) by simp
next
  case False
  then obtain fn where fn: "syscall_table k ! unat nr = Some fn" by auto
  have nr: "unat nr < 128" using False by (simp add: NM_SYSCALL_MAX_def word_le_nat_alt)
  have h: "run_handler env fn a1 a2 a3 a4 k = Some (r, k')" using assms(5) False fn by (simp add: syscall_dispatch_def)
  have "fn = Sys_write \<longrightarrow> nr = 1" using boot_table_write [OF nr] fn assms(2) by (auto simp: word_unat_eq_iff)
  then have "kernel_ok k'" using run_handler_ok [OF assms(1,3) _ h] assms(4) by blast
  then show ?thesis using run_handler_table [OF h] assms(2) by simp
qed

lemma kernel_run_ok: "kernel_run env x \<Longrightarrow> kernel_ok (fst x) \<and> syscall_table (fst x) = boot_table"
proof (induction rule: kernel_run.induct)
  case (boot k pol sc)
  then show ?case using boot_kernel_ok [OF boot(1,3)] syscall_init_state(1) [of "k\<lparr>k_proc := proc_init (k_proc k)\<rparr>"] by simp
next
  case (call k sc nr a3 a1 a2 a4 r k')
  have "kernel_ok k \<and> syscall_table k = boot_table" using call.IH by simp
  then show ?case using syscall_dispatch_ok [of k nr a3 env a1 a2 a4 r k'] call.hyps by simp
next
  case (spawn k sc tr name entry arg m r p h m')
  have "kernel_ok k \<and> syscall_table k = boot_table" using spawn.IH by simp
  then show ?case using spawn_ok [of k env tr name entry arg m r p h m'] spawn.hyps by simp
next
  case (tick k sc ticks sc' p)
  have ok: "kernel_ok k" "syscall_table k = boot_table" using tick.IH by simp_all
  note si = kernel_okD(1) [OF ok(1)]
  show ?case using kernel_ok_sched [OF ok(1) sched_tick_inv [OF si tick.hyps(2)] sched_tick_keeps [OF si tick.hyps(2)]] ok(2) by simp
next
  case (yield k sc c m sc' p c' m')
  have ok: "kernel_ok k" "syscall_table k = boot_table" using yield.IH by simp_all
  note si = kernel_okD(1) [OF ok(1)]
  show ?case using kernel_ok_sched [OF ok(1) sched_yield_inv [OF si yield.hyps(2)] sched_yield_keeps [OF si yield.hyps(2)]] ok(2) by simp
qed

section \<open>Properties\<close>

text \<open>
  C1: the composed kernel is consistent. After any run of system calls, thread creations, clock ticks
  and yields from boot, in any interleaving of the tasks, the process table is well formed, every
  descriptor of a task in the table is free or names an object in use, the count of every object is
  exactly the number of descriptors that name it, and the reader and writer counts of every pipe in
  use are the references to its two ends.
\<close>
theorem kernel_consistent:
  assumes "kernel_run env (k, sc)"
  shows "sched_inv (k_proc k) \<and>
    (\<forall>t\<in>set (task_table (k_proc k)). task_used_slot t \<longrightarrow>
       (\<forall>x\<in>set (t_fd_table t). x = - 1 \<or> (\<exists>i<NM_FDOBJ_MAX. x = int i \<and> fo_used (fdobj_table (k_fd k) ! i)))) \<and>
    (\<forall>i<NM_FDOBJ_MAX. fo_used (fdobj_table (k_fd k) ! i) \<longrightarrow>
       0 < live_refs (task_table (k_proc k)) i \<and> unat (fo_refcnt (fdobj_table (k_fd k) ! i)) = live_refs (task_table (k_proc k)) i) \<and>
    (\<forall>p<NM_PIPE_MAX. pp_used (pipe_table (k_fd k) ! p) \<longrightarrow>
       unat (pp_readers (pipe_table (k_fd k) ! p)) = endpoint_refs NM_FDOBJ_PIPE_R p (fdobj_table (k_fd k)) \<and>
       unat (pp_writers (pipe_table (k_fd k) ! p)) = endpoint_refs NM_FDOBJ_PIPE_W p (fdobj_table (k_fd k)))"
proof -
  let ?T = "task_table (k_proc k)"
  have ok: "kernel_ok k" using kernel_run_ok [OF assms] by simp
  note iv = fd_invD [OF kernel_okD(7) [OF ok]]
  have tok: "\<forall>t\<in>set ?T. task_used_slot t \<longrightarrow> tab_ok (t_fd_table t)" using kernel_okD(5) [OF ok] by (simp add: kernel_fds_def)
  have "x = - 1 \<or> (\<exists>i<NM_FDOBJ_MAX. x = int i \<and> fo_used (fdobj_table (k_fd k) ! i))"
    if t: "t \<in> set ?T" "task_used_slot t" and x: "x \<in> set (t_fd_table t)" for t x
  proof (cases "x = - 1")
    case False
    then have r: "0 \<le> x" "x < int NM_FDOBJ_MAX" using tok t x by (auto simp: tab_ok_def)
    obtain c where c: "c < length ?T" "t = ?T ! c" using t(1) by (metis in_set_conv_nth)
    have "0 < slot_refs (nat x) t" using x r(1) t(2) by (auto simp: slot_refs_def tab_refs_def count_if_pos in_set_conv_nth)
    then have "0 < live_refs ?T (nat x)" using live_refs_member [OF c(1), of "nat x"] c(2) by simp
    then have "fo_used (fdobj_table (k_fd k) ! nat x)" using iv(4) [of "nat x"] r by auto
    then show ?thesis using r by (auto intro!: exI [of _ "nat x"])
  qed simp
  moreover have "0 < live_refs ?T i \<and> unat (fo_refcnt (fdobj_table (k_fd k) ! i)) = live_refs ?T i"
    if "i < NM_FDOBJ_MAX" "fo_used (fdobj_table (k_fd k) ! i)" for i
    using iv(3,4) [OF that(1)] that(2) by simp
  moreover have "unat (pp_readers (pipe_table (k_fd k) ! p)) = endpoint_refs NM_FDOBJ_PIPE_R p (fdobj_table (k_fd k)) \<and>
      unat (pp_writers (pipe_table (k_fd k) ! p)) = endpoint_refs NM_FDOBJ_PIPE_W p (fdobj_table (k_fd k))"
    if "p < NM_PIPE_MAX" "pp_used (pipe_table (k_fd k) ! p)" for p
    using iv(6) [OF that(1)] that(2) by (auto simp: pipe_counts_def pcount_def endpoint_def)
  ultimately show ?thesis using kernel_okD(1) [OF ok] by blast
qed

definition demo_kernel :: "(unit, unit) kernel" where
  "demo_kernel = \<lparr>k_proc = boot_proc, k_fd = demo_fd, k_vfs = (\<lparr>file_table = [], root_fs = None, root_vnode = None\<rparr>, ()),
     k_mem = (\<lambda>_. 0), k_console = [], k_heap = (), syscall_table = replicate NM_SYSCALL_MAX None\<rparr>"

definition demo_env :: "(unit, unit) kenv" where
  "demo_env = \<lparr>ke_vnodes = \<lparr>vm_ops = (\<lambda>_ _. None), vm_size = (\<lambda>_ _. 0)\<rparr>, ke_kmalloc = (\<lambda>n h. (0x300010, h)), ke_kfree = (\<lambda>p h. h)\<rparr>"

definition demo_boot :: "(unit, unit) kernel" where
  "demo_boot = syscall_init (demo_kernel\<lparr>k_proc := proc_init (k_proc demo_kernel)\<rparr>)"

lemma demo_boot:
  "kernel_run demo_env (demo_boot, sched_init pol sc)" "k_proc demo_boot = demo_proc" "syscall_table demo_boot = boot_table"
proof -
  have len: "length (task_table (k_proc demo_kernel)) = NM_MAX_TASKS" "length (syscall_table demo_kernel) = NM_SYSCALL_MAX"
    "fd_memory (k_fd demo_kernel)"
    by (simp_all add: demo_kernel_def boot_proc_def demo_fd_def fd_memory_def nm_fd_init_def)
  show "kernel_run demo_env (demo_boot, sched_init pol sc)" unfolding demo_boot_def by (rule kernel_run.boot [OF len])
  show "k_proc demo_boot = demo_proc" "syscall_table demo_boot = boot_table"
    using len(2) by (simp_all add: demo_boot_def syscall_init_state demo_proc_def) (simp add: demo_kernel_def)
qed

text \<open>Scripts of system calls and ticks, to evaluate runs.\<close>

datatype kstep = Call u64 u64 u64 u64 u64 | Tick u64

fun run_script :: "('f, 'h) kenv \<Rightarrow> kstep list \<Rightarrow> ('f, 'h) kernel \<times> sched_state \<Rightarrow> (('f, 'h) kernel \<times> sched_state) option" where
  "run_script env [] x = Some x"
| "run_script env (Call nr a1 a2 a3 a4 # steps) (k, sc) =
     (if next_pid (k_proc k) < 2 ^ 31 - 1 \<and> nr \<noteq> 1
      then case syscall_dispatch env nr a1 a2 a3 a4 k of None \<Rightarrow> None | Some (r, k) \<Rightarrow> run_script env steps (k, sc)
      else None)"
| "run_script env (Tick n # steps) (k, sc) =
     (let (sc, p) = sched_tick n sc (k_proc k) in run_script env steps (k\<lparr>k_proc := p\<rparr>, sc))"

lemma run_script_run: "run_script env steps x = Some y \<Longrightarrow> kernel_run env x \<Longrightarrow> kernel_run env y"
proof (induction env steps x rule: run_script.induct)
  case (2 env nr a1 a2 a3 a4 steps k sc)
  from "2.prems"(1) obtain r k1 where s: "next_pid (k_proc k) < 2 ^ 31 - 1" "nr \<noteq> 1"
    "syscall_dispatch env nr a1 a2 a3 a4 k = Some (r, k1)" "run_script env steps (k1, sc) = Some y"
    by (auto split: if_splits option.splits)
  have "kernel_run env (k1, sc)" using s(2) by (intro kernel_run.call [OF "2.prems"(2) s(1) _ s(3)]) simp
  then show ?case using "2.IH" [OF _ s(3) refl s(4)] s(1,2) by simp
next
  case (3 env t steps k sc)
  obtain sc1 p where s: "sched_tick t sc (k_proc k) = (sc1, p)" by (metis prod.exhaust)
  have "kernel_run env (k\<lparr>k_proc := p\<rparr>, sc1)" by (rule kernel_run.tick [OF "3.prems"(2) s])
  then show ?case using "3.IH" [OF s [symmetric] refl] "3.prems"(1) s by simp
qed simp

definition demo_sched :: sched_state where
  "demo_sched = sched_init NM_SCHED_RR \<lparr>global_policy = NM_SCHED_CFS, rr_cursor = 5\<rparr>"

lemma demo_run: "run_script demo_env steps (demo_boot, demo_sched) = Some y \<Longrightarrow> kernel_run demo_env y"
  using run_script_run demo_boot(1) unfolding demo_sched_def by blast

text \<open>The first task makes a pipe and forks, so the two ends are counted twice.\<close>

theorem kernel_consistent_witness:
  "\<exists>k sc. kernel_run demo_env (k, sc) \<and> fo_used (fdobj_table (k_fd k) ! 0) \<and> unat (fo_refcnt (fdobj_table (k_fd k) ! 0)) = 2 \<and>
     live_refs (task_table (k_proc k)) 0 = 2"
proof -
  let ?r = "run_script demo_env [Call 6 64 0 0 0, Call 8 0 0 0 0] (demo_boot, demo_sched)"
  have "case ?r of None \<Rightarrow> False | Some (k, sc) \<Rightarrow> fo_used (fdobj_table (k_fd k) ! 0) \<and> fo_refcnt (fdobj_table (k_fd k) ! 0) = 2"
    by code_simp
  then obtain k sc where r: "?r = Some (k, sc)" "fo_used (fdobj_table (k_fd k) ! 0)" "fo_refcnt (fdobj_table (k_fd k) ! 0) = 2"
    by (auto split: option.splits)
  have "0 < NM_FDOBJ_MAX" by (simp add: NM_FDOBJ_MAX_def)
  then show ?thesis using kernel_consistent [OF demo_run [OF r(1)]] demo_run [OF r(1)] r(2,3) by force
qed

text \<open>
  the dispatch table. After \<^verbatim>\<open>syscall_init\<close> the numbers 0 to 10 run the eleven handlers in the order
  of the numbers of \<^verbatim>\<open>include/nm/syscall.h\<close>, and every other 64-bit number returns \<open>-ENOSYS\<close> and changes
  nothing.
\<close>
theorem syscall_dispatch_table:
  assumes "length (syscall_table k0) = NM_SYSCALL_MAX"
  shows "syscall_dispatch env nr a1 a2 a3 a4 (syscall_init k0) =
    (if nr < 11 then run_handler env ([Sys_getpid, Sys_write, Sys_read, Sys_close, Sys_exit, Sys_waitpid, Sys_pipe, Sys_dup2,
       Sys_fork, Sys_exec, Sys_fd_cloexec] ! unat nr) a1 a2 a3 a4 (syscall_init k0)
     else Some (NM_ERR NM_ENOSYS, syscall_init k0))"
proof -
  have t: "syscall_table (syscall_init k0) = boot_table" using syscall_init_state(1) [OF assms] by simp
  have lt: "nr < 11 \<longleftrightarrow> unat nr < 11" "of_nat NM_SYSCALL_MAX \<le> nr \<longleftrightarrow> 128 \<le> unat nr"
    by (simp_all add: word_less_nat_alt word_le_nat_alt NM_SYSCALL_MAX_def)
  consider "unat nr < 11" | "11 \<le> unat nr" "unat nr < 128" | "128 \<le> unat nr" by linarith
  then show ?thesis
    by cases (simp_all add: syscall_dispatch_def lt t boot_table_nth)
qed

theorem syscall_dispatch_table_witness:
  "syscall_dispatch demo_env 127 1 2 3 4 (syscall_init demo_kernel) = Some (- 38, syscall_init demo_kernel)"
  using syscall_dispatch_table [of demo_kernel demo_env 127 1 2 3 4]
  by (simp add: demo_kernel_def word_less_nat_alt)

text \<open>
  C15: fork shares descriptors. A \<^verbatim>\<open>fork\<close> of the running kernel that returns a process id has put a task
  with that id, whose parent is the caller, into a slot that was free; the child has the caller's
  descriptors and sees 0 in its result register, and every object's count has grown by the number of
  the caller's descriptors that name it.
\<close>
theorem fork_shares_descriptors:
  assumes "kernel_run env (k, sc)" "task_current (k_proc k) = Some c" "sys_fork env k = (r, k')" "r \<noteq> NM_ERR NM_EFAIL"
  shows "\<exists>i<NM_MAX_TASKS. \<not> task_used_slot (cur_task i k) \<and> t_pid (cur_task i k') = r \<and> t_ppid (cur_task i k') = t_pid (cur_task c k) \<and>
    t_state (cur_task i k') = NM_TASK_RUNNABLE \<and> reg_rax (t_regs (cur_task i k')) = 0 \<and>
    t_fd_table (cur_task i k') = t_fd_table (cur_task c k) \<and> reg_rax (t_regs (cur_task c k')) = word_of_int r \<and>
    (\<forall>j<NM_FDOBJ_MAX. fo_used (fdobj_table (k_fd k) ! j) \<longrightarrow> fo_used (fdobj_table (k_fd k') ! j) \<and>
       unat (fo_refcnt (fdobj_table (k_fd k') ! j)) = unat (fo_refcnt (fdobj_table (k_fd k) ! j)) + tab_refs (t_fd_table (cur_task c k)) j)"
proof -
  have ok: "kernel_ok k" using kernel_run_ok [OF assms(1)] by simp
  note len = kernel_okD(6) [OF ok] and c = kernel_okD(8) [OF ok assms(2)] and fi = kernel_okD(7) [OF ok]
  from ok assms(2,3) show ?thesis
  proof (cases rule: sys_fork_cases)
    case (full h)
    then show ?thesis using assms(4) by simp
  next
    case (forked i stk child s h)
    have ne: "i \<noteq> c" using forked(3) c by (auto simp: cur_task_def)
    have nth: "cur_task i k' = child" "t_regs (cur_task c k') = (t_regs (cur_task c k))\<lparr>reg_rax := word_of_int (t_pid child)\<rparr>" "k_fd k' = s"
      using ne len c forked(2) by (simp_all add: forked(8) fork_kernel_def cur_task_def)
    have tab: "t_fd_table child = t_fd_table (cur_task c k)" "t_ppid child = t_pid (cur_task c k)"
      "t_state child = NM_TASK_RUNNABLE" "reg_rax (t_regs child) = 0" by (simp_all add: forked(4) fork_task_def)
    have "fo_used (fdobj_table s ! j) \<and> unat (fo_refcnt (fdobj_table s ! j)) =
        unat (fo_refcnt (fdobj_table (k_fd k) ! j)) + tab_refs (t_fd_table (cur_task c k)) j"
      if "j < NM_FDOBJ_MAX" "fo_used (fdobj_table (k_fd k) ! j)" for j
      using fd_invD(3,4) [OF fi that(1)] fd_invD(3,4) [OF forked(6) that(1)] that(2) tab(1) by simp
    then show ?thesis
      using forked(2,3,7) nth tab by (intro exI [of _ i]) (simp add: cur_task_def [of i k])
  qed
qed

theorem fork_shares_descriptors_witness:
  "\<exists>k i. sys_fork demo_env demo_boot = (2, k) \<and> t_pid (cur_task i k) = 2 \<and> t_ppid (cur_task i k) = 1 \<and>
     t_fd_table (cur_task i k) = t_fd_table (cur_task 0 demo_boot)"
proof -
  obtain r k where f: "sys_fork demo_env demo_boot = (r, k)" by (metis prod.exhaust)
  have cur: "task_current (k_proc demo_boot) = Some 0" by (simp add: demo_boot(2) demo_proc(2) task_current_def)
  have pid: "t_pid (cur_task 0 demo_boot) = 1" by (simp add: cur_task_def demo_boot(2) demo_proc(5))
  have "r = 2"
  proof -
    have u: "\<not> task_used_slot (task_table demo_proc ! 1)" "length (task_table demo_proc) = NM_MAX_TASKS"
      using alloc_task_slot_SomeD(2) [OF demo_proc(1,6)] proc_invD(1) [OF demo_proc(1)] by simp_all
    then have pf: "\<exists>h. proc_fork_current (ke_kmalloc demo_env) (ke_kfree demo_env) (k_proc demo_boot) (k_heap demo_boot) = (Some 1, demo_forked, h)"
      by (simp add: proc_fork_current_def fork_probe_def demo_boot(2) demo_proc alloc_task_stack_def demo_env_def fork_commit_def
          task_used_slot_def demo_forked_def KSTACK_SIZE_def)
    have "kernel_ok demo_boot" using kernel_run_ok [OF demo_boot(1)] by simp
    from this cur f show ?thesis
      by (cases rule: sys_fork_cases) (use pf in \<open>auto simp: fork_task_def demo_boot(2) demo_proc(4)\<close>)
  qed
  then show ?thesis
    using fork_shares_descriptors [OF demo_boot(1) cur f] f pid by auto
qed

text \<open>
  C16: exec is all or nothing. An \<^verbatim>\<open>exec\<close> of the running kernel that reports an error has changed nothing;
  one that returns 0 has set the caller's instruction pointer to the non-zero entry it settled on, closed
  exactly the descriptors marked close-on-exec, cleared the marks, and left the caller's process id,
  parent and state and the memory alone.
\<close>
theorem exec_all_or_nothing:
  assumes "kernel_run env (k, sc)" "task_current (k_proc k) = Some c"
    "sys_exec env name_ptr argv_ptr envp_ptr a4 k = Some (r, k')"
  shows "(r = NM_ERR NM_EFAIL \<and> k' = k) \<or>
    (r = 0 \<and> (\<exists>name. c_string (k_mem k) name_ptr = Some name \<and>
       reg_rip (t_regs (cur_task c k')) = fst (exec_entry name argv_ptr envp_ptr a4) \<and> fst (exec_entry name argv_ptr envp_ptr a4) \<noteq> 0) \<and>
     (\<forall>fd<NM_MAX_FDS. t_fd_table (cur_task c k') ! fd =
        (if bit (t_fd_cloexec_mask (cur_task c k)) fd then - 1 else t_fd_table (cur_task c k) ! fd)) \<and>
     t_fd_cloexec_mask (cur_task c k') = 0 \<and> t_pid (cur_task c k') = t_pid (cur_task c k) \<and>
     t_ppid (cur_task c k') = t_ppid (cur_task c k) \<and> t_state (cur_task c k') = t_state (cur_task c k) \<and> k_mem k' = k_mem k)"
proof -
  have ok: "kernel_ok k" using kernel_run_ok [OF assms(1)] by simp
  have c: "c < length (task_table (k_proc k))" using kernel_okD(8) [OF ok assms(2)] by simp
  obtain R0 where R0: "task_fds R0 (cur_task c k) (k_fd k)" using kernel_ok_view [OF ok assms(2)] by blast
  obtain t s v where x: "nm_fd_close_on_exec (vfs_if (ke_vnodes env)) (cur_task c k) (k_fd k) (k_vfs k) = (t, s, v)"
    by (metis prod_cases3)
  have cl: "t_fd_cloexec_mask t = 0" "t_fd_table t = exec_table NM_MAX_FDS (cur_task c k)"
    using nm_fd_close_on_exec_ok [OF R0, of "vfs_if (ke_vnodes env)" "k_vfs k"] x by auto
  note same = same_task_fields [OF nm_fd_close_on_exec_same [OF x]]
  have x': "exec_closed env k = put_task c t s v k" using assms(2) x by (simp add: exec_closed_def)
  from assms(3) show ?thesis
  proof (cases rule: sys_exec_cases)
    case (runs name e argv p)
    have p: "proc_exec_current (load64 (k_mem k)) (Some name) e argv envp_ptr (upd_task c (\<lambda>_. t) (k_proc k)) = (r, k_proc k')"
      "k_mem k' = k_mem k" using runs(4,5) unfolding x' by (simp_all add: put_task_def)
    have "r = 0" "reg_rip (t_regs (cur_task c k')) = e" "t_fd_table (cur_task c k') = t_fd_table t"
      "t_fd_cloexec_mask (cur_task c k') = t_fd_cloexec_mask t" "t_pid (cur_task c k') = t_pid t" "t_ppid (cur_task c k') = t_ppid t"
      "t_state (cur_task c k') = t_state t"
      using p(1) assms(2) runs(3) c
      by (auto simp: proc_exec_current_def cur_task_def upd_task_def task_current_def dest!: sym [of _ "k_proc k'"])
    then show ?thesis using runs(1-3) p(2) by (intro disjI2) (simp add: cl same)
  qed simp
qed

text \<open>A file system with the single file \<^verbatim>\<open>/sh\<close>, its name at address 16, and the boot kernel on it.\<close>

definition sh_env :: "(unit, unit) kenv" where
  "sh_env = demo_env\<lparr>ke_vnodes := \<lparr>vm_ops = (\<lambda>_ _. Some \<lparr>op_open = None, op_read = None, op_write = None,
     op_stat = Some (\<lambda>_ _. (0, \<lparr>st_ino = 1, st_size = 0, st_mode = 0, st_uid = 0, st_gid = 0, st_nlink = 1, st_blocks = 0\<rparr>))\<rparr>),
     vm_size = (\<lambda>_ _. 0)\<rparr>\<rparr>"

definition demo_sh_vfs :: "unit vfs_state" where
  "demo_sh_vfs = \<lparr>file_table = [], root_fs = Some \<lparr>fsys_name = ''demo'', fsys_ops = Some
     \<lparr>fs_op_mount_root = None, fs_op_lookup = (\<lambda>d n f. if n = ''sh'' then Some 1 else None), fs_op_create = None\<rparr>\<rparr>, root_vnode = Some 0\<rparr>"

definition sh_mem :: user_mem where
  "sh_mem = (\<lambda>_. 0)(16 := 0x2F, 17 := 0x73, 18 := 0x68)"

definition sh_kernel :: "(unit, unit) kernel" where
  "sh_kernel = syscall_init (demo_kernel\<lparr>k_vfs := (demo_sh_vfs, ()), k_mem := sh_mem,
     k_proc := proc_init (k_proc demo_kernel)\<rparr>)"

theorem exec_all_or_nothing_witness:
  "\<exists>k'. sys_exec sh_env 16 0 0 0 sh_kernel = Some (0, k') \<and> reg_rip (t_regs (cur_task 0 k')) = 0x1100 \<and>
     t_fd_table (cur_task 0 k') ! 5 = - 1"
proof -
  let ?k = "demo_kernel\<lparr>k_vfs := (demo_sh_vfs, ()), k_mem := sh_mem\<rparr>"
  have "kernel_run sh_env (syscall_init (?k\<lparr>k_proc := proc_init (k_proc ?k)\<rparr>), sched_init undefined undefined)"
    by (rule kernel_run.boot) (simp_all add: demo_kernel_def boot_proc_def demo_fd_def fd_memory_def nm_fd_init_def)
  then have run: "kernel_run sh_env (sh_kernel, sched_init undefined undefined)" by (simp add: sh_kernel_def)
  have f: "k_proc sh_kernel = demo_proc" "k_vfs sh_kernel = (demo_sh_vfs, ())" "k_mem sh_kernel = sh_mem"
    using syscall_init_state(1) [of "?k\<lparr>k_proc := demo_proc\<rparr>"]
    by (simp_all add: sh_kernel_def demo_kernel_def demo_proc_def)
  have nm: "c_string (k_mem sh_kernel) 16 = Some ''/sh''" by (simp add: f sh_mem_def c_string_step char_of_def bit_0)
  have st: "fst (fs_stat (ke_vnodes sh_env) (Some ''/sh'') True (fst (k_vfs sh_kernel)) (snd (k_vfs sh_kernel))) = 0"
    unfolding f by code_simp
  have e: "exec_entry ''/sh'' 0 0 0 = (0x1100, 0)" by code_simp
  have cur: "task_current (k_proc sh_kernel) = Some 0" by (simp add: f demo_proc(2) task_current_def)
  obtain r p where p: "proc_exec_current (load64 (k_mem (exec_closed sh_env sh_kernel))) (Some ''/sh'') 0x1100 0 0
      (k_proc (exec_closed sh_env sh_kernel)) = (r, p)" by (metis prod.exhaust)
  then obtain k' where x: "sys_exec sh_env 16 0 0 0 sh_kernel = Some (r, k')"
    using nm st e unfolding sys_exec_def exec_closed_def [symmetric] by simp
  have "r = 0"
    using p cur by (auto simp: exec_closed_def proc_exec_current_def put_task_def task_current_def split: prod.splits)
  have "t_fd_table (cur_task 0 sh_kernel) ! 5 = - 1" unfolding cur_task_def f demo_proc_def by code_simp
  then show ?thesis
    using exec_all_or_nothing [OF run cur x] x \<open>r = 0\<close> nm e by (auto simp: NM_MAX_FDS_def)
qed

text \<open>
  C39: in the running kernel \<^verbatim>\<open>waitpid\<close> never reaps a child. The only ways to leave a task that has exited
  are \<^verbatim>\<open>sched_tick\<close> and \<^verbatim>\<open>sched_yield\<close>, and both overwrite its zombie state, so whenever some task runs
  \<^verbatim>\<open>waitpid\<close> no other task is a zombie: the call fails and changes nothing, whatever it waits for.
\<close>
theorem waitpid_never_reaps:
  assumes "kernel_run env (k, sc)"
  shows "sys_waitpid pid status_ptr k = (NM_ERR NM_EFAIL, k)"
proof -
  have "kernel_ok k" using kernel_run_ok [OF assms] by simp
  then show ?thesis by (rule sys_waitpid_none)
qed

text \<open>The first task forks, the child is scheduled, exits with code 7 and is preempted; the parent waits for it.\<close>

theorem waitpid_never_reaps_witness:
  "\<exists>k sc. run_script demo_env [Call 8 0 0 0 0, Tick 1000, Tick 1000, Call 4 7 0 0 0, Tick 1000, Tick 1000] (demo_boot, demo_sched) = Some (k, sc) \<and>
     sys_waitpid 2 0 k = (NM_ERR NM_EFAIL, k)"
proof -
  let ?r = "run_script demo_env [Call 8 0 0 0 0, Tick 1000, Tick 1000, Call 4 7 0 0 0, Tick 1000, Tick 1000] (demo_boot, demo_sched)"
  have "?r \<noteq> None" by code_simp
  then obtain k sc where r: "?r = Some (k, sc)" by auto
  then show ?thesis using waitpid_never_reaps [OF demo_run [OF r]] by auto
qed

end
