(* ===== verification/Tmpfs.thy ===== *)
theory Tmpfs
  imports Vfs
begin

text \<open>
  The in-memory file system of \<^verbatim>\<open>kernel/fs/tmpfs.c\<close>. A vnode pointer is an index of the node table. The
  macro \<^verbatim>\<open>NM_ALLOC\<close> (\<^verbatim>\<open>malloc\<close> in the host build, \<^verbatim>\<open>kmalloc\<close> in the kernel) is the argument \<open>nm_alloc\<close>: from the
  requested size and the allocator's state it returns the null pointer or a block, given as the
  bytes found at each of its positions (their content is the allocator's choice), and the next
  allocator state. \<^verbatim>\<open>NM_FREE\<close> has no effect in the kernel build. The capacity loop doubles in 64-bit
  arithmetic and may not end, and a store may miss the block: \<open>None\<close> in both cases.
\<close>

section \<open>State\<close>

definition TMPFS_MAX_NODES :: nat where "TMPFS_MAX_NODES = 512"

record nm_vnode =
  vn_used :: bool
  vn_ino :: u64
  vn_type :: nm_node_type
  vn_name :: string
  vn_uid :: u32
  vn_gid :: u32
  vn_mode :: u32
  vn_parent :: "nat option"
  vn_children :: "nat option"
  vn_next_sibling :: "nat option"
  vn_data :: "u8 list option"
  vn_size :: u64
  vn_capacity :: u64
  vn_ops :: bool

record 'h tmpfs_state =
  tm_nodes :: "nm_vnode list"
  tm_next_ino :: u64
  tm_root :: "nat option"
  tm_heap :: 'h

type_synonym 'h allocator = "u64 \<Rightarrow> 'h \<Rightarrow> (nat \<Rightarrow> u8) option \<times> 'h"

section \<open>Operations\<close>

definition tmpfs_copy_name :: "string \<Rightarrow> string" where
  "tmpfs_copy_name src = take (NM_NAME_MAX - 1) src"

fun name_eq :: "string \<Rightarrow> string \<Rightarrow> bool" where
  "name_eq (a # as) (b # bs) = (if a \<noteq> b then False else name_eq as bs)"
| "name_eq [] [] = True"
| "name_eq _ _ = False"

definition fresh_node :: "nm_vnode \<Rightarrow> nm_vnode" where
  "fresh_node node = node\<lparr>vn_used := True, vn_children := None, vn_next_sibling := None, vn_parent := None,
     vn_data := None, vn_size := 0, vn_capacity := 0, vn_uid := 0, vn_gid := 0\<rparr>"

definition alloc_node :: "nm_vnode list \<Rightarrow> (nat \<times> nm_vnode list) option" where
  "alloc_node nodes =
     (case first_idx (\<lambda>node. \<not> vn_used node) nodes of
        Some i \<Rightarrow> Some (i, nodes[i := fresh_node (nodes ! i)]) | None \<Rightarrow> None)"

definition upd_node :: "nat \<Rightarrow> (nm_vnode \<Rightarrow> nm_vnode) \<Rightarrow> 'h tmpfs_state \<Rightarrow> 'h tmpfs_state" where
  "upd_node n g f = f\<lparr>tm_nodes := (tm_nodes f)[n := g (tm_nodes f ! n)]\<rparr>"

definition tmpfs_open :: "nat \<Rightarrow> u32 \<Rightarrow> 'h tmpfs_state \<Rightarrow> int \<times> 'h tmpfs_state" where
  "tmpfs_open n flags f = (0, f)"

definition tmpfs_read :: "nat \<Rightarrow> u64 \<Rightarrow> u64 \<Rightarrow> 'h tmpfs_state \<Rightarrow> int \<times> u8 list" where
  "tmpfs_read n offset len f =
     (let node = tm_nodes f ! n in
      if vn_type node \<noteq> NM_NODE_FILE then (NM_ERR NM_EFAIL, [])
      else if offset \<ge> vn_size node then (0, [])
      else let remain = vn_size node - offset;
               k = (if len < remain then len else remain)
           in (s64 (uint k), map (\<lambda>i. the (vn_data node) ! unat (offset + of_nat i)) [0..<unat k]))"

partial_function (option) tmpfs_grow :: "u64 \<Rightarrow> u64 \<Rightarrow> u64 option" where
  "tmpfs_grow need cap = (if cap < need then tmpfs_grow need (cap * 2) else Some cap)"

text \<open>The copy loop reads the old block, or zeroes when there is none.\<close>

definition copied_block :: "nm_vnode \<Rightarrow> u64 \<Rightarrow> (nat \<Rightarrow> u8) \<Rightarrow> u8 list" where
  "copied_block node cap block =
     map (\<lambda>i. if i < unat (vn_size node) then (case vn_data node of Some d \<Rightarrow> d ! i | None \<Rightarrow> 0) else block i) [0..<unat cap]"

definition tmpfs_reserve :: "'h allocator \<Rightarrow> nat \<Rightarrow> u64 \<Rightarrow> 'h tmpfs_state \<Rightarrow> (int \<times> 'h tmpfs_state) option" where
  "tmpfs_reserve nm_alloc n need f =
     (let node = tm_nodes f ! n in
      if need \<le> vn_capacity node then Some (0, f)
      else case tmpfs_grow need (if vn_capacity node \<noteq> 0 then vn_capacity node else 64) of
        None \<Rightarrow> None
      | Some cap \<Rightarrow>
          let (new_buf, h) = nm_alloc cap (tm_heap f); f = f\<lparr>tm_heap := h\<rparr> in
          (case new_buf of
             None \<Rightarrow> Some (NM_ERR NM_ENOMEM, f)
           | Some block \<Rightarrow>
               Some (0, upd_node n (\<lambda>nd. nd\<lparr>vn_data := Some (copied_block nd cap block), vn_capacity := cap\<rparr>) f)))"

fun store_bytes :: "u8 list \<Rightarrow> u64 \<Rightarrow> u8 list \<Rightarrow> u8 list option" where
  "store_bytes data pos [] = Some data"
| "store_bytes data pos (b # bs) =
     (if unat pos < length data then store_bytes (data[unat pos := b]) (pos + 1) bs else None)"

definition tmpfs_write :: "'h allocator \<Rightarrow> nat \<Rightarrow> u8 list \<Rightarrow> u64 \<Rightarrow> 'h tmpfs_state \<Rightarrow> (int \<times> 'h tmpfs_state) option" where
  "tmpfs_write nm_alloc n buf offset f =
     (let len = (of_nat (length buf) :: u64) in
      if vn_type (tm_nodes f ! n) \<noteq> NM_NODE_FILE then Some (NM_ERR NM_EFAIL, f)
      else case tmpfs_reserve nm_alloc n (offset + len) f of
        None \<Rightarrow> None
      | Some (r, f) \<Rightarrow>
          if r \<noteq> 0 then Some (NM_ERR NM_EFAIL, f)
          else let stored = (case vn_data (tm_nodes f ! n) of
                               None \<Rightarrow> if buf = [] then Some None else None
                             | Some d \<Rightarrow> map_option Some (store_bytes d offset buf))
               in case stored of
                    None \<Rightarrow> None
                  | Some d \<Rightarrow>
                      Some (s64 (uint len), upd_node n (\<lambda>nd. nd\<lparr>vn_data := d,
                        vn_size := (if offset + len > vn_size nd then offset + len else vn_size nd)\<rparr>) f))"

definition tmpfs_stat :: "nat \<Rightarrow> 'h tmpfs_state \<Rightarrow> int \<times> nm_stat" where
  "tmpfs_stat n f =
     (let node = tm_nodes f ! n in
      (0, \<lparr>st_ino = vn_ino node, st_size = vn_size node, st_mode = vn_mode node, st_uid = vn_uid node,
           st_gid = vn_gid node, st_nlink = 1, st_blocks = (vn_size node + 511) div 512\<rparr>))"

definition tmpfs_file_ops :: "'h allocator \<Rightarrow> 'h tmpfs_state nm_file_ops" where
  "tmpfs_file_ops nm_alloc =
     \<lparr>op_open = Some tmpfs_open, op_read = Some tmpfs_read, op_write = Some (tmpfs_write nm_alloc), op_stat = Some tmpfs_stat\<rparr>"

definition tmpfs_mount_root :: "'h tmpfs_state \<Rightarrow> nat option \<times> 'h tmpfs_state" where
  "tmpfs_mount_root f =
     (case alloc_node (map (\<lambda>node. node\<lparr>vn_used := False\<rparr>) (tm_nodes f)) of
        None \<Rightarrow> (None, f\<lparr>tm_nodes := map (\<lambda>node. node\<lparr>vn_used := False\<rparr>) (tm_nodes f), tm_next_ino := 2, tm_root := None\<rparr>)
      | Some (r, nodes) \<Rightarrow>
          (Some r, upd_node r (\<lambda>node. node\<lparr>vn_ino := 1, vn_type := NM_NODE_DIR, vn_mode := 0x1ED, vn_name := tmpfs_copy_name ''/'', vn_ops := True\<rparr>)
             (f\<lparr>tm_nodes := nodes, tm_next_ino := 2, tm_root := Some r\<rparr>)))"

text \<open>The sibling walk, with one unit of fuel per node of the table.\<close>

fun find_child :: "nat \<Rightarrow> nm_vnode list \<Rightarrow> string \<Rightarrow> nat option \<Rightarrow> nat option" where
  "find_child fuel nodes name None = None"
| "find_child 0 nodes name (Some c) = None"
| "find_child (Suc fuel) nodes name (Some c) =
     (if name_eq (vn_name (nodes ! c)) name then Some c else find_child fuel nodes name (vn_next_sibling (nodes ! c)))"

definition tmpfs_lookup :: "nat \<Rightarrow> string \<Rightarrow> 'h tmpfs_state \<Rightarrow> nat option" where
  "tmpfs_lookup dir name f =
     (if vn_type (tm_nodes f ! dir) \<noteq> NM_NODE_DIR then None
      else find_child TMPFS_MAX_NODES (tm_nodes f) name (vn_children (tm_nodes f ! dir)))"

definition tmpfs_create :: "nat \<Rightarrow> string \<Rightarrow> nm_node_type \<Rightarrow> u32 \<Rightarrow> 'h tmpfs_state \<Rightarrow> nat option \<times> 'h tmpfs_state" where
  "tmpfs_create dir name ty mode f =
     (if vn_type (tm_nodes f ! dir) \<noteq> NM_NODE_DIR then (None, f)
      else if tmpfs_lookup dir name f \<noteq> None then (None, f)
      else case alloc_node (tm_nodes f) of
        None \<Rightarrow> (None, f)
      | Some (n, nodes) \<Rightarrow>
          (Some n,
           upd_node dir (\<lambda>d. d\<lparr>vn_children := Some n\<rparr>)
             (upd_node n (\<lambda>node. node\<lparr>vn_ino := tm_next_ino f, vn_type := ty, vn_mode := mode, vn_parent := Some dir, vn_ops := True,
                 vn_name := tmpfs_copy_name name, vn_next_sibling := vn_children (nodes ! dir)\<rparr>)
               (f\<lparr>tm_nodes := nodes, tm_next_ino := tm_next_ino f + 1\<rparr>))))"

definition tmpfs_ops :: "'h tmpfs_state nm_fs_ops" where
  "tmpfs_ops = \<lparr>fs_op_mount_root = Some tmpfs_mount_root, fs_op_lookup = tmpfs_lookup, fs_op_create = Some tmpfs_create\<rparr>"

definition tmpfs_filesystem :: "'h tmpfs_state nm_filesystem" where
  "tmpfs_filesystem = \<lparr>fsys_name = ''tmpfs'', fsys_ops = Some tmpfs_ops\<rparr>"

definition tmpfs_vnodes :: "'h allocator \<Rightarrow> 'h tmpfs_state vnode_mem" where
  "tmpfs_vnodes nm_alloc =
     \<lparr>vm_ops = (\<lambda>n f. if vn_ops (tm_nodes f ! n) then Some (tmpfs_file_ops nm_alloc) else None),
      vm_size = (\<lambda>n f. vn_size (tm_nodes f ! n))\<rparr>"

interpretation tmnodes: slot_table vn_used fresh_node alloc_node
  by unfold_locales (auto simp: fresh_node_def alloc_node_def split: option.splits)

section \<open>Invariant\<close>

fun chain :: "nm_vnode list \<Rightarrow> nat option \<Rightarrow> nat list \<Rightarrow> bool" where
  "chain nodes cur [] \<longleftrightarrow> cur = None"
| "chain nodes cur (c # cs) \<longleftrightarrow> cur = Some c \<and> chain nodes (vn_next_sibling (nodes ! c)) cs"

definition live :: "'h tmpfs_state \<Rightarrow> nat \<Rightarrow> bool" where
  "live f n \<longleftrightarrow> n < TMPFS_MAX_NODES \<and> vn_used (tm_nodes f ! n)"

definition is_file :: "'h tmpfs_state \<Rightarrow> nat \<Rightarrow> bool" where
  "is_file f n \<longleftrightarrow> live f n \<and> vn_type (tm_nodes f ! n) = NM_NODE_FILE"

text \<open>What is known of one node's block, and of one directory's list of entries.\<close>

definition data_ok :: "nm_vnode \<Rightarrow> bool" where
  "data_ok node \<longleftrightarrow> vn_size node \<le> vn_capacity node \<and> unat (vn_size node) < 2 ^ 63 \<and>
     (case vn_data node of None \<Rightarrow> vn_capacity node = 0 | Some d \<Rightarrow> length d = unat (vn_capacity node))"

definition entries :: "'h tmpfs_state \<Rightarrow> nat \<Rightarrow> nat list \<Rightarrow> bool" where
  "entries f d cs \<longleftrightarrow> chain (tm_nodes f) (vn_children (tm_nodes f ! d)) cs \<and> distinct cs \<and> (\<forall>c \<in> set cs. live f c)"

definition tm_ok :: "'h tmpfs_state \<Rightarrow> bool" where
  "tm_ok f \<longleftrightarrow> length (tm_nodes f) = TMPFS_MAX_NODES \<and>
     (\<forall>n. live f n \<longrightarrow> vn_ops (tm_nodes f ! n) \<and> data_ok (tm_nodes f ! n) \<and> (\<exists>cs. entries f n cs))"

definition node_bytes :: "nm_vnode \<Rightarrow> u8 list" where
  "node_bytes node = (case vn_data node of None \<Rightarrow> [] | Some d \<Rightarrow> take (unat (vn_size node)) d)"

definition tm_content :: "'h tmpfs_state \<Rightarrow> nat \<Rightarrow> u8 list" where
  "tm_content f n = node_bytes (tm_nodes f ! n)"

lemma name_eq_iff [simp]: "name_eq a b \<longleftrightarrow> a = b"
  by (induction a b rule: name_eq.induct) auto

lemma tm_okD:
  assumes "tm_ok f" "live f n"
  shows "n < length (tm_nodes f)" "vn_ops (tm_nodes f ! n)" "data_ok (tm_nodes f ! n)" "\<exists>cs. entries f n cs"
  using assms by (auto simp: tm_ok_def live_def)

lemma content_length: "data_ok (tm_nodes f ! n) \<Longrightarrow> length (tm_content f n) = unat (vn_size (tm_nodes f ! n))"
  by (auto simp: tm_content_def node_bytes_def data_ok_def word_le_nat_alt split: option.splits)

section \<open>Directories\<close>

lemma find_child_chain:
  "chain nodes cur cs \<Longrightarrow> length cs \<le> fuel \<Longrightarrow> find_child fuel nodes name cur = find (\<lambda>c. vn_name (nodes ! c) = name) cs"
proof (induction cs arbitrary: cur fuel)
  case Nil
  then show ?case by simp
next
  case (Cons c cs)
  then show ?case by (cases fuel) auto
qed

lemma chain_frame: "\<forall>c \<in> set cs. vn_next_sibling (nodes' ! c) = vn_next_sibling (nodes ! c) \<Longrightarrow> chain nodes' cur cs = chain nodes cur cs"
  by (induction cs arbitrary: cur) auto

lemma find_frame: "\<forall>c \<in> set cs. P c = Q c \<Longrightarrow> find P cs = find Q cs"
  by (induction cs) auto

lemma find_Some_set: "Some x = find P xs \<Longrightarrow> x \<in> set xs"
  by (induction xs) (auto split: if_splits)

lemma entries_length: "entries f d cs \<Longrightarrow> length cs \<le> TMPFS_MAX_NODES"
proof -
  assume e: "entries f d cs"
  then have "set cs \<subseteq> {..<TMPFS_MAX_NODES}" by (auto simp: entries_def live_def)
  then have "card (set cs) \<le> card {..<TMPFS_MAX_NODES}" by (intro card_mono) simp_all
  then show ?thesis using e by (simp add: entries_def distinct_card)
qed

lemma lookup_entries:
  assumes "entries f d cs" "vn_type (tm_nodes f ! d) = NM_NODE_DIR"
  shows "tmpfs_lookup d name f = find (\<lambda>c. vn_name (tm_nodes f ! c) = name) cs"
  using assms find_child_chain [OF _ entries_length [OF assms(1)]] by (auto simp: tmpfs_lookup_def entries_def)

lemma lookup_live:
  assumes "tm_ok f" "live f d" "tmpfs_lookup d name f = Some n"
  shows "live f n"
proof -
  obtain cs where cs: "entries f d cs" using tm_okD(4) [OF assms(1,2)] by auto
  have "vn_type (tm_nodes f ! d) = NM_NODE_DIR" using assms(3) by (auto simp: tmpfs_lookup_def split: if_splits)
  then show ?thesis using lookup_entries [OF cs, of name] assms(3) cs
    by (auto simp: entries_def dest!: find_Some_set)
qed

text \<open>An entry of a directory keeps its list when no node of the list and no list head changes.\<close>

lemma entries_frame:
  assumes "entries f d cs" "vn_children (tm_nodes f' ! d) = vn_children (tm_nodes f ! d)"
    and "\<And>c. live f c \<Longrightarrow> live f' c \<and> vn_next_sibling (tm_nodes f' ! c) = vn_next_sibling (tm_nodes f ! c)"
  shows "entries f' d cs"
  using assms chain_frame [of cs "tm_nodes f'" "tm_nodes f"] by (auto simp: entries_def)

text \<open>The new state of a successful create, with every node described.\<close>

lemma create_SomeD:
  assumes "tm_ok f" "live f d" "tmpfs_create d name ty mode f = (Some n, f')"
  shows "n < TMPFS_MAX_NODES" "\<not> vn_used (tm_nodes f ! n)" "n \<noteq> d" "length (tm_nodes f') = TMPFS_MAX_NODES"
    "vn_type (tm_nodes f ! d) = NM_NODE_DIR" "tmpfs_lookup d name f = None"
    "tm_nodes f' ! n = (fresh_node (tm_nodes f ! n))\<lparr>vn_ino := tm_next_ino f, vn_type := ty, vn_mode := mode, vn_parent := Some d,
       vn_ops := True, vn_name := tmpfs_copy_name name, vn_next_sibling := vn_children (tm_nodes f ! d)\<rparr>"
    "tm_nodes f' ! d = (tm_nodes f ! d)\<lparr>vn_children := Some n\<rparr>"
    "\<And>m. m \<noteq> n \<Longrightarrow> m \<noteq> d \<Longrightarrow> tm_nodes f' ! m = tm_nodes f ! m"
proof -
  have len: "length (tm_nodes f) = TMPFS_MAX_NODES" "d < TMPFS_MAX_NODES" "vn_used (tm_nodes f ! d)"
    using assms(1,2) by (auto simp: tm_ok_def live_def)
  obtain nodes where al: "alloc_node (tm_nodes f) = Some (n, nodes)" and t: "vn_type (tm_nodes f ! d) = NM_NODE_DIR"
    and lk: "tmpfs_lookup d name f = None"
    and f': "f' = upd_node d (\<lambda>d. d\<lparr>vn_children := Some n\<rparr>)
             (upd_node n (\<lambda>node. node\<lparr>vn_ino := tm_next_ino f, vn_type := ty, vn_mode := mode, vn_parent := Some d, vn_ops := True,
                 vn_name := tmpfs_copy_name name, vn_next_sibling := vn_children (nodes ! d)\<rparr>)
               (f\<lparr>tm_nodes := nodes, tm_next_ino := tm_next_ino f + 1\<rparr>))"
    using assms(3) by (auto simp: tmpfs_create_def split: if_splits option.splits)
  note a = tmnodes.alloc_SomeD [OF al]
  show n: "n < TMPFS_MAX_NODES" "\<not> vn_used (tm_nodes f ! n)" "n \<noteq> d" using a len by auto
  show "vn_type (tm_nodes f ! d) = NM_NODE_DIR" "tmpfs_lookup d name f = None" by (fact t lk)+
  show "length (tm_nodes f') = TMPFS_MAX_NODES" using a(3) len(1) f' by (simp add: upd_node_def)
  show "tm_nodes f' ! n = (fresh_node (tm_nodes f ! n))\<lparr>vn_ino := tm_next_ino f, vn_type := ty, vn_mode := mode, vn_parent := Some d,
       vn_ops := True, vn_name := tmpfs_copy_name name, vn_next_sibling := vn_children (tm_nodes f ! d)\<rparr>"
    using a(3) n len f' by (simp add: upd_node_def)
  show "tm_nodes f' ! d = (tm_nodes f ! d)\<lparr>vn_children := Some n\<rparr>" using a(3) n len f' by (simp add: upd_node_def)
  show "tm_nodes f' ! m = tm_nodes f ! m" if "m \<noteq> n" "m \<noteq> d" for m
    using a(3) n len f' that by (simp add: upd_node_def)
qed

lemma create_keeps:
  assumes "tm_ok f" "live f d" "tmpfs_create d name ty mode f = (Some n, f')" "m \<noteq> n"
  shows "tm_nodes f' ! m = (tm_nodes f ! m)\<lparr>vn_children := (if m = d then Some n else vn_children (tm_nodes f ! m))\<rparr>"
proof (cases "m = d")
  case True
  then show ?thesis using create_SomeD(8) [OF assms(1-3)] by simp
next
  case False
  then show ?thesis using create_SomeD(9) [OF assms(1-3) assms(4)] by simp
qed

lemma create_keeps_live:
  assumes "tm_ok f" "live f d" "tmpfs_create d name ty mode f = (Some n, f')" "live f m"
  shows "m \<noteq> n" "tm_nodes f' ! m = (tm_nodes f ! m)\<lparr>vn_children := (if m = d then Some n else vn_children (tm_nodes f ! m))\<rparr>"
proof -
  show "m \<noteq> n" using create_SomeD(2) [OF assms(1-3)] assms(4) by (auto simp: live_def)
  then show "tm_nodes f' ! m = (tm_nodes f ! m)\<lparr>vn_children := (if m = d then Some n else vn_children (tm_nodes f ! m))\<rparr>"
    by (rule create_keeps [OF assms(1-3)])
qed

lemma data_ok_children [simp]: "data_ok (node\<lparr>vn_children := c\<rparr>) = data_ok node"
  by (simp add: data_ok_def split: option.splits)

lemma create_live:
  assumes "tm_ok f" "live f d" "tmpfs_create d name ty mode f = (Some n, f')"
  shows "live f' m \<longleftrightarrow> live f m \<or> m = n"
proof -
  note c = create_SomeD [OF assms]
  have "vn_used (tm_nodes f' ! m) = (vn_used (tm_nodes f ! m) \<or> m = n)"
    using c(7) create_keeps [OF assms, of m] by (cases "m = n") (simp_all add: fresh_node_def)
  then show ?thesis using c(1) by (auto simp: live_def)
qed

lemma create_entries:
  assumes "tm_ok f" "live f d" "tmpfs_create d name ty mode f = (Some n, f')"
  shows "entries f d cs \<Longrightarrow> entries f' d (n # cs)" "live f m \<Longrightarrow> m \<noteq> d \<Longrightarrow> entries f m cs \<Longrightarrow> entries f' m cs"
    "entries f' n []"
proof -
  note c = create_SomeD [OF assms]
  have sib: "live f' m \<and> vn_next_sibling (tm_nodes f' ! m) = vn_next_sibling (tm_nodes f ! m)" if "live f m" for m
    using that create_keeps_live [OF assms that] create_live [OF assms, of m] by simp
  show "entries f' m cs" if "live f m" "m \<noteq> d" "entries f m cs"
    using that create_keeps_live [OF assms that(1)] by (intro entries_frame [OF that(3) _ sib]) simp_all
  show "entries f' n []" using c(7) by (simp add: entries_def fresh_node_def)
  assume e: "entries f d cs"
  have "n \<notin> set cs" using e c(2) by (auto simp: entries_def live_def)
  moreover have "chain (tm_nodes f') (vn_children (tm_nodes f ! d)) cs"
    using e sib chain_frame [of cs "tm_nodes f'" "tm_nodes f"] by (auto simp: entries_def)
  ultimately show "entries f' d (n # cs)" using e c(7,8) sib create_live [OF assms] by (auto simp: entries_def)
qed

lemma create_ok:
  assumes "tm_ok f" "live f d" "tmpfs_create d name ty mode f = (Some n, f')"
  shows "tm_ok f'"
proof -
  note c = create_SomeD [OF assms]
  have "vn_ops (tm_nodes f' ! m) \<and> data_ok (tm_nodes f' ! m) \<and> (\<exists>cs. entries f' m cs)" if "live f' m" for m
  proof (cases "m = n")
    case True
    then show ?thesis using c(7) create_entries(3) [OF assms] by (auto simp: data_ok_def fresh_node_def)
  next
    case False
    then have m: "live f m" using that create_live [OF assms] by simp
    obtain cs where cs: "entries f m cs" using tm_okD(4) [OF assms(1) m] by auto
    have "\<exists>cs. entries f' m cs" using create_entries(1,2) [OF assms] m cs by (cases "m = d") blast+
    then show ?thesis using tm_okD(2,3) [OF assms(1) m] create_keeps [OF assms False] by simp
  qed
  then show ?thesis using c(4) by (simp add: tm_ok_def)
qed

lemma create_lookup:
  assumes "tm_ok f" "live f d" "tmpfs_create d name ty mode f = (Some n, f')" "length name < NM_NAME_MAX"
  shows "tmpfs_lookup d name f' = Some n"
    "live f d' \<Longrightarrow> (d', name') \<noteq> (d, name) \<Longrightarrow> tmpfs_lookup d' name' f' = tmpfs_lookup d' name' f"
proof -
  note c = create_SomeD [OF assms(1-3)]
  have nm: "vn_name (tm_nodes f' ! n) = name" using c(7) assms(4) by (simp add: tmpfs_copy_name_def)
  obtain cs where cs: "entries f d cs" using tm_okD(4) [OF assms(1,2)] by auto
  have look: "tmpfs_lookup d x f' = find (\<lambda>c. vn_name (tm_nodes f' ! c) = x) (n # cs)" for x
    using lookup_entries [OF create_entries(1) [OF assms(1-3) cs], of x] c(5,8) by simp
  then show "tmpfs_lookup d name f' = Some n" using nm by simp
  have names: "vn_name (tm_nodes f' ! m) = vn_name (tm_nodes f ! m)" if "live f m" for m
    using create_keeps_live [OF assms(1-3) that] by simp
  have fr: "find (\<lambda>c. vn_name (tm_nodes f' ! c) = x) xs = find (\<lambda>c. vn_name (tm_nodes f ! c) = x) xs" if "\<forall>c \<in> set xs. live f c" for x xs
    using that names by (intro find_frame) auto
  assume d': "live f d'" "(d', name') \<noteq> (d, name)"
  show "tmpfs_lookup d' name' f' = tmpfs_lookup d' name' f"
  proof (cases "d' = d")
    case True
    have "tmpfs_lookup d name' f' = find (\<lambda>c. vn_name (tm_nodes f' ! c) = name') cs" using look nm True d'(2) by simp
    then show ?thesis using fr [of cs name'] cs lookup_entries [OF cs c(5)] True by (simp add: entries_def)
  next
    case False
    obtain es where es: "entries f d' es" using tm_okD(4) [OF assms(1) d'(1)] by auto
    have same: "tm_nodes f' ! d' = tm_nodes f ! d'" using create_keeps_live [OF assms(1-3) d'(1)] False by simp
    show ?thesis
    proof (cases "vn_type (tm_nodes f ! d') = NM_NODE_DIR")
      case True
      then show ?thesis
        using fr [of es name'] es lookup_entries [OF es True] lookup_entries [OF create_entries(2) [OF assms(1-3) d'(1) False es]] same
        by (simp add: entries_def)
    next
      case False
      then show ?thesis using same by (simp add: tmpfs_lookup_def)
    qed
  qed
qed

interpretation tmdir: dir_store "tmpfs_ops :: 'h tmpfs_state nm_fs_ops" tmpfs_create tm_ok live
proof
  show "fs_op_create (tmpfs_ops :: 'h tmpfs_state nm_fs_ops) = Some tmpfs_create" by (simp add: tmpfs_ops_def)
next
  fix f :: "'h tmpfs_state" and d name n
  assume "tm_ok f" "live f d" "fs_op_lookup tmpfs_ops d name f = Some n"
  then show "live f n" using lookup_live by (simp add: tmpfs_ops_def)
next
  fix f f' :: "'h tmpfs_state" and d name ty mode n
  assume a: "tm_ok f" "live f d" "length name < NM_NAME_MAX" "tmpfs_create d name ty mode f = (Some n, f')"
  note c = create_SomeD(6) [OF a(1,2,4)] create_ok [OF a(1,2,4)] create_live [OF a(1,2,4)] create_lookup [OF a(1,2,4,3)]
  show "tm_ok f' \<and> live f' n \<and> fs_op_lookup tmpfs_ops d name f = None \<and> fs_op_lookup tmpfs_ops d name f' = Some n \<and>
      (\<forall>m. live f m \<longrightarrow> live f' m) \<and>
      (\<forall>d' name'. live f d' \<longrightarrow> (d', name') \<noteq> (d, name) \<longrightarrow> fs_op_lookup tmpfs_ops d' name' f' = fs_op_lookup tmpfs_ops d' name' f)"
    using c by (simp add: tmpfs_ops_def)
next
  fix f f' :: "'h tmpfs_state" and d name ty mode
  assume "tmpfs_create d name ty mode f = (None, f')"
  then show "f' = f" by (auto simp: tmpfs_create_def split: if_splits option.splits)
qed

section \<open>File contents\<close>

lemma grow_fuel:
  assumes "0 < unat cap" "unat need < 2 ^ 63" "unat need \<le> unat cap * 2 ^ k"
  shows "\<exists>c. tmpfs_grow need cap = Some c \<and> need \<le> c \<and> cap \<le> c"
  using assms
proof (induction k arbitrary: cap)
  case 0
  then show ?case by (subst tmpfs_grow.simps) (auto simp: word_le_nat_alt word_less_nat_alt)
next
  case (Suc k)
  show ?case
  proof (cases "cap < need")
    case True
    then have d: "unat (cap * 2) = unat cap * 2"
      using Suc.prems(2) by (simp add: unat_mult64 word_less_nat_alt)
    then obtain c where c: "tmpfs_grow need (cap * 2) = Some c" "need \<le> c" "cap * 2 \<le> c"
      using Suc.IH [of "cap * 2"] Suc.prems by auto
    have "cap \<le> c" using c(3) d by (simp add: word_le_nat_alt)
    then show ?thesis using c(1,2) True by (subst tmpfs_grow.simps) simp
  next
    case False
    then show ?thesis by (subst tmpfs_grow.simps) simp
  qed
qed

text \<open>The capacity loop ends with a capacity that fits, for every need below \<open>2\<^sup>6\<^sup>3\<close>.\<close>

lemma grow_returns:
  assumes "cap \<noteq> 0" "unat need < 2 ^ 63"
  shows "\<exists>c. tmpfs_grow need cap = Some c \<and> need \<le> c \<and> cap \<le> c"
proof (rule grow_fuel [of cap need 63])
  show "0 < unat cap" using assms(1) by (simp add: unat_gt_0)
  then have "2 ^ 63 \<le> unat cap * 2 ^ 63" by simp
  then show "unat need \<le> unat cap * 2 ^ 63" using assms(2) by linarith
qed (rule assms(2))

lemma pow2_word_bound: "unat ((2 :: u64) ^ k) \<le> 2 ^ 63"
proof -
  have "unat ((2 :: u64) ^ k) = unat (of_nat (2 ^ k) :: u64)" by simp
  also have "\<dots> = take_bit 64 (2 ^ k)" by (simp only: unsigned_of_nat) simp
  also have "\<dots> \<le> 2 ^ 63" by (cases "k < 64") (simp_all add: take_bit_of_exp power_increasing [of k 63 "2 :: nat", simplified])
  finally show ?thesis .
qed

text \<open>Above \<open>2\<^sup>6\<^sup>3\<close> the doubled capacity wraps to zero before it fits, and the loop does not end.\<close>

lemma grow_diverges: "2 ^ 63 < unat need \<Longrightarrow> tmpfs_grow need (2 ^ k) = None"
proof (rule ccontr)
  assume need: "2 ^ 63 < unat need" and "tmpfs_grow need (2 ^ k) \<noteq> None"
  then obtain c where c: "tmpfs_grow need (2 ^ k) = Some c" by auto
  have "tmpfs_grow need cap = Some c \<Longrightarrow> 2 ^ 63 < unat need \<longrightarrow> cap \<notin> range ((^) 2)" for cap
  proof (rule tmpfs_grow.raw_induct [of "\<lambda>need cap c. 2 ^ 63 < unat need \<longrightarrow> cap \<notin> range ((^) 2)"], goal_cases)
    case (1 g need cap y)
    have small: "cap < need" if "cap \<in> range ((^) 2)" "2 ^ 63 < unat need"
      using that pow2_word_bound by (auto simp: word_less_nat_alt intro: le_less_trans)
    have dbl: "cap * 2 \<in> range ((^) 2)" if p: "cap \<in> range ((^) 2)"
    proof -
      obtain j where "cap = 2 ^ j" using p by auto
      then have "cap * 2 = 2 ^ Suc j" by simp
      then show ?thesis by blast
    qed
    show ?case using 1(2) [of need "cap * 2" y] 1(3) small dbl by (auto split: if_splits)
  qed
  then show False using c need by auto
qed

lemma data_update:
  assumes "tm_ok f" "live f n" "data_ok (tm_nodes f' ! n)"
    and "tm_nodes f' = (tm_nodes f)[n := (tm_nodes f ! n)\<lparr>vn_data := d, vn_size := s, vn_capacity := c\<rparr>]"
  shows "tm_ok f'" "is_file f' m = is_file f m" "m \<noteq> n \<Longrightarrow> tm_content f' m = tm_content f m"
    "vn_type (tm_nodes f' ! m) = vn_type (tm_nodes f ! m)" "live f' m = live f m"
proof -
  have n: "n < length (tm_nodes f)" by (rule tm_okD(1) [OF assms(1,2)])
  have nth: "tm_nodes f' ! m = (if m = n then (tm_nodes f ! n)\<lparr>vn_data := d, vn_size := s, vn_capacity := c\<rparr> else tm_nodes f ! m)" for m
    using assms(4) n by simp
  have lv: "live f' m = live f m" for m by (simp add: live_def nth)
  have en: "entries f' m cs" if "entries f m cs" for m cs
    by (rule entries_frame [OF that]) (simp_all add: nth lv)
  show "tm_ok f'" unfolding tm_ok_def
  proof (intro conjI allI impI)
    show "length (tm_nodes f') = TMPFS_MAX_NODES" using assms(1,4) by (simp add: tm_ok_def)
    fix m assume "live f' m"
    then have m: "live f m" using lv by simp
    show "vn_ops (tm_nodes f' ! m)" using tm_okD(2) [OF assms(1) m] nth [of m] by (cases "m = n") simp_all
    show "data_ok (tm_nodes f' ! m)" using tm_okD(3) [OF assms(1) m] assms(3) nth [of m] by (cases "m = n") simp_all
    show "\<exists>cs. entries f' m cs" using tm_okD(4) [OF assms(1) m] en by blast
  qed
  show "is_file f' m = is_file f m" "live f' m = live f m" by (simp_all add: is_file_def lv nth)
  show "m \<noteq> n \<Longrightarrow> tm_content f' m = tm_content f m" by (simp add: tm_content_def nth)
  show "vn_type (tm_nodes f' ! m) = vn_type (tm_nodes f ! m)" by (simp add: nth)
qed

lemma store_bytes_eq:
  "unat pos + length bs \<le> length data \<Longrightarrow> length data < 2 ^ 64 \<Longrightarrow>
   store_bytes data pos bs = Some (take (unat pos) data @ bs @ drop (unat pos + length bs) data)"
proof (induction bs arbitrary: data pos)
  case Nil
  then show ?case by simp
next
  case (Cons b bs)
  have p: "unat (pos + 1) = unat pos + 1" using Cons.prems by (intro unat_inc64) simp
  have l: "unat pos < length data" using Cons.prems by simp
  have t: "take (unat pos + 1) (data[unat pos := b]) = take (unat pos) data @ [b]"
    using l by (simp add: take_Suc_conv_app_nth)
  have "store_bytes (data[unat pos := b]) (pos + 1) bs =
      Some (take (unat (pos + 1)) (data[unat pos := b]) @ bs @ drop (unat (pos + 1) + length bs) (data[unat pos := b]))"
    using Cons.prems p by (intro Cons.IH) simp_all
  then show ?case using l t by (simp add: p)
qed

lemma reserve_spec:
  assumes "tm_ok f" "live f n" "unat need < 2 ^ 63"
  shows "\<exists>r f' d c. tmpfs_reserve nm_alloc n need f = Some (r, f') \<and>
    tm_nodes f' = (tm_nodes f)[n := (tm_nodes f ! n)\<lparr>vn_data := d, vn_size := vn_size (tm_nodes f ! n), vn_capacity := c\<rparr>] \<and>
    data_ok (tm_nodes f' ! n) \<and> tm_content f' n = tm_content f n \<and> (r = 0 \<and> need \<le> c \<or> r < 0)"
proof -
  let ?node = "tm_nodes f ! n"
  have n: "n < length (tm_nodes f)" and ok: "data_ok ?node" using tm_okD [OF assms(1,2)] by auto
  have same: "\<exists>r f' d c. tmpfs_reserve nm_alloc n need f = Some (r, f') \<and>
      tm_nodes f' = (tm_nodes f)[n := ?node\<lparr>vn_data := d, vn_size := vn_size ?node, vn_capacity := c\<rparr>] \<and>
      data_ok (tm_nodes f' ! n) \<and> tm_content f' n = tm_content f n \<and> (r = 0 \<and> need \<le> c \<or> r < 0)"
    if "tmpfs_reserve nm_alloc n need f = Some (r, f\<lparr>tm_heap := h\<rparr>)" "r = 0 \<and> need \<le> vn_capacity ?node \<or> r < 0" for r h
    using that ok by (intro exI [of _ r] exI [of _ "f\<lparr>tm_heap := h\<rparr>"] exI [of _ "vn_data ?node"] exI [of _ "vn_capacity ?node"])
      (simp add: tm_content_def)
  let ?cap = "if vn_capacity ?node \<noteq> 0 then vn_capacity ?node else 64"
  show ?thesis
  proof (cases "need \<le> vn_capacity ?node")
    case True
    then show ?thesis using same [of 0 "tm_heap f"] by (simp add: tmpfs_reserve_def)
  next
    case False
    obtain cap where cap: "tmpfs_grow need ?cap = Some cap" "need \<le> cap" "?cap \<le> cap"
    proof -
      have "?cap \<noteq> 0" by simp
      from grow_returns [OF this assms(3)] show thesis using that by blast
    qed
    obtain blk h where al: "nm_alloc cap (tm_heap f) = (blk, h)" by fastforce
    show ?thesis
    proof (cases blk)
      case None
      then show ?thesis using same [of "NM_ERR NM_ENOMEM" h] False cap al by (simp add: tmpfs_reserve_def)
    next
      case (Some block)
      let ?d = "copied_block ?node cap block"
      let ?f = "f\<lparr>tm_heap := h, tm_nodes := (tm_nodes f)[n := ?node\<lparr>vn_data := Some ?d, vn_capacity := cap\<rparr>]\<rparr>"
      have r: "tmpfs_reserve nm_alloc n need f = Some (0, ?f)"
        using False cap al Some by (simp add: tmpfs_reserve_def upd_node_def Let_def)
      have len: "length ?d = unat cap" by (simp add: copied_block_def)
      have sz: "vn_size ?node \<le> cap" using ok cap(3) by (auto simp: data_ok_def split: if_splits)
      have "take (unat (vn_size ?node)) ?d = tm_content f n"
        using ok sz by (intro nth_equalityI)
          (auto simp: copied_block_def tm_content_def node_bytes_def data_ok_def word_le_nat_alt split: option.splits)
      then have "tm_content ?f n = tm_content f n" using n by (simp add: tm_content_def node_bytes_def)
      moreover have "data_ok (tm_nodes ?f ! n)" using ok sz len n by (simp add: data_ok_def)
      ultimately show ?thesis using r cap(2)
        by (intro exI [of _ 0] exI [of _ ?f] exI [of _ "Some ?d"] exI [of _ cap]) simp
    qed
  qed
qed

lemma read_spec:
  assumes "tm_ok f" "is_file f n"
  shows "tmpfs_read n off len f = (int (length (take (unat len) (drop (unat off) (tm_content f n)))),
    take (unat len) (drop (unat off) (tm_content f n)))"
proof -
  let ?node = "tm_nodes f ! n" and ?c = "tm_content f n"
  have ok: "data_ok ?node" using tm_okD(3) assms by (auto simp: is_file_def)
  note cl = content_length [OF ok]
  show ?thesis
  proof (cases "off \<ge> vn_size ?node")
    case True
    then show ?thesis using assms(2) cl by (simp add: tmpfs_read_def is_file_def word_le_nat_alt)
  next
    case False
    define k where "k = (if len < vn_size ?node - off then len else vn_size ?node - off)"
    have sub: "unat (vn_size ?node - off) = unat (vn_size ?node) - unat off" using False by (intro unat_sub64) simp
    have k: "unat k = min (unat len) (unat (vn_size ?node) - unat off)"
      using sub by (auto simp: k_def word_less_nat_alt)
    have sz: "unat (vn_size ?node) < 2 ^ 63" "unat off < unat (vn_size ?node)"
      using ok False by (simp_all add: data_ok_def word_le_nat_alt)
    obtain d where d: "vn_data ?node = Some d" "?c = take (unat (vn_size ?node)) d"
      using sz ok by (cases "vn_data ?node") (auto simp: data_ok_def tm_content_def node_bytes_def word_le_nat_alt)
    have ld: "unat (vn_size ?node) \<le> length d" using ok d(1) by (simp add: data_ok_def word_le_nat_alt)
    have idx: "unat (off + of_nat i) = unat off + i" if "i < unat k" for i
    proof -
      have i: "i < unat (vn_size ?node) - unat off" using that k by simp
      then have "unat (of_nat i :: u64) = i" using sz by (intro unat_of_nat64) simp
      then show ?thesis using i sz by (subst unat_add64) simp_all
    qed
    have "map (\<lambda>i. d ! unat (off + of_nat i)) [0..<unat k] = take (unat len) (drop (unat off) ?c)"
      using k ld d(2) sz(2) by (intro nth_equalityI) (simp_all add: idx less_diff_conv add.commute)
    moreover have "s64 (uint k) = int (unat k)"
      using k sz by (intro s64_uint) simp
    moreover have "length (take (unat len) (drop (unat off) ?c)) = unat k" using k cl by simp
    ultimately show ?thesis using assms(2) False d(1) by (simp add: tmpfs_read_def is_file_def Let_def k_def [symmetric])
  qed
qed

lemma overwrites_block:
  assumes "off + length buf \<le> length d" "sz \<le> length d"
  shows "overwrites (take sz d) off buf (take (max sz (off + length buf)) (take off d @ buf @ drop (off + length buf) d))"
  unfolding overwrites_def
proof (intro exI conjI)
  let ?gap = "take (off - sz) (drop sz d)"
  show "length ?gap = off - length (take sz d)" using assms by simp
  have g: "take off (take sz d @ ?gap) = take off d"
  proof (cases "off \<le> sz")
    case False
    then have "take sz d @ ?gap = take off d" by (metis le_add_diff_inverse nat_le_linear take_add)
    then show ?thesis by simp
  qed (simp add: min_def)
  have "take (max sz (off + length buf)) (take off d @ buf @ drop (off + length buf) d)
      = take off d @ buf @ take (max sz (off + length buf) - (off + length buf)) (drop (off + length buf) d)"
    using assms by (simp add: min_absorb2)
  also have "take (max sz (off + length buf) - (off + length buf)) (drop (off + length buf) d) = drop (off + length buf) (take sz d)"
    by (simp add: drop_take max_def)
  finally show "take (max sz (off + length buf)) (take off d @ buf @ drop (off + length buf) d)
      = take off (take sz d @ ?gap) @ buf @ drop (off + length buf) (take sz d)" by (simp only: g)
qed

lemma write_spec:
  assumes "tm_ok f" "is_file f n" "unat off + length buf < 2 ^ 63"
  shows "\<exists>r f'. tmpfs_write nm_alloc n buf off f = Some (r, f') \<and> tm_ok f' \<and> (\<forall>m. is_file f' m = is_file f m) \<and>
    (\<forall>m. m \<noteq> n \<longrightarrow> is_file f m \<longrightarrow> tm_content f' m = tm_content f m) \<and>
    (r = int (length buf) \<and> overwrites (tm_content f n) (unat off) buf (tm_content f' n) \<or>
     r < 0 \<and> tm_content f' n = tm_content f n)"
proof -
  have lv: "live f n" "vn_type (tm_nodes f ! n) = NM_NODE_FILE" using assms(2) by (auto simp: is_file_def)
  have n: "n < length (tm_nodes f)" by (rule tm_okD(1) [OF assms(1) lv(1)])
  define len where "len = (of_nat (length buf) :: u64)"
  have ln: "unat len = length buf" "unat (off + len) = unat off + length buf"
    using assms(3) by (simp_all add: len_def unat_of_nat64 unat_add64)
  obtain r f1 d c where r: "tmpfs_reserve nm_alloc n (off + len) f = Some (r, f1)"
    and f1: "tm_nodes f1 = (tm_nodes f)[n := (tm_nodes f ! n)\<lparr>vn_data := d, vn_size := vn_size (tm_nodes f ! n), vn_capacity := c\<rparr>]"
    and ok1: "data_ok (tm_nodes f1 ! n)" and c1: "tm_content f1 n = tm_content f n" and rc: "r = 0 \<and> off + len \<le> c \<or> r < 0"
    using reserve_spec [OF assms(1) lv(1), of "off + len" nm_alloc] ln(2) assms(3) by auto
  note u1 = data_update [OF assms(1) lv(1) ok1 f1]
  show ?thesis
  proof (cases "r = 0")
    case False
    then have "tmpfs_write nm_alloc n buf off f = Some (NM_ERR NM_EFAIL, f1)"
      using lv(2) r by (simp add: tmpfs_write_def len_def)
    then show ?thesis using u1 c1 by auto
  next
    case True
    have cap: "unat off + length buf \<le> unat c" using rc True ln(2) by (simp add: word_le_nat_alt)
    let ?nd = "tm_nodes f1 ! n"
    have nd: "vn_data ?nd = d" "vn_capacity ?nd = c" using f1 n by simp_all
    have n1: "n < length (tm_nodes f1)" "live f1 n" using u1(5) lv f1 n by simp_all
    define s where "s = (if off + len > vn_size ?nd then off + len else vn_size ?nd)"
    have s: "unat s = max (unat (vn_size ?nd)) (unat off + length buf)"
      using ln(2) by (auto simp: s_def word_less_nat_alt)
    have rl: "s64 (uint len) = int (length buf)" using assms(3) ln(1) s64_uint [of len] by simp
    have fin: "\<exists>f'. tmpfs_write nm_alloc n buf off f = Some (int (length buf), f') \<and> tm_ok f' \<and> (\<forall>m. is_file f' m = is_file f m) \<and>
        (\<forall>m. m \<noteq> n \<longrightarrow> is_file f m \<longrightarrow> tm_content f' m = tm_content f m) \<and>
        tm_content f' n = (case d' of None \<Rightarrow> [] | Some x \<Rightarrow> take (unat s) x)"
      if w: "(case d of None \<Rightarrow> if buf = [] then Some None else None | Some x \<Rightarrow> map_option Some (store_bytes x off buf)) = Some d'"
        and ok: "data_ok (?nd\<lparr>vn_data := d', vn_size := s\<rparr>)" for d'
    proof -
      let ?f = "upd_node n (\<lambda>nd. nd\<lparr>vn_data := d', vn_size := s\<rparr>) f1"
      have nodes: "tm_nodes ?f = (tm_nodes f1)[n := ?nd\<lparr>vn_data := d', vn_size := s, vn_capacity := vn_capacity ?nd\<rparr>]"
        by (simp add: upd_node_def)
      have okf: "data_ok (tm_nodes ?f ! n)" using ok n1 by (simp add: upd_node_def)
      note u2 = data_update [OF u1(1) n1(2) okf nodes]
      have "tmpfs_write nm_alloc n buf off f = Some (int (length buf), ?f)"
        using lv(2) r True w rl nd unfolding tmpfs_write_def Let_def len_def [symmetric]
        by (simp add: s_def upd_node_def)
      moreover have "tm_content ?f n = (case d' of None \<Rightarrow> [] | Some x \<Rightarrow> take (unat s) x)"
        using n1 by (simp add: tm_content_def node_bytes_def upd_node_def split: option.splits)
      ultimately show ?thesis using u1 u2 by (intro exI [of _ ?f]) auto
    qed
    show ?thesis
    proof (cases d)
      case None
      then have z: "c = 0" "vn_size ?nd = 0" "buf = []" "unat off = 0"
        using ok1 nd cap by (auto simp: data_ok_def)
      have "data_ok (?nd\<lparr>vn_data := None, vn_size := s\<rparr>)" using z s nd by (simp add: data_ok_def word_le_nat_alt)
      then obtain f' where "tmpfs_write nm_alloc n buf off f = Some (int (length buf), f')" "tm_ok f'" "\<forall>m. is_file f' m = is_file f m"
        "\<forall>m. m \<noteq> n \<longrightarrow> is_file f m \<longrightarrow> tm_content f' m = tm_content f m" "tm_content f' n = []"
        using fin [of None] None z(3) by auto
      moreover have "tm_content f n = []" using c1 nd None by (simp add: tm_content_def node_bytes_def)
      ultimately show ?thesis using z by (auto simp: overwrites_def)
    next
      case (Some x)
      have x: "length x = unat c" "unat (vn_size ?nd) \<le> length x"
        using ok1 nd Some by (simp_all add: data_ok_def word_le_nat_alt)
      let ?x = "take (unat off) x @ buf @ drop (unat off + length buf) x"
      have st: "store_bytes x off buf = Some ?x"
        using cap x unat_bound64 [of c] by (intro store_bytes_eq) simp_all
      have okx: "data_ok (?nd\<lparr>vn_data := Some ?x, vn_size := s\<rparr>)"
        using ok1 nd x cap s assms(3) by (auto simp: data_ok_def word_le_nat_alt)
      obtain f' where f': "tmpfs_write nm_alloc n buf off f = Some (int (length buf), f')" "tm_ok f'" "\<forall>m. is_file f' m = is_file f m"
        "\<forall>m. m \<noteq> n \<longrightarrow> is_file f m \<longrightarrow> tm_content f' m = tm_content f m" "tm_content f' n = take (unat s) ?x"
        using fin [of "Some ?x"] st Some okx by auto
      have "overwrites (tm_content f n) (unat off) buf (tm_content f' n)"
        using overwrites_block [of "unat off" buf x "unat (vn_size ?nd)"] cap x c1 f'(5) s nd Some
        by (simp add: tm_content_def node_bytes_def)
      then show ?thesis using f'(1-4) by blast
    qed
  qed
qed

text \<open>A write touches the block of its node and nothing else; it fails only for want of memory.\<close>

lemma write_frame:
  assumes "tmpfs_write nm_alloc n buf off f = Some (r, f')" "n < length (tm_nodes f)"
  shows "\<exists>d sz c. tm_nodes f' = (tm_nodes f)[n := (tm_nodes f ! n)\<lparr>vn_data := d, vn_size := sz, vn_capacity := c\<rparr>]"
proof -
  let ?g = "\<lambda>d sz c. (tm_nodes f)[n := (tm_nodes f ! n)\<lparr>vn_data := d, vn_size := sz, vn_capacity := c\<rparr>]"
  have same: "?g (vn_data (tm_nodes f ! n)) (vn_size (tm_nodes f ! n)) (vn_capacity (tm_nodes f ! n)) = tm_nodes f" by simp
  show ?thesis
  proof (cases "vn_type (tm_nodes f ! n) = NM_NODE_FILE")
    case False
    then have "f' = f" using assms(1) by (simp add: tmpfs_write_def Let_def)
    then show ?thesis using same by metis
  next
    case True
    then obtain q f1 where r: "tmpfs_reserve nm_alloc n (off + of_nat (length buf)) f = Some (q, f1)"
      using assms(1) by (auto simp: tmpfs_write_def Let_def split: option.splits)
    have "tm_nodes f1 = tm_nodes f \<or> (\<exists>d c. tm_nodes f1 = (tm_nodes f)[n := (tm_nodes f ! n)\<lparr>vn_data := d, vn_capacity := c\<rparr>])"
      using r by (auto simp: tmpfs_reserve_def Let_def upd_node_def split: if_splits option.splits prod.splits) blast+
    moreover have "(tm_nodes f)[n := (tm_nodes f ! n)\<lparr>vn_data := d, vn_capacity := c\<rparr>] = ?g d (vn_size (tm_nodes f ! n)) c" for d c by simp
    ultimately have "\<exists>d c. tm_nodes f1 = ?g d (vn_size (tm_nodes f ! n)) c" using same by metis
    then obtain d c where f1: "tm_nodes f1 = ?g d (vn_size (tm_nodes f ! n)) c" by blast
    show ?thesis
    proof (cases "q = 0")
      case False
      then have "f' = f1" using assms(1) True r by (simp add: tmpfs_write_def Let_def)
      then show ?thesis using f1 by blast
    next
      case q: True
      then obtain d' sz where "f' = upd_node n (\<lambda>nd. nd\<lparr>vn_data := d', vn_size := sz\<rparr>) f1"
        using assms(1) True r by (auto simp: tmpfs_write_def Let_def upd_node_def split: option.splits)
      moreover have "nd\<lparr>vn_capacity := c, vn_data := d', vn_size := sz\<rparr> = nd\<lparr>vn_data := d', vn_size := sz, vn_capacity := c\<rparr>" for nd :: nm_vnode
        by (cases nd) simp
      ultimately have "tm_nodes f' = ?g d' sz c" using f1 assms(2) by (simp add: upd_node_def)
      then show ?thesis by blast
    qed
  qed
qed

lemma write_keeps_names:
  assumes "tm_nodes f' = (tm_nodes f)[n := (tm_nodes f ! n)\<lparr>vn_data := d, vn_size := sz, vn_capacity := c\<rparr>]"
  shows "tmpfs_lookup k name f' = tmpfs_lookup k name f" "live f' m \<longleftrightarrow> live f m"
proof -
  have nth: "vn_name (tm_nodes f' ! j) = vn_name (tm_nodes f ! j)" "vn_next_sibling (tm_nodes f' ! j) = vn_next_sibling (tm_nodes f ! j)"
    "vn_children (tm_nodes f' ! j) = vn_children (tm_nodes f ! j)" "vn_type (tm_nodes f' ! j) = vn_type (tm_nodes f ! j)"
    "vn_used (tm_nodes f' ! j) = vn_used (tm_nodes f ! j)" for j
    by (cases "j = n"; cases "n < length (tm_nodes f)"; simp add: assms list_update_beyond)+
  have "find_child fuel (tm_nodes f') name cur = find_child fuel (tm_nodes f) name cur" for fuel cur
    by (induction fuel "tm_nodes f" name cur rule: find_child.induct) (simp_all add: nth)
  then show "tmpfs_lookup k name f' = tmpfs_lookup k name f" "live f' m \<longleftrightarrow> live f m"
    by (simp_all add: tmpfs_lookup_def nth live_def)
qed

lemma write_succeeds:
  assumes "\<forall>k h. fst (nm_alloc k h) \<noteq> None" "tmpfs_write nm_alloc n buf off f = Some (r, f')" "is_file f n" "length buf < 2 ^ 63"
  shows "0 \<le> r"
proof -
  obtain q f1 where q: "tmpfs_reserve nm_alloc n (off + of_nat (length buf)) f = Some (q, f1)"
    using assms(2,3) by (auto simp: tmpfs_write_def is_file_def Let_def split: option.splits)
  have "nm_alloc k h \<noteq> (None, h')" for k h h' using assms(1) by (metis fst_conv)
  then have "q = 0" using q by (auto simp: tmpfs_reserve_def Let_def split: if_splits option.splits prod.splits)
  then have "r = s64 (uint (of_nat (length buf) :: u64))"
    using assms(2,3) q by (auto simp: tmpfs_write_def is_file_def Let_def split: option.splits)
  then show ?thesis using assms(4) s64_uint [of "of_nat (length buf)"] by (simp add: unat_of_nat64)
qed

text \<open>The first write to a new file asks for 64 bytes when it has no more than these.\<close>

lemma first_write:
  assumes "is_file f n" "vn_capacity (tm_nodes f ! n) = 0" "buf \<noteq> []" "length buf \<le> 64" "tmpfs_write nm_alloc n buf 0 f = Some (r, f')"
  shows "tm_heap f' = snd (nm_alloc 64 (tm_heap f))" "0 \<le> r \<longleftrightarrow> fst (nm_alloc 64 (tm_heap f)) \<noteq> None"
proof -
  let ?len = "of_nat (length buf) :: u64"
  have len: "unat ?len = length buf" using assms(4) by (intro unat_of_nat64) simp
  then have "\<not> ?len \<le> 0" "?len \<le> 64" using assms(3,4) by (simp_all add: word_le_nat_alt)
  moreover have "tmpfs_grow ?len 64 = Some 64" using \<open>?len \<le> 64\<close> by (subst tmpfs_grow.simps) (auto dest: leD)
  moreover obtain b h where a: "nm_alloc 64 (tm_heap f) = (b, h)" by (meson surj_pair)
  ultimately have "tmpfs_reserve nm_alloc n ?len f = (case b of None \<Rightarrow> Some (NM_ERR NM_ENOMEM, f\<lparr>tm_heap := h\<rparr>)
      | Some block \<Rightarrow> Some (0, upd_node n (\<lambda>nd. nd\<lparr>vn_data := Some (copied_block nd 64 block), vn_capacity := 64\<rparr>) (f\<lparr>tm_heap := h\<rparr>)))"
    using assms(2) by (simp add: tmpfs_reserve_def Let_def)
  moreover have "s64 (uint ?len) = int (length buf)" using s64_uint [of ?len] len assms(4) by simp
  ultimately show "tm_heap f' = snd (nm_alloc 64 (tm_heap f))" "0 \<le> r \<longleftrightarrow> fst (nm_alloc 64 (tm_heap f)) \<noteq> None"
    using assms(1,5) a by (auto simp: tmpfs_write_def is_file_def upd_node_def Let_def NM_ERR_def split: option.splits)
qed

interpretation tmfile: file_store "tmpfs_vnodes nm_alloc" tm_ok is_file tm_content tmpfs_read "tmpfs_write nm_alloc" for nm_alloc :: "'a allocator"
proof
  fix f :: "'a tmpfs_state" and n assume a: "tm_ok f" "is_file f n"
  note ok = tm_okD [OF a(1)] a(2) [unfolded is_file_def]
  show "\<exists>ops. vm_ops (tmpfs_vnodes nm_alloc) n f = Some ops \<and> op_read ops = Some tmpfs_read \<and> op_write ops = Some (tmpfs_write nm_alloc)"
    using ok by (simp add: tmpfs_vnodes_def tmpfs_file_ops_def)
  show "unat (vm_size (tmpfs_vnodes nm_alloc) n f) = length (tm_content f n)"
    using ok content_length [of f n] by (simp add: tmpfs_vnodes_def)
  show "length (tm_content f n) < 2 ^ 63" using ok content_length [of f n] by (simp add: data_ok_def)
qed (rule read_spec, assumption+, rule write_spec, assumption+)

section \<open>Through the virtual file system\<close>

lemma opened_file_tmpfs:
  "opened_file tm_ok is_file st f fd n pos \<Longrightarrow> tm_ok f \<and> live f n \<and> vn_type (tm_nodes f ! n) = NM_NODE_FILE"
  by (simp add: opened_file_def is_file_def)

lemma resolve_path_cong:
  "root_vnode st1 = root_vnode st \<Longrightarrow> root_fs st1 = root_fs st \<Longrightarrow> resolve_path st1 f p b = resolve_path st f p b"
  by (simp add: resolve_path_def)

lemma open_node_cong:
  "root_vnode st1 = root_vnode st \<Longrightarrow> root_fs st1 = root_fs st \<Longrightarrow> open_node p flags st1 f = open_node p flags st f"
  using resolve_path_cong [of st1 st f "Some p"]
  by (cases "fst (resolve_path st f (Some p) False)") (simp_all add: open_node_def)

text \<open>What \<^verbatim>\<open>fs_open\<close> does once the vnode is found: the descriptor it returns is open on it at offset 0.\<close>

lemma fs_open_found:
  assumes "open_node p flags st f = (Some n, f1)" "tm_ok f1" "live f1 n" "length (file_table st) = NM_FD_MAX"
    "fs_open (tmpfs_vnodes nm_alloc) (Some p) flags mode st f = (fd, st', f')"
  shows "f' = f1" "root_vnode st' = root_vnode st" "root_fs st' = root_fs st"
    "fd \<ge> 0 \<Longrightarrow> is_file f1 n \<Longrightarrow> opened_file tm_ok is_file st' f' fd n 0"
    "fd \<ge> 0 \<Longrightarrow> \<not> f_used (file_table st ! nat fd)"
    "fd < 0 \<longleftrightarrow> count_if f_used (file_table st) = NM_FD_MAX" "length (file_table st') = NM_FD_MAX"
proof -
  have ops: "vm_ops (tmpfs_vnodes nm_alloc) n f1 = Some (tmpfs_file_ops nm_alloc)"
    using tm_okD(2) [OF assms(2,3)] by (simp add: tmpfs_vnodes_def)
  have goals: "f' = f1 \<and> root_vnode st' = root_vnode st \<and> root_fs st' = root_fs st \<and>
    (fd \<ge> 0 \<longrightarrow> is_file f1 n \<longrightarrow> opened_file tm_ok is_file st' f' fd n 0) \<and>
    (fd \<ge> 0 \<longrightarrow> \<not> f_used (file_table st ! nat fd)) \<and>
    (fd < 0 \<longleftrightarrow> count_if f_used (file_table st) = NM_FD_MAX) \<and> length (file_table st') = NM_FD_MAX"
  proof (cases "alloc_fd (file_table st)")
    case None
    then have "fs_open (tmpfs_vnodes nm_alloc) (Some p) flags mode st f = (NM_ERR NM_EFAIL, st, f1)"
      using assms(1) ops by (simp add: fs_open_def)
    then show ?thesis using None assms(4,5) by (auto simp: vfiles.alloc_None_iff)
  next
    case (Some a)
    then obtain i table where a: "alloc_fd (file_table st) = Some (i, table)" by (cases a) auto
    note al = vfiles.alloc_SomeD [OF a]
    have "count_if f_used (file_table st) \<noteq> NM_FD_MAX" using a vfiles.alloc_None_iff [of "file_table st"] assms(4) by auto
    moreover have "fs_open (tmpfs_vnodes nm_alloc) (Some p) flags mode st f =
        (int i, st\<lparr>file_table := table[i := (table ! i)\<lparr>f_vnode := Some n, f_flags := flags, f_offset := 0\<rparr>]\<rparr>, f1)"
      using assms(1) ops a by (simp add: fs_open_def tmpfs_file_ops_def tmpfs_open_def)
    ultimately show ?thesis
      using assms(2-5) al by (auto simp: opened_file_def open_file_def fresh_file_def)
  qed
  then show "f' = f1" "root_vnode st' = root_vnode st" "root_fs st' = root_fs st"
    "fd \<ge> 0 \<Longrightarrow> is_file f1 n \<Longrightarrow> opened_file tm_ok is_file st' f' fd n 0"
    "fd \<ge> 0 \<Longrightarrow> \<not> f_used (file_table st ! nat fd)"
    "fd < 0 \<longleftrightarrow> count_if f_used (file_table st) = NM_FD_MAX" "length (file_table st') = NM_FD_MAX" by auto
qed


text \<open>
  Opening a path that does not exist with the create flag: when \<^verbatim>\<open>fs_open\<close> on tmpfs succeeds, its
  descriptor is open at offset 0 on a new, empty regular file, no existing file changed, the
  invariant of the node table is kept, and a later \<^verbatim>\<open>fs_open\<close> of the same path with any flags opens the same
  file on another descriptor (it fails only when the descriptor table is full).
\<close>

theorem tmpfs_create_then_open:
  assumes "tm_ok f" "mounted tmpfs_ops root st" "live f root" "length (file_table st) = NM_FD_MAX" "good_path p"
    and "fst (resolve_path st f (Some p) False) = None" "flags AND NM_O_CREAT \<noteq> 0"
    and "fs_open (tmpfs_vnodes nm_alloc) (Some p) flags mode st f = (fd, st1, f1)" "0 \<le> fd"
  shows "\<exists>n. \<not> live f n \<and> tm_ok f1 \<and> opened_file tm_ok is_file st1 f1 fd n 0 \<and> tm_content f1 n = [] \<and>
    (\<forall>m. is_file f m \<longrightarrow> is_file f1 m \<and> tm_content f1 m = tm_content f m) \<and>
    (\<forall>flags' mode' fd' st2 f2. fs_open (tmpfs_vnodes nm_alloc) (Some p) flags' mode' st1 f1 = (fd', st2, f2) \<longrightarrow>
       f2 = f1 \<and> (fd' < 0 \<longleftrightarrow> count_if f_used (file_table st1) = NM_FD_MAX) \<and>
       (0 \<le> fd' \<longrightarrow> fd' \<noteq> fd \<and> opened_file tm_ok is_file st2 f2 fd' n 0))"
proof -
  let ?ps = "path_parts p" and ?lk = "\<lambda>f d name. tmpfs_lookup d name f"
  obtain n f' where on: "open_node p flags st f = (Some n, f')"
    using assms(8,9) by (cases "open_node p flags st f") (auto simp: fs_open_def split: option.splits)
  obtain d where d: "walk (\<lambda>d name. fs_op_lookup tmpfs_ops d name f) root (butlast ?ps) = Some d"
    and cr: "tmpfs_create d (last ?ps) NM_NODE_FILE 0x1A4 f = (Some n, f')"
    using on assms(2,6,7) resolve_good(2) [OF assms(2,5), of f]
    by (auto simp: open_node_def mounted_def tmdir.create_op split: option.splits if_splits)
  have ld: "live f d" by (rule tmdir.walk_node [OF assms(1,3) d])
  note c = create_SomeD [OF assms(1) ld cr] and ok = create_ok [OF assms(1) ld cr] and lv = create_live [OF assms(1) ld cr]
  have lk: "fs_op_lookup tmpfs_ops d (last ?ps) f = None" using c(6) by (simp add: tmpfs_ops_def)
  note oc = tmdir.open_creates [OF assms(1,2,3,5) d lk assms(7) cr]
  have fl: "is_file f' n" "tm_content f' n = []"
    using c(7) lv [of n] by (simp_all add: is_file_def tm_content_def node_bytes_def fresh_node_def)
  note fo = fs_open_found [OF on ok oc(4) assms(4) assms(8)]
  have keep: "is_file f1 m \<and> tm_content f1 m = tm_content f m" if "is_file f m" for m
    using that create_keeps_live [OF assms(1) ld cr, of m] lv [of m] fo(1)
    by (simp add: is_file_def tm_content_def node_bytes_def split: option.splits)
  have op: "opened_file tm_ok is_file st1 f1 fd n 0" by (rule fo(4) [OF assms(9) fl(1)])
  have again: "f2 = f1 \<and> (fd' < 0 \<longleftrightarrow> count_if f_used (file_table st1) = NM_FD_MAX) \<and>
      (0 \<le> fd' \<longrightarrow> fd' \<noteq> fd \<and> opened_file tm_ok is_file st2 f2 fd' n 0)"
    if "fs_open (tmpfs_vnodes nm_alloc) (Some p) flags' mode' st1 f1 = (fd', st2, f2)" for flags' mode' fd' st2 f2
  proof -
    have "open_node p flags' st1 f1 = (Some n, f1)"
      using oc(2) [of flags'] fo(1) open_node_cong [OF fo(2,3), of p flags' f'] by simp
    from fs_open_found [OF this _ _ fo(7) that] op ok oc(4) fl(1) fo(1)
    show ?thesis by (auto simp: opened_file_def open_file_def split: if_splits)
  qed
  show ?thesis using c(2) ok fl(2) op keep again fo(1) by (intro exI [of _ n]) (auto simp: live_def)
qed

text \<open>
  Mounting tmpfs from any state of the node table gives a well-formed file system whose root is an
  empty directory: every lookup in it finds nothing.
\<close>

theorem tmpfs_mount_root_correct:
  assumes "length (tm_nodes f) = TMPFS_MAX_NODES" "fs_mount_root (Some tmpfs_filesystem) st f = (r, st1, f1)"
  shows "r = 0 \<and> tm_ok f1 \<and> root_vnode st1 = Some 0 \<and> mounted tmpfs_ops 0 st1 \<and> (\<forall>n. live f1 n \<longleftrightarrow> n = 0) \<and>
    vn_type (tm_nodes f1 ! 0) = NM_NODE_DIR \<and> tmpfs_lookup 0 name f1 = None \<and> tmpfs_stat 0 f1 = (0, \<lparr>st_ino = 1, st_size = 0, st_mode = 0x1ED, st_uid = 0, st_gid = 0, st_nlink = 1, st_blocks = 0\<rparr>)"
proof -
  let ?clr = "map (\<lambda>node. node\<lparr>vn_used := False\<rparr>) (tm_nodes f)"
  have len: "0 < length ?clr" using assms(1) by (simp add: TMPFS_MAX_NODES_def)
  then have "\<not> vn_used (?clr ! 0)" by simp
  then obtain nodes where al: "alloc_node ?clr = Some (0, nodes)"
    using tmnodes.alloc_possible [OF len] by auto
  note a = tmnodes.alloc_SomeD [OF al]
  define g where "g = (\<lambda>node. (fresh_node node)\<lparr>vn_ino := 1, vn_type := NM_NODE_DIR, vn_mode := 0x1ED, vn_name := tmpfs_copy_name ''/'', vn_ops := True\<rparr>)"
  have m: "tmpfs_mount_root f = (Some 0, f\<lparr>tm_nodes := ?clr[0 := g (?clr ! 0)], tm_next_ino := 2, tm_root := Some 0\<rparr>)"
    using al a len by (simp add: tmpfs_mount_root_def upd_node_def g_def)
  then have f1: "r = 0" "st1 = st\<lparr>root_fs := Some tmpfs_filesystem, root_vnode := Some 0\<rparr>" "tm_nodes f1 = ?clr[0 := g (?clr ! 0)]"
    using assms(2) by (auto simp: fs_mount_root_def tmpfs_filesystem_def tmpfs_ops_def)
  have root: "tm_nodes f1 ! 0 = g (?clr ! 0)" using f1(3) len by simp
  have lv: "live f1 n \<longleftrightarrow> n = 0" for n
    using f1(3) len assms(1) by (auto simp: live_def g_def fresh_node_def nth_list_update)
  have en: "entries f1 0 []" using root by (simp add: entries_def g_def fresh_node_def)
  have dt: "vn_type (tm_nodes f1 ! 0) = NM_NODE_DIR" using root by (simp add: g_def)
  have "vn_ops (tm_nodes f1 ! 0) \<and> data_ok (tm_nodes f1 ! 0)" using root by (simp add: g_def fresh_node_def data_ok_def)
  then have "tm_ok f1" using lv en f1(3) assms(1) by (auto simp: tm_ok_def)
  moreover have "mounted tmpfs_ops 0 st1" using f1(2) by (simp add: mounted_def tmpfs_filesystem_def)
  moreover have "tmpfs_lookup 0 name f1 = None" using lookup_entries [OF en dt] by simp
  moreover have "tmpfs_stat 0 f1 = (0, \<lparr>st_ino = 1, st_size = 0, st_mode = 0x1ED, st_uid = 0, st_gid = 0, st_nlink = 1, st_blocks = 0\<rparr>)"
    using root by (simp add: tmpfs_stat_def g_def fresh_node_def)
  ultimately show ?thesis using f1(1,2) lv dt by simp
qed

text \<open>
  C40: \<^verbatim>\<open>fs_lseek\<close> accepts every position up to \<open>2\<^sup>6\<^sup>3 - 1\<close>, but a write there does not return: on a file
  that has no block yet, once offset and length together exceed \<open>2\<^sup>6\<^sup>3\<close> the doubling loop of
  \<^verbatim>\<open>tmpfs_reserve\<close> runs forever, its capacity having wrapped to zero.
\<close>

theorem tmpfs_write_far_seek_hangs:
  assumes "opened_file tm_ok is_file st f fd n pos" "vn_capacity (tm_nodes f ! n) = 0" "2 \<le> length buf" "length buf < 2 ^ 63"
  shows "\<exists>st1. fs_lseek (tmpfs_vnodes nm_alloc) fd (2 ^ 63 - 1) 0 st f = (2 ^ 63 - 1, st1) \<and>
    tmpfs_grow (2 ^ 63 - 1 + of_nat (length buf)) 64 = None \<and>
    fs_write (tmpfs_vnodes nm_alloc) fd (Some buf) st1 f = None"
proof -
  obtain st1 where s: "fs_lseek (tmpfs_vnodes nm_alloc) fd (2 ^ 63 - 1) 0 st f = (2 ^ 63 - 1, st1)"
    "opened_file tm_ok is_file st1 f fd n (2 ^ 63 - 1)"
    using tmfile.seek_open [OF assms(1), of "2 ^ 63 - 1" nm_alloc] by auto
  let ?off = "2 ^ 63 - 1 :: u64" and ?len = "of_nat (length buf) :: u64"
  have len: "unat ?len = length buf" using assms(4) by (intro unat_of_nat64) simp
  have need: "unat (?off + ?len) = 2 ^ 63 - 1 + length buf"
    using assms(4) len by (subst unat_add64) simp_all
  have g: "tmpfs_grow (?off + ?len) 64 = None"
    using grow_diverges [of "?off + ?len" 6] need assms(3) by simp
  note e = tmfile.opened_entry [OF s(2)]
  have off: "f_offset (file_table st1 ! nat fd) = ?off" using e(6) by (intro word_unat_eq_iff [THEN iffD2]) simp
  have "tmpfs_reserve nm_alloc n (?off + ?len) f = None"
    using assms(2) g need by (simp add: tmpfs_reserve_def word_le_nat_alt)
  then have "tmpfs_write nm_alloc n buf ?off f = None"
    using e(8) by (simp add: tmpfs_write_def is_file_def)
  then have "fs_write (tmpfs_vnodes nm_alloc) fd (Some buf) st1 f = None"
    using e(4,5,7,8) off tm_okD(2) [of f n] by (simp add: fs_write_def tmpfs_vnodes_def tmpfs_file_ops_def is_file_def)
  then show ?thesis using s(1) g by blast
qed

section \<open>Witnesses\<close>

definition blank_vnode :: nm_vnode where
  "blank_vnode = \<lparr>vn_used = False, vn_ino = 0, vn_type = NM_NODE_NONE, vn_name = [], vn_uid = 0, vn_gid = 0, vn_mode = 0,
     vn_parent = None, vn_children = None, vn_next_sibling = None, vn_data = None, vn_size = 0, vn_capacity = 0, vn_ops = False\<rparr>"

definition boot_tmpfs :: "unit tmpfs_state" where
  "boot_tmpfs = \<lparr>tm_nodes = replicate TMPFS_MAX_NODES blank_vnode, tm_next_ino = 2, tm_root = None, tm_heap = ()\<rparr>"

definition boot_vfs :: "'f vfs_state" where
  "boot_vfs = \<lparr>file_table = replicate NM_FD_MAX \<lparr>f_used = False, f_flags = 0, f_offset = 0, f_vnode = None\<rparr>,
     root_fs = None, root_vnode = None\<rparr>"

definition zero_alloc :: "unit allocator" where
  "zero_alloc sz h = (Some (\<lambda>_. 0), h)"

definition mounted_vfs :: "unit tmpfs_state vfs_state" where
  "mounted_vfs = fst (snd (fs_mount_root (Some tmpfs_filesystem) boot_vfs boot_tmpfs))"

definition mounted_tmpfs :: "unit tmpfs_state" where
  "mounted_tmpfs = snd (snd (fs_mount_root (Some tmpfs_filesystem) boot_vfs boot_tmpfs))"

definition opened_vfs :: "unit tmpfs_state vfs_state" where
  "opened_vfs = fst (snd (fs_open (tmpfs_vnodes zero_alloc) (Some ''/a'') 0x40 0 mounted_vfs mounted_tmpfs))"

definition opened_tmpfs :: "unit tmpfs_state" where
  "opened_tmpfs = snd (snd (fs_open (tmpfs_vnodes zero_alloc) (Some ''/a'') 0x40 0 mounted_vfs mounted_tmpfs))"

lemma mounted_eval: "fs_mount_root (Some tmpfs_filesystem) boot_vfs boot_tmpfs = (0, mounted_vfs, mounted_tmpfs)"
proof -
  have "fst (fs_mount_root (Some tmpfs_filesystem) boot_vfs boot_tmpfs) = 0" by code_simp
  then show ?thesis by (simp add: mounted_vfs_def mounted_tmpfs_def prod_eq_iff)
qed

lemma mounted_nodes:
  "tm_nodes mounted_tmpfs ! 0 = \<lparr>vn_used = True, vn_ino = 1, vn_type = NM_NODE_DIR, vn_name = ''/'', vn_uid = 0, vn_gid = 0,
     vn_mode = 0x1ED, vn_parent = None, vn_children = None, vn_next_sibling = None, vn_data = None, vn_size = 0, vn_capacity = 0, vn_ops = True\<rparr>"
  "length (tm_nodes mounted_tmpfs) = TMPFS_MAX_NODES" "list_all (\<lambda>node. \<not> vn_used node) (tl (tm_nodes mounted_tmpfs))"
  by code_simp+

lemma opened_eval:
  "fst (fs_open (tmpfs_vnodes zero_alloc) (Some ''/a'') 0x40 0 mounted_vfs mounted_tmpfs) = 0"
  "vn_capacity (tm_nodes opened_tmpfs ! 1) = 0" "open_file 0 opened_vfs = Some \<lparr>f_used = True, f_flags = 0x40, f_offset = 0, f_vnode = Some 1\<rparr>"
  "length (file_table mounted_vfs) = NM_FD_MAX" "fst (resolve_path mounted_vfs mounted_tmpfs (Some ''/a'') False) = None" "good_path ''/a''"
  by code_simp+

lemma opened_call: "fs_open (tmpfs_vnodes zero_alloc) (Some ''/a'') 0x40 0 mounted_vfs mounted_tmpfs = (0, opened_vfs, opened_tmpfs)"
  using opened_eval(1) by (simp add: opened_vfs_def opened_tmpfs_def prod_eq_iff)

lemma tmpfs_mount_op [simp]: "fs_op_mount_root tmpfs_ops = Some tmpfs_mount_root"
  by (simp add: tmpfs_ops_def)

lemma mounted_ok: "tm_ok mounted_tmpfs" "live mounted_tmpfs 0" "mounted tmpfs_ops 0 mounted_vfs"
proof -
  have lv: "live mounted_tmpfs n \<longleftrightarrow> n = 0" for n
    using mounted_nodes by (cases n) (auto simp: live_def list_all_length nth_tl TMPFS_MAX_NODES_def)
  moreover have "entries mounted_tmpfs 0 []" by (simp add: entries_def mounted_nodes(1))
  ultimately show "tm_ok mounted_tmpfs" "live mounted_tmpfs 0"
    using mounted_nodes(1,2) by (auto simp: tm_ok_def data_ok_def)
  have "fst (tmpfs_mount_root boot_tmpfs) = Some 0" by code_simp
  then obtain f where "tmpfs_mount_root boot_tmpfs = (Some 0, f)" by (cases "tmpfs_mount_root boot_tmpfs") auto
  then show "mounted tmpfs_ops 0 mounted_vfs"
    by (simp add: mounted_def mounted_vfs_def fs_mount_root_def tmpfs_filesystem_def)
qed

theorem tmpfs_mount_root_correct_witness:
  "tm_ok mounted_tmpfs \<and> mounted tmpfs_ops 0 mounted_vfs \<and> live mounted_tmpfs 0 \<and> tmpfs_lookup 0 ''a'' mounted_tmpfs = None"
  using tmpfs_mount_root_correct [OF _ mounted_eval, of "''a''"] by (simp add: boot_tmpfs_def)

theorem tmpfs_create_then_open_witness:
  "\<exists>n. \<not> live mounted_tmpfs n \<and> opened_file tm_ok is_file opened_vfs opened_tmpfs 0 n 0 \<and> tm_content opened_tmpfs n = []"
  using tmpfs_create_then_open [OF mounted_ok(1,3,2) opened_eval(4,6,5) _ opened_call] by (auto simp: NM_O_CREAT_def)

lemma opened_demo: "opened_file tm_ok is_file opened_vfs opened_tmpfs 0 1 0"
proof -
  have cr: "tmpfs_create 0 ''a'' NM_NODE_FILE 0x1A4 mounted_tmpfs = (Some 1, opened_tmpfs)" by code_simp
  note c = create_ok [OF mounted_ok(1,2) cr] create_live [OF mounted_ok(1,2) cr, of 1] create_SomeD(7) [OF mounted_ok(1,2) cr]
  have "length (file_table opened_vfs) = NM_FD_MAX" by code_simp
  then show ?thesis using c opened_eval(3) by (simp add: opened_file_def is_file_def)
qed


theorem tmpfs_write_far_seek_hangs_witness:
  "\<exists>st1. fs_lseek (tmpfs_vnodes zero_alloc) 0 (2 ^ 63 - 1) 0 opened_vfs opened_tmpfs = (2 ^ 63 - 1, st1) \<and>
    fs_write (tmpfs_vnodes zero_alloc) 0 (Some [1, 2]) st1 opened_tmpfs = None"
  using tmpfs_write_far_seek_hangs [OF opened_demo opened_eval(2), of "[1, 2]" zero_alloc] by auto

end
