(* ===== verification/Shell.thy ===== *)
theory Shell
  imports Tmpfs "HOL-Library.Monad_Syntax"
begin

text \<open>
  The command interpreter of \<^verbatim>\<open>userspace/shell.c\<close> over the virtual file system.

  A character buffer is the list of its cells, so that its capacity is the length of the list; a
  null buffer is the empty list. Stores are checked: a store outside the buffer, a read of a buffer
  that has no terminating null, and a \<^verbatim>\<open>cat\<close> that never reaches the end of its file have no result
  (\<open>None\<close>). A C string given to the shell is the list of its characters before the null. The local
  arrays \<^verbatim>\<open>tmp\<close> and \<^verbatim>\<open>one\<close> are not initialised by the code; what they hold is an argument.
\<close>

section \<open>Buffers and strings\<close>

definition put_char :: "char list \<Rightarrow> nat \<Rightarrow> char \<Rightarrow> char list option" where
  "put_char out i c = (if i < length out then Some (out[i := c]) else None)"

definition c_chars :: "char list \<Rightarrow> string option" where
  "c_chars buf = (if NUL \<in> set buf then Some (takeWhile (\<lambda>c. c \<noteq> NUL) buf) else None)"

text \<open>The two copy loops (\<^verbatim>\<open>out_append\<close>, \<^verbatim>\<open>cmd_cat\<close>): both keep one cell for the null.\<close>

fun put_chars :: "char list \<Rightarrow> nat \<Rightarrow> string \<Rightarrow> (char list \<times> nat) option" where
  "put_chars out used [] = Some (out, used)"
| "put_chars out used (c # s) =
     (if used + 1 < length out
      then do { out \<leftarrow> put_char out used c; put_chars out (used + 1) s }
      else Some (out, used))"

definition out_append :: "char list \<Rightarrow> nat \<Rightarrow> string option \<Rightarrow> (char list \<times> nat) option" where
  "out_append out used s =
     (case s of
        None \<Rightarrow> Some (out, used)
      | Some cs \<Rightarrow>
          if out = [] then Some (out, used)
          else do { (out, used) \<leftarrow> put_chars out used cs; out \<leftarrow> put_char out used NUL; Some (out, used) })"

fun str_eq :: "string \<Rightarrow> string \<Rightarrow> bool" where
  "str_eq (a # as) (b # bs) = (if a \<noteq> b then False else str_eq as bs)"
| "str_eq [] [] = True"
| "str_eq _ _ = False"

definition str_len :: "char list \<Rightarrow> nat option" where
  "str_len s = map_option length (c_chars s)"

section \<open>Tokens\<close>

definition blank :: "char \<Rightarrow> bool" where
  "blank c \<longleftrightarrow> c = CHR '' '' \<or> c = CHR 0x09"

function token_loop :: "int \<Rightarrow> string \<Rightarrow> string list \<Rightarrow> int \<times> string list" where
  "token_loop max_tokens line tokens =
     (let line = dropWhile blank line in
      if line = [] then (int (length tokens), tokens)
      else if int (length tokens) \<ge> max_tokens then (- 1, tokens)
      else token_loop max_tokens (dropWhile (\<lambda>c. \<not> blank c) line) (tokens @ [take 63 (takeWhile (\<lambda>c. \<not> blank c) line)]))"
  by pat_completeness auto

termination
proof (relation "measure (\<lambda>(m, line, tokens). length line)")
  fix max_tokens line x and tokens :: "string list"
  assume x: "x = dropWhile blank line" "x \<noteq> []"
  then obtain c cs where c: "x = c # cs" by (meson list.exhaust)
  have "\<not> blank c" using x c by (metis hd_dropWhile list.sel(1))
  then have "length (dropWhile (\<lambda>c. \<not> blank c) x) < length x" using c by (simp add: length_dropWhile_le le_imp_less_Suc)
  moreover have "length x \<le> length line" using x(1) by (simp add: length_dropWhile_le)
  ultimately show "((max_tokens, dropWhile (\<lambda>c. \<not> blank c) x, tokens @ [take 63 (takeWhile (\<lambda>c. \<not> blank c) x)]),
      max_tokens, line, tokens) \<in> measure (\<lambda>(m, line, tokens). length line)"
    by simp
qed simp

declare token_loop.simps [simp del]

definition split_tokens :: "string \<Rightarrow> int \<Rightarrow> int \<times> string list" where
  "split_tokens line max_tokens = token_loop max_tokens line []"

section \<open>Commands\<close>

record 'f shell_fs =
  sh_vfs :: "'f vfs_state"
  sh_fs :: 'f

type_synonym 'f shell_result = "(int \<times> char list \<times> 'f shell_fs) option"

fun echo_args :: "string list \<Rightarrow> char list \<Rightarrow> nat \<Rightarrow> (char list \<times> nat) option" where
  "echo_args [] out used = Some (out, used)"
| "echo_args [a] out used = out_append out used (Some a)"
| "echo_args (a # b # as) out used =
     do { (out, used) \<leftarrow> out_append out used (Some a);
          (out, used) \<leftarrow> out_append out used (Some '' '');
          echo_args (b # as) out used }"

definition cmd_echo :: "string list \<Rightarrow> char list \<Rightarrow> 'f shell_fs \<Rightarrow> 'f shell_result" where
  "cmd_echo argv out s =
     do { (out, used) \<leftarrow> echo_args (tl argv) out 0;
          (out, used) \<leftarrow> out_append out used (Some [CHR 0x0A]);
          Some (0, out, s) }"

definition char_of_byte :: "u8 \<Rightarrow> char" where "char_of_byte b = char_of (unat b)"
definition byte_of_char :: "char \<Rightarrow> u8" where "byte_of_char c = of_char c"

text \<open>The read loop of \<^verbatim>\<open>cmd_cat\<close>, 128 bytes at a time; it goes on reading when the output is full.\<close>

partial_function (option) cat_loop ::
  "'f vnode_mem \<Rightarrow> int \<Rightarrow> char list \<Rightarrow> nat \<Rightarrow> 'f shell_fs \<Rightarrow> (char list \<times> nat \<times> 'f shell_fs) option" where
  "cat_loop vm fd out used s =
     (let (n, bytes, st) = fs_read vm fd True 128 (sh_vfs s) (sh_fs s); s = s\<lparr>sh_vfs := st\<rparr> in
      if n > 0
      then Option.bind (put_chars out used (map char_of_byte (take (nat n) bytes))) (\<lambda>(out, used). cat_loop vm fd out used s)
      else Some (out, used, s))"

definition cmd_cat :: "'f vnode_mem \<Rightarrow> string list \<Rightarrow> char list \<Rightarrow> char list option \<Rightarrow> 'f shell_fs \<Rightarrow> 'f shell_result" where
  "cmd_cat vm argv out inp s =
     (if length argv = 1
      then do { text \<leftarrow> (case inp of None \<Rightarrow> Some [] | Some buf \<Rightarrow> c_chars buf);
                (out, used) \<leftarrow> out_append out 0 (Some text);
                Some (0, out, s) }
      else let (fd, st, f) = fs_open vm (Some (argv ! 1)) 0 0 (sh_vfs s) (sh_fs s); s = \<lparr>sh_vfs = st, sh_fs = f\<rparr> in
        if fd < 0 then Some (- 1, out, s)
        else do { (out, used, s) \<leftarrow> cat_loop vm fd out 0 s;
                  out \<leftarrow> (if used < length out then put_char out used NUL else Some out);
                  Some (0, out, s\<lparr>sh_vfs := snd (fs_close fd (sh_vfs s))\<rparr>) })"

definition ls_candidates :: "string list" where
  "ls_candidates = [''/hello.txt'', ''/motd'', ''/tmp.log'', ''/ext2-file'']"

fun ls_loop :: "'f vnode_mem \<Rightarrow> string list \<Rightarrow> char list \<Rightarrow> nat \<Rightarrow> 'f shell_fs \<Rightarrow> (char list \<times> nat) option" where
  "ls_loop vm [] out used s = Some (out, used)"
| "ls_loop vm (p # ps) out used s =
     (if fst (fs_stat vm (Some p) True (sh_vfs s) (sh_fs s)) = 0
      then do { (out, used) \<leftarrow> out_append out used (Some p);
                (out, used) \<leftarrow> out_append out used (Some [CHR 0x0A]);
                ls_loop vm ps out used s }
      else ls_loop vm ps out used s)"

definition cmd_ls :: "'f vnode_mem \<Rightarrow> char list \<Rightarrow> 'f shell_fs \<Rightarrow> 'f shell_result" where
  "cmd_ls vm out s = do { (out, used) \<leftarrow> ls_loop vm ls_candidates out 0 s; Some (0, out, s) }"

definition run_simple :: "'f vnode_mem \<Rightarrow> string \<Rightarrow> char list \<Rightarrow> char list option \<Rightarrow> 'f shell_fs \<Rightarrow> 'f shell_result" where
  "run_simple vm line out inp s =
     (let (argc, argv) = split_tokens line 16 in
      if argc \<le> 0
      then (if out = [] then Some (0, out, s) else do { out \<leftarrow> put_char out 0 NUL; Some (0, out, s) })
      else if str_eq (argv ! 0) ''echo'' then cmd_echo argv out s
      else if str_eq (argv ! 0) ''cat'' then cmd_cat vm argv out inp s
      else if str_eq (argv ! 0) ''ls'' then cmd_ls vm out s
      else Some (- 1, out, s))"

section \<open>Lines and scripts\<close>

definition shell_init :: "'f shell_fs \<Rightarrow> 'f shell_fs" where
  "shell_init s = s"

text \<open>The scan for the first pipe or redirection: the mode, and the two halves, each cut to 127 characters.\<close>

fun scan_line :: "string \<Rightarrow> nat \<Rightarrow> string \<Rightarrow> string \<Rightarrow> nat \<times> string \<times> string" where
  "scan_line [] mode left right = (mode, left, right)"
| "scan_line (c # cs) mode left right =
     (if c = CHR ''|'' \<and> mode = 0 then scan_line cs 1 left right
      else if c = CHR ''>'' \<and> mode = 0 then scan_line cs 2 left right
      else if mode = 0 \<and> length left + 1 < 128 then scan_line cs mode (left @ [c]) right
      else if mode \<noteq> 0 \<and> length right + 1 < 128 then scan_line cs mode left (right @ [c])
      else scan_line cs mode left right)"

definition redirect :: "'f vnode_mem \<Rightarrow> string \<Rightarrow> char list \<Rightarrow> char list \<Rightarrow> 'f shell_fs \<Rightarrow> 'f shell_result" where
  "redirect vm right tmp out s =
     (let (c, toks) = split_tokens right 8 in
      if c \<noteq> 1 then Some (- 1, out, s)
      else let (fd, st, f) = fs_open vm (Some (toks ! 0)) 0x42 0x1A4 (sh_vfs s) (sh_fs s); s = \<lparr>sh_vfs = st, sh_fs = f\<rparr> in
        if fd < 0 then Some (- 1, out, s)
        else do { n \<leftarrow> str_len tmp;
                  (r, st, f) \<leftarrow> fs_write vm fd (Some (map byte_of_char (take n tmp))) (sh_vfs s) (sh_fs s);
                  Some (0, out, \<lparr>sh_vfs = snd (fs_close fd st), sh_fs = f\<rparr>) })"

definition shell_execute_line ::
  "'f vnode_mem \<Rightarrow> char list \<Rightarrow> string option \<Rightarrow> char list \<Rightarrow> 'f shell_fs \<Rightarrow> 'f shell_result" where
  "shell_execute_line vm tmp line out s =
     (case line of
        None \<Rightarrow> Some (- 1, out, s)
      | Some cs \<Rightarrow>
          if out = [] then Some (- 1, out, s)
          else do { out \<leftarrow> put_char out 0 NUL;
            let (mode, left, right) = scan_line cs 0 [] [] in
            if mode = 0 then run_simple vm left out None s
            else do { (r, tmp, s) \<leftarrow> run_simple vm left tmp None s;
              if r \<noteq> 0 then Some (- 1, out, s)
              else if mode = 1 then run_simple vm right out (Some tmp) s
              else redirect vm right tmp out s } })"

text \<open>
  One complete line of a script; \<open>one\<close> and \<open>tmp\<close> are what the two local arrays hold on entry.
\<close>

definition script_line ::
  "'f vnode_mem \<Rightarrow> char list \<times> char list \<Rightarrow> string \<Rightarrow> char list \<Rightarrow> nat \<Rightarrow> 'f shell_fs \<Rightarrow> (char list \<times> nat \<times> 'f shell_fs) option" where
  "script_line vm stack line out used s =
     (if line = [] then Some (out, used, s)
      else do { (r, one, s) \<leftarrow> shell_execute_line vm (snd stack) (Some line) (fst stack) s;
        if r = 0 \<and> hd one \<noteq> NUL
        then do { text \<leftarrow> c_chars one; (out, used) \<leftarrow> out_append out used (Some text); Some (out, used, s) }
        else Some (out, used, s) })"

fun script_loop ::
  "'f vnode_mem \<Rightarrow> (nat \<Rightarrow> char list \<times> char list) \<Rightarrow> nat \<Rightarrow> string \<Rightarrow> string \<Rightarrow> char list \<Rightarrow> nat \<Rightarrow> 'f shell_fs \<Rightarrow> 'f shell_result" where
  "script_loop vm stack i [] line out used s =
     do { (out, used, s) \<leftarrow> script_line vm (stack i) line out used s; Some (0, out, s) }"
| "script_loop vm stack i (ch # script) line out used s =
     (if ch \<noteq> CHR 0x0A \<and> length line + 1 < 256
      then script_loop vm stack (i + 1) script (line @ [ch]) out used s
      else do { (out, used, s) \<leftarrow> script_line vm (stack i) line out used s;
                script_loop vm stack (i + 1) script [] out used s })"

definition shell_run_script ::
  "'f vnode_mem \<Rightarrow> (nat \<Rightarrow> char list \<times> char list) \<Rightarrow> string option \<Rightarrow> char list \<Rightarrow> 'f shell_fs \<Rightarrow> 'f shell_result" where
  "shell_run_script vm stack script out s =
     (case script of
        None \<Rightarrow> Some (- 1, out, s)
      | Some cs \<Rightarrow>
          if out = [] then Some (- 1, out, s)
          else do { out \<leftarrow> put_char out 0 NUL; script_loop vm stack 0 cs [] out 0 s })"


section \<open>Buffers\<close>

text \<open>\<open>holds out acc used\<close>: the first \<open>used\<close> cells of the buffer are \<open>acc\<close> and there is room for a null.\<close>

definition holds :: "char list \<Rightarrow> string \<Rightarrow> nat \<Rightarrow> bool" where
  "holds out acc used \<longleftrightarrow> used = length acc \<and> used < length out \<and> take used out = acc"

lemma put_char_Some: "put_char out i c = Some out' \<Longrightarrow> out' = out[i := c] \<and> i < length out"
  by (simp add: put_char_def split: if_splits)

text \<open>The part of a text that fits into a buffer of \<open>cap\<close> cells.\<close>

definition fit :: "nat \<Rightarrow> string \<Rightarrow> string" where
  "fit cap s = take (cap - 1) s"

lemma fit_fit: "fit cap (fit cap xs @ ys) = fit cap (xs @ ys)"
  by (cases "length xs \<le> cap - 1") (simp_all add: fit_def)

lemma fit_short: "length s < cap \<Longrightarrow> fit cap s = s"
  by (simp add: fit_def)

lemma put_chars_holds:
  "holds out acc used \<Longrightarrow>
    \<exists>out'. put_chars out used s = Some (out', length (fit (length out) (acc @ s))) \<and> length out' = length out \<and>
      holds out' (fit (length out) (acc @ s)) (length (fit (length out) (acc @ s)))"
proof (induction s arbitrary: out acc used)
  case Nil
  then show ?case by (auto simp: holds_def fit_def)
next
  case (Cons c s)
  show ?case
  proof (cases "used + 1 < length out")
    case True
    have "holds (out[used := c]) (acc @ [c]) (used + 1)"
      using Cons.prems True by (auto simp: holds_def take_Suc_conv_app_nth)
    then show ?thesis using Cons.IH [of "out[used := c]" "acc @ [c]" "used + 1"] True by (simp add: put_char_def)
  next
    case False
    then have "length out - 1 = length acc" "used = length acc" using Cons.prems by (auto simp: holds_def)
    then show ?thesis using Cons.prems False by (simp add: fit_def)
  qed
qed

text \<open>What \<^verbatim>\<open>out_append\<close> leaves: as much of the text as fits, and the null behind it.\<close>

definition filled :: "char list \<Rightarrow> string \<Rightarrow> bool" where
  "filled out acc \<longleftrightarrow> holds out acc (length acc) \<and> out ! length acc = NUL"

lemma out_append_filled:
  assumes "holds out acc used"
  shows "\<exists>out'. out_append out used (Some s) = Some (out', length (fit (length out) (acc @ s))) \<and> length out' = length out \<and>
    filled out' (fit (length out) (acc @ s))"
proof -
  let ?t = "fit (length out) (acc @ s)"
  obtain out1 where o: "put_chars out used s = Some (out1, length ?t)" "length out1 = length out" "holds out1 ?t (length ?t)"
    using put_chars_holds [OF assms] by blast
  moreover have "out \<noteq> []" using assms by (auto simp: holds_def)
  ultimately have "out_append out used (Some s) = Some (out1[length ?t := NUL], length ?t)"
    by (simp add: out_append_def put_char_def holds_def)
  moreover have "filled (out1[length ?t := NUL]) ?t" using o(3) by (simp add: filled_def holds_def)
  ultimately show ?thesis using o(2) by auto
qed

lemma filled_chars: "filled out acc \<Longrightarrow> NUL \<notin> set acc \<Longrightarrow> c_chars out = Some acc"
proof -
  assume f: "filled out acc" and n: "NUL \<notin> set acc"
  have "out = take (length acc) out @ NUL # drop (Suc (length acc)) out"
    using f id_take_nth_drop [of "length acc" out] by (simp add: filled_def holds_def)
  then have o: "out = acc @ NUL # drop (Suc (length acc)) out" using f by (simp add: filled_def holds_def)
  have "takeWhile (\<lambda>c. c \<noteq> NUL) (acc @ NUL # ys) = acc" for ys using n by (induction acc) auto
  then show ?thesis using o by (metis c_chars_def in_set_conv_decomp)
qed

lemma filled_NUL: "filled out acc \<Longrightarrow> NUL \<in> set out"
  by (metis filled_def holds_def nth_mem)

lemma holds_start: "out \<noteq> [] \<Longrightarrow> holds out [] 0"
  by (simp add: holds_def)

lemma filled_holds: "filled out acc \<Longrightarrow> holds out acc (length acc)"
  by (simp add: filled_def)

fun spaced :: "string list \<Rightarrow> string" where
  "spaced [] = []"
| "spaced [a] = a"
| "spaced (a # b # as) = a @ CHR '' '' # spaced (b # as)"

lemma echo_args_holds:
  "holds out acc used \<Longrightarrow>
    \<exists>out'. echo_args as out used = Some (out', length (fit (length out) (acc @ spaced as))) \<and> length out' = length out \<and>
      holds out' (fit (length out) (acc @ spaced as)) (length (fit (length out) (acc @ spaced as)))"
proof (induction as out used arbitrary: acc rule: echo_args.induct)
  case (1 out used)
  then show ?case by (auto simp: holds_def fit_short)
next
  case (2 a out used)
  then show ?case using out_append_filled [OF 2, of a] filled_holds by auto
next
  case (3 a b as out used)
  let ?n = "length out"
  obtain o1 where o1: "out_append out used (Some a) = Some (o1, length (fit ?n (acc @ a)))" "length o1 = length out"
    "holds o1 (fit ?n (acc @ a)) (length (fit ?n (acc @ a)))"
    using out_append_filled [OF 3(2), of a] filled_holds by blast
  obtain o2 where o2: "out_append o1 (length (fit ?n (acc @ a))) (Some '' '') = Some (o2, length (fit ?n (fit ?n (acc @ a) @ '' '')))"
    "length o2 = length out" "holds o2 (fit ?n (fit ?n (acc @ a) @ '' '')) (length (fit ?n (fit ?n (acc @ a) @ '' '')))"
    using out_append_filled [OF o1(3), of "'' ''"] o1(2) filled_holds by metis
  have t: "fit ?n (fit ?n (fit ?n (acc @ a) @ '' '') @ spaced (b # as)) = fit ?n (acc @ spaced (a # b # as))"
    by (simp add: fit_fit)
  show ?case
    using 3(1) [OF o1(1) refl o2(1) refl o2(3)] o1(1) o2(1) unfolding o2(2) t by simp
qed

lemma cmd_echo_correct:
  assumes "out \<noteq> []"
  shows "\<exists>out'. cmd_echo argv out s = Some (0, out', s) \<and> length out' = length out \<and>
    filled out' (fit (length out) (spaced (tl argv) @ [CHR 0x0A]))"
proof -
  let ?n = "length out"
  obtain o1 where o1: "echo_args (tl argv) out 0 = Some (o1, length (fit ?n (spaced (tl argv))))" "length o1 = length out"
    "holds o1 (fit ?n (spaced (tl argv))) (length (fit ?n (spaced (tl argv))))"
    using echo_args_holds [OF holds_start [OF assms], of "tl argv"] by auto
  show ?thesis
    using out_append_filled [OF o1(3), of "[CHR 0x0A]"] o1(1,2) by (auto simp: cmd_echo_def fit_fit)
qed

section \<open>The file system under the shell\<close>

definition sh_ok :: "nat \<Rightarrow> 'h tmpfs_state shell_fs \<Rightarrow> bool" where
  "sh_ok root s \<longleftrightarrow> tm_ok (sh_fs s) \<and> mounted tmpfs_ops root (sh_vfs s) \<and> live (sh_fs s) root \<and>
     length (file_table (sh_vfs s)) = NM_FD_MAX"

definition used_fds :: "'f vfs_state \<Rightarrow> bool list" where
  "used_fds st = map f_used (file_table st)"

lemma resolve_live:
  assumes "tm_ok f" "mounted tmpfs_ops root st" "live f root" "resolve_path st f p b = (Some n, leaf)"
  shows "live f n" "length leaf < NM_NAME_MAX"
proof -
  obtain fs where fs: "root_fs st = Some fs" "fsys_ops fs = Some tmpfs_ops" "root_vnode st = Some root"
    using assms(2) by (auto simp: mounted_def)
  have "live f n \<and> length leaf < NM_NAME_MAX"
    using assms(4) fs assms(3) tmdir.walk_node [OF assms(1,3)]
    by (auto simp: resolve_path_def Let_def vfs_copy_name_def NM_NAME_MAX_def split: option.splits if_splits prod.splits)
  then show "live f n" "length leaf < NM_NAME_MAX" by auto
qed

lemma open_node_ok:
  assumes "tm_ok f" "mounted tmpfs_ops root st" "live f root" "open_node p flags st f = (r, f1)"
  shows "tm_ok f1" "live f1 root" "r = Some n \<Longrightarrow> live f1 n" "r = None \<Longrightarrow> f1 = f" "flags AND NM_O_CREAT = 0 \<Longrightarrow> f1 = f"
proof -
  have "tm_ok f1 \<and> live f1 root \<and> (\<forall>n. r = Some n \<longrightarrow> live f1 n) \<and> (r = None \<longrightarrow> f1 = f) \<and> (flags AND NM_O_CREAT = 0 \<longrightarrow> f1 = f)"
  proof (cases "fst (resolve_path st f (Some p) False)")
    case (Some m)
    then have "live f m" using resolve_live(1) [OF assms(1-3), of "Some p" False m "snd (resolve_path st f (Some p) False)"] by (metis prod.collapse)
    then show ?thesis using Some assms by (auto simp: open_node_def)
  next
    case None
    note miss = None
    obtain d leaf where d: "resolve_path st f (Some p) True = (d, leaf)" by (meson surj_pair)
    obtain fs where fs: "root_fs st = Some fs" "fsys_ops fs = Some tmpfs_ops" using assms(2) by (auto simp: mounted_def)
    show ?thesis
    proof (cases "flags AND NM_O_CREAT = 0 \<or> d = None")
      case True
      then have "open_node p flags st f = (None, f)" using miss d fs by (auto simp: open_node_def)
      then show ?thesis using assms by auto
    next
      case False
      then obtain e where e: "d = Some e" "flags AND NM_O_CREAT \<noteq> 0" by auto
      have on: "open_node p flags st f = tmpfs_create e leaf NM_NODE_FILE 0x1A4 f"
        using miss d fs e by (simp add: open_node_def tmdir.create_op)
      note l = resolve_live [OF assms(1-3) d [unfolded e(1)]]
      show ?thesis
      proof (cases r)
        case None
        have "f1 = f" by (rule tmdir.create_fails [OF assms(1) l(1)]) (use on assms(4) None in auto)
        then show ?thesis using None assms by simp
      next
        case (Some k)
        have "tm_ok f1 \<and> live f1 k \<and> (\<forall>m. live f m \<longrightarrow> live f1 m)"
          using tmdir.create_node [OF assms(1) l, of NM_NODE_FILE "0x1A4" k f1] on assms(4) Some by simp
        then show ?thesis using Some assms(3) e(2) by simp
      qed
    qed
  qed
  then show "tm_ok f1" "live f1 root" "r = Some n \<Longrightarrow> live f1 n" "r = None \<Longrightarrow> f1 = f" "flags AND NM_O_CREAT = 0 \<Longrightarrow> f1 = f" by auto
qed

lemma mounted_table [simp]: "mounted ops root (st\<lparr>file_table := t\<rparr>) = mounted ops root st"
  by (simp add: mounted_def)

text \<open>Every outcome of \<^verbatim>\<open>fs_open\<close> on tmpfs.\<close>

lemma fs_open_cases:
  assumes "sh_ok root s" "fs_open (tmpfs_vnodes nm_alloc) (Some p) flags mode (sh_vfs s) (sh_fs s) = (fd, st', f')"
  shows "sh_ok root \<lparr>sh_vfs = st', sh_fs = f'\<rparr>" "flags AND NM_O_CREAT = 0 \<Longrightarrow> f' = sh_fs s"
    "root_fs st' = root_fs (sh_vfs s)" "root_vnode st' = root_vnode (sh_vfs s)"
    "fd < 0 \<Longrightarrow> used_fds st' = used_fds (sh_vfs s)"
    "0 \<le> fd \<Longrightarrow> \<exists>n. open_node p flags (sh_vfs s) (sh_fs s) = (Some n, f') \<and> opened_file tm_ok live st' f' fd n 0 \<and>
       used_fds st' = (used_fds (sh_vfs s))[nat fd := True] \<and> used_fds (sh_vfs s) ! nat fd = False"
proof -
  let ?st = "sh_vfs s" and ?f = "sh_fs s"
  have ok: "tm_ok ?f" "mounted tmpfs_ops root ?st" "live ?f root" "length (file_table ?st) = NM_FD_MAX"
    using assms(1) by (auto simp: sh_ok_def)
  obtain r f1 where on: "open_node p flags ?st ?f = (r, f1)" by (meson surj_pair)
  note o = open_node_ok [OF ok(1-3) on]
  have cr: "f1 = ?f" if "flags AND NM_O_CREAT = 0" by (rule o(5) [OF that])
  have goals: "sh_ok root \<lparr>sh_vfs = st', sh_fs = f'\<rparr> \<and> f' = f1 \<and> root_fs st' = root_fs ?st \<and> root_vnode st' = root_vnode ?st \<and> (fd < 0 \<longrightarrow> used_fds st' = used_fds ?st) \<and>
    (0 \<le> fd \<longrightarrow> (\<exists>n. r = Some n \<and> opened_file tm_ok live st' f' fd n 0 \<and>
       used_fds st' = (used_fds ?st)[nat fd := True] \<and> used_fds ?st ! nat fd = False))"
  proof (cases r)
    case None
    then have "fs_open (tmpfs_vnodes nm_alloc) (Some p) flags mode ?st ?f = (NM_ERR NM_EFAIL, ?st, f1)"
      using on by (simp add: fs_open_def)
    then show ?thesis using assms ok o(1,2) by (auto simp: sh_ok_def)
  next
    case (Some n)
    have lv: "live f1 n" by (rule o(3) [OF Some])
    have ops: "vm_ops (tmpfs_vnodes nm_alloc) n f1 = Some (tmpfs_file_ops nm_alloc)"
      using tm_okD(2) [OF o(1) lv] by (simp add: tmpfs_vnodes_def)
    show ?thesis
    proof (cases "alloc_fd (file_table ?st)")
      case None
      then have "fs_open (tmpfs_vnodes nm_alloc) (Some p) flags mode ?st ?f = (NM_ERR NM_EFAIL, ?st, f1)"
        using on Some ops by (simp add: fs_open_def)
      then show ?thesis using assms ok o(1,2) by (auto simp: sh_ok_def)
    next
      case (Some a)
      then obtain i table where a: "alloc_fd (file_table ?st) = Some (i, table)" by (cases a) auto
      note al = vfiles.alloc_SomeD [OF a]
      have op: "fs_open (tmpfs_vnodes nm_alloc) (Some p) flags mode ?st ?f =
          (int i, ?st\<lparr>file_table := table[i := (table ! i)\<lparr>f_vnode := Some n, f_flags := flags, f_offset := 0\<rparr>]\<rparr>, f1)"
        using on \<open>r = Some n\<close> ops a by (simp add: fs_open_def tmpfs_file_ops_def tmpfs_open_def)
      have "used_fds st' = (used_fds ?st)[i := True]" "used_fds ?st ! i = False"
        using op assms(2) al by (auto simp: used_fds_def map_update fresh_file_def)
      moreover have "opened_file tm_ok live st' f' fd n 0"
        using op assms(2) al ok o(1) lv by (auto simp: opened_file_def open_file_def fresh_file_def)
      ultimately show ?thesis using op assms(2) al ok o(1,2) \<open>r = Some n\<close> by (auto simp: sh_ok_def)
    qed
  qed
  then show "sh_ok root \<lparr>sh_vfs = st', sh_fs = f'\<rparr>" "flags AND NM_O_CREAT = 0 \<Longrightarrow> f' = sh_fs s"
    "root_fs st' = root_fs (sh_vfs s)" "root_vnode st' = root_vnode (sh_vfs s)"
    "fd < 0 \<Longrightarrow> used_fds st' = used_fds (sh_vfs s)"
    "0 \<le> fd \<Longrightarrow> \<exists>n. open_node p flags (sh_vfs s) (sh_fs s) = (Some n, f') \<and> opened_file tm_ok live st' f' fd n 0 \<and>
       used_fds st' = (used_fds (sh_vfs s))[nat fd := True] \<and> used_fds (sh_vfs s) ! nat fd = False"
    using cr on by auto
qed

text \<open>Reads and writes move one offset; nothing else of the descriptor table changes.\<close>

definition same_vfs :: "'f vfs_state \<Rightarrow> 'f vfs_state \<Rightarrow> bool" where
  "same_vfs st st' \<longleftrightarrow> root_fs st' = root_fs st \<and> root_vnode st' = root_vnode st \<and> used_fds st' = used_fds st"

lemma same_vfs_refl [simp]: "same_vfs st st"
  by (simp add: same_vfs_def)

lemma same_vfs_trans: "same_vfs st st1 \<Longrightarrow> same_vfs st1 st2 \<Longrightarrow> same_vfs st st2"
  by (simp add: same_vfs_def)

lemma same_vfs_length: "same_vfs st st' \<Longrightarrow> length (file_table st') = length (file_table st)"
  by (auto simp: same_vfs_def used_fds_def dest: map_eq_imp_length_eq)

lemma same_vfs_mounted: "same_vfs st st' \<Longrightarrow> mounted ops root st' = mounted ops root st"
  by (simp add: same_vfs_def mounted_def)

lemma advance_same: "same_vfs st (advance fd n st)"
  by (cases "nat fd < length (file_table st)")
    (auto simp: same_vfs_def advance_def set_offset_def used_fds_def map_update list_update_same_conv list_update_beyond)

lemma fs_read_same: "fs_read vm fd b len st f = (n, bytes, st') \<Longrightarrow> same_vfs st st'"
  by (auto simp: fs_read_def advance_same split: option.splits if_splits prod.splits)

lemma fs_write_same: "fs_write vm fd buf st f = Some (n, st', f') \<Longrightarrow> same_vfs st st'"
  by (auto simp: fs_write_def advance_same split: option.splits if_splits prod.splits)

lemma fs_close_opened:
  assumes "opened_file tm_ok live st f fd n pos"
  shows "used_fds (snd (fs_close fd st)) = (used_fds st)[nat fd := False]" "root_fs (snd (fs_close fd st)) = root_fs st"
    "root_vnode (snd (fs_close fd st)) = root_vnode st" "length (file_table (snd (fs_close fd st))) = NM_FD_MAX"
  using assms by (auto simp: opened_file_def fs_close_def used_fds_def map_update closed_file_def)

lemma opened_live: "opened_file tm_ok live st f fd n pos \<Longrightarrow> is_file f n \<Longrightarrow> opened_file tm_ok is_file st f fd n pos"
  by (simp add: opened_file_def)

lemma opened_is_live: "opened_file tm_ok is_file st f fd n pos \<Longrightarrow> opened_file tm_ok live st f fd n pos"
  by (simp add: opened_file_def is_file_def)

lemma directory_io:
  assumes "opened_file tm_ok live st f fd n pos" "\<not> is_file f n"
  shows "fs_read (tmpfs_vnodes nm_alloc) fd True len st f = (NM_ERR NM_EFAIL, [], st)"
    "fs_write (tmpfs_vnodes nm_alloc) fd (Some buf) st f = Some (NM_ERR NM_EFAIL, st, f)"
proof -
  obtain fl where "tm_ok f" "live f n" and e: "open_file fd st = Some fl" "f_vnode fl = Some n"
    using assms(1) by (auto simp: opened_file_def)
  then have ops: "vm_ops (tmpfs_vnodes nm_alloc) n f = Some (tmpfs_file_ops nm_alloc)" and t: "vn_type (tm_nodes f ! n) \<noteq> NM_NODE_FILE"
    using tm_okD(2) [of f n] assms(2) by (auto simp: tmpfs_vnodes_def is_file_def)
  show "fs_read (tmpfs_vnodes nm_alloc) fd True len st f = (NM_ERR NM_EFAIL, [], st)"
    using e ops t by (simp add: fs_read_def tmpfs_file_ops_def tmpfs_read_def advance_def NM_ERR_def)
  show "fs_write (tmpfs_vnodes nm_alloc) fd (Some buf) st f = Some (NM_ERR NM_EFAIL, st, f)"
    using e ops t by (simp add: fs_write_def tmpfs_file_ops_def tmpfs_write_def advance_def NM_ERR_def Let_def)
qed

section \<open>Commands\<close>

text \<open>The loop of \<^verbatim>\<open>cat\<close> ends, having appended as much of the rest of the file as fits.\<close>

lemma cat_loop_file:
  assumes "opened_file tm_ok is_file (sh_vfs s) (sh_fs s) fd n pos" "holds out acc used"
  shows "\<exists>out' used' st' pos'. cat_loop (tmpfs_vnodes nm_alloc) fd out used s = Some (out', used', s\<lparr>sh_vfs := st'\<rparr>) \<and>
    length out' = length out \<and> holds out' (fit (length out) (acc @ map char_of_byte (drop pos (tm_content (sh_fs s) n)))) used' \<and>
    same_vfs (sh_vfs s) st' \<and> opened_file tm_ok is_file st' (sh_fs s) fd n pos'"
  using assms
proof (induction "length (tm_content (sh_fs s) n) - pos" arbitrary: s pos out acc used rule: less_induct)
  case less
  let ?vm = "tmpfs_vnodes nm_alloc" and ?c = "tm_content (sh_fs s) n"
  let ?k = "min 128 (length ?c - pos)"
  obtain st1 where r: "fs_read ?vm fd True 128 (sh_vfs s) (sh_fs s) = (int ?k, take 128 (drop pos ?c), st1)"
    "opened_file tm_ok is_file st1 (sh_fs s) fd n (pos + ?k)"
    using tmfile.read_open [OF less.prems(1), of nm_alloc 128] by auto
  have same: "same_vfs (sh_vfs s) st1" by (rule fs_read_same [OF r(1)])
  let ?s1 = "s\<lparr>sh_vfs := st1\<rparr>"
  show ?case
  proof (cases "?k = 0")
    case True
    have st: "cat_loop ?vm fd out used s = Some (out, used, ?s1)"
      by (subst cat_loop.simps) (simp only: r(1) True prod.case Let_def, simp)
    moreover have "fit (length out) (acc @ map char_of_byte (drop pos ?c)) = acc"
      using True less.prems(2) by (simp add: fit_short holds_def)
    ultimately show ?thesis using r(2) same less.prems(2) by (auto simp: holds_def)
  next
    case False
    let ?b = "map char_of_byte (take 128 (drop pos ?c))"
    have tk: "take (nat (int ?k)) (take 128 (drop pos ?c)) = take 128 (drop pos ?c)" by (simp add: min_def)
    obtain out1 where o: "put_chars out used ?b = Some (out1, length (fit (length out) (acc @ ?b)))" "length out1 = length out"
      "holds out1 (fit (length out) (acc @ ?b)) (length (fit (length out) (acc @ ?b)))"
      using put_chars_holds [OF less.prems(2), of ?b] by blast
    have st: "cat_loop ?vm fd out used s = cat_loop ?vm fd out1 (length (fit (length out) (acc @ ?b))) ?s1"
      by (subst cat_loop.simps) (use False in \<open>simp only: r(1) prod.case Let_def tk, simp add: o(1)\<close>)
    have "length (tm_content (sh_fs ?s1) n) - (pos + ?k) < length ?c - pos" using False by simp
    moreover have "drop (pos + ?k) ?c = drop 128 (drop pos ?c)" by (cases "length ?c - pos \<le> 128") (simp_all add: add.commute)
    then have "drop pos ?c = take 128 (drop pos ?c) @ drop (pos + ?k) ?c" by (metis append_take_drop_id)
    then have t: "fit (length out) (fit (length out) (acc @ ?b) @ map char_of_byte (drop (pos + ?k) ?c)) =
        fit (length out) (acc @ map char_of_byte (drop pos ?c))"
      by (metis append_assoc fit_fit map_append)
    moreover have "opened_file tm_ok is_file (sh_vfs ?s1) (sh_fs ?s1) fd n (pos + ?k)" using r(2) by simp
    note less.hyps [OF _ this o(3)]
    ultimately obtain out' used' st' pos' where
      "cat_loop ?vm fd out1 (length (fit (length out) (acc @ ?b))) ?s1 = Some (out', used', ?s1\<lparr>sh_vfs := st'\<rparr>)"
      "length out' = length out1" "holds out' (fit (length out1) (fit (length out) (acc @ ?b) @ map char_of_byte (drop (pos + ?k) ?c))) used'"
      "same_vfs st1 st'" "opened_file tm_ok is_file st' (sh_fs s) fd n pos'"
      by auto
    then show ?thesis using st o(2) t same_vfs_trans [OF same] by auto
  qed
qed

text \<open>What a command that only reads leaves: the same files, the same open descriptors.\<close>

definition reads_only :: "'f shell_fs \<Rightarrow> 'f shell_fs \<Rightarrow> bool" where
  "reads_only s s' \<longleftrightarrow> sh_fs s' = sh_fs s \<and> same_vfs (sh_vfs s) (sh_vfs s')"

lemma reads_only_ok: "reads_only s s' \<Longrightarrow> sh_ok root s \<Longrightarrow> sh_ok root s'"
  using same_vfs_length same_vfs_mounted by (fastforce simp: reads_only_def sh_ok_def)

lemma close_reads_only:
  assumes "fs_open (tmpfs_vnodes nm_alloc) (Some p) flags mode (sh_vfs s) (sh_fs s) = (fd, st1, f1)" "sh_ok root s" "0 \<le> fd"
    "same_vfs st1 st2" "opened_file tm_ok live st2 f2 fd n pos"
  shows "same_vfs (sh_vfs s) (snd (fs_close fd st2))"
proof -
  note c = fs_close_opened [OF assms(5)]
  obtain m where m: "used_fds st1 = (used_fds (sh_vfs s))[nat fd := True]" "used_fds (sh_vfs s) ! nat fd = False"
    using fs_open_cases(6) [OF assms(2,1,3)] by blast
  have "root_fs st1 = root_fs (sh_vfs s)" "root_vnode st1 = root_vnode (sh_vfs s)"
    using fs_open_cases(3,4) [OF assms(2,1)] by auto
  moreover have "used_fds (snd (fs_close fd st2)) = used_fds (sh_vfs s)"
    using c(1) m(1) assms(4) list_update_id [of "used_fds (sh_vfs s)" "nat fd", unfolded m(2)] by (simp add: same_vfs_def)
  ultimately show ?thesis using c(2,3) assms(4) by (simp add: same_vfs_def)
qed

lemma cmd_cat_file:
  assumes "sh_ok root s" "out \<noteq> []" "length argv \<noteq> 1"
    "fs_open (tmpfs_vnodes nm_alloc) (Some (argv ! 1)) 0 0 (sh_vfs s) (sh_fs s) = (fd, st1, f1)" "0 \<le> fd"
    "open_node (argv ! 1) 0 (sh_vfs s) (sh_fs s) = (Some n, f1)"
  shows "\<exists>out' s'. cmd_cat (tmpfs_vnodes nm_alloc) argv out inp s = Some (0, out', s') \<and> length out' = length out \<and>
    filled out' (if is_file (sh_fs s) n then fit (length out) (map char_of_byte (tm_content (sh_fs s) n)) else []) \<and> reads_only s s'"
proof -
  let ?vm = "tmpfs_vnodes nm_alloc" and ?s1 = "\<lparr>sh_vfs = st1, sh_fs = f1\<rparr>"
  note oc = fs_open_cases [OF assms(1,4)]
  have f1: "f1 = sh_fs s" using oc(2) by simp
  have op: "opened_file tm_ok live st1 f1 fd n 0" using oc(6) [OF assms(5)] assms(6) by auto
  define body where "body = (if is_file f1 n then fit (length out) (map char_of_byte (tm_content f1 n)) else [])"
  obtain out1 used st2 where c: "cat_loop ?vm fd out 0 ?s1 = Some (out1, used, ?s1\<lparr>sh_vfs := st2\<rparr>)" "length out1 = length out"
    "holds out1 body used" "same_vfs st1 st2" "\<exists>pos. opened_file tm_ok live st2 f1 fd n pos"
  proof (cases "is_file f1 n")
    case True
    then have "opened_file tm_ok is_file (sh_vfs ?s1) (sh_fs ?s1) fd n 0" using opened_live [OF op] by simp
    from cat_loop_file [OF this holds_start [OF assms(2)], of nm_alloc] obtain out1 used st2 pos where
      "cat_loop ?vm fd out 0 ?s1 = Some (out1, used, ?s1\<lparr>sh_vfs := st2\<rparr>)" "length out1 = length out"
      "holds out1 (fit (length out) (map char_of_byte (tm_content f1 n))) used" "same_vfs st1 st2" "opened_file tm_ok is_file st2 f1 fd n pos"
      by auto
    then show ?thesis using that [of out1 used st2] opened_is_live [of st2 f1 fd n pos] True by (auto simp: body_def)
  next
    case False
    have "cat_loop ?vm fd out 0 ?s1 = Some (out, 0, ?s1)"
      by (subst cat_loop.simps) (simp add: directory_io(1) [OF op False] NM_ERR_def)
    then show ?thesis using that [of out 0 st1] op holds_start [OF assms(2)] False by (auto simp: body_def)
  qed
  obtain pos where pos: "opened_file tm_ok live st2 f1 fd n pos" using c(5) by blast
  have u: "used = length body" "used < length out1" using c(3) by (auto simp: holds_def)
  have "cmd_cat ?vm argv out inp s = Some (0, out1[used := NUL], \<lparr>sh_vfs = snd (fs_close fd st2), sh_fs = f1\<rparr>)"
    using assms(3-5) c(1) u by (simp add: cmd_cat_def put_char_def)
  moreover have "filled (out1[used := NUL]) body" using c(3) u by (simp add: filled_def holds_def)
  moreover have "same_vfs (sh_vfs s) (snd (fs_close fd st2))" by (rule close_reads_only [OF assms(4,1,5) c(4) pos])
  ultimately show ?thesis using c(2) f1 by (auto simp: body_def reads_only_def)
qed

definition ls_text :: "'f vnode_mem \<Rightarrow> string list \<Rightarrow> 'f shell_fs \<Rightarrow> string" where
  "ls_text vm ps s = concat (map (\<lambda>p. p @ [CHR 0x0A]) (filter (\<lambda>p. fst (fs_stat vm (Some p) True (sh_vfs s) (sh_fs s)) = 0) ps))"

lemma ls_loop_text:
  "holds out acc used \<Longrightarrow> \<exists>out' used'. ls_loop vm ps out used s = Some (out', used') \<and> length out' = length out \<and>
    holds out' (fit (length out) (acc @ ls_text vm ps s)) used' \<and>
    (if ls_text vm ps s = [] then out' = out else out' ! used' = NUL)"
proof (induction ps arbitrary: out acc used)
  case Nil
  then show ?case by (auto simp: ls_text_def holds_def fit_short)
next
  case (Cons p ps)
  let ?n = "length out"
  show ?case
  proof (cases "fst (fs_stat vm (Some p) True (sh_vfs s) (sh_fs s)) = 0")
    case False
    then show ?thesis using Cons.IH [OF Cons.prems] by (simp add: ls_text_def)
  next
    case True
    obtain o1 where o1: "out_append out used (Some p) = Some (o1, length (fit ?n (acc @ p)))" "length o1 = ?n"
      "filled o1 (fit ?n (acc @ p))"
      using out_append_filled [OF Cons.prems, of p] by blast
    obtain o2 where o2: "out_append o1 (length (fit ?n (acc @ p))) (Some [CHR 0x0A]) = Some (o2, length (fit ?n (acc @ p @ [CHR 0x0A])))"
      "length o2 = ?n" "filled o2 (fit ?n (acc @ p @ [CHR 0x0A]))"
      using out_append_filled [OF filled_holds [OF o1(3)], of "[CHR 0x0A]"] o1(2) by (auto simp: fit_fit)
    have t: "ls_text vm (p # ps) s = p @ [CHR 0x0A] @ ls_text vm ps s" using True by (simp add: ls_text_def)
    obtain out' used' where r: "ls_loop vm ps o2 (length (fit ?n (acc @ p @ [CHR 0x0A]))) s = Some (out', used')" "length out' = ?n"
      "holds out' (fit ?n (acc @ ls_text vm (p # ps) s)) used'"
      "if ls_text vm ps s = [] then out' = o2 else out' ! used' = NUL"
      using Cons.IH [OF filled_holds [OF o2(3)]] o2(2) by (auto simp: t fit_fit)
    have "out' ! used' = NUL"
    proof (cases "ls_text vm ps s = []")
      case True
      then have "out' = o2" "used' = length (fit ?n (acc @ p @ [CHR 0x0A]))" using r(3,4) by (simp_all add: holds_def t)
      then show ?thesis using o2(3) by (simp add: filled_def)
    qed (use r(4) in simp)
    then show ?thesis using True o1(1) o2(1) r(1-3) t by simp
  qed
qed

lemma str_eq_iff [simp]: "str_eq a b \<longleftrightarrow> a = b"
  by (induction a b rule: str_eq.induct) auto

lemma put_char_keeps: "NUL \<in> set out \<Longrightarrow> put_char out 0 NUL = Some (out[0 := NUL])"
  by (auto simp: put_char_def)

lemma holds_NUL: "holds out acc used \<Longrightarrow> out ! used = NUL \<Longrightarrow> NUL \<in> set out"
  by (metis holds_def nth_mem)

text \<open>A line whose command is \<^verbatim>\<open>ls\<close>, and the lines that pipe or redirect it.\<close>

definition ls_command :: "string \<Rightarrow> bool" where
  "ls_command line \<longleftrightarrow> fst (split_tokens line 16) > 0 \<and> snd (split_tokens line 16) ! 0 = ''ls''"

definition ls_line :: "string \<Rightarrow> bool" where
  "ls_line line \<longleftrightarrow> (case scan_line line 0 [] [] of (mode, left, right) \<Rightarrow> mode \<noteq> 0 \<and> ls_command left)"

text \<open>
  A simple command ends, stays inside its buffers, and changes no file and no open descriptor. It leaves a terminated
  output, unless it fails or is an \<^verbatim>\<open>ls\<close> that found the output without a null.
\<close>

lemma run_simple_safe:
  assumes "sh_ok root s" "out \<noteq> []" "case inp of None \<Rightarrow> True | Some buf \<Rightarrow> NUL \<in> set buf"
  shows "\<exists>r out' s'. run_simple (tmpfs_vnodes nm_alloc) line out inp s = Some (r, out', s') \<and> (r = 0 \<or> r = - 1) \<and>
    length out' = length out \<and> (NUL \<in> set out \<or> r = 0 \<and> \<not> ls_command line \<longrightarrow> NUL \<in> set out') \<and> reads_only s s'"
proof -
  let ?vm = "tmpfs_vnodes nm_alloc"
  obtain argc argv where sp: "split_tokens line 16 = (argc, argv)" by (meson surj_pair)
  note ne = assms(2)
  have self: "reads_only s s" by (simp add: reads_only_def)
  consider "argc \<le> 0" | "argc > 0" "argv ! 0 = ''echo''" | "argc > 0" "argv ! 0 = ''cat''" | "argc > 0" "argv ! 0 = ''ls''"
    | "argc > 0" "argv ! 0 \<notin> {''echo'', ''cat'', ''ls''}" by fastforce
  then show ?thesis
  proof cases
    case 1
    then show ?thesis using sp ne self by (auto simp: run_simple_def put_char_def set_update_memI)
  next
    case 2
    then show ?thesis using sp cmd_echo_correct [OF ne, of argv s] self filled_NUL by (auto simp: run_simple_def)
  next
    case 3
    have rs: "run_simple ?vm line out inp s = cmd_cat ?vm argv out inp s" using 3 sp by (simp add: run_simple_def)
    show ?thesis
    proof (cases "length argv = 1")
      case True
      obtain body where b: "(case inp of None \<Rightarrow> Some [] | Some buf \<Rightarrow> c_chars buf) = Some body"
        using assms(3) by (cases inp) (auto simp: c_chars_def)
      show ?thesis
        using rs out_append_filled [OF holds_start [OF ne], of body] True b self filled_NUL by (auto simp: cmd_cat_def)
    next
      case False
      obtain fd st1 f1 where op: "fs_open ?vm (Some (argv ! 1)) 0 0 (sh_vfs s) (sh_fs s) = (fd, st1, f1)" by (metis prod_cases3)
      note oc = fs_open_cases [OF assms(1) op]
      show ?thesis
      proof (cases "fd < 0")
        case True
        then have "cmd_cat ?vm argv out inp s = Some (- 1, out, \<lparr>sh_vfs = st1, sh_fs = f1\<rparr>)" using False op by (simp add: cmd_cat_def)
        moreover have "reads_only s \<lparr>sh_vfs = st1, sh_fs = f1\<rparr>" using oc(2-5) True by (simp add: reads_only_def same_vfs_def)
        ultimately show ?thesis using rs by simp
      next
        case fd: False
        then obtain n where "open_node (argv ! 1) 0 (sh_vfs s) (sh_fs s) = (Some n, f1)" using oc(6) by auto
        then show ?thesis using cmd_cat_file [OF assms(1) ne False op, of n inp] fd rs filled_NUL by fastforce
      qed
    qed
  next
    case 4
    obtain out' used' where "ls_loop ?vm ls_candidates out 0 s = Some (out', used')" "length out' = length out"
      "holds out' (fit (length out) (ls_text ?vm ls_candidates s)) used'"
      "if ls_text ?vm ls_candidates s = [] then out' = out else out' ! used' = NUL"
      using ls_loop_text [OF holds_start [OF ne], of ?vm ls_candidates s] by auto
    moreover have "ls_command line" using 4 sp by (simp add: ls_command_def)
    ultimately show ?thesis using 4 sp self holds_NUL [of out' _ used'] by (auto simp: run_simple_def cmd_ls_def split: if_splits)
  next
    case 5
    then show ?thesis using sp self by (auto simp: run_simple_def)
  qed
qed

text \<open>A buffer without a null is read only by a \<^verbatim>\<open>cat\<close> of its input and by a redirection that could open its file.\<close>

lemma run_simple_no_null:
  "NUL \<notin> set buf \<Longrightarrow> run_simple vm line out (Some buf) s = None \<or> run_simple vm line out (Some buf) s = run_simple vm line out None s"
  by (auto simp: run_simple_def cmd_cat_def c_chars_def split: prod.splits)

lemma redirect_no_null:
  "NUL \<notin> set tmp \<Longrightarrow> redirect vm right tmp out s = None \<or> redirect vm right tmp out s = redirect vm right [NUL] out s \<and> fst (the (redirect vm right tmp out s)) = - 1"
  by (auto simp: redirect_def str_len_def c_chars_def Let_def split: prod.splits)

lemma fs_write_keeps:
  assumes "fs_write (tmpfs_vnodes nm_alloc) fd (Some buf) st f = Some (r, st', f')" "opened_file tm_ok live st f fd n pos"
  shows "tmpfs_lookup k name f' = tmpfs_lookup k name f" "live f' m \<longleftrightarrow> live f m"
proof -
  obtain fl where e: "tm_ok f" "live f n" "open_file fd st = Some fl" "f_vnode fl = Some n" using assms(2) by (auto simp: opened_file_def)
  then have ops: "vm_ops (tmpfs_vnodes nm_alloc) n f = Some (tmpfs_file_ops nm_alloc)"
    using tm_okD(2) [of f n] by (simp add: tmpfs_vnodes_def)
  obtain q where "tmpfs_write nm_alloc n buf (f_offset fl) f = Some (q, f')"
    using assms(1) e ops by (auto simp: fs_write_def tmpfs_file_ops_def)
  from write_frame [OF this tm_okD(1) [OF e(1,2)]] obtain d sz c where
    "tm_nodes f' = (tm_nodes f)[n := (tm_nodes f ! n)\<lparr>vn_data := d, vn_size := sz, vn_capacity := c\<rparr>]" by blast
  from write_keeps_names [OF this] show "tmpfs_lookup k name f' = tmpfs_lookup k name f" "live f' m \<longleftrightarrow> live f m" by blast+
qed

lemma redirect_safe:
  assumes "sh_ok root s" "NUL \<in> set tmp" "length tmp < 2 ^ 63"
  shows "\<exists>r s'. redirect (tmpfs_vnodes nm_alloc) right tmp out s = Some (r, out, s') \<and> (r = 0 \<or> r = - 1) \<and>
    sh_ok root s' \<and> same_vfs (sh_vfs s) (sh_vfs s')"
proof -
  let ?vm = "tmpfs_vnodes nm_alloc"
  obtain c toks where sp: "split_tokens right 8 = (c, toks)" by (meson surj_pair)
  obtain fd st1 f1 where op: "fs_open ?vm (Some (toks ! 0)) 0x42 0x1A4 (sh_vfs s) (sh_fs s) = (fd, st1, f1)" by (metis prod_cases3)
  note oc = fs_open_cases [OF assms(1) op]
  obtain k where k: "str_len tmp = Some k" "k \<le> length tmp"
    using assms(2) length_takeWhile_le [of "\<lambda>c. c \<noteq> NUL" tmp] by (auto simp: str_len_def c_chars_def)
  let ?buf = "map byte_of_char (take k tmp)"
  consider "c \<noteq> 1" | "c = 1" "fd < 0" | "c = 1" "0 \<le> fd" by linarith
  then show ?thesis
  proof cases
    case 1
    then show ?thesis using sp assms(1) by (simp add: redirect_def)
  next
    case 2
    then have "redirect ?vm right tmp out s = Some (- 1, out, \<lparr>sh_vfs = st1, sh_fs = f1\<rparr>)" using sp op by (simp add: redirect_def)
    then show ?thesis using oc(1,3,4,5) 2 by (simp add: same_vfs_def)
  next
    case 3
    obtain n where n: "opened_file tm_ok live st1 f1 fd n 0" using oc(6) [OF 3(2)] by blast
    have "\<exists>r st2 f2. fs_write ?vm fd (Some ?buf) st1 f1 = Some (r, st2, f2) \<and> (\<exists>pos. opened_file tm_ok live st2 f2 fd n pos) \<and> (live f1 root \<longrightarrow> live f2 root)"
    proof (cases "is_file f1 n")
      case True
      obtain r st2 f2 where w: "fs_write ?vm fd (Some ?buf) st1 f1 = Some (r, st2, f2)" "\<exists>pos. opened_file tm_ok is_file st2 f2 fd n pos"
        using tmfile.write_open [OF opened_live [OF n True], of ?buf nm_alloc] k(2) assms(3) by auto
      then have "live f1 m \<longleftrightarrow> live f2 m" for m using fs_write_keeps [OF w(1) n] by blast
      then show ?thesis using w opened_is_live by blast
    next
      case False
      then show ?thesis using directory_io(2) [OF n False, of nm_alloc ?buf] n by blast
    qed
    then obtain r st2 f2 pos where w: "fs_write ?vm fd (Some ?buf) st1 f1 = Some (r, st2, f2)"
      "opened_file tm_ok live st2 f2 fd n pos" "live f1 root \<Longrightarrow> live f2 root" by blast
    note sm = fs_write_same [OF w(1)] 
    have rd: "redirect ?vm right tmp out s = Some (0, out, \<lparr>sh_vfs = snd (fs_close fd st2), sh_fs = f2\<rparr>)"
      using sp op 3 k(1) w(1) by (simp add: redirect_def)
    have same: "same_vfs (sh_vfs s) (snd (fs_close fd st2))" by (rule close_reads_only [OF op assms(1) 3(2) sm w(2)])
    have "tm_ok f2" using w(2) by (simp add: opened_file_def)
    then show ?thesis
      using rd same same_vfs_length [OF same] same_vfs_mounted [OF same] oc(1) w(3) assms(1) by (auto simp: sh_ok_def)
  qed
qed

section \<open>Lines and scripts\<close>

lemma scan_line_mode:
  "scan_line cs mode l r = (m, l', r') \<Longrightarrow> CHR ''>'' \<notin> set cs \<Longrightarrow> mode \<noteq> 2 \<Longrightarrow> m \<noteq> 2"
  by (induction cs mode l r rule: scan_line.induct) (auto split: if_splits)

lemma scan_line_modes: "scan_line cs mode l r = (m, l', r') \<Longrightarrow> mode \<le> 2 \<Longrightarrow> m \<le> 2"
  by (induction cs mode l r rule: scan_line.induct) (auto split: if_splits)

text \<open>What a line leaves: the output keeps its size and is terminated, the file system is well formed, no descriptor leaks.\<close>

definition line_done :: "nat \<Rightarrow> bool \<Rightarrow> 'h tmpfs_state shell_fs \<Rightarrow> char list \<Rightarrow> int \<times> char list \<times> 'h tmpfs_state shell_fs \<Rightarrow> bool" where
  "line_done root redirects s out = (\<lambda>(r, out', s'). (r = 0 \<or> r = - 1) \<and> length out' = length out \<and> NUL \<in> set out' \<and> sh_ok root s' \<and>
     same_vfs (sh_vfs s) (sh_vfs s') \<and> (\<not> redirects \<longrightarrow> sh_fs s' = sh_fs s))"

lemma line_done_reads:
  "sh_ok root s \<Longrightarrow> reads_only s s' \<Longrightarrow> r = 0 \<or> r = - 1 \<Longrightarrow> length out' = length out \<Longrightarrow> NUL \<in> set out' \<Longrightarrow> line_done root b s out (r, out', s')"
  using reads_only_ok by (auto simp: line_done_def reads_only_def)

lemma line_done_trans: "reads_only s s1 \<Longrightarrow> line_done root b s1 out x \<Longrightarrow> line_done root b s out x"
  using same_vfs_trans by (cases x) (auto simp: line_done_def reads_only_def)

text \<open>The second half of a pipe or a redirection, from what the first half left in the array.\<close>

lemma second_half_safe:
  assumes "sh_ok root s" "NUL \<in> set out" "length tmp < 2 ^ 63" "mode = 1 \<or> mode = 2"
    "run = (if mode = 1 then run_simple (tmpfs_vnodes nm_alloc) right out (Some tmp) s else redirect (tmpfs_vnodes nm_alloc) right tmp out s)"
  shows "(\<exists>x. run = Some x \<and> line_done root (mode = 2) s out x) \<or> run = None \<and> NUL \<notin> set tmp"
proof (cases "mode = 1")
  case True
  have ne: "out \<noteq> []" using assms(2) by auto
  have ok: "\<exists>x. run_simple (tmpfs_vnodes nm_alloc) right out inp s = Some x \<and> line_done root (mode = 2) s out x"
    if "case inp of None \<Rightarrow> True | Some buf \<Rightarrow> NUL \<in> set buf" for inp
    using run_simple_safe [OF assms(1) ne that, of nm_alloc right] line_done_reads [OF assms(1)] assms(2) by blast
  show ?thesis
  proof (cases "NUL \<in> set tmp")
    case t: True
    then show ?thesis using ok [of "Some tmp"] True assms(5) by simp
  next
    case False
    then show ?thesis using run_simple_no_null [OF False, of "tmpfs_vnodes nm_alloc" right out s] ok [of None] True assms(5) by auto
  qed
next
  case False
  have ok: "\<exists>x. redirect (tmpfs_vnodes nm_alloc) right t out s = Some x \<and> line_done root (mode = 2) s out x" if "NUL \<in> set t" "length t < 2 ^ 63" for t
    using redirect_safe [OF assms(1) that, of nm_alloc right out] assms(2,4) False by (auto simp: line_done_def)
  show ?thesis
  proof (cases "NUL \<in> set tmp")
    case True
    then show ?thesis using ok [OF _ assms(3)] False assms(5) by simp
  next
    case n: False
    then show ?thesis using redirect_no_null [OF n, of "tmpfs_vnodes nm_alloc" right out s] ok [of "[NUL]"] False assms(5) by auto
  qed
qed

lemma execute_line_safe:
  assumes "sh_ok root s" "out \<noteq> []" "tmp \<noteq> []" "length tmp < 2 ^ 63"
    "run = shell_execute_line (tmpfs_vnodes nm_alloc) tmp (Some line) out s"
  shows "(\<exists>x. run = Some x \<and> line_done root (CHR ''>'' \<in> set line) s out x) \<or> run = None \<and> ls_line line \<and> NUL \<notin> set tmp"
proof -
  let ?vm = "tmpfs_vnodes nm_alloc" and ?out = "out[0 := NUL]"
  obtain mode left right where sc: "scan_line line 0 [] [] = (mode, left, right)" by (metis prod_cases3)
  have o: "put_char out 0 NUL = Some ?out" "NUL \<in> set ?out" "length ?out = length out" "?out \<noteq> []"
    using assms(2) by (auto simp: put_char_def set_update_memI)
  have same: "line_done root b s ?out x = line_done root b s out x" for b x by (cases x) (simp add: line_done_def)
  show ?thesis
  proof (cases "mode = 0")
    case True
    then have "run = run_simple ?vm left ?out None s" using assms(2,5) o(1) sc by (simp add: shell_execute_line_def)
    then show ?thesis using run_simple_safe [OF assms(1) o(4), of None nm_alloc left] line_done_reads [OF assms(1)] o(2,3) by fastforce
  next
    case False
    obtain r1 tmp1 s1 where l: "run_simple ?vm left tmp None s = Some (r1, tmp1, s1)" "length tmp1 = length tmp"
      "NUL \<in> set tmp \<or> r1 = 0 \<and> \<not> ls_command left \<longrightarrow> NUL \<in> set tmp1" "reads_only s s1"
      using run_simple_safe [OF assms(1,3), of None nm_alloc left] by auto
    show ?thesis
    proof (cases "r1 = 0")
      case True
      define fin where "fin = (if mode = 1 then run_simple ?vm right ?out (Some tmp1) s1 else redirect ?vm right tmp1 ?out s1)"
      have m: "mode = 1 \<or> mode = 2" using False scan_line_modes [OF sc] by linarith
      have r: "run = fin" using False True assms(2,5) o(1) sc l(1) by (simp add: shell_execute_line_def fin_def)
      have gt: "mode = 2 \<Longrightarrow> CHR ''>'' \<in> set line" using scan_line_mode [OF sc] by auto
      have mono: "line_done root (mode = 2) s out x \<Longrightarrow> line_done root (CHR ''>'' \<in> set line) s out x" for x
        using gt by (cases x) (auto simp: line_done_def)
      from second_half_safe [OF reads_only_ok [OF l(4) assms(1)] o(2) _ m fin_def] show ?thesis
        using line_done_trans [OF l(4)] mono l(2,3) True False assms(4) r sc same by (fastforce simp: ls_line_def)
    next
      case r: False
      then have "run = Some (- 1, ?out, s1)" using False assms(2,5) o(1) sc l(1) by (simp add: shell_execute_line_def)
      then show ?thesis using line_done_reads [OF assms(1) l(4)] o(2,3) by auto
    qed
  qed
qed

lemma script_line_safe:
  assumes "sh_ok root s" "filled out acc" "length (fst stack) = 512" "length (snd stack) = 512"
    "run = script_line (tmpfs_vnodes nm_alloc) stack line out (length acc) s"
  shows "(\<exists>out' acc' s'. run = Some (out', length acc', s') \<and> filled out' acc' \<and> length out' = length out \<and> sh_ok root s' \<and>
      same_vfs (sh_vfs s) (sh_vfs s') \<and> (CHR ''>'' \<notin> set line \<longrightarrow> sh_fs s' = sh_fs s)) \<or>
    run = None \<and> ls_line line \<and> NUL \<notin> set (snd stack)"
proof (cases "line = []")
  case True
  then show ?thesis using assms by (auto simp: script_line_def)
next
  case False
  define ex where "ex = shell_execute_line (tmpfs_vnodes nm_alloc) (snd stack) (Some line) (fst stack) s"
  have ne: "fst stack \<noteq> []" "snd stack \<noteq> []" "length (snd stack) < 2 ^ 63" using assms(3,4) by auto
  from execute_line_safe [OF assms(1) ne ex_def] show ?thesis
  proof
    assume "\<exists>x. ex = Some x \<and> line_done root (CHR ''>'' \<in> set line) s (fst stack) x"
    then obtain r one s1 where e: "ex = Some (r, one, s1)" "NUL \<in> set one" "sh_ok root s1" "same_vfs (sh_vfs s) (sh_vfs s1)"
      "CHR ''>'' \<notin> set line \<longrightarrow> sh_fs s1 = sh_fs s" by (auto simp: line_done_def)
    obtain body where b: "c_chars one = Some body" using e(2) by (simp add: c_chars_def)
    obtain out1 where o: "out_append out (length acc) (Some body) = Some (out1, length (fit (length out) (acc @ body)))"
      "length out1 = length out" "filled out1 (fit (length out) (acc @ body))"
      using out_append_filled [OF filled_holds [OF assms(2)], of body] by blast
    show ?thesis
    proof (cases "r = 0 \<and> hd one \<noteq> NUL")
      case True
      then have "run = Some (out1, length (fit (length out) (acc @ body)), s1)"
        using False e(1) b o(1) assms(5) by (simp add: script_line_def ex_def)
      then show ?thesis using o(2,3) e(3-5) by blast
    next
      case stop: False
      then have "run = Some (out, length acc, s1)" using False e(1) assms(5) by (auto simp: script_line_def ex_def)
      then show ?thesis using assms(2) e(3-5) by blast
    qed
  next
    assume "ex = None \<and> ls_line line \<and> NUL \<notin> set (snd stack)"
    then show ?thesis using False assms(5) by (simp add: script_line_def ex_def)
  qed
qed

text \<open>The lines that a script is cut into.\<close>

fun script_lines :: "string \<Rightarrow> string \<Rightarrow> string list" where
  "script_lines [] line = [line]"
| "script_lines (ch # script) line =
     (if ch \<noteq> CHR 0x0A \<and> length line + 1 < 256 then script_lines script (line @ [ch]) else line # script_lines script [])"

lemma script_lines_chars: "l \<in> set (script_lines script line) \<Longrightarrow> set l \<subseteq> set line \<union> set script"
proof (induction script line rule: script_lines.induct)
  case (2 ch script line)
  then show ?case by (auto split: if_splits)
qed simp

lemma script_loop_safe:
  assumes "\<forall>i. length (fst (stack i)) = 512 \<and> length (snd (stack i)) = 512"
  shows "sh_ok root s \<Longrightarrow> filled out acc \<Longrightarrow>
    (\<exists>out' s'. script_loop (tmpfs_vnodes nm_alloc) stack i script line out (length acc) s = Some (0, out', s') \<and>
      length out' = length out \<and> NUL \<in> set out' \<and> sh_ok root s' \<and> same_vfs (sh_vfs s) (sh_vfs s') \<and>
      ((\<forall>l \<in> set (script_lines script line). CHR ''>'' \<notin> set l) \<longrightarrow> sh_fs s' = sh_fs s)) \<or>
    script_loop (tmpfs_vnodes nm_alloc) stack i script line out (length acc) s = None \<and>
      (\<exists>l \<in> set (script_lines script line). ls_line l) \<and> (\<exists>i. NUL \<notin> set (snd (stack i)))"
proof (induction script arbitrary: i line out acc s)
  case Nil
  have stk: "length (fst (stack i)) = 512" "length (snd (stack i)) = 512" using assms by auto
  from script_line_safe [OF Nil stk HOL.refl, of nm_alloc line] show ?case
  proof
    assume "\<exists>out' acc' s'. script_line (tmpfs_vnodes nm_alloc) (stack i) line out (length acc) s = Some (out', length acc', s') \<and> filled out' acc' \<and>
      length out' = length out \<and> sh_ok root s' \<and> same_vfs (sh_vfs s) (sh_vfs s') \<and> (CHR ''>'' \<notin> set line \<longrightarrow> sh_fs s' = sh_fs s)"
    then show ?thesis using filled_NUL by (intro disjI1) fastforce
  qed auto
next
  case (Cons ch script)
  let ?vm = "tmpfs_vnodes nm_alloc"
  show ?case
  proof (cases "ch \<noteq> CHR 0x0A \<and> length line + 1 < 256")
    case True
    then show ?thesis using Cons.IH [OF Cons.prems, of "i + 1" "line @ [ch]"] by simp
  next
    case False
    have stk: "length (fst (stack i)) = 512" "length (snd (stack i)) = 512" using assms by auto
    have step: "script_loop ?vm stack i (ch # script) line out (length acc) s =
        do { (out, used, s) \<leftarrow> script_line ?vm (stack i) line out (length acc) s; script_loop ?vm stack (i + 1) script [] out used s }"
      and lines: "script_lines (ch # script) line = line # script_lines script []" using False by auto
    from script_line_safe [OF Cons.prems stk HOL.refl, of nm_alloc line] show ?thesis
    proof
      assume "script_line ?vm (stack i) line out (length acc) s = None \<and> ls_line line \<and> NUL \<notin> set (snd (stack i))"
      then show ?thesis using step lines by auto
    next
      assume "\<exists>out' acc' s'. script_line ?vm (stack i) line out (length acc) s = Some (out', length acc', s') \<and> filled out' acc' \<and>
        length out' = length out \<and> sh_ok root s' \<and> same_vfs (sh_vfs s) (sh_vfs s') \<and> (CHR ''>'' \<notin> set line \<longrightarrow> sh_fs s' = sh_fs s)"
      then obtain out1 acc1 s1 where l: "script_line ?vm (stack i) line out (length acc) s = Some (out1, length acc1, s1)"
        "filled out1 acc1" "length out1 = length out" "sh_ok root s1" "same_vfs (sh_vfs s) (sh_vfs s1)" "CHR ''>'' \<notin> set line \<longrightarrow> sh_fs s1 = sh_fs s"
        by blast
      have st: "script_loop ?vm stack i (ch # script) line out (length acc) s = script_loop ?vm stack (i + 1) script [] out1 (length acc1) s1"
        using step l(1) by simp
      show ?thesis
        using Cons.IH [OF l(4,2), of "i + 1" "[]"] l(3,5,6) same_vfs_trans [OF l(5)] unfolding st lines by auto
    qed
  qed
qed

text \<open>
  When none of the four names that \<^verbatim>\<open>ls\<close> knows exists, the command leaves its output buffer as it found
  it: in a pipe or a redirection that is the uninitialised local array.
\<close>

lemma ls_leaves_buffer:
  assumes "ls_text vm ls_candidates s = []" "out \<noteq> []"
  shows "cmd_ls vm out s = Some (0, out, s)"
  using ls_loop_text [OF holds_start [OF assms(2)], of vm ls_candidates s] assms(1) by (auto simp: cmd_ls_def)

lemma ls_pipe_overreads:
  assumes "ls_text vm ls_candidates s = []" "out \<noteq> []" "length (fst (stack 8)) = 512" "length (snd (stack 8)) = 512" "NUL \<notin> set (snd (stack 8))"
  shows "shell_run_script vm stack (Some ''ls | cat'') out s = None"
proof -
  have sp: "split_tokens ''ls '' 16 = (1, [''ls''])" "split_tokens '' cat'' 16 = (1, [''cat''])" by code_simp+
  have sc: "scan_line ''ls | cat'' 0 [] [] = (1, ''ls '', '' cat'')" by code_simp
  have ne: "fst (stack 8) \<noteq> []" "snd (stack 8) \<noteq> []" using assms(3,4) by auto
  have "run_simple vm ''ls '' (snd (stack 8)) None s = Some (0, snd (stack 8), s)"
    using sp(1) ls_leaves_buffer [OF assms(1) ne(2)] by (simp add: run_simple_def)
  moreover have "run_simple vm '' cat'' out' (Some (snd (stack 8))) s = None" for out'
    using sp(2) assms(5) by (simp add: run_simple_def cmd_cat_def c_chars_def)
  ultimately have "shell_execute_line vm (snd (stack 8)) (Some ''ls | cat'') (fst (stack 8)) s = None"
    unfolding shell_execute_line_def option.case sc Let_def prod.case using ne(1) by (simp add: put_char_def)
  then show ?thesis using assms(2) by (simp add: shell_run_script_def script_line_def put_char_def numeral_eq_Suc)
qed


section \<open>Echo into a file, then show it\<close>

definition word_ok :: "string \<Rightarrow> bool" where
  "word_ok w \<longleftrightarrow> w \<noteq> [] \<and> length w \<le> 63 \<and> (\<forall>c \<in> set w. \<not> blank c \<and> c \<noteq> NUL \<and> c \<noteq> CHR ''|'' \<and> c \<noteq> CHR ''>'')"

lemma token_loop_Nil [simp]: "token_loop m [] toks = (int (length toks), toks)"
  by (subst token_loop.simps) simp

lemma token_loop_blank: "blank c \<Longrightarrow> token_loop m (c # rest) toks = token_loop m rest toks"
  by (subst (1 2) token_loop.simps) simp

lemma token_loop_word:
  assumes "word_ok w" "rest = [] \<or> blank (hd rest)" "int (length toks) < m"
  shows "token_loop m (w @ rest) toks = token_loop m rest (toks @ [w])"
proof -
  have nb: "\<forall>c \<in> set w. \<not> blank c" "length w \<le> 63" using assms(1) by (auto simp: word_ok_def)
  obtain c cs where w: "w = c # cs" "\<not> blank c" using assms(1) by (cases w) (auto simp: word_ok_def)
  have "dropWhile blank (w @ rest) = w @ rest" using w by simp
  moreover have "takeWhile (\<lambda>c. \<not> blank c) (w @ rest) = w" "dropWhile (\<lambda>c. \<not> blank c) (w @ rest) = rest"
    using nb(1) assms(2) by (cases rest; simp add: takeWhile_append dropWhile_append)+
  ultimately show ?thesis using w(1) nb(2) assms(3) by (subst token_loop.simps) (simp add: Let_def)
qed

lemma token_loop_words:
  "\<forall>w \<in> set ws. word_ok w \<Longrightarrow> rest = [] \<or> blank (hd rest) \<Longrightarrow> int (length toks + length ws) \<le> m \<Longrightarrow>
    token_loop m (spaced ws @ rest) toks = token_loop m rest (toks @ ws)"
proof (induction ws arbitrary: toks rule: spaced.induct)
  case 1
  then show ?case by simp
next
  case (2 a)
  then show ?case using token_loop_word [of a rest toks m] by simp
next
  case (3 a b as)
  have b: "blank CHR '' ''" by (simp add: blank_def)
  have "token_loop m (a @ CHR '' '' # spaced (b # as) @ rest) toks = token_loop m (CHR '' '' # spaced (b # as) @ rest) (toks @ [a])"
    using 3(2,4) b by (intro token_loop_word) auto
  then show ?case using 3 b by (simp add: token_loop_blank)
qed

lemma scan_line_left:
  "CHR ''|'' \<notin> set xs \<Longrightarrow> CHR ''>'' \<notin> set xs \<Longrightarrow> length l + length xs < 128 \<Longrightarrow>
    scan_line (xs @ ys) 0 l r = scan_line ys 0 (l @ xs) r"
  by (induction xs arbitrary: l) auto

lemma scan_line_right: "m \<noteq> 0 \<Longrightarrow> length r + length xs < 128 \<Longrightarrow> scan_line xs m l r = (m, l, r @ xs)"
  by (induction xs arbitrary: r) auto

lemma spaced_chars: "c \<in> set (spaced ws) \<Longrightarrow> c = CHR '' '' \<or> (\<exists>w \<in> set ws. c \<in> set w)"
  by (induction ws rule: spaced.induct) auto

lemma word_chars: "word_ok w \<Longrightarrow> CHR ''|'' \<notin> set w \<and> CHR ''>'' \<notin> set w \<and> NUL \<notin> set w"
  by (auto simp: word_ok_def)

lemma char_byte [simp]: "char_of_byte (byte_of_char c) = c"
proof -
  have "of_char c < (256 :: nat)" by (metis UNIV_I atLeastLessThan_iff image_eqI range_nat_of_char)
  then have "unat (of_nat (of_char c) :: u8) = of_char c" by (simp add: unat_of_nat)
  then have "unat (of_char c :: u8) = of_char c" by (metis of_nat_of_char)
  then show ?thesis by (simp add: char_of_byte_def byte_of_char_def)
qed

lemma run_echo:
  assumes "\<forall>w \<in> set ws. word_ok w" "length ws \<le> 15" "out \<noteq> []"
  shows "\<exists>out'. run_simple vm (''echo '' @ spaced ws @ '' '') out inp s = Some (0, out', s) \<and> length out' = length out \<and>
    filled out' (fit (length out) (spaced ws @ [CHR 0x0A]))"
proof -
  have b: "blank CHR '' ''" by (simp add: blank_def)
  have e: "word_ok ''echo''" by (simp add: word_ok_def blank_def NUL_def char_of_def)
  have "token_loop 16 (''echo'' @ CHR '' '' # spaced ws @ '' '') [] = (int (Suc (length ws)), ''echo'' # ws)"
    using token_loop_word [OF e, of "CHR '' '' # spaced ws @ '' ''" "[]" 16] b assms(1,2)
      token_loop_words [OF assms(1), of "'' ''" "[''echo'']" 16]
    by (simp add: token_loop_blank)
  then have "split_tokens (''echo '' @ spaced ws @ '' '') 16 = (int (Suc (length ws)), ''echo'' # ws)" by (simp add: split_tokens_def)
  then show ?thesis using cmd_echo_correct [OF assms(3), of "''echo'' # ws" s] by (simp add: run_simple_def)
qed

lemma run_cat:
  assumes "word_ok p"
  shows "run_simple vm (''cat '' @ p) out inp s = cmd_cat vm [''cat'', p] out inp s"
proof -
  have b: "blank CHR '' ''" by (simp add: blank_def)
  have e: "word_ok ''cat''" by (simp add: word_ok_def blank_def NUL_def char_of_def)
  have "token_loop 16 (''cat'' @ CHR '' '' # p) [] = (2, [''cat'', p])"
    using token_loop_word [OF e, of "CHR '' '' # p" "[]" 16] token_loop_word [OF assms, of "[]" "[''cat'']" 16] b
    by (simp add: token_loop_blank)
  then have "split_tokens (''cat '' @ p) 16 = (2, [''cat'', p])" by (simp add: split_tokens_def)
  then show ?thesis by (simp add: run_simple_def)
qed

lemma execute_echo:
  assumes "\<forall>w \<in> set ws. word_ok w" "length ws \<le> 15" "length (spaced ws) \<le> 121" "word_ok p" "out \<noteq> []" "length tmp = 512"
  shows "\<exists>tmp'. filled tmp' (spaced ws @ [CHR 0x0A]) \<and> length tmp' = 512 \<and>
    shell_execute_line vm tmp (Some (''echo '' @ spaced ws @ '' > '' @ p)) out s = redirect vm (CHR '' '' # p) tmp' (out[0 := NUL]) s"
proof -
  let ?l = "''echo '' @ spaced ws @ '' ''"
  have nl: "CHR ''|'' \<notin> set ?l" "CHR ''>'' \<notin> set ?l" using spaced_chars [of _ ws] word_chars assms(1) by auto
  have "scan_line (?l @ CHR ''>'' # CHR '' '' # p) 0 [] [] = scan_line (CHR ''>'' # CHR '' '' # p) 0 ?l []"
    using scan_line_left [OF nl, of "[]" "CHR ''>'' # CHR '' '' # p" "[]"] assms(3) by simp
  moreover have "length p \<le> 63" using assms(4) by (simp add: word_ok_def)
  ultimately have sc: "scan_line (''echo '' @ spaced ws @ '' > '' @ p) 0 [] [] = (2, ?l, CHR '' '' # p)"
    using scan_line_right [of 2 "[]" "CHR '' '' # p" ?l] by simp
  have ne: "tmp \<noteq> []" using assms(6) by auto
  obtain tmp' where t: "run_simple vm ?l tmp None s = Some (0, tmp', s)" "filled tmp' (fit (length tmp) (spaced ws @ [CHR 0x0A]))"
    "length tmp' = length tmp"
    using run_echo [OF assms(1,2) ne, of vm None s] by auto
  have "fit (length tmp) (spaced ws @ [CHR 0x0A]) = spaced ws @ [CHR 0x0A]" using assms(3,6) by (simp add: fit_short)
  moreover have "shell_execute_line vm tmp (Some (''echo '' @ spaced ws @ '' > '' @ p)) out s = redirect vm (CHR '' '' # p) tmp' (out[0 := NUL]) s"
    unfolding shell_execute_line_def option.case sc Let_def prod.case using assms(5) t(1) by (simp add: put_char_def)
  ultimately show ?thesis using t(2,3) assms(6) by auto
qed

lemma open_node_0: "open_node p 0 st f = (Some n, f') \<longleftrightarrow> fst (resolve_path st f (Some p) False) = Some n \<and> f' = f"
  by (auto simp: open_node_def split: option.splits)

text \<open>What opening for a redirection finds: the file that is there, or a new empty one.\<close>

definition old_text :: "'h tmpfs_state shell_fs \<Rightarrow> string \<Rightarrow> string \<Rightarrow> bool" where
  "old_text s p old \<longleftrightarrow>
     (case fst (resolve_path (sh_vfs s) (sh_fs s) (Some p) False) of
        None \<Rightarrow> old = []
      | Some n \<Rightarrow> is_file (sh_fs s) n \<and> old = map char_of_byte (tm_content (sh_fs s) n))"

lemma open_node_old:
  assumes "sh_ok root s" "good_path p" "old_text s p old" "open_node p 0x42 (sh_vfs s) (sh_fs s) = (Some n, f1)"
  shows "is_file f1 n" "map char_of_byte (tm_content f1 n) = old" "fst (resolve_path (sh_vfs s) f1 (Some p) False) = Some n"
proof -
  let ?st = "sh_vfs s" and ?f = "sh_fs s" and ?ps = "path_parts p"
  have ok: "tm_ok ?f" "mounted tmpfs_ops root ?st" "live ?f root" using assms(1) by (auto simp: sh_ok_def)
  have "is_file f1 n \<and> map char_of_byte (tm_content f1 n) = old \<and> fst (resolve_path ?st f1 (Some p) False) = Some n"
  proof (cases "fst (resolve_path ?st ?f (Some p) False)")
    case (Some m)
    then show ?thesis using assms(3,4) by (auto simp: open_node_def old_text_def)
  next
    case None
    have cf: "(0x42 :: u32) AND NM_O_CREAT \<noteq> 0" by (simp add: NM_O_CREAT_def)
    obtain d where d: "walk (\<lambda>d name. fs_op_lookup tmpfs_ops d name ?f) root (butlast ?ps) = Some d"
      and cr: "tmpfs_create d (last ?ps) NM_NODE_FILE 0x1A4 ?f = (Some n, f1)"
      using assms(4) ok(2) None cf resolve_good(2) [OF ok(2) assms(2), of ?f]
      by (auto simp: open_node_def mounted_def tmdir.create_op split: option.splits if_splits)
    have ld: "live ?f d" by (rule tmdir.walk_node [OF ok(1,3) d])
    note c = create_SomeD [OF ok(1) ld cr]
    have lk: "fs_op_lookup tmpfs_ops d (last ?ps) ?f = None" using c(6) by (simp add: tmpfs_ops_def)
    note o = tmdir.open_creates [OF ok assms(2) d lk cf cr]
    have "is_file f1 n" "tm_content f1 n = []"
      using c(7) create_live [OF ok(1) ld cr, of n] by (simp_all add: is_file_def tm_content_def node_bytes_def fresh_node_def)
    then show ?thesis using o(2) [of 0] None assms(3) by (simp add: open_node_0 old_text_def)
  qed
  then show "is_file f1 n" "map char_of_byte (tm_content f1 n) = old" "fst (resolve_path ?st f1 (Some p) False) = Some n" by auto
qed

lemma fs_open_free:
  assumes "sh_ok root s" "fs_open (tmpfs_vnodes nm_alloc) (Some p) flags mode (sh_vfs s) (sh_fs s) = (fd, st', f')"
    "open_node p flags (sh_vfs s) (sh_fs s) = (Some n, f')"
  shows "fd < 0 \<longleftrightarrow> count_if f_used (file_table (sh_vfs s)) = NM_FD_MAX"
proof -
  have ok: "tm_ok (sh_fs s)" "mounted tmpfs_ops root (sh_vfs s)" "live (sh_fs s) root" "length (file_table (sh_vfs s)) = NM_FD_MAX"
    using assms(1) by (auto simp: sh_ok_def)
  note o = open_node_ok [OF ok(1-3) assms(3)]
  show ?thesis using fs_open_found(6) [OF assms(3) o(1) o(3) ok(4) assms(2)] by simp
qed

lemma used_count: "count_if f_used (file_table st) = length (filter id (used_fds st))"
  by (simp add: used_fds_def count_if_def filter_map o_def)

lemma resolve_names:
  assumes "mounted tmpfs_ops root st" "good_path p" "root_fs st' = root_fs st" "root_vnode st' = root_vnode st"
    "\<And>d name. tmpfs_lookup d name f' = tmpfs_lookup d name f"
  shows "fst (resolve_path st' f' (Some p) False) = fst (resolve_path st f (Some p) False)"
proof -
  have "(\<lambda>d name. fs_op_lookup tmpfs_ops d name f') = (\<lambda>d name. fs_op_lookup tmpfs_ops d name f)"
    using assms(5) by (simp add: tmpfs_ops_def)
  then show ?thesis
    using resolve_good(1) [OF assms(1,2)] resolve_path_cong [OF assms(4,3), of f' "Some p" False] by simp
qed

text \<open>The file that a redirection leaves: written, or as it was when the write failed, which goes unnoticed.\<close>

lemma fs_write_calls:
  assumes "opened_file tm_ok is_file st f fd n pos" "fs_write (tmpfs_vnodes nm_alloc) fd (Some buf) st f = Some (r, st', f')"
  shows "tmpfs_write nm_alloc n buf (of_nat pos) f = Some (r, f')"
proof -
  note e = tmfile.opened_entry [OF assms(1)]
  obtain ops where "vm_ops (tmpfs_vnodes nm_alloc) n f = Some ops" "op_write ops = Some (tmpfs_write nm_alloc)"
    using tmfile.file_ops [OF e(7,8), of nm_alloc] by blast
  moreover have "f_offset (file_table st ! nat fd) = of_nat pos" by (simp flip: e(6))
  ultimately show ?thesis using assms(2) e(4,5) by (auto simp: fs_write_def)
qed

lemma redirect_writes:
  assumes "sh_ok root s" "word_ok p" "good_path p" "old_text s p old"
    "filled tmp body" "NUL \<notin> set body" "length body < 2 ^ 63"
    "redirect (tmpfs_vnodes nm_alloc) (CHR '' '' # p) tmp out s = Some (0, out', s1)"
  shows "\<exists>n f1 r. open_node p 0x42 (sh_vfs s) (sh_fs s) = (Some n, f1) \<and> is_file f1 n \<and>
    tmpfs_write nm_alloc n (map byte_of_char body) 0 f1 = Some (r, sh_fs s1) \<and>
    fst (resolve_path (sh_vfs s1) (sh_fs s1) (Some p) False) = Some n \<and> is_file (sh_fs s1) n \<and> sh_ok root s1 \<and>
    count_if f_used (file_table (sh_vfs s1)) \<noteq> NM_FD_MAX \<and>
    map char_of_byte (tm_content (sh_fs s1) n) = (if 0 \<le> r then body @ drop (length body) old else old)"
proof -
  let ?vm = "tmpfs_vnodes nm_alloc" and ?buf = "map byte_of_char body"
  have b: "blank CHR '' ''" by (simp add: blank_def)
  have sp: "split_tokens (CHR '' '' # p) 8 = (1, [p])"
    using token_loop_word [OF assms(2), of "[]" "[]" 8] token_loop_blank [OF b, of 8 p "[]"] by (simp add: split_tokens_def)
  obtain fd st1 f1 where op: "fs_open ?vm (Some p) 0x42 0x1A4 (sh_vfs s) (sh_fs s) = (fd, st1, f1)" by (metis prod_cases3)
  have len: "str_len tmp = Some (length body)" "take (length body) tmp = body"
    using filled_chars [OF assms(5,6)] assms(5) by (simp_all add: str_len_def filled_def holds_def)
  have fd: "0 \<le> fd" using assms(8) sp op by (auto simp: redirect_def Let_def split: if_splits)
  note oc = fs_open_cases [OF assms(1) op]
  obtain n where n: "open_node p 0x42 (sh_vfs s) (sh_fs s) = (Some n, f1)" "opened_file tm_ok live st1 f1 fd n 0"
    using oc(6) [OF fd] by blast
  note old = open_node_old [OF assms(1,3,4) n(1)]
  have opn: "opened_file tm_ok is_file st1 f1 fd n 0" by (rule opened_live [OF n(2) old(1)])
  obtain r st2 f2 where w: "fs_write ?vm fd (Some ?buf) st1 f1 = Some (r, st2, f2)"
    "r = int (length ?buf) \<and> overwrites (tm_content f1 n) 0 ?buf (tm_content f2 n) \<and> opened_file tm_ok is_file st2 f2 fd n (0 + length ?buf) \<or>
     r < 0 \<and> tm_content f2 n = tm_content f1 n \<and> opened_file tm_ok is_file st2 f2 fd n 0"
    using tmfile.write_open [OF opn, of ?buf nm_alloc] assms(7) by auto
  obtain pos where o2: "opened_file tm_ok is_file st2 f2 fd n pos" using w(2) by blast
  have s1: "s1 = \<lparr>sh_vfs = snd (fs_close fd st2), sh_fs = f2\<rparr>" using assms(8) sp op fd len w(1) by (simp add: redirect_def)
  have same: "same_vfs (sh_vfs s) (sh_vfs s1)"
    using close_reads_only [OF op assms(1) fd fs_write_same [OF w(1)] opened_is_live [OF o2]] s1 by simp
  note kp = fs_write_keeps [OF w(1) n(2)]
  have mt: "mounted tmpfs_ops root (sh_vfs s)" using assms(1) by (simp add: sh_ok_def)
  have "fst (resolve_path (sh_vfs s1) f2 (Some p) False) = Some n"
    using resolve_names [OF mt assms(3), of "sh_vfs s1" f2 f1] same kp(1) old(3) by (simp add: same_vfs_def)
  moreover have "sh_ok root s1"
    using o2 oc(1) kp(2) same_vfs_length [OF same] same_vfs_mounted [OF same] assms(1) s1 by (auto simp: sh_ok_def opened_file_def)
  moreover have "count_if f_used (file_table (sh_vfs s1)) \<noteq> NM_FD_MAX"
    using fs_open_free [OF assms(1) op n(1)] fd same used_count [of "sh_vfs s"] used_count [of "sh_vfs s1"] by (simp add: same_vfs_def)
  moreover have "map char_of_byte (tm_content f2 n) = (if 0 \<le> r then body @ drop (length body) old else old)"
    using w(2) old(2) by (auto simp: overwrites_def drop_map [symmetric] o_def)
  moreover have "tmpfs_write nm_alloc n ?buf 0 f1 = Some (r, f2)" using fs_write_calls [OF opn w(1)] by simp
  ultimately show ?thesis using o2 s1 n(1) old(1) by (auto simp: opened_file_def)
qed

lemma cat_shows:
  assumes "sh_ok root s" "word_ok p" "fst (resolve_path (sh_vfs s) (sh_fs s) (Some p) False) = Some n" "is_file (sh_fs s) n"
    "count_if f_used (file_table (sh_vfs s)) \<noteq> NM_FD_MAX" "out \<noteq> []"
  shows "\<exists>out' s'. shell_execute_line (tmpfs_vnodes nm_alloc) tmp (Some (''cat '' @ p)) out s = Some (0, out', s') \<and>
    filled out' (fit (length out) (map char_of_byte (tm_content (sh_fs s) n))) \<and> sh_fs s' = sh_fs s \<and> length out' = length out \<and> sh_ok root s'"
proof -
  let ?vm = "tmpfs_vnodes nm_alloc" and ?o = "out[0 := NUL]"
  have cs: "CHR ''|'' \<notin> set (''cat '' @ p)" "CHR ''>'' \<notin> set (''cat '' @ p)" "length (''cat '' @ p) < 128"
    using word_chars [OF assms(2)] assms(2) by (auto simp: word_ok_def)
  have sc: "scan_line (''cat '' @ p) 0 [] [] = (0, ''cat '' @ p, [])"
    using scan_line_left [OF cs(1,2), of "[]" "[]" "[]"] cs(3) by simp
  have e: "shell_execute_line ?vm tmp (Some (''cat '' @ p)) out s = cmd_cat ?vm [''cat'', p] ?o None s"
    unfolding shell_execute_line_def option.case sc Let_def prod.case using assms(6) run_cat [OF assms(2)] by (simp add: put_char_def)
  obtain fd st f where op: "fs_open ?vm (Some p) 0 0 (sh_vfs s) (sh_fs s) = (fd, st, f)" by (metis prod_cases3)
  have on: "open_node p 0 (sh_vfs s) (sh_fs s) = (Some n, f)" using assms(3) fs_open_cases(2) [OF assms(1) op] by (simp add: open_node_0)
  have "0 \<le> fd" using fs_open_free [OF assms(1) op on] assms(5) by simp
  then show ?thesis
    using cmd_cat_file [OF assms(1), of ?o "[''cat'', p]" nm_alloc fd st f n None] op on assms(4,6) e reads_only_ok [OF _ assms(1)]
    by (auto simp: reads_only_def)
qed

lemma echo_then_cat:
  assumes "sh_ok root s" "\<forall>w \<in> set ws. word_ok w" "length ws \<le> 15" "length (spaced ws) \<le> 121"
    "word_ok p" "good_path p" "old_text s p old" "length tmp = 512" "out \<noteq> []"
    "shell_execute_line (tmpfs_vnodes nm_alloc) tmp (Some (''echo '' @ spaced ws @ '' > '' @ p)) out s = Some (0, out1, s1)" "out2 \<noteq> []"
  shows "\<exists>n f1 r out3 s2. open_node p 0x42 (sh_vfs s) (sh_fs s) = (Some n, f1) \<and> is_file f1 n \<and>
    tmpfs_write nm_alloc n (map byte_of_char (spaced ws @ [CHR 0x0A])) 0 f1 = Some (r, sh_fs s1) \<and>
    shell_execute_line (tmpfs_vnodes nm_alloc) tmp2 (Some (''cat '' @ p)) out2 s1 = Some (0, out3, s2) \<and>
    filled out3 (fit (length out2) (if 0 \<le> r then spaced ws @ [CHR 0x0A] @ drop (length (spaced ws) + 1) old else old)) \<and>
    sh_fs s2 = sh_fs s1 \<and> length out3 = length out2 \<and> sh_ok root s2"
proof -
  let ?vm = "tmpfs_vnodes nm_alloc" and ?b = "spaced ws @ [CHR 0x0A]"
  obtain tmp' where t: "filled tmp' ?b"
    "shell_execute_line ?vm tmp (Some (''echo '' @ spaced ws @ '' > '' @ p)) out s = redirect ?vm (CHR '' '' # p) tmp' (out[0 := NUL]) s"
    using execute_echo [OF assms(2-5,9,8), of ?vm s] by blast
  have nn: "NUL \<notin> set ?b" using spaced_chars [of NUL ws] word_chars assms(2) by (auto simp: NUL_def char_of_def)
  obtain n f1 r where n: "open_node p 0x42 (sh_vfs s) (sh_fs s) = (Some n, f1)" "is_file f1 n"
    "tmpfs_write nm_alloc n (map byte_of_char ?b) 0 f1 = Some (r, sh_fs s1)"
    "fst (resolve_path (sh_vfs s1) (sh_fs s1) (Some p) False) = Some n" "is_file (sh_fs s1) n" "sh_ok root s1"
    "count_if f_used (file_table (sh_vfs s1)) \<noteq> NM_FD_MAX"
    "map char_of_byte (tm_content (sh_fs s1) n) = (if 0 \<le> r then ?b @ drop (length ?b) old else old)"
    using redirect_writes [OF assms(1,5,6,7) t(1) nn _ assms(10) [unfolded t(2)]] assms(4) by auto
  show ?thesis using cat_shows [OF n(6) assms(5) n(4,5,7) assms(11), of nm_alloc tmp2] n(1-3,8) by auto
qed

lemma script_short_line:
  "length line + length xs \<le> 255 \<Longrightarrow> CHR 0x0A \<notin> set xs \<Longrightarrow>
    script_loop vm stack i (xs @ CHR 0x0A # ys) line out used s =
      do { (out, used, s) \<leftarrow> script_line vm (stack (i + length xs)) (line @ xs) out used s;
           script_loop vm stack (i + length xs + 1) ys [] out used s }"
  by (induction xs arbitrary: i line) auto

text \<open>A redirection succeeds when the file can be opened or created and a descriptor is free.\<close>

lemma redirect_succeeds:
  assumes "sh_ok root s" "word_ok p" "NUL \<in> set tmp" "length tmp < 2 ^ 63"
    "open_node p 0x42 (sh_vfs s) (sh_fs s) = (Some n, f1)" "count_if f_used (file_table (sh_vfs s)) \<noteq> NM_FD_MAX"
  shows "\<exists>s'. redirect (tmpfs_vnodes nm_alloc) (CHR '' '' # p) tmp out s = Some (0, out, s') \<and> sh_ok root s' \<and> same_vfs (sh_vfs s) (sh_vfs s')"
proof -
  let ?vm = "tmpfs_vnodes nm_alloc"
  obtain r s' where r: "redirect ?vm (CHR '' '' # p) tmp out s = Some (r, out, s')" "sh_ok root s'" "same_vfs (sh_vfs s) (sh_vfs s')"
    using redirect_safe [OF assms(1,3,4)] by blast
  obtain fd st f where op: "fs_open ?vm (Some p) 0x42 0x1A4 (sh_vfs s) (sh_fs s) = (fd, st, f)" by (metis prod_cases3)
  have "blank CHR '' ''" by (simp add: blank_def)
  then have sp: "split_tokens (CHR '' '' # p) 8 = (1, [p])"
    using token_loop_word [OF assms(2), of "[]" "[]" 8] by (simp add: split_tokens_def token_loop_blank)
  have ok: "tm_ok (sh_fs s)" "mounted tmpfs_ops root (sh_vfs s)" "live (sh_fs s) root" "length (file_table (sh_vfs s)) = NM_FD_MAX"
    using assms(1) by (simp_all add: sh_ok_def)
  note live = open_node_ok [OF ok(1-3) assms(5)]
  have "f = f1" using fs_open_found(1) [OF assms(5) live(1) live(3) [OF refl] ok(4) op] .
  then have "\<not> fd < 0" using fs_open_free [OF assms(1) op] assms(5,6) by simp
  then have "r = 0" using r(1) op sp by (auto simp: redirect_def Let_def split: bind_splits)
  then show ?thesis using r by blast
qed

text \<open>
  C26: The command \<open>echo\<close> with up to fifteen words, redirected to a path, followed by \<open>cat\<close> of the path: when
  the first command succeeds, the second one prints the words separated by single blanks and
  a newline, followed by whatever an existing file held beyond that length. The redirection
  overwrites from the start and does not truncate (the open flags have no truncation), so the tail
  of a longer old file stays. The allocator is assumed not to fail: a failed write goes unnoticed.
\<close>

theorem echo_redirect_cat:
  assumes "sh_ok root s" "\<forall>k h. fst (nm_alloc k h) \<noteq> None" "\<forall>w \<in> set ws. word_ok w" "length ws \<le> 15" "length (spaced ws) \<le> 121"
    "word_ok p" "good_path p" "old_text s p old" "length tmp = 512" "out \<noteq> []"
    "shell_execute_line (tmpfs_vnodes nm_alloc) tmp (Some (''echo '' @ spaced ws @ '' > '' @ p)) out s = Some (0, out1, s1)" "out2 \<noteq> []"
  shows "\<exists>out3 s2. shell_execute_line (tmpfs_vnodes nm_alloc) tmp2 (Some (''cat '' @ p)) out2 s1 = Some (0, out3, s2) \<and>
    filled out3 (fit (length out2) (spaced ws @ [CHR 0x0A] @ drop (length (spaced ws) + 1) old)) \<and> sh_fs s2 = sh_fs s1"
proof -
  obtain n f1 r out3 s2 where c: "is_file f1 n" "tmpfs_write nm_alloc n (map byte_of_char (spaced ws @ [CHR 0x0A])) 0 f1 = Some (r, sh_fs s1)"
    "shell_execute_line (tmpfs_vnodes nm_alloc) tmp2 (Some (''cat '' @ p)) out2 s1 = Some (0, out3, s2)"
    "filled out3 (fit (length out2) (if 0 \<le> r then spaced ws @ [CHR 0x0A] @ drop (length (spaced ws) + 1) old else old))" "sh_fs s2 = sh_fs s1"
    using echo_then_cat [OF assms(1,3-12)] by blast
  have "0 \<le> r" using write_succeeds [OF assms(2) c(2,1)] assms(5) by simp
  then show ?thesis using c(3-5) by auto
qed

text \<open>
  A line of 256 or more characters is cut in two after 255 characters, and the character between
  the halves is lost: it ends the first half as a newline would.
\<close>

lemma script_long_line:
  "length line + length xs = 255 \<Longrightarrow> CHR 0x0A \<notin> set xs \<Longrightarrow>
    script_loop vm stack i (xs @ c # ys) line out used s =
      do { (out, used, s) \<leftarrow> script_line vm (stack (i + length xs)) (line @ xs) out used s;
           script_loop vm stack (i + length xs + 1) ys [] out used s }"
  by (induction xs arbitrary: i line) auto

section \<open>Witnesses\<close>

declare tmpfs_grow.simps [code]

definition demo_shell :: "unit tmpfs_state shell_fs" where
  "demo_shell = \<lparr>sh_vfs = mounted_vfs, sh_fs = mounted_tmpfs\<rparr>"

lemma demo_shell_ok: "sh_ok 0 demo_shell"
  using mounted_ok opened_eval(4) by (simp add: sh_ok_def demo_shell_def)

text \<open>Arrays without a null: a script that pipes \<^verbatim>\<open>cat\<close> completes, \<^verbatim>\<open>ls | cat\<close> on the empty file system over-reads.\<close>

definition full_stack :: "nat \<Rightarrow> char list \<times> char list" where
  "full_stack i = (replicate 512 CHR ''x'', replicate 512 CHR ''y'')"


definition demo_said :: "unit tmpfs_state shell_fs" where
  "demo_said = snd (snd (the (shell_execute_line (tmpfs_vnodes zero_alloc) (replicate 512 NUL) (Some ''echo hi you > /m'') [NUL, NUL] demo_shell)))"

lemma demo_said_call:
  "shell_execute_line (tmpfs_vnodes zero_alloc) (replicate 512 NUL) (Some ''echo hi you > /m'') [NUL, NUL] demo_shell = Some (0, [NUL, NUL], demo_said)"
proof -
  have "map_option (\<lambda>(r, out, s). (r, out)) (shell_execute_line (tmpfs_vnodes zero_alloc) (replicate 512 NUL) (Some ''echo hi you > /m'') [NUL, NUL] demo_shell) = Some (0, [NUL, NUL])"
    by code_simp
  then show ?thesis by (auto simp: demo_said_def)
qed

lemma demo_new: "old_text demo_shell ''/m'' []" "good_path ''/m''"
  by code_simp+

theorem echo_redirect_cat_witness:
  "\<exists>out3 s2. shell_execute_line (tmpfs_vnodes zero_alloc) [] (Some ''cat /m'') (replicate 20 NUL) demo_said = Some (0, out3, s2) \<and>
    take 8 out3 = ''hi you'' @ [CHR 0x0A, NUL]"
proof -
  have "filled out3 (fit 20 (spaced [''hi'', ''you''] @ [CHR 0x0A] @ drop 7 [])) \<Longrightarrow> take 8 out3 = ''hi you'' @ [CHR 0x0A, NUL]" for out3
    by (simp add: filled_def holds_def fit_def take_Suc_conv_app_nth numeral_eq_Suc)
  moreover have "word_ok ''hi''" "word_ok ''you''" "word_ok ''/m''" by (simp_all add: word_ok_def blank_def NUL_def char_of_def)
  ultimately show ?thesis
    using echo_redirect_cat [OF demo_shell_ok, of zero_alloc "[''hi'', ''you'']" "''/m''" "[]" "replicate 512 NUL" "[NUL, NUL]" "[NUL, NUL]" demo_said "replicate 20 NUL" "[]"]
      demo_new demo_said_call
    by (fastforce simp: zero_alloc_def)
qed

end
