(* ===== verification/Kheap.thy ===== *)
theory Kheap
  imports Pmm Physmem
begin

text \<open>
  The kernel heap of \<^verbatim>\<open>kernel/mm/kheap.c\<close>: first-fit allocation from a linked list of freed blocks, whose
  headers lie in physical memory in front of the blocks, and new pages from the page allocator. The
  state is the head of the list, the memory and the page allocator. The walk along the list has no
  bound in the code, so it is a partial function and an allocation that does not return has no value.
\<close>

section \<open>State and operations\<close>

definition KMALLOC_MAGIC :: u32 where
  "KMALLOC_MAGIC = 0x4D4E564B"

record kheap_state =
  free_list :: u64
  heap_mem :: phys_mem
  heap_pmm :: pmm_state

text \<open>The fields of the header at an address; a header takes 16 bytes.\<close>

definition hdr_magic :: "phys_mem \<Rightarrow> u64 \<Rightarrow> u32" where
  "hdr_magic m h = ld32 m h"

definition hdr_size :: "phys_mem \<Rightarrow> u64 \<Rightarrow> u32" where
  "hdr_size m h = ld32 m (h + 4)"

definition hdr_next :: "phys_mem \<Rightarrow> u64 \<Rightarrow> u64" where
  "hdr_next m h = ld64 m (h + 8)"

definition set_hdr :: "u64 \<Rightarrow> u32 \<Rightarrow> u64 \<Rightarrow> phys_mem \<Rightarrow> phys_mem" where
  "set_hdr h z nxt m = wr64 (wr32 (wr32 m h KMALLOC_MAGIC) (h + 4) z) (h + 8) nxt"

text \<open>
  The walk along the list: \<open>prev\<close> is the header whose link leads to \<open>cur\<close>, 0 for the head of the list.
  The result is the first block that is large enough, 0 when there is none.
\<close>

partial_function (option) find_fit :: "phys_mem \<Rightarrow> u64 \<Rightarrow> u64 \<Rightarrow> u64 \<Rightarrow> (u64 \<times> u64) option" where
  "find_fit m sz prev cur =
     (if cur = 0 then Some (prev, 0)
      else if ucast (hdr_size m cur) \<ge> sz then Some (prev, cur)
      else find_fit m sz cur (hdr_next m cur))"

declare find_fit.simps [code]

text \<open>Taking the block \<open>cur\<close> out of the list.\<close>

definition unlink :: "u64 \<Rightarrow> u64 \<Rightarrow> kheap_state \<Rightarrow> kheap_state" where
  "unlink prev cur s =
     (let nxt = hdr_next (heap_mem s) cur;
          s = (if prev = 0 then s\<lparr>free_list := nxt\<rparr> else s\<lparr>heap_mem := wr64 (heap_mem s) (prev + 8) nxt\<rparr>)
      in s\<lparr>heap_mem := wr64 (heap_mem s) (cur + 8) 0\<rparr>)"

text \<open>Making a block of new pages at \<open>header\<close>; what is left behind it goes to the list if it is worth it.\<close>

definition carve :: "u64 \<Rightarrow> u64 \<Rightarrow> u64 \<Rightarrow> kheap_state \<Rightarrow> kheap_state" where
  "carve sz pages header s =
     (let hsize = (ucast (pages * PAGE_SIZE - 16) :: u32);
          s = s\<lparr>heap_mem := set_hdr header hsize 0 (heap_mem s)\<rparr>
      in if ucast hsize > sz then
           let remain = ucast hsize - sz in
           if remain > 16 + 32 then
             let split = header + 16 + sz in
             s\<lparr>heap_mem := wr32 (set_hdr split (ucast (remain - 16)) (free_list s) (heap_mem s)) (header + 4) (ucast sz),
               free_list := split\<rparr>
           else s
         else s)"

definition kmalloc :: "u64 \<Rightarrow> kheap_state \<Rightarrow> (u64 \<times> kheap_state) option" where
  "kmalloc sz s =
     (if sz = 0 then Some (0, s)
      else case find_fit (heap_mem s) sz 0 (free_list s) of
        None \<Rightarrow> None
      | Some (prev, cur) \<Rightarrow>
          if cur \<noteq> 0 then Some (cur + 16, unlink prev cur s)
          else
            let total = 16 + sz;
                pages = (total + PAGE_SIZE - 1) div PAGE_SIZE;
                (first_page, p) = pmm_alloc_pages pages (heap_pmm s);
                s = s\<lparr>heap_pmm := p\<rparr>
            in if first_page = 0 then Some (0, s)
               else Some (first_page + 16, carve sz pages first_page s))"

definition kfree :: "u64 \<Rightarrow> kheap_state \<Rightarrow> kheap_state" where
  "kfree ptr s =
     (if ptr = 0 then s
      else let header = ptr - 16 in
        if hdr_magic (heap_mem s) header \<noteq> KMALLOC_MAGIC then s
        else s\<lparr>heap_mem := wr64 (heap_mem s) (header + 8) (free_list s), free_list := header\<rparr>)"

section \<open>Headers in memory\<close>

definition hdr_room :: "u64 \<Rightarrow> bool" where
  "hdr_room h \<longleftrightarrow> unat h + 16 \<le> 2 ^ 64"

lemma hdr_addr: "hdr_room h \<Longrightarrow> unat (h + 4) = unat h + 4" "hdr_room h \<Longrightarrow> unat (h + 8) = unat h + 8"
  using addr_unat [of h 4] addr_unat [of h 8] by (simp_all add: hdr_room_def)

text \<open>A change of memory outside a header.\<close>

lemma hdr_frame:
  assumes "hdr_room h" "\<And>x. unat h \<le> unat x \<Longrightarrow> unat x < unat h + 16 \<Longrightarrow> m' x = m x"
  shows "hdr_magic m' h = hdr_magic m h" "hdr_size m' h = hdr_size m h" "hdr_next m' h = hdr_next m h"
proof -
  note a = hdr_addr [OF assms(1)]
  show "hdr_magic m' h = hdr_magic m h"
    unfolding hdr_magic_def using assms by (intro ld32_frame) (auto simp: hdr_room_def)
  show "hdr_size m' h = hdr_size m h"
    unfolding hdr_size_def using assms a by (intro ld32_frame) (auto simp: hdr_room_def)
  show "hdr_next m' h = hdr_next m h"
    unfolding hdr_next_def using assms a by (intro ld64_frame) (auto simp: hdr_room_def)
qed

lemma set_next:
  assumes "hdr_room h"
  shows "hdr_next (wr64 m (h + 8) v) h = v" "hdr_size (wr64 m (h + 8) v) h = hdr_size m h"
    "hdr_magic (wr64 m (h + 8) v) h = hdr_magic m h"
    "unat x < unat h \<or> unat h + 16 \<le> unat x \<Longrightarrow> wr64 m (h + 8) v x = m x"
proof -
  note a = hdr_addr [OF assms]
  show "hdr_next (wr64 m (h + 8) v) h = v" using a assms by (simp add: hdr_next_def hdr_room_def)
  show "hdr_size (wr64 m (h + 8) v) h = hdr_size m h"
    unfolding hdr_size_def using a assms by (intro ld32_wr64_apart) (auto simp: hdr_room_def)
  show "hdr_magic (wr64 m (h + 8) v) h = hdr_magic m h"
    unfolding hdr_magic_def using a assms by (intro ld32_wr64_apart) (auto simp: hdr_room_def)
  show "wr64 m (h + 8) v x = m x" if "unat x < unat h \<or> unat h + 16 \<le> unat x"
    using that a assms by (intro wr64_outside) (auto simp: hdr_room_def)
qed

lemma set_size:
  assumes "hdr_room h"
  shows "hdr_size (wr32 m (h + 4) v) h = v" "hdr_next (wr32 m (h + 4) v) h = hdr_next m h"
    "hdr_magic (wr32 m (h + 4) v) h = hdr_magic m h"
    "unat x < unat h \<or> unat h + 16 \<le> unat x \<Longrightarrow> wr32 m (h + 4) v x = m x"
proof -
  note a = hdr_addr [OF assms]
  show "hdr_size (wr32 m (h + 4) v) h = v" by (simp add: hdr_size_def)
  show "hdr_next (wr32 m (h + 4) v) h = hdr_next m h"
    unfolding hdr_next_def using a assms by (intro ld64_wr32_apart) (auto simp: hdr_room_def)
  show "hdr_magic (wr32 m (h + 4) v) h = hdr_magic m h"
    unfolding hdr_magic_def using a assms by (intro ld32_wr32_apart) (auto simp: hdr_room_def)
  show "wr32 m (h + 4) v x = m x" if "unat x < unat h \<or> unat h + 16 \<le> unat x"
    using that a assms by (intro wr32_outside) (auto simp: hdr_room_def)
qed

lemma set_hdr:
  assumes "hdr_room h"
  shows "hdr_magic (set_hdr h z nxt m) h = KMALLOC_MAGIC" "hdr_size (set_hdr h z nxt m) h = z" "hdr_next (set_hdr h z nxt m) h = nxt"
    "unat x < unat h \<or> unat h + 16 \<le> unat x \<Longrightarrow> set_hdr h z nxt m x = m x"
proof -
  have "hdr_magic (wr32 m h KMALLOC_MAGIC) h = KMALLOC_MAGIC" by (simp add: hdr_magic_def)
  then show "hdr_magic (set_hdr h z nxt m) h = KMALLOC_MAGIC" "hdr_size (set_hdr h z nxt m) h = z" "hdr_next (set_hdr h z nxt m) h = nxt"
    using assms by (simp_all add: set_hdr_def set_next set_size)
  show "set_hdr h z nxt m x = m x" if x: "unat x < unat h \<or> unat h + 16 \<le> unat x"
    using set_next(4) [OF assms x] set_size(4) [OF assms x] wr32_outside [of h x m KMALLOC_MAGIC] x assms
    by (auto simp: set_hdr_def hdr_room_def)
qed

section \<open>The list\<close>

text \<open>The links from \<open>a\<close> lead through the headers \<open>hs\<close> to \<open>b\<close>.\<close>

fun seg :: "phys_mem \<Rightarrow> u64 \<Rightarrow> u64 list \<Rightarrow> u64 \<Rightarrow> bool" where
  "seg m a [] b \<longleftrightarrow> a = b"
| "seg m a (h # hs) b \<longleftrightarrow> a = h \<and> h \<noteq> 0 \<and> seg m (hdr_next m h) hs b"

lemma seg_append: "seg m a (xs @ ys) b \<longleftrightarrow> (\<exists>c. seg m a xs c \<and> seg m c ys b)"
  by (induction xs arbitrary: a) auto

lemma seg_frame: "(\<And>h. h \<in> set hs \<Longrightarrow> hdr_next m' h = hdr_next m h) \<Longrightarrow> seg m' a hs b = seg m a hs b"
  by (induction hs arbitrary: a) auto

text \<open>The walk ends on a list that ends, at the first block that is large enough.\<close>

lemma find_fit_seg:
  assumes "seg m a hs 0"
  shows "\<exists>prev cur. find_fit m sz p a = Some (prev, cur) \<and>
    (cur = 0 \<and> (\<forall>h\<in>set hs. unat (hdr_size m h) < unat sz) \<or>
     (\<exists>xs ys. hs = xs @ cur # ys \<and> prev = last (p # xs) \<and> cur \<noteq> 0 \<and> unat sz \<le> unat (hdr_size m cur)))"
  using assms
proof (induction hs arbitrary: a p)
  case Nil
  then show ?case by (subst find_fit.simps) simp
next
  case (Cons h hs)
  have u: "sz \<le> ucast (hdr_size m h) \<longleftrightarrow> unat sz \<le> unat (hdr_size m h)"
    by (simp add: word_le_nat_alt unat_ucast_32_64)
  show ?case
  proof (cases "sz \<le> ucast (hdr_size m h)")
    case True
    then show ?thesis using Cons.prems u by (subst find_fit.simps) (auto intro: exI [of _ "[]"])
  next
    case False
    have e: "find_fit m sz p a = find_fit m sz h (hdr_next m h)"
      using False Cons.prems by (subst find_fit.simps) auto
    obtain prev cur where f: "find_fit m sz h (hdr_next m h) = Some (prev, cur)"
      and c: "cur = 0 \<and> (\<forall>h\<in>set hs. unat (hdr_size m h) < unat sz) \<or>
       (\<exists>xs ys. hs = xs @ cur # ys \<and> prev = last (h # xs) \<and> cur \<noteq> 0 \<and> unat sz \<le> unat (hdr_size m cur))"
      using Cons.IH [of "hdr_next m h" h] Cons.prems by auto
    from c show ?thesis
    proof
      assume "cur = 0 \<and> (\<forall>h\<in>set hs. unat (hdr_size m h) < unat sz)"
      then show ?thesis using e f False u by auto
    next
      assume "\<exists>xs ys. hs = xs @ cur # ys \<and> prev = last (h # xs) \<and> cur \<noteq> 0 \<and> unat sz \<le> unat (hdr_size m cur)"
      then obtain xs ys where "h # hs = (h # xs) @ cur # ys" "prev = last (p # h # xs)" "cur \<noteq> 0" "unat sz \<le> unat (hdr_size m cur)" by auto
      then show ?thesis using e f by metis
    qed
  qed
qed

section \<open>The invariant\<close>

text \<open>
  What a block covers: its header and the bytes recorded there or asked for, whichever is more. A free
  block is one of which no bytes are asked for.
\<close>

definition extent :: "phys_mem \<Rightarrow> u64 \<times> nat \<Rightarrow> nat set" where
  "extent m b = {unat (fst b)..<unat (fst b) + 16 + max (snd b) (unat (hdr_size m (fst b)))}"

definition block_ok :: "phys_mem \<Rightarrow> nat set \<Rightarrow> u64 \<times> nat \<Rightarrow> bool" where
  "block_ok m H b \<longleftrightarrow> hdr_magic m (fst b) = KMALLOC_MAGIC \<and> (\<forall>x\<in>extent m b. x div 4096 \<in> H)"

definition blocks_ok :: "phys_mem \<Rightarrow> nat set \<Rightarrow> (u64 \<times> nat) set \<Rightarrow> bool" where
  "blocks_ok m H B \<longleftrightarrow> (\<forall>b\<in>B. block_ok m H b) \<and> (\<forall>b\<in>B. \<forall>c\<in>B. b \<noteq> c \<longrightarrow> extent m b \<inter> extent m c = {})"

text \<open>The blocks of a list of free headers and a set of allocations, each a pointer with the size asked for.\<close>

definition blocks_of :: "u64 list \<Rightarrow> (u64 \<times> nat) set \<Rightarrow> (u64 \<times> nat) set" where
  "blocks_of F A = (\<lambda>h. (h, 0)) ` set F \<union> (\<lambda>(p, n). (p - 16, n)) ` A"

text \<open>\<open>A\<close> are the allocations in use and \<open>H\<close> the frames the heap has taken from the page allocator.\<close>

definition heap_inv :: "kheap_state \<Rightarrow> (u64 \<times> nat) set \<Rightarrow> nat set \<Rightarrow> u64 list \<Rightarrow> bool" where
  "heap_inv s A H F \<longleftrightarrow> pmm_inv (heap_pmm s) \<and> H \<subseteq> {1..<2 ^ 25} \<and> H \<inter> free_set (heap_pmm s) = {} \<and>
     seg (heap_mem s) (free_list s) F 0 \<and> distinct F \<and> (\<forall>a\<in>A. 0 < snd a) \<and> blocks_ok (heap_mem s) H (blocks_of F A)"

lemma heap_invD:
  assumes "heap_inv s A H F"
  shows "pmm_inv (heap_pmm s)" "H \<subseteq> {1..<2 ^ 25}" "H \<inter> free_set (heap_pmm s) = {}" "seg (heap_mem s) (free_list s) F 0" "distinct F"
    "\<And>a. a \<in> A \<Longrightarrow> 0 < snd a" "blocks_ok (heap_mem s) H (blocks_of F A)"
  using assms by (simp_all add: heap_inv_def)

lemma extent_head: "i < 16 \<Longrightarrow> unat (fst b) + i \<in> extent m b"
  by (auto simp: extent_def)

lemma block_room:
  assumes "blocks_ok m H B" "H \<subseteq> {1..<2 ^ 25}" "b \<in> B"
  shows "hdr_room (fst b)" "x \<in> extent m b \<Longrightarrow> 4096 \<le> x \<and> x < 2 ^ 37" "4096 \<le> unat (fst b)" "unat (fst b) + 16 \<le> 2 ^ 37"
proof -
  have r: "4096 \<le> x \<and> x < 2 ^ 37" if "x \<in> extent m b" for x
  proof -
    have "x div 4096 \<in> H" using assms(1,3) that by (auto simp: blocks_ok_def block_ok_def)
    then have "1 \<le> x div 4096" "x div 4096 < 2 ^ 25" using assms(2) by auto
    then show ?thesis by (simp add: div_less_iff_less_mult div_greater_zero_iff)
  qed
  show "x \<in> extent m b \<Longrightarrow> 4096 \<le> x \<and> x < 2 ^ 37" by (rule r)
  show "4096 \<le> unat (fst b)" using r [OF extent_head [of 0]] by simp
  show u: "unat (fst b) + 16 \<le> 2 ^ 37" using r [OF extent_head [of 15]] by simp
  then show "hdr_room (fst b)" by (simp add: hdr_room_def)
qed

text \<open>Two blocks with different headers do not share a byte of a header.\<close>

lemma blocks_apart:
  assumes "blocks_ok m H B" "b \<in> B" "c \<in> B" "b \<noteq> c"
  shows "unat (fst b) + 16 \<le> unat (fst c) \<or> unat (fst c) + 16 \<le> unat (fst b)" "fst b \<noteq> fst c"
proof -
  have d: "extent m b \<inter> extent m c = {}" using assms by (simp add: blocks_ok_def)
  show a: "unat (fst b) + 16 \<le> unat (fst c) \<or> unat (fst c) + 16 \<le> unat (fst b)"
  proof (rule ccontr)
    assume n: "\<not> ?thesis"
    define x where "x = max (unat (fst b)) (unat (fst c))"
    have "x \<in> extent m b" "x \<in> extent m c" using n by (auto simp: x_def extent_def)
    then show False using d by auto
  qed
  then show "fst b \<noteq> fst c" by auto
qed

lemma blocks_cong:
  assumes "\<And>b. b \<in> B \<Longrightarrow> hdr_magic m' (fst b) = hdr_magic m (fst b) \<and> hdr_size m' (fst b) = hdr_size m (fst b)"
  shows "blocks_ok m' H B = blocks_ok m H B"
proof -
  have "extent m' b = extent m b" if "b \<in> B" for b using assms [OF that] by (simp add: extent_def)
  then show ?thesis using assms by (auto simp: blocks_ok_def block_ok_def)
qed

text \<open>A smaller claim on the same memory: fewer blocks, or blocks of which less is asked for.\<close>

lemma blocks_shrink:
  assumes "blocks_ok m H B" "\<And>b. b \<in> B' \<Longrightarrow> f b \<in> B \<and> extent m b \<subseteq> extent m (f b) \<and> fst (f b) = fst b" "inj_on f B'"
  shows "blocks_ok m H B'"
proof -
  have "block_ok m H b" if "b \<in> B'" for b
    using assms(1) assms(2) [OF that] by (auto simp: blocks_ok_def block_ok_def)
  moreover have "extent m b \<inter> extent m c = {}" if b: "b \<in> B'" and c: "c \<in> B'" and ne: "b \<noteq> c" for b c
  proof -
    have "f b \<noteq> f c" using assms(3) b c ne by (auto dest: inj_onD)
    then have "extent m (f b) \<inter> extent m (f c) = {}" using assms(1,2) b c by (auto simp: blocks_ok_def)
    then show ?thesis using assms(2) [OF b] assms(2) [OF c] by blast
  qed
  ultimately show ?thesis by (simp add: blocks_ok_def)
qed

lemma next_write:
  assumes "blocks_ok m H B" "H \<subseteq> {1..<2 ^ 25}" "b \<in> B" "c \<in> B"
  shows "hdr_magic (wr64 m (fst c + 8) v) (fst b) = hdr_magic m (fst b)" "hdr_size (wr64 m (fst c + 8) v) (fst b) = hdr_size m (fst b)"
    "hdr_next (wr64 m (fst c + 8) v) (fst b) = (if fst b = fst c then v else hdr_next m (fst b))"
proof -
  note r = block_room(1) [OF assms(1,2)]
  show "hdr_magic (wr64 m (fst c + 8) v) (fst b) = hdr_magic m (fst b)" "hdr_size (wr64 m (fst c + 8) v) (fst b) = hdr_size m (fst b)"
    "hdr_next (wr64 m (fst c + 8) v) (fst b) = (if fst b = fst c then v else hdr_next m (fst b))"
  proof (atomize (full), cases "fst b = fst c")
    case True
    then show "hdr_magic (wr64 m (fst c + 8) v) (fst b) = hdr_magic m (fst b) \<and> hdr_size (wr64 m (fst c + 8) v) (fst b) = hdr_size m (fst b) \<and>
      hdr_next (wr64 m (fst c + 8) v) (fst b) = (if fst b = fst c then v else hdr_next m (fst b))"
      using set_next(1-3) [OF r [OF assms(4)]] by simp
  next
    case False
    then have "unat (fst b) + 16 \<le> unat (fst c) \<or> unat (fst c) + 16 \<le> unat (fst b)" using blocks_apart(1) [OF assms(1,3,4)] by auto
    then have "wr64 m (fst c + 8) v x = m x" if "unat (fst b) \<le> unat x" "unat x < unat (fst b) + 16" for x
      using that by (intro set_next(4) [OF r [OF assms(4)]]) auto
    then show "hdr_magic (wr64 m (fst c + 8) v) (fst b) = hdr_magic m (fst b) \<and> hdr_size (wr64 m (fst c + 8) v) (fst b) = hdr_size m (fst b) \<and>
      hdr_next (wr64 m (fst c + 8) v) (fst b) = (if fst b = fst c then v else hdr_next m (fst b))"
      using hdr_frame [OF r [OF assms(3)], of "wr64 m (fst c + 8) v" m] False by auto
  qed
qed

lemma blocks_next_write:
  assumes "blocks_ok m H B" "H \<subseteq> {1..<2 ^ 25}" "c \<in> B"
  shows "blocks_ok (wr64 m (fst c + 8) v) H B"
  using next_write(1,2) [OF assms(1,2) _ assms(3)] assms(1) by (subst blocks_cong [of B _ m]) auto

lemma free_block: "h \<in> set F \<Longrightarrow> (h, 0) \<in> blocks_of F A"
  by (simp add: blocks_of_def)

lemma live_block: "(p, n) \<in> A \<Longrightarrow> (p - 16, n) \<in> blocks_of F A"
  by (force simp: blocks_of_def)

section \<open>Taking a block from the list\<close>

lemma unlink_parts:
  assumes "heap_inv s A H (xs @ cur # ys)" and prev: "prev = last (0 # xs)"
  shows "blocks_ok (heap_mem (unlink prev cur s)) H (blocks_of (xs @ cur # ys) A)"
    "seg (heap_mem (unlink prev cur s)) (free_list (unlink prev cur s)) (xs @ ys) 0"
    "hdr_size (heap_mem (unlink prev cur s)) cur = hdr_size (heap_mem s) cur"
proof -
  let ?F = "xs @ cur # ys" and ?m = "heap_mem s"
  let ?B = "blocks_of ?F A" and ?nxt = "hdr_next ?m cur"
  note d = heap_invD [OF assms(1)]
  have cur: "(cur, 0) \<in> ?B" by (rule free_block) simp
  obtain c where s1: "seg ?m (free_list s) xs cur" "cur \<noteq> 0" and s2: "seg ?m ?nxt ys 0" using d(4) by (auto simp: seg_append)
  define m1 where "m1 = (if prev = 0 then ?m else wr64 ?m (prev + 8) ?nxt)"
  have nz: "h \<noteq> 0" if "h \<in> set ?F" for h using block_room(3) [OF d(7,2) free_block [OF that]] by auto
  have p0: "prev = 0 \<longleftrightarrow> xs = []" using prev nz by (auto split: if_splits)
  have ok1: "blocks_ok m1 H ?B"
  proof (cases "prev = 0")
    case False
    then have "(prev, 0) \<in> ?B" using prev p0 by (intro free_block) simp
    then show ?thesis using blocks_next_write [OF d(7,2)] False by (fastforce simp: m1_def)
  qed (simp add: m1_def d(7))
  have n1: "hdr_next m1 h = (if prev \<noteq> 0 \<and> h = prev then ?nxt else hdr_next ?m h)" "hdr_size m1 h = hdr_size ?m h" if "h \<in> set ?F" for h
  proof -
    have "hdr_next m1 h = (if prev \<noteq> 0 \<and> h = prev then ?nxt else hdr_next ?m h) \<and> hdr_size m1 h = hdr_size ?m h"
    proof (cases "prev = 0")
      case False
      then have "(prev, 0) \<in> ?B" using prev p0 by (intro free_block) simp
      then show ?thesis using next_write(2,3) [OF d(7,2) free_block [OF that], of "(prev, 0)" ?nxt] False by (simp add: m1_def)
    qed (simp add: m1_def)
    then show "hdr_next m1 h = (if prev \<noteq> 0 \<and> h = prev then ?nxt else hdr_next ?m h)" "hdr_size m1 h = hdr_size ?m h" by simp_all
  qed
  define m2 where "m2 = wr64 m1 (cur + 8) 0"
  have n2: "hdr_next m2 h = (if h = cur then 0 else hdr_next m1 h)" "hdr_size m2 h = hdr_size m1 h" if "h \<in> set ?F" for h
    using next_write(2,3) [OF ok1 d(2) free_block [OF that] cur] by (simp_all add: m2_def)
  have u: "heap_mem (unlink prev cur s) = m2" "free_list (unlink prev cur s) = (if prev = 0 then ?nxt else free_list s)"
    by (simp_all add: unlink_def m2_def m1_def)
  show "blocks_ok (heap_mem (unlink prev cur s)) H ?B" using blocks_next_write [OF ok1 d(2) cur] u(1) by (simp add: m2_def)
  show "hdr_size (heap_mem (unlink prev cur s)) cur = hdr_size ?m cur" using n2(2) n1(2) u(1) by simp
  have "prev \<noteq> 0 \<Longrightarrow> prev \<in> set xs" using p0 prev by simp
  then have py: "prev \<noteq> 0 \<Longrightarrow> prev \<notin> set ys" using d(5) by auto
  have "hdr_next m2 h = hdr_next ?m h" if "h \<in> set ys" for h
    using that py d(5) n1(1) [of h] n2(1) [of h] by auto
  then have ys: "seg m2 ?nxt ys 0" using s2 seg_frame [of ys m2 ?m] by blast
  show "seg (heap_mem (unlink prev cur s)) (free_list (unlink prev cur s)) (xs @ ys) 0"
  proof (cases "xs = []")
    case True
    then show ?thesis using ys u p0 by simp
  next
    case False
    then obtain zs where xs: "xs = zs @ [prev]" using prev by (metis append_butlast_last_id last_ConsR)
    have np: "hdr_next m2 prev = ?nxt" using n1(1) [of prev] n2(1) [of prev] xs d(5) p0 by auto
    have "seg ?m (free_list s) zs prev" using s1(1) by (auto simp: xs seg_append)
    then have "seg m2 (free_list s) zs prev"
      using d(5) n1(1) n2(1) xs by (subst seg_frame [of zs m2 ?m]) auto
    then show ?thesis using ys np u p0 False nz [of prev] xs by (auto simp: seg_append)
  qed
qed

lemma reuse_inv:
  assumes "heap_inv s A H (xs @ cur # ys)" "prev = last (0 # xs)" "0 < n" "n \<le> unat (hdr_size (heap_mem s) cur)"
  shows "heap_inv (unlink prev cur s) (insert (cur + 16, n) A) H (xs @ ys)"
proof -
  let ?m = "heap_mem (unlink prev cur s)" and ?B = "blocks_of (xs @ cur # ys) A" and ?B' = "blocks_of (xs @ ys) (insert (cur + 16, n) A)"
  note d = heap_invD [OF assms(1)] and u = unlink_parts [OF assms(1,2)]
  have cur: "(cur, 0) \<in> ?B" by (rule free_block) simp
  have pos: "0 < k" if "(q, k) \<in> A" for q k using d(6) [OF that] by simp
  have new: "(cur, n) \<notin> ?B" using blocks_apart(2) [OF d(7) cur, of "(cur, n)"] assms(3) by auto
  have B': "b \<in> ?B' \<longleftrightarrow> b = (cur, n) \<or> (b \<in> ?B \<and> b \<noteq> (cur, 0))" for b
    using d(5) pos by (auto simp: blocks_of_def)
  have "blocks_ok ?m H ?B'"
  proof (rule blocks_shrink [OF u(1), where f = "\<lambda>b. if b = (cur, n) then (cur, 0) else b"])
    show "inj_on (\<lambda>b. if b = (cur, n) then (cur, 0) else b) ?B'" using B' by (auto simp: inj_on_def)
  qed (use cur assms(4) u(3) in \<open>auto simp: B' extent_def\<close>)
  moreover have "heap_pmm (unlink prev cur s) = heap_pmm s" by (simp add: unlink_def Let_def)
  ultimately show ?thesis using d u(2) assms(3) by (auto simp: heap_inv_def)
qed

section \<open>Giving a block back\<close>

lemma kfree_inv:
  assumes "heap_inv s A H F" "(p, n) \<in> A"
  shows "heap_inv (kfree p s) (A - {(p, n)}) H ((p - 16) # F)"
    "kfree p s = s\<lparr>heap_mem := wr64 (heap_mem s) (p - 16 + 8) (free_list s), free_list := p - 16\<rparr>"
proof -
  let ?h = "p - 16" and ?B = "blocks_of F A"
  note d = heap_invD [OF assms(1)]
  have b: "(?h, n) \<in> ?B" by (rule live_block [OF assms(2)])
  note r = block_room [OF d(7,2) b]
  have n0: "0 < n" using d(6) [OF assms(2)] by simp
  have "hdr_magic (heap_mem s) ?h = KMALLOC_MAGIC" using d(7) b by (auto simp: blocks_ok_def block_ok_def)
  moreover have "p \<noteq> 0" using r(4) by auto
  ultimately show k: "kfree p s = s\<lparr>heap_mem := wr64 (heap_mem s) (p - 16 + 8) (free_list s), free_list := p - 16\<rparr>"
    by (simp add: kfree_def Let_def)
  let ?m = "wr64 (heap_mem s) (?h + 8) (free_list s)" and ?B' = "blocks_of (?h # F) (A - {(p, n)})"
  have ok: "blocks_ok ?m H ?B" using blocks_next_write [OF d(7,2) b] by simp
  have nf: "?h \<notin> set F" using blocks_apart(2) [OF d(7) b free_block, of ?h] n0 by auto
  have B': "c \<in> ?B' \<longleftrightarrow> c = (?h, 0) \<or> (c \<in> ?B \<and> c \<noteq> (?h, n))" for c
    using n0 nf by (auto simp: blocks_of_def)
  have "blocks_ok ?m H ?B'"
  proof (rule blocks_shrink [OF ok, where f = "\<lambda>c. if c = (?h, 0) then (?h, n) else c"])
    show "inj_on (\<lambda>c. if c = (?h, 0) then (?h, n) else c) ?B'" using B' by (auto simp: inj_on_def)
  qed (use b in \<open>auto simp: B' extent_def\<close>)
  moreover have "hdr_next ?m h = hdr_next (heap_mem s) h" if "h \<in> set F" for h
    using next_write(3) [OF d(7,2) free_block [OF that] b] nf that by auto
  then have "seg ?m (free_list s) F 0" using d(4) by (subst seg_frame) auto
  moreover have "hdr_next ?m ?h = free_list s" using next_write(3) [OF d(7,2) b b] by simp
  moreover have "?h \<noteq> 0" using r(3) by auto
  ultimately show "heap_inv (kfree p s) (A - {(p, n)}) H ((p - 16) # F)"
    using d nf by (auto simp: heap_inv_def k)
qed

section \<open>Blocks of new pages\<close>

lemma blocks_extend:
  assumes "blocks_ok m H B" "H \<subseteq> {1..<2 ^ 25}" "\<And>x. unat x div 4096 \<notin> N \<Longrightarrow> m' x = m x" "H \<inter> N = {}" "blocks_ok m' N C"
  shows "blocks_ok m' (H \<union> N) (B \<union> C)"
proof -
  have same: "hdr_magic m' (fst b) = hdr_magic m (fst b) \<and> hdr_size m' (fst b) = hdr_size m (fst b)" if b: "b \<in> B" for b
  proof -
    have "m' x = m x" if "unat (fst b) \<le> unat x" "unat x < unat (fst b) + 16" for x
    proof -
      have "unat x \<in> extent m b" using that by (auto simp: extent_def)
      then have "unat x div 4096 \<in> H" using assms(1) b by (auto simp: blocks_ok_def block_ok_def)
      then show ?thesis using assms(3,4) by auto
    qed
    then show ?thesis using hdr_frame [OF block_room(1) [OF assms(1,2) b], of m' m] by auto
  qed
  have ok: "blocks_ok m' H B" using assms(1) blocks_cong [of B m' m] same by blast
  have "extent m' b \<inter> extent m' c = {}" if "b \<in> B" "c \<in> C" for b c
  proof -
    have "\<forall>x\<in>extent m' b. x div 4096 \<in> H" "\<forall>x\<in>extent m' c. x div 4096 \<in> N"
      using ok assms(5) that by (auto simp: blocks_ok_def block_ok_def)
    then show ?thesis using assms(4) by auto
  qed
  then have cross: "extent m' b \<inter> extent m' c = {} \<and> extent m' c \<inter> extent m' b = {}" if "b \<in> B" "c \<in> C" for b c using that by blast
  have "block_ok m' (H \<union> N) b" if "b \<in> B \<union> C" for b
    using that ok assms(5) by (auto simp: blocks_ok_def block_ok_def)
  moreover have "extent m' b \<inter> extent m' c = {}" if "b \<in> B \<union> C" "c \<in> B \<union> C" "b \<noteq> c" for b c
    using that ok assms(5) cross [of b c] cross [of c b] unfolding blocks_ok_def by (elim UnE) blast+
  ultimately show ?thesis by (simp add: blocks_ok_def)
qed

lemma page_count_mod: "unat ((16 + sz + PAGE_SIZE - 1) div PAGE_SIZE) = (unat sz + 4111) mod 2 ^ 64 div 4096"
proof -
  have s: "16 + sz + PAGE_SIZE - 1 = sz + 4111" by (simp add: PAGE_SIZE_def)
  have "unat (sz + 4111) = (unat sz + 4111) mod 2 ^ 64" unfolding unat_word_ariths(1) by simp
  then show ?thesis unfolding s by (simp add: unat_div PAGE_SIZE_def)
qed

lemma page_count:
  assumes "unat sz \<le> 2 ^ 64 - 16" "pages = (16 + sz + PAGE_SIZE - 1) div PAGE_SIZE" "pages \<noteq> 0"
  shows "unat pages = (unat sz + 4111) div 4096"
proof -
  have p: "unat pages = (unat sz + 4111) mod 2 ^ 64 div 4096" unfolding assms(2) by (rule page_count_mod)
  have "unat sz + 4111 < 2 ^ 64"
  proof (rule ccontr)
    assume "\<not> ?thesis"
    then have "(unat sz + 4111) mod 2 ^ 64 = unat sz + 4111 - 2 ^ 64" using unat_bound64 [of sz] by (subst le_mod_geq) simp_all
    then have "(unat sz + 4111) mod 2 ^ 64 < 4096" using assms(1) by simp
    then have "unat pages = 0" using p by simp
    then show False using assms(3) by (simp add: unat_eq_zero)
  qed
  then show ?thesis using p by simp
qed

lemma carve_sizes:
  assumes "unat sz \<le> 2 ^ 64 - 16" "pages = (16 + sz + PAGE_SIZE - 1) div PAGE_SIZE" "pages \<noteq> 0" "unat pages \<le> 2 ^ 25"
  defines "hsize \<equiv> (ucast (pages * PAGE_SIZE - 16) :: u32)"
  shows "unat sz + 16 \<le> unat pages * 4096" "unat hsize + 16 \<le> unat pages * 4096"
proof -
  have pc: "unat pages = (unat sz + 4111) div 4096" by (rule page_count [OF assms(1-3)])
  show "unat sz + 16 \<le> unat pages * 4096" unfolding pc by linarith
  have "0 < unat pages" using assms(3) by (simp add: unat_gt_0)
  have m: "unat (pages * PAGE_SIZE) = unat pages * 4096" using assms(4) by (subst unat_mult64) (simp_all add: PAGE_SIZE_def)
  then have "unat (pages * PAGE_SIZE - 16) = unat pages * 4096 - 16"
    using \<open>0 < unat pages\<close> by (subst unat_sub64) (simp_all add: word_le_nat_alt)
  then have "unat hsize = (unat pages * 4096 - 16) mod 2 ^ 32" by (simp add: hsize_def unsigned_ucast_eq take_bit_eq_mod)
  then have "unat hsize \<le> unat pages * 4096 - 16" by simp
  then show "unat hsize + 16 \<le> unat pages * 4096" using \<open>0 < unat pages\<close> by linarith
qed

text \<open>The memory after a block was made at the first of \<open>P\<close> new pages, in either case.\<close>

lemma page_of: "f * 4096 \<le> x \<Longrightarrow> x < (f + P) * 4096 \<Longrightarrow> x div 4096 \<in> {f..<f + P :: nat}"
  by (auto simp: less_mult_imp_div_less less_eq_div_iff_mult_less_eq)

lemma one_block:
  fixes m :: phys_mem
  assumes "unat a = f * 4096" "f + P \<le> 2 ^ 25" "n + 16 \<le> P * 4096" "unat hsize + 16 \<le> P * 4096"
  defines "m' \<equiv> set_hdr a hsize 0 m"
  shows "blocks_ok m' {f..<f + P} {(a, n)}" "unat x div 4096 \<notin> {f..<f + P} \<Longrightarrow> m' x = m x"
proof -
  have r: "hdr_room a" using assms(1-3) by (simp add: hdr_room_def)
  note h = set_hdr [OF r]
  have "x div 4096 \<in> {f..<f + P}" if "x \<in> extent m' (a, n)" for x
    using that assms(1,3,4) h(2) by (intro page_of) (auto simp: extent_def m'_def)
  then show "blocks_ok m' {f..<f + P} {(a, n)}" using h(1) by (simp add: blocks_ok_def block_ok_def m'_def)
  show "m' x = m x" if x: "unat x div 4096 \<notin> {f..<f + P}"
  proof -
    have "\<not> (f * 4096 \<le> unat x \<and> unat x < (f + P) * 4096)" using x page_of by blast
    then show ?thesis using assms(1,3) h(4) [of x] by (auto simp: m'_def)
  qed
qed

lemma two_blocks:
  fixes m :: phys_mem and nxt :: u64
  assumes "unat a = f * 4096" "f + P \<le> 2 ^ 25" "unat hsize + 16 \<le> P * 4096" "unat sz + 48 < unat hsize"
  defines "b \<equiv> a + 16 + sz"
  defines "m' \<equiv> wr32 (set_hdr b (ucast (ucast hsize - sz - 16)) nxt (set_hdr a hsize 0 m)) (a + 4) (ucast sz)"
  shows "blocks_ok m' {f..<f + P} {(a, unat sz), (b, 0)}" "unat x div 4096 \<notin> {f..<f + P} \<Longrightarrow> m' x = m x"
    "hdr_next m' b = nxt" "unat b = f * 4096 + 16 + unat sz"
proof -
  have s32: "unat sz < 2 ^ 32" using assms(4) unat_bound32 [of hsize] by linarith
  have a16: "unat (a + 16) = unat a + 16" using addr_unat [of a 16] assms(1,2) by simp
  show ub: "unat b = f * 4096 + 16 + unat sz" unfolding b_def using a16 assms(1,2) s32 by (subst unat_add64) simp_all
  have ra: "hdr_room a" "hdr_room b" using assms(1-4) ub by (simp_all add: hdr_room_def)
  let ?m1 = "set_hdr a hsize 0 m" and ?bs = "ucast (ucast hsize - sz - 16) :: u32"
  let ?m2 = "set_hdr b ?bs nxt ?m1"
  have le: "sz \<le> ucast hsize" "16 \<le> ucast hsize - sz" using assms(4) by (simp_all add: word_le_nat_alt unat_ucast_32_64 unat_sub)
  have "unat (ucast hsize - sz - 16) = unat hsize - unat sz - 16" using le by (simp add: unat_sub unat_ucast_32_64)
  then have bs: "unat ?bs = unat hsize - unat sz - 16"
    using unat_bound32 [of hsize] by (simp add: unsigned_ucast_eq take_bit_nat_eq_self_iff)
  have us: "unat (ucast sz :: u32) = unat sz" using s32 by (simp add: unsigned_ucast_eq take_bit_nat_eq_self_iff)
  have "?m2 x = ?m1 x" if "unat a \<le> unat x" "unat x < unat a + 16" for x
    using set_hdr(4) [OF ra(2)] that ub assms(1) by auto
  then have fa: "hdr_magic ?m2 a = KMALLOC_MAGIC" using hdr_frame(1) [OF ra(1), of ?m2 ?m1] set_hdr(1) [OF ra(1)] by simp
  have "m' x = ?m2 x" if "unat b \<le> unat x" "unat x < unat b + 16" for x
    using set_size(4) [OF ra(1)] that ub assms(1) by (auto simp: m'_def)
  then have fb: "hdr_magic m' b = KMALLOC_MAGIC" "hdr_size m' b = ?bs" "hdr_next m' b = nxt"
    using hdr_frame [OF ra(2), of m' ?m2] set_hdr(1-3) [OF ra(2)] by simp_all
  then show "hdr_next m' b = nxt" by simp
  have fa': "hdr_magic m' a = KMALLOC_MAGIC" "hdr_size m' a = ucast sz" using set_size(1,3) [OF ra(1)] fa by (simp_all add: m'_def)
  have ext: "extent m' (a, unat sz) = {f * 4096..<f * 4096 + 16 + unat sz}" "extent m' (b, 0) = {f * 4096 + 16 + unat sz..<f * 4096 + 16 + unat hsize}"
    using fa' fb us bs ub assms(1,4) by (auto simp: extent_def)
  have "x div 4096 \<in> {f..<f + P}" if "x \<in> {f * 4096..<f * 4096 + 16 + unat hsize}" for x
    using that assms(3) by (intro page_of) auto
  then show "blocks_ok m' {f..<f + P} {(a, unat sz), (b, 0)}"
    using fa'(1) fb(1) assms(4) by (auto simp: blocks_ok_def block_ok_def ext)
  show "m' x = m x" if x: "unat x div 4096 \<notin> {f..<f + P}"
  proof -
    have "\<not> (f * 4096 \<le> unat x \<and> unat x < (f + P) * 4096)" using x page_of by blast
    then have "unat x < unat a \<or> unat a + 16 + unat hsize \<le> unat x" using assms(1,3) by auto
    then show ?thesis using set_size(4) [OF ra(1), of x] set_hdr(4) [OF ra(1), of x] set_hdr(4) [OF ra(2), of x] ub assms(1,4)
      by (auto simp: m'_def)
  qed
qed

lemma seg_outside:
  assumes "heap_inv s A H F" "\<And>x. unat x div 4096 \<notin> N \<Longrightarrow> m' x = heap_mem s x" "H \<inter> N = {}"
  shows "seg m' (free_list s) F 0"
proof -
  note d = heap_invD [OF assms(1)]
  have "hdr_next m' h = hdr_next (heap_mem s) h" if h: "h \<in> set F" for h
  proof (rule hdr_frame(3))
    show "hdr_room h" using block_room(1) [OF d(7,2) free_block [OF h]] by simp
    fix x :: u64 assume "unat h \<le> unat x" "unat x < unat h + 16"
    then have "unat x \<in> extent (heap_mem s) (h, 0)" by (auto simp: extent_def)
    then have "unat x div 4096 \<in> H" using d(7) free_block [OF h, of A] by (auto simp: blocks_ok_def block_ok_def)
    then show "m' x = heap_mem s x" using assms(2,3) by blast
  qed
  then show ?thesis using d(4) seg_frame by blast
qed

lemma carve_cases:
  defines "hsize \<equiv> \<lambda>pages. (ucast (pages * PAGE_SIZE - 16 :: u64) :: u32)"
  shows "unat sz + 48 < unat (hsize pages) \<Longrightarrow> carve sz pages a s =
      s\<lparr>heap_mem := wr32 (set_hdr (a + 16 + sz) (ucast (ucast (hsize pages) - sz - 16)) (free_list s) (set_hdr a (hsize pages) 0 (heap_mem s))) (a + 4) (ucast sz),
        free_list := a + 16 + sz\<rparr>"
    "\<not> unat sz + 48 < unat (hsize pages) \<Longrightarrow> carve sz pages a s = s\<lparr>heap_mem := set_hdr a (hsize pages) 0 (heap_mem s)\<rparr>"
proof -
  let ?h = "ucast (hsize pages) :: u64"
  have lt: "?h > sz \<longleftrightarrow> unat sz < unat (hsize pages)" by (simp add: word_less_nat_alt unat_ucast_32_64)
  have rem: "unat sz < unat (hsize pages) \<Longrightarrow> ?h - sz > 16 + 32 \<longleftrightarrow> unat sz + 48 < unat (hsize pages)"
    by (simp add: word_less_nat_alt word_le_nat_alt unat_sub unat_ucast_32_64) linarith
  have c: "carve sz pages a s = (if unat sz + 48 < unat (hsize pages)
     then s\<lparr>heap_mem := wr32 (set_hdr (a + 16 + sz) (ucast (?h - sz - 16)) (free_list s) (set_hdr a (hsize pages) 0 (heap_mem s))) (a + 4) (ucast sz),
        free_list := a + 16 + sz\<rparr>
     else s\<lparr>heap_mem := set_hdr a (hsize pages) 0 (heap_mem s)\<rparr>)"
    using lt rem unfolding carve_def hsize_def by (auto simp: Let_def)
  show "unat sz + 48 < unat (hsize pages) \<Longrightarrow> carve sz pages a s =
      s\<lparr>heap_mem := wr32 (set_hdr (a + 16 + sz) (ucast (?h - sz - 16)) (free_list s) (set_hdr a (hsize pages) 0 (heap_mem s))) (a + 4) (ucast sz),
        free_list := a + 16 + sz\<rparr>"
    "\<not> unat sz + 48 < unat (hsize pages) \<Longrightarrow> carve sz pages a s = s\<lparr>heap_mem := set_hdr a (hsize pages) 0 (heap_mem s)\<rparr>"
    unfolding c by simp_all
qed

lemma carve_inv:
  assumes inv: "heap_inv s A H F" and sz: "0 < unat sz" "unat sz \<le> 2 ^ 64 - 16" and pages: "pages = (16 + sz + PAGE_SIZE - 1) div PAGE_SIZE"
    and al: "pmm_alloc_pages pages (heap_pmm s) = (a, p)" "a \<noteq> 0"
  defines "N \<equiv> {unat a div 4096..<unat a div 4096 + unat pages}"
  shows "\<exists>F'. heap_inv (carve sz pages a (s\<lparr>heap_pmm := p\<rparr>)) (insert (a + 16, unat sz) A) (H \<union> N) F'"
proof -
  note d = heap_invD [OF inv] and n = alloc_nonzero [OF heap_invD(1) [OF inv] al]
  let ?f = "unat a div 4096" and ?P = "unat pages"
  have run: "?f + ?P \<le> 2 ^ 25" "N \<subseteq> free_set (heap_pmm s)"
    using n(2) d(1) by (auto simp: free_runs_def pmm_inv_def pmm_wf_def N_def)
  have zN: "0 \<notin> N" using run(2) d(1) by (auto simp: pmm_inv_def)
  have HN: "H \<union> N \<subseteq> {1..<2 ^ 25}"
  proof
    fix x assume x: "x \<in> H \<union> N"
    show "x \<in> {1..<2 ^ 25}"
    proof (cases "x \<in> H")
      case False
      then have "x \<noteq> 0" "x < ?f + ?P" using x zN by (auto simp: N_def)
      then show ?thesis using run(1) by simp
    qed (use d(2) in auto)
  qed
  have dis: "H \<inter> N = {}" "(H \<union> N) \<inter> free_set p = {}" using run(2) d(3) n(5) by (auto simp: N_def)
  have P: "?P \<le> 2 ^ 25" using run(1) by simp
  let ?h = "ucast (pages * PAGE_SIZE - 16) :: u32" and ?s = "s\<lparr>heap_pmm := p\<rparr>"
  note cs = carve_sizes [OF sz(2) pages n(1) P]
  have new: "a + 16 - 16 = a" by simp
  show ?thesis
  proof (cases "unat sz + 48 < unat ?h")
    case True
    let ?s' = "carve sz pages a ?s" and ?b = "a + 16 + sz"
    note c = carve_cases(1) [OF True, of a ?s]
    note tb = two_blocks(1-3) [where nxt = "free_list s" and m = "heap_mem s", OF n(3) run(1) cs(2) True, folded N_def]
      two_blocks(4) [OF n(3) run(1) cs(2) True]
    have m: "heap_mem ?s' = wr32 (set_hdr ?b (ucast (ucast ?h - sz - 16)) (free_list s) (set_hdr a ?h 0 (heap_mem s))) (a + 4) (ucast sz)"
      "free_list ?s' = ?b" "heap_pmm ?s' = p" by (simp_all add: c)
    have ok: "blocks_ok (heap_mem ?s') (H \<union> N) (blocks_of F A \<union> {(a, unat sz), (?b, 0)})"
      unfolding m by (rule blocks_extend [OF d(7,2) tb(2) dis(1) tb(1)])
    have sg: "seg (heap_mem ?s') (free_list s) F 0" unfolding m by (rule seg_outside [OF inv tb(2) dis(1)])
    have b0: "?b \<noteq> 0" using tb(4) sz(1) by auto
    have bF: "?b \<notin> set F"
    proof
      assume "?b \<in> set F"
      then have "unat ?b div 4096 \<in> H" using d(7) free_block [of ?b F A] extent_head [of 0 "(?b, 0)"] by (fastforce simp: blocks_ok_def block_ok_def)
      moreover have "unat ?b div 4096 \<in> N" unfolding N_def using tb(4) cs(1,2) True n(3) by (intro page_of) auto
      ultimately show False using dis(1) by blast
    qed
    have B: "blocks_of (?b # F) (insert (a + 16, unat sz) A) = blocks_of F A \<union> {(a, unat sz), (?b, 0)}" by (auto simp: blocks_of_def)
    have "heap_inv ?s' (insert (a + 16, unat sz) A) (H \<union> N) (?b # F)"
      unfolding heap_inv_def B using ok sg b0 bF tb(3) n(4) HN dis(2) d(5,6) sz(1) m by auto
    then show ?thesis by blast
  next
    case False
    let ?s' = "carve sz pages a ?s"
    note c = carve_cases(2) [OF False, of a ?s]
    note ob = one_block [where m = "heap_mem s", OF n(3) run(1) cs(1,2), folded N_def]
    have m: "heap_mem ?s' = set_hdr a ?h 0 (heap_mem s)" "free_list ?s' = free_list s" "heap_pmm ?s' = p" by (simp_all add: c)
    have ok: "blocks_ok (heap_mem ?s') (H \<union> N) (blocks_of F A \<union> {(a, unat sz)})"
      unfolding m by (rule blocks_extend [OF d(7,2) ob(2) dis(1) ob(1)])
    have sg: "seg (heap_mem ?s') (free_list s) F 0" unfolding m by (rule seg_outside [OF inv ob(2) dis(1)])
    have B: "blocks_of F (insert (a + 16, unat sz) A) = blocks_of F A \<union> {(a, unat sz)}" by (auto simp: blocks_of_def)
    have "heap_inv ?s' (insert (a + 16, unat sz) A) (H \<union> N) F"
      unfolding heap_inv_def B using ok sg n(4) HN dis(2) d(5,6) sz(1) m by auto
    then show ?thesis by blast
  qed
qed

section \<open>One allocation\<close>

lemma kmalloc_cases:
  assumes inv: "heap_inv s A H F" and sz: "sz \<noteq> 0"
  obtains (reuse) prev cur xs ys where "F = xs @ cur # ys" "prev = last (0 # xs)" "unat sz \<le> unat (hdr_size (heap_mem s) cur)" "cur \<noteq> 0"
      "kmalloc sz s = Some (cur + 16, unlink prev cur s)"
    | (full) p where "\<forall>h\<in>set F. unat (hdr_size (heap_mem s) h) < unat sz"
      "pmm_alloc_pages ((16 + sz + PAGE_SIZE - 1) div PAGE_SIZE) (heap_pmm s) = (0, p)" "kmalloc sz s = Some (0, s\<lparr>heap_pmm := p\<rparr>)"
    | (fresh) a p where "\<forall>h\<in>set F. unat (hdr_size (heap_mem s) h) < unat sz"
      "pmm_alloc_pages ((16 + sz + PAGE_SIZE - 1) div PAGE_SIZE) (heap_pmm s) = (a, p)" "a \<noteq> 0"
      "kmalloc sz s = Some (a + 16, carve sz ((16 + sz + PAGE_SIZE - 1) div PAGE_SIZE) a (s\<lparr>heap_pmm := p\<rparr>))"
proof -
  obtain prev cur where f: "find_fit (heap_mem s) sz 0 (free_list s) = Some (prev, cur)"
    and c: "cur = 0 \<and> (\<forall>h\<in>set F. unat (hdr_size (heap_mem s) h) < unat sz) \<or>
     (\<exists>xs ys. F = xs @ cur # ys \<and> prev = last (0 # xs) \<and> cur \<noteq> 0 \<and> unat sz \<le> unat (hdr_size (heap_mem s) cur))"
    using find_fit_seg [OF heap_invD(4) [OF inv], of sz 0] by blast
  obtain a p where al: "pmm_alloc_pages ((16 + sz + PAGE_SIZE - 1) div PAGE_SIZE) (heap_pmm s) = (a, p)" by (metis prod.exhaust)
  show thesis
  proof (cases "cur = 0")
    case False
    then have "kmalloc sz s = Some (cur + 16, unlink prev cur s)" using f sz by (simp add: kmalloc_def)
    then show thesis using c False reuse by blast
  next
    case True
    then have "kmalloc sz s = (if a = 0 then Some (0, s\<lparr>heap_pmm := p\<rparr>)
        else Some (a + 16, carve sz ((16 + sz + PAGE_SIZE - 1) div PAGE_SIZE) a (s\<lparr>heap_pmm := p\<rparr>)))"
      using f sz al by (simp add: kmalloc_def Let_def)
    then show thesis using c True al full fresh by (cases "a = 0") auto
  qed
qed

lemma alloc_pages_fail_same:
  assumes "pmm_inv s" "pmm_alloc_pages count s = (0, t)"
  shows "t = s" "count = 0 \<or> free_runs s (unat count) = {}"
proof -
  have wf: "pmm_wf s" and z: "0 \<notin> free_set s" using assms(1) by (simp_all add: pmm_inv_def)
  show none: "count = 0 \<or> free_runs s (unat count) = {}"
  proof (rule ccontr)
    assume n: "\<not> ?thesis"
    then obtain f where "f * 4096 = 0" "f \<in> free_runs s (unat count)"
      using pmm_alloc_pages_ok [OF wf, of count] assms(2) by auto
    then have "{0..<unat count} \<subseteq> free_set s" "0 < unat count" using n by (auto simp: free_runs_def unat_gt_0)
    then show False using z by auto
  qed
  show "t = s" using pmm_alloc_pages_fail [OF wf none] assms(2) by simp
qed

section \<open>Runs\<close>

text \<open>
  The heap and its clients: \<open>A\<close> the allocations in use with the sizes asked for, \<open>H\<close> the frames of the
  heap. Clients write only into their allocations, and the rest of the kernel may use the page
  allocator and write to memory as long as it leaves the frames of the heap alone.
\<close>

inductive heap_step :: "kheap_state \<times> (u64 \<times> nat) set \<times> nat set \<Rightarrow> kheap_state \<times> (u64 \<times> nat) set \<times> nat set \<Rightarrow> bool" where
  s_alloc: "unat sz \<le> 2 ^ 64 - 16 \<Longrightarrow> kmalloc sz s = Some (p, t) \<Longrightarrow> p \<noteq> 0 \<Longrightarrow>
     heap_step (s, A, H) (t, insert (p, unat sz) A, H \<union> (free_set (heap_pmm s) - free_set (heap_pmm t)))"
| s_alloc_fail: "unat sz \<le> 2 ^ 64 - 16 \<Longrightarrow> kmalloc sz s = Some (0, t) \<Longrightarrow> heap_step (s, A, H) (t, A, H)"
| s_free: "(p, n) \<in> A \<Longrightarrow> heap_step (s, A, H) (kfree p s, A - {(p, n)}, H)"
| s_free_null: "heap_step (s, A, H) (kfree 0 s, A, H)"
| s_write: "\<forall>x. m x \<noteq> heap_mem s x \<longrightarrow> (\<exists>(p, n)\<in>A. unat p \<le> unat x \<and> unat x < unat p + n) \<Longrightarrow>
     heap_step (s, A, H) (s\<lparr>heap_mem := m\<rparr>, A, H)"
| s_kernel: "pmm_inv q \<Longrightarrow> H \<inter> free_set q = {} \<Longrightarrow> \<forall>x. unat x div 4096 \<in> H \<longrightarrow> m x = heap_mem s x \<Longrightarrow>
     heap_step (s, A, H) (s\<lparr>heap_mem := m, heap_pmm := q\<rparr>, A, H)"

inductive heap_run :: "kheap_state \<times> (u64 \<times> nat) set \<times> nat set \<Rightarrow> bool" where
  boot: "pmm_inv (heap_pmm s) \<Longrightarrow> free_list s = 0 \<Longrightarrow> heap_run (s, {}, {})"
| step: "heap_run x \<Longrightarrow> heap_step x y \<Longrightarrow> heap_run y"

text \<open>A change of memory that leaves every header alone.\<close>

lemma heap_inv_memory:
  assumes "heap_inv s A H F" "pmm_inv q" "H \<inter> free_set q = {}"
    and "\<And>b x. b \<in> blocks_of F A \<Longrightarrow> unat (fst b) \<le> unat x \<Longrightarrow> unat x < unat (fst b) + 16 \<Longrightarrow> m x = heap_mem s x"
  shows "heap_inv (s\<lparr>heap_mem := m, heap_pmm := q\<rparr>) A H F"
proof -
  note d = heap_invD [OF assms(1)]
  have h: "hdr_magic m (fst b) = hdr_magic (heap_mem s) (fst b)" "hdr_size m (fst b) = hdr_size (heap_mem s) (fst b)"
    "hdr_next m (fst b) = hdr_next (heap_mem s) (fst b)" if b: "b \<in> blocks_of F A" for b
    using hdr_frame [OF block_room(1) [OF d(7,2) b], of m "heap_mem s"] assms(4) [OF b] by auto
  have "blocks_ok m H (blocks_of F A)" using d(7) blocks_cong [of "blocks_of F A" m "heap_mem s"] h by blast
  moreover have "seg m (free_list s) F 0" using d(4) seg_frame [of F m "heap_mem s"] h(3) free_block by fastforce
  ultimately show ?thesis using assms(2,3) d by (simp add: heap_inv_def)
qed

lemma live_payload:
  assumes "heap_inv s A H F" "(p, n) \<in> A"
  shows "unat p = unat (p - 16) + 16" "{unat p..<unat p + n} \<subseteq> extent (heap_mem s) (p - 16, n)"
proof -
  note d = heap_invD [OF assms(1)]
  have "unat (p - 16) + 16 \<le> 2 ^ 37" using block_room(4) [OF d(7,2) live_block [OF assms(2)]] by simp
  then show u: "unat p = unat (p - 16) + 16" using addr_unat [of "p - 16" 16] by simp
  show "{unat p..<unat p + n} \<subseteq> extent (heap_mem s) (p - 16, n)" unfolding u by (auto simp: extent_def)
qed

text \<open>A write inside an allocation meets no header.\<close>

lemma write_inv:
  assumes inv: "heap_inv s A H F" and w: "\<forall>x. m x \<noteq> heap_mem s x \<longrightarrow> (\<exists>(p, n)\<in>A. unat p \<le> unat x \<and> unat x < unat p + n)"
  shows "heap_inv (s\<lparr>heap_mem := m\<rparr>) A H F"
proof -
  note d = heap_invD [OF inv]
  have "m x = heap_mem s x" if b: "b \<in> blocks_of F A" and x: "unat (fst b) \<le> unat x" "unat x < unat (fst b) + 16" for b x
  proof (rule ccontr)
    assume "m x \<noteq> heap_mem s x"
    then obtain p n where pn: "(p, n) \<in> A" "unat x \<in> {unat p..<unat p + n}" using w by auto
    have xb: "unat x \<in> extent (heap_mem s) b" using x by (auto simp: extent_def)
    have xp: "unat x \<in> extent (heap_mem s) (p - 16, n)" using live_payload(2) [OF inv pn(1)] pn(2) by blast
    have "b \<noteq> (p - 16, n)" using x live_payload(1) [OF inv pn(1)] pn(2) by auto
    then have "extent (heap_mem s) b \<inter> extent (heap_mem s) (p - 16, n) = {}"
      using d(7) b live_block [OF pn(1), of F] unfolding blocks_ok_def by blast
    then show False using xb xp by blast
  qed
  then have "heap_inv (s\<lparr>heap_mem := m, heap_pmm := heap_pmm s\<rparr>) A H F" using heap_inv_memory [OF inv d(1,3)] by blast
  then show ?thesis by simp
qed

lemma kernel_inv:
  assumes inv: "heap_inv s A H F" "pmm_inv q" "H \<inter> free_set q = {}" "\<forall>x. unat x div 4096 \<in> H \<longrightarrow> m x = heap_mem s x"
  shows "heap_inv (s\<lparr>heap_mem := m, heap_pmm := q\<rparr>) A H F"
proof (rule heap_inv_memory [OF assms(1-3)])
  fix b and x :: u64 assume b: "b \<in> blocks_of F A" and x: "unat (fst b) \<le> unat x" "unat x < unat (fst b) + 16"
  have "unat x \<in> extent (heap_mem s) b" using x by (auto simp: extent_def)
  then have "unat x div 4096 \<in> H" using heap_invD(7) [OF assms(1)] b by (auto simp: blocks_ok_def block_ok_def)
  then show "m x = heap_mem s x" using assms(4) by blast
qed

lemma kmalloc_inv:
  assumes inv: "heap_inv s A H F" and sz: "unat sz \<le> 2 ^ 64 - 16" and k: "kmalloc sz s = Some (p, t)"
  shows "if p = 0 then t = s
    else \<exists>F'. heap_inv t (insert (p, unat sz) A) (H \<union> (free_set (heap_pmm s) - free_set (heap_pmm t))) F'"
proof (cases "sz = 0")
  case True
  then show ?thesis using k by (simp add: kmalloc_def)
next
  case False
  then have pos: "0 < unat sz" by (simp add: unat_gt_0)
  note d = heap_invD [OF inv]
  show ?thesis
  proof (rule kmalloc_cases [OF inv False])
    fix prev cur xs ys
    assume r: "F = xs @ cur # ys" "prev = last (0 # xs)" "unat sz \<le> unat (hdr_size (heap_mem s) cur)" "cur \<noteq> 0"
      "kmalloc sz s = Some (cur + 16, unlink prev cur s)"
    have "unat cur + 16 \<le> 2 ^ 37" using block_room(4) [OF d(7,2) free_block [of cur F]] r(1) by simp
    then have "cur + 16 \<noteq> 0" using addr_unat [of cur 16] by auto
    moreover have "heap_pmm (unlink prev cur s) = heap_pmm s" by (simp add: unlink_def Let_def)
    ultimately show ?thesis using reuse_inv [OF inv [unfolded r(1)] r(2) pos r(3)] r(5) k by auto
  next
    fix q assume "pmm_alloc_pages ((16 + sz + PAGE_SIZE - 1) div PAGE_SIZE) (heap_pmm s) = (0, q)" "kmalloc sz s = Some (0, s\<lparr>heap_pmm := q\<rparr>)"
    then show ?thesis using alloc_pages_fail_same(1) [OF d(1)] k by auto
  next
    let ?pages = "(16 + sz + PAGE_SIZE - 1) div PAGE_SIZE"
    fix a q assume r: "pmm_alloc_pages ?pages (heap_pmm s) = (a, q)" "a \<noteq> 0"
      "kmalloc sz s = Some (a + 16, carve sz ?pages a (s\<lparr>heap_pmm := q\<rparr>))"
    note n = alloc_nonzero [OF d(1) r(1,2)]
    have "heap_pmm (carve sz ?pages a (s\<lparr>heap_pmm := q\<rparr>)) = q" by (simp add: carve_def Let_def)
    moreover have "free_set (heap_pmm s) - free_set q = {unat a div 4096..<unat a div 4096 + unat ?pages}"
      using n(2,5) by (auto simp: free_runs_def)
    moreover have "unat a + 16 < 2 ^ 64"
      using n(2,3) d(1) by (auto simp: free_runs_def pmm_inv_def pmm_wf_def)
    then have "a + 16 \<noteq> 0" using addr_unat [of a 16] by auto
    ultimately show ?thesis using carve_inv [OF inv pos sz refl r(1,2)] r(3) k by auto
  qed
qed

lemma heap_step_inv:
  assumes "heap_step x y" "\<exists>F. heap_inv (fst x) (fst (snd x)) (snd (snd x)) F"
  shows "\<exists>F. heap_inv (fst y) (fst (snd y)) (snd (snd y)) F"
  using assms
proof (cases rule: heap_step.cases)
  case (s_alloc sz s p t A H)
  then show ?thesis using assms(2) kmalloc_inv [of s A H _ sz p t] by auto
next
  case (s_alloc_fail sz s t A H)
  then show ?thesis using assms(2) kmalloc_inv [of s A H _ sz 0 t] by auto
next
  case (s_free p n A s H)
  then show ?thesis using assms(2) kfree_inv(1) [of s A H _ p n] by auto
next
  case (s_free_null s A H)
  then show ?thesis using assms(2) by (simp add: kfree_def)
next
  case (s_write m s A H)
  then show ?thesis using assms(2) write_inv [of s A H _ m] by auto
next
  case (s_kernel q H m s A)
  then show ?thesis using assms(2) kernel_inv [of s A H _ q m] by auto
qed

lemma heap_run_inv: "heap_run x \<Longrightarrow> \<exists>F. heap_inv (fst x) (fst (snd x)) (snd (snd x)) F"
proof (induction rule: heap_run.induct)
  case (boot s)
  then show ?case by (intro exI [of _ "[]"]) (simp add: heap_inv_def blocks_ok_def blocks_of_def)
qed (rule heap_step_inv)

text \<open>An allocation takes at most the frames that it needs, one behind the other.\<close>

lemma kmalloc_takes:
  assumes "heap_run (s, A, H)" "unat sz \<le> 2 ^ 64 - 16" "kmalloc sz s = Some (p, t)"
  shows "\<exists>a. free_set (heap_pmm s) - {a..<a + (unat sz + 4111) div 4096} \<subseteq> free_set (heap_pmm t) \<and> frame_limit (heap_pmm t) = frame_limit (heap_pmm s)"
proof (cases "sz = 0")
  case True
  then show ?thesis using assms(3) by (auto simp: kmalloc_def)
next
  case False
  obtain F where inv: "heap_inv s A H F" using heap_run_inv [OF assms(1)] by auto
  note d = heap_invD [OF inv]
  let ?pages = "(16 + sz + PAGE_SIZE - 1) div PAGE_SIZE"
  show ?thesis
  proof (rule kmalloc_cases [OF inv False])
    fix prev cur assume "kmalloc sz s = Some (cur + 16, unlink prev cur s)"
    then show ?thesis using assms(3) by (auto simp: unlink_def Let_def)
  next
    fix q assume "pmm_alloc_pages ?pages (heap_pmm s) = (0, q)" "kmalloc sz s = Some (0, s\<lparr>heap_pmm := q\<rparr>)"
    then show ?thesis using alloc_pages_fail_same(1) [OF d(1)] assms(3) by auto
  next
    fix a q assume r: "pmm_alloc_pages ?pages (heap_pmm s) = (a, q)" "a \<noteq> 0"
      "kmalloc sz s = Some (a + 16, carve sz ?pages a (s\<lparr>heap_pmm := q\<rparr>))"
    note n = alloc_nonzero [OF d(1) r(1,2)]
    have "unat ?pages = (unat sz + 4111) div 4096" by (rule page_count [OF assms(2) refl n(1)])
    moreover have "heap_pmm t = q" using r(3) assms(3) by (auto simp: carve_def Let_def)
    ultimately show ?thesis using n(5,6) by (intro exI [of _ "unat a div 4096"]) simp
  qed
qed

section \<open>Properties\<close>

lemma seg_unique: "seg m a xs 0 \<Longrightarrow> seg m a ys 0 \<Longrightarrow> xs = ys"
proof (induction xs arbitrary: a ys)
  case Nil
  then show ?case by (cases ys) auto
next
  case (Cons x xs)
  then show ?case by (cases ys) auto
qed

text \<open>
  C5: allocations are disjoint. Over every sequence of allocations of at most \<open>2\<^sup>6\<^sup>4 - 16\<close> bytes, frees of allocations in
  use, writes of the clients into their allocations and any activity of the rest of the kernel that leaves
  the pages of the heap alone: the free list ends; the pages of the heap are ones that the page
  allocator does not hand out; every allocation in use covers the bytes asked for without wrapping round
  and lies, with its 16 byte header, in pages of the heap; and it shares no byte with the header or the
  bytes of another allocation, nor with the header or the bytes of a block of the free list.
\<close>
theorem heap_allocations_disjoint:
  assumes "heap_run (s, A, H)" "(p, n) \<in> A"
  shows "\<exists>F. seg (heap_mem s) (free_list s) F 0 \<and> H \<inter> free_set (heap_pmm s) = {} \<and>
    0 < n \<and> 4112 \<le> unat p \<and> unat p + n \<le> 2 ^ 37 \<and> (\<forall>x\<in>{unat p - 16..<unat p + n}. x div 4096 \<in> H) \<and>
    (\<forall>q k. (q, k) \<in> A \<longrightarrow> (q, k) \<noteq> (p, n) \<longrightarrow> {unat p - 16..<unat p + n} \<inter> {unat q - 16..<unat q + k} = {}) \<and>
    (\<forall>h\<in>set F. {unat p - 16..<unat p + n} \<inter> {unat h..<unat h + 16 + unat (hdr_size (heap_mem s) h)} = {})"
proof -
  obtain F where inv: "heap_inv s A H F" using heap_run_inv [OF assms(1)] by auto
  note d = heap_invD [OF inv]
  have ext: "{unat q - 16..<unat q + k} \<subseteq> extent (heap_mem s) (q - 16, k)" if "(q, k) \<in> A" for q k
    using live_payload(1) [OF inv that] by (auto simp: extent_def)
  have b: "(p - 16, n) \<in> blocks_of F A" by (rule live_block [OF assms(2)])
  have apart: "{unat p - 16..<unat p + n} \<inter> extent (heap_mem s) c = {}" if "c \<in> blocks_of F A" "c \<noteq> (p - 16, n)" for c
    using d(7) b that ext [OF assms(2)] unfolding blocks_ok_def by blast
  have n0: "0 < n" using d(6) [OF assms(2)] by simp
  have low: "4112 \<le> unat p" using block_room(3) [OF d(7,2) b] live_payload(1) [OF inv assms(2)] by simp
  have "unat p + n - 1 \<in> extent (heap_mem s) (p - 16, n)" using ext [OF assms(2)] n0 low by auto
  then have "unat p + n - 1 < 2 ^ 37" using block_room(2) [OF d(7,2) b] by blast
  then have top: "unat p + n \<le> 2 ^ 37" using n0 by linarith
  have "\<forall>x\<in>{unat p - 16..<unat p + n}. x div 4096 \<in> H"
    using ext [OF assms(2)] d(7) b unfolding blocks_ok_def block_ok_def by blast
  moreover have "{unat p - 16..<unat p + n} \<inter> {unat q - 16..<unat q + k} = {}" if q: "(q, k) \<in> A" and ne: "(q, k) \<noteq> (p, n)" for q k
  proof -
    have "(q - 16, k) \<noteq> (p - 16, n)" using ne by auto
    then show ?thesis using apart [OF live_block [OF q]] ext [OF q] by blast
  qed
  moreover have "{unat p - 16..<unat p + n} \<inter> {unat h..<unat h + 16 + unat (hdr_size (heap_mem s) h)} = {}" if "h \<in> set F" for h
  proof -
    have "(h, 0) \<noteq> (p - 16, n)" using n0 by simp
    then show ?thesis using apart [OF free_block [OF that]] by (simp add: extent_def)
  qed
  ultimately show ?thesis using n0 low top d(3,4) by blast
qed

text \<open>
  an allocation returns, and fails only for lack of memory. In every state of such a run the walk along
  the free list ends, and \<^verbatim>\<open>kmalloc\<close> returns the null pointer exactly for size 0 or when no block of the
  free list is large enough and no run of free pages can hold the size and the header; then nothing
  has changed.
\<close>
theorem kmalloc_returns:
  assumes "heap_run (s, A, H)" "unat sz \<le> 2 ^ 64 - 16"
  shows "\<exists>p t F. kmalloc sz s = Some (p, t) \<and> seg (heap_mem s) (free_list s) F 0 \<and> (p = 0 \<longrightarrow> t = s) \<and>
    (p = 0 \<longleftrightarrow> sz = 0 \<or> (\<forall>h\<in>set F. unat (hdr_size (heap_mem s) h) < unat sz) \<and>
      free_runs (heap_pmm s) ((unat sz + 4111) div 4096) = {})"
proof (cases "sz = 0")
  case True
  obtain F where inv: "heap_inv s A H F" using heap_run_inv [OF assms(1)] by auto
  then show ?thesis using True heap_invD(4) [OF inv] by (auto simp: kmalloc_def)
next
  case False
  obtain F where inv: "heap_inv s A H F" using heap_run_inv [OF assms(1)] by auto
  note d = heap_invD [OF inv]
  let ?pages = "(16 + sz + PAGE_SIZE - 1) div PAGE_SIZE"
  have runs: "?pages = 0 \<or> free_runs (heap_pmm s) (unat ?pages) = {} \<longleftrightarrow> free_runs (heap_pmm s) ((unat sz + 4111) div 4096) = {}"
  proof (cases "?pages = 0")
    case True
    then have "(unat sz + 4111) mod 2 ^ 64 div 4096 = 0" using page_count_mod [of sz] by simp
    then have "\<not> unat sz + 4111 < 2 ^ 64" by auto
    then have "2 ^ 25 < (unat sz + 4111) div 4096" by simp
    then have "free_runs (heap_pmm s) ((unat sz + 4111) div 4096) = {}"
      using d(1) by (auto simp: free_runs_def pmm_inv_def pmm_wf_def)
    then show ?thesis using True by simp
  next
    case False
    then have "unat ?pages = (unat sz + 4111) div 4096" by (rule page_count [OF assms(2) refl])
    then show ?thesis using False by metis
  qed
  show ?thesis
  proof (rule kmalloc_cases [OF inv False])
    fix prev cur xs ys
    assume r: "F = xs @ cur # ys" "unat sz \<le> unat (hdr_size (heap_mem s) cur)" "kmalloc sz s = Some (cur + 16, unlink prev cur s)"
    have "unat cur + 16 \<le> 2 ^ 37" using block_room(4) [OF d(7,2) free_block [of cur F]] r(1) by simp
    then have "cur + 16 \<noteq> 0" using addr_unat [of cur 16] by auto
    moreover have "\<not> (\<forall>h\<in>set F. unat (hdr_size (heap_mem s) h) < unat sz)" using r(1,2) by auto
    ultimately show ?thesis using r(3) d(4) False by blast
  next
    fix q assume r: "\<forall>h\<in>set F. unat (hdr_size (heap_mem s) h) < unat sz" "pmm_alloc_pages ?pages (heap_pmm s) = (0, q)"
      "kmalloc sz s = Some (0, s\<lparr>heap_pmm := q\<rparr>)"
    have "q = heap_pmm s" "?pages = 0 \<or> free_runs (heap_pmm s) (unat ?pages) = {}" using alloc_pages_fail_same [OF d(1) r(2)] by blast+
    then show ?thesis using r(1,3) d(4) runs by (intro exI [of _ 0] exI [of _ s] exI [of _ F]) simp
  next
    fix a q assume r: "pmm_alloc_pages ?pages (heap_pmm s) = (a, q)" "a \<noteq> 0"
      "kmalloc sz s = Some (a + 16, carve sz ?pages a (s\<lparr>heap_pmm := q\<rparr>))"
    note n = alloc_nonzero [OF d(1) r(1,2)]
    have "free_runs (heap_pmm s) ((unat sz + 4111) div 4096) \<noteq> {}" using runs n(1,2) by auto
    moreover have "unat a + 16 < 2 ^ 64" using n(2,3) d(1) by (auto simp: free_runs_def pmm_inv_def pmm_wf_def)
    then have "a + 16 \<noteq> 0" using addr_unat [of a 16] by auto
    ultimately show ?thesis using r(3) d(4) False by blast
  qed
qed

text \<open>
  C37: sizes close to the top of the address space wrap. For a size of more than \<open>2\<^sup>6\<^sup>4 - 16\<close> bytes the sum with
  the header wraps round to a few bytes: \<^verbatim>\<open>kmalloc\<close> takes one page and returns a non-null pointer 16 bytes
  into it, whatever is free beyond.
\<close>
theorem kmalloc_size_wraps:
  assumes "heap_run (s, A, H)" "2 ^ 64 - 16 < unat sz" "free_set (heap_pmm s) \<noteq> {}"
  shows "\<exists>p t f. kmalloc sz s = Some (p, t) \<and> p \<noteq> 0 \<and> f \<in> free_set (heap_pmm s) \<and> unat p = f * 4096 + 16 \<and>
    free_set (heap_pmm t) = free_set (heap_pmm s) - {f}"
proof -
  obtain F where inv: "heap_inv s A H F" using heap_run_inv [OF assms(1)] by auto
  note d = heap_invD [OF inv]
  have sz: "sz \<noteq> 0" using assms(2) by auto
  let ?pages = "(16 + sz + PAGE_SIZE - 1) div PAGE_SIZE"
  have "(unat sz + 4111) mod 2 ^ 64 = unat sz + 4111 - 2 ^ 64" using assms(2) unat_bound64 [of sz] by (subst le_mod_geq) simp_all
  then have "unat ?pages = (unat sz + 4111 - 2 ^ 64) div 4096" using page_count_mod [of sz] by simp
  moreover have "4096 \<le> unat sz + 4111 - 2 ^ 64" "unat sz + 4111 - 2 ^ 64 < 2 * 4096" using assms(2) unat_bound64 [of sz] by simp_all
  ultimately have p1: "unat ?pages = 1" by (simp add: div_nat_eqI)
  have some: "free_runs (heap_pmm s) (unat ?pages) \<noteq> {}" using assms(3) free_runs_1 [of "heap_pmm s"] p1 by simp
  have small: "unat (hdr_size (heap_mem s) h) < unat sz" for h using assms(2) unat_bound32 [of "hdr_size (heap_mem s) h"] by simp
  show ?thesis
  proof (rule kmalloc_cases [OF inv sz])
    fix prev cur xs ys assume "unat sz \<le> unat (hdr_size (heap_mem s) cur)"
    then show ?thesis using small [of cur] by simp
  next
    fix q assume q: "pmm_alloc_pages ?pages (heap_pmm s) = (0, q)"
    have "?pages \<noteq> 0" using p1 by (metis unat_0 zero_neq_one)
    then show ?thesis using alloc_pages_fail_same(2) [OF d(1) q] some by blast
  next
    fix a q assume r: "pmm_alloc_pages ?pages (heap_pmm s) = (a, q)" "a \<noteq> 0"
      "kmalloc sz s = Some (a + 16, carve sz ?pages a (s\<lparr>heap_pmm := q\<rparr>))"
    note n = alloc_nonzero [OF d(1) r(1,2)]
    have f: "unat a div 4096 \<in> free_set (heap_pmm s)" "{unat a div 4096..<unat a div 4096 + unat ?pages} = {unat a div 4096}"
      using n(2) p1 by (auto simp: free_runs_def)
    have "unat a + 16 < 2 ^ 64" using n(2,3) d(1) by (auto simp: free_runs_def pmm_inv_def pmm_wf_def)
    then have u: "unat (a + 16) = unat a + 16" using addr_unat [of a 16] by simp
    moreover have "a + 16 \<noteq> 0" using u by auto
    moreover have "heap_pmm (carve sz ?pages a (s\<lparr>heap_pmm := q\<rparr>)) = q" by (simp add: carve_def Let_def)
    moreover have "unat (a + 16) = unat a div 4096 * 4096 + 16" unfolding u using n(3) by presburger
    moreover have "free_set q = free_set (heap_pmm s) - {unat a div 4096}" using n(5) f(2) by metis
    ultimately show ?thesis using r(3) f(1) by metis
  qed
qed

text \<open>A header that links to itself and is too small keeps the walk for ever.\<close>

lemma find_fit_loops:
  assumes "hdr_next m h = h" "h \<noteq> 0" "unat (hdr_size m h) < unat sz"
  shows "find_fit m sz prev h = None"
proof (rule ccontr)
  assume "find_fit m sz prev h \<noteq> None"
  then obtain r where r: "find_fit m sz prev h = Some r" by auto
  have "find_fit m' sz' prev' cur = Some r' \<Longrightarrow> \<not> (hdr_next m' cur = cur \<and> cur \<noteq> 0 \<and> unat (hdr_size m' cur) < unat sz')" for m' sz' prev' cur r'
  proof (rule find_fit.raw_induct [of "\<lambda>m sz prev cur r. \<not> (hdr_next m cur = cur \<and> cur \<noteq> 0 \<and> unat (hdr_size m cur) < unat sz)"], goal_cases)
    case (1 g m sz prev cur y)
    show ?case using 1(2) [of m sz cur cur y] 1(3) by (auto simp: word_le_nat_alt unat_ucast_32_64 split: if_splits)
  qed
  then show False using r assms by blast
qed

text \<open>
  freeing twice hangs the kernel. When an allocation in use is freed twice its header links to itself, and
  a later \<^verbatim>\<open>kmalloc\<close> of more bytes than it has never returns.
\<close>
theorem double_free_hangs:
  assumes "heap_run (s, A, H)" "(p, n) \<in> A" "unat (hdr_size (heap_mem s) (p - 16)) < unat sz"
  shows "kmalloc sz (kfree p (kfree p s)) = None"
proof -
  obtain F where inv: "heap_inv s A H F" using heap_run_inv [OF assms(1)] by auto
  note d = heap_invD [OF inv]
  let ?h = "p - 16" and ?m = "heap_mem s"
  let ?m1 = "wr64 ?m (?h + 8) (free_list s)"
  have b: "(?h, n) \<in> blocks_of F A" by (rule live_block [OF assms(2)])
  have room: "hdr_room ?h" and low: "4096 \<le> unat ?h" "unat ?h + 16 \<le> 2 ^ 37" using block_room [OF d(7,2) b] by simp_all
  have magic: "hdr_magic ?m ?h = KMALLOC_MAGIC" using d(7) b by (auto simp: blocks_ok_def block_ok_def)
  have p0: "p \<noteq> 0" "?h \<noteq> 0" using low by auto
  note k1 = kfree_inv(2) [OF inv assms(2)]
  have k2: "kfree p (kfree p s) = s\<lparr>heap_mem := wr64 ?m1 (?h + 8) ?h, free_list := ?h\<rparr>"
    unfolding k1 using p0 magic set_next(3) [OF room, of ?m "free_list s"] by (simp add: kfree_def Let_def)
  let ?m2 = "wr64 ?m1 (?h + 8) ?h"
  have "hdr_next ?m2 ?h = ?h" "hdr_size ?m2 ?h = hdr_size ?m ?h" using set_next(1,2) [OF room] by simp_all
  then have "find_fit ?m2 sz 0 ?h = None" using find_fit_loops p0(2) assms(3) by simp
  moreover have "sz \<noteq> 0" using assms(3) by auto
  ultimately show ?thesis unfolding k2 by (simp add: kmalloc_def)
qed

section \<open>A run\<close>

definition demo_heap :: kheap_state where
  "demo_heap = \<lparr>free_list = 0, heap_mem = (\<lambda>a. 0), heap_pmm = demo_pmm\<rparr>"

lemma demo_heap_run: "heap_run (demo_heap, {}, {})"
  by (rule heap_run.boot) (simp_all add: demo_heap_def demo_pmm_inv)

text \<open>After an allocation of 100 bytes the rest of the page is on the free list.\<close>

lemma demo_allocation:
  "\<exists>p s H. kmalloc 100 demo_heap = Some (p, s) \<and> p \<noteq> 0 \<and> heap_run (s, {(p, 100)}, H) \<and> hdr_size (heap_mem s) (p - 16) = 100 \<and>
     513 \<in> insert (unat p div 4096) (free_set (heap_pmm s))"
proof -
  have inv: "heap_inv demo_heap {} {} []"
    using heap_run_inv [OF demo_heap_run] seg_unique [of "heap_mem demo_heap" 0 _ "[]"] by (auto simp: heap_inv_def demo_heap_def)
  have sz: "(100 :: u64) \<noteq> 0" by simp
  let ?pages = "(16 + (100 :: u64) + PAGE_SIZE - 1) div PAGE_SIZE"
  have p1: "?pages = 1" by (simp add: PAGE_SIZE_def)
  show ?thesis
  proof (rule kmalloc_cases [OF inv sz])
    fix prev cur :: u64 and xs ys assume "[] = xs @ cur # ys"
    then show ?thesis by simp
  next
    fix q assume q: "pmm_alloc_pages ?pages (heap_pmm demo_heap) = (0, q)"
    have "513 \<in> free_runs demo_pmm (unat (1 :: u64))" using free_runs_1 [of demo_pmm] by (simp add: demo_pmm_free)
    then show ?thesis using alloc_pages_fail_same(2) [of demo_pmm 1 q] q demo_pmm_inv unfolding p1 by (auto simp: demo_heap_def)
  next
    fix a q assume r: "pmm_alloc_pages ?pages (heap_pmm demo_heap) = (a, q)" "a \<noteq> 0"
      "kmalloc 100 demo_heap = Some (a + 16, carve 100 ?pages a (demo_heap\<lparr>heap_pmm := q\<rparr>))"
    let ?s = "carve 100 ?pages a (demo_heap\<lparr>heap_pmm := q\<rparr>)"
    note n = alloc_nonzero [OF heap_invD(1) [OF inv] r(1,2)]
    have top: "unat a + 16 < 2 ^ 64" using n(2,3) demo_pmm_limit by (simp add: free_runs_def demo_heap_def)
    then have room: "hdr_room a" by (simp add: hdr_room_def)
    have nz: "a + 16 \<noteq> 0" using addr_unat [of a 16] top by auto
    have run: "heap_run (?s, {(a + 16, 100)}, {} \<union> (free_set (heap_pmm demo_heap) - free_set (heap_pmm ?s)))"
      using heap_run.step [OF demo_heap_run heap_step.s_alloc [OF _ r(3) nz]] by simp
    have "heap_mem ?s = wr32 (set_hdr (a + 16 + 100) (ucast (ucast (ucast (?pages * PAGE_SIZE - 16) :: u32) - 100 - 16 :: u64)) 0
        (set_hdr a (ucast (?pages * PAGE_SIZE - 16)) 0 (\<lambda>a. 0))) (a + 4) (ucast (100 :: u64))"
      using carve_cases(1) [of 100 ?pages a "demo_heap\<lparr>heap_pmm := q\<rparr>"] by (simp add: p1 PAGE_SIZE_def demo_heap_def)
    then have "hdr_size (heap_mem ?s) (a + 16 - 16) = 100" using set_size(1) [OF room] by simp
    moreover have "513 \<in> insert (unat (a + 16) div 4096) (free_set (heap_pmm ?s))"
    proof -
      have "unat (a + 16) div 4096 = unat a div 4096" using addr_unat [of a 16] top n(3) by simp
      moreover have "heap_pmm ?s = q" by (simp add: carve_def Let_def)
      moreover have "513 \<in> free_set (heap_pmm demo_heap)" by (simp add: demo_heap_def demo_pmm_free)
      ultimately show ?thesis using n(5) unfolding p1 by auto
    qed
    ultimately show ?thesis using r(3) nz run by blast
  qed
qed

theorem heap_allocations_disjoint_witness:
  "\<exists>p s H F. kmalloc 100 demo_heap = Some (p, s) \<and> heap_run (s, {(p, 100)}, H) \<and> seg (heap_mem s) (free_list s) F 0 \<and>
     (unat p - 16) div 4096 \<notin> free_set (heap_pmm s) \<and>
     (\<forall>h\<in>set F. {unat p - 16..<unat p + 100} \<inter> {unat h..<unat h + 16 + unat (hdr_size (heap_mem s) h)} = {})"
proof -
  obtain p s H where r: "kmalloc 100 demo_heap = Some (p, s)" "heap_run (s, {(p, 100)}, H)" using demo_allocation by blast
  from heap_allocations_disjoint [OF r(2) insertI1] obtain F where
    F: "seg (heap_mem s) (free_list s) F 0 \<and> H \<inter> free_set (heap_pmm s) = {} \<and> 0 < (100 :: nat) \<and> 4112 \<le> unat p \<and> unat p + 100 \<le> 2 ^ 37 \<and>
      (\<forall>x\<in>{unat p - 16..<unat p + 100}. x div 4096 \<in> H) \<and>
      (\<forall>q k. (q, k) \<in> {(p, 100)} \<longrightarrow> (q, k) \<noteq> (p, 100) \<longrightarrow> {unat p - 16..<unat p + 100} \<inter> {unat q - 16..<unat q + k} = {}) \<and>
      (\<forall>h\<in>set F. {unat p - 16..<unat p + 100} \<inter> {unat h..<unat h + 16 + unat (hdr_size (heap_mem s) h)} = {})" by (rule exE)
  have "unat p - 16 \<in> {unat p - 16..<unat p + 100}" by simp
  then have "(unat p - 16) div 4096 \<in> H" using F by (elim conjE) (rule bspec)
  then have "(unat p - 16) div 4096 \<notin> free_set (heap_pmm s)" using F by (elim conjE) (simp add: disjoint_iff)
  with r F show ?thesis by (elim conjE) (intro exI conjI; assumption)
qed

theorem kmalloc_returns_witness: "\<exists>p t. kmalloc 5000 demo_heap = Some (p, t) \<and> p \<noteq> 0"
proof -
  have "513 \<in> free_runs demo_pmm 2" by (auto simp: free_runs_def demo_pmm_limit demo_pmm_free)
  then have "free_runs (heap_pmm demo_heap) ((unat (5000 :: u64) + 4111) div 4096) \<noteq> {}" by (auto simp: demo_heap_def)
  then show ?thesis using kmalloc_returns [OF demo_heap_run, of 5000] by auto
qed

theorem kmalloc_size_wraps_witness:
  "\<exists>p t f. kmalloc 0xFFFFFFFFFFFFFFFF demo_heap = Some (p, t) \<and> p \<noteq> 0 \<and> unat p = f * 4096 + 16 \<and> free_set (heap_pmm t) = {513..<2048} - {f}"
proof -
  have "free_set (heap_pmm demo_heap) = {513..<2048}" by (simp add: demo_heap_def demo_pmm_free)
  then show ?thesis using kmalloc_size_wraps [OF demo_heap_run, of "0xFFFFFFFFFFFFFFFF"] by auto
qed

theorem double_free_hangs_witness: "\<exists>p s. kmalloc 100 demo_heap = Some (p, s) \<and> kmalloc 101 (kfree p (kfree p s)) = None"
proof -
  obtain p s H where r: "kmalloc 100 demo_heap = Some (p, s)" "heap_run (s, {(p, 100)}, H)" "hdr_size (heap_mem s) (p - 16) = 100"
    using demo_allocation by blast
  have "kmalloc 101 (kfree p (kfree p s)) = None" by (rule double_free_hangs [OF r(2)]) (simp_all add: r(3))
  then show ?thesis using r(1) by blast
qed

end
