(* ===== verification/Tables.thy ===== *)
theory Tables
  imports NM_Prelude
begin

text \<open>
  The processor tables: segment descriptors (\<^verbatim>\<open>kernel/gdt.c\<close>), interrupt gates (\<^verbatim>\<open>kernel/idt.c\<close>) and the task
  state segment (\<^verbatim>\<open>kernel/tss.c\<close>), with the packed structures as records. The addresses of the tables and of the
  entry stubs are parameters. The instructions that load the tables (\<^verbatim>\<open>lgdt\<close>, \<^verbatim>\<open>lidt\<close>, \<^verbatim>\<open>ltr\<close> and the far return) set
  the corresponding registers of the record \<open>cpu_tables\<close>. The lemmas show that what the processor reads out of
  the scattered fields is what was put in.
\<close>

section \<open>Structures\<close>

record gdt_entry =
  ge_limit_low :: u16
  ge_base_low :: u16
  ge_base_mid :: u8
  ge_access :: u8
  ge_gran :: u8
  ge_base_high :: u8

record tss_desc =
  td_limit_low :: u16
  td_base_low :: u16
  td_base_mid1 :: u8
  td_access :: u8
  td_gran :: u8
  td_base_mid2 :: u8
  td_base_high :: u32
  td_reserved :: u32

record gdt_table =
  gdt_null :: gdt_entry
  gdt_code :: gdt_entry
  gdt_data :: gdt_entry
  gdt_tss :: tss_desc

record table_ptr =
  tp_limit :: u16
  tp_base :: u64

record idt_gate =
  ig_offset_low :: u16
  ig_selector :: u16
  ig_ist :: u8
  ig_type_attr :: u8
  ig_offset_mid :: u16
  ig_offset_high :: u32
  ig_zero :: u32

record nm_tss64 =
  tss_reserved0 :: u32
  tss_rsp0 :: u64
  tss_rsp1 :: u64
  tss_rsp2 :: u64
  tss_reserved1 :: u64
  tss_ist1 :: u64
  tss_ist2 :: u64
  tss_ist3 :: u64
  tss_ist4 :: u64
  tss_ist5 :: u64
  tss_ist6 :: u64
  tss_ist7 :: u64
  tss_reserved2 :: u64
  tss_reserved3 :: u16
  tss_iopb :: u16

record cpu_tables =
  ct_gdt :: gdt_table
  ct_idt :: "idt_gate list"
  ct_tss :: nm_tss64
  gdtr :: table_ptr
  idtr :: table_ptr
  sel_cs :: u16
  sel_data :: u16
  sel_tr :: u16

text \<open>The sizes of the packed structures, in bytes.\<close>

definition sizeof_tss :: nat where "sizeof_tss = 4 + 8 * 3 + 8 + 8 * 7 + 8 + 2 + 2"
definition sizeof_gdt :: nat where "sizeof_gdt = 8 * 3 + 16"
definition sizeof_idt :: nat where "sizeof_idt = 16 * 256"

section \<open>Operations\<close>

definition tss_base_address :: "u64 \<Rightarrow> u64" where
  "tss_base_address kernel_tss = kernel_tss"

definition flat_segment :: "u8 \<Rightarrow> gdt_entry" where
  "flat_segment access = \<lparr>ge_limit_low = 0xFFFF, ge_base_low = 0, ge_base_mid = 0, ge_access = access, ge_gran = 0xAF, ge_base_high = 0\<rparr>"

definition tss_descriptor :: "u64 \<Rightarrow> u32 \<Rightarrow> tss_desc" where
  "tss_descriptor base limit =
     \<lparr>td_limit_low = ucast (limit AND 0xFFFF), td_base_low = ucast (base AND 0xFFFF), td_base_mid1 = ucast ((drop_bit 16 base) AND 0xFF),
      td_access = 0x89, td_gran = ucast ((drop_bit 16 limit) AND 0x0F), td_base_mid2 = ucast ((drop_bit 24 base) AND 0xFF),
      td_base_high = ucast (drop_bit 32 base), td_reserved = 0\<rparr>"

definition gdt_init :: "u64 \<Rightarrow> u64 \<Rightarrow> cpu_tables \<Rightarrow> cpu_tables" where
  "gdt_init gdt_addr kernel_tss s =
     (let base = tss_base_address kernel_tss; limit = (of_nat (sizeof_tss - 1) :: u32);
          gdt = (ct_gdt s)\<lparr>gdt_code := flat_segment 0x9A, gdt_data := flat_segment 0x92, gdt_tss := tss_descriptor base limit\<rparr>
      in s\<lparr>ct_gdt := gdt, gdtr := \<lparr>tp_limit = of_nat (sizeof_gdt - 1), tp_base = gdt_addr\<rparr>, sel_cs := 0x08, sel_data := 0x10\<rparr>)"

definition idt_set_gate :: "int \<Rightarrow> u64 \<Rightarrow> u8 \<Rightarrow> u8 \<Rightarrow> idt_gate list \<Rightarrow> idt_gate list" where
  "idt_set_gate vec handler type_attr ist idt =
     (if vec < 0 \<or> vec \<ge> 256 then idt
      else idt[nat vec := \<lparr>ig_offset_low = ucast (handler AND 0xFFFF), ig_selector = 0x08, ig_ist = ist, ig_type_attr = type_attr,
             ig_offset_mid = ucast ((drop_bit 16 handler) AND 0xFFFF), ig_offset_high = ucast ((drop_bit 32 handler) AND 0xFFFFFFFF), ig_zero = 0\<rparr>])"

text \<open>The addresses of the six entry stubs.\<close>

record isr_addrs =
  nm_isr_ud :: u64
  nm_isr_df :: u64
  nm_isr_gp :: u64
  nm_isr_pf :: u64
  nm_isr_irq0 :: u64
  nm_isr_irq1 :: u64

definition idt_init :: "u64 \<Rightarrow> isr_addrs \<Rightarrow> cpu_tables \<Rightarrow> cpu_tables" where
  "idt_init idt_addr isr s =
     (let idt = fold (\<lambda>i. idt_set_gate (int i) 0 0 0) [0..<256] (ct_idt s);
          idt = idt_set_gate 6 (nm_isr_ud isr) 0x8E 0 idt;
          idt = idt_set_gate 8 (nm_isr_df isr) 0x8E 0 idt;
          idt = idt_set_gate 13 (nm_isr_gp isr) 0x8E 0 idt;
          idt = idt_set_gate 14 (nm_isr_pf isr) 0x8E 0 idt;
          idt = idt_set_gate 32 (nm_isr_irq0 isr) 0x8E 0 idt;
          idt = idt_set_gate 33 (nm_isr_irq1 isr) 0x8E 0 idt
      in s\<lparr>ct_idt := idt, idtr := \<lparr>tp_limit = of_nat (sizeof_idt - 1), tp_base = idt_addr\<rparr>\<rparr>)"

definition tss_init :: "cpu_tables \<Rightarrow> cpu_tables" where
  "tss_init s =
     s\<lparr>ct_tss := \<lparr>tss_reserved0 = 0, tss_rsp0 = 0, tss_rsp1 = 0, tss_rsp2 = 0, tss_reserved1 = 0, tss_ist1 = 0, tss_ist2 = 0,
         tss_ist3 = 0, tss_ist4 = 0, tss_ist5 = 0, tss_ist6 = 0, tss_ist7 = 0, tss_reserved2 = 0, tss_reserved3 = 0,
         tss_iopb = of_nat sizeof_tss\<rparr>, sel_tr := 0x18\<rparr>"

text \<open>The control register changes of \<^verbatim>\<open>cpu_enable_sse\<close> in \<^verbatim>\<open>kernel/kmain.c\<close>: the new values of CR0 and CR4.\<close>

definition cpu_enable_sse :: "u64 \<Rightarrow> u64 \<Rightarrow> u64 \<times> u64" where
  "cpu_enable_sse cr0 cr4 =
     (let cr0 = cr0 AND NOT (push_bit 2 1); cr0 = cr0 AND NOT (push_bit 3 1); cr0 = cr0 OR push_bit 1 1;
          cr4 = cr4 OR push_bit 9 1; cr4 = cr4 OR push_bit 10 1
      in (cr0, cr4))"

section \<open>What the processor reads\<close>

text \<open>Base and limit of a system descriptor, and the entry address of a gate, as the processor assembles them.\<close>

definition desc_base :: "tss_desc \<Rightarrow> u64" where
  "desc_base d = ucast (td_base_low d) OR push_bit 16 (ucast (td_base_mid1 d)) OR push_bit 24 (ucast (td_base_mid2 d)) OR push_bit 32 (ucast (td_base_high d))"

definition desc_limit :: "tss_desc \<Rightarrow> u32" where
  "desc_limit d = ucast (td_limit_low d) OR push_bit 16 (ucast (td_gran d AND 0x0F))"

definition gate_entry :: "idt_gate \<Rightarrow> u64" where
  "gate_entry g = ucast (ig_offset_low g) OR push_bit 16 (ucast (ig_offset_mid g)) OR push_bit 32 (ucast (ig_offset_high g))"

definition gate_present :: "idt_gate \<Rightarrow> bool" where
  "gate_present g \<longleftrightarrow> bit (ig_type_attr g) 7"

lemma field_mask: "x AND 0xFF = take_bit 8 x" "x AND 0xFFFF = take_bit 16 x" "x AND 0xFFFFFFFF = take_bit 32 x" for x :: u64
  by (simp_all add: take_bit_eq_mask mask_eq_exp_minus_1)

lemma field_mask32: "x AND 0xF = take_bit 4 x" "x AND 0xFFFF = take_bit 16 x" for x :: u32
  by (simp_all add: take_bit_eq_mask mask_eq_exp_minus_1)

lemma field_mask8: "x AND 0xF = take_bit 4 x" for x :: u8
  by (simp add: take_bit_eq_mask mask_eq_exp_minus_1)

lemma desc_base_back: "desc_base (tss_descriptor base limit) = base"
proof (rule bit_word_eqI)
  fix n assume "n < LENGTH(64)"
  then consider "n < 16" | "16 \<le> n" "n < 24" | "24 \<le> n" "n < 32" | "32 \<le> n" "n < 64" by fastforce
  then show "bit (desc_base (tss_descriptor base limit)) n = bit base n"
    unfolding desc_base_def tss_descriptor_def field_mask by cases (auto simp: bit_simps)
qed

lemma desc_limit_back: "unat limit < 2 ^ 20 \<Longrightarrow> desc_limit (tss_descriptor base limit) = limit"
proof (rule bit_word_eqI)
  fix n assume l: "unat limit < 2 ^ 20" and n: "n < LENGTH(32)"
  have "bit (unat limit) n \<Longrightarrow> n < 20" using take_bit_nat_eq_self [OF l] by (metis bit_take_bit_iff)
  then have "bit limit n \<Longrightarrow> n < 20" using n by (simp add: bit_unsigned_iff)
  then show "bit (desc_limit (tss_descriptor base limit)) n = bit limit n"
    unfolding desc_limit_def tss_descriptor_def field_mask32 by (auto simp: bit_simps field_mask8)
qed

lemma gate_back: "gate_entry \<lparr>ig_offset_low = ucast (handler AND 0xFFFF), ig_selector = s, ig_ist = i, ig_type_attr = t,
    ig_offset_mid = ucast ((drop_bit 16 handler) AND 0xFFFF), ig_offset_high = ucast ((drop_bit 32 handler) AND 0xFFFFFFFF), ig_zero = z\<rparr> = handler"
  (is "gate_entry ?g = _")
proof (rule bit_word_eqI)
  fix n assume "n < LENGTH(64)"
  then consider "n < 16" | "16 \<le> n" "n < 32" | "32 \<le> n" "n < 64" by fastforce
  then show "bit (gate_entry ?g) n = bit handler n"
    unfolding gate_entry_def field_mask by cases (auto simp: bit_simps)
qed

lemma idt_set_gate_nth:
  assumes "length idt = 256" "0 \<le> vec" "vec < 256" "v < 256"
  shows "length (idt_set_gate vec h t i idt) = 256"
    "gate_entry (idt_set_gate vec h t i idt ! v) = (if v = nat vec then h else gate_entry (idt ! v))"
    "ig_type_attr (idt_set_gate vec h t i idt ! v) = (if v = nat vec then t else ig_type_attr (idt ! v))"
    "ig_selector (idt_set_gate vec h t i idt ! v) = (if v = nat vec then 0x08 else ig_selector (idt ! v))"
  using assms gate_back [of h] by (auto simp: idt_set_gate_def nth_list_update)

lemma idt_cleared:
  "length idt = 256 \<Longrightarrow> n \<le> 256 \<Longrightarrow>
    length (fold (\<lambda>i. idt_set_gate (int i) 0 0 0) [0..<n] idt) = 256 \<and>
    (\<forall>v < n. ig_type_attr (fold (\<lambda>i. idt_set_gate (int i) 0 0 0) [0..<n] idt ! v) = 0)"
proof (induction n)
  case 0
  then show ?case by simp
next
  case (Suc n)
  let ?i = "fold (\<lambda>i. idt_set_gate (int i) 0 0 0) [0..<n] idt"
  have len: "length ?i = 256" using Suc by simp
  have "ig_type_attr (idt_set_gate (int n) 0 0 0 ?i ! v) = 0" if "v < Suc n" for v
  proof (cases "v = n")
    case True
    then show ?thesis using idt_set_gate_nth(3) [OF len, of "int n" v 0 0 0] Suc.prems that by simp
  next
    case False
    then show ?thesis using idt_set_gate_nth(3) [OF len, of "int n" v 0 0 0] Suc that by simp
  qed
  then show ?case using idt_set_gate_nth(1) [OF len, of "int n" 0 0 0 0] Suc.prems by simp
qed

text \<open>
  C32: After the tables are set up, the processor reads back what was meant: the task state descriptor has the
  address of the task state segment as its base and its last byte as its limit, the gates of the
  six vectors that have a handler lead to it through the code selector, and every other gate is
  not present. The code selector names the code descriptor, the task register the task state descriptor.
\<close>

theorem descriptor_tables_correct:
  assumes "length (ct_idt s) = 256" "t = tss_init (idt_init idt_addr isr (gdt_init gdt_addr kernel_tss s))" "v < 256"
  shows "desc_base (gdt_tss (ct_gdt t)) = kernel_tss \<and> desc_limit (gdt_tss (ct_gdt t)) = 103 \<and> unat (tp_limit (gdtr t)) + 1 = 40 \<and>
    gate_present (ct_idt t ! v) = (v \<in> {6, 8, 13, 14, 32, 33}) \<and>
    (gate_present (ct_idt t ! v) \<longrightarrow> ig_selector (ct_idt t ! v) = sel_cs t \<and> gate_entry (ct_idt t ! v) =
      (if v = 6 then nm_isr_ud isr else if v = 8 then nm_isr_df isr else if v = 13 then nm_isr_gp isr else if v = 14 then nm_isr_pf isr
       else if v = 32 then nm_isr_irq0 isr else nm_isr_irq1 isr)) \<and>
    sel_tr t = 24 \<and> tss_iopb (ct_tss t) = 104"
proof -
  let ?i0 = "fold (\<lambda>i. idt_set_gate (int i) 0 0 0) [0..<256] (ct_idt s)"
  define i1 where "i1 = idt_set_gate 6 (nm_isr_ud isr) 0x8E 0 ?i0"
  define i2 where "i2 = idt_set_gate 8 (nm_isr_df isr) 0x8E 0 i1"
  define i3 where "i3 = idt_set_gate 13 (nm_isr_gp isr) 0x8E 0 i2"
  define i4 where "i4 = idt_set_gate 14 (nm_isr_pf isr) 0x8E 0 i3"
  define i5 where "i5 = idt_set_gate 32 (nm_isr_irq0 isr) 0x8E 0 i4"
  define i6 where "i6 = idt_set_gate 33 (nm_isr_irq1 isr) 0x8E 0 i5"
  have l0: "length ?i0 = 256" "ig_type_attr (?i0 ! v) = 0" using idt_cleared [OF assms(1), of 256] assms(3) by auto
  have l1: "length i1 = 256" unfolding i1_def by (rule idt_set_gate_nth(1) [OF l0(1) _ _ assms(3)]) simp_all
  have l2: "length i2 = 256" unfolding i2_def by (rule idt_set_gate_nth(1) [OF l1 _ _ assms(3)]) simp_all
  have l3: "length i3 = 256" unfolding i3_def by (rule idt_set_gate_nth(1) [OF l2 _ _ assms(3)]) simp_all
  have l4: "length i4 = 256" unfolding i4_def by (rule idt_set_gate_nth(1) [OF l3 _ _ assms(3)]) simp_all
  have l5: "length i5 = 256" unfolding i5_def by (rule idt_set_gate_nth(1) [OF l4 _ _ assms(3)]) simp_all
  note g1 = idt_set_gate_nth(2-4) [OF l0(1) _ _ assms(3), where vec = 6 and h = "nm_isr_ud isr" and t = "0x8E" and i = 0, folded i1_def]
  note g2 = idt_set_gate_nth(2-4) [OF l1 _ _ assms(3), where vec = 8 and h = "nm_isr_df isr" and t = "0x8E" and i = 0, folded i2_def]
  note g3 = idt_set_gate_nth(2-4) [OF l2 _ _ assms(3), where vec = 13 and h = "nm_isr_gp isr" and t = "0x8E" and i = 0, folded i3_def]
  note g4 = idt_set_gate_nth(2-4) [OF l3 _ _ assms(3), where vec = 14 and h = "nm_isr_pf isr" and t = "0x8E" and i = 0, folded i4_def]
  note g5 = idt_set_gate_nth(2-4) [OF l4 _ _ assms(3), where vec = 32 and h = "nm_isr_irq0 isr" and t = "0x8E" and i = 0, folded i5_def]
  note g6 = idt_set_gate_nth(2-4) [OF l5 _ _ assms(3), where vec = 33 and h = "nm_isr_irq1 isr" and t = "0x8E" and i = 0, folded i6_def]
  have idt: "ct_idt t = i6" unfolding assms(2) i6_def i5_def i4_def i3_def i2_def i1_def by (simp add: tss_init_def idt_init_def Let_def gdt_init_def)
  have ty: "ig_type_attr (i6 ! v) = (if v \<in> {6, 8, 13, 14, 32, 33} then 0x8E else 0)"
    using g1(2) g2(2) g3(2) g4(2) g5(2) g6(2) l0(2) by auto
  have "gate_present (i6 ! v) = (v \<in> {6, 8, 13, 14, 32, 33})"
    unfolding gate_present_def ty by (simp add: bit_iff_odd drop_bit_eq_div)
  moreover have "desc_base (gdt_tss (ct_gdt t)) = kernel_tss" "desc_limit (gdt_tss (ct_gdt t)) = 103"
    using desc_base_back [of kernel_tss 103] desc_limit_back [of 103 kernel_tss]
    by (simp_all add: assms(2) tss_init_def idt_init_def gdt_init_def Let_def tss_base_address_def sizeof_tss_def)
  moreover have "v \<in> {6, 8, 13, 14, 32, 33} \<Longrightarrow> ig_selector (i6 ! v) = 8"
    using g1(3) g2(3) g3(3) g4(3) g5(3) g6(3) by auto
  moreover have "v \<in> {6, 8, 13, 14, 32, 33} \<Longrightarrow> gate_entry (i6 ! v) =
      (if v = 6 then nm_isr_ud isr else if v = 8 then nm_isr_df isr else if v = 13 then nm_isr_gp isr else if v = 14 then nm_isr_pf isr
       else if v = 32 then nm_isr_irq0 isr else nm_isr_irq1 isr)"
    using g1(1) g2(1) g3(1) g4(1) g5(1) g6(1) by auto
  moreover have "sel_cs t = 8" "sel_tr t = 24" "tss_iopb (ct_tss t) = 104" "unat (tp_limit (gdtr t)) + 1 = 40"
    by (simp_all add: assms(2) tss_init_def idt_init_def gdt_init_def Let_def sizeof_tss_def sizeof_gdt_def)
  ultimately show ?thesis unfolding idt by (intro conjI impI) (simp_all only:)
qed

text \<open>Floating point and SSE are enabled and no other control bit changes.\<close>

lemma bit_clear: "bit (w AND NOT (push_bit k 1)) n = (bit w n \<and> n \<noteq> k)" for w :: u64
  by (auto simp: bit_simps dest: bit_imp_le_length)

lemma bit_set: "bit (w OR push_bit k 1) n = (bit w n \<or> n = k \<and> k < 64)" for w :: u64
  by (auto simp: bit_simps)

lemma cpu_enable_sse_bits:
  "cpu_enable_sse cr0 cr4 = (cr0', cr4') \<Longrightarrow>
    bit cr0' n = (if n = 2 \<or> n = 3 then False else if n = 1 then True else bit cr0 n) \<and>
    bit cr4' n = (n = 9 \<or> n = 10 \<or> bit cr4 n)"
  unfolding cpu_enable_sse_def Let_def prod.inject by (clarify, simp only: bit_clear bit_set, auto)

section \<open>Witness\<close>

definition demo_tables :: cpu_tables where
  "demo_tables = \<lparr>ct_gdt = \<lparr>gdt_null = flat_segment 0, gdt_code = flat_segment 0, gdt_data = flat_segment 0, gdt_tss = tss_descriptor 0 0\<rparr>,
     ct_idt = replicate 256 \<lparr>ig_offset_low = 0, ig_selector = 0, ig_ist = 0, ig_type_attr = 0, ig_offset_mid = 0, ig_offset_high = 0, ig_zero = 0\<rparr>,
     ct_tss = \<lparr>tss_reserved0 = 0, tss_rsp0 = 0, tss_rsp1 = 0, tss_rsp2 = 0, tss_reserved1 = 0, tss_ist1 = 0, tss_ist2 = 0,
         tss_ist3 = 0, tss_ist4 = 0, tss_ist5 = 0, tss_ist6 = 0, tss_ist7 = 0, tss_reserved2 = 0, tss_reserved3 = 0, tss_iopb = 0\<rparr>,
     gdtr = \<lparr>tp_limit = 0, tp_base = 0\<rparr>, idtr = \<lparr>tp_limit = 0, tp_base = 0\<rparr>, sel_cs = 0, sel_data = 0, sel_tr = 0\<rparr>"

definition demo_isrs :: isr_addrs where
  "demo_isrs = \<lparr>nm_isr_ud = 0xFFFF800000101000, nm_isr_df = 0x101010, nm_isr_gp = 0x101020, nm_isr_pf = 0x101030, nm_isr_irq0 = 0x101040, nm_isr_irq1 = 0x101050\<rparr>"

theorem descriptor_tables_correct_witness:
  "gate_entry (ct_idt (tss_init (idt_init 0x110000 demo_isrs (gdt_init 0x111000 0xFFFF800000112000 demo_tables))) ! 6) = 0xFFFF800000101000 \<and>
   desc_base (gdt_tss (ct_gdt (tss_init (idt_init 0x110000 demo_isrs (gdt_init 0x111000 0xFFFF800000112000 demo_tables))))) = 0xFFFF800000112000"
  using descriptor_tables_correct [OF _ refl, where s = demo_tables and idt_addr = "0x110000" and isr = demo_isrs and gdt_addr = "0x111000" and
    kernel_tss = "0xFFFF800000112000" and v = 6]
  by (simp add: demo_tables_def demo_isrs_def)

end
