(* ===== verification/Netstats.thy ===== *)
theory Netstats
  imports NM_Prelude
begin

text \<open>
  What the protocol files of \<^verbatim>\<open>kernel/net\<close> share: the counters of \<^verbatim>\<open>include/nm/net.h\<close> with the functions of
  \<^verbatim>\<open>net.c\<close> that bump them (each brackets one increment by the net lock), reads from a packet buffer and
  big-endian fields. A buffer is the list of its bytes; a read beyond its end has no value (\<open>None\<close>), so that
  a definition with a value never reads outside its buffers.
\<close>

section \<open>Counters\<close>

record nm_net_stats =
  rx_frames :: u64
  tx_frames :: u64
  rx_dropped :: u64
  arp_hits :: u64
  arp_misses :: u64
  icmp_echo_req :: u64
  icmp_echo_rep :: u64
  udp_rx :: u64
  udp_tx :: u64
  tcp_conns :: u64

text \<open>All counters zero, as \<^verbatim>\<open>net_init\<close> leaves them.\<close>

definition zero_stats :: nm_net_stats where
  "zero_stats = \<lparr>rx_frames = 0, tx_frames = 0, rx_dropped = 0, arp_hits = 0, arp_misses = 0, icmp_echo_req = 0,
     icmp_echo_rep = 0, udp_rx = 0, udp_tx = 0, tcp_conns = 0\<rparr>"

definition net_stats_note_arp_hit :: "nm_net_stats \<Rightarrow> nm_net_stats" where
  "net_stats_note_arp_hit st = st\<lparr>arp_hits := arp_hits st + 1\<rparr>"

definition net_stats_note_arp_miss :: "nm_net_stats \<Rightarrow> nm_net_stats" where
  "net_stats_note_arp_miss st = st\<lparr>arp_misses := arp_misses st + 1\<rparr>"

definition net_stats_note_icmp_req :: "nm_net_stats \<Rightarrow> nm_net_stats" where
  "net_stats_note_icmp_req st = st\<lparr>icmp_echo_req := icmp_echo_req st + 1\<rparr>"

definition net_stats_note_icmp_rep :: "nm_net_stats \<Rightarrow> nm_net_stats" where
  "net_stats_note_icmp_rep st = st\<lparr>icmp_echo_rep := icmp_echo_rep st + 1\<rparr>"

definition net_stats_note_udp_rx :: "nm_net_stats \<Rightarrow> nm_net_stats" where
  "net_stats_note_udp_rx st = st\<lparr>udp_rx := udp_rx st + 1\<rparr>"

definition net_stats_note_udp_tx :: "nm_net_stats \<Rightarrow> nm_net_stats" where
  "net_stats_note_udp_tx st = st\<lparr>udp_tx := udp_tx st + 1\<rparr>"

definition net_stats_note_tcp_conn :: "nm_net_stats \<Rightarrow> nm_net_stats" where
  "net_stats_note_tcp_conn st = st\<lparr>tcp_conns := tcp_conns st + 1\<rparr>"

section \<open>Buffers and fields\<close>

definition byte_at :: "u8 list \<Rightarrow> nat \<Rightarrow> u8 option" where
  "byte_at buf i = (if i < length buf then Some (buf ! i) else None)"

definition bytes_of :: "u8 list \<Rightarrow> nat \<Rightarrow> u8 list option" where
  "bytes_of buf n = (if n \<le> length buf then Some (take n buf) else None)"

definition be16 :: "u8 \<Rightarrow> u8 \<Rightarrow> u16" where
  "be16 a b = push_bit 8 (ucast a) OR ucast b"

definition be32 :: "u8 \<Rightarrow> u8 \<Rightarrow> u8 \<Rightarrow> u8 \<Rightarrow> u32" where
  "be32 a b c d = push_bit 24 (ucast a) OR push_bit 16 (ucast b) OR push_bit 8 (ucast c) OR ucast d"

definition be16_at :: "u8 list \<Rightarrow> nat \<Rightarrow> u16 option" where
  "be16_at buf i = Option.bind (byte_at buf i) (\<lambda>a. Option.bind (byte_at buf (i + 1)) (\<lambda>b. Some (be16 a b)))"

definition be32_at :: "u8 list \<Rightarrow> nat \<Rightarrow> u32 option" where
  "be32_at buf i =
     Option.bind (byte_at buf i) (\<lambda>a. Option.bind (byte_at buf (i + 1)) (\<lambda>b.
     Option.bind (byte_at buf (i + 2)) (\<lambda>c. Option.bind (byte_at buf (i + 3)) (\<lambda>d. Some (be32 a b c d)))))"

text \<open>A copy of \<open>src\<close> to the front of \<open>dst\<close>.\<close>

definition overwrite :: "u8 list \<Rightarrow> u8 list \<Rightarrow> u8 list" where
  "overwrite src dst = src @ drop (length src) dst"

lemma byte_at_in [simp]: "i < length buf \<Longrightarrow> byte_at buf i = Some (buf ! i)"
  by (simp add: byte_at_def)

lemma bytes_of_in [simp]: "n \<le> length buf \<Longrightarrow> bytes_of buf n = Some (take n buf)"
  by (simp add: bytes_of_def)

lemma be16_at_in [simp]: "i + 1 < length buf \<Longrightarrow> be16_at buf i = Some (be16 (buf ! i) (buf ! (i + 1)))"
  by (simp add: be16_at_def)

lemma be32_at_in [simp]:
  "i + 3 < length buf \<Longrightarrow> be32_at buf i = Some (be32 (buf ! i) (buf ! (i + 1)) (buf ! (i + 2)) (buf ! (i + 3)))"
  by (simp add: be32_at_def)

lemma length_overwrite [simp]: "length src \<le> length dst \<Longrightarrow> length (overwrite src dst) = length dst"
  by (simp add: overwrite_def)

lemma take_overwrite [simp]: "take (length src) (overwrite src dst) = src"
  by (simp add: overwrite_def)

text \<open>Splitting a field into its bytes, as a sender writes it, and reading it back.\<close>

definition put_be16 :: "u16 \<Rightarrow> u8 list" where
  "put_be16 v = [ucast (drop_bit 8 v), ucast v]"

definition put_be32 :: "u32 \<Rightarrow> u8 list" where
  "put_be32 v = [ucast (drop_bit 24 v), ucast (drop_bit 16 v), ucast (drop_bit 8 v), ucast v]"

lemma be16_put: "be16 (ucast (drop_bit 8 v)) (ucast v) = v"
  by (rule bit_word_eqI) (auto simp: be16_def bit_or_iff bit_push_bit_iff bit_ucast_iff bit_drop_bit_eq)

lemma be32_put: "be32 (ucast (drop_bit 24 v)) (ucast (drop_bit 16 v)) (ucast (drop_bit 8 v)) (ucast v) = v"
proof (rule bit_word_eqI)
  fix n assume "n < LENGTH(32)"
  then consider "n < 8" | "8 \<le> n" "n < 16" | "16 \<le> n" "n < 24" | "24 \<le> n" "n < 32" by fastforce
  then show "bit (be32 (ucast (drop_bit 24 v)) (ucast (drop_bit 16 v)) (ucast (drop_bit 8 v)) (ucast v)) n = bit v n"
    by cases (auto simp: be32_def bit_or_iff bit_push_bit_iff bit_ucast_iff bit_drop_bit_eq less_diff_conv2)
qed

lemma length_put_be [simp]: "length (put_be16 v) = 2" "length (put_be32 w) = 4"
  by (simp_all add: put_be16_def put_be32_def)

end
