(* ===== verification/Udp.thy ===== *)
theory Udp
  imports Netstats "HOL-Library.Multiset"
begin

text \<open>
  The datagram layer of \<^verbatim>\<open>kernel/net/udp.c\<close>: a table of 64 bound ports, each with 16 message slots. The lock
  brackets every operation. A payload is the bytes its pointer leads to (\<open>None\<close> the null pointer), and an
  operation that would read beyond them has no value. The mailboxes of the bound ports, bags of datagrams
  with their sources, are the abstract specification that the operations refine.
\<close>

section \<open>State\<close>

definition UDP_PORT_MAX :: nat where "UDP_PORT_MAX = 64"
definition UDP_QUEUE_CAP :: nat where "UDP_QUEUE_CAP = 16"
definition UDP_PAYLOAD_MAX :: nat where "UDP_PAYLOAD_MAX = 1500"

record udp_msg =
  um_used :: bool
  um_src_ip :: u32
  um_src_port :: u16
  um_len :: u16
  um_payload :: "u8 list"

record udp_port =
  up_used :: bool
  up_port :: u16
  up_q :: "udp_msg list"

section \<open>Operations\<close>

definition find_port :: "u16 \<Rightarrow> udp_port list \<Rightarrow> nat option" where
  "find_port port ps = first_idx (\<lambda>p. up_used p \<and> up_port p = port) ps"

definition fresh_port :: "u16 \<Rightarrow> udp_port \<Rightarrow> udp_port" where
  "fresh_port port p = p\<lparr>up_used := True, up_port := port, up_q := map (\<lambda>m. m\<lparr>um_used := False\<rparr>) (up_q p)\<rparr>"

definition udp_bind :: "u16 \<Rightarrow> udp_port list \<Rightarrow> int \<times> udp_port list" where
  "udp_bind port ps =
     (if port = 0 then (NM_ERR NM_EFAIL, ps)
      else if find_port port ps \<noteq> None then (0, ps)
      else case first_idx (\<lambda>p. \<not> up_used p) ps of
        Some i \<Rightarrow> (0, ps[i := fresh_port port (ps ! i)])
      | None \<Rightarrow> (NM_ERR NM_EFAIL, ps))"

definition udp_unbind :: "u16 \<Rightarrow> udp_port list \<Rightarrow> int \<times> udp_port list" where
  "udp_unbind port ps =
     (case find_port port ps of
        None \<Rightarrow> (NM_ERR NM_EFAIL, ps)
      | Some i \<Rightarrow> (0, ps[i := (ps ! i)\<lparr>up_used := False\<rparr>]))"

definition udp_deliver ::
  "u16 \<Rightarrow> u32 \<Rightarrow> u16 \<Rightarrow> u8 list \<Rightarrow> u16 \<Rightarrow> udp_port list \<Rightarrow> nm_net_stats \<Rightarrow> (int \<times> udp_port list \<times> nm_net_stats) option" where
  "udp_deliver dst_port src_ip src_port payload len ps st =
     (case find_port dst_port ps of
        None \<Rightarrow> Some (NM_ERR NM_EFAIL, ps, st)
      | Some i \<Rightarrow>
          let p = ps ! i in
          (case first_idx (\<lambda>m. \<not> um_used m) (up_q p) of
             None \<Rightarrow> Some (NM_ERR NM_EFAIL, ps, st)
           | Some j \<Rightarrow>
               let n = (if len > of_nat UDP_PAYLOAD_MAX then of_nat UDP_PAYLOAD_MAX else len) in
               (case bytes_of payload (unat n) of
                  None \<Rightarrow> None
                | Some data \<Rightarrow>
                    let m = (up_q p ! j)\<lparr>um_used := True, um_src_ip := src_ip, um_src_port := src_port, um_len := n,
                              um_payload := overwrite data (um_payload (up_q p ! j))\<rparr>
                    in Some (int (unat n), ps[i := p\<lparr>up_q := (up_q p)[j := m]\<rparr>], net_stats_note_udp_rx st))))"

definition udp_sendto ::
  "u16 \<Rightarrow> u32 \<Rightarrow> u16 \<Rightarrow> u8 list option \<Rightarrow> u16 \<Rightarrow> udp_port list \<Rightarrow> nm_net_stats \<Rightarrow> (int \<times> udp_port list \<times> nm_net_stats) option" where
  "udp_sendto src_port dst_ip dst_port payload len ps st =
     (case payload of
        None \<Rightarrow> Some (NM_ERR NM_EFAIL, ps, st)
      | Some data \<Rightarrow>
          if len = 0 then Some (NM_ERR NM_EFAIL, ps, st)
          else udp_deliver dst_port dst_ip src_port data len ps (net_stats_note_udp_tx st))"

text \<open>The result, the bytes stored through \<open>payload\<close> (\<open>ok\<close> says whether it is not null) and the source.\<close>

definition udp_recv :: "u16 \<Rightarrow> bool \<Rightarrow> u16 \<Rightarrow> udp_port list \<Rightarrow> int \<times> u8 list \<times> (u32 \<times> u16) option \<times> udp_port list" where
  "udp_recv port ok cap ps =
     (case find_port port ps of
        None \<Rightarrow> (NM_ERR NM_EFAIL, [], None, ps)
      | Some i \<Rightarrow>
          if \<not> ok then (NM_ERR NM_EFAIL, [], None, ps)
          else let p = ps ! i in
            (case first_idx um_used (up_q p) of
               None \<Rightarrow> (0, [], None, ps)
             | Some j \<Rightarrow>
                 let m = up_q p ! j;
                     n = (if um_len m < cap then um_len m else cap)
                 in (int (unat n), take (unat n) (um_payload m), Some (um_src_ip m, um_src_port m),
                     ps[i := p\<lparr>up_q := (up_q p)[j := m\<lparr>um_used := False\<rparr>]\<rparr>])))"

definition udp_input :: "u32 \<Rightarrow> u32 \<Rightarrow> u8 list \<Rightarrow> u16 \<Rightarrow> udp_port list \<Rightarrow> nm_net_stats \<Rightarrow> (udp_port list \<times> nm_net_stats) option" where
  "udp_input src_ip dst_ip payload len ps st =
     (if len < 8 then Some (ps, st)
      else Option.bind (be16_at payload 0) (\<lambda>src_port.
           Option.bind (be16_at payload 2) (\<lambda>dst_port.
           Option.bind (be16_at payload 4) (\<lambda>udp_len.
             if udp_len < 8 \<or> udp_len > len then Some (ps, st)
             else map_option snd (udp_deliver dst_port src_ip src_port (drop 8 payload) (udp_len - 8) ps st)))))"

section \<open>The invariant\<close>

definition udp_msg_ok :: "udp_msg \<Rightarrow> bool" where
  "udp_msg_ok m \<longleftrightarrow> length (um_payload m) = UDP_PAYLOAD_MAX \<and> (um_used m \<longrightarrow> unat (um_len m) \<le> UDP_PAYLOAD_MAX)"

definition udp_inv :: "udp_port list \<Rightarrow> bool" where
  "udp_inv ps \<longleftrightarrow> length ps = UDP_PORT_MAX \<and>
     (\<forall>p\<in>set ps. length (up_q p) = UDP_QUEUE_CAP \<and> (\<forall>m\<in>set (up_q p). udp_msg_ok m)) \<and>
     (\<forall>i<length ps. \<forall>j<length ps. up_used (ps ! i) \<longrightarrow> up_used (ps ! j) \<longrightarrow> up_port (ps ! i) = up_port (ps ! j) \<longrightarrow> i = j) \<and>
     (\<forall>p\<in>set ps. up_used p \<longrightarrow> up_port p \<noteq> 0)"

definition udp_port_ok :: "udp_port \<Rightarrow> bool" where
  "udp_port_ok p \<longleftrightarrow> length (up_q p) = UDP_QUEUE_CAP \<and> (\<forall>m\<in>set (up_q p). udp_msg_ok m) \<and> (up_used p \<longrightarrow> up_port p \<noteq> 0)"

lemma udp_inv_iff:
  "udp_inv ps \<longleftrightarrow> length ps = UDP_PORT_MAX \<and> (\<forall>p\<in>set ps. udp_port_ok p) \<and>
     (\<forall>i<length ps. \<forall>j<length ps. up_used (ps ! i) \<longrightarrow> up_used (ps ! j) \<longrightarrow> up_port (ps ! i) = up_port (ps ! j) \<longrightarrow> i = j)"
  by (auto simp: udp_inv_def udp_port_ok_def)

lemma udp_inv_unique:
  "udp_inv ps \<Longrightarrow> i < length ps \<Longrightarrow> j < length ps \<Longrightarrow> up_used (ps ! i) \<Longrightarrow> up_used (ps ! j) \<Longrightarrow> up_port (ps ! i) = up_port (ps ! j) \<Longrightarrow> i = j"
  unfolding udp_inv_def by blast

lemma find_port_iff:
  assumes "udp_inv ps"
  shows "find_port port ps = Some i \<longleftrightarrow> i < length ps \<and> up_used (ps ! i) \<and> up_port (ps ! i) = port"
proof
  assume r: "i < length ps \<and> up_used (ps ! i) \<and> up_port (ps ! i) = port"
  then have "\<not> (up_used (ps ! j) \<and> up_port (ps ! j) = port)" if "j < i" for j
    using that udp_inv_unique [OF assms, of j i] by auto
  then show "find_port port ps = Some i" using r by (simp add: find_port_def first_idx_Some_iff)
qed (auto simp: find_port_def first_idx_Some_iff)

lemma find_port_None: "find_port port ps = None \<longleftrightarrow> (\<forall>i<length ps. \<not> (up_used (ps ! i) \<and> up_port (ps ! i) = port))"
  by (simp add: find_port_def first_idx_None_nth)

lemma udp_inv_update:
  assumes "udp_inv ps" "i < length ps" "udp_port_ok p"
    and "up_used p \<Longrightarrow> find_port (up_port p) ps = None \<or> find_port (up_port p) ps = Some i"
  shows "udp_inv (ps[i := p])"
proof -
  have other: "\<not> (up_used (ps ! j) \<and> up_port (ps ! j) = up_port p)" if "j < length ps" "j \<noteq> i" "up_used p" for j
    using assms(4) [OF that(3)] that udp_inv_unique [OF assms(1), of j i] by (auto simp: find_port_None find_port_iff [OF assms(1)])
  have "\<forall>q\<in>set (ps[i := p]). udp_port_ok q"
    using assms(1,3) set_update_subset_insert [of ps i p] by (auto simp: udp_inv_iff)
  moreover have "a = b" if "a < length ps" "b < length ps" "up_used (ps[i := p] ! a)" "up_used (ps[i := p] ! b)"
    "up_port (ps[i := p] ! a) = up_port (ps[i := p] ! b)" for a b
    using that other [of a] other [of b] udp_inv_unique [OF assms(1), of a b] by (auto simp: nth_update_idx split: if_splits)
  ultimately show ?thesis using assms(1) unfolding udp_inv_iff by simp
qed

section \<open>Mailboxes\<close>

definition msg_of :: "udp_msg \<Rightarrow> u32 \<times> u16 \<times> u8 list" where
  "msg_of m = (um_src_ip m, um_src_port m, take (unat (um_len m)) (um_payload m))"

definition box_of :: "udp_port \<Rightarrow> (u32 \<times> u16 \<times> u8 list) multiset" where
  "box_of p = mset (map msg_of (filter um_used (up_q p)))"

type_synonym mailboxes = "u16 \<Rightarrow> (u32 \<times> u16 \<times> u8 list) multiset option"

definition boxes :: "udp_port list \<Rightarrow> mailboxes" where
  "boxes ps port = map_option (\<lambda>i. box_of (ps ! i)) (find_port port ps)"

lemma boxes_nth: "udp_inv ps \<Longrightarrow> i < length ps \<Longrightarrow> up_used (ps ! i) \<Longrightarrow> boxes ps (up_port (ps ! i)) = Some (box_of (ps ! i))"
  using find_port_iff [of ps "up_port (ps ! i)" i] by (simp add: boxes_def)

lemma boxes_update:
  assumes "udp_inv ps" "udp_inv (ps[i := p])" "i < length ps"
    and "up_used (ps ! i) \<Longrightarrow> up_port (ps ! i) = port" "up_used p \<Longrightarrow> up_port p = port" "up_used (ps ! i) \<or> up_used p"
    and "find_port port ps = None \<or> find_port port ps = Some i"
  shows "boxes (ps[i := p]) = (boxes ps)(port := if up_used p then Some (box_of p) else None)"
proof
  fix q
  have len: "length (ps[i := p]) = length ps" by simp
  show "boxes (ps[i := p]) q = ((boxes ps)(port := if up_used p then Some (box_of p) else None)) q"
  proof (cases "find_port q (ps[i := p])")
    case None
    then have n: "\<not> (up_used (ps[i := p] ! j) \<and> up_port (ps[i := p] ! j) = q)" if "j < length ps" for j
      using that by (simp add: find_port_None)
    have "find_port q ps = None" if "q \<noteq> port"
      unfolding find_port_None
    proof (intro allI impI)
      fix j assume j: "j < length ps"
      show "\<not> (up_used (ps ! j) \<and> up_port (ps ! j) = q)" using n [OF j] assms(4) that by (cases "j = i") auto
    qed
    moreover have "\<not> up_used p" if "q = port" using n [OF assms(3)] assms(3,5) that by auto
    ultimately show ?thesis using None by (simp add: boxes_def)
  next
    case (Some j)
    then have j: "j < length ps" "up_used (ps[i := p] ! j)" "up_port (ps[i := p] ! j) = q"
      using find_port_iff [OF assms(2)] by auto
    show ?thesis
    proof (cases "j = i")
      case True
      then show ?thesis using Some j assms(5) by (simp add: boxes_def)
    next
      case False
      then have "find_port q ps = Some j" using j find_port_iff [OF assms(1)] by simp
      moreover have "q \<noteq> port" using False assms(7) calculation by auto
      ultimately show ?thesis using Some False by (simp add: boxes_def)
    qed
  qed
qed


section \<open>Refinement\<close>

lemma filter_claim:
  "j < length q \<Longrightarrow> \<not> P (q ! j) \<Longrightarrow> P x \<Longrightarrow> mset (map f (filter P (q[j := x]))) = add_mset (f x) (mset (map f (filter P q)))"
  by (induction q arbitrary: j) (auto split: nat.splits simp: nth_Cons)

lemma filter_drop:
  "j < length q \<Longrightarrow> P (q ! j) \<Longrightarrow> \<not> P x \<Longrightarrow> mset (map f (filter P q)) = add_mset (f (q ! j)) (mset (map f (filter P (q[j := x]))))"
  by (induction q arbitrary: j) (auto split: nat.splits simp: nth_Cons)

text \<open>The operations on ports, and what the mailboxes allow each of them to do.\<close>

datatype udp_op = Bind u16 | Unbind u16 | Deliver u16 u32 u16 "u8 list" u16 | Recv u16 u16

datatype udp_result = Code int | Got int "u8 list" "(u32 \<times> u16) option"

fun udp_do :: "udp_op \<Rightarrow> udp_port list \<times> nm_net_stats \<Rightarrow> (udp_result \<times> udp_port list \<times> nm_net_stats) option" where
  "udp_do (Bind port) (ps, st) = (let (r, ps) = udp_bind port ps in Some (Code r, ps, st))"
| "udp_do (Unbind port) (ps, st) = (let (r, ps) = udp_unbind port ps in Some (Code r, ps, st))"
| "udp_do (Deliver dst ip src payload len) (ps, st) = map_option (\<lambda>(r, ps, st). (Code r, ps, st)) (udp_deliver dst ip src payload len ps st)"
| "udp_do (Recv port cap) (ps, st) = (let (n, out, src, ps) = udp_recv port True cap ps in Some (Got n out src, ps, st))"

definition box_full :: "(u32 \<times> u16 \<times> u8 list) multiset \<Rightarrow> bool" where
  "box_full b \<longleftrightarrow> UDP_QUEUE_CAP \<le> size b"

inductive mail_step :: "udp_op \<Rightarrow> mailboxes \<Rightarrow> udp_result \<Rightarrow> mailboxes \<Rightarrow> bool" where
  bind_old: "port \<noteq> 0 \<Longrightarrow> m port \<noteq> None \<Longrightarrow> mail_step (Bind port) m (Code 0) m"
| bind_new: "port \<noteq> 0 \<Longrightarrow> m port = None \<Longrightarrow> card (dom m) < UDP_PORT_MAX \<Longrightarrow> mail_step (Bind port) m (Code 0) (m(port \<mapsto> {#}))"
| bind_fail: "port = 0 \<or> m port = None \<and> UDP_PORT_MAX \<le> card (dom m) \<Longrightarrow> mail_step (Bind port) m (Code (NM_ERR NM_EFAIL)) m"
| unbind: "m port \<noteq> None \<Longrightarrow> mail_step (Unbind port) m (Code 0) (m(port := None))"
| unbind_fail: "m port = None \<Longrightarrow> mail_step (Unbind port) m (Code (NM_ERR NM_EFAIL)) m"
| deliver: "m dst = Some b \<Longrightarrow> \<not> box_full b \<Longrightarrow> data = take (min (unat len) UDP_PAYLOAD_MAX) payload \<Longrightarrow>
     mail_step (Deliver dst ip src payload len) m (Code (int (length data))) (m(dst \<mapsto> add_mset (ip, src, data) b))"
| deliver_fail: "m dst = None \<or> (\<exists>b. m dst = Some b \<and> box_full b) \<Longrightarrow> mail_step (Deliver dst ip src payload len) m (Code (NM_ERR NM_EFAIL)) m"
| recv: "m port = Some (add_mset (ip, src, data) b) \<Longrightarrow> out = take (unat cap) data \<Longrightarrow>
     mail_step (Recv port cap) m (Got (int (length out)) out (Some (ip, src))) (m(port \<mapsto> b))"
| recv_empty: "m port = Some {#} \<Longrightarrow> mail_step (Recv port cap) m (Got 0 [] None) m"
| recv_fail: "m port = None \<Longrightarrow> mail_step (Recv port cap) m (Got (NM_ERR NM_EFAIL) [] None) m"


lemma boxes_dom:
  assumes "udp_inv ps"
  shows "card (dom (boxes ps)) = count_if up_used ps"
proof -
  let ?I = "{i. i < length ps \<and> up_used (ps ! i)}"
  have "dom (boxes ps) = (\<lambda>i. up_port (ps ! i)) ` ?I"
    by (auto simp: boxes_def dom_def find_port_iff [OF assms])
  moreover have "inj_on (\<lambda>i. up_port (ps ! i)) ?I" using udp_inv_unique [OF assms] by (auto simp: inj_on_def)
  ultimately show ?thesis by (simp add: card_image count_if_def length_filter_conv_card)
qed

lemma box_full_iff: "udp_port_ok p \<Longrightarrow> box_full (box_of p) \<longleftrightarrow> first_idx (\<lambda>m. \<not> um_used m) (up_q p) = None"
proof -
  assume p: "udp_port_ok p"
  have "size (box_of p) = count_if um_used (up_q p)"
    unfolding box_of_def count_if_def by (simp del: mset_map mset_filter)
  then show ?thesis
    using p count_if_full [of um_used "up_q p"] count_if_le [of um_used "up_q p"]
    by (auto simp: box_full_def udp_port_ok_def first_idx_None_nth)
qed

lemma udp_inv_port: "udp_inv ps \<Longrightarrow> i < length ps \<Longrightarrow> udp_port_ok (ps ! i)"
  by (simp add: udp_inv_iff)

lemma udp_port_okD:
  assumes "udp_port_ok p"
  shows "length (up_q p) = UDP_QUEUE_CAP" "j < UDP_QUEUE_CAP \<Longrightarrow> udp_msg_ok (up_q p ! j)"
  using assms by (simp_all add: udp_port_ok_def)

lemma udp_port_ok_upd:
  "udp_port_ok p \<Longrightarrow> udp_msg_ok m \<Longrightarrow> udp_port_ok (p\<lparr>up_q := (up_q p)[j := m]\<rparr>)"
  using set_update_subset_insert [of "up_q p" j m] by (auto simp: udp_port_ok_def)

lemma udp_bind_refines:
  assumes "udp_inv ps" "udp_bind port ps = (r, ps')"
  shows "udp_inv ps' \<and> mail_step (Bind port) (boxes ps) (Code r) (boxes ps')"
proof (cases "port = 0 \<or> find_port port ps \<noteq> None")
  case True
  then show ?thesis
    using assms mail_step.bind_old [of port "boxes ps"] mail_step.bind_fail [of port "boxes ps"]
    by (auto simp: udp_bind_def boxes_def split: if_splits)
next
  case False
  then have f: "port \<noteq> 0" "find_port port ps = None" "boxes ps port = None" by (auto simp: boxes_def)
  show ?thesis
  proof (cases "first_idx (\<lambda>p. \<not> up_used p) ps")
    case None
    then have "count_if up_used ps = length ps" by (simp add: first_idx_None_nth count_if_full)
    then show ?thesis
      using assms f None mail_step.bind_fail [of port "boxes ps"] boxes_dom [OF assms(1)]
      by (simp add: udp_bind_def udp_inv_def)
  next
    case (Some i)
    note i = first_idx_SomeD(1,2) [OF Some]
    let ?p = "fresh_port port (ps ! i)"
    have ok: "udp_port_ok ?p" using udp_inv_port [OF assms(1) i(1)] f(1) by (auto simp: fresh_port_def udp_port_ok_def udp_msg_ok_def)
    have inv: "udp_inv (ps[i := ?p])"
      by (rule udp_inv_update [OF assms(1) i(1) ok]) (simp add: fresh_port_def f(2))
    have b: "box_of ?p = {#}" by (simp add: box_of_def fresh_port_def filter_map comp_def)
    have "boxes (ps[i := ?p]) = (boxes ps)(port := if up_used ?p then Some (box_of ?p) else None)"
      by (rule boxes_update [OF assms(1) inv i(1)]) (use i(2) f(2) in \<open>simp_all add: fresh_port_def\<close>)
    moreover have "count_if up_used ps < UDP_PORT_MAX"
      using count_if_le [of up_used ps] count_if_full [of up_used ps] i assms(1) by (auto simp: udp_inv_def)
    ultimately show ?thesis
      using assms(2) f Some inv b mail_step.bind_new [of port "boxes ps"] boxes_dom [OF assms(1)]
      by (simp add: udp_bind_def fresh_port_def)
  qed
qed

lemma udp_unbind_refines:
  assumes "udp_inv ps" "udp_unbind port ps = (r, ps')"
  shows "udp_inv ps' \<and> mail_step (Unbind port) (boxes ps) (Code r) (boxes ps')"
proof (cases "find_port port ps")
  case None
  then show ?thesis using assms mail_step.unbind_fail [of "boxes ps" port] by (simp add: udp_unbind_def boxes_def)
next
  case (Some i)
  then have i: "i < length ps" "up_used (ps ! i)" "up_port (ps ! i) = port" using find_port_iff [OF assms(1)] by simp_all
  let ?p = "(ps ! i)\<lparr>up_used := False\<rparr>"
  have ok: "udp_port_ok ?p" using udp_inv_port [OF assms(1) i(1)] by (simp add: udp_port_ok_def)
  have inv: "udp_inv (ps[i := ?p])" by (rule udp_inv_update [OF assms(1) i(1) ok]) simp
  have "boxes (ps[i := ?p]) = (boxes ps)(port := if up_used ?p then Some (box_of ?p) else None)"
    by (rule boxes_update [OF assms(1) inv i(1)]) (use i Some in simp_all)
  moreover have "boxes ps port \<noteq> None" using Some by (simp add: boxes_def)
  ultimately show ?thesis
    using assms(2) Some inv mail_step.unbind [of "boxes ps" port] by (simp add: udp_unbind_def)
qed

text \<open>The number of bytes \<^verbatim>\<open>udp_deliver\<close> takes from a datagram.\<close>

lemma deliver_len:
  "unat (if (len :: u16) > of_nat UDP_PAYLOAD_MAX then of_nat UDP_PAYLOAD_MAX else len) = min (unat len) UDP_PAYLOAD_MAX"
  by (simp add: UDP_PAYLOAD_MAX_def word_less_nat_alt unat_of_nat16)

lemma udp_deliver_cases:
  assumes "udp_inv ps" "udp_deliver dst ip src payload len ps st = Some (r, ps', st')"
  obtains (fail) "r = NM_ERR NM_EFAIL" "ps' = ps" "st' = st" "boxes ps dst = None \<or> (\<exists>b. boxes ps dst = Some b \<and> box_full b)"
  | (ok) i j m where "find_port dst ps = Some i" "first_idx (\<lambda>m. \<not> um_used m) (up_q (ps ! i)) = Some j"
    "r = int (min (unat len) UDP_PAYLOAD_MAX)" "st' = net_stats_note_udp_rx st" "um_used m" "udp_msg_ok m"
    "min (unat len) UDP_PAYLOAD_MAX \<le> length payload"
    "msg_of m = (ip, src, take (min (unat len) UDP_PAYLOAD_MAX) payload)" "ps' = ps[i := (ps ! i)\<lparr>up_q := (up_q (ps ! i))[j := m]\<rparr>]"
proof (cases "find_port dst ps")
  case None
  then show thesis using assms(2) fail by (simp add: udp_deliver_def boxes_def)
next
  case (Some i)
  then have i: "i < length ps" using find_port_iff [OF assms(1)] by simp
  note p = udp_inv_port [OF assms(1) i]
  show thesis
  proof (cases "first_idx (\<lambda>m. \<not> um_used m) (up_q (ps ! i))")
    case None
    then show thesis using assms(2) Some fail box_full_iff [OF p] by (simp add: udp_deliver_def boxes_def)
  next
    case j: (Some j)
    define n where "n = (if len > of_nat UDP_PAYLOAD_MAX then of_nat UDP_PAYLOAD_MAX else len)"
    have un: "unat n = min (unat len) UDP_PAYLOAD_MAX" unfolding n_def by (rule deliver_len)
    have fit: "unat n \<le> length payload"
      using assms(2) Some j unfolding udp_deliver_def Let_def n_def [symmetric] by (auto simp: bytes_of_def split: if_splits)
    define m where "m = (up_q (ps ! i) ! j)\<lparr>um_used := True, um_src_ip := ip, um_src_port := src, um_len := n,
      um_payload := overwrite (take (unat n) payload) (um_payload (up_q (ps ! i) ! j))\<rparr>"
    have len: "length (take (unat n) payload) = unat n" using fit by simp
    have old: "length (um_payload (up_q (ps ! i) ! j)) = UDP_PAYLOAD_MAX"
      using udp_port_okD [OF p] first_idx_SomeD(1) [OF j] by (simp add: udp_msg_ok_def)
    have "take (unat n) (overwrite (take (unat n) payload) (um_payload (up_q (ps ! i) ! j))) = take (unat n) payload"
      using take_overwrite [of "take (unat n) payload"] len by metis
    then have m: "um_used m" "udp_msg_ok m" "msg_of m = (ip, src, take (unat n) payload)"
      using un old len by (simp_all add: m_def udp_msg_ok_def msg_of_def)
    have "r = int (unat n)" "st' = net_stats_note_udp_rx st" "ps' = ps[i := (ps ! i)\<lparr>up_q := (up_q (ps ! i))[j := m]\<rparr>]"
      using assms(2) Some j fit unfolding udp_deliver_def Let_def n_def [symmetric] by (simp_all add: m_def)
    then show thesis using ok [OF Some j _ _ m(1,2)] m(3) fit un by simp
  qed
qed

lemma udp_deliver_refines:
  assumes "udp_inv ps" "udp_deliver dst ip src payload len ps st = Some (r, ps', st')"
  shows "udp_inv ps' \<and> mail_step (Deliver dst ip src payload len) (boxes ps) (Code r) (boxes ps')"
  using assms
proof (cases rule: udp_deliver_cases)
  case fail
  then show ?thesis using assms(1) mail_step.deliver_fail [of "boxes ps" dst] by simp
next
  case (ok i j m)
  then have i: "i < length ps" "up_used (ps ! i)" "up_port (ps ! i) = dst" using find_port_iff [OF assms(1)] by simp_all
  note p = udp_inv_port [OF assms(1) i(1)] and j = first_idx_SomeD(1,2) [OF ok(2)]
  let ?p = "(ps ! i)\<lparr>up_q := (up_q (ps ! i))[j := m]\<rparr>"
  have inv: "udp_inv (ps[i := ?p])"
    using i ok(1) by (intro udp_inv_update [OF assms(1) i(1) udp_port_ok_upd [OF p ok(6)]]) simp
  have "boxes (ps[i := ?p]) = (boxes ps)(dst := if up_used ?p then Some (box_of ?p) else None)"
    by (rule boxes_update [OF assms(1) inv i(1)]) (use i ok(1) in simp_all)
  moreover have "box_of ?p = add_mset (ip, src, take (min (unat len) UDP_PAYLOAD_MAX) payload) (box_of (ps ! i))"
    using filter_claim [of j "up_q (ps ! i)" um_used m msg_of] j ok(5,8) by (simp add: box_of_def)
  moreover have "boxes ps dst = Some (box_of (ps ! i))" "\<not> box_full (box_of (ps ! i))"
    using ok(1,2) box_full_iff [OF p] by (simp_all add: boxes_def)
  ultimately show ?thesis
    using mail_step.deliver [of "boxes ps" dst "box_of (ps ! i)" _ len payload ip src] inv i(2) ok(3,7,9) by simp
qed

lemma udp_recv_refines:
  assumes "udp_inv ps" "udp_recv port True cap ps = (n, out, srcs, ps')"
  shows "udp_inv ps' \<and> mail_step (Recv port cap) (boxes ps) (Got n out srcs) (boxes ps')"
proof (cases "find_port port ps")
  case None
  then show ?thesis using assms mail_step.recv_fail [of "boxes ps" port] by (simp add: udp_recv_def boxes_def)
next
  case (Some i)
  then have i: "i < length ps" "up_used (ps ! i)" "up_port (ps ! i) = port" using find_port_iff [OF assms(1)] by simp_all
  note p = udp_inv_port [OF assms(1) i(1)]
  show ?thesis
  proof (cases "first_idx um_used (up_q (ps ! i))")
    case None
    then have "box_of (ps ! i) = {#}" by (simp add: box_of_def first_idx_None_iff filter_empty_conv)
    then show ?thesis
      using assms Some None mail_step.recv_empty [of "boxes ps" port] by (simp add: udp_recv_def boxes_def)
  next
    case j: (Some j)
    let ?m = "up_q (ps ! i) ! j"
    let ?p = "(ps ! i)\<lparr>up_q := (up_q (ps ! i))[j := ?m\<lparr>um_used := False\<rparr>]\<rparr>"
    have jl: "j < length (up_q (ps ! i))" "um_used ?m" using first_idx_SomeD(1,2) [OF j] by simp_all
    have mok: "udp_msg_ok ?m" using udp_port_okD [OF p] jl(1) by simp
    have inv: "udp_inv (ps[i := ?p])"
      using i Some mok by (intro udp_inv_update [OF assms(1) i(1) udp_port_ok_upd [OF p]]) (simp_all add: udp_msg_ok_def)
    have bx: "boxes (ps[i := ?p]) = (boxes ps)(port := if up_used ?p then Some (box_of ?p) else None)"
      by (rule boxes_update [OF assms(1) inv i(1)]) (use i Some in simp_all)
    define b where "b = box_of ?p"
    have "box_of (ps ! i) = add_mset (msg_of ?m) b"
      using filter_drop [of j "up_q (ps ! i)" um_used "?m\<lparr>um_used := False\<rparr>" msg_of] jl by (simp add: box_of_def b_def)
    then have old: "boxes ps port = Some (add_mset (um_src_ip ?m, um_src_port ?m, take (unat (um_len ?m)) (um_payload ?m)) b)"
      using Some by (simp add: boxes_def msg_of_def)
    define d where "d = take (unat (um_len ?m)) (um_payload ?m)"
    have k: "unat (if um_len ?m < cap then um_len ?m else cap) = min (unat (um_len ?m)) (unat cap)"
      by (simp add: word_less_nat_alt)
    have dl: "length d = unat (um_len ?m)" using mok jl(2) by (simp add: d_def udp_msg_ok_def)
    have "n = int (unat (if um_len ?m < cap then um_len ?m else cap))" "ps' = ps[i := ?p]" "srcs = Some (um_src_ip ?m, um_src_port ?m)"
      "out = take (unat (if um_len ?m < cap then um_len ?m else cap)) (um_payload ?m)"
      using assms(2) Some j by (simp_all add: udp_recv_def Let_def)
    then have "n = int (length (take (unat cap) d))" "out = take (unat cap) d" "srcs = Some (um_src_ip ?m, um_src_port ?m)"
      "ps' = ps[i := ?p]"
      unfolding k by (simp_all add: dl) (simp add: d_def min.commute)
    then show ?thesis
      using inv bx i(2) mail_step.recv [where m = "boxes ps" and port = port, OF old [folded d_def] refl, of cap] by (simp add: b_def)
  qed
qed

lemma udp_do_refines:
  assumes "udp_inv ps" "udp_do op (ps, st) = Some (r, ps', st')"
  shows "udp_inv ps' \<and> mail_step op (boxes ps) r (boxes ps')"
  using assms udp_bind_refines [OF assms(1)] udp_unbind_refines [OF assms(1)] udp_deliver_refines [OF assms(1)]
    udp_recv_refines [OF assms(1)]
  by (cases op) (auto split: prod.splits)

section \<open>The contract of the datagram layer\<close>

text \<open>
  What the sockets rely on: an implementation of mailboxes, seen only through its abstraction. The
  consequences for a client are proved once.
\<close>

inductive_cases bindE: "mail_step (Bind port) m r m'"
inductive_cases unbindE: "mail_step (Unbind port) m r m'"
inductive_cases deliverE: "mail_step (Deliver dst ip src payload len) m r m'"
inductive_cases recvE: "mail_step (Recv port cap) m r m'"

locale mailbox_service =
  fixes inv :: "'p \<Rightarrow> bool"
    and box :: "'p \<Rightarrow> mailboxes"
    and do_op :: "udp_op \<Rightarrow> 'p \<Rightarrow> (udp_result \<times> 'p) option"
  assumes refines: "inv p \<Longrightarrow> do_op op p = Some (r, p') \<Longrightarrow> inv p' \<and> mail_step op (box p) r (box p')"
begin

lemma bind_opens:
  assumes "inv p" "do_op (Bind port) p = Some (Code 0, p')"
  shows "inv p'" "box p' = (box p)(port \<mapsto> (case box p port of None \<Rightarrow> {#} | Some b \<Rightarrow> b))"
proof -
  note r = refines [OF assms]
  show "inv p'" using r by simp
  have "mail_step (Bind port) (box p) (Code 0) (box p')" using r by simp
  then show "box p' = (box p)(port \<mapsto> (case box p port of None \<Rightarrow> {#} | Some b \<Rightarrow> b))"
    by (rule bindE) (auto simp: fun_upd_idem)
qed

lemma unbind_closes:
  assumes "inv p" "do_op (Unbind port) p = Some (r, p')"
  shows "inv p'" "box p' = (box p)(port := None)"
proof -
  note r = refines [OF assms]
  show "inv p'" using r by simp
  have "mail_step (Unbind port) (box p) r (box p')" using r by simp
  then show "box p' = (box p)(port := None)" by (rule unbindE) (auto simp: fun_upd_idem)
qed

lemma closed_recv_fails:
  assumes "inv p" "box p port = None" "do_op (Recv port cap) p = Some (Got n out src, p')"
  shows "n = NM_ERR NM_EFAIL" "out = []" "box p' = box p"
proof -
  have "mail_step (Recv port cap) (box p) (Got n out src) (box p')" using refines [OF assms(1,3)] by simp
  then have "n = NM_ERR NM_EFAIL \<and> out = [] \<and> box p' = box p" using assms(2) by (elim recvE) auto
  then show "n = NM_ERR NM_EFAIL" "out = []" "box p' = box p" by simp_all
qed

lemma deliver_fills:
  assumes "inv p" "box p dst = Some {#}" "do_op (Deliver dst ip src payload len) p = Some (Code r, p')"
  shows "inv p'" "box p' = (box p)(dst \<mapsto> {#(ip, src, take (min (unat len) UDP_PAYLOAD_MAX) payload)#})"
    "r = int (length (take (min (unat len) UDP_PAYLOAD_MAX) payload))"
proof -
  note d = refines [OF assms(1,3)]
  show "inv p'" using d by simp
  have "mail_step (Deliver dst ip src payload len) (box p) (Code r) (box p')" using d by simp
  then have "box p' = (box p)(dst \<mapsto> {#(ip, src, take (min (unat len) UDP_PAYLOAD_MAX) payload)#}) \<and>
      r = int (length (take (min (unat len) UDP_PAYLOAD_MAX) payload))"
    using assms(2) by (elim deliverE) (auto simp: box_full_def UDP_QUEUE_CAP_def)
  then show "box p' = (box p)(dst \<mapsto> {#(ip, src, take (min (unat len) UDP_PAYLOAD_MAX) payload)#})"
    "r = int (length (take (min (unat len) UDP_PAYLOAD_MAX) payload))" by simp_all
qed

lemma deliver_then_recv:
  assumes "inv p" "box p dst = Some {#}" "do_op (Deliver dst ip src payload len) p = Some (Code r, p1)"
    "do_op (Recv dst cap) p1 = Some (Got n out from, p2)"
  shows "out = take (unat cap) (take (min (unat len) UDP_PAYLOAD_MAX) payload)" "n = int (length out)" "from = Some (ip, src)"
    "box p2 = box p"
proof -
  note d = deliver_fills [OF assms(1-3)]
  have "mail_step (Recv dst cap) (box p1) (Got n out from) (box p2)" using refines [OF d(1) assms(4)] by simp
  then have "out = take (unat cap) (take (min (unat len) UDP_PAYLOAD_MAX) payload) \<and> n = int (length out) \<and> from = Some (ip, src) \<and> box p2 = box p"
    using d(2) assms(2) by (elim recvE) (auto simp: fun_upd_idem)
  then show "out = take (unat cap) (take (min (unat len) UDP_PAYLOAD_MAX) payload)" "n = int (length out)" "from = Some (ip, src)"
    "box p2 = box p" by simp_all
qed

end

interpretation udp: mailbox_service "\<lambda>(ps, st). udp_inv ps" "\<lambda>(ps, st). boxes ps" udp_do
  by unfold_locales (use udp_do_refines in auto)

lemma udp_recv_delivered:
  assumes "udp_inv ps" "boxes ps dst = Some {#}" "udp_deliver dst ip src payload len ps st = Some (r, ps1, st1)"
    "unat len \<le> UDP_PAYLOAD_MAX" "udp_recv dst True cap ps1 = (n, out, from, ps2)"
  shows "r = int (unat len) \<and> out = take (unat cap) (take (unat len) payload) \<and> n = int (length out) \<and>
    from = Some (ip, src) \<and> boxes ps2 = boxes ps"
proof -
  have d: "udp_do (Deliver dst ip src payload len) (ps, st) = Some (Code r, ps1, st1)" using assms(3) by simp
  have q: "udp_do (Recv dst cap) (ps1, st1) = Some (Got n out from, ps2, st1)" using assms(5) by simp
  have "\<not> box_full {#}" by (simp add: box_full_def UDP_QUEUE_CAP_def)
  then have "r = int (unat len)"
    using assms(2,4) by (cases rule: udp_deliver_cases [OF assms(1,3)]) (auto simp: min_absorb1)
  then show ?thesis using udp.deliver_then_recv [OF _ _ d q] assms(1,2,4) by (simp add: min_absorb1)
qed

section \<open>Properties\<close>

text \<open>
  C19: the datagram layer implements mailboxes. Whatever operation runs on a well-formed port table, the
  table stays well formed and the mailboxes of the bound ports change exactly as specified: binding a
  new port opens an empty box and fails only for port 0 or when 64 ports are bound, unbinding removes the
  box, a delivery adds the datagram (cut to 1500 bytes) with its source to the box of its port and fails
  only when there is no box or 16 datagrams wait in it, and a receive hands out one waiting datagram
  (cut to the caller's capacity) and removes it; no other box changes.
\<close>
theorem udp_refines_mailboxes:
  assumes "udp_inv ps" "udp_do op (ps, st) = Some (r, ps', st')"
  shows "udp_inv ps' \<and> mail_step op (boxes ps) r (boxes ps')"
  using assms udp_bind_refines [OF assms(1)] udp_unbind_refines [OF assms(1)] udp_deliver_refines [OF assms(1)]
    udp_recv_refines [OF assms(1)]
  by (cases op) (auto split: prod.splits)


definition demo_ports :: "udp_port list" where
  "demo_ports = replicate UDP_PORT_MAX \<lparr>up_used = False, up_port = 0, up_q = replicate UDP_QUEUE_CAP
     \<lparr>um_used = False, um_src_ip = 0, um_src_port = 0, um_len = 0, um_payload = replicate UDP_PAYLOAD_MAX 0\<rparr>\<rparr>"

lemma demo_ports_inv: "udp_inv demo_ports"
  by (auto simp: udp_inv_def demo_ports_def udp_msg_ok_def)

lemma demo_bind: "port \<noteq> 0 \<Longrightarrow> udp_bind port demo_ports = (0, demo_ports[0 := fresh_port port (demo_ports ! 0)])"
  by (simp add: udp_bind_def find_port_def demo_ports_def first_idx_replicate UDP_PORT_MAX_def)

lemma demo_bound:
  assumes "port \<noteq> 0"
  shows "udp_inv (snd (udp_bind port demo_ports))" "boxes (snd (udp_bind port demo_ports)) port = Some {#}"
proof -
  let ?ps = "snd (udp_bind port demo_ports)"
  have inv: "udp_inv ?ps" and step: "mail_step (Bind port) (boxes demo_ports) (Code 0) (boxes ?ps)"
    using udp_bind_refines [OF demo_ports_inv, of port] assms by (simp_all add: demo_bind)
  show "udp_inv ?ps" by (rule inv)
  have none: "boxes demo_ports port = None" by (simp add: boxes_def find_port_def demo_ports_def first_idx_replicate)
  from step show "boxes ?ps port = Some {#}" using none by cases simp_all
qed

theorem udp_refines_mailboxes_witness:
  "udp_inv (snd (udp_bind 53 demo_ports)) \<and> mail_step (Bind 53) (boxes demo_ports) (Code 0) (boxes (snd (udp_bind 53 demo_ports)))"
proof -
  have "udp_do (Bind 53) (demo_ports, zero_stats) = Some (Code 0, snd (udp_bind 53 demo_ports), zero_stats)"
    by (simp add: demo_bind)
  then show ?thesis using udp_refines_mailboxes [OF demo_ports_inv] by blast
qed

text \<open>
  what is delivered is what is received. A datagram of at most 1500 bytes delivered to a bound
  port whose box is empty comes back from the next receive with its bytes, cut to the caller's
  capacity, and its source address and port, and leaves the mailboxes as they were.
\<close>
theorem udp_deliver_then_recv:
  assumes "udp_inv ps" "boxes ps dst = Some {#}" "udp_deliver dst ip src payload len ps st = Some (r, ps1, st1)"
    "unat len \<le> UDP_PAYLOAD_MAX" "udp_recv dst True cap ps1 = (n, out, from, ps2)"
  shows "r = int (unat len) \<and> out = take (unat cap) (take (unat len) payload) \<and> n = int (length out) \<and>
    from = Some (ip, src) \<and> boxes ps2 = boxes ps"
  by (rule udp_recv_delivered [OF assms])

theorem udp_deliver_then_recv_witness:
  "\<exists>ps1 st1 ps2. udp_deliver 53 0x7F000001 4000 [1, 2, 3] 3 (snd (udp_bind 53 demo_ports)) zero_stats = Some (3, ps1, st1) \<and>
     udp_recv 53 True 2 ps1 = (2, [1, 2], Some (0x7F000001, 4000), ps2)"
proof -
  let ?ps = "snd (udp_bind 53 demo_ports)"
  have inv: "udp_inv ?ps" and box: "boxes ?ps 53 = Some {#}" using demo_bound [of 53] by simp_all
  have f: "find_port 53 ?ps = Some 0"
    using find_port_iff [OF inv, of 53 0] by (simp add: demo_bind fresh_port_def) (simp add: demo_ports_def UDP_PORT_MAX_def)
  have j: "first_idx (\<lambda>m. \<not> um_used m) (up_q (?ps ! 0)) = Some 0"
    by (simp add: demo_bind fresh_port_def) (simp add: demo_ports_def fresh_port_def UDP_PORT_MAX_def UDP_QUEUE_CAP_def first_idx_replicate)
  obtain r ps1 st1 where d: "udp_deliver 53 0x7F000001 4000 [1, 2, 3] 3 ?ps zero_stats = Some (r, ps1, st1)"
    using f j by (auto simp: udp_deliver_def Let_def UDP_PAYLOAD_MAX_def word_less_nat_alt unat_of_nat16)
  obtain n out src ps2 where q: "udp_recv 53 True 2 ps1 = (n, out, src, ps2)" by (metis prod_cases4)
  show ?thesis
    using udp_deliver_then_recv [OF inv box d _ q] d q by (simp add: UDP_PAYLOAD_MAX_def)
qed

section \<open>No read outside the packet\<close>

lemma udp_deliver_in_bounds:
  "unat len \<le> length payload \<Longrightarrow> \<exists>r. udp_deliver dst ip src payload len ps st = Some r"
  using deliver_len [of len] by (auto simp: udp_deliver_def Let_def split: option.splits)

lemma udp_input_in_bounds:
  assumes "unat len \<le> length payload"
  shows "\<exists>r. udp_input src_ip dst_ip payload len ps st = Some r"
proof (cases "len < 8")
  case True
  then show ?thesis by (simp add: udp_input_def)
next
  case False
  then have l: "8 \<le> length payload" using assms by (simp add: word_less_nat_alt)
  let ?u = "be16 (payload ! 4) (payload ! 5)"
  have "\<exists>r. udp_deliver d src_ip s (drop 8 payload) (?u - 8) ps st = Some r" if "\<not> ?u < 8" "\<not> ?u > len" for d s
  proof (rule udp_deliver_in_bounds)
    have "8 \<le> ?u" "unat ?u \<le> unat len" using that by (simp_all add: word_le_nat_alt not_less)
    then show "unat (?u - 8) \<le> length (drop 8 payload)" using assms by (simp add: unat_sub word_le_nat_alt)
  qed
  then have "\<not> ?u < 8 \<Longrightarrow> \<not> ?u > len \<Longrightarrow> \<exists>r. udp_deliver (be16 (payload ! 2) (payload ! 3)) src_ip (be16 (payload ! 0) (payload ! 1))
      (drop 8 payload) (?u - 8) ps st = Some r" by blast
  then show ?thesis using False l by (auto simp: udp_input_def)
qed

end
