(* ===== verification/Tcp.thy ===== *)
theory Tcp
  imports Netstats
begin

text \<open>
  The connection layer of \<^verbatim>\<open>kernel/net/tcp.c\<close>: a table of 64 connections that talk to each other inside the
  machine, each with a receive buffer of 2048 bytes, and the counter for connection ids. The lock brackets
  every operation. A payload is the bytes its pointer leads to (\<open>None\<close> the null pointer), and an operation
  that would read beyond them has no value.
\<close>

section \<open>State\<close>

definition TCP_CONN_MAX :: nat where "TCP_CONN_MAX = 64"
definition TCP_BUF_MAX :: nat where "TCP_BUF_MAX = 2048"

datatype tcp_phase = TCP_CLOSED | TCP_LISTEN | TCP_SYN_SENT | TCP_SYN_RECV | TCP_ESTABLISHED

record tcp_conn =
  tc_used :: bool
  tc_id :: int
  tc_state :: tcp_phase
  tc_local_ip :: u32
  tc_local_port :: u16
  tc_peer_ip :: u32
  tc_peer_port :: u16
  tc_peer_id :: int
  tc_rx_len :: u16
  tc_rx_buf :: "u8 list"

record tcp_table =
  conns :: "tcp_conn list"
  next_id :: int

section \<open>Operations\<close>

definition upd_conn :: "nat \<Rightarrow> (tcp_conn \<Rightarrow> tcp_conn) \<Rightarrow> tcp_table \<Rightarrow> tcp_table" where
  "upd_conn i f s = s\<lparr>conns := (conns s)[i := f (conns s ! i)]\<rparr>"

definition find_by_id :: "int \<Rightarrow> tcp_table \<Rightarrow> nat option" where
  "find_by_id cid s = first_idx (\<lambda>c. tc_used c \<and> tc_id c = cid) (conns s)"

definition find_listener :: "u16 \<Rightarrow> tcp_table \<Rightarrow> nat option" where
  "find_listener port s = first_idx (\<lambda>c. tc_used c \<and> tc_state c = TCP_LISTEN \<and> tc_local_port c = port) (conns s)"

definition claim_conn :: "int \<Rightarrow> tcp_conn \<Rightarrow> tcp_conn" where
  "claim_conn cid c = c\<lparr>tc_used := True, tc_id := cid, tc_state := TCP_CLOSED, tc_peer_id := - 1, tc_rx_len := 0\<rparr>"

definition alloc_conn :: "tcp_table \<Rightarrow> (nat \<times> tcp_table) option" where
  "alloc_conn s =
     (case first_idx (\<lambda>c. \<not> tc_used c) (conns s) of
        None \<Rightarrow> None
      | Some i \<Rightarrow> Some (i, (upd_conn i (claim_conn (next_id s)) s)\<lparr>next_id := s32 (next_id s + 1)\<rparr>))"

definition tcp_listen :: "u16 \<Rightarrow> tcp_table \<Rightarrow> int \<times> tcp_table" where
  "tcp_listen port s =
     (case alloc_conn s of
        None \<Rightarrow> (NM_ERR NM_EFAIL, s)
      | Some (i, s) \<Rightarrow>
          let s = upd_conn i (\<lambda>c. c\<lparr>tc_state := TCP_LISTEN, tc_local_ip := 0, tc_local_port := port\<rparr>) s
          in (tc_id (conns s ! i), s))"

definition drop_conn :: "tcp_conn \<Rightarrow> tcp_conn" where
  "drop_conn c = c\<lparr>tc_used := False, tc_state := TCP_CLOSED, tc_peer_id := - 1, tc_rx_len := 0\<rparr>"

definition tcp_connect :: "u32 \<Rightarrow> u16 \<Rightarrow> u16 \<Rightarrow> tcp_table \<Rightarrow> nm_net_stats \<Rightarrow> int \<times> tcp_table \<times> nm_net_stats" where
  "tcp_connect dst_ip dst_port src_port s st =
     (case find_listener dst_port s of
        None \<Rightarrow> (NM_ERR NM_EFAIL, s, st)
      | Some _ \<Rightarrow>
          (case alloc_conn s of
             None \<Rightarrow> (NM_ERR NM_EFAIL, s, st)
           | Some (cli, s) \<Rightarrow>
               (case alloc_conn s of
                  None \<Rightarrow> (NM_ERR NM_EFAIL, upd_conn cli drop_conn s, st)
                | Some (srv, s) \<Rightarrow>
                    let s = upd_conn cli (\<lambda>c. c\<lparr>tc_state := TCP_ESTABLISHED, tc_local_ip := 0, tc_peer_ip := dst_ip,
                              tc_peer_port := dst_port, tc_local_port := src_port\<rparr>) s;
                        s = upd_conn srv (\<lambda>c. c\<lparr>tc_state := TCP_SYN_RECV, tc_local_ip := dst_ip, tc_local_port := dst_port,
                              tc_peer_ip := dst_ip, tc_peer_port := src_port\<rparr>) s;
                        s = upd_conn cli (\<lambda>c. c\<lparr>tc_peer_id := tc_id (conns s ! srv)\<rparr>) s;
                        s = upd_conn srv (\<lambda>c. c\<lparr>tc_peer_id := tc_id (conns s ! cli)\<rparr>) s
                    in (tc_id (conns s ! cli), s, net_stats_note_tcp_conn st))))"

definition tcp_accept :: "u16 \<Rightarrow> tcp_table \<Rightarrow> int \<times> tcp_table" where
  "tcp_accept listen_port s =
     (case first_idx (\<lambda>c. tc_used c \<and> tc_state c = TCP_SYN_RECV \<and> tc_local_port c = listen_port) (conns s) of
        None \<Rightarrow> (NM_ERR NM_EFAIL, s)
      | Some i \<Rightarrow> let s = upd_conn i (\<lambda>c. c\<lparr>tc_state := TCP_ESTABLISHED\<rparr>) s in (tc_id (conns s ! i), s))"

definition tcp_send :: "int \<Rightarrow> u8 list option \<Rightarrow> u16 \<Rightarrow> tcp_table \<Rightarrow> (int \<times> tcp_table) option" where
  "tcp_send conn_id payload len s =
     (case find_by_id conn_id s of
        None \<Rightarrow> Some (NM_ERR NM_EFAIL, s)
      | Some i \<Rightarrow>
          (case payload of
             None \<Rightarrow> Some (NM_ERR NM_EFAIL, s)
           | Some data \<Rightarrow>
               if tc_state (conns s ! i) \<noteq> TCP_ESTABLISHED \<or> len = 0 then Some (NM_ERR NM_EFAIL, s)
               else case find_by_id (tc_peer_id (conns s ! i)) s of
                 None \<Rightarrow> Some (NM_ERR NM_EFAIL, s)
               | Some j \<Rightarrow>
                   if tc_state (conns s ! j) \<noteq> TCP_ESTABLISHED then Some (NM_ERR NM_EFAIL, s)
                   else let n = (if len > of_nat TCP_BUF_MAX then of_nat TCP_BUF_MAX else len) in
                     map_option (\<lambda>src. (int (unat n), upd_conn j (\<lambda>c. c\<lparr>tc_rx_buf := overwrite src (tc_rx_buf c), tc_rx_len := n\<rparr>) s))
                       (bytes_of data (unat n))))"

definition tcp_recv :: "int \<Rightarrow> bool \<Rightarrow> u16 \<Rightarrow> tcp_table \<Rightarrow> int \<times> u8 list \<times> tcp_table" where
  "tcp_recv conn_id ok cap s =
     (case find_by_id conn_id s of
        None \<Rightarrow> (NM_ERR NM_EFAIL, [], s)
      | Some i \<Rightarrow>
          let c = conns s ! i in
          if tc_state c \<noteq> TCP_ESTABLISHED \<or> \<not> ok then (NM_ERR NM_EFAIL, [], s)
          else if tc_rx_len c = 0 then (0, [], s)
          else let n = (if tc_rx_len c < cap then tc_rx_len c else cap)
               in (int (unat n), take (unat n) (tc_rx_buf c), upd_conn i (\<lambda>c. c\<lparr>tc_rx_len := 0\<rparr>) s))"

definition tcp_close :: "int \<Rightarrow> tcp_table \<Rightarrow> int \<times> tcp_table" where
  "tcp_close conn_id s =
     (case find_by_id conn_id s of
        None \<Rightarrow> (NM_ERR NM_EFAIL, s)
      | Some i \<Rightarrow> (0, upd_conn i (\<lambda>c. c\<lparr>tc_used := False\<rparr>) s))"

definition tcp_input :: "u32 \<Rightarrow> u32 \<Rightarrow> u8 list \<Rightarrow> u16 \<Rightarrow> tcp_table \<Rightarrow> tcp_table" where
  "tcp_input src_ip dst_ip payload len s = s"

section \<open>The invariant\<close>

text \<open>
  Ids of connections in use are positive, below the counter and distinct; a listening connection has no
  peer; any other one has a peer id that was given out, is not its own, and is answered by the peer if the
  peer is still there.
\<close>

definition conn_ok :: "int \<Rightarrow> tcp_conn \<Rightarrow> bool" where
  "conn_ok n c \<longleftrightarrow> length (tc_rx_buf c) = TCP_BUF_MAX \<and>
     (tc_used c \<longrightarrow> 0 < tc_id c \<and> tc_id c < n \<and> unat (tc_rx_len c) \<le> TCP_BUF_MAX \<and>
        (tc_state c = TCP_LISTEN \<and> tc_peer_id c = - 1 \<or>
         tc_state c \<in> {TCP_SYN_RECV, TCP_ESTABLISHED} \<and> 0 < tc_peer_id c \<and> tc_peer_id c < n \<and> tc_peer_id c \<noteq> tc_id c))"

definition tcp_inv :: "tcp_table \<Rightarrow> bool" where
  "tcp_inv s \<longleftrightarrow> length (conns s) = TCP_CONN_MAX \<and> 0 < next_id s \<and> (\<forall>c\<in>set (conns s). conn_ok (next_id s) c) \<and>
     (\<forall>i<TCP_CONN_MAX. \<forall>j<TCP_CONN_MAX. tc_used (conns s ! i) \<longrightarrow> tc_used (conns s ! j) \<longrightarrow>
        (tc_id (conns s ! i) = tc_id (conns s ! j) \<longrightarrow> i = j) \<and>
        (tc_peer_id (conns s ! i) = tc_id (conns s ! j) \<longrightarrow> tc_peer_id (conns s ! j) = tc_id (conns s ! i)))"

lemma tcp_invD:
  assumes "tcp_inv s"
  shows "length (conns s) = TCP_CONN_MAX" "0 < next_id s"
    "\<And>i. i < TCP_CONN_MAX \<Longrightarrow> conn_ok (next_id s) (conns s ! i)"
    "\<And>i j. i < TCP_CONN_MAX \<Longrightarrow> j < TCP_CONN_MAX \<Longrightarrow> tc_used (conns s ! i) \<Longrightarrow> tc_used (conns s ! j) \<Longrightarrow>
       tc_id (conns s ! i) = tc_id (conns s ! j) \<Longrightarrow> i = j"
    "\<And>i j. i < TCP_CONN_MAX \<Longrightarrow> j < TCP_CONN_MAX \<Longrightarrow> tc_used (conns s ! i) \<Longrightarrow> tc_used (conns s ! j) \<Longrightarrow>
       tc_peer_id (conns s ! i) = tc_id (conns s ! j) \<Longrightarrow> tc_peer_id (conns s ! j) = tc_id (conns s ! i)"
proof -
  show len: "length (conns s) = TCP_CONN_MAX" and "0 < next_id s" using assms unfolding tcp_inv_def by blast+
  show "conn_ok (next_id s) (conns s ! i)" if "i < TCP_CONN_MAX" for i
    using assms that len nth_mem [of i "conns s"] unfolding tcp_inv_def by metis
qed (use assms in \<open>unfold tcp_inv_def, blast+\<close>)

lemma tcp_invI:
  assumes "length (conns s) = TCP_CONN_MAX" "0 < next_id s" "\<And>i. i < TCP_CONN_MAX \<Longrightarrow> conn_ok (next_id s) (conns s ! i)"
    and "\<And>i j. i < TCP_CONN_MAX \<Longrightarrow> j < TCP_CONN_MAX \<Longrightarrow> tc_used (conns s ! i) \<Longrightarrow> tc_used (conns s ! j) \<Longrightarrow>
       tc_id (conns s ! i) = tc_id (conns s ! j) \<Longrightarrow> i = j"
    and "\<And>i j. i < TCP_CONN_MAX \<Longrightarrow> j < TCP_CONN_MAX \<Longrightarrow> tc_used (conns s ! i) \<Longrightarrow> tc_used (conns s ! j) \<Longrightarrow>
       tc_peer_id (conns s ! i) = tc_id (conns s ! j) \<Longrightarrow> tc_peer_id (conns s ! j) = tc_id (conns s ! i)"
  shows "tcp_inv s"
proof -
  have "\<forall>c\<in>set (conns s). conn_ok (next_id s) c" using assms(1,3) by (metis in_set_conv_nth)
  then show ?thesis unfolding tcp_inv_def using assms(1,2,4,5) by blast
qed

lemma find_by_id_iff:
  assumes "tcp_inv s"
  shows "find_by_id cid s = Some i \<longleftrightarrow> i < TCP_CONN_MAX \<and> tc_used (conns s ! i) \<and> tc_id (conns s ! i) = cid"
proof
  assume r: "i < TCP_CONN_MAX \<and> tc_used (conns s ! i) \<and> tc_id (conns s ! i) = cid"
  then have "\<not> (tc_used (conns s ! j) \<and> tc_id (conns s ! j) = cid)" if "j < i" for j
    using that tcp_invD(4) [OF assms, of j i] by auto
  then show "find_by_id cid s = Some i" using r tcp_invD(1) [OF assms] by (simp add: find_by_id_def first_idx_Some_iff)
qed (use tcp_invD(1) [OF assms] in \<open>auto simp: find_by_id_def first_idx_Some_iff\<close>)

lemma find_by_id_None: "find_by_id cid s = None \<longleftrightarrow> (\<forall>i<length (conns s). \<not> (tc_used (conns s ! i) \<and> tc_id (conns s ! i) = cid))"
  by (simp add: find_by_id_def first_idx_None_nth)

lemma upd_conn_simps [simp]:
  "next_id (upd_conn i f s) = next_id s" "length (conns (upd_conn i f s)) = length (conns s)"
  "i < length (conns s) \<Longrightarrow> conns (upd_conn i f s) ! i = f (conns s ! i)"
  "i \<noteq> j \<Longrightarrow> conns (upd_conn i f s) ! j = conns s ! j"
  by (simp_all add: upd_conn_def)

lemma conn_ok_mono: "conn_ok n c \<Longrightarrow> n \<le> n' \<Longrightarrow> conn_ok n' c"
  by (auto simp: conn_ok_def)

text \<open>An update of one connection that keeps its id and peer, or takes it out of use.\<close>

lemma tcp_inv_upd:
  assumes "tcp_inv s" "i < TCP_CONN_MAX" "conn_ok (next_id s) (f (conns s ! i))"
    and "tc_used (f (conns s ! i)) \<Longrightarrow> tc_used (conns s ! i) \<and> tc_id (f (conns s ! i)) = tc_id (conns s ! i) \<and>
      tc_peer_id (f (conns s ! i)) = tc_peer_id (conns s ! i)"
  shows "tcp_inv (upd_conn i f s)"
proof -
  let ?c = "conns (upd_conn i f s)"
  have len: "i < length (conns s)" using tcp_invD(1) [OF assms(1)] assms(2) by simp
  have nth: "?c ! j = (if j = i then f (conns s ! i) else conns s ! j)" for j using len by auto
  have same: "tc_used (conns s ! j) \<and> tc_id (?c ! j) = tc_id (conns s ! j) \<and> tc_peer_id (?c ! j) = tc_peer_id (conns s ! j)"
    if "tc_used (?c ! j)" for j using that assms(4) unfolding nth by (auto split: if_splits)
  have pair: "(tc_id (?c ! a) = tc_id (?c ! b) \<longrightarrow> a = b) \<and> (tc_peer_id (?c ! a) = tc_id (?c ! b) \<longrightarrow> tc_peer_id (?c ! b) = tc_id (?c ! a))"
    if "a < TCP_CONN_MAX" "b < TCP_CONN_MAX" "tc_used (?c ! a)" "tc_used (?c ! b)" for a b
  proof -
    have u: "tc_used (conns s ! a)" "tc_used (conns s ! b)" using same that(3,4) by blast+
    have e: "tc_id (?c ! a) = tc_id (conns s ! a)" "tc_id (?c ! b) = tc_id (conns s ! b)"
      "tc_peer_id (?c ! a) = tc_peer_id (conns s ! a)" "tc_peer_id (?c ! b) = tc_peer_id (conns s ! b)" using same that(3,4) by blast+
    show ?thesis unfolding e using tcp_invD(4,5) [OF assms(1) that(1,2) u] by blast
  qed
  show ?thesis
  proof (rule tcp_invI)
    show "length ?c = TCP_CONN_MAX" "0 < next_id (upd_conn i f s)" using tcp_invD(1,2) [OF assms(1)] by simp_all
    show "conn_ok (next_id (upd_conn i f s)) (?c ! j)" if "j < TCP_CONN_MAX" for j
      using assms(3) tcp_invD(3) [OF assms(1) that] unfolding nth by simp
  qed (use pair in blast)+
qed

text \<open>New connections, with ids the counter has not reached before.\<close>

lemma tcp_inv_extend:
  assumes inv: "tcp_inv s" and "length (conns s') = TCP_CONN_MAX" "next_id s \<le> next_id s'"
    and old: "\<And>j. j < TCP_CONN_MAX \<Longrightarrow> j \<notin> N \<Longrightarrow> conns s' ! j = conns s ! j"
    and new: "\<And>j. j < TCP_CONN_MAX \<Longrightarrow> j \<in> N \<Longrightarrow> conn_ok (next_id s') (conns s' ! j) \<and> (tc_used (conns s' ! j) \<longrightarrow>
      next_id s \<le> tc_id (conns s' ! j) \<and> (tc_peer_id (conns s' ! j) = - 1 \<or> next_id s \<le> tc_peer_id (conns s' ! j)))"
    and pair: "\<And>a b. a \<in> N \<Longrightarrow> b \<in> N \<Longrightarrow> tc_used (conns s' ! a) \<Longrightarrow> tc_used (conns s' ! b) \<Longrightarrow>
      (tc_id (conns s' ! a) = tc_id (conns s' ! b) \<longrightarrow> a = b) \<and>
      (tc_peer_id (conns s' ! a) = tc_id (conns s' ! b) \<longrightarrow> tc_peer_id (conns s' ! b) = tc_id (conns s' ! a))"
  shows "tcp_inv s'"
proof -
  have o: "0 < tc_id (conns s ! j) \<and> tc_id (conns s ! j) < next_id s \<and> tc_peer_id (conns s ! j) < next_id s"
    if "j < TCP_CONN_MAX" "tc_used (conns s ! j)" for j
    using tcp_invD(3) [OF inv that(1)] tcp_invD(2) [OF inv] that(2) by (auto simp: conn_ok_def)
  have both: "(tc_id (conns s' ! a) = tc_id (conns s' ! b) \<longrightarrow> a = b) \<and>
      (tc_peer_id (conns s' ! a) = tc_id (conns s' ! b) \<longrightarrow> tc_peer_id (conns s' ! b) = tc_id (conns s' ! a))"
    if ab: "a < TCP_CONN_MAX" "b < TCP_CONN_MAX" "tc_used (conns s' ! a)" "tc_used (conns s' ! b)" for a b
  proof -
    consider "a \<in> N" "b \<in> N" | "a \<notin> N" "b \<notin> N" | "a \<in> N" "b \<notin> N" | "a \<notin> N" "b \<in> N" by blast
    then show ?thesis
    proof cases
      case 1
      then show ?thesis using pair ab by blast
    next
      case 2
      then have "conns s' ! a = conns s ! a" "conns s' ! b = conns s ! b" using old ab by simp_all
      then show ?thesis using tcp_invD(4,5) [OF inv ab(1,2)] ab(3,4) by metis
    next
      case 3
      then have "conns s' ! b = conns s ! b" using old ab by simp
      then show ?thesis using new [OF ab(1)] 3 o [OF ab(2)] ab(3,4) by fastforce
    next
      case 4
      then have "conns s' ! a = conns s ! a" using old ab by simp
      then show ?thesis using new [OF ab(2)] 4 o [OF ab(1)] ab(3,4) by fastforce
    qed
  qed
  show ?thesis
  proof (rule tcp_invI)
    show "0 < next_id s'" using assms(3) tcp_invD(2) [OF inv] by simp
    show "conn_ok (next_id s') (conns s' ! j)" if "j < TCP_CONN_MAX" for j
      using new [OF that] old [OF that] tcp_invD(3) [OF inv that] conn_ok_mono [OF _ assms(3)] by (cases "j \<in> N") auto
  qed (use both assms(2) in blast)+
qed

section \<open>Every operation keeps the invariant\<close>

lemma alloc_conn_SomeD:
  assumes "alloc_conn s = Some (i, s')" "length (conns s) = TCP_CONN_MAX" "0 < next_id s" "next_id s < 2 ^ 31 - 1"
  shows "i < TCP_CONN_MAX" "\<not> tc_used (conns s ! i)" "next_id s' = next_id s + 1"
    "conns s' = (conns s)[i := claim_conn (next_id s) (conns s ! i)]"
proof -
  have f: "first_idx (\<lambda>c. \<not> tc_used c) (conns s) = Some i"
    and s': "s' = (upd_conn i (claim_conn (next_id s)) s)\<lparr>next_id := s32 (next_id s + 1)\<rparr>"
    using assms(1) by (auto simp: alloc_conn_def split: option.splits)
  show "i < TCP_CONN_MAX" "\<not> tc_used (conns s ! i)" using first_idx_SomeD [OF f] assms(2) by simp_all
  show "next_id s' = next_id s + 1" using s' assms(3,4) by (simp add: s32_id)
  show "conns s' = (conns s)[i := claim_conn (next_id s) (conns s ! i)]" using s' by (simp add: upd_conn_def)
qed

lemma tcp_listen_ok:
  assumes "tcp_inv s" "next_id s < 2 ^ 31 - 1" "tcp_listen port s = (r, s')"
  shows "tcp_inv s'" "next_id s \<le> next_id s'"
proof -
  show "tcp_inv s'"
  proof (cases "alloc_conn s")
    case None
    then show ?thesis using assms by (simp add: tcp_listen_def)
  next
    case (Some x)
    then obtain i s1 where a: "alloc_conn s = Some (i, s1)" by (cases x) auto
    note d = alloc_conn_SomeD [OF a tcp_invD(1,2) [OF assms(1)] assms(2)]
    let ?c = "(claim_conn (next_id s) (conns s ! i))\<lparr>tc_state := TCP_LISTEN, tc_local_ip := 0, tc_local_port := port\<rparr>"
    have len: "i < length (conns s)" using d(1) tcp_invD(1) [OF assms(1)] by simp
    have s': "conns s' = (conns s)[i := ?c]" "next_id s' = next_id s + 1"
      using assms(3) a d(3,4) len by (auto simp: tcp_listen_def upd_conn_def)
    have c: "conn_ok (next_id s') ?c" using tcp_invD(2,3) [OF assms(1)] d(1) s'(2) by (simp add: conn_ok_def claim_conn_def)
    show ?thesis
      by (rule tcp_inv_extend [OF assms(1), where N = "{i}"])
        (use s' c len tcp_invD(1,2) [OF assms(1)] in \<open>auto simp: claim_conn_def\<close>)
  qed
  show "next_id s \<le> next_id s'"
    using assms(3) alloc_conn_SomeD(3) [OF _ tcp_invD(1,2) [OF assms(1)] assms(2)] by (auto simp: tcp_listen_def Let_def split: option.splits prod.splits)
qed


text \<open>The two connections that \<^verbatim>\<open>tcp_connect\<close> makes, with the ids \<open>n\<close> and \<open>n + 1\<close>.\<close>

definition client_conn :: "int \<Rightarrow> u32 \<Rightarrow> u16 \<Rightarrow> u16 \<Rightarrow> tcp_conn \<Rightarrow> tcp_conn" where
  "client_conn n dst_ip dst_port src_port c = (claim_conn n c)\<lparr>tc_state := TCP_ESTABLISHED, tc_local_ip := 0,
     tc_peer_ip := dst_ip, tc_peer_port := dst_port, tc_local_port := src_port, tc_peer_id := n + 1\<rparr>"

definition server_conn :: "int \<Rightarrow> u32 \<Rightarrow> u16 \<Rightarrow> u16 \<Rightarrow> tcp_conn \<Rightarrow> tcp_conn" where
  "server_conn n dst_ip dst_port src_port c = (claim_conn (n + 1) c)\<lparr>tc_state := TCP_SYN_RECV, tc_local_ip := dst_ip,
     tc_local_port := dst_port, tc_peer_ip := dst_ip, tc_peer_port := src_port, tc_peer_id := n\<rparr>"

lemma list_update_pair: "i \<noteq> j \<Longrightarrow> xs[i := a, j := b, i := c, j := d] = xs[i := c, j := d]"
  by (metis list_update_overwrite list_update_swap)

lemma tcp_connect_cases:
  assumes "tcp_inv s" "next_id s < 2 ^ 31 - 2" "tcp_connect ip port src s st = (r, s', st')"
  obtains (refused) "r = NM_ERR NM_EFAIL" "s' = s" "st' = st"
  | (no_room) i where "r = NM_ERR NM_EFAIL" "st' = st" "i < TCP_CONN_MAX" "next_id s' = next_id s + 1"
      "conns s' = (conns s)[i := drop_conn (claim_conn (next_id s) (conns s ! i))]" "\<not> tc_used (conns s ! i)"
  | (made) i j where "r = next_id s" "i < TCP_CONN_MAX" "j < TCP_CONN_MAX" "i \<noteq> j" "\<not> tc_used (conns s ! i)" "\<not> tc_used (conns s ! j)"
      "next_id s' = next_id s + 2" "st' = net_stats_note_tcp_conn st"
      "conns s' = (conns s)[i := client_conn (next_id s) ip port src (conns s ! i), j := server_conn (next_id s) ip port src (conns s ! j)]"
proof (cases "find_listener port s = None \<or> alloc_conn s = None")
  case True
  then show thesis using assms(3) refused by (auto simp: tcp_connect_def split: option.splits)
next
  case False
  then obtain l i s1 where l: "find_listener port s = Some l" and a: "alloc_conn s = Some (i, s1)" by (cases "alloc_conn s") auto
  have n: "next_id s < 2 ^ 31 - 1" using assms(2) by simp
  note d = alloc_conn_SomeD [OF a tcp_invD(1,2) [OF assms(1)] n]
  have len: "length (conns s) = TCP_CONN_MAX" "length (conns s1) = TCP_CONN_MAX" using tcp_invD(1) [OF assms(1)] d(4) by simp_all
  show thesis
  proof (cases "alloc_conn s1")
    case None
    then have "r = NM_ERR NM_EFAIL" "s' = upd_conn i drop_conn s1" "st' = st" using assms(3) l a by (simp_all add: tcp_connect_def)
    then show thesis using no_room d len by (simp add: upd_conn_def)
  next
    case (Some x)
    then obtain j s2 where b: "alloc_conn s1 = Some (j, s2)" by (cases x) auto
    have n1: "0 < next_id s1" "next_id s1 < 2 ^ 31 - 1" using d(3) assms(2) tcp_invD(2) [OF assms(1)] by simp_all
    note e = alloc_conn_SomeD [OF b len(2) n1]
    have ij: "i \<noteq> j" "\<not> tc_used (conns s ! j)" using e(2) d(1,4) len by (auto simp: claim_conn_def nth_list_update split: if_splits)
    have c2: "conns s2 = (conns s)[i := claim_conn (next_id s) (conns s ! i), j := claim_conn (next_id s + 1) (conns s ! j)]"
      using e(4) d(3,4) ij by simp
    have "conns s' = (conns s)[i := client_conn (next_id s) ip port src (conns s ! i), j := server_conn (next_id s) ip port src (conns s ! j)]"
      "r = next_id s" "next_id s' = next_id s2" "st' = net_stats_note_tcp_conn st"
      using assms(3) l a b d(1) e(1) ij(1) len
      by (auto simp: tcp_connect_def Let_def upd_conn_def c2 claim_conn_def client_conn_def server_conn_def list_update_pair)
    then show thesis using made d(1,2,3) e(1,3) ij by simp
  qed
qed

lemma tcp_connect_ok:
  assumes "tcp_inv s" "next_id s < 2 ^ 31 - 2" "tcp_connect ip port src s st = (r, s', st')"
  shows "tcp_inv s' \<and> next_id s \<le> next_id s'"
  using assms
proof (cases rule: tcp_connect_cases)
  case refused
  then show ?thesis using assms(1) by simp
next
  case (no_room i)
  have len: "i < length (conns s)" using no_room(3) tcp_invD(1) [OF assms(1)] by simp
  have "tcp_inv s'"
    by (rule tcp_inv_extend [OF assms(1), where N = "{i}"])
      (use no_room len tcp_invD(1,3) [OF assms(1)] in \<open>auto simp: conn_ok_def claim_conn_def drop_conn_def\<close>)
  then show ?thesis using no_room(4) by simp
next
  case (made i j)
  have len: "i < length (conns s)" "j < length (conns s)" using made(2,3) tcp_invD(1) [OF assms(1)] by simp_all
  let ?c = "client_conn (next_id s) ip port src (conns s ! i)" and ?d = "server_conn (next_id s) ip port src (conns s ! j)"
  have nth: "conns s' ! i = ?c" "conns s' ! j = ?d" "\<And>k. k \<noteq> i \<Longrightarrow> k \<noteq> j \<Longrightarrow> conns s' ! k = conns s ! k"
    using len made(4,9) by simp_all
  have f: "tc_id ?c = next_id s" "tc_peer_id ?c = next_id s + 1" "tc_id ?d = next_id s + 1" "tc_peer_id ?d = next_id s"
    by (simp_all add: client_conn_def server_conn_def claim_conn_def)
  have ok: "conn_ok (next_id s') ?c" "conn_ok (next_id s') ?d"
    using tcp_invD(2,3) [OF assms(1)] made(2,3,7) by (simp_all add: conn_ok_def client_conn_def server_conn_def claim_conn_def)
  have "tcp_inv s'"
  proof (rule tcp_inv_extend [OF assms(1), where N = "{i, j}"])
    show "length (conns s') = TCP_CONN_MAX" "next_id s \<le> next_id s'" using tcp_invD(1) [OF assms(1)] made(7,9) by simp_all
    show "conns s' ! k = conns s ! k" if "k \<notin> {i, j}" for k using that nth(3) by simp
  qed (use ok made(4) in \<open>auto simp: nth f\<close>)
  then show ?thesis using made(7) by simp
qed

lemma tcp_accept_ok:
  assumes "tcp_inv s" "tcp_accept port s = (r, s')"
  shows "tcp_inv s' \<and> next_id s' = next_id s"
proof (cases "first_idx (\<lambda>c. tc_used c \<and> tc_state c = TCP_SYN_RECV \<and> tc_local_port c = port) (conns s)")
  case None
  then show ?thesis using assms by (simp add: tcp_accept_def)
next
  case (Some i)
  have i: "i < TCP_CONN_MAX" "tc_used (conns s ! i)" "tc_state (conns s ! i) = TCP_SYN_RECV"
    using first_idx_SomeD [OF Some] tcp_invD(1) [OF assms(1)] by simp_all
  have "tcp_inv (upd_conn i (\<lambda>c. c\<lparr>tc_state := TCP_ESTABLISHED\<rparr>) s)"
    using i tcp_invD(3) [OF assms(1) i(1)] by (intro tcp_inv_upd [OF assms(1) i(1)]) (simp_all add: conn_ok_def)
  then show ?thesis using assms(2) Some by (auto simp: tcp_accept_def Let_def)
qed


lemma send_len:
  "unat (if (len :: u16) > of_nat TCP_BUF_MAX then of_nat TCP_BUF_MAX else len) = min (unat len) TCP_BUF_MAX"
  by (simp add: TCP_BUF_MAX_def word_less_nat_alt unat_of_nat16)

text \<open>What a send stores in the peer: the front of the payload replaces what the peer has not read yet.\<close>

definition stored :: "u8 list \<Rightarrow> u16 \<Rightarrow> tcp_conn \<Rightarrow> tcp_conn" where
  "stored data len c = c\<lparr>tc_rx_buf := overwrite (take (min (unat len) TCP_BUF_MAX) data) (tc_rx_buf c),
     tc_rx_len := (if len > of_nat TCP_BUF_MAX then of_nat TCP_BUF_MAX else len)\<rparr>"

lemma tcp_send_cases:
  assumes "tcp_inv s" "tcp_send cid payload len s = Some (n, s')"
  obtains (fail) "n = NM_ERR NM_EFAIL" "s' = s"
  | (sent) i j data where "find_by_id cid s = Some i" "tc_state (conns s ! i) = TCP_ESTABLISHED"
      "find_by_id (tc_peer_id (conns s ! i)) s = Some j" "tc_state (conns s ! j) = TCP_ESTABLISHED" "payload = Some data" "len \<noteq> 0"
      "min (unat len) TCP_BUF_MAX \<le> length data" "n = int (min (unat len) TCP_BUF_MAX)" "s' = upd_conn j (stored data len) s"
proof (cases "n = NM_ERR NM_EFAIL \<and> s' = s")
  case True
  then show thesis using fail by simp
next
  case False
  obtain i j data where e: "find_by_id cid s = Some i" "tc_state (conns s ! i) = TCP_ESTABLISHED"
      "find_by_id (tc_peer_id (conns s ! i)) s = Some j" "tc_state (conns s ! j) = TCP_ESTABLISHED" "payload = Some data" "len \<noteq> 0"
    using assms(2) False by (auto simp: tcp_send_def split: option.splits if_splits)
  define m where "m = (if len > of_nat TCP_BUF_MAX then of_nat TCP_BUF_MAX else len)"
  have um: "unat m = min (unat len) TCP_BUF_MAX" unfolding m_def by (rule send_len)
  have "map_option (\<lambda>src. (int (unat m), upd_conn j (\<lambda>c. c\<lparr>tc_rx_buf := overwrite src (tc_rx_buf c), tc_rx_len := m\<rparr>) s))
      (bytes_of data (unat m)) = Some (n, s')"
    using assms(2) e unfolding tcp_send_def Let_def m_def [symmetric] by simp
  then have "unat m \<le> length data" "n = int (unat m)"
    "s' = upd_conn j (\<lambda>c. c\<lparr>tc_rx_buf := overwrite (take (unat m) data) (tc_rx_buf c), tc_rx_len := m\<rparr>) s"
    by (auto simp: bytes_of_def split: if_splits)
  then show thesis using sent [OF e] um by (simp add: stored_def [abs_def] m_def [symmetric])
qed

lemma stored_ok:
  assumes "conn_ok n c" "min (unat len) TCP_BUF_MAX \<le> length data"
  shows "conn_ok n (stored data len c)" "take (unat (tc_rx_len (stored data len c))) (tc_rx_buf (stored data len c)) = take (min (unat len) TCP_BUF_MAX) data"
    "unat (tc_rx_len (stored data len c)) = min (unat len) TCP_BUF_MAX"
proof -
  define src where "src = take (min (unat len) TCP_BUF_MAX) data"
  have l: "length src = min (unat len) TCP_BUF_MAX" using assms(2) by (simp add: src_def)
  show r: "unat (tc_rx_len (stored data len c)) = min (unat len) TCP_BUF_MAX" by (simp add: stored_def send_len)
  show "conn_ok n (stored data len c)"
    using assms(1) l r by (auto simp: conn_ok_def stored_def src_def [symmetric])
  have "take (length src) (overwrite src (tc_rx_buf c)) = src" by simp
  then show "take (unat (tc_rx_len (stored data len c))) (tc_rx_buf (stored data len c)) = take (min (unat len) TCP_BUF_MAX) data"
    unfolding r l by (simp add: stored_def src_def)
qed

lemma tcp_send_ok:
  assumes "tcp_inv s" "tcp_send cid payload len s = Some (n, s')"
  shows "tcp_inv s' \<and> next_id s' = next_id s"
  using assms
proof (cases rule: tcp_send_cases)
  case fail
  then show ?thesis using assms(1) by simp
next
  case (sent i j data)
  then have j: "j < TCP_CONN_MAX" "tc_used (conns s ! j)" using find_by_id_iff [OF assms(1)] by simp_all
  have "tcp_inv (upd_conn j (stored data len) s)"
    using j(2) stored_ok(1) [OF tcp_invD(3) [OF assms(1) j(1)] sent(7)]
    by (intro tcp_inv_upd [OF assms(1) j(1)]) (simp_all add: stored_def)
  then show ?thesis using sent(9) by simp
qed

lemma tcp_recv_ok:
  assumes "tcp_inv s" "tcp_recv cid ok cap s = (n, out, s')"
  shows "tcp_inv s' \<and> next_id s' = next_id s"
proof (cases "s' = s")
  case False
  then obtain i where i: "find_by_id cid s = Some i" "s' = upd_conn i (\<lambda>c. c\<lparr>tc_rx_len := 0\<rparr>) s"
    using assms(2) by (auto simp: tcp_recv_def Let_def split: option.splits if_splits)
  then have j: "i < TCP_CONN_MAX" "tc_used (conns s ! i)" using find_by_id_iff [OF assms(1)] by simp_all
  have "tcp_inv (upd_conn i (\<lambda>c. c\<lparr>tc_rx_len := 0\<rparr>) s)"
    using j tcp_invD(3) [OF assms(1) j(1)] by (intro tcp_inv_upd [OF assms(1) j(1)]) (simp_all add: conn_ok_def)
  then show ?thesis using i(2) by simp
qed (use assms(1) in simp)

lemma tcp_close_ok:
  assumes "tcp_inv s" "tcp_close cid s = (r, s')"
  shows "tcp_inv s' \<and> next_id s' = next_id s"
proof (cases "find_by_id cid s")
  case None
  then show ?thesis using assms by (simp add: tcp_close_def)
next
  case (Some i)
  then have j: "i < TCP_CONN_MAX" using find_by_id_iff [OF assms(1)] by simp
  have "tcp_inv (upd_conn i (\<lambda>c. c\<lparr>tc_used := False\<rparr>) s)"
    using tcp_invD(3) [OF assms(1) j] by (intro tcp_inv_upd [OF assms(1) j]) (simp_all add: conn_ok_def)
  then show ?thesis using assms(2) Some by (auto simp: tcp_close_def)
qed

section \<open>Runs\<close>

text \<open>A call of one of the operations; opening connections needs ids that fit an \<^verbatim>\<open>int\<close>.\<close>

inductive tcp_step :: "tcp_table \<Rightarrow> tcp_table \<Rightarrow> bool" where
  s_listen: "next_id s < 2 ^ 31 - 1 \<Longrightarrow> tcp_listen port s = (r, s') \<Longrightarrow> tcp_step s s'"
| s_connect: "next_id s < 2 ^ 31 - 2 \<Longrightarrow> tcp_connect ip port src s st = (r, s', st') \<Longrightarrow> tcp_step s s'"
| s_accept: "tcp_accept port s = (r, s') \<Longrightarrow> tcp_step s s'"
| s_send: "tcp_send cid payload len s = Some (n, s') \<Longrightarrow> tcp_step s s'"
| s_recv: "tcp_recv cid ok cap s = (n, out, s') \<Longrightarrow> tcp_step s s'"
| s_close: "tcp_close cid s = (r, s') \<Longrightarrow> tcp_step s s'"

inductive tcp_steps :: "tcp_table \<Rightarrow> tcp_table \<Rightarrow> bool" where
  refl: "tcp_steps s s"
| step: "tcp_steps s t \<Longrightarrow> tcp_step t u \<Longrightarrow> tcp_steps s u"

definition tcp_boot :: "tcp_table \<Rightarrow> bool" where
  "tcp_boot s \<longleftrightarrow> length (conns s) = TCP_CONN_MAX \<and> next_id s = 1 \<and>
     (\<forall>c\<in>set (conns s). \<not> tc_used c \<and> length (tc_rx_buf c) = TCP_BUF_MAX)"

lemma tcp_boot_inv: "tcp_boot s \<Longrightarrow> tcp_inv s"
  by (rule tcp_invI) (auto simp: tcp_boot_def conn_ok_def)

lemma tcp_step_inv: "tcp_step s s' \<Longrightarrow> tcp_inv s \<Longrightarrow> tcp_inv s' \<and> next_id s \<le> next_id s'"
proof (induction rule: tcp_step.induct)
  case (s_listen s port r s')
  then show ?case using tcp_listen_ok by blast
next
  case (s_connect s ip port src st r s' st')
  then show ?case using tcp_connect_ok by blast
qed (use tcp_accept_ok tcp_send_ok tcp_recv_ok tcp_close_ok order_refl in metis)+

lemma tcp_steps_inv: "tcp_steps s s' \<Longrightarrow> tcp_inv s \<Longrightarrow> tcp_inv s' \<and> next_id s \<le> next_id s'"
proof (induction rule: tcp_steps.induct)
  case (step s t u)
  then show ?case using tcp_step_inv [OF step(2)] by fastforce
qed simp

text \<open>A connection after a step was there before it with the same id and peer, or has a new id.\<close>

definition kept :: "tcp_table \<Rightarrow> tcp_table \<Rightarrow> bool" where
  "kept s s' \<longleftrightarrow> (\<forall>i<TCP_CONN_MAX. tc_used (conns s' ! i) \<longrightarrow>
     tc_used (conns s ! i) \<and> tc_id (conns s' ! i) = tc_id (conns s ! i) \<and> tc_peer_id (conns s' ! i) = tc_peer_id (conns s ! i) \<or>
     next_id s \<le> tc_id (conns s' ! i))"

lemma kept_refl [simp]: "kept s s"
  by (simp add: kept_def)

lemma kept_upd:
  "(tc_used (f (conns s ! i)) \<Longrightarrow> tc_used (conns s ! i) \<and> tc_id (f (conns s ! i)) = tc_id (conns s ! i) \<and>
     tc_peer_id (f (conns s ! i)) = tc_peer_id (conns s ! i)) \<Longrightarrow> i < length (conns s) \<Longrightarrow> kept s (upd_conn i f s)"
  by (auto simp: kept_def upd_conn_def nth_list_update)

lemma tcp_step_kept:
  assumes "tcp_step s s'" "tcp_inv s"
  shows "kept s s'"
  using assms
proof (induction rule: tcp_step.induct)
  case (s_listen s port r s')
  show ?case
  proof (cases "alloc_conn s")
    case None
    then show ?thesis using s_listen by (simp add: tcp_listen_def)
  next
    case (Some x)
    then obtain i s1 where a: "alloc_conn s = Some (i, s1)" by (cases x) auto
    note d = alloc_conn_SomeD [OF a tcp_invD(1,2) [OF s_listen(3)] s_listen(1)]
    have "conns s' = (conns s)[i := (claim_conn (next_id s) (conns s ! i))\<lparr>tc_state := TCP_LISTEN, tc_local_ip := 0, tc_local_port := port\<rparr>]"
      using s_listen(2) a d tcp_invD(1) [OF s_listen(3)] by (auto simp: tcp_listen_def upd_conn_def)
    then show ?thesis using d(1) tcp_invD(1) [OF s_listen(3)] by (auto simp: kept_def nth_list_update claim_conn_def)
  qed
next
  case (s_connect s ip port src st r s' st')
  from s_connect(3,1,2) show ?case
  proof (cases rule: tcp_connect_cases)
    case (no_room i)
    then show ?thesis using tcp_invD(1) [OF s_connect(3)] by (auto simp: kept_def nth_list_update drop_conn_def)
  next
    case (made i j)
    then show ?thesis
      using tcp_invD(1) [OF s_connect(3)] by (auto simp: kept_def nth_list_update client_conn_def server_conn_def claim_conn_def)
  qed simp
next
  case (s_accept port s r s')
  then show ?case by (auto simp: tcp_accept_def Let_def dest: first_idx_SomeD intro!: kept_upd split: option.splits)
next
  case (s_send cid payload len s n s')
  from s_send(2,1) show ?case
  proof (cases rule: tcp_send_cases)
    case (sent i j data)
    then show ?thesis using find_by_id_iff [OF s_send(2)] tcp_invD(1) [OF s_send(2)] by (auto simp: stored_def intro!: kept_upd)
  qed simp
next
  case (s_recv cid ok cap s n out s')
  then show ?case
    using find_by_id_iff [OF s_recv(2)] tcp_invD(1) [OF s_recv(2)]
    by (auto simp: tcp_recv_def Let_def intro!: kept_upd split: option.splits if_splits)
next
  case (s_close cid s r s')
  then show ?case
    using find_by_id_iff [OF s_close(2)] tcp_invD(1) [OF s_close(2)] by (auto simp: tcp_close_def intro!: kept_upd split: option.splits)
qed

lemma kept_trans: "kept s t \<Longrightarrow> kept t u \<Longrightarrow> next_id s \<le> next_id t \<Longrightarrow> kept s u"
  unfolding kept_def by (metis order_trans)

lemma tcp_steps_kept: "tcp_steps s s' \<Longrightarrow> tcp_inv s \<Longrightarrow> kept s s'"
proof (induction rule: tcp_steps.induct)
  case (step s t u)
  have t: "tcp_inv t" "next_id s \<le> next_id t" using tcp_steps_inv [OF step(1,4)] by simp_all
  show ?case using kept_trans [OF step.IH [OF step(4)] tcp_step_kept [OF step(2) t(1)] t(2)] .
qed simp

text \<open>The same operations with their names and arguments, and sequences of them.\<close>

datatype tcp_op = OListen u16 | OConnect u32 u16 u16 | OAccept u16 | OSend int "u8 list option" u16 | ORecv int bool u16 | OClose int

inductive tcp_does :: "tcp_op \<Rightarrow> tcp_table \<Rightarrow> tcp_table \<Rightarrow> bool" where
  d_listen: "next_id s < 2 ^ 31 - 1 \<Longrightarrow> tcp_listen port s = (r, s') \<Longrightarrow> tcp_does (OListen port) s s'"
| d_connect: "next_id s < 2 ^ 31 - 2 \<Longrightarrow> tcp_connect ip port src s st = (r, s', st') \<Longrightarrow> tcp_does (OConnect ip port src) s s'"
| d_accept: "tcp_accept port s = (r, s') \<Longrightarrow> tcp_does (OAccept port) s s'"
| d_send: "tcp_send cid payload len s = Some (n, s') \<Longrightarrow> tcp_does (OSend cid payload len) s s'"
| d_recv: "tcp_recv cid ok cap s = (n, out, s') \<Longrightarrow> tcp_does (ORecv cid ok cap) s s'"
| d_close: "tcp_close cid s = (r, s') \<Longrightarrow> tcp_does (OClose cid) s s'"

fun tcp_runs :: "tcp_op list \<Rightarrow> tcp_table \<Rightarrow> tcp_table \<Rightarrow> bool" where
  "tcp_runs [] s s' \<longleftrightarrow> s' = s"
| "tcp_runs (op # ops) s s' \<longleftrightarrow> (\<exists>t. tcp_does op s t \<and> tcp_runs ops t s')"

text \<open>Between a send on \<open>x\<close> and the receive on its peer \<open>y\<close>: no further send on \<open>x\<close>, no receive on \<open>y\<close>, and neither is closed.\<close>

definition quiet :: "int \<Rightarrow> int \<Rightarrow> tcp_op \<Rightarrow> bool" where
  "quiet x y op \<longleftrightarrow> (case op of OSend i _ _ \<Rightarrow> i \<noteq> x | ORecv i _ _ \<Rightarrow> i \<noteq> y | OClose i \<Rightarrow> i \<noteq> x \<and> i \<noteq> y | _ \<Rightarrow> True)"

lemma tcp_does_step: "tcp_does op s s' \<Longrightarrow> tcp_step s s'"
  by (induction rule: tcp_does.induct) (rule tcp_step.intros; assumption)+

lemma tcp_does_inv: "tcp_does op s s' \<Longrightarrow> tcp_inv s \<Longrightarrow> tcp_inv s'"
  using tcp_does_step tcp_step_inv by blast

lemma tcp_runs_inv: "tcp_runs ops s s' \<Longrightarrow> tcp_inv s \<Longrightarrow> tcp_inv s'"
  by (induction ops arbitrary: s) (auto dest: tcp_does_inv)

section \<open>Established pairs\<close>

definition tcp_pair :: "tcp_table \<Rightarrow> int \<Rightarrow> int \<Rightarrow> bool" where
  "tcp_pair s c d \<longleftrightarrow> (\<exists>i j. find_by_id c s = Some i \<and> find_by_id d s = Some j \<and> tc_state (conns s ! i) = TCP_ESTABLISHED \<and>
     tc_state (conns s ! j) = TCP_ESTABLISHED \<and> tc_peer_id (conns s ! i) = d \<and> tc_peer_id (conns s ! j) = c)"

lemma find_by_id_upd:
  assumes "tc_used (f (conns s ! j)) = tc_used (conns s ! j)" "tc_id (f (conns s ! j)) = tc_id (conns s ! j)"
  shows "find_by_id c (upd_conn j f s) = find_by_id c s"
  unfolding find_by_id_def using assms
  by (intro first_idx_cong) (auto simp: upd_conn_def nth_update_idx)

text \<open>What an operation that does not close a connection leaves of it.\<close>

definition same_conn :: "tcp_conn \<Rightarrow> tcp_conn \<Rightarrow> bool" where
  "same_conn c c' \<longleftrightarrow> tc_used c' = tc_used c \<and> tc_id c' = tc_id c \<and> tc_peer_id c' = tc_peer_id c \<and>
     (tc_state c = TCP_ESTABLISHED \<longrightarrow> tc_state c' = TCP_ESTABLISHED)"

definition same_data :: "tcp_conn \<Rightarrow> tcp_conn \<Rightarrow> bool" where
  "same_data c c' \<longleftrightarrow> tc_rx_len c' = tc_rx_len c \<and> tc_rx_buf c' = tc_rx_buf c"

lemma same_refl [simp]: "same_conn c c" "same_data c c"
  by (simp_all add: same_conn_def same_data_def)

lemma does_slot:
  assumes "tcp_does op s s'" "tcp_inv s" "find_by_id y s = Some j" "op \<noteq> OClose y"
  shows "same_conn (conns s ! j) (conns s' ! j) \<and> (quiet (tc_peer_id (conns s ! j)) y op \<longrightarrow> same_data (conns s ! j) (conns s' ! j))"
proof -
  have j: "j < TCP_CONN_MAX" "tc_used (conns s ! j)" "tc_id (conns s ! j) = y" "j < length (conns s)"
    using assms(3) find_by_id_iff [OF assms(2)] tcp_invD(1) [OF assms(2)] by simp_all
  from assms(1) show ?thesis
  proof (cases rule: tcp_does.cases)
    case (d_listen port r)
    show ?thesis
    proof (cases "alloc_conn s")
      case None
      then show ?thesis using d_listen by (simp add: tcp_listen_def)
    next
      case (Some x)
      then obtain i s1 where a: "alloc_conn s = Some (i, s1)" by (cases x) auto
      note d = alloc_conn_SomeD [OF a tcp_invD(1,2) [OF assms(2)] d_listen(2)]
      have "i \<noteq> j" using d(2) j(2) by auto
      then have "conns s' ! j = conns s ! j" using d_listen(3) a d(4) by (auto simp: tcp_listen_def upd_conn_def)
      then show ?thesis by simp
    qed
  next
    case (d_connect ip port src st r st')
    from assms(2) d_connect(2,3) have "conns s' ! j = conns s ! j"
    proof (cases rule: tcp_connect_cases)
      case (no_room i)
      then show ?thesis using j(2) by (metis nth_list_update_neq)
    next
      case (made i i')
      then have "i \<noteq> j" "i' \<noteq> j" using j(2) by auto
      then show ?thesis using made(9) by simp
    qed simp
    then show ?thesis by simp
  next
    case (d_accept port r)
    show ?thesis
    proof (cases "first_idx (\<lambda>c. tc_used c \<and> tc_state c = TCP_SYN_RECV \<and> tc_local_port c = port) (conns s)")
      case None
      then show ?thesis using d_accept by (simp add: tcp_accept_def)
    next
      case (Some i)
      then have "s' = upd_conn i (\<lambda>c. c\<lparr>tc_state := TCP_ESTABLISHED\<rparr>) s" using d_accept by (simp add: tcp_accept_def Let_def)
      then show ?thesis using j(4) by (cases "i = j") (simp_all add: same_conn_def same_data_def)
    qed
  next
    case (d_send cid payload len n)
    from assms(2) d_send(2) show ?thesis
    proof (cases rule: tcp_send_cases)
      case (sent i k data)
      show ?thesis
      proof (cases "k = j")
        case True
        have i: "i < TCP_CONN_MAX" "tc_used (conns s ! i)" "tc_id (conns s ! i) = cid" using sent(1) find_by_id_iff [OF assms(2)] by simp_all
        have "tc_peer_id (conns s ! i) = tc_id (conns s ! j)" using sent(3) True j(3) find_by_id_iff [OF assms(2)] by simp
        then have "tc_peer_id (conns s ! j) = cid" using tcp_invD(5) [OF assms(2) i(1) j(1) i(2) j(2)] i(3) by simp
        then show ?thesis using True sent(9) j(4) d_send(1) by (simp add: quiet_def same_conn_def stored_def)
      next
        case False
        then show ?thesis using sent(9) by simp
      qed
    qed simp
  next
    case (d_recv cid ok cap n out)
    show ?thesis
    proof (cases "s' = s")
      case False
      then obtain i where i: "find_by_id cid s = Some i" "s' = upd_conn i (\<lambda>c. c\<lparr>tc_rx_len := 0\<rparr>) s"
        using d_recv(2) by (auto simp: tcp_recv_def Let_def split: option.splits if_splits)
      show ?thesis
      proof (cases "i = j")
        case True
        then have "cid = y" using i(1) assms(3) find_by_id_iff [OF assms(2)] by simp
        then show ?thesis using True i(2) j(4) d_recv(1) by (simp add: quiet_def same_conn_def)
      next
        case False
        then show ?thesis using i(2) by simp
      qed
    qed simp
  next
    case (d_close cid r)
    show ?thesis
    proof (cases "find_by_id cid s")
      case None
      then show ?thesis using d_close by (simp add: tcp_close_def)
    next
      case (Some i)
      have "cid \<noteq> y" using assms(4) d_close(1) by simp
      then have "i \<noteq> j" using Some assms(3) find_by_id_iff [OF assms(2)] by auto
      then show ?thesis using Some d_close by (auto simp: tcp_close_def)
    qed
  qed
qed

lemma runs_slot:
  "tcp_runs ops s s' \<Longrightarrow> tcp_inv s \<Longrightarrow> find_by_id y s = Some j \<Longrightarrow> OClose y \<notin> set ops \<Longrightarrow>
    find_by_id y s' = Some j \<and> same_conn (conns s ! j) (conns s' ! j) \<and>
    ((\<forall>op\<in>set ops. quiet (tc_peer_id (conns s ! j)) y op) \<longrightarrow> same_data (conns s ! j) (conns s' ! j))"
proof (induction ops arbitrary: s)
  case (Cons op ops)
  obtain t where t: "tcp_does op s t" "tcp_runs ops t s'" using Cons.prems(1) by auto
  have inv: "tcp_inv t" using tcp_does_inv [OF t(1) Cons.prems(2)] .
  have d: "same_conn (conns s ! j) (conns t ! j)" "quiet (tc_peer_id (conns s ! j)) y op \<Longrightarrow> same_data (conns s ! j) (conns t ! j)"
    using does_slot [OF t(1) Cons.prems(2,3)] Cons.prems(4) by auto
  have f: "find_by_id y t = Some j"
    using Cons.prems(3) d(1) by (auto simp: find_by_id_iff [OF inv] find_by_id_iff [OF Cons.prems(2)] same_conn_def)
  show ?case using Cons.IH [OF t(2) inv f] Cons.prems(4) d by (auto simp: same_conn_def same_data_def)
qed simp

lemma runs_pair:
  assumes "tcp_runs ops s s'" "tcp_inv s" "tcp_pair s c d" "OClose c \<notin> set ops" "OClose d \<notin> set ops"
  shows "tcp_pair s' c d"
proof -
  obtain i j where p: "find_by_id c s = Some i" "find_by_id d s = Some j" "tc_state (conns s ! i) = TCP_ESTABLISHED"
     "tc_state (conns s ! j) = TCP_ESTABLISHED" "tc_peer_id (conns s ! i) = d" "tc_peer_id (conns s ! j) = c"
    using assms(3) by (auto simp: tcp_pair_def)
  show ?thesis
    using runs_slot [OF assms(1,2) p(1) assms(4)] runs_slot [OF assms(1,2) p(2) assms(5)] p(3-6) by (auto simp: tcp_pair_def same_conn_def)
qed

lemma tcp_pair_sym: "tcp_pair s c d \<longleftrightarrow> tcp_pair s d c"
  by (auto simp: tcp_pair_def)

text \<open>A send over a pair succeeds, stores the front of the data with the peer and changes nothing else.\<close>

lemma pair_send:
  assumes "tcp_inv s" "tcp_pair s c d" "len \<noteq> 0" "unat len \<le> length data"
  obtains j s' where "tcp_send c (Some data) len s = Some (int (min (unat len) TCP_BUF_MAX), s')" "find_by_id d s = Some j"
    "s' = upd_conn j (stored data len) s" "tcp_inv s'" "tcp_pair s' c d"
proof -
  obtain i j where p: "find_by_id c s = Some i" "find_by_id d s = Some j" "tc_state (conns s ! i) = TCP_ESTABLISHED"
     "tc_state (conns s ! j) = TCP_ESTABLISHED" "tc_peer_id (conns s ! i) = d" "tc_peer_id (conns s ! j) = c"
    using assms(2) by (auto simp: tcp_pair_def)
  define m where "m = (if len > of_nat TCP_BUF_MAX then of_nat TCP_BUF_MAX else len)"
  have um: "unat m = min (unat len) TCP_BUF_MAX" unfolding m_def by (rule send_len)
  have fit: "unat m \<le> length data" using assms(4) um by simp
  let ?s = "upd_conn j (stored data len) s"
  have snd: "tcp_send c (Some data) len s = Some (int (min (unat len) TCP_BUF_MAX), ?s)"
    using p assms(3) fit um unfolding tcp_send_def Let_def m_def [symmetric] by (simp add: stored_def [abs_def] m_def [symmetric])
  have inv: "tcp_inv ?s" using tcp_send_ok [OF assms(1) snd] by simp
  have f: "find_by_id x ?s = find_by_id x s" for x by (rule find_by_id_upd) (simp_all add: stored_def)
  have j: "j < length (conns s)" using p(2) find_by_id_iff [OF assms(1)] tcp_invD(1) [OF assms(1)] by simp
  have "tc_state (conns ?s ! k) = tc_state (conns s ! k) \<and> tc_peer_id (conns ?s ! k) = tc_peer_id (conns s ! k)" for k
    using j by (cases "k = j") (simp_all add: stored_def)
  then have "tcp_pair ?s c d" using p f by (simp add: tcp_pair_def)
  then show thesis using that snd p(2) inv by blast
qed

lemma pair_recv:
  assumes "tcp_inv s" "find_by_id d s = Some j" "tc_state (conns s ! j) = TCP_ESTABLISHED"
    "conn_ok n c" "conns s ! j = stored data len c" "unat len \<le> length data" "len \<noteq> 0"
    "tcp_recv d True cap s = (m, out, s')"
  shows "out = take (unat cap) (take TCP_BUF_MAX (take (unat len) data))" "m = int (length out)"
proof -
  have fit: "min (unat len) TCP_BUF_MAX \<le> length data" using assms(6) by simp
  note st = stored_ok [OF assms(4) fit, folded assms(5)]
  let ?c = "conns s ! j"
  have nz: "tc_rx_len ?c \<noteq> 0" using st(3) assms(7) by (auto simp: word_unat_eq_iff TCP_BUF_MAX_def min_def split: if_splits)
  have k: "unat (if tc_rx_len ?c < cap then tc_rx_len ?c else cap) = min (unat (tc_rx_len ?c)) (unat cap)"
    by (simp add: word_less_nat_alt)
  have r: "m = int (unat (if tc_rx_len ?c < cap then tc_rx_len ?c else cap))"
    "out = take (unat (if tc_rx_len ?c < cap then tc_rx_len ?c else cap)) (tc_rx_buf ?c)"
    using assms(2,3,8) nz by (simp_all add: tcp_recv_def Let_def)
  have "out = take (unat cap) (take (unat (tc_rx_len ?c)) (tc_rx_buf ?c))" using r(2) unfolding k by (simp add: min.commute)
  then show o: "out = take (unat cap) (take TCP_BUF_MAX (take (unat len) data))"
    using st(2) by (simp add: min.commute)
  show "m = int (length out)" using r(1) st(3) assms(6) unfolding o k by (simp add: min.commute)
qed

lemma connect_accept_pair:
  assumes "tcp_inv s" "next_id s < 2 ^ 31 - 2" "tcp_connect ip port src s st = (c, s1, st1)" "c \<noteq> NM_ERR NM_EFAIL"
    and pend: "\<And>i. i < TCP_CONN_MAX \<Longrightarrow> tc_used (conns s ! i) \<Longrightarrow> \<not> (tc_state (conns s ! i) = TCP_SYN_RECV \<and> tc_local_port (conns s ! i) = port)"
    and "tcp_accept port s1 = (a, s2)"
  shows "a = c + 1" "tcp_pair s2 c a" "tcp_inv s2"
proof -
  have inv1: "tcp_inv s1" using tcp_connect_ok [OF assms(1-3)] by simp
  show inv2: "tcp_inv s2" using tcp_accept_ok [OF inv1 assms(6)] by simp
  from assms(1-3) have "a = c + 1 \<and> tcp_pair s2 c a"
  proof (cases rule: tcp_connect_cases)
    case (made i j)
    have len: "length (conns s) = TCP_CONN_MAX" "length (conns s1) = TCP_CONN_MAX" using tcp_invD(1) assms(1) inv1 by simp_all
    let ?c = "client_conn (next_id s) ip port src (conns s ! i)" and ?d = "server_conn (next_id s) ip port src (conns s ! j)"
    have nth: "conns s1 ! i = ?c" "conns s1 ! j = ?d" "\<And>k. k \<noteq> i \<Longrightarrow> k \<noteq> j \<Longrightarrow> conns s1 ! k = conns s ! k"
      using len made(2,3,4,9) by simp_all
    have f: "tc_used ?c" "tc_used ?d" "tc_id ?c = c" "tc_peer_id ?c = c + 1" "tc_id ?d = c + 1" "tc_peer_id ?d = c"
      "tc_state ?c = TCP_ESTABLISHED" "tc_state ?d = TCP_SYN_RECV" "tc_local_port ?d = port"
      using made(1) by (simp_all add: client_conn_def server_conn_def claim_conn_def)
    let ?P = "\<lambda>c. tc_used c \<and> tc_state c = TCP_SYN_RECV \<and> tc_local_port c = port"
    have only: "?P (conns s1 ! k) \<longleftrightarrow> k = j" if "k < TCP_CONN_MAX" for k
      using pend [OF that] nth f made(4) by (cases "k = i"; cases "k = j") auto
    have "first_idx ?P (conns s1) = Some j"
      using only made(3) len(2) by (auto simp: first_idx_Some_iff)
    then have s2: "s2 = upd_conn j (\<lambda>c. c\<lparr>tc_state := TCP_ESTABLISHED\<rparr>) s1" "a = tc_id (conns s2 ! j)"
      using assms(6) by (auto simp: tcp_accept_def Let_def)
    have n2: "conns s2 ! i = ?c" "conns s2 ! j = ?d\<lparr>tc_state := TCP_ESTABLISHED\<rparr>"
      using s2(1) nth made(2,3,4) len(2) by simp_all
    have "find_by_id c s2 = Some i" "find_by_id (c + 1) s2 = Some j"
      using made(2,3) n2 f by (simp_all add: find_by_id_iff [OF inv2])
    then show ?thesis using s2(2) n2 f by (simp add: tcp_pair_def)
  qed (use assms(4) in simp_all)
  then show "a = c + 1" "tcp_pair s2 c a" by blast+
qed

text \<open>What a connect leaves: the two ends know each other, the client is established and the server waits.\<close>

lemma connect_ends:
  assumes "tcp_inv s" "next_id s < 2 ^ 31 - 2" "tcp_connect ip port src s st = (c, s1, st1)" "c \<noteq> NM_ERR NM_EFAIL"
  obtains i j where "find_by_id c s1 = Some i" "find_by_id (c + 1) s1 = Some j" "tc_state (conns s1 ! i) = TCP_ESTABLISHED"
    "tc_peer_id (conns s1 ! i) = c + 1" "tc_peer_id (conns s1 ! j) = c" "tcp_inv s1"
proof -
  have inv1: "tcp_inv s1" using tcp_connect_ok [OF assms(1-3)] by simp
  from assms(1-3) show thesis
  proof (cases rule: tcp_connect_cases)
    case (made i j)
    have nth: "conns s1 ! i = client_conn (next_id s) ip port src (conns s ! i)" "conns s1 ! j = server_conn (next_id s) ip port src (conns s ! j)"
      using made(2-4,9) tcp_invD(1) [OF assms(1)] by simp_all
    have "find_by_id c s1 = Some i" "find_by_id (c + 1) s1 = Some j"
      using made(1-3) nth by (simp_all add: find_by_id_iff [OF inv1] client_conn_def server_conn_def claim_conn_def)
    then show thesis using that inv1 nth made(1) by (simp add: client_conn_def server_conn_def)
  qed (use assms(4) in simp_all)
qed

lemma accept_established:
  assumes "tcp_inv s" "tcp_accept port s = (a, s')" "find_by_id a s = Some j" "a \<noteq> NM_ERR NM_EFAIL"
  shows "tc_state (conns s' ! j) = TCP_ESTABLISHED"
proof (cases "first_idx (\<lambda>c. tc_used c \<and> tc_state c = TCP_SYN_RECV \<and> tc_local_port c = port) (conns s)")
  case None
  then show ?thesis using assms(2,4) by (simp add: tcp_accept_def)
next
  case (Some i)
  then have s': "s' = upd_conn i (\<lambda>c. c\<lparr>tc_state := TCP_ESTABLISHED\<rparr>) s" "a = tc_id (conns s' ! i)"
    using assms(2) by (auto simp: tcp_accept_def Let_def)
  have i: "i < TCP_CONN_MAX" "tc_used (conns s ! i)" "i < length (conns s)" using first_idx_SomeD [OF Some] tcp_invD(1) [OF assms(1)] by simp_all
  then have "find_by_id a s = Some i" using s' by (simp add: find_by_id_iff [OF assms(1)])
  then show ?thesis using assms(3) s'(1) i(3) by simp
qed

text \<open>A message over a pair is there until it is read.\<close>

lemma pair_delivers:
  assumes "tcp_inv s" "tcp_pair s x y" "len \<noteq> 0" "unat len \<le> length data"
  shows "\<exists>s1. tcp_send x (Some data) len s = Some (int (min (unat len) TCP_BUF_MAX), s1) \<and>
    (\<forall>ops s2 cap. tcp_runs ops s1 s2 \<longrightarrow> (\<forall>op\<in>set ops. quiet x y op) \<longrightarrow>
      (\<exists>s3. tcp_recv y True cap s2 = (int (length (take (unat cap) (take TCP_BUF_MAX (take (unat len) data)))),
         take (unat cap) (take TCP_BUF_MAX (take (unat len) data)), s3)))"
proof -
  obtain j s1 where snd: "tcp_send x (Some data) len s = Some (int (min (unat len) TCP_BUF_MAX), s1)" "find_by_id y s = Some j"
    "s1 = upd_conn j (stored data len) s" "tcp_inv s1" "tcp_pair s1 x y"
    by (rule pair_send [OF assms(1-4)])
  have j: "j < TCP_CONN_MAX" "j < length (conns s)" using snd(2) find_by_id_iff [OF assms(1)] tcp_invD(1) [OF assms(1)] by simp_all
  have f1: "find_by_id y s1 = Some j" using snd(2,3) find_by_id_upd [of "stored data len" s j y] by (simp add: stored_def)
  have e1: "tc_state (conns s1 ! j) = TCP_ESTABLISHED" "tc_peer_id (conns s1 ! j) = x" using snd(5) f1 by (auto simp: tcp_pair_def)
  have nth: "conns s1 ! j = stored data len (conns s ! j)" using snd(3) j(2) by simp
  have "\<exists>s3. tcp_recv y True cap s2 = (int (length (take (unat cap) (take TCP_BUF_MAX (take (unat len) data)))),
      take (unat cap) (take TCP_BUF_MAX (take (unat len) data)), s3)"
    if r: "tcp_runs ops s1 s2" and q: "\<forall>op\<in>set ops. quiet x y op" for ops s2 cap
  proof -
    have "OClose y \<notin> set ops" using q by (auto simp: quiet_def)
    note sl = runs_slot [OF r snd(4) f1 this, unfolded e1(2)]
    have inv2: "tcp_inv s2" by (rule tcp_runs_inv [OF r snd(4)])
    let ?c = "(conns s2 ! j)\<lparr>tc_rx_buf := tc_rx_buf (conns s ! j), tc_rx_len := tc_rx_len (conns s ! j)\<rparr>"
    have sd: "same_data (conns s1 ! j) (conns s2 ! j)" "same_conn (conns s1 ! j) (conns s2 ! j)" "find_by_id y s2 = Some j" using sl q by auto
    have "conns s2 ! j = stored data len ?c" using sd(1) by (cases "conns s2 ! j") (simp add: same_data_def nth stored_def)
    moreover have "conn_ok (next_id s2) ?c"
      using tcp_invD(3) [OF inv2 j(1)] tcp_invD(3) [OF assms(1) j(1)] snd(2) find_by_id_iff [OF assms(1)] by (auto simp: conn_ok_def)
    moreover have "tc_state (conns s2 ! j) = TCP_ESTABLISHED" using sd(2) e1(1) by (simp add: same_conn_def)
    moreover obtain m out s3 where rv: "tcp_recv y True cap s2 = (m, out, s3)" by (metis prod_cases3)
    ultimately show ?thesis using pair_recv [OF inv2 sd(3) _ _ _ assms(4,3) rv] by auto
  qed
  then show ?thesis using snd(1) by blast
qed

section \<open>Properties\<close>

text \<open>
  C20: connection ids. Whatever sequence of operations has run since boot, the ids of the connections in
  use are positive and distinct, no receive buffer holds more than 2048 bytes, and when a connection in
  use names another one in use as its peer, that one names it back: no connection can hear from two.
\<close>
theorem tcp_consistent:
  assumes "tcp_boot s0" "tcp_steps s0 s"
  shows "(\<forall>i<TCP_CONN_MAX. tc_used (conns s ! i) \<longrightarrow> 0 < tc_id (conns s ! i) \<and> unat (tc_rx_len (conns s ! i)) \<le> TCP_BUF_MAX) \<and>
    (\<forall>i<TCP_CONN_MAX. \<forall>j<TCP_CONN_MAX. tc_used (conns s ! i) \<longrightarrow> tc_used (conns s ! j) \<longrightarrow>
       (tc_id (conns s ! i) = tc_id (conns s ! j) \<longrightarrow> i = j) \<and>
       (tc_peer_id (conns s ! i) = tc_id (conns s ! j) \<longrightarrow> tc_peer_id (conns s ! j) = tc_id (conns s ! i)))"
proof -
  have inv: "tcp_inv s" using tcp_steps_inv [OF assms(2) tcp_boot_inv [OF assms(1)]] by simp
  have "0 < tc_id (conns s ! i) \<and> unat (tc_rx_len (conns s ! i)) \<le> TCP_BUF_MAX" if "i < TCP_CONN_MAX" "tc_used (conns s ! i)" for i
    using tcp_invD(3) [OF inv that(1)] that(2) by (simp add: conn_ok_def)
  then show ?thesis using tcp_invD(4,5) [OF inv] by blast
qed

definition demo_tcp :: tcp_table where
  "demo_tcp = \<lparr>conns = replicate TCP_CONN_MAX \<lparr>tc_used = False, tc_id = 0, tc_state = TCP_CLOSED, tc_local_ip = 0, tc_local_port = 0,
     tc_peer_ip = 0, tc_peer_port = 0, tc_peer_id = 0, tc_rx_len = 0, tc_rx_buf = replicate TCP_BUF_MAX 0\<rparr>, next_id = 1\<rparr>"

lemma demo_tcp_boot: "tcp_boot demo_tcp"
  by (simp add: tcp_boot_def demo_tcp_def)

lemma demo_listen:
  "tcp_listen 80 demo_tcp = (1, snd (tcp_listen 80 demo_tcp))" "tcp_steps demo_tcp (snd (tcp_listen 80 demo_tcp))"
  "next_id (snd (tcp_listen 80 demo_tcp)) = 2"
proof -
  have two: "s32 2 = 2" by (intro s32_id) auto
  have a: "alloc_conn demo_tcp = Some (0, (upd_conn 0 (claim_conn 1) demo_tcp)\<lparr>next_id := 2\<rparr>)"
    by (simp add: alloc_conn_def demo_tcp_def first_idx_replicate TCP_CONN_MAX_def two)
  have len: "length (conns demo_tcp) = 64" by (simp add: demo_tcp_def TCP_CONN_MAX_def)
  show l: "tcp_listen 80 demo_tcp = (1, snd (tcp_listen 80 demo_tcp))" "next_id (snd (tcp_listen 80 demo_tcp)) = 2"
    using len by (simp_all add: tcp_listen_def a Let_def upd_conn_def claim_conn_def)
  show "tcp_steps demo_tcp (snd (tcp_listen 80 demo_tcp))"
    using l(1) by (intro tcp_steps.step [OF tcp_steps.refl tcp_step.s_listen [of _ 80 1]]) (simp_all add: demo_tcp_def)
qed

theorem tcp_consistent_witness:
  "\<exists>s. tcp_steps demo_tcp s \<and> tcp_listen 80 demo_tcp = (1, s) \<and>
     (\<forall>i<TCP_CONN_MAX. \<forall>j<TCP_CONN_MAX. tc_used (conns s ! i) \<longrightarrow> tc_used (conns s ! j) \<longrightarrow> tc_id (conns s ! i) = tc_id (conns s ! j) \<longrightarrow> i = j)"
  using tcp_consistent [OF demo_tcp_boot demo_listen(2)] demo_listen by blast


text \<open>
  C23: data sent over a connection arrives, in both directions. Take any state of the table, a successful connect to a
  port, later an accept that returns the server's end, and any operations in between and afterwards that
  close neither end. Then a send on either end succeeds for the first 2048 bytes of the data, and after any
  further operations that do not send on that end, receive on the other or close one of them, the receive
  on the other end returns exactly these bytes, cut to its capacity. There is room for one message in each
  direction: another send before the receive replaces it. When no other connection waits at the port, the
  accept that follows the connect at once returns the server's end.
\<close>
theorem tcp_end_to_end:
  assumes "tcp_boot s0" "tcp_steps s0 s" "next_id s < 2 ^ 31 - 2" "tcp_connect ip port src s st = (c, s1, st1)" "c \<noteq> NM_ERR NM_EFAIL"
    and "tcp_runs ops1 s1 s2" "OClose c \<notin> set ops1" "OClose (c + 1) \<notin> set ops1" "tcp_accept lport s2 = (c + 1, s3)"
    and "tcp_runs ops2 s3 s4" "OClose c \<notin> set ops2" "OClose (c + 1) \<notin> set ops2"
    and "(x, y) \<in> {(c, c + 1), (c + 1, c)}" "unat len \<le> length data" "len \<noteq> 0"
  shows "(\<exists>s5. tcp_send x (Some data) len s4 = Some (int (min (unat len) TCP_BUF_MAX), s5) \<and>
      (\<forall>ops3 s6 cap. tcp_runs ops3 s5 s6 \<longrightarrow> (\<forall>op\<in>set ops3. quiet x y op) \<longrightarrow>
        (\<exists>s7. tcp_recv y True cap s6 = (int (length (take (unat cap) (take TCP_BUF_MAX (take (unat len) data)))),
           take (unat cap) (take TCP_BUF_MAX (take (unat len) data)), s7)))) \<and>
    ((\<forall>i<TCP_CONN_MAX. tc_used (conns s ! i) \<longrightarrow> \<not> (tc_state (conns s ! i) = TCP_SYN_RECV \<and> tc_local_port (conns s ! i) = port)) \<longrightarrow>
      fst (tcp_accept port s1) = c + 1)"
proof -
  have inv: "tcp_inv s" using tcp_steps_inv [OF assms(2) tcp_boot_inv [OF assms(1)]] by simp
  obtain i j where e: "find_by_id c s1 = Some i" "find_by_id (c + 1) s1 = Some j" "tc_state (conns s1 ! i) = TCP_ESTABLISHED"
    "tc_peer_id (conns s1 ! i) = c + 1" "tc_peer_id (conns s1 ! j) = c" "tcp_inv s1"
    by (rule connect_ends [OF inv assms(3-5)])
  have inv2: "tcp_inv s2" by (rule tcp_runs_inv [OF assms(6) e(6)])
  have ac: "tcp_runs (ops1 @ [OAccept lport]) s1 s3"
  proof -
    have "tcp_runs ops1 a b \<Longrightarrow> tcp_does op b d \<Longrightarrow> tcp_runs (ops1 @ [op]) a d" for a b d op by (induction ops1 arbitrary: a) auto
    then show ?thesis using assms(6) d_accept [OF assms(9)] by blast
  qed
  have "j < TCP_CONN_MAX" "tc_used (conns s1 ! j)" "tc_id (conns s1 ! j) = c + 1" using e(2) by (simp_all add: find_by_id_iff [OF e(6)])
  then have pos: "0 < c + 1" using tcp_invD(3) [OF e(6), of j] by (simp add: conn_ok_def)
  have "find_by_id (c + 1) s2 = Some j" using runs_slot [OF assms(6) e(6,2) assms(8)] by simp
  from accept_established [OF inv2 assms(9) this] have "tc_state (conns s3 ! j) = TCP_ESTABLISHED" using pos by simp
  then have "tcp_pair s3 c (c + 1)"
    using runs_slot [OF ac e(6,1)] runs_slot [OF ac e(6,2)] assms(7,8) e(3-5) by (auto simp: tcp_pair_def same_conn_def)
  from runs_pair [OF assms(10) tcp_runs_inv [OF ac e(6)] this assms(11,12)] have "tcp_pair s4 x y"
    using assms(13) tcp_pair_sym by auto
  moreover have "tcp_inv s4" using tcp_runs_inv [OF assms(10) tcp_runs_inv [OF ac e(6)]] .
  moreover have "fst (tcp_accept port s1) = c + 1"
    if "\<forall>i<TCP_CONN_MAX. tc_used (conns s ! i) \<longrightarrow> \<not> (tc_state (conns s ! i) = TCP_SYN_RECV \<and> tc_local_port (conns s ! i) = port)"
    using connect_accept_pair(1) [OF inv assms(3-5), of "fst (tcp_accept port s1)" "snd (tcp_accept port s1)"] that by simp
  ultimately show ?thesis using pair_delivers [OF _ _ assms(15,14)] by blast
qed

text \<open>The connection of the demonstration: port 80 listens, port 5000 connects, the connection is accepted.\<close>

definition demo_conn :: tcp_conn where
  "demo_conn = conns demo_tcp ! 0"

definition demo_listening :: tcp_table where
  "demo_listening = snd (tcp_listen 80 demo_tcp)"

lemma demo_listening:
  "conns demo_listening = (claim_conn 1 demo_conn)\<lparr>tc_state := TCP_LISTEN, tc_local_ip := 0, tc_local_port := 80\<rparr> # replicate 63 demo_conn"
  "\<not> tc_used demo_conn" "next_id demo_listening = 2" "tcp_steps demo_tcp demo_listening"
proof -
  show u: "\<not> tc_used demo_conn" by (simp add: demo_conn_def demo_tcp_def TCP_CONN_MAX_def)
  have r: "conns demo_tcp = demo_conn # replicate 63 demo_conn"
    by (simp add: demo_conn_def demo_tcp_def TCP_CONN_MAX_def replicate_Suc [symmetric] del: replicate_Suc)
  have "next_id demo_tcp = 1" by (simp add: demo_tcp_def)
  then show "conns demo_listening = (claim_conn 1 demo_conn)\<lparr>tc_state := TCP_LISTEN, tc_local_ip := 0, tc_local_port := 80\<rparr> # replicate 63 demo_conn"
    using u by (simp add: demo_listening_def tcp_listen_def alloc_conn_def r upd_conn_def Let_def)
qed (use demo_listen(2,3) in \<open>simp_all add: demo_listening_def\<close>)

lemma demo_connect:
  "fst (tcp_connect 0x0A000001 80 5000 demo_listening zero_stats) \<noteq> - 1"
proof -
  have "find_listener 80 demo_listening = Some 0"
    by (simp add: find_listener_def demo_listening(1) claim_conn_def)
  moreover have "first_idx (\<lambda>c. \<not> tc_used c) (replicate 63 demo_conn) = Some 0"
    using demo_listening(2) by (simp add: first_idx_replicate)
  then have "alloc_conn demo_listening = Some (1, (upd_conn 1 (claim_conn 2) demo_listening)\<lparr>next_id := s32 3\<rparr>)"
    using demo_listening by (simp add: alloc_conn_def claim_conn_def)
  moreover have "\<exists>x. alloc_conn ((upd_conn 1 (claim_conn 2) demo_listening)\<lparr>next_id := s32 3\<rparr>) = Some x"
  proof -
    have "conns (upd_conn 1 (claim_conn 2) demo_listening) ! 2 = demo_conn" "2 < length (conns (upd_conn 1 (claim_conn 2) demo_listening))"
      using demo_listening(1) by simp_all
    then obtain j where "first_idx (\<lambda>c. \<not> tc_used c) (conns (upd_conn 1 (claim_conn 2) demo_listening)) = Some j"
      using demo_listening(2) first_idx_ex [of 2 "conns (upd_conn 1 (claim_conn 2) demo_listening)" "\<lambda>c. \<not> tc_used c"] by auto
    then show ?thesis by (simp add: alloc_conn_def)
  qed
  moreover have inv: "tcp_inv demo_listening" using tcp_steps_inv [OF demo_listening(4) tcp_boot_inv [OF demo_tcp_boot]] by simp
  obtain c s1 st1 where t: "tcp_connect 0x0A000001 80 5000 demo_listening zero_stats = (c, s1, st1)" by (metis prod_cases3)
  moreover have "next_id demo_listening < 2 ^ 31 - 2" by (simp add: demo_listening(3))
  ultimately show ?thesis
    using demo_listening(3) by (cases rule: tcp_connect_cases [OF inv _ t]) (auto simp: tcp_connect_def Let_def net_stats_note_tcp_conn_def zero_stats_def)
qed

lemma demo_no_pending:
  "\<forall>i<TCP_CONN_MAX. tc_used (conns demo_listening ! i) \<longrightarrow> \<not> (tc_state (conns demo_listening ! i) = TCP_SYN_RECV \<and> tc_local_port (conns demo_listening ! i) = 80)"
  by (auto simp: demo_listening nth_Cons' TCP_CONN_MAX_def)

text \<open>Both directions of the same connection: the client sends two bytes, the server answers with three, and both are read.\<close>

theorem tcp_end_to_end_witness:
  "\<exists>c s1 st1 s2 s3 s4 s5 s6. tcp_connect 0x0A000001 80 5000 demo_listening zero_stats = (c, s1, st1) \<and> tcp_accept 80 s1 = (c + 1, s2) \<and>
     tcp_send c (Some [7, 8]) 2 s2 = Some (2, s3) \<and> tcp_send (c + 1) (Some [1, 2, 3]) 3 s3 = Some (3, s4) \<and>
     tcp_recv (c + 1) True 512 s4 = (2, [7, 8], s5) \<and> tcp_recv c True 512 s4 = (3, [1, 2, 3], s6)"
proof -
  obtain c s1 st1 where t: "tcp_connect 0x0A000001 80 5000 demo_listening zero_stats = (c, s1, st1)" by (metis prod_cases3)
  have c: "c \<noteq> NM_ERR NM_EFAIL" using demo_connect t by simp
  obtain a s2 where ac: "tcp_accept 80 s1 = (a, s2)" by (metis prod.exhaust)
  have n: "next_id demo_listening < 2 ^ 31 - 2" by (simp add: demo_listening(3))
  have inv: "tcp_inv demo_listening" using tcp_steps_inv [OF demo_listening(4) tcp_boot_inv [OF demo_tcp_boot]] by simp
  have a: "a = c + 1" using connect_accept_pair(1) [OF inv n t c _ ac] demo_no_pending by blast
  note th = tcp_end_to_end [OF demo_tcp_boot demo_listening(4) n t c, of "[]" s1 80 s2]
  have "(c, c + 1) \<in> {(c, c + 1), (c + 1, c)}" "(c + 1, c) \<in> {(c, c + 1), (c + 1, c)}" by simp_all
  from th [of "[]" s2, OF _ _ _ _ _ _ _ this(1), of 2 "[7, 8]", THEN conjunct1] obtain s3 where
    s3: "tcp_send c (Some [7, 8]) 2 s2 = Some (2, s3)"
      "\<And>ops s6 cap. tcp_runs ops s3 s6 \<Longrightarrow> \<forall>op\<in>set ops. quiet c (c + 1) op \<Longrightarrow>
        \<exists>s7. tcp_recv (c + 1) True cap s6 = (int (length (take (unat cap) [7, 8 :: u8])), take (unat cap) [7, 8], s7)"
    using ac a by (auto simp: TCP_BUF_MAX_def)
  have r2: "tcp_runs [OSend c (Some [7, 8]) 2] s2 s3" using s3(1) by (auto intro: d_send)
  from th [of "[OSend c (Some [7, 8]) 2]" s3, OF _ _ _ _ _ _ _ \<open>(c + 1, c) \<in> _\<close>, of 3 "[1, 2, 3]", THEN conjunct1] obtain s4 where
    s4: "tcp_send (c + 1) (Some [1, 2, 3]) 3 s3 = Some (3, s4)"
      "\<And>ops s6 cap. tcp_runs ops s4 s6 \<Longrightarrow> \<forall>op\<in>set ops. quiet (c + 1) c op \<Longrightarrow>
        \<exists>s7. tcp_recv c True cap s6 = (int (length (take (unat cap) [1, 2, 3 :: u8])), take (unat cap) [1, 2, 3], s7)"
    using ac a r2 by (auto simp: TCP_BUF_MAX_def)
  have "tcp_runs [OSend (c + 1) (Some [1, 2, 3]) 3] s3 s4" using s4(1) by (auto intro: d_send)
  from s3(2) [OF this, of 512] obtain s5 where "tcp_recv (c + 1) True 512 s4 = (2, [7, 8], s5)" by (auto simp: quiet_def)
  moreover from s4(2) [of "[]" s4 512] obtain s6 where "tcp_recv c True 512 s4 = (3, [1, 2, 3], s6)" by auto
  ultimately show ?thesis using t ac a s3(1) s4(1) by blast
qed

lemma demo_pair:
  obtains s c d where "tcp_inv s" "tcp_pair s c d"
proof -
  obtain c s1 st1 where t: "tcp_connect 0x0A000001 80 5000 demo_listening zero_stats = (c, s1, st1)" by (metis prod_cases3)
  have c: "c \<noteq> NM_ERR NM_EFAIL" using demo_connect t by simp
  obtain a s2 where ac: "tcp_accept 80 s1 = (a, s2)" by (metis prod.exhaust)
  have inv: "tcp_inv demo_listening" using tcp_steps_inv [OF demo_listening(4) tcp_boot_inv [OF demo_tcp_boot]] by simp
  have "next_id demo_listening < 2 ^ 31 - 2" by (simp add: demo_listening(3))
  from connect_accept_pair(2,3) [OF inv this t c _ ac] show thesis using that demo_no_pending by blast
qed

text \<open>
  a send overwrites what has not been read. Over an established pair two sends in a row both report
  success, and the next receive returns the second message only: the bytes of the first one are lost.
\<close>
theorem tcp_send_overwrites:
  assumes "tcp_inv s" "tcp_pair s c d" "len1 \<noteq> 0" "unat len1 \<le> length data1" "len2 \<noteq> 0" "unat len2 \<le> length data2"
  shows "\<exists>s1 s2 m out s3. tcp_send c (Some data1) len1 s = Some (int (min (unat len1) TCP_BUF_MAX), s1) \<and>
    tcp_send c (Some data2) len2 s1 = Some (int (min (unat len2) TCP_BUF_MAX), s2) \<and>
    tcp_recv d True 65535 s2 = (m, out, s3) \<and> out = take TCP_BUF_MAX (take (unat len2) data2)"
proof -
  obtain j1 s1 where a: "tcp_send c (Some data1) len1 s = Some (int (min (unat len1) TCP_BUF_MAX), s1)" "tcp_inv s1" "tcp_pair s1 c d"
    by (rule pair_send [OF assms(1,2,3,4)]) blast
  obtain j s2 where b: "tcp_send c (Some data2) len2 s1 = Some (int (min (unat len2) TCP_BUF_MAX), s2)" "find_by_id d s1 = Some j"
    "s2 = upd_conn j (stored data2 len2) s1" "tcp_inv s2" "tcp_pair s2 c d"
    by (rule pair_send [OF a(2,3) assms(5,6)])
  have f: "find_by_id d s2 = Some j" using b(2,3) find_by_id_upd [of "stored data2 len2" s1 j d] by (simp add: stored_def)
  have j: "j < TCP_CONN_MAX" "j < length (conns s1)" using b(2) find_by_id_iff [OF a(2)] tcp_invD(1) [OF a(2)] by simp_all
  have est: "tc_state (conns s2 ! j) = TCP_ESTABLISHED" using b(5) f by (auto simp: tcp_pair_def)
  have nth: "conns s2 ! j = stored data2 len2 (conns s1 ! j)" using b(3) j(2) by simp
  obtain m out s3 where r: "tcp_recv d True 65535 s2 = (m, out, s3)" by (metis prod_cases3)
  have "out = take TCP_BUF_MAX (take (unat len2) data2)"
    using pair_recv(1) [OF b(4) f est tcp_invD(3) [OF a(2) j(1)] nth assms(6,5) r] by (simp add: TCP_BUF_MAX_def)
  then show ?thesis using a(1) b(1) r by blast
qed

theorem tcp_send_overwrites_witness:
  "\<exists>s c d s1 s2 m s3. tcp_pair s c d \<and> tcp_send c (Some [1]) 1 s = Some (1, s1) \<and> tcp_send c (Some [2]) 1 s1 = Some (1, s2) \<and>
     tcp_recv d True 65535 s2 = (m, [2], s3)"
proof -
  obtain s c d where p: "tcp_inv s" "tcp_pair s c d" by (rule demo_pair)
  from tcp_send_overwrites [OF p, of 1 "[1]" 1 "[2]"] p(2) show ?thesis by (fastforce simp: TCP_BUF_MAX_def)
qed

text \<open>
  a closed connection stays closed for its peer. After one side of an established pair is closed,
  no sequence of further operations makes a send of the other side succeed: it fails and changes
  nothing, so it never reaches a connection that was opened later in the same slot.
\<close>
theorem tcp_closed_peer_unreachable:
  assumes "tcp_inv s" "tcp_pair s c d" "tcp_close c s = (r, s1)" "tcp_steps s1 s2" "tcp_send d payload len s2 = Some (n, s3)"
  shows "n = NM_ERR NM_EFAIL \<and> s3 = s2"
proof (rule ccontr)
  assume bad: "\<not> ?thesis"
  obtain i j where p: "find_by_id c s = Some i" "find_by_id d s = Some j" "tc_peer_id (conns s ! j) = c"
    using assms(2) by (auto simp: tcp_pair_def)
  have i: "i < TCP_CONN_MAX" "tc_used (conns s ! i)" "tc_id (conns s ! i) = c" using p(1) find_by_id_iff [OF assms(1)] by simp_all
  have j: "j < TCP_CONN_MAX" "tc_used (conns s ! j)" "tc_id (conns s ! j) = d" using p(2) find_by_id_iff [OF assms(1)] by simp_all
  have small: "c < next_id s" "d < next_id s" using tcp_invD(3) [OF assms(1)] i j by (auto simp: conn_ok_def)
  have inv1: "tcp_inv s1" "next_id s1 = next_id s" using tcp_close_ok [OF assms(1,3)] by simp_all
  have inv2: "tcp_inv s2" using tcp_steps_inv [OF assms(4) inv1(1)] by simp
  have k1: "kept s s1" by (rule tcp_step_kept [OF tcp_step.s_close [OF assms(3)] assms(1)])
  have k2: "kept s s2" using kept_trans [OF k1 tcp_steps_kept [OF assms(4) inv1(1)]] inv1(2) by simp
  have gone: "\<not> tc_used (conns s1 ! i)" using assms(3) p(1) i(1) tcp_invD(1) [OF assms(1)] by (auto simp: tcp_close_def)
  from inv2 assms(5) obtain x y where x: "find_by_id d s2 = Some x" and y: "find_by_id (tc_peer_id (conns s2 ! x)) s2 = Some y"
    using bad by (cases rule: tcp_send_cases) auto
  have x': "x < TCP_CONN_MAX" "tc_used (conns s2 ! x)" "tc_id (conns s2 ! x) = d" using x find_by_id_iff [OF inv2] by simp_all
  then have "tc_used (conns s ! x)" "tc_id (conns s ! x) = d" "tc_peer_id (conns s2 ! x) = tc_peer_id (conns s ! x)"
    using k2 small(2) by (auto simp: kept_def)
  then have pc: "tc_peer_id (conns s2 ! x) = c" using tcp_invD(4) [OF assms(1) x'(1) j(1)] j p(3) by auto
  have y': "y < TCP_CONN_MAX" "tc_used (conns s2 ! y)" "tc_id (conns s2 ! y) = c" using y pc find_by_id_iff [OF inv2] by simp_all
  have "tc_used (conns s1 ! y)" "tc_id (conns s1 ! y) = c"
    using tcp_steps_kept [OF assms(4) inv1(1)] y' small(1) inv1(2) by (auto simp: kept_def)
  then have "tc_used (conns s ! y)" "tc_id (conns s ! y) = c" using k1 y'(1) small(1) by (auto simp: kept_def)
  then have "y = i" using tcp_invD(4) [OF assms(1) y'(1) i(1)] i by simp
  then show False using gone \<open>tc_used (conns s1 ! y)\<close> by simp
qed


theorem tcp_closed_peer_unreachable_witness:
  "\<exists>s c d r s1. tcp_pair s c d \<and> tcp_close c s = (r, s1) \<and> tcp_send d (Some [1]) 1 s1 = Some (- 1, s1)"
proof -
  obtain s c d where p: "tcp_inv s" "tcp_pair s c d" by (rule demo_pair)
  obtain r s1 where cl: "tcp_close c s = (r, s1)" by (metis prod.exhaust)
  have "\<exists>x. tcp_send d (Some [1]) 1 s1 = Some x"
    by (auto simp: tcp_send_def TCP_BUF_MAX_def Let_def word_less_nat_alt unat_of_nat16 split: option.splits)
  then obtain n s3 where sn: "tcp_send d (Some [1]) 1 s1 = Some (n, s3)" by (metis prod.exhaust)
  have "tcp_send d (Some [1]) 1 s1 = Some (- 1, s1)" using tcp_closed_peer_unreachable [OF p cl tcp_steps.refl sn] sn by simp
  then show ?thesis using p(2) cl by blast
qed

end
