(* ===== verification/Net.thy ===== *)
theory Net
  imports Udp Tcp
begin

text \<open>
  The layers below the transports: the address cache of \<^verbatim>\<open>kernel/net/arp.c\<close>, \<^verbatim>\<open>icmp.c\<close>, \<^verbatim>\<open>ipv4.c\<close> and the frame
  input and output of \<^verbatim>\<open>net.c\<close>. Packets are the bytes their pointers lead to, with the length that is passed
  beside the pointer; a read beyond the bytes has no value. The network card is a pair of functions on a
  device state, as \<^verbatim>\<open>rtl8139_send\<close> and \<^verbatim>\<open>rtl8139_recv\<close> are called.
\<close>

section \<open>State\<close>

definition ARP_CACHE_SIZE :: nat where "ARP_CACHE_SIZE = 32"
definition NM_ETH_TYPE_ARP :: u16 where "NM_ETH_TYPE_ARP = 0x0806"
definition NM_ETH_TYPE_IPV4 :: u16 where "NM_ETH_TYPE_IPV4 = 0x0800"
definition NM_IP_PROTO_ICMP :: u8 where "NM_IP_PROTO_ICMP = 1"
definition NM_IP_PROTO_TCP :: u8 where "NM_IP_PROTO_TCP = 6"
definition NM_IP_PROTO_UDP :: u8 where "NM_IP_PROTO_UDP = 17"

record arp_entry =
  ae_used :: bool
  ae_ip :: u32
  ae_mac :: "u8 list"
  ae_age :: u64

record net_cfg =
  cfg_mac :: "u8 list"
  cfg_ip :: u32
  cfg_gw :: u32
  cfg_mask :: u32
  cfg_loopback :: bool

record net_state =
  net_config :: net_cfg
  net_stats :: nm_net_stats
  arp_cache :: "arp_entry list"
  age_tick :: u64
  udp_ports :: "udp_port list"
  tcp_conn_table :: tcp_table

section \<open>Address resolution\<close>

text \<open>
  The loop of \<^verbatim>\<open>arp_cache_add\<close> from entry \<open>i\<close> on: \<open>Inl\<close> an entry that has the address already, otherwise
  \<open>Inr\<close> the slot to take, the first free one if there is one and else the oldest.
\<close>

fun arp_scan :: "u32 \<Rightarrow> nat \<Rightarrow> arp_entry list \<Rightarrow> nat option \<Rightarrow> u64 \<Rightarrow> nat \<Rightarrow> nat + nat" where
  "arp_scan ip i [] slot oldest oldest_idx = Inr (case slot of None \<Rightarrow> oldest_idx | Some j \<Rightarrow> j)"
| "arp_scan ip i (e # es) slot oldest oldest_idx =
     (if ae_used e \<and> ae_ip e = ip then Inl i
      else arp_scan ip (Suc i) es (if \<not> ae_used e \<and> slot = None then Some i else slot)
             (if ae_used e \<and> ae_age e < oldest then ae_age e else oldest)
             (if ae_used e \<and> ae_age e < oldest then i else oldest_idx))"

definition arp_cache_add :: "u32 \<Rightarrow> u8 list \<Rightarrow> net_state \<Rightarrow> net_state" where
  "arp_cache_add ip mac s =
     (let tick = age_tick s + 1; c = arp_cache s in
      case arp_scan ip 0 c None (- 1) 0 of
        Inl i \<Rightarrow> s\<lparr>arp_cache := c[i := (c ! i)\<lparr>ae_mac := mac, ae_age := tick\<rparr>], age_tick := tick\<rparr>
      | Inr i \<Rightarrow> s\<lparr>arp_cache := c[i := (c ! i)\<lparr>ae_used := True, ae_ip := ip, ae_mac := mac, ae_age := tick\<rparr>], age_tick := tick\<rparr>)"

definition arp_cache_lookup :: "u32 \<Rightarrow> net_state \<Rightarrow> u8 list option \<times> net_state" where
  "arp_cache_lookup ip s =
     (case first_idx (\<lambda>e. ae_used e \<and> ae_ip e = ip) (arp_cache s) of
        Some i \<Rightarrow> (Some (ae_mac (arp_cache s ! i)), s\<lparr>net_stats := net_stats_note_arp_hit (net_stats s)\<rparr>)
      | None \<Rightarrow> (None, s\<lparr>net_stats := net_stats_note_arp_miss (net_stats s)\<rparr>))"

definition arp_input :: "u8 list \<Rightarrow> u16 \<Rightarrow> net_state \<Rightarrow> net_state option" where
  "arp_input packet len s =
     (if len < 28 then Some s
      else Option.bind (be32_at packet 14) (\<lambda>spa.
           Option.bind (bytes_of (drop 8 packet) 6) (\<lambda>sha. Some (arp_cache_add spa sha s))))"

section \<open>ICMP and IPv4\<close>

definition icmp_send_echo :: "u32 \<Rightarrow> u16 \<Rightarrow> u16 \<Rightarrow> u8 list option \<Rightarrow> u16 \<Rightarrow> net_state \<Rightarrow> int \<times> net_state" where
  "icmp_send_echo dst_ip ident seq payload len s =
     (0, s\<lparr>net_stats := net_stats_note_icmp_rep (net_stats_note_icmp_req (net_stats s))\<rparr>)"

definition icmp_input :: "u32 \<Rightarrow> u32 \<Rightarrow> u8 list \<Rightarrow> u16 \<Rightarrow> net_state \<Rightarrow> net_state option" where
  "icmp_input src_ip dst_ip payload len s =
     (if len < 8 then Some s
      else Option.bind (byte_at payload 0) (\<lambda>type.
        if type = 8 then Some (s\<lparr>net_stats := net_stats_note_icmp_rep (net_stats_note_icmp_req (net_stats s))\<rparr>)
        else if type = 0 then Some (s\<lparr>net_stats := net_stats_note_icmp_rep (net_stats s)\<rparr>)
        else Some s))"

definition ipv4_input :: "u8 list \<Rightarrow> u16 \<Rightarrow> net_state \<Rightarrow> net_state option" where
  "ipv4_input packet len s =
     (if len < 20 then Some s
      else Option.bind (byte_at packet 0) (\<lambda>b.
        let ihl = (b AND 0x0F) * 4 in
        if ihl < 20 \<or> len < ucast ihl then Some s
        else Option.bind (byte_at packet 9) (\<lambda>proto.
             Option.bind (be32_at packet 12) (\<lambda>src_ip.
             Option.bind (be32_at packet 16) (\<lambda>dst_ip.
               let payload = drop (unat ihl) packet; payload_len = len - ucast ihl in
               if proto = NM_IP_PROTO_ICMP then icmp_input src_ip dst_ip payload payload_len s
               else if proto = NM_IP_PROTO_UDP
               then map_option (\<lambda>(ps, st). s\<lparr>udp_ports := ps, net_stats := st\<rparr>)
                      (udp_input src_ip dst_ip payload payload_len (udp_ports s) (net_stats s))
               else if proto = NM_IP_PROTO_TCP
               then Some (s\<lparr>tcp_conn_table := tcp_input src_ip dst_ip payload payload_len (tcp_conn_table s)\<rparr>)
               else Some s)))))"

section \<open>Frames\<close>

definition bswap16 :: "u16 \<Rightarrow> u16" where
  "bswap16 v = drop_bit 8 v OR push_bit 8 v"

definition net_init :: "net_state \<Rightarrow> net_state" where
  "net_init s = s\<lparr>net_config := \<lparr>cfg_mac = map (\<lambda>i. word_of_nat (0x52 + i)) [0..<6], cfg_ip = 0xC0A80164, cfg_gw = 0xC0A80101,
     cfg_mask = 0xFFFFFF00, cfg_loopback = True\<rparr>, net_stats := zero_stats\<rparr>"

definition net_set_identity :: "u8 list option \<Rightarrow> u32 \<Rightarrow> u32 \<Rightarrow> u32 \<Rightarrow> net_state \<Rightarrow> net_state" where
  "net_set_identity mac ip gateway netmask s =
     s\<lparr>net_config := (net_config s)\<lparr>cfg_mac := (case mac of Some m \<Rightarrow> m | None \<Rightarrow> cfg_mac (net_config s)), cfg_ip := ip,
       cfg_gw := gateway, cfg_mask := netmask\<rparr>\<rparr>"

definition net_send_frame ::
  "(u8 list \<Rightarrow> u64 \<Rightarrow> 'd \<Rightarrow> int \<times> 'd) \<Rightarrow> u8 list option \<Rightarrow> u64 \<Rightarrow> net_state \<Rightarrow> 'd \<Rightarrow> int \<times> net_state \<times> 'd" where
  "net_send_frame rtl8139_send frame len s d =
     (case frame of
        None \<Rightarrow> (NM_ERR NM_EFAIL, s, d)
      | Some bytes \<Rightarrow>
          if len < 14 then (NM_ERR NM_EFAIL, s, d)
          else let s = s\<lparr>net_stats := (net_stats s)\<lparr>tx_frames := tx_frames (net_stats s) + 1\<rparr>\<rparr>;
                   (r, d) = rtl8139_send bytes len d
               in (s32 r, s, d))"

definition note_rx_dropped :: "net_state \<Rightarrow> net_state" where
  "note_rx_dropped s = s\<lparr>net_stats := (net_stats s)\<lparr>rx_dropped := rx_dropped (net_stats s) + 1\<rparr>\<rparr>"

definition note_rx_frame :: "net_state \<Rightarrow> net_state" where
  "note_rx_frame s = s\<lparr>net_stats := (net_stats s)\<lparr>rx_frames := rx_frames (net_stats s) + 1\<rparr>\<rparr>"

definition net_input_frame :: "u8 list option \<Rightarrow> u64 \<Rightarrow> net_state \<Rightarrow> (int \<times> net_state) option" where
  "net_input_frame frame len s =
     (case frame of
        None \<Rightarrow> Some (NM_ERR NM_EFAIL, note_rx_dropped s)
      | Some bytes \<Rightarrow>
          if len < 14 then Some (NM_ERR NM_EFAIL, note_rx_dropped s)
          else Option.bind (byte_at bytes 12) (\<lambda>b0. Option.bind (byte_at bytes 13) (\<lambda>b1.
            let eth_type = bswap16 (ucast b0 OR push_bit 8 (ucast b1));
                s = note_rx_frame s;
                payload = drop 14 bytes;
                payload_len = ucast (len - 14)
            in if eth_type = NM_ETH_TYPE_ARP then map_option (\<lambda>s. (0, s)) (arp_input payload payload_len s)
               else if eth_type = NM_ETH_TYPE_IPV4 then map_option (\<lambda>s. (0, s)) (ipv4_input payload payload_len s)
               else Some (NM_ERR NM_EFAIL, note_rx_dropped s))))"

text \<open>\<open>rtl8139_recv\<close> returns a count and the buffer of 2048 bytes it has filled.\<close>

definition net_poll :: "('d \<Rightarrow> int \<times> u8 list \<times> 'd) \<Rightarrow> net_state \<Rightarrow> 'd \<Rightarrow> (net_state \<times> 'd) option" where
  "net_poll rtl8139_recv s d =
     (let (n, frame, d) = rtl8139_recv d in
      if n > 0 then map_option (\<lambda>(r, s). (s, d)) (net_input_frame (Some frame) (word_of_int n) s)
      else Some (s, d))"

definition net_get_stats :: "net_state \<Rightarrow> nm_net_stats" where
  "net_get_stats s = net_stats s"

definition net_local_ip :: "net_state \<Rightarrow> u32" where
  "net_local_ip s = cfg_ip (net_config s)"

definition net_local_mac :: "net_state \<Rightarrow> u8 list" where
  "net_local_mac s = take 6 (cfg_mac (net_config s))"

section \<open>The address cache\<close>

definition arp_map :: "arp_entry list \<Rightarrow> u32 \<Rightarrow> u8 list option" where
  "arp_map c ip = map_option (\<lambda>i. ae_mac (c ! i)) (first_idx (\<lambda>e. ae_used e \<and> ae_ip e = ip) c)"

definition arp_inv :: "arp_entry list \<Rightarrow> bool" where
  "arp_inv c \<longleftrightarrow> length c = ARP_CACHE_SIZE \<and>
     (\<forall>i<length c. \<forall>j<length c. ae_used (c ! i) \<longrightarrow> ae_used (c ! j) \<longrightarrow> ae_ip (c ! i) = ae_ip (c ! j) \<longrightarrow> i = j)"

lemma arp_scan_spec:
  assumes "i \<le> length c" "c \<noteq> []" "\<forall>k<i. \<not> (ae_used (c ! k) \<and> ae_ip (c ! k) = ip)"
    and "slot = first_idx (\<lambda>e. \<not> ae_used e) (take i c)"
    and "oi = 0 \<and> oldest = - 1 \<or> oi < i \<and> ae_used (c ! oi) \<and> oldest = ae_age (c ! oi)"
    and "\<forall>k<i. ae_used (c ! k) \<longrightarrow> oldest \<le> ae_age (c ! k)"
  shows "case arp_scan ip i (drop i c) slot oldest oi of
      Inl k \<Rightarrow> first_idx (\<lambda>e. ae_used e \<and> ae_ip e = ip) c = Some k
    | Inr j \<Rightarrow> first_idx (\<lambda>e. ae_used e \<and> ae_ip e = ip) c = None \<and>
        (case first_idx (\<lambda>e. \<not> ae_used e) c of Some k \<Rightarrow> j = k
         | None \<Rightarrow> j < length c \<and> (\<forall>k<length c. ae_age (c ! j) \<le> ae_age (c ! k)))"
  using assms
proof (induction "length c - i" arbitrary: i slot oldest oi)
  case 0
  then have i: "i = length c" by simp
  have last: "oi < length c \<and> (\<forall>k<length c. ae_age (c ! oi) \<le> ae_age (c ! k))" if "first_idx (\<lambda>e. \<not> ae_used e) c = None"
  proof -
    have u: "\<forall>k<length c. ae_used (c ! k)" using that by (simp add: first_idx_None_nth)
    have "oldest \<le> ae_age (c ! k)" if "k < length c" for k using "0.prems"(6) u that i by simp
    then show ?thesis using "0.prems"(2,5) u i by (auto simp: word_order.extremum_unique)
  qed
  have "first_idx (\<lambda>e. ae_used e \<and> ae_ip e = ip) c = None" using "0.prems"(3) i by (simp add: first_idx_None_nth)
  then show ?case using "0.prems"(4) i last by (auto split: option.split)
next
  case (Suc n)
  then have il: "i < length c" by simp
  then have d: "drop i c = c ! i # drop (Suc i) c" by (simp add: Cons_nth_drop_Suc)
  show ?case
  proof (cases "ae_used (c ! i) \<and> ae_ip (c ! i) = ip")
    case True
    then have "first_idx (\<lambda>e. ae_used e \<and> ae_ip e = ip) c = Some i" using Suc.prems(3) il by (simp add: first_idx_Some_iff)
    then show ?thesis using True by (simp add: d)
  next
    case False
    define slot' where "slot' = (if \<not> ae_used (c ! i) \<and> slot = None then Some i else slot)"
    define old' where "old' = (if ae_used (c ! i) \<and> ae_age (c ! i) < oldest then ae_age (c ! i) else oldest)"
    define oi' where "oi' = (if ae_used (c ! i) \<and> ae_age (c ! i) < oldest then i else oi)"
    have "slot' = first_idx (\<lambda>e. \<not> ae_used e) (take (Suc i) c)"
      using Suc.prems(4) il by (simp add: slot'_def take_Suc_conv_app_nth first_idx_append split: option.split)
    moreover have "oi' = 0 \<and> old' = - 1 \<or> oi' < Suc i \<and> ae_used (c ! oi') \<and> old' = ae_age (c ! oi')"
      using Suc.prems(5) by (auto simp: oi'_def old'_def)
    moreover have "\<forall>k<Suc i. ae_used (c ! k) \<longrightarrow> old' \<le> ae_age (c ! k)"
    proof (intro allI impI)
      fix k assume k: "k < Suc i" "ae_used (c ! k)"
      show "old' \<le> ae_age (c ! k)"
      proof (cases "k = i")
        case True
        then show ?thesis using k(2) by (auto simp: old'_def)
      next
        case False
        then have "oldest \<le> ae_age (c ! k)" using Suc.prems(6) k by simp
        then show ?thesis by (auto simp: old'_def)
      qed
    qed
    moreover have "\<forall>k<Suc i. \<not> (ae_used (c ! k) \<and> ae_ip (c ! k) = ip)" using Suc.prems(3) False by (auto simp: less_Suc_eq)
    moreover have "n = length c - Suc i" "Suc i \<le> length c" using Suc.hyps(2) il by simp_all
    ultimately have "case arp_scan ip (Suc i) (drop (Suc i) c) slot' old' oi' of
      Inl k \<Rightarrow> first_idx (\<lambda>e. ae_used e \<and> ae_ip e = ip) c = Some k
    | Inr j \<Rightarrow> first_idx (\<lambda>e. ae_used e \<and> ae_ip e = ip) c = None \<and>
        (case first_idx (\<lambda>e. \<not> ae_used e) c of Some k \<Rightarrow> j = k
         | None \<Rightarrow> j < length c \<and> (\<forall>k<length c. ae_age (c ! j) \<le> ae_age (c ! k)))"
      using Suc.hyps(1) Suc.prems(2) by blast
    moreover have "arp_scan ip i (drop i c) slot oldest oi = arp_scan ip (Suc i) (drop (Suc i) c) slot' old' oi'"
      unfolding d by (simp only: arp_scan.simps False if_False slot'_def old'_def oi'_def)
    ultimately show ?thesis by simp
  qed
qed


lemma arp_unique:
  "arp_inv c \<Longrightarrow> i < length c \<Longrightarrow> j < length c \<Longrightarrow> ae_used (c ! i) \<Longrightarrow> ae_used (c ! j) \<Longrightarrow> ae_ip (c ! i) = ae_ip (c ! j) \<Longrightarrow> i = j"
  unfolding arp_inv_def by blast

lemma arp_find:
  assumes "arp_inv c"
  shows "first_idx (\<lambda>e. ae_used e \<and> ae_ip e = ip) c = Some i \<longleftrightarrow> i < length c \<and> ae_used (c ! i) \<and> ae_ip (c ! i) = ip"
proof
  assume r: "i < length c \<and> ae_used (c ! i) \<and> ae_ip (c ! i) = ip"
  have "\<not> (ae_used (c ! j) \<and> ae_ip (c ! j) = ip)" if "j < i" for j
  proof
    assume "ae_used (c ! j) \<and> ae_ip (c ! j) = ip"
    then show False using arp_unique [OF assms, of j i] r that by auto
  qed
  then show "first_idx (\<lambda>e. ae_used e \<and> ae_ip e = ip) c = Some i" using r by (simp add: first_idx_Some_iff)
qed (auto simp: first_idx_Some_iff)

lemma arp_map_iff:
  "arp_inv c \<Longrightarrow> arp_map c ip = Some mac \<longleftrightarrow> (\<exists>i<length c. ae_used (c ! i) \<and> ae_ip (c ! i) = ip \<and> ae_mac (c ! i) = mac)"
  using arp_find [of c ip] by (fastforce simp: arp_map_def)

text \<open>Writing an entry for \<open>ip\<close> into slot \<open>i\<close>, when no other entry in use has that address.\<close>

lemma arp_put:
  assumes "arp_inv c" "i < length c" "\<forall>j<length c. j \<noteq> i \<longrightarrow> \<not> (ae_used (c ! j) \<and> ae_ip (c ! j) = ip)" "ae_used e" "ae_ip e = ip"
  shows "arp_inv (c[i := e])"
    "arp_map (c[i := e]) = (if ae_used (c ! i) then (arp_map c)(ae_ip (c ! i) := None) else arp_map c)(ip \<mapsto> ae_mac e)"
proof -
  show inv: "arp_inv (c[i := e])"
    unfolding arp_inv_def
  proof (intro conjI allI impI)
    show "length (c[i := e]) = ARP_CACHE_SIZE" using assms(1) by (simp add: arp_inv_def)
    fix a b assume ab: "a < length (c[i := e])" "b < length (c[i := e])" "ae_used (c[i := e] ! a)" "ae_used (c[i := e] ! b)"
      "ae_ip (c[i := e] ! a) = ae_ip (c[i := e] ! b)"
    show "a = b"
      using ab assms(1,3,5) unfolding arp_inv_def by (cases "a = i"; cases "b = i") (auto simp: nth_list_update)
  qed
  show "arp_map (c[i := e]) = (if ae_used (c ! i) then (arp_map c)(ae_ip (c ! i) := None) else arp_map c)(ip \<mapsto> ae_mac e)"
  proof (rule ext)
    fix x
    show "arp_map (c[i := e]) x = ((if ae_used (c ! i) then (arp_map c)(ae_ip (c ! i) := None) else arp_map c)(ip \<mapsto> ae_mac e)) x"
    proof (cases "x = ip")
      case True
      have "arp_map (c[i := e]) x = Some (ae_mac e)"
        using assms(2,4,5) True by (simp add: arp_map_iff [OF inv]) (intro exI [of _ i], simp)
      then show ?thesis using True by simp
    next
      case False
      have "arp_map (c[i := e]) x = Some m \<longleftrightarrow> (\<exists>j<length c. j \<noteq> i \<and> ae_used (c ! j) \<and> ae_ip (c ! j) = x \<and> ae_mac (c ! j) = m)" for m
        using assms(2,5) False by (auto simp: arp_map_iff [OF inv] nth_list_update split: if_splits)
      moreover have "arp_map c x = Some m \<longleftrightarrow> (\<exists>j<length c. ae_used (c ! j) \<and> ae_ip (c ! j) = x \<and> ae_mac (c ! j) = m)" for m
        by (rule arp_map_iff [OF assms(1)])
      moreover have "\<not> (ae_used (c ! j) \<and> ae_ip (c ! j) = ae_ip (c ! i))" if "j < length c" "j \<noteq> i" "ae_used (c ! i)" for j
        using that assms(1,2) unfolding arp_inv_def by blast
      ultimately have "arp_map (c[i := e]) x = Some m \<longleftrightarrow> (if ae_used (c ! i) \<and> ae_ip (c ! i) = x then None else arp_map c x) = Some m" for m
        by (auto split: if_splits)
      then have "arp_map (c[i := e]) x = (if ae_used (c ! i) \<and> ae_ip (c ! i) = x then None else arp_map c x)"
        by (metis option.exhaust)
      then show ?thesis using False by auto
    qed
  qed
qed

section \<open>Properties\<close>

text \<open>
  the address cache is a bounded map that forgets the oldest entry. After \<^verbatim>\<open>arp_cache_add\<close> a lookup of
  the address gives the new hardware address; every other address keeps its entry, except that when the
  cache was full and the address was not in it, exactly one entry is gone, and it is one with the least
  time stamp. No address ever has two entries.
\<close>
theorem arp_cache_add_correct:
  assumes "arp_inv (arp_cache s)"
  shows "arp_inv (arp_cache (arp_cache_add ip mac s)) \<and>
    (if arp_map (arp_cache s) ip \<noteq> None \<or> (\<exists>e\<in>set (arp_cache s). \<not> ae_used e)
     then arp_map (arp_cache (arp_cache_add ip mac s)) = (arp_map (arp_cache s))(ip \<mapsto> mac)
     else \<exists>e\<in>set (arp_cache s). (\<forall>e'\<in>set (arp_cache s). ae_age e \<le> ae_age e') \<and>
       arp_map (arp_cache (arp_cache_add ip mac s)) = (arp_map (arp_cache s))(ae_ip e := None, ip \<mapsto> mac))"
proof -
  let ?c = "arp_cache s"
  let ?hit = "first_idx (\<lambda>e. ae_used e \<and> ae_ip e = ip) ?c"
  have len: "length ?c = 32" "?c \<noteq> []" using assms by (auto simp: arp_inv_def ARP_CACHE_SIZE_def)
  have sc: "case arp_scan ip 0 ?c None (- 1) 0 of Inl k \<Rightarrow> ?hit = Some k
    | Inr j \<Rightarrow> ?hit = None \<and> (case first_idx (\<lambda>e. \<not> ae_used e) ?c of Some k \<Rightarrow> j = k
         | None \<Rightarrow> j < length ?c \<and> (\<forall>k<length ?c. ae_age (?c ! j) \<le> ae_age (?c ! k)))"
    using arp_scan_spec [of 0 ?c ip None 0 "- 1"] len(2) by simp
  show ?thesis
  proof (cases "arp_scan ip 0 ?c None (- 1) 0")
    case (Inl i)
    then have h: "i < length ?c" "ae_used (?c ! i)" "ae_ip (?c ! i) = ip" using sc arp_find [OF assms] by simp_all
    let ?e = "(?c ! i)\<lparr>ae_mac := mac, ae_age := age_tick s + 1\<rparr>"
    have new: "arp_cache (arp_cache_add ip mac s) = ?c[i := ?e]" using Inl by (simp add: arp_cache_add_def Let_def)
    have other: "\<forall>j<length ?c. j \<noteq> i \<longrightarrow> \<not> (ae_used (?c ! j) \<and> ae_ip (?c ! j) = ip)"
      using h assms unfolding arp_inv_def by blast
    have "arp_map ?c ip \<noteq> None" using sc Inl by (simp add: arp_map_def)
    then show ?thesis using arp_put [OF assms h(1) other, of ?e] h unfolding new by simp
  next
    case (Inr i)
    let ?e = "(?c ! i)\<lparr>ae_used := True, ae_ip := ip, ae_mac := mac, ae_age := age_tick s + 1\<rparr>"
    have new: "arp_cache (arp_cache_add ip mac s) = ?c[i := ?e]" using Inr by (simp add: arp_cache_add_def Let_def)
    have none: "?hit = None" using sc Inr by simp
    then have other: "\<forall>j<length ?c. j \<noteq> i \<longrightarrow> \<not> (ae_used (?c ! j) \<and> ae_ip (?c ! j) = ip)" and m: "arp_map ?c ip = None"
      by (simp_all add: first_idx_None_nth arp_map_def)
    show ?thesis
    proof (cases "first_idx (\<lambda>e. \<not> ae_used e) ?c")
      case (Some k)
      then have k: "i = k" "i < length ?c" "\<not> ae_used (?c ! i)" using sc Inr first_idx_SomeD [OF Some] by simp_all
      have "\<exists>e\<in>set ?c. \<not> ae_used e" using k(2,3) nth_mem by blast
      then show ?thesis using arp_put [OF assms k(2) other, of ?e] k(3) unfolding new by simp
    next
      case None
      then have i: "i < length ?c" "\<forall>k<length ?c. ae_age (?c ! i) \<le> ae_age (?c ! k)" using sc Inr by simp_all
      have u: "\<forall>e\<in>set ?c. ae_used e" using None by (simp add: first_idx_None_iff)
      have "\<forall>e'\<in>set ?c. ae_age (?c ! i) \<le> ae_age e'" using i(2) by (metis in_set_conv_nth)
      then show ?thesis using arp_put [OF assms i(1) other, of ?e] u i(1) m unfolding new by (auto intro!: bexI [of _ "?c ! i"])
    qed
  qed
qed

definition demo_net :: net_state where
  "demo_net = net_init \<lparr>net_config = \<lparr>cfg_mac = [], cfg_ip = 0, cfg_gw = 0, cfg_mask = 0, cfg_loopback = False\<rparr>, net_stats = zero_stats,
     arp_cache = replicate ARP_CACHE_SIZE \<lparr>ae_used = False, ae_ip = 0, ae_mac = replicate 6 0, ae_age = 0\<rparr>, age_tick = 0,
     udp_ports = demo_ports, tcp_conn_table = demo_tcp\<rparr>"

theorem arp_cache_add_correct_witness:
  "arp_inv (arp_cache demo_net) \<and>
   arp_map (arp_cache (arp_cache_add 0x0A000001 [1, 2, 3, 4, 5, 6] demo_net)) = (arp_map (arp_cache demo_net))(0x0A000001 \<mapsto> [1, 2, 3, 4, 5, 6])"
proof -
  have inv: "arp_inv (arp_cache demo_net)" by (simp add: demo_net_def net_init_def arp_inv_def)
  have "\<exists>e\<in>set (arp_cache demo_net). \<not> ae_used e" by (simp add: demo_net_def net_init_def ARP_CACHE_SIZE_def)
  then show ?thesis using arp_cache_add_correct [OF inv, of "0x0A000001" "[1, 2, 3, 4, 5, 6]"] inv by simp
qed


section \<open>Packets\<close>

lemma not_bit8: "8 \<le> m \<Longrightarrow> \<not> bit (b :: u8) m"
  by (auto dest: bit_imp_le_length)

lemma bswap16_load: "bswap16 (ucast b0 OR push_bit 8 (ucast b1)) = be16 b0 b1"
proof (rule bit_word_eqI)
  fix n assume "n < LENGTH(16)"
  then consider "n < 8" | "8 \<le> n" "n < 16" by fastforce
  then show "bit (bswap16 (ucast b0 OR push_bit 8 (ucast b1))) n = bit (be16 b0 b1) n"
    by cases (auto simp: bswap16_def be16_def bit_or_iff bit_push_bit_iff bit_ucast_iff bit_drop_bit_eq not_bit8)
qed

lemma unat_ihl: "unat ((b AND 0x0F) * 4 :: u8) = unat (b AND 0x0F) * 4" "unat (ucast ((b AND 0x0F) * 4 :: u8) :: u16) = unat (b AND 0x0F) * 4"
proof -
  have "unat (b AND 0x0F) \<le> unat (0x0F :: u8)" using word_and_le1 [of b "0x0F"] by (simp only: word_le_nat_alt)
  then have l: "unat (b AND 0x0F) \<le> 15" by simp
  then show e: "unat ((b AND 0x0F) * 4 :: u8) = unat (b AND 0x0F) * 4" by (simp add: unat_word_ariths)
  have "unat (ucast ((b AND 0x0F) * 4 :: u8) :: u16) = unat ((b AND 0x0F) * 4 :: u8)"
    by (simp add: unsigned_ucast_eq take_bit_nat_eq_self_iff e) (use l in simp)
  then show "unat (ucast ((b AND 0x0F) * 4 :: u8) :: u16) = unat (b AND 0x0F) * 4" using e by simp
qed

lemma arp_input_in_bounds: "unat len \<le> length packet \<Longrightarrow> \<exists>s'. arp_input packet len s = Some s'"
  by (auto simp: arp_input_def word_less_nat_alt not_less)

lemma icmp_input_in_bounds: "unat len \<le> length payload \<Longrightarrow> \<exists>s'. icmp_input src dst payload len s = Some s'"
  by (auto simp: icmp_input_def word_less_nat_alt not_less byte_at_def)

lemma ipv4_input_in_bounds:
  assumes "unat len \<le> length packet"
  shows "\<exists>s'. ipv4_input packet len s = Some s'"
proof (cases "len < 20")
  case True
  then show ?thesis by (simp add: ipv4_input_def)
next
  case False
  then have l: "20 \<le> length packet" using assms by (simp add: word_less_nat_alt)
  then have b0: "byte_at packet 0 = Some (packet ! 0)" by (simp add: byte_at_def) auto
  define ihl where "ihl = (packet ! 0 AND 0x0F) * 4"
  have u: "unat (ucast ihl :: u16) = unat ihl" using unat_ihl [of "packet ! 0"] by (simp add: ihl_def)
  show ?thesis
  proof (cases "ihl < 20 \<or> len < ucast ihl")
    case True
    then show ?thesis using False l by (auto simp: ipv4_input_def b0 ihl_def [symmetric])
  next
    case ok: False
    then have le: "ucast ihl \<le> len" by (simp add: not_less)
    then have fit: "unat (len - ucast ihl) \<le> length (drop (unat ihl) packet)"
      using assms u by (simp add: unat_sub)
    obtain src dst where "be32_at packet 12 = Some src" "be32_at packet 16 = Some dst" using l by simp
    then show ?thesis
      using False ok l icmp_input_in_bounds [OF fit] udp_input_in_bounds [OF fit]
      by (auto simp: ipv4_input_def b0 ihl_def [symmetric] Let_def)
  qed
qed

text \<open>
  C22: no frame makes the kernel read outside it. Whatever bytes the network delivers, parsing the
  frame through the Ethernet, ARP, IPv4, ICMP and UDP layers has a result as long as the length that is
  passed does not exceed the bytes that are there: every read stays inside the frame.
\<close>
theorem net_input_frame_in_bounds:
  assumes "unat len \<le> length bytes"
  shows "\<exists>r s'. net_input_frame (Some bytes) len s = Some (r, s')"
proof (cases "len < 14")
  case True
  then show ?thesis by (simp add: net_input_frame_def)
next
  case False
  then have l: "14 \<le> length bytes" using assms by (simp add: word_less_nat_alt)
  have "unat (ucast (len - 14) :: u16) \<le> unat (len - 14)" by (simp add: unsigned_ucast_eq take_bit_nat_less_eq_self)
  also have "\<dots> \<le> length (drop 14 bytes)" using False assms by (simp add: unat_sub)
  finally have fit: "unat (ucast (len - 14) :: u16) \<le> length (drop 14 bytes)" .
  show ?thesis
    using False l arp_input_in_bounds [OF fit] ipv4_input_in_bounds [OF fit] by (auto simp: net_input_frame_def Let_def)
qed

theorem net_input_frame_in_bounds_witness:
  "\<exists>r s'. net_input_frame (Some [255, 255, 255, 255, 255, 255, 1, 2, 3, 4, 5, 6, 8, 0, 0x4F]) 15 demo_net = Some (r, s')"
  using net_input_frame_in_bounds [of 15 "[255, 255, 255, 255, 255, 255, 1, 2, 3, 4, 5, 6, 8, 0, 0x4F]" demo_net] by simp

text \<open>The frame a sender builds for a datagram: Ethernet, IPv4 and UDP headers without options.\<close>

definition udp_datagram :: "u16 \<Rightarrow> u16 \<Rightarrow> u8 list \<Rightarrow> u8 list" where
  "udp_datagram sport dport data = put_be16 sport @ put_be16 dport @ put_be16 (of_nat (8 + length data)) @ [0, 0] @ data"

definition ip_packet :: "u8 \<Rightarrow> u32 \<Rightarrow> u32 \<Rightarrow> u8 list \<Rightarrow> u8 list" where
  "ip_packet proto src dst body = [0x45, 0] @ put_be16 (of_nat (20 + length body)) @ [0, 0, 0, 0, 64, proto, 0, 0] @ put_be32 src @ put_be32 dst @ body"

definition eth_frame :: "u8 list \<Rightarrow> u8 list \<Rightarrow> u16 \<Rightarrow> u8 list \<Rightarrow> u8 list" where
  "eth_frame dst src eth_type body = dst @ src @ put_be16 eth_type @ body"

lemma udp_input_datagram:
  assumes "length data \<le> 1500"
  shows "udp_input src dst (udp_datagram sport dport data) (of_nat (8 + length data)) ps st =
    map_option snd (udp_deliver dport src sport data (of_nat (length data)) ps st)"
proof -
  define len :: u16 where "len = of_nat (8 + length data)"
  have u: "unat len = 8 + length data" unfolding len_def using assms by (intro unat_of_nat16) simp
  have l8: "\<not> len < 8" using u by (simp add: word_less_nat_alt)
  have sub: "len - 8 = of_nat (length data)" by (simp add: len_def)
  have f: "be16_at (udp_datagram sport dport data) 0 = Some sport" "be16_at (udp_datagram sport dport data) 2 = Some dport"
    "be16_at (udp_datagram sport dport data) 4 = Some len" "drop 8 (udp_datagram sport dport data) = data"
    by (simp_all add: udp_datagram_def put_be16_def be16_put len_def)
  show ?thesis unfolding len_def [symmetric] using l8 by (simp add: udp_input_def f sub)
qed

lemma ipv4_input_udp:
  assumes "length body \<le> 1508"
  shows "ipv4_input (ip_packet NM_IP_PROTO_UDP src dst body) (of_nat (20 + length body)) s =
    map_option (\<lambda>(ps, st). s\<lparr>udp_ports := ps, net_stats := st\<rparr>) (udp_input src dst body (of_nat (length body)) (udp_ports s) (net_stats s))"
proof -
  define len :: u16 where "len = of_nat (20 + length body)"
  have u: "unat len = 20 + length body" unfolding len_def using assms by (intro unat_of_nat16) simp
  have l: "\<not> len < 20" using u by (simp add: word_less_nat_alt)
  have sub: "len - 20 = of_nat (length body)" by (simp add: len_def)
  let ?p = "ip_packet NM_IP_PROTO_UDP src dst body"
  have f: "byte_at ?p 0 = Some 0x45" "byte_at ?p 9 = Some NM_IP_PROTO_UDP" "be32_at ?p 12 = Some src" "be32_at ?p 16 = Some dst" "drop 20 ?p = body"
    by (simp_all add: ip_packet_def put_be16_def put_be32_def be32_put)
  have ne: "NM_IP_PROTO_UDP \<noteq> NM_IP_PROTO_ICMP" by (simp add: NM_IP_PROTO_UDP_def NM_IP_PROTO_ICMP_def)
  have "(0x45 AND 0x0F) * 4 = (20 :: u8)" by simp
  then show ?thesis
    unfolding len_def [symmetric] using l by (simp add: ipv4_input_def f sub Let_def ne)
qed

text \<open>
  a datagram on the wire reaches the program that waits for it. When a frame that carries a
  UDP datagram of at most 1500 bytes for a bound port with an empty box is handed to \<^verbatim>\<open>net_input_frame\<close>, the next
  \<^verbatim>\<open>udp_recv\<close> on that port returns the datagram's bytes, cut to its capacity, and the sender's address and port.
\<close>
theorem frame_to_receiver:
  assumes "udp_inv (udp_ports s)" "boxes (udp_ports s) dport = Some {#}" "length data \<le> 1500" "length dmac = 6" "length smac = 6"
    and "frame = eth_frame dmac smac NM_ETH_TYPE_IPV4 (ip_packet NM_IP_PROTO_UDP src dst (udp_datagram sport dport data))"
  shows "\<exists>s'. net_input_frame (Some frame) (of_nat (length frame)) s = Some (0, s') \<and>
    (\<forall>cap n out from ps. udp_recv dport True cap (udp_ports s') = (n, out, from, ps) \<longrightarrow>
       out = take (unat cap) data \<and> n = int (length out) \<and> from = Some (src, sport))"
proof -
  let ?body = "udp_datagram sport dport data" and ?pk = "ip_packet NM_IP_PROTO_UDP src dst (udp_datagram sport dport data)"
  have lb: "length ?body = 8 + length data" "length ?pk = 20 + length ?body" "length frame = 14 + length ?pk"
    using assms(4,5) by (simp_all add: udp_datagram_def ip_packet_def eth_frame_def assms(6))
  define len :: u64 where "len = of_nat (length frame)"
  have u: "unat len = length frame" unfolding len_def using lb assms(3) by (intro unat_of_nat64) simp
  have l14: "\<not> len < 14" using u lb by (simp add: word_less_nat_alt)
  have pl: "ucast (len - 14) = (of_nat (20 + length ?body) :: u16)" 
  proof -
    have n: "20 + length ?body < 2 ^ 16" using lb(1) assms(3) by simp
    have "len - 14 = of_nat (20 + length ?body)" unfolding len_def lb(2,3) by simp
    moreover have "20 + length ?body < 2 ^ 64" using n by simp
    ultimately have "unat (len - 14) = 20 + length ?body" by (metis unat_of_nat64)
    then have "unat (ucast (len - 14) :: u16) = 20 + length ?body"
      using n by (simp add: unsigned_ucast_eq take_bit_nat_eq_self_iff)
    then have "unat (ucast (len - 14) :: u16) = unat (of_nat (20 + length ?body) :: u16)" using unat_of_nat16 [OF n] by simp
    then show ?thesis by (simp only: word_unat_eq_iff)
  qed
  have hd: "byte_at frame 12 = Some (ucast (drop_bit 8 NM_ETH_TYPE_IPV4))" "byte_at frame 13 = Some (ucast NM_ETH_TYPE_IPV4)" "drop 14 frame = ?pk"
    using assms(4,5) by (simp_all add: assms(6) eth_frame_def put_be16_def nth_append byte_at_def)
  let ?s = "note_rx_frame s"
  have ps: "udp_ports ?s = udp_ports s" by (simp add: note_rx_frame_def)
  let ?len = "of_nat (length data) :: u16"
  have ul: "unat ?len = length data" using assms(3) by (intro unat_of_nat16) simp
  obtain r ps1 st1 where d: "udp_deliver dport src sport data ?len (udp_ports s) (net_stats ?s) = Some (r, ps1, st1)"
    using udp_deliver_in_bounds [of ?len data dport src sport "udp_ports s" "net_stats ?s"] ul by (metis le_refl prod_cases3)
  define s' where "s' = ?s\<lparr>udp_ports := ps1, net_stats := st1\<rparr>"
  have up: "udp_ports s' = ps1" by (simp add: s'_def)
  have "net_input_frame (Some frame) len s = map_option (\<lambda>s. (0, s)) (ipv4_input ?pk (of_nat (20 + length ?body)) ?s)"
    using l14 by (simp add: net_input_frame_def hd pl Let_def bswap16_load be16_put) (simp add: NM_ETH_TYPE_IPV4_def NM_ETH_TYPE_ARP_def)
  also have "ipv4_input ?pk (of_nat (20 + length ?body)) ?s = Some (?s\<lparr>udp_ports := ps1, net_stats := st1\<rparr>)"
    using ipv4_input_udp [of ?body src dst ?s] udp_input_datagram [OF assms(3), of src dst sport dport] lb assms(3) d ps by simp
  finally have "net_input_frame (Some frame) len s = Some (0, s')" by (simp add: s'_def)
  moreover have "out = take (unat cap) data \<and> n = int (length out) \<and> from = Some (src, sport)"
    if q: "udp_recv dport True cap (udp_ports s') = (n, out, from, ps)" for cap n out "from" ps
    using udp_recv_delivered [OF assms(1,2) d _ q [unfolded up]] ul assms(3) by (simp add: UDP_PAYLOAD_MAX_def)
  ultimately show ?thesis unfolding len_def by blast
qed

theorem frame_to_receiver_witness:
  "\<exists>s'. net_input_frame (Some (eth_frame [1, 2, 3, 4, 5, 6] [6, 5, 4, 3, 2, 1] NM_ETH_TYPE_IPV4
       (ip_packet NM_IP_PROTO_UDP 0x0A000002 0xC0A80164 (udp_datagram 4000 53 [7, 8, 9])))) 45
       (demo_net\<lparr>udp_ports := snd (udp_bind 53 demo_ports)\<rparr>) = Some (0, s') \<and>
     (\<exists>ps. udp_recv 53 True 100 (udp_ports s') = (3, [7, 8, 9], Some (0x0A000002, 4000), ps))"
proof -
  let ?s = "demo_net\<lparr>udp_ports := snd (udp_bind 53 demo_ports)\<rparr>"
  have inv: "udp_inv (udp_ports ?s)" and box: "boxes (udp_ports ?s) 53 = Some {#}" using demo_bound [of 53] by simp_all
  obtain s' where s': "net_input_frame (Some (eth_frame [1, 2, 3, 4, 5, 6] [6, 5, 4, 3, 2, 1] NM_ETH_TYPE_IPV4
       (ip_packet NM_IP_PROTO_UDP 0x0A000002 0xC0A80164 (udp_datagram 4000 53 [7, 8, 9])))) 45 ?s = Some (0, s')"
    and r: "\<forall>cap n out from ps. udp_recv 53 True cap (udp_ports s') = (n, out, from, ps) \<longrightarrow>
       out = take (unat cap) [7, 8, 9] \<and> n = int (length out) \<and> from = Some (0x0A000002, 4000)"
    using frame_to_receiver [OF inv box, of "[7, 8, 9]" "[1, 2, 3, 4, 5, 6]" "[6, 5, 4, 3, 2, 1]" _ "0x0A000002" "0xC0A80164" 4000]
    by (auto simp: eth_frame_def ip_packet_def udp_datagram_def)
  obtain n out src ps where q: "udp_recv 53 True 100 (udp_ports s') = (n, out, src, ps)" by (metis prod_cases4)
  then show ?thesis using s' r by fastforce
qed

end
