(* ===== verification/Socket.thy ===== *)
theory Socket
  imports Net
begin

text \<open>
  The socket layer of \<^verbatim>\<open>kernel/net/socket.c\<close> over the datagram and connection layers. The state is the
  descriptor table, the next ephemeral port and the network state. Each operation is the whole
  function: the steps between its critical sections run without another call in between. A buffer is
  the bytes its pointer leads to (\<open>None\<close> the null pointer); a send that would read beyond them has no value.
\<close>

section \<open>State\<close>

definition SOCK_MAX :: nat where "SOCK_MAX = 64"
definition NM_AF_INET :: int where "NM_AF_INET = 2"
definition NM_SOCK_STREAM :: int where "NM_SOCK_STREAM = 1"
definition NM_SOCK_DGRAM :: int where "NM_SOCK_DGRAM = 2"

record nm_sockaddr_in =
  sin_family :: u16
  sin_port :: u16
  sin_addr :: u32

record nm_socket_entry =
  se_used :: bool
  se_type :: int
  se_proto :: int
  se_local_port :: u16
  se_peer_ip :: u32
  se_peer_port :: u16
  se_tcp_conn_id :: int
  se_listening :: bool

record sock_state =
  socks :: "nm_socket_entry list"
  eph_port :: u16
  sock_net :: net_state

section \<open>Operations\<close>

definition upd_sock :: "nat \<Rightarrow> (nm_socket_entry \<Rightarrow> nm_socket_entry) \<Rightarrow> sock_state \<Rightarrow> sock_state" where
  "upd_sock i f s = s\<lparr>socks := (socks s)[i := f (socks s ! i)]\<rparr>"

definition set_udp :: "udp_port list \<Rightarrow> sock_state \<Rightarrow> sock_state" where
  "set_udp ps s = s\<lparr>sock_net := (sock_net s)\<lparr>udp_ports := ps\<rparr>\<rparr>"

definition set_tcp :: "tcp_table \<Rightarrow> sock_state \<Rightarrow> sock_state" where
  "set_tcp t s = s\<lparr>sock_net := (sock_net s)\<lparr>tcp_conn_table := t\<rparr>\<rparr>"

definition set_stats :: "nm_net_stats \<Rightarrow> sock_state \<Rightarrow> sock_state" where
  "set_stats st s = s\<lparr>sock_net := (sock_net s)\<lparr>net_stats := st\<rparr>\<rparr>"

abbreviation "s_udp s \<equiv> udp_ports (sock_net s)"
abbreviation "s_tcp s \<equiv> tcp_conn_table (sock_net s)"
abbreviation "s_stats s \<equiv> net_stats (sock_net s)"

definition get_sock :: "int \<Rightarrow> sock_state \<Rightarrow> nat option" where
  "get_sock fd s = (if fd < 0 \<or> fd \<ge> int SOCK_MAX \<or> \<not> se_used (socks s ! nat fd) then None else Some (nat fd))"

definition claim_sock :: "int \<Rightarrow> int \<Rightarrow> nm_socket_entry \<Rightarrow> nm_socket_entry" where
  "claim_sock type protocol e = e\<lparr>se_used := True, se_type := type, se_proto := protocol, se_local_port := 0, se_peer_ip := 0,
     se_peer_port := 0, se_tcp_conn_id := - 1, se_listening := False\<rparr>"

definition alloc_socket_unlocked :: "int \<Rightarrow> int \<Rightarrow> nm_socket_entry list \<Rightarrow> (nat \<times> nm_socket_entry list) option" where
  "alloc_socket_unlocked type protocol t =
     (case first_idx (\<lambda>e. \<not> se_used e) t of
        Some i \<Rightarrow> Some (i, t[i := claim_sock type protocol (t ! i)])
      | None \<Rightarrow> None)"

definition nm_socket :: "int \<Rightarrow> int \<Rightarrow> int \<Rightarrow> sock_state \<Rightarrow> int \<times> sock_state" where
  "nm_socket domain type protocol s =
     (if domain \<noteq> NM_AF_INET then (NM_ERR NM_EFAIL, s)
      else if type \<noteq> NM_SOCK_DGRAM \<and> type \<noteq> NM_SOCK_STREAM then (NM_ERR NM_EFAIL, s)
      else case alloc_socket_unlocked type protocol (socks s) of
        None \<Rightarrow> (NM_ERR NM_EFAIL, s)
      | Some (i, t) \<Rightarrow> (int i, s\<lparr>socks := t\<rparr>))"

definition nm_bind :: "int \<Rightarrow> nm_sockaddr_in option \<Rightarrow> sock_state \<Rightarrow> int \<times> sock_state" where
  "nm_bind sockfd addr s =
     (case (get_sock sockfd s, addr) of
        (Some i, Some a) \<Rightarrow>
          if int (unat (sin_family a)) \<noteq> NM_AF_INET then (NM_ERR NM_EFAIL, s)
          else
            let old_port = se_local_port (socks s ! i);
                s = upd_sock i (\<lambda>e. e\<lparr>se_local_port := sin_port a\<rparr>) s
            in if se_type (socks s ! i) = NM_SOCK_DGRAM
               then let (r, ps) = udp_bind (sin_port a) (s_udp s); s = set_udp ps s in
                 if r \<noteq> 0
                 then (case get_sock sockfd s of
                         Some j \<Rightarrow> (NM_ERR NM_EFAIL, upd_sock j (\<lambda>e. e\<lparr>se_local_port := old_port\<rparr>) s)
                       | None \<Rightarrow> (NM_ERR NM_EFAIL, s))
                 else (0, s)
               else (0, s)
      | _ \<Rightarrow> (NM_ERR NM_EFAIL, s))"

definition nm_listen :: "int \<Rightarrow> int \<Rightarrow> sock_state \<Rightarrow> int \<times> sock_state" where
  "nm_listen sockfd backlog s =
     (case get_sock sockfd s of
        None \<Rightarrow> (NM_ERR NM_EFAIL, s)
      | Some i \<Rightarrow>
          let e = socks s ! i in
          if se_type e \<noteq> NM_SOCK_STREAM \<or> se_local_port e = 0 then (NM_ERR NM_EFAIL, s)
          else let (cid, t) = tcp_listen (se_local_port e) (s_tcp s); s = set_tcp t s in
            if cid < 0 then (NM_ERR NM_EFAIL, s)
            else case get_sock sockfd s of
              None \<Rightarrow> (NM_ERR NM_EFAIL, set_tcp (snd (tcp_close cid (s_tcp s))) s)
            | Some j \<Rightarrow> (0, upd_sock j (\<lambda>e. e\<lparr>se_tcp_conn_id := cid, se_listening := True\<rparr>) s))"

text \<open>The result and the address stored through \<open>addr\<close> when it is not null.\<close>

definition nm_accept :: "int \<Rightarrow> sock_state \<Rightarrow> int \<times> nm_sockaddr_in option \<times> sock_state" where
  "nm_accept sockfd s =
     (case get_sock sockfd s of
        None \<Rightarrow> (NM_ERR NM_EFAIL, None, s)
      | Some i \<Rightarrow>
          if \<not> se_listening (socks s ! i) then (NM_ERR NM_EFAIL, None, s)
          else let port = se_local_port (socks s ! i);
                   (conn, t) = tcp_accept port (s_tcp s);
                   s = set_tcp t s
               in if conn < 0 then (NM_ERR NM_EFAIL, None, s)
                  else case alloc_socket_unlocked NM_SOCK_STREAM 0 (socks s) of
                    None \<Rightarrow> (NM_ERR NM_EFAIL, None, set_tcp (snd (tcp_close conn (s_tcp s))) s)
                  | Some (child, tab) \<Rightarrow>
                      (int child, Some \<lparr>sin_family = word_of_int NM_AF_INET, sin_port = port, sin_addr = 0\<rparr>,
                       upd_sock child (\<lambda>e. e\<lparr>se_local_port := port, se_tcp_conn_id := conn\<rparr>) (s\<lparr>socks := tab\<rparr>)))"

text \<open>A socket without a local port takes the next ephemeral one.\<close>

definition pick_port :: "nat \<Rightarrow> sock_state \<Rightarrow> sock_state" where
  "pick_port i s =
     (if se_local_port (socks s ! i) = 0
      then upd_sock i (\<lambda>e. e\<lparr>se_local_port := eph_port s\<rparr>) (s\<lparr>eph_port := eph_port s + 1\<rparr>) else s)"

definition nm_connect :: "int \<Rightarrow> nm_sockaddr_in option \<Rightarrow> sock_state \<Rightarrow> int \<times> sock_state" where
  "nm_connect sockfd addr s =
     (case (get_sock sockfd s, addr) of
        (Some i, Some a) \<Rightarrow>
          if se_type (socks s ! i) \<noteq> NM_SOCK_STREAM then (NM_ERR NM_EFAIL, s)
          else
            let was_auto = (se_local_port (socks s ! i) = 0);
                s = pick_port i s;
                local_port = se_local_port (socks s ! i);
                (conn, t, st) = tcp_connect (sin_addr a) (sin_port a) local_port (s_tcp s) (s_stats s);
                s = set_stats st (set_tcp t s)
            in if conn < 0
               then (NM_ERR NM_EFAIL,
                     if was_auto
                     then (case get_sock sockfd s of
                             None \<Rightarrow> s
                           | Some j \<Rightarrow> if se_local_port (socks s ! j) = local_port then upd_sock j (\<lambda>e. e\<lparr>se_local_port := 0\<rparr>) s else s)
                     else s)
               else case get_sock sockfd s of
                 None \<Rightarrow> (NM_ERR NM_EFAIL, set_tcp (snd (tcp_close conn (s_tcp s))) s)
               | Some j \<Rightarrow> (0, upd_sock j (\<lambda>e. e\<lparr>se_peer_ip := sin_addr a, se_peer_port := sin_port a, se_tcp_conn_id := conn\<rparr>) s)
      | _ \<Rightarrow> (NM_ERR NM_EFAIL, s))"

definition nm_sendto :: "int \<Rightarrow> u8 list option \<Rightarrow> u64 \<Rightarrow> nm_sockaddr_in option \<Rightarrow> sock_state \<Rightarrow> (int \<times> sock_state) option" where
  "nm_sendto sockfd buf len addr s =
     (case (get_sock sockfd s, buf) of
        (Some i, Some data) \<Rightarrow>
          if len = 0 then Some (NM_ERR NM_EFAIL, s)
          else if se_type (socks s ! i) = NM_SOCK_DGRAM
          then (case addr of
                  None \<Rightarrow> Some (NM_ERR NM_EFAIL, s)
                | Some a \<Rightarrow>
                    let s = pick_port i s;
                        src_port = se_local_port (socks s ! i);
                        (r, ps) = udp_bind src_port (s_udp s);
                        s = set_udp ps s
                    in if r \<noteq> 0 then Some (NM_ERR NM_EFAIL, s)
                       else map_option (\<lambda>(n, ps, st). (n, set_stats st (set_udp ps s)))
                              (udp_sendto src_port (sin_addr a) (sin_port a) (Some data) (ucast len) (s_udp s) (s_stats s)))
          else let conn_id = se_tcp_conn_id (socks s ! i) in
            if conn_id \<le> 0 then Some (NM_ERR NM_EFAIL, s)
            else map_option (\<lambda>(n, t). (n, set_tcp t s)) (tcp_send conn_id (Some data) (ucast len) (s_tcp s))
      | _ \<Rightarrow> Some (NM_ERR NM_EFAIL, s))"

text \<open>The result, the bytes stored in the buffer, the sender (\<open>None\<close> where \<open>addr\<close> is not written) and the state.\<close>

definition nm_recvfrom :: "int \<Rightarrow> bool \<Rightarrow> u64 \<Rightarrow> sock_state \<Rightarrow> int \<times> u8 list \<times> nm_sockaddr_in option \<times> sock_state" where
  "nm_recvfrom sockfd ok len s =
     (case get_sock sockfd s of
        None \<Rightarrow> (NM_ERR NM_EFAIL, [], None, s)
      | Some i \<Rightarrow>
          if \<not> ok \<or> len = 0 then (NM_ERR NM_EFAIL, [], None, s)
          else if se_type (socks s ! i) = NM_SOCK_DGRAM
          then let (n, out, src, ps) = udp_recv (se_local_port (socks s ! i)) True (ucast len) (s_udp s);
                   (ip, port) = (case src of Some x \<Rightarrow> x | None \<Rightarrow> (0, 0))
               in (n, out, if n \<ge> 0 then Some \<lparr>sin_family = word_of_int NM_AF_INET, sin_port = port, sin_addr = ip\<rparr> else None, set_udp ps s)
          else let conn_id = se_tcp_conn_id (socks s ! i) in
            if conn_id \<le> 0 then (NM_ERR NM_EFAIL, [], None, s)
            else let (n, out, t) = tcp_recv conn_id True (ucast len) (s_tcp s) in (n, out, None, set_tcp t s))"

definition nm_close_socket :: "int \<Rightarrow> sock_state \<Rightarrow> int \<times> sock_state" where
  "nm_close_socket sockfd s =
     (case get_sock sockfd s of
        None \<Rightarrow> (NM_ERR NM_EFAIL, s)
      | Some i \<Rightarrow>
          let e = socks s ! i;
              s = upd_sock i (\<lambda>e. e\<lparr>se_used := False\<rparr>) s;
              s = (if se_type e = NM_SOCK_DGRAM \<and> se_local_port e \<noteq> 0
                   then set_udp (snd (udp_unbind (se_local_port e) (s_udp s))) s else s);
              s = (if se_type e = NM_SOCK_STREAM \<and> se_tcp_conn_id e > 0
                   then set_tcp (snd (tcp_close (se_tcp_conn_id e) (s_tcp s))) s else s)
          in (0, s))"

interpretation sock: slot_table se_used "claim_sock type protocol" "alloc_socket_unlocked type protocol"
  by unfold_locales (auto simp: claim_sock_def alloc_socket_unlocked_def split: option.splits)


section \<open>The invariant\<close>

text \<open>A connection that a socket can own: in use and not waiting to be accepted.\<close>

definition tcp_live :: "tcp_table \<Rightarrow> int \<Rightarrow> bool" where
  "tcp_live t c \<longleftrightarrow> (\<exists>k<length (conns t). tc_used (conns t ! k) \<and> tc_id (conns t ! k) = c \<and> tc_state (conns t ! k) \<noteq> TCP_SYN_RECV)"

definition entry_ok :: "tcp_table \<Rightarrow> nm_socket_entry \<Rightarrow> bool" where
  "entry_ok t e \<longleftrightarrow> (se_used e \<longrightarrow> se_type e \<in> {NM_SOCK_STREAM, NM_SOCK_DGRAM} \<and>
     (se_tcp_conn_id e = - 1 \<or> se_type e = NM_SOCK_STREAM \<and> 0 < se_tcp_conn_id e \<and> tcp_live t (se_tcp_conn_id e)) \<and>
     (se_listening e \<longrightarrow> 0 < se_tcp_conn_id e))"

definition owners :: "int \<Rightarrow> nm_socket_entry list \<Rightarrow> nat" where
  "owners c t = count_if (\<lambda>e. se_used e \<and> se_tcp_conn_id e = c) t"

definition sock_inv :: "sock_state \<Rightarrow> bool" where
  "sock_inv s \<longleftrightarrow> length (socks s) = SOCK_MAX \<and> udp_inv (s_udp s) \<and> tcp_inv (s_tcp s) \<and>
     (\<forall>e\<in>set (socks s). entry_ok (s_tcp s) e) \<and> (\<forall>c>0. owners c (socks s) \<le> 1)"

lemma sock_simps [simp]:
  "socks (set_udp ps s) = socks s" "socks (set_tcp t s) = socks s" "socks (set_stats st s) = socks s"
  "s_udp (set_udp ps s) = ps" "s_udp (set_tcp t s) = s_udp s" "s_udp (set_stats st s) = s_udp s"
  "s_tcp (set_udp ps s) = s_tcp s" "s_tcp (set_tcp t s) = t" "s_tcp (set_stats st s) = s_tcp s"
  "s_stats (set_udp ps s) = s_stats s" "s_stats (set_tcp t s) = s_stats s" "s_stats (set_stats st s) = st"
  "sock_net (upd_sock i f s) = sock_net s" "socks (upd_sock i f s) = (socks s)[i := f (socks s ! i)]"
  "eph_port (set_udp ps s) = eph_port s" "eph_port (upd_sock i f s) = eph_port s"
  "get_sock fd (set_udp ps s) = get_sock fd s" "get_sock fd (set_tcp t s) = get_sock fd s" "get_sock fd (set_stats st s) = get_sock fd s"
  by (simp_all add: set_udp_def set_tcp_def set_stats_def upd_sock_def get_sock_def)

lemma get_sock_SomeD:
  "get_sock fd s = Some i \<Longrightarrow> i < SOCK_MAX \<and> se_used (socks s ! i) \<and> fd = int i"
  by (auto simp: get_sock_def split: if_splits)

lemma nth_update_any: "xs[i := v] ! j = (if i = j \<and> i < length xs then v else xs ! j)"
  by (cases "i < length xs") (simp_all add: nth_list_update list_update_beyond)

lemma get_sock_upd [simp]:
  "se_used (f (socks s ! i)) = se_used (socks s ! i) \<Longrightarrow> get_sock fd (upd_sock i f s) = get_sock fd s"
  by (cases "i = nat fd") (auto simp: get_sock_def nth_update_any simp del: not_le)

lemma sock_invD:
  assumes "sock_inv s"
  shows "length (socks s) = SOCK_MAX" "udp_inv (s_udp s)" "tcp_inv (s_tcp s)"
    "\<And>i. i < SOCK_MAX \<Longrightarrow> entry_ok (s_tcp s) (socks s ! i)" "\<And>c. 0 < c \<Longrightarrow> owners c (socks s) \<le> 1"
  using assms by (auto simp: sock_inv_def)

lemma owners_other: "i < length t \<Longrightarrow> owners c t = 0 \<Longrightarrow> \<not> (se_used (t ! i) \<and> se_tcp_conn_id (t ! i) = c)"
  by (metis (mono_tags) count_if_pos less_irrefl owners_def)

text \<open>An update of one entry: it stays well formed, and owns no connection that another one owns.\<close>

lemma sock_inv_entry:
  assumes "sock_inv s" "i < SOCK_MAX" "entry_ok (s_tcp s) (f (socks s ! i))"
    and "se_used (f (socks s ! i)) \<Longrightarrow> 0 < se_tcp_conn_id (f (socks s ! i)) \<Longrightarrow>
      owners (se_tcp_conn_id (f (socks s ! i))) (socks s) = 0 \<or>
      se_used (socks s ! i) \<and> se_tcp_conn_id (socks s ! i) = se_tcp_conn_id (f (socks s ! i))"
  shows "sock_inv (upd_sock i f s)"
proof -
  have il: "i < length (socks s)" using assms(2) sock_invD(1) [OF assms(1)] by simp
  have "owners c ((socks s)[i := f (socks s ! i)]) \<le> 1" if c: "0 < c" for c
  proof -
    have u: "owners c ((socks s)[i := f (socks s ! i)]) + (if se_used (socks s ! i) \<and> se_tcp_conn_id (socks s ! i) = c then 1 else 0) =
        owners c (socks s) + (if se_used (f (socks s ! i)) \<and> se_tcp_conn_id (f (socks s ! i)) = c then 1 else 0)"
      unfolding owners_def using count_if_update [OF il] by fastforce
    show ?thesis
    proof (cases "se_used (f (socks s ! i)) \<and> se_tcp_conn_id (f (socks s ! i)) = c")
      case True
      then show ?thesis using u assms(4) c sock_invD(5) [OF assms(1) c] by auto
    next
      case False
      then show ?thesis using u sock_invD(5) [OF assms(1) c] by auto
    qed
  qed
  then show ?thesis
    using assms(1,3) set_update_subset_insert [of "socks s" i "f (socks s ! i)"] by (auto simp: sock_inv_def)
qed

text \<open>A change below the table that keeps the connections the sockets own.\<close>

lemma entry_ok_live: "entry_ok t e \<Longrightarrow> (\<And>c. se_used e \<Longrightarrow> c = se_tcp_conn_id e \<Longrightarrow> tcp_live t c \<Longrightarrow> tcp_live t' c) \<Longrightarrow> entry_ok t' e"
  by (auto simp: entry_ok_def)

lemma sock_inv_tcp:
  assumes "sock_inv s" "tcp_inv t" "\<And>c. 0 < c \<Longrightarrow> 0 < owners c (socks s) \<Longrightarrow> tcp_live (s_tcp s) c \<Longrightarrow> tcp_live t c"
  shows "sock_inv (set_tcp t s)"
proof -
  have "entry_ok t e" if e: "e \<in> set (socks s)" for e
  proof (cases "se_used e \<and> 0 < se_tcp_conn_id e")
    case True
    obtain i where "i < length (socks s)" "e = socks s ! i" using e by (metis in_set_conv_nth)
    then have "0 < owners (se_tcp_conn_id e) (socks s)" using True unfolding owners_def count_if_pos by auto
    then show ?thesis using assms(1,3) True e by (auto simp: sock_inv_def intro: entry_ok_live)
  next
    case False
    then show ?thesis using assms(1) e by (auto simp: sock_inv_def entry_ok_def)
  qed
  then show ?thesis using assms(1,2) by (simp add: sock_inv_def)
qed

lemma sock_inv_udp: "sock_inv s \<Longrightarrow> udp_inv ps \<Longrightarrow> sock_inv (set_udp ps s)"
  by (simp add: sock_inv_def)

lemma sock_inv_frame [simp]: "sock_inv (set_stats st s) = sock_inv s" "sock_inv (s\<lparr>eph_port := p\<rparr>) = sock_inv s"
  by (simp_all add: sock_inv_def)

section \<open>What the connection layer keeps\<close>

lemma live_small: "tcp_inv t \<Longrightarrow> tcp_live t c \<Longrightarrow> 0 < c \<and> c < next_id t"
  using tcp_invD(1,3) [of t] by (auto simp: tcp_live_def conn_ok_def)

lemma tcp_live_upd:
  assumes "tcp_live t c" "\<And>k. k = i \<Longrightarrow> tc_used (conns t ! k) \<Longrightarrow> tc_id (conns t ! k) = c \<Longrightarrow> tc_state (conns t ! k) \<noteq> TCP_SYN_RECV \<Longrightarrow>
    tc_used (f (conns t ! k)) \<and> tc_id (f (conns t ! k)) = c \<and> tc_state (f (conns t ! k)) \<noteq> TCP_SYN_RECV"
  shows "tcp_live (upd_conn i f t) c"
proof -
  obtain k where "k < length (conns t)" "tc_used (conns t ! k)" "tc_id (conns t ! k) = c" "tc_state (conns t ! k) \<noteq> TCP_SYN_RECV"
    using assms(1) by (auto simp: tcp_live_def)
  then show ?thesis using assms(2) [of k] unfolding tcp_live_def by (intro exI [of _ k]) (auto simp: upd_conn_def nth_update_idx)
qed

lemma tcp_live_new:
  assumes "tcp_live t c" "\<And>k. k < length (conns t) \<Longrightarrow> tc_used (conns t ! k) \<Longrightarrow> conns t' ! k = conns t ! k" "length (conns t') = length (conns t)"
  shows "tcp_live t' c"
  using assms unfolding tcp_live_def by metis

lemma tcp_listen_live:
  assumes "tcp_inv t" "next_id t < 2 ^ 31 - 1" "tcp_listen port t = (cid, t')"
  shows "tcp_live t c \<Longrightarrow> tcp_live t' c" "\<not> cid < 0 \<Longrightarrow> cid = next_id t \<and> tcp_live t' cid"
proof -
  have "(tcp_live t c \<longrightarrow> tcp_live t' c) \<and> (\<not> cid < 0 \<longrightarrow> cid = next_id t \<and> tcp_live t' cid)"
  proof (cases "alloc_conn t")
    case None
    then show ?thesis using assms(3) by (simp add: tcp_listen_def)
  next
    case (Some x)
    then obtain i t1 where a: "alloc_conn t = Some (i, t1)" by (cases x) auto
    note d = alloc_conn_SomeD [OF a tcp_invD(1,2) [OF assms(1)] assms(2)]
    let ?c = "(claim_conn (next_id t) (conns t ! i))\<lparr>tc_state := TCP_LISTEN, tc_local_ip := 0, tc_local_port := port\<rparr>"
    have len: "i < length (conns t)" using d(1) tcp_invD(1) [OF assms(1)] by simp
    have t': "conns t' = (conns t)[i := ?c]" "cid = next_id t"
      using assms(3) a d(3,4) len by (auto simp: tcp_listen_def upd_conn_def claim_conn_def)
    have "tcp_live t' cid" using t' len unfolding tcp_live_def by (intro exI [of _ i]) (simp add: claim_conn_def)
    moreover have "tcp_live t c \<Longrightarrow> tcp_live t' c" by (rule tcp_live_new) (use t' d(2) in \<open>auto simp: nth_update_any\<close>)
    ultimately show ?thesis using t'(2) by simp
  qed
  then show "tcp_live t c \<Longrightarrow> tcp_live t' c" "\<not> cid < 0 \<Longrightarrow> cid = next_id t \<and> tcp_live t' cid" by blast+
qed

lemma tcp_connect_live:
  assumes "tcp_inv t" "next_id t < 2 ^ 31 - 2" "tcp_connect ip port src t st = (cid, t', st')"
  shows "tcp_live t c \<Longrightarrow> tcp_live t' c" "\<not> cid < 0 \<Longrightarrow> cid = next_id t \<and> tcp_live t' cid"
proof -
  have len: "length (conns t) = TCP_CONN_MAX" by (rule tcp_invD(1) [OF assms(1)])
  have "(tcp_live t c \<longrightarrow> tcp_live t' c) \<and> (\<not> cid < 0 \<longrightarrow> cid = next_id t \<and> tcp_live t' cid)"
    using assms
  proof (cases rule: tcp_connect_cases)
    case refused
    then show ?thesis by simp
  next
    case (no_room i)
    have "tcp_live t c \<Longrightarrow> tcp_live t' c" by (rule tcp_live_new) (use no_room(5,6) in \<open>auto simp: nth_update_any\<close>)
    then show ?thesis using no_room(1) by simp
  next
    case (made i j)
    have "tcp_live t c \<Longrightarrow> tcp_live t' c" by (rule tcp_live_new) (use made(5,6,9) in \<open>auto simp: nth_update_any\<close>)
    moreover have "tcp_live t' cid"
      using made(1,2,4,9) len unfolding tcp_live_def by (intro exI [of _ i]) (simp add: client_conn_def claim_conn_def)
    ultimately show ?thesis using made(1) by simp
  qed
  then show "tcp_live t c \<Longrightarrow> tcp_live t' c" "\<not> cid < 0 \<Longrightarrow> cid = next_id t \<and> tcp_live t' cid" by blast+
qed

lemma tcp_accept_live:
  assumes "tcp_inv t" "tcp_accept port t = (cid, t')"
  shows "tcp_live t c \<Longrightarrow> tcp_live t' c" "\<not> cid < 0 \<Longrightarrow> 0 < cid \<and> \<not> tcp_live t cid \<and> tcp_live t' cid"
proof -
  have "(tcp_live t c \<longrightarrow> tcp_live t' c) \<and> (\<not> cid < 0 \<longrightarrow> 0 < cid \<and> \<not> tcp_live t cid \<and> tcp_live t' cid)"
  proof (cases "first_idx (\<lambda>c. tc_used c \<and> tc_state c = TCP_SYN_RECV \<and> tc_local_port c = port) (conns t)")
    case None
    then show ?thesis using assms(2) by (simp add: tcp_accept_def)
  next
    case (Some i)
    note i = first_idx_SomeD(1,2) [OF Some]
    have t': "t' = upd_conn i (\<lambda>c. c\<lparr>tc_state := TCP_ESTABLISHED\<rparr>) t" "cid = tc_id (conns t ! i)"
      using assms(2) Some i by (auto simp: tcp_accept_def Let_def)
    have "0 < cid" using tcp_invD(1,3) [OF assms(1)] i t'(2) by (simp add: conn_ok_def)
    moreover have "tcp_live t' cid" using t' i unfolding tcp_live_def by (intro exI [of _ i]) simp
    moreover have "\<not> tcp_live t cid"
    proof
      assume "tcp_live t cid"
      then obtain k where k: "k < length (conns t)" "tc_used (conns t ! k)" "tc_id (conns t ! k) = tc_id (conns t ! i)"
        "tc_state (conns t ! k) \<noteq> TCP_SYN_RECV" using t'(2) by (auto simp: tcp_live_def)
      then have "k = i" using tcp_invD(1) [OF assms(1)] tcp_invD(4) [OF assms(1), of k i] i by simp
      then show False using k(4) i(2) by simp
    qed
    moreover have "tcp_live t c \<Longrightarrow> tcp_live t' c" unfolding t'(1) by (rule tcp_live_upd) simp_all
    ultimately show ?thesis by simp
  qed
  then show "tcp_live t c \<Longrightarrow> tcp_live t' c" "\<not> cid < 0 \<Longrightarrow> 0 < cid \<and> \<not> tcp_live t cid \<and> tcp_live t' cid" by blast+
qed

lemma tcp_send_live: "tcp_inv t \<Longrightarrow> tcp_send cid payload len t = Some (n, t') \<Longrightarrow> tcp_live t c \<Longrightarrow> tcp_live t' c"
  by (erule (1) tcp_send_cases) (auto simp: stored_def intro!: tcp_live_upd)

lemma tcp_recv_live: "tcp_recv cid ok cap t = (n, out, t') \<Longrightarrow> tcp_live t c \<Longrightarrow> tcp_live t' c"
  by (auto simp: tcp_recv_def Let_def intro!: tcp_live_upd split: option.splits if_splits)

lemma tcp_close_live: "tcp_close cid t = (r, t') \<Longrightarrow> tcp_inv t \<Longrightarrow> c \<noteq> cid \<Longrightarrow> tcp_live t c \<Longrightarrow> tcp_live t' c"
  using find_by_id_iff [of t cid] by (auto simp: tcp_close_def intro!: tcp_live_upd split: option.splits)


section \<open>Every operation keeps the invariant\<close>

text \<open>Changes of an entry that leave its type, connection and flags alone.\<close>

lemma sock_inv_same:
  assumes "sock_inv s" "i < SOCK_MAX" "se_used (f (socks s ! i)) = se_used (socks s ! i)" "se_type (f (socks s ! i)) = se_type (socks s ! i)"
    "se_tcp_conn_id (f (socks s ! i)) = se_tcp_conn_id (socks s ! i)" "se_listening (f (socks s ! i)) = se_listening (socks s ! i)"
  shows "sock_inv (upd_sock i f s)"
  using assms sock_invD(4) [OF assms(1,2)] by (intro sock_inv_entry) (auto simp: entry_ok_def)

lemma sock_inv_claim:
  assumes "sock_inv s" "alloc_socket_unlocked type protocol (socks s) = Some (i, t)" "type \<in> {NM_SOCK_STREAM, NM_SOCK_DGRAM}"
  shows "sock_inv (s\<lparr>socks := t\<rparr>)" "i < SOCK_MAX" "socks (s\<lparr>socks := t\<rparr>) ! i = claim_sock type protocol (socks s ! i)" "\<not> se_used (socks s ! i)"
proof -
  note a = sock.alloc_SomeD [OF assms(2)]
  show i: "i < SOCK_MAX" using a(1) sock_invD(1) [OF assms(1)] by simp
  show "socks (s\<lparr>socks := t\<rparr>) ! i = claim_sock type protocol (socks s ! i)" "\<not> se_used (socks s ! i)" using a(1,2,3) by simp_all
  have "sock_inv (upd_sock i (claim_sock type protocol) s)"
    using assms(3) by (intro sock_inv_entry [OF assms(1) i]) (simp_all add: entry_ok_def claim_sock_def)
  moreover have "upd_sock i (claim_sock type protocol) s = s\<lparr>socks := t\<rparr>" using a(3) by (simp add: upd_sock_def)
  ultimately show "sock_inv (s\<lparr>socks := t\<rparr>)" by simp
qed

lemma nm_socket_inv: "sock_inv s \<Longrightarrow> nm_socket domain type protocol s = (r, s') \<Longrightarrow> sock_inv s'"
  using sock_inv_claim(1) [of s type protocol] by (auto simp: nm_socket_def split: if_splits option.splits)

lemma udp_bind_inv: "udp_inv ps \<Longrightarrow> udp_bind port ps = (r, ps') \<Longrightarrow> udp_inv ps'"
  using udp_bind_refines by blast

lemma nm_bind_inv:
  assumes "sock_inv s" "nm_bind fd addr s = (r, s')"
  shows "sock_inv s'"
proof (cases "get_sock fd s = None \<or> addr = None \<or> int (unat (sin_family (the addr))) \<noteq> NM_AF_INET")
  case True
  then show ?thesis using assms by (auto simp: nm_bind_def split: option.splits if_splits)
next
  case False
  then obtain i a where i: "get_sock fd s = Some i" and a: "addr = Some a" "int (unat (sin_family a)) = NM_AF_INET" by auto
  have il: "i < SOCK_MAX" using get_sock_SomeD [OF i] by simp
  let ?s1 = "upd_sock i (\<lambda>e. e\<lparr>se_local_port := sin_port a\<rparr>) s"
  obtain b ps where b: "udp_bind (sin_port a) (s_udp s) = (b, ps)" by (metis prod.exhaust)
  have inv1: "sock_inv ?s1" by (rule sock_inv_same [OF assms(1) il]) simp_all
  have inv2: "sock_inv (set_udp ps ?s1)" using sock_inv_udp [OF inv1] udp_bind_inv [OF sock_invD(2) [OF assms(1)] b] by simp
  have inv3: "sock_inv (upd_sock i (\<lambda>e. e\<lparr>se_local_port := p\<rparr>) (set_udp ps ?s1))" for p
    by (rule sock_inv_same [OF inv2 il]) simp_all
  show ?thesis using assms(2) i a b inv1 inv2 inv3 by (auto simp: nm_bind_def Let_def split: if_splits)
qed

lemma fresh_no_owner:
  assumes "sock_inv s" "\<not> tcp_live (s_tcp s) c" "0 < c"
  shows "owners c (socks s) = 0"
proof (rule ccontr)
  assume "owners c (socks s) \<noteq> 0"
  then obtain i where "i < length (socks s)" "se_used (socks s ! i)" "se_tcp_conn_id (socks s ! i) = c"
    unfolding owners_def by (auto simp: count_if_pos [symmetric] simp del: count_if_pos) (metis (mono_tags, lifting) count_if_pos neq0_conv)
  then show False using assms(2,3) sock_invD(1) [OF assms(1)] sock_invD(4) [OF assms(1), of i] by (auto simp: entry_ok_def)
qed

lemma nm_listen_inv:
  assumes "sock_inv s" "next_id (s_tcp s) < 2 ^ 31 - 1" "nm_listen fd backlog s = (r, s')"
  shows "sock_inv s'"
proof (cases "get_sock fd s = None \<or> se_type (socks s ! the (get_sock fd s)) \<noteq> NM_SOCK_STREAM \<or> se_local_port (socks s ! the (get_sock fd s)) = 0")
  case True
  then show ?thesis using assms(1,3) by (auto simp: nm_listen_def Let_def split: option.splits)
next
  case False
  then obtain i where i: "get_sock fd s = Some i" "se_type (socks s ! i) = NM_SOCK_STREAM" "se_local_port (socks s ! i) \<noteq> 0" by auto
  have il: "i < SOCK_MAX" "i < length (socks s)" using get_sock_SomeD [OF i(1)] sock_invD(1) [OF assms(1)] by simp_all
  obtain cid t where t: "tcp_listen (se_local_port (socks s ! i)) (s_tcp s) = (cid, t)" by (metis prod.exhaust)
  note ti = sock_invD(3) [OF assms(1)]
  have inv1: "sock_inv (set_tcp t s)"
    using tcp_listen_ok(1) [OF ti assms(2) t] tcp_listen_live(1) [OF ti assms(2) t] by (intro sock_inv_tcp [OF assms(1)]) auto
  show ?thesis
  proof (cases "cid < 0")
    case True
    then show ?thesis using assms(3) i t inv1 by (simp add: nm_listen_def)
  next
    case False
    then have c: "cid = next_id (s_tcp s)" "tcp_live t cid" using tcp_listen_live(2) [OF ti assms(2) t] by blast+
    have "\<not> tcp_live (s_tcp s) cid" using live_small [OF ti] c(1) by blast
    then have o: "owners cid (socks s) = 0" using fresh_no_owner [OF assms(1)] c(1) tcp_invD(2) [OF ti] by simp
    have "sock_inv (upd_sock i (\<lambda>e. e\<lparr>se_tcp_conn_id := cid, se_listening := True\<rparr>) (set_tcp t s))"
      using o i(2,3) c tcp_invD(2) [OF ti] il(2) by (intro sock_inv_entry [OF inv1 il(1)]) (simp_all add: entry_ok_def)
    then show ?thesis using assms(3) i t False by (simp add: nm_listen_def)
  qed
qed


lemma nm_accept_inv:
  assumes "sock_inv s" "nm_accept fd s = (r, addr, s')"
  shows "sock_inv s'"
proof (cases "get_sock fd s = None \<or> \<not> se_listening (socks s ! the (get_sock fd s))")
  case True
  then show ?thesis using assms by (auto simp: nm_accept_def split: option.splits)
next
  case False
  then obtain i where i: "get_sock fd s = Some i" "se_listening (socks s ! i)" by auto
  let ?port = "se_local_port (socks s ! i)"
  obtain conn t where t: "tcp_accept ?port (s_tcp s) = (conn, t)" by (metis prod.exhaust)
  note ti = sock_invD(3) [OF assms(1)]
  have inv1: "sock_inv (set_tcp t s)"
    using tcp_accept_ok [OF ti t] tcp_accept_live(1) [OF ti t] by (intro sock_inv_tcp [OF assms(1)]) auto
  show ?thesis
  proof (cases "conn < 0")
    case True
    then show ?thesis using assms(2) i t inv1 by (simp add: nm_accept_def)
  next
    case False
    then have c: "0 < conn" "\<not> tcp_live (s_tcp s) conn" "tcp_live t conn" using tcp_accept_live(2) [OF ti t] by blast+
    have o: "owners conn (socks s) = 0" by (rule fresh_no_owner [OF assms(1) c(2,1)])
    show ?thesis
    proof (cases "alloc_socket_unlocked NM_SOCK_STREAM 0 (socks s)")
      case None
      obtain r2 t2 where cl: "tcp_close conn t = (r2, t2)" by (metis prod.exhaust)
      have ti1: "tcp_inv t" using sock_invD(3) [OF inv1] by simp
      have ne: "0 < owners c (socks s) \<Longrightarrow> c \<noteq> conn" for c using o by auto
      have "sock_inv (set_tcp t2 (set_tcp t s))"
        using tcp_close_ok [OF ti1 cl] tcp_close_live [OF cl ti1 ne] by (intro sock_inv_tcp [OF inv1]) simp_all
      then show ?thesis using assms(2) i t False None cl by (simp add: nm_accept_def)
    next
      case (Some x)
      then obtain ch tab where a: "alloc_socket_unlocked NM_SOCK_STREAM 0 (socks (set_tcp t s)) = Some (ch, tab)" by (cases x) auto
      note k = sock_inv_claim [OF inv1 a]
      let ?s2 = "(set_tcp t s)\<lparr>socks := tab\<rparr>"
      have inv2: "sock_inv ?s2" and ch: "ch < SOCK_MAX" and e: "tab ! ch = claim_sock NM_SOCK_STREAM 0 (socks s ! ch)" using k by simp_all
      have t2: "s_tcp ?s2 = t" by (simp add: set_tcp_def)
      have o2: "owners conn tab = 0"
      proof -
        have "tab = (socks s)[ch := claim_sock NM_SOCK_STREAM 0 (socks s ! ch)]" "ch < length (socks s)" using sock.alloc_SomeD [OF a] by simp_all
        then show ?thesis
          using count_if_update [of ch "socks s" "\<lambda>e. se_used e \<and> se_tcp_conn_id e = conn" "claim_sock NM_SOCK_STREAM 0 (socks s ! ch)"] o c(1)
          by (simp add: owners_def claim_sock_def)
      qed
      have "sock_inv (upd_sock ch (\<lambda>e. e\<lparr>se_local_port := ?port, se_tcp_conn_id := conn\<rparr>) ?s2)"
        using c(1,3) o2 e by (intro sock_inv_entry [OF inv2 ch]) (simp_all add: entry_ok_def t2 claim_sock_def)
      then show ?thesis using assms(2) i t False a by (auto simp: nm_accept_def Let_def)
    qed
  qed
qed

lemma pick_port_ok:
  assumes "sock_inv s" "i < SOCK_MAX"
  shows "sock_inv (pick_port i s)" "sock_net (pick_port i s) = sock_net s" "get_sock fd (pick_port i s) = get_sock fd s"
    "se_type (socks (pick_port i s) ! j) = se_type (socks s ! j)" "se_tcp_conn_id (socks (pick_port i s) ! j) = se_tcp_conn_id (socks s ! j)"
proof -
  have "sock_inv (upd_sock i (\<lambda>e. e\<lparr>se_local_port := eph_port s\<rparr>) (s\<lparr>eph_port := eph_port s + 1\<rparr>))"
    using assms by (intro sock_inv_same) simp_all
  then show "sock_inv (pick_port i s)" using assms(1) by (simp add: pick_port_def)
qed (simp_all add: pick_port_def get_sock_def nth_update_any)

lemma nm_connect_inv:
  assumes "sock_inv s" "next_id (s_tcp s) < 2 ^ 31 - 2" "nm_connect fd addr s = (r, s')"
  shows "sock_inv s'"
proof (cases "get_sock fd s = None \<or> addr = None \<or> se_type (socks s ! the (get_sock fd s)) \<noteq> NM_SOCK_STREAM")
  case True
  then show ?thesis using assms(1,3) by (auto simp: nm_connect_def split: option.splits)
next
  case False
  then obtain i a where i: "get_sock fd s = Some i" "se_type (socks s ! i) = NM_SOCK_STREAM" and a: "addr = Some a" by auto
  have il: "i < SOCK_MAX" "i < length (socks s)" using get_sock_SomeD [OF i(1)] sock_invD(1) [OF assms(1)] by simp_all
  let ?auto = "se_local_port (socks s ! i) = 0" and ?s1 = "pick_port i s"
  let ?lp = "se_local_port (socks ?s1 ! i)"
  have i1: "sock_inv ?s1" and n1: "sock_net ?s1 = sock_net s" "get_sock fd ?s1 = Some i" "se_type (socks ?s1 ! i) = NM_SOCK_STREAM"
    using pick_port_ok [OF assms(1) il(1)] i by simp_all
  obtain conn t st where t: "tcp_connect (sin_addr a) (sin_port a) ?lp (s_tcp ?s1) (s_stats ?s1) = (conn, t, st)" by (metis prod_cases3)
  note ti = sock_invD(3) [OF i1]
  have b: "next_id (s_tcp ?s1) < 2 ^ 31 - 2" using assms(2) n1(1) by simp
  let ?s2 = "set_stats st (set_tcp t ?s1)"
  have i2: "sock_inv ?s2"
    using tcp_connect_ok [OF ti b t] tcp_connect_live(1) [OF ti b t] by (simp, intro sock_inv_tcp [OF i1]) auto
  have res: "(r, s') = (if conn < 0
      then (NM_ERR NM_EFAIL, if ?auto then upd_sock i (\<lambda>e. e\<lparr>se_local_port := 0\<rparr>) ?s2 else ?s2)
      else (0, upd_sock i (\<lambda>e. e\<lparr>se_peer_ip := sin_addr a, se_peer_port := sin_port a, se_tcp_conn_id := conn\<rparr>) ?s2))"
    using assms(3) i a n1 t by (auto simp: nm_connect_def Let_def split: if_splits)
  show ?thesis
  proof (cases "conn < 0")
    case True
    have "sock_inv (upd_sock i (\<lambda>e. e\<lparr>se_local_port := 0\<rparr>) ?s2)" by (rule sock_inv_same [OF i2 il(1)]) simp_all
    then show ?thesis using res True i2 by (auto split: if_splits)
  next
    case False
    then have c: "conn = next_id (s_tcp ?s1)" "tcp_live t conn" using tcp_connect_live(2) [OF ti b t] by blast+
    have "\<not> tcp_live (s_tcp ?s1) conn" using live_small [OF ti] c(1) by blast
    then have o: "owners conn (socks ?s1) = 0" using fresh_no_owner [OF i1] c(1) tcp_invD(2) [OF ti] by simp
    have "sock_inv (upd_sock i (\<lambda>e. e\<lparr>se_peer_ip := sin_addr a, se_peer_port := sin_port a, se_tcp_conn_id := conn\<rparr>) ?s2)"
      using o c tcp_invD(2) [OF ti] n1(3) by (intro sock_inv_entry [OF i2 il(1)]) (simp_all add: entry_ok_def)
    then show ?thesis using res False by simp
  qed
qed


lemma udp_sendto_inv: "udp_inv ps \<Longrightarrow> udp_sendto src ip dst payload len ps st = Some (n, ps', st') \<Longrightarrow> udp_inv ps'"
  using udp_deliver_refines by (auto simp: udp_sendto_def split: option.splits if_splits)

lemma nm_sendto_inv:
  assumes "sock_inv s" "nm_sendto fd buf len addr s = Some (r, s')"
  shows "sock_inv s'"
proof (cases "get_sock fd s = None \<or> buf = None \<or> len = 0")
  case True
  then show ?thesis using assms by (auto simp: nm_sendto_def split: option.splits)
next
  case False
  then obtain i data where i: "get_sock fd s = Some i" "buf = Some data" "len \<noteq> 0" by auto
  have il: "i < SOCK_MAX" using get_sock_SomeD [OF i(1)] by simp
  show ?thesis
  proof (cases "se_type (socks s ! i) = NM_SOCK_DGRAM")
    case False
    let ?c = "se_tcp_conn_id (socks s ! i)"
    have e: "nm_sendto fd buf len addr s = (if ?c \<le> 0 then Some (NM_ERR NM_EFAIL, s)
        else map_option (\<lambda>(n, t). (n, set_tcp t s)) (tcp_send ?c (Some data) (ucast len) (s_tcp s)))"
      by (simp add: nm_sendto_def i False)
    show ?thesis
    proof (cases "?c \<le> 0")
      case True
      then show ?thesis using assms e by simp
    next
      case False
      then obtain n t where t: "tcp_send ?c (Some data) (ucast len) (s_tcp s) = Some (n, t)" and s': "s' = set_tcp t s"
        using assms(2) e by auto
      note ti = sock_invD(3) [OF assms(1)]
      show ?thesis
        unfolding s' using tcp_send_ok [OF ti t] tcp_send_live [OF ti t] by (intro sock_inv_tcp [OF assms(1)]) simp_all
    qed
  next
    case True
    show ?thesis
    proof (cases addr)
      case None
      then show ?thesis using assms i True by (simp add: nm_sendto_def)
    next
      case (Some a)
      let ?s1 = "pick_port i s" and ?p = "se_local_port (socks (pick_port i s) ! i)"
      have i1: "sock_inv ?s1" by (rule pick_port_ok(1) [OF assms(1) il])
      obtain b ps where b: "udp_bind ?p (s_udp ?s1) = (b, ps)" by (metis prod.exhaust)
      have ui: "udp_inv ps" by (rule udp_bind_inv [OF sock_invD(2) [OF i1] b])
      have i2: "sock_inv (set_udp ps ?s1)" by (rule sock_inv_udp [OF i1 ui])
      have "nm_sendto fd buf len addr s = (if b \<noteq> 0 then Some (NM_ERR NM_EFAIL, set_udp ps ?s1)
          else map_option (\<lambda>(n, ps', st). (n, set_stats st (set_udp ps' (set_udp ps ?s1))))
          (udp_sendto ?p (sin_addr a) (sin_port a) (Some data) (ucast len) ps (s_stats ?s1)))"
        by (simp add: nm_sendto_def i True Some b Let_def)
      then have e: "(if b \<noteq> 0 then Some (NM_ERR NM_EFAIL, set_udp ps ?s1)
          else map_option (\<lambda>(n, ps', st). (n, set_stats st (set_udp ps' (set_udp ps ?s1))))
          (udp_sendto ?p (sin_addr a) (sin_port a) (Some data) (ucast len) ps (s_stats ?s1))) = Some (r, s')" using assms(2) by metis
      show ?thesis
      proof (cases "b \<noteq> 0")
        case True
        then show ?thesis using e i2 by simp
      next
        case False
        then obtain n ps1 st where u: "udp_sendto ?p (sin_addr a) (sin_port a) (Some data) (ucast len) ps (s_stats ?s1) = Some (n, ps1, st)"
          and s': "s' = set_stats st (set_udp ps1 (set_udp ps ?s1))" using e by (simp only: if_False map_option_eq_Some) auto
        show ?thesis using sock_inv_udp [OF i2 udp_sendto_inv [OF ui u]] unfolding s' by simp
      qed
    qed
  qed
qed

lemma nm_recvfrom_inv:
  assumes "sock_inv s" "nm_recvfrom fd ok len s = (n, out, src, s')"
  shows "sock_inv s'"
proof (cases "get_sock fd s = None \<or> \<not> ok \<or> len = 0")
  case True
  then show ?thesis using assms by (auto simp: nm_recvfrom_def split: option.splits)
next
  case False
  then obtain i where i: "get_sock fd s = Some i" "ok" "len \<noteq> 0" by auto
  let ?e = "socks s ! i"
  obtain m o' q ps where u: "udp_recv (se_local_port ?e) True (ucast len) (s_udp s) = (m, o', q, ps)" by (metis prod_cases4)
  obtain m2 o2 t where t: "tcp_recv (se_tcp_conn_id ?e) True (ucast len) (s_tcp s) = (m2, o2, t)" by (metis prod_cases3)
  note ti = sock_invD(3) [OF assms(1)]
  have "sock_inv (set_udp ps s)" using sock_inv_udp [OF assms(1)] udp_recv_refines [OF sock_invD(2) [OF assms(1)] u] by simp
  moreover have "sock_inv (set_tcp t s)"
    using tcp_recv_ok [OF ti t] tcp_recv_live [OF t] by (intro sock_inv_tcp [OF assms(1)]) simp_all
  moreover have "s' = (if se_type ?e = NM_SOCK_DGRAM then set_udp ps s else if se_tcp_conn_id ?e \<le> 0 then s else set_tcp t s)"
    using assms(2) i u t by (cases "se_type ?e = NM_SOCK_DGRAM"; cases "se_tcp_conn_id ?e \<le> 0") (auto simp: nm_recvfrom_def split: prod.splits)
  ultimately show ?thesis using assms(1) by (simp split: if_splits)
qed

lemma nm_close_socket_inv:
  assumes "sock_inv s" "nm_close_socket fd s = (r, s')"
  shows "sock_inv s'"
proof (cases "get_sock fd s")
  case None
  then show ?thesis using assms by (simp add: nm_close_socket_def)
next
  case (Some i)
  have il: "i < SOCK_MAX" "i < length (socks s)" "se_used (socks s ! i)" using get_sock_SomeD [OF Some] sock_invD(1) [OF assms(1)] by simp_all
  let ?e = "socks s ! i" and ?s1 = "upd_sock i (\<lambda>e. e\<lparr>se_used := False\<rparr>) s"
  let ?s2 = "if se_type ?e = NM_SOCK_DGRAM \<and> se_local_port ?e \<noteq> 0 then set_udp (snd (udp_unbind (se_local_port ?e) (s_udp ?s1))) ?s1 else ?s1"
  have i1: "sock_inv ?s1" by (rule sock_inv_entry [OF assms(1) il(1)]) (simp_all add: entry_ok_def)
  have "udp_inv (snd (udp_unbind p (s_udp s)))" for p
    using udp_unbind_refines [OF sock_invD(2) [OF assms(1)]] by (metis prod.collapse)
  then have i2: "sock_inv ?s2" using i1 sock_inv_udp [OF i1] by simp
  have t2: "s_tcp ?s2 = s_tcp s" "socks ?s2 = socks ?s1" by simp_all
  obtain r2 t where cl: "tcp_close (se_tcp_conn_id ?e) (s_tcp s) = (r2, t)" by (metis prod.exhaust)
  note ti = sock_invD(3) [OF assms(1)]
  have "sock_inv (set_tcp t ?s2)" if pos: "0 < se_tcp_conn_id ?e"
  proof (rule sock_inv_tcp [OF i2])
    show "tcp_inv t" using tcp_close_ok [OF ti cl] by simp
    fix c :: int assume c: "0 < c" "0 < owners c (socks ?s2)" "tcp_live (s_tcp ?s2) c"
    have "c \<noteq> se_tcp_conn_id ?e"
    proof
      assume "c = se_tcp_conn_id ?e"
      then have "Suc (owners c (socks ?s1)) = owners c (socks s)"
        unfolding owners_def using il count_if_drop [OF il(2), of "\<lambda>e. se_used e \<and> se_tcp_conn_id e = c" "?e\<lparr>se_used := False\<rparr>"] by simp
      then show False using c(1,2) t2(2) sock_invD(5) [OF assms(1) c(1)] by simp
    qed
    then show "tcp_live t c" using tcp_close_live [OF cl ti] c(3) t2(1) by simp
  qed
  moreover have "s' = (if se_type ?e = NM_SOCK_STREAM \<and> 0 < se_tcp_conn_id ?e then set_tcp t ?s2 else ?s2)"
    using assms(2) Some cl by (auto simp: nm_close_socket_def Let_def)
  ultimately show ?thesis using i2 by (cases "se_type ?e = NM_SOCK_STREAM \<and> 0 < se_tcp_conn_id ?e") simp_all
qed

section \<open>Runs\<close>

inductive sock_step :: "sock_state \<Rightarrow> sock_state \<Rightarrow> bool" where
  k_socket: "nm_socket domain type protocol s = (r, s') \<Longrightarrow> sock_step s s'"
| k_bind: "nm_bind fd addr s = (r, s') \<Longrightarrow> sock_step s s'"
| k_listen: "next_id (s_tcp s) < 2 ^ 31 - 1 \<Longrightarrow> nm_listen fd backlog s = (r, s') \<Longrightarrow> sock_step s s'"
| k_accept: "nm_accept fd s = (r, a, s') \<Longrightarrow> sock_step s s'"
| k_connect: "next_id (s_tcp s) < 2 ^ 31 - 2 \<Longrightarrow> nm_connect fd addr s = (r, s') \<Longrightarrow> sock_step s s'"
| k_send: "nm_sendto fd buf len addr s = Some (r, s') \<Longrightarrow> sock_step s s'"
| k_recv: "nm_recvfrom fd ok len s = (r, out, a, s') \<Longrightarrow> sock_step s s'"
| k_close: "nm_close_socket fd s = (r, s') \<Longrightarrow> sock_step s s'"
| k_frame: "net_input_frame frame len (sock_net s) = Some (r, n) \<Longrightarrow> sock_step s (s\<lparr>sock_net := n\<rparr>)"

inductive sock_run :: "sock_state \<Rightarrow> bool" where
  boot: "length (socks s) = SOCK_MAX \<Longrightarrow> eph_port s = 40000 \<Longrightarrow> \<forall>e\<in>set (socks s). \<not> se_used e \<Longrightarrow> udp_inv (s_udp s) \<Longrightarrow> tcp_boot (s_tcp s) \<Longrightarrow> sock_run s"
| step: "sock_run s \<Longrightarrow> sock_step s s' \<Longrightarrow> sock_run s'"

lemma net_input_frame_keeps:
  assumes "net_input_frame frame len n = Some (r, n')" "udp_inv (udp_ports n)"
  shows "udp_inv (udp_ports n')" "tcp_conn_table n' = tcp_conn_table n"
proof -
  have arp: "udp_ports (arp_cache_add ip mac m) = udp_ports m \<and> tcp_conn_table (arp_cache_add ip mac m) = tcp_conn_table m" for ip mac m
    by (simp add: arp_cache_add_def Let_def split: sum.split)
  have udp: "udp_inv ps'" if "udp_input src dst p l ps st = Some (ps', st')" "udp_inv ps" for src dst p l ps st ps' st'
    using that udp_deliver_refines by (auto simp: udp_input_def bind_eq_Some_conv split: if_splits)
  have ip: "udp_inv (udp_ports m') \<and> tcp_conn_table m' = tcp_conn_table m" if "ipv4_input p l m = Some m'" "udp_inv (udp_ports m)" for p l m m'
    using that udp by (auto simp: ipv4_input_def icmp_input_def tcp_input_def bind_eq_Some_conv Let_def split: if_splits prod.splits)
  have arpi: "udp_ports m' = udp_ports m \<and> tcp_conn_table m' = tcp_conn_table m" if "arp_input p l m = Some m'" for p l m m'
    using that arp by (auto simp: arp_input_def bind_eq_Some_conv split: if_splits)
  have note_: "udp_ports (note_rx_frame n) = udp_ports n" "tcp_conn_table (note_rx_frame n) = tcp_conn_table n"
    "udp_ports (note_rx_dropped m) = udp_ports m" "tcp_conn_table (note_rx_dropped m) = tcp_conn_table m" for m
    by (simp_all add: note_rx_frame_def note_rx_dropped_def)
  have "udp_inv (udp_ports n') \<and> tcp_conn_table n' = tcp_conn_table n"
  proof (cases "frame = None \<or> len < 14")
    case True
    then have "n' = note_rx_dropped n" using assms(1) by (auto simp: net_input_frame_def split: option.splits)
    then show ?thesis using assms(2) by (simp add: note_)
  next
    case False
    then obtain bytes where f: "frame = Some bytes" "\<not> len < 14" by auto
    obtain b0 b1 where b: "byte_at bytes 12 = Some b0" "byte_at bytes 13 = Some b1"
      using assms(1) f by (cases "byte_at bytes 12"; cases "byte_at bytes 13") (simp_all add: net_input_frame_def)
    let ?ty = "bswap16 (ucast b0 OR push_bit 8 (ucast b1))"
    consider "?ty = NM_ETH_TYPE_ARP" | "?ty \<noteq> NM_ETH_TYPE_ARP" "?ty = NM_ETH_TYPE_IPV4" | "?ty \<noteq> NM_ETH_TYPE_ARP" "?ty \<noteq> NM_ETH_TYPE_IPV4" by blast
    then show ?thesis
    proof cases
      case 1
      then have "arp_input (drop 14 bytes) (ucast (len - 14)) (note_rx_frame n) = Some n'"
        using assms(1) f by (simp add: net_input_frame_def b Let_def)
      then show ?thesis using arpi assms(2) by (fastforce simp: note_)
    next
      case 2
      then have "ipv4_input (drop 14 bytes) (ucast (len - 14)) (note_rx_frame n) = Some n'"
        using assms(1) f by (simp add: net_input_frame_def b Let_def)
      then show ?thesis using ip assms(2) by (fastforce simp: note_)
    next
      case 3
      then have "n' = note_rx_dropped (note_rx_frame n)" using assms(1) f by (simp add: net_input_frame_def b Let_def)
      then show ?thesis using assms(2) by (simp add: note_)
    qed
  qed
  then show "udp_inv (udp_ports n')" "tcp_conn_table n' = tcp_conn_table n" by simp_all
qed

lemma sock_step_inv: "sock_step s s' \<Longrightarrow> sock_inv s \<Longrightarrow> sock_inv s'"
proof (induction rule: sock_step.induct)
  case (k_frame frame len s r n)
  then show ?case using net_input_frame_keeps [OF k_frame(1)] by (simp add: sock_inv_def)
qed (erule (1) nm_socket_inv [rotated] nm_bind_inv [rotated] nm_accept_inv [rotated] nm_sendto_inv [rotated]
    nm_recvfrom_inv [rotated] nm_close_socket_inv [rotated] | erule (2) nm_listen_inv [rotated 2] nm_connect_inv [rotated 2])+

lemma sock_run_inv: "sock_run s \<Longrightarrow> sock_inv s"
proof (induction rule: sock_run.induct)
  case (boot s)
  have "owners c (socks s) = 0" for c
    using boot(3) unfolding owners_def by (metis (mono_tags, lifting) count_if_pos gr0I nth_mem)
  then show ?case using boot tcp_boot_inv by (simp add: sock_inv_def entry_ok_def)
qed (use sock_step_inv in blast)


section \<open>Properties\<close>

text \<open>A run of the socket calls from boot: two datagram sockets, the second one bound to port 53.\<close>

definition demo_entry :: nm_socket_entry where
  "demo_entry = \<lparr>se_used = False, se_type = 0, se_proto = 0, se_local_port = 0, se_peer_ip = 0, se_peer_port = 0, se_tcp_conn_id = 0,
     se_listening = False\<rparr>"

definition demo_socks :: sock_state where
  "demo_socks = \<lparr>socks = replicate SOCK_MAX demo_entry, eph_port = 40000, sock_net = demo_net\<rparr>"

definition demo_socks2 :: sock_state where
  "demo_socks2 = snd (nm_socket 2 2 0 (snd (nm_socket 2 2 0 demo_socks)))"

definition demo_bound_sock :: sock_state where
  "demo_bound_sock = snd (nm_bind 1 (Some \<lparr>sin_family = 2, sin_port = 53, sin_addr = 0\<rparr>) demo_socks2)"

lemma demo_net_parts: "udp_ports demo_net = demo_ports" "tcp_conn_table demo_net = demo_tcp"
  by (simp_all add: demo_net_def net_init_def)

lemma demo_socks_run: "sock_run demo_socks"
  by (rule sock_run.boot) (simp_all add: demo_socks_def demo_entry_def demo_net_parts demo_ports_inv demo_tcp_boot)

lemma demo_socks2:
  "socks demo_socks2 = claim_sock 2 0 demo_entry # claim_sock 2 0 demo_entry # replicate 62 demo_entry" "sock_net demo_socks2 = demo_net"
  "eph_port demo_socks2 = 40000" "sock_run demo_socks2"
proof -
  have r: "socks demo_socks = demo_entry # demo_entry # replicate 62 demo_entry"
    by (simp add: demo_socks_def SOCK_MAX_def replicate_Suc [symmetric] del: replicate_Suc)
  have u: "\<not> se_used demo_entry" "se_used (claim_sock 2 0 demo_entry)" by (simp_all add: demo_entry_def claim_sock_def)
  have one: "nm_socket 2 2 0 demo_socks = (0, demo_socks\<lparr>socks := claim_sock 2 0 demo_entry # demo_entry # replicate 62 demo_entry\<rparr>)"
    by (simp add: nm_socket_def alloc_socket_unlocked_def r u NM_AF_INET_def NM_SOCK_DGRAM_def)
  have two: "nm_socket 2 2 0 (demo_socks\<lparr>socks := claim_sock 2 0 demo_entry # demo_entry # replicate 62 demo_entry\<rparr>) =
      (1, demo_socks\<lparr>socks := claim_sock 2 0 demo_entry # claim_sock 2 0 demo_entry # replicate 62 demo_entry\<rparr>)"
    by (simp add: nm_socket_def alloc_socket_unlocked_def u NM_AF_INET_def NM_SOCK_DGRAM_def)
  show "socks demo_socks2 = claim_sock 2 0 demo_entry # claim_sock 2 0 demo_entry # replicate 62 demo_entry" "sock_net demo_socks2 = demo_net"
    "eph_port demo_socks2 = 40000"
    by (simp_all add: demo_socks2_def one two) (simp_all add: demo_socks_def)
  show "sock_run demo_socks2"
    using sock_run.step [OF sock_run.step [OF demo_socks_run sock_step.k_socket [OF one]] sock_step.k_socket [OF two]]
    by (simp add: demo_socks2_def one two)
qed

lemma demo_get_sock: "get_sock 0 demo_socks2 = Some 0" "get_sock 1 demo_socks2 = Some 1"
  "se_type (socks demo_socks2 ! 0) = NM_SOCK_DGRAM" "se_type (socks demo_socks2 ! 1) = NM_SOCK_DGRAM"
  by (simp_all add: get_sock_def demo_socks2 claim_sock_def SOCK_MAX_def NM_SOCK_DGRAM_def)

lemma demo_bound_sock:
  "nm_bind 1 (Some \<lparr>sin_family = 2, sin_port = 53, sin_addr = 0\<rparr>) demo_socks2 = (0, demo_bound_sock)"
  "s_udp demo_bound_sock = snd (udp_bind 53 demo_ports)" "sock_run demo_bound_sock"
  "socks demo_bound_sock = claim_sock 2 0 demo_entry # (claim_sock 2 0 demo_entry)\<lparr>se_local_port := 53\<rparr> # replicate 62 demo_entry"
  "eph_port demo_bound_sock = 40000" "s_stats demo_bound_sock = s_stats demo_socks2"
proof -
  have b: "nm_bind 1 (Some \<lparr>sin_family = 2, sin_port = 53, sin_addr = 0\<rparr>) demo_socks2 =
      (0, set_udp (snd (udp_bind 53 demo_ports)) (upd_sock 1 (\<lambda>e. e\<lparr>se_local_port := 53\<rparr>) demo_socks2))"
    using demo_get_sock by (simp add: nm_bind_def Let_def NM_AF_INET_def demo_socks2 claim_sock_def demo_net_parts demo_bind)
  then show e: "nm_bind 1 (Some \<lparr>sin_family = 2, sin_port = 53, sin_addr = 0\<rparr>) demo_socks2 = (0, demo_bound_sock)"
    by (simp add: demo_bound_sock_def)
  show "sock_run demo_bound_sock" by (rule sock_run.step [OF demo_socks2(4) sock_step.k_bind [OF e]])
  have s: "demo_bound_sock = set_udp (snd (udp_bind 53 demo_ports)) (upd_sock 1 (\<lambda>e. e\<lparr>se_local_port := 53\<rparr>) demo_socks2)"
    using b by (simp add: demo_bound_sock_def)
  show "s_udp demo_bound_sock = snd (udp_bind 53 demo_ports)" "eph_port demo_bound_sock = 40000" "s_stats demo_bound_sock = s_stats demo_socks2"
    "socks demo_bound_sock = claim_sock 2 0 demo_entry # (claim_sock 2 0 demo_entry)\<lparr>se_local_port := 53\<rparr> # replicate 62 demo_entry"
    by (simp_all add: s demo_socks2)
qed

text \<open>
  C24: sockets own their connections. Whatever sequence of socket calls and incoming frames has run since
  boot, every open socket is a stream or a datagram socket, a datagram socket has no connection, a
  connection that a socket has is in use and not one that still waits to be accepted, and no two open
  sockets have the same connection.
\<close>
theorem sockets_own_connections:
  assumes "sock_run s" "get_sock fd s = Some i"
  shows "se_type (socks s ! i) \<in> {NM_SOCK_STREAM, NM_SOCK_DGRAM} \<and>
    (se_tcp_conn_id (socks s ! i) = - 1 \<or>
     se_type (socks s ! i) = NM_SOCK_STREAM \<and> tcp_live (s_tcp s) (se_tcp_conn_id (socks s ! i)) \<and>
     (\<forall>fd' j. get_sock fd' s = Some j \<longrightarrow> se_tcp_conn_id (socks s ! j) = se_tcp_conn_id (socks s ! i) \<longrightarrow> j = i))"
proof -
  have inv: "sock_inv s" by (rule sock_run_inv [OF assms(1)])
  have i: "i < length (socks s)" "se_used (socks s ! i)" "i < SOCK_MAX" using get_sock_SomeD [OF assms(2)] sock_invD(1) [OF inv] by simp_all
  have ok: "entry_ok (s_tcp s) (socks s ! i)" by (rule sock_invD(4) [OF inv i(3)])
  have "j = i" if j: "get_sock fd' s = Some j" and eq: "se_tcp_conn_id (socks s ! j) = se_tcp_conn_id (socks s ! i)"
    and pos: "0 < se_tcp_conn_id (socks s ! i)" for fd' j
  proof (rule ccontr)
    assume ne: "j \<noteq> i"
    have j': "j < length (socks s)" "se_used (socks s ! j)" using get_sock_SomeD [OF j] sock_invD(1) [OF inv] by simp_all
    let ?P = "\<lambda>e. se_used e \<and> se_tcp_conn_id e = se_tcp_conn_id (socks s ! i)"
    have "count_if ?P (socks s) \<le> 1" using sock_invD(5) [OF inv pos] by (simp add: owners_def)
    moreover have "Suc (count_if ?P ((socks s)[i := (socks s ! i)\<lparr>se_used := False\<rparr>])) = count_if ?P (socks s)"
      by (rule count_if_drop [OF i(1)]) (use i in simp_all)
    moreover have "0 < count_if ?P ((socks s)[i := (socks s ! i)\<lparr>se_used := False\<rparr>])"
      unfolding count_if_pos using j' eq ne by (intro exI [of _ j]) simp
    ultimately show False by linarith
  qed
  then show ?thesis using ok i(2) unfolding entry_ok_def by blast
qed

theorem sockets_own_connections_witness:
  "get_sock 1 demo_bound_sock = Some 1 \<and> se_type (socks demo_bound_sock ! 1) \<in> {NM_SOCK_STREAM, NM_SOCK_DGRAM}"
proof -
  have g: "get_sock 1 demo_bound_sock = Some 1" by (simp add: get_sock_def demo_bound_sock claim_sock_def SOCK_MAX_def)
  then show ?thesis using sockets_own_connections [OF demo_bound_sock(3) g] by blast
qed

text \<open>
  a datagram sent through one socket is received through another. When a datagram socket has been
  bound to a port whose box is empty and another datagram socket sends up to 1500 bytes to that port, with
  whatever destination address, the next receive of the first socket returns these bytes, cut to its
  buffer, and the port of the sender; the address it reports is the one the sender gave as destination.
\<close>
theorem datagram_between_sockets:
  assumes "sock_run s" "get_sock a s = Some i" "get_sock b s = Some j" "i \<noteq> j" "se_type (socks s ! i) = NM_SOCK_DGRAM"
    "se_type (socks s ! j) = NM_SOCK_DGRAM" "nm_bind b (Some \<lparr>sin_family = 2, sin_port = port, sin_addr = 0\<rparr>) s = (0, s1)"
    and "boxes (s_udp s1) port = Some {#}" "unat len \<le> length data" "unat len \<le> UDP_PAYLOAD_MAX"
    and "nm_sendto a (Some data) len (Some \<lparr>sin_family = 2, sin_port = port, sin_addr = ip\<rparr>) s1 = Some (n, s2)" "0 \<le> n"
    and "unat cap < 2 ^ 16" "cap \<noteq> 0" "nm_recvfrom b True cap s2 = (m, out, from, s3)"
  shows "out = take (unat cap) (take (unat len) data) \<and> m = int (length out) \<and>
    from = Some \<lparr>sin_family = 2, sin_port = se_local_port (socks s2 ! i), sin_addr = ip\<rparr>"
proof -
  have inv: "sock_inv s" by (rule sock_run_inv [OF assms(1)])
  have inv1: "sock_inv s1" by (rule nm_bind_inv [OF inv assms(7)])
  have il: "i < length (socks s)" "j < length (socks s)" "i < SOCK_MAX"
    using get_sock_SomeD [OF assms(2)] get_sock_SomeD [OF assms(3)] sock_invD(1) [OF inv] by simp_all
  obtain r ps where bd: "udp_bind port (s_udp s) = (r, ps)" by (metis prod.exhaust)
  have s1: "s1 = set_udp ps (upd_sock j (\<lambda>e. e\<lparr>se_local_port := port\<rparr>) s)"
    using assms(3,6,7) bd il(2) by (auto simp: nm_bind_def NM_AF_INET_def Let_def split: if_splits option.splits)
  have so: "get_sock x s1 = get_sock x s" "se_type (socks s1 ! i) = NM_SOCK_DGRAM" "se_type (socks s1 ! j) = NM_SOCK_DGRAM"
    "se_local_port (socks s1 ! j) = port" for x
    using s1 assms(4,5,6) il by simp_all
  let ?t = "pick_port i s1"
  let ?sp = "se_local_port (socks ?t ! i)"
  note pp = pick_port_ok [OF inv1 il(3)]
  have pj: "socks ?t ! j = socks s1 ! j" using assms(4) by (simp add: pick_port_def)
  obtain b2 ps2 where b2: "udp_bind ?sp (s_udp ?t) = (b2, ps2)" by (metis prod.exhaust)
  have len0: "len \<noteq> 0" using assms(11,12) so(1) assms(2) by (auto simp: nm_sendto_def)
  have b0: "b2 = 0" using assms(11,12) so(1,2) assms(2) len0 b2 by (auto simp: nm_sendto_def Let_def split: if_splits)
  obtain ps3 st3 where snd: "udp_sendto ?sp ip port (Some data) (ucast len) ps2 (s_stats ?t) = Some (n, ps3, st3)"
    and s2: "s2 = set_stats st3 (set_udp ps3 (set_udp ps2 ?t))"
    using assms(11) so(1,2) assms(2) len0 b2 b0 by (auto simp: nm_sendto_def Let_def)
  have ul: "unat (ucast len :: u16) = unat len" using assms(10) by (simp add: unsigned_ucast_eq take_bit_nat_eq_self_iff UDP_PAYLOAD_MAX_def)
  have uc: "unat (ucast cap :: u16) = unat cap" using assms(13) by (simp add: unsigned_ucast_eq take_bit_nat_eq_self_iff)
  have dl: "udp_do (Deliver port ip ?sp data (ucast len)) (ps2, net_stats_note_udp_tx (s_stats ?t)) = Some (Code n, ps3, st3)"
    using snd assms(12) by (auto simp: udp_sendto_def split: if_splits)
  have bd2: "udp_do (Bind ?sp) (s_udp s1, zero_stats) = Some (Code 0, ps2, zero_stats)" using b2 b0 pp(2) by simp
  have inv2: "udp_inv ps2" and bx: "boxes ps2 = (boxes (s_udp s1))(?sp \<mapsto> (case boxes (s_udp s1) ?sp of None \<Rightarrow> {#} | Some b \<Rightarrow> b))"
    using udp.bind_opens [OF _ bd2] sock_invD(2) [OF inv1] by simp_all
  have box2: "boxes ps2 port = Some {#}" using bx assms(8) by (cases "port = ?sp") auto
  obtain n' out' src' ps4 where rc: "udp_recv port True (ucast cap) ps3 = (n', out', src', ps4)" by (metis prod_cases4)
  have rc': "udp_do (Recv port (ucast cap)) (ps3, st3) = Some (Got n' out' src', ps4, st3)" using rc by simp
  note res = udp.deliver_then_recv [OF _ _ dl rc']
  have R: "out' = take (unat cap) (take (unat len) data)" "n' = int (length out')" "src' = Some (ip, ?sp)"
    using res inv2 box2 assms(10) ul uc by (simp_all add: min_absorb1)
  have sj: "get_sock b s2 = Some j" "socks s2 ! j = socks s1 ! j" "socks s2 ! i = socks ?t ! i"
    using s2 so(1) assms(3) pp(3) pj by simp_all
  then have "m = n'" "out = out'" "from = Some \<lparr>sin_family = word_of_int NM_AF_INET, sin_port = ?sp, sin_addr = ip\<rparr>"
    using assms(14,15) so(3,4) rc R(2,3) s2 by (auto simp: nm_recvfrom_def)
  then show ?thesis using R sj(3) by (simp add: NM_AF_INET_def)
qed

theorem datagram_between_sockets_witness:
  "\<exists>s2 s3. nm_sendto 0 (Some [1, 2, 3]) 3 (Some \<lparr>sin_family = 2, sin_port = 53, sin_addr = 0x0A000009\<rparr>) demo_bound_sock = Some (3, s2) \<and>
     nm_recvfrom 1 True 2 s2 = (2, [1, 2], Some \<lparr>sin_family = 2, sin_port = 40000, sin_addr = 0x0A000009\<rparr>, s3)"
proof -
  let ?s = demo_bound_sock and ?e = "claim_sock 2 0 demo_entry"
  have get: "get_sock 0 ?s = Some 0" "se_type (socks ?s ! 0) = NM_SOCK_DGRAM" "se_local_port (socks ?s ! 0) = 0"
    by (simp_all add: get_sock_def demo_bound_sock claim_sock_def SOCK_MAX_def NM_SOCK_DGRAM_def)
  have box: "boxes (s_udp ?s) 53 = Some {#}" using demo_bound(2) [of 53] demo_bound_sock(2) by simp
  let ?ps = "snd (udp_bind 53 demo_ports)"
  have inv: "udp_inv ?ps" using demo_bound(1) by simp
  have full: "?ps = demo_ports[0 := fresh_port 53 (demo_ports ! 0)]" by (simp add: demo_bind)
  have r: "demo_ports = demo_ports ! 0 # demo_ports ! 0 # replicate 62 (demo_ports ! 0)"
    by (simp add: demo_ports_def UDP_PORT_MAX_def replicate_Suc [symmetric] del: replicate_Suc)
  have free: "\<not> up_used (demo_ports ! 0)" by (simp add: demo_ports_def UDP_PORT_MAX_def)
  have ps: "?ps = fresh_port 53 (demo_ports ! 0) # demo_ports ! 0 # replicate 62 (demo_ports ! 0)"
    unfolding full by (subst r) simp
  have "\<exists>ps. udp_bind 40000 ?ps = (0, ps)"
    unfolding ps using free by (simp add: udp_bind_def find_port_def first_idx_replicate fresh_port_def)
  then obtain ps where b: "udp_bind 40000 ?ps = (0, ps)" by blast
  have b': "udp_do (Bind 40000) (?ps, zero_stats) = Some (Code 0, ps, zero_stats)" using b by simp
  have ok: "udp_inv ps" and bx: "boxes ps 53 = Some {#}"
    using udp.bind_opens [OF _ b'] inv box demo_bound_sock(2) by (simp_all add: fun_upd_def)
  obtain q ps3 st3 where d: "udp_deliver 53 0x0A000009 40000 [1, 2, 3] 3 ps (net_stats_note_udp_tx (s_stats ?s)) = Some (q, ps3, st3)"
    using udp_deliver_in_bounds [of 3 "[1, 2, 3]" 53 "0x0A000009" 40000 ps "net_stats_note_udp_tx (s_stats ?s)"] by auto
  have d': "udp_do (Deliver 53 0x0A000009 40000 [1, 2, 3] 3) (ps, net_stats_note_udp_tx (s_stats ?s)) = Some (Code q, ps3, st3)" using d by simp
  have q: "q = 3" using udp.deliver_fills(3) [OF _ _ d'] ok bx by (simp add: UDP_PAYLOAD_MAX_def)
  have pk: "s_udp (pick_port 0 ?s) = ?ps" "s_stats (pick_port 0 ?s) = s_stats ?s" "se_local_port (socks (pick_port 0 ?s) ! 0) = 40000"
    using get(3) demo_bound_sock(2) by (simp_all add: pick_port_def demo_bound_sock)
  have snd: "\<exists>s2. nm_sendto 0 (Some [1, 2, 3]) 3 (Some \<lparr>sin_family = 2, sin_port = 53, sin_addr = 0x0A000009\<rparr>) ?s = Some (3, s2) \<and>
      se_local_port (socks s2 ! 0) = 40000"
    using get b d q pk by (simp add: nm_sendto_def Let_def udp_sendto_def)
  then obtain s2 where s2: "nm_sendto 0 (Some [1, 2, 3]) 3 (Some \<lparr>sin_family = 2, sin_port = 53, sin_addr = 0x0A000009\<rparr>) ?s = Some (3, s2)"
    "se_local_port (socks s2 ! 0) = 40000" by blast
  obtain m out sender s3 where rc: "nm_recvfrom 1 True 2 s2 = (m, out, sender, s3)" by (metis prod_cases4)
  show ?thesis
    using datagram_between_sockets [OF demo_socks2(4) demo_get_sock(1,2) _ demo_get_sock(3,4) demo_bound_sock(1) box _ _ s2(1) _ _ _ rc] s2 rc
    by (simp add: UDP_PAYLOAD_MAX_def)
qed

text \<open>
  closing a datagram socket closes its port for every other socket. Two datagram sockets can be
  bound to the same port; when one of them is closed the port is unbound, and every later receive of
  the other one fails, whatever was waiting for it.
\<close>
theorem close_unbinds_shared_port:
  assumes "sock_run s" "get_sock a s = Some i" "get_sock b s = Some j" "i \<noteq> j" "se_type (socks s ! i) = NM_SOCK_DGRAM"
    "se_type (socks s ! j) = NM_SOCK_DGRAM" "se_local_port (socks s ! i) = port" "se_local_port (socks s ! j) = port" "port \<noteq> 0"
    and "nm_close_socket a s = (r, s1)" "nm_recvfrom b True cap s1 = (n, out, from, s2)"
  shows "n = NM_ERR NM_EFAIL \<and> out = []"
proof (cases "cap = 0")
  case True
  then show ?thesis using assms(11) by (auto simp: nm_recvfrom_def split: option.splits)
next
  case False
  have inv: "sock_inv s" by (rule sock_run_inv [OF assms(1)])
  have il: "i < length (socks s)" using get_sock_SomeD [OF assms(2)] sock_invD(1) [OF inv] by simp
  obtain q ps where u: "udp_unbind port (s_udp s) = (q, ps)" by (metis prod.exhaust)
  have ne: "NM_SOCK_DGRAM \<noteq> NM_SOCK_STREAM" by (simp add: NM_SOCK_DGRAM_def NM_SOCK_STREAM_def)
  have s1: "s1 = set_udp ps (upd_sock i (\<lambda>e. e\<lparr>se_used := False\<rparr>) s)"
    using assms(2,5,7,9,10) u ne by (auto simp: nm_close_socket_def Let_def)
  have j: "get_sock b s1 = Some j" "socks s1 ! j = socks s ! j"
    using s1 assms(3,4) by (auto simp: get_sock_def nth_update_any split: if_splits)
  have un: "udp_do (Unbind port) (s_udp s, zero_stats) = Some (Code q, ps, zero_stats)" using u by simp
  have inv1: "udp_inv ps" and box: "boxes ps port = None" using udp.unbind_closes [OF _ un] sock_invD(2) [OF inv] by simp_all
  obtain n' out' src' ps4 where rc: "udp_recv port True (ucast cap) ps = (n', out', src', ps4)" by (metis prod_cases4)
  have rc': "udp_do (Recv port (ucast cap)) (ps, zero_stats) = Some (Got n' out' src', ps4, zero_stats)" using rc by simp
  have "n' = NM_ERR NM_EFAIL" "out' = []" using udp.closed_recv_fails(1,2) [OF _ _ rc'] inv1 box by simp_all
  then show ?thesis using assms(6,8,11) j False rc s1 by (auto simp: nm_recvfrom_def split: prod.splits)
qed

theorem close_unbinds_shared_port_witness:
  "\<exists>s s1 s2. sock_run s \<and> nm_bind 0 (Some \<lparr>sin_family = 2, sin_port = 53, sin_addr = 0\<rparr>) demo_bound_sock = (0, s) \<and>
     nm_close_socket 0 s = (0, s1) \<and> nm_recvfrom 1 True 4 s1 = (NM_ERR NM_EFAIL, [], None, s2)"
proof -
  let ?s = demo_bound_sock and ?a = "Some \<lparr>sin_family = 2, sin_port = 53, sin_addr = 0\<rparr>"
  let ?ps = "snd (udp_bind 53 demo_ports)"
  have get: "get_sock 0 ?s = Some 0" "se_type (socks ?s ! 0) = NM_SOCK_DGRAM"
    by (simp_all add: get_sock_def demo_bound_sock claim_sock_def SOCK_MAX_def NM_SOCK_DGRAM_def)
  have "find_port 53 ?ps \<noteq> None" using demo_bound(2) [of 53] by (auto simp: boxes_def)
  then have "udp_bind 53 ?ps = (0, ?ps)" by (auto simp: udp_bind_def)
  then have b: "nm_bind 0 ?a ?s = (0, set_udp ?ps (upd_sock 0 (\<lambda>e. e\<lparr>se_local_port := 53\<rparr>) ?s))" (is "_ = (0, ?t)")
    using get by (simp add: nm_bind_def Let_def NM_AF_INET_def demo_bound_sock claim_sock_def)
  have t: "socks ?t = (claim_sock 2 0 demo_entry)\<lparr>se_local_port := 53\<rparr> # (claim_sock 2 0 demo_entry)\<lparr>se_local_port := 53\<rparr> # replicate 62 demo_entry"
    by (simp add: demo_bound_sock)
  have g: "get_sock 0 ?t = Some 0" "get_sock 1 ?t = Some 1" "se_type (socks ?t ! 0) = NM_SOCK_DGRAM" "se_type (socks ?t ! 1) = NM_SOCK_DGRAM"
    "se_local_port (socks ?t ! 0) = 53" "se_local_port (socks ?t ! 1) = 53"
    unfolding get_sock_def t by (simp_all add: claim_sock_def SOCK_MAX_def NM_SOCK_DGRAM_def)
  have run: "sock_run ?t" by (rule sock_run.step [OF demo_bound_sock(3) sock_step.k_bind [OF b]])
  obtain s1 where c: "nm_close_socket 0 ?t = (0, s1)" using g(1) unfolding nm_close_socket_def by (simp add: Let_def)
  obtain n out sender s2 where rc: "nm_recvfrom 1 True 4 s1 = (n, out, sender, s2)" by (metis prod_cases4)
  have "n = NM_ERR NM_EFAIL \<and> out = []"
    by (rule close_unbinds_shared_port [OF run g(1,2) _ g(3-6) _ c rc]) simp_all
  moreover have "sender = None" if "n < 0" using rc that by (auto simp: nm_recvfrom_def Let_def split: option.splits if_splits prod.splits)
  ultimately show ?thesis using run b c rc by (auto simp: NM_ERR_def)
qed

end
