(* ===== verification/Kmain.thy ===== *)
theory Kmain
  imports Syscall Shell Vmm Kheap Console Drivers Tables Net Socket
begin

text \<open>
  The start of the kernel: \<^verbatim>\<open>kernel/kmain.c\<close>, the start of user space in \<^verbatim>\<open>kernel/userspace/init.c\<close>, and
  \<^verbatim>\<open>kernel/string.c\<close>. The record \<open>machine\<close> puts the states of the components together, the record
  \<open>boot_env\<close> holds what the kernel image and the hardware fix: the ports, the addresses of tables,
  entry stubs and handlers, the boot loader's memory, and what the uninitialised arrays of the
  shell and of \<^verbatim>\<open>userspace_init\<close> hold. The console and the drivers use the same ports, and these are passed on from
  one to the other. The threads' stacks and the files' blocks come from the heap of the theory \<open>Kheap\<close>, which takes its frames from the
  page allocator and keeps its headers in the memory of the memory manager. The bytes of a stack and of a file stay with their
  owners: the heap sees only its headers. A start that hangs has no result.
\<close>

section \<open>State\<close>

record 'd machine =
  m_con :: "'d console"
  m_tables :: cpu_tables
  m_cr0 :: u64
  m_cr4 :: u64
  m_vmm :: vmm_state
  m_kernel :: "(kheap_state option tmpfs_state, kheap_state option) kernel"
  m_kmem :: kmem
  m_sched :: sched_state
  m_irq :: irq_state
  m_ticks :: u64
  m_char :: int
  m_pci :: "nm_device list"
  m_rtl :: "nm_device option"
  m_net :: net_state

record 'd boot_env =
  be_hw :: "'d hw"
  be_gdt :: u64
  be_tss :: u64
  be_idt :: u64
  be_isrs :: isr_addrs
  be_img :: kernel_image
  be_mem :: boot_mem
  be_cr3 :: u64
  be_trampoline :: u64
  be_idle :: u64
  be_worker :: u64
  be_pit_fn :: u64
  be_pit_name :: u64
  be_kbd_fn :: u64
  be_kbd_name :: u64
  be_stack :: "nat \<Rightarrow> char list \<times> char list"
  be_out :: "char list"

definition line :: "string \<Rightarrow> string" where
  "line str = str @ [CHR 0x0A]"

definition say :: "'d boot_env \<Rightarrow> string \<Rightarrow> 'd machine \<Rightarrow> 'd machine option" where
  "say env str m = do { c \<leftarrow> console_write (be_hw env) str (m_con m); Some (m\<lparr>m_con := c\<rparr>) }"

definition say_u64 :: "'d boot_env \<Rightarrow> u64 \<Rightarrow> 'd machine \<Rightarrow> 'd machine option" where
  "say_u64 env val m = do { c \<leftarrow> console_write_u64 (be_hw env) val (m_con m); Some (m\<lparr>m_con := c\<rparr>) }"

section \<open>The heap of the machine\<close>

text \<open>
  The calls of the heap on a state that is missing once a walk along the free list has not ended. A block for a file is
  given by the bytes found there.
\<close>

definition heap_alloc :: "u64 \<Rightarrow> kheap_state option \<Rightarrow> u64 \<times> kheap_state option" where
  "heap_alloc n hs = (case Option.bind hs (kmalloc n) of None \<Rightarrow> (0, None) | Some (p, h) \<Rightarrow> (p, Some h))"

definition heap_free :: "u64 \<Rightarrow> kheap_state option \<Rightarrow> kheap_state option" where
  "heap_free p hs = map_option (kfree p) hs"

definition heap_block :: "kheap_state option allocator" where
  "heap_block n hs =
     (case heap_alloc n hs of
        (p, Some h) \<Rightarrow> (if p = 0 then None else Some (\<lambda>i. heap_mem h (p + of_nat i)), Some h)
      | (p, None) \<Rightarrow> (None, None))"

text \<open>The heap works on the memory and the page allocator of the memory manager.\<close>

definition heap_of :: "'d machine \<Rightarrow> kheap_state option" where
  "heap_of m = map_option (\<lambda>h. h\<lparr>heap_mem := vm_mem (m_vmm m), heap_pmm := vm_pmm (m_vmm m)\<rparr>) (k_heap (m_kernel m))"

definition with_heap :: "kheap_state option \<Rightarrow> 'd machine \<Rightarrow> 'd machine option" where
  "with_heap hs m =
     do { h \<leftarrow> hs;
          Some (m\<lparr>m_vmm := (m_vmm m)\<lparr>vm_mem := heap_mem h, vm_pmm := heap_pmm h\<rparr>, m_kernel := (m_kernel m)\<lparr>k_heap := Some h\<rparr>\<rparr>) }"

section \<open>The stages of the start\<close>

text \<open>Log, console and processor tables.\<close>

definition boot_processor :: "'d boot_env \<Rightarrow> 'd machine \<Rightarrow> 'd machine option" where
  "boot_processor env m =
     do { let m = m\<lparr>m_con := (m_con m)\<lparr>con_klog := klog_init (con_klog (m_con m))\<rparr>\<rparr>;
          let m = m\<lparr>m_con := console_init (be_hw env) (m_con m)\<rparr>;
          m \<leftarrow> say env (line ''[00.000000] early console ready'') m;
          let m = m\<lparr>m_tables := gdt_init (be_gdt env) (be_tss env) (m_tables m)\<rparr>;
          m \<leftarrow> say env (line ''[00.000100] gdt ready'') m;
          let (cr0, cr4) = cpu_enable_sse (m_cr0 m) (m_cr4 m);
          let m = m\<lparr>m_cr0 := cr0, m_cr4 := cr4\<rparr>;
          let m = m\<lparr>m_tables := idt_init (be_idt env) (be_isrs env) (m_tables m)\<rparr>;
          m \<leftarrow> say env (line ''[00.000200] idt ready'') m;
          let m = m\<lparr>m_tables := tss_init (m_tables m)\<rparr>;
          say env (line ''[00.000300] tss ready'') m }"

definition boot_memory :: "'d boot_env \<Rightarrow> u64 \<Rightarrow> 'd machine \<Rightarrow> 'd machine option" where
  "boot_memory env mb2_info m =
     do { let m = m\<lparr>m_vmm := mm_init (be_img env) (be_mem env) (be_cr3 env) mb2_info (m_vmm m)\<rparr>;
          let stats = pmm_get_stats (vm_pmm (m_vmm m));
          m \<leftarrow> say env ''[00.000400] mm ready: free_pages='' m;
          m \<leftarrow> say_u64 env (free_frames stats) m;
          m \<leftarrow> say env '' used_pages='' m;
          m \<leftarrow> say_u64 env (used_frames stats) m;
          say env (line []) m }"

definition spawn :: "'d boot_env \<Rightarrow> string \<Rightarrow> u64 \<Rightarrow> 'd machine \<Rightarrow> 'd machine option" where
  "spawn env name entry m =
     (let k = m_kernel m;
          (t, p, h, mem) = task_create_kernel_thread heap_alloc heap_free (be_trampoline env) (Some name) entry 0
            (k_proc k) (heap_of m) (m_kmem m)
      in with_heap h (m\<lparr>m_kernel := k\<lparr>k_proc := p\<rparr>, m_kmem := mem\<rparr>))"

text \<open>Process table, the two kernel threads, the scheduler and the system calls.\<close>

definition boot_processes :: "'d boot_env \<Rightarrow> 'd machine \<Rightarrow> 'd machine option" where
  "boot_processes env m =
     do { let m = m\<lparr>m_kernel := (m_kernel m)\<lparr>k_proc := proc_init (k_proc (m_kernel m))\<rparr>\<rparr>;
          m \<leftarrow> spawn env ''idle/0'' (be_idle env) m;
          m \<leftarrow> spawn env ''kworker/0'' (be_worker env) m;
          let m = m\<lparr>m_sched := sched_init NM_SCHED_RR (m_sched m)\<rparr>;
          m \<leftarrow> say env (line ''[00.000500] proc+sched ready: policy=RR'') m;
          let m = m\<lparr>m_kernel := syscall_init (m_kernel m)\<rparr>;
          say env (line ''[00.000600] syscall ready'') m }"

definition boot_files :: "'d boot_env \<Rightarrow> 'd machine \<Rightarrow> 'd machine option" where
  "boot_files env m =
     (let k = m_kernel m; (st, f) = k_vfs k;
          (r, st, f) = fs_mount_root (Some tmpfs_filesystem) (fs_init st) f;
          m = m\<lparr>m_kernel := k\<lparr>k_vfs := (st, f)\<rparr>\<rparr>
      in say env (if r = 0 then line ''[00.000700] fs ready: root=tmpfs'' else line ''[00.000700] fs ready: mount failed'') m)"

definition boot_drivers :: "'d boot_env \<Rightarrow> 'd machine \<Rightarrow> 'd machine option" where
  "boot_drivers env m =
     do { let irq = irq_init (m_irq m);
          io \<leftarrow> pic_init (be_hw env) (con_io (m_con m));
          let (irq, w) = pit_init (be_hw env) (be_pit_fn env) (be_pit_name env) 100 irq
                \<lparr>dv_io = io, g_pit_ticks = m_ticks m, g_last_char = m_char m\<rparr>;
          let irq = keyboard_init (be_kbd_fn env) (be_kbd_name env) irq;
          let (devs, io) = pci_init (be_hw env) (dv_io w);
          let (r, rtl) = rtl8139_init devs;
          let m = m\<lparr>m_irq := irq, m_ticks := g_pit_ticks w, m_char := g_last_char w, m_pci := devs, m_rtl := rtl,
                m_con := (m_con m)\<lparr>con_io := io\<rparr>\<rparr>;
          say env (if r = 0 then line ''[00.000800] drivers ready: pit/kbd/pci/rtl8139''
                   else line ''[00.000800] drivers ready: pit/kbd/pci (rtl8139 missing)'') m }"

definition boot_net :: "'d boot_env \<Rightarrow> 'd machine \<Rightarrow> 'd machine option" where
  "boot_net env m = say env (line ''[00.000900] net ready: arp/ipv4/icmp/udp/tcp/socket'') (m\<lparr>m_net := net_init (m_net m)\<rparr>)"

section \<open>User space and the end of the start\<close>

definition boot_script :: string where
  "boot_script = line ''echo NeverMind shell booted > /motd'' @ line ''cat /motd''"

definition userspace_init :: "'d boot_env \<Rightarrow> 'd machine \<Rightarrow> 'd machine option" where
  "userspace_init env m =
     do { let k = m_kernel m;
          let s = shell_init \<lparr>sh_vfs = fst (k_vfs k), sh_fs = (snd (k_vfs k))\<lparr>tm_heap := heap_of m\<rparr>\<rparr>;
          m \<leftarrow> say env (line ''[00.001100] userspace shell ready'') m;
          (r, out, s) \<leftarrow> shell_run_script (tmpfs_vnodes heap_block) (be_stack env) (Some boot_script) (be_out env) s;
          m \<leftarrow> with_heap (tm_heap (sh_fs s)) (m\<lparr>m_kernel := k\<lparr>k_vfs := (sh_vfs s, sh_fs s)\<rparr>\<rparr>);
          if r = 0 \<and> out ! 0 \<noteq> NUL then do { str \<leftarrow> c_chars out; say env str m } else Some m }"

definition kernel_banner :: "'d boot_env \<Rightarrow> 'd machine \<Rightarrow> 'd machine option" where
  "kernel_banner env m =
     do { m \<leftarrow> say env (line ''NeverMind kernel (M8)'') m;
          m \<leftarrow> say env (line ''arch: x86_64'') m;
          say env (line ''boot: BIOS+UEFI via GRUB multiboot2'') m }"

definition kmain :: "'d boot_env \<Rightarrow> u64 \<Rightarrow> 'd machine \<Rightarrow> 'd machine option" where
  "kmain env mb2_info m =
     do { m \<leftarrow> boot_processor env m;
          m \<leftarrow> boot_memory env mb2_info m;
          m \<leftarrow> boot_processes env m;
          m \<leftarrow> boot_files env m;
          m \<leftarrow> boot_drivers env m;
          m \<leftarrow> boot_net env m;
          m \<leftarrow> userspace_init env m;
          m \<leftarrow> kernel_banner env m;
          say env (line ''[00.001000] NeverMind: M8 hardening+ci ready'') m }"

text \<open>
  The turns of the three endless loops: the idle thread, the worker thread, and the bootstrap task after
  the start. Waiting for an interrupt and the pause have no effect on the state.
\<close>

definition thread_turn :: "'d machine \<Rightarrow> cpu \<Rightarrow> 'd machine \<times> cpu" where
  "thread_turn m c =
     (let (sc, p, c, mem) = sched_yield (m_sched m) (k_proc (m_kernel m)) c (m_kmem m)
      in (m\<lparr>m_sched := sc, m_kernel := (m_kernel m)\<lparr>k_proc := p\<rparr>, m_kmem := mem\<rparr>, c))"

definition kmain_turn :: "'d machine bottom_half_code \<Rightarrow> 'd machine \<Rightarrow> cpu \<Rightarrow> ('d machine \<times> cpu) option" where
  "kmain_turn call_bh m c =
     do { (irq, m) \<leftarrow> irq_run_bottom_halves call_bh (m_irq m) m;
          Some (thread_turn (m\<lparr>m_irq := irq\<rparr>) c) }"

section \<open>String functions\<close>

definition memset :: "u64 \<Rightarrow> int \<Rightarrow> u64 \<Rightarrow> phys_mem \<Rightarrow> phys_mem" where
  "memset dest val cnt m = fold (\<lambda>i m. m(dest + of_nat i := word_of_int val)) [0..<unat cnt] m"

lemma memset_reads: "memset dest val cnt m a = (if unat (a - dest) < unat cnt then word_of_int val else m a)"
proof -
  have unat_cnt: "unat cnt < 2 ^ 64" using unsigned_less [of cnt] by simp
  have "fold (\<lambda>i m. m(dest + of_nat i := word_of_int val)) [0..<n] m a = (if unat (a - dest) < n then word_of_int val else m a)"
    if "n \<le> unat cnt" for n
    using that
  proof (induction n)
    case (Suc n)
    have n: "n < 2 ^ 64" using Suc.prems unat_cnt by simp
    have "a = dest + of_nat n \<longleftrightarrow> a - dest = of_nat n" by (metis add_diff_cancel_left' diff_add_cancel add.commute)
    also have "\<dots> \<longleftrightarrow> unat (a - dest) = n" using n by (auto simp: word_unat_eq_iff unat_of_nat)
    finally have "a = dest + of_nat n \<longleftrightarrow> unat (a - dest) = n" .
    then show ?case using Suc by (auto simp: less_Suc_eq)
  qed simp
  then show ?thesis by (simp add: memset_def)
qed

section \<open>The console during the start\<close>

text \<open>
  Every stage writes its text to the console, so what the console, the log and the serial line show is what \<open>console_write\<close>
  makes of the texts together. A working console is one that shows some sheet.
\<close>

definition works :: "'d console \<Rightarrow> bool" where
  "works c \<longleftrightarrow> (\<exists>bg sh. shows_sheet bg c sh)"

lemma works_io [simp]: "works (c\<lparr>con_io := io\<rparr>) = works c"
  by (simp add: works_def shows_sheet_def)

lemma sayE:
  assumes "serial_accepts (be_hw env)" "works (m_con m)"
  obtains c where "say env str m = Some (m\<lparr>m_con := c\<rparr>)" "console_write (be_hw env) str (m_con m) = Some c" "works c"
proof -
  obtain bg sh where "shows_sheet bg (m_con m) sh" using assms(2) by (auto simp: works_def)
  from console_write_step [OF assms(1) this, of str] obtain c where "console_write (be_hw env) str (m_con m) = Some c"
    "shows_sheet bg c (fold sheet_putc str sh)" by blast
  moreover from this have "works c" unfolding works_def by blast
  ultimately show thesis using that [of c] by (simp add: say_def)
qed

text \<open>The console as \<^verbatim>\<open>console_init\<close> leaves it, with the writes that set up the serial line.\<close>

definition started_console :: "'d hw \<Rightarrow> 'd console \<Rightarrow> 'd console" where
  "started_console h c = console_init h (c\<lparr>con_klog := klog_init (con_klog c)\<rparr>)"

definition serial_setup :: "(u16 \<times> u8) list" where
  "serial_setup = [(COM1 + 1, 0x00), (COM1 + 3, 0x80), (COM1, 0x03), (COM1 + 1, 0x00), (COM1 + 3, 0x03), (COM1 + 2, 0xC7), (COM1 + 4, 0x0B)]"

lemma serial_init_outbs: "serial_init h io = outbs h serial_setup io"
  by (simp add: serial_init_def serial_setup_def)

lemma started_console_shows:
  assumes "length (vga_mem c) = 2000"
  shows "shows_sheet (vga_mem c) (started_console h c) ([], [])" "works (started_console h c)"
proof -
  show "shows_sheet (vga_mem c) (started_console h c) ([], [])"
    using console_init_shows [of "c\<lparr>con_klog := klog_init (con_klog c)\<rparr>" h] assms by (simp add: started_console_def VGA_ROWS_def VGA_COLS_def)
  then show "works (started_console h c)" by (auto simp: works_def)
qed

text \<open>The whole output: the first texts, then a change of the ports by the drivers, then the other texts.\<close>

lemma whole_output:
  assumes "serial_accepts h" "length (vga_mem c) = 2000" "klog_inv (con_klog c)"
    "console_write h T1 (started_console h c) = Some c1" "io_run h (con_io c1) ws io" "console_write h T2 (c1\<lparr>con_io := io\<rparr>) = Some c2"
  shows "shows_sheet (vga_mem c) c2 (fold sheet_putc (T1 @ T2) ([], []))"
    "klog_contents (con_klog c2) = last_n (KLOG_CAP - 1) (T1 @ T2)"
    "io_run h (con_io c) (serial_setup @ sent T1) (con_io c1)" "io_run h io (sent T2) (con_io c2)"
proof -
  let ?c = "started_console h c"
  have k: "klog_inv (con_klog ?c)" "kl_ready (con_klog ?c)" "klog_contents (con_klog ?c) = last_n (KLOG_CAP - 1) []"
    using klog_init_inv [OF assms(3)] klog_init_contents [of "con_klog c"]
    by (simp_all add: started_console_def console_init_def klog_init_def last_n_def)
  note w1 = console_write_step [OF assms(1) started_console_shows(1) [OF assms(2)], of T1 h, unfolded assms(4)]
  have s1: "shows_sheet (vga_mem c) (c1\<lparr>con_io := io\<rparr>) (fold sheet_putc T1 ([], []))" using w1 by (simp add: shows_sheet_def)
  note w2 = console_write_step [OF assms(1) s1, of T2, unfolded assms(6)]
  show "shows_sheet (vga_mem c) c2 (fold sheet_putc (T1 @ T2) ([], []))" "io_run h io (sent T2) (con_io c2)" using w2 by simp_all
  have "con_klog c2 = fold klog_putc (T1 @ T2) (con_klog ?c)" using w1 w2 by simp
  then show "klog_contents (con_klog c2) = last_n (KLOG_CAP - 1) (T1 @ T2)" using klog_fold_contents [OF k, of "T1 @ T2"] by simp
  have "io_run h (con_io c) ([] @ serial_setup) (con_io ?c)"
    using io_run_outbs [OF io_done, of h "con_io c" serial_setup] by (simp add: started_console_def console_init_def serial_init_outbs)
  then show "io_run h (con_io c) (serial_setup @ sent T1) (con_io c1)" using w1 io_run_trans [of h "con_io ?c" "sent T1"] by simp
qed

section \<open>The stages\<close>

text \<open>Each stage is a change of the machine that leaves the console alone, and a text.\<close>

definition processor_text :: string where
  "processor_text = line ''[00.000000] early console ready'' @ line ''[00.000100] gdt ready'' @ line ''[00.000200] idt ready'' @
     line ''[00.000300] tss ready''"

definition booted_tables :: "'d boot_env \<Rightarrow> cpu_tables \<Rightarrow> cpu_tables" where
  "booted_tables env t = tss_init (idt_init (be_idt env) (be_isrs env) (gdt_init (be_gdt env) (be_tss env) t))"

lemma boot_processor_says:
  "boot_processor env m = say env processor_text (m\<lparr>m_con := started_console (be_hw env) (m_con m), m_cr0 := fst (cpu_enable_sse (m_cr0 m) (m_cr4 m)),
     m_cr4 := snd (cpu_enable_sse (m_cr0 m) (m_cr4 m)), m_tables := booted_tables env (m_tables m)\<rparr>)"
  by (simp add: boot_processor_def say_def processor_text_def console_write_append started_console_def booted_tables_def Let_def split_beta
      del: console_write.simps)

definition memory_text :: "pmm_state \<Rightarrow> string" where
  "memory_text p = ''[00.000400] mm ready: free_pages='' @ dec_text (free_frames (mm_stats p)) @ '' used_pages='' @
     dec_text (used_frames (mm_stats p)) @ line []"

lemma boot_memory_says:
  assumes "v = mm_init (be_img env) (be_mem env) (be_cr3 env) mb2_info (m_vmm m)"
  shows "boot_memory env mb2_info m = say env (memory_text (vm_pmm v)) (m\<lparr>m_vmm := v\<rparr>)"
  by (simp add: assms boot_memory_def say_def say_u64_def write_u64 memory_text_def pmm_get_stats_def console_write_append Let_def
      del: console_write.simps append_Cons)

definition started :: "'d boot_env \<Rightarrow> 'd machine \<Rightarrow> 'd machine option" where
  "started env m =
     do { m \<leftarrow> spawn env ''idle/0'' (be_idle env) (m\<lparr>m_kernel := (m_kernel m)\<lparr>k_proc := proc_init (k_proc (m_kernel m))\<rparr>\<rparr>);
          m \<leftarrow> spawn env ''kworker/0'' (be_worker env) m;
          Some (m\<lparr>m_sched := sched_init NM_SCHED_RR (m_sched m), m_kernel := syscall_init (m_kernel m)\<rparr>) }"

definition processes_text :: string where
  "processes_text = line ''[00.000500] proc+sched ready: policy=RR'' @ line ''[00.000600] syscall ready''"

lemma boot_processes_says: "boot_processes env m = do { m \<leftarrow> started env m; say env processes_text m }"
  by (simp add: boot_processes_def started_def say_def processes_text_def console_write_append Let_def del: console_write.simps)

definition mounted_fs :: "('h tmpfs_state, 'h) kernel \<Rightarrow> 'h tmpfs_state vfs_state \<times> 'h tmpfs_state" where
  "mounted_fs k = snd (fs_mount_root (Some tmpfs_filesystem) (fs_init (fst (k_vfs k))) (snd (k_vfs k)))"

definition files_text :: string where "files_text = line ''[00.000700] fs ready: root=tmpfs''"

lemma boot_files_says:
  assumes "length (tm_nodes (snd (k_vfs (m_kernel m)))) = TMPFS_MAX_NODES"
  shows "boot_files env m = say env files_text (m\<lparr>m_kernel := (m_kernel m)\<lparr>k_vfs := mounted_fs (m_kernel m)\<rparr>\<rparr>)"
proof -
  let ?v = "k_vfs (m_kernel m)"
  obtain r st f where r: "fs_mount_root (Some tmpfs_filesystem) (fs_init (fst ?v)) (snd ?v) = (r, st, f)" by (metis prod_cases3)
  then have "r = 0" using tmpfs_mount_root_correct [OF assms r] by simp
  then show ?thesis using r by (simp add: boot_files_def files_text_def mounted_fs_def split_beta Let_def)
qed

lemma fs_mount_keeps:
  assumes "fs_mount_root fs st f = (r, st', f')"
  shows "file_table st' = file_table st"
  using assms by (auto simp: fs_mount_root_def Let_def split: option.splits prod.splits if_splits)

text \<open>The freshly mounted file system: an empty root directory and no open files.\<close>

lemma mounted_fs_ok:
  assumes "length (tm_nodes (snd (k_vfs k))) = TMPFS_MAX_NODES" "length (file_table (fst (k_vfs k))) = NM_FD_MAX" "mounted_fs k = (st, f)"
  shows "sh_ok 0 \<lparr>sh_vfs = st, sh_fs = f\<lparr>tm_heap := h\<rparr>\<rparr>" "count_if f_used (file_table st) = 0" "tmpfs_lookup 0 name f = None"
    "live f n \<longleftrightarrow> n = 0" "vn_type (tm_nodes f ! 0) = NM_NODE_DIR"
proof -
  obtain r where r: "fs_mount_root (Some tmpfs_filesystem) (fs_init (fst (k_vfs k))) (snd (k_vfs k)) = (r, st, f)"
    using assms(3) unfolding mounted_fs_def by (metis prod.collapse)
  note m = tmpfs_mount_root_correct [OF assms(1) r]
  have ft: "file_table st = map closed_file (file_table (fst (k_vfs k)))" using fs_mount_keeps [OF r] by (simp add: fs_init_def)
  show "tmpfs_lookup 0 name f = None" "live f n \<longleftrightarrow> n = 0" using m by auto
  have heap: "live (f\<lparr>tm_heap := h\<rparr>) = live f" "entries (f\<lparr>tm_heap := h\<rparr>) = entries f"
    by (auto simp: live_def entries_def fun_eq_iff)
  then show "sh_ok 0 \<lparr>sh_vfs = st, sh_fs = f\<lparr>tm_heap := h\<rparr>\<rparr>"
    using m ft assms(2) by (simp add: sh_ok_def tm_ok_def heap)
  have "count_if f_used (map closed_file fs) = 0" for fs by (induction fs) (auto simp: closed_file_def)
  then show "count_if f_used (file_table st) = 0" using ft by simp
  show "vn_type (tm_nodes f ! 0) = NM_NODE_DIR" using m by simp
qed

lemma pic_init_returns: "\<exists>io'. pic_init h io = Some io'"
  by (simp add: pic_init_def pic_set_mask_def Let_def split_beta)

definition drivers_text :: "nm_device option \<Rightarrow> string" where
  "drivers_text nic = (if nic = None then line ''[00.000800] drivers ready: pit/kbd/pci (rtl8139 missing)''
     else line ''[00.000800] drivers ready: pit/kbd/pci/rtl8139'')"

lemma drivers_armed:
  assumes "pit_fn \<noteq> 0" "kbd_fn \<noteq> 0" "irq = keyboard_init kbd_fn kbd_name (fst (pit_init h pit_fn pit_name hz (irq_init irq0) w))"
  shows "armed pit_fn kbd_fn irq" "bh_head irq = bh_tail irq"
  using assms(1,2) unfolding assms(3) armed_def
  by (auto simp: pit_init_def keyboard_init_def irq_register_def irq_init_def NM_MAX_IRQ_def Let_def)

text \<open>
  What the drivers do to the ports: the interrupt controllers are set up, the timer gets its divisor, the PCI scan writes only to the
  address register, and the serial line is left alone.
\<close>

definition com1_ports :: "u16 set" where "com1_ports = {0x3F8..0x3FF}"

definition timer_writes :: "(u16 \<times> u8) list" where "timer_writes = [(0x43, 0x36), (0x40, 0x9B), (0x40, 0x2E)]"

definition pics_ready :: "'d hw \<Rightarrow> 'd io \<Rightarrow> bool" where
  "pics_ready h io \<longleftrightarrow> (\<forall>p1 p2. pic_at h PIC1_COMMAND PIC1_DATA p1 \<longrightarrow> pic_at h PIC2_COMMAND PIC2_DATA p2 \<longrightarrow>
     p1 (io_dev io) = \<lparr>icw_left = 0, pic_imr = 0xFC, pic_base = 32\<rparr> \<and> p2 (io_dev io) = \<lparr>icw_left = 0, pic_imr = 0xFF, pic_base = 40\<rparr>)"

lemma pics_stay_ready:
  assumes "pics_ready h io" "io_run h io ws io'" "fst ` set ws \<inter> {PIC1_COMMAND, PIC1_DATA, PIC2_COMMAND, PIC2_DATA} = {}"
  shows "pics_ready h io'"
proof -
  have "fst ` set ws \<inter> {PIC1_COMMAND, PIC1_DATA} = {}" "fst ` set ws \<inter> {PIC2_COMMAND, PIC2_DATA} = {}" using assms(3) by auto
  then show ?thesis using assms(1) pic_keeps [OF _ assms(2)] unfolding pics_ready_def by metis
qed

definition pci_found :: "'d hw \<Rightarrow> 'd io \<Rightarrow> nm_device list \<Rightarrow> bool" where
  "pci_found h io devs \<longleftrightarrow> (\<forall>addr cfg. pci_bridge h addr cfg \<longrightarrow>
     (latches_bytes h addr \<longrightarrow> devs = pci_devices_of cfg) \<and>
     (latches_dwords_only h addr \<longrightarrow> devs = pci_devices_of (stuck_at cfg (addr (io_dev io)))))"

lemma pci_init_found:
  assumes "io_run h io0 ws io"
  shows "pci_found h io0 (fst (pci_init h io))"
proof -
  have "addr (io_dev io) = addr (io_dev io0)" if "pci_bridge h addr cfg" "latches_dwords_only h addr" for addr cfg
    using io_run_part [of addr h "\<lambda>_ a. a", OF _ _ assms] that by (simp add: pci_bridge_def latches_dwords_only_def) (induction ws; simp)
  then show ?thesis unfolding pci_found_def using pci_init_latched [of h _ _ io] pci_init_stuck [of h _ _ io] by metis
qed

definition with_drivers :: "'d machine \<Rightarrow> irq_state \<Rightarrow> nm_device list \<Rightarrow> 'd io \<Rightarrow> 'd machine" where
  "with_drivers m irq devs io =
     m\<lparr>m_irq := irq, m_pci := devs, m_rtl := pci_find_device 0x10EC 0x8139 devs, m_con := (m_con m)\<lparr>con_io := io\<rparr>\<rparr>"

lemma boot_drivers_says:
  assumes "be_pit_fn env \<noteq> 0" "be_kbd_fn env \<noteq> 0" "io_run (be_hw env) io0 us (con_io (m_con m))"
  shows "\<exists>irq devs io ws. boot_drivers env m = say env (drivers_text (pci_find_device 0x10EC 0x8139 devs)) (with_drivers m irq devs io) \<and>
    armed (be_pit_fn env) (be_kbd_fn env) irq \<and> bh_head irq = bh_tail irq \<and> io_run (be_hw env) (con_io (m_con m)) ws io \<and>
    writes_to com1_ports ws = [] \<and> writes_to {0x40, 0x43} ws = timer_writes \<and> pics_ready (be_hw env) io \<and> pci_found (be_hw env) io0 devs"
proof -
  let ?h = "be_hw env" and ?io = "con_io (m_con m)"
  obtain io1 where io1: "pic_init ?h ?io = Some io1" using pic_init_returns by blast
  let ?w0 = "\<lparr>dv_io = io1, g_pit_ticks = m_ticks m, g_last_char = m_char m\<rparr>"
  obtain irq1 w where p: "pit_init ?h (be_pit_fn env) (be_pit_name env) 100 (irq_init (m_irq m)) ?w0 = (irq1, w)" by (meson surj_pair)
  let ?irq = "keyboard_init (be_kbd_fn env) (be_kbd_name env) irq1"
  obtain devs io3 where d: "pci_init ?h (dv_io w) = (devs, io3)" by (meson surj_pair)
  have w: "g_pit_ticks w = m_ticks m" "g_last_char w = m_char m" using p by (auto simp: pit_init_def Let_def)
  have u: "x\<lparr>m_irq := a, m_ticks := m_ticks x, m_char := m_char x, m_pci := b, m_rtl := e, m_con := f\<rparr> =
      x\<lparr>m_irq := a, m_pci := b, m_rtl := e, m_con := f\<rparr>" for x :: "'a machine" and a b e f
    by (cases x) simp
  have "boot_drivers env m = say env (drivers_text (pci_find_device 0x10EC 0x8139 devs)) (with_drivers m ?irq devs io3)"
    using io1 p d w u by (simp add: boot_drivers_def rtl8139_init_def Let_def drivers_text_def NM_ERR_def with_drivers_def)
  moreover have "armed (be_pit_fn env) (be_kbd_fn env) ?irq" "bh_head ?irq = bh_tail ?irq"
    by (rule drivers_armed [OF assms(1,2), of _ "be_kbd_name env" ?h "be_pit_name env" 100 "m_irq m" ?w0], simp add: p)+
  moreover obtain vs where vs: "io_run ?h ?io vs io1" "fst ` set vs \<subseteq> {PIC1_COMMAND, PIC1_DATA, PIC2_COMMAND, PIC2_DATA, 0x80}"
    using pic_init_run [OF io1] by blast
  have io2: "dv_io w = outbs ?h timer_writes io1" using pit_init_io [of ?h _ _ _ ?w0] p by (metis devices.select_convs(1) snd_conv timer_writes_def)
  obtain xs where xs: "io_run ?h (dv_io w) xs io3" "fst ` set xs \<subseteq> {0xCF8, 0xCF9, 0xCFA, 0xCFB}"
    using pci_scan_run [of ?h "dv_io w" pci_slots "[]"] d by (auto simp: pci_init_def)
  have run2: "io_run ?h io1 ([] @ timer_writes) (dv_io w)" unfolding io2 by (rule io_run_outbs [OF io_done])
  have run3: "io_run ?h io1 (timer_writes @ xs) io3" using io_run_trans [OF xs(1) run2] by simp
  have "io_run ?h ?io (vs @ timer_writes @ xs) io3" by (rule io_run_trans [OF run3 vs(1)])
  moreover have "fst ` set vs \<inter> com1_ports = {}" "fst ` set xs \<inter> com1_ports = {}" "fst ` set vs \<inter> {0x40, 0x43} = {}" "fst ` set xs \<inter> {0x40, 0x43} = {}"
    using vs(2) xs(2) by (auto simp: com1_ports_def pic_ports)
  then have "writes_to com1_ports (vs @ timer_writes @ xs) = []" "writes_to {0x40, 0x43} (vs @ timer_writes @ xs) = timer_writes"
    by (simp_all add: writes_to_other timer_writes_def) (simp add: com1_ports_def)
  moreover have "pics_ready ?h io1" using pic_init_correct [of ?h _ _ ?io] io1 by (auto simp: pics_ready_def)
  then have "pics_ready ?h io3" by (rule pics_stay_ready [OF _ run3]) (use xs(2) in \<open>auto simp: pic_ports timer_writes_def\<close>)
  moreover have "pci_found ?h io0 devs"
    using pci_init_found [OF io_run_trans [OF run2 io_run_trans [OF vs(1) assms(3)]]] d by simp
  ultimately show ?thesis by blast
qed

section \<open>The heap during the start\<close>

lemma heap_alloc_run:
  assumes "heap_run (h, A, H)" "unat sz \<le> 2 ^ 64 - 16"
  shows "\<exists>p h' A' H'. kmalloc sz h = Some (p, h') \<and> heap_alloc sz (Some h) = (p, Some h') \<and> heap_run (h', A', H') \<and> (p = 0 \<longrightarrow> h' = h)"
proof -
  obtain p h' where k: "kmalloc sz h = Some (p, h')" "p = 0 \<Longrightarrow> h' = h" using kmalloc_returns [OF assms] by blast
  have "\<exists>A' H'. heap_run (h', A', H')"
    using heap_run.step [OF assms(1)] heap_step.s_alloc [OF assms(2) k(1), of A H] k(2) assms(1) by (cases "p = 0") blast+
  then show ?thesis using k by (auto simp: heap_alloc_def)
qed

lemma free_frames_suffice:
  assumes "heap_run (h, A, H)" "unat sz \<le> 2 ^ 64 - 16" "sz \<noteq> 0" "kmalloc sz h = Some (p, h')"
    "{f..<f + (unat sz + 4111) div 4096} \<subseteq> free_set (heap_pmm h)"
  shows "p \<noteq> 0"
proof -
  obtain F where inv: "heap_inv h A H F" using heap_run_inv [OF assms(1)] by auto
  have n: "0 < (unat sz + 4111) div 4096" by (simp add: div_greater_zero_iff)
  then have "f + (unat sz + 4111) div 4096 - 1 \<in> {f..<f + (unat sz + 4111) div 4096}" by simp
  then have "f + (unat sz + 4111) div 4096 - 1 \<in> free_set (heap_pmm h)" using assms(5) by blast
  then have "f + (unat sz + 4111) div 4096 - 1 < unat (frame_limit (heap_pmm h))" by (simp add: free_set_mem)
  then have "f + (unat sz + 4111) div 4096 \<le> unat (frame_limit (heap_pmm h))" using n by linarith
  then have "f \<in> free_runs (heap_pmm h) ((unat sz + 4111) div 4096)" using assms(5) by (simp add: free_runs_def)
  then show ?thesis using kmalloc_returns [OF assms(1,2)] assms(3,4) by auto
qed

text \<open>Eight free frames in a row are enough for the two stacks and the file, wherever the page allocator takes its pages from.\<close>

lemma eight_frames:
  assumes "heap_run (h0, A0, H0)" "kmalloc 8192 h0 = Some (q1, h1)" "heap_run (h1, A1, H1)" "kmalloc 8192 h1 = Some (q2, h2)"
    "heap_run (h2, A2, H2)" "kmalloc 64 h2 = Some (q3, h3)" "free_runs (heap_pmm h0) 8 \<noteq> {}"
  shows "q1 \<noteq> 0 \<and> q2 \<noteq> 0 \<and> q3 \<noteq> 0"
proof -
  obtain f where f: "{f..<f + 8} \<subseteq> free_set (heap_pmm h0)" using assms(7) by (auto simp: free_runs_def)
  obtain a where a: "free_set (heap_pmm h0) - {a..<a + 3} \<subseteq> free_set (heap_pmm h1)" using kmalloc_takes [OF assms(1) _ assms(2)] by auto
  obtain b where b: "free_set (heap_pmm h1) - {b..<b + 3} \<subseteq> free_set (heap_pmm h2)" using kmalloc_takes [OF assms(3) _ assms(4)] by auto
  have "{f..<f + 3} \<inter> {a..<a + 3} = {} \<or> {f + 5..<f + 5 + 3} \<inter> {a..<a + 3} = {}" by (cases "f + 3 \<le> a") auto
  moreover have "{f..<f + 3} \<subseteq> {f..<f + 8}" "{f + 5..<f + 5 + 3} \<subseteq> {f..<f + 8}" by auto
  ultimately obtain g where g: "{g..<g + 3} \<subseteq> free_set (heap_pmm h1)" using f a by blast
  have "\<exists>i < 3. (f + 3 * i < a \<or> a + 3 \<le> f + 3 * i) \<and> (f + 3 * i < b \<or> b + 3 \<le> f + 3 * i)"
  proof (rule ccontr)
    assume n: "\<not> ?thesis"
    have "(0 :: nat) < 3" "(1 :: nat) < 3" "(2 :: nat) < 3" by simp_all
    then have "\<not> ((f < a \<or> a + 3 \<le> f) \<and> (f < b \<or> b + 3 \<le> f))" "\<not> ((f + 3 < a \<or> a + 3 \<le> f + 3) \<and> (f + 3 < b \<or> b + 3 \<le> f + 3))"
      "\<not> ((f + 6 < a \<or> a + 3 \<le> f + 6) \<and> (f + 6 < b \<or> b + 3 \<le> f + 6))"
      using n by fastforce+
    then show False by linarith
  qed
  then obtain i where i: "i < 3" "f + 3 * i \<notin> {a..<a + 3}" "f + 3 * i \<notin> {b..<b + 3}" by auto
  then have "f + 3 * i \<in> {f..<f + 8}" by simp
  then have "f + 3 * i \<in> free_set (heap_pmm h2)" using f a b i(2,3) by blast
  then obtain x where "x \<in> free_set (heap_pmm h2)" using f a b by blast
  then have x: "{x..<x + 1} \<subseteq> free_set (heap_pmm h2)" by auto
  have "{f..<f + 3} \<subseteq> free_set (heap_pmm h0)" using f by auto
  then show ?thesis
    using free_frames_suffice [OF assms(1) _ _ assms(2), of f] free_frames_suffice [OF assms(3) _ _ assms(4), of g]
      free_frames_suffice [OF assms(5) _ _ assms(6), of x] g x by simp
qed

section \<open>The first tasks\<close>

text \<open>The task table while tasks are only created: the first \<open>n\<close> slots are in use, the bootstrap task runs.\<close>

definition first_tasks :: "nat \<Rightarrow> proc_state \<Rightarrow> bool" where
  "first_tasks n p \<longleftrightarrow> length (task_table p) = NM_MAX_TASKS \<and> current_task p = Some 0 \<and> task_used p = n \<and> next_pid p = int n + 1 \<and>
     t_pid (task_table p ! 0) = 1 \<and> t_state (task_table p ! 0) = NM_TASK_RUNNING \<and>
     (\<forall>i < NM_MAX_TASKS. task_used_slot (task_table p ! i) \<longleftrightarrow> i < n)"

lemma proc_init_tasks:
  assumes "length (task_table s) = NM_MAX_TASKS"
  shows "first_tasks 1 (proc_init s)"
proof -
  note p = proc_init_inv [OF assms]
  obtain t ts where ts: "task_table s = t # ts" using assms by (cases "task_table s") (auto simp: NM_MAX_TASKS_def)
  have "s32 2 = 2" by (intro s32_id) auto
  then have "next_pid (proc_init s) = 2" using ts by (simp add: proc_init_def alloc_task_slot_def clear_task_def)
  moreover have "task_used_slot (task_table (proc_init s) ! 0)" using p(5) by (simp add: task_used_slot_def)
  ultimately show ?thesis using p proc_invD(1) [OF p(1)] by (auto simp: first_tasks_def)
qed

definition thread_of :: "nat \<Rightarrow> u64 \<Rightarrow> nm_task \<Rightarrow> bool" where
  "thread_of n entry t \<longleftrightarrow> t_pid t = int n + 1 \<and> t_ppid t = 1 \<and> t_state t = NM_TASK_RUNNABLE \<and> t_is_kernel_thread t \<and> reg_rip (t_regs t) = entry"

lemma create_next:
  assumes "first_tasks n p" "0 < n" "n < NM_MAX_TASKS" "alloc KSTACK_SIZE h = (ks, h')" "ks \<noteq> 0"
  shows "\<exists>t m'. task_create_kernel_thread alloc free tr name entry arg p h m = (Some n, fill_slot n t p, h', m') \<and>
    thread_of n entry t \<and> first_tasks (n + 1) (fill_slot n t p)"
proof -
  note f = assms(1) [unfolded first_tasks_def]
  have "alloc_task_slot p = Some n"
    using f assms(3) by (auto simp: alloc_task_slot_def first_idx_Some_iff task_used_slot_def)
  moreover obtain sp m' where "kthread_frame tr entry arg (ks + KSTACK_SIZE) m = (sp, m')" by (meson surj_pair)
  moreover define t where "t = kthread_task p name entry (ks + KSTACK_SIZE) sp (task_table p ! n)"
  ultimately have t: "task_create_kernel_thread alloc free tr name entry arg p h m = (Some n, fill_slot n t p, h', m')"
    using assms(4,5) by (simp add: task_create_kernel_thread_def alloc_task_stack_def)
  have th: "thread_of n entry t" using f by (simp add: t_def thread_of_def kthread_task_def)
  have "s32 (int n + 2) = int n + 2" using assms(3) by (intro s32_id) (auto simp: NM_MAX_TASKS_def)
  then have "first_tasks (n + 1) (fill_slot n t p)"
    using f th assms(2,3) by (auto simp: first_tasks_def thread_of_def nth_list_update task_used_slot_def add.assoc)
  then show ?thesis using t th by blast
qed

text \<open>Spawning a thread: without memory for its stack nothing has changed, otherwise the next task is the thread.\<close>

lemma spawn_cases:
  assumes "heap_of m = Some h" "heap_run (h, A, H)" "first_tasks n (k_proc (m_kernel m))" "0 < n" "n < NM_MAX_TASKS"
    "kernel_ok (syscall_init (m_kernel m))" "length (syscall_table (m_kernel m)) = NM_SYSCALL_MAX"
  obtains q h' A' H' p mem where "kmalloc 8192 h = Some (q, h')" "heap_run (h', A', H')"
    "spawn env name entry m = Some (m\<lparr>m_kernel := (m_kernel m)\<lparr>k_proc := p, k_heap := Some h'\<rparr>, m_kmem := mem,
       m_vmm := (m_vmm m)\<lparr>vm_mem := heap_mem h', vm_pmm := heap_pmm h'\<rparr>\<rparr>)"
    "if q = 0 then h' = h \<and> p = k_proc (m_kernel m)
     else \<exists>t. p = fill_slot n t (k_proc (m_kernel m)) \<and> thread_of n entry t \<and> first_tasks (n + 1) p"
    "kernel_ok (syscall_init ((m_kernel m)\<lparr>k_proc := p, k_heap := Some h'\<rparr>))"
proof -
  let ?k = "m_kernel m"
  define ke where "ke = \<lparr>ke_vnodes = tmpfs_vnodes heap_block, ke_kmalloc = heap_alloc, ke_kfree = heap_free\<rparr>"
  obtain q h' A' H' where a: "kmalloc 8192 h = Some (q, h')" "heap_alloc KSTACK_SIZE (Some h) = (q, Some h')" "heap_run (h', A', H')" "q = 0 \<longrightarrow> h' = h"
    using heap_alloc_run [OF assms(2), of 8192] by (auto simp: KSTACK_SIZE_def)
  obtain t p hs mem where c: "task_create_kernel_thread heap_alloc heap_free (be_trampoline env) (Some name) entry 0
      (k_proc ?k) (Some h) (m_kmem m) = (t, p, hs, mem)" by (metis prod_cases4)
  have p: "hs = Some h' \<and> (if q = 0 then p = k_proc ?k else \<exists>t. p = fill_slot n t (k_proc ?k) \<and> thread_of n entry t \<and> first_tasks (n + 1) p)"
    using c a(2) create_next [OF assms(3-5), of heap_alloc "Some h" q "Some h'" heap_free "be_trampoline env" "Some name" entry 0 "m_kmem m"]
    by (cases "q = 0") (auto simp: task_create_kernel_thread_def alloc_task_stack_def)
  have sp: "spawn env name entry m = Some (m\<lparr>m_kernel := ?k\<lparr>k_proc := p, k_heap := Some h'\<rparr>, m_kmem := mem,
      m_vmm := (m_vmm m)\<lparr>vm_mem := heap_mem h', vm_pmm := heap_pmm h'\<rparr>\<rparr>)"
    using c p assms(1) by (simp add: spawn_def with_heap_def)
  have "next_pid (k_proc (syscall_init ?k)) < 2 ^ 31 - 1" "kernel_ok ((syscall_init ?k)\<lparr>k_heap := Some h\<rparr>)"
    using assms(3,5,6) by (simp_all add: syscall_init_state(2) first_tasks_def NM_MAX_TASKS_def)
  with spawn_ok [of "(syscall_init ?k)\<lparr>k_heap := Some h\<rparr>" ke "be_trampoline env" "Some name" entry 0 "m_kmem m" t p hs mem] c p
  have "kernel_ok ((syscall_init ?k)\<lparr>k_heap := Some h, k_proc := p, k_heap := Some h'\<rparr>)" by (simp add: ke_def syscall_init_state(2))
  moreover have "(syscall_init ?k)\<lparr>k_heap := Some h, k_proc := p, k_heap := Some h'\<rparr> = syscall_init (?k\<lparr>k_proc := p, k_heap := Some h'\<rparr>)"
    using assms(7) by (simp add: syscall_init_state(1))
  ultimately show thesis using a p sp by (intro that [of q h' A' H' mem p]) auto
qed

text \<open>
  The two threads and the system calls. The number of tasks is one and the number of threads that got a stack; when the first
  one got none, neither did the second.
\<close>

lemma started_cases:
  assumes "heap_of m = Some h0" "heap_run (h0, A0, H0)" "length (task_table (k_proc (m_kernel m))) = NM_MAX_TASKS" "fd_memory (k_fd (m_kernel m))"
    "length (syscall_table (m_kernel m)) = NM_SYSCALL_MAX"
  obtains q1 h1 A1 H1 q2 h2 A2 H2 p mem n where "kmalloc 8192 h0 = Some (q1, h1)" "heap_run (h1, A1, H1)"
    "kmalloc 8192 h1 = Some (q2, h2)" "heap_run (h2, A2, H2)"
    "started env m = Some (m\<lparr>m_kernel := syscall_init ((m_kernel m)\<lparr>k_proc := p, k_heap := Some h2\<rparr>), m_kmem := mem,
       m_vmm := (m_vmm m)\<lparr>vm_mem := heap_mem h2, vm_pmm := heap_pmm h2\<rparr>, m_sched := sched_init NM_SCHED_RR (m_sched m)\<rparr>)"
    "n \<in> {1, 2, 3}" "first_tasks n p" "1 < n \<longrightarrow> thread_of 1 (be_idle env) (task_table p ! 1)" "2 < n \<longrightarrow> thread_of 2 (be_worker env) (task_table p ! 2)"
    "q1 \<noteq> 0 \<and> q2 \<noteq> 0 \<longrightarrow> n = 3" "kernel_ok (syscall_init ((m_kernel m)\<lparr>k_proc := p, k_heap := Some h2\<rparr>))"
proof -
  let ?k = "m_kernel m" and ?p0 = "proc_init (k_proc (m_kernel m))"
  let ?m0 = "m\<lparr>m_kernel := ?k\<lparr>k_proc := ?p0\<rparr>\<rparr>"
  have lt: "1 < NM_MAX_TASKS" "2 < NM_MAX_TASKS" by (simp_all add: NM_MAX_TASKS_def)
  note f0 = proc_init_tasks [OF assms(3)]
  have m0: "heap_of ?m0 = Some h0" "first_tasks 1 (k_proc (m_kernel ?m0))" "kernel_ok (syscall_init (m_kernel ?m0))"
    "length (syscall_table (m_kernel ?m0)) = NM_SYSCALL_MAX"
    using assms(1,5) f0 boot_kernel_ok [OF assms(3,4)] by (simp_all add: heap_of_def)
  obtain q1 h1 A1 H1 p1 mem1 where s1: "kmalloc 8192 h0 = Some (q1, h1)" "heap_run (h1, A1, H1)"
    "spawn env ''idle/0'' (be_idle env) ?m0 = Some (?m0\<lparr>m_kernel := (m_kernel ?m0)\<lparr>k_proc := p1, k_heap := Some h1\<rparr>, m_kmem := mem1,
       m_vmm := (m_vmm ?m0)\<lparr>vm_mem := heap_mem h1, vm_pmm := heap_pmm h1\<rparr>\<rparr>)"
    "if q1 = 0 then h1 = h0 \<and> p1 = k_proc (m_kernel ?m0)
     else \<exists>t. p1 = fill_slot 1 t (k_proc (m_kernel ?m0)) \<and> thread_of 1 (be_idle env) t \<and> first_tasks (1 + 1) p1"
    "kernel_ok (syscall_init ((m_kernel ?m0)\<lparr>k_proc := p1, k_heap := Some h1\<rparr>))"
    using spawn_cases [OF m0(1) assms(2) m0(2) _ lt(1) m0(3,4)] by (metis zero_less_one)
  let ?m1 = "?m0\<lparr>m_kernel := (m_kernel ?m0)\<lparr>k_proc := p1, k_heap := Some h1\<rparr>, m_kmem := mem1, m_vmm := (m_vmm ?m0)\<lparr>vm_mem := heap_mem h1, vm_pmm := heap_pmm h1\<rparr>\<rparr>"
  define n1 where "n1 = (if q1 = 0 then 1 else 2 :: nat)"
  have m1: "heap_of ?m1 = Some h1" "first_tasks n1 (k_proc (m_kernel ?m1))" "0 < n1" "n1 < NM_MAX_TASKS"
    "kernel_ok (syscall_init (m_kernel ?m1))" "length (syscall_table (m_kernel ?m1)) = NM_SYSCALL_MAX"
    using s1(4,5) f0 lt assms(5) by (auto simp: heap_of_def n1_def simp del: One_nat_def)
  obtain q2 h2 A2 H2 p2 mem2 where s2: "kmalloc 8192 h1 = Some (q2, h2)" "heap_run (h2, A2, H2)"
    "spawn env ''kworker/0'' (be_worker env) ?m1 = Some (?m1\<lparr>m_kernel := (m_kernel ?m1)\<lparr>k_proc := p2, k_heap := Some h2\<rparr>, m_kmem := mem2,
       m_vmm := (m_vmm ?m1)\<lparr>vm_mem := heap_mem h2, vm_pmm := heap_pmm h2\<rparr>\<rparr>)"
    "if q2 = 0 then h2 = h1 \<and> p2 = k_proc (m_kernel ?m1)
     else \<exists>t. p2 = fill_slot n1 t (k_proc (m_kernel ?m1)) \<and> thread_of n1 (be_worker env) t \<and> first_tasks (n1 + 1) p2"
    "kernel_ok (syscall_init ((m_kernel ?m1)\<lparr>k_proc := p2, k_heap := Some h2\<rparr>))"
    using spawn_cases [OF m1(1) s1(2) m1(2-6)] by metis
  have q2: "q2 = 0" if "q1 = 0" using s1(1,4) s2(1) that by simp
  define n where "n = (if q2 = 0 then n1 else 3)"
  have len: "length (task_table ?p0) = NM_MAX_TASKS" using f0 by (simp add: first_tasks_def)
  have "n \<in> {1, 2, 3}" "q1 \<noteq> 0 \<and> q2 \<noteq> 0 \<longrightarrow> n = 3" by (simp_all add: n_def n1_def)
  moreover have "first_tasks n p2" using s2(4) m1(2) q2 by (auto simp: n_def n1_def numeral_3_eq_3 split: if_splits)
  moreover have "1 < n \<longrightarrow> thread_of 1 (be_idle env) (task_table p2 ! 1)"
    using s1(4) s2(4) q2 len lt by (auto simp: n_def n1_def split: if_splits)
  moreover have "2 < n \<longrightarrow> thread_of 2 (be_worker env) (task_table p2 ! 2)"
    using s1(4) s2(4) q2 len lt by (auto simp: n_def n1_def split: if_splits)
  moreover have "started env m = Some (m\<lparr>m_kernel := syscall_init (?k\<lparr>k_proc := p2, k_heap := Some h2\<rparr>), m_kmem := mem2,
      m_vmm := (m_vmm m)\<lparr>vm_mem := heap_mem h2, vm_pmm := heap_pmm h2\<rparr>, m_sched := sched_init NM_SCHED_RR (m_sched m)\<rparr>)"
    using s1(3) s2(3) by (simp add: started_def)
  moreover have "kernel_ok (syscall_init (?k\<lparr>k_proc := p2, k_heap := Some h2\<rparr>))" using s2(5) by simp
  ultimately show thesis using that [of q1 h1 A1 H1 q2 h2 A2 H2 mem2 p2 n] s1(1,2) s2(1,2) by (metis (no_types) that)
qed

section \<open>The boot script\<close>

definition motd :: string where "motd = line ''NeverMind shell booted''"

text \<open>A shell on a freshly mounted root.\<close>

definition fresh_root :: "'h tmpfs_state shell_fs \<Rightarrow> bool" where
  "fresh_root s \<longleftrightarrow> sh_ok 0 s \<and> count_if f_used (file_table (sh_vfs s)) = 0 \<and> tmpfs_lookup 0 ''motd'' (sh_fs s) = None \<and>
     (\<forall>n. live (sh_fs s) n \<longleftrightarrow> n = 0) \<and> vn_type (tm_nodes (sh_fs s) ! 0) = NM_NODE_DIR"

lemma motd_path: "good_path ''/motd''" "path_parts ''/motd'' = [''motd'']" "word_ok ''/motd''"
proof -
  show "good_path ''/motd''" "path_parts ''/motd'' = [''motd'']" by code_simp+
  show "word_ok ''/motd''" by (simp add: word_ok_def Shell.blank_def NUL_def char_of_def)
qed

lemma boot_line: "''echo NeverMind shell booted > /motd'' = ''echo '' @ spaced [''NeverMind'', ''shell'', ''booted''] @ '' > '' @ ''/motd''"
  "line ''NeverMind shell booted'' = spaced [''NeverMind'', ''shell'', ''booted''] @ [CHR 0x0A]"
  by (simp_all add: line_def)

lemma boot_words: "\<forall>w \<in> set [''NeverMind'', ''shell'', ''booted'']. word_ok w"
  by (simp add: word_ok_def Shell.blank_def NUL_def char_of_def)

lemma fresh_open:
  assumes "fresh_root s"
  shows "\<exists>n f1. open_node ''/motd'' 0x42 (sh_vfs s) (sh_fs s) = (Some n, f1) \<and> vn_capacity (tm_nodes f1 ! n) = 0 \<and> tm_heap f1 = tm_heap (sh_fs s)"
    "old_text s ''/motd'' []"
proof -
  let ?f = "sh_fs s"
  have s: "tm_ok ?f" "mounted tmpfs_ops 0 (sh_vfs s)" "live ?f 0" "tmpfs_lookup 0 ''motd'' ?f = None" "vn_type (tm_nodes ?f ! 0) = NM_NODE_DIR"
    using assms by (auto simp: fresh_root_def sh_ok_def)
  have "1 < length (tm_nodes ?f)" using s(1) by (simp add: tm_ok_def TMPFS_MAX_NODES_def)
  moreover have "\<not> live ?f 1" using assms by (simp add: fresh_root_def)
  ultimately have "\<exists>j nodes. alloc_node (tm_nodes ?f) = Some (j, nodes)"
    using tmnodes.alloc_possible [of 1 "tm_nodes ?f"] s(1) by (auto simp: live_def tm_ok_def)
  then obtain n f1 where cr: "tmpfs_create 0 ''motd'' NM_NODE_FILE 0x1A4 ?f = (Some n, f1)"
    using s(4,5) by (auto simp: tmpfs_create_def)
  have lk: "fs_op_lookup tmpfs_ops 0 (last (path_parts ''/motd'')) ?f = None" using s(4) by (simp add: motd_path tmpfs_ops_def)
  have w: "Vfs.walk (\<lambda>d name. fs_op_lookup tmpfs_ops d name ?f) 0 (butlast (path_parts ''/motd'')) = Some 0" by (simp add: motd_path)
  have "tmpfs_create 0 (last (path_parts ''/motd'')) NM_NODE_FILE 0x1A4 ?f = (Some n, f1)" using cr by (simp add: motd_path)
  from tmdir.open_creates(1) [OF s(1-3) motd_path(1) w lk _ this, of "0x42"]
  have "open_node ''/motd'' 0x42 (sh_vfs s) ?f = (Some n, f1)" by (simp add: NM_O_CREAT_def)
  moreover have "vn_capacity (tm_nodes f1 ! n) = 0" using create_SomeD(7) [OF s(1,3) cr] by (simp add: fresh_node_def)
  moreover have "tm_heap f1 = tm_heap ?f" using cr by (auto simp: tmpfs_create_def upd_node_def Let_def split: if_splits option.splits prod.splits)
  ultimately show "\<exists>n f1. open_node ''/motd'' 0x42 (sh_vfs s) (sh_fs s) = (Some n, f1) \<and> vn_capacity (tm_nodes f1 ! n) = 0 \<and> tm_heap f1 = tm_heap ?f"
    by (simp add: NM_O_CREAT_def)
  have "fst (resolve_path (sh_vfs s) ?f (Some ''/motd'') False) = None"
    using resolve_good(1) [OF s(2) motd_path(1), of ?f] s(4) by (simp add: motd_path tmpfs_ops_def)
  then show "old_text s ''/motd'' []" by (simp add: old_text_def)
qed

text \<open>
  The two lines of the script: the first one prints nothing and leaves the file, for which it asks the allocator for 64 bytes,
  the second one shows it. Without the memory the file stays empty and nobody notices.
\<close>

lemma boot_script_lines:
  assumes "fresh_root s" "length tmp = 512" "length one = 512" "length one' = 512"
    "shown \<longleftrightarrow> fst (nm_alloc 64 (tm_heap (sh_fs s))) \<noteq> None"
  shows "\<exists>s1 one2 s2. shell_execute_line (tmpfs_vnodes nm_alloc) tmp (Some ''echo NeverMind shell booted > /motd'') one s = Some (0, one[0 := NUL], s1) \<and>
    shell_execute_line (tmpfs_vnodes nm_alloc) tmp' (Some ''cat /motd'') one' s1 = Some (0, one2, s2) \<and> filled one2 (if shown then motd else []) \<and>
    length one2 = 512 \<and> sh_ok 0 s2 \<and> tm_heap (sh_fs s2) = snd (nm_alloc 64 (tm_heap (sh_fs s)))"
proof -
  let ?vm = "tmpfs_vnodes nm_alloc" and ?ws = "[''NeverMind'', ''shell'', ''booted'']"
  have ok: "sh_ok 0 s" "count_if f_used (file_table (sh_vfs s)) \<noteq> NM_FD_MAX" using assms(1) by (auto simp: fresh_root_def NM_FD_MAX_def)
  have ne: "one \<noteq> []" "one' \<noteq> []" using assms(3,4) by auto
  have len: "length ?ws \<le> 15" "length (spaced ?ws) \<le> 121" by simp_all
  obtain t where t: "filled t (spaced ?ws @ [CHR 0x0A])" "length t = 512"
    "shell_execute_line ?vm tmp (Some (''echo '' @ spaced ?ws @ '' > '' @ ''/motd'')) one s = redirect ?vm (CHR '' '' # ''/motd'') t (one[0 := NUL]) s"
    using execute_echo [OF boot_words len motd_path(3) ne(1) assms(2), of ?vm s] by blast
  obtain n f1 where op: "open_node ''/motd'' 0x42 (sh_vfs s) (sh_fs s) = (Some n, f1)" "vn_capacity (tm_nodes f1 ! n) = 0" "tm_heap f1 = tm_heap (sh_fs s)"
    using fresh_open(1) [OF assms(1)] by blast
  moreover have "length t < 2 ^ 63" using t(2) by simp
  ultimately obtain s1 where s1: "redirect ?vm (CHR '' '' # ''/motd'') t (one[0 := NUL]) s = Some (0, one[0 := NUL], s1)" "sh_ok 0 s1"
    using redirect_succeeds [OF ok(1) motd_path(3) filled_NUL [OF t(1)] _ _ ok(2)] by blast
  have l1: "shell_execute_line ?vm tmp (Some (''echo '' @ spaced ?ws @ '' > '' @ ''/motd'')) one s = Some (0, one[0 := NUL], s1)"
    using t(3) s1(1) by simp
  obtain r one2 s2 where l2: "is_file f1 n" "tmpfs_write nm_alloc n (map byte_of_char (spaced ?ws @ [CHR 0x0A])) 0 f1 = Some (r, sh_fs s1)"
    "shell_execute_line ?vm tmp' (Some (''cat '' @ ''/motd'')) one' s1 = Some (0, one2, s2)"
    "filled one2 (fit (length one') (if 0 \<le> r then spaced ?ws @ [CHR 0x0A] @ drop (length (spaced ?ws) + 1) [] else []))" "sh_fs s2 = sh_fs s1"
    "length one2 = length one'" "sh_ok 0 s2"
    using echo_then_cat [OF ok(1) boot_words len motd_path(3,1) fresh_open(2) [OF assms(1)] assms(2) ne(1) l1 ne(2), of tmp'] op(1) by auto
  have "map byte_of_char (spaced ?ws @ [CHR 0x0A]) \<noteq> []" "length (map byte_of_char (spaced ?ws @ [CHR 0x0A])) \<le> 64" by simp_all
  note w = first_write [OF l2(1) op(2) this l2(2), unfolded op(3)]
  have "filled one2 (if shown then motd else [])"
    using l2(4) w(2) assms(4,5) by (cases "0 \<le> r") (simp_all add: motd_def boot_line(2) fit_short)
  then show ?thesis using l1 l2(3,5-7) w(1) assms(4) unfolding boot_line(1) by (intro exI conjI) (assumption | simp)+
qed

lemma boot_script_runs:
  assumes "fresh_root s" "\<forall>i. length (fst (stack i)) = 512 \<and> length (snd (stack i)) = 512" "length out = 512"
    "shown \<longleftrightarrow> fst (nm_alloc 64 (tm_heap (sh_fs s))) \<noteq> None"
  shows "\<exists>out' s'. shell_run_script (tmpfs_vnodes nm_alloc) stack (Some boot_script) out s = Some (0, out', s') \<and>
    c_chars out' = Some (if shown then motd else []) \<and> (out' ! 0 \<noteq> NUL \<longleftrightarrow> shown) \<and> sh_ok 0 s' \<and>
    tm_heap (sh_fs s') = snd (nm_alloc 64 (tm_heap (sh_fs s)))"
proof -
  let ?vm = "tmpfs_vnodes nm_alloc" and ?l1 = "''echo NeverMind shell booted > /motd''" and ?l2 = "''cat /motd''" and ?o = "out[0 := NUL]"
  let ?i = "length ?l1" and ?j = "length ?l1 + 1 + length ?l2" and ?t = "if shown then motd else []"
  have motd: "NUL \<notin> set ?t" "motd \<noteq> []" "hd motd \<noteq> NUL" "length ?t < 512" by (simp_all add: motd_def line_def NUL_def char_of_def)
  have head: "x ! 0 \<noteq> NUL \<longleftrightarrow> shown" if "filled x ?t" for x :: "char list"
  proof (cases shown)
    case True
    then have "take (length motd) x = motd" using that by (simp add: filled_def holds_def)
    then have "x ! 0 = hd motd" using motd(2) by (metis hd_conv_nth length_greater_0_conv nth_take)
    then show ?thesis using True motd(3) by simp
  qed (use that in \<open>simp add: filled_def holds_def\<close>)
  obtain s1 one2 s2 where l: "shell_execute_line ?vm (snd (stack ?i)) (Some ?l1) (fst (stack ?i)) s = Some (0, (fst (stack ?i))[0 := NUL], s1)"
    "shell_execute_line ?vm (snd (stack ?j)) (Some ?l2) (fst (stack ?j)) s1 = Some (0, one2, s2)" "filled one2 ?t" "length one2 = 512" "sh_ok 0 s2"
    "tm_heap (sh_fs s2) = snd (nm_alloc 64 (tm_heap (sh_fs s)))"
    using boot_script_lines [OF assms(1), of "snd (stack ?i)" "fst (stack ?i)" "fst (stack ?j)" shown nm_alloc "snd (stack ?j)"] assms(2,4) by blast
  have "fst (stack ?i) \<noteq> []" using assms(2) by (metis list.size(3) zero_neq_numeral)
  then have "hd ((fst (stack ?i))[0 := NUL]) = NUL" by (cases "fst (stack ?i)") auto
  then have c1: "script_line ?vm (stack ?i) ?l1 ?o 0 s = Some (?o, 0, s1)" using l(1) by (simp add: script_line_def)
  have o: "holds ?o [] 0" "filled ?o []" using assms(3) by (simp_all add: holds_def filled_def)
  have "one2 \<noteq> []" using l(4) by auto
  then have one2: "hd one2 \<noteq> NUL \<longleftrightarrow> shown" using head [OF l(3)] by (simp add: hd_conv_nth)
  obtain out' used where out': "filled out' ?t" "script_line ?vm (stack ?j) ?l2 ?o 0 s1 = Some (out', used, s2)"
  proof (cases shown)
    case True
    obtain out' where "out_append ?o 0 (Some motd) = Some (out', length motd)" "filled out' motd"
      using out_append_filled [OF o(1), of motd] assms(3) motd(4) True by (auto simp: fit_short)
    then show ?thesis using that [of out' "length motd"] l(2) one2 True filled_chars [OF l(3) motd(1)] by (simp add: script_line_def)
  next
    case False
    then show ?thesis using that [of ?o 0] l(2) one2 o(2) by (simp add: script_line_def)
  qed
  have bs: "boot_script = ?l1 @ CHR 0x0A # ?l2 @ CHR 0x0A # []" by (simp add: boot_script_def line_def)
  have "script_loop ?vm stack 0 boot_script [] ?o 0 s = Some (0, out', s2)"
    unfolding bs using script_short_line [of "[]" ?l1 ?vm stack 0 "?l2 @ CHR 0x0A # []" ?o 0 s] c1
      script_short_line [of "[]" ?l2 ?vm stack "?i + 1" "[]" ?o 0 s1] out'(2)
    by (simp add: script_line_def)
  then have "shell_run_script ?vm stack (Some boot_script) out s = Some (0, out', s2)"
    using assms(3) by (auto simp: shell_run_script_def put_char_def)
  moreover have "c_chars out' = Some ?t" by (rule filled_chars [OF out'(1) motd(1)])
  ultimately show ?thesis using l(5,6) head [OF out'(1)] by auto
qed

definition userspace_text :: "bool \<Rightarrow> string" where
  "userspace_text shown = line ''[00.001100] userspace shell ready'' @ (if shown then motd else [])"

lemma userspace_says:
  assumes "serial_accepts (be_hw env)" "works (m_con m)" "length (be_out env) = 512"
    "\<forall>i. length (fst (be_stack env i)) = 512 \<and> length (snd (be_stack env i)) = 512"
    "fresh_root \<lparr>sh_vfs = fst (k_vfs (m_kernel m)), sh_fs = (snd (k_vfs (m_kernel m)))\<lparr>tm_heap := heap_of m\<rparr>\<rparr>"
    "heap_of m = Some h" "kmalloc 64 h = Some (q, h')"
  shows "\<exists>s. sh_ok 0 s \<and> userspace_init env m = say env (userspace_text (q \<noteq> 0)) (m\<lparr>m_vmm := (m_vmm m)\<lparr>vm_mem := heap_mem h', vm_pmm := heap_pmm h'\<rparr>,
    m_kernel := (m_kernel m)\<lparr>k_vfs := (sh_vfs s, sh_fs s), k_heap := Some h'\<rparr>\<rparr>)"
proof -
  let ?s = "\<lparr>sh_vfs = fst (k_vfs (m_kernel m)), sh_fs = (snd (k_vfs (m_kernel m)))\<lparr>tm_heap := Some h\<rparr>\<rparr>"
  have blk: "fst (heap_block 64 (Some h)) \<noteq> None \<longleftrightarrow> q \<noteq> 0" "snd (heap_block 64 (Some h)) = Some h'"
    using assms(7) by (simp_all add: heap_block_def heap_alloc_def)
  obtain out s where s: "shell_run_script (tmpfs_vnodes heap_block) (be_stack env) (Some boot_script) (be_out env) ?s = Some (0, out, s)"
    "c_chars out = Some (if q \<noteq> 0 then motd else [])" "out ! 0 \<noteq> NUL \<longleftrightarrow> q \<noteq> 0" "sh_ok 0 s" "tm_heap (sh_fs s) = Some h'"
    using boot_script_runs [OF assms(5) [unfolded assms(6)] assms(4,3), of "q \<noteq> 0" heap_block] blk by auto
  let ?t = "line ''[00.001100] userspace shell ready''"
  obtain c where c: "console_write (be_hw env) ?t (m_con m) = Some c" using sayE [OF assms(1,2)] by metis
  have "userspace_init env m = say env (userspace_text (q \<noteq> 0)) (m\<lparr>m_vmm := (m_vmm m)\<lparr>vm_mem := heap_mem h', vm_pmm := heap_pmm h'\<rparr>,
    m_kernel := (m_kernel m)\<lparr>k_vfs := (sh_vfs s, sh_fs s), k_heap := Some h'\<rparr>\<rparr>)"
    using s c assms(6)
    by (cases "q = 0") (simp_all add: userspace_init_def userspace_text_def shell_init_def say_def with_heap_def console_write_append Let_def del: console_write.simps append_Cons)
  then show ?thesis using s(4) by blast
qed

definition banner_text :: string where
  "banner_text = line ''NeverMind kernel (M8)'' @ line ''arch: x86_64'' @ line ''boot: BIOS+UEFI via GRUB multiboot2''"

lemma banner_says: "kernel_banner env m = say env banner_text m"
  by (simp add: kernel_banner_def say_def banner_text_def console_write_append del: console_write.simps)

section \<open>The whole start\<close>

text \<open>
  What the start needs: the serial line accepts characters, the static tables have their sizes (with any
  contents), the free list of the heap is empty as in the image of the kernel, and the handlers have addresses.
\<close>

definition boot_ready :: "'d boot_env \<Rightarrow> 'd machine \<Rightarrow> bool" where
  "boot_ready env m \<longleftrightarrow> serial_accepts (be_hw env) \<and> length (vga_mem (m_con m)) = 2000 \<and> klog_inv (con_klog (m_con m)) \<and>
     length (task_table (k_proc (m_kernel m))) = NM_MAX_TASKS \<and> length (syscall_table (m_kernel m)) = NM_SYSCALL_MAX \<and>
     fd_memory (k_fd (m_kernel m)) \<and> length (file_table (fst (k_vfs (m_kernel m)))) = NM_FD_MAX \<and>
     length (tm_nodes (snd (k_vfs (m_kernel m)))) = TMPFS_MAX_NODES \<and> be_pit_fn env \<noteq> 0 \<and> be_kbd_fn env \<noteq> 0 \<and>
     map_option free_list (k_heap (m_kernel m)) = Some 0 \<and>
     (\<forall>i. length (fst (be_stack env i)) = 512 \<and> length (snd (be_stack env i)) = 512) \<and> length (be_out env) = 512"

definition kernel_text :: "pmm_state \<Rightarrow> string" where
  "kernel_text p = processor_text @ memory_text p @ processes_text @ files_text"

definition user_text :: "nm_device option \<Rightarrow> bool \<Rightarrow> string" where
  "user_text nic shown = drivers_text nic @ line ''[00.000900] net ready: arp/ipv4/icmp/udp/tcp/socket'' @ userspace_text shown @ banner_text @
     line ''[00.001000] NeverMind: M8 hardening+ci ready''"

definition boot_text :: "pmm_state \<Rightarrow> nm_device option \<Rightarrow> bool \<Rightarrow> string" where
  "boot_text p nic shown = kernel_text p @ user_text nic shown"

lemma dec_text_length: "length (dec_text v) \<le> 32"
proof -
  have "length buf \<le> 32 \<Longrightarrow> length (dec_digits v buf) \<le> 32" for v buf
    by (induction v buf rule: dec_digits.induct) (subst dec_digits.simps, auto)
  then show ?thesis by (simp add: dec_text_def)
qed

lemma boot_text_kept: "last_n (KLOG_CAP - 1) (boot_text p nic shown) = boot_text p nic shown"
proof -
  have "length (memory_text p) \<le> 200"
    using dec_text_length [of "free_frames (mm_stats p)"] dec_text_length [of "used_frames (mm_stats p)"] by (simp add: memory_text_def line_def)
  moreover have "length processor_text \<le> 200" "length processes_text \<le> 200" "length files_text \<le> 200" "length (drivers_text nic) \<le> 200"
    "length (userspace_text shown) \<le> 200" "length banner_text \<le> 200"
    by (simp_all add: processor_text_def processes_text_def files_text_def drivers_text_def userspace_text_def motd_def banner_text_def line_def)
  ultimately have "length (boot_text p nic shown) \<le> KLOG_CAP - 1" by (simp add: boot_text_def kernel_text_def user_text_def line_def KLOG_CAP_def)
  then show ?thesis by (simp add: last_n_def)
qed

lemma multiboot2_inv: "pmm_inv (pmm_init_from_multiboot2 img mem ptr s)"
proof (cases "ptr = 0 \<or> rd32 mem (unat ptr) < 8")
  case True
  then have "pmm_init_from_multiboot2 img mem ptr s = pmm_init_fallback img s" by (auto simp: pmm_init_from_multiboot2_def)
  then show ?thesis using pmm_init_fallback_state [of img s] by simp
next
  case False
  then show ?thesis using pmm_init_from_multiboot2_state(1) [OF _ HOL.refl _ HOL.refl HOL.refl, of ptr mem] by (auto simp: not_less)
qed

lemma mounted_fresh:
  assumes "length (tm_nodes (snd (k_vfs k))) = TMPFS_MAX_NODES" "length (file_table (fst (k_vfs k))) = NM_FD_MAX"
  shows "fresh_root \<lparr>sh_vfs = fst (mounted_fs k), sh_fs = (snd (mounted_fs k))\<lparr>tm_heap := h\<rparr>\<rparr>"
proof -
  note m = mounted_fs_ok [OF assms, of "fst (mounted_fs k)" "snd (mounted_fs k)", OF prod.collapse [symmetric]]
  have "tmpfs_lookup d name (f\<lparr>tm_heap := h\<rparr>) = tmpfs_lookup d name f" "live (f\<lparr>tm_heap := h\<rparr>) n = live f n" for d name n and f :: "'a tmpfs_state"
    by (simp_all add: tmpfs_lookup_def live_def)
  then show ?thesis using m by (simp add: fresh_root_def)
qed

text \<open>The stages up to the memory manager.\<close>

lemma kmain_memory:
  assumes "boot_ready env m" "v = mm_init (be_img env) (be_mem env) (be_cr3 env) mb2_info (m_vmm m)"
  obtains m3 where "do { m \<leftarrow> boot_processor env m; boot_memory env mb2_info m } = Some m3"
    "console_write (be_hw env) (processor_text @ memory_text (vm_pmm v)) (started_console (be_hw env) (m_con m)) = Some (m_con m3)" "works (m_con m3)"
    "(m_cr0 m3, m_cr4 m3) = cpu_enable_sse (m_cr0 m) (m_cr4 m)" "m_tables m3 = booted_tables env (m_tables m)" "m_vmm m3 = v"
    "m_kernel m3 = m_kernel m" "m_sched m3 = m_sched m" "m_net m3 = m_net m"
proof -
  note rd = assms(1) [unfolded boot_ready_def]
  let ?h = "be_hw env"
  have acc: "serial_accepts ?h" using rd by blast
  define m1 where "m1 = m\<lparr>m_con := started_console ?h (m_con m), m_cr0 := fst (cpu_enable_sse (m_cr0 m) (m_cr4 m)),
     m_cr4 := snd (cpu_enable_sse (m_cr0 m) (m_cr4 m)), m_tables := booted_tables env (m_tables m)\<rparr>"
  have "works (m_con m1)" using started_console_shows(2) [of "m_con m" ?h] rd by (simp add: m1_def)
  then obtain c1 where c1: "say env processor_text m1 = Some (m1\<lparr>m_con := c1\<rparr>)"
    "console_write ?h processor_text (m_con m1) = Some c1" "works c1" by (rule sayE [OF acc])
  have b1: "boot_processor env m = Some (m1\<lparr>m_con := c1\<rparr>)" using c1(1) by (simp add: boot_processor_says m1_def)
  define m2 where "m2 = m1\<lparr>m_con := c1, m_vmm := v\<rparr>"
  have v: "v = mm_init (be_img env) (be_mem env) (be_cr3 env) mb2_info (m_vmm (m1\<lparr>m_con := c1\<rparr>))" using assms(2) by (simp add: m1_def)
  have "works (m_con m2)" using c1(3) by (simp add: m2_def)
  then obtain c2 where c2: "say env (memory_text (vm_pmm v)) m2 = Some (m2\<lparr>m_con := c2\<rparr>)"
    "console_write ?h (memory_text (vm_pmm v)) (m_con m2) = Some c2" "works c2" by (rule sayE [OF acc])
  have b2: "boot_memory env mb2_info (m1\<lparr>m_con := c1\<rparr>) = Some (m2\<lparr>m_con := c2\<rparr>)"
    using c2(1) unfolding boot_memory_says [OF v] m2_def .
  show thesis
    by (rule that [of "m2\<lparr>m_con := c2\<rparr>"])
      (use b1 b2 c1(2) c2(2,3) in \<open>simp_all add: console_write_append m1_def m2_def del: console_write.simps append_Cons\<close>)
qed

text \<open>The stages up to the mounted file system.\<close>

lemma kmain_kernel:
  assumes "boot_ready env m" "v = mm_init (be_img env) (be_mem env) (be_cr3 env) mb2_info (m_vmm m)"
  obtains m' k h0 A0 H0 q1 h1 A1 H1 q2 h2 A2 H2 n where
    "do { m \<leftarrow> boot_processor env m; m \<leftarrow> boot_memory env mb2_info m; m \<leftarrow> boot_processes env m; boot_files env m } = Some m'"
    "console_write (be_hw env) (kernel_text (vm_pmm v)) (started_console (be_hw env) (m_con m)) = Some (m_con m')" "works (m_con m')"
    "heap_run (h0, A0, H0)" "heap_pmm h0 = vm_pmm v" "kmalloc 8192 h0 = Some (q1, h1)" "heap_run (h1, A1, H1)"
    "kmalloc 8192 h1 = Some (q2, h2)" "heap_run (h2, A2, H2)" "m_vmm m' = v\<lparr>vm_mem := heap_mem h2, vm_pmm := heap_pmm h2\<rparr>"
    "(m_cr0 m', m_cr4 m') = cpu_enable_sse (m_cr0 m) (m_cr4 m)" "m_tables m' = booted_tables env (m_tables m)"
    "m_sched m' = sched_init NM_SCHED_RR (m_sched m)" "m_net m' = m_net m"
    "m_kernel m' = k\<lparr>k_vfs := mounted_fs k\<rparr>" "k_vfs k = k_vfs (m_kernel m)" "k_heap k = Some h2" "kernel_ok k" "syscall_table k = boot_table"
    "n \<in> {1, 2, 3}" "first_tasks n (k_proc k)" "1 < n \<longrightarrow> thread_of 1 (be_idle env) (task_table (k_proc k) ! 1)"
    "2 < n \<longrightarrow> thread_of 2 (be_worker env) (task_table (k_proc k) ! 2)" "q1 \<noteq> 0 \<and> q2 \<noteq> 0 \<longrightarrow> n = 3"
proof -
  note rd = assms(1) [unfolded boot_ready_def]
  let ?h = "be_hw env"
  have acc: "serial_accepts ?h" using rd by blast
  obtain m3 where m3: "do { m \<leftarrow> boot_processor env m; boot_memory env mb2_info m } = Some m3"
    "console_write ?h (processor_text @ memory_text (vm_pmm v)) (started_console ?h (m_con m)) = Some (m_con m3)" "works (m_con m3)"
    "(m_cr0 m3, m_cr4 m3) = cpu_enable_sse (m_cr0 m) (m_cr4 m)" "m_tables m3 = booted_tables env (m_tables m)" "m_vmm m3 = v"
    "m_kernel m3 = m_kernel m" "m_sched m3 = m_sched m" "m_net m3 = m_net m"
    by (rule kmain_memory [OF assms])
  note k3 = m3(7,6)
  obtain hk where hk: "k_heap (m_kernel m) = Some hk" "free_list hk = 0" using rd by auto
  define h0 where "h0 = hk\<lparr>heap_mem := vm_mem v, heap_pmm := vm_pmm v\<rparr>"
  have h0: "heap_of m3 = Some h0" "heap_pmm h0 = vm_pmm v" using hk k3 by (simp_all add: heap_of_def h0_def)
  have "pmm_inv (vm_pmm v)" using multiboot2_inv by (simp add: assms(2) mm_init_def vmm_init_def)
  then have run0: "heap_run (h0, {}, {})" using hk(2) by (intro heap_run.boot) (simp_all add: h0_def)
  have len: "length (task_table (k_proc (m_kernel m3))) = NM_MAX_TASKS" "fd_memory (k_fd (m_kernel m3))"
    "length (syscall_table (m_kernel m3)) = NM_SYSCALL_MAX" using rd k3 by simp_all
  obtain q1 h1 A1 H1 q2 h2 A2 H2 p mem n where st: "kmalloc 8192 h0 = Some (q1, h1)" "heap_run (h1, A1, H1)"
    "kmalloc 8192 h1 = Some (q2, h2)" "heap_run (h2, A2, H2)"
    "started env m3 = Some (m3\<lparr>m_kernel := syscall_init ((m_kernel m3)\<lparr>k_proc := p, k_heap := Some h2\<rparr>), m_kmem := mem,
       m_vmm := (m_vmm m3)\<lparr>vm_mem := heap_mem h2, vm_pmm := heap_pmm h2\<rparr>, m_sched := sched_init NM_SCHED_RR (m_sched m3)\<rparr>)"
    "n \<in> {1, 2, 3}" "first_tasks n p" "1 < n \<longrightarrow> thread_of 1 (be_idle env) (task_table p ! 1)" "2 < n \<longrightarrow> thread_of 2 (be_worker env) (task_table p ! 2)"
    "q1 \<noteq> 0 \<and> q2 \<noteq> 0 \<longrightarrow> n = 3" "kernel_ok (syscall_init ((m_kernel m3)\<lparr>k_proc := p, k_heap := Some h2\<rparr>))"
    by (rule started_cases [OF h0(1) run0 len])
  define k where "k = syscall_init ((m_kernel m3)\<lparr>k_proc := p, k_heap := Some h2\<rparr>)"
  have k: "k_vfs k = k_vfs (m_kernel m)" "k_heap k = Some h2" "k_proc k = p" "syscall_table k = boot_table"
    using len(3) k3 by (simp_all add: k_def syscall_init_state(1))
  define m4 where "m4 = m3\<lparr>m_kernel := k, m_kmem := mem, m_vmm := v\<lparr>vm_mem := heap_mem h2, vm_pmm := heap_pmm h2\<rparr>, m_sched := sched_init NM_SCHED_RR (m_sched m3)\<rparr>"
  have st4: "started env m3 = Some m4" using st(5) k3 by (simp add: m4_def k_def)
  have mk: "m_kernel m4 = k" by (simp add: m4_def)
  have "works (m_con m4)" using m3(3) by (simp add: m4_def)
  then obtain c3 where c3: "say env processes_text m4 = Some (m4\<lparr>m_con := c3\<rparr>)"
    "console_write ?h processes_text (m_con m4) = Some c3" "works c3" by (rule sayE [OF acc])
  have b3: "boot_processes env m3 = Some (m4\<lparr>m_con := c3\<rparr>)" using c3(1) by (simp add: boot_processes_says st4)
  define m5 where "m5 = m4\<lparr>m_con := c3, m_kernel := k\<lparr>k_vfs := mounted_fs k\<rparr>\<rparr>"
  have "length (tm_nodes (snd (k_vfs (m_kernel (m4\<lparr>m_con := c3\<rparr>))))) = TMPFS_MAX_NODES" using rd k(1) by (simp add: m4_def)
  note fs = boot_files_says [OF this]
  have "works (m_con m5)" using c3(3) by (simp add: m5_def)
  then obtain c4 where c4: "say env files_text m5 = Some (m5\<lparr>m_con := c4\<rparr>)"
    "console_write ?h files_text (m_con m5) = Some c4" "works c4" by (rule sayE [OF acc])
  have b4: "boot_files env (m4\<lparr>m_con := c3\<rparr>) = Some (m5\<lparr>m_con := c4\<rparr>)" using c4(1) mk by (simp add: fs m5_def)
  have "do { m \<leftarrow> boot_processor env m; m \<leftarrow> boot_memory env mb2_info m; m \<leftarrow> boot_processes env m; boot_files env m } = Some (m5\<lparr>m_con := c4\<rparr>)"
    using m3(1) b3 b4 by (auto split: bind_splits)
  moreover have "console_write ?h (kernel_text (vm_pmm v)) (started_console ?h (m_con m)) = Some c4"
    using m3(2) c3(2) c4(2) unfolding kernel_text_def append.assoc [symmetric] console_write_append [of _ _ files_text] console_write_append [of _ _ processes_text]
    by (simp add: m5_def m4_def)
  moreover have "(m_cr0 m5, m_cr4 m5) = cpu_enable_sse (m_cr0 m) (m_cr4 m)" "m_tables m5 = booted_tables env (m_tables m)"
    "m_sched m5 = sched_init NM_SCHED_RR (m_sched m)" "m_net m5 = m_net m" "m_kernel m5 = k\<lparr>k_vfs := mounted_fs k\<rparr>"
    "m_vmm m5 = v\<lparr>vm_mem := heap_mem h2, vm_pmm := heap_pmm h2\<rparr>"
    using m3 by (simp_all add: m5_def m4_def)
  ultimately show thesis
    by (intro that [of "m5\<lparr>m_con := c4\<rparr>" h0 "{}" "{}" q1 h1 A1 H1 q2 h2 A2 H2 k n]) (use c4(3) run0 h0(2) st k in \<open>simp_all add: k_def\<close>)
qed

text \<open>The stages from the drivers on.\<close>

lemma kmain_devices:
  assumes "boot_ready env m" "works (m_con m4)" "m_kernel m4 = k\<lparr>k_vfs := mounted_fs k\<rparr>" "k_vfs k = k_vfs (m_kernel m)"
    "heap_of m4 = Some h2" "kmalloc 64 h2 = Some (q3, h3)" "io_run (be_hw env) io0 us (con_io (m_con m4))"
  obtains m' s io ws where
    "do { m \<leftarrow> boot_drivers env m4; m \<leftarrow> boot_net env m; m \<leftarrow> userspace_init env m; m \<leftarrow> kernel_banner env m;
      say env (line ''[00.001000] NeverMind: M8 hardening+ci ready'') m } = Some m'"
    "io_run (be_hw env) (con_io (m_con m4)) ws io" "writes_to com1_ports ws = []" "writes_to {0x40, 0x43} ws = timer_writes" "pics_ready (be_hw env) io"
    "console_write (be_hw env) (user_text (m_rtl m') (q3 \<noteq> 0)) ((m_con m4)\<lparr>con_io := io\<rparr>) = Some (m_con m')"
    "m_rtl m' = pci_find_device 0x10EC 0x8139 (m_pci m')" "pci_found (be_hw env) io0 (m_pci m')"
    "armed (be_pit_fn env) (be_kbd_fn env) (m_irq m')" "bh_head (m_irq m') = bh_tail (m_irq m')"
    "m_kernel m' = k\<lparr>k_vfs := (sh_vfs s, sh_fs s), k_heap := Some h3\<rparr>" "sh_ok 0 s" "m_net m' = net_init (m_net m4)"
    "m_vmm m' = (m_vmm m4)\<lparr>vm_mem := heap_mem h3, vm_pmm := heap_pmm h3\<rparr>"
    "m_tables m' = m_tables m4" "m_cr0 m' = m_cr0 m4" "m_cr4 m' = m_cr4 m4" "m_sched m' = m_sched m4"
proof -
  note rd = assms(1) [unfolded boot_ready_def]
  let ?h = "be_hw env"
  have acc: "serial_accepts ?h" and fn: "be_pit_fn env \<noteq> 0" "be_kbd_fn env \<noteq> 0" using rd by blast+
  obtain irq devs io ws where dr:
    "boot_drivers env m4 = say env (drivers_text (pci_find_device 0x10EC 0x8139 devs)) (with_drivers m4 irq devs io)"
    "armed (be_pit_fn env) (be_kbd_fn env) irq" "bh_head irq = bh_tail irq" "io_run ?h (con_io (m_con m4)) ws io"
    "writes_to com1_ports ws = []" "writes_to {0x40, 0x43} ws = timer_writes" "pics_ready ?h io" "pci_found ?h io0 devs"
    using boot_drivers_says [OF fn assms(7)] by blast
  define nic where "nic = pci_find_device 0x10EC 0x8139 devs"
  define m5 where "m5 = with_drivers m4 irq devs io"
  have "works (m_con m5)" using assms(2) by (simp add: m5_def with_drivers_def)
  then obtain c5 where c5: "say env (drivers_text nic) m5 = Some (m5\<lparr>m_con := c5\<rparr>)"
    "console_write ?h (drivers_text nic) (m_con m5) = Some c5" "works c5" by (rule sayE [OF acc])
  define m6 where "m6 = m5\<lparr>m_con := c5, m_net := net_init (m_net m4)\<rparr>"
  let ?net = "line ''[00.000900] net ready: arp/ipv4/icmp/udp/tcp/socket''" and ?last = "line ''[00.001000] NeverMind: M8 hardening+ci ready''"
  have net: "boot_net env (m5\<lparr>m_con := c5\<rparr>) = say env ?net m6" by (simp add: boot_net_def m6_def m5_def with_drivers_def)
  have "works (m_con m6)" using c5(3) by (simp add: m6_def)
  then obtain c6 where c6: "say env ?net m6 = Some (m6\<lparr>m_con := c6\<rparr>)"
    "console_write ?h ?net (m_con m6) = Some c6" "works c6" by (rule sayE [OF acc])
  let ?m6 = "m6\<lparr>m_con := c6\<rparr>"
  have p6: "m_kernel ?m6 = k\<lparr>k_vfs := mounted_fs k\<rparr>" "heap_of ?m6 = Some h2" "works (m_con ?m6)" "m_con ?m6 = c6"
    using assms(3,5) c6(3) by (simp_all add: m6_def m5_def with_drivers_def heap_of_def)
  have fresh: "fresh_root \<lparr>sh_vfs = fst (k_vfs (m_kernel ?m6)), sh_fs = (snd (k_vfs (m_kernel ?m6)))\<lparr>tm_heap := heap_of ?m6\<rparr>\<rparr>"
    using mounted_fresh [of k] assms(4) rd p6(1) by simp
  obtain s where us: "sh_ok 0 s" "userspace_init env ?m6 = say env (userspace_text (q3 \<noteq> 0))
      (?m6\<lparr>m_vmm := (m_vmm ?m6)\<lparr>vm_mem := heap_mem h3, vm_pmm := heap_pmm h3\<rparr>, m_kernel := (m_kernel ?m6)\<lparr>k_vfs := (sh_vfs s, sh_fs s), k_heap := Some h3\<rparr>\<rparr>)"
    using userspace_says [OF acc p6(3) _ _ fresh p6(2) assms(6)] rd by auto
  define m7 where "m7 = ?m6\<lparr>m_vmm := (m_vmm ?m6)\<lparr>vm_mem := heap_mem h3, vm_pmm := heap_pmm h3\<rparr>,
    m_kernel := (m_kernel ?m6)\<lparr>k_vfs := (sh_vfs s, sh_fs s), k_heap := Some h3\<rparr>\<rparr>"
  have m7: "m_con m7 = c6" by (simp add: m7_def)
  have tail: "do { m \<leftarrow> userspace_init env ?m6; m \<leftarrow> kernel_banner env m; say env ?last m } = say env (userspace_text (q3 \<noteq> 0) @ banner_text @ ?last) m7"
    unfolding us(2) m7_def [symmetric] banner_says by (simp add: say_def console_write_append del: console_write.simps append_Cons)
  have "works (m_con m7)" using c6(3) m7 by simp
  then obtain c7 where c7: "say env (userspace_text (q3 \<noteq> 0) @ banner_text @ ?last) m7 = Some (m7\<lparr>m_con := c7\<rparr>)"
    "console_write ?h (userspace_text (q3 \<noteq> 0) @ banner_text @ ?last) (m_con m7) = Some c7" by (rule sayE [OF acc])
  show thesis
  proof (rule that [of "m7\<lparr>m_con := c7\<rparr>" ws io s])
    show "do { m \<leftarrow> boot_drivers env m4; m \<leftarrow> boot_net env m; m \<leftarrow> userspace_init env m; m \<leftarrow> kernel_banner env m; say env ?last m } = Some (m7\<lparr>m_con := c7\<rparr>)"
      using dr(1) c5(1) net c6(1) tail c7(1) by (simp add: m5_def nic_def)
    show "console_write ?h (user_text (m_rtl (m7\<lparr>m_con := c7\<rparr>)) (q3 \<noteq> 0)) ((m_con m4)\<lparr>con_io := io\<rparr>) = Some (m_con (m7\<lparr>m_con := c7\<rparr>))"
      using c5(2) c6(2) c7(2) by (simp add: m7 user_text_def console_write_append m7_def m6_def m5_def with_drivers_def nic_def)
  qed (use dr us(1) p6(1) in \<open>simp_all add: m7_def m6_def m5_def with_drivers_def\<close>)
qed

text \<open>
  C6: the kernel starts, whatever the boot loader passes, the static tables hold and the memory allows, when the serial line accepts
  characters. \<^verbatim>\<open>kmain\<close> reaches its endless loop, and there: the console shows exactly the boot messages, in
  order, with the free and used frames as the memory manager found them; the log holds the same text and the
  serial line was set up and sent it; the timer was given the divisor for 100 interrupts a second; interrupt controllers that follow their
  documentation deliver at vectors 32 and 40 with only timer and keyboard enabled; the list of devices is what the PCI bridge lets the scan
  see, and the card is the first RTL8139 in it; the control registers enable SSE; the descriptor
  tables are loaded; scheduler and network stack are as their initialisations leave them; the heap, the frame allocator, the
  processes, the descriptors and the file system satisfy their invariants; the bootstrap task runs,
  and the kernel threads that got a stack are ready to run at their entries; timer and
  keyboard handlers are registered, and no deferred work is pending, so that the first turn of the loop goes
  straight to the scheduler. When eight frames in a row are free both threads exist and the boot script shows the text
  it wrote into a file; with less memory threads and text may be missing, which no message says.
\<close>

theorem kernel_boots:
  assumes "boot_ready env m" "v = mm_init (be_img env) (be_mem env) (be_cr3 env) mb2_info (m_vmm m)"
  shows "\<exists>m' shown n h A H ws. kmain env mb2_info m = Some m' \<and>
    shows_sheet (vga_mem (m_con m)) (m_con m') (fold sheet_putc (boot_text (vm_pmm v) (m_rtl m') shown) ([], [])) \<and>
    klog_contents (con_klog (m_con m')) = boot_text (vm_pmm v) (m_rtl m') shown \<and>
    io_log (con_io (m_con m')) = io_log (con_io (m_con m)) @ ws \<and>
    writes_to com1_ports ws = serial_setup @ sent (boot_text (vm_pmm v) (m_rtl m') shown) \<and> writes_to {0x40, 0x43} ws = timer_writes \<and>
    pics_ready (be_hw env) (con_io (m_con m')) \<and> pci_found (be_hw env) (con_io (m_con m)) (m_pci m') \<and>
    m_rtl m' = pci_find_device 0x10EC 0x8139 (m_pci m') \<and>
    (m_cr0 m', m_cr4 m') = cpu_enable_sse (m_cr0 m) (m_cr4 m) \<and> m_tables m' = booted_tables env (m_tables m) \<and>
    m_sched m' = sched_init NM_SCHED_RR (m_sched m) \<and> m_net m' = net_init (m_net m) \<and>
    k_heap (m_kernel m') = Some h \<and> heap_run (h, A, H) \<and> m_vmm m' = v\<lparr>vm_mem := heap_mem h, vm_pmm := heap_pmm h\<rparr> \<and> pmm_inv (heap_pmm h) \<and>
    kernel_ok (m_kernel m') \<and> syscall_table (m_kernel m') = boot_table \<and> sh_ok 0 \<lparr>sh_vfs = fst (k_vfs (m_kernel m')), sh_fs = snd (k_vfs (m_kernel m'))\<rparr> \<and>
    n \<in> {1, 2, 3} \<and> first_tasks n (k_proc (m_kernel m')) \<and> (1 < n \<longrightarrow> thread_of 1 (be_idle env) (task_table (k_proc (m_kernel m')) ! 1)) \<and>
    (2 < n \<longrightarrow> thread_of 2 (be_worker env) (task_table (k_proc (m_kernel m')) ! 2)) \<and> (free_runs (vm_pmm v) 8 \<noteq> {} \<longrightarrow> shown \<and> n = 3) \<and>
    armed (be_pit_fn env) (be_kbd_fn env) (m_irq m') \<and> (\<forall>call_bh c. kmain_turn call_bh m' c = Some (thread_turn m' c))"
proof -
  let ?h = "be_hw env"
  have rd: "serial_accepts ?h" "length (vga_mem (m_con m)) = 2000" "klog_inv (con_klog (m_con m))" using assms(1) by (simp_all add: boot_ready_def)
  obtain m4 k h0 A0 H0 q1 h1 A1 H1 q2 h2 A2 H2 n where a:
    "do { m \<leftarrow> boot_processor env m; m \<leftarrow> boot_memory env mb2_info m; m \<leftarrow> boot_processes env m; boot_files env m } = Some m4"
    "console_write ?h (kernel_text (vm_pmm v)) (started_console ?h (m_con m)) = Some (m_con m4)" "works (m_con m4)"
    "heap_run (h0, A0, H0)" "heap_pmm h0 = vm_pmm v" "kmalloc 8192 h0 = Some (q1, h1)" "heap_run (h1, A1, H1)"
    "kmalloc 8192 h1 = Some (q2, h2)" "heap_run (h2, A2, H2)" "m_vmm m4 = v\<lparr>vm_mem := heap_mem h2, vm_pmm := heap_pmm h2\<rparr>"
    "(m_cr0 m4, m_cr4 m4) = cpu_enable_sse (m_cr0 m) (m_cr4 m)" "m_tables m4 = booted_tables env (m_tables m)"
    "m_sched m4 = sched_init NM_SCHED_RR (m_sched m)" "m_net m4 = m_net m"
    "m_kernel m4 = k\<lparr>k_vfs := mounted_fs k\<rparr>" "k_vfs k = k_vfs (m_kernel m)" "k_heap k = Some h2" "kernel_ok k" "syscall_table k = boot_table"
    "n \<in> {1, 2, 3}" "first_tasks n (k_proc k)" "1 < n \<longrightarrow> thread_of 1 (be_idle env) (task_table (k_proc k) ! 1)"
    "2 < n \<longrightarrow> thread_of 2 (be_worker env) (task_table (k_proc k) ! 2)" "q1 \<noteq> 0 \<and> q2 \<noteq> 0 \<longrightarrow> n = 3"
    by (rule kmain_kernel [OF assms])
  obtain q3 h3 A3 H3 where h3: "kmalloc 64 h2 = Some (q3, h3)" "heap_run (h3, A3, H3)" using heap_alloc_run [OF a(9), of 64] by auto
  have heap: "heap_of m4 = Some h2" using a(10,15,17) by (simp add: heap_of_def)
  have run4: "io_run ?h (con_io (m_con m)) (serial_setup @ sent (kernel_text (vm_pmm v))) (con_io (m_con m4))"
    by (rule whole_output(3) [OF rd a(2) io_done, of "[]"]) simp
  obtain m' s io ws where b:
    "do { m \<leftarrow> boot_drivers env m4; m \<leftarrow> boot_net env m; m \<leftarrow> userspace_init env m; m \<leftarrow> kernel_banner env m;
      say env (line ''[00.001000] NeverMind: M8 hardening+ci ready'') m } = Some m'"
    "io_run ?h (con_io (m_con m4)) ws io" "writes_to com1_ports ws = []" "writes_to {0x40, 0x43} ws = timer_writes" "pics_ready ?h io"
    "console_write ?h (user_text (m_rtl m') (q3 \<noteq> 0)) ((m_con m4)\<lparr>con_io := io\<rparr>) = Some (m_con m')"
    "m_rtl m' = pci_find_device 0x10EC 0x8139 (m_pci m')" "pci_found ?h (con_io (m_con m)) (m_pci m')"
    "armed (be_pit_fn env) (be_kbd_fn env) (m_irq m')" "bh_head (m_irq m') = bh_tail (m_irq m')"
    "m_kernel m' = k\<lparr>k_vfs := (sh_vfs s, sh_fs s), k_heap := Some h3\<rparr>" "sh_ok 0 s" "m_net m' = net_init (m_net m4)"
    "m_vmm m' = (m_vmm m4)\<lparr>vm_mem := heap_mem h3, vm_pmm := heap_pmm h3\<rparr>"
    "m_tables m' = m_tables m4" "m_cr0 m' = m_cr0 m4" "m_cr4 m' = m_cr4 m4" "m_sched m' = m_sched m4"
    by (rule kmain_devices [OF assms(1) a(3,15,16) heap h3(1) run4])
  let ?T = "boot_text (vm_pmm v) (m_rtl m') (q3 \<noteq> 0)" and ?ws = "(serial_setup @ sent (kernel_text (vm_pmm v))) @ ws @ sent (user_text (m_rtl m') (q3 \<noteq> 0))"
  note out = whole_output [OF rd a(2) b(2,6)]
  have run: "io_run ?h (con_io (m_con m)) ?ws (con_io (m_con m'))" by (rule io_run_trans [OF io_run_trans [OF out(4) b(2)] run4])
  have serial: "writes_to com1_ports serial_setup = serial_setup" "writes_to com1_ports (sent str) = sent str"
    "writes_to {0x40, 0x43} serial_setup = []" "writes_to {0x40, 0x43} (sent str) = []"
    "fst ` set (sent str) \<inter> {PIC1_COMMAND, PIC1_DATA, PIC2_COMMAND, PIC2_DATA} = {}" for str
    by (auto simp: writes_to_def sent_def serial_setup_def com1_ports_def COM1_def pic_ports)
  have kmain: "kmain env mb2_info m = Some m'" using a(1) b(1) by (auto simp: kmain_def split: bind_splits)
  have turn: "kmain_turn call_bh m' c = Some (thread_turn m' c)" for call_bh c
    using b(10) by (subst kmain_turn_def, subst irq_run_bottom_halves.simps) (simp add: bh_dequeue_def)
  have room: "free_runs (vm_pmm v) 8 \<noteq> {} \<longrightarrow> q3 \<noteq> 0 \<and> n = 3"
    using eight_frames [OF a(4,6,7,8,9) h3(1)] a(5,24) by metis
  have ws: "writes_to com1_ports ?ws = serial_setup @ sent ?T" "writes_to {0x40, 0x43} ?ws = timer_writes"
    using b(3,4) serial by (simp_all add: boot_text_def sent_def)
  have pics: "pics_ready ?h (con_io (m_con m'))" by (rule pics_stay_ready [OF b(5) out(4) serial(5)])
  have inv: "pmm_inv (heap_pmm h3)" using heap_run_inv [OF h3(2)] by (auto simp: heap_inv_def)
  have printed: "shows_sheet (vga_mem (m_con m)) (m_con m') (fold sheet_putc ?T ([], []))" "klog_contents (con_klog (m_con m')) = ?T"
    using out(1,2) boot_text_kept [of "vm_pmm v"] unfolding boot_text_def by simp_all
  have "kernel_ok (m_kernel m')" using a(18) b(11) by (simp add: kernel_ok_def)
  then show ?thesis
    using kmain printed io_run_log [OF run] ws pics b(7-9,11-18) a(10-14,19-23) h3(2) inv room turn
    by (intro exI [of _ m'] exI [of _ "q3 \<noteq> 0"] exI [of _ n] exI [of _ h3] exI [of _ A3] exI [of _ H3] exI [of _ ?ws]) (simp add: sh_ok_def)
qed

section \<open>Witness\<close>

text \<open>A machine with a serial line that is always ready, two interrupt controllers and a PCI bridge with a network card.\<close>

definition demo_board :: "(pic8259 \<times> pic8259 \<times> u32) hw" where
  "demo_board = \<lparr>hw_in = (\<lambda>port (p1, p2, a).
       (if port = COM1 + 5 then 0x20 else if port = PIC1_DATA then pic_imr p1 else if port = PIC2_DATA then pic_imr p2
        else selected_byte demo_config a (unat (port - 0xCFC)), p1, p2, a)),
     hw_out = (\<lambda>port v (p1, p2, a).
       (pic_step PIC1_COMMAND PIC1_DATA (port, v) p1, pic_step PIC2_COMMAND PIC2_DATA (port, v) p2,
        if port - 0xCF8 < 4 then set_byte (unat (port - 0xCF8)) v a else a))\<rparr>"

lemma demo_board_ok:
  "serial_accepts demo_board" "pic_at demo_board PIC1_COMMAND PIC1_DATA fst" "pic_at demo_board PIC2_COMMAND PIC2_DATA (\<lambda>d. fst (snd d))"
  "pci_bridge demo_board (\<lambda>d. snd (snd d)) demo_config" "latches_bytes demo_board (\<lambda>d. snd (snd d))"
proof -
  show "serial_accepts demo_board"
    unfolding serial_accepts_def by (subst serial_wait.simps) (auto simp: inb_def demo_board_def split: prod.splits)
  show "pic_at demo_board PIC1_COMMAND PIC1_DATA fst" "pic_at demo_board PIC2_COMMAND PIC2_DATA (\<lambda>d. fst (snd d))"
    by (simp_all add: pic_at_def demo_board_def pic_step_def pic_ports COM1_def split_beta)
  have "unat (of_nat i :: u16) = i \<and> (of_nat i :: u16) < 4" "(0xCFC + of_nat i :: u16) \<notin> {0x3FD, 0x21, 0xA1}" if "i < 4" for i
  proof -
    show "unat (of_nat i :: u16) = i \<and> (of_nat i :: u16) < 4" using that by (simp add: unat_of_nat word_less_nat_alt)
    have "i = 0 \<or> i = 1 \<or> i = 2 \<or> i = 3" using that by linarith
    then show "(0xCFC + of_nat i :: u16) \<notin> {0x3FD, 0x21, 0xA1}" by (elim disjE) simp_all
  qed
  then show "pci_bridge demo_board (\<lambda>d. snd (snd d)) demo_config" "latches_bytes demo_board (\<lambda>d. snd (snd d))"
    by (simp_all add: pci_bridge_def latches_bytes_def demo_board_def pic_ports COM1_def split_beta)
qed

definition demo_boot_env :: "(pic8259 \<times> pic8259 \<times> u32) boot_env" where
  "demo_boot_env = \<lparr>be_hw = demo_board, be_gdt = 0x111000, be_tss = 0x112000, be_idt = 0x110000, be_isrs = demo_isrs, be_img = demo_img,
     be_mem = demo_boot_mem, be_cr3 = 0x1000,
     be_trampoline = 0x101100, be_idle = 0x101200, be_worker = 0x101300, be_pit_fn = 0x101400, be_pit_name = 0x120000, be_kbd_fn = 0x101500,
     be_kbd_name = 0x120010, be_stack = (\<lambda>i. (replicate 512 CHR ''x'', replicate 512 CHR ''y'')), be_out = replicate 512 CHR ''z''\<rparr>"

definition demo_machine :: "(pic8259 \<times> pic8259 \<times> u32) machine" where
  "demo_machine = \<lparr>m_con = \<lparr>con_klog = klog_boot, vga_mem = replicate 2000 0x0741, vga_row = 7, vga_col = 7, vga_attr = 0x07,
       con_io = \<lparr>io_dev = (\<lparr>icw_left = 2, pic_imr = 0xB8, pic_base = 8\<rparr>, \<lparr>icw_left = 0, pic_imr = 0x8E, pic_base = 0x70\<rparr>, 0), io_log = []\<rparr>\<rparr>,
     m_tables = demo_tables, m_cr0 = 0, m_cr4 = 0, m_vmm = demo_vm,
     m_kernel = \<lparr>k_proc = boot_proc, k_fd = k_fd demo_kernel, k_vfs = (boot_vfs, \<lparr>tm_nodes = tm_nodes boot_tmpfs, tm_next_ino = 0, tm_root = tm_root boot_tmpfs, tm_heap = None\<rparr>),
       k_mem = (\<lambda>_. 0), k_console = [], k_heap = Some demo_heap, syscall_table = replicate NM_SYSCALL_MAX None\<rparr>,
     m_kmem = (\<lambda>_. 0), m_sched = demo_sched, m_irq = \<lparr>irq_table = [], bh_queue = [], bh_head = 3, bh_tail = 7\<rparr>, m_ticks = 0, m_char = - 1,
     m_pci = [], m_rtl = None, m_net = demo_net\<rparr>"

lemma demo_card_found: "pci_find_device 0x10EC 0x8139 (pci_devices_of demo_config) = Some demo_card"
proof -
  obtain rest where ps: "pci_slots = (0, 0) # (0, 1) # (0, 2) # (0, 3) # rest" using pci_slots_start by blast
  have "pci_present demo_config (0, 0)" "\<not> pci_present demo_config (0, 1)" "\<not> pci_present demo_config (0, 2)"
    "pci_present demo_config (0, 3)" "pci_described demo_config (0, 3) = demo_card" "vendor_id (pci_described demo_config (0, 0)) \<noteq> 0x10EC"
    by (simp_all add: pci_present_def pci_described_def header_def demo_config_def le16_def le32_def demo_card_def)
  then show ?thesis by (simp add: pci_find_device_def pci_devices_of_def ps demo_card_def NM_PCI_MAX_DEVICES_def)
qed

lemma demo_boot_ready: "boot_ready demo_boot_env demo_machine"
proof -
  have "fd_memory (k_fd demo_kernel)" "length (task_table boot_proc) = NM_MAX_TASKS"
    by (simp_all add: demo_kernel_def boot_proc_def demo_fd_def fd_memory_def nm_fd_init_def)
  then show ?thesis using demo_board_ok(1) klog_boot_inv
    by (simp add: boot_ready_def demo_boot_env_def demo_machine_def boot_vfs_def boot_tmpfs_def demo_heap_def)
qed

text \<open>The module of the boot loader leaves 256 free frames in a row, so the start is complete.\<close>

theorem kernel_boots_witness:
  "\<exists>m' p. kmain demo_boot_env 0x20000 demo_machine = Some m' \<and> first_tasks 3 (k_proc (m_kernel m')) \<and>
     thread_of 2 0x101300 (task_table (k_proc (m_kernel m')) ! 2) \<and> klog_contents (con_klog (m_con m')) = boot_text p (Some demo_card) True \<and>
     fst (io_dev (con_io (m_con m'))) = \<lparr>icw_left = 0, pic_imr = 0xFC, pic_base = 32\<rparr>"
proof -
  define v where "v = mm_init (be_img demo_boot_env) (be_mem demo_boot_env) (be_cr3 demo_boot_env) 0x20000 (m_vmm demo_machine)"
  have free: "{0x400..<0x408} \<subseteq> free_set (vm_pmm v)"
    using module_before_mmap_is_free [of "vm_pmm (m_vmm demo_machine)"] by (auto simp: v_def demo_boot_env_def mm_init_def vmm_init_def)
  moreover have "0x407 \<in> free_set (vm_pmm v)" using free by auto
  then have "0x407 < unat (frame_limit (vm_pmm v))" by (simp add: free_set_mem)
  ultimately have "0x400 \<in> free_runs (vm_pmm v) 8" by (simp add: free_runs_def)
  then have room: "free_runs (vm_pmm v) 8 \<noteq> {}" by blast
  have pci: "m_rtl m' = Some demo_card" if "pci_found demo_board io (m_pci m')" "m_rtl m' = pci_find_device 0x10EC 0x8139 (m_pci m')" for io and m' :: "(pic8259 \<times> pic8259 \<times> u32) machine"
    using that demo_board_ok(4,5) demo_card_found by (auto simp: pci_found_def)
  have pic: "fst (io_dev io) = \<lparr>icw_left = 0, pic_imr = 0xFC, pic_base = 32\<rparr>" if "pics_ready demo_board io" for io
    using that demo_board_ok(2,3) unfolding pics_ready_def by blast
  have env: "be_hw demo_boot_env = demo_board" "be_worker demo_boot_env = 0x101300" by (simp_all add: demo_boot_env_def)
  from kernel_boots [OF demo_boot_ready v_def, unfolded env] obtain m' shown n where
    "kmain demo_boot_env 0x20000 demo_machine = Some m'" "klog_contents (con_klog (m_con m')) = boot_text (vm_pmm v) (m_rtl m') shown"
    "pics_ready demo_board (con_io (m_con m'))" "pci_found demo_board (con_io (m_con demo_machine)) (m_pci m')"
    "m_rtl m' = pci_find_device 0x10EC 0x8139 (m_pci m')" "first_tasks n (k_proc (m_kernel m'))"
    "2 < n \<longrightarrow> thread_of 2 0x101300 (task_table (k_proc (m_kernel m')) ! 2)" "free_runs (vm_pmm v) 8 \<noteq> {} \<longrightarrow> shown \<and> n = 3" by blast
  then show ?thesis using pci pic room by (intro exI [of _ m'] exI [of _ "vm_pmm v"]) auto
qed

end
