(* ===== verification/Programs.thy ===== *)
theory Programs
  imports Kmain
begin

text \<open>
  The user programs of \<^verbatim>\<open>userspace/ping.c\<close>, \<^verbatim>\<open>userspace/http_server.c\<close>, \<^verbatim>\<open>userspace/http_client.c\<close> and
  \<^verbatim>\<open>userspace/dmesg.c\<close>. Each returns its exit code and what it prints. The two HTTP programs are cut where
  another program can run in between: after the server has set itself up, and after the client has connected.
\<close>

section \<open>Programs\<close>

definition bytes_of_text :: "string \<Rightarrow> u8 list" where
  "bytes_of_text str = map byte_of_char str"

definition ping :: "net_state \<Rightarrow> int \<times> string \<times> net_state" where
  "ping s =
     (let (rc, s) = icmp_send_echo 0xC0A80101 1 1 (Some (bytes_of_text ''NeverMind ping'')) 14 s
      in if rc = 0 then (0, line ''ping: echo request sent'', s) else (1, line ''ping: failed'', s))"

definition http_addr :: nm_sockaddr_in where
  "http_addr = \<lparr>sin_family = 2, sin_port = 8080, sin_addr = 0x7F000001\<rparr>"

definition crlf :: string where "crlf = [CHR 0x0D, CHR 0x0A]"

definition http_response :: string where
  "http_response = ''HTTP/1.1 200 OK'' @ crlf @ ''Content-Length: 12'' @ crlf @ crlf @ ''NeverMind OK''"

definition http_request :: string where
  "http_request = ''GET / HTTP/1.1'' @ crlf @ ''Host: nevermind'' @ crlf @ crlf"

definition server_setup :: "sock_state \<Rightarrow> int \<times> bool \<times> sock_state" where
  "server_setup s =
     (let (fd, s) = nm_socket NM_AF_INET NM_SOCK_STREAM 0 s in
      if fd < 0 then (fd, False, s)
      else let (r, s) = nm_bind fd (Some http_addr) s in
        if r \<noteq> 0 then (fd, False, s)
        else let (r, s) = nm_listen fd 4 s in (fd, r = 0, s))"

definition server_serve :: "int \<Rightarrow> sock_state \<Rightarrow> (int \<times> string \<times> sock_state) option" where
  "server_serve fd s =
     (let (c, addr, s) = nm_accept fd s in
      if c < 0 then Some (1, line ''http_server: accept failed'', s)
      else let (n, req, addr, s) = nm_recvfrom c True 256 s in
        do { (n, s) \<leftarrow> nm_sendto c (Some (bytes_of_text http_response)) (of_nat (length http_response)) None s;
             let s = snd (nm_close_socket c s);
             let s = snd (nm_close_socket fd s);
             Some (0, line ''http_server: served one request'', s) })"

definition http_server :: "sock_state \<Rightarrow> (int \<times> string \<times> sock_state) option" where
  "http_server s =
     (let (fd, ok, s) = server_setup s in
      if \<not> ok then Some (1, line ''http_server: setup failed'', s) else server_serve fd s)"

definition client_connect :: "sock_state \<Rightarrow> int \<times> bool \<times> sock_state" where
  "client_connect s =
     (let (fd, s) = nm_socket NM_AF_INET NM_SOCK_STREAM 0 s in
      if fd < 0 then (fd, False, s)
      else let (r, s) = nm_connect fd (Some http_addr) s in (fd, r = 0, s))"

text \<open>The response buffer is zeroed, and the byte after the received ones is set to zero again.\<close>

definition client_talk :: "int \<Rightarrow> sock_state \<Rightarrow> (int \<times> string \<times> sock_state) option" where
  "client_talk fd s =
     do { (n, s) \<leftarrow> nm_sendto fd (Some (bytes_of_text http_request)) (of_nat (length http_request)) None s;
          let (n, resp, addr, s) = nm_recvfrom fd True 255 s;
          let out = (if n > 0 then line (takeWhile (\<lambda>c. c \<noteq> NUL) (map char_of_byte resp)) else []);
          Some (0, out, snd (nm_close_socket fd s)) }"

definition http_client :: "sock_state \<Rightarrow> (int \<times> string \<times> sock_state) option" where
  "http_client s =
     (let (fd, ok, s) = client_connect s in
      if \<not> ok then Some (1, line ''http_client: connect failed'', s) else client_talk fd s)"

definition dmesg :: "klog_state \<Rightarrow> int \<times> string" where
  "dmesg s =
     (let (n, buf) = klog_read True 8192 s in
      if n = 0 then (0, line ''dmesg: no logs'') else (0, line (takeWhile (\<lambda>c. c \<noteq> NUL) buf)))"

section \<open>A process of its own\<close>

text \<open>
  Each program is linked with its own copy of the network code and of the log, so it starts with these tables:
  nothing in use, the first connection number, the first ephemeral port, and a log that was never set up.
\<close>

definition fresh_process :: "sock_state \<Rightarrow> bool" where
  "fresh_process s \<longleftrightarrow> length (socks s) = SOCK_MAX \<and> (\<forall>e \<in> set (socks s). \<not> se_used e) \<and> eph_port s = 40000 \<and>
     length (conns (s_tcp s)) = TCP_CONN_MAX \<and> (\<forall>c \<in> set (conns (s_tcp s)). \<not> tc_used c \<and> length (tc_rx_buf c) = TCP_BUF_MAX) \<and>
     next_id (s_tcp s) = 1"

lemma three_cells: "3 \<le> length xs \<Longrightarrow> \<exists>a b c ys. xs = a # b # c # ys"
  by (metis Suc_le_length_iff numeral_3_eq_3)

lemma fresh_process_lists:
  assumes "fresh_process s"
  obtains e0 e1 e2 es c0 c1 c2 cs where "socks s = e0 # e1 # e2 # es" "conns (s_tcp s) = c0 # c1 # c2 # cs"
proof -
  have "3 \<le> length (socks s)" "3 \<le> length (conns (s_tcp s))" using assms by (simp_all add: fresh_process_def SOCK_MAX_def TCP_CONN_MAX_def)
  then obtain e0 e1 e2 es c0 c1 c2 cs where "socks s = e0 # e1 # e2 # es" "conns (s_tcp s) = c0 # c1 # c2 # cs"
    using three_cells by metis
  then show thesis by (rule that)
qed

lemmas socket_defs = nm_socket_def alloc_socket_unlocked_def claim_sock_def nm_bind_def nm_listen_def nm_accept_def nm_connect_def nm_sendto_def
  nm_recvfrom_def nm_close_socket_def get_sock_def upd_sock_def set_tcp_def set_stats_def pick_port_def SOCK_MAX_def NM_AF_INET_def NM_SOCK_STREAM_def
  NM_SOCK_DGRAM_def
lemmas tcp_defs = tcp_listen_def tcp_connect_def tcp_accept_def tcp_send_def tcp_recv_def tcp_close_def alloc_conn_def find_by_id_def find_listener_def
  claim_conn_def upd_conn_def drop_conn_def

lemma s32_small: "s32 2 = 2" "s32 3 = 3" "s32 4 = 4"
  by (intro s32_id; simp)+

text \<open>The tables after the set-up of the server, and after the client has connected.\<close>

definition listening_to :: "sock_state \<Rightarrow> nm_socket_entry list \<Rightarrow> tcp_conn list \<Rightarrow> bool" where
  "listening_to s es cs \<longleftrightarrow> (\<exists>e c. socks s = e # es \<and> conns (s_tcp s) = c # cs \<and> se_used e \<and> se_type e = 1 \<and> se_local_port e = 8080 \<and>
     se_listening e \<and> se_tcp_conn_id e = 1 \<and> tc_used c \<and> tc_id c = 1 \<and> tc_state c = TCP_LISTEN \<and> tc_local_port c = 8080 \<and>
     next_id (s_tcp s) = 2 \<and> eph_port s = 40000)"

lemma server_setup_fresh:
  assumes "fresh_process s" "socks s = e0 # es" "conns (s_tcp s) = c0 # cs"
  shows "\<exists>s'. server_setup s = (0, True, s') \<and> listening_to s' es cs"
proof -
  have "\<not> se_used e0" "\<not> tc_used c0" "next_id (s_tcp s) = 1" "eph_port s = 40000"
    using assms by (auto simp: fresh_process_def)
  then show ?thesis
    using assms(2,3) s32_small by (simp add: server_setup_def socket_defs tcp_defs http_addr_def NM_ERR_def listening_to_def)
qed

lemma accept_fresh:
  assumes "listening_to s es cs" "\<forall>c \<in> set cs. \<not> tc_used c"
  shows "\<exists>s'. server_serve 0 s = Some (1, line ''http_server: accept failed'', s')"
proof -
  obtain e c where ec: "socks s = e # es" "conns (s_tcp s) = c # cs" "se_used e" "se_listening e" "tc_state c = TCP_LISTEN"
    using assms(1) by (auto simp: listening_to_def)
  have "first_idx (\<lambda>c. tc_used c \<and> tc_state c = TCP_SYN_RECV \<and> tc_local_port c = port) cs = None" for port
    using assms(2) by (simp add: first_idx_None_iff)
  then show ?thesis using ec by (simp add: server_serve_def socket_defs tcp_defs NM_ERR_def)
qed

lemma connect_fresh:
  assumes "fresh_process s"
  shows "\<exists>s'. http_client s = Some (1, line ''http_client: connect failed'', s')"
proof -
  obtain e0 e1 e2 es c0 c1 c2 cs where l: "socks s = e0 # e1 # e2 # es" "conns (s_tcp s) = c0 # c1 # c2 # cs"
    by (rule fresh_process_lists [OF assms])
  have "\<not> se_used e0" "\<forall>c \<in> set (conns (s_tcp s)). \<not> tc_used c" using assms l by (auto simp: fresh_process_def)
  moreover from this have "first_idx (\<lambda>c. tc_used c \<and> tc_state c = TCP_LISTEN \<and> tc_local_port c = port) (conns (s_tcp s)) = None" for port
    by (simp add: first_idx_None_iff)
  ultimately show ?thesis using l
    by (simp add: http_client_def client_connect_def nm_socket_def alloc_socket_unlocked_def claim_sock_def nm_connect_def get_sock_def upd_sock_def set_tcp_def
        set_stats_def pick_port_def SOCK_MAX_def NM_AF_INET_def NM_SOCK_STREAM_def NM_SOCK_DGRAM_def tcp_connect_def find_listener_def NM_ERR_def)
qed

text \<open>What the connected client and the waiting server side look like in the tables.\<close>

definition connected_to :: "sock_state \<Rightarrow> nm_socket_entry list \<Rightarrow> tcp_conn list \<Rightarrow> bool" where
  "connected_to s es cs \<longleftrightarrow> (\<exists>e e' l c d. socks s = e # e' # es \<and> conns (s_tcp s) = l # c # d # cs \<and> se_used e \<and> se_listening e \<and> se_type e = 1 \<and>
     se_local_port e = 8080 \<and> se_tcp_conn_id e = 1 \<and> se_used e' \<and> se_type e' = 1 \<and> se_tcp_conn_id e' = 2 \<and>
     tc_used l \<and> tc_id l = 1 \<and> tc_state l = TCP_LISTEN \<and> tc_used c \<and> tc_id c = 2 \<and> tc_state c = TCP_ESTABLISHED \<and> tc_peer_id c = 3 \<and>
     tc_used d \<and> tc_id d = 3 \<and> tc_state d = TCP_SYN_RECV \<and> tc_local_port d = 8080 \<and> tc_peer_id d = 2 \<and> tc_rx_len d = 0 \<and> length (tc_rx_buf c) = 2048)"

lemma client_connects:
  assumes "listening_to s (e1 # es) (c1 # c2 # cs)" "\<not> se_used e1" "\<not> tc_used c1" "\<not> tc_used c2" "length (tc_rx_buf c1) = 2048"
  shows "\<exists>s'. client_connect s = (1, True, s') \<and> connected_to s' es cs"
  using assms s32_small
  by (auto simp: listening_to_def connected_to_def client_connect_def socket_defs tcp_defs http_addr_def NM_ERR_def)


definition answered :: "sock_state \<Rightarrow> bool" where
  "answered s \<longleftrightarrow> (\<exists>e e' es l c d cs. socks s = e # e' # es \<and> conns (s_tcp s) = l # c # d # cs \<and> \<not> se_used e \<and> se_used e' \<and> se_type e' = 1 \<and>
     se_tcp_conn_id e' = 2 \<and> \<not> tc_used l \<and> tc_used c \<and> tc_id c = 2 \<and> tc_state c = TCP_ESTABLISHED \<and> tc_peer_id c = 3 \<and> \<not> tc_used d \<and>
     unat (tc_rx_len c) = length http_response \<and> take (length http_response) (tc_rx_buf c) = bytes_of_text http_response \<and>
     (\<forall>c \<in> set cs. \<not> tc_used c))"

lemma response_length: "length http_response = 51" "length (bytes_of_text str) = length str"
  by (simp_all add: http_response_def crlf_def bytes_of_text_def)

lemma server_answers:
  assumes "connected_to s (e2 # es) cs" "\<not> se_used e2" "\<forall>c \<in> set cs. \<not> tc_used c"
  shows "\<exists>s'. server_serve 0 s = Some (0, line ''http_server: served one request'', s') \<and> answered s'"
proof -
  have "bytes_of (bytes_of_text http_response) 51 = Some (bytes_of_text http_response)" by (simp add: bytes_of_def response_length)
  moreover have "take 51 (overwrite (bytes_of_text http_response) buf) = bytes_of_text http_response" for buf
    by (simp add: overwrite_def response_length)
  ultimately show ?thesis
    using assms
    by (auto simp: connected_to_def answered_def server_serve_def socket_defs tcp_defs response_length TCP_BUF_MAX_def)
qed

lemma client_gets_answer:
  assumes "answered s"
  shows "\<exists>s'. client_talk 1 s = Some (0, line http_response, s')"
proof -
  have chars: "map char_of_byte (bytes_of_text str) = str" for str by (simp add: bytes_of_text_def comp_def)
  have nn: "takeWhile (\<lambda>c. c \<noteq> NUL) http_response = http_response" by (simp add: http_response_def crlf_def NUL_def char_of_def)
  obtain e e' es l c d cs where a: "socks s = e # e' # es" "conns (s_tcp s) = l # c # d # cs" "se_used e'" "se_type e' = 1" "se_tcp_conn_id e' = 2"
    "\<not> tc_used l" "tc_used c" "tc_id c = 2" "tc_state c = TCP_ESTABLISHED" "tc_peer_id c = 3" "\<not> tc_used d" "\<forall>c \<in> set cs. \<not> tc_used c"
    and r: "unat (tc_rx_len c) = 51" "take 51 (tc_rx_buf c) = bytes_of_text http_response"
    using assms by (auto simp: answered_def response_length)
  have g: "get_sock 1 s = Some 1" using a by (simp add: get_sock_def SOCK_MAX_def)
  have "first_idx (\<lambda>c. tc_used c \<and> tc_id c = 3) cs = None" using a(12) by (simp add: first_idx_None_iff)
  then have f: "find_by_id 2 (s_tcp s) = Some 1" "find_by_id 3 (s_tcp s) = None" using a by (simp_all add: find_by_id_def)
  have "tcp_send 2 data len (s_tcp s) = Some (NM_ERR 1, s_tcp s)" for data len using a f by (cases data) (simp_all add: tcp_send_def)
  then have sd: "nm_sendto 1 (Some data) (of_nat (length http_request)) None s = Some (NM_ERR 1, set_tcp (s_tcp s) s)" for data
    using a g by (simp add: nm_sendto_def NM_SOCK_DGRAM_def http_request_def crlf_def)
  have same: "set_tcp (s_tcp s) s = s" by (simp add: set_tcp_def)
  have "tc_rx_len c \<noteq> 0" "tc_rx_len c < 255" using r(1) by (auto simp: word_less_nat_alt)
  moreover have "uint (tc_rx_len c) = 51" using r(1) by (metis uint_nat of_nat_numeral)
  ultimately have "\<exists>t. tcp_recv 2 True 255 (s_tcp s) = (51, bytes_of_text http_response, t)" using a f r by (simp add: tcp_recv_def)
  then have "\<exists>s'. nm_recvfrom 1 True 255 s = (51, bytes_of_text http_response, None, s')"
    using a g by (auto simp: nm_recvfrom_def NM_SOCK_DGRAM_def)
  then show ?thesis using sd same by (auto simp: client_talk_def chars nn)
qed

section \<open>Properties\<close>

text \<open>
  C27: the two HTTP programs work together when the client connects between the server's set-up and its
  accept: the server then serves, and the client, which finds the connection closed when it sends its
  request, still receives and prints the whole response. Run on its own tables, each of the four
  programs ends at once: the accept of the server does not wait, so it finds no connection; the client finds no
  listener; the log of \<^verbatim>\<open>dmesg\<close> is empty; and \<^verbatim>\<open>ping\<close> reports success although no frame is sent.
\<close>

theorem user_programs_outcome:
  assumes "fresh_process s"
  shows "(\<exists>s1 s2 s3 s4. server_setup s = (0, True, s1) \<and> client_connect s1 = (1, True, s2) \<and>
      server_serve 0 s2 = Some (0, line ''http_server: served one request'', s3) \<and> client_talk 1 s3 = Some (0, line http_response, s4)) \<and>
    (\<exists>s'. http_server s = Some (1, line ''http_server: accept failed'', s')) \<and>
    (\<exists>s'. http_client s = Some (1, line ''http_client: connect failed'', s')) \<and>
    dmesg klog_boot = (0, line ''dmesg: no logs'') \<and>
    (\<exists>n'. ping n = (0, line ''ping: echo request sent'', n') \<and> tx_frames (net_stats n') = tx_frames (net_stats n))"
proof -
  obtain e0 e1 e2 es c0 c1 c2 cs where l: "socks s = e0 # e1 # e2 # es" "conns (s_tcp s) = c0 # c1 # c2 # cs"
    by (rule fresh_process_lists [OF assms])
  have u: "\<not> se_used e1" "\<not> se_used e2" "\<not> tc_used c1" "\<not> tc_used c2" "\<forall>c \<in> set cs. \<not> tc_used c" "length (tc_rx_buf c1) = 2048"
    using assms l by (auto simp: fresh_process_def TCP_BUF_MAX_def)
  obtain s1 where s1: "server_setup s = (0, True, s1)" "listening_to s1 (e1 # e2 # es) (c1 # c2 # cs)"
    using server_setup_fresh [OF assms l] by blast
  obtain s2 where s2: "client_connect s1 = (1, True, s2)" "connected_to s2 (e2 # es) cs"
    using client_connects [OF s1(2) u(1,3,4,6)] by blast
  obtain s3 where s3: "server_serve 0 s2 = Some (0, line ''http_server: served one request'', s3)" "answered s3"
    using server_answers [OF s2(2) u(2,5)] by blast
  moreover have "\<exists>s'. http_server s = Some (1, line ''http_server: accept failed'', s')"
    using accept_fresh [OF s1(2)] u s1(1) by (auto simp: http_server_def)
  moreover have "dmesg klog_boot = (0, line ''dmesg: no logs'')" by (simp add: dmesg_def klog_read_def klog_boot_def)
  moreover have "\<exists>n'. ping n = (0, line ''ping: echo request sent'', n') \<and> tx_frames (net_stats n') = tx_frames (net_stats n)"
    by (simp add: ping_def icmp_send_echo_def net_stats_note_icmp_rep_def net_stats_note_icmp_req_def)
  ultimately show ?thesis using s1(1) s2(1) client_gets_answer connect_fresh [OF assms] by blast
qed

theorem user_programs_outcome_witness:
  "\<exists>s'. http_server demo_socks = Some (1, line ''http_server: accept failed'', s')"
proof -
  have "fresh_process demo_socks"
    by (simp add: fresh_process_def demo_socks_def demo_entry_def demo_net_parts demo_tcp_def SOCK_MAX_def TCP_CONN_MAX_def)
  from user_programs_outcome [OF this, of demo_net] show ?thesis by blast
qed

text \<open>Inside the kernel the program shows the log: all of it, as far as there is no null character in it.\<close>

lemma dmesg_shows_log:
  assumes "klog_inv s" "kl_ready s" "klog_contents s \<noteq> []" "NUL \<notin> set (klog_contents s)"
  shows "dmesg s = (0, line (klog_contents s))"
proof -
  have n0: "NUL = CHR 0x00" by (simp add: NUL_def char_of_def)
  have "length (klog_contents s) < KLOG_CAP" using klog_head_tail(2) [OF assms(1)] by (simp add: klog_contents_def)
  then have "take 8191 (klog_contents s) = klog_contents s" "min 8191 (length (klog_contents s)) = length (klog_contents s)" by (simp_all add: KLOG_CAP_def)
  moreover have "takeWhile (\<lambda>c. c \<noteq> NUL) (xs @ [NUL]) = xs" if "NUL \<notin> set xs" for xs using that by (induction xs) auto
  ultimately show ?thesis using klog_read_contents [OF assms(1,2), of 8192] assms(3,4)
    by (auto simp: dmesg_def n0)
qed

end
