(* ===== verification/Locks.thy ===== *)
theory Locks
  imports NM_Prelude
begin

text \<open>
  The spin locks. Ten modules guard their tables by a lock word of their own and the same two functions, such as
  \<^verbatim>\<open>irq_lock\<close> and \<^verbatim>\<open>irq_unlock\<close> in \<^verbatim>\<open>kernel/drivers/irq.c\<close>; the other theories take a critical section as one
  step. Here is what that rests on, for one lock: the tasks and the interrupt handler of a processor
  run in any interleaving that the hardware allows, one turn of the waiting loop or one release at a time.
  The lock functions do not disable interrupts, so the handler can interrupt a task
  anywhere; the gates are interrupt gates, so nothing interrupts the handler.
\<close>

section \<open>The lock functions\<close>

definition sync_lock_test_and_set :: "u32 \<Rightarrow> u32 \<times> u32" where
  "sync_lock_test_and_set w = (w, 1)"

partial_function (option) spin_lock :: "u32 \<Rightarrow> u32 option" where
  "spin_lock w = (let (old, w) = sync_lock_test_and_set w in if old \<noteq> 0 then spin_lock w else Some w)"

definition spin_unlock :: "u32 \<Rightarrow> u32" where
  "spin_unlock w = 0"

text \<open>With nobody else running, taking a free lock succeeds at once and taking a held one never returns.\<close>

lemma spin_lock_free: "spin_lock 0 = Some 1"
  by (subst spin_lock.simps) (simp add: sync_lock_test_and_set_def)

lemma spin_lock_result: "spin_lock w = Some w' \<Longrightarrow> w = 0 \<and> w' = 1"
proof -
  have "spin_lock w = Some w' \<Longrightarrow> w = 0 \<and> w' = 1" for w w'
    by (rule spin_lock.raw_induct [of "\<lambda>w w'. w = 0 \<and> w' = 1"])
      (fastforce simp: sync_lock_test_and_set_def split: if_splits)+
  then show "spin_lock w = Some w' \<Longrightarrow> w = 0 \<and> w' = 1" .
qed

lemma spin_lock_held: "w \<noteq> 0 \<Longrightarrow> spin_lock w = None"
  using spin_lock_result by (cases "spin_lock w") auto

section \<open>Tasks and the interrupt handler on one processor\<close>

datatype agent = Thread nat | Handler

datatype phase = Outside | Spinning | Holding

text \<open>The stack holds the running agent first and below it the task it has interrupted.\<close>

record spin_state =
  lk_word :: u32
  lk_phase :: "agent \<Rightarrow> phase"
  lk_stack :: "agent list"

definition lock_turn :: "agent \<Rightarrow> spin_state \<Rightarrow> spin_state" where
  "lock_turn a s =
     (let (old, w) = sync_lock_test_and_set (lk_word s)
      in s\<lparr>lk_word := w, lk_phase := (lk_phase s)(a := if old \<noteq> 0 then Spinning else Holding)\<rparr>)"

definition release :: "agent \<Rightarrow> spin_state \<Rightarrow> spin_state" where
  "release a s = s\<lparr>lk_word := spin_unlock (lk_word s), lk_phase := (lk_phase s)(a := Outside)\<rparr>"

inductive cpu_step :: "spin_state \<Rightarrow> spin_state \<Rightarrow> bool" where
  turn: "lk_stack s = a # st \<Longrightarrow> lk_phase s a \<noteq> Holding \<Longrightarrow> cpu_step s (lock_turn a s)"
| leave: "lk_stack s = a # st \<Longrightarrow> lk_phase s a = Holding \<Longrightarrow> cpu_step s (release a s)"
| interrupt: "lk_stack s = [Thread t] \<Longrightarrow> cpu_step s (s\<lparr>lk_stack := [Handler, Thread t]\<rparr>)"
| iret: "lk_stack s = Handler # st \<Longrightarrow> lk_phase s Handler = Outside \<Longrightarrow> cpu_step s (s\<lparr>lk_stack := st\<rparr>)"
| switch: "lk_stack s = [Thread t] \<Longrightarrow> cpu_step s (s\<lparr>lk_stack := [Thread u]\<rparr>)"

inductive_cases cpu_stepE: "cpu_step s s'"

inductive spin_run :: "spin_state \<Rightarrow> bool" where
  start: "spin_run \<lparr>lk_word = 0, lk_phase = (\<lambda>_. Outside), lk_stack = [Thread t]\<rparr>"
| step: "spin_run s \<Longrightarrow> cpu_step s s' \<Longrightarrow> spin_run s'"

definition lock_inv :: "spin_state \<Rightarrow> bool" where
  "lock_inv s \<longleftrightarrow> (\<forall>a b. lk_phase s a = Holding \<longrightarrow> lk_phase s b = Holding \<longrightarrow> a = b) \<and> (lk_word s \<noteq> 0 \<longleftrightarrow> (\<exists>a. lk_phase s a = Holding))"

lemma lock_turn_inv: "lock_inv s \<Longrightarrow> lk_phase s a \<noteq> Holding \<Longrightarrow> lock_inv (lock_turn a s)"
  by (auto simp: lock_inv_def lock_turn_def sync_lock_test_and_set_def)

lemma release_inv: "lock_inv s \<Longrightarrow> lk_phase s a = Holding \<Longrightarrow> lock_inv (release a s)"
  by (auto simp: lock_inv_def release_def spin_unlock_def)

lemma lock_inv_stack: "lock_inv (s\<lparr>lk_stack := st\<rparr>) = lock_inv s"
  by (simp add: lock_inv_def)

lemma spin_run_inv: "spin_run s \<Longrightarrow> lock_inv s"
proof (induction rule: spin_run.induct)
  case (start t)
  show ?case by (simp add: lock_inv_def)
next
  case (step s s')
  from step.hyps(2) step.IH show ?case
    by (cases rule: cpu_step.cases) (simp_all add: lock_turn_inv release_inv lock_inv_stack)
qed

text \<open>The handler spins on a lock that the task below it holds: no step of the processor changes that.\<close>

definition stuck :: "nat \<Rightarrow> spin_state \<Rightarrow> bool" where
  "stuck t s \<longleftrightarrow> lk_stack s = [Handler, Thread t] \<and> lk_phase s Handler = Spinning \<and> lk_phase s (Thread t) = Holding \<and> lk_word s \<noteq> 0"

lemma stuck_step: "stuck t s \<Longrightarrow> cpu_step s s' \<Longrightarrow> stuck t s'"
  by (auto elim!: cpu_stepE simp: stuck_def lock_turn_def sync_lock_test_and_set_def)

lemma stuck_steps: "cpu_step\<^sup>*\<^sup>* s u \<Longrightarrow> stuck t s \<Longrightarrow> stuck t u"
  by (induction rule: rtranclp_induct) (auto dest: stuck_step)

section \<open>Properties\<close>

text \<open>
  C21: a spin lock excludes. In every interleaving of tasks, interrupts and lock operations at most one agent is
  between its lock and its unlock, the lock word is set exactly while one is, and when none is
  the next turn of the waiting loop of whoever runs gets in.
\<close>

theorem spin_lock_exclusive:
  assumes "spin_run s"
  shows "(\<forall>b c. lk_phase s b = Holding \<longrightarrow> lk_phase s c = Holding \<longrightarrow> b = c) \<and> (lk_word s \<noteq> 0 \<longleftrightarrow> (\<exists>b. lk_phase s b = Holding)) \<and>
    ((\<forall>b. lk_phase s b \<noteq> Holding) \<longrightarrow> lk_phase (lock_turn a s) a = Holding)"
  using spin_run_inv [OF assms] by (auto simp: lock_inv_def lock_turn_def sync_lock_test_and_set_def)

text \<open>
  C38: an interrupt inside a critical section stops the machine. When the handler takes a lock that the task it
  interrupted is holding, as \<^verbatim>\<open>irq_handle\<close> does when it interrupts \<^verbatim>\<open>irq_run_bottom_halves\<close>, its waiting loop
  never ends: whatever happens from then on, the handler is still spinning and the task has not moved.
\<close>

theorem interrupt_in_critical_section_hangs:
  assumes "spin_run s" "lk_stack s = [Thread t]" "lk_phase s (Thread t) = Holding"
    "cpu_step\<^sup>*\<^sup>* (lock_turn Handler (s\<lparr>lk_stack := [Handler, Thread t]\<rparr>)) u"
  shows "lk_stack u = [Handler, Thread t] \<and> lk_phase u Handler = Spinning \<and> lk_phase u (Thread t) = Holding"
proof -
  have "lk_word s \<noteq> 0" using spin_run_inv [OF assms(1)] assms(3) by (auto simp: lock_inv_def)
  then have "stuck t (lock_turn Handler (s\<lparr>lk_stack := [Handler, Thread t]\<rparr>))"
    using assms(3) by (simp add: stuck_def lock_turn_def sync_lock_test_and_set_def)
  from stuck_steps [OF assms(4) this] show ?thesis by (simp add: stuck_def)
qed

section \<open>Witnesses\<close>

definition idle_lock :: spin_state where
  "idle_lock = \<lparr>lk_word = 0, lk_phase = (\<lambda>_. Outside), lk_stack = [Thread 1]\<rparr>"

theorem spin_lock_exclusive_witness:
  "spin_run idle_lock \<and> lk_phase (lock_turn (Thread 1) idle_lock) (Thread 1) = Holding"
  using spin_lock_exclusive [of idle_lock "Thread 1"] spin_run.start [of 1] by (simp add: idle_lock_def)

theorem interrupt_in_critical_section_hangs_witness:
  "lk_phase (lock_turn Handler ((lock_turn (Thread 1) idle_lock)\<lparr>lk_stack := [Handler, Thread 1]\<rparr>)) Handler = Spinning"
proof -
  have "spin_run idle_lock" using spin_run.start [of 1] by (simp add: idle_lock_def)
  moreover have "cpu_step idle_lock (lock_turn (Thread 1) idle_lock)" by (rule cpu_step.turn [of _ _ "[]"]) (simp_all add: idle_lock_def)
  ultimately have "spin_run (lock_turn (Thread 1) idle_lock)" by (rule spin_run.step)
  from interrupt_in_critical_section_hangs [OF this _ _ rtranclp.rtrancl_refl, of 1] show ?thesis
    by (simp add: lock_turn_def sync_lock_test_and_set_def idle_lock_def)
qed

end
