(* ===== verification/Host_Pmm.thy ===== *)
theory Host_Pmm
  imports Pmm
begin

text \<open>
  The frame allocator of the host build (\<^verbatim>\<open>kernel/mm/pmm.c\<close> under \<^verbatim>\<open>NEVERMIND_HOST_TEST\<close>), on which the unit
  tests run: a table of blocks of the C library, named by keys, with the statistics of the kernel's
  allocator. The library's \<^verbatim>\<open>calloc\<close> and \<^verbatim>\<open>free\<close> are arguments, with a state of their own.
\<close>

section \<open>Operations\<close>

definition HOST_MAX_ALLOCS :: nat where "HOST_MAX_ALLOCS = 32768"

record host_alloc_entry =
  ha_key :: u64
  ha_ptr :: u64
  ha_pages :: u64
  ha_used :: bool

record 'w host_pmm =
  hp_stats :: nm_mm_stats
  hp_allocs :: "host_alloc_entry list"
  hp_seed :: u64
  hp_libc :: 'w

definition host_make_key :: "'w host_pmm \<Rightarrow> u64 \<times> 'w host_pmm" where
  "host_make_key s = (let seed = hp_seed s + PAGE_SIZE in (seed OR 1, s\<lparr>hp_seed := seed\<rparr>))"

definition host_clear :: "(u64 \<Rightarrow> 'w \<Rightarrow> 'w) \<Rightarrow> 'w host_pmm \<Rightarrow> 'w host_pmm" where
  "host_clear free s =
     s\<lparr>hp_libc := fold (\<lambda>e w. if ha_used e then free (ha_ptr e) w else w) (hp_allocs s) (hp_libc s),
       hp_allocs := map (\<lambda>e. \<lparr>ha_key = 0, ha_ptr = 0, ha_pages = 0, ha_used = False\<rparr>) (hp_allocs s), hp_seed := 0x1000\<rparr>"

definition host_init_from_ranges :: "(u64 \<Rightarrow> 'w \<Rightarrow> 'w) \<Rightarrow> nm_mem_range list \<Rightarrow> 'w host_pmm \<Rightarrow> 'w host_pmm" where
  "host_init_from_ranges free ranges s =
     (let total = fold (\<lambda>r n. if mr_type r = NM_MEM_AVAILABLE then n + mr_length r div PAGE_SIZE else n) ranges 0;
          free_fr = (if total > 256 then total - 256 else 0)
      in host_clear free (s\<lparr>hp_stats := \<lparr>total_frames = total, free_frames = free_fr, used_frames = total - free_fr, reserved_frames = 256\<rparr>\<rparr>))"

definition host_init_from_multiboot2 :: "(u64 \<Rightarrow> 'w \<Rightarrow> 'w) \<Rightarrow> u64 \<Rightarrow> 'w host_pmm \<Rightarrow> 'w host_pmm" where
  "host_init_from_multiboot2 free mb2_info_ptr s =
     host_init_from_ranges free [\<lparr>mr_base = 0x00100000, mr_length = 64 * 1024 * 1024, mr_type = NM_MEM_AVAILABLE\<rparr>] s"

definition host_alloc_pages :: "(u64 \<Rightarrow> u64 \<Rightarrow> 'w \<Rightarrow> u64 \<times> 'w) \<Rightarrow> u64 \<Rightarrow> 'w host_pmm \<Rightarrow> u64 \<times> 'w host_pmm" where
  "host_alloc_pages calloc n s =
     (if n = 0 \<or> free_frames (hp_stats s) < n then (0, s)
      else case first_idx (\<lambda>e. \<not> ha_used e) (hp_allocs s) of
        None \<Rightarrow> (0, s)
      | Some i \<Rightarrow>
          let (ptr, w) = calloc n PAGE_SIZE (hp_libc s); s = s\<lparr>hp_libc := w\<rparr> in
          if ptr = 0 then (0, s)
          else let (key, s) = host_make_key s in
            (key, s\<lparr>hp_allocs := (hp_allocs s)[i := \<lparr>ha_key = key, ha_ptr = ptr, ha_pages = n, ha_used = True\<rparr>],
                    hp_stats := stats_take n (hp_stats s)\<rparr>))"

definition host_alloc_page :: "(u64 \<Rightarrow> u64 \<Rightarrow> 'w \<Rightarrow> u64 \<times> 'w) \<Rightarrow> 'w host_pmm \<Rightarrow> u64 \<times> 'w host_pmm" where
  "host_alloc_page calloc s = host_alloc_pages calloc 1 s"

definition host_find :: "u64 \<Rightarrow> 'w host_pmm \<Rightarrow> nat option" where
  "host_find key s = first_idx (\<lambda>e. ha_used e \<and> ha_key e = key) (hp_allocs s)"

definition host_free_page :: "(u64 \<Rightarrow> 'w \<Rightarrow> 'w) \<Rightarrow> u64 \<Rightarrow> 'w host_pmm \<Rightarrow> 'w host_pmm" where
  "host_free_page free phys_addr s =
     (if phys_addr = 0 then s
      else case host_find phys_addr s of
        None \<Rightarrow> s
      | Some i \<Rightarrow>
          let e = hp_allocs s ! i; st = hp_stats s in
          s\<lparr>hp_libc := free (ha_ptr e) (hp_libc s),
            hp_allocs := (hp_allocs s)[i := \<lparr>ha_key = 0, ha_ptr = 0, ha_pages = 0, ha_used = False\<rparr>],
            hp_stats := st\<lparr>free_frames := free_frames st + ha_pages e, used_frames := used_frames st - ha_pages e\<rparr>\<rparr>)"

definition host_get_stats :: "'w host_pmm \<Rightarrow> nm_mm_stats" where
  "host_get_stats s = hp_stats s"

definition pmm_host_ptr_from_key :: "u64 \<Rightarrow> 'w host_pmm \<Rightarrow> u64" where
  "pmm_host_ptr_from_key key s = (case host_find key s of None \<Rightarrow> 0 | Some i \<Rightarrow> ha_ptr (hp_allocs s ! i))"

section \<open>Frames are conserved\<close>

text \<open>The frames of the live blocks and the free ones make up what was free at the start, and keys are distinct.\<close>

definition held_frames :: "host_alloc_entry list \<Rightarrow> nat" where
  "held_frames es = sum_list (map (\<lambda>e. if ha_used e then unat (ha_pages e) else 0) es)"

definition key_ok :: "nat \<Rightarrow> host_alloc_entry \<Rightarrow> bool" where
  "key_ok seed e \<longleftrightarrow> (ha_used e \<longrightarrow> (\<exists>m. 1 < m \<and> unat (ha_key e) = 4096 * m + 1 \<and> 4096 * m \<le> seed))"

definition host_inv :: "nat \<Rightarrow> 'w host_pmm \<Rightarrow> bool" where
  "host_inv N s \<longleftrightarrow> unat (free_frames (hp_stats s)) + held_frames (hp_allocs s) = N \<and> 4096 dvd unat (hp_seed s) \<and> 4096 \<le> unat (hp_seed s) \<and>
     (\<forall>e \<in> set (hp_allocs s). key_ok (unat (hp_seed s)) e) \<and>
     (\<forall>i < length (hp_allocs s). \<forall>j < length (hp_allocs s). ha_used (hp_allocs s ! i) \<longrightarrow> ha_used (hp_allocs s ! j) \<longrightarrow>
        ha_key (hp_allocs s ! i) = ha_key (hp_allocs s ! j) \<longrightarrow> i = j)"

lemma host_init_inv: "host_inv (unat (free_frames (hp_stats (host_init_from_ranges free ranges s)))) (host_init_from_ranges free ranges s)"
  by (auto simp: host_inv_def host_init_from_ranges_def host_clear_def Let_def held_frames_def key_ok_def o_def)

lemma held_frames_update:
  "i < length es \<Longrightarrow> held_frames (es[i := e]) + (if ha_used (es ! i) then unat (ha_pages (es ! i)) else 0) =
     held_frames es + (if ha_used e then unat (ha_pages e) else 0)"
  unfolding held_frames_def by (rule sum_list_map_update)

lemma make_key_value:
  assumes "4096 dvd unat (hp_seed s)" "unat (hp_seed s) + 4096 < 2 ^ 64" "host_make_key s = (key, s')"
  shows "unat (hp_seed s') = unat (hp_seed s) + 4096" "unat key = unat (hp_seed s) + 4097" "s' = s\<lparr>hp_seed := hp_seed s'\<rparr>"
proof -
  have s': "s' = s\<lparr>hp_seed := hp_seed s + 4096\<rparr>" "key = (hp_seed s + 4096) OR 1" using assms(3) by (auto simp: host_make_key_def Let_def PAGE_SIZE_def)
  show sd: "unat (hp_seed s') = unat (hp_seed s) + 4096" using s'(1) assms(2) by (simp add: unat_word_ariths)
  obtain k where "unat (hp_seed s) = 4096 * k" using assms(1) by (auto elim: dvdE)
  then have ev: "even (unat (hp_seed s'))" using sd by simp
  have "unat (hp_seed s' OR 1) = unat (hp_seed s') OR 1" by (simp add: unsigned_or_eq)
  also have "\<dots> = unat (hp_seed s') + 1" using ev or_one_eq [of "unat (hp_seed s')"] by simp
  finally show "unat key = unat (hp_seed s) + 4097" using s' sd by simp
  show "s' = s\<lparr>hp_seed := hp_seed s'\<rparr>" using s'(1) by simp
qed


lemma key_ok_mono: "key_ok a e \<Longrightarrow> a \<le> b \<Longrightarrow> key_ok b e"
  by (fastforce simp: key_ok_def)

lemma key_ok_next:
  assumes "4096 dvd seed" "4096 \<le> seed" "unat (ha_key e) = seed + 4097"
  shows "key_ok (seed + 4096) e"
proof -
  obtain m where "seed = 4096 * m" using assms(1) by (auto elim: dvdE)
  then show ?thesis using assms(2,3) by (auto simp: key_ok_def intro!: exI [of _ "m + 1"])
qed

lemma host_inv_add:
  assumes "host_inv N s" "i < length (hp_allocs s)" "\<not> ha_used (hp_allocs s ! i)" "key_ok (unat (hp_seed s')) e"
    "unat (free_frames (hp_stats s')) + held_frames (hp_allocs s') = N" "unat (hp_seed s') = unat (hp_seed s) + 4096 \<and> hp_allocs s' = (hp_allocs s)[i := e]"
    "\<And>e'. e' \<in> set (hp_allocs s) \<Longrightarrow> ha_used e' \<Longrightarrow> ha_key e' \<noteq> ha_key e"
  shows "host_inv N s'"
proof -
  have inv: "4096 dvd unat (hp_seed s)" "4096 \<le> unat (hp_seed s)" "\<And>x. x \<in> set (hp_allocs s) \<Longrightarrow> key_ok (unat (hp_seed s)) x"
    and uniq: "\<And>a b. a < length (hp_allocs s) \<Longrightarrow> b < length (hp_allocs s) \<Longrightarrow> ha_used (hp_allocs s ! a) \<Longrightarrow> ha_used (hp_allocs s ! b) \<Longrightarrow>
      ha_key (hp_allocs s ! a) = ha_key (hp_allocs s ! b) \<Longrightarrow> a = b"
    using assms(1) by (auto simp: host_inv_def)
  have "\<forall>x \<in> set (hp_allocs s'). key_ok (unat (hp_seed s')) x"
    using set_update_subset_insert [of "hp_allocs s" i e] inv(3) assms(4,6) key_ok_mono [of "unat (hp_seed s)" _ "unat (hp_seed s')"] by auto
  moreover have "a = b" if "a < length (hp_allocs s)" "b < length (hp_allocs s)" "ha_used ((hp_allocs s)[i := e] ! a)" "ha_used ((hp_allocs s)[i := e] ! b)"
    "ha_key ((hp_allocs s)[i := e] ! a) = ha_key ((hp_allocs s)[i := e] ! b)" for a b
    using that uniq [of a b] assms(7) [OF nth_mem [OF that(1)]] assms(7) [OF nth_mem [OF that(2)]] assms(2)
    by (cases "a = i"; cases "b = i") auto
  ultimately show ?thesis using assms(5,6) inv(1,2) by (auto simp: host_inv_def)
qed

lemma host_alloc_inv:
  assumes "host_inv N s" "unat (hp_seed s) + 4096 < 2 ^ 64" "host_alloc_pages calloc n s = (key, s')"
  shows "host_inv N s'" "key \<noteq> 0 \<Longrightarrow> \<exists>w. calloc n PAGE_SIZE (hp_libc s) = (pmm_host_ptr_from_key key s', w) \<and> held_frames (hp_allocs s') = held_frames (hp_allocs s) + unat n"
proof -
  have "host_inv N s' \<and> (key \<noteq> 0 \<longrightarrow> (\<exists>w. calloc n PAGE_SIZE (hp_libc s) = (pmm_host_ptr_from_key key s', w) \<and>
      held_frames (hp_allocs s') = held_frames (hp_allocs s) + unat n))"
  proof (cases "n = 0 \<or> free_frames (hp_stats s) < n \<or> first_idx (\<lambda>e. \<not> ha_used e) (hp_allocs s) = None")
    case True
    then have "s' = s" "key = 0" using assms(3) by (auto simp: host_alloc_pages_def split: if_splits)
    then show ?thesis using assms(1) by simp
  next
    case False
    then obtain i where i: "first_idx (\<lambda>e. \<not> ha_used e) (hp_allocs s) = Some i" by auto
    obtain ptr w where c: "calloc n PAGE_SIZE (hp_libc s) = (ptr, w)" by (meson surj_pair)
    obtain k s2 where mk: "host_make_key (s\<lparr>hp_libc := w\<rparr>) = (k, s2)" by (meson surj_pair)
    show ?thesis
    proof (cases "ptr = 0")
      case True
      then have "s' = s\<lparr>hp_libc := w\<rparr>" "key = 0" using assms(3) False i c by (auto simp: host_alloc_pages_def)
      then show ?thesis using assms(1) by (simp add: host_inv_def)
    next
      case p: False
      let ?E = "\<lparr>ha_key = k, ha_ptr = ptr, ha_pages = n, ha_used = True\<rparr>"
      have inv: "unat (free_frames (hp_stats s)) + held_frames (hp_allocs s) = N" "4096 dvd unat (hp_seed s)" "4096 \<le> unat (hp_seed s)"
        "\<And>e. e \<in> set (hp_allocs s) \<Longrightarrow> key_ok (unat (hp_seed s)) e"
        using assms(1) by (auto simp: host_inv_def)
      have v: "unat (hp_seed s2) = unat (hp_seed s) + 4096" "unat k = unat (hp_seed s) + 4097" "s2 = s\<lparr>hp_libc := w, hp_seed := hp_seed s2\<rparr>"
        using make_key_value [OF _ _ mk] inv(2) assms(2) by simp_all
      have r: "key = k" "s' = s2\<lparr>hp_allocs := (hp_allocs s)[i := ?E], hp_stats := stats_take n (hp_stats s)\<rparr>"
        using assms(3) False i c p mk v(3) by (auto simp: host_alloc_pages_def split: if_splits) (metis host_pmm.select_convs host_pmm.surjective host_pmm.update_convs)+
      have io: "i < length (hp_allocs s)" "\<not> ha_used (hp_allocs s ! i)" using i by (auto simp: first_idx_Some_iff)
      have h: "held_frames ((hp_allocs s)[i := ?E]) = held_frames (hp_allocs s) + unat n" using held_frames_update [OF io(1), of ?E] io(2) by simp
      have fr: "unat (free_frames (hp_stats s) - n) + unat n = unat (free_frames (hp_stats s))"
        using False by (simp add: unat_sub word_le_nat_alt not_less word_less_nat_alt)
      have new: "ha_key e \<noteq> k" if "e \<in> set (hp_allocs s)" "ha_used e" for e
        using inv(4) [OF that(1)] that(2) v(2) by (auto simp: key_ok_def)
      have k: "key_ok (unat (hp_seed s2)) ?E" using key_ok_next [OF inv(2,3), of ?E] v(1,2) by simp
      have "host_inv N s'"
        by (rule host_inv_add [OF assms(1) io, where e = ?E]) (use r(2) v h fr k new inv(1) in \<open>auto simp: stats_take_def\<close>)
      moreover have "host_find k s' = Some i"
        using r(2) io new by (auto simp: host_find_def first_idx_Some_iff nth_list_update)
      ultimately show ?thesis using r h c io by (simp add: pmm_host_ptr_from_key_def)
    qed
  qed
  then show "host_inv N s'" "key \<noteq> 0 \<Longrightarrow> \<exists>w. calloc n PAGE_SIZE (hp_libc s) = (pmm_host_ptr_from_key key s', w) \<and> held_frames (hp_allocs s') = held_frames (hp_allocs s) + unat n"
    by auto
qed


lemma host_free_inv:
  assumes "host_inv N s" "N < 2 ^ 64"
  shows "host_inv N (host_free_page free key s)"
proof (cases "key = 0 \<or> host_find key s = None")
  case True
  then show ?thesis using assms(1) by (auto simp: host_free_page_def)
next
  case False
  then obtain i where i: "host_find key s = Some i" by auto
  let ?e = "hp_allocs s ! i" and ?z = "\<lparr>ha_key = 0, ha_ptr = 0, ha_pages = 0, ha_used = False\<rparr>"
  have io: "i < length (hp_allocs s)" "ha_used ?e" using i by (auto simp: host_find_def first_idx_Some_iff)
  have h: "held_frames ((hp_allocs s)[i := ?z]) + unat (ha_pages ?e) = held_frames (hp_allocs s)" using held_frames_update [OF io(1), of ?z] io(2) by simp
  then have "unat (free_frames (hp_stats s) + ha_pages ?e) = unat (free_frames (hp_stats s)) + unat (ha_pages ?e)"
    using assms by (simp add: host_inv_def unat_word_ariths)
  moreover have "key_ok q ?z" for q by (simp add: key_ok_def)
  then have "\<forall>x \<in> set ((hp_allocs s)[i := ?z]). key_ok (unat (hp_seed s)) x"
    using assms(1) set_update_subset_insert [of "hp_allocs s" i ?z] by (auto simp: host_inv_def)
  moreover have "\<forall>a < length (hp_allocs s). \<forall>b < length (hp_allocs s). ha_used ((hp_allocs s)[i := ?z] ! a) \<longrightarrow> ha_used ((hp_allocs s)[i := ?z] ! b) \<longrightarrow>
      ha_key ((hp_allocs s)[i := ?z] ! a) = ha_key ((hp_allocs s)[i := ?z] ! b) \<longrightarrow> a = b"
    using assms(1) io(1) by (auto simp: host_inv_def nth_list_update)
  ultimately show ?thesis
    using assms(1) i False h by (simp add: host_inv_def host_free_page_def Let_def)
qed

text \<open>
  A run of the host allocator from its initialisation, as long as the key counter does not wrap (2 to the power of 52
  allocations). The frames in live blocks and the free ones always make up the free frames of the start, and no two live
  blocks have the same key. Freeing a key gives the whole block back: the kernel's \<^verbatim>\<open>pmm_free_page\<close>
  gives back one frame, so code that frees a block of several pages behaves differently under test.
\<close>

inductive host_run :: "nat \<Rightarrow> 'w host_pmm \<Rightarrow> bool" for N where
  boot: "s = host_init_from_ranges free ranges s0 \<Longrightarrow> N = unat (free_frames (hp_stats s)) \<Longrightarrow> host_run N s"
| alloc: "host_run N s \<Longrightarrow> unat (hp_seed s) + 4096 < 2 ^ 64 \<Longrightarrow> host_alloc_pages calloc n s = (key, s') \<Longrightarrow> host_run N s'"
| give: "host_run N s \<Longrightarrow> host_run N (host_free_page free key s)"

theorem host_frames_conserved:
  assumes "host_run N s"
  shows "unat (free_frames (host_get_stats s)) + held_frames (hp_allocs s) = N \<and>
    (\<forall>i < length (hp_allocs s). \<forall>j < length (hp_allocs s). ha_used (hp_allocs s ! i) \<longrightarrow> ha_used (hp_allocs s ! j) \<longrightarrow>
       ha_key (hp_allocs s ! i) = ha_key (hp_allocs s ! j) \<longrightarrow> i = j)"
proof -
  have "N < 2 ^ 64" using assms
  proof (induction rule: host_run.induct)
    case (boot s free ranges s0)
    then show ?case using unsigned_less [of "free_frames (hp_stats s)"] by simp
  qed
  with assms have "host_inv N s"
  proof (induction rule: host_run.induct)
    case (boot s free ranges s0)
    then show ?case using host_init_inv by blast
  next
    case (alloc s calloc n key s')
    then show ?case using host_alloc_inv(1) by blast
  next
    case (give s free key)
    then show ?case using host_free_inv by blast
  qed
  then show ?thesis by (auto simp: host_inv_def host_get_stats_def)
qed

end
