(* ===== verification/Ext2.thy ===== *)
theory Ext2
  imports Tmpfs
begin

text \<open>
  The second file system, \<^verbatim>\<open>kernel/fs/ext2.c\<close>, as the kernel builds it: nodes come from an array of 256 by
  a cursor that only grows, and no data block is ever allocated (the allocation is compiled for the
  host tests only), so the data pointer of every node is null. A vnode pointer is an index: 0 for the
  root node, \<open>i + 1\<close> for \<^verbatim>\<open>ext2_nodes[i]\<close>. The walk over the entries of a directory compares names as tmpfs
  does and has one unit of fuel per node. The file implements the directory interface of \<open>Vfs\<close>.
\<close>

section \<open>State and operations\<close>

definition EXT2_MAX_INODES :: nat where "EXT2_MAX_INODES = 1024"
definition EXT2_NODES :: nat where "EXT2_NODES = 256"

record ext2_inode_meta =
  im_mode :: u32
  im_uid :: u32
  im_gid :: u32
  im_links :: u32
  im_blocks :: u32

record ext2_state =
  e2_nodes :: "nm_vnode list"
  ext2_node_cursor :: nat
  inode_meta :: "ext2_inode_meta list"

definition upd_e2 :: "nat \<Rightarrow> (nm_vnode \<Rightarrow> nm_vnode) \<Rightarrow> ext2_state \<Rightarrow> ext2_state" where
  "upd_e2 n g f = f\<lparr>e2_nodes := (e2_nodes f)[n := g (e2_nodes f ! n)]\<rparr>"

definition upd_meta :: "u64 \<Rightarrow> (ext2_inode_meta \<Rightarrow> ext2_inode_meta) \<Rightarrow> ext2_state \<Rightarrow> ext2_state" where
  "upd_meta ino g f =
     (if unat ino < EXT2_MAX_INODES then f\<lparr>inode_meta := (inode_meta f)[unat ino := g (inode_meta f ! unat ino)]\<rparr> else f)"

definition ext2_open :: "nat \<Rightarrow> u32 \<Rightarrow> ext2_state \<Rightarrow> int \<times> ext2_state" where
  "ext2_open n flags f = (0, f)"

definition ext2_read :: "nat \<Rightarrow> u64 \<Rightarrow> u64 \<Rightarrow> ext2_state \<Rightarrow> int \<times> u8 list" where
  "ext2_read n offset len f =
     (let node = e2_nodes f ! n in
      case vn_data node of
        None \<Rightarrow> (0, [])
      | Some d \<Rightarrow>
          if offset \<ge> vn_size node then (0, [])
          else let remain = vn_size node - offset;
                   k = (if len < remain then len else remain)
               in (s64 (uint k), map (\<lambda>i. d ! unat (offset + of_nat i)) [0..<unat k]))"

definition ext2_write :: "nat \<Rightarrow> u8 list \<Rightarrow> u64 \<Rightarrow> ext2_state \<Rightarrow> (int \<times> ext2_state) option" where
  "ext2_write n buf offset f =
     (let node = e2_nodes f ! n; len = (of_nat (length buf) :: u64) in
      case vn_data node of
        None \<Rightarrow> Some (NM_ERR NM_EFAIL, f)
      | Some d \<Rightarrow>
          if offset + len > vn_capacity node then Some (NM_ERR NM_EFAIL, f)
          else case store_bytes d offset buf of
            None \<Rightarrow> None
          | Some d' \<Rightarrow>
              let sz = (if offset + len > vn_size node then offset + len else vn_size node);
                  f = upd_e2 n (\<lambda>nd. nd\<lparr>vn_data := Some d', vn_size := sz\<rparr>) f
              in Some (s64 (uint len), upd_meta (vn_ino node) (\<lambda>m. m\<lparr>im_blocks := ucast ((sz + 511) div 512)\<rparr>) f))"

definition ext2_stat :: "nat \<Rightarrow> ext2_state \<Rightarrow> int \<times> nm_stat" where
  "ext2_stat n f =
     (let node = e2_nodes f ! n; m = inode_meta f ! unat (vn_ino node);
          st = \<lparr>st_ino = vn_ino node, st_size = vn_size node, st_mode = im_mode m, st_uid = im_uid m,
                st_gid = im_gid m, st_nlink = im_links m, st_blocks = ucast (im_blocks m)\<rparr>
      in (if unat (vn_ino node) \<ge> EXT2_MAX_INODES then NM_ERR NM_EFAIL else 0, st))"

definition ext2_file_ops :: "ext2_state nm_file_ops" where
  "ext2_file_ops = \<lparr>op_open = Some ext2_open, op_read = Some ext2_read, op_write = Some ext2_write, op_stat = Some ext2_stat\<rparr>"

definition ext2_mount_root :: "ext2_state \<Rightarrow> nat option \<times> ext2_state" where
  "ext2_mount_root f =
     (Some 0,
      upd_meta 2 (\<lambda>m. m\<lparr>im_mode := 0x1ED, im_uid := 0, im_gid := 0, im_links := 1, im_blocks := 0\<rparr>)
        (upd_e2 0 (\<lambda>node. node\<lparr>vn_used := True, vn_ino := 2, vn_type := NM_NODE_DIR, vn_mode := 0x1ED, vn_uid := 0, vn_gid := 0,
           vn_parent := None, vn_children := None, vn_next_sibling := None, vn_data := None, vn_size := 0, vn_capacity := 0,
           vn_ops := True, vn_name := ''/''\<rparr>) f))"

definition ext2_lookup :: "nat \<Rightarrow> string \<Rightarrow> ext2_state \<Rightarrow> nat option" where
  "ext2_lookup dir name f = find_child (Suc EXT2_NODES) (e2_nodes f) name (vn_children (e2_nodes f ! dir))"

definition ext2_create :: "nat \<Rightarrow> string \<Rightarrow> nm_node_type \<Rightarrow> u32 \<Rightarrow> ext2_state \<Rightarrow> nat option \<times> ext2_state" where
  "ext2_create dir name ty mode f =
     (if vn_type (e2_nodes f ! dir) \<noteq> NM_NODE_DIR then (None, f)
      else if ext2_node_cursor f \<ge> EXT2_NODES then (None, f)
      else if ext2_lookup dir name f \<noteq> None then (None, f)
      else let n = Suc (ext2_node_cursor f);
               f = f\<lparr>ext2_node_cursor := ext2_node_cursor f + 1\<rparr>;
               ino = 12 + of_nat (ext2_node_cursor f);
               head = vn_children (e2_nodes f ! dir);
               f = upd_e2 n (\<lambda>node. node\<lparr>vn_used := True, vn_ino := ino, vn_type := ty, vn_mode := mode, vn_uid := 0, vn_gid := 0,
                     vn_parent := Some dir, vn_children := None, vn_next_sibling := head, vn_ops := True, vn_size := 0,
                     vn_capacity := 4096, vn_data := None,
                     vn_name := (if name = [] then vn_name node else take (NM_NAME_MAX - 1) name)\<rparr>) f;
               f = upd_meta ino (\<lambda>m. m\<lparr>im_mode := mode, im_uid := 0, im_gid := 0, im_links := 1, im_blocks := 0\<rparr>) f
           in (Some n, upd_e2 dir (\<lambda>d. d\<lparr>vn_children := Some n\<rparr>) f))"

definition ext2_ops :: "ext2_state nm_fs_ops" where
  "ext2_ops = \<lparr>fs_op_mount_root = Some ext2_mount_root, fs_op_lookup = ext2_lookup, fs_op_create = Some ext2_create\<rparr>"

definition ext2_filesystem :: "ext2_state nm_filesystem" where
  "ext2_filesystem = \<lparr>fsys_name = ''ext2'', fsys_ops = Some ext2_ops\<rparr>"

definition ext2_vnodes :: "ext2_state vnode_mem" where
  "ext2_vnodes = \<lparr>vm_ops = (\<lambda>n f. if vn_ops (e2_nodes f ! n) then Some ext2_file_ops else None), vm_size = (\<lambda>n f. vn_size (e2_nodes f ! n))\<rparr>"

section \<open>Invariant\<close>

definition e2_node :: "ext2_state \<Rightarrow> nat \<Rightarrow> bool" where
  "e2_node f n \<longleftrightarrow> n \<le> ext2_node_cursor f"

definition e2_entries :: "ext2_state \<Rightarrow> nat \<Rightarrow> nat list \<Rightarrow> bool" where
  "e2_entries f d cs \<longleftrightarrow> chain (e2_nodes f) (vn_children (e2_nodes f ! d)) cs \<and> distinct cs \<and> (\<forall>c \<in> set cs. e2_node f c)"

definition e2_node_ok :: "nm_vnode \<Rightarrow> bool" where
  "e2_node_ok node \<longleftrightarrow> vn_ops node \<and> vn_data node = None \<and> vn_size node = 0 \<and> unat (vn_ino node) < EXT2_MAX_INODES"

definition e2_ok :: "ext2_state \<Rightarrow> bool" where
  "e2_ok f \<longleftrightarrow> length (e2_nodes f) = Suc EXT2_NODES \<and> length (inode_meta f) = EXT2_MAX_INODES \<and> ext2_node_cursor f \<le> EXT2_NODES \<and>
     (\<forall>n. e2_node f n \<longrightarrow> e2_node_ok (e2_nodes f ! n) \<and> (\<exists>cs. e2_entries f n cs)) \<and>
     (\<forall>n. ext2_node_cursor f < n \<longrightarrow> n \<le> EXT2_NODES \<longrightarrow> vn_name (e2_nodes f ! n) = [])"

lemma e2_okD:
  assumes "e2_ok f" "e2_node f n"
  shows "n < length (e2_nodes f)" "e2_node_ok (e2_nodes f ! n)" "\<exists>cs. e2_entries f n cs"
  using assms by (auto simp: e2_ok_def e2_node_def)

lemma e2_lookup_entries:
  assumes "e2_ok f" "e2_entries f d cs"
  shows "ext2_lookup d name f = find (\<lambda>c. vn_name (e2_nodes f ! c) = name) cs"
proof -
  have "set cs \<subseteq> {..EXT2_NODES}" using assms by (auto simp: e2_entries_def e2_node_def e2_ok_def)
  then have "card (set cs) \<le> card {..EXT2_NODES}" by (intro card_mono) simp_all
  then have "length cs \<le> Suc EXT2_NODES" using assms(2) by (simp add: e2_entries_def distinct_card)
  then show ?thesis using find_child_chain [of "e2_nodes f" _ cs "Suc EXT2_NODES" name] assms(2) by (simp add: ext2_lookup_def e2_entries_def)
qed

lemma e2_lookup_node:
  assumes "e2_ok f" "e2_node f d" "ext2_lookup d name f = Some n"
  shows "e2_node f n"
proof -
  obtain cs where cs: "e2_entries f d cs" using e2_okD(3) [OF assms(1,2)] by blast
  from find_Some_set [OF trans [OF sym [OF assms(3)] e2_lookup_entries [OF assms(1) cs]]] show ?thesis using cs by (simp add: e2_entries_def)
qed

text \<open>The state after a successful create.\<close>

lemma e2_create_SomeD:
  assumes "e2_ok f" "e2_node f d" "length name < NM_NAME_MAX" "ext2_create d name ty mode f = (Some n, f')"
  shows "n = Suc (ext2_node_cursor f)" "n \<le> EXT2_NODES" "ext2_node_cursor f' = n" "length (e2_nodes f') = Suc EXT2_NODES"
    "length (inode_meta f') = EXT2_MAX_INODES" "ext2_lookup d name f = None"
    "e2_node_ok (e2_nodes f' ! n)" "vn_name (e2_nodes f' ! n) = name" "vn_next_sibling (e2_nodes f' ! n) = vn_children (e2_nodes f ! d)"
    "vn_children (e2_nodes f' ! n) = None" "vn_type (e2_nodes f' ! n) = ty"
    "\<And>m. m \<noteq> n \<Longrightarrow> e2_nodes f' ! m = (e2_nodes f ! m)\<lparr>vn_children := (if m = d then Some n else vn_children (e2_nodes f ! m))\<rparr>"
    "ext2_stat n f' = (0, \<lparr>st_ino = 12 + of_nat n, st_size = 0, st_mode = mode, st_uid = 0, st_gid = 0, st_nlink = 1, st_blocks = 0\<rparr>)"
proof -
  let ?n = "Suc (ext2_node_cursor f)" and ?ino = "12 + of_nat (Suc (ext2_node_cursor f)) :: u64"
  have t: "vn_type (e2_nodes f ! d) = NM_NODE_DIR" "ext2_node_cursor f < EXT2_NODES" "ext2_lookup d name f = None"
    using assms(4) by (auto simp: ext2_create_def split: if_splits)
  show "n = ?n" using assms(4) t by (auto simp: ext2_create_def Let_def)
  note n = this
  show "n \<le> EXT2_NODES" "ext2_lookup d name f = None" using t n by auto
  have d: "d < ?n" using assms(2) by (simp add: e2_node_def)
  have l: "length (e2_nodes f) = Suc EXT2_NODES" "length (inode_meta f) = EXT2_MAX_INODES" "vn_name (e2_nodes f ! ?n) = []"
    using assms(1) t(2) by (auto simp: e2_ok_def)
  have "?ino = of_nat (13 + ext2_node_cursor f)" "13 + ext2_node_cursor f < 2 ^ 64" using t(2) by (simp_all add: EXT2_NODES_def)
  then have ino: "unat ?ino = 13 + ext2_node_cursor f" using unat_of_nat64 by presburger
  then have ino': "unat ?ino < EXT2_MAX_INODES" using t(2) by (simp add: EXT2_NODES_def EXT2_MAX_INODES_def)
  have nm: "(if name = [] then vn_name (e2_nodes f ! ?n) else take (NM_NAME_MAX - 1) name) = name"
    using assms(3) l(3) by (simp add: NM_NAME_MAX_def)
  define node where "node = (e2_nodes f ! ?n)\<lparr>vn_used := True, vn_ino := ?ino, vn_type := ty, vn_mode := mode, vn_uid := 0, vn_gid := 0,
      vn_parent := Some d, vn_children := None, vn_next_sibling := vn_children (e2_nodes f ! d), vn_ops := True, vn_size := 0,
      vn_capacity := 4096, vn_data := None,
      vn_name := (if name = [] then vn_name (e2_nodes f ! ?n) else take (NM_NAME_MAX - 1) name)\<rparr>"
  define meta where "meta = (inode_meta f)[unat ?ino := (inode_meta f ! unat ?ino)\<lparr>im_mode := mode, im_uid := 0, im_gid := 0, im_links := 1, im_blocks := 0\<rparr>]"
  have "f' = snd (ext2_create d name ty mode f)" using assms(4) by simp
  then have f': "ext2_node_cursor f' = ?n" "e2_nodes f' = ((e2_nodes f)[?n := node])[d := (e2_nodes f ! d)\<lparr>vn_children := Some ?n\<rparr>]" "inode_meta f' = meta"
    using t d ino' l(1,2) unfolding node_def meta_def by (simp_all add: ext2_create_def Let_def upd_e2_def upd_meta_def)
  have at: "e2_nodes f' ! n = node" using f' n d t(2) l(1) by simp
  show "ext2_node_cursor f' = n" "length (e2_nodes f') = Suc EXT2_NODES" "length (inode_meta f') = EXT2_MAX_INODES"
    using f' n l by (simp_all add: meta_def)
  show "e2_node_ok (e2_nodes f' ! n)" "vn_name (e2_nodes f' ! n) = name" "vn_next_sibling (e2_nodes f' ! n) = vn_children (e2_nodes f ! d)"
    "vn_children (e2_nodes f' ! n) = None" "vn_type (e2_nodes f' ! n) = ty"
    unfolding at node_def using ino' nm by (simp_all add: e2_node_ok_def)
  show "e2_nodes f' ! m = (e2_nodes f ! m)\<lparr>vn_children := (if m = d then Some n else vn_children (e2_nodes f ! m))\<rparr>" if "m \<noteq> n" for m
    using f' n d t(2) l(1) that by simp
  show "ext2_stat n f' = (0, \<lparr>st_ino = 12 + of_nat n, st_size = 0, st_mode = mode, st_uid = 0, st_gid = 0, st_nlink = 1, st_blocks = 0\<rparr>)"
    unfolding ext2_stat_def at using f' n ino' l(2) by (simp add: node_def meta_def Let_def)
qed

lemma e2_create_entries:
  assumes "e2_ok f" "e2_node f d" "length name < NM_NAME_MAX" "ext2_create d name ty mode f = (Some n, f')" "e2_node f k" "e2_entries f k cs"
  shows "e2_entries f' k (if k = d then n # cs else cs)"
proof -
  note c = e2_create_SomeD [OF assms(1-4)]
  have old: "m \<noteq> n" "vn_next_sibling (e2_nodes f' ! m) = vn_next_sibling (e2_nodes f ! m)" if "e2_node f m" for m
    using that c(1) c(12) [of m] by (auto simp: e2_node_def)
  have ch: "chain (e2_nodes f') cur cs = chain (e2_nodes f) cur cs" for cur
    by (rule chain_frame) (use assms(6) old in \<open>auto simp: e2_entries_def\<close>)
  have kids: "vn_children (e2_nodes f' ! k) = (if k = d then Some n else vn_children (e2_nodes f ! k))"
    using c(12) [OF old(1) [OF assms(5)]] by simp
  have nd: "e2_node f' m" if "e2_node f m \<or> m = n" for m using that c(1,3) by (auto simp: e2_node_def)
  have "n \<notin> set cs" using assms(6) old(1) by (auto simp: e2_entries_def)
  then show ?thesis
    using assms(6) kids ch nd c(9) by (auto simp: e2_entries_def)
qed

lemma e2_create_ok:
  assumes "e2_ok f" "e2_node f d" "length name < NM_NAME_MAX" "ext2_create d name ty mode f = (Some n, f')"
  shows "e2_ok f'"
proof -
  note c = e2_create_SomeD [OF assms]
  have "e2_node_ok (e2_nodes f' ! m) \<and> (\<exists>cs. e2_entries f' m cs)" if "e2_node f' m" for m
  proof (cases "m = n")
    case True
    then have "e2_entries f' m []" using c(10) by (simp add: e2_entries_def)
    then show ?thesis using True c(7) by blast
  next
    case False
    then have m: "e2_node f m" using that c(1,3) by (auto simp: e2_node_def)
    obtain cs where "e2_entries f m cs" using e2_okD(3) [OF assms(1) m] by blast
    then show ?thesis using e2_create_entries [OF assms m] c(12) [OF False] e2_okD(2) [OF assms(1) m] by (auto simp: e2_node_ok_def)
  qed
  moreover have "vn_name (e2_nodes f' ! m) = []" if "ext2_node_cursor f' < m" "m \<le> EXT2_NODES" for m
    using that assms(1) c(1,3) c(12) [of m] by (simp add: e2_ok_def)
  ultimately show ?thesis using c(2-5) by (simp add: e2_ok_def)
qed

lemma e2_create_lookup:
  assumes "e2_ok f" "e2_node f d" "length name < NM_NAME_MAX" "ext2_create d name ty mode f = (Some n, f')" "e2_node f k"
  shows "ext2_lookup k name' f' = (if (k, name') = (d, name) then Some n else ext2_lookup k name' f)"
proof -
  note c = e2_create_SomeD [OF assms(1-4)] and ok = e2_create_ok [OF assms(1-4)]
  obtain cs where cs: "e2_entries f k cs" using e2_okD(3) [OF assms(1,5)] by blast
  note lk = e2_lookup_entries [OF assms(1) cs] and lk' = e2_lookup_entries [OF ok e2_create_entries [OF assms cs]]
  have "\<forall>m \<in> set cs. (vn_name (e2_nodes f' ! m) = name') = (vn_name (e2_nodes f ! m) = name')"
    using cs c(1,12) by (auto simp: e2_entries_def e2_node_def)
  then have same: "find (\<lambda>m. vn_name (e2_nodes f' ! m) = name') cs = find (\<lambda>m. vn_name (e2_nodes f ! m) = name') cs" by (rule find_frame)
  show ?thesis
  proof (cases "k = d")
    case True
    then show ?thesis unfolding lk lk' using same c(8) by simp
  next
    case False
    then show ?thesis unfolding lk lk' using same by simp
  qed
qed

lemma e2_create_fails: "ext2_create d name ty mode f = (None, f') \<Longrightarrow> f' = f"
  by (auto simp: ext2_create_def Let_def split: if_splits)

lemma ext2_ops_simps [simp]: "fs_op_lookup ext2_ops = ext2_lookup" "fs_op_create ext2_ops = Some ext2_create" "fs_op_mount_root ext2_ops = Some ext2_mount_root"
  by (simp_all add: ext2_ops_def)

interpretation e2dir: dir_store ext2_ops ext2_create e2_ok e2_node
proof
  show "fs_op_create ext2_ops = Some ext2_create" by simp
  show "e2_node f n" if "e2_ok f" "e2_node f d" "fs_op_lookup ext2_ops d name f = Some n" for f d name n
    using e2_lookup_node that by simp
  show "f' = f" if "ext2_create d name ty mode f = (None, f')" for f d name ty mode f' by (rule e2_create_fails [OF that])
  fix f d name ty mode n f'
  assume a: "e2_ok f" "e2_node f d" "length name < NM_NAME_MAX" "ext2_create d name ty mode f = (Some n, f')"
  note c = e2_create_SomeD [OF a]
  show "e2_ok f' \<and> e2_node f' n \<and> fs_op_lookup ext2_ops d name f = None \<and> fs_op_lookup ext2_ops d name f' = Some n \<and>
      (\<forall>m. e2_node f m \<longrightarrow> e2_node f' m) \<and>
      (\<forall>d' name'. e2_node f d' \<longrightarrow> (d', name') \<noteq> (d, name) \<longrightarrow> fs_op_lookup ext2_ops d' name' f' = fs_op_lookup ext2_ops d' name' f)"
    using e2_create_ok [OF a] c(1,3,6) e2_create_lookup [OF a] a(2) by (auto simp: e2_node_def)
qed

text \<open>Mounting again gives an empty root; the nodes that were handed out stay handed out.\<close>

lemma ext2_mount_ok:
  assumes "e2_ok f" "ext2_mount_root f = (r, f')"
  shows "r = Some 0" "e2_ok f'" "e2_node f' 0" "ext2_lookup 0 name f' = None"
proof -
  have l: "length (e2_nodes f) = Suc EXT2_NODES" "length (inode_meta f) = EXT2_MAX_INODES" using assms(1) by (simp_all add: e2_ok_def)
  have f': "ext2_node_cursor f' = ext2_node_cursor f" "length (inode_meta f') = EXT2_MAX_INODES" "length (e2_nodes f') = Suc EXT2_NODES"
    "\<And>m. m \<noteq> 0 \<Longrightarrow> e2_nodes f' ! m = e2_nodes f ! m" "vn_children (e2_nodes f' ! 0) = None" "e2_node_ok (e2_nodes f' ! 0)"
    "vn_next_sibling (e2_nodes f' ! 0) = None" and r: "r = Some 0"
    using assms(2) l by (auto simp: ext2_mount_root_def upd_e2_def upd_meta_def e2_node_ok_def EXT2_MAX_INODES_def split: if_splits)
  show "r = Some 0" by (rule r)
  have root: "e2_entries f' 0 []" using f'(5) by (simp add: e2_entries_def)
  have "\<exists>cs. e2_entries f' m cs" if m: "e2_node f m" "m \<noteq> 0" for m
  proof -
    obtain cs where cs: "e2_entries f m cs" using e2_okD(3) [OF assms(1) m(1)] by blast
    have ent: "chain (e2_nodes f) cur cs \<Longrightarrow> \<exists>cs'. chain (e2_nodes f') cur cs' \<and> set cs' \<subseteq> set cs \<and> (distinct cs \<longrightarrow> distinct cs')" for cur
    proof (induction cs arbitrary: cur)
      case Nil
      then show ?case by (intro exI [of _ "[]"]) simp
    next
      case (Cons c cs)
      show ?case
      proof (cases "c = 0")
        case True
        then show ?thesis using Cons.prems f'(7) by (intro exI [of _ "[0]"]) simp
      next
        case False
        then obtain cs' where "chain (e2_nodes f') (vn_next_sibling (e2_nodes f ! c)) cs'" "set cs' \<subseteq> set cs" "distinct cs \<longrightarrow> distinct cs'"
          using Cons by auto
        then show ?thesis using Cons.prems False f'(4) by (intro exI [of _ "c # cs'"]) auto
      qed
    qed
    then obtain cs' where "chain (e2_nodes f') (vn_children (e2_nodes f ! m)) cs'" "set cs' \<subseteq> set cs" "distinct cs'"
      using cs unfolding e2_entries_def by blast
    then show ?thesis using cs f'(1) f'(4) [OF m(2)] by (auto simp: e2_entries_def e2_node_def)
  qed
  then have "e2_node_ok (e2_nodes f' ! m) \<and> (\<exists>cs. e2_entries f' m cs)" if "e2_node f' m" for m
    using that root f'(1,4,6) e2_okD(2) [OF assms(1), of m] by (cases "m = 0") (auto simp: e2_node_def)
  then show ok: "e2_ok f'" using f'(1-4) assms(1) by (auto simp: e2_ok_def)
  show "e2_node f' 0" by (simp add: e2_node_def)
  show "ext2_lookup 0 name f' = None" using e2_lookup_entries [OF ok root] by simp
qed

section \<open>Through the virtual file system\<close>

lemma e2_io:
  assumes "e2_ok f" "e2_node f n" "open_file fd st = Some fl" "f_vnode fl = Some n"
  shows "fs_write ext2_vnodes fd (Some buf) st f = Some (NM_ERR NM_EFAIL, st, f)" "fs_read ext2_vnodes fd True len st f = (0, [], st)"
proof -
  note n = e2_okD(2) [OF assms(1,2)]
  have ops: "vm_ops ext2_vnodes n f = Some ext2_file_ops" using n by (simp add: ext2_vnodes_def e2_node_ok_def)
  show "fs_write ext2_vnodes fd (Some buf) st f = Some (NM_ERR NM_EFAIL, st, f)"
    using assms(3,4) ops n by (simp add: fs_write_def ext2_file_ops_def ext2_write_def advance_def NM_ERR_def e2_node_ok_def Let_def)
  show "fs_read ext2_vnodes fd True len st f = (0, [], st)"
    using assms(3,4) ops n by (simp add: fs_read_def ext2_file_ops_def ext2_read_def advance_def e2_node_ok_def Let_def)
qed

text \<open>
  C33: On the ext2 driver of the kernel build, opening a new path with the create flag creates a file that
  every later open finds, with the permissions, size and link count it should have; but the file has
  no data block, so every write through the descriptor fails and every read returns nothing,
  without any change of state. The host tests, which allocate the blocks, do not see this.
\<close>

theorem ext2_files_cannot_be_written:
  assumes "e2_ok f" "mounted ext2_ops root st" "e2_node f root" "length (file_table st) = NM_FD_MAX" "good_path p"
    "fst (resolve_path st f (Some p) False) = None" "flags AND NM_O_CREAT \<noteq> 0"
    "fs_open ext2_vnodes (Some p) flags mode st f = (fd, st1, f1)" "0 \<le> fd"
  shows "\<exists>n. \<not> e2_node f n \<and> e2_ok f1 \<and> open_node p flags' st f1 = (Some n, f1) \<and>
    ext2_stat n f1 = (0, \<lparr>st_ino = 12 + of_nat n, st_size = 0, st_mode = 0x1A4, st_uid = 0, st_gid = 0, st_nlink = 1, st_blocks = 0\<rparr>) \<and>
    (\<forall>buf. fs_write ext2_vnodes fd (Some buf) st1 f1 = Some (NM_ERR NM_EFAIL, st1, f1)) \<and>
    (\<forall>len. fs_read ext2_vnodes fd True len st1 f1 = (0, [], st1))"
proof -
  let ?ps = "path_parts p"
  obtain n f' where on: "open_node p flags st f = (Some n, f')"
    using assms(8,9) by (cases "open_node p flags st f") (auto simp: fs_open_def split: option.splits)
  obtain d where d: "walk (\<lambda>d name. fs_op_lookup ext2_ops d name f) root (butlast ?ps) = Some d"
    and cr: "ext2_create d (last ?ps) NM_NODE_FILE 0x1A4 f = (Some n, f')"
    using on assms(2,6,7) resolve_good(2) [OF assms(2,5), of f]
    by (auto simp: open_node_def mounted_def e2dir.create_op split: option.splits if_splits)
  have ld: "e2_node f d" by (rule e2dir.walk_node [OF assms(1,3) d])
  have len: "length (last ?ps) < NM_NAME_MAX"
    using assms(5) by (simp add: path_parts_def last_map good_path_def NM_NAME_MAX_def)
  note c = e2_create_SomeD [OF assms(1) ld len cr]
  have lk: "fs_op_lookup ext2_ops d (last ?ps) f = None" using c(6) by simp
  note oc = e2dir.open_creates [OF assms(1,2,3,5) d lk assms(7) cr]
  have ops: "vm_ops ext2_vnodes n f' = Some ext2_file_ops" using c(7) by (simp add: ext2_vnodes_def e2_node_ok_def)
  obtain i table where a: "alloc_fd (file_table st) = Some (i, table)"
    using assms(8,9) on ops by (cases "alloc_fd (file_table st)") (auto simp: fs_open_def NM_ERR_def)
  note al = vfiles.alloc_SomeD [OF a]
  have fo: "fd = int i" "f1 = f'" "st1 = st\<lparr>file_table := table[i := (table ! i)\<lparr>f_vnode := Some n, f_flags := flags, f_offset := 0\<rparr>]\<rparr>"
    using assms(8) on ops a by (auto simp: fs_open_def ext2_file_ops_def ext2_open_def)
  obtain fl where fl: "open_file fd st1 = Some fl" "f_vnode fl = Some n"
    using fo al assms(4) by (auto simp: open_file_def fresh_file_def)
  have nn: "\<not> e2_node f n" using c(1) by (simp add: e2_node_def)
  show ?thesis
    using nn oc(2) [of flags'] oc(3,4) c(13) fo(2) e2_io [OF oc(3,4) fl] by (intro exI [of _ n]) simp
qed

section \<open>Witnesses\<close>

definition boot_ext2 :: ext2_state where
  "boot_ext2 = \<lparr>e2_nodes = replicate 257 blank_vnode, ext2_node_cursor = 0,
     inode_meta = replicate 1024 \<lparr>im_mode = 0, im_uid = 0, im_gid = 0, im_links = 0, im_blocks = 0\<rparr>\<rparr>"

definition ext2_vfs :: "ext2_state vfs_state" where
  "ext2_vfs = fst (snd (fs_mount_root (Some ext2_filesystem) boot_vfs boot_ext2))"

definition ext2_mounted :: ext2_state where
  "ext2_mounted = snd (ext2_mount_root boot_ext2)"

lemma ext2_mounted_ok: "e2_ok ext2_mounted" "mounted ext2_ops 0 ext2_vfs" "e2_node ext2_mounted 0" "length (file_table ext2_vfs) = NM_FD_MAX"
proof -
  have m: "ext2_mount_root boot_ext2 = (Some 0, ext2_mounted)" by (simp add: ext2_mounted_def ext2_mount_root_def)
  have "e2_entries ext2_mounted 0 []"
    by (simp add: e2_entries_def ext2_mounted_def ext2_mount_root_def boot_ext2_def upd_e2_def upd_meta_def)
  then show "e2_ok ext2_mounted" "e2_node ext2_mounted 0"
    by (auto simp: e2_ok_def e2_node_def e2_node_ok_def ext2_mounted_def ext2_mount_root_def boot_ext2_def upd_e2_def upd_meta_def
      blank_vnode_def EXT2_NODES_def EXT2_MAX_INODES_def)
  show "mounted ext2_ops 0 ext2_vfs" "length (file_table ext2_vfs) = NM_FD_MAX"
    using m by (simp_all add: mounted_def ext2_vfs_def fs_mount_root_def ext2_filesystem_def boot_vfs_def)
qed

theorem ext2_files_cannot_be_written_witness:
  "\<exists>st1 f1. fs_open ext2_vnodes (Some ''/a'') 0x40 0 ext2_vfs ext2_mounted = (0, st1, f1) \<and>
    fs_write ext2_vnodes 0 (Some [1]) st1 f1 = Some (NM_ERR NM_EFAIL, st1, f1)"
proof -
  have r: "fst (fs_open ext2_vnodes (Some ''/a'') 0x40 0 ext2_vfs ext2_mounted) = 0" "fst (resolve_path ext2_vfs ext2_mounted (Some ''/a'') False) = None"
    by code_simp+
  obtain st1 f1 where o: "fs_open ext2_vnodes (Some ''/a'') 0x40 0 ext2_vfs ext2_mounted = (0, st1, f1)" using r(1) by (metis prod.collapse)
  have "fs_write ext2_vnodes 0 (Some [1]) st1 f1 = Some (NM_ERR NM_EFAIL, st1, f1)"
    using ext2_files_cannot_be_written [OF ext2_mounted_ok opened_eval(6) r(2) _ o, of 0] by (auto simp: NM_O_CREAT_def)
  then show ?thesis using o by blast
qed

end
